(* ===== verification/Binius_Prelude.thy ===== *)
theory Binius_Prelude
  imports Main "HOL-Library.Word"
begin

text \<open>
  Shared vocabulary of the development: the machine types of the Rust sources, the
  outcome of an operation that may return an error or panic, and the generic lemmas
  on words and lists the components share.

  A \<open>usize\<close> is a 64-bit count in the sources; it is modelled by \<open>nat\<close>, and every
  place where a count can reach the width (a checked addition, a cast) writes the
  bound out.  Overlong amounts of a shift on words follow the release profile: the amount is
  reduced modulo the width.
\<close>

unbundle bit_operations_syntax

type_synonym u8 = "8 word"
type_synonym u16 = "16 word"
type_synonym u32 = "32 word"
type_synonym u64 = "64 word"
type_synonym u128 = "128 word"

named_theorems op_bits \<open>which bit of the argument each bit of a word operation reads\<close>
named_theorems outcome_simps \<open>how outcomes propagate through a sequence of steps\<close>

section \<open>Outcomes\<close>

text \<open>
  \<open>Ok\<close> and \<open>Err\<close> are the two constructors of Rust's \<open>Result\<close>; \<open>Panic\<close> is an unwinding
  panic (a failed assertion, an index out of range).
\<close>

datatype ('e, 'a) outcome = Ok 'a | Err 'e | Panic

primrec and_then :: "('e, 'a) outcome \<Rightarrow> ('a \<Rightarrow> ('e, 'b) outcome) \<Rightarrow> ('e, 'b) outcome" where
  "and_then (Ok x) f = f x"
| "and_then (Err e) f = Err e"
| "and_then Panic f = Panic"

primrec map_err :: "('e \<Rightarrow> 'f) \<Rightarrow> ('e, 'a) outcome \<Rightarrow> ('f, 'a) outcome" where
  "map_err g (Ok x) = Ok x"
| "map_err g (Err e) = Err (g e)"
| "map_err g Panic = Panic"

primrec or_panic :: "'a option \<Rightarrow> ('e, 'a) outcome" where
  "or_panic None = Panic"
| "or_panic (Some x) = Ok x"

text \<open>A \<open>for\<close> loop whose body may return early or panic, over the items with their positions.\<close>

fun for_enum :: "nat \<Rightarrow> (nat \<Rightarrow> 'a \<Rightarrow> ('e, unit) outcome) \<Rightarrow> 'a list \<Rightarrow> ('e, unit) outcome" where
  "for_enum i f [] = Ok ()"
| "for_enum i f (x # xs) = and_then (f i x) (\<lambda>_. for_enum (Suc i) f xs)"

lemma and_then_eq_Ok [outcome_simps]:
  "and_then m f = Ok y \<longleftrightarrow> (\<exists>x. m = Ok x \<and> f x = Ok y)"
  by (cases m) auto

lemma and_then_eq_Panic [outcome_simps]:
  "and_then m f = Panic \<longleftrightarrow> m = Panic \<or> (\<exists>x. m = Ok x \<and> f x = Panic)"
  by (cases m) auto

lemma and_then_eq_Err [outcome_simps]:
  "and_then m f = Err e \<longleftrightarrow> m = Err e \<or> (\<exists>x. m = Ok x \<and> f x = Err e)"
  by (cases m) auto

lemma map_err_eq_Ok [outcome_simps]: "map_err g m = Ok y \<longleftrightarrow> m = Ok y"
  by (cases m) auto

lemma map_err_eq_Panic [outcome_simps]: "map_err g m = Panic \<longleftrightarrow> m = Panic"
  by (cases m) auto

lemma map_err_eq_Err [outcome_simps]: "map_err g m = Err e \<longleftrightarrow> (\<exists>d. m = Err d \<and> e = g d)"
  by (cases m) auto

lemma or_panic_eq_Ok [outcome_simps]: "or_panic o' = Ok y \<longleftrightarrow> o' = Some y"
  by (cases o') auto

lemma or_panic_eq_Panic [outcome_simps]: "or_panic o' = Panic \<longleftrightarrow> o' = None"
  by (cases o') auto

lemma or_panic_not_Err [simp]: "or_panic o' \<noteq> Err e"
  by (cases o') auto

lemma for_enum_eq_Ok:
  "for_enum i f xs = Ok () \<longleftrightarrow> (\<forall>k < length xs. f (i + k) (xs ! k) = Ok ())"
proof (induction xs arbitrary: i)
  case Nil
  then show ?case by simp
next
  case (Cons x xs)
  have "for_enum i f (x # xs) = Ok () \<longleftrightarrow> f i x = Ok () \<and> for_enum (Suc i) f xs = Ok ()"
    by (auto simp: outcome_simps)
  also have "\<dots> \<longleftrightarrow> (\<forall>k < length (x # xs). f (i + k) ((x # xs) ! k) = Ok ())"
    by (auto simp: Cons.IH less_Suc_eq_0_disj)
  finally show ?case .
qed

lemma for_enum_no_panic:
  "(\<And>k. k < length xs \<Longrightarrow> f (i + k) (xs ! k) \<noteq> Panic) \<Longrightarrow> for_enum i f xs \<noteq> Panic"
proof (induction xs arbitrary: i)
  case Nil
  then show ?case by simp
next
  case (Cons x xs)
  have "f i x \<noteq> Panic" using Cons.prems[of 0] by simp
  moreover have "for_enum (Suc i) f xs \<noteq> Panic"
    by (rule Cons.IH) (use Cons.prems[of "Suc _"] in simp)
  ultimately show ?case by (auto simp: outcome_simps)
qed

text \<open>The first failing position is the one reported.\<close>

lemma for_enum_eq_Err:
  "for_enum i f xs = Err e \<longleftrightarrow>
     (\<exists>k < length xs. f (i + k) (xs ! k) = Err e \<and> (\<forall>j < k. f (i + j) (xs ! j) = Ok ()))"
proof (induction xs arbitrary: i)
  case Nil
  then show ?case by simp
next
  case (Cons x xs)
  have "for_enum i f (x # xs) = Err e \<longleftrightarrow>
      f i x = Err e \<or> f i x = Ok () \<and> for_enum (Suc i) f xs = Err e"
    by (auto simp: outcome_simps)
  also have "\<dots> \<longleftrightarrow> (\<exists>k < length (x # xs). f (i + k) ((x # xs) ! k) = Err e \<and>
      (\<forall>j < k. f (i + j) ((x # xs) ! j) = Ok ()))"
    (is "?l \<longleftrightarrow> (\<exists>k < _. ?Q k)")
  proof -
    have "(\<exists>k < length (x # xs). ?Q k) \<longleftrightarrow> ?Q 0 \<or> (\<exists>k < length xs. ?Q (Suc k))"
      by (simp only: list.size add_0_right add_Suc_right Ex_less_Suc2)
    moreover have "?Q (Suc k) \<longleftrightarrow> f i x = Ok () \<and>
        f (Suc i + k) (xs ! k) = Err e \<and> (\<forall>j < k. f (Suc i + j) (xs ! j) = Ok ())" for k
      by (auto simp: All_less_Suc2)
    ultimately show ?thesis by (auto simp: Cons.IH)
  qed
  finally show ?case .
qed

lemma for_enum_eq_Panic:
  "for_enum i f xs = Panic \<longleftrightarrow>
     (\<exists>k < length xs. f (i + k) (xs ! k) = Panic \<and> (\<forall>j < k. f (i + j) (xs ! j) = Ok ()))"
proof (induction xs arbitrary: i)
  case Nil
  then show ?case by simp
next
  case (Cons x xs)
  let ?Q = "\<lambda>k. f (i + k) ((x # xs) ! k) = Panic \<and> (\<forall>j < k. f (i + j) ((x # xs) ! j) = Ok ())"
  have "(\<exists>k < length (x # xs). ?Q k) \<longleftrightarrow> ?Q 0 \<or> (\<exists>k < length xs. ?Q (Suc k))"
    by (simp only: list.size add_0_right add_Suc_right Ex_less_Suc2)
  moreover have "?Q (Suc k) \<longleftrightarrow> f i x = Ok () \<and>
      f (Suc i + k) (xs ! k) = Panic \<and> (\<forall>j < k. f (Suc i + j) (xs ! j) = Ok ())" for k
    by (auto simp: All_less_Suc2)
  moreover have "for_enum i f (x # xs) = Panic \<longleftrightarrow>
      f i x = Panic \<or> f i x = Ok () \<and> for_enum (Suc i) f xs = Panic"
    by (auto simp: outcome_simps)
  ultimately show ?case by (auto simp: Cons.IH)
qed

section \<open>Words\<close>

lemma unat_and_mask: "unat (w AND mask n :: 'a::len word) = unat w mod 2 ^ n"
  by (metis take_bit_eq_mask unsigned_take_bit_eq take_bit_eq_mod)

lemma unat_drop_bit: "unat (drop_bit n w :: 'a::len word) = unat w div 2 ^ n"
  by (metis drop_bit_eq_div unat_drop_bit_eq)

end
