(* ===== verification/Carry.thy ===== *)
theory Carry
  imports Binius_Prelude
begin

text \<open>
  Carries of a binary addition, as the reference the word-level carry formulas and the
  carry constraints of the gates are compared with: \<open>carry_at a b c i\<close> says that adding the
  \<open>i\<close> low bits of \<open>a\<close> and \<open>b\<close> and the carry-in \<open>c\<close> carries into position \<open>i\<close>.
\<close>

definition carry_at :: "nat \<Rightarrow> nat \<Rightarrow> nat \<Rightarrow> nat \<Rightarrow> bool" where
  "carry_at a b c i \<longleftrightarrow> 2 ^ i \<le> take_bit i a + take_bit i b + c"

lemma carry_at_0 [simp]: "carry_at a b c 0 \<longleftrightarrow> 1 \<le> c"
  by (simp add: carry_at_def)

lemma take_bit_Suc_top: "take_bit (Suc i) (a :: nat) = take_bit i a + (if bit a i then 2 ^ i else 0)"
  by (simp add: take_bit_Suc_from_most)

lemma carry_at_Suc:
  assumes "c \<le> 1"
  shows "carry_at a b c (Suc i) \<longleftrightarrow>
    (bit a i \<and> bit b i) \<or> ((bit a i \<noteq> bit b i) \<and> carry_at a b c i)"
proof -
  have "take_bit i a + 1 \<le> 2 ^ i" "take_bit i b + 1 \<le> 2 ^ i" by (simp_all add: Suc_leI)
  with assms show ?thesis
    by (cases "bit a i"; cases "bit b i") (auto simp: carry_at_def take_bit_Suc_top)
qed

lemma carry_quotient:
  assumes "c \<le> 1"
  shows "(take_bit i a + take_bit i b + c) div 2 ^ i = of_bool (carry_at a b c i)"
proof -
  have "take_bit i a < 2 ^ i" "take_bit i b < 2 ^ i" by simp_all
  with assms have "take_bit i a + take_bit i b + c < 2 * 2 ^ i" by linarith
  then show ?thesis
    by (auto simp: carry_at_def div_if)
qed

lemma bit_add_carry:
  assumes "c \<le> 1"
  shows "bit (a + b + c) i \<longleftrightarrow> ((bit a i \<noteq> bit b i) \<noteq> carry_at a b c i)"
proof -
  have split: "x = take_bit i x + 2 ^ i * (x div 2 ^ i)" for x :: nat
    by (simp add: take_bit_eq_mod)
  have "a + b + c = (take_bit i a + take_bit i b + c) + 2 ^ i * (a div 2 ^ i + b div 2 ^ i)"
    using split[of a] split[of b] by (simp add: algebra_simps)
  then have "(a + b + c) div 2 ^ i =
      (take_bit i a + take_bit i b + c) div 2 ^ i + (a div 2 ^ i + b div 2 ^ i)"
    by (metis add.commute div_mult_self2 power_not_zero zero_neq_numeral)
  then show ?thesis
    using carry_quotient[OF assms, of i a b] by (simp add: bit_iff_odd)
qed

lemma carry_at_take_bit:
  assumes "i \<le> n"
  shows "carry_at (take_bit n a) (take_bit n b) c i \<longleftrightarrow> carry_at a b c i"
  using assms by (simp add: carry_at_def take_bit_take_bit min_def)

text \<open>The recurrence determines the carries: any bit function that follows it is the carry function.\<close>

lemma carry_at_unique:
  assumes "c \<le> 1"
    and "f 0 \<longleftrightarrow> 1 \<le> c"
    and "\<And>i. i < n \<Longrightarrow> f (Suc i) \<longleftrightarrow> (bit a i \<and> bit b i) \<or> ((bit a i \<noteq> bit b i) \<and> f i)"
    and "i \<le> n"
  shows "f i \<longleftrightarrow> carry_at a b c i"
  using assms(4)
proof (induction i)
  case 0
  then show ?case using assms(2) by simp
next
  case (Suc i)
  then show ?case using assms(3)[of i] carry_at_Suc[OF assms(1), of a b i] by simp
qed

section \<open>Word additions\<close>

lemma bit_unat: "bit (unat w) i \<longleftrightarrow> bit (w :: 'a::len word) i"
  by transfer (auto simp: bit_simps)

lemma bit_word_add_carry:
  fixes a b c :: "'a::len word"
  assumes "c = 0 \<or> c = 1" and "i < LENGTH('a)"
  shows "bit (a + b + c) i \<longleftrightarrow> ((bit a i \<noteq> bit b i) \<noteq> carry_at (unat a) (unat b) (unat c) i)"
proof -
  have "unat (a + b + c) = take_bit LENGTH('a) (unat a + unat b + unat c)"
    by (simp add: unat_word_ariths take_bit_eq_mod mod_simps)
  then have "bit (a + b + c) i \<longleftrightarrow> bit (unat a + unat b + unat c) i"
    using assms(2) by (simp flip: bit_unat add: bit_take_bit_iff)
  moreover have "unat c \<le> 1" using assms(1) by auto
  ultimately show ?thesis by (simp add: bit_add_carry bit_unat)
qed

text \<open>
  The carry word \<open>(a AND b) OR ((a XOR b) AND NOT s)\<close> of a sum \<open>s\<close> holds at position \<open>i\<close>
  the carry out of position \<open>i\<close>.
\<close>

lemma carry_word_bits:
  fixes a b c :: "'a::len word"
  assumes "c = 0 \<or> c = 1" and "i < LENGTH('a)"
  shows "bit ((a AND b) OR ((a XOR b) AND NOT (a + b + c))) i \<longleftrightarrow>
    carry_at (unat a) (unat b) (unat c) (Suc i)"
proof -
  have "unat c \<le> 1" using assms(1) by auto
  then show ?thesis
    using bit_word_add_carry[OF assms, of a b] assms(2)
    by (auto simp: bit_simps carry_at_Suc bit_unat)
qed

text \<open>The carry out of the top position is the overflow of the sum.\<close>

lemma carry_at_top:
  fixes a b :: "'a::len word"
  shows "carry_at (unat a) (unat b) c (LENGTH('a)) \<longleftrightarrow> 2 ^ LENGTH('a) \<le> unat a + unat b + c"
proof -
  have "take_bit LENGTH('a) (unat x) = unat x" for x :: "'a word"
    by (simp add: take_bit_nat_eq_self unsigned_less)
  then show ?thesis by (simp add: carry_at_def)
qed

end
