(* ===== verification/Core_Word.thy ===== *)
theory Core_Word
  imports Carry
begin

text \<open>
  The 64-bit word of \<open>crates/core/src/word.rs\<close>.  The newtype \<open>Word(u64)\<close> is transparent and
  modelled by \<open>u64\<close> itself.  Every operation is translated from its body; the lemmas say
  which bit of the argument each bit of the result reads (collection \<open>op_bits\<close>), what the
  carry and borrow words mean, and that the wide products are exact.
\<close>

section \<open>Constants and bits\<close>

definition ZERO :: u64 where "ZERO = 0"
definition ONE :: u64 where "ONE = 1"
definition ALL_ONE :: u64 where "ALL_ONE = 0xFFFFFFFFFFFFFFFF"
definition MASK_32 :: u64 where "MASK_32 = 0x00000000FFFFFFFF"
definition MSB_ONE :: u64 where "MSB_ONE = 0x8000000000000000"

definition extract_bit :: "u64 \<Rightarrow> nat \<Rightarrow> bool" where
  "extract_bit w i = (drop_bit (i mod 64) w AND 1 = 1)"

section \<open>The two 32-bit halves\<close>

definition lo32 :: "u64 \<Rightarrow> u32" where "lo32 w = ucast w"
definition hi32 :: "u64 \<Rightarrow> u32" where "hi32 w = ucast (drop_bit 32 w)"

definition join32 :: "u32 \<Rightarrow> u32 \<Rightarrow> u64" where
  "join32 lo hi = ucast lo OR push_bit 32 (ucast hi)"

section \<open>Additions and subtractions with carry words\<close>

definition iadd32_cin_cout :: "u64 \<Rightarrow> u64 \<Rightarrow> u64 \<Rightarrow> u64 \<times> u64" where
  "iadd32_cin_cout lhs rhs cin =
    (let cin_lo = drop_bit 31 cin AND 1;
         cin_hi = drop_bit 63 cin AND 1;
         lo_l = lo32 lhs; hi_l = hi32 lhs;
         lo_r = lo32 rhs; hi_r = hi32 rhs;
         lo_sum = (ucast lo_l :: u64) + ucast lo_r + cin_lo;
         hi_sum = (ucast hi_l :: u64) + ucast hi_r + cin_hi;
         sum = (ucast (lo32 lo_sum) :: u64) OR push_bit 32 (ucast (lo32 hi_sum));
         cout = (lhs AND rhs) OR ((lhs XOR rhs) AND NOT sum)
     in (sum, cout))"

definition iadd_cout_32 :: "u64 \<Rightarrow> u64 \<Rightarrow> u64 \<times> u64" where
  "iadd_cout_32 lhs rhs = iadd32_cin_cout lhs rhs ZERO"

text \<open>The two \<open>debug_assert\<close>s on the carry-in are compiled out of a release build.\<close>

definition iadd_cin_cout :: "u64 \<Rightarrow> u64 \<Rightarrow> u64 \<Rightarrow> u64 \<times> u64" where
  "iadd_cin_cout lhs rhs cin =
    (let sum = lhs + rhs + cin;
         cout = (lhs AND rhs) OR ((lhs XOR rhs) AND NOT sum)
     in (sum, cout))"

definition isub_bin_bout :: "u64 \<Rightarrow> u64 \<Rightarrow> u64 \<Rightarrow> u64 \<times> u64" where
  "isub_bin_bout lhs rhs bin =
    (let diff = lhs - rhs - bin;
         bout = (NOT lhs AND rhs) OR (NOT (lhs XOR rhs) AND diff)
     in (diff, bout))"

section \<open>Shifts and rotations\<close>

definition shl :: "u64 \<Rightarrow> nat \<Rightarrow> u64" where "shl w n = push_bit (n mod 64) w"
definition shr :: "u64 \<Rightarrow> nat \<Rightarrow> u64" where "shr w n = drop_bit (n mod 64) w"

definition shr_32 :: "u64 \<Rightarrow> nat \<Rightarrow> u64" where
  "shr_32 w n = drop_bit (n mod 64) w AND MASK_32"

definition sar :: "u64 \<Rightarrow> nat \<Rightarrow> u64" where "sar w n = signed_drop_bit (n mod 64) w"
definition rotr :: "u64 \<Rightarrow> nat \<Rightarrow> u64" where "rotr w n = word_rotr (n mod 64) w"

definition sll32 :: "u64 \<Rightarrow> nat \<Rightarrow> u64" where
  "sll32 w n = (let n = n mod 32 in join32 (push_bit n (lo32 w)) (push_bit n (hi32 w)))"

definition srl32 :: "u64 \<Rightarrow> nat \<Rightarrow> u64" where
  "srl32 w n = (let n = n mod 32 in join32 (drop_bit n (lo32 w)) (drop_bit n (hi32 w)))"

definition sra32 :: "u64 \<Rightarrow> nat \<Rightarrow> u64" where
  "sra32 w n =
    (let n = n mod 32 in join32 (signed_drop_bit n (lo32 w)) (signed_drop_bit n (hi32 w)))"

definition rotr32 :: "u64 \<Rightarrow> nat \<Rightarrow> u64" where
  "rotr32 w n = (let n = n mod 32 in join32 (word_rotr n (lo32 w)) (word_rotr n (hi32 w)))"

section \<open>Products\<close>

definition imul :: "u64 \<Rightarrow> u64 \<Rightarrow> u64 \<times> u64" where
  "imul lhs rhs =
    (let result = (ucast lhs :: u128) * ucast rhs
     in (ucast (drop_bit 64 result), ucast result))"

definition smul :: "u64 \<Rightarrow> u64 \<Rightarrow> u64 \<times> u64" where
  "smul lhs rhs =
    (let a = (scast lhs :: u128);
         b = (scast rhs :: u128);
         result = a * b
     in (ucast (signed_drop_bit 64 result), ucast result))"

section \<open>Wrapping arithmetic, conversions, MSB-bools, bitwise operators\<close>

definition wrapping_add :: "u64 \<Rightarrow> u64 \<Rightarrow> u64" where "wrapping_add a b = a + b"
definition wrapping_sub :: "u64 \<Rightarrow> u64 \<Rightarrow> u64" where "wrapping_sub a b = a - b"
definition is_msb_true :: "u64 \<Rightarrow> bool" where "is_msb_true w \<longleftrightarrow> w AND MSB_ONE \<noteq> 0"
definition is_msb_false :: "u64 \<Rightarrow> bool" where "is_msb_false w \<longleftrightarrow> \<not> is_msb_true w"

section \<open>Bit-level meaning\<close>

lemma bit_ALL_ONE [simp]: "bit ALL_ONE i \<longleftrightarrow> i < 64"
proof -
  have "ALL_ONE = (mask 64 :: u64)" by (simp add: ALL_ONE_def mask_eq_exp_minus_1)
  show ?thesis unfolding \<open>ALL_ONE = _\<close> by (auto simp: bit_mask_iff possible_bit_word)
qed

lemma bit_MASK_32 [simp]: "bit MASK_32 i \<longleftrightarrow> i < 32"
proof -
  have "MASK_32 = (mask 32 :: u64)" by (simp add: MASK_32_def mask_eq_exp_minus_1)
  show ?thesis unfolding \<open>MASK_32 = _\<close> by (auto simp: bit_mask_iff possible_bit_word)
qed

lemma bit_MSB_ONE [simp]: "bit MSB_ONE i \<longleftrightarrow> i = 63"
proof -
  have "MSB_ONE = (2 ^ 63 :: u64)" by (simp add: MSB_ONE_def)
  show ?thesis unfolding \<open>MSB_ONE = _\<close> bit_exp_iff by auto
qed

lemma bit_lo32 [op_bits]: "bit (lo32 w) i \<longleftrightarrow> i < 32 \<and> bit w i"
  by (auto simp: lo32_def bit_simps)

lemma bit_hi32 [op_bits]: "bit (hi32 w) i \<longleftrightarrow> i < 32 \<and> bit w (32 + i)"
  by (auto simp: hi32_def bit_simps)

lemma bit_join32 [op_bits]:
  "bit (join32 lo hi) i \<longleftrightarrow> (if i < 32 then bit lo i else i < 64 \<and> bit hi (i - 32))"
  by (auto simp: join32_def bit_simps dest: bit_imp_le_length)

lemma bit_shl [op_bits]: "bit (shl w n) i \<longleftrightarrow> i < 64 \<and> n mod 64 \<le> i \<and> bit w (i - n mod 64)"
  by (auto simp: shl_def bit_simps)

lemma bit_shr [op_bits]: "bit (shr w n) i \<longleftrightarrow> bit w (n mod 64 + i)"
  by (simp add: shr_def bit_simps)

lemma bit_sar [op_bits]:
  "bit (sar w n) i \<longleftrightarrow> i < 64 \<and> bit w (min (n mod 64 + i) 63)"
  using bit_imp_le_length[of w "n mod 64 + i"]
  by (cases "i < 64") (auto simp: sar_def bit_simps min_def not_less le_Suc_eq)

lemma bit_rotr [op_bits]: "bit (rotr w n) i \<longleftrightarrow> i < 64 \<and> bit w ((i + n) mod 64)"
  by (simp add: rotr_def bit_word_rotr_iff mod_simps)

text \<open>A bit position of a word lies in the low or in the high half.\<close>

lemma half_cases:
  assumes "(i :: nat) < 64"
  obtains (lo) "i < 32" "i div 32 = 0" "i mod 32 = i"
    | (hi) k where "k < 32" "i = 32 + k" "i div 32 = 1" "i mod 32 = k"
proof (cases "i < 32")
  case True
  with that(1) show thesis by simp
next
  case False
  with assms that(2)[of "i - 32"] show thesis by (simp add: mod_if div_if)
qed

lemma bit_sll32 [op_bits]:
  "bit (sll32 w n) i \<longleftrightarrow> i < 64 \<and> n mod 32 \<le> i mod 32 \<and> bit w (i - n mod 32)"
proof (cases "i < 64")
  case True
  then show ?thesis
    by (cases rule: half_cases) (auto simp: sll32_def Let_def op_bits bit_push_bit_iff)
qed (use bit_imp_le_length[of "sll32 w n" i] in auto)

lemma bit_srl32 [op_bits]:
  "bit (srl32 w n) i \<longleftrightarrow> i < 64 \<and> i mod 32 + n mod 32 < 32 \<and> bit w (i + n mod 32)"
proof (cases "i < 64")
  case True
  then show ?thesis
    by (cases rule: half_cases) (auto simp: srl32_def Let_def op_bits bit_drop_bit_eq ac_simps)
qed (use bit_imp_le_length[of "srl32 w n" i] in auto)

lemma bit_signed_drop_bit_32:
  "bit (signed_drop_bit m (v :: u32)) k \<longleftrightarrow> k < 32 \<and> bit v (min (k + m) 31)"
proof -
  have "bit (signed_drop_bit m v) k \<longleftrightarrow> bit v (if 32 - m \<le> k \<and> k < 32 then 31 else m + k)"
    by (subst bit_signed_drop_bit_iff) simp
  moreover have "\<not> bit v (m + k)" if "32 \<le> k"
    using that bit_imp_le_length[of v "m + k"] by auto
  moreover have "min (k + m) 31 = (if 32 - m \<le> k then 31 else m + k)" if "k < 32"
    using that by auto
  ultimately show ?thesis by (cases "k < 32") simp_all
qed

lemma bit_sra32 [op_bits]:
  "bit (sra32 w n) i \<longleftrightarrow> i < 64 \<and> bit w (32 * (i div 32) + min (i mod 32 + n mod 32) 31)"
proof (cases "i < 64")
  case True
  then show ?thesis
    by (cases rule: half_cases)
      (simp_all add: sra32_def Let_def op_bits bit_signed_drop_bit_32 min_less_iff_disj)
qed (use bit_imp_le_length[of "sra32 w n" i] in auto)

lemma bit_rotr32 [op_bits]:
  "bit (rotr32 w n) i \<longleftrightarrow> i < 64 \<and> bit w (32 * (i div 32) + (i + n) mod 32)"
proof (cases "i < 64")
  case True
  then show ?thesis
    by (cases rule: half_cases)
      (simp_all add: rotr32_def Let_def op_bits bit_word_rotr_iff mod_simps add.assoc)
qed (use bit_imp_le_length[of "rotr32 w n" i] in auto)


section \<open>Carry and borrow words\<close>

definition carry_word :: "'a::len word \<Rightarrow> 'a word \<Rightarrow> 'a word \<Rightarrow> 'a word" where
  "carry_word a b s = (a AND b) OR ((a XOR b) AND NOT s)"

lemma iadd_cin_cout_eq: "iadd_cin_cout a b c = (a + b + c, carry_word a b (a + b + c))"
  by (simp add: iadd_cin_cout_def carry_word_def Let_def)

lemma bit_carry_word_sum:
  assumes "c = 0 \<or> c = 1" "i < LENGTH('a)"
  shows "bit (carry_word a b (a + b + c :: 'a::len word)) i \<longleftrightarrow>
    carry_at (unat a) (unat b) (unat c) (Suc i)"
  unfolding carry_word_def by (rule carry_word_bits[OF assms])

lemma sum_with_carry_out:
  fixes a b c :: "'a::len word"
  assumes "c = 0 \<or> c = 1"
  shows "unat (a + b + c) +
      2 ^ LENGTH('a) * of_bool (bit (carry_word a b (a + b + c)) (LENGTH('a) - 1)) =
    unat a + unat b + unat c"
proof -
  let ?n = "unat a + unat b + unat c"
  have "bit (carry_word a b (a + b + c)) (LENGTH('a) - 1) \<longleftrightarrow> 2 ^ LENGTH('a) \<le> ?n"
    using bit_carry_word_sum[OF assms, of "LENGTH('a) - 1" a b] carry_at_top[of a b "unat c"]
    by simp
  moreover have "unat (a + b + c) = ?n mod 2 ^ LENGTH('a)"
    by (simp add: unat_word_ariths mod_simps)
  moreover have "?n < 2 * 2 ^ LENGTH('a)"
  proof -
    have "unat a + 1 \<le> 2 ^ LENGTH('a)" "unat b + 1 \<le> 2 ^ LENGTH('a)"
      by (simp_all add: Suc_leI)
    moreover have "unat c \<le> 1" using assms by auto
    ultimately show ?thesis by linarith
  qed
  ultimately show ?thesis by (auto simp: mod_if le_mod_geq)
qed

lemma isub_bin_bout_eq:
  "isub_bin_bout a b c = (a - b - c, carry_word (NOT a) b (NOT a + b + c))"
proof -
  have "NOT (NOT a + b + c) = a - b - c" by (simp add: not_eq_complement)
  moreover have "NOT a XOR b = NOT (a XOR b)"
    by (rule bit_word_eqI) (auto simp: bit_simps)
  ultimately show ?thesis
    by (simp add: isub_bin_bout_def carry_word_def Let_def)
qed

section \<open>Addition on independent halves\<close>

lemma lo32_simps [simp]:
  "lo32 (a AND b) = lo32 a AND lo32 b" "lo32 (a OR b) = lo32 a OR lo32 b"
  "lo32 (a XOR b) = lo32 a XOR lo32 b" "lo32 (NOT a) = NOT (lo32 a)"
  "hi32 (a AND b) = hi32 a AND hi32 b" "hi32 (a OR b) = hi32 a OR hi32 b"
  "hi32 (a XOR b) = hi32 a XOR hi32 b" "hi32 (NOT a) = NOT (hi32 a)"
  by (rule bit_word_eqI; auto simp: op_bits bit_simps)+

lemma lo32_join32 [simp]: "lo32 (join32 l h) = l" and hi32_join32 [simp]: "hi32 (join32 l h) = h"
  by (rule bit_word_eqI; auto simp: op_bits)+

lemma join32_halves [simp]: "join32 (lo32 w) (hi32 w) = w"
  by (rule bit_word_eqI) (auto simp: op_bits)

lemma lo32_add: "lo32 (x + y) = lo32 x + lo32 y"
  unfolding lo32_def
  by transfer (subst (2) take_bit_add [symmetric], simp add: take_bit_take_bit take_bit_add)

lemma lo32_ucast [simp]: "lo32 (ucast (x :: u32)) = x"
  by (rule bit_word_eqI) (auto simp: op_bits bit_simps)

lemma single_bit: "drop_bit i (c :: u64) AND 1 = of_bool (bit c i)"
  by (rule bit_word_eqI) (auto simp: bit_simps)

lemma lo32_of_bool [simp]: "lo32 (of_bool p) = of_bool p"
  by (cases p) (simp_all add: lo32_def)

lemma iadd32_cin_cout_halves:
  "iadd32_cin_cout a b c =
    (let sl = lo32 a + lo32 b + of_bool (bit c 31);
         sh = hi32 a + hi32 b + of_bool (bit c 63)
     in (join32 sl sh,
         join32 (carry_word (lo32 a) (lo32 b) sl) (carry_word (hi32 a) (hi32 b) sh)))"
proof -
  let ?sl = "lo32 a + lo32 b + of_bool (bit c 31)"
  let ?sh = "hi32 a + hi32 b + of_bool (bit c 63)"
  let ?s = "join32 ?sl ?sh"
  have "fst (iadd32_cin_cout a b c) = ?s"
    by (simp add: iadd32_cin_cout_def Let_def join32_def lo32_add single_bit)
  moreover have "snd (iadd32_cin_cout a b c) = carry_word a b (fst (iadd32_cin_cout a b c))"
    by (simp only: iadd32_cin_cout_def Let_def carry_word_def fst_conv snd_conv)
  ultimately have "iadd32_cin_cout a b c = (?s, carry_word a b ?s)"
    by (simp add: prod_eq_iff)
  moreover have "carry_word a b ?s =
      join32 (carry_word (lo32 a) (lo32 b) ?sl) (carry_word (hi32 a) (hi32 b) ?sh)"
    by (subst join32_halves[symmetric]) (simp add: carry_word_def)
  ultimately show ?thesis by (simp add: Let_def)
qed

section \<open>Complements and products\<close>

lemma take_bit_unat_self [simp]: "LENGTH('a) \<le> n \<Longrightarrow> take_bit n (unat (x :: 'a::len word)) = unat x"
  by (metis order_less_le_trans power_increasing_iff one_less_numeral_iff semiring_norm(76)
      take_bit_nat_eq_self unsigned_less)

lemma take_bit_NOT:
  "k \<le> LENGTH('a) \<Longrightarrow> take_bit k (unat (NOT a :: 'a::len word)) + take_bit k (unat a) + 1 = 2 ^ k"
proof (induction k)
  case (Suc k)
  then show ?case by (simp add: take_bit_Suc_top bit_unat bit_not_iff)
qed simp

lemma carry_at_NOT:
  "i < LENGTH('a) \<Longrightarrow> carry_at (unat (NOT a :: 'a::len word)) b c (Suc i) \<longleftrightarrow>
    take_bit (Suc i) (unat a) < take_bit (Suc i) b + c"
  using take_bit_NOT[of "Suc i" a] unfolding carry_at_def by linarith

lemma unat_split128:
  "unat (ucast (drop_bit 64 (r :: u128)) :: u64) * 2 ^ 64 + unat (ucast r :: u64) = unat r"
proof -
  have "unat (ucast (drop_bit 64 r) :: u64) = unat r div 2 ^ 64"
  proof -
    have "unat r < 2 ^ 128" by (rule order_less_le_trans[OF unsigned_less]) simp
    then have "unat r div 2 ^ 64 < 2 ^ 64" by (simp add: less_mult_imp_div_less)
    moreover have "unat (drop_bit 64 r) = unat r div 2 ^ 64"
      by (metis drop_bit_eq_div unat_drop_bit_eq)
    ultimately show ?thesis
      by (simp add: unsigned_ucast_eq take_bit_nat_eq_self)
  qed
  moreover have "unat (ucast r :: u64) = unat r mod 2 ^ 64"
    by (simp add: unsigned_ucast_eq take_bit_eq_mod)
  ultimately show ?thesis by simp
qed

lemma sint_split128:
  "sint (ucast (signed_drop_bit 64 (r :: u128)) :: u64) * 2 ^ 64 + uint (ucast r :: u64) = sint r"
proof -
  have "- (2 ^ 127) \<le> sint r" "sint r < 2 ^ 127"
    using sint_greater_eq[of r] sint_less[of r] by simp_all
  then have rng: "- (2 ^ 63) \<le> sint r div 2 ^ 64" "sint r div 2 ^ 64 < 2 ^ 63"
    by simp_all
  have "sint (ucast (signed_drop_bit 64 r) :: u64) =
      signed_take_bit 63 (sint (signed_drop_bit 64 r))"
    by (simp add: signed_ucast_eq uint_sint signed_take_bit_take_bit)
  also have "\<dots> = sint r div 2 ^ 64"
    using rng by (simp add: sint_signed_drop_bit_eq drop_bit_eq_div signed_take_bit_int_eq_self)
  finally have "sint (ucast (signed_drop_bit 64 r) :: u64) = sint r div 2 ^ 64" .
  moreover have "uint (ucast r :: u64) = sint r mod 2 ^ 64"
  proof -
    have "uint (ucast r :: u64) = take_bit 64 (uint r)" by (simp add: unsigned_ucast_eq)
    also have "\<dots> = take_bit 64 (sint r)" by (simp add: uint_sint take_bit_take_bit)
    finally show ?thesis by (simp add: take_bit_eq_mod)
  qed
  ultimately show ?thesis by simp
qed

lemma is_msb_true_iff: "is_msb_true w \<longleftrightarrow> bit w 63"
proof
  assume "is_msb_true w"
  then obtain i where "bit (w AND MSB_ONE) i"
    by (auto simp: is_msb_true_def bit_eq_iff)
  then show "bit w 63" by (auto simp: bit_and_iff)
next
  assume "bit w 63"
  then have "bit (w AND MSB_ONE) 63" by (simp add: bit_and_iff)
  then show "is_msb_true w" unfolding is_msb_true_def by (metis bit_0_eq bot_apply bot_bool_def)
qed

section \<open>Properties of the word operations\<close>

text \<open>C39: With a carry-in of 0 or 1, the 64-bit addition returns the exact sum as the sum word
  and the top bit of the carry word, and bit \<open>i\<close> of the carry word is the carry out of
  position \<open>i\<close>.\<close>

theorem iadd_cin_cout_exact:
  assumes "cin = ZERO \<or> cin = ONE"
  shows "(case iadd_cin_cout a b cin of (s, cout) \<Rightarrow>
      unat s + 2 ^ 64 * of_bool (bit cout 63) = unat a + unat b + unat cin \<and>
      (\<forall>i < 64. bit cout i \<longleftrightarrow> carry_at (unat a) (unat b) (unat cin) (Suc i)))"
proof -
  have c: "cin = 0 \<or> cin = 1" using assms by (simp add: ZERO_def ONE_def)
  show ?thesis
    using sum_with_carry_out[OF c, of a b] bit_carry_word_sum[OF c, of _ a b]
    by (simp add: iadd_cin_cout_eq)
qed

theorem iadd_cin_cout_exact_witness:
  "case iadd_cin_cout ALL_ONE ONE ONE of (s, cout) \<Rightarrow>
      unat s + 2 ^ 64 * of_bool (bit cout 63) = unat ALL_ONE + unat ONE + unat ONE \<and>
      (\<forall>i < 64. bit cout i \<longleftrightarrow> carry_at (unat ALL_ONE) (unat ONE) (unat ONE) (Suc i))"
  by (rule iadd_cin_cout_exact) simp

text \<open>C40: With a borrow-in of 0 or 1, the 64-bit subtraction returns the exact difference: the
  top bit of the borrow word says that \<open>2 ^ 64\<close> was borrowed, and bit \<open>i\<close> of the borrow word
  is set exactly when the low \<open>i + 1\<close> bits borrow.\<close>

theorem isub_bin_bout_exact:
  assumes "bin = ZERO \<or> bin = ONE"
  shows "(case isub_bin_bout a b bin of (diff, bout) \<Rightarrow>
      unat diff + unat b + unat bin = unat a + 2 ^ 64 * of_bool (bit bout 63) \<and>
      (\<forall>i < 64. bit bout i \<longleftrightarrow>
        take_bit (Suc i) (unat a) < take_bit (Suc i) (unat b) + unat bin))"
proof -
  have c: "bin = 0 \<or> bin = 1" using assms by (simp add: ZERO_def ONE_def)
  let ?bo = "carry_word (NOT a) b (NOT a + b + bin)"
  have neg: "unat (NOT x) + unat x + 1 = 2 ^ 64" for x :: u64
    using take_bit_NOT[of 64 x] by simp
  have "NOT a + b + bin = NOT (a - b - bin)" by (simp add: not_eq_complement)
  then have "unat (NOT (a - b - bin)) + 2 ^ 64 * of_bool (bit ?bo 63) =
      unat (NOT a) + unat b + unat bin"
    using sum_with_carry_out[OF c, of "NOT a" b] by simp
  with neg[of a] neg[of "a - b - bin"]
  have "unat (a - b - bin) + unat b + unat bin = unat a + 2 ^ 64 * of_bool (bit ?bo 63)"
    by linarith
  moreover have "\<forall>i < 64. bit ?bo i \<longleftrightarrow> take_bit (Suc i) (unat a) < take_bit (Suc i) (unat b) + unat bin"
    using bit_carry_word_sum[OF c, of _ "NOT a" b] by (simp add: carry_at_NOT)
  ultimately show ?thesis by (simp only: isub_bin_bout_eq prod.case)
qed

theorem isub_bin_bout_exact_witness:
  "case isub_bin_bout ZERO ALL_ONE ONE of (diff, bout) \<Rightarrow>
      unat diff + unat ALL_ONE + unat ONE = unat ZERO + 2 ^ 64 * of_bool (bit bout 63) \<and>
      (\<forall>i < 64. bit bout i \<longleftrightarrow>
        take_bit (Suc i) (unat ZERO) < take_bit (Suc i) (unat ALL_ONE) + unat ONE)"
  by (rule isub_bin_bout_exact) simp

text \<open>The parallel 32-bit addition is exact on each half, whatever the words: each half
  takes its carry-in from the top bit of its half of \<open>cin\<close> and leaves its carry out in the top
  bit of its half of \<open>cout\<close>, and no carry crosses the boundary.\<close>

theorem iadd32_cin_cout_exact:
  "case iadd32_cin_cout a b cin of (s, cout) \<Rightarrow>
     unat (lo32 s) + 2 ^ 32 * of_bool (bit cout 31) =
       unat (lo32 a) + unat (lo32 b) + of_bool (bit cin 31) \<and>
     unat (hi32 s) + 2 ^ 32 * of_bool (bit cout 63) =
       unat (hi32 a) + unat (hi32 b) + of_bool (bit cin 63)"
proof -
  have c: "(of_bool p :: u32) = 0 \<or> (of_bool p :: u32) = 1" for p by simp
  show ?thesis
    using sum_with_carry_out[OF c[of "bit cin 31"], of "lo32 a" "lo32 b"]
      sum_with_carry_out[OF c[of "bit cin 63"], of "hi32 a" "hi32 b"]
    by (simp add: iadd32_cin_cout_halves Let_def op_bits)
qed

lemma product_halves:
  "unat (ucast (drop_bit 64 ((ucast a :: u128) * ucast b)) :: u64) * 2 ^ 64 +
    unat (ucast ((ucast a :: u128) * ucast b) :: u64) = unat (a :: u64) * unat (b :: u64)"
proof -
  have "unat a * unat b < 2 ^ 64 * 2 ^ 64"
    by (intro mult_strict_mono) (use unsigned_less[of a] unsigned_less[of b] in auto)
  then have "unat ((ucast a :: u128) * ucast b) = unat a * unat b"
    by (simp add: unat_word_ariths unsigned_ucast_eq)
  then show ?thesis using unat_split128[of "ucast a * ucast b"] by simp
qed

text \<open>The unsigned product is exact: the two words returned are the quotient and the
  remainder of the integer product by \<open>2 ^ 64\<close>.\<close>

theorem imul_exact:
  "case imul a b of (hi, lo) \<Rightarrow> unat hi * 2 ^ 64 + unat lo = unat a * unat b"
  using product_halves[of a b] by (simp add: imul_def Let_def)

text \<open>The signed product is exact: the high word, read as signed, and the low word, read as
  unsigned, are the two halves of the product of the signed readings.\<close>

theorem smul_exact:
  "case smul a b of (hi, lo) \<Rightarrow> sint hi * 2 ^ 64 + uint lo = sint a * sint b"
proof -
  have "sint ((scast a :: u128) * scast b) = sint a * sint b"
  proof -
    have "\<bar>sint x\<bar> \<le> 2 ^ 63" for x :: u64
      using sint_greater_eq[of x] sint_less[of x] by simp
    then have "\<bar>sint a * sint b\<bar> \<le> 2 ^ 63 * 2 ^ 63"
      unfolding abs_mult by (intro mult_mono) simp_all
    then have "signed_take_bit 127 (sint a * sint b) = sint a * sint b"
      by (intro signed_take_bit_int_eq_self) simp_all
    moreover have "signed_take_bit 127 (sint x) = sint x" for x :: u64
      using sint_greater_eq[of x] sint_less[of x] by (intro signed_take_bit_int_eq_self) simp_all
    ultimately show ?thesis by (simp add: sint_word_ariths signed_scast_eq)
  qed
  then show ?thesis
    using sint_split128[of "scast a * scast b"] by (simp add: smul_def Let_def)
qed

end
