(* ===== verification/Checked_Arith.thy ===== *)
theory Checked_Arith
  imports Binius_Prelude
begin

text \<open>
  The checked integer arithmetic of \<open>crates/utils/src/checked_arithmetics.rs\<close>.  A \<open>usize\<close> is
  a natural number below \<open>2 ^ 64\<close>; \<open>None\<close> is the panic of a failed assertion, except in
  \<open>strict_log_2\<close>, where the code itself returns an \<open>Option\<close>.
\<close>

text \<open>The intrinsics the code calls, on 64-bit counts.\<close>

definition leading_zeros :: "nat \<Rightarrow> nat" where
  "leading_zeros n = length (takeWhile (\<lambda>i. \<not> bit n i) (rev [0..<64]))"

definition trailing_zeros :: "nat \<Rightarrow> nat" where
  "trailing_zeros n = length (takeWhile (\<lambda>i. \<not> bit n i) [0..<64])"

definition checked_int_div :: "nat \<Rightarrow> nat \<Rightarrow> nat option" where
  "checked_int_div a b =
    (if b = 0 then None else let result = a div b in if b * result = a then Some result else None)"

definition strict_log_2 :: "nat \<Rightarrow> nat option" where
  "strict_log_2 val =
    (if val = 0 then None
     else let pow = trailing_zeros val
       in if drop_bit (pow mod 64) val = 1 then Some pow else None)"

definition checked_log_2 :: "nat \<Rightarrow> nat option" where
  "checked_log_2 val = strict_log_2 val"

definition min_bits :: "nat \<Rightarrow> nat" where
  "min_bits n = 64 - leading_zeros n"

definition log2_ceil_usize :: "nat \<Rightarrow> nat" where
  "log2_ceil_usize n = min_bits (n - 1)"

section \<open>Counting bits\<close>

lemma takeWhile_rev_upt:
  assumes "n < 2 ^ m"
  shows "m - length (takeWhile (\<lambda>i. \<not> bit n i) (rev [0..<m])) = k \<longleftrightarrow>
    n < 2 ^ k \<and> (\<forall>j < k. 2 ^ j \<le> (n :: nat))"
  using assms
proof (induction m arbitrary: k)
  case 0
  then show ?case by (cases k) auto
next
  case (Suc m)
  show ?case
  proof (cases "bit n m")
    case True
    then have "2 ^ m \<le> n"
      by (metis bit_take_bit_iff nat_le_linear order_le_less take_bit_nat_eq_self verit_comp_simplify1(3))
    moreover have "Suc m = k" if "n < 2 ^ k" "\<forall>j<k. 2 ^ j \<le> n"
    proof -
      have "\<not> k \<le> m" using that(1) \<open>2 ^ m \<le> n\<close>
        by (meson leD one_le_numeral order_trans power_increasing)
      moreover have "\<not> Suc m < k" using that(2) Suc.prems by auto
      ultimately show ?thesis by simp
    qed
    moreover have "\<forall>j < Suc m. 2 ^ j \<le> n" 
      by (meson \<open>2 ^ m \<le> n\<close> less_Suc_eq_le one_le_numeral order_trans power_increasing)
    ultimately show ?thesis using True Suc.prems by auto
  next
    case False
    then have "n < 2 ^ m"
      using Suc.prems
      by (metis bit_take_bit_iff take_bit_Suc_from_most take_bit_nat_eq_self take_bit_nat_less_exp
          add_0 mult_zero_right of_bool_eq(1))
    then show ?thesis using False Suc.IH by simp
  qed
qed

lemma min_bits_char:
  assumes "n < 2 ^ 64"
  shows "min_bits n = k \<longleftrightarrow> n < 2 ^ k \<and> (\<forall>j < k. 2 ^ j \<le> n)"
  unfolding min_bits_def leading_zeros_def by (rule takeWhile_rev_upt[OF assms])

lemma min_bits_le_iff:
  assumes "n < 2 ^ 64"
  shows "min_bits n \<le> k \<longleftrightarrow> n < 2 ^ k"
proof -
  have "n < 2 ^ min_bits n" and low: "\<forall>j < min_bits n. 2 ^ j \<le> n"
    using min_bits_char[OF assms, of "min_bits n"] by simp_all
  then have "min_bits n \<le> k \<Longrightarrow> n < 2 ^ k"
    by (meson less_le_trans one_le_numeral power_increasing)
  with low show ?thesis by (meson leD not_le)
qed

lemma log2_ceil_usize_le_iff:
  assumes "n < 2 ^ 64"
  shows "log2_ceil_usize n \<le> k \<longleftrightarrow> n \<le> 2 ^ k"
proof -
  have "log2_ceil_usize n \<le> k \<longleftrightarrow> n - 1 < 2 ^ k"
    unfolding log2_ceil_usize_def by (rule min_bits_le_iff) (use assms in simp)
  then show ?thesis by (cases n) auto
qed

text \<open>A power of two has its only set bit at its exponent.\<close>

lemma trailing_zeros_exp: "k < 64 \<Longrightarrow> trailing_zeros (2 ^ k) = k"
proof -
  assume k: "k < 64"
  have split: "[0..<64] = [0..<k] @ k # [Suc k..<64]"
    using k upt_add_eq_append[of 0 k "64 - k"] by (simp add: upt_conv_Cons)
  show "trailing_zeros (2 ^ k) = k"
    unfolding trailing_zeros_def split by (subst takeWhile_append2) (auto simp: bit_exp_iff)
qed

lemma strict_log_2_eq_Some:
  assumes "n < 2 ^ 64"
  shows "strict_log_2 n = Some k \<longleftrightarrow> n = 2 ^ k"
proof
  assume n: "n = 2 ^ k"
  with assms have "k < 64" by (metis power_less_imp_less_exp one_less_numeral_iff semiring_norm(76))
  with n show "strict_log_2 n = Some k"
    by (simp add: strict_log_2_def trailing_zeros_exp Let_def drop_bit_eq_div)
next
  assume "strict_log_2 n = Some k"
  then have n: "n \<noteq> 0" and k: "k = trailing_zeros n" and one: "drop_bit (k mod 64) n = 1"
    by (auto simp: strict_log_2_def Let_def split: if_splits)
  have k64: "k \<le> 64" unfolding k trailing_zeros_def
    by (metis length_takeWhile_le length_upt minus_nat.diff_0)
  have low: "\<not> bit n i" if "i < k" for i
  proof -
    have "takeWhile (\<lambda>i. \<not> bit n i) [0..<64] ! i = i"
      using that k64 by (simp add: k trailing_zeros_def takeWhile_nth)
    then show ?thesis
      using that nth_mem[of i "takeWhile (\<lambda>i. \<not> bit n i) [0..<64]"]
      by (auto simp: k trailing_zeros_def dest: set_takeWhileD)
  qed
  have "k \<noteq> 64"
  proof
    assume "k = 64"
    then have "n = 0"
      using low assms by (intro bit_eqI) (metis bit_0_eq bot_apply bot_bool_def bit_take_bit_iff take_bit_nat_eq_self)
    with n show False by simp
  qed
  with k64 one have "drop_bit k n = 1" by simp
  moreover have "take_bit k n = 0"
    by (rule bit_eqI) (auto simp: bit_take_bit_iff low)
  ultimately show "n = 2 ^ k"
    by (metis add_0_right bits_ident mult_1 push_bit_eq_mult)
qed

text \<open>The number of bits computed from the leading zeros is the least exponent that bounds
  the count strictly, on every \<open>usize\<close>.\<close>

theorem min_bits_least:
  assumes "n < 2 ^ 64"
  shows "n < 2 ^ k \<longleftrightarrow> min_bits n \<le> k"
proof -
  have "n < 2 ^ min_bits n" and low: "\<forall>j < min_bits n. 2 ^ j \<le> n"
    using min_bits_char[OF assms, of "min_bits n"] by simp_all
  then have "min_bits n \<le> k \<Longrightarrow> n < 2 ^ k"
    by (meson less_le_trans one_le_numeral power_increasing)
  with low show ?thesis by (meson leD not_le)
qed

theorem min_bits_least_witness: "(255 :: nat) < 2 ^ 8 \<longleftrightarrow> min_bits 255 \<le> 8"
  by (rule min_bits_least) simp

text \<open>The rounded-up logarithm is the ceiling: the least exponent whose power of two reaches
  the count, for every \<open>usize\<close> including 0 and 1, where it is 0.\<close>

theorem log2_ceil_usize_least:
  assumes "n < 2 ^ 64"
  shows "n \<le> 2 ^ log2_ceil_usize n \<and> (\<forall>k. n \<le> 2 ^ k \<longrightarrow> log2_ceil_usize n \<le> k)"
  using log2_ceil_usize_le_iff[OF assms] by blast

theorem log2_ceil_usize_least_witness:
  "(5 :: nat) \<le> 2 ^ log2_ceil_usize 5 \<and> log2_ceil_usize 5 \<le> 3"
  using log2_ceil_usize_least[of 5] by simp

text \<open>The strict logarithm accepts exactly the powers of two and returns the exponent; the
  checked one panics on zero and on every other count.\<close>

theorem strict_log_2_powers:
  assumes "n < 2 ^ 64"
  shows "(strict_log_2 n = Some k \<longleftrightarrow> n = 2 ^ k) \<and> (checked_log_2 n = None \<longleftrightarrow> (\<forall>j. n \<noteq> 2 ^ j))"
  using strict_log_2_eq_Some[OF assms] unfolding checked_log_2_def by (metis option.exhaust option.distinct(1))

theorem strict_log_2_powers_witness:
  "(strict_log_2 64 = Some 6 \<longleftrightarrow> (64 :: nat) = 2 ^ 6) \<and>
   (checked_log_2 64 = None \<longleftrightarrow> (\<forall>j. (64 :: nat) \<noteq> 2 ^ j))"
  by (rule strict_log_2_powers) simp

end
