(* ===== verification/Shift.thy ===== *)
theory Shift
  imports Core_Word
begin

text \<open>
  The shift alphabet of \<open>crates/core/src/constraint_system/shift.rs\<close>: the eight variants,
  a shift as a variant with an amount, and the classification of two shifts in sequence.
  \<open>None\<close> is a panic (a failed assertion).  The lemmas give every shift a bit map
  (\<open>shift_src\<close>), from which the soundness of the composition rules follows.
\<close>

section \<open>Variants\<close>

datatype shift_variant = Sll | Slr | Sar | Rotr | Sll32 | Srl32 | Sra32 | Rotr32

fun variant_as_u8 :: "shift_variant \<Rightarrow> u8" where
  "variant_as_u8 Sll = 0"
| "variant_as_u8 Slr = 1"
| "variant_as_u8 Sar = 2"
| "variant_as_u8 Rotr = 3"
| "variant_as_u8 Sll32 = 4"
| "variant_as_u8 Srl32 = 5"
| "variant_as_u8 Sra32 = 6"
| "variant_as_u8 Rotr32 = 7"

definition variant_ALL :: "shift_variant list" where
  "variant_ALL = [Sll, Slr, Sar, Rotr, Sll32, Srl32, Sra32, Rotr32]"

definition variant_from_u8 :: "u8 \<Rightarrow> shift_variant option" where
  "variant_from_u8 byte =
    (if byte = 0 then Some Sll
     else if byte = 1 then Some Slr
     else if byte = 2 then Some Sar
     else if byte = 3 then Some Rotr
     else if byte = 4 then Some Sll32
     else if byte = 5 then Some Srl32
     else if byte = 6 then Some Sra32
     else if byte = 7 then Some Rotr32
     else None)"

definition is_half_word :: "shift_variant \<Rightarrow> bool" where
  "is_half_word v \<longleftrightarrow> v = Sll32 \<or> v = Srl32 \<or> v = Sra32 \<or> v = Rotr32"

definition is_cyclic :: "shift_variant \<Rightarrow> bool" where
  "is_cyclic v \<longleftrightarrow> v = Rotr \<or> v = Rotr32"

definition max_amount :: "shift_variant \<Rightarrow> nat" where
  "max_amount v = (if is_half_word v then 32 else 64)"

section \<open>Kernels over a resolved shift\<close>

text \<open>
  \<open>dispatch\<close> resolves a variant to a word operation and hands it to a callback.  The three
  kernels are the callbacks of the source: shift one word, initialise cells with shifted
  words, and XOR shifted words into cells.  An uninitialised cell is \<open>None\<close>; positions past
  the shorter slice are left alone.
\<close>

fun dispatch :: "shift_variant \<Rightarrow> nat \<Rightarrow> ((u64 \<Rightarrow> u64) \<Rightarrow> 'o) \<Rightarrow> 'o" where
  "dispatch Sll amount run = run (\<lambda>word. shl word amount)"
| "dispatch Slr amount run = run (\<lambda>word. shr word amount)"
| "dispatch Sar amount run = run (\<lambda>word. sar word amount)"
| "dispatch Rotr amount run = run (\<lambda>word. rotr word amount)"
| "dispatch Sll32 amount run = run (\<lambda>word. sll32 word amount)"
| "dispatch Srl32 amount run = run (\<lambda>word. srl32 word amount)"
| "dispatch Sra32 amount run = run (\<lambda>word. sra32 word amount)"
| "dispatch Rotr32 amount run = run (\<lambda>word. rotr32 word amount)"

definition shift_one_word :: "u64 \<Rightarrow> (u64 \<Rightarrow> u64) \<Rightarrow> u64" where
  "shift_one_word word f = f word"

fun write_shifted_words :: "u64 option list \<Rightarrow> u64 list \<Rightarrow> (u64 \<Rightarrow> u64) \<Rightarrow> u64 option list" where
  "write_shifted_words (out # outs) (src # srcs) f = Some (f src) # write_shifted_words outs srcs f"
| "write_shifted_words outs srcs f = outs"

fun xor_shifted_words :: "u64 list \<Rightarrow> u64 list \<Rightarrow> (u64 \<Rightarrow> u64) \<Rightarrow> u64 list" where
  "xor_shifted_words (out # outs) (src # srcs) f = (out XOR f src) # xor_shifted_words outs srcs f"
| "xor_shifted_words outs srcs f = outs"

definition variant_apply :: "shift_variant \<Rightarrow> u64 \<Rightarrow> nat \<Rightarrow> u64" where
  "variant_apply v word amount = dispatch v (amount mod 2 ^ 32) (shift_one_word word)"

definition write_shifted :: "shift_variant \<Rightarrow> u64 option list \<Rightarrow> u64 list \<Rightarrow> nat \<Rightarrow> u64 option list" where
  "write_shifted v out src amount = dispatch v amount (write_shifted_words out src)"

definition xor_shifted :: "shift_variant \<Rightarrow> u64 list \<Rightarrow> u64 list \<Rightarrow> nat \<Rightarrow> u64 list" where
  "xor_shifted v out src amount = dispatch v amount (xor_shifted_words out src)"

section \<open>Shifts\<close>

record shift =
  variant :: shift_variant
  amount :: u8

definition IDENTITY :: shift where
  "IDENTITY = \<lparr>variant = Sll, amount = 0\<rparr>"

definition shift_new :: "shift_variant \<Rightarrow> nat \<Rightarrow> shift option" where
  "shift_new v n = (if n < max_amount v then Some \<lparr>variant = v, amount = of_nat n\<rparr> else None)"

definition shift_sll :: "nat \<Rightarrow> shift option" where "shift_sll n = shift_new Sll n"
definition shift_srl :: "nat \<Rightarrow> shift option" where "shift_srl n = shift_new Slr n"
definition shift_sar :: "nat \<Rightarrow> shift option" where "shift_sar n = shift_new Sar n"
definition shift_rotr :: "nat \<Rightarrow> shift option" where "shift_rotr n = shift_new Rotr n"
definition shift_sll32 :: "nat \<Rightarrow> shift option" where "shift_sll32 n = shift_new Sll32 n"
definition shift_srl32 :: "nat \<Rightarrow> shift option" where "shift_srl32 n = shift_new Srl32 n"
definition shift_sra32 :: "nat \<Rightarrow> shift option" where "shift_sra32 n = shift_new Sra32 n"
definition shift_rotr32 :: "nat \<Rightarrow> shift option" where "shift_rotr32 n = shift_new Rotr32 n"

definition is_identity :: "shift \<Rightarrow> bool" where
  "is_identity s \<longleftrightarrow> amount s = 0"

definition is_canonical :: "shift \<Rightarrow> bool" where
  "is_canonical s \<longleftrightarrow> \<not> is_identity s \<or> variant s = Sll"

definition shift_index :: "shift \<Rightarrow> nat option" where
  "shift_index s =
    (if unat (amount s) < 64
     then Some (unat (variant_as_u8 (variant s)) * 64 + unat (amount s)) else None)"

definition shift_from_index :: "nat \<Rightarrow> shift option" where
  "shift_from_index index =
    (if index < length variant_ALL * 64
     then case variant_from_u8 (of_nat (index div 64)) of
         None \<Rightarrow> None
       | Some v \<Rightarrow> Some \<lparr>variant = v, amount = of_nat (index mod 64)\<rparr>
     else None)"

definition shift_apply :: "shift \<Rightarrow> u64 \<Rightarrow> u64" where
  "shift_apply s word = variant_apply (variant s) word (unat (amount s))"

section \<open>Composition\<close>

datatype composition = CompSingle shift | CompZero | CompPair

definition chained :: "shift \<Rightarrow> shift \<Rightarrow> (shift_variant \<times> nat) option" where
  "chained inner outer =
    (let distance = unat (amount inner) + unat (amount outer);
         i = variant inner; o' = variant outer
     in if i = o' then Some (i, distance)
        else if i = Slr \<and> o' = Sar then Some (Slr, distance)
        else if i = Srl32 \<and> o' = Sra32 then Some (Srl32, distance)
        else if i = Sll \<and> o' = Sll32 \<and> 32 \<le> unat (amount inner) then Some (Sll, distance)
        else if i = Sll32 \<and> o' = Sll \<and> 32 \<le> unat (amount outer) then Some (Sll, distance)
        else if i = Slr \<and> o' = Srl32 \<and> 32 \<le> unat (amount inner) then Some (Slr, distance)
        else if i = Srl32 \<and> o' = Slr \<and> 32 \<le> unat (amount outer) then Some (Slr, distance)
        else if i = Sar \<and> o' = Sra32 \<and> 32 \<le> unat (amount inner) then Some (Sar, distance)
        else if i = Sra32 \<and> o' = Sar \<and> 32 \<le> unat (amount outer) then Some (Sar, distance)
        else if i = Slr \<and> o' = Sra32 \<and> 33 \<le> unat (amount inner) then Some (Slr, distance)
        else if i = Srl32 \<and> o' = Sar \<and> 32 \<le> unat (amount outer) then Some (Slr, distance)
        else None)"

definition degenerate :: "shift \<Rightarrow> shift \<Rightarrow> shift option" where
  "degenerate inner outer =
    (let i = variant inner; o' = variant outer
     in if i = Sar \<and> (o' = Rotr \<or> o' = Rotr32) \<and> amount inner = 63 then Some inner
        else if i = Sra32 \<and> o' = Rotr32 \<and> amount inner = 31 then Some inner
        else if (i = Sar \<or> i = Sra32) \<and> o' = Slr \<and> amount outer = 63 then Some outer
        else if i = Sra32 \<and> o' = Srl32 \<and> amount outer = 31 then Some outer
        else None)"

definition chained_composition :: "shift_variant \<Rightarrow> nat \<Rightarrow> composition option" where
  "chained_composition v distance =
    (let width = max_amount v
     in if v = Sll \<or> v = Sll32 \<or> v = Slr \<or> v = Srl32 then
          (if distance < width then map_option CompSingle (shift_new v distance)
           else Some CompZero)
        else if v = Sar \<or> v = Sra32 then
          map_option CompSingle (shift_new v (min distance (width - 1)))
        else
          (if distance mod width = 0 then Some (CompSingle IDENTITY)
           else map_option CompSingle (shift_new v (distance mod width))))"

definition compose :: "shift \<Rightarrow> shift \<Rightarrow> composition option" where
  "compose inner outer =
    (if is_identity inner then Some (CompSingle outer)
     else if is_identity outer then Some (CompSingle inner)
     else case degenerate inner outer of
         Some single \<Rightarrow> Some (CompSingle single)
       | None \<Rightarrow>
           (case chained inner outer of
              Some (v, distance) \<Rightarrow> chained_composition v distance
            | None \<Rightarrow> Some CompPair))"


section \<open>Which bit a shift reads\<close>

text \<open>
  \<open>shift_src v n i\<close> is the input position that output position \<open>i\<close> reads, \<open>None\<close> where the
  shift moves a zero in.
\<close>

fun shift_src :: "shift_variant \<Rightarrow> nat \<Rightarrow> nat \<Rightarrow> nat option" where
  "shift_src Sll n i = (if n \<le> i then Some (i - n) else None)"
| "shift_src Slr n i = (if i + n < 64 then Some (i + n) else None)"
| "shift_src Sar n i = Some (min (i + n) 63)"
| "shift_src Rotr n i = Some ((i + n) mod 64)"
| "shift_src Sll32 n i = (if n \<le> i mod 32 then Some (i - n) else None)"
| "shift_src Srl32 n i = (if i mod 32 + n < 32 then Some (i + n) else None)"
| "shift_src Sra32 n i = Some (32 * (i div 32) + min (i mod 32 + n) 31)"
| "shift_src Rotr32 n i = Some (32 * (i div 32) + (i + n) mod 32)"

definition reads :: "u64 \<Rightarrow> nat option \<Rightarrow> bool" where
  "reads w r = (case r of None \<Rightarrow> False | Some j \<Rightarrow> bit w j)"

lemma reads_simps [simp]: "reads w None = False" "reads w (Some j) = bit w j"
  by (simp_all add: reads_def)

definition valid_shift :: "shift \<Rightarrow> bool" where
  "valid_shift s \<longleftrightarrow> unat (amount s) < max_amount (variant s)"

abbreviation amt :: "shift \<Rightarrow> nat" where "amt s \<equiv> unat (amount s)"

lemma max_amount_simps [simp]:
  "max_amount Sll = 64" "max_amount Slr = 64" "max_amount Sar = 64" "max_amount Rotr = 64"
  "max_amount Sll32 = 32" "max_amount Srl32 = 32" "max_amount Sra32 = 32" "max_amount Rotr32 = 32"
  by (simp_all add: max_amount_def is_half_word_def)

lemma max_amount_pos [simp]: "0 < max_amount v"
  by (cases v) simp_all

lemma max_amount_le [simp]: "max_amount v \<le> 64"
  by (cases v) simp_all

lemma dispatch_kernel: "dispatch v n run = run (\<lambda>w. dispatch v n (shift_one_word w))"
  by (cases v) (simp_all add: shift_one_word_def)

lemma bit_variant_apply:
  assumes "n < max_amount v"
  shows "bit (variant_apply v w n) i \<longleftrightarrow> i < 64 \<and> reads w (shift_src v n i)"
proof -
  have "n < 64" using assms max_amount_le[of v] by linarith
  then have "variant_apply v w n = dispatch v n (shift_one_word w)"
    by (simp add: variant_apply_def)
  then show ?thesis
    using assms bit_imp_le_length[of w "n + i"]
    by (cases v) (auto simp: shift_one_word_def op_bits add.commute)
qed

lemma bit_shift_apply [op_bits]:
  assumes "valid_shift s"
  shows "bit (shift_apply s w) i \<longleftrightarrow> i < 64 \<and> reads w (shift_src (variant s) (amt s) i)"
  unfolding shift_apply_def by (rule bit_variant_apply) (use assms in \<open>simp add: valid_shift_def\<close>)

lemma shift_src_bound:
  assumes "n < max_amount v" "i < 64" "shift_src v n i = Some j"
  shows "j < 64"
proof -
  have "32 * (i div 32) + k < 64" if "k < 32" for k
    using assms(2) that by (cases rule: half_cases) auto
  moreover have "i + n < 64" if "i mod 32 + n < 32"
    using assms(2) that by (cases rule: half_cases) auto
  ultimately show ?thesis
    using assms by (cases v) (auto split: if_splits)
qed

text \<open>Two shifts in sequence read what the inner one put where the outer one looks.\<close>

definition seq_src :: "shift \<Rightarrow> shift \<Rightarrow> nat \<Rightarrow> nat option" where
  "seq_src inner outer i =
    Option.bind (shift_src (variant outer) (amt outer) i) (shift_src (variant inner) (amt inner))"

lemma bit_shift_seq:
  assumes "valid_shift inner" "valid_shift outer"
  shows "bit (shift_apply outer (shift_apply inner w)) i \<longleftrightarrow>
    i < 64 \<and> reads w (seq_src inner outer i)"
proof (cases "i < 64")
  case True
  show ?thesis
  proof (cases "shift_src (variant outer) (amt outer) i")
    case None
    then show ?thesis by (simp add: bit_shift_apply[OF assms(2)] seq_src_def)
  next
    case (Some j)
    then have "j < 64"
      using shift_src_bound[of "amt outer" "variant outer" i j] assms(2) True
      by (simp add: valid_shift_def)
    then show ?thesis
      by (simp add: bit_shift_apply[OF assms(2)] bit_shift_apply[OF assms(1)] seq_src_def Some True)
  qed
qed (simp add: bit_shift_apply[OF assms(2)])

lemma shift_seq_eqI:
  assumes "valid_shift inner" "valid_shift outer" "valid_shift s"
    and "\<And>i. i < 64 \<Longrightarrow> seq_src inner outer i = shift_src (variant s) (amt s) i"
  shows "shift_apply outer (shift_apply inner w) = shift_apply s w"
  by (rule bit_word_eqI)
    (simp only: bit_shift_seq[OF assms(1,2)] bit_shift_apply[OF assms(3)] assms(4) cong: conj_cong)

lemma shift_seq_zeroI:
  assumes "valid_shift inner" "valid_shift outer"
    and "\<And>i. i < 64 \<Longrightarrow> seq_src inner outer i = None"
  shows "shift_apply outer (shift_apply inner w) = 0"
  by (rule bit_word_eqI) (use assms in \<open>simp add: bit_shift_seq\<close>)

lemma shift_apply_identity:
  assumes "is_identity s"
  shows "shift_apply s w = w"
proof -
  have "valid_shift s" and "amt s = 0" using assms by (simp_all add: valid_shift_def is_identity_def)
  moreover have "shift_src v 0 i = Some i" if "i < 64" for v i
    using that by (cases v) auto
  ultimately show ?thesis
    by (intro bit_word_eqI) (simp add: bit_shift_apply)
qed

lemma valid_IDENTITY [simp]: "valid_shift IDENTITY" and is_identity_IDENTITY [simp]: "is_identity IDENTITY"
  and is_canonical_IDENTITY [simp]: "is_canonical IDENTITY"
  by (simp_all add: IDENTITY_def valid_shift_def is_identity_def is_canonical_def)

lemma shift_new_eq_Some:
  "shift_new v n = Some s \<longleftrightarrow> n < max_amount v \<and> s = \<lparr>variant = v, amount = of_nat n\<rparr>"
  by (auto simp: shift_new_def)

lemma unat_small_amount: "n < 64 \<Longrightarrow> unat (of_nat n :: u8) = n"
  by (simp add: unat_of_nat)


section \<open>Soundness of the composition rules\<close>

text \<open>
  A chain of total distance \<open>d\<close> reads as \<open>shift_src v d\<close>, with a distance that may exceed the
  width; \<open>chained_composition\<close> then says what the overlong distance comes to.
\<close>

lemma chained_SomeE:
  assumes "chained inner outer = Some (v, d)"
  obtains (same) "variant outer = variant inner" "v = variant inner" "d = amt inner + amt outer"
    | (sign_clear) "variant inner = Slr" "variant outer = Sar" "v = Slr" "d = amt inner + amt outer"
    | (sign_clear32) "variant inner = Srl32" "variant outer = Sra32" "v = Srl32" "d = amt inner + amt outer"
    | (sll_in) "variant inner = Sll" "variant outer = Sll32" "32 \<le> amt inner" "v = Sll" "d = amt inner + amt outer"
    | (sll_out) "variant inner = Sll32" "variant outer = Sll" "32 \<le> amt outer" "v = Sll" "d = amt inner + amt outer"
    | (slr_in) "variant inner = Slr" "variant outer = Srl32" "32 \<le> amt inner" "v = Slr" "d = amt inner + amt outer"
    | (slr_out) "variant inner = Srl32" "variant outer = Slr" "32 \<le> amt outer" "v = Slr" "d = amt inner + amt outer"
    | (sar_in) "variant inner = Sar" "variant outer = Sra32" "32 \<le> amt inner" "v = Sar" "d = amt inner + amt outer"
    | (sar_out) "variant inner = Sra32" "variant outer = Sar" "32 \<le> amt outer" "v = Sar" "d = amt inner + amt outer"
    | (clear_in) "variant inner = Slr" "variant outer = Sra32" "33 \<le> amt inner" "v = Slr" "d = amt inner + amt outer"
    | (clear_out) "variant inner = Srl32" "variant outer = Sar" "32 \<le> amt outer" "v = Slr" "d = amt inner + amt outer"
  using assms that by (auto simp: chained_def Let_def split: if_splits)

lemma div_32_mid: "32 \<le> (n :: nat) \<Longrightarrow> n < 64 \<Longrightarrow> n div 32 = 1"
  by (simp add: div_if)

lemma half_div_mod [simp]:
  "r < 32 \<Longrightarrow> (32 * q + r) div 32 = (q :: nat)" "r < 32 \<Longrightarrow> (32 * q + r) mod 32 = r"
  by simp_all

lemma half_mod_diff:
  assumes "b \<le> i mod (32 :: nat)"
  shows "(i - b) mod 32 = i mod 32 - b"
proof -
  have "i - b = 32 * (i div 32) + (i mod 32 - b)"
    using assms mult_div_mod_eq[of 32 i] by linarith
  moreover have "i mod 32 - b < 32" by (simp add: less_imp_diff_less)
  ultimately show ?thesis using half_div_mod(2)[of "i mod 32 - b" "i div 32"] by simp
qed

lemma half_mod_add:
  assumes "i mod 32 + b < (32 :: nat)"
  shows "(i + b) mod 32 = i mod 32 + b"
proof -
  have "i + b = 32 * (i div 32) + (i mod 32 + b)"
    using mult_div_mod_eq[of 32 i] by linarith
  then show ?thesis using half_div_mod(2)[OF assms, of "i div 32"] by simp
qed

lemma half_rot: "(32 * (q :: nat) + x mod 32 + a) mod 32 = (x + a) mod 32"
  by (simp add: add.assoc mod_simps)

lemma mod_32_mid: "32 \<le> (n :: nat) \<Longrightarrow> n < 64 \<Longrightarrow> n mod 32 = n - 32"
  by (simp add: mod_if)

lemma same_variant_src:
  assumes "i < 64"
  shows "Option.bind (shift_src v b i) (shift_src v a) = shift_src v (a + b) i"
proof (cases v)
  case Sll32
  then show ?thesis by (auto simp: half_mod_diff)
next
  case Srl32
  then show ?thesis by (auto simp: half_mod_add)
next
  case Rotr
  then show ?thesis by (simp add: mod_simps add_ac)
next
  case Rotr32
  then show ?thesis by (simp add: half_rot) (simp add: add_ac)
qed (auto simp: min_def)

lemma chained_src:
  assumes "valid_shift inner" "valid_shift outer" "chained inner outer = Some (v, d)"
    and "\<not> is_identity inner" "\<not> is_identity outer" "i < 64"
  shows "seq_src inner outer i = shift_src v d i"
proof -
  have pos: "0 < amt inner" "0 < amt outer"
    using assms(4,5) by (simp_all add: is_identity_def unat_gt_0)
  have bnd: "amt inner < max_amount (variant inner)" "amt outer < max_amount (variant outer)"
    using assms(1,2) by (simp_all add: valid_shift_def)
  from assms(3) show ?thesis
  proof (cases rule: chained_SomeE)
    case same
    then show ?thesis by (simp add: seq_src_def same_variant_src[OF assms(6)])
  next
    case sign_clear
    then show ?thesis using pos bnd by (auto simp: seq_src_def)
  next
    case sign_clear32
    then show ?thesis using pos bnd
      by (auto simp: seq_src_def)
  next
    case sll_in
    from assms(6) show ?thesis
      by (cases rule: half_cases) (use sll_in bnd in \<open>auto simp: seq_src_def\<close>)
  next
    case sll_out
    from assms(6) show ?thesis
      by (cases rule: half_cases) (use sll_out bnd in \<open>auto simp: seq_src_def\<close>)
  next
    case slr_in
    from assms(6) show ?thesis
      by (cases rule: half_cases) (use slr_in bnd in \<open>auto simp: seq_src_def\<close>)
  next
    case slr_out
    from assms(6) show ?thesis
      by (cases rule: half_cases) (use slr_out bnd in \<open>auto simp: seq_src_def mod_32_mid\<close>)
  next
    case sar_in
    from assms(6) show ?thesis
      by (cases rule: half_cases) (use sar_in bnd in \<open>auto simp: seq_src_def\<close>)
  next
    case sar_out
    from assms(6) show ?thesis
      by (cases rule: half_cases) (use sar_out bnd in \<open>auto simp: seq_src_def mod_32_mid div_32_mid\<close>)
  next
    case clear_in
    from assms(6) show ?thesis
      by (cases rule: half_cases) (use clear_in bnd in \<open>auto simp: seq_src_def\<close>)
  next
    case clear_out
    from assms(6) show ?thesis
      by (cases rule: half_cases) (use clear_out bnd pos in \<open>auto simp: seq_src_def mod_32_mid min_def\<close>)
  qed
qed

lemma shift_new_src:
  "n < max_amount v \<Longrightarrow>
    \<exists>s. shift_new v n = Some s \<and> valid_shift s \<and> variant s = v \<and> amt s = n"
proof -
  assume n: "n < max_amount v"
  then have "n < 64" using max_amount_le[of v] by linarith
  with n show ?thesis by (simp add: shift_new_def valid_shift_def unat_small_amount)
qed

text \<open>What a chain of any distance comes to, with no panic in \<open>Shift::new\<close>.\<close>

lemma chained_composition_src:
  "\<exists>c. chained_composition v d = Some c \<and>
    (case c of
       CompSingle s \<Rightarrow> valid_shift s \<and> (\<forall>i < 64. shift_src v d i = shift_src (variant s) (amt s) i)
     | CompZero \<Rightarrow> (\<forall>i < 64. shift_src v d i = None)
     | CompPair \<Rightarrow> False)"
proof -
  have wrap: ?thesis if "v = Rotr \<or> v = Rotr32"
  proof (cases "d mod max_amount v = 0")
    case True
    then have "shift_src v d i = Some i" if "i < 64" for i
      using \<open>v = Rotr \<or> v = Rotr32\<close> that
      by (auto simp: mod_add_right_eq[of _ d, symmetric])
    with True that show ?thesis by (auto simp: chained_composition_def IDENTITY_def valid_shift_def)
  next
    case False
    obtain s where s: "shift_new v (d mod max_amount v) = Some s" "valid_shift s"
        "variant s = v" "amt s = d mod max_amount v"
      using shift_new_src[of "d mod max_amount v" v] by auto
    with False that show ?thesis
      by (auto simp: chained_composition_def mod_simps)
  qed
  have sat: ?thesis if "v = Sar \<or> v = Sra32"
  proof -
    obtain s where s: "shift_new v (min d (max_amount v - 1)) = Some s" "valid_shift s"
        "variant s = v" "amt s = min d (max_amount v - 1)"
      using shift_new_src[of "min d (max_amount v - 1)" v] by (auto simp: min_less_iff_disj)
    with that show ?thesis
      by (auto simp: chained_composition_def min_def)
  qed
  have logical: ?thesis if "v = Sll \<or> v = Sll32 \<or> v = Slr \<or> v = Srl32"
  proof (cases "d < max_amount v")
    case True
    with that shift_new_src[OF True] show ?thesis by (auto simp: chained_composition_def)
  next
    case False
    have "i mod 32 < 32" for i :: nat by simp
    with False that show ?thesis
      by (auto simp: chained_composition_def not_less dest: le_less_trans less_le_trans)
  qed
  from wrap sat logical show ?thesis by (cases v) simp_all
qed

lemma degenerate_src:
  assumes "degenerate inner outer = Some s" "valid_shift inner" "valid_shift outer" "i < 64"
  shows "seq_src inner outer i = shift_src (variant s) (amt s) i"
proof -
  have bnd: "amt inner < max_amount (variant inner)" "amt outer < max_amount (variant outer)"
    using assms(2,3) by (simp_all add: valid_shift_def)
  have top: "min (x + 63) 63 = 63" "min (x + 31) 31 = 31" for x :: nat by simp_all
  consider "variant inner = Sar" "variant outer = Rotr \<or> variant outer = Rotr32" "amt inner = 63" "s = inner"
    | "variant inner = Sra32" "variant outer = Rotr32" "amt inner = 31" "s = inner"
    | "variant inner = Sar \<or> variant inner = Sra32" "variant outer = Slr" "amt outer = 63" "s = outer"
    | "variant inner = Sra32" "variant outer = Srl32" "amt outer = 31" "s = outer"
    using assms(1) by (auto simp: degenerate_def Let_def split: if_splits)
  then show ?thesis
  proof cases
    case 1
    then show ?thesis by (auto simp: seq_src_def top)
  next
    case 2
    then show ?thesis by (simp add: seq_src_def top)
  next
    case 3
    then show ?thesis by (auto simp: seq_src_def)
  next
    case 4
    from assms(4) show ?thesis
      by (cases rule: half_cases) (use 4 bnd in \<open>auto simp: seq_src_def\<close>)
  qed
qed

text \<open>The meaning of a composition, as the word the two shifts leave.\<close>

definition composition_sound :: "shift \<Rightarrow> shift \<Rightarrow> composition \<Rightarrow> bool" where
  "composition_sound inner outer c =
    (case c of
       CompSingle s \<Rightarrow> valid_shift s \<and> (\<forall>w. shift_apply outer (shift_apply inner w) = shift_apply s w)
     | CompZero \<Rightarrow> (\<forall>w. shift_apply outer (shift_apply inner w) = 0)
     | CompPair \<Rightarrow> \<not> is_identity inner \<and> \<not> is_identity outer)"

lemma compose_sound:
  assumes "valid_shift inner" "valid_shift outer"
  shows "\<exists>c. compose inner outer = Some c \<and> composition_sound inner outer c"
proof -
  consider (id_in) "is_identity inner" | (id_out) "\<not> is_identity inner" "is_identity outer"
    | (work) "\<not> is_identity inner" "\<not> is_identity outer" by blast
  then show ?thesis
  proof cases
    case id_in
    with assms show ?thesis
      by (simp add: compose_def composition_sound_def shift_apply_identity)
  next
    case id_out
    with assms show ?thesis
      by (simp add: compose_def composition_sound_def shift_apply_identity)
  next
    case work
    show ?thesis
    proof (cases "degenerate inner outer")
      case (Some s)
      then have "valid_shift s"
        using assms by (auto simp: degenerate_def Let_def split: if_splits)
      then have "composition_sound inner outer (CompSingle s)"
        using shift_seq_eqI[OF assms _ degenerate_src[OF Some assms]]
        by (simp add: composition_sound_def)
      with work Some show ?thesis by (simp add: compose_def)
    next
      case None
      show ?thesis
      proof (cases "chained inner outer")
        case None
        with work \<open>degenerate inner outer = None\<close> show ?thesis
          by (simp add: compose_def composition_sound_def)
      next
        case (Some vd)
        obtain v d where vd: "vd = (v, d)" by (cases vd)
        obtain c where c: "chained_composition v d = Some c" and
          src: "case c of
             CompSingle s \<Rightarrow> valid_shift s \<and> (\<forall>i < 64. shift_src v d i = shift_src (variant s) (amt s) i)
           | CompZero \<Rightarrow> (\<forall>i < 64. shift_src v d i = None)
           | CompPair \<Rightarrow> False"
          using chained_composition_src[of v d] by blast
        have seq: "seq_src inner outer i = shift_src v d i" if "i < 64" for i
          using chained_src[OF assms _ work that] Some vd by simp
        have "composition_sound inner outer c"
          using src seq shift_seq_eqI[OF assms] shift_seq_zeroI[OF assms]
          by (cases c) (simp_all add: composition_sound_def)
        with work None Some vd c show ?thesis by (simp add: compose_def)
      qed
    qed
  qed
qed

text \<open>Canonical shifts compose to a canonical shift.\<close>

lemma shift_new_canonical: "shift_new v n = Some s \<Longrightarrow> 0 < n \<Longrightarrow> is_canonical s"
proof -
  assume s: "shift_new v n = Some s" and n: "0 < n"
  then have "n < max_amount v" by (simp add: shift_new_eq_Some)
  then have "n < 64" using max_amount_le[of v] by linarith
  with s n show ?thesis
    by (auto simp: shift_new_eq_Some is_canonical_def is_identity_def
        dest: arg_cong[of _ _ unat] unat_small_amount)
qed

lemma compose_canonical:
  assumes "is_canonical inner" "is_canonical outer" "compose inner outer = Some (CompSingle s)"
  shows "is_canonical s"
proof (cases "is_identity inner \<or> is_identity outer")
  case True
  with assms show ?thesis by (auto simp: compose_def split: if_splits)
next
  case False
  then have pos: "0 < amt inner" "0 < amt outer" by (simp_all add: is_identity_def unat_gt_0)
  show ?thesis
  proof (cases "degenerate inner outer")
    case (Some t)
    then have "t = inner \<or> t = outer"
      by (auto simp: degenerate_def Let_def split: if_splits)
    with Some False assms show ?thesis by (auto simp: compose_def)
  next
    case None
    with False assms(3) obtain v d where
      vd: "chained inner outer = Some (v, d)" "chained_composition v d = Some (CompSingle s)"
      by (auto simp: compose_def split: option.splits)
    have "d = amt inner + amt outer" using vd(1) by (cases rule: chained_SomeE) simp_all
    then have "0 < d" using pos by simp
    with vd(2) show ?thesis
      using max_amount_le[of v] max_amount_pos[of v]
      by (cases v)
        (auto simp: chained_composition_def Let_def dest!: shift_new_canonical split: if_splits)
  qed
qed

section \<open>Properties of the shift alphabet\<close>

text \<open>C16: Classifying two shifts in sequence never panics on shifts with amounts in range, and is
  sound: a single shift denotes the same map on every word, the cleared case clears every word,
  and a pair is only reported when both shifts do work.\<close>

theorem compose_sound_total:
  assumes "unat (amount inner) < max_amount (variant inner)"
    and "unat (amount outer) < max_amount (variant outer)"
  shows "case compose inner outer of
      None \<Rightarrow> False
    | Some (CompSingle s) \<Rightarrow>
        unat (amount s) < max_amount (variant s) \<and>
        (\<forall>w. shift_apply outer (shift_apply inner w) = shift_apply s w)
    | Some CompZero \<Rightarrow> \<forall>w. shift_apply outer (shift_apply inner w) = 0
    | Some CompPair \<Rightarrow> amount inner \<noteq> 0 \<and> amount outer \<noteq> 0"
proof -
  have "valid_shift inner" "valid_shift outer" using assms by (simp_all add: valid_shift_def)
  then obtain c where "compose inner outer = Some c" "composition_sound inner outer c"
    using compose_sound by blast
  then show ?thesis
    by (cases c) (simp_all add: composition_sound_def valid_shift_def is_identity_def)
qed

theorem compose_sound_total_witness:
  "case compose \<lparr>variant = Srl32, amount = 3\<rparr> \<lparr>variant = Sar, amount = 40\<rparr> of
      None \<Rightarrow> False
    | Some (CompSingle s) \<Rightarrow>
        unat (amount s) < max_amount (variant s) \<and>
        (\<forall>w. shift_apply \<lparr>variant = Sar, amount = 40\<rparr> (shift_apply \<lparr>variant = Srl32, amount = 3\<rparr> w)
          = shift_apply s w)
    | Some CompZero \<Rightarrow>
        \<forall>w. shift_apply \<lparr>variant = Sar, amount = 40\<rparr> (shift_apply \<lparr>variant = Srl32, amount = 3\<rparr> w) = 0
    | Some CompPair \<Rightarrow>
        amount \<lparr>variant = Srl32, amount = 3\<rparr> \<noteq> 0 \<and> amount \<lparr>variant = Sar, amount = 40\<rparr> \<noteq> 0"
  by (rule compose_sound_total) simp_all

text \<open>C35: Two canonical shifts that collapse, collapse to a canonical shift, so the merged term
  passes the canonicity check again.\<close>

theorem compose_keeps_canonical:
  assumes "is_canonical inner" "is_canonical outer" "compose inner outer = Some (CompSingle s)"
  shows "is_canonical s"
  by (rule compose_canonical[OF assms])

theorem compose_keeps_canonical_witness:
  "is_canonical \<lparr>variant = Sar, amount = 63\<rparr>"
  by (rule compose_keeps_canonical[of "\<lparr>variant = Sar, amount = 5\<rparr>" "\<lparr>variant = Sar, amount = 60\<rparr>"])
    (simp_all add: is_canonical_def is_identity_def compose_def degenerate_def chained_def
      chained_composition_def shift_new_def)

lemma variant_u8_roundtrip [simp]: "variant_from_u8 (variant_as_u8 v) = Some v"
  by (cases v) (simp_all add: variant_from_u8_def)

lemma variant_from_u8_eq_Some: "variant_from_u8 b = Some v \<longleftrightarrow> b = variant_as_u8 v"
  by (cases v) (auto simp: variant_from_u8_def split: if_splits)

lemma variant_as_u8_bound: "unat (variant_as_u8 v) < 8"
  by (cases v) simp_all

lemma length_variant_ALL [simp]: "length variant_ALL = 8"
  by (simp add: variant_ALL_def)

lemma shift_from_index_Some:
  "n < 512 \<Longrightarrow> \<exists>v. variant_from_u8 (of_nat (n div 64)) = Some v \<and>
    shift_from_index n = Some \<lparr>variant = v, amount = of_nat (n mod 64)\<rparr>"
proof -
  assume n: "n < 512"
  then have "n div 64 < 8" by simp
  then have "n div 64 \<in> {0, 1, 2, 3, 4, 5, 6, 7}" by auto
  then have "\<exists>v. variant_from_u8 (of_nat (n div 64)) = Some v"
    by (elim insertE emptyE) (simp_all add: variant_from_u8_def)
  with n show ?thesis by (auto simp: shift_from_index_def)
qed

lemma shift_index_eq_Some:
  "shift_index s = Some n \<longleftrightarrow> shift_from_index n = Some s \<and> n < 512"
proof
  assume "shift_index s = Some n"
  then have a: "amt s < 64" and n: "n = unat (variant_as_u8 (variant s)) * 64 + amt s"
    by (auto simp: shift_index_def split: if_splits)
  have "n < 512" using a n variant_as_u8_bound[of "variant s"] by linarith
  moreover have "n div 64 = unat (variant_as_u8 (variant s))" "n mod 64 = amt s"
    using a unfolding n by simp_all
  ultimately show "shift_from_index n = Some s \<and> n < 512"
    by (simp add: shift_from_index_def)
next
  assume n: "shift_from_index n = Some s \<and> n < 512"
  then obtain v where v: "variant_from_u8 (of_nat (n div 64)) = Some v"
    and s: "s = \<lparr>variant = v, amount = of_nat (n mod 64)\<rparr>"
    using shift_from_index_Some[of n] by auto
  have "n div 64 < 64" using n by (simp add: less_mult_imp_div_less)
  then have "unat (variant_as_u8 v) = n div 64"
    using v unat_small_amount[of "n div 64"] by (simp add: variant_from_u8_eq_Some)
  then show "shift_index s = Some n"
    by (simp add: shift_index_def s unat_small_amount)
qed

text \<open>The index of a shift and the shift of an index are inverse on the enumeration of all
  512 spellings, and each panics outside it.\<close>

theorem shift_index_bijection:
  "(shift_index s = Some n \<longleftrightarrow> shift_from_index n = Some s \<and> n < 512) \<and>
   (shift_index s = None \<longleftrightarrow> 64 \<le> unat (amount s)) \<and> (shift_from_index n = None \<longleftrightarrow> 512 \<le> n)"
  using shift_index_eq_Some[of s n] shift_from_index_Some[of n]
  by (auto simp: shift_index_def shift_from_index_def not_less)

lemma length_xor_shifted_words [simp]: "length (xor_shifted_words out src f) = length out"
  by (induction out src f rule: xor_shifted_words.induct) simp_all

lemma nth_xor_shifted_words:
  "i < length out \<Longrightarrow>
    xor_shifted_words out src f ! i = (if i < length src then out ! i XOR f (src ! i) else out ! i)"
  by (induction out src f arbitrary: i rule: xor_shifted_words.induct) (auto simp: nth_Cons split: nat.split)

lemma length_write_shifted_words [simp]: "length (write_shifted_words out src f) = length out"
  by (induction out src f rule: write_shifted_words.induct) simp_all

lemma nth_write_shifted_words:
  "i < length out \<Longrightarrow>
    write_shifted_words out src f ! i = (if i < length src then Some (f (src ! i)) else out ! i)"
  by (induction out src f arbitrary: i rule: write_shifted_words.induct) (auto simp: nth_Cons split: nat.split)

lemma dispatch_apply: "n < 2 ^ 32 \<Longrightarrow> dispatch v n (shift_one_word w) = variant_apply v w n"
  by (simp add: variant_apply_def)

text \<open>C36: Resolving the variant once and running a loop over a slice agrees with shifting word by
  word: each cell that has a source word receives it shifted (written, or XORed in), and the
  cells past the shorter slice are untouched.\<close>

theorem shifted_slices_pointwise:
  assumes "n < 2 ^ 32"
  shows "(\<forall>i < length out. xor_shifted v out src n ! i =
        (if i < length src then out ! i XOR variant_apply v (src ! i) n else out ! i)) \<and>
      (\<forall>i < length cells. write_shifted v cells src n ! i =
        (if i < length src then Some (variant_apply v (src ! i) n) else cells ! i)) \<and>
      length (xor_shifted v out src n) = length out \<and>
      length (write_shifted v cells src n) = length cells"
  unfolding xor_shifted_def write_shifted_def
  by (subst (1 2 3 4) dispatch_kernel)
    (simp add: nth_xor_shifted_words nth_write_shifted_words dispatch_apply[OF assms])

theorem shifted_slices_pointwise_witness:
  "xor_shifted Sll [1] [1, 2] 3 ! 0 = 1 XOR variant_apply Sll 1 3 \<and>
    write_shifted Sll [None] [1, 2] 3 ! 0 = Some (variant_apply Sll 1 3) \<and>
    length (xor_shifted Sll [1] [1, 2] 3) = 1 \<and>
    length (write_shifted Sll [None] [1, 2] 3) = 1"
  using shifted_slices_pointwise[of 3 "[1]" Sll "[1, 2]" "[None]"] by simp

end
