(* ===== verification/Value_Index.thy ===== *)
theory Value_Index
  imports Core_Word
begin

text \<open>
  Value indices and layouts: \<open>crates/core/src/constraint_system/value_index.rs\<close> and
  \<open>layout.rs\<close>.  A value index packs a segment tag and an index into one 32-bit word; the
  lemmas show that the packing loses nothing and orders the words as the value vector
  stores them.
\<close>

section \<open>Segments\<close>

datatype value_segment = Constant | InOut | Private | Scratch

fun segment_as_u32 :: "value_segment \<Rightarrow> u32" where
  "segment_as_u32 Constant = 0"
| "segment_as_u32 InOut = 1"
| "segment_as_u32 Private = 2"
| "segment_as_u32 Scratch = 3"

definition segment_ALL :: "value_segment list" where
  "segment_ALL = [Constant, InOut, Private, Scratch]"

definition is_referenceable :: "value_segment \<Rightarrow> bool" where
  "is_referenceable s \<longleftrightarrow> s \<noteq> Scratch"

text \<open>\<open>None\<close> is the panic of a tag that is not masked to two bits.\<close>

definition segment_from_tag :: "u32 \<Rightarrow> value_segment option" where
  "segment_from_tag tag =
    (if tag = 0 then Some Constant
     else if tag = 1 then Some InOut
     else if tag = 2 then Some Private
     else if tag = 3 then Some Scratch
     else None)"

section \<open>Packed value indices\<close>

datatype value_index = ValueIndex (packed: u32)

definition INDEX_BITS :: nat where "INDEX_BITS = 30"
definition SEGMENT_CAPACITY :: u32 where "SEGMENT_CAPACITY = push_bit INDEX_BITS 1"
definition INDEX_MASK :: u32 where "INDEX_MASK = SEGMENT_CAPACITY - 1"

definition vi_new :: "value_segment \<Rightarrow> u32 \<Rightarrow> value_index option" where
  "vi_new s i =
    (if i < SEGMENT_CAPACITY then Some (ValueIndex (push_bit INDEX_BITS (segment_as_u32 s) OR i))
     else None)"

definition vi_constant :: "u32 \<Rightarrow> value_index option" where "vi_constant i = vi_new Constant i"
definition vi_inout :: "u32 \<Rightarrow> value_index option" where "vi_inout i = vi_new InOut i"
definition vi_private :: "u32 \<Rightarrow> value_index option" where "vi_private i = vi_new Private i"
definition vi_scratch :: "u32 \<Rightarrow> value_index option" where "vi_scratch i = vi_new Scratch i"

text \<open>
  The tag is the top two bits of the packed word, so the panic of \<open>from_tag\<close> cannot be
  reached (\<open>segment_total\<close> below); \<open>vi_segment\<close> returns the segment.
\<close>

definition vi_segment :: "value_index \<Rightarrow> value_segment" where
  "vi_segment v = the (segment_from_tag (drop_bit INDEX_BITS (packed v)))"

definition vi_index :: "value_index \<Rightarrow> u32" where
  "vi_index v = packed v AND INDEX_MASK"

text \<open>The derived ordering compares the packed words.\<close>

instantiation value_index :: linorder
begin

definition less_eq_value_index :: "value_index \<Rightarrow> value_index \<Rightarrow> bool" where
  "less_eq_value_index a b \<longleftrightarrow> packed a \<le> packed b"

definition less_value_index :: "value_index \<Rightarrow> value_index \<Rightarrow> bool" where
  "less_value_index a b \<longleftrightarrow> packed a < packed b"

instance
  by intro_classes
    (auto simp: less_eq_value_index_def less_value_index_def value_index.expand)

end

lemma capacity_simps [simp]:
  "unat SEGMENT_CAPACITY = 2 ^ 30" "INDEX_MASK = mask 30" "INDEX_BITS = 30"
  by (simp_all add: SEGMENT_CAPACITY_def INDEX_MASK_def INDEX_BITS_def mask_eq_exp_minus_1
      push_bit_eq_mult)

lemma less_capacity_iff: "i < SEGMENT_CAPACITY \<longleftrightarrow> unat i < 2 ^ 30"
  by (simp add: word_less_nat_alt)

lemma unat_packed: "unat (drop_bit 30 (p :: u32)) * 2 ^ 30 + unat (p AND mask 30) = unat p"
  by (simp only: unat_and_mask unat_drop_bit) simp

lemma segment_total: "segment_from_tag (drop_bit 30 (p :: u32)) \<noteq> None"
proof -
  have "unat p < 2 ^ 32" by (rule order_less_le_trans[OF unsigned_less]) simp
  then have "unat (drop_bit 30 p) < 4" using unat_packed[of p] by simp
  then have "unat (drop_bit 30 p) \<in> {0, 1, 2, 3}" by auto
  then have "drop_bit 30 p \<in> {0, 1, 2, 3}"
    by (auto simp: word_unat_eq_iff)
  then show ?thesis by (auto simp: segment_from_tag_def)
qed

lemma segment_as_u32_vi_segment: "segment_as_u32 (vi_segment v) = drop_bit 30 (packed v)"
  using segment_total[of "packed v"]
  by (auto simp: vi_segment_def segment_from_tag_def split: if_splits)

lemma segment_as_u32_inj [simp]: "segment_as_u32 s = segment_as_u32 t \<longleftrightarrow> s = t"
  by (cases s; cases t) simp_all

lemma segment_u32_roundtrip [simp]: "segment_from_tag (segment_as_u32 s) = Some s"
  by (cases s) (simp_all add: segment_from_tag_def)

lemma packed_fields:
  assumes "unat i < 2 ^ 30"
  shows "drop_bit 30 (push_bit 30 (segment_as_u32 s) OR i) = segment_as_u32 s"
    and "(push_bit 30 (segment_as_u32 s) OR i) AND mask 30 = i"
proof -
  have "drop_bit 30 i = 0"
    using assms unat_packed[of i] by (metis drop_bit_eq_div div_less unat_drop_bit_eq unat_eq_0)
  moreover have "drop_bit 30 (push_bit 30 (segment_as_u32 s)) = segment_as_u32 s"
    by (cases s) (simp_all add: push_bit_eq_mult)
  ultimately show "drop_bit 30 (push_bit 30 (segment_as_u32 s) OR i) = segment_as_u32 s"
    by simp
  have "take_bit 30 i = i"
    using assms by (simp add: word_unat_eq_iff unsigned_take_bit_eq take_bit_nat_eq_self)
  then show "(push_bit 30 (segment_as_u32 s) OR i) AND mask 30 = i"
    by (simp add: take_bit_push_bit flip: take_bit_eq_mask)
qed

lemma vi_new_Some:
  "vi_new s i = Some v \<longleftrightarrow> unat i < 2 ^ 30 \<and> vi_segment v = s \<and> vi_index v = i"
proof
  assume a: "vi_new s i = Some v"
  then have i: "unat i < 2 ^ 30" and v: "packed v = push_bit 30 (segment_as_u32 s) OR i"
    by (auto simp: vi_new_def less_capacity_iff split: if_splits)
  show "unat i < 2 ^ 30 \<and> vi_segment v = s \<and> vi_index v = i"
    using i packed_fields[OF i, of s] by (simp add: vi_segment_def vi_index_def v)
next
  assume a: "unat i < 2 ^ 30 \<and> vi_segment v = s \<and> vi_index v = i"
  then have "packed v AND mask 30 = i" "drop_bit 30 (packed v) = segment_as_u32 s"
    by (auto simp: vi_index_def segment_as_u32_vi_segment)
  moreover have "packed v = push_bit 30 (drop_bit 30 (packed v)) OR (packed v AND mask 30)"
    by (rule bit_word_eqI) (auto simp: bit_simps)
  ultimately have "packed v = push_bit 30 (segment_as_u32 s) OR i" by simp
  with a show "vi_new s i = Some v"
    by (cases v) (auto simp: vi_new_def less_capacity_iff)
qed

lemma vi_index_bound: "unat (vi_index v) < 2 ^ 30"
proof -
  have "unat (vi_index v) = unat (packed v) mod 2 ^ 30"
    by (simp only: vi_index_def capacity_simps unat_and_mask)
  then show ?thesis by simp
qed

text \<open>The position of an index in the packed order.\<close>

lemma unat_packed_vi: "unat (packed v) = unat (segment_as_u32 (vi_segment v)) * 2 ^ 30 + unat (vi_index v)"
  using unat_packed[of "packed v"] by (simp add: segment_as_u32_vi_segment vi_index_def)

lemma value_index_eqI: "vi_segment v = vi_segment w \<Longrightarrow> vi_index v = vi_index w \<Longrightarrow> v = w"
  using unat_packed_vi[of v] unat_packed_vi[of w] by (simp add: value_index.expand word_unat_eq_iff)

section \<open>Properties of value indices\<close>

text \<open>Packing is exact: an index below the segment capacity packs, and unpacks to the same
  segment and index; every packed word is the packing of its own segment and index; and a larger
  index panics.\<close>

theorem value_index_packing:
  "(vi_new s i = Some v \<longleftrightarrow> unat i < 2 ^ 30 \<and> vi_segment v = s \<and> vi_index v = i) \<and>
   vi_new (vi_segment v) (vi_index v) = Some v \<and>
   (vi_new s i = None \<longleftrightarrow> 2 ^ 30 \<le> unat i)"
  using vi_new_Some[of s i v] vi_new_Some[of "vi_segment v" "vi_index v" v] vi_index_bound[of v]
  by (auto simp: vi_new_def less_capacity_iff not_less)

text \<open>The derived order of value indices is the order of the words in the value vector:
  first by segment, then by index.\<close>

theorem value_index_order:
  "v < w \<longleftrightarrow>
    segment_as_u32 (vi_segment v) < segment_as_u32 (vi_segment w) \<or>
    vi_segment v = vi_segment w \<and> vi_index v < vi_index w"
proof -
  have "v < w \<longleftrightarrow> unat (packed v) < unat (packed w)"
    by (simp add: less_value_index_def word_less_nat_alt)
  then show ?thesis
    using vi_index_bound[of v] vi_index_bound[of w]
    by (cases "vi_segment v"; cases "vi_segment w") (auto simp: unat_packed_vi word_less_nat_alt)
qed

end
