(* ===== verification/Value_Vec.thy ===== *)
theory Value_Vec
  imports Value_Index
begin

text \<open>
  Layouts and value vectors: \<open>layout.rs\<close> and \<open>value_vec.rs\<close> of
  \<open>crates/core/src/constraint_system\<close>.  The words live in a buffer of 16-byte blocks, two
  words each (\<open>AlignedWords\<close>); its contract is the locale \<open>word_buffer\<close>, on which the lemmas
  on value vectors rest.  \<open>None\<close> is a panic (an index or a slice out of range).
\<close>

section \<open>Layouts\<close>

record value_vec_layout =
  lay_n_const :: nat
  lay_n_inout :: nat
  lay_n_witness :: nat
  lay_n_internal :: nat
  lay_n_scratch :: nat

definition lay_offset_inout :: "value_vec_layout \<Rightarrow> nat" where
  "lay_offset_inout l = lay_n_const l"

definition lay_offset_witness :: "value_vec_layout \<Rightarrow> nat" where
  "lay_offset_witness l = lay_n_const l + lay_n_inout l"

definition lay_n_private :: "value_vec_layout \<Rightarrow> nat" where
  "lay_n_private l = lay_n_witness l + lay_n_internal l"

definition lay_combined_len :: "value_vec_layout \<Rightarrow> nat" where
  "lay_combined_len l = lay_offset_witness l + lay_n_private l"

definition lay_word_offset :: "value_vec_layout \<Rightarrow> value_index \<Rightarrow> nat" where
  "lay_word_offset l index =
    (case vi_segment index of
       Constant \<Rightarrow> 0
     | InOut \<Rightarrow> lay_offset_inout l
     | Private \<Rightarrow> lay_offset_witness l
     | Scratch \<Rightarrow> lay_combined_len l) + unat (vi_index index)"

section \<open>Buffers of words\<close>

text \<open>A slice \<open>[a..b]\<close> of a list of words.\<close>

definition slice :: "'a list \<Rightarrow> nat \<Rightarrow> nat \<Rightarrow> 'a list option" where
  "slice xs a b = (if a \<le> b \<and> b \<le> length xs then Some (take (b - a) (drop a xs)) else None)"

definition read_at :: "'a list \<Rightarrow> nat \<Rightarrow> 'a option" where
  "read_at xs i = (if i < length xs then Some (xs ! i) else None)"

text \<open>Writing a run of words from position \<open>i\<close> on, word by word.\<close>

fun copy_words :: "('b \<Rightarrow> nat \<Rightarrow> u64 \<Rightarrow> 'b option) \<Rightarrow> 'b \<Rightarrow> nat \<Rightarrow> u64 list \<Rightarrow> 'b option" where
  "copy_words put b i [] = Some b"
| "copy_words put b i (w # ws) =
    (case put b i w of None \<Rightarrow> None | Some b' \<Rightarrow> copy_words put b' (Suc i) ws)"

record aligned_words =
  blocks :: "(u64 \<times> u64) list"
  aw_len :: nat

definition aw_zeroed :: "nat \<Rightarrow> aligned_words" where
  "aw_zeroed len = \<lparr>blocks = replicate ((len + 1) div 2) (ZERO, ZERO), aw_len = len\<rparr>"

definition aw_deref :: "aligned_words \<Rightarrow> u64 list" where
  "aw_deref a = take (aw_len a) (concat (map (\<lambda>(x, y). [x, y]) (blocks a)))"

definition aw_set :: "aligned_words \<Rightarrow> nat \<Rightarrow> u64 \<Rightarrow> aligned_words option" where
  "aw_set a i w =
    (if i < aw_len a
     then let (x, y) = blocks a ! (i div 2)
       in Some (a\<lparr>blocks := (blocks a)[i div 2 := (if even i then (w, y) else (x, w))]\<rparr>)
     else None)"

definition aw_ok :: "aligned_words \<Rightarrow> bool" where
  "aw_ok a \<longleftrightarrow> aw_len a \<le> 2 * length (blocks a)"

lemma copy_words_run:
  assumes step: "\<And>b i w. I b \<Longrightarrow> i < n \<Longrightarrow>
      \<exists>b'. put b i w = Some b' \<and> I b' \<and> view b' = (view b)[k + i := w]"
  shows "I b \<Longrightarrow> i + length ws \<le> n \<Longrightarrow> k + n \<le> length (view b) \<Longrightarrow>
    \<exists>b'. copy_words put b i ws = Some b' \<and> I b' \<and>
      view b' = take (k + i) (view b) @ ws @ drop (k + i + length ws) (view b)"
proof (induction ws arbitrary: b i)
  case Nil
  then show ?case by simp
next
  case (Cons w ws)
  then obtain b1 where b1: "put b i w = Some b1" "I b1" "view b1 = (view b)[k + i := w]"
    using step[of b i w] by auto
  then obtain b2 where "copy_words put b1 (Suc i) ws = Some b2" "I b2"
    "view b2 = take (k + Suc i) (view b1) @ ws @ drop (k + Suc i + length ws) (view b1)"
    using Cons.IH[of b1 "Suc i"] Cons.prems by auto
  with b1 Cons.prems show ?case
    by (auto simp: take_Suc_conv_app_nth)
qed

text \<open>What the value vector relies on in its buffer.\<close>

locale word_buffer =
  fixes zeroed :: "nat \<Rightarrow> 'b"
    and view :: "'b \<Rightarrow> u64 list"
    and put :: "'b \<Rightarrow> nat \<Rightarrow> u64 \<Rightarrow> 'b option"
    and ok :: "'b \<Rightarrow> bool"
  assumes view_zeroed: "view (zeroed n) = replicate n 0"
    and ok_zeroed: "ok (zeroed n)"
    and put_in_range: "ok b \<Longrightarrow> i < length (view b) \<Longrightarrow>
      \<exists>b'. put b i w = Some b' \<and> ok b' \<and> view b' = (view b)[i := w]"
    and put_out_of_range: "ok b \<Longrightarrow> length (view b) \<le> i \<Longrightarrow> put b i w = None"
begin

lemma copy_words_in_range:
  assumes "ok b" "i + length ws \<le> length (view b)"
  shows "\<exists>b'. copy_words put b i ws = Some b' \<and> ok b' \<and>
    view b' = take i (view b) @ ws @ drop (i + length ws) (view b)"
proof -
  have step: "\<exists>b2. put b1 j w = Some b2 \<and> (ok b2 \<and> length (view b2) = length (view b)) \<and>
      view b2 = (view b1)[0 + j := w]"
    if "ok b1 \<and> length (view b1) = length (view b)" "j < length (view b)" for b1 j w
    using put_in_range[of b1 j w] that by auto
  show ?thesis
    using copy_words_run[OF step, of "length (view b)", OF _ _ _ assms(2)] assms(1) by auto
qed

lemma fresh_copy:
  "\<exists>b1 b2. copy_words put (zeroed (length xs + length ys)) 0 xs = Some b1 \<and>
    copy_words put b1 (length xs) ys = Some b2 \<and> ok b2 \<and> view b2 = xs @ ys"
proof -
  obtain b1 where b1: "copy_words put (zeroed (length xs + length ys)) 0 xs = Some b1" "ok b1"
    "view b1 = xs @ replicate (length ys) 0"
    using copy_words_in_range[OF ok_zeroed, of 0 xs "length xs + length ys"]
    by (auto simp: view_zeroed)
  then show ?thesis
    using copy_words_in_range[of b1 "length xs" ys] by auto
qed

end

lemma length_blocks [simp]: "length (concat (map (\<lambda>(x, y). [x, y]) bs)) = 2 * length bs"
  by (induction bs) auto

lemma nth_blocks:
  "i < 2 * length bs \<Longrightarrow> concat (map (\<lambda>(x, y). [x, y]) bs) ! i =
    (if even i then fst (bs ! (i div 2)) else snd (bs ! (i div 2)))"
proof (induction bs arbitrary: i)
  case Nil
  then show ?case by simp
next
  case (Cons b bs)
  obtain x y where b: "b = (x, y)" by (cases b)
  consider "i = 0" | "i = 1" | k where "i = Suc (Suc k)"
    by (metis One_nat_def not0_implies_Suc)
  then show ?case
    using Cons by cases (auto simp: b)
qed

lemma concat_blocks_update:
  assumes "i div 2 < length bs"
  shows "concat (map (\<lambda>(x, y). [x, y])
      (bs[i div 2 := (if even i then (w, snd (bs ! (i div 2))) else (fst (bs ! (i div 2)), w))])) =
    (concat (map (\<lambda>(x, y). [x, y]) bs))[i := w]"
  using assms
  by (intro nth_equalityI) (auto simp: nth_blocks nth_list_update elim!: evenE oddE)

lemma concat_zero_blocks: "concat (replicate k [0, 0 :: u64]) = replicate (2 * k) 0"
  by (induction k) simp_all

interpretation aw: word_buffer aw_zeroed aw_deref aw_set aw_ok
proof unfold_locales
  show "aw_deref (aw_zeroed n) = replicate n 0" for n
    by (simp add: aw_deref_def aw_zeroed_def ZERO_def concat_zero_blocks min_def)
  show "aw_ok (aw_zeroed n)" for n
    by (simp add: aw_ok_def aw_zeroed_def)
  show "\<exists>b'. aw_set b i w = Some b' \<and> aw_ok b' \<and> aw_deref b' = (aw_deref b)[i := w]"
    if "aw_ok b" "i < length (aw_deref b)" for b i w
  proof -
    have i: "i < aw_len b" "i div 2 < length (blocks b)"
      using that by (auto simp: aw_ok_def aw_deref_def)
    then show ?thesis
      using that(1) concat_blocks_update[OF i(2), of w]
      by (auto simp: aw_set_def aw_ok_def aw_deref_def Let_def take_update_swap
          split: prod.split if_splits)
  qed
  show "aw_set b i w = None" if "aw_ok b" "length (aw_deref b) \<le> i" for b i w
    using that by (auto simp: aw_set_def aw_ok_def aw_deref_def)
qed

section \<open>Value vectors\<close>

record value_vec =
  vv_n_const :: nat
  vv_n_public_values :: nat
  vv_n_private :: nat
  vv_data :: aligned_words

definition vv_new :: "value_vec_layout \<Rightarrow> value_vec" where
  "vv_new l =
    \<lparr>vv_n_const = lay_n_const l,
     vv_n_public_values = lay_offset_witness l,
     vv_n_private = lay_n_private l,
     vv_data = aw_zeroed (lay_combined_len l + lay_n_scratch l)\<rparr>"

definition vv_new_from_data :: "nat \<Rightarrow> u64 list \<Rightarrow> u64 list \<Rightarrow> value_vec option" where
  "vv_new_from_data n_const public private =
    (let data = aw_zeroed (length public + length private)
     in case copy_words aw_set data 0 public of
          None \<Rightarrow> None
        | Some data \<Rightarrow>
            (case copy_words aw_set data (length public) private of
               None \<Rightarrow> None
             | Some data \<Rightarrow>
                 Some \<lparr>vv_n_const = n_const,
                   vv_n_public_values = length public,
                   vv_n_private = length private,
                   vv_data = data\<rparr>))"

definition vv_word :: "value_vec \<Rightarrow> u32 \<Rightarrow> u64 option" where
  "vv_word v offset = read_at (aw_deref (vv_data v)) (unat offset)"

definition vv_word_mut :: "value_vec \<Rightarrow> u32 \<Rightarrow> u64 \<Rightarrow> value_vec option" where
  "vv_word_mut v offset w =
    map_option (\<lambda>d. v\<lparr>vv_data := d\<rparr>) (aw_set (vv_data v) (unat offset) w)"

definition vv_size :: "value_vec \<Rightarrow> nat" where
  "vv_size v = vv_n_public_values v + vv_n_private v"

definition vv_word_offset :: "value_vec \<Rightarrow> value_index \<Rightarrow> nat" where
  "vv_word_offset v index =
    (case vi_segment index of
       Constant \<Rightarrow> 0
     | InOut \<Rightarrow> vv_n_const v
     | Private \<Rightarrow> vv_n_public_values v
     | Scratch \<Rightarrow> vv_size v) + unat (vi_index index)"

definition vv_public :: "value_vec \<Rightarrow> u64 list option" where
  "vv_public v = slice (aw_deref (vv_data v)) 0 (vv_n_public_values v)"

definition vv_inout :: "value_vec \<Rightarrow> u64 list option" where
  "vv_inout v = slice (aw_deref (vv_data v)) (vv_n_const v) (vv_n_public_values v)"

definition vv_non_public :: "value_vec \<Rightarrow> u64 list option" where
  "vv_non_public v = slice (aw_deref (vv_data v)) (vv_n_public_values v) (vv_size v)"

definition vv_combined_witness :: "value_vec \<Rightarrow> u64 list option" where
  "vv_combined_witness v = slice (aw_deref (vv_data v)) 0 (vv_size v)"

definition vv_get :: "value_vec \<Rightarrow> value_index \<Rightarrow> u64 option" where
  "vv_get v index = read_at (aw_deref (vv_data v)) (vv_word_offset v index)"

definition vv_set :: "value_vec \<Rightarrow> value_index \<Rightarrow> u64 \<Rightarrow> value_vec option" where
  "vv_set v index w =
    map_option (\<lambda>d. v\<lparr>vv_data := d\<rparr>) (aw_set (vv_data v) (vv_word_offset v index) w)"

text \<open>Every value vector the two constructors return is well formed, and writing keeps it so.\<close>

definition vv_wf :: "value_vec \<Rightarrow> bool" where
  "vv_wf v \<longleftrightarrow> aw_ok (vv_data v) \<and> vv_size v \<le> length (aw_deref (vv_data v))"

lemma vv_new_wf: "vv_wf (vv_new l)"
  by (simp add: vv_wf_def vv_new_def vv_size_def lay_combined_len_def aw.ok_zeroed aw.view_zeroed)

lemma vv_new_from_data_Some:
  "\<exists>v. vv_new_from_data n pub priv = Some v \<and> vv_wf v \<and> vv_n_const v = n \<and>
    vv_n_public_values v = length pub \<and> vv_n_private v = length priv \<and>
    aw_deref (vv_data v) = pub @ priv"
proof -
  obtain b1 b2 where
    "copy_words aw_set (aw_zeroed (length pub + length priv)) 0 pub = Some b1"
    "copy_words aw_set b1 (length pub) priv = Some b2" "aw_ok b2"
    "aw_deref b2 = pub @ priv"
    using aw.fresh_copy[of pub priv] by blast
  then show ?thesis by (simp add: vv_new_from_data_def vv_wf_def vv_size_def)
qed

lemma vv_set_Some:
  assumes "vv_wf v" "vv_word_offset v index < length (aw_deref (vv_data v))"
  shows "\<exists>v'. vv_set v index w = Some v' \<and> vv_wf v' \<and>
    aw_deref (vv_data v') = (aw_deref (vv_data v))[vv_word_offset v index := w] \<and>
    vv_n_const v' = vv_n_const v \<and> vv_n_public_values v' = vv_n_public_values v \<and>
    vv_n_private v' = vv_n_private v"
proof -
  obtain d where "aw_set (vv_data v) (vv_word_offset v index) w = Some d" "aw_ok d"
    "aw_deref d = (aw_deref (vv_data v))[vv_word_offset v index := w]"
    using aw.put_in_range[of "vv_data v" "vv_word_offset v index" w] assms by (auto simp: vv_wf_def)
  with assms(1) show ?thesis by (simp add: vv_set_def vv_wf_def vv_size_def)
qed

lemma read_at_eq_Some: "read_at xs i = Some x \<longleftrightarrow> i < length xs \<and> xs ! i = x"
  by (auto simp: read_at_def)

end
