(* ===== verification/Operand.thy ===== *)
theory Operand
  imports Shift Value_Vec
begin

text \<open>
  Shifted value indices and operands (\<open>shift.rs\<close>), evaluated against any source of words
  (trait \<open>WordSource\<close> of \<open>value_vec.rs\<close>).  A source is a function from value indices to
  words that may panic; the locale \<open>word_source\<close> states which indices a source answers.
\<close>

record shifted_value_index =
  value_index :: value_index
  shift_seq :: "shift \<times> shift"

type_synonym operand = "shifted_value_index list"

definition svi_new :: "value_index \<Rightarrow> shift \<times> shift \<Rightarrow> shifted_value_index" where
  "svi_new v seq = \<lparr>value_index = v, shift_seq = seq\<rparr>"

definition svi_single :: "value_index \<Rightarrow> shift \<Rightarrow> shifted_value_index" where
  "svi_single v s = svi_new v (s, IDENTITY)"

definition svi_inner :: "shifted_value_index \<Rightarrow> shift" where
  "svi_inner t = fst (shift_seq t)"

definition svi_outer :: "shifted_value_index \<Rightarrow> shift" where
  "svi_outer t = snd (shift_seq t)"

definition is_unshifted :: "shifted_value_index \<Rightarrow> bool" where
  "is_unshifted t \<longleftrightarrow> is_identity (svi_inner t)"

definition is_doubly_shifted :: "shifted_value_index \<Rightarrow> bool" where
  "is_doubly_shifted t \<longleftrightarrow> \<not> is_identity (svi_outer t)"

definition svi_plain :: "value_index \<Rightarrow> shifted_value_index" where
  "svi_plain v = svi_single v IDENTITY"

definition svi_sll :: "value_index \<Rightarrow> nat \<Rightarrow> shifted_value_index option" where
  "svi_sll v n = map_option (svi_single v) (shift_sll n)"
definition svi_srl :: "value_index \<Rightarrow> nat \<Rightarrow> shifted_value_index option" where
  "svi_srl v n = map_option (svi_single v) (shift_srl n)"
definition svi_sar :: "value_index \<Rightarrow> nat \<Rightarrow> shifted_value_index option" where
  "svi_sar v n = map_option (svi_single v) (shift_sar n)"
definition svi_rotr :: "value_index \<Rightarrow> nat \<Rightarrow> shifted_value_index option" where
  "svi_rotr v n = map_option (svi_single v) (shift_rotr n)"
definition svi_sll32 :: "value_index \<Rightarrow> nat \<Rightarrow> shifted_value_index option" where
  "svi_sll32 v n = map_option (svi_single v) (shift_sll32 n)"
definition svi_srl32 :: "value_index \<Rightarrow> nat \<Rightarrow> shifted_value_index option" where
  "svi_srl32 v n = map_option (svi_single v) (shift_srl32 n)"
definition svi_sra32 :: "value_index \<Rightarrow> nat \<Rightarrow> shifted_value_index option" where
  "svi_sra32 v n = map_option (svi_single v) (shift_sra32 n)"
definition svi_rotr32 :: "value_index \<Rightarrow> nat \<Rightarrow> shifted_value_index option" where
  "svi_rotr32 v n = map_option (svi_single v) (shift_rotr32 n)"

text \<open>A term reads its word, then applies the inner and the outer shift.\<close>

definition svi_eval :: "(value_index \<Rightarrow> u64 option) \<Rightarrow> shifted_value_index \<Rightarrow> u64 option" where
  "svi_eval source t =
    (case shift_seq t of (inner, outer) \<Rightarrow>
      map_option (\<lambda>w. shift_apply outer (shift_apply inner w)) (source (value_index t)))"

fun eval_operand_from :: "u64 \<Rightarrow> (value_index \<Rightarrow> u64 option) \<Rightarrow> operand \<Rightarrow> u64 option" where
  "eval_operand_from acc source [] = Some acc"
| "eval_operand_from acc source (t # ts) =
    (case svi_eval source t of
       None \<Rightarrow> None
     | Some w \<Rightarrow> eval_operand_from (acc XOR w) source ts)"

definition eval_operand :: "(value_index \<Rightarrow> u64 option) \<Rightarrow> operand \<Rightarrow> u64 option" where
  "eval_operand source opnd = eval_operand_from ZERO source opnd"

section \<open>Evaluation\<close>

text \<open>The word an operand denotes when every index it names is answered.\<close>

definition svi_val :: "(value_index \<Rightarrow> u64) \<Rightarrow> shifted_value_index \<Rightarrow> u64" where
  "svi_val f t = shift_apply (svi_outer t) (shift_apply (svi_inner t) (f (value_index t)))"

fun operand_val :: "(value_index \<Rightarrow> u64) \<Rightarrow> operand \<Rightarrow> u64" where
  "operand_val f [] = 0"
| "operand_val f (t # ts) = svi_val f t XOR operand_val f ts"

lemma svi_eval_Some: "source (value_index t) = Some w \<Longrightarrow> svi_eval source t = Some (svi_val (\<lambda>_. w) t)"
  by (simp add: svi_eval_def svi_val_def svi_inner_def svi_outer_def split: prod.split)

lemma svi_eval_None: "svi_eval source t = None \<longleftrightarrow> source (value_index t) = None"
  by (simp add: svi_eval_def split: prod.split)

lemma eval_operand_from_val:
  assumes "\<forall>t \<in> set ts. source (value_index t) = Some (f (value_index t))"
  shows "eval_operand_from acc source ts = Some (acc XOR operand_val f ts)"
  using assms
proof (induction ts arbitrary: acc)
  case Nil
  then show ?case by simp
next
  case (Cons t ts)
  then have "svi_eval source t = Some (svi_val f t)"
    using svi_eval_Some[of source t] by (simp add: svi_val_def)
  with Cons show ?case by (simp add: xor.assoc)
qed

lemma eval_operand_val:
  assumes "\<forall>t \<in> set ts. source (value_index t) = Some (f (value_index t))"
  shows "eval_operand source ts = Some (operand_val f ts)"
  using eval_operand_from_val[OF assms, of ZERO] by (simp add: eval_operand_def ZERO_def)

lemma eval_operand_None:
  "eval_operand source ts = None \<longleftrightarrow> (\<exists>t \<in> set ts. source (value_index t) = None)"
proof
  show "eval_operand source ts = None \<Longrightarrow> \<exists>t \<in> set ts. source (value_index t) = None"
    using eval_operand_val[of ts source "\<lambda>v. the (source v)"] by fastforce
next
  assume "\<exists>t \<in> set ts. source (value_index t) = None"
  then have "eval_operand_from acc source ts = None" for acc
    by (induction ts arbitrary: acc)
      (auto simp: svi_eval_None[symmetric] split: option.split)
  then show "eval_operand source ts = None" by (simp add: eval_operand_def)
qed

lemma eval_operand_cong:
  assumes "\<forall>t \<in> set ts. s1 (value_index t) = s2 (value_index t)"
  shows "eval_operand s1 ts = eval_operand s2 ts"
proof -
  have "eval_operand_from acc s1 ts = eval_operand_from acc s2 ts" for acc
    using assms by (induction ts arbitrary: acc) (auto simp: svi_eval_def split: option.split)
  then show ?thesis by (simp add: eval_operand_def)
qed

lemma operand_val_append: "operand_val f (xs @ ys) = operand_val f xs XOR operand_val f ys"
  by (induction xs) (simp_all add: xor.assoc)

section \<open>Word sources\<close>

text \<open>
  The contract of a source: it answers exactly the indices it holds.  An operand over a
  source is then evaluated without panic precisely when its terms name held indices.
\<close>

locale word_source =
  fixes word :: "'s \<Rightarrow> value_index \<Rightarrow> u64 option"
    and holds :: "'s \<Rightarrow> value_index \<Rightarrow> bool"
  assumes word_total: "holds s v \<Longrightarrow> word s v \<noteq> None"
begin

definition at :: "'s \<Rightarrow> value_index \<Rightarrow> u64" where
  "at s v = the (word s v)"

lemma eval_held:
  assumes "\<forall>t \<in> set ts. holds s (value_index t)"
  shows "eval_operand (word s) ts = Some (operand_val (at s) ts)"
  by (rule eval_operand_val) (use assms word_total in \<open>auto simp: at_def\<close>)

lemma eval_held_append:
  assumes "\<forall>t \<in> set xs. holds s (value_index t)" "\<forall>t \<in> set ys. holds s (value_index t)"
  shows "eval_operand (word s) (xs @ ys) =
    Some (the (eval_operand (word s) xs) XOR the (eval_operand (word s) ys))"
proof -
  have "eval_operand (word s) (xs @ ys) = Some (operand_val (at s) (xs @ ys))"
    by (rule eval_held) (use assms in auto)
  then show ?thesis by (simp add: eval_held assms operand_val_append)
qed

end

text \<open>A value vector holds the indices below the length of their segment.\<close>

definition vv_segment_len :: "value_vec \<Rightarrow> value_segment \<Rightarrow> nat" where
  "vv_segment_len v s =
    (case s of
       Constant \<Rightarrow> vv_n_const v
     | InOut \<Rightarrow> vv_n_public_values v - vv_n_const v
     | Private \<Rightarrow> vv_n_private v
     | Scratch \<Rightarrow> length (aw_deref (vv_data v)) - vv_size v)"

definition vv_holds :: "value_vec \<Rightarrow> value_index \<Rightarrow> bool" where
  "vv_holds v i \<longleftrightarrow> vv_wf v \<and> vv_n_const v \<le> vv_n_public_values v \<and>
    unat (vi_index i) < vv_segment_len v (vi_segment i)"

lemma vv_holds_offset: "vv_holds v i \<Longrightarrow> vv_word_offset v i < length (aw_deref (vv_data v))"
  by (cases "vi_segment i")
    (auto simp: vv_holds_def vv_word_offset_def vv_segment_len_def vv_wf_def vv_size_def)

interpretation vv: word_source vv_get vv_holds
  by unfold_locales (auto simp: vv_get_def read_at_def dest: vv_holds_offset)

lemma vv_word_offset_inj:
  assumes "vv_holds v i" "vv_holds v j" "vv_word_offset v i = vv_word_offset v j"
  shows "i = j"
proof (rule value_index_eqI)
  show "vi_segment i = vi_segment j"
    using assms
    by (cases "vi_segment i"; cases "vi_segment j")
      (auto simp: vv_holds_def vv_word_offset_def vv_segment_len_def vv_wf_def vv_size_def)
  then show "vi_index i = vi_index j"
    using assms(3) by (simp add: vv_word_offset_def word_unat_eq_iff)
qed

section \<open>Properties of value vectors and operands\<close>

text \<open>C37: In a vector with well-formed segments, writing the word an index names changes what
  that index reads and nothing that any other index in range reads: segments never overlap.\<close>

theorem vv_set_get:
  assumes "vv_holds v i"
  shows "\<exists>v'. vv_set v i w = Some v' \<and>
    (\<forall>j. vv_holds v j \<longrightarrow> vv_get v' j = (if j = i then Some w else vv_get v j))"
proof -
  obtain v' where v': "vv_set v i w = Some v'"
    "aw_deref (vv_data v') = (aw_deref (vv_data v))[vv_word_offset v i := w]"
    "vv_n_const v' = vv_n_const v" "vv_n_public_values v' = vv_n_public_values v"
    "vv_n_private v' = vv_n_private v"
    using vv_set_Some[OF _ vv_holds_offset[OF assms], of w] assms by (auto simp: vv_holds_def)
  have "vv_get v' j = (if j = i then Some w else vv_get v j)" if "vv_holds v j" for j
  proof -
    have "vv_word_offset v' j = vv_word_offset v j"
      using v'(3-5) by (simp add: vv_word_offset_def vv_size_def split: value_segment.split)
    moreover have "vv_word_offset v j = vv_word_offset v i \<longleftrightarrow> j = i"
      using vv_word_offset_inj[OF that assms] by blast
    ultimately show ?thesis
      using vv_holds_offset[OF that] v'(2)
      by (auto simp: vv_get_def read_at_def)
  qed
  with v'(1) show ?thesis by blast
qed

theorem vv_set_get_witness:
  "let v = \<lparr>vv_n_const = 1, vv_n_public_values = 2, vv_n_private = 1,
        vv_data = \<lparr>blocks = [(10, 20), (30, 0)], aw_len = 3\<rparr>\<rparr>;
      i = ValueIndex 0x40000000
   in \<exists>v'. vv_set v i 7 = Some v' \<and>
    (\<forall>j. vv_holds v j \<longrightarrow> vv_get v' j = (if j = i then Some 7 else vv_get v j))"
  unfolding Let_def
  by (rule vv_set_get)
    (simp add: unat_and_mask vv_holds_def vv_wf_def vv_size_def vv_segment_len_def aw_ok_def aw_deref_def
      vi_segment_def vi_index_def segment_from_tag_def)

text \<open>C38: A vector built from its public and private words has exactly those words as segments:
  the accessors return them, and each index of each segment reads its own word.\<close>

theorem vv_new_from_data_segments:
  assumes "n \<le> length pub"
  shows "\<exists>v. vv_new_from_data n pub priv = Some v \<and>
    vv_public v = Some pub \<and> vv_inout v = Some (drop n pub) \<and> vv_non_public v = Some priv \<and>
    vv_combined_witness v = Some (pub @ priv) \<and>
    (\<forall>i. vv_holds v i \<longrightarrow> vv_get v i =
      (case vi_segment i of
         Constant \<Rightarrow> Some (pub ! unat (vi_index i))
       | InOut \<Rightarrow> Some (pub ! (n + unat (vi_index i)))
       | Private \<Rightarrow> Some (priv ! unat (vi_index i))
       | Scratch \<Rightarrow> None))"
proof -
  obtain v where v: "vv_new_from_data n pub priv = Some v" "vv_wf v" "vv_n_const v = n"
    "vv_n_public_values v = length pub" "vv_n_private v = length priv"
    "aw_deref (vv_data v) = pub @ priv"
    using vv_new_from_data_Some by blast
  have "vv_get v i = (case vi_segment i of
         Constant \<Rightarrow> Some (pub ! unat (vi_index i))
       | InOut \<Rightarrow> Some (pub ! (n + unat (vi_index i)))
       | Private \<Rightarrow> Some (priv ! unat (vi_index i))
       | Scratch \<Rightarrow> None)" if "vv_holds v i" for i
    using that v assms
    by (cases "vi_segment i")
      (auto simp: vv_holds_def vv_segment_len_def vv_get_def vv_word_offset_def vv_size_def
        read_at_def nth_append)
  with v assms show ?thesis
    by (auto simp: vv_public_def vv_inout_def vv_non_public_def vv_combined_witness_def slice_def
        vv_size_def)
qed

theorem vv_new_from_data_segments_witness:
  "\<exists>v. vv_new_from_data 1 [10, 20] [30] = Some v \<and>
    vv_public v = Some [10, 20] \<and> vv_inout v = Some (drop 1 [10, 20]) \<and>
    vv_non_public v = Some [30] \<and> vv_combined_witness v = Some ([10, 20] @ [30]) \<and>
    (\<forall>i. vv_holds v i \<longrightarrow> vv_get v i =
      (case vi_segment i of
         Constant \<Rightarrow> Some ([10, 20] ! unat (vi_index i))
       | InOut \<Rightarrow> Some ([10, 20] ! (1 + unat (vi_index i)))
       | Private \<Rightarrow> Some ([30] ! unat (vi_index i))
       | Scratch \<Rightarrow> None))"
  by (rule vv_new_from_data_segments) simp

end
