(* ===== verification/Value_Table.thy ===== *)
theory Value_Table
  imports Operand
begin

text \<open>
  The batch witness (\<open>value_table.rs\<close>): the hidden words of \<open>2 ^ log_instances\<close> instances in
  wire-major order, one row per wire and one column per instance.  An instance is read either
  by gathering its column into a value vector or through a strided view; the two agree.
\<close>

text \<open>A left shift on \<open>usize\<close>: the bits shifted past the top are lost.  An amount past the width panics, as
  it does in builds that check overflow; the tables of the lemmas below keep it under the width.\<close>

definition usize_shl :: "nat \<Rightarrow> nat \<Rightarrow> nat option" where
  "usize_shl n k = (if k < 64 then Some (n * 2 ^ k mod 2 ^ 64) else None)"

record value_table =
  tab_layout :: value_vec_layout
  tab_log_instances :: nat
  tab_n_hidden_words :: nat
  tab_data :: "u64 list"

definition from_hidden_words :: "value_vec_layout \<Rightarrow> nat \<Rightarrow> u64 list \<Rightarrow> value_table option" where
  "from_hidden_words layout log_instances data =
    (let n_hidden_words = lay_combined_len layout - lay_offset_inout layout
     in if usize_shl n_hidden_words log_instances = Some (length data)
        then Some \<lparr>tab_layout = layout, tab_log_instances = log_instances,
          tab_n_hidden_words = n_hidden_words, tab_data = data\<rparr>
        else None)"

definition tab_n_instances :: "value_table \<Rightarrow> nat option" where
  "tab_n_instances t = usize_shl 1 (tab_log_instances t)"

definition tab_read :: "value_table \<Rightarrow> nat \<Rightarrow> nat \<Rightarrow> u64 option" where
  "tab_read t row instance_ix =
    Option.bind (usize_shl row (tab_log_instances t)) (\<lambda>start. read_at (tab_data t) (start + instance_ix))"

text \<open>The two asserts both readers of an instance open with.\<close>

definition tab_instance_ok :: "value_table \<Rightarrow> nat \<Rightarrow> u64 list \<Rightarrow> bool" where
  "tab_instance_ok t instance_ix constants \<longleftrightarrow>
    (case tab_n_instances t of
       None \<Rightarrow> False
     | Some n \<Rightarrow> instance_ix < n \<and> length constants = lay_n_const (tab_layout t))"

definition put_constant :: "value_vec \<Rightarrow> nat \<Rightarrow> u64 \<Rightarrow> value_vec option" where
  "put_constant v i w = Option.bind (vi_constant (word_of_nat i)) (\<lambda>index. vv_set v index w)"

fun gather_rows :: "value_table \<Rightarrow> nat \<Rightarrow> value_vec \<Rightarrow> nat list \<Rightarrow> value_vec option" where
  "gather_rows t instance_ix v [] = Some v"
| "gather_rows t instance_ix v (row # rows) =
    (case tab_read t row instance_ix of
       None \<Rightarrow> None
     | Some w \<Rightarrow>
         (case vv_word_mut v (word_of_nat (lay_offset_inout (tab_layout t) + row)) w of
            None \<Rightarrow> None
          | Some v' \<Rightarrow> gather_rows t instance_ix v' rows))"

definition instance_value_vec :: "value_table \<Rightarrow> nat \<Rightarrow> u64 list \<Rightarrow> value_vec option" where
  "instance_value_vec t instance_ix constants =
    (if tab_instance_ok t instance_ix constants
     then case copy_words put_constant (vv_new (tab_layout t)) 0 constants of
            None \<Rightarrow> None
          | Some v \<Rightarrow> gather_rows t instance_ix v [0..<tab_n_hidden_words t]
     else None)"

record table_instance =
  ti_table :: value_table
  ti_instance :: nat
  ti_constants :: "u64 list"

definition instance_words :: "value_table \<Rightarrow> nat \<Rightarrow> u64 list \<Rightarrow> table_instance option" where
  "instance_words t instance_ix constants =
    (if tab_instance_ok t instance_ix constants
     then Some \<lparr>ti_table = t, ti_instance = instance_ix, ti_constants = constants\<rparr>
     else None)"

definition ti_word :: "table_instance \<Rightarrow> value_index \<Rightarrow> u64 option" where
  "ti_word ti index =
    (if vi_segment index = Constant
     then read_at (ti_constants ti) (unat (vi_index index))
     else tab_read (ti_table ti)
       (lay_word_offset (tab_layout (ti_table ti)) index - lay_offset_inout (tab_layout (ti_table ti)))
       (ti_instance ti))"

section \<open>Tables whose size a machine can address\<close>

definition tab_wf :: "value_table \<Rightarrow> bool" where
  "tab_wf t \<longleftrightarrow> tab_log_instances t < 64 \<and>
    tab_n_hidden_words t = lay_n_inout (tab_layout t) + lay_n_private (tab_layout t) \<and>
    length (tab_data t) = tab_n_hidden_words t * 2 ^ tab_log_instances t \<and>
    length (tab_data t) < 2 ^ 64"

definition tab_column :: "value_table \<Rightarrow> nat \<Rightarrow> u64 list" where
  "tab_column t i = map (\<lambda>row. tab_data t ! (row * 2 ^ tab_log_instances t + i)) [0..<tab_n_hidden_words t]"

lemma length_tab_column [simp]: "length (tab_column t i) = tab_n_hidden_words t"
  by (simp add: tab_column_def)

lemma from_hidden_words_wf:
  assumes "from_hidden_words l k data = Some t"
    and "(lay_n_inout l + lay_n_private l) * 2 ^ k < 2 ^ 64"
  shows "tab_wf t \<and> tab_layout t = l \<and> tab_log_instances t = k \<and> tab_data t = data"
  using assms
  by (auto simp: from_hidden_words_def tab_wf_def Let_def usize_shl_def lay_combined_len_def
      lay_offset_inout_def lay_offset_witness_def split: if_splits)

lemma tab_n_instances_wf: "tab_wf t \<Longrightarrow> tab_n_instances t = Some (2 ^ tab_log_instances t)"
proof -
  assume "tab_wf t"
  then have "(2 :: nat) ^ tab_log_instances t < 2 ^ 64"
    unfolding tab_wf_def by (intro power_strict_increasing) auto
  with \<open>tab_wf t\<close> show ?thesis by (simp add: tab_n_instances_def usize_shl_def tab_wf_def)
qed

lemma row_bound:
  assumes "row < n" "i < (m :: nat)"
  shows "row * m + i < n * m"
proof -
  have "row * m + i < Suc row * m" using assms(2) by simp
  also have "\<dots> \<le> n * m" using assms(1) by (intro mult_le_mono1) simp
  finally show ?thesis .
qed

lemma tab_read_wf:
  assumes "tab_wf t" "row < tab_n_hidden_words t" "i < 2 ^ tab_log_instances t"
  shows "tab_read t row i = Some (tab_column t i ! row)"
proof -
  have *: "row * 2 ^ tab_log_instances t + i < length (tab_data t)"
    using row_bound[OF assms(2,3)] assms(1) by (simp add: tab_wf_def)
  then have "row * 2 ^ tab_log_instances t < 2 ^ 64"
    using assms(1) unfolding tab_wf_def by linarith
  then have "usize_shl row (tab_log_instances t) = Some (row * 2 ^ tab_log_instances t)"
    using assms(1) by (simp add: usize_shl_def tab_wf_def)
  with * assms(2) show ?thesis by (simp add: tab_read_def read_at_def tab_column_def)
qed

section \<open>Gathering an instance\<close>

abbreviation vv_words :: "value_vec \<Rightarrow> u64 list" where
  "vv_words v \<equiv> aw_deref (vv_data v)"

abbreviation same_shape :: "value_vec \<Rightarrow> value_vec \<Rightarrow> bool" where
  "same_shape v v0 \<equiv> vv_wf v \<and> length (vv_words v) = length (vv_words v0) \<and>
    vv_n_const v = vv_n_const v0 \<and> vv_n_public_values v = vv_n_public_values v0 \<and>
    vv_n_private v = vv_n_private v0"

lemma vv_data_set:
  assumes "vv_wf v" "p < length (vv_words v)"
  shows "\<exists>v'. map_option (\<lambda>d. v\<lparr>vv_data := d\<rparr>) (aw_set (vv_data v) p w) = Some v' \<and>
    same_shape v' v \<and> vv_words v' = (vv_words v)[p := w]"
  using aw.put_in_range[of "vv_data v" p w] assms by (auto simp: vv_wf_def vv_size_def)

lemma vi_constant_nat:
  assumes "i < 2 ^ 30"
  shows "\<exists>v. vi_constant (word_of_nat i) = Some v \<and> vi_segment v = Constant \<and> unat (vi_index v) = i"
proof -
  have i: "unat (word_of_nat i :: u32) = i" using assms by (simp add: unat_of_nat)
  then have "vi_new Constant (word_of_nat i) \<noteq> None"
    using assms by (simp add: vi_new_def less_capacity_iff)
  then show ?thesis using i by (auto simp: vi_constant_def vi_new_Some)
qed

lemma put_constant_step:
  assumes "vv_wf v" "i < length (vv_words v)" "i < 2 ^ 30"
  shows "\<exists>v'. put_constant v i w = Some v' \<and> same_shape v' v \<and> vv_words v' = (vv_words v)[i := w]"
  using vi_constant_nat[OF assms(3)] vv_data_set[OF assms(1,2), of w]
  by (auto simp: put_constant_def vv_set_def vv_word_offset_def)

lemma word_mut_step:
  assumes "vv_wf v" "p < length (vv_words v)" "p < 2 ^ 32"
  shows "\<exists>v'. vv_word_mut v (word_of_nat p) w = Some v' \<and> same_shape v' v \<and>
    vv_words v' = (vv_words v)[p := w]"
  using vv_data_set[OF assms(1,2), of w] assms(3) by (simp add: vv_word_mut_def unat_of_nat)

lemma gather_rows_copy:
  assumes "\<forall>row \<in> {a..<b}. tab_read t row i = Some (f row)"
  shows "gather_rows t i v [a..<b] =
    copy_words (\<lambda>v row w. vv_word_mut v (word_of_nat (lay_offset_inout (tab_layout t) + row)) w) v a
      (map f [a..<b])"
  using assms
proof (induction "b - a" arbitrary: v a)
  case 0
  then show ?case by simp
next
  case (Suc n)
  then have "[a..<b] = a # [Suc a..<b]" by (simp add: upt_conv_Cons)
  with Suc show ?case by (auto split: option.split)
qed

lemma read_at_append_column:
  "r < length ys \<Longrightarrow> read_at (xs @ ys @ zs) (length xs + r) = Some (ys ! r)"
  by (simp add: read_at_def nth_append)

lemma instance_value_vec_words:
  assumes "tab_wf t" "i < 2 ^ tab_log_instances t" "length cs = lay_n_const (tab_layout t)"
    and "length cs \<le> 2 ^ 30" "length cs + tab_n_hidden_words t \<le> 2 ^ 32"
  shows "\<exists>v. instance_value_vec t i cs = Some v \<and> same_shape v (vv_new (tab_layout t)) \<and>
    vv_words v = cs @ tab_column t i @ replicate (lay_n_scratch (tab_layout t)) 0"
proof -
  let ?l = "tab_layout t" and ?n = "tab_n_hidden_words t"
  let ?v0 = "vv_new ?l"
  have shape: "lay_combined_len ?l = length cs + ?n" "lay_offset_inout ?l = length cs"
    using assms(1,3)
    by (simp_all add: tab_wf_def lay_combined_len_def lay_offset_witness_def lay_offset_inout_def)
  have v0: "vv_wf ?v0" "vv_words ?v0 = replicate (length cs + ?n + lay_n_scratch ?l) 0"
    by (simp_all add: vv_new_wf) (simp add: vv_new_def aw.view_zeroed shape)
  have "\<exists>v1. copy_words put_constant ?v0 0 cs = Some v1 \<and> same_shape v1 ?v0 \<and>
      vv_words v1 = take (0 + 0) (vv_words ?v0) @ cs @ drop (0 + 0 + length cs) (vv_words ?v0)"
  proof (rule copy_words_run[where n = "length cs" and I = "\<lambda>v. same_shape v ?v0"])
    show "\<exists>v'. put_constant v j w = Some v' \<and> same_shape v' ?v0 \<and> vv_words v' = (vv_words v)[0 + j := w]"
      if "same_shape v ?v0" "j < length cs" for v j w
      using put_constant_step[of v j w] that v0(2) assms(4) by auto
  qed (use v0 in auto)
  then obtain v1 where v1: "copy_words put_constant ?v0 0 cs = Some v1" "same_shape v1 ?v0"
    "vv_words v1 = cs @ replicate (?n + lay_n_scratch ?l) 0"
    using v0(2) by auto
  let ?put = "\<lambda>v row w. vv_word_mut v (word_of_nat (lay_offset_inout ?l + row)) w"
  have "\<exists>v2. copy_words ?put v1 0 (tab_column t i) = Some v2 \<and> same_shape v2 ?v0 \<and>
      vv_words v2 = take (length cs + 0) (vv_words v1) @ tab_column t i @
        drop (length cs + 0 + length (tab_column t i)) (vv_words v1)"
  proof (rule copy_words_run[where n = "?n" and I = "\<lambda>v. same_shape v ?v0"])
    show "\<exists>v'. ?put v j w = Some v' \<and> same_shape v' ?v0 \<and> vv_words v' = (vv_words v)[length cs + j := w]"
      if "same_shape v ?v0" "j < ?n" for v j w
      using word_mut_step[of v "length cs + j" w] that v0(2) assms(5) shape(2) by auto
  qed (use v1 v0 in auto)
  moreover have "gather_rows t i v1 [0..<?n] = copy_words ?put v1 0 (tab_column t i)"
    using gather_rows_copy[of 0 ?n t i "\<lambda>row. tab_column t i ! row" v1] tab_read_wf[OF assms(1) _ assms(2)]
    by (simp add: map_nth[of "tab_column t i", simplified])
  ultimately show ?thesis
    using v1 tab_n_instances_wf[OF assms(1)] assms(2,3)
    by (auto simp: instance_value_vec_def tab_instance_ok_def)
qed

section \<open>The strided view\<close>

definition ti_holds :: "table_instance \<Rightarrow> value_index \<Rightarrow> bool" where
  "ti_holds ti index \<longleftrightarrow> tab_wf (ti_table ti) \<and>
    ti_instance ti < 2 ^ tab_log_instances (ti_table ti) \<and>
    unat (vi_index index) <
      (case vi_segment index of
         Constant \<Rightarrow> length (ti_constants ti)
       | InOut \<Rightarrow> lay_n_inout (tab_layout (ti_table ti))
       | Private \<Rightarrow> lay_n_private (tab_layout (ti_table ti))
       | Scratch \<Rightarrow> 0)"

lemma ti_word_held:
  assumes "ti_holds ti index"
  shows "ti_word ti index = Some
    (case vi_segment index of
       Constant \<Rightarrow> ti_constants ti ! unat (vi_index index)
     | InOut \<Rightarrow> tab_column (ti_table ti) (ti_instance ti) ! unat (vi_index index)
     | Private \<Rightarrow> tab_column (ti_table ti) (ti_instance ti) !
         (lay_n_inout (tab_layout (ti_table ti)) + unat (vi_index index))
     | Scratch \<Rightarrow> 0)"
  using assms
  by (cases "vi_segment index")
    (auto simp: ti_holds_def ti_word_def read_at_def lay_word_offset_def lay_offset_inout_def
      lay_offset_witness_def tab_wf_def intro!: tab_read_wf)

interpretation ti: word_source ti_word ti_holds
  by unfold_locales (simp add: ti_word_held)

section \<open>Properties of value tables\<close>

text \<open>C30: The two ways to read an instance agree: the strided view answers every index a
  constraint may name with the word the gathered value vector holds there, and the gathered
  vector is the constants, the instance's column and a zeroed scratch tail.\<close>

theorem table_views_agree:
  assumes "from_hidden_words l k data = Some t"
    and "(lay_n_inout l + lay_n_private l) * 2 ^ k < 2 ^ 64"
    and "i < 2 ^ k" "length cs = lay_n_const l" "length cs \<le> 2 ^ 30" "lay_combined_len l \<le> 2 ^ 32"
  shows "\<exists>v ti. instance_value_vec t i cs = Some v \<and> instance_words t i cs = Some ti \<and>
    vv_words v = cs @ map (\<lambda>row. data ! (row * 2 ^ k + i)) [0..<lay_n_inout l + lay_n_private l] @
      replicate (lay_n_scratch l) 0 \<and>
    (\<forall>index. ti_holds ti index \<longrightarrow> ti_word ti index \<noteq> None \<and> ti_word ti index = vv_get v index) \<and>
    (\<forall>index. vv_holds v index \<and> is_referenceable (vi_segment index) \<longrightarrow> ti_holds ti index)"
proof -
  have t: "tab_wf t" "tab_layout t = l" "tab_log_instances t = k" "tab_data t = data"
    using from_hidden_words_wf[OF assms(1,2)] by auto
  have n: "tab_n_hidden_words t = lay_n_inout l + lay_n_private l" using t by (simp add: tab_wf_def)
  obtain v where v: "instance_value_vec t i cs = Some v" "same_shape v (vv_new l)"
    "vv_words v = cs @ tab_column t i @ replicate (lay_n_scratch l) 0"
    using instance_value_vec_words[OF t(1), of i cs] assms t n
    by (auto simp: lay_combined_len_def lay_offset_witness_def)
  let ?ti = "\<lparr>ti_table = t, ti_instance = i, ti_constants = cs\<rparr>"
  have ti: "instance_words t i cs = Some ?ti"
    using assms t tab_n_instances_wf[OF t(1)] by (simp add: instance_words_def tab_instance_ok_def)
  have seg: "vv_n_const v = length cs" "vv_n_public_values v = length cs + lay_n_inout l"
    "vv_n_private v = lay_n_private l"
    using v(2) assms(4) by (auto simp: vv_new_def lay_offset_witness_def)
  have "ti_word ?ti index = vv_get v index" if "ti_holds ?ti index" for index
    using ti_word_held[OF that] that t n seg v(3)
    by (cases "vi_segment index")
      (auto simp: ti_holds_def vv_get_def vv_word_offset_def read_at_def nth_append)
  moreover have "ti_holds ?ti index" if "vv_holds v index" "is_referenceable (vi_segment index)" for index
    using that t seg assms(3)
    by (cases "vi_segment index") (auto simp: ti_holds_def vv_holds_def vv_segment_len_def is_referenceable_def)
  ultimately have "\<forall>index. ti_holds ?ti index \<longrightarrow> ti_word ?ti index \<noteq> None \<and> ti_word ?ti index = vv_get v index"
    "\<forall>index. vv_holds v index \<and> is_referenceable (vi_segment index) \<longrightarrow> ti_holds ?ti index"
    using ti.word_total by blast+
  moreover have "tab_column t i = map (\<lambda>row. data ! (row * 2 ^ k + i)) [0..<lay_n_inout l + lay_n_private l]"
    by (simp add: tab_column_def t n)
  ultimately show ?thesis using v(1,3) ti by metis
qed

theorem table_views_agree_witness:
  "let l = \<lparr>lay_n_const = 1, lay_n_inout = 1, lay_n_witness = 1, lay_n_internal = 0, lay_n_scratch = 1\<rparr>;
       t = \<lparr>tab_layout = l, tab_log_instances = 1, tab_n_hidden_words = 2, tab_data = [1, 2, 3, 4]\<rparr>
   in from_hidden_words l 1 [1, 2, 3, 4] = Some t \<and>
    (\<exists>v ti. instance_value_vec t 1 [9] = Some v \<and> instance_words t 1 [9] = Some ti \<and>
      vv_words v = [9, 2, 4, 0])"
  unfolding Let_def
proof
  let ?l = "\<lparr>lay_n_const = 1, lay_n_inout = 1, lay_n_witness = 1, lay_n_internal = 0, lay_n_scratch = 1\<rparr>"
  let ?t = "\<lparr>tab_layout = ?l, tab_log_instances = 1, tab_n_hidden_words = 2, tab_data = [1, 2, 3, 4 :: u64]\<rparr>"
  show t: "from_hidden_words ?l 1 [1, 2, 3, 4] = Some ?t"
    by (simp add: from_hidden_words_def usize_shl_def lay_combined_len_def lay_offset_inout_def
        lay_offset_witness_def lay_n_private_def)
  show "\<exists>v ti. instance_value_vec ?t 1 [9] = Some v \<and> instance_words ?t 1 [9] = Some ti \<and>
      vv_words v = [9, 2, 4, 0]"
    using table_views_agree[OF t, of 1 "[9]"]
    by (simp add: lay_n_private_def lay_combined_len_def lay_offset_witness_def upt_rec) blast
qed

end
