(* ===== verification/GF2_Poly.thy ===== *)
theory GF2_Poly
  imports Binius_Prelude
begin

text \<open>
  Polynomials over the two-element field, as coefficient functions of finite support, with
  their ring structure.  Machine words denote polynomials: bit \<open>i\<close> is the coefficient of
  \<open>X ^ i\<close>.  This is the reference the binary-field arithmetic is checked against.
\<close>

typedef gf2_poly = "{f :: nat \<Rightarrow> bool. \<exists>d. \<forall>n \<ge> d. \<not> f n}"
  morphisms coeff Abs_gf2_poly
  by (rule exI[of _ "\<lambda>_. False"]) simp

setup_lifting type_definition_gf2_poly

lemma poly_eqI: "(\<And>n. coeff f n = coeff g n) \<Longrightarrow> f = g"
  by transfer auto

lemma coeff_bounded: "\<exists>d. \<forall>n \<ge> d. \<not> coeff f n"
  by transfer simp

text \<open>The coefficient of a product is the parity of the number of pairs that contribute.\<close>

definition conv :: "(nat \<Rightarrow> nat) \<Rightarrow> (nat \<Rightarrow> nat) \<Rightarrow> nat \<Rightarrow> nat" where
  "conv a b n = (\<Sum>i\<le>n. a i * b (n - i))"

lemma conv_comm: "conv a b n = conv b a n"
  unfolding conv_def
  by (rule sum.reindex_bij_witness[where i = "\<lambda>i. n - i" and j = "\<lambda>i. n - i"]) auto

lemma conv_add: "conv a (\<lambda>i. b i + c i) n = conv a b n + conv a c n"
  by (simp add: conv_def distrib_left sum.distrib)

lemma conv_assoc: "conv (conv a b) c n = conv a (conv b c) n"
proof -
  have "conv (conv a b) c n = (\<Sum>(i, j) \<in> Sigma {..n} (\<lambda>i. {..i}). a j * b (i - j) * c (n - i))"
    by (simp add: conv_def sum_distrib_right sum.Sigma)
  also have "\<dots> = (\<Sum>(i, j) \<in> Sigma {..n} (\<lambda>i. {..n - i}). a i * (b j * c (n - i - j)))"
    by (rule sum.reindex_bij_witness[where i = "\<lambda>(i, j). (i + j, i)" and j = "\<lambda>(i, j). (j, i - j)"]) auto
  also have "\<dots> = conv a (conv b c) n"
    by (simp add: conv_def sum_distrib_left sum.Sigma)
  finally show ?thesis .
qed

lemma odd_conv_cong:
  assumes "\<And>i. i \<le> n \<Longrightarrow> even (a i) = even (a' i)" "\<And>i. i \<le> n \<Longrightarrow> even (b i) = even (b' i)"
  shows "odd (conv a b n) = odd (conv a' b' n)"
proof -
  have *: "even (sum f {..k}) = even (sum g {..k})" if "\<And>i. i \<le> k \<Longrightarrow> even (f i) = even (g i)"
    for f g :: "nat \<Rightarrow> nat" and k
    using that by (induction k) auto
  show ?thesis
    unfolding conv_def by (subst *) (use assms in auto)
qed

lemma conv_bounded:
  assumes "\<forall>i \<ge> d. a i = 0" "\<forall>i \<ge> e. b i = 0" "d + e \<le> n"
  shows "conv a b n = 0"
  unfolding conv_def
proof (rule sum.neutral, rule ballI)
  fix i assume "i \<in> {..n}"
  then have "d \<le> i \<or> e \<le> n - i" using assms(3) by auto
  then show "a i * b (n - i) = 0" using assms(1,2) by auto
qed

section \<open>The ring\<close>

instantiation gf2_poly :: comm_ring_1
begin

lift_definition zero_gf2_poly :: gf2_poly is "\<lambda>_. False" by simp
lift_definition one_gf2_poly :: gf2_poly is "\<lambda>n. n = 0" by (rule exI[of _ 1]) simp
lift_definition plus_gf2_poly :: "gf2_poly \<Rightarrow> gf2_poly \<Rightarrow> gf2_poly" is "\<lambda>f g n. f n \<noteq> g n"
proof -
  fix f g :: "nat \<Rightarrow> bool"
  assume "\<exists>d. \<forall>n \<ge> d. \<not> f n" "\<exists>d. \<forall>n \<ge> d. \<not> g n"
  then obtain d e where "\<forall>n \<ge> d. \<not> f n" "\<forall>n \<ge> e. \<not> g n" by blast
  then show "\<exists>d. \<forall>n \<ge> d. \<not> (f n \<noteq> g n)" by (intro exI[of _ "max d e"]) auto
qed
definition uminus_gf2_poly :: "gf2_poly \<Rightarrow> gf2_poly" where "uminus_gf2_poly f = f"
definition minus_gf2_poly :: "gf2_poly \<Rightarrow> gf2_poly \<Rightarrow> gf2_poly" where "minus_gf2_poly f g = f + g"
lift_definition times_gf2_poly :: "gf2_poly \<Rightarrow> gf2_poly \<Rightarrow> gf2_poly"
  is "\<lambda>f g n. odd (conv (\<lambda>i. of_bool (f i)) (\<lambda>i. of_bool (g i)) n)"
proof -
  fix f g :: "nat \<Rightarrow> bool"
  assume "\<exists>d. \<forall>n \<ge> d. \<not> f n" "\<exists>d. \<forall>n \<ge> d. \<not> g n"
  then obtain d e where "\<forall>n \<ge> d. \<not> f n" "\<forall>n \<ge> e. \<not> g n" by blast
  then have "\<forall>n \<ge> d + e. conv (\<lambda>i. of_bool (f i)) (\<lambda>i. of_bool (g i)) n = 0"
    using conv_bounded[of d "\<lambda>i. of_bool (f i)" e "\<lambda>i. of_bool (g i)"] by simp
  then show "\<exists>d. \<forall>n \<ge> d. \<not> odd (conv (\<lambda>i. of_bool (f i)) (\<lambda>i. of_bool (g i)) n)"
    by (intro exI[of _ "d + e"]) simp
qed

instance
proof
  fix f g h :: gf2_poly
  show "f + g + h = f + (g + h)" by transfer auto
  show "f + g = g + f" by transfer auto
  show "0 + f = f" by transfer auto
  show "- f + f = 0" unfolding uminus_gf2_poly_def by transfer auto
  show "f - g = f + - g" by (simp add: uminus_gf2_poly_def minus_gf2_poly_def)
  show "f * g = g * f" by transfer (simp add: conv_comm)
  show "f * g * h = f * (g * h)"
  proof (transfer, rule ext)
    fix f g h :: "nat \<Rightarrow> bool" and n
    let ?c = "\<lambda>f i. of_bool (f i) :: nat"
    have "odd (conv (?c (\<lambda>n. odd (conv (?c f) (?c g) n))) (?c h) n) = odd (conv (conv (?c f) (?c g)) (?c h) n)"
      by (rule odd_conv_cong) auto
    moreover have "odd (conv (?c f) (?c (\<lambda>n. odd (conv (?c g) (?c h) n))) n) = odd (conv (?c f) (conv (?c g) (?c h)) n)"
      by (rule odd_conv_cong) auto
    ultimately show "odd (conv (?c (\<lambda>n. odd (conv (?c f) (?c g) n))) (?c h) n) =
      odd (conv (?c f) (?c (\<lambda>n. odd (conv (?c g) (?c h) n))) n)"
      by (simp only: conv_assoc)
  qed
  show "1 * f = f"
  proof (transfer, rule ext)
    fix f :: "nat \<Rightarrow> bool" and n
    have "conv (\<lambda>i. of_bool (i = 0)) (\<lambda>i. of_bool (f i)) n = (\<Sum>i\<le>n. if i = 0 then of_bool (f n) else 0)"
      unfolding conv_def by (rule sum.cong) auto
    then show "odd (conv (\<lambda>i. of_bool (i = 0)) (\<lambda>i. of_bool (f i)) n) = f n" by simp
  qed
  show "(f + g) * h = f * h + g * h"
  proof (transfer, rule ext)
    fix f g h :: "nat \<Rightarrow> bool" and n
    let ?c = "\<lambda>f i. of_bool (f i) :: nat"
    have "odd (conv (?c (\<lambda>n. f n \<noteq> g n)) (?c h) n) = odd (conv (\<lambda>i. ?c f i + ?c g i) (?c h) n)"
      by (rule odd_conv_cong) auto
    also have "conv (\<lambda>i. ?c f i + ?c g i) (?c h) n = conv (?c f) (?c h) n + conv (?c g) (?c h) n"
      by (simp add: conv_comm[of _ "?c h"] conv_add)
    finally show "odd (conv (?c (\<lambda>n. f n \<noteq> g n)) (?c h) n) =
      (odd (conv (?c f) (?c h) n) \<noteq> odd (conv (?c g) (?c h) n))" by auto
  qed
  show "(0 :: gf2_poly) \<noteq> 1" by transfer (metis (full_types))
qed

end

lemma coeff_0 [simp]: "coeff 0 n = False" by transfer simp
lemma coeff_1 [simp]: "coeff 1 n = (n = 0)" by transfer simp
lemma coeff_add [simp]: "coeff (f + g) n = (coeff f n \<noteq> coeff g n)" by transfer simp
lemma coeff_diff [simp]: "coeff (f - g) n = (coeff f n \<noteq> coeff g n)"
  by (simp add: minus_gf2_poly_def)
lemma coeff_mult: "coeff (f * g) n = odd (\<Sum>i\<le>n. of_bool (coeff f i \<and> coeff g (n - i)) :: nat)"
  by transfer (simp add: conv_def of_bool_conj)

lemma poly_two [simp]: "(2 :: gf2_poly) = 0"
proof -
  have "(1 :: gf2_poly) + 1 = 0" by transfer auto
  then show ?thesis by simp
qed

lemma poly_add_self: "f + f = (0 :: gf2_poly)"
  by (simp add: mult_2[symmetric] del: mult_2)

lemma poly_add_self_left [simp]: "f + (f + g) = (g :: gf2_poly)"
  by (simp add: add.assoc[symmetric] poly_add_self)

lemma poly_diff_eq_add: "f - g = f + (g :: gf2_poly)" by (simp add: minus_gf2_poly_def)

section \<open>Monomials and degrees\<close>

lift_definition X :: gf2_poly is "\<lambda>n. n = 1" by (rule exI[of _ 2]) simp

lemma coeff_X_mult: "coeff (X * f) n = (0 < n \<and> coeff f (n - 1))"
proof -
  have "(\<Sum>i\<le>n. of_bool (coeff X i \<and> coeff f (n - i)) :: nat) =
      (\<Sum>i\<le>n. if i = 1 then of_bool (coeff f (n - 1)) else 0)"
    by (rule sum.cong) (auto simp: X.rep_eq)
  then show ?thesis by (auto simp: coeff_mult)
qed

lemma coeff_Xk_mult: "coeff (X ^ k * f) n = (k \<le> n \<and> coeff f (n - k))"
proof (induction k arbitrary: n)
  case 0
  then show ?case by simp
next
  case (Suc k)
  have "coeff (X ^ Suc k * f) n = (0 < n \<and> coeff (X ^ k * f) (n - 1))"
    by (simp only: power_Suc mult.assoc coeff_X_mult)
  then show ?case using Suc[of "n - 1"] by (cases n) auto
qed

lemma coeff_Xk: "coeff (X ^ k) n = (n = k)"
  using coeff_Xk_mult[of k 1 n] by auto

definition degree_below :: "nat \<Rightarrow> gf2_poly \<Rightarrow> bool" where
  "degree_below d f \<longleftrightarrow> (\<forall>n \<ge> d. \<not> coeff f n)"

text \<open>A multiple of a polynomial with leading term \<open>X ^ d\<close> and no other term of that degree or
  above is zero when its degree stays below \<open>d\<close>: remainders are unique.\<close>

lemma multiple_below_zero:
  assumes "p = X ^ d + r" "degree_below d r" "p dvd f" "degree_below d f"
  shows "f = 0"
proof (rule ccontr)
  assume "f \<noteq> 0"
  obtain q where q: "f = p * q" using assms(3) by (elim dvdE)
  then have "q \<noteq> 0" using \<open>f \<noteq> 0\<close> by auto
  then have "\<exists>m. coeff q m" using poly_eqI[of q 0] by auto
  moreover obtain e where e: "\<forall>n \<ge> e. \<not> coeff q n" using coeff_bounded by blast
  ultimately obtain m where m: "coeff q m" "\<forall>n > m. \<not> coeff q n"
    using ex_has_greatest_nat[of "coeff q" _ id e] by (metis id_apply leI not_le)
  have "(\<Sum>i\<le>d + m. of_bool (coeff r i \<and> coeff q (d + m - i)) :: nat) = 0"
  proof (rule sum.neutral, rule ballI)
    fix i assume "i \<in> {..d + m}"
    then show "of_bool (coeff r i \<and> coeff q (d + m - i)) = (0 :: nat)"
      using m(2) assms(2) by (cases "d \<le> i") (auto simp: degree_below_def)
  qed
  then have "\<not> coeff (r * q) (d + m)" by (simp add: coeff_mult)
  moreover have "coeff (X ^ d * q) (d + m)" using m(1) by (simp add: coeff_Xk_mult)
  ultimately have "coeff f (d + m)" by (simp add: q assms(1) distrib_right)
  then show False using assms(4) by (simp add: degree_below_def)
qed

text \<open>Squaring spreads the coefficients over the even degrees.\<close>

lemma coeff_square_aux: "degree_below d f \<Longrightarrow> coeff (f * f) n = (even n \<and> coeff f (n div 2))"
proof (induction d arbitrary: f)
  case 0
  then have "f = 0" by (intro poly_eqI) (simp add: degree_below_def)
  then show ?case by simp
next
  case (Suc d)
  define t where "t = (if coeff f d then X ^ d else 0)"
  define g where "g = f + t"
  have "degree_below d g"
    unfolding degree_below_def
  proof (intro allI impI)
    fix n assume "d \<le> n"
    then show "\<not> coeff g n"
      using Suc.prems by (cases "n = d") (auto simp: degree_below_def g_def t_def coeff_Xk)
  qed
  note g = Suc.IH[OF this]
  have f: "f = g + t" by (simp add: g_def add.assoc poly_add_self)
  have "f * f = g * g + t * t"
    unfolding f by (simp add: algebra_simps)
  moreover have "coeff (t * t) n = (even n \<and> coeff t (n div 2))"
    by (auto simp: t_def coeff_Xk power_add[symmetric])
  ultimately show ?case using g by (auto simp: f)
qed

lemma coeff_square: "coeff (f * f) n = (even n \<and> coeff f (n div 2))"
  using coeff_square_aux coeff_bounded[of f] unfolding degree_below_def by blast

section \<open>Words as polynomials\<close>

definition poly_of :: "'a::len word \<Rightarrow> gf2_poly" where
  "poly_of w = Abs_gf2_poly (bit w)"

lemma coeff_poly_of [simp]: "coeff (poly_of w) = bit w"
  unfolding poly_of_def
  by (rule Abs_gf2_poly_inverse)
    (auto intro!: exI[of _ "LENGTH('a)"] simp: impossible_bit)

lemma poly_of_xor: "poly_of (v XOR w) = poly_of v + poly_of w"
  by (rule poly_eqI) (simp add: bit_xor_iff)

lemma poly_of_0 [simp]: "poly_of 0 = 0"
  by (rule poly_eqI) simp

lemma poly_of_1 [simp]: "poly_of (1 :: 'a::len word) = 1"
  by (rule poly_eqI) (simp add: bit_1_iff)

lemma poly_of_inject [simp]: "poly_of v = poly_of w \<longleftrightarrow> v = w"
  by (metis bit_eqI coeff_poly_of)

lemma degree_below_poly_of: "degree_below LENGTH('a) (poly_of (w :: 'a::len word))"
  by (auto simp: degree_below_def impossible_bit)

lemma poly_of_ucast: "LENGTH('a) \<le> LENGTH('b) \<Longrightarrow> poly_of (ucast (w :: 'a::len word) :: 'b::len word) = poly_of w"
  by (rule poly_eqI) (auto simp: bit_ucast_iff impossible_bit dest: bit_imp_le_length)

end
