(* ===== verification/Carryless.thy ===== *)
theory Carryless
  imports GF2_Poly Carry
begin

text \<open>
  Carryless multiplication in software (\<open>univariate_mul_utils_128.rs\<close>): products of 64-bit
  polynomials from integer multiplications whose operands have holes for the carries, the high
  half by bit reversal, and the interleaving of bits with zeroes.
\<close>

unbundle bit_operations_syntax

section \<open>Lanes\<close>

definition reverse_bits_64 :: "u64 \<Rightarrow> u64" where "reverse_bits_64 w = word_reverse w"
definition imul_64 :: "u64 \<Rightarrow> u64 \<Rightarrow> u64" where "imul_64 a b = a * b"
definition shr_64 :: "u64 \<Rightarrow> nat \<Rightarrow> u64" where "shr_64 w n = drop_bit n w"
definition shl_64 :: "u64 \<Rightarrow> nat \<Rightarrow> u64" where "shl_64 w n = push_bit n w"

definition split_hi_lo_64 :: "u128 \<Rightarrow> u64 \<times> u64" where
  "split_hi_lo_64 w = (ucast (drop_bit 64 w), ucast w)"

definition join_u64s :: "u64 \<Rightarrow> u64 \<Rightarrow> u128" where
  "join_u64s high low = push_bit 64 (ucast high) OR ucast low"

definition bmul64 :: "u64 \<Rightarrow> u64 \<Rightarrow> u64" where
  "bmul64 x y =
    (let x0 = x AND 0x1111111111111111;
         x1 = x AND 0x2222222222222222;
         x2 = x AND 0x4444444444444444;
         x3 = x AND 0x8888888888888888;
         y0 = y AND 0x1111111111111111;
         y1 = y AND 0x2222222222222222;
         y2 = y AND 0x4444444444444444;
         y3 = y AND 0x8888888888888888;
         z0 = imul_64 x0 y0 XOR imul_64 x1 y3 XOR imul_64 x2 y2 XOR imul_64 x3 y1;
         z1 = imul_64 x0 y1 XOR imul_64 x1 y0 XOR imul_64 x2 y3 XOR imul_64 x3 y2;
         z2 = imul_64 x0 y2 XOR imul_64 x1 y1 XOR imul_64 x2 y0 XOR imul_64 x3 y3;
         z3 = imul_64 x0 y3 XOR imul_64 x1 y2 XOR imul_64 x2 y1 XOR imul_64 x3 y0
     in (z0 AND 0x1111111111111111) OR (z1 AND 0x2222222222222222) OR
        (z2 AND 0x4444444444444444) OR (z3 AND 0x8888888888888888))"

definition spread_bits_64 :: "u64 \<Rightarrow> u128" where
  "spread_bits_64 val =
    (let x = ucast val :: u128;
         x = (x OR push_bit 32 x) AND 0x00000000FFFFFFFF00000000FFFFFFFF;
         x = (x OR push_bit 16 x) AND 0x0000FFFF0000FFFF0000FFFF0000FFFF;
         x = (x OR push_bit 8 x) AND 0x00FF00FF00FF00FF00FF00FF00FF00FF;
         x = (x OR push_bit 4 x) AND 0x0F0F0F0F0F0F0F0F0F0F0F0F0F0F0F0F;
         x = (x OR push_bit 2 x) AND 0x33333333333333333333333333333333;
         x = (x OR push_bit 1 x) AND 0x55555555555555555555555555555555
     in x)"

definition spread_bits_128 :: "u128 \<Rightarrow> u128 \<times> u128" where
  "spread_bits_128 w =
    (case split_hi_lo_64 w of (hi, lo) \<Rightarrow> (spread_bits_64 hi, spread_bits_64 lo))"

section \<open>Integer multiplication with holes\<close>

lemma unat_bits: "unat (w :: u64) = (\<Sum>i\<le>63. of_bool (bit w i) * 2 ^ i)"
proof -
  have "unat w = take_bit 64 (unat w)"
    by (rule take_bit_nat_eq_self[symmetric]) (use unsigned_less[of w, where 'a = nat] in simp)
  also have "\<dots> = (\<Sum>i = 0..<64. push_bit i (of_bool (bit (unat w) i)))"
    by (rule take_bit_sum)
  also have "\<dots> = (\<Sum>i\<le>63. of_bool (bit w i) * 2 ^ i)"
    by (rule sum.cong) (auto simp: push_bit_eq_mult bit_unat)
  finally show ?thesis .
qed

abbreviation bits01 :: "u64 \<Rightarrow> nat \<Rightarrow> nat" where
  "bits01 w i \<equiv> of_bool (bit w i)"

lemma unat_product_conv: "unat (x :: u64) * unat y = (\<Sum>n\<le>126. conv (bits01 x) (bits01 y) n * 2 ^ n)"
proof -
  have "(\<Sum>i\<le>63. int (bits01 x i) * 2 ^ i) * (\<Sum>j\<le>63. int (bits01 y j) * 2 ^ j) =
      (\<Sum>n\<le>63 + 63. (\<Sum>k\<le>n. int (bits01 x k) * int (bits01 y (n - k))) * 2 ^ n)"
    by (rule polynomial_product) (auto simp: impossible_bit)
  then have "int (unat x * unat y) = int (\<Sum>n\<le>126. conv (bits01 x) (bits01 y) n * 2 ^ n)"
    by (simp add: unat_bits conv_def)
  then show ?thesis by (simp only: of_nat_eq_iff)
qed

text \<open>A lane keeps the bits whose position is \<open>a\<close> modulo 4.\<close>

definition lane :: "nat \<Rightarrow> u64 \<Rightarrow> bool" where
  "lane a w \<longleftrightarrow> (\<forall>i. bit w i \<longrightarrow> i mod 4 = a)"

lemma conv_lane_zero:
  assumes "lane a x" "lane b y" "n mod 4 \<noteq> (a + b) mod 4"
  shows "conv (bits01 x) (bits01 y) n = 0"
  unfolding conv_def
proof (rule sum.neutral, rule ballI)
  fix i assume "i \<in> {..n}"
  then have n: "n = i + (n - i)" by simp
  have "\<not> (bit x i \<and> bit y (n - i))"
  proof
    assume "bit x i \<and> bit y (n - i)"
    then have "i mod 4 = a" "(n - i) mod 4 = b" using assms(1,2) by (auto simp: lane_def)
    then have "(i + (n - i)) mod 4 = (a + b) mod 4" by (metis mod_add_eq)
    then show False using n assms(3) by simp
  qed
  then show "bits01 x i * bits01 y (n - i) = 0" by auto
qed

lemma conv_lane_le:
  assumes "lane a x" "n < 60"
  shows "conv (bits01 x) (bits01 y) n \<le> 15"
proof -
  have "conv (bits01 x) (bits01 y) n \<le> (\<Sum>i\<le>n. of_bool (i mod 4 = a))"
    unfolding conv_def by (rule sum_mono) (use assms(1) in \<open>auto simp: lane_def\<close>)
  also have "\<dots> = card {i. i \<le> n \<and> i mod 4 = a}"
    by (simp add: sum.If_cases of_bool_def Int_def Collect_conj_eq[symmetric])
  also have "\<dots> \<le> card ((\<lambda>p. 4 * p + a) ` {..<15 :: nat})"
  proof (rule card_mono)
    show "{i. i \<le> n \<and> i mod 4 = a} \<subseteq> (\<lambda>p. 4 * p + a) ` {..<15}"
    proof
      fix i assume "i \<in> {i. i \<le> n \<and> i mod 4 = a}"
      then have "i = 4 * (i div 4) + a" "i div 4 < 15" using assms(2) by auto
      then show "i \<in> (\<lambda>p. 4 * p + a) ` {..<15}" by blast
    qed
  qed simp
  also have "\<dots> \<le> 15" using card_image_le[of "{..<15 :: nat}" "\<lambda>p. 4 * p + a"] by simp
  finally show ?thesis .
qed

lemma holes_absorb:
  assumes "lane a x" "lane b y" "n < 64" "n mod 4 = (a + b) mod 4"
  shows "(\<Sum>m<n. conv (bits01 x) (bits01 y) m * 2 ^ m) < 2 ^ n"
  using assms(3,4)
proof (induction n rule: less_induct)
  case (less n)
  let ?c = "conv (bits01 x) (bits01 y)"
  show ?case
  proof (cases "n < 4")
    case True
    have "?c m = 0" if "m < n" for m
      by (rule conv_lane_zero[OF assms(1,2)]) (use that True less.prems(2) in auto)
    then have "(\<Sum>m<n. ?c m * 2 ^ m) = 0" by simp
    then show ?thesis by simp
  next
    case False
    then obtain k where n: "n = k + 4" by (metis le_add_diff_inverse2 not_less)
    have k: "k mod 4 = (a + b) mod 4" using less.prems(2) n by simp
    have z: "?c (k + 1) = 0" "?c (k + 2) = 0" "?c (k + 3) = 0"
      by (rule conv_lane_zero[OF assms(1,2)]; use k in presburger)+
    have "(\<Sum>m<n. ?c m * 2 ^ m) = (\<Sum>m<k. ?c m * 2 ^ m) + ?c k * 2 ^ k"
      using z by (simp add: n numeral_eq_Suc)
    also have "\<dots> < 2 ^ k + 15 * 2 ^ k"
      using less.IH[of k] less.prems(1) k n conv_lane_le[OF assms(1), of k y]
      by (intro add_less_le_mono mult_right_mono) auto
    also have "\<dots> = 2 ^ n" by (simp add: n power_add)
    finally show ?thesis .
  qed
qed

lemma bit_imul_lane:
  assumes "lane a x" "lane b y" "n < 64" "n mod 4 = (a + b) mod 4"
  shows "bit (x * y) n = coeff (poly_of x * poly_of y) n"
proof -
  let ?c = "conv (bits01 x) (bits01 y)"
  let ?t = "\<lambda>m. ?c m * 2 ^ m"
  have "(\<Sum>m\<le>126. ?t m) = (\<Sum>m<n. ?t m) + (\<Sum>m = n..126. ?t m)"
  proof -
    have "{..126} = {..<n} \<union> {n..126}" using assms(3) by auto
    then show ?thesis by (simp add: sum.union_disjoint[symmetric] ivl_disj_int)
  qed
  also have "(\<Sum>m = n..126. ?t m) = ?t n + (\<Sum>m = Suc n..126. ?t m)"
    by (rule sum.atLeast_Suc_atMost) (use assms(3) in simp)
  also have "(\<Sum>m = Suc n..126. ?t m) = 2 ^ Suc n * (\<Sum>m = Suc n..126. ?c m * 2 ^ (m - Suc n))"
    unfolding sum_distrib_left
  proof (rule sum.cong)
    fix m assume "m \<in> {Suc n..126}"
    then have "(2 :: nat) ^ m = 2 ^ Suc n * 2 ^ (m - Suc n)" by (simp only: power_add[symmetric]) simp
    then show "?t m = 2 ^ Suc n * (?c m * 2 ^ (m - Suc n))" by simp
  qed simp
  finally have "unat x * unat y = (\<Sum>m<n. ?t m) +
      2 ^ n * (?c n + 2 * (\<Sum>m = Suc n..126. ?c m * 2 ^ (m - Suc n)))"
    by (simp add: unat_product_conv algebra_simps)
  then have "unat x * unat y div 2 ^ n = ?c n + 2 * (\<Sum>m = Suc n..126. ?c m * 2 ^ (m - Suc n))"
    using holes_absorb[OF assms] by simp
  then have "bit (unat x * unat y) n = odd (?c n)"
    by (simp add: bit_iff_odd)
  moreover have "bit (x * y) n = bit (unat x * unat y) n"
  proof -
    have "unat (x * y) = take_bit 64 (unat x * unat y)"
      by (simp add: unat_word_ariths take_bit_eq_mod)
    then have "bit (unat (x * y)) n = bit (unat x * unat y) n"
      using assms(3) by (simp add: bit_take_bit_iff)
    then show ?thesis by (simp only: bit_unat)
  qed
  ultimately show ?thesis by (simp add: coeff_mult conv_def of_bool_conj)
qed

section \<open>Carryless products of 64-bit words\<close>

lemma mod4_cases: "n mod 4 = 0 \<or> n mod 4 = 1 \<or> n mod 4 = 2 \<or> n mod 4 = (3 :: nat)"
  by presburger

lemma bit_masks:
  assumes "n < 64"
  shows "bit (0x1111111111111111 :: u64) n = (n mod 4 = 0)"
    "bit (0x2222222222222222 :: u64) n = (n mod 4 = 1)"
    "bit (0x4444444444444444 :: u64) n = (n mod 4 = 2)"
    "bit (0x8888888888888888 :: u64) n = (n mod 4 = 3)"
proof -
  have "list_all (\<lambda>i. bit (0x1111111111111111 :: u64) i = (i mod 4 = 0)) [0..<64]"
    "list_all (\<lambda>i. bit (0x2222222222222222 :: u64) i = (i mod 4 = 1)) [0..<64]"
    "list_all (\<lambda>i. bit (0x4444444444444444 :: u64) i = (i mod 4 = 2)) [0..<64]"
    "list_all (\<lambda>i. bit (0x8888888888888888 :: u64) i = (i mod 4 = 3)) [0..<64]"
    by (simp_all add: upt_rec)
  then show "bit (0x1111111111111111 :: u64) n = (n mod 4 = 0)"
    "bit (0x2222222222222222 :: u64) n = (n mod 4 = 1)"
    "bit (0x4444444444444444 :: u64) n = (n mod 4 = 2)"
    "bit (0x8888888888888888 :: u64) n = (n mod 4 = 3)"
    using assms by (simp_all add: list_all_iff del: mod_eq_0_iff_dvd)
qed

lemma lane_masks:
  "lane 0 (w AND 0x1111111111111111)" "lane 1 (w AND 0x2222222222222222)"
  "lane 2 (w AND 0x4444444444444444)" "lane 3 (w AND 0x8888888888888888)"
proof -
  have *: "lane a (w AND m)" if "\<And>i. i < 64 \<Longrightarrow> bit m i = (i mod 4 = a)" for a and m :: u64
    using that by (auto simp: lane_def bit_and_iff dest: bit_imp_le_length)
  show "lane 0 (w AND 0x1111111111111111)" by (rule *) (rule bit_masks)
  show "lane 1 (w AND 0x2222222222222222)" by (rule *) (rule bit_masks)
  show "lane 2 (w AND 0x4444444444444444)" by (rule *) (rule bit_masks)
  show "lane 3 (w AND 0x8888888888888888)" by (rule *) (rule bit_masks)
qed

lemma coeff_lane_other:
  assumes "lane a x" "lane b y" "n mod 4 \<noteq> (a + b) mod 4"
  shows "\<not> coeff (poly_of x * poly_of y) n"
  using conv_lane_zero[OF assms] by (simp add: coeff_mult conv_def of_bool_conj)

lemma lane_split:
  "w = ((w AND 0x1111111111111111) XOR (w AND 0x2222222222222222)) XOR
       ((w AND 0x4444444444444444) XOR (w AND 0x8888888888888888 :: u64))"
proof (rule bit_eqI)
  fix n assume "possible_bit TYPE(64 word) n"
  then have n: "n < 64" by (simp add: possible_bit_word)
  show "bit w n = bit (((w AND 0x1111111111111111) XOR (w AND 0x2222222222222222)) XOR
       ((w AND 0x4444444444444444) XOR (w AND 0x8888888888888888 :: u64))) n"
    unfolding bit_xor_iff bit_and_iff bit_masks[OF n] using mod4_cases[of n] by auto
qed

lemma bit_bmul64:
  assumes "n < 64"
  shows "bit (bmul64 x y) n = coeff (poly_of x * poly_of y) n"
proof -
  define x0 x1 x2 x3 where x: "x0 = x AND 0x1111111111111111" "x1 = x AND 0x2222222222222222"
    "x2 = x AND 0x4444444444444444" "x3 = x AND 0x8888888888888888"
  define y0 y1 y2 y3 where y: "y0 = y AND 0x1111111111111111" "y1 = y AND 0x2222222222222222"
    "y2 = y AND 0x4444444444444444" "y3 = y AND 0x8888888888888888"
  have lx: "lane 0 x0" "lane 1 x1" "lane 2 x2" "lane 3 x3"
    and ly: "lane 0 y0" "lane 1 y1" "lane 2 y2" "lane 3 y3"
    unfolding x y by (rule lane_masks)+
  let ?c = "\<lambda>u v. coeff (poly_of u * poly_of v) n"
  have sum: "coeff (poly_of x * poly_of y) n =
    ((((?c x0 y0 \<noteq> ?c x0 y1) \<noteq> (?c x0 y2 \<noteq> ?c x0 y3)) \<noteq>
      ((?c x1 y0 \<noteq> ?c x1 y1) \<noteq> (?c x1 y2 \<noteq> ?c x1 y3))) \<noteq>
     (((?c x2 y0 \<noteq> ?c x2 y1) \<noteq> (?c x2 y2 \<noteq> ?c x2 y3)) \<noteq>
      ((?c x3 y0 \<noteq> ?c x3 y1) \<noteq> (?c x3 y2 \<noteq> ?c x3 y3))))"
  proof -
    have px: "poly_of x = (poly_of x0 + poly_of x1) + (poly_of x2 + poly_of x3)"
      by (subst lane_split[of x]) (simp add: x poly_of_xor)
    have py: "poly_of y = (poly_of y0 + poly_of y1) + (poly_of y2 + poly_of y3)"
      by (subst lane_split[of y]) (simp add: y poly_of_xor)
    let ?p = "\<lambda>u v. poly_of u * poly_of v"
    have "?p x y =
      (((?p x0 y0 + ?p x0 y1) + (?p x0 y2 + ?p x0 y3)) + ((?p x1 y0 + ?p x1 y1) + (?p x1 y2 + ?p x1 y3))) +
      (((?p x2 y0 + ?p x2 y1) + (?p x2 y2 + ?p x2 y3)) + ((?p x3 y0 + ?p x3 y1) + (?p x3 y2 + ?p x3 y3)))"
      unfolding px py by (simp add: algebra_simps)
    then show ?thesis by simp
  qed
  note hit = bit_imul_lane[OF lx(1) ly(1) assms] bit_imul_lane[OF lx(1) ly(2) assms]
    bit_imul_lane[OF lx(1) ly(3) assms] bit_imul_lane[OF lx(1) ly(4) assms]
    bit_imul_lane[OF lx(2) ly(1) assms] bit_imul_lane[OF lx(2) ly(2) assms]
    bit_imul_lane[OF lx(2) ly(3) assms] bit_imul_lane[OF lx(2) ly(4) assms]
    bit_imul_lane[OF lx(3) ly(1) assms] bit_imul_lane[OF lx(3) ly(2) assms]
    bit_imul_lane[OF lx(3) ly(3) assms] bit_imul_lane[OF lx(3) ly(4) assms]
    bit_imul_lane[OF lx(4) ly(1) assms] bit_imul_lane[OF lx(4) ly(2) assms]
    bit_imul_lane[OF lx(4) ly(3) assms] bit_imul_lane[OF lx(4) ly(4) assms]
  note miss = coeff_lane_other[OF lx(1) ly(1)] coeff_lane_other[OF lx(1) ly(2)]
    coeff_lane_other[OF lx(1) ly(3)] coeff_lane_other[OF lx(1) ly(4)]
    coeff_lane_other[OF lx(2) ly(1)] coeff_lane_other[OF lx(2) ly(2)]
    coeff_lane_other[OF lx(2) ly(3)] coeff_lane_other[OF lx(2) ly(4)]
    coeff_lane_other[OF lx(3) ly(1)] coeff_lane_other[OF lx(3) ly(2)]
    coeff_lane_other[OF lx(3) ly(3)] coeff_lane_other[OF lx(3) ly(4)]
    coeff_lane_other[OF lx(4) ly(1)] coeff_lane_other[OF lx(4) ly(2)]
    coeff_lane_other[OF lx(4) ly(3)] coeff_lane_other[OF lx(4) ly(4)]
  note bits = bit_or_iff bit_xor_iff bit_and_iff bit_masks[OF assms]
  have "bit (bmul64 x y) n \<longleftrightarrow>
    ((bit (x0 * y0) n \<noteq> (bit (x1 * y3) n \<noteq> (bit (x2 * y2) n \<noteq> bit (x3 * y1) n))) \<and> n mod 4 = 0) \<or>
    ((bit (x0 * y1) n \<noteq> (bit (x1 * y0) n \<noteq> (bit (x2 * y3) n \<noteq> bit (x3 * y2) n))) \<and> n mod 4 = 1) \<or>
    ((bit (x0 * y2) n \<noteq> (bit (x1 * y1) n \<noteq> (bit (x2 * y0) n \<noteq> bit (x3 * y3) n))) \<and> n mod 4 = 2) \<or>
    ((bit (x0 * y3) n \<noteq> (bit (x1 * y2) n \<noteq> (bit (x2 * y1) n \<noteq> bit (x3 * y0) n))) \<and> n mod 4 = 3)"
    unfolding bmul64_def Let_def imul_64_def x[symmetric] y[symmetric] bits disj_assoc by (rule refl)
  then show ?thesis
    using mod4_cases[of n] by (elim disjE) (simp_all add: hit miss sum del: mod_eq_0_iff_dvd, argo+)
qed

text \<open>The high half of a product is the low half of the product of the reversed words.\<close>

lemma coeff_reverse_product:
  assumes "n < 64"
  shows "coeff (poly_of (reverse_bits_64 x) * poly_of (reverse_bits_64 y)) n =
    coeff (poly_of x * poly_of y) (126 - n)"
proof -
  let ?f = "\<lambda>i. of_bool (bit x i \<and> bit y (126 - n - i)) :: nat"
  have "(\<Sum>i\<le>n. of_bool (bit (reverse_bits_64 x) i \<and> bit (reverse_bits_64 y) (n - i)) :: nat) =
      (\<Sum>i \<in> {63 - n..63}. ?f i)"
  proof (rule sum.reindex_bij_witness[where i = "\<lambda>i. 63 - i" and j = "\<lambda>i. 63 - i"])
    fix i assume "i \<in> {..n}"
    then have i: "126 - n - (63 - i) = 63 - (n - i)" "i < 64" "n - i < 64" using assms by auto
    have "bit (reverse_bits_64 x) i = bit x (63 - i)"
      "bit (reverse_bits_64 y) (n - i) = bit y (63 - (n - i))"
      using i(2,3) by (simp_all add: reverse_bits_64_def bit_word_reverse_iff)
    then show "?f (63 - i) = of_bool (bit (reverse_bits_64 x) i \<and> bit (reverse_bits_64 y) (n - i))"
      by (simp only: i(1))
  qed (use assms in auto)
  also have "\<dots> = (\<Sum>i\<le>126 - n. ?f i)"
  proof (rule sum.mono_neutral_left)
    show "\<forall>i \<in> {..126 - n} - {63 - n..63}. ?f i = 0"
      by (auto simp: not_le dest!: bit_imp_le_length)
  qed (use assms in auto)
  finally show ?thesis by (simp add: coeff_mult)
qed

definition clmul_hi :: "u64 \<Rightarrow> u64 \<Rightarrow> u64" where
  "clmul_hi x y = shr_64 (reverse_bits_64 (bmul64 (reverse_bits_64 x) (reverse_bits_64 y))) 1"

lemma poly_product_words:
  "poly_of x * poly_of y = poly_of (bmul64 x y) + X ^ 64 * poly_of (clmul_hi x y)"
proof (rule poly_eqI)
  fix n
  let ?c = "coeff (poly_of x * poly_of y)"
  have high: "\<not> ?c n" if "127 \<le> n" for n
  proof -
    have "(\<Sum>i\<le>n. of_bool (bit x i \<and> bit y (n - i)) :: nat) = 0"
      by (rule sum.neutral) (use that in \<open>auto dest!: bit_imp_le_length\<close>)
    then show ?thesis by (simp add: coeff_mult)
  qed
  have hi: "bit (clmul_hi x y) m = ?c (64 + m)" for m
  proof (cases "m < 63")
    case True
    then have "bit (clmul_hi x y) m = bit (bmul64 (reverse_bits_64 x) (reverse_bits_64 y)) (62 - m)"
      by (simp add: clmul_hi_def shr_64_def reverse_bits_64_def bit_drop_bit_eq bit_word_reverse_iff)
    also have "\<dots> = ?c (126 - (62 - m))"
      by (simp add: bit_bmul64 coeff_reverse_product)
    finally show ?thesis using True by simp
  next
    case False
    then have "\<not> bit (clmul_hi x y) m"
      by (simp add: clmul_hi_def shr_64_def reverse_bits_64_def bit_drop_bit_eq bit_word_reverse_iff)
    moreover have "\<not> ?c (64 + m)" using False by (intro high) simp
    ultimately show ?thesis by simp
  qed
  show "?c n = coeff (poly_of (bmul64 x y) + X ^ 64 * poly_of (clmul_hi x y)) n"
  proof (cases "n < 64")
    case True
    then show ?thesis by (simp add: coeff_Xk_mult bit_bmul64)
  next
    case False
    then have "64 + (n - 64) = n" by simp
    with False hi[of "n - 64"] show ?thesis
      by (auto simp: coeff_Xk_mult dest: bit_imp_le_length)
  qed
qed

section \<open>Interleaving with zeroes\<close>

text \<open>One step of the interleaving halves the size \<open>2 * h\<close> of the blocks.\<close>

definition spread_to :: "nat \<Rightarrow> u64 \<Rightarrow> u128 \<Rightarrow> bool" where
  "spread_to b v x \<longleftrightarrow>
    (\<forall>n < 128. bit x n = (n mod (2 * b) < b \<and> bit v ((n div (2 * b)) * b + n mod (2 * b))))"

lemma spread_step_arith:
  fixes n h :: nat
  assumes "0 < h" and B: "\<And>n. n < N \<Longrightarrow> B n = (n mod (4 * h) < 2 * h \<and> V ((n div (4 * h)) * (2 * h) + n mod (4 * h)))"
    and "n < N"
  shows "((B n \<or> (h \<le> n \<and> B (n - h))) \<and> even (n div h)) =
    (n mod (2 * h) < h \<and> V ((n div (2 * h)) * h + n mod (2 * h)))"
proof -
  define q r where qr: "q = n div (4 * h)" "r = n mod (4 * h)"
  have n: "n = 4 * h * q + r" "r < 4 * h" using assms(1) by (simp_all add: qr)
  consider "r < h" | "h \<le> r" "r < 2 * h" | "2 * h \<le> r" "r < 3 * h" | "3 * h \<le> r" by linarith
  then show ?thesis
  proof cases
    case 1
    have d: "n div h = 4 * q" "n div (2 * h) = 2 * q" "n mod (2 * h) = r"
      using 1 assms(1) n by (auto simp: div_nat_eqI mod_nat_eqI algebra_simps)
    have "\<not> B (n - h)" if hn: "h \<le> n"
    proof -
      obtain p where p: "q = Suc p" using hn 1 n by (cases q) auto
      then have "n - h = 4 * h * p + (r + 3 * h)" using n by (simp add: algebra_simps)
      then have "(n - h) mod (4 * h) = r + 3 * h" using 1 by simp
      then show ?thesis using B[of "n - h"] assms(3) by simp
    qed
    moreover have "B n = V (q * (2 * h) + r)"
      using B[OF assms(3)] 1 by (simp add: qr[symmetric])
    moreover have "V ((n div (2 * h)) * h + n mod (2 * h)) = V (q * (2 * h) + r)"
      unfolding d by (simp add: mult.assoc mult.left_commute)
    moreover have "even (n div h)" "n mod (2 * h) < h" using d 1 by simp_all
    ultimately show ?thesis by blast
  next
    case 2
    have "n div h = 4 * q + 1" "n mod (2 * h) = r"
      using 2 n by (auto intro!: div_nat_eqI mod_nat_eqI simp: algebra_simps)
    then show ?thesis using 2 by simp
  next
    case 3
    have d: "n div h = 4 * q + 2" "n div (2 * h) = 2 * q + 1" "n mod (2 * h) = r - 2 * h"
      using 3 n by (auto intro!: div_nat_eqI mod_nat_eqI simp: algebra_simps)
    have "n - h = 4 * h * q + (r - h)" "r - h < 4 * h" using 3 n by auto
    then have "(n - h) div (4 * h) = q" "(n - h) mod (4 * h) = r - h" by simp_all
    moreover have "r - h < 2 * h" "n - h < N" using 3 assms(3) by linarith+
    ultimately have "B (n - h) = V (q * (2 * h) + (r - h))" using B[of "n - h"] by simp
    moreover have "(2 * q + 1) * h + (r - 2 * h) = q * (2 * h) + (r - h)" using 3 by (simp add: algebra_simps)
    moreover have "\<not> B n" using B[OF assms(3)] 3 by (simp add: qr[symmetric])
    ultimately show ?thesis using 3 d n by auto
  next
    case 4
    have "n div h = 4 * q + 3" "n mod (2 * h) = r - 2 * h"
      using 4 n by (auto intro!: div_nat_eqI mod_nat_eqI simp: algebra_simps)
    moreover have "\<not> r - 2 * h < h" using 4 by linarith
    ultimately show ?thesis by simp
  qed
qed

lemma spread_step:
  assumes "spread_to (2 * h) v x" "0 < h" "list_all (\<lambda>i. bit m i = even (i div h)) [0..<128]"
  shows "spread_to h v ((x OR push_bit h x) AND m)"
  unfolding spread_to_def
proof (intro allI impI)
  fix n :: nat
  assume n: "n < 128"
  have "bit ((x OR push_bit h x) AND m) n = ((bit x n \<or> (h \<le> n \<and> bit x (n - h))) \<and> even (n div h))"
    using n assms(3) by (simp add: list_all_iff bit_and_iff bit_or_iff bit_push_bit_iff possible_bit_word)
  also have "\<dots> = (n mod (2 * h) < h \<and> bit v ((n div (2 * h)) * h + n mod (2 * h)))"
    by (rule spread_step_arith[OF assms(2) _ n]) (use assms(1) in \<open>simp add: spread_to_def\<close>)
  finally show "bit ((x OR push_bit h x) AND m) n = \<dots>" .
qed

lemma bit_spread_bits_64: "bit (spread_bits_64 v) n = (n < 128 \<and> even n \<and> bit v (n div 2))"
proof -
  define x0 :: u128 where "x0 = ucast v"
  define x1 where "x1 = (x0 OR push_bit 32 x0) AND 0x00000000FFFFFFFF00000000FFFFFFFF"
  define x2 where "x2 = (x1 OR push_bit 16 x1) AND 0x0000FFFF0000FFFF0000FFFF0000FFFF"
  define x3 where "x3 = (x2 OR push_bit 8 x2) AND 0x00FF00FF00FF00FF00FF00FF00FF00FF"
  define x4 where "x4 = (x3 OR push_bit 4 x3) AND 0x0F0F0F0F0F0F0F0F0F0F0F0F0F0F0F0F"
  define x5 where "x5 = (x4 OR push_bit 2 x4) AND 0x33333333333333333333333333333333"
  define x6 where "x6 = (x5 OR push_bit 1 x5) AND 0x55555555555555555555555555555555"
  have "spread_to (2 * 32) v x0"
    by (auto simp: spread_to_def x0_def bit_ucast_iff dest: bit_imp_le_length)
  then have "spread_to 32 v x1" unfolding x1_def by (rule spread_step) (simp_all add: upt_rec)
  then have "spread_to (2 * 16) v x1" by simp
  then have "spread_to 16 v x2" unfolding x2_def by (rule spread_step) (simp_all add: upt_rec)
  then have "spread_to (2 * 8) v x2" by simp
  then have "spread_to 8 v x3" unfolding x3_def by (rule spread_step) (simp_all add: upt_rec)
  then have "spread_to (2 * 4) v x3" by simp
  then have "spread_to 4 v x4" unfolding x4_def by (rule spread_step) (simp_all add: upt_rec)
  then have "spread_to (2 * 2) v x4" by simp
  then have "spread_to 2 v x5" unfolding x5_def by (rule spread_step) (simp_all add: upt_rec)
  then have "spread_to (2 * 1) v x5" by simp
  then have "spread_to 1 v x6" unfolding x6_def by (rule spread_step) (simp_all add: upt_rec)
  moreover have "spread_bits_64 v = x6"
    by (simp only: spread_bits_64_def Let_def x0_def x1_def x2_def x3_def x4_def x5_def x6_def)
  ultimately have "\<forall>n < 128. bit (spread_bits_64 v) n = (even n \<and> bit v (n div 2))"
    by (auto simp: spread_to_def even_iff_mod_2_eq_zero)
  then show ?thesis
    by (cases "n < 128") (simp_all add: impossible_bit)
qed

end
