(* ===== verification/Ghash.thy ===== *)
theory Ghash
  imports Carryless
begin

text \<open>
  The GHASH field \<open>GF(2^128)\<close> (\<open>ghash.rs\<close> of the portable field arithmetic): the widening
  Karatsuba product, the reduction modulo \<open>X^128 + X^7 + X^2 + X + 1\<close>, squaring and scaling,
  checked against the quotient of the polynomial ring.
\<close>

unbundle bit_operations_syntax

section \<open>Products\<close>

definition POLY :: u128 where "POLY = 0x87"

definition ghash_mul_x :: "u128 \<Rightarrow> u128" where
  "ghash_mul_x x = (let mask = - drop_bit 127 x in push_bit 1 x XOR (POLY AND mask))"

record wide_ghash_product =
  v0 :: u64
  v1 :: u64
  v2 :: u64
  v3 :: u64

definition reduce_64 :: "u64 \<Rightarrow> u64 \<Rightarrow> u64 \<Rightarrow> u64 \<Rightarrow> u128" where
  "reduce_64 w0 w1 w2 w3 =
    (let w1 = w1 XOR (w3 XOR shl_64 w3 1 XOR shl_64 w3 2 XOR shl_64 w3 7);
         w2 = w2 XOR (shr_64 w3 63 XOR shr_64 w3 62 XOR shr_64 w3 57);
         w0 = w0 XOR (w2 XOR shl_64 w2 1 XOR shl_64 w2 2 XOR shl_64 w2 7);
         w1 = w1 XOR (shr_64 w2 63 XOR shr_64 w2 62 XOR shr_64 w2 57)
     in join_u64s w1 w0)"

definition wide_reduce :: "wide_ghash_product \<Rightarrow> u128" where
  "wide_reduce p = reduce_64 (v0 p) (v1 p) (v2 p) (v3 p)"

definition ghash_wide_mul :: "u128 \<Rightarrow> u128 \<Rightarrow> wide_ghash_product" where
  "ghash_wide_mul x y =
    (case (split_hi_lo_64 x, split_hi_lo_64 y) of ((x1, x0), (y1, y0)) \<Rightarrow>
      let x0r = reverse_bits_64 x0;
          x1r = reverse_bits_64 x1;
          x2 = x0 XOR x1;
          x2r = x0r XOR x1r;
          y0r = reverse_bits_64 y0;
          y1r = reverse_bits_64 y1;
          y2 = y0 XOR y1;
          y2r = y0r XOR y1r;
          z0 = bmul64 y0 x0;
          z1 = bmul64 y1 x1;
          z2 = bmul64 y2 x2;
          z0h = bmul64 y0r x0r;
          z1h = bmul64 y1r x1r;
          z2h = bmul64 y2r x2r;
          z2 = z2 XOR (z0 XOR z1);
          z2h = z2h XOR (z0h XOR z1h);
          z0h = shr_64 (reverse_bits_64 z0h) 1;
          z1h = shr_64 (reverse_bits_64 z1h) 1;
          z2h = shr_64 (reverse_bits_64 z2h) 1
      in \<lparr>v0 = z0, v1 = z0h XOR z2, v2 = z1 XOR z2h, v3 = z1h\<rparr>)"

definition ghash_mul :: "u128 \<Rightarrow> u128 \<Rightarrow> u128" where
  "ghash_mul x y = wide_reduce (ghash_wide_mul x y)"

definition ghash_square :: "u128 \<Rightarrow> u128" where
  "ghash_square x =
    (case spread_bits_128 x of (hi, lo) \<Rightarrow>
      (case (split_hi_lo_64 hi, split_hi_lo_64 lo) of ((w3, w2), (w1, w0)) \<Rightarrow>
        reduce_64 w0 w1 w2 w3))"

definition wide_mul_x :: "wide_ghash_product \<Rightarrow> wide_ghash_product" where
  "wide_mul_x p =
    \<lparr>v0 = shl_64 (v0 p) 1,
     v1 = shl_64 (v1 p) 1 XOR shr_64 (v0 p) 63,
     v2 = shl_64 (v2 p) 1 XOR shr_64 (v1 p) 63,
     v3 = shl_64 (v3 p) 1 XOR shr_64 (v2 p) 63\<rparr>"

definition wide_add :: "wide_ghash_product \<Rightarrow> wide_ghash_product \<Rightarrow> wide_ghash_product" where
  "wide_add p q =
    \<lparr>v0 = v0 p XOR v0 q, v1 = v1 p XOR v1 q, v2 = v2 p XOR v2 q, v3 = v3 p XOR v3 q\<rparr>"

definition wide_zero :: wide_ghash_product where
  "wide_zero = \<lparr>v0 = 0, v1 = 0, v2 = 0, v3 = 0\<rparr>"

definition wide_sum :: "wide_ghash_product list \<Rightarrow> wide_ghash_product" where
  "wide_sum ps = foldl wide_add wide_zero ps"

definition mul_inv_x :: "u128 \<Rightarrow> u128" where
  "mul_inv_x val =
    (let shifted = drop_bit 1 val;
         mask = - (val AND 1)
     in shifted XOR ((push_bit 127 1 OR 0x43) AND mask))"

section \<open>The polynomials they denote\<close>

definition ghash_modulus :: gf2_poly where
  "ghash_modulus = X ^ 128 + (X ^ 7 + X ^ 2 + X + 1)"

definition wide_poly :: "wide_ghash_product \<Rightarrow> gf2_poly" where
  "wide_poly p = poly_of (v0 p) + X ^ 64 * poly_of (v1 p) + X ^ 128 * poly_of (v2 p) + X ^ 192 * poly_of (v3 p)"

lemma poly_of_join: "poly_of (join_u64s hi lo) = poly_of lo + X ^ 64 * poly_of hi"
proof (rule poly_eqI)
  fix n
  show "coeff (poly_of (join_u64s hi lo)) n = coeff (poly_of lo + X ^ 64 * poly_of hi) n"
    by (cases "n < 64")
      (auto simp: join_u64s_def bit_or_iff bit_push_bit_iff bit_ucast_iff coeff_Xk_mult
        dest: bit_imp_le_length)
qed

lemma poly_of_split:
  assumes "split_hi_lo_64 w = (hi, lo)"
  shows "poly_of w = poly_of lo + X ^ 64 * poly_of hi"
proof (rule poly_eqI)
  fix n
  have "hi = ucast (drop_bit 64 w)" "lo = ucast w" using assms by (simp_all add: split_hi_lo_64_def)
  then show "coeff (poly_of w) n = coeff (poly_of lo + X ^ 64 * poly_of hi) n"
    by (cases "n < 64")
      (auto simp: bit_ucast_iff bit_drop_bit_eq coeff_Xk_mult dest: bit_imp_le_length)
qed

lemma reverse_xor: "reverse_bits_64 (a XOR b) = reverse_bits_64 a XOR reverse_bits_64 b"
  by (rule bit_eqI) (auto simp: reverse_bits_64_def bit_word_reverse_iff bit_xor_iff)

lemma shr_xor: "shr_64 (a XOR b) n = shr_64 a n XOR shr_64 b n"
  by (simp add: shr_64_def drop_bit_xor)

lemma ghash_wide_mul_parts:
  assumes "split_hi_lo_64 x = (x1, x0)" "split_hi_lo_64 y = (y1, y0)"
  shows "ghash_wide_mul x y =
    \<lparr>v0 = bmul64 y0 x0,
     v1 = clmul_hi y0 x0 XOR (bmul64 (y0 XOR y1) (x0 XOR x1) XOR (bmul64 y0 x0 XOR bmul64 y1 x1)),
     v2 = bmul64 y1 x1 XOR (clmul_hi (y0 XOR y1) (x0 XOR x1) XOR (clmul_hi y0 x0 XOR clmul_hi y1 x1)),
     v3 = clmul_hi y1 x1\<rparr>"
  by (simp add: ghash_wide_mul_def assms Let_def clmul_hi_def reverse_xor shr_xor)

lemma wide_poly_mul: "wide_poly (ghash_wide_mul x y) = poly_of x * poly_of y"
proof -
  obtain x1 x0 y1 y0 where s: "split_hi_lo_64 x = (x1, x0)" "split_hi_lo_64 y = (y1, y0)"
    by (metis surj_pair)
  define Y where "Y = X ^ 64"
  have Y: "X ^ 128 = Y * Y" "X ^ 192 = Y * Y * Y" by (simp_all add: Y_def power_add[symmetric])
  define l0 h0 l1 h1 l2 h2 where lh: "l0 = poly_of (bmul64 y0 x0)" "h0 = poly_of (clmul_hi y0 x0)"
    "l1 = poly_of (bmul64 y1 x1)" "h1 = poly_of (clmul_hi y1 x1)"
    "l2 = poly_of (bmul64 (y0 XOR y1) (x0 XOR x1))" "h2 = poly_of (clmul_hi (y0 XOR y1) (x0 XOR x1))"
  have "wide_poly (ghash_wide_mul x y) = l0 + Y * (h0 + (l2 + (l0 + l1))) +
      Y * Y * (l1 + (h2 + (h0 + h1))) + Y * Y * Y * h1"
    by (simp add: ghash_wide_mul_parts[OF s] wide_poly_def poly_of_xor lh Y Y_def[symmetric])
  also have "\<dots> = (l0 + Y * h0) + Y * ((l2 + Y * h2) + (l0 + Y * h0) + (l1 + Y * h1)) + Y * Y * (l1 + Y * h1)"
    by (simp add: algebra_simps)
  also have "\<dots> = poly_of y0 * poly_of x0 +
      Y * ((poly_of y0 + poly_of y1) * (poly_of x0 + poly_of x1) + poly_of y0 * poly_of x0 + poly_of y1 * poly_of x1) +
      Y * Y * (poly_of y1 * poly_of x1)"
    unfolding lh Y_def by (simp only: poly_product_words[symmetric] poly_of_xor)
  also have "\<dots> = (poly_of x0 + Y * poly_of x1) * (poly_of y0 + Y * poly_of y1)"
    by (simp add: algebra_simps)
  finally show ?thesis by (simp add: poly_of_split[OF s(1)] poly_of_split[OF s(2)] Y_def)
qed

section \<open>Reduction\<close>

text \<open>The low and high words of a word scaled by \<open>X^7 + X^2 + X + 1\<close>.\<close>

definition fold_low :: "u64 \<Rightarrow> u64" where
  "fold_low w = w XOR shl_64 w 1 XOR shl_64 w 2 XOR shl_64 w 7"

definition fold_high :: "u64 \<Rightarrow> u64" where
  "fold_high w = shr_64 w 63 XOR shr_64 w 62 XOR shr_64 w 57"

lemma bit_fold_low:
  assumes "n < 64"
  shows "bit (fold_low w) n \<longleftrightarrow>
    (((bit w n \<noteq> (1 \<le> n \<and> bit w (n - 1))) \<noteq> (2 \<le> n \<and> bit w (n - 2))) \<noteq> (7 \<le> n \<and> bit w (n - 7)))"
proof -
  have "bit (shl_64 w k) n \<longleftrightarrow> k \<le> n \<and> bit w (n - k)" for k
    using assms by (auto simp: shl_64_def bit_push_bit_iff possible_bit_word)
  then show ?thesis by (simp only: fold_low_def bit_xor_iff) argo
qed

lemma bit_fold_high:
  "bit (fold_high w) m \<longleftrightarrow> ((bit w (63 + m) \<noteq> bit w (62 + m)) \<noteq> bit w (57 + m))"
  by (simp only: fold_high_def shr_64_def bit_xor_iff bit_drop_bit_eq comp_def) argo

lemma poly_fold: "(X ^ 7 + X ^ 2 + X + 1) * poly_of w = poly_of (fold_low w) + X ^ 64 * poly_of (fold_high w)"
proof (rule poly_eqI)
  fix n
  have l: "coeff ((X ^ 7 + X ^ 2 + X + 1) * poly_of w) n \<longleftrightarrow>
      ((((7 \<le> n \<and> bit w (n - 7)) \<noteq> (2 \<le> n \<and> bit w (n - 2))) \<noteq> (1 \<le> n \<and> bit w (n - 1))) \<noteq> bit w n)"
    using coeff_Xk_mult[of 1 "poly_of w" n] by (simp only: distrib_right coeff_Xk_mult coeff_add power_one_right coeff_poly_of mult_1)
  show "coeff ((X ^ 7 + X ^ 2 + X + 1) * poly_of w) n =
      coeff (poly_of (fold_low w) + X ^ 64 * poly_of (fold_high w)) n"
  proof (cases "n < 64")
    case True
    then have "coeff (poly_of (fold_low w) + X ^ 64 * poly_of (fold_high w)) n = bit (fold_low w) n"
      by (simp add: coeff_Xk_mult)
    then show ?thesis unfolding l bit_fold_low[OF True] by argo
  next
    case False
    then obtain m where n: "n = 64 + m" by (metis le_add_diff_inverse not_less)
    have "coeff (poly_of (fold_low w) + X ^ 64 * poly_of (fold_high w)) n = bit (fold_high w) m"
      by (simp add: coeff_Xk_mult n impossible_bit)
    moreover have "\<not> bit w n" by (simp add: n impossible_bit)
    moreover have "n - 7 = 57 + m" "n - 2 = 62 + m" "n - 1 = 63 + m" "7 \<le> n" "2 \<le> n" "1 \<le> n"
      by (simp_all add: n)
    ultimately show ?thesis unfolding l bit_fold_high by auto
  qed
qed

lemma reduce_64_parts:
  "reduce_64 w0 w1 w2 w3 =
    (let u = w2 XOR fold_high w3
     in join_u64s (w1 XOR fold_low w3 XOR fold_high u) (w0 XOR fold_low u))"
  by (simp add: reduce_64_def fold_low_def fold_high_def Let_def xor.assoc)

lemma reduce_64_quotient:
  "poly_of w0 + X ^ 64 * poly_of w1 + X ^ 128 * poly_of w2 + X ^ 192 * poly_of w3 =
    ghash_modulus * (poly_of (w2 XOR fold_high w3) + X ^ 64 * poly_of w3) + poly_of (reduce_64 w0 w1 w2 w3)"
proof -
  define Y where "Y = X ^ 64"
  define R where "R = X ^ 7 + X ^ 2 + X + 1"
  have Y: "X ^ 128 = Y * Y" "X ^ 192 = Y * Y * Y" by (simp_all add: Y_def power_add[symmetric])
  let ?u = "w2 XOR fold_high w3"
  define u a3 b3 au bu where p: "u = poly_of ?u" "a3 = poly_of (fold_low w3)" "b3 = poly_of (fold_high w3)"
    "au = poly_of (fold_low ?u)" "bu = poly_of (fold_high ?u)"
  have f: "R * poly_of w3 = a3 + Y * b3" "R * u = au + Y * bu"
    by (simp_all add: R_def poly_fold p Y_def)
  have u: "poly_of w2 = u + b3" by (simp add: p poly_of_xor add.assoc poly_add_self)
  have r: "poly_of (reduce_64 w0 w1 w2 w3) = poly_of w0 + au + Y * (poly_of w1 + (a3 + bu))"
    by (simp add: reduce_64_parts Let_def poly_of_join poly_of_xor Y_def p)
  have "ghash_modulus * (u + Y * poly_of w3) =
      Y * Y * u + Y * Y * Y * poly_of w3 + (au + Y * bu) + Y * (a3 + Y * b3)"
    unfolding ghash_modulus_def R_def[symmetric] Y f[symmetric] by (simp add: algebra_simps)
  then show ?thesis
    unfolding p(1)[symmetric] Y Y_def[symmetric] r u by (simp add: algebra_simps)
qed

lemma wide_reduce_poly: "ghash_modulus dvd wide_poly p - poly_of (wide_reduce p)"
  using reduce_64_quotient[of "v0 p" "v1 p" "v2 p" "v3 p"]
  by (simp add: wide_poly_def wide_reduce_def)

lemma ghash_remainder_unique:
  assumes "ghash_modulus dvd poly_of v - poly_of (w :: u128)"
  shows "v = w"
proof -
  have "poly_of v - poly_of w = 0"
  proof (rule multiple_below_zero[of ghash_modulus 128 "X ^ 7 + X ^ 2 + X + 1"])
    show "degree_below 128 (X ^ 7 + X ^ 2 + X + 1)"
      using coeff_Xk[of 1] by (simp add: degree_below_def coeff_Xk)
    show "degree_below 128 (poly_of v - poly_of w)"
      using degree_below_poly_of[of v] degree_below_poly_of[of w] by (simp add: degree_below_def)
  qed (use assms in \<open>simp_all add: ghash_modulus_def add.assoc\<close>)
  then show ?thesis by (simp flip: poly_of_inject)
qed

lemma ghash_mul_poly: "ghash_modulus dvd poly_of x * poly_of y - poly_of (ghash_mul x y)"
  using wide_reduce_poly[of "ghash_wide_mul x y"] by (simp add: ghash_mul_def wide_poly_mul)

lemma ghash_mul_eqI:
  assumes "ghash_modulus dvd poly_of x * poly_of y - poly_of z"
  shows "ghash_mul x y = z"
proof (rule ghash_remainder_unique)
  have "poly_of (ghash_mul x y) - poly_of z =
      (poly_of x * poly_of y - poly_of z) - (poly_of x * poly_of y - poly_of (ghash_mul x y))" by simp
  then show "ghash_modulus dvd poly_of (ghash_mul x y) - poly_of z"
    using assms ghash_mul_poly dvd_diff by metis
qed

section \<open>Accumulation, scaling and squaring\<close>

lemma wide_poly_add: "wide_poly (wide_add p q) = wide_poly p + wide_poly q"
  by (simp add: wide_poly_def wide_add_def poly_of_xor algebra_simps)

lemma wide_reduce_eqI:
  assumes "ghash_modulus dvd wide_poly p - poly_of z"
  shows "wide_reduce p = z"
proof (rule ghash_remainder_unique)
  have "poly_of (wide_reduce p) - poly_of z =
      (wide_poly p - poly_of z) - (wide_poly p - poly_of (wide_reduce p))" by simp
  then show "ghash_modulus dvd poly_of (wide_reduce p) - poly_of z"
    using assms wide_reduce_poly dvd_diff by metis
qed

lemma wide_reduce_add: "wide_reduce (wide_add p q) = wide_reduce p XOR wide_reduce q"
proof (rule wide_reduce_eqI)
  have "wide_poly (wide_add p q) - poly_of (wide_reduce p XOR wide_reduce q) =
      (wide_poly p - poly_of (wide_reduce p)) + (wide_poly q - poly_of (wide_reduce q))"
    by (simp add: wide_poly_add poly_of_xor)
  then show "ghash_modulus dvd wide_poly (wide_add p q) - poly_of (wide_reduce p XOR wide_reduce q)"
    using wide_reduce_poly dvd_add by metis
qed

lemma wide_reduce_zero: "wide_reduce wide_zero = 0"
  by (rule wide_reduce_eqI) (simp add: wide_poly_def wide_zero_def)

lemma wide_reduce_sum_from:
  "wide_reduce (foldl wide_add p ps) = foldl (XOR) (wide_reduce p) (map wide_reduce ps)"
  by (induction ps arbitrary: p) (simp_all add: wide_reduce_add)

lemma poly_of_shl1: "X * poly_of (w :: u128) = poly_of (push_bit 1 w) + (if bit w 127 then X ^ 128 else 0)"
proof (rule poly_eqI)
  fix n :: nat
  define s where "s = push_bit 1 w"
  have s: "bit s n = (0 < n \<and> n < 128 \<and> bit w (n - 1))" for n
    unfolding s_def bit_push_bit_iff possible_bit_word by auto
  consider "n = 0" | "0 < n" "n < 128" | "n = 128" | "128 < n" by linarith
  then show "coeff (X * poly_of w) n =
      coeff (poly_of (push_bit 1 w) + (if bit w 127 then X ^ 128 else 0)) n"
    unfolding s_def[symmetric] by cases (auto simp: coeff_X_mult s coeff_Xk impossible_bit)
qed

lemma poly_of_POLY: "poly_of POLY = X ^ 7 + X ^ 2 + X + 1"
proof (rule poly_eqI)
  fix n
  have l: "list_all (\<lambda>n. bit POLY n = (n = 0 \<or> n = 1 \<or> n = 2 \<or> n = 7)) [0..<128]"
    by (simp add: POLY_def upt_rec)
  have "bit POLY n = (n = 0 \<or> n = 1 \<or> n = 2 \<or> n = 7)"
    using l by (cases "n < 128") (auto simp: list_all_iff impossible_bit)
  moreover have "coeff X n = (n = 1)" using coeff_Xk[of 1 n] by simp
  ultimately show "coeff (poly_of POLY) n = coeff (X ^ 7 + X ^ 2 + X + 1) n"
    by (auto simp: coeff_Xk)
qed

lemma mask_of_bit: "(c :: u128) AND - (of_bool b) = (if b then c else 0)"
  by (cases b) simp_all

lemma ghash_mul_x_poly:
  "X * poly_of w = (if bit w 127 then ghash_modulus else 0) + poly_of (ghash_mul_x w)"
proof -
  have "drop_bit 127 w = of_bool (bit w 127)"
  proof (rule bit_eqI)
    fix n
    show "bit (drop_bit 127 w) n = bit (of_bool (bit w 127) :: u128) n"
      by (cases n) (auto simp: bit_drop_bit_eq bit_0 bit_of_bool_iff impossible_bit)
  qed
  then have "ghash_mul_x w = push_bit 1 w XOR (if bit w 127 then POLY else 0)"
    by (simp add: ghash_mul_x_def Let_def mask_of_bit)
  then show ?thesis
    using poly_of_shl1[of w]
    by (simp add: poly_of_xor poly_of_POLY ghash_modulus_def algebra_simps split: if_splits)
qed

lemma X_dvd_cancel:
  assumes "ghash_modulus dvd X * f"
  shows "ghash_modulus dvd f"
proof -
  have "X * X ^ 127 = X ^ 128" "X * X ^ 6 = X ^ 7" "X * X = X ^ 2"
    using power_Suc[of X 127] power_Suc[of X 6] by (simp_all add: power2_eq_square)
  then have inv: "X * (X ^ 127 + X ^ 6 + X + 1) = ghash_modulus + 1"
    by (simp add: ghash_modulus_def distrib_left add.assoc)
  have "(X ^ 127 + X ^ 6 + X + 1) * (X * f) = (X * (X ^ 127 + X ^ 6 + X + 1)) * f"
    by (simp only: mult.assoc mult.left_commute)
  then have "f = ghash_modulus * f - (X ^ 127 + X ^ 6 + X + 1) * (X * f)"
    by (simp add: inv distrib_right)
  then show ?thesis using assms dvd_diff dvd_mult dvd_triv_left by metis
qed

lemma poly_of_mul_inv_x: "X * poly_of (mul_inv_x w) = poly_of w + (if bit w 0 then ghash_modulus else 0)"
proof -
  have and1: "w AND 1 = of_bool (bit w 0)"
    by (rule bit_eqI) (auto simp: bit_and_iff bit_1_iff bit_of_bool_iff)
  then have m: "mul_inv_x w = drop_bit 1 w XOR (if bit w 0 then push_bit 127 1 OR 0x43 else 0)"
    unfolding mul_inv_x_def Let_def and1 mask_of_bit by simp
  have sh: "X * poly_of (drop_bit 1 w) = poly_of w + of_bool (bit w 0)"
  proof (rule poly_eqI)
    fix n :: nat
    show "coeff (X * poly_of (drop_bit 1 w)) n = coeff (poly_of w + of_bool (bit w 0)) n"
      by (cases n) (auto simp: coeff_X_mult bit_drop_bit_eq)
  qed
  have c: "poly_of (push_bit 127 1 OR 0x43 :: u128) = X ^ 127 + (X ^ 6 + X + 1)"
  proof (rule poly_eqI)
    fix n :: nat
    have l: "list_all (\<lambda>n. bit (push_bit 127 1 OR 0x43 :: u128) n = (n = 127 \<or> n = 0 \<or> n = 1 \<or> n = 6)) [0..<128]"
      by (simp add: bit_or_iff bit_push_bit_iff upt_rec)
    have "bit (push_bit 127 1 OR 0x43 :: u128) n = (n = 127 \<or> n = 0 \<or> n = 1 \<or> n = 6)"
      using l by (cases "n < 128") (auto simp: list_all_iff impossible_bit)
    moreover have "coeff X n = (n = 1)" using coeff_Xk[of 1 n] by simp
    ultimately show "coeff (poly_of (push_bit 127 1 OR 0x43 :: u128)) n = coeff (X ^ 127 + (X ^ 6 + X + 1)) n"
      by (auto simp: coeff_Xk)
  qed
  have "X * X ^ 127 = X ^ 128" "X * X ^ 6 = X ^ 7" "X * X = X ^ 2"
    using power_Suc[of X 127] power_Suc[of X 6] by (simp_all add: power2_eq_square)
  then have inv: "X * (X ^ 127 + (X ^ 6 + X + 1)) = ghash_modulus + 1"
    by (simp add: ghash_modulus_def distrib_left add.assoc)
  show ?thesis
  proof (cases "bit w 0")
    case True
    have "X * poly_of (mul_inv_x w) = (poly_of w + of_bool (bit w 0)) + (ghash_modulus + 1)"
      by (simp only: m True if_True poly_of_xor distrib_left[of X "poly_of (drop_bit 1 w)"] sh c inv)
    with True show ?thesis by (simp add: add.assoc add.left_commute)
  next
    case False
    have "X * poly_of (mul_inv_x w) = poly_of w + of_bool (bit w 0)"
      by (simp only: m False if_False poly_of_xor poly_of_0 add_0_right sh)
    with False show ?thesis by simp
  qed
qed

lemma ghash_mul_x_eqI:
  assumes "ghash_modulus dvd X * poly_of w - poly_of z"
  shows "ghash_mul_x w = z"
proof (rule ghash_remainder_unique)
  have "X * poly_of w - poly_of z = (if bit w 127 then ghash_modulus else 0) + (poly_of (ghash_mul_x w) - poly_of z)"
    by (simp add: ghash_mul_x_poly)
  moreover have "ghash_modulus dvd (if bit w 127 then ghash_modulus else 0)" by simp
  ultimately show "ghash_modulus dvd poly_of (ghash_mul_x w) - poly_of z"
    using assms dvd_add_right_iff by metis
qed

lemma poly_of_square:
  assumes "spread_bits_128 x = (hi, lo)"
  shows "poly_of x * poly_of x = poly_of lo + X ^ 128 * poly_of hi"
proof (rule poly_eqI)
  fix n :: nat
  obtain xh xl where s: "split_hi_lo_64 x = (xh, xl)" by fastforce
  then have sp: "hi = spread_bits_64 xh" "lo = spread_bits_64 xl"
    using assms by (simp_all add: spread_bits_128_def)
  have x: "bit x k = (if k < 64 then bit xl k else bit xh (k - 64))" for k
    using arg_cong[OF poly_of_split[OF s], of "\<lambda>p. coeff p k"]
    by (auto simp: coeff_Xk_mult impossible_bit)
  show "coeff (poly_of x * poly_of x) n = coeff (poly_of lo + X ^ 128 * poly_of hi) n"
  proof (cases "n < 128")
    case True
    then show ?thesis by (auto simp: coeff_square x sp bit_spread_bits_64 coeff_Xk_mult)
  next
    case False
    then obtain m where m: "n = 128 + m" by (metis le_add_diff_inverse not_less)
    then have "n div 2 = 64 + m div 2" by simp
    then show ?thesis
      by (auto simp: coeff_square x sp bit_spread_bits_64 coeff_Xk_mult m impossible_bit
          dest: bit_imp_le_length)
  qed
qed

lemma ghash_square_poly: "ghash_modulus dvd poly_of x * poly_of x - poly_of (ghash_square x)"
proof -
  obtain hi lo w3 w2 w1 w0 where s: "spread_bits_128 x = (hi, lo)"
    "split_hi_lo_64 hi = (w3, w2)" "split_hi_lo_64 lo = (w1, w0)"
    by (metis surj_pair)
  have "X ^ 128 * (X ^ 64 * poly_of w3) = X ^ 192 * poly_of w3"
    by (simp only: mult.assoc[symmetric] power_add[symmetric]) simp
  then have "poly_of x * poly_of x =
      poly_of w0 + X ^ 64 * poly_of w1 + X ^ 128 * poly_of w2 + X ^ 192 * poly_of w3"
    by (simp add: poly_of_square[OF s(1)] poly_of_split[OF s(2)] poly_of_split[OF s(3)]
        distrib_left add.assoc)
  then show ?thesis
    using reduce_64_quotient[of w0 w1 w2 w3] s by (simp add: ghash_square_def)
qed

section \<open>Properties of the field arithmetic\<close>

text \<open>C15: The optimised multiplication is multiplication in the quotient ring: its result is the
  one 128-bit word congruent to the product of the two polynomials modulo
  \<open>X^128 + X^7 + X^2 + X + 1\<close>.\<close>

theorem ghash_mul_exact:
  "ghash_mul x y = z \<longleftrightarrow> ghash_modulus dvd poly_of x * poly_of y - poly_of z"
  using ghash_mul_poly ghash_mul_eqI by auto

lemma ghash_mul_assoc_aux: "ghash_mul (ghash_mul x y) z = ghash_mul x (ghash_mul y z)"
proof (rule ghash_mul_eqI)
  let ?p = poly_of
  have "?p (ghash_mul x y) * ?p z - ?p (ghash_mul x (ghash_mul y z)) =
      (?p x * ?p (ghash_mul y z) - ?p (ghash_mul x (ghash_mul y z))) +
      ((?p y * ?p z - ?p (ghash_mul y z)) * ?p x - (?p x * ?p y - ?p (ghash_mul x y)) * ?p z)"
    by (simp add: algebra_simps)
  moreover have "ghash_modulus dvd \<dots>"
    by (intro dvd_add dvd_diff dvd_mult2 ghash_mul_poly)
  ultimately show "ghash_modulus dvd ?p (ghash_mul x y) * ?p z - ?p (ghash_mul x (ghash_mul y z))"
    by (simp only:)
qed

lemma ghash_mul_add_aux: "ghash_mul x (y XOR z) = ghash_mul x y XOR ghash_mul x z"
proof (rule ghash_mul_eqI)
  let ?p = poly_of
  have "?p x * ?p (y XOR z) - ?p (ghash_mul x y XOR ghash_mul x z) =
      (?p x * ?p y - ?p (ghash_mul x y)) + (?p x * ?p z - ?p (ghash_mul x z))"
    by (simp add: poly_of_xor distrib_left)
  then show "ghash_modulus dvd ?p x * ?p (y XOR z) - ?p (ghash_mul x y XOR ghash_mul x z)"
    using ghash_mul_poly by (simp add: dvd_add)
qed

lemma ghash_mul_comm_aux: "ghash_mul x y = ghash_mul y x"
  by (rule ghash_mul_eqI) (metis ghash_mul_poly mult.commute)

text \<open>The GHASH elements form a commutative ring under exclusive or and the multiplication,
  with 1 as the unit and 0 annihilating.\<close>

theorem ghash_ring_laws:
  "ghash_mul x y = ghash_mul y x \<and>
   ghash_mul (ghash_mul x y) z = ghash_mul x (ghash_mul y z) \<and>
   ghash_mul x (y XOR z) = ghash_mul x y XOR ghash_mul x z \<and>
   ghash_mul 1 x = x \<and> ghash_mul 0 x = 0"
proof (intro conjI)
  show "ghash_mul 1 x = x" "ghash_mul 0 x = 0" by (rule ghash_mul_eqI, simp)+
qed (rule ghash_mul_comm_aux ghash_mul_assoc_aux ghash_mul_add_aux)+

text \<open>Unreduced products may be accumulated and reduced once: the reduction of their sum is
  the exclusive or of the reduced products.\<close>

theorem wide_sum_reduces_once:
  "wide_reduce (wide_sum (map (\<lambda>(x, y). ghash_wide_mul x y) ps)) =
    foldl (XOR) 0 (map (\<lambda>(x, y). ghash_mul x y) ps)"
  by (simp add: wide_sum_def wide_reduce_sum_from wide_reduce_zero comp_def ghash_mul_def split_def)

lemma wide_mul_x_poly:
  assumes "\<not> bit (v3 p) 63"
  shows "wide_poly (wide_mul_x p) = X * wide_poly p"
proof -
  define Y where "Y = X ^ 64"
  have Y: "X ^ 128 = Y * Y" "X ^ 192 = Y * Y * Y" by (simp_all add: Y_def power_add[symmetric])
  have carry: "X * poly_of w = poly_of (shl_64 w 1) + Y * poly_of (shr_64 w 63)" for w
  proof (rule poly_eqI)
    fix n :: nat
    have "bit (shl_64 w 1) n = (0 < n \<and> n < 64 \<and> bit w (n - 1))"
      unfolding shl_64_def bit_push_bit_iff possible_bit_word by auto
    then show "coeff (X * poly_of w) n = coeff (poly_of (shl_64 w 1) + Y * poly_of (shr_64 w 63)) n"
      by (auto simp: Y_def coeff_X_mult coeff_Xk_mult shr_64_def bit_drop_bit_eq impossible_bit)
  qed
  have "shr_64 (v3 p) 63 = 0"
  proof (rule bit_eqI)
    fix n show "bit (shr_64 (v3 p) 63) n = bit (0 :: u64) n"
      using assms by (cases n) (auto simp: shr_64_def bit_drop_bit_eq impossible_bit)
  qed
  then have "X * poly_of (v3 p) = poly_of (shl_64 (v3 p) 1)" using carry[of "v3 p"] by simp
  moreover have "X * wide_poly p = X * poly_of (v0 p) + Y * (X * poly_of (v1 p)) +
      Y * Y * (X * poly_of (v2 p)) + Y * Y * Y * (X * poly_of (v3 p))"
    by (simp add: wide_poly_def Y Y_def[symmetric] algebra_simps)
  ultimately show ?thesis
    by (simp add: wide_poly_def wide_mul_x_def Y Y_def[symmetric] carry[of "v0 p"] carry[of "v1 p"]
        carry[of "v2 p"] poly_of_xor algebra_simps)
qed

lemma ghash_wide_mul_top: "\<not> bit (v3 (ghash_wide_mul x y)) 63"
proof -
  obtain x1 x0 y1 y0 where s: "split_hi_lo_64 x = (x1, x0)" "split_hi_lo_64 y = (y1, y0)"
    by (metis surj_pair)
  show ?thesis
    by (simp add: ghash_wide_mul_parts[OF s] clmul_hi_def shr_64_def bit_drop_bit_eq impossible_bit)
qed

text \<open>Every scaling by \<open>X\<close> is multiplication by the element 2: the scalar shift, the shift
  of an unreduced product before its reduction, and the division by \<open>X\<close>, which inverts it.\<close>

theorem ghash_scaling:
  "ghash_mul_x x = ghash_mul 2 x \<and>
   wide_reduce (wide_mul_x (ghash_wide_mul x y)) = ghash_mul 2 (ghash_mul x y) \<and>
   ghash_mul_x (mul_inv_x x) = x \<and> mul_inv_x (ghash_mul_x x) = x"
proof (intro conjI)
  have two: "poly_of (2 :: u128) = X"
    by (rule poly_eqI) (auto simp: X.rep_eq bit_2_iff)
  show mx: "ghash_mul_x x = ghash_mul 2 x" for x
    by (rule ghash_mul_x_eqI) (use ghash_mul_poly[of 2 x] two in simp)
  have "wide_poly (wide_mul_x (ghash_wide_mul x y)) - poly_of (ghash_mul 2 (ghash_mul x y)) =
      X * (poly_of x * poly_of y - poly_of (ghash_mul x y)) +
      (poly_of (2 :: u128) * poly_of (ghash_mul x y) - poly_of (ghash_mul 2 (ghash_mul x y)))"
    by (simp add: wide_mul_x_poly[OF ghash_wide_mul_top] wide_poly_mul two algebra_simps)
  moreover have "ghash_modulus dvd \<dots>"
    by (intro dvd_add dvd_mult ghash_mul_poly)
  ultimately show "wide_reduce (wide_mul_x (ghash_wide_mul x y)) = ghash_mul 2 (ghash_mul x y)"
    by (intro wide_reduce_eqI) (simp only:)
  show "ghash_mul_x (mul_inv_x x) = x"
    by (rule ghash_mul_x_eqI) (simp add: poly_of_mul_inv_x)
  show "mul_inv_x (ghash_mul_x x) = x"
  proof (rule ghash_remainder_unique, rule X_dvd_cancel)
    have "X * (poly_of (mul_inv_x (ghash_mul_x x)) - poly_of x) =
        (if bit (ghash_mul_x x) 0 then ghash_modulus else 0) - (if bit x 127 then ghash_modulus else 0)"
      by (simp add: right_diff_distrib poly_of_mul_inv_x ghash_mul_x_poly[of x])
    then show "ghash_modulus dvd X * (poly_of (mul_inv_x (ghash_mul_x x)) - poly_of x)"
      by (simp split: if_splits)
  qed
qed

text \<open>Squaring by spreading the bits is multiplication of an element by itself.\<close>

theorem ghash_square_mul: "ghash_square x = ghash_mul x x"
  by (rule ghash_mul_eqI[symmetric]) (rule ghash_square_poly)

end
