(* ===== verification/Constraint.thy ===== *)
theory Constraint
  imports Operand Ghash
begin

text \<open>
  The four kinds of constraints (\<open>constraint.rs\<close>) and the violations they report (\<open>error.rs\<close>).
  A constraint is an array of operands in the order of its operand names; checking one
  evaluates the operands on a value vector and compares.
\<close>

unbundle bit_operations_syntax

datatype constraint_kind = ZeroKind | AndKind | ImulKind | BmulKind

fun kind_name :: "constraint_kind \<Rightarrow> string" where
  "kind_name ZeroKind = ''zero''"
| "kind_name AndKind = ''and''"
| "kind_name ImulKind = ''imul''"
| "kind_name BmulKind = ''bmul''"

datatype constraint_violation =
  ZeroViolation u64
| AndViolation u64 u64 u64 u64
| ImulViolation u64 u64 u64 u64 u64 u64
| BmulViolation u128 u128 u128 u128

fun violation_kind :: "constraint_violation \<Rightarrow> constraint_kind" where
  "violation_kind (ZeroViolation val) = ZeroKind"
| "violation_kind (AndViolation a b c residue) = AndKind"
| "violation_kind (ImulViolation a b lo hi expected_lo expected_hi) = ImulKind"
| "violation_kind (BmulViolation a b c expected) = BmulKind"

definition vv_eval_operand :: "value_vec \<Rightarrow> operand \<Rightarrow> (constraint_violation, u64) outcome" where
  "vv_eval_operand v opnd = or_panic (eval_operand (vv_get v) opnd)"

section \<open>Zero constraints\<close>

datatype zero_constraint = ZeroConstraint (zc_val: operand)

definition zero_new :: "shifted_value_index list \<Rightarrow> zero_constraint" where
  "zero_new val = ZeroConstraint val"

definition zero_plain :: "value_index list \<Rightarrow> zero_constraint" where
  "zero_plain val = zero_new (map svi_plain val)"

definition zero_operands :: "zero_constraint \<Rightarrow> operand list" where
  "zero_operands z = [zc_val z]"

definition zero_operand_names :: "string list" where
  "zero_operand_names = [''val'']"

definition zero_verify :: "zero_constraint \<Rightarrow> value_vec \<Rightarrow> (constraint_violation, unit) outcome" where
  "zero_verify z values =
    and_then (vv_eval_operand values (zc_val z)) (\<lambda>val.
      if val \<noteq> 0 then Err (ZeroViolation val) else Ok ())"

section \<open>And constraints\<close>

datatype and_constraint = AndConstraint (ac_a: operand) (ac_b: operand) (ac_c: operand)

definition and_abc ::
  "shifted_value_index list \<Rightarrow> shifted_value_index list \<Rightarrow> shifted_value_index list \<Rightarrow> and_constraint" where
  "and_abc a b c = AndConstraint a b c"

definition and_plain_abc ::
  "value_index list \<Rightarrow> value_index list \<Rightarrow> value_index list \<Rightarrow> and_constraint" where
  "and_plain_abc a b c = and_abc (map svi_plain a) (map svi_plain b) (map svi_plain c)"

definition and_operands :: "and_constraint \<Rightarrow> operand list" where
  "and_operands x = [ac_a x, ac_b x, ac_c x]"

definition and_operand_names :: "string list" where
  "and_operand_names = [''a'', ''b'', ''c'']"

definition and_verify :: "and_constraint \<Rightarrow> value_vec \<Rightarrow> (constraint_violation, unit) outcome" where
  "and_verify x values =
    and_then (vv_eval_operand values (ac_a x)) (\<lambda>a.
    and_then (vv_eval_operand values (ac_b x)) (\<lambda>b.
    and_then (vv_eval_operand values (ac_c x)) (\<lambda>c.
      let residue = (a AND b) XOR c
      in if residue \<noteq> 0 then Err (AndViolation a b c residue) else Ok ())))"

section \<open>Integer products\<close>

datatype imul_constraint =
  ImulConstraint (ic_a: operand) (ic_b: operand) (ic_lo: operand) (ic_hi: operand)

definition imul_operands :: "imul_constraint \<Rightarrow> operand list" where
  "imul_operands x = [ic_a x, ic_b x, ic_lo x, ic_hi x]"

definition imul_operand_names :: "string list" where
  "imul_operand_names = [''a'', ''b'', ''lo'', ''hi'']"

definition imul_verify :: "imul_constraint \<Rightarrow> value_vec \<Rightarrow> (constraint_violation, unit) outcome" where
  "imul_verify x values =
    and_then (vv_eval_operand values (ic_a x)) (\<lambda>a.
    and_then (vv_eval_operand values (ic_b x)) (\<lambda>b.
    and_then (vv_eval_operand values (ic_lo x)) (\<lambda>lo.
    and_then (vv_eval_operand values (ic_hi x)) (\<lambda>hi.
      let product = (ucast a :: u128) * ucast b;
          expected_lo = ucast product :: u64;
          expected_hi = ucast (drop_bit 64 product) :: u64
      in if lo \<noteq> expected_lo \<or> hi \<noteq> expected_hi
         then Err (ImulViolation a b lo hi expected_lo expected_hi)
         else Ok ()))))"

section \<open>Binary-field products\<close>

datatype bmul_constraint =
  BmulConstraint (bc_a_lo: operand) (bc_a_hi: operand) (bc_b_lo: operand) (bc_b_hi: operand)
    (bc_c_lo: operand) (bc_c_hi: operand)

definition bmul_operands :: "bmul_constraint \<Rightarrow> operand list" where
  "bmul_operands x = [bc_a_lo x, bc_a_hi x, bc_b_lo x, bc_b_hi x, bc_c_lo x, bc_c_hi x]"

definition bmul_operand_names :: "string list" where
  "bmul_operand_names = [''a_lo'', ''a_hi'', ''b_lo'', ''b_hi'', ''c_lo'', ''c_hi'']"

definition eval_element :: "value_vec \<Rightarrow> operand \<Rightarrow> operand \<Rightarrow> (constraint_violation, u128) outcome" where
  "eval_element values lo hi =
    and_then (vv_eval_operand values lo) (\<lambda>lo.
    and_then (vv_eval_operand values hi) (\<lambda>hi.
      Ok ((ucast lo :: u128) OR push_bit 64 (ucast hi))))"

definition bmul_verify :: "bmul_constraint \<Rightarrow> value_vec \<Rightarrow> (constraint_violation, unit) outcome" where
  "bmul_verify x values =
    and_then (eval_element values (bc_a_lo x) (bc_a_hi x)) (\<lambda>a.
    and_then (eval_element values (bc_b_lo x) (bc_b_hi x)) (\<lambda>b.
    and_then (eval_element values (bc_c_lo x) (bc_c_hi x)) (\<lambda>c.
      let expected = ghash_mul a b
      in if c \<noteq> expected then Err (BmulViolation a b c expected) else Ok ())))"

section \<open>What a constraint says\<close>

text \<open>
  The relation each kind states of the words its operands denote, over the integers and over
  the quotient ring of polynomials, without reference to how it is checked.
\<close>

definition zero_holds :: "(value_index \<Rightarrow> u64) \<Rightarrow> zero_constraint \<Rightarrow> bool" where
  "zero_holds f z \<longleftrightarrow> operand_val f (zc_val z) = 0"

definition and_holds :: "(value_index \<Rightarrow> u64) \<Rightarrow> and_constraint \<Rightarrow> bool" where
  "and_holds f x \<longleftrightarrow> operand_val f (ac_a x) AND operand_val f (ac_b x) = operand_val f (ac_c x)"

definition imul_holds :: "(value_index \<Rightarrow> u64) \<Rightarrow> imul_constraint \<Rightarrow> bool" where
  "imul_holds f x \<longleftrightarrow>
    unat (operand_val f (ic_a x)) * unat (operand_val f (ic_b x)) =
    unat (operand_val f (ic_hi x)) * 2 ^ 64 + unat (operand_val f (ic_lo x))"

definition element_poly :: "u64 \<Rightarrow> u64 \<Rightarrow> gf2_poly" where
  "element_poly lo hi = poly_of lo + X ^ 64 * poly_of hi"

definition bmul_holds :: "(value_index \<Rightarrow> u64) \<Rightarrow> bmul_constraint \<Rightarrow> bool" where
  "bmul_holds f x \<longleftrightarrow>
    ghash_modulus dvd
      element_poly (operand_val f (bc_a_lo x)) (operand_val f (bc_a_hi x)) *
      element_poly (operand_val f (bc_b_lo x)) (operand_val f (bc_b_hi x)) -
      element_poly (operand_val f (bc_c_lo x)) (operand_val f (bc_c_hi x))"

text \<open>The indices a list of operands names are held by the vector.\<close>

definition reads_held :: "value_vec \<Rightarrow> operand list \<Rightarrow> bool" where
  "reads_held v ops \<longleftrightarrow> (\<forall>opnd \<in> set ops. \<forall>t \<in> set opnd. vv_holds v (value_index t))"

lemma vv_eval_held:
  "\<forall>t \<in> set opnd. vv_holds v (value_index t) \<Longrightarrow> vv_eval_operand v opnd = Ok (operand_val (vv.at v) opnd)"
  by (simp add: vv_eval_operand_def vv.eval_held)

lemma xor_zero_iff: "a XOR b = 0 \<longleftrightarrow> a = (b :: 'a::len word)"
  by (simp add: bit_eq_iff bit_xor_iff)

lemma zero_verify_held:
  assumes "reads_held v (zero_operands z)"
  shows "zero_verify z v \<noteq> Panic" "zero_verify z v = Ok () \<longleftrightarrow> zero_holds (vv.at v) z"
  using assms
  by (auto simp: zero_verify_def reads_held_def zero_operands_def vv_eval_held zero_holds_def)

lemma and_verify_held:
  assumes "reads_held v (and_operands x)"
  shows "and_verify x v \<noteq> Panic" "and_verify x v = Ok () \<longleftrightarrow> and_holds (vv.at v) x"
  using assms
  by (auto simp: and_verify_def reads_held_def and_operands_def vv_eval_held and_holds_def Let_def
      xor_zero_iff)

lemma imul_words_iff:
  fixes a b lo hi :: u64
  defines "product \<equiv> (ucast a :: u128) * ucast b"
  shows "lo = ucast product \<and> hi = ucast (drop_bit 64 product) \<longleftrightarrow>
    unat a * unat b = unat hi * 2 ^ 64 + unat lo"
proof -
  have p: "unat (ucast (drop_bit 64 product) :: u64) * 2 ^ 64 + unat (ucast product :: u64) = unat a * unat b"
    unfolding product_def by (rule product_halves)
  show ?thesis
  proof
    assume *: "unat a * unat b = unat hi * 2 ^ 64 + unat lo"
    have e: "unat hi * 2 ^ 64 + unat lo =
        unat (ucast (drop_bit 64 product) :: u64) * 2 ^ 64 + unat (ucast product :: u64)"
      by (simp only: * [symmetric] p)
    have b: "unat lo < 2 ^ 64" "unat (ucast product :: u64) < 2 ^ 64"
      using unsigned_less[of lo, where 'a = nat] unsigned_less[of "ucast product :: u64", where 'a = nat]
      by simp_all
    have "unat hi = unat (ucast (drop_bit 64 product) :: u64)" "unat lo = unat (ucast product :: u64)"
      using arg_cong[OF e, of "\<lambda>x. x div 2 ^ 64"] arg_cong[OF e, of "\<lambda>x. x mod 2 ^ 64"] b by simp_all
    then show "lo = ucast product \<and> hi = ucast (drop_bit 64 product)" by (simp add: word_unat_eq_iff)
  qed (use p in auto)
qed

lemma imul_verify_held:
  assumes "reads_held v (imul_operands x)"
  shows "imul_verify x v \<noteq> Panic" "imul_verify x v = Ok () \<longleftrightarrow> imul_holds (vv.at v) x"
proof -
  have r: "imul_verify x v =
    (let product = (ucast (operand_val (vv.at v) (ic_a x)) :: u128) * ucast (operand_val (vv.at v) (ic_b x));
         lo = operand_val (vv.at v) (ic_lo x); hi = operand_val (vv.at v) (ic_hi x)
     in if lo = ucast product \<and> hi = ucast (drop_bit 64 product) then Ok ()
        else Err (ImulViolation (operand_val (vv.at v) (ic_a x)) (operand_val (vv.at v) (ic_b x)) lo hi
          (ucast product) (ucast (drop_bit 64 product))))"
    using assms by (auto simp: imul_verify_def reads_held_def imul_operands_def vv_eval_held Let_def)
  show "imul_verify x v \<noteq> Panic" by (simp add: r Let_def)
  show "imul_verify x v = Ok () \<longleftrightarrow> imul_holds (vv.at v) x"
    unfolding r Let_def imul_holds_def imul_words_iff[symmetric] by simp
qed

lemma poly_of_element:
  "poly_of ((ucast lo :: u128) OR push_bit 64 (ucast hi)) = element_poly lo (hi :: u64)"
  using poly_of_join[of hi lo] by (simp add: join_u64s_def element_poly_def or.commute)

lemma eval_element_held:
  assumes "\<forall>t \<in> set lo. vv_holds v (value_index t)" "\<forall>t \<in> set hi. vv_holds v (value_index t)"
  shows "eval_element v lo hi =
    Ok ((ucast (operand_val (vv.at v) lo) :: u128) OR push_bit 64 (ucast (operand_val (vv.at v) hi)))"
  using assms by (simp add: eval_element_def vv_eval_held)

lemma bmul_verify_held:
  assumes "reads_held v (bmul_operands x)"
  shows "bmul_verify x v \<noteq> Panic" "bmul_verify x v = Ok () \<longleftrightarrow> bmul_holds (vv.at v) x"
proof -
  define e where "e = (\<lambda>lo hi. (ucast (operand_val (vv.at v) lo) :: u128) OR
    push_bit 64 (ucast (operand_val (vv.at v) hi)))"
  define a b c where abc: "a = e (bc_a_lo x) (bc_a_hi x)" "b = e (bc_b_lo x) (bc_b_hi x)"
    "c = e (bc_c_lo x) (bc_c_hi x)"
  have r: "bmul_verify x v = (if ghash_mul a b = c then Ok () else Err (BmulViolation a b c (ghash_mul a b)))"
    using assms
    by (auto simp: bmul_verify_def reads_held_def bmul_operands_def eval_element_held abc e_def Let_def)
  show "bmul_verify x v \<noteq> Panic" by (simp add: r)
  have "ghash_mul a b = c \<longleftrightarrow> ghash_modulus dvd poly_of a * poly_of b - poly_of c"
    using ghash_mul_eqI ghash_mul_poly by blast
  then show "bmul_verify x v = Ok () \<longleftrightarrow> bmul_holds (vv.at v) x"
    by (simp add: r abc e_def bmul_holds_def poly_of_element)
qed

lemma verify_kinds:
  "zero_verify z v = Err w \<Longrightarrow> violation_kind w = ZeroKind"
  "and_verify x v = Err w \<Longrightarrow> violation_kind w = AndKind"
  "imul_verify y v = Err w \<Longrightarrow> violation_kind w = ImulKind"
  "bmul_verify u v = Err w \<Longrightarrow> violation_kind w = BmulKind"
  by (auto simp: zero_verify_def and_verify_def imul_verify_def bmul_verify_def eval_element_def
      vv_eval_operand_def outcome_simps Let_def split: if_splits)

section \<open>Properties of constraints\<close>

text \<open>C31: On a vector that holds the words its operands name, checking a multiplication
  constraint never panics and accepts exactly when the stated product holds: over the integers
  for IMUL, over the polynomials modulo the GHASH polynomial for BMUL.\<close>

theorem mul_constraints_checked:
  assumes "reads_held v (imul_operands x @ bmul_operands y)"
  shows "imul_verify x v \<noteq> Panic \<and> bmul_verify y v \<noteq> Panic \<and>
    (imul_verify x v = Ok () \<longleftrightarrow> imul_holds (vv.at v) x) \<and>
    (bmul_verify y v = Ok () \<longleftrightarrow> bmul_holds (vv.at v) y)"
proof -
  have "reads_held v (imul_operands x)" "reads_held v (bmul_operands y)"
    using assms by (auto simp: reads_held_def)
  then show ?thesis using imul_verify_held bmul_verify_held by blast
qed

theorem mul_constraints_checked_witness:
  "let v = \<lparr>vv_n_const = 1, vv_n_public_values = 1, vv_n_private = 1,
        vv_data = \<lparr>blocks = [(2, 4)], aw_len = 2\<rparr>\<rparr>;
      two = [svi_plain (ValueIndex 0)]; four = [svi_plain (ValueIndex 0x80000000)];
      x = ImulConstraint two two four []; y = BmulConstraint two [] two [] four []
   in imul_verify x v \<noteq> Panic \<and> bmul_verify y v \<noteq> Panic \<and>
    (imul_verify x v = Ok () \<longleftrightarrow> imul_holds (vv.at v) x) \<and>
    (bmul_verify y v = Ok () \<longleftrightarrow> bmul_holds (vv.at v) y)"
  unfolding Let_def
  by (rule mul_constraints_checked)
    (simp add: reads_held_def imul_operands_def bmul_operands_def vv_holds_def vv_wf_def vv_size_def
      vv_segment_len_def aw_ok_def aw_deref_def vi_segment_def vi_index_def segment_from_tag_def
      svi_plain_def svi_single_def svi_new_def unat_and_mask)

end
