(* ===== verification/Constraint_System.thy ===== *)
theory Constraint_System
  imports Constraint Checked_Arith Value_Table
begin

text \<open>
  Constraint systems (\<open>system.rs\<close>, with the shape a layout gives one in \<open>layout.rs\<close>): the
  counts of the segments, the validation of every operand, and the check of a value vector.
\<close>

datatype inout_segment = PublicInout | HiddenInout

record constraint_system =
  constants :: "u64 list"
  n_inout :: nat
  n_private :: nat
  zero_constraints :: "zero_constraint list"
  and_constraints :: "and_constraint list"
  imul_constraints :: "imul_constraint list"
  bmul_constraints :: "bmul_constraint list"

datatype operand_fault_t =
  NonCanonicalShift
| ShiftAmountTooLarge nat nat
| NonCanonicalShiftSequence
| CollapsibleShiftSequence composition
| ScratchValueIndex
| OutOfRangeValueIndex value_segment u32 nat

datatype constraint_system_error =
  SegmentTooLarge value_segment nat
| ConstraintOperand constraint_kind nat string operand_fault_t
| ChipCallOperand nat nat operand_fault_t
| OutOfRangeChipId "nat option" nat nat
| WrongCallArity "nat option" nat nat nat nat
| CallOutOfOrder nat nat
| WrongCallInstance "nat option" nat nat nat
| WrongActiveInstanceCount nat nat nat
| TooManyInstances nat

datatype verification_error =
  ConstantMismatch u32 u64 u64
| Unsatisfied nat constraint_violation

definition SERIALIZATION_VERSION :: u32 where "SERIALIZATION_VERSION = 10"
definition MAX_VALUES_PER_SEGMENT :: nat where "MAX_VALUES_PER_SEGMENT = 2 ^ 26"

section \<open>Shape\<close>

definition cs_n_const :: "constraint_system \<Rightarrow> nat" where
  "cs_n_const cs = length (constants cs)"

definition cs_offset_inout :: "constraint_system \<Rightarrow> nat" where
  "cs_offset_inout cs = cs_n_const cs"

definition cs_n_public_values :: "constraint_system \<Rightarrow> nat" where
  "cs_n_public_values cs = cs_n_const cs + n_inout cs"

fun cs_n_public_words :: "constraint_system \<Rightarrow> inout_segment \<Rightarrow> nat" where
  "cs_n_public_words cs PublicInout = cs_n_public_values cs"
| "cs_n_public_words cs HiddenInout = cs_n_const cs"

definition cs_log_public_words :: "constraint_system \<Rightarrow> inout_segment \<Rightarrow> nat" where
  "cs_log_public_words cs inout = log2_ceil_usize (cs_n_public_words cs inout)"

fun cs_n_hidden_words :: "constraint_system \<Rightarrow> inout_segment \<Rightarrow> nat" where
  "cs_n_hidden_words cs PublicInout = n_private cs"
| "cs_n_hidden_words cs HiddenInout = n_inout cs + n_private cs"

definition cs_log_witness_words :: "constraint_system \<Rightarrow> inout_segment \<Rightarrow> nat" where
  "cs_log_witness_words cs inout = log2_ceil_usize (cs_n_hidden_words cs inout)"

definition cs_log_segment_words :: "constraint_system \<Rightarrow> inout_segment \<Rightarrow> nat" where
  "cs_log_segment_words cs inout =
    (if cs_log_public_words cs inout > cs_log_witness_words cs inout
     then cs_log_public_words cs inout else cs_log_witness_words cs inout)"

fun cs_segment_len :: "constraint_system \<Rightarrow> value_segment \<Rightarrow> nat" where
  "cs_segment_len cs Constant = cs_n_const cs"
| "cs_segment_len cs InOut = n_inout cs"
| "cs_segment_len cs Private = n_private cs"
| "cs_segment_len cs Scratch = 0"

definition cs_value_vec_len :: "constraint_system \<Rightarrow> nat" where
  "cs_value_vec_len cs = cs_n_public_values cs + n_private cs"

definition cs_word_offset :: "constraint_system \<Rightarrow> value_index \<Rightarrow> nat" where
  "cs_word_offset cs index =
    (case vi_segment index of
       Constant \<Rightarrow> 0
     | InOut \<Rightarrow> cs_offset_inout cs
     | Private \<Rightarrow> cs_n_public_values cs
     | Scratch \<Rightarrow> cs_value_vec_len cs) + unat (vi_index index)"

definition cs_value_vec_from_data :: "constraint_system \<Rightarrow> u64 list \<Rightarrow> u64 list \<Rightarrow> value_vec option" where
  "cs_value_vec_from_data cs inout priv = vv_new_from_data (cs_n_const cs) (constants cs @ inout) priv"

definition cs_n_zero_constraints :: "constraint_system \<Rightarrow> nat" where
  "cs_n_zero_constraints cs = length (zero_constraints cs)"
definition cs_n_and_constraints :: "constraint_system \<Rightarrow> nat" where
  "cs_n_and_constraints cs = length (and_constraints cs)"
definition cs_n_imul_constraints :: "constraint_system \<Rightarrow> nat" where
  "cs_n_imul_constraints cs = length (imul_constraints cs)"
definition cs_n_bmul_constraints :: "constraint_system \<Rightarrow> nat" where
  "cs_n_bmul_constraints cs = length (bmul_constraints cs)"

definition cs_log_zero_constraints :: "constraint_system \<Rightarrow> nat option" where
  "cs_log_zero_constraints cs =
    (let n = cs_n_zero_constraints cs in if n = 0 then None else Some (log2_ceil_usize n))"
definition cs_log_and_constraints :: "constraint_system \<Rightarrow> nat option" where
  "cs_log_and_constraints cs =
    (let n = cs_n_and_constraints cs in if n = 0 then None else Some (log2_ceil_usize n))"
definition cs_log_imul_constraints :: "constraint_system \<Rightarrow> nat option" where
  "cs_log_imul_constraints cs =
    (let n = cs_n_imul_constraints cs in if n = 0 then None else Some (log2_ceil_usize n))"
definition cs_log_bmul_constraints :: "constraint_system \<Rightarrow> nat option" where
  "cs_log_bmul_constraints cs =
    (let n = cs_n_bmul_constraints cs in if n = 0 then None else Some (log2_ceil_usize n))"

text \<open>The empty system a layout realises; the assertion is on the number of constants.\<close>

definition constraint_system_shape :: "value_vec_layout \<Rightarrow> u64 list \<Rightarrow> constraint_system option" where
  "constraint_system_shape l cnst =
    (if length cnst = lay_n_const l
     then Some \<lparr>constants = cnst, n_inout = lay_n_inout l, n_private = lay_n_private l,
       zero_constraints = [], and_constraints = [], imul_constraints = [], bmul_constraints = []\<rparr>
     else None)"

section \<open>Validation\<close>

text \<open>The checks on one shift of a term, then on the whole term; \<open>Err\<close> is the first fault.\<close>

definition shift_fault :: "shift \<Rightarrow> (operand_fault_t, unit) outcome" where
  "shift_fault s =
    (if \<not> is_canonical s then Err NonCanonicalShift
     else if unat (amount s) \<ge> max_amount (variant s)
       then Err (ShiftAmountTooLarge (unat (amount s)) (max_amount (variant s)))
     else Ok ())"

definition sequence_fault :: "shifted_value_index \<Rightarrow> (operand_fault_t, unit) outcome" where
  "sequence_fault t =
    (if is_unshifted t \<and> is_doubly_shifted t then Err NonCanonicalShiftSequence
     else if is_doubly_shifted t then
       and_then (or_panic (compose (svi_inner t) (svi_outer t))) (\<lambda>composition.
         if composition \<noteq> CompPair then Err (CollapsibleShiftSequence composition) else Ok ())
     else Ok ())"

definition index_fault :: "constraint_system \<Rightarrow> value_index \<Rightarrow> (operand_fault_t, unit) outcome" where
  "index_fault cs v =
    (let segment = vi_segment v; segment_len = cs_segment_len cs segment
     in if \<not> is_referenceable segment then Err ScratchValueIndex
        else if unat (vi_index v) \<ge> segment_len
          then Err (OutOfRangeValueIndex segment (vi_index v) segment_len)
        else Ok ())"

definition term_fault :: "constraint_system \<Rightarrow> shifted_value_index \<Rightarrow> (operand_fault_t, unit) outcome" where
  "term_fault cs t =
    and_then (shift_fault (svi_inner t)) (\<lambda>_.
    and_then (shift_fault (svi_outer t)) (\<lambda>_.
    and_then (sequence_fault t) (\<lambda>_.
      index_fault cs (value_index t))))"

definition operand_fault :: "constraint_system \<Rightarrow> operand \<Rightarrow> (operand_fault_t, unit) outcome" where
  "operand_fault cs opnd = for_enum 0 (\<lambda>_. term_fault cs) opnd"

definition validate_operand ::
  "constraint_system \<Rightarrow> operand \<Rightarrow> constraint_kind \<Rightarrow> nat \<Rightarrow> string \<Rightarrow> (constraint_system_error, unit) outcome" where
  "validate_operand cs opnd kind i name =
    map_err (ConstraintOperand kind i name) (operand_fault cs opnd)"

definition validate_constraints ::
  "constraint_system \<Rightarrow> ('c \<Rightarrow> operand list) \<Rightarrow> 'c list \<Rightarrow> constraint_kind \<Rightarrow> string list \<Rightarrow>
    (constraint_system_error, unit) outcome" where
  "validate_constraints cs as_ref cons kind names =
    for_enum 0 (\<lambda>i c.
      for_enum 0 (\<lambda>_ (opnd, name). validate_operand cs opnd kind i name) (zip (as_ref c) names)) cons"

definition validate_segments :: "constraint_system \<Rightarrow> (constraint_system_error, unit) outcome" where
  "validate_segments cs =
    for_enum 0 (\<lambda>_ segment.
      let len = cs_segment_len cs segment
      in if len > MAX_VALUES_PER_SEGMENT then Err (SegmentTooLarge segment len) else Ok ())
      [InOut, Private]"

definition cs_validate :: "constraint_system \<Rightarrow> (constraint_system_error, unit) outcome" where
  "cs_validate cs =
    and_then (validate_segments cs) (\<lambda>_.
    and_then (validate_constraints cs zero_operands (zero_constraints cs) ZeroKind zero_operand_names) (\<lambda>_.
    and_then (validate_constraints cs and_operands (and_constraints cs) AndKind and_operand_names) (\<lambda>_.
    and_then (validate_constraints cs imul_operands (imul_constraints cs) ImulKind imul_operand_names) (\<lambda>_.
      validate_constraints cs bmul_operands (bmul_constraints cs) BmulKind bmul_operand_names))))"

section \<open>Verification\<close>

definition verify_constant :: "value_vec \<Rightarrow> nat \<Rightarrow> u64 \<Rightarrow> (verification_error, unit) outcome" where
  "verify_constant values i constant =
    (let value_index = word_of_nat i
     in and_then (or_panic (vi_constant value_index)) (\<lambda>index.
        and_then (or_panic (vv_get values index)) (\<lambda>actual.
          if actual \<noteq> constant then Err (ConstantMismatch value_index constant actual) else Ok ())))"

definition verify_all ::
  "('c \<Rightarrow> value_vec \<Rightarrow> (constraint_violation, unit) outcome) \<Rightarrow> value_vec \<Rightarrow> 'c list \<Rightarrow>
    (verification_error, unit) outcome" where
  "verify_all check values cons = for_enum 0 (\<lambda>i c. map_err (Unsatisfied i) (check c values)) cons"

definition cs_verify :: "constraint_system \<Rightarrow> value_vec \<Rightarrow> (verification_error, unit) outcome" where
  "cs_verify cs values =
    and_then (for_enum 0 (verify_constant values) (constants cs)) (\<lambda>_.
    and_then (verify_all zero_verify values (zero_constraints cs)) (\<lambda>_.
    and_then (verify_all and_verify values (and_constraints cs)) (\<lambda>_.
    and_then (verify_all imul_verify values (imul_constraints cs)) (\<lambda>_.
      verify_all bmul_verify values (bmul_constraints cs)))))"

section \<open>Well-formed systems\<close>

text \<open>What validation promises, stated of the terms and counts alone.\<close>

definition shift_wf :: "shift \<Rightarrow> bool" where
  "shift_wf s \<longleftrightarrow> is_canonical s \<and> valid_shift s"

definition term_wf :: "constraint_system \<Rightarrow> shifted_value_index \<Rightarrow> bool" where
  "term_wf cs t \<longleftrightarrow>
    shift_wf (svi_inner t) \<and> shift_wf (svi_outer t) \<and>
    (svi_outer t = IDENTITY \<or> compose (svi_inner t) (svi_outer t) = Some CompPair) \<and>
    vi_segment (value_index t) \<noteq> Scratch \<and>
    unat (vi_index (value_index t)) < cs_segment_len cs (vi_segment (value_index t))"

definition operand_wf :: "constraint_system \<Rightarrow> operand \<Rightarrow> bool" where
  "operand_wf cs opnd \<longleftrightarrow> (\<forall>t \<in> set opnd. term_wf cs t)"

definition system_operands :: "constraint_system \<Rightarrow> operand list" where
  "system_operands cs =
    concat (map zero_operands (zero_constraints cs)) @ concat (map and_operands (and_constraints cs)) @
    concat (map imul_operands (imul_constraints cs)) @ concat (map bmul_operands (bmul_constraints cs))"

definition system_wf :: "constraint_system \<Rightarrow> bool" where
  "system_wf cs \<longleftrightarrow> n_inout cs \<le> 2 ^ 26 \<and> n_private cs \<le> 2 ^ 26 \<and>
    (\<forall>opnd \<in> set (system_operands cs). operand_wf cs opnd)"

lemma canonical_identity: "is_canonical s \<Longrightarrow> is_identity s \<longleftrightarrow> s = IDENTITY"
  by (auto simp: is_canonical_def is_identity_def IDENTITY_def)

lemma shift_fault_Ok: "shift_fault s = Ok () \<longleftrightarrow> shift_wf s"
  by (auto simp: shift_fault_def shift_wf_def valid_shift_def)

lemma shift_fault_total [simp]: "shift_fault s \<noteq> Panic"
  by (simp add: shift_fault_def)

lemma sequence_fault_wf:
  assumes "shift_wf (svi_inner t)" "shift_wf (svi_outer t)"
  shows "sequence_fault t \<noteq> Panic"
    "sequence_fault t = Ok () \<longleftrightarrow>
      svi_outer t = IDENTITY \<or> compose (svi_inner t) (svi_outer t) = Some CompPair"
proof -
  obtain c where c: "compose (svi_inner t) (svi_outer t) = Some c"
    "composition_sound (svi_inner t) (svi_outer t) c"
    using compose_sound assms by (auto simp: shift_wf_def)
  have o': "is_doubly_shifted t \<longleftrightarrow> svi_outer t \<noteq> IDENTITY"
    using assms(2) canonical_identity by (auto simp: is_doubly_shifted_def shift_wf_def)
  have i: "is_unshifted t \<Longrightarrow> c \<noteq> CompPair"
    using c by (auto simp: is_unshifted_def compose_def)
  show "sequence_fault t \<noteq> Panic"
    using c by (simp add: sequence_fault_def)
  show "sequence_fault t = Ok () \<longleftrightarrow>
      svi_outer t = IDENTITY \<or> compose (svi_inner t) (svi_outer t) = Some CompPair"
    using c i o' by (auto simp: sequence_fault_def)
qed

lemma index_fault_Ok:
  "index_fault cs v = Ok () \<longleftrightarrow>
    vi_segment v \<noteq> Scratch \<and> unat (vi_index v) < cs_segment_len cs (vi_segment v)"
  by (auto simp: index_fault_def is_referenceable_def Let_def)

lemma index_fault_total [simp]: "index_fault cs v \<noteq> Panic"
  by (simp add: index_fault_def Let_def)

lemma term_fault_spec: "term_fault cs t \<noteq> Panic" "term_fault cs t = Ok () \<longleftrightarrow> term_wf cs t"
  using sequence_fault_wf[of t]
  by (auto simp: term_fault_def term_wf_def outcome_simps shift_fault_Ok index_fault_Ok)

lemma operand_fault_spec: "operand_fault cs opnd \<noteq> Panic" "operand_fault cs opnd = Ok () \<longleftrightarrow> operand_wf cs opnd"
  unfolding operand_fault_def
  by (rule for_enum_no_panic) (simp_all add: term_fault_spec for_enum_eq_Ok operand_wf_def all_set_conv_all_nth)

lemma validate_operand_spec:
  "validate_operand cs opnd k i name \<noteq> Panic"
  "validate_operand cs opnd k i name = Ok () \<longleftrightarrow> operand_wf cs opnd"
  by (simp_all add: validate_operand_def outcome_simps operand_fault_spec)

lemma validate_constraints_spec:
  assumes "\<And>c. c \<in> set cons \<Longrightarrow> length (as_ref c) = length names"
  shows "validate_constraints cs as_ref cons k names \<noteq> Panic"
    "validate_constraints cs as_ref cons k names = Ok () \<longleftrightarrow>
      (\<forall>opnd \<in> set (concat (map as_ref cons)). operand_wf cs opnd)"
proof -
  have inner: "for_enum 0 (\<lambda>_ (opnd, name). validate_operand cs opnd k i name) (zip (as_ref c) names) = Ok ()
      \<longleftrightarrow> (\<forall>opnd \<in> set (as_ref c). operand_wf cs opnd)" if "c \<in> set cons" for i c
    using assms[OF that] by (simp add: for_enum_eq_Ok validate_operand_spec all_set_conv_all_nth)
  show "validate_constraints cs as_ref cons k names \<noteq> Panic"
    unfolding validate_constraints_def
    by (intro for_enum_no_panic) (simp add: validate_operand_spec)
  show "validate_constraints cs as_ref cons k names = Ok () \<longleftrightarrow>
      (\<forall>opnd \<in> set (concat (map as_ref cons)). operand_wf cs opnd)"
  proof -
    have "validate_constraints cs as_ref cons k names = Ok () \<longleftrightarrow>
        (\<forall>i < length cons. \<forall>opnd \<in> set (as_ref (cons ! i)). operand_wf cs opnd)"
      unfolding validate_constraints_def for_enum_eq_Ok[of _ _ cons]
      by (simp only: inner nth_mem cong: imp_cong)
    then show ?thesis by (auto simp: all_set_conv_all_nth[of cons])
  qed
qed

lemma arity_lengths:
  "length (zero_operands z) = length zero_operand_names"
  "length (and_operands a) = length and_operand_names"
  "length (imul_operands i) = length imul_operand_names"
  "length (bmul_operands b) = length bmul_operand_names"
  by (simp_all add: zero_operands_def zero_operand_names_def and_operands_def and_operand_names_def
      imul_operands_def imul_operand_names_def bmul_operands_def bmul_operand_names_def)

lemmas validate_kinds = validate_constraints_spec[where as_ref = zero_operands, OF arity_lengths(1)]
  validate_constraints_spec[where as_ref = and_operands, OF arity_lengths(2)]
  validate_constraints_spec[where as_ref = imul_operands, OF arity_lengths(3)]
  validate_constraints_spec[where as_ref = bmul_operands, OF arity_lengths(4)]

lemma cs_validate_spec: "cs_validate cs \<noteq> Panic" "cs_validate cs = Ok () \<longleftrightarrow> system_wf cs"
proof -
  have seg: "validate_segments cs = Ok () \<longleftrightarrow> n_inout cs \<le> 2 ^ 26 \<and> n_private cs \<le> 2 ^ 26"
    "validate_segments cs \<noteq> Panic"
    by (simp_all add: validate_segments_def MAX_VALUES_PER_SEGMENT_def Let_def not_less)
  show "cs_validate cs \<noteq> Panic"
    by (simp add: cs_validate_def outcome_simps validate_kinds seg)
  show "cs_validate cs = Ok () \<longleftrightarrow> system_wf cs"
    by (auto simp: cs_validate_def outcome_simps validate_kinds seg system_wf_def system_operands_def)
qed

section \<open>Vectors of the shape of a system\<close>

definition vv_shaped :: "constraint_system \<Rightarrow> value_vec \<Rightarrow> bool" where
  "vv_shaped cs v \<longleftrightarrow> vv_wf v \<and> vv_n_const v = cs_n_const cs \<and>
    vv_n_public_values v = cs_n_public_values cs \<and> vv_n_private v = n_private cs"

lemma term_wf_held: "vv_shaped cs v \<Longrightarrow> term_wf cs t \<Longrightarrow> vv_holds v (value_index t)"
  by (cases "vi_segment (value_index t)")
    (auto simp: vv_shaped_def term_wf_def vv_holds_def vv_segment_len_def cs_n_public_values_def)

lemma operands_wf_held:
  "vv_shaped cs v \<Longrightarrow> \<forall>opnd \<in> set ops. operand_wf cs opnd \<Longrightarrow> reads_held v ops"
  by (auto simp: reads_held_def operand_wf_def term_wf_held)

text \<open>The relations a system states of a valuation of its indices.\<close>

definition constraints_hold :: "(value_index \<Rightarrow> u64) \<Rightarrow> constraint_system \<Rightarrow> bool" where
  "constraints_hold f cs \<longleftrightarrow>
    (\<forall>z \<in> set (zero_constraints cs). zero_holds f z) \<and> (\<forall>a \<in> set (and_constraints cs). and_holds f a) \<and>
    (\<forall>i \<in> set (imul_constraints cs). imul_holds f i) \<and> (\<forall>b \<in> set (bmul_constraints cs). bmul_holds f b)"

definition constants_open :: "value_vec \<Rightarrow> constraint_system \<Rightarrow> bool" where
  "constants_open v cs \<longleftrightarrow> (\<forall>i < cs_n_const cs. vv_words v ! i = constants cs ! i)"

lemma verify_all_spec:
  assumes "\<And>c. c \<in> set cons \<Longrightarrow> check c v \<noteq> Panic"
    and "\<And>c. c \<in> set cons \<Longrightarrow> check c v = Ok () \<longleftrightarrow> P c"
  shows "verify_all check v cons \<noteq> Panic" "verify_all check v cons = Ok () \<longleftrightarrow> (\<forall>c \<in> set cons. P c)"
proof -
  show "verify_all check v cons \<noteq> Panic"
    unfolding verify_all_def by (rule for_enum_no_panic) (simp add: outcome_simps assms(1))
  show "verify_all check v cons = Ok () \<longleftrightarrow> (\<forall>c \<in> set cons. P c)"
    by (auto simp: verify_all_def for_enum_eq_Ok outcome_simps all_set_conv_all_nth assms(2))
qed

lemma verify_constant_step:
  assumes "vv_shaped cs v" "i < cs_n_const cs" "i < 2 ^ 30"
  shows "verify_constant v i c = (if vv_words v ! i = c then Ok () else
      Err (ConstantMismatch (word_of_nat i) c (vv_words v ! i)))"
proof -
  obtain index where index: "vi_constant (word_of_nat i) = Some index" "vi_segment index = Constant"
    "unat (vi_index index) = i"
    using vi_constant_nat[OF assms(3)] by auto
  have "i < length (vv_words v)"
    using assms by (auto simp: vv_shaped_def vv_wf_def vv_size_def cs_n_public_values_def)
  then have "vv_get v index = Some (vv_words v ! i)"
    using index by (simp add: vv_get_def vv_word_offset_def read_at_def)
  with index show ?thesis by (simp add: verify_constant_def Let_def)
qed

lemma verify_constants_spec:
  assumes "vv_shaped cs v" "cs_n_const cs \<le> 2 ^ 30"
  shows "for_enum 0 (verify_constant v) (constants cs) \<noteq> Panic"
    "for_enum 0 (verify_constant v) (constants cs) = Ok () \<longleftrightarrow> constants_open v cs"
proof -
  have step: "verify_constant v i c = (if vv_words v ! i = c then Ok () else
      Err (ConstantMismatch (word_of_nat i) c (vv_words v ! i)))" if "i < cs_n_const cs" for i c
    by (rule verify_constant_step[OF assms(1) that]) (use that assms(2) in simp)
  show "for_enum 0 (verify_constant v) (constants cs) \<noteq> Panic"
    by (rule for_enum_no_panic) (simp add: step cs_n_const_def)
  show "for_enum 0 (verify_constant v) (constants cs) = Ok () \<longleftrightarrow> constants_open v cs"
    by (auto simp: for_enum_eq_Ok step cs_n_const_def constants_open_def)
qed

lemma cs_verify_spec:
  assumes "system_wf cs" "vv_shaped cs v" "cs_n_const cs \<le> 2 ^ 30"
  shows "cs_verify cs v \<noteq> Panic"
    "cs_verify cs v = Ok () \<longleftrightarrow> constants_open v cs \<and> constraints_hold (vv.at v) cs"
proof -
  have held: "reads_held v (as_ref c)" if "c \<in> set cons"
    "set (concat (map as_ref cons)) \<subseteq> set (system_operands cs)"
    for as_ref :: "'c \<Rightarrow> operand list" and cons c
    by (rule operands_wf_held[OF assms(2)]) (use that assms(1) in \<open>auto simp: system_wf_def\<close>)
  have z: "reads_held v (zero_operands c)" if "c \<in> set (zero_constraints cs)" for c
    by (rule held[OF that]) (auto simp: system_operands_def)
  have a: "reads_held v (and_operands c)" if "c \<in> set (and_constraints cs)" for c
    by (rule held[OF that]) (auto simp: system_operands_def)
  have i: "reads_held v (imul_operands c)" if "c \<in> set (imul_constraints cs)" for c
    by (rule held[OF that]) (auto simp: system_operands_def)
  have b: "reads_held v (bmul_operands c)" if "c \<in> set (bmul_constraints cs)" for c
    by (rule held[OF that]) (auto simp: system_operands_def)
  note zs = verify_all_spec[where check = zero_verify and v = v, OF zero_verify_held[OF z]]
  note as = verify_all_spec[where check = and_verify and v = v, OF and_verify_held[OF a]]
  note im = verify_all_spec[where check = imul_verify and v = v, OF imul_verify_held[OF i]]
  note bs = verify_all_spec[where check = bmul_verify and v = v, OF bmul_verify_held[OF b]]
  show "cs_verify cs v \<noteq> Panic"
    by (simp add: cs_verify_def outcome_simps zs as im bs verify_constants_spec[OF assms(2,3)])
  show "cs_verify cs v = Ok () \<longleftrightarrow> constants_open v cs \<and> constraints_hold (vv.at v) cs"
    by (simp add: cs_verify_def outcome_simps zs as im bs verify_constants_spec[OF assms(2,3)]
        constraints_hold_def)
qed

section \<open>Instances of a system\<close>

text \<open>The word an index names when the constants come from the system and the inout and private
  words from the caller.\<close>

definition instance_word :: "constraint_system \<Rightarrow> u64 list \<Rightarrow> u64 list \<Rightarrow> value_index \<Rightarrow> u64" where
  "instance_word cs inout priv index =
    (case vi_segment index of
       Constant \<Rightarrow> constants cs ! unat (vi_index index)
     | InOut \<Rightarrow> inout ! unat (vi_index index)
     | Private \<Rightarrow> priv ! unat (vi_index index)
     | Scratch \<Rightarrow> 0)"

lemma operand_val_cong:
  "(\<And>t. t \<in> set opnd \<Longrightarrow> f (value_index t) = g (value_index t)) \<Longrightarrow> operand_val f opnd = operand_val g opnd"
  by (induction opnd) (auto simp: svi_val_def)

lemma constraints_hold_cong:
  assumes "\<And>opnd t. opnd \<in> set (system_operands cs) \<Longrightarrow> t \<in> set opnd \<Longrightarrow> f (value_index t) = g (value_index t)"
  shows "constraints_hold f cs \<longleftrightarrow> constraints_hold g cs"
proof -
  have v: "opnd \<in> set (system_operands cs) \<Longrightarrow> operand_val f opnd = operand_val g opnd" for opnd
    by (rule operand_val_cong) (rule assms)
  have "zero_holds f z = zero_holds g z" if "z \<in> set (zero_constraints cs)" for z
    unfolding zero_holds_def
    by (subst v) (use that in \<open>auto simp: system_operands_def zero_operands_def\<close>)
  moreover have "and_holds f a = and_holds g a" if "a \<in> set (and_constraints cs)" for a
    unfolding and_holds_def
    by (subst (1 2 3) v) (use that in \<open>auto simp: system_operands_def and_operands_def\<close>)
  moreover have "imul_holds f i = imul_holds g i" if "i \<in> set (imul_constraints cs)" for i
    unfolding imul_holds_def
    by (subst (1 2 3 4) v) (use that in \<open>auto simp: system_operands_def imul_operands_def\<close>)
  moreover have "bmul_holds f b = bmul_holds g b" if "b \<in> set (bmul_constraints cs)" for b
    unfolding bmul_holds_def
    by (subst (1 2 3 4 5 6) v) (use that in \<open>auto simp: system_operands_def bmul_operands_def\<close>)
  ultimately show ?thesis by (simp add: constraints_hold_def)
qed

lemma cs_value_vec_from_data_Some:
  assumes "length inout = n_inout cs" "length priv = n_private cs"
  shows "\<exists>v. cs_value_vec_from_data cs inout priv = Some v \<and> vv_shaped cs v \<and>
    vv_words v = constants cs @ inout @ priv"
  using vv_new_from_data_Some[of "cs_n_const cs" "constants cs @ inout" priv] assms
  by (auto simp: cs_value_vec_from_data_def vv_shaped_def cs_n_public_values_def cs_n_const_def)

lemma instance_word_at:
  assumes "vv_shaped cs v" "vv_words v = constants cs @ inout @ priv" "length inout = n_inout cs"
    and "length priv = n_private cs" "term_wf cs t"
  shows "vv.at v (value_index t) = instance_word cs inout priv (value_index t)"
proof -
  let ?i = "value_index t"
  have seg: "vv_n_const v = length (constants cs)" "vv_n_public_values v = length (constants cs) + n_inout cs"
    "vv_size v = length (constants cs) + n_inout cs + n_private cs"
    using assms(1) by (auto simp: vv_shaped_def vv_size_def cs_n_public_values_def cs_n_const_def)
  have "vv_get v ?i = Some (instance_word cs inout priv ?i)"
    using assms(2-5) seg
    by (cases "vi_segment ?i")
      (auto simp: term_wf_def vv_get_def read_at_def vv_word_offset_def instance_word_def nth_append
        cs_n_const_def)
  then show ?thesis by (simp add: vv.at_def)
qed

section \<open>Properties of constraint systems\<close>

text \<open>C1: Validation never panics, whatever the system, and accepts exactly the well-formed ones:
  bounded inout and private counts, and every term of every operand with canonical shifts in
  range, no collapsible or misplaced pair, and an index inside a committed segment.\<close>

theorem validate_exact: "cs_validate cs \<noteq> Panic \<and> (cs_validate cs = Ok () \<longleftrightarrow> system_wf cs)"
  by (simp add: cs_validate_spec)

lemma built_verify:
  assumes "cs_validate cs = Ok ()" "length inout = n_inout cs" "length priv = n_private cs"
    and "length (constants cs) \<le> 2 ^ 30"
  shows "\<exists>v. cs_value_vec_from_data cs inout priv = Some v \<and> cs_verify cs v \<noteq> Panic \<and>
    (cs_verify cs v = Ok () \<longleftrightarrow> constraints_hold (instance_word cs inout priv) cs)"
proof -
  have wf: "system_wf cs" using assms(1) by (simp add: cs_validate_spec)
  obtain v where v: "cs_value_vec_from_data cs inout priv = Some v" "vv_shaped cs v"
    "vv_words v = constants cs @ inout @ priv"
    using cs_value_vec_from_data_Some[OF assms(2,3)] by blast
  have "constants_open v cs" by (simp add: constants_open_def v(3) cs_n_const_def nth_append)
  moreover have "constraints_hold (vv.at v) cs \<longleftrightarrow> constraints_hold (instance_word cs inout priv) cs"
    by (rule constraints_hold_cong, rule instance_word_at[OF v(2,3) assms(2,3)])
      (use wf in \<open>auto simp: system_wf_def operand_wf_def\<close>)
  ultimately show ?thesis
    using cs_verify_spec[OF wf v(2)] assms(4) v(1) by (simp add: cs_n_const_def)
qed

text \<open>C2: On a validated system with at most \<open>2 ^ 30\<close> constants, the number a value index can name, a vector
  built from the right numbers of inout and private words is checked without panic, and accepted exactly
  when those words satisfy every relation the constraints state.\<close>

theorem verify_exact:
  assumes "cs_validate cs = Ok ()" "length inout = n_inout cs" "length priv = n_private cs"
    and "length (constants cs) \<le> 2 ^ 30"
  shows "\<exists>v. cs_value_vec_from_data cs inout priv = Some v \<and> cs_verify cs v \<noteq> Panic \<and>
    (cs_verify cs v = Ok () \<longleftrightarrow> constraints_hold (instance_word cs inout priv) cs)"
  by (rule built_verify[OF assms])

text \<open>A small system: one constant, one inout and one private value, each kind of constraint.\<close>

definition sample_system :: constraint_system where
  "sample_system =
    (let k = [svi_plain (ValueIndex 0)]; x = [svi_plain (ValueIndex 0x40000000)];
         p = [svi_plain (ValueIndex 0x80000000)]
     in \<lparr>constants = [2], n_inout = 1, n_private = 1,
       zero_constraints = [ZeroConstraint (k @ x)],
       and_constraints = [AndConstraint x k k],
       imul_constraints = [ImulConstraint k x p []],
       bmul_constraints = []\<rparr>)"

lemma sample_system_wf: "system_wf sample_system"
  by (simp add: system_wf_def sample_system_def Let_def system_operands_def zero_operands_def
      and_operands_def imul_operands_def operand_wf_def term_wf_def svi_plain_def svi_single_def
      svi_new_def svi_inner_def svi_outer_def shift_wf_def is_canonical_def is_identity_def
      IDENTITY_def valid_shift_def vi_segment_def vi_index_def segment_from_tag_def unat_and_mask
      cs_n_const_def)

lemma sample_system_holds: "constraints_hold (instance_word sample_system [2] [4]) sample_system"
  by (simp add: constraints_hold_def sample_system_def Let_def zero_holds_def and_holds_def imul_holds_def
      svi_val_def svi_plain_def svi_single_def svi_new_def svi_inner_def svi_outer_def shift_apply_identity
      instance_word_def vi_segment_def vi_index_def segment_from_tag_def unat_and_mask)

theorem verify_exact_witness:
  "\<exists>v. cs_value_vec_from_data sample_system [2] [4] = Some v \<and> cs_verify sample_system v = Ok ()"
proof -
  have "cs_validate sample_system = Ok ()" by (simp add: cs_validate_spec sample_system_wf)
  then show ?thesis
    using verify_exact[of sample_system "[2]" "[4]"] sample_system_holds
    by (auto simp: sample_system_def Let_def)
qed

text \<open>C29: A failing check reports the first failure: the constraint it names fails in the way it
  says, every earlier constraint of its kind holds, and so does every constraint of the kinds
  checked before it.\<close>

theorem verify_reports_first:
  assumes "cs_verify cs v = Err (Unsatisfied i w)"
  shows "case violation_kind w of
      ZeroKind \<Rightarrow> i < cs_n_zero_constraints cs \<and> zero_verify (zero_constraints cs ! i) v = Err w \<and>
        (\<forall>j < i. zero_verify (zero_constraints cs ! j) v = Ok ())
    | AndKind \<Rightarrow> i < cs_n_and_constraints cs \<and> and_verify (and_constraints cs ! i) v = Err w \<and>
        (\<forall>j < i. and_verify (and_constraints cs ! j) v = Ok ()) \<and>
        (\<forall>z \<in> set (zero_constraints cs). zero_verify z v = Ok ())
    | ImulKind \<Rightarrow> i < cs_n_imul_constraints cs \<and> imul_verify (imul_constraints cs ! i) v = Err w \<and>
        (\<forall>j < i. imul_verify (imul_constraints cs ! j) v = Ok ()) \<and>
        (\<forall>z \<in> set (zero_constraints cs). zero_verify z v = Ok ()) \<and>
        (\<forall>a \<in> set (and_constraints cs). and_verify a v = Ok ())
    | BmulKind \<Rightarrow> i < cs_n_bmul_constraints cs \<and> bmul_verify (bmul_constraints cs ! i) v = Err w \<and>
        (\<forall>j < i. bmul_verify (bmul_constraints cs ! j) v = Ok ()) \<and>
        (\<forall>z \<in> set (zero_constraints cs). zero_verify z v = Ok ()) \<and>
        (\<forall>a \<in> set (and_constraints cs). and_verify a v = Ok ()) \<and>
        (\<forall>m \<in> set (imul_constraints cs). imul_verify m v = Ok ())"
proof -
  have ok: "verify_all check v cons = Ok () \<Longrightarrow> \<forall>c \<in> set cons. check c v = Ok ()" for check and cons :: "'a list"
    by (auto simp: verify_all_def for_enum_eq_Ok outcome_simps all_set_conv_all_nth)
  have err: "verify_all check v cons = Err (Unsatisfied i w) \<Longrightarrow> i < length cons \<and>
      check (cons ! i) v = Err w \<and> (\<forall>j < i. check (cons ! j) v = Ok ())" for check and cons :: "'a list"
    by (auto simp: verify_all_def for_enum_eq_Err outcome_simps)
  have const: "for_enum 0 (verify_constant v) (constants cs) \<noteq> Err (Unsatisfied i w)"
    by (auto simp: for_enum_eq_Err verify_constant_def Let_def outcome_simps split: if_splits)
  consider
    "verify_all zero_verify v (zero_constraints cs) = Err (Unsatisfied i w)"
  | "verify_all zero_verify v (zero_constraints cs) = Ok ()"
    "verify_all and_verify v (and_constraints cs) = Err (Unsatisfied i w)"
  | "verify_all zero_verify v (zero_constraints cs) = Ok ()"
    "verify_all and_verify v (and_constraints cs) = Ok ()"
    "verify_all imul_verify v (imul_constraints cs) = Err (Unsatisfied i w)"
  | "verify_all zero_verify v (zero_constraints cs) = Ok ()"
    "verify_all and_verify v (and_constraints cs) = Ok ()"
    "verify_all imul_verify v (imul_constraints cs) = Ok ()"
    "verify_all bmul_verify v (bmul_constraints cs) = Err (Unsatisfied i w)"
    using assms const by (auto simp: cs_verify_def outcome_simps)
  then show ?thesis
  proof cases
    case 1
    note e = err[OF 1]
    then have "violation_kind w = ZeroKind" using verify_kinds(1) by blast
    with e show ?thesis by (simp add: cs_n_zero_constraints_def)
  next
    case 2
    note e = err[OF 2(2)]
    then have "violation_kind w = AndKind" using verify_kinds(2) by blast
    with e ok[OF 2(1)] show ?thesis by (simp add: cs_n_and_constraints_def)
  next
    case 3
    note e = err[OF 3(3)]
    then have "violation_kind w = ImulKind" using verify_kinds(3) by blast
    with e ok[OF 3(1)] ok[OF 3(2)] show ?thesis by (simp add: cs_n_imul_constraints_def)
  next
    case 4
    note e = err[OF 4(4)]
    then have "violation_kind w = BmulKind" using verify_kinds(4) by blast
    with e ok[OF 4(1)] ok[OF 4(2)] ok[OF 4(3)] show ?thesis by (simp add: cs_n_bmul_constraints_def)
  qed
qed

theorem verify_reports_first_witness:
  "let cs = \<lparr>constants = [2], n_inout = 0, n_private = 0,
        zero_constraints = [ZeroConstraint [], ZeroConstraint [svi_plain (ValueIndex 0)]],
        and_constraints = [], imul_constraints = [], bmul_constraints = []\<rparr>;
      v = \<lparr>vv_n_const = 1, vv_n_public_values = 1, vv_n_private = 0,
        vv_data = \<lparr>blocks = [(2, 0)], aw_len = 1\<rparr>\<rparr>
   in cs_verify cs v = Err (Unsatisfied 1 (ZeroViolation 2)) \<and>
      zero_verify (zero_constraints cs ! 1) v = Err (ZeroViolation 2) \<and>
      zero_verify (zero_constraints cs ! 0) v = Ok ()"
proof -
  let ?cs = "\<lparr>constants = [2], n_inout = 0, n_private = 0,
        zero_constraints = [ZeroConstraint [], ZeroConstraint [svi_plain (ValueIndex 0)]],
        and_constraints = [], imul_constraints = [], bmul_constraints = []\<rparr> :: constraint_system"
  let ?v = "\<lparr>vv_n_const = 1, vv_n_public_values = 1, vv_n_private = 0,
        vv_data = \<lparr>blocks = [(2, 0)], aw_len = 1\<rparr>\<rparr> :: value_vec"
  have "cs_verify ?cs ?v = Err (Unsatisfied 1 (ZeroViolation 2))"
    by (simp add: cs_verify_def verify_constant_def vi_constant_def vi_new_def SEGMENT_CAPACITY_def
        INDEX_BITS_def vv_get_def read_at_def aw_deref_def vv_word_offset_def vi_segment_def vi_index_def
        segment_from_tag_def INDEX_MASK_def verify_all_def zero_verify_def vv_eval_operand_def
        eval_operand_def svi_eval_def svi_plain_def svi_single_def svi_new_def shift_apply_identity
        ZERO_def Let_def)
  from this verify_reports_first[OF this] show ?thesis by (simp add: Let_def)
qed

text \<open>The number of word-index variables is the least that covers both segments: every word
  of the public and of the hidden segment has an address, and one variable fewer leaves a word
  without one.\<close>

theorem log_segment_words_least:
  assumes "cs_n_public_words cs inout < 2 ^ 64" "cs_n_hidden_words cs inout < 2 ^ 64"
  shows "cs_log_segment_words cs inout \<le> k \<longleftrightarrow>
    cs_n_public_words cs inout \<le> 2 ^ k \<and> cs_n_hidden_words cs inout \<le> 2 ^ k"
  unfolding log2_ceil_usize_le_iff[OF assms(1), symmetric] log2_ceil_usize_le_iff[OF assms(2), symmetric]
  by (auto simp: cs_log_segment_words_def cs_log_public_words_def cs_log_witness_words_def)

theorem log_segment_words_least_witness:
  "cs_log_segment_words sample_system HiddenInout \<le> 1 \<longleftrightarrow>
    cs_n_public_words sample_system HiddenInout \<le> 2 ^ 1 \<and>
    cs_n_hidden_words sample_system HiddenInout \<le> 2 ^ 1"
  by (rule log_segment_words_least) (simp_all add: sample_system_def Let_def cs_n_const_def)

text \<open>C32: The three addressing functions agree: a system realising a layout puts each committed
  word where the layout does and where a vector of that layout stores it, and distinct indices in
  range get distinct words below the length of the vector.\<close>

theorem word_offsets_agree:
  assumes "constraint_system_shape l cnst = Some cs"
    and "unat (vi_index i) < cs_segment_len cs (vi_segment i)"
    and "unat (vi_index j) < cs_segment_len cs (vi_segment j)"
  shows "cs_word_offset cs i = lay_word_offset l i \<and> cs_word_offset cs i = vv_word_offset (vv_new l) i \<and>
    cs_word_offset cs i < cs_value_vec_len cs \<and>
    (cs_word_offset cs i = cs_word_offset cs j \<longleftrightarrow> i = j)"
proof -
  have cs: "cs_n_const cs = lay_n_const l" "n_inout cs = lay_n_inout l" "n_private cs = lay_n_private l"
    using assms(1) by (auto simp: constraint_system_shape_def cs_n_const_def split: if_splits)
  have "cs_word_offset cs i = lay_word_offset l i \<and> cs_word_offset cs i = vv_word_offset (vv_new l) i \<and>
      cs_word_offset cs i < cs_value_vec_len cs"
    using assms(2) cs
    by (cases "vi_segment i")
      (auto simp: cs_word_offset_def lay_word_offset_def vv_word_offset_def vv_new_def vv_size_def
        cs_offset_inout_def cs_n_public_values_def lay_offset_inout_def lay_offset_witness_def
        cs_value_vec_len_def)
  moreover have "i = j" if "cs_word_offset cs i = cs_word_offset cs j"
  proof (rule value_index_eqI)
    show s: "vi_segment i = vi_segment j"
      using assms(2,3) that
      by (cases "vi_segment i"; cases "vi_segment j")
        (auto simp: cs_word_offset_def cs_offset_inout_def cs_n_public_values_def)
    show "vi_index i = vi_index j"
      using that s by (simp add: cs_word_offset_def word_unat_eq_iff)
  qed
  ultimately show ?thesis by blast
qed

theorem word_offsets_agree_witness:
  "let l = \<lparr>lay_n_const = 1, lay_n_inout = 1, lay_n_witness = 1, lay_n_internal = 0, lay_n_scratch = 2\<rparr>;
      cs = \<lparr>constants = [5], n_inout = 1, n_private = 1, zero_constraints = [], and_constraints = [],
        imul_constraints = [], bmul_constraints = []\<rparr>;
      i = ValueIndex 0x40000000; j = ValueIndex 0x80000000
   in cs_word_offset cs i = lay_word_offset l i \<and> cs_word_offset cs i = vv_word_offset (vv_new l) i \<and>
    cs_word_offset cs i < cs_value_vec_len cs \<and>
    (cs_word_offset cs i = cs_word_offset cs j \<longleftrightarrow> i = j)"
  unfolding Let_def
  by (rule word_offsets_agree[where cnst = "[5]"])
    (simp_all add: constraint_system_shape_def lay_n_private_def vi_segment_def vi_index_def
      segment_from_tag_def unat_and_mask cs_n_const_def)

text \<open>Validation looks at no constant, so appending constants never makes it fail.\<close>

lemma validate_more_constants:
  assumes "cs_validate cs = Ok ()"
  shows "cs_validate (cs\<lparr>constants := constants cs @ extra\<rparr>) = Ok ()"
proof -
  let ?cs = "cs\<lparr>constants := constants cs @ extra\<rparr>"
  have len: "cs_segment_len cs seg \<le> cs_segment_len ?cs seg" for seg
    by (cases seg) (simp_all add: cs_n_const_def)
  have ops: "system_operands ?cs = system_operands cs" by (simp add: system_operands_def)
  have "term_wf ?cs t" if "term_wf cs t" for t
    using that order_less_le_trans[OF _ len] by (auto simp: term_wf_def)
  then have "\<forall>opnd \<in> set (system_operands ?cs). operand_wf ?cs opnd"
    using assms unfolding ops cs_validate_spec system_wf_def operand_wf_def by blast
  then show ?thesis using assms by (simp add: cs_validate_spec system_wf_def)
qed

text \<open>C33: The bound on the constants is needed.  Give a validated system more constants, until there are more
  than a value index can count: validation still accepts it, the vector of any inout and private words of
  the right numbers is still built, and checking that vector panics, as does checking any vector of the
  system's shape that opens its constants.\<close>

theorem verify_panics_past_capacity:
  assumes "cs_validate cs = Ok ()" "2 ^ 30 < length (constants cs @ extra)"
    and "length inout = n_inout cs" "length priv = n_private cs"
  shows "let cs' = cs\<lparr>constants := constants cs @ extra\<rparr> in
    cs_validate cs' = Ok () \<and> (\<exists>v. cs_value_vec_from_data cs' inout priv = Some v \<and> cs_verify cs' v = Panic) \<and>
    (\<forall>v. vv_shaped cs' v \<longrightarrow> constants_open v cs' \<longrightarrow> cs_verify cs' v = Panic)"
proof -
  let ?cs = "cs\<lparr>constants := constants cs @ extra\<rparr>"
  have panics: "cs_verify ?cs v = Panic" if v: "vv_shaped ?cs v" "constants_open v ?cs" for v
  proof -
    have "verify_constant v (2 ^ 30) c = Panic" for c
      by (simp add: verify_constant_def vi_constant_def vi_new_def less_capacity_iff unat_of_nat Let_def)
    moreover have "verify_constant v j (constants ?cs ! j) = Ok ()" if "j < 2 ^ 30" for j
    proof -
      have j: "j < cs_n_const ?cs" using assms(2) that by (simp add: cs_n_const_def)
      then show ?thesis using verify_constant_step[OF v(1) j that] v(2) by (simp add: constants_open_def)
    qed
    ultimately have "for_enum 0 (verify_constant v) (constants ?cs) = Panic"
      using assms(2) by (subst for_enum_eq_Panic) (auto intro!: exI[of _ "2 ^ 30"])
    then show ?thesis by (simp add: cs_verify_def)
  qed
  obtain v where v: "cs_value_vec_from_data ?cs inout priv = Some v" "vv_shaped ?cs v" "vv_words v = constants ?cs @ inout @ priv"
    using cs_value_vec_from_data_Some[of inout ?cs priv] assms(3,4) by auto
  have "constants_open v ?cs"
    unfolding constants_open_def v(3) cs_n_const_def by (simp only: nth_append) simp
  then show ?thesis using validate_more_constants[OF assms(1)] panics v(1,2) by (auto simp: Let_def)
qed

theorem verify_panics_past_capacity_witness:
  "\<exists>cs v. cs_validate cs = Ok () \<and> cs_value_vec_from_data cs [] [] = Some v \<and> cs_verify cs v = Panic"
proof -
  let ?cs = "\<lparr>constants = [], n_inout = 0, n_private = 0, zero_constraints = [],
    and_constraints = [], imul_constraints = [], bmul_constraints = []\<rparr> :: constraint_system"
  have "cs_validate ?cs = Ok ()" by (simp add: cs_validate_spec system_wf_def system_operands_def)
  from verify_panics_past_capacity[OF this, of "replicate (2 ^ 30 + 1) 0" "[]" "[]"]
  show ?thesis unfolding Let_def by (simp del: replicate.simps) blast
qed

end
