(* ===== verification/M4.thy ===== *)
theory M4
  imports Constraint_System
begin

text \<open>
  M4 systems (\<open>m4.rs\<close>, \<open>m4/witness.rs\<close>): a main chip and numbered chips that call later
  chips.  The calls of the system hand out the active instances of each chip; validation holds
  the declared instances to the ones the call graph gives, and verification checks every
  instance and every call against the instance it names.
\<close>

record chip_call =
  call_chip_id :: nat
  call_first_instance :: nat
  call_inout :: "operand list"

record embedded_system =
  emb_cs :: constraint_system
  emb_chip_calls :: "chip_call list"

record m4_system =
  m4_main :: embedded_system
  m4_chips :: "(embedded_system \<times> nat) list"

datatype verification_m4_error =
  WrongChipCount nat nat
| MainUnsatisfied verification_error
| ChipInstance nat nat verification_error
| MissingInstances nat nat nat
| CallMismatch nat nat "(nat \<times> nat) option" nat nat u64 u64

section \<open>Validation\<close>

definition emb_validate :: "embedded_system \<Rightarrow> (constraint_system_error, unit) outcome" where
  "emb_validate e =
    and_then (cs_validate (emb_cs e)) (\<lambda>_.
      for_enum 0 (\<lambda>call_index call.
        for_enum 0 (\<lambda>operand_index opnd.
          map_err (ChipCallOperand call_index operand_index) (operand_fault (emb_cs e) opnd))
          (call_inout call)) (emb_chip_calls e))"

definition validate_call ::
  "m4_system \<Rightarrow> nat option \<Rightarrow> nat \<Rightarrow> chip_call \<Rightarrow> (constraint_system_error, unit) outcome" where
  "validate_call m chip_index call_index call =
    (let n_chips = length (m4_chips m); chip_id = call_chip_id call
     in if chip_id \<ge> n_chips then Err (OutOfRangeChipId chip_index chip_id n_chips)
        else and_then
          (case chip_index of
             None \<Rightarrow> Ok ()
           | Some caller \<Rightarrow> if chip_id \<le> caller then Err (CallOutOfOrder caller chip_id) else Ok ())
          (\<lambda>_. let n_inout = n_inout (emb_cs (fst (m4_chips m ! chip_id)))
             in if length (call_inout call) > n_inout
                then Err (WrongCallArity chip_index call_index chip_id (length (call_inout call)) n_inout)
                else Ok ()))"

definition validate_calls ::
  "m4_system \<Rightarrow> nat option \<Rightarrow> chip_call list \<Rightarrow> (constraint_system_error, unit) outcome" where
  "validate_calls m chip_index calls = for_enum 0 (validate_call m chip_index) calls"

text \<open>Addition on \<open>usize\<close>, \<open>None\<close> on overflow.\<close>

definition checked_add :: "nat \<Rightarrow> nat \<Rightarrow> nat option" where
  "checked_add a b = (if a + b < 2 ^ 64 then Some (a + b) else None)"

text \<open>One caller's calls, in order, against the counts claimed so far.  The counts are indexed by
  chip; an index past them panics.\<close>

fun claim_calls ::
  "nat option \<Rightarrow> nat \<Rightarrow> nat \<Rightarrow> chip_call list \<Rightarrow> nat list \<Rightarrow> (constraint_system_error, nat list) outcome" where
  "claim_calls chip_index n_active call_index [] n_claimed = Ok n_claimed"
| "claim_calls chip_index n_active call_index (call # calls) n_claimed =
    and_then (or_panic (read_at n_claimed (call_chip_id call))) (\<lambda>claimed.
      if call_first_instance call \<noteq> claimed
      then Err (WrongCallInstance chip_index call_index (call_first_instance call) claimed)
      else case checked_add claimed n_active of
          None \<Rightarrow> Err (TooManyInstances (call_chip_id call))
        | Some n_total \<Rightarrow>
            claim_calls chip_index n_active (Suc call_index) calls (n_claimed[call_chip_id call := n_total]))"

type_synonym caller_entry = "nat option \<times> embedded_system \<times> nat"

definition m4_callers :: "m4_system \<Rightarrow> caller_entry list" where
  "m4_callers m =
    (None, m4_main m, 1) #
    map (\<lambda>(i, (chip, n_active)). (Some i, chip, n_active)) (enumerate 0 (m4_chips m))"

fun claim_all :: "caller_entry list \<Rightarrow> nat list \<Rightarrow> (constraint_system_error, nat list) outcome" where
  "claim_all [] n_claimed = Ok n_claimed"
| "claim_all ((chip_index, caller, n_active) # rest) n_claimed =
    and_then (claim_calls chip_index n_active 0 (emb_chip_calls caller) n_claimed) (claim_all rest)"

definition validate_instances :: "m4_system \<Rightarrow> (constraint_system_error, unit) outcome" where
  "validate_instances m =
    and_then (claim_all (m4_callers m) (replicate (length (m4_chips m)) 0)) (\<lambda>n_claimed.
      for_enum 0 (\<lambda>chip_id ((_, n_active), claimed).
        if claimed \<noteq> n_active then Err (WrongActiveInstanceCount chip_id n_active claimed) else Ok ())
        (zip (m4_chips m) n_claimed))"

definition m4_validate :: "m4_system \<Rightarrow> (constraint_system_error, unit) outcome" where
  "m4_validate m =
    and_then (emb_validate (m4_main m)) (\<lambda>_.
    and_then (validate_calls m None (emb_chip_calls (m4_main m))) (\<lambda>_.
    and_then (for_enum 0 (\<lambda>chip_index (chip, _).
        and_then (emb_validate chip) (\<lambda>_. validate_calls m (Some chip_index) (emb_chip_calls chip)))
      (m4_chips m)) (\<lambda>_.
      validate_instances m)))"

section \<open>Chip instances\<close>

text \<open>What verification needs of a witness: trait \<open>ChipInstances\<close> as a record of its methods.\<close>

record 'w chip_instances =
  ci_n_chips :: "'w \<Rightarrow> nat"
  ci_n_instances :: "'w \<Rightarrow> nat \<Rightarrow> nat option"
  ci_instance :: "'w \<Rightarrow> nat \<Rightarrow> nat \<Rightarrow> value_vec option"

definition vecs_instances :: "value_vec list list chip_instances" where
  "vecs_instances =
    \<lparr>ci_n_chips = length,
     ci_n_instances = (\<lambda>w chip_id. map_option length (read_at w chip_id)),
     ci_instance = (\<lambda>w chip_id row. Option.bind (read_at w chip_id) (\<lambda>rows. read_at rows row))\<rparr>"

text \<open>A witness's tables, with the system that supplies the constants.\<close>

definition table_instances :: "m4_system \<Rightarrow> value_table list chip_instances" where
  "table_instances m =
    \<lparr>ci_n_chips = length,
     ci_n_instances = (\<lambda>w chip_id. Option.bind (read_at w chip_id) tab_n_instances),
     ci_instance = (\<lambda>w chip_id row.
       Option.bind (read_at (m4_chips m) chip_id) (\<lambda>(chip, _).
       Option.bind (read_at w chip_id) (\<lambda>table.
         instance_value_vec table row (constants (emb_cs chip)))))\<rparr>"

section \<open>Verification\<close>

definition check_word ::
  "nat \<Rightarrow> nat \<Rightarrow> (nat \<times> nat) option \<Rightarrow> nat \<Rightarrow> operand list \<Rightarrow> value_vec \<Rightarrow> u64 list \<Rightarrow> nat \<Rightarrow>
    (verification_m4_error, unit) outcome" where
  "check_word chip_id row caller call_index inout values served word =
    and_then
      (case read_at inout word of
         None \<Rightarrow> Ok ZERO
       | Some opnd \<Rightarrow> or_panic (eval_operand (vv_get values) opnd)) (\<lambda>passed.
    and_then (or_panic (read_at served word)) (\<lambda>s.
      if s \<noteq> passed then Err (CallMismatch chip_id row caller call_index word passed s) else Ok ()))"

definition check_call ::
  "'w chip_instances \<Rightarrow> 'w \<Rightarrow> m4_system \<Rightarrow> (nat \<times> nat) option \<Rightarrow> value_vec \<Rightarrow> nat \<Rightarrow> chip_call \<Rightarrow>
    (verification_m4_error, unit) outcome" where
  "check_call ci w m caller values call_index call =
    (let caller_instance = (case caller of None \<Rightarrow> 0 | Some (_, i) \<Rightarrow> i);
         chip_id = call_chip_id call;
         row = call_first_instance call + caller_instance
     in and_then (or_panic (read_at (m4_chips m) chip_id)) (\<lambda>(chip, _).
        and_then (or_panic (ci_instance ci w chip_id row)) (\<lambda>inst.
        and_then (or_panic (vv_inout inst)) (\<lambda>served.
          for_enum 0 (\<lambda>_. check_word chip_id row caller call_index (call_inout call) values served)
            [0..<n_inout (emb_cs chip)]))))"

definition check_caller ::
  "'w chip_instances \<Rightarrow> 'w \<Rightarrow> m4_system \<Rightarrow> (nat \<times> nat) option \<Rightarrow> chip_call list \<Rightarrow> value_vec \<Rightarrow>
    (verification_m4_error, unit) outcome" where
  "check_caller ci w m caller calls values = for_enum 0 (check_call ci w m caller values) calls"

definition verify_chip ::
  "'w chip_instances \<Rightarrow> 'w \<Rightarrow> nat \<Rightarrow> embedded_system \<times> nat \<Rightarrow> (verification_m4_error, unit) outcome" where
  "verify_chip ci w chip_id entry =
    (case entry of (chip, n_active) \<Rightarrow>
      and_then (or_panic (ci_n_instances ci w chip_id)) (\<lambda>n_instances.
        if n_instances < n_active then Err (MissingInstances chip_id n_instances n_active)
        else for_enum 0 (\<lambda>_ row.
          and_then (or_panic (ci_instance ci w chip_id row)) (\<lambda>v.
            map_err (ChipInstance chip_id row) (cs_verify (emb_cs chip) v))) [0..<n_instances]))"

definition check_chip ::
  "'w chip_instances \<Rightarrow> 'w \<Rightarrow> m4_system \<Rightarrow> nat \<Rightarrow> embedded_system \<times> nat \<Rightarrow>
    (verification_m4_error, unit) outcome" where
  "check_chip ci w m caller_chip entry =
    (case entry of (chip, n_active) \<Rightarrow>
      for_enum 0 (\<lambda>_ caller_instance.
        and_then (or_panic (ci_instance ci w caller_chip caller_instance)) (\<lambda>values.
          check_caller ci w m (Some (caller_chip, caller_instance)) (emb_chip_calls chip) values))
        [0..<n_active])"

definition m4_verify ::
  "'w chip_instances \<Rightarrow> m4_system \<Rightarrow> value_vec \<Rightarrow> 'w \<Rightarrow> (verification_m4_error, unit) outcome" where
  "m4_verify ci m main w =
    (if ci_n_chips ci w \<noteq> length (m4_chips m)
     then Err (WrongChipCount (ci_n_chips ci w) (length (m4_chips m)))
     else
       and_then (map_err MainUnsatisfied (cs_verify (emb_cs (m4_main m)) main)) (\<lambda>_.
       and_then (for_enum 0 (verify_chip ci w) (m4_chips m)) (\<lambda>_.
       and_then (check_caller ci w m None (emb_chip_calls (m4_main m)) main) (\<lambda>_.
         for_enum 0 (check_chip ci w m) (m4_chips m)))))"

record witness_m4 =
  wit_main :: value_vec
  wit_tables :: "value_table list"

definition witness_verify :: "witness_m4 \<Rightarrow> m4_system \<Rightarrow> (verification_m4_error, unit) outcome" where
  "witness_verify wit m = m4_verify (table_instances m) m (wit_main wit) (wit_tables wit)"

section \<open>What validation promises\<close>

definition emb_wf :: "embedded_system \<Rightarrow> bool" where
  "emb_wf e \<longleftrightarrow> system_wf (emb_cs e) \<and>
    (\<forall>call \<in> set (emb_chip_calls e). \<forall>opnd \<in> set (call_inout call). operand_wf (emb_cs e) opnd)"

definition call_wf :: "m4_system \<Rightarrow> nat option \<Rightarrow> chip_call \<Rightarrow> bool" where
  "call_wf m caller call \<longleftrightarrow> call_chip_id call < length (m4_chips m) \<and>
    (case caller of None \<Rightarrow> True | Some i \<Rightarrow> i < call_chip_id call) \<and>
    length (call_inout call) \<le> n_inout (emb_cs (fst (m4_chips m ! call_chip_id call)))"

text \<open>The instances of chip \<open>c\<close> a list of calls claims, each call paired with the number of
  active instances of its caller, in the order they are handed out.\<close>

definition claims :: "(nat \<times> chip_call) list \<Rightarrow> nat \<Rightarrow> nat list" where
  "claims calls c = concat (map (\<lambda>(n_active, call).
     if call_chip_id call = c then map ((+) (call_first_instance call)) [0..<n_active] else []) calls)"

definition caller_calls :: "caller_entry \<Rightarrow> (nat \<times> chip_call) list" where
  "caller_calls entry = (case entry of (_, e, n_active) \<Rightarrow> map (Pair n_active) (emb_chip_calls e))"

definition m4_calls :: "m4_system \<Rightarrow> (nat \<times> chip_call) list" where
  "m4_calls m = concat (map caller_calls (m4_callers m))"

lemma claims_append: "claims (xs @ ys) c = claims xs c @ claims ys c"
  by (simp add: claims_def)

lemma emb_validate_spec: "emb_validate e \<noteq> Panic" "emb_validate e = Ok () \<longleftrightarrow> emb_wf e"
proof -
  have inner: "for_enum 0 (\<lambda>k opnd. map_err (ChipCallOperand i k) (operand_fault cs opnd)) ops \<noteq> Panic"
    "for_enum 0 (\<lambda>k opnd. map_err (ChipCallOperand i k) (operand_fault cs opnd)) ops = Ok () \<longleftrightarrow>
      (\<forall>opnd \<in> set ops. operand_wf cs opnd)" for i cs ops
    by (rule for_enum_no_panic)
      (simp_all add: outcome_simps operand_fault_spec for_enum_eq_Ok all_set_conv_all_nth)
  show "emb_validate e \<noteq> Panic"
    by (auto simp: emb_validate_def outcome_simps cs_validate_spec inner for_enum_eq_Panic operand_fault_spec(1))
  show "emb_validate e = Ok () \<longleftrightarrow> emb_wf e"
    by (auto simp: emb_validate_def outcome_simps cs_validate_spec for_enum_eq_Ok inner emb_wf_def
        all_set_conv_all_nth operand_fault_spec(2))
qed

lemma validate_calls_spec:
  "validate_calls m caller calls \<noteq> Panic"
  "validate_calls m caller calls = Ok () \<longleftrightarrow> (\<forall>call \<in> set calls. call_wf m caller call)"
proof -
  have one: "validate_call m caller i call \<noteq> Panic"
    "validate_call m caller i call = Ok () \<longleftrightarrow> call_wf m caller call" for i call
    by (auto simp: validate_call_def call_wf_def outcome_simps Let_def split: option.splits)
  show "validate_calls m caller calls \<noteq> Panic"
    unfolding validate_calls_def by (rule for_enum_no_panic) (rule one)
  show "validate_calls m caller calls = Ok () \<longleftrightarrow> (\<forall>call \<in> set calls. call_wf m caller call)"
    by (simp add: validate_calls_def for_enum_eq_Ok one all_set_conv_all_nth)
qed

lemma claim_calls_total:
  "\<forall>call \<in> set calls. call_chip_id call < length n_claimed \<Longrightarrow> claim_calls ci n k calls n_claimed \<noteq> Panic"
  by (induction calls arbitrary: k n_claimed)
    (auto simp: outcome_simps read_at_def split: if_splits option.splits)

lemma claim_calls_length: "claim_calls ci n k calls n_claimed = Ok ys \<Longrightarrow> length ys = length n_claimed"
  by (induction calls arbitrary: k n_claimed)
    (auto simp: outcome_simps split: if_splits option.splits)

lemma claim_all_total:
  "\<forall>(ci, e, n) \<in> set callers. \<forall>call \<in> set (emb_chip_calls e). call_chip_id call < length n_claimed \<Longrightarrow>
    claim_all callers n_claimed \<noteq> Panic"
proof (induction callers arbitrary: n_claimed)
  case Nil
  then show ?case by simp
next
  case (Cons entry callers)
  obtain ci e n where e: "entry = (ci, e, n)" by (cases entry)
  have "claim_calls ci n 0 (emb_chip_calls e) n_claimed \<noteq> Panic"
    by (rule claim_calls_total) (use Cons.prems e in auto)
  moreover have "claim_all callers ys \<noteq> Panic"
    if "claim_calls ci n 0 (emb_chip_calls e) n_claimed = Ok ys" for ys
    by (rule Cons.IH) (use Cons.prems claim_calls_length[OF that] in auto)
  ultimately show ?case by (auto simp: e outcome_simps)
qed

text \<open>The counts are the lengths of the runs claimed so far, and every run starts at zero.\<close>

lemma claim_calls_claims:
  assumes "claim_calls ci n k calls xs = Ok ys" "\<forall>c < length xs. claims before c = [0..<xs ! c]"
  shows "\<forall>c < length xs. claims (before @ map (Pair n) calls) c = [0..<ys ! c]"
  using assms
proof (induction calls arbitrary: k xs before)
  case Nil
  then show ?case by simp
next
  case (Cons call calls)
  let ?i = "call_chip_id call"
  obtain n_total where step: "?i < length xs" "call_first_instance call = xs ! ?i"
    "n_total = xs ! ?i + n"
    "claim_calls ci n (Suc k) calls (xs[?i := n_total]) = Ok ys"
    using Cons.prems(1)
    by (auto simp: outcome_simps read_at_def checked_add_def split: if_splits option.splits)
  have "claims (before @ [(n, call)]) c = [0..<xs[?i := n_total] ! c]" if "c < length xs" for c
  proof (cases "c = ?i")
    case True
    have "map ((+) (xs ! ?i)) [0..<n] = [xs ! ?i..<xs ! ?i + n]"
      using map_add_upt[of "xs ! ?i" n] by (simp add: add.commute[of "xs ! ?i"] cong: map_cong)
    then show ?thesis
      using True Cons.prems(2) that step upt_add_eq_append[of 0 "xs ! ?i" n]
      by (simp add: claims_def)
  next
    case False
    then show ?thesis using Cons.prems(2) that by (simp add: claims_def)
  qed
  then show ?case
    using Cons.IH[OF step(4), of "before @ [(n, call)]"] by simp
qed

lemma claim_all_claims:
  assumes "claim_all callers xs = Ok ys" "\<forall>c < length xs. claims before c = [0..<xs ! c]"
  shows "length ys = length xs \<and>
    (\<forall>c < length xs. claims (before @ concat (map caller_calls callers)) c = [0..<ys ! c])"
  using assms
proof (induction callers arbitrary: xs before)
  case Nil
  then show ?case by simp
next
  case (Cons entry callers)
  obtain ci e n where e: "entry = (ci, e, n)" by (cases entry)
  obtain zs where zs: "claim_calls ci n 0 (emb_chip_calls e) xs = Ok zs" "claim_all callers zs = Ok ys"
    using Cons.prems(1) by (auto simp: e outcome_simps)
  have len: "length zs = length xs" by (rule claim_calls_length[OF zs(1)])
  have "\<forall>c < length zs. claims (before @ caller_calls entry) c = [0..<zs ! c]"
    using claim_calls_claims[OF zs(1) Cons.prems(2)] len by (simp add: caller_calls_def e)
  from Cons.IH[OF zs(2) this] show ?case using len by simp
qed

definition m4_wf :: "m4_system \<Rightarrow> bool" where
  "m4_wf m \<longleftrightarrow>
    emb_wf (m4_main m) \<and> (\<forall>call \<in> set (emb_chip_calls (m4_main m)). call_wf m None call) \<and>
    (\<forall>i < length (m4_chips m). emb_wf (fst (m4_chips m ! i)) \<and>
      (\<forall>call \<in> set (emb_chip_calls (fst (m4_chips m ! i))). call_wf m (Some i) call)) \<and>
    (\<forall>c < length (m4_chips m). claims (m4_calls m) c = [0..<snd (m4_chips m ! c)])"

abbreviation validate_chip :: "m4_system \<Rightarrow> nat \<Rightarrow> embedded_system \<times> nat \<Rightarrow> (constraint_system_error, unit) outcome" where
  "validate_chip m \<equiv> \<lambda>i (chip, _).
     and_then (emb_validate chip) (\<lambda>_. validate_calls m (Some i) (emb_chip_calls chip))"

lemma validate_chips_spec:
  "for_enum 0 (validate_chip m) chips \<noteq> Panic"
  "for_enum 0 (validate_chip m) chips = Ok () \<longleftrightarrow> (\<forall>i < length chips. emb_wf (fst (chips ! i)) \<and>
      (\<forall>call \<in> set (emb_chip_calls (fst (chips ! i))). call_wf m (Some i) call))"
  by (rule for_enum_no_panic)
    (auto simp: split_def outcome_simps emb_validate_spec validate_calls_spec for_enum_eq_Ok)

lemma validate_instances_claims:
  assumes "validate_instances m = Ok ()" "c < length (m4_chips m)"
  shows "claims (m4_calls m) c = [0..<snd (m4_chips m ! c)]"
proof -
  let ?n = "length (m4_chips m)"
  obtain ys where ys: "claim_all (m4_callers m) (replicate ?n 0) = Ok ys"
    "for_enum 0 (\<lambda>chip_id ((_, n_active), claimed).
        if claimed \<noteq> n_active then Err (WrongActiveInstanceCount chip_id n_active claimed) else Ok ())
        (zip (m4_chips m) ys) = (Ok () :: (constraint_system_error, unit) outcome)"
    using assms(1) by (auto simp: validate_instances_def outcome_simps)
  have c: "length ys = ?n" "claims (m4_calls m) c = [0..<ys ! c]"
    using claim_all_claims[OF ys(1), of "[]"] assms(2) by (auto simp: claims_def m4_calls_def)
  moreover have "ys ! c = snd (m4_chips m ! c)"
    using ys(2) c(1) assms(2) by (auto simp: for_enum_eq_Ok split_def split: if_splits)
  ultimately show ?thesis by simp
qed

lemma m4_validate_total: "m4_validate m \<noteq> Panic"
proof -
  have "validate_instances m \<noteq> Panic"
    if "\<forall>call \<in> set (emb_chip_calls (m4_main m)). call_wf m None call"
      "\<forall>i < length (m4_chips m). \<forall>call \<in> set (emb_chip_calls (fst (m4_chips m ! i))). call_wf m (Some i) call"
  proof -
    have "claim_all (m4_callers m) (replicate (length (m4_chips m)) 0) \<noteq> Panic"
      by (rule claim_all_total)
        (use that in \<open>auto simp: m4_callers_def call_wf_def in_set_enumerate_eq\<close>)
    then show ?thesis
      by (auto simp: validate_instances_def outcome_simps for_enum_eq_Panic split_def split: if_splits)
  qed
  then show ?thesis
    by (auto simp: m4_validate_def outcome_simps emb_validate_spec validate_calls_spec validate_chips_spec)
qed

lemma m4_validate_eq_Ok:
  "m4_validate m = Ok () \<longleftrightarrow>
    emb_wf (m4_main m) \<and> (\<forall>call \<in> set (emb_chip_calls (m4_main m)). call_wf m None call) \<and>
    (\<forall>i < length (m4_chips m). emb_wf (fst (m4_chips m ! i)) \<and>
      (\<forall>call \<in> set (emb_chip_calls (fst (m4_chips m ! i))). call_wf m (Some i) call)) \<and>
    validate_instances m = Ok ()"
  by (simp add: m4_validate_def outcome_simps emb_validate_spec validate_calls_spec validate_chips_spec)

lemma m4_validate_wf: "m4_validate m = Ok () \<Longrightarrow> m4_wf m"
  by (auto simp: m4_validate_eq_Ok m4_wf_def validate_instances_claims)

section \<open>What a satisfying witness is\<close>

definition vv_satisfies :: "constraint_system \<Rightarrow> value_vec \<Rightarrow> bool" where
  "vv_satisfies cs v \<longleftrightarrow> constants_open v cs \<and> constraints_hold (vv.at v) cs"

text \<open>The words an instance of a chip takes as its inout values, and the words a call passes,
  with zeroes past its operands.\<close>

definition served_words :: "constraint_system \<Rightarrow> value_vec \<Rightarrow> u64 list" where
  "served_words cs v = take (n_inout cs) (drop (cs_n_const cs) (vv_words v))"

definition passed_words :: "constraint_system \<Rightarrow> value_vec \<Rightarrow> operand list \<Rightarrow> u64 list" where
  "passed_words callee values inout =
    map (\<lambda>k. if k < length inout then operand_val (vv.at values) (inout ! k) else 0) [0..<n_inout callee]"

definition call_served ::
  "'w chip_instances \<Rightarrow> 'w \<Rightarrow> m4_system \<Rightarrow> value_vec \<Rightarrow> nat \<Rightarrow> chip_call \<Rightarrow> bool" where
  "call_served ci w m values i call =
    (let callee = emb_cs (fst (m4_chips m ! call_chip_id call))
     in \<exists>inst. ci_instance ci w (call_chip_id call) (call_first_instance call + i) = Some inst \<and>
       served_words callee inst = passed_words callee values (call_inout call))"

definition m4_satisfied :: "'w chip_instances \<Rightarrow> m4_system \<Rightarrow> value_vec \<Rightarrow> 'w \<Rightarrow> bool" where
  "m4_satisfied ci m main w \<longleftrightarrow>
    ci_n_chips ci w = length (m4_chips m) \<and> vv_satisfies (emb_cs (m4_main m)) main \<and>
    (\<forall>c < length (m4_chips m). \<exists>n. ci_n_instances ci w c = Some n \<and> snd (m4_chips m ! c) \<le> n \<and>
      (\<forall>row < n. \<exists>v. ci_instance ci w c row = Some v \<and> vv_satisfies (emb_cs (fst (m4_chips m ! c))) v)) \<and>
    (\<forall>call \<in> set (emb_chip_calls (m4_main m)). call_served ci w m main 0 call) \<and>
    (\<forall>c < length (m4_chips m). \<forall>i < snd (m4_chips m ! c). \<exists>v. ci_instance ci w c i = Some v \<and>
      (\<forall>call \<in> set (emb_chip_calls (fst (m4_chips m ! c))). call_served ci w m v i call))"

text \<open>Every chip's constants can be indexed.\<close>

definition m4_indexable :: "m4_system \<Rightarrow> bool" where
  "m4_indexable m \<longleftrightarrow> cs_n_const (emb_cs (m4_main m)) \<le> 2 ^ 30 \<and>
    (\<forall>c < length (m4_chips m). cs_n_const (emb_cs (fst (m4_chips m ! c))) \<le> 2 ^ 30)"

lemma claims_mem:
  assumes "(n, call) \<in> set calls" "i < n"
  shows "call_first_instance call + i \<in> set (claims calls (call_chip_id call))"
  using assms by (force simp: claims_def)

lemma m4_wf_row:
  assumes "m4_wf m" "(ci, e, n) \<in> set (m4_callers m)" "call \<in> set (emb_chip_calls e)" "i < n"
    and "call_chip_id call < length (m4_chips m)"
  shows "call_first_instance call + i < snd (m4_chips m ! call_chip_id call)"
proof -
  have "(n, call) \<in> set (m4_calls m)"
    using assms(2,3) by (force simp: m4_calls_def caller_calls_def)
  then show ?thesis
    using claims_mem[OF _ assms(4)] assms(1,5) by (fastforce simp: m4_wf_def)
qed

lemma vv_inout_shaped:
  "vv_shaped cs v \<Longrightarrow> vv_inout v = Some (served_words cs v) \<and> length (served_words cs v) = n_inout cs"
  by (auto simp: vv_shaped_def vv_inout_def slice_def served_words_def vv_wf_def vv_size_def
      cs_n_public_values_def)

lemma call_operands_held:
  assumes "vv_shaped cs v" "\<forall>opnd \<in> set inout. operand_wf cs opnd" "k < length inout"
  shows "eval_operand (vv_get v) (inout ! k) = Some (operand_val (vv.at v) (inout ! k))"
proof (rule vv.eval_held)
  have "operand_wf cs (inout ! k)" using assms(2,3) by simp
  then show "\<forall>t \<in> set (inout ! k). vv_holds v (value_index t)"
    using term_wf_held[OF assms(1)] by (auto simp: operand_wf_def)
qed

lemma check_words_spec:
  assumes "vv_shaped cs values" "\<forall>opnd \<in> set inout. operand_wf cs opnd"
    and "length served = n_inout callee"
  shows "for_enum 0 (\<lambda>_. check_word chip_id row caller call_index inout values served) [0..<n_inout callee] \<noteq> Panic"
      (is "?run \<noteq> _")
    "for_enum 0 (\<lambda>_. check_word chip_id row caller call_index inout values served) [0..<n_inout callee] = Ok () \<longleftrightarrow>
      served = passed_words callee values inout"
proof -
  let ?p = "passed_words callee values inout"
  have step: "check_word chip_id row caller call_index inout values served k =
      (if served ! k = ?p ! k then Ok () else Err (CallMismatch chip_id row caller call_index k (?p ! k) (served ! k)))"
    if "k < n_inout callee" for k
    using that assms(3) call_operands_held[OF assms(1,2), of k]
    by (auto simp: check_word_def read_at_def passed_words_def ZERO_def split: option.split)
  show "?run \<noteq> Panic"
    by (rule for_enum_no_panic) (simp add: step)
  show "?run = Ok () \<longleftrightarrow> served = ?p"
    by (auto simp: for_enum_eq_Ok step list_eq_iff_nth_eq assms(3) passed_words_def)
qed

section \<open>Witnesses that serve their instances\<close>

text \<open>
  The contract of \<open>ChipInstances\<close>: a witness in good order counts the instances of every chip
  it covers and serves each of them as a value vector of the chip's shape.
\<close>

locale chip_witness =
  fixes ci :: "m4_system \<Rightarrow> 'w chip_instances"
    and ok :: "m4_system \<Rightarrow> 'w \<Rightarrow> bool"
  assumes counts: "ok m w \<Longrightarrow> ci_n_chips (ci m) w = length (m4_chips m) \<Longrightarrow> c < length (m4_chips m) \<Longrightarrow>
      \<exists>n. ci_n_instances (ci m) w c = Some n"
    and serves: "ok m w \<Longrightarrow> c < length (m4_chips m) \<Longrightarrow> ci_n_instances (ci m) w c = Some n \<Longrightarrow> row < n \<Longrightarrow>
      \<exists>v. ci_instance (ci m) w c row = Some v \<and> vv_shaped (emb_cs (fst (m4_chips m ! c))) v"
begin

lemma check_call_spec:
  assumes "ok m w" "vv_shaped cs values" "\<forall>opnd \<in> set (call_inout call). operand_wf cs opnd"
    and "call_chip_id call < length (m4_chips m)"
    and "ci_n_instances (ci m) w (call_chip_id call) = Some n"
    and "call_first_instance call + i < n" "i = (case caller of None \<Rightarrow> 0 | Some (_, i) \<Rightarrow> i)"
  shows "check_call (ci m) w m caller values k call \<noteq> Panic"
    "check_call (ci m) w m caller values k call = Ok () \<longleftrightarrow> call_served (ci m) w m values i call"
proof -
  let ?callee = "emb_cs (fst (m4_chips m ! call_chip_id call))"
  obtain inst where inst: "ci_instance (ci m) w (call_chip_id call) (call_first_instance call + i) = Some inst"
    "vv_shaped ?callee inst"
    using serves[OF assms(1,4,5,6)] by blast
  have r: "check_call (ci m) w m caller values k call =
      for_enum 0 (\<lambda>_. check_word (call_chip_id call) (call_first_instance call + i) caller k
        (call_inout call) values (served_words ?callee inst)) [0..<n_inout ?callee]"
    using assms(4) inst vv_inout_shaped[OF inst(2)]
    by (simp add: check_call_def assms(7)[symmetric] read_at_def Let_def split_def)
  note run = check_words_spec[OF assms(2,3) vv_inout_shaped[OF inst(2), THEN conjunct2]]
  show "check_call (ci m) w m caller values k call \<noteq> Panic"
    unfolding r by (rule run)
  show "check_call (ci m) w m caller values k call = Ok () \<longleftrightarrow> call_served (ci m) w m values i call"
    unfolding r by (simp add: run call_served_def inst Let_def)
qed

lemma check_caller_spec:
  assumes "ok m w" "vv_shaped (emb_cs e) values" "emb_wf e" "m4_wf m" "(caller_ix, e, n_active) \<in> set (m4_callers m)"
    and "i < n_active" "i = (case caller of None \<Rightarrow> 0 | Some (_, i) \<Rightarrow> i)"
    and "\<forall>call \<in> set (emb_chip_calls e). call_chip_id call < length (m4_chips m)"
    and "\<forall>c < length (m4_chips m). \<exists>n. ci_n_instances (ci m) w c = Some n \<and> snd (m4_chips m ! c) \<le> n"
  shows "check_caller (ci m) w m caller (emb_chip_calls e) values \<noteq> Panic"
    "check_caller (ci m) w m caller (emb_chip_calls e) values = Ok () \<longleftrightarrow>
      (\<forall>call \<in> set (emb_chip_calls e). call_served (ci m) w m values i call)"
proof -
  have one: "check_call (ci m) w m caller values k call \<noteq> Panic \<and>
      (check_call (ci m) w m caller values k call = Ok () \<longleftrightarrow> call_served (ci m) w m values i call)"
    if "call \<in> set (emb_chip_calls e)" for call k
  proof -
    have c: "call_chip_id call < length (m4_chips m)" using assms(8) that by blast
    then obtain n where n: "ci_n_instances (ci m) w (call_chip_id call) = Some n"
      "snd (m4_chips m ! call_chip_id call) \<le> n"
      using assms(9) by blast
    have row: "call_first_instance call + i < n"
      using m4_wf_row[OF assms(4,5) that assms(6) c] n(2) by simp
    have "\<forall>opnd \<in> set (call_inout call). operand_wf (emb_cs e) opnd"
      using assms(3) that by (auto simp: emb_wf_def)
    from check_call_spec[OF assms(1,2) this c n(1) row assms(7)] show ?thesis by blast
  qed
  show "check_caller (ci m) w m caller (emb_chip_calls e) values \<noteq> Panic"
    unfolding check_caller_def by (rule for_enum_no_panic) (simp add: one)
  show "check_caller (ci m) w m caller (emb_chip_calls e) values = Ok () \<longleftrightarrow>
      (\<forall>call \<in> set (emb_chip_calls e). call_served (ci m) w m values i call)"
    by (auto simp: check_caller_def for_enum_eq_Ok one all_set_conv_all_nth)
qed

lemma verify_chip_spec:
  assumes "ok m w" "ci_n_chips (ci m) w = length (m4_chips m)" "c < length (m4_chips m)"
    and "emb_wf (fst (m4_chips m ! c))" "cs_n_const (emb_cs (fst (m4_chips m ! c))) \<le> 2 ^ 30"
  shows "verify_chip (ci m) w c (m4_chips m ! c) \<noteq> Panic"
    "verify_chip (ci m) w c (m4_chips m ! c) = Ok () \<longleftrightarrow>
      (\<exists>n. ci_n_instances (ci m) w c = Some n \<and> snd (m4_chips m ! c) \<le> n \<and>
        (\<forall>row < n. \<exists>v. ci_instance (ci m) w c row = Some v \<and> vv_satisfies (emb_cs (fst (m4_chips m ! c))) v))"
proof -
  let ?cs = "emb_cs (fst (m4_chips m ! c))"
  obtain n where n: "ci_n_instances (ci m) w c = Some n" using counts[OF assms(1-3)] by blast
  have wf: "system_wf ?cs" using assms(4) by (simp add: emb_wf_def)
  have row: "\<exists>v. ci_instance (ci m) w c row = Some v \<and> cs_verify ?cs v \<noteq> Panic \<and>
      (cs_verify ?cs v = Ok () \<longleftrightarrow> vv_satisfies ?cs v)" if "row < n" for row
    using serves[OF assms(1,3) n that] cs_verify_spec[OF wf _ assms(5)] by (auto simp: vv_satisfies_def)
  have r: "verify_chip (ci m) w c (m4_chips m ! c) =
      (if n < snd (m4_chips m ! c) then Err (MissingInstances c n (snd (m4_chips m ! c)))
       else for_enum 0 (\<lambda>_ row. and_then (or_panic (ci_instance (ci m) w c row)) (\<lambda>v.
            map_err (ChipInstance c row) (cs_verify ?cs v))) [0..<n])"
    by (simp add: verify_chip_def n split_def)
  show "verify_chip (ci m) w c (m4_chips m ! c) \<noteq> Panic"
    unfolding r using row by (auto simp: for_enum_eq_Panic outcome_simps) (metis option.inject option.distinct(1))+
  show "verify_chip (ci m) w c (m4_chips m ! c) = Ok () \<longleftrightarrow>
      (\<exists>n. ci_n_instances (ci m) w c = Some n \<and> snd (m4_chips m ! c) \<le> n \<and>
        (\<forall>row < n. \<exists>v. ci_instance (ci m) w c row = Some v \<and> vv_satisfies ?cs v))"
    unfolding r using row by (auto simp: for_enum_eq_Ok outcome_simps n not_less) (metis option.inject)+
qed

lemma check_chip_spec:
  assumes "ok m w" "m4_wf m" "c < length (m4_chips m)"
    and H: "\<forall>c < length (m4_chips m). \<exists>n. ci_n_instances (ci m) w c = Some n \<and> snd (m4_chips m ! c) \<le> n"
  shows "check_chip (ci m) w m c (m4_chips m ! c) \<noteq> Panic"
    "check_chip (ci m) w m c (m4_chips m ! c) = Ok () \<longleftrightarrow>
      (\<forall>i < snd (m4_chips m ! c). \<exists>v. ci_instance (ci m) w c i = Some v \<and>
        (\<forall>call \<in> set (emb_chip_calls (fst (m4_chips m ! c))). call_served (ci m) w m v i call))"
proof -
  obtain e n_active where e: "m4_chips m ! c = (e, n_active)" by fastforce
  have wf: "emb_wf e" "\<forall>call \<in> set (emb_chip_calls e). call_chip_id call < length (m4_chips m)"
    using assms(2,3) e by (fastforce simp: m4_wf_def call_wf_def)+
  have mem: "(Some c, e, n_active) \<in> set (m4_callers m)"
  proof -
    have "(c, (e, n_active)) \<in> set (enumerate 0 (m4_chips m))"
      using assms(3) e by (simp add: in_set_enumerate_eq)
    then show ?thesis by (force simp: m4_callers_def)
  qed
  have row: "\<exists>v. ci_instance (ci m) w c i = Some v \<and>
      check_caller (ci m) w m (Some (c, i)) (emb_chip_calls e) v \<noteq> Panic \<and>
      (check_caller (ci m) w m (Some (c, i)) (emb_chip_calls e) v = Ok () \<longleftrightarrow>
        (\<forall>call \<in> set (emb_chip_calls e). call_served (ci m) w m v i call))" if i: "i < n_active" for i
  proof -
    obtain n where n: "ci_n_instances (ci m) w c = Some n" "n_active \<le> n" using H assms(3) e by fastforce
    obtain v where v: "ci_instance (ci m) w c i = Some v" "vv_shaped (emb_cs e) v"
      using serves[OF assms(1,3) n(1), of i] i n(2) e by auto
    then show ?thesis
      using check_caller_spec[OF assms(1) v(2) wf(1) assms(2) mem i _ wf(2) H, of "Some (c, i)"] by simp
  qed
  have r: "check_chip (ci m) w m c (m4_chips m ! c) =
      for_enum 0 (\<lambda>_ i. and_then (or_panic (ci_instance (ci m) w c i)) (\<lambda>values.
        check_caller (ci m) w m (Some (c, i)) (emb_chip_calls e) values)) [0..<n_active]"
    by (simp add: check_chip_def e)
  show "check_chip (ci m) w m c (m4_chips m ! c) \<noteq> Panic"
    unfolding r
  proof (rule for_enum_no_panic)
    fix k assume "k < length [0..<n_active]"
    then show "and_then (or_panic (ci_instance (ci m) w c ([0..<n_active] ! k)))
        (\<lambda>values. check_caller (ci m) w m (Some (c, [0..<n_active] ! k)) (emb_chip_calls e) values) \<noteq> Panic"
      using row[of k] by auto
  qed
  have one: "and_then (or_panic (ci_instance (ci m) w c i)) (\<lambda>values.
        check_caller (ci m) w m (Some (c, i)) (emb_chip_calls e) values) = Ok () \<longleftrightarrow>
      (\<exists>v. ci_instance (ci m) w c i = Some v \<and> (\<forall>call \<in> set (emb_chip_calls e). call_served (ci m) w m v i call))"
    if "i < n_active" for i
    using row[OF that] by auto
  show "check_chip (ci m) w m c (m4_chips m ! c) = Ok () \<longleftrightarrow>
      (\<forall>i < snd (m4_chips m ! c). \<exists>v. ci_instance (ci m) w c i = Some v \<and>
        (\<forall>call \<in> set (emb_chip_calls (fst (m4_chips m ! c))). call_served (ci m) w m v i call))"
    unfolding r by (simp add: for_enum_eq_Ok one e)
qed

lemma verify_spec:
  assumes "m4_wf m" "m4_indexable m" "ok m w" "vv_shaped (emb_cs (m4_main m)) main"
  shows "m4_verify (ci m) m main w \<noteq> Panic"
    "m4_verify (ci m) m main w = Ok () \<longleftrightarrow> m4_satisfied (ci m) m main w"
proof -
  let ?n = "length (m4_chips m)"
  let ?H = "\<forall>c < ?n. \<exists>n. ci_n_instances (ci m) w c = Some n \<and> snd (m4_chips m ! c) \<le> n"
  let ?C = "\<lambda>c. \<exists>n. ci_n_instances (ci m) w c = Some n \<and> snd (m4_chips m ! c) \<le> n \<and>
    (\<forall>row < n. \<exists>v. ci_instance (ci m) w c row = Some v \<and> vv_satisfies (emb_cs (fst (m4_chips m ! c))) v)"
  have main: "cs_verify (emb_cs (m4_main m)) main \<noteq> Panic"
    "cs_verify (emb_cs (m4_main m)) main = Ok () \<longleftrightarrow> vv_satisfies (emb_cs (m4_main m)) main"
    using cs_verify_spec[OF _ assms(4)] assms(1,2)
    by (simp_all add: m4_wf_def emb_wf_def m4_indexable_def vv_satisfies_def)
  have chip: "verify_chip (ci m) w c (m4_chips m ! c) \<noteq> Panic"
    "verify_chip (ci m) w c (m4_chips m ! c) = Ok () \<longleftrightarrow> ?C c"
    if "ci_n_chips (ci m) w = ?n" "c < ?n" for c
    by (rule verify_chip_spec[OF assms(3) that]; use assms(1,2) that in \<open>simp add: m4_wf_def m4_indexable_def\<close>)+
  have chips: "for_enum 0 (verify_chip (ci m) w) (m4_chips m) \<noteq> Panic"
    "for_enum 0 (verify_chip (ci m) w) (m4_chips m) = Ok () \<longleftrightarrow> (\<forall>c < ?n. ?C c)"
    if "ci_n_chips (ci m) w = ?n"
    by (rule for_enum_no_panic) (simp_all add: chip[OF that] for_enum_eq_Ok)
  have calls_main: "check_caller (ci m) w m None (emb_chip_calls (m4_main m)) main \<noteq> Panic"
    "check_caller (ci m) w m None (emb_chip_calls (m4_main m)) main = Ok () \<longleftrightarrow>
      (\<forall>call \<in> set (emb_chip_calls (m4_main m)). call_served (ci m) w m main 0 call)" if "?H"
    by (rule check_caller_spec[OF assms(3,4) _ assms(1), of None 1];
        use assms(1) that in \<open>auto simp: m4_wf_def m4_callers_def call_wf_def\<close>)+
  have calls: "for_enum 0 (check_chip (ci m) w m) (m4_chips m) \<noteq> Panic"
    "for_enum 0 (check_chip (ci m) w m) (m4_chips m) = Ok () \<longleftrightarrow>
      (\<forall>c < ?n. \<forall>i < snd (m4_chips m ! c). \<exists>v. ci_instance (ci m) w c i = Some v \<and>
        (\<forall>call \<in> set (emb_chip_calls (fst (m4_chips m ! c))). call_served (ci m) w m v i call))" if "?H"
    by (rule for_enum_no_panic) (simp_all add: check_chip_spec[OF assms(3,1) _ that] for_enum_eq_Ok)
  have H: "(\<forall>c < ?n. ?C c) \<Longrightarrow> ?H" by blast
  show "m4_verify (ci m) m main w \<noteq> Panic"
  proof -
    have vH: "?H" if "ci_n_chips (ci m) w = ?n" "for_enum 0 (verify_chip (ci m) w) (m4_chips m) = Ok ()"
      using that chips(2) H by blast
    show ?thesis
      unfolding m4_verify_def
      using main(1) chips(1) calls_main(1)[OF vH] calls(1)[OF vH] by (auto simp: outcome_simps)
  qed
  show "m4_verify (ci m) m main w = Ok () \<longleftrightarrow> m4_satisfied (ci m) m main w"
  proof (cases "ci_n_chips (ci m) w = ?n")
    case True
    have "m4_verify (ci m) m main w = Ok () \<longleftrightarrow>
        vv_satisfies (emb_cs (m4_main m)) main \<and> (\<forall>c < ?n. ?C c) \<and>
        check_caller (ci m) w m None (emb_chip_calls (m4_main m)) main = Ok () \<and>
        for_enum 0 (check_chip (ci m) w m) (m4_chips m) = Ok ()"
      using True main(2) chips(2)[OF True] by (simp add: m4_verify_def outcome_simps)
    then show ?thesis
      using True calls_main(2)[OF H] calls(2)[OF H] unfolding m4_satisfied_def by blast
  qed (simp add: m4_verify_def m4_satisfied_def)
qed

end

definition vecs_ok :: "m4_system \<Rightarrow> value_vec list list \<Rightarrow> bool" where
  "vecs_ok m w \<longleftrightarrow> (\<forall>c < length (m4_chips m). \<forall>rows. read_at w c = Some rows \<longrightarrow>
     (\<forall>v \<in> set rows. vv_shaped (emb_cs (fst (m4_chips m ! c))) v))"

interpretation vecs: chip_witness "\<lambda>_. vecs_instances" vecs_ok
  by unfold_locales (auto simp: vecs_instances_def vecs_ok_def read_at_def split: if_splits)

definition tables_ok :: "m4_system \<Rightarrow> value_table list \<Rightarrow> bool" where
  "tables_ok m w \<longleftrightarrow> (\<forall>c < length (m4_chips m). \<forall>t. read_at w c = Some t \<longrightarrow>
     (let cs = emb_cs (fst (m4_chips m ! c)) in tab_wf t \<and>
       lay_n_const (tab_layout t) = cs_n_const cs \<and> lay_n_inout (tab_layout t) = n_inout cs \<and>
       lay_n_private (tab_layout t) = n_private cs \<and> cs_n_const cs \<le> 2 ^ 30 \<and>
       cs_n_const cs + n_inout cs + n_private cs \<le> 2 ^ 32))"

lemma table_instance_shaped:
  assumes "tables_ok m w" "c < length (m4_chips m)" "read_at w c = Some t" "row < 2 ^ tab_log_instances t"
  shows "\<exists>v. instance_value_vec t row (constants (emb_cs (fst (m4_chips m ! c)))) = Some v \<and>
    vv_shaped (emb_cs (fst (m4_chips m ! c))) v"
proof -
  let ?cs = "emb_cs (fst (m4_chips m ! c))"
  have t: "tab_wf t" "lay_n_const (tab_layout t) = cs_n_const ?cs" "lay_n_inout (tab_layout t) = n_inout ?cs"
    "lay_n_private (tab_layout t) = n_private ?cs" "cs_n_const ?cs \<le> 2 ^ 30"
    "cs_n_const ?cs + n_inout ?cs + n_private ?cs \<le> 2 ^ 32"
    using assms(1-3) by (auto simp: tables_ok_def Let_def)
  then have "cs_n_const ?cs + tab_n_hidden_words t \<le> 2 ^ 32" by (simp add: tab_wf_def)
  then show ?thesis
    using instance_value_vec_words[OF t(1) assms(4), of "constants ?cs"] t
    by (auto simp: cs_n_const_def[symmetric] vv_shaped_def vv_new_def lay_offset_witness_def
        cs_n_public_values_def)
qed

interpretation tables: chip_witness table_instances tables_ok
proof unfold_locales
  show "\<exists>n. ci_n_instances (table_instances m) w c = Some n"
    if "tables_ok m w" "ci_n_chips (table_instances m) w = length (m4_chips m)" "c < length (m4_chips m)"
    for m w c
    using that tab_n_instances_wf[of "w ! c"]
    by (auto simp: table_instances_def read_at_def tables_ok_def Let_def)
  show "\<exists>v. ci_instance (table_instances m) w c row = Some v \<and> vv_shaped (emb_cs (fst (m4_chips m ! c))) v"
    if H: "tables_ok m w" "c < length (m4_chips m)" "ci_n_instances (table_instances m) w c = Some n" "row < n"
    for m w c n row
  proof -
    obtain t where t: "read_at w c = Some t" "tab_n_instances t = Some n"
      using H(3) by (auto simp: table_instances_def bind_eq_Some_conv)
    have "tab_wf t" using H(1,2) t(1) by (auto simp: tables_ok_def Let_def)
    then have "row < 2 ^ tab_log_instances t" using tab_n_instances_wf t(2) H(4) by simp
    from table_instance_shaped[OF H(1,2) t(1) this] show ?thesis
      using H(2) t(1) by (simp add: table_instances_def read_at_def split_def)
  qed
qed

section \<open>Properties of M4 systems\<close>

text \<open>Validating an M4 system never panics, whatever its calls name.\<close>

theorem m4_validate_never_panics: "m4_validate m \<noteq> Panic"
  by (rule m4_validate_total)

text \<open>C19: In a validated system the calls hand out each chip's active instances exactly once, in
  order, and every call of a chip goes to a later chip that takes at least the words it passes.\<close>

theorem m4_validate_claims_once:
  assumes "m4_validate m = Ok ()"
  shows "(\<forall>c < length (m4_chips m). claims (m4_calls m) c = [0..<snd (m4_chips m ! c)]) \<and>
    (\<forall>i < length (m4_chips m). \<forall>call \<in> set (emb_chip_calls (fst (m4_chips m ! i))).
      i < call_chip_id call \<and> call_chip_id call < length (m4_chips m) \<and>
      length (call_inout call) \<le> n_inout (emb_cs (fst (m4_chips m ! call_chip_id call))))"
  using m4_validate_wf[OF assms] by (auto simp: m4_wf_def call_wf_def)

text \<open>A main chip that calls chip 0, which calls chip 1 twice without operands.\<close>

definition sample_m4 :: m4_system where
  "sample_m4 =
    (let empty = \<lparr>constants = [], n_inout = 1, n_private = 0, zero_constraints = [], and_constraints = [],
           imul_constraints = [], bmul_constraints = []\<rparr>;
         inout0 = [svi_plain (ValueIndex 0x40000000)]
     in \<lparr>m4_main = \<lparr>emb_cs = empty,
           emb_chip_calls = [\<lparr>call_chip_id = 0, call_first_instance = 0, call_inout = [inout0]\<rparr>]\<rparr>,
         m4_chips =
          [(\<lparr>emb_cs = empty,
             emb_chip_calls = [\<lparr>call_chip_id = 1, call_first_instance = 0, call_inout = []\<rparr>,
               \<lparr>call_chip_id = 1, call_first_instance = 1, call_inout = []\<rparr>]\<rparr>, 1),
           (\<lparr>emb_cs = empty\<lparr>zero_constraints := [ZeroConstraint inout0]\<rparr>, emb_chip_calls = []\<rparr>, 2)]\<rparr>)"

lemma sample_m4_valid: "m4_validate sample_m4 = Ok ()"
proof -
  have t: "operand_wf \<lparr>constants = [], n_inout = 1, n_private = 0, zero_constraints = zs, and_constraints = [],
      imul_constraints = [], bmul_constraints = []\<rparr> [svi_plain (ValueIndex 0x40000000)]" for zs
    by (simp add: operand_wf_def term_wf_def svi_plain_def svi_single_def svi_new_def svi_inner_def
        svi_outer_def shift_wf_def is_canonical_def is_identity_def IDENTITY_def valid_shift_def
        vi_segment_def vi_index_def segment_from_tag_def unat_and_mask)
  show ?thesis
    by (simp add: m4_validate_eq_Ok sample_m4_def Let_def emb_wf_def All_less_Suc2 system_wf_def
        system_operands_def zero_operands_def t[unfolded One_nat_def] call_wf_def
        validate_instances_def m4_callers_def read_at_def checked_add_def)
qed

theorem m4_validate_claims_once_witness:
  "claims (m4_calls sample_m4) 0 = [0] \<and> claims (m4_calls sample_m4) 1 = [0, 1]"
  using m4_validate_claims_once[OF sample_m4_valid]
  by (simp add: sample_m4_def Let_def All_less_Suc2 upt_rec)

text \<open>C20: Take a validated system in which no circuit has more constants than a value index can name, value
  tables that are well-formed with the layout of their chips (their number and their numbers of instances
  may be wrong), and a main vector of the main circuit's shape.  Checking them never panics and accepts
  exactly the satisfying witnesses: every instance of every chip satisfies the chip, and every call of every
  active instance passes the words its callee instance holds, zeroes included.\<close>

theorem witness_verify_exact:
  assumes "m4_validate m = Ok ()" "m4_indexable m" "tables_ok m (wit_tables wit)"
    and "vv_shaped (emb_cs (m4_main m)) (wit_main wit)"
  shows "witness_verify wit m \<noteq> Panic \<and>
    (witness_verify wit m = Ok () \<longleftrightarrow> m4_satisfied (table_instances m) m (wit_main wit) (wit_tables wit))"
  using tables.verify_spec[OF m4_validate_wf[OF assms(1)] assms(2-4)] by (simp add: witness_verify_def)

definition sample_witness :: witness_m4 where
  "sample_witness =
    (let l = \<lparr>lay_n_const = 0, lay_n_inout = 1, lay_n_witness = 0, lay_n_internal = 0, lay_n_scratch = 0\<rparr>
     in \<lparr>wit_main = \<lparr>vv_n_const = 0, vv_n_public_values = 1, vv_n_private = 0,
           vv_data = \<lparr>blocks = [(5, 0)], aw_len = 1\<rparr>\<rparr>,
         wit_tables =
           [\<lparr>tab_layout = l, tab_log_instances = 0, tab_n_hidden_words = 1, tab_data = [5]\<rparr>,
            \<lparr>tab_layout = l, tab_log_instances = 1, tab_n_hidden_words = 1, tab_data = [0, 0]\<rparr>]\<rparr>)"

lemma sample_main_shaped: "vv_shaped (emb_cs (m4_main sample_m4)) (wit_main sample_witness)"
  by (simp add: vv_shaped_def sample_m4_def sample_witness_def Let_def vv_wf_def vv_size_def aw_ok_def
      aw_deref_def cs_n_const_def cs_n_public_values_def)

lemma sample_m4_indexable: "m4_indexable sample_m4"
  by (simp add: m4_indexable_def sample_m4_def Let_def cs_n_const_def All_less_Suc2)

theorem witness_verify_exact_witness:
  "witness_verify sample_witness sample_m4 \<noteq> Panic \<and>
    (witness_verify sample_witness sample_m4 = Ok () \<longleftrightarrow>
      m4_satisfied (table_instances sample_m4) sample_m4 (wit_main sample_witness) (wit_tables sample_witness))"
proof (rule witness_verify_exact[OF sample_m4_valid sample_m4_indexable _ sample_main_shaped])
  show "tables_ok sample_m4 (wit_tables sample_witness)"
    by (simp add: tables_ok_def sample_m4_def sample_witness_def Let_def read_at_def tab_wf_def
        lay_n_private_def cs_n_const_def All_less_Suc2)
qed

text \<open>C28: Under the same bound on constants, the same holds of a witness that gives the instances of each
  chip as a list of value vectors: when every vector has the shape of its chip, checking never panics and
  accepts exactly the satisfying witnesses.\<close>

theorem vecs_verify_exact:
  assumes "m4_validate m = Ok ()" "m4_indexable m" "vecs_ok m w" "vv_shaped (emb_cs (m4_main m)) main"
  shows "m4_verify vecs_instances m main w \<noteq> Panic \<and>
    (m4_verify vecs_instances m main w = Ok () \<longleftrightarrow> m4_satisfied vecs_instances m main w)"
  using vecs.verify_spec[OF m4_validate_wf[OF assms(1)] assms(2-4)] by simp

theorem vecs_verify_exact_witness:
  "let v = (\<lambda>w. \<lparr>vv_n_const = 0, vv_n_public_values = 1, vv_n_private = 0,
        vv_data = \<lparr>blocks = [(w, 0)], aw_len = 1\<rparr>\<rparr>); ws = [[v 5], [v 0, v 0]]
   in m4_verify vecs_instances sample_m4 (v 5) ws \<noteq> Panic \<and>
    (m4_verify vecs_instances sample_m4 (v 5) ws = Ok () \<longleftrightarrow> m4_satisfied vecs_instances sample_m4 (v 5) ws)"
  unfolding Let_def
proof (rule vecs_verify_exact[OF sample_m4_valid sample_m4_indexable])
  show "vv_shaped (emb_cs (m4_main sample_m4)) \<lparr>vv_n_const = 0, vv_n_public_values = 1, vv_n_private = 0,
        vv_data = \<lparr>blocks = [(5, 0)], aw_len = 1\<rparr>\<rparr>"
    using sample_main_shaped by (simp add: sample_witness_def Let_def)
qed (simp add: vecs_ok_def sample_m4_def Let_def read_at_def vv_shaped_def vv_wf_def vv_size_def
    aw_ok_def aw_deref_def cs_n_const_def cs_n_public_values_def All_less_Suc2)

end
