(* ===== verification/Serialization.thy ===== *)
theory Serialization
  imports Binius_Prelude "HOL-Library.Sublist"
begin

text \<open>
  The byte format of \<open>utils/src/serialization.rs\<close>.  A write buffer is the bytes written and the
  room left; a read buffer is the bytes not yet read.  The contract of a format is the locale
  \<open>codec\<close>, and \<open>strict_codec\<close> when reading is the exact inverse of writing.
\<close>

unbundle bit_operations_syntax

datatype serialization_error =
  WriteBufferFull
| NotEnoughBytes
| UnknownEnumVariant string u8
| FromUtf8Error
| InvalidConstruction string
| UsizeTooLarge nat

type_synonym write_buf = "u8 list \<times> nat"
type_synonym 'a put = "'a \<Rightarrow> write_buf \<Rightarrow> (serialization_error, write_buf) outcome"
type_synonym 'a get = "u8 list \<Rightarrow> (serialization_error, 'a \<times> u8 list) outcome"

section \<open>Integers\<close>

definition put_bytes :: "u8 list put" where
  "put_bytes bs b = (case b of (done, room) \<Rightarrow>
     if room < length bs then Err WriteBufferFull else Ok (done @ bs, room - length bs))"

definition get_bytes :: "nat \<Rightarrow> u8 list get" where
  "get_bytes n bs = (if length bs < n then Err NotEnoughBytes else Ok (take n bs, drop n bs))"

definition le_bytes :: "nat \<Rightarrow> 'a::len word \<Rightarrow> u8 list" where
  "le_bytes n w = map (\<lambda>i. ucast (drop_bit (8 * i) w)) [0..<n]"

definition from_le :: "u8 list \<Rightarrow> 'a::len word" where
  "from_le bs = foldr (\<lambda>b acc. ucast b OR push_bit 8 acc) bs 0"

definition u8_put :: "u8 put" where "u8_put w = put_bytes (le_bytes 1 w)"
definition u8_get :: "u8 get" where
  "u8_get bs = and_then (get_bytes 1 bs) (\<lambda>(x, rest). Ok (from_le x, rest))"
definition u16_put :: "16 word put" where "u16_put w = put_bytes (le_bytes 2 w)"
definition u16_get :: "16 word get" where
  "u16_get bs = and_then (get_bytes 2 bs) (\<lambda>(x, rest). Ok (from_le x, rest))"
definition u32_put :: "u32 put" where "u32_put w = put_bytes (le_bytes 4 w)"
definition u32_get :: "u32 get" where
  "u32_get bs = and_then (get_bytes 4 bs) (\<lambda>(x, rest). Ok (from_le x, rest))"
definition u64_put :: "u64 put" where "u64_put w = put_bytes (le_bytes 8 w)"
definition u64_get :: "u64 get" where
  "u64_get bs = and_then (get_bytes 8 bs) (\<lambda>(x, rest). Ok (from_le x, rest))"
definition u128_put :: "u128 put" where "u128_put w = put_bytes (le_bytes 16 w)"
definition u128_get :: "u128 get" where
  "u128_get bs = and_then (get_bytes 16 bs) (\<lambda>(x, rest). Ok (from_le x, rest))"

text \<open>A \<open>usize\<close> travels as a \<open>u32\<close>.\<close>

definition usize_put :: "nat put" where
  "usize_put n b = (if n < 2 ^ 32 then u32_put (word_of_nat n) b else Err (UsizeTooLarge n))"

definition usize_get :: "nat get" where
  "usize_get bs = and_then (u32_get bs) (\<lambda>(x, rest). Ok (unat x, rest))"

definition bool_put :: "bool put" where "bool_put x = u8_put (of_bool x)"
definition bool_get :: "bool get" where
  "bool_get bs = and_then (u8_get bs) (\<lambda>(x, rest). Ok (x \<noteq> 0, rest))"

section \<open>Containers\<close>

fun items_put :: "'a put \<Rightarrow> 'a list put" where
  "items_put put [] b = Ok b"
| "items_put put (x # xs) b = and_then (put x b) (items_put put xs)"

fun items_get :: "'a get \<Rightarrow> nat \<Rightarrow> 'a list get" where
  "items_get get 0 bs = Ok ([], bs)"
| "items_get get (Suc n) bs =
    and_then (get bs) (\<lambda>(x, bs). and_then (items_get get n bs) (\<lambda>(xs, bs). Ok (x # xs, bs)))"

definition vec_put :: "'a put \<Rightarrow> 'a list put" where
  "vec_put put xs b = and_then (usize_put (length xs) b) (items_put put xs)"

definition vec_get :: "'a get \<Rightarrow> 'a list get" where
  "vec_get get bs = and_then (usize_get bs) (\<lambda>(len, bs). items_get get len bs)"

definition array_put :: "'a put \<Rightarrow> 'a list put" where "array_put put xs = items_put put xs"
definition array_get :: "nat \<Rightarrow> 'a get \<Rightarrow> 'a list get" where "array_get n get = items_get get n"

definition option_put :: "'a put \<Rightarrow> 'a option put" where
  "option_put put x b =
    (case x of
       Some value \<Rightarrow> and_then (bool_put True b) (put value)
     | None \<Rightarrow> bool_put False b)"

definition option_get :: "'a get \<Rightarrow> 'a option get" where
  "option_get get bs = and_then (bool_get bs) (\<lambda>(flag, bs).
    if flag then and_then (get bs) (\<lambda>(x, bs). Ok (Some x, bs)) else Ok (None, bs))"

definition pair_put :: "'a put \<Rightarrow> 'b put \<Rightarrow> ('a \<times> 'b) put" where
  "pair_put pa pb x b = (case x of (u, v) \<Rightarrow> and_then (pa u b) (pb v))"

definition pair_get :: "'a get \<Rightarrow> 'b get \<Rightarrow> ('a \<times> 'b) get" where
  "pair_get ga gb bs = and_then (ga bs) (\<lambda>(u, bs). and_then (gb bs) (\<lambda>(v, bs). Ok ((u, v), bs)))"

text \<open>Fixed arrays of bytes.\<close>

definition byte_array_put :: "u8 list put" where "byte_array_put xs = put_bytes xs"
definition byte_array_get :: "nat \<Rightarrow> u8 list get" where "byte_array_get n = get_bytes n"

section \<open>Strings\<close>

text \<open>A string is its UTF-8 bytes; which byte sequences are well formed is the Unicode table the
  standard library implements.\<close>

definition utf8_cont :: "u8 \<Rightarrow> bool" where
  "utf8_cont b \<longleftrightarrow> 0x80 \<le> b \<and> b \<le> 0xBF"

fun utf8_valid :: "u8 list \<Rightarrow> bool" where
  "utf8_valid [] = True"
| "utf8_valid (a # bs) =
    (if a < 0x80 then utf8_valid bs
     else case bs of
       [] \<Rightarrow> False
     | b # cs \<Rightarrow>
         if 0xC2 \<le> a \<and> a \<le> 0xDF then utf8_cont b \<and> utf8_valid cs
         else case cs of
           [] \<Rightarrow> False
         | c # ds \<Rightarrow>
             if 0xE0 \<le> a \<and> a \<le> 0xEF then
               utf8_cont b \<and> utf8_cont c \<and> (a = 0xE0 \<longrightarrow> 0xA0 \<le> b) \<and> (a = 0xED \<longrightarrow> b \<le> 0x9F) \<and> utf8_valid ds
             else case ds of
               [] \<Rightarrow> False
             | d # es \<Rightarrow>
                 0xF0 \<le> a \<and> a \<le> 0xF4 \<and> utf8_cont b \<and> utf8_cont c \<and> utf8_cont d \<and>
                 (a = 0xF0 \<longrightarrow> 0x90 \<le> b) \<and> (a = 0xF4 \<longrightarrow> b \<le> 0x8F) \<and> utf8_valid es)"

definition str_put :: "u8 list put" where
  "str_put s b = and_then (usize_put (length s) b) (put_bytes s)"

definition string_get :: "u8 list get" where
  "string_get bs = and_then (usize_get bs) (\<lambda>(len, bs).
    and_then (get_bytes len bs) (\<lambda>(s, bs). if utf8_valid s then Ok (s, bs) else Err FromUtf8Error))"

section \<open>Little-endian words\<close>

lemma bit_from_le:
  "bit (from_le bs :: 'a::len word) i \<longleftrightarrow>
    i < LENGTH('a) \<and> i div 8 < length bs \<and> bit (bs ! (i div 8)) (i mod 8)"
proof (induction bs arbitrary: i)
  case Nil
  then show ?case by (simp add: from_le_def)
next
  case (Cons b bs)
  have "bit (from_le (b # bs) :: 'a word) i \<longleftrightarrow>
      i < LENGTH('a) \<and> (bit b i \<or> 8 \<le> i \<and> bit (from_le bs :: 'a word) (i - 8))"
    by (auto simp: from_le_def bit_or_iff bit_ucast_iff bit_push_bit_iff possible_bit_word dest: bit_imp_le_length)
  also have "\<dots> \<longleftrightarrow> i < LENGTH('a) \<and> i div 8 < length (b # bs) \<and> bit ((b # bs) ! (i div 8)) (i mod 8)"
  proof (cases "i < 8")
    case True
    then show ?thesis by simp
  next
    case False
    then obtain k where k: "i = k + 8" by (metis le_add_diff_inverse2 not_less)
    have "(k + 8) div 8 = Suc (k div 8)" by simp
    moreover have "\<not> bit b i" using False by (simp add: impossible_bit)
    ultimately show ?thesis using k by (auto simp: Cons.IH simp del: div_add_self2)
  qed
  finally show ?case .
qed

lemma length_le_bytes [simp]: "length (le_bytes n w) = n"
  by (simp add: le_bytes_def)

lemma from_le_bytes:
  assumes "LENGTH('a) = 8 * n"
  shows "from_le (le_bytes n w) = (w :: 'a::len word)"
proof (rule bit_eqI)
  fix i
  assume "possible_bit TYPE('a word) i"
  then have "i < 8 * n" "i div 8 < n" using assms by (auto simp: possible_bit_word)
  then show "bit (from_le (le_bytes n w) :: 'a word) i = bit w i"
    using assms by (simp add: bit_from_le le_bytes_def bit_ucast_iff bit_drop_bit_eq)
qed

lemma le_bytes_from_le:
  assumes "LENGTH('a) = 8 * length bs"
  shows "le_bytes (length bs) (from_le bs :: 'a::len word) = bs"
proof (rule nth_equalityI)
  fix k assume k: "k < length (le_bytes (length bs) (from_le bs :: 'a word))"
  show "le_bytes (length bs) (from_le bs :: 'a word) ! k = bs ! k"
  proof (rule bit_eqI)
    fix i assume "possible_bit TYPE(8 word) i"
    then have i: "i < 8" by (simp add: possible_bit_word)
    then have "(8 * k + i) div 8 = k" "(8 * k + i) mod 8 = i" "8 * k + i < LENGTH('a)"
      using k assms by auto
    then show "bit (le_bytes (length bs) (from_le bs :: 'a word) ! k) i = bit (bs ! k) i"
      using k i by (simp add: le_bytes_def bit_ucast_iff bit_drop_bit_eq bit_from_le)
  qed
qed simp

section \<open>Formats\<close>

text \<open>
  A format writes the encoding of every valid value, or nothing but an error when the buffer is
  too short; reads an encoding back, leaving the rest; reports a truncated encoding as such;
  and never panics.
\<close>

locale codec =
  fixes put :: "'a put" and get :: "'a get" and enc :: "'a \<Rightarrow> u8 list" and valid :: "'a \<Rightarrow> bool"
  assumes put_valid: "valid x \<Longrightarrow> put x (pre, room) =
      (if length (enc x) \<le> room then Ok (pre @ enc x, room - length (enc x)) else Err WriteBufferFull)"
    and get_enc: "valid x \<Longrightarrow> get (enc x @ rest) = Ok (x, rest)"
    and get_truncated: "valid x \<Longrightarrow> strict_prefix p (enc x) \<Longrightarrow> get p = Err NotEnoughBytes"
    and get_total: "get bs \<noteq> Panic"

locale strict_codec = codec +
  assumes get_strict: "get bs = Ok (x, rest) \<Longrightarrow> valid x \<and> bs = enc x @ rest"

lemma strict_prefix_append_cases:
  assumes "strict_prefix p (xs @ ys)"
  obtains "strict_prefix p xs" | q where "p = xs @ q" "strict_prefix q ys"
proof -
  have "prefix p (xs @ ys)" "p \<noteq> xs @ ys" using assms by (simp_all add: strict_prefix_def)
  then consider "prefix p xs" | q where "p = xs @ q" "prefix q ys"
    by (metis prefix_append)
  then show ?thesis
  proof cases
    case 1
    show ?thesis
    proof (cases "p = xs")
      case True
      then have "ys \<noteq> []" using \<open>p \<noteq> xs @ ys\<close> by auto
      then have "strict_prefix [] ys" by (cases ys) auto
      then show ?thesis using that(2)[of "[]"] True by simp
    next
      case False
      then show ?thesis using that(1) 1 by (simp add: strict_prefix_def)
    qed
  next
    case 2
    then have "q \<noteq> ys" using \<open>p \<noteq> xs @ ys\<close> by auto
    then show ?thesis using that(2) 2 by (simp add: strict_prefix_def)
  qed
qed

lemma bytes_codec:
  assumes "\<And>x. length (f x) = n" "\<And>x. g (f x) = x" "\<And>bs. length bs = n \<Longrightarrow> f (g bs) = bs"
  shows "strict_codec (\<lambda>x. put_bytes (f x)) (\<lambda>bs. and_then (get_bytes n bs) (\<lambda>(x, rest). Ok (g x, rest)))
    f (\<lambda>_. True)"
proof unfold_locales
  fix x pre room rest p bs
  show "put_bytes (f x) (pre, room) =
      (if length (f x) \<le> room then Ok (pre @ f x, room - length (f x)) else Err WriteBufferFull)"
    by (simp add: put_bytes_def)
  show "and_then (get_bytes n (f x @ rest)) (\<lambda>(x, rest). Ok (g x, rest)) = Ok (x, rest)"
    by (simp add: get_bytes_def assms(1,2))
  show "and_then (get_bytes n bs) (\<lambda>(x, rest). Ok (g x, rest)) \<noteq> Panic"
    by (simp add: get_bytes_def)
  show "and_then (get_bytes n p) (\<lambda>(x, rest). Ok (g x, rest)) = Err NotEnoughBytes"
    if "strict_prefix p (f x)"
    using prefix_length_less[OF that] by (simp add: get_bytes_def assms(1))
  show "True \<and> bs = f x @ rest" if "and_then (get_bytes n bs) (\<lambda>(x, rest). Ok (g x, rest)) = Ok (x, rest)"
    using that assms(3)[of "take n bs"] by (auto simp: get_bytes_def split: if_splits)
qed

definition u8_enc :: "u8 \<Rightarrow> u8 list" where "u8_enc = le_bytes 1"

interpretation u8: strict_codec u8_put u8_get u8_enc "\<lambda>_. True"
  using bytes_codec[of "le_bytes 1 :: u8 \<Rightarrow> _" 1 from_le] from_le_bytes[where 'a = 8 and n = 1]
    le_bytes_from_le[where 'a = 8]
  unfolding u8_put_def[abs_def] u8_get_def[abs_def] u8_enc_def by simp

interpretation u16: strict_codec u16_put u16_get "le_bytes 2" "\<lambda>_. True"
  using bytes_codec[of "le_bytes 2 :: 16 word \<Rightarrow> _" 2 from_le] from_le_bytes[where 'a = 16 and n = 2]
    le_bytes_from_le[where 'a = 16]
  unfolding u16_put_def[abs_def] u16_get_def[abs_def] by simp

interpretation u32: strict_codec u32_put u32_get "le_bytes 4" "\<lambda>_. True"
  using bytes_codec[of "le_bytes 4 :: u32 \<Rightarrow> _" 4 from_le] from_le_bytes[where 'a = 32 and n = 4]
    le_bytes_from_le[where 'a = 32]
  unfolding u32_put_def[abs_def] u32_get_def[abs_def] by simp

interpretation u64: strict_codec u64_put u64_get "le_bytes 8" "\<lambda>_. True"
  using bytes_codec[of "le_bytes 8 :: u64 \<Rightarrow> _" 8 from_le] from_le_bytes[where 'a = 64 and n = 8]
    le_bytes_from_le[where 'a = 64]
  unfolding u64_put_def[abs_def] u64_get_def[abs_def] by simp

interpretation u128: strict_codec u128_put u128_get "le_bytes 16" "\<lambda>_. True"
  using bytes_codec[of "le_bytes 16 :: u128 \<Rightarrow> _" 16 from_le] from_le_bytes[where 'a = 128 and n = 16]
    le_bytes_from_le[where 'a = 128]
  unfolding u128_put_def[abs_def] u128_get_def[abs_def] by simp

section \<open>Sizes and flags\<close>

definition usize_enc :: "nat \<Rightarrow> u8 list" where "usize_enc n = le_bytes 4 (word_of_nat n :: u32)"
definition bool_enc :: "bool \<Rightarrow> u8 list" where "bool_enc x = u8_enc (of_bool x)"

lemma unat_less_32: "unat (w :: u32) < 2 ^ 32"
  using unsigned_less[of w, where 'a = nat] by simp

interpretation usize: strict_codec usize_put usize_get usize_enc "\<lambda>n. n < 2 ^ 32"
proof unfold_locales
  fix n pre room rest p bs
  show "usize_get bs \<noteq> Panic"
    by (auto simp: usize_get_def outcome_simps u32.get_total)
  show "n < 2 ^ 32 \<and> bs = usize_enc n @ rest" if "usize_get bs = Ok (n, rest)"
    using that unat_less_32 by (auto simp: usize_get_def outcome_simps usize_enc_def dest!: u32.get_strict)
  assume n: "n < (2 :: nat) ^ 32"
  show "usize_put n (pre, room) = (if length (usize_enc n) \<le> room
      then Ok (pre @ usize_enc n, room - length (usize_enc n)) else Err WriteBufferFull)"
    using n by (simp add: usize_put_def usize_enc_def u32.put_valid)
  show "usize_get (usize_enc n @ rest) = Ok (n, rest)"
    using n by (simp add: usize_get_def usize_enc_def u32.get_enc unat_of_nat)
  show "usize_get p = Err NotEnoughBytes" if "strict_prefix p (usize_enc n)"
    using u32.get_truncated[where x = "word_of_nat n" and p = p] that by (simp add: usize_get_def usize_enc_def)
qed

interpretation bool: codec bool_put bool_get bool_enc "\<lambda>_. True"
proof unfold_locales
  fix x pre room rest p bs
  show "bool_put x (pre, room) = (if length (bool_enc x) \<le> room
      then Ok (pre @ bool_enc x, room - length (bool_enc x)) else Err WriteBufferFull)"
    by (simp add: bool_put_def bool_enc_def u8.put_valid)
  show "bool_get (bool_enc x @ rest) = Ok (x, rest)"
    by (simp add: bool_get_def bool_enc_def u8.get_enc)
  show "bool_get bs \<noteq> Panic"
    by (auto simp: bool_get_def outcome_simps u8.get_total)
  show "bool_get p = Err NotEnoughBytes" if "strict_prefix p (bool_enc x)"
    using u8.get_truncated[where x = "of_bool x" and p = p] that by (simp add: bool_get_def bool_enc_def)
qed

section \<open>Pairs, sequences and options\<close>

definition pair_enc :: "('a \<Rightarrow> u8 list) \<Rightarrow> ('b \<Rightarrow> u8 list) \<Rightarrow> 'a \<times> 'b \<Rightarrow> u8 list" where
  "pair_enc ea eb x = ea (fst x) @ eb (snd x)"

definition items_enc :: "('a \<Rightarrow> u8 list) \<Rightarrow> 'a list \<Rightarrow> u8 list" where
  "items_enc e xs = concat (map e xs)"

definition vec_enc :: "('a \<Rightarrow> u8 list) \<Rightarrow> 'a list \<Rightarrow> u8 list" where
  "vec_enc e xs = usize_enc (length xs) @ items_enc e xs"

definition option_enc :: "('a \<Rightarrow> u8 list) \<Rightarrow> 'a option \<Rightarrow> u8 list" where
  "option_enc e x = (case x of None \<Rightarrow> bool_enc False | Some v \<Rightarrow> bool_enc True @ e v)"

lemma pair_codec:
  assumes a: "codec pa ga ea va" and b: "codec pb gb eb vb"
  shows "codec (pair_put pa pb) (pair_get ga gb) (pair_enc ea eb) (\<lambda>(x, y). va x \<and> vb y)"
proof unfold_locales
  note A = codec.put_valid[OF a] codec.get_enc[OF a] codec.get_total[OF a]
  note B = codec.put_valid[OF b] codec.get_enc[OF b] codec.get_total[OF b]
  fix x :: "'a \<times> 'b" and pre room rest p bs
  show "pair_get ga gb bs \<noteq> Panic"
    by (auto simp: pair_get_def outcome_simps A B)
  assume v: "case x of (x, y) \<Rightarrow> va x \<and> vb y"
  obtain y z where x: "x = (y, z)" "va y" "vb z" using v by (cases x) auto
  show "pair_put pa pb x (pre, room) = (if length (pair_enc ea eb x) \<le> room
      then Ok (pre @ pair_enc ea eb x, room - length (pair_enc ea eb x)) else Err WriteBufferFull)"
    using x by (auto simp: pair_put_def pair_enc_def A B)
  show "pair_get ga gb (pair_enc ea eb x @ rest) = Ok (x, rest)"
    using x by (simp add: pair_get_def pair_enc_def A B)
  show "pair_get ga gb p = Err NotEnoughBytes" if "strict_prefix p (pair_enc ea eb x)"
    using that unfolding pair_enc_def
  proof (cases rule: strict_prefix_append_cases)
    case 1
    then show ?thesis using codec.get_truncated[OF a x(2)] x by (simp add: pair_get_def)
  next
    case (2 q)
    then show ?thesis using codec.get_truncated[OF b x(3)] x by (simp add: pair_get_def A)
  qed
qed

lemma pair_strict:
  assumes a: "strict_codec pa ga ea va" and b: "strict_codec pb gb eb vb"
  shows "strict_codec (pair_put pa pb) (pair_get ga gb) (pair_enc ea eb) (\<lambda>(x, y). va x \<and> vb y)"
proof (rule strict_codec.intro)
  show "codec (pair_put pa pb) (pair_get ga gb) (pair_enc ea eb) (\<lambda>(x, y). va x \<and> vb y)"
    by (rule pair_codec) (use a b in \<open>simp_all add: strict_codec_def\<close>)
  show "strict_codec_axioms (pair_get ga gb) (pair_enc ea eb) (\<lambda>(x, y). va x \<and> vb y)"
    by unfold_locales
      (auto simp: pair_get_def pair_enc_def outcome_simps
        dest!: strict_codec.get_strict[OF a] strict_codec.get_strict[OF b])
qed

context codec
begin

lemma items_valid:
  "\<forall>x \<in> set xs. valid x \<Longrightarrow> items_put put xs (pre, room) = (if length (items_enc enc xs) \<le> room
    then Ok (pre @ items_enc enc xs, room - length (items_enc enc xs)) else Err WriteBufferFull)"
  by (induction xs arbitrary: pre room) (auto simp: items_enc_def put_valid)

lemma items_get_enc: "\<forall>x \<in> set xs. valid x \<Longrightarrow> items_get get (length xs) (items_enc enc xs @ rest) = Ok (xs, rest)"
  by (induction xs) (simp_all add: items_enc_def get_enc)

lemma items_get_total: "items_get get n bs \<noteq> Panic"
  by (induction n arbitrary: bs) (auto simp: outcome_simps get_total)

lemma items_get_truncated:
  "\<forall>x \<in> set xs. valid x \<Longrightarrow> strict_prefix p (items_enc enc xs) \<Longrightarrow> items_get get (length xs) p = Err NotEnoughBytes"
proof (induction xs arbitrary: p)
  case Nil
  then show ?case by (simp add: items_enc_def)
next
  case (Cons x xs)
  have "strict_prefix p (enc x @ items_enc enc xs)" using Cons.prems(2) by (simp add: items_enc_def)
  then show ?case
  proof (cases rule: strict_prefix_append_cases)
    case 1
    then show ?thesis using get_truncated[of x p] Cons.prems(1) by simp
  next
    case (2 q)
    then show ?thesis using Cons by (simp add: get_enc)
  qed
qed

lemma array_codec: "codec (array_put put) (array_get n get) (items_enc enc) (\<lambda>xs. length xs = n \<and> (\<forall>x \<in> set xs. valid x))"
  by unfold_locales
    (auto simp: array_put_def array_get_def items_valid items_get_enc items_get_total items_get_truncated)

lemma vec_codec: "codec (vec_put put) (vec_get get) (vec_enc enc) (\<lambda>xs. length xs < 2 ^ 32 \<and> (\<forall>x \<in> set xs. valid x))"
proof unfold_locales
  fix xs :: "'a list" and pre room rest p bs
  show "vec_get get bs \<noteq> Panic"
    by (auto simp: vec_get_def outcome_simps usize.get_total items_get_total)
  assume v: "length xs < 2 ^ 32 \<and> (\<forall>x \<in> set xs. valid x)"
  show "vec_put put xs (pre, room) = (if length (vec_enc enc xs) \<le> room
      then Ok (pre @ vec_enc enc xs, room - length (vec_enc enc xs)) else Err WriteBufferFull)"
    using v by (auto simp: vec_put_def vec_enc_def usize.put_valid items_valid)
  show "vec_get get (vec_enc enc xs @ rest) = Ok (xs, rest)"
    using v by (simp add: vec_get_def vec_enc_def usize.get_enc items_get_enc)
  show "vec_get get p = Err NotEnoughBytes" if "strict_prefix p (vec_enc enc xs)"
    using that unfolding vec_enc_def
  proof (cases rule: strict_prefix_append_cases)
    case 1
    then show ?thesis
      using usize.get_truncated[where x = "length xs" and p = p] v by (simp add: vec_get_def)
  next
    case (2 q)
    then show ?thesis using v by (simp add: vec_get_def usize.get_enc items_get_truncated)
  qed
qed

lemma option_codec: "codec (option_put put) (option_get get) (option_enc enc) (\<lambda>x. \<forall>v. x = Some v \<longrightarrow> valid v)"
proof unfold_locales
  fix x :: "'a option" and pre room rest p bs
  show "option_get get bs \<noteq> Panic"
    by (auto simp: option_get_def outcome_simps bool.get_total get_total split: if_splits)
  assume v: "\<forall>v. x = Some v \<longrightarrow> valid v"
  show "option_put put x (pre, room) = (if length (option_enc enc x) \<le> room
      then Ok (pre @ option_enc enc x, room - length (option_enc enc x)) else Err WriteBufferFull)"
    using v by (cases x) (auto simp: option_put_def option_enc_def bool.put_valid put_valid)
  show "option_get get (option_enc enc x @ rest) = Ok (x, rest)"
    using v by (cases x) (simp_all add: option_get_def option_enc_def bool.get_enc get_enc)
  show "option_get get p = Err NotEnoughBytes" if t: "strict_prefix p (option_enc enc x)"
  proof (cases x)
    case None
    then show ?thesis using t bool.get_truncated[where x = False and p = p]
      by (simp add: option_get_def option_enc_def)
  next
    case (Some y)
    then have "strict_prefix p (bool_enc True @ enc y)" using t by (simp add: option_enc_def)
    then show ?thesis
    proof (cases rule: strict_prefix_append_cases)
      case 1
      then show ?thesis using bool.get_truncated[where x = True and p = p] by (simp add: option_get_def)
    next
      case (2 q)
      then show ?thesis using get_truncated[of y q] v Some by (simp add: option_get_def bool.get_enc)
    qed
  qed
qed

end

context strict_codec
begin

lemma items_get_strict:
  "items_get get n bs = Ok (xs, rest) \<Longrightarrow>
    length xs = n \<and> (\<forall>x \<in> set xs. valid x) \<and> bs = items_enc enc xs @ rest"
  by (induction n arbitrary: bs xs) (fastforce simp: outcome_simps items_enc_def dest!: get_strict)+

lemma array_strict: "strict_codec (array_put put) (array_get n get) (items_enc enc) (\<lambda>xs. length xs = n \<and> (\<forall>x \<in> set xs. valid x))"
  by (rule strict_codec.intro[OF array_codec]) (unfold_locales, auto simp: array_get_def dest!: items_get_strict)

lemma vec_strict: "strict_codec (vec_put put) (vec_get get) (vec_enc enc) (\<lambda>xs. length xs < 2 ^ 32 \<and> (\<forall>x \<in> set xs. valid x))"
  by (rule strict_codec.intro[OF vec_codec])
    (unfold_locales, auto simp: vec_get_def vec_enc_def outcome_simps dest!: items_get_strict usize.get_strict)

end

text \<open>A format carried over to a type of the same values.\<close>

definition map_put :: "('b \<Rightarrow> 'a) \<Rightarrow> 'a put \<Rightarrow> 'b put" where "map_put f put x = put (f x)"
definition map_get :: "('a \<Rightarrow> 'b) \<Rightarrow> 'a get \<Rightarrow> 'b get" where
  "map_get g get bs = and_then (get bs) (\<lambda>(x, rest). Ok (g x, rest))"

lemma map_strict:
  assumes s: "strict_codec put get enc valid" and "\<And>y. g (f y) = y" "\<And>x. valid x \<Longrightarrow> f (g x) = x"
  shows "strict_codec (map_put f put) (map_get g get) (\<lambda>y. enc (f y)) (\<lambda>y. valid (f y))"
proof -
  have c: "codec put get enc valid" using s by (simp add: strict_codec_def)
  show ?thesis
  proof unfold_locales
    fix y pre room rest p bs
    show "map_get g get bs \<noteq> Panic"
      by (auto simp: map_get_def outcome_simps codec.get_total[OF c])
    show "valid (f y) \<and> bs = enc (f y) @ rest" if "map_get g get bs = Ok (y, rest)"
      using that assms(3) by (auto simp: map_get_def outcome_simps dest!: strict_codec.get_strict[OF s])
    assume v: "valid (f y)"
    show "map_put f put y (pre, room) = (if length (enc (f y)) \<le> room
        then Ok (pre @ enc (f y), room - length (enc (f y))) else Err WriteBufferFull)"
      using v by (simp add: map_put_def codec.put_valid[OF c])
    show "map_get g get (enc (f y) @ rest) = Ok (y, rest)"
      using v assms(2) by (simp add: map_get_def codec.get_enc[OF c])
    show "map_get g get p = Err NotEnoughBytes" if "strict_prefix p (enc (f y))"
      using that codec.get_truncated[OF c v] by (simp add: map_get_def)
  qed
qed

definition str_enc :: "u8 list \<Rightarrow> u8 list" where "str_enc s = usize_enc (length s) @ s"

interpretation str: strict_codec str_put string_get str_enc "\<lambda>s. length s < 2 ^ 32 \<and> utf8_valid s"
proof unfold_locales
  fix s pre room rest p bs
  show "string_get bs \<noteq> Panic"
    by (auto simp: string_get_def get_bytes_def outcome_simps usize.get_total split: if_splits)
  show "(length s < 2 ^ 32 \<and> utf8_valid s) \<and> bs = str_enc s @ rest" if "string_get bs = Ok (s, rest)"
    using that
    by (auto simp: string_get_def get_bytes_def outcome_simps str_enc_def min_def
        dest!: usize.get_strict split: if_splits)
  assume v: "length s < 2 ^ 32 \<and> utf8_valid s"
  show "str_put s (pre, room) = (if length (str_enc s) \<le> room
      then Ok (pre @ str_enc s, room - length (str_enc s)) else Err WriteBufferFull)"
    using v by (auto simp: str_put_def str_enc_def usize.put_valid put_bytes_def)
  show "string_get (str_enc s @ rest) = Ok (s, rest)"
    using v by (simp add: string_get_def str_enc_def usize.get_enc get_bytes_def)
  show "string_get p = Err NotEnoughBytes" if "strict_prefix p (str_enc s)"
    using that unfolding str_enc_def
  proof (cases rule: strict_prefix_append_cases)
    case 1
    then show ?thesis
      using usize.get_truncated[where x = "length s" and p = p] v by (simp add: string_get_def)
  next
    case (2 q)
    then show ?thesis
      using v prefix_length_less[OF 2(2)] by (simp add: string_get_def usize.get_enc get_bytes_def)
  qed
qed

interpretation u8_vec: strict_codec "vec_put u8_put" "vec_get u8_get" "vec_enc u8_enc"
    "\<lambda>xs. length xs < 2 ^ 32 \<and> (\<forall>x \<in> set xs. True)"
  by (rule u8.vec_strict)

section \<open>Properties of the byte format\<close>

text \<open>The primitive formats and the containers over them read back what they write, leave the
  rest of the buffer, report every truncated payload as missing bytes, and panic on no bytes: here for
  vectors of optional pairs of a size and a string, which nest every container.\<close>

theorem nested_containers_roundtrip:
  assumes "length xs < 2 ^ 32" "\<forall>x \<in> set xs. \<forall>n s. x = Some (n, s) \<longrightarrow> n < 2 ^ 32 \<and> length s < 2 ^ 32 \<and> utf8_valid s"
  defines "put \<equiv> vec_put (option_put (pair_put usize_put str_put))"
    and "get \<equiv> vec_get (option_get (pair_get usize_get string_get))"
  shows "\<exists>bs. (\<forall>room. put xs ([], room) =
      (if length bs \<le> room then Ok (bs, room - length bs) else Err WriteBufferFull)) \<and>
    get (bs @ rest) = Ok (xs, rest) \<and> (\<forall>p. strict_prefix p bs \<longrightarrow> get p = Err NotEnoughBytes) \<and>
    get junk \<noteq> Panic"
proof -
  let ?e = "vec_enc (option_enc (pair_enc usize_enc str_enc))"
  have c: "codec put get ?e (\<lambda>xs. length xs < 2 ^ 32 \<and> (\<forall>x \<in> set xs. \<forall>v. x = Some v \<longrightarrow>
      (case v of (n, s) \<Rightarrow> n < 2 ^ 32 \<and> length s < 2 ^ 32 \<and> utf8_valid s)))"
    unfolding put_def get_def
    by (intro codec.vec_codec codec.option_codec pair_codec usize.codec_axioms str.codec_axioms)
  have v: "length xs < 2 ^ 32 \<and> (\<forall>x \<in> set xs. \<forall>v. x = Some v \<longrightarrow>
      (case v of (n, s) \<Rightarrow> n < 2 ^ 32 \<and> length s < 2 ^ 32 \<and> utf8_valid s))"
    using assms(1,2) by auto
  show ?thesis
    using codec.put_valid[OF c v, of "[]"] codec.get_enc[OF c v] codec.get_truncated[OF c v] codec.get_total[OF c] by auto
qed

theorem nested_containers_roundtrip_witness:
  "\<exists>bs. (\<forall>room. vec_put (option_put (pair_put usize_put str_put)) [None, Some (7, [0x68, 0xC3, 0xA9])] ([], room) =
      (if length bs \<le> room then Ok (bs, room - length bs) else Err WriteBufferFull)) \<and>
    vec_get (option_get (pair_get usize_get string_get)) (bs @ [1]) =
      Ok ([None, Some (7, [0x68, 0xC3, 0xA9])], [1]) \<and>
    (\<forall>p. strict_prefix p bs \<longrightarrow>
      vec_get (option_get (pair_get usize_get string_get)) p = Err NotEnoughBytes) \<and>
    vec_get (option_get (pair_get usize_get string_get)) [1, 0, 0, 0, 7] \<noteq> Panic"
  by (rule nested_containers_roundtrip) (simp_all add: utf8_cont_def)

end
