(* ===== verification/Wire_Format.thy ===== *)
theory Wire_Format
  imports Serialization Constraint_System
begin

text \<open>
  The wire forms of words, shifts, operands, constraints, constraint systems
  (\<open>word.rs\<close>, \<open>shift.rs\<close>, \<open>value_index.rs\<close>, \<open>constraint.rs\<close>, \<open>system.rs\<close>), of value segments
  (\<open>values_data.rs\<close>) and of proofs (\<open>proof.rs\<close>), each an instance of the byte-format contract.
\<close>

lemma and_then_assoc: "and_then (and_then m f) g = and_then m (\<lambda>x. and_then (f x) g)"
  by (cases m) simp_all

section \<open>Words and indices\<close>

definition word_put :: "u64 put" where "word_put w = u64_put w"
definition word_get :: "u64 get" where "word_get bs = u64_get bs"

definition vi_put :: "value_index put" where "vi_put v = u32_put (packed v)"
definition vi_get :: "value_index get" where
  "vi_get bs = and_then (u32_get bs) (\<lambda>(x, rest). Ok (ValueIndex x, rest))"

interpretation wire_word: strict_codec word_put word_get "le_bytes 8" "\<lambda>_. True"
  unfolding word_put_def[abs_def] word_get_def[abs_def] by (rule u64.strict_codec_axioms)

definition vi_enc :: "value_index \<Rightarrow> u8 list" where "vi_enc v = le_bytes 4 (packed v)"

interpretation wire_index: strict_codec vi_put vi_get vi_enc "\<lambda>_. True"
  using map_strict[OF u32.strict_codec_axioms, of ValueIndex packed]
  unfolding vi_put_def[abs_def] vi_get_def[abs_def] map_put_def[abs_def] map_get_def[abs_def]
    vi_enc_def[abs_def]
  by simp

section \<open>Shifts and terms\<close>

definition variant_put :: "shift_variant put" where "variant_put v = u8_put (variant_as_u8 v)"

definition variant_get :: "shift_variant get" where
  "variant_get bs = and_then (u8_get bs) (\<lambda>(i, rest).
    case variant_from_u8 i of
      Some v \<Rightarrow> Ok (v, rest)
    | None \<Rightarrow> Err (UnknownEnumVariant ''ShiftVariant'' i))"

definition shift_put :: "shift put" where
  "shift_put s b = and_then (variant_put (variant s) b) (usize_put (unat (amount s)))"

definition shift_get :: "shift get" where
  "shift_get bs = and_then (variant_get bs) (\<lambda>(v, bs).
    and_then (usize_get bs) (\<lambda>(n, bs).
      if n \<ge> max_amount v then Err (InvalidConstruction ''Shift::amount'')
      else Ok (\<lparr>variant = v, amount = word_of_nat n\<rparr>, bs)))"

definition svi_put :: "shifted_value_index put" where
  "svi_put t b = and_then (vi_put (value_index t) b) (\<lambda>b.
    and_then (shift_put (fst (shift_seq t)) b) (shift_put (snd (shift_seq t))))"

definition svi_get :: "shifted_value_index get" where
  "svi_get bs = and_then (vi_get bs) (\<lambda>(v, bs).
    and_then (shift_get bs) (\<lambda>(inner, bs).
    and_then (shift_get bs) (\<lambda>(outer, bs). Ok (svi_new v (inner, outer), bs))))"

definition variant_enc :: "shift_variant \<Rightarrow> u8 list" where "variant_enc v = u8_enc (variant_as_u8 v)"

interpretation wire_variant: strict_codec variant_put variant_get variant_enc "\<lambda>_. True"
proof unfold_locales
  fix v pre room rest p bs
  show "variant_put v (pre, room) = (if length (variant_enc v) \<le> room
      then Ok (pre @ variant_enc v, room - length (variant_enc v)) else Err WriteBufferFull)"
    by (simp add: variant_put_def variant_enc_def u8.put_valid)
  show "variant_get (variant_enc v @ rest) = Ok (v, rest)"
    by (simp add: variant_get_def variant_enc_def u8.get_enc variant_u8_roundtrip)
  show "variant_get bs \<noteq> Panic"
    by (auto simp: variant_get_def outcome_simps u8.get_total split: option.split)
  show "variant_get p = Err NotEnoughBytes" if "strict_prefix p (variant_enc v)"
    using u8.get_truncated[where x = "variant_as_u8 v" and p = p] that
    by (simp add: variant_get_def variant_enc_def)
  show "True \<and> bs = variant_enc v @ rest" if "variant_get bs = Ok (v, rest)"
    using that
    by (auto simp: variant_get_def variant_enc_def outcome_simps variant_from_u8_eq_Some
        dest!: u8.get_strict split: option.splits)
qed

definition shift_enc :: "shift \<Rightarrow> u8 list" where
  "shift_enc s = variant_enc (variant s) @ usize_enc (unat (amount s))"

lemma amount_small: "unat (amount s) < 2 ^ 32"
  using unsigned_less[of "amount s", where 'a = nat] by (rule order_less_trans) simp

interpretation wire_shift: strict_codec shift_put shift_get shift_enc valid_shift
proof unfold_locales
  fix s pre room rest p bs
  show "shift_get bs \<noteq> Panic"
    by (auto simp: shift_get_def outcome_simps wire_variant.get_total usize.get_total)
  show "valid_shift s \<and> bs = shift_enc s @ rest" if g0: "shift_get bs = Ok (s, rest)"
  proof -
    obtain v n bs1 where g: "variant_get bs = Ok (v, bs1)" "usize_get bs1 = Ok (n, rest)"
      "n < max_amount v" "s = \<lparr>variant = v, amount = word_of_nat n\<rparr>"
      using g0 by (auto simp: shift_get_def outcome_simps not_le split: if_splits)
    have "unat (word_of_nat n :: u8) = n" using g(3) max_amount_le[of v] by (simp add: unat_of_nat del: max_amount_le)
    with g wire_variant.get_strict[OF g(1)] usize.get_strict[OF g(2)] show ?thesis
      by (simp add: valid_shift_def shift_enc_def)
  qed
  assume v: "valid_shift s"
  show "shift_put s (pre, room) = (if length (shift_enc s) \<le> room
      then Ok (pre @ shift_enc s, room - length (shift_enc s)) else Err WriteBufferFull)"
    using amount_small[of s] by (auto simp: shift_put_def shift_enc_def wire_variant.put_valid usize.put_valid)
  show "shift_get (shift_enc s @ rest) = Ok (s, rest)"
    using v amount_small[of s]
    by (simp add: shift_get_def shift_enc_def wire_variant.get_enc usize.get_enc valid_shift_def)
  show "shift_get p = Err NotEnoughBytes" if "strict_prefix p (shift_enc s)"
    using that unfolding shift_enc_def
  proof (cases rule: strict_prefix_append_cases)
    case 1
    then show ?thesis
      using wire_variant.get_truncated[where p = p] by (simp add: shift_get_def)
  next
    case (2 q)
    then show ?thesis
      using usize.get_truncated[where p = q] amount_small[of s]
      by (simp add: shift_get_def wire_variant.get_enc)
  qed
qed

definition svi_tuple :: "shifted_value_index \<Rightarrow> value_index \<times> shift \<times> shift" where
  "svi_tuple t = (value_index t, shift_seq t)"

definition svi_enc :: "shifted_value_index \<Rightarrow> u8 list" where
  "svi_enc t = vi_enc (value_index t) @ shift_enc (svi_inner t) @ shift_enc (svi_outer t)"

definition svi_valid :: "shifted_value_index \<Rightarrow> bool" where
  "svi_valid t \<longleftrightarrow> valid_shift (svi_inner t) \<and> valid_shift (svi_outer t)"

interpretation wire_term: strict_codec svi_put svi_get svi_enc svi_valid
proof -
  have "strict_codec (map_put svi_tuple (pair_put vi_put (pair_put shift_put shift_put)))
      (map_get (\<lambda>(v, seq). svi_new v seq) (pair_get vi_get (pair_get shift_get shift_get)))
      (\<lambda>t. pair_enc vi_enc (pair_enc shift_enc shift_enc) (svi_tuple t))
      (\<lambda>t. case svi_tuple t of (v, seq) \<Rightarrow> True \<and> (case seq of (x, y) \<Rightarrow> valid_shift x \<and> valid_shift y))"
    by (rule map_strict[OF pair_strict[OF wire_index.strict_codec_axioms
          pair_strict[OF wire_shift.strict_codec_axioms wire_shift.strict_codec_axioms]]])
      (auto simp: svi_tuple_def svi_new_def)
  moreover have "map_put svi_tuple (pair_put vi_put (pair_put shift_put shift_put)) = svi_put"
    by (intro ext) (simp add: map_put_def pair_put_def[abs_def] svi_tuple_def svi_put_def split_def)
  moreover have "map_get (\<lambda>(v, seq). svi_new v seq) (pair_get vi_get (pair_get shift_get shift_get)) = svi_get"
    by (intro ext) (simp add: map_get_def pair_get_def svi_get_def and_then_assoc split_def)
  moreover have "(\<lambda>t. pair_enc vi_enc (pair_enc shift_enc shift_enc) (svi_tuple t)) = svi_enc"
    by (intro ext) (simp add: pair_enc_def svi_tuple_def svi_enc_def svi_inner_def svi_outer_def)
  moreover have "(\<lambda>t. case svi_tuple t of (v, seq) \<Rightarrow> True \<and>
      (case seq of (x, y) \<Rightarrow> valid_shift x \<and> valid_shift y)) = svi_valid"
    by (intro ext) (simp add: svi_tuple_def svi_valid_def svi_inner_def svi_outer_def split_def)
  ultimately show "strict_codec svi_put svi_get svi_enc svi_valid" by simp
qed

section \<open>Constraints\<close>

definition operand_put :: "operand put" where "operand_put ts = vec_put svi_put ts"
definition operand_get :: "operand get" where "operand_get bs = vec_get svi_get bs"

definition zero_put :: "zero_constraint put" where "zero_put z = array_put operand_put (zero_operands z)"
definition zero_get :: "zero_constraint get" where
  "zero_get bs = and_then (array_get 1 operand_get bs) (\<lambda>(o', rest). Ok (ZeroConstraint (o' ! 0), rest))"

definition and_put :: "and_constraint put" where "and_put x = array_put operand_put (and_operands x)"
definition and_get :: "and_constraint get" where
  "and_get bs = and_then (array_get 3 operand_get bs) (\<lambda>(o', rest).
    Ok (AndConstraint (o' ! 0) (o' ! 1) (o' ! 2), rest))"

definition imul_put :: "imul_constraint put" where "imul_put x = array_put operand_put (imul_operands x)"
definition imul_get :: "imul_constraint get" where
  "imul_get bs = and_then (array_get 4 operand_get bs) (\<lambda>(o', rest).
    Ok (ImulConstraint (o' ! 0) (o' ! 1) (o' ! 2) (o' ! 3), rest))"

definition bmul_put :: "bmul_constraint put" where "bmul_put x = array_put operand_put (bmul_operands x)"
definition bmul_get :: "bmul_constraint get" where
  "bmul_get bs = and_then (array_get 6 operand_get bs) (\<lambda>(o', rest).
    Ok (BmulConstraint (o' ! 0) (o' ! 1) (o' ! 2) (o' ! 3) (o' ! 4) (o' ! 5), rest))"

definition operand_valid :: "operand \<Rightarrow> bool" where
  "operand_valid ts \<longleftrightarrow> length ts < 2 ^ 32 \<and> (\<forall>t \<in> set ts. svi_valid t)"

interpretation wire_operand: strict_codec operand_put operand_get "vec_enc svi_enc" operand_valid
  using wire_term.vec_strict
  unfolding operand_put_def[abs_def] operand_get_def[abs_def] operand_valid_def[abs_def] .

abbreviation array_enc :: "operand list \<Rightarrow> u8 list" where
  "array_enc \<equiv> items_enc (vec_enc svi_enc)"

definition operands_valid :: "operand list \<Rightarrow> bool" where
  "operands_valid ops \<longleftrightarrow> (\<forall>opnd \<in> set ops. operand_valid opnd)"

lemma nths_of_lengths:
  "length xs = 1 \<Longrightarrow> [xs ! 0] = xs"
  "length xs = 3 \<Longrightarrow> [xs ! 0, xs ! 1, xs ! 2] = xs"
  "length xs = 4 \<Longrightarrow> [xs ! 0, xs ! 1, xs ! 2, xs ! 3] = xs"
  "length xs = 6 \<Longrightarrow> [xs ! 0, xs ! 1, xs ! 2, xs ! 3, xs ! 4, xs ! 5] = xs"
  by (rule nth_equalityI, simp, auto simp: less_Suc_eq numeral_eq_Suc)+

lemma constraint_codec:
  assumes "\<And>c. length (ops c) = n" "\<And>c. mk (ops c) = c" "\<And>xs. length xs = n \<Longrightarrow> ops (mk xs) = xs"
  shows "strict_codec (\<lambda>c. array_put operand_put (ops c))
    (\<lambda>bs. and_then (array_get n operand_get bs) (\<lambda>(o', rest). Ok (mk o', rest)))
    (\<lambda>c. array_enc (ops c)) (\<lambda>c. operands_valid (ops c))"
  using map_strict[OF wire_operand.array_strict[of n], where f = ops and g = mk, OF assms(2)] assms(1,3)
  unfolding map_put_def[abs_def] map_get_def[abs_def] operands_valid_def by simp

interpretation wire_zero: strict_codec zero_put zero_get "\<lambda>c. array_enc (zero_operands c)"
    "\<lambda>c. operands_valid (zero_operands c)"
  unfolding zero_put_def[abs_def] zero_get_def[abs_def]
  by (rule constraint_codec) (simp_all add: zero_operands_def nths_of_lengths[unfolded One_nat_def])

interpretation wire_and: strict_codec and_put and_get "\<lambda>c. array_enc (and_operands c)"
    "\<lambda>c. operands_valid (and_operands c)"
  unfolding and_put_def[abs_def] and_get_def[abs_def]
  by (rule constraint_codec) (simp_all add: and_operands_def nths_of_lengths[unfolded One_nat_def])

interpretation wire_imul: strict_codec imul_put imul_get "\<lambda>c. array_enc (imul_operands c)"
    "\<lambda>c. operands_valid (imul_operands c)"
  unfolding imul_put_def[abs_def] imul_get_def[abs_def]
  by (rule constraint_codec) (simp_all add: imul_operands_def nths_of_lengths[unfolded One_nat_def])

interpretation wire_bmul: strict_codec bmul_put bmul_get "\<lambda>c. array_enc (bmul_operands c)"
    "\<lambda>c. operands_valid (bmul_operands c)"
  unfolding bmul_put_def[abs_def] bmul_get_def[abs_def]
  by (rule constraint_codec) (simp_all add: bmul_operands_def nths_of_lengths[unfolded One_nat_def])

section \<open>Version tags\<close>

definition tagged_put :: "u32 \<Rightarrow> 'a put \<Rightarrow> 'a put" where
  "tagged_put version put x b = and_then (u32_put version b) (put x)"

definition tagged_get :: "u32 \<Rightarrow> string \<Rightarrow> 'a get \<Rightarrow> 'a get" where
  "tagged_get version name get bs = and_then (u32_get bs) (\<lambda>(v, bs).
    if v \<noteq> version then Err (InvalidConstruction name) else get bs)"

lemma tagged_strict:
  assumes s: "strict_codec put get enc valid"
  shows "strict_codec (tagged_put version put) (tagged_get version name get)
    (\<lambda>x. le_bytes 4 version @ enc x) valid"
proof -
  have c: "codec put get enc valid" using s by (simp add: strict_codec_def)
  show ?thesis
  proof unfold_locales
    fix x pre room rest p bs
    show "tagged_get version name get bs \<noteq> Panic"
      by (auto simp: tagged_get_def outcome_simps u32.get_total codec.get_total[OF c] split: if_splits)
    show "valid x \<and> bs = (le_bytes 4 version @ enc x) @ rest"
      if "tagged_get version name get bs = Ok (x, rest)"
      using that
      by (auto simp: tagged_get_def outcome_simps dest!: strict_codec.get_strict[OF s] u32.get_strict
          split: if_splits)
    assume v: "valid x"
    show "tagged_put version put x (pre, room) = (if length (le_bytes 4 version @ enc x) \<le> room
        then Ok (pre @ le_bytes 4 version @ enc x, room - length (le_bytes 4 version @ enc x))
        else Err WriteBufferFull)"
      using v by (auto simp: tagged_put_def u32.put_valid codec.put_valid[OF c])
    show "tagged_get version name get ((le_bytes 4 version @ enc x) @ rest) = Ok (x, rest)"
      using v by (simp add: tagged_get_def u32.get_enc codec.get_enc[OF c])
    show "tagged_get version name get p = Err NotEnoughBytes"
      if "strict_prefix p (le_bytes 4 version @ enc x)"
      using that
    proof (cases rule: strict_prefix_append_cases)
      case 1
      then show ?thesis using u32.get_truncated[where x = version and p = p] by (simp add: tagged_get_def)
    next
      case (2 q)
      then show ?thesis using codec.get_truncated[OF c v] by (simp add: tagged_get_def u32.get_enc)
    qed
  qed
qed

lemma tagged_mismatch:
  "v \<noteq> version \<Longrightarrow> tagged_get version name get (le_bytes 4 v @ rest) = Err (InvalidConstruction name)"
  by (simp add: tagged_get_def u32.get_enc)

section \<open>Constraint systems\<close>

definition cs_put :: "constraint_system put" where
  "cs_put cs b =
    and_then (u32_put SERIALIZATION_VERSION b) (\<lambda>b.
    and_then (vec_put word_put (constants cs) b) (\<lambda>b.
    and_then (usize_put (n_inout cs) b) (\<lambda>b.
    and_then (usize_put (n_private cs) b) (\<lambda>b.
    and_then (vec_put zero_put (zero_constraints cs) b) (\<lambda>b.
    and_then (vec_put and_put (and_constraints cs) b) (\<lambda>b.
    and_then (vec_put imul_put (imul_constraints cs) b) (\<lambda>b.
    vec_put bmul_put (bmul_constraints cs) b)))))))"

definition cs_get :: "constraint_system get" where
  "cs_get bs =
    and_then (u32_get bs) (\<lambda>(version, bs).
    if version \<noteq> SERIALIZATION_VERSION then Err (InvalidConstruction ''ConstraintSystem::version'')
    else
    and_then (vec_get word_get bs) (\<lambda>(consts, bs).
    and_then (usize_get bs) (\<lambda>(inout, bs).
    and_then (usize_get bs) (\<lambda>(priv, bs).
    and_then (vec_get zero_get bs) (\<lambda>(zeros, bs).
    and_then (vec_get and_get bs) (\<lambda>(ands, bs).
    and_then (vec_get imul_get bs) (\<lambda>(imuls, bs).
    and_then (vec_get bmul_get bs) (\<lambda>(bmuls, bs).
    Ok (\<lparr>constants = consts, n_inout = inout, n_private = priv, zero_constraints = zeros,
      and_constraints = ands, imul_constraints = imuls, bmul_constraints = bmuls\<rparr>, bs)))))))))"

text \<open>The systems the format carries: every length and count fits a \<open>u32\<close>, every shift amount is
  in range.\<close>

definition cs_fits :: "constraint_system \<Rightarrow> bool" where
  "cs_fits cs \<longleftrightarrow>
    length (constants cs) < 2 ^ 32 \<and> n_inout cs < 2 ^ 32 \<and> n_private cs < 2 ^ 32 \<and>
    length (zero_constraints cs) < 2 ^ 32 \<and> (\<forall>c \<in> set (zero_constraints cs). operands_valid (zero_operands c)) \<and>
    length (and_constraints cs) < 2 ^ 32 \<and> (\<forall>c \<in> set (and_constraints cs). operands_valid (and_operands c)) \<and>
    length (imul_constraints cs) < 2 ^ 32 \<and> (\<forall>c \<in> set (imul_constraints cs). operands_valid (imul_operands c)) \<and>
    length (bmul_constraints cs) < 2 ^ 32 \<and> (\<forall>c \<in> set (bmul_constraints cs). operands_valid (bmul_operands c))"

type_synonym cs_fields = "u64 list \<times> nat \<times> nat \<times> zero_constraint list \<times> and_constraint list \<times>
  imul_constraint list \<times> bmul_constraint list"

definition cs_fields :: "constraint_system \<Rightarrow> cs_fields" where
  "cs_fields cs = (constants cs, n_inout cs, n_private cs, zero_constraints cs, and_constraints cs,
    imul_constraints cs, bmul_constraints cs)"

definition cs_of_fields :: "cs_fields \<Rightarrow> constraint_system" where
  "cs_of_fields f = (case f of (cst, io, pr, zs, as, is', bs) \<Rightarrow>
    \<lparr>constants = cst, n_inout = io, n_private = pr, zero_constraints = zs,
      and_constraints = as, imul_constraints = is', bmul_constraints = bs\<rparr>)"

lemmas cs_fields_strict =
  pair_strict[OF wire_word.vec_strict pair_strict[OF usize.strict_codec_axioms
    pair_strict[OF usize.strict_codec_axioms pair_strict[OF wire_zero.vec_strict
      pair_strict[OF wire_and.vec_strict pair_strict[OF wire_imul.vec_strict wire_bmul.vec_strict]]]]]]

definition cs_enc :: "constraint_system \<Rightarrow> u8 list" where
  "cs_enc cs = le_bytes 4 SERIALIZATION_VERSION @
    vec_enc (le_bytes 8) (constants cs) @ usize_enc (n_inout cs) @ usize_enc (n_private cs) @
    vec_enc (\<lambda>c. array_enc (zero_operands c)) (zero_constraints cs) @
    vec_enc (\<lambda>c. array_enc (and_operands c)) (and_constraints cs) @
    vec_enc (\<lambda>c. array_enc (imul_operands c)) (imul_constraints cs) @
    vec_enc (\<lambda>c. array_enc (bmul_operands c)) (bmul_constraints cs)"

interpretation wire_system: strict_codec cs_put cs_get cs_enc cs_fits
proof -
  note s = tagged_strict[OF map_strict[OF cs_fields_strict, where f = cs_fields and g = cs_of_fields],
      where version = SERIALIZATION_VERSION and name = "''ConstraintSystem::version''"]
  have inv: "cs_of_fields (cs_fields cs) = cs" "cs_fields (cs_of_fields f) = f" for cs f
    by (simp_all add: cs_fields_def cs_of_fields_def split_def)
  have "tagged_put SERIALIZATION_VERSION (map_put cs_fields (pair_put (vec_put word_put)
      (pair_put usize_put (pair_put usize_put (pair_put (vec_put zero_put) (pair_put (vec_put and_put)
      (pair_put (vec_put imul_put) (vec_put bmul_put)))))))) = cs_put"
    by (intro ext) (simp add: tagged_put_def map_put_def pair_put_def[abs_def] cs_fields_def cs_put_def)
  moreover have "tagged_get SERIALIZATION_VERSION ''ConstraintSystem::version'' (map_get cs_of_fields
      (pair_get (vec_get word_get) (pair_get usize_get (pair_get usize_get (pair_get (vec_get zero_get)
      (pair_get (vec_get and_get) (pair_get (vec_get imul_get) (vec_get bmul_get)))))))) = cs_get"
    by (intro ext) (simp add: tagged_get_def map_get_def pair_get_def cs_of_fields_def cs_get_def
        and_then_assoc split_def cong: if_cong)
  moreover have "(\<lambda>cs. le_bytes 4 SERIALIZATION_VERSION @ pair_enc (vec_enc (le_bytes 8))
      (pair_enc usize_enc (pair_enc usize_enc (pair_enc (vec_enc (\<lambda>c. array_enc (zero_operands c)))
      (pair_enc (vec_enc (\<lambda>c. array_enc (and_operands c))) (pair_enc (vec_enc (\<lambda>c. array_enc (imul_operands c)))
      (vec_enc (\<lambda>c. array_enc (bmul_operands c)))))))) (cs_fields cs)) = cs_enc"
    by (intro ext) (simp add: pair_enc_def cs_fields_def cs_enc_def)
  ultimately show "strict_codec cs_put cs_get cs_enc cs_fits"
    using s[OF inv] by (simp add: cs_fields_def cs_fits_def[abs_def] del: One_nat_def)
qed

section \<open>Value segments and proofs\<close>

definition VALUES_VERSION :: u32 where "VALUES_VERSION = 1"

definition values_put :: "u64 list put" where
  "values_put words b = and_then (u32_put VALUES_VERSION b) (vec_put word_put words)"

definition values_get :: "u64 list get" where
  "values_get bs = and_then (u32_get bs) (\<lambda>(version, bs).
    if version \<noteq> VALUES_VERSION then Err (InvalidConstruction ''ValuesData::version'')
    else vec_get word_get bs)"

definition values_enc :: "u64 list \<Rightarrow> u8 list" where
  "values_enc ws = le_bytes 4 VALUES_VERSION @ vec_enc (le_bytes 8) ws"

interpretation wire_values: strict_codec values_put values_get values_enc
    "\<lambda>ws. length ws < 2 ^ 32 \<and> (\<forall>w \<in> set ws. True)"
  using tagged_strict[OF wire_word.vec_strict, of VALUES_VERSION "''ValuesData::version''"]
  unfolding tagged_put_def[abs_def] tagged_get_def[abs_def] values_put_def[abs_def]
    values_get_def[abs_def] values_enc_def[abs_def] .

text \<open>A proof is the transcript's bytes with the name of the challenger; the borrowed and the owned
  form of the bytes are the same value.\<close>

record proof_data =
  data :: "u8 list"
  challenger_type :: "u8 list"

definition PROOF_VERSION :: u32 where "PROOF_VERSION = 1"

definition proof_put :: "proof_data put" where
  "proof_put p b =
    and_then (u32_put PROOF_VERSION b) (\<lambda>b.
    and_then (str_put (challenger_type p) b) (\<lambda>b.
    vec_put u8_put (data p) b))"

definition proof_get :: "proof_data get" where
  "proof_get bs =
    and_then (u32_get bs) (\<lambda>(version, bs).
    if version \<noteq> PROOF_VERSION then Err (InvalidConstruction ''Proof::version'')
    else
    and_then (string_get bs) (\<lambda>(challenger, bs).
    and_then (vec_get u8_get bs) (\<lambda>(d, bs).
    Ok (\<lparr>data = d, challenger_type = challenger\<rparr>, bs))))"

definition proof_enc :: "proof_data \<Rightarrow> u8 list" where
  "proof_enc p = le_bytes 4 PROOF_VERSION @ str_enc (challenger_type p) @ vec_enc u8_enc (data p)"

definition proof_fits :: "proof_data \<Rightarrow> bool" where
  "proof_fits p \<longleftrightarrow> (length (challenger_type p) < 2 ^ 32 \<and> utf8_valid (challenger_type p)) \<and>
    length (data p) < 2 ^ 32"

interpretation wire_proof: strict_codec proof_put proof_get proof_enc proof_fits
proof -
  note s = tagged_strict[OF map_strict[OF pair_strict[OF str.strict_codec_axioms u8.vec_strict],
      where f = "\<lambda>p. (challenger_type p, data p)" and g = "\<lambda>(c, d). \<lparr>data = d, challenger_type = c\<rparr>"],
      where version = PROOF_VERSION and name = "''Proof::version''"]
  have "tagged_put PROOF_VERSION (map_put (\<lambda>p. (challenger_type p, data p))
      (pair_put str_put (vec_put u8_put))) = proof_put"
    by (intro ext) (simp add: tagged_put_def map_put_def pair_put_def[abs_def] proof_put_def)
  moreover have "tagged_get PROOF_VERSION ''Proof::version'' (map_get (\<lambda>(c, d). \<lparr>data = d, challenger_type = c\<rparr>)
      (pair_get string_get (vec_get u8_get))) = proof_get"
    by (intro ext) (simp add: tagged_get_def map_get_def pair_get_def proof_get_def and_then_assoc split_def
        cong: if_cong)
  ultimately show "strict_codec proof_put proof_get proof_enc proof_fits"
    using s by (simp add: pair_enc_def proof_enc_def[abs_def] proof_fits_def[abs_def] split_def)
qed

section \<open>Properties of the wire forms\<close>

text \<open>The consequence of the contract shared by the tagged formats: reading consumes exactly the
  bytes writing produces.\<close>

context strict_codec
begin

lemma get_reput: "get bs = Ok (x, rest) \<Longrightarrow>
  \<exists>used. bs = used @ rest \<and> put x ([], length used) = Ok (used, 0)"
  using get_strict[of bs x rest] put_valid[of x "[]"] by auto

lemma put_get: "valid x \<Longrightarrow> \<exists>bs. (\<forall>room. put x ([], room) =
    (if length bs \<le> room then Ok (bs, room - length bs) else Err WriteBufferFull)) \<and>
  (\<forall>rest. get (bs @ rest) = Ok (x, rest)) \<and> (\<forall>p. strict_prefix p bs \<longrightarrow> get p = Err NotEnoughBytes)"
  using put_valid[of x "[]"] get_enc[of x] get_truncated[of x] by (intro exI[of _ "enc x"]) auto

lemma put_exact: "valid x \<Longrightarrow> \<exists>bs. put x ([], length bs) = Ok (bs, 0) \<and>
  get (bs @ rest) = Ok (x, rest) \<and> (\<forall>p. strict_prefix p bs \<longrightarrow> get p = Err NotEnoughBytes)"
  using put_valid[of x "[]"] get_enc[of x] get_truncated[of x] by (intro exI[of _ "enc x"]) auto

end

lemma sample_fits: "cs_fits sample_system"
  by (simp add: cs_fits_def sample_system_def Let_def operands_valid_def operand_valid_def svi_valid_def
      zero_operands_def and_operands_def imul_operands_def svi_plain_def svi_single_def svi_new_def
      svi_inner_def svi_outer_def valid_shift_def IDENTITY_def)

text \<open>C21: A constraint system whose counts fit a \<open>u32\<close> and whose shifts are in range is written to any
  buffer with enough room, reading it back gives the same system and leaves the bytes after it, a
  buffer that is too small is reported full, and every truncation of the bytes as missing bytes.\<close>

theorem system_roundtrip:
  assumes "cs_fits cs"
  shows "\<exists>bs. (\<forall>room. cs_put cs ([], room) =
      (if length bs \<le> room then Ok (bs, room - length bs) else Err WriteBufferFull)) \<and>
    (\<forall>rest. cs_get (bs @ rest) = Ok (cs, rest)) \<and>
    (\<forall>p. strict_prefix p bs \<longrightarrow> cs_get p = Err NotEnoughBytes)"
  using assms by (rule wire_system.put_get)

theorem system_roundtrip_witness:
  "\<exists>bs. (\<forall>room. cs_put sample_system ([], room) =
      (if length bs \<le> room then Ok (bs, room - length bs) else Err WriteBufferFull)) \<and>
    (\<forall>rest. cs_get (bs @ rest) = Ok (sample_system, rest)) \<and>
    (\<forall>p. strict_prefix p bs \<longrightarrow> cs_get p = Err NotEnoughBytes)"
  by (rule system_roundtrip) (simp add: sample_fits)

text \<open>C22: Decoding a constraint system is safe on any bytes: it never panics, what it accepts is
  within the bounds of the format and is exactly the encoding of the system it returns, so no two
  byte strings decode to one system, and any other version is refused by name.\<close>

theorem system_decode_strict:
  "cs_get bs \<noteq> Panic \<and>
   (\<forall>cs rest. cs_get bs = Ok (cs, rest) \<longrightarrow> cs_fits cs \<and>
      (\<exists>used. bs = used @ rest \<and> cs_put cs ([], length used) = Ok (used, 0))) \<and>
   (version \<noteq> SERIALIZATION_VERSION \<longrightarrow>
      cs_get (le_bytes 4 version @ bs) = Err (InvalidConstruction ''ConstraintSystem::version''))"
proof (intro conjI allI impI)
  show "cs_get bs \<noteq> Panic" by (rule wire_system.get_total)
next
  fix cs rest
  assume "cs_get bs = Ok (cs, rest)"
  then show "cs_fits cs" "\<exists>used. bs = used @ rest \<and> cs_put cs ([], length used) = Ok (used, 0)"
    using wire_system.get_strict wire_system.get_reput by blast+
next
  assume "version \<noteq> SERIALIZATION_VERSION"
  then show "cs_get (le_bytes 4 version @ bs) = Err (InvalidConstruction ''ConstraintSystem::version'')"
    by (simp add: cs_get_def u32.get_enc)
qed

theorem system_decode_strict_witness:
  "cs_get (le_bytes 4 (9 :: u32) @ [1, 2]) = Err (InvalidConstruction ''ConstraintSystem::version'') \<and>
   cs_get [10, 0, 0, 0, 1] \<noteq> Panic"
  using system_decode_strict[of "[1, 2]" 9] system_decode_strict[of "[10, 0, 0, 0, 1]" 9]
  by (simp add: SERIALIZATION_VERSION_def)

text \<open>C34: A value segment of fewer than \<open>2 ^ 32\<close> words and a proof whose challenger name is well-formed
  UTF-8 are written and read back unchanged, any truncation is reported, and a byte string read back
  is the encoding of what was read; each format refuses by name a version that is not its own.\<close>

theorem values_and_proof_roundtrip:
  assumes "length ws < 2 ^ 32" "proof_fits p"
  shows "\<exists>b1 b2. values_put ws ([], length b1) = Ok (b1, 0) \<and> values_get (b1 @ rest) = Ok (ws, rest) \<and>
    (\<forall>q. strict_prefix q b1 \<longrightarrow> values_get q = Err NotEnoughBytes) \<and>
    proof_put p ([], length b2) = Ok (b2, 0) \<and> proof_get (b2 @ rest) = Ok (p, rest) \<and>
    (\<forall>q. strict_prefix q b2 \<longrightarrow> proof_get q = Err NotEnoughBytes) \<and>
    (\<forall>bs x. values_get bs = Ok (x, []) \<longrightarrow> values_put x ([], length bs) = Ok (bs, 0)) \<and>
    (\<forall>bs x. proof_get bs = Ok (x, []) \<longrightarrow> proof_put x ([], length bs) = Ok (bs, 0)) \<and>
    (\<forall>v. v \<noteq> VALUES_VERSION \<longrightarrow> values_get (le_bytes 4 v @ rest) = Err (InvalidConstruction ''ValuesData::version'')) \<and>
    (\<forall>v. v \<noteq> PROOF_VERSION \<longrightarrow> proof_get (le_bytes 4 v @ rest) = Err (InvalidConstruction ''Proof::version''))"
proof -
  obtain b1 where b1: "values_put ws ([], length b1) = Ok (b1, 0)" "values_get (b1 @ rest) = Ok (ws, rest)"
      "\<forall>q. strict_prefix q b1 \<longrightarrow> values_get q = Err NotEnoughBytes"
    using wire_values.put_exact[of ws rest] assms(1) by blast
  obtain b2 where b2: "proof_put p ([], length b2) = Ok (b2, 0)" "proof_get (b2 @ rest) = Ok (p, rest)"
      "\<forall>q. strict_prefix q b2 \<longrightarrow> proof_get q = Err NotEnoughBytes"
    using wire_proof.put_exact[OF assms(2)] by blast
  have "values_put x ([], length bs) = Ok (bs, 0)" if "values_get bs = Ok (x, [])" for bs x
    using wire_values.get_reput[OF that] by simp
  moreover have "proof_put x ([], length bs) = Ok (bs, 0)" if "proof_get bs = Ok (x, [])" for bs x
    using wire_proof.get_reput[OF that] by simp
  moreover have "values_get (le_bytes 4 v @ rest) = Err (InvalidConstruction ''ValuesData::version'')"
    if "v \<noteq> VALUES_VERSION" for v
    using that by (simp add: values_get_def u32.get_enc)
  moreover have "proof_get (le_bytes 4 v @ rest) = Err (InvalidConstruction ''Proof::version'')"
    if "v \<noteq> PROOF_VERSION" for v
    using that by (simp add: proof_get_def u32.get_enc)
  ultimately show ?thesis using b1 b2 by blast
qed

theorem values_and_proof_roundtrip_witness:
  "\<exists>b1 b2. values_put [1, 42] ([], length b1) = Ok (b1, 0) \<and> values_get (b1 @ [7]) = Ok ([1, 42], [7]) \<and>
    proof_put \<lparr>data = [9], challenger_type = [0x41]\<rparr> ([], length b2) = Ok (b2, 0) \<and>
    proof_get (b2 @ [7]) = Ok (\<lparr>data = [9], challenger_type = [0x41]\<rparr>, [7])"
  using values_and_proof_roundtrip[of "[1, 42]" "\<lparr>data = [9], challenger_type = [0x41]\<rparr>" "[7]"]
  by (auto simp: proof_fits_def)

end
