(* ===== verification/Gate_Graph.thy ===== *)
theory Gate_Graph
  imports Core_Word Value_Vec "HOL-Library.Monad_Syntax"
begin

text \<open>
  The gate graph of the frontend (\<open>ir/mod.rs\<close>), the shape of each gate kind (\<open>gates/opcode.rs\<close> and
  the \<open>SHAPE\<close> of every file of \<open>gates/\<close>), and the registry of prover hints (\<open>ir/hints.rs\<close>).

  Wires, gates and paths are dense indices.  \<open>None\<close> is a panic: a slice out of range, a failed
  assertion, a hint that is not registered.
\<close>

type_synonym wire = nat
type_synonym gate = nat
type_synonym path_spec = u32
type_synonym hint_id = u32

section \<open>Opcodes and shapes\<close>

datatype opcode =
  Band | Bxor | BxorMulti | Bor | Fax
| Select
| IaddCinCout | Iadd32 | Iadd32CinCout | IsubBinBout | Imul | Bmul
| ShiftOp
| IcmpUlt | IcmpEq
| AssertEq | AssertZero | AssertNonZero | AssertFalse | AssertTrue | AssertEqCond

record opcode_shape =
  const_in :: "u64 list"
  n_in :: nat
  n_out :: nat
  n_aux :: nat
  n_scratch :: nat
  n_imm :: nat

definition shape_new :: "nat \<Rightarrow> nat \<Rightarrow> opcode_shape" where
  "shape_new i o' = \<lparr>const_in = [], n_in = i, n_out = o', n_aux = 0, n_scratch = 0, n_imm = 0\<rparr>"

definition with_consts :: "opcode_shape \<Rightarrow> u64 list \<Rightarrow> opcode_shape" where
  "with_consts s cs = s\<lparr>const_in := cs\<rparr>"
definition with_aux :: "opcode_shape \<Rightarrow> nat \<Rightarrow> opcode_shape" where "with_aux s n = s\<lparr>n_aux := n\<rparr>"
definition with_scratch :: "opcode_shape \<Rightarrow> nat \<Rightarrow> opcode_shape" where "with_scratch s n = s\<lparr>n_scratch := n\<rparr>"
definition with_imm :: "opcode_shape \<Rightarrow> nat \<Rightarrow> opcode_shape" where "with_imm s n = s\<lparr>n_imm := n\<rparr>"

text \<open>The one kind of variable arity takes its input count from its only dimension; every other kind
  has the shape it declares.\<close>

fun op_shape :: "opcode \<Rightarrow> nat list \<Rightarrow> opcode_shape option" where
  "op_shape BxorMulti dims = (case dims of [n_inputs] \<Rightarrow> Some (shape_new n_inputs 1) | _ \<Rightarrow> None)"
| "op_shape Band dims = Some (shape_new 2 1)"
| "op_shape Bxor dims = Some (shape_new 2 1)"
| "op_shape Bor dims = Some (shape_new 2 1)"
| "op_shape Fax dims = Some (shape_new 3 1)"
| "op_shape Select dims = Some (shape_new 3 1)"
| "op_shape IaddCinCout dims = Some (shape_new 3 2)"
| "op_shape Iadd32 dims = Some (shape_new 2 2)"
| "op_shape Iadd32CinCout dims = Some (shape_new 3 2)"
| "op_shape IsubBinBout dims = Some (with_consts (shape_new 3 2) [ALL_ONE])"
| "op_shape Imul dims = Some (shape_new 2 2)"
| "op_shape Bmul dims = Some (shape_new 4 2)"
| "op_shape ShiftOp dims = Some (with_imm (shape_new 1 1) 2)"
| "op_shape IcmpUlt dims = Some (with_scratch (with_consts (shape_new 2 1) [ALL_ONE]) 1)"
| "op_shape IcmpEq dims =
    Some (with_scratch (with_aux (with_consts (shape_new 2 1) [ALL_ONE, MSB_ONE]) 1) 1)"
| "op_shape AssertEq dims = Some (shape_new 2 0)"
| "op_shape AssertZero dims = Some (shape_new 1 0)"
| "op_shape AssertNonZero dims = Some (with_aux (with_consts (shape_new 1 0) [ALL_ONE]) 1)"
| "op_shape AssertFalse dims = Some (shape_new 1 0)"
| "op_shape AssertTrue dims = Some (with_consts (shape_new 1 0) [ALL_ONE])"
| "op_shape AssertEqCond dims = Some (shape_new 3 0)"

section \<open>Hints\<close>

text \<open>A hint computes into a slice: it takes the words the slice held and returns the words it
  holds afterwards.\<close>

record hint =
  hint_shape :: "nat list \<Rightarrow> nat \<times> nat"
  hint_execute :: "nat list \<Rightarrow> u64 list \<Rightarrow> u64 list \<Rightarrow> u64 list"

type_synonym hint_registry = "hint_id \<rightharpoonup> hint"

text \<open>The identifier is the hash of the hint's name, which the standard library computes; the
  registry only sees the identifier.\<close>

definition reg_register :: "hint_registry \<Rightarrow> hint_id \<Rightarrow> hint \<Rightarrow> hint_registry" where
  "reg_register r hid h = (case r hid of Some _ \<Rightarrow> r | None \<Rightarrow> r(hid \<mapsto> h))"

definition reg_shape :: "hint_registry \<Rightarrow> hint_id \<Rightarrow> nat list \<Rightarrow> (nat \<times> nat) option" where
  "reg_shape r hid dims = map_option (\<lambda>h. hint_shape h dims) (r hid)"

definition reg_execute :: "hint_registry \<Rightarrow> hint_id \<Rightarrow> nat list \<Rightarrow> u64 list \<Rightarrow> u64 list \<Rightarrow> u64 list option" where
  "reg_execute r hid dims inputs outputs = map_option (\<lambda>h. hint_execute h dims inputs outputs) (r hid)"

text \<open>The documented contract of a hint: it fills the slice it is given, all of it, from its inputs
  alone.\<close>

definition hint_ok :: "hint \<Rightarrow> bool" where
  "hint_ok h \<longleftrightarrow> (\<forall>dims inputs outputs.
    length (hint_execute h dims inputs outputs) = length outputs \<and>
    hint_execute h dims inputs outputs = hint_execute h dims inputs (replicate (length outputs) 0))"

definition registry_ok :: "hint_registry \<Rightarrow> bool" where
  "registry_ok r \<longleftrightarrow> (\<forall>h \<in> ran r. hint_ok h)"

section \<open>Gates\<close>

datatype wire_kind = KConstant u64 | KInout | KWitness | KInternal | KScratch

fun is_const :: "wire_kind \<Rightarrow> bool" where
  "is_const (KConstant _) = True"
| "is_const _ = False"

datatype gate_body = Op opcode | HintCall hint_id

record gate_data =
  body :: gate_body
  wires :: "wire list"
  immediates :: "u32 list"
  dimensions :: "nat list"

record gate_param =
  p_constants :: "wire list"
  p_inputs :: "wire list"
  p_outputs :: "wire list"
  p_aux :: "wire list"
  p_scratch :: "wire list"
  p_imm :: "u32 list"

definition gate_shape :: "hint_registry \<Rightarrow> gate_data \<Rightarrow> opcode_shape option" where
  "gate_shape r d =
    (case body d of
       Op opcode \<Rightarrow> op_shape opcode (dimensions d)
     | HintCall hid \<Rightarrow> map_option (\<lambda>(n_in, n_out). shape_new n_in n_out) (reg_shape r hid (dimensions d)))"

definition gate_param_for_shape :: "gate_data \<Rightarrow> opcode_shape \<Rightarrow> gate_param option" where
  "gate_param_for_shape d s =
    (let start_const = 0;
         end_const = length (const_in s);
         start_input = end_const;
         end_input = start_input + n_in s;
         start_output = end_input;
         end_output = start_output + n_out s;
         start_aux = end_output;
         end_aux = start_aux + n_aux s;
         start_scratch = end_aux;
         end_scratch = start_scratch + n_scratch s
     in do {
       cs \<leftarrow> slice (wires d) start_const end_const;
       ins \<leftarrow> slice (wires d) start_input end_input;
       outs \<leftarrow> slice (wires d) start_output end_output;
       aux \<leftarrow> slice (wires d) start_aux end_aux;
       scratch \<leftarrow> slice (wires d) start_scratch end_scratch;
       Some \<lparr>p_constants = cs, p_inputs = ins, p_outputs = outs, p_aux = aux, p_scratch = scratch,
         p_imm = immediates d\<rparr>
     })"

definition get_gate_param :: "hint_registry \<Rightarrow> gate_data \<Rightarrow> gate_param option" where
  "get_gate_param r d = Option.bind (gate_shape r d) (gate_param_for_shape d)"

definition shape_wires :: "opcode_shape \<Rightarrow> nat" where
  "shape_wires s = length (const_in s) + n_in s + n_out s + n_aux s + n_scratch s"

text \<open>\<open>Some ()\<close> when the gate passes, \<open>None\<close> when an assertion fires.\<close>

definition validate_shape :: "hint_registry \<Rightarrow> gate_data \<Rightarrow> unit option" where
  "validate_shape r d =
    (case gate_shape r d of
       None \<Rightarrow> None
     | Some s \<Rightarrow>
         if length (wires d) = shape_wires s \<and> length (immediates d) = n_imm s then Some () else None)"

section \<open>The graph\<close>

record gate_graph =
  gg_gates :: "gate_data list"
  gg_wires :: "wire_kind list"
  gate_origin :: "gate \<Rightarrow> path_spec"
  assertion_names :: "gate \<Rightarrow> path_spec"
  const_pool :: "u64 \<rightharpoonup> wire"
  all_one :: wire
  wire_def :: "wire \<Rightarrow> gate option"
  use_edges :: "gate list"
  use_offsets :: "nat list"

definition push_wire :: "wire_kind \<Rightarrow> gate_graph \<Rightarrow> wire \<times> gate_graph" where
  "push_wire k g = (length (gg_wires g), g\<lparr>gg_wires := gg_wires g @ [k]\<rparr>)"

definition add_inout :: "gate_graph \<Rightarrow> wire \<times> gate_graph" where "add_inout = push_wire KInout"
definition add_witness :: "gate_graph \<Rightarrow> wire \<times> gate_graph" where "add_witness = push_wire KWitness"
definition add_internal :: "gate_graph \<Rightarrow> wire \<times> gate_graph" where "add_internal = push_wire KInternal"
definition add_scratch :: "gate_graph \<Rightarrow> wire \<times> gate_graph" where "add_scratch = push_wire KScratch"

definition add_constant :: "u64 \<Rightarrow> gate_graph \<Rightarrow> wire \<times> gate_graph" where
  "add_constant word g =
    (case const_pool g word of
       Some w \<Rightarrow> (w, g)
     | None \<Rightarrow>
         (let (w, g) = push_wire (KConstant word) g in (w, g\<lparr>const_pool := (const_pool g)(word \<mapsto> w)\<rparr>)))"

definition graph_new :: gate_graph where
  "graph_new =
    (let g = \<lparr>gg_gates = [], gg_wires = [], gate_origin = (\<lambda>_. 0), assertion_names = (\<lambda>_. 0),
        const_pool = Map.empty, all_one = 0, wire_def = (\<lambda>_. None), use_edges = [], use_offsets = []\<rparr>;
         (w, g) = add_constant ALL_ONE g
     in g\<lparr>all_one := w\<rparr>)"

text \<open>A run of wires from one allocator.\<close>

fun alloc_each :: "('a \<Rightarrow> gate_graph \<Rightarrow> wire \<times> gate_graph) \<Rightarrow> 'a list \<Rightarrow> gate_graph \<Rightarrow> wire list \<times> gate_graph" where
  "alloc_each f [] g = ([], g)"
| "alloc_each f (x # xs) g =
    (let (w, g) = f x g; (ws, g) = alloc_each f xs g in (w # ws, g))"

definition push_gate :: "path_spec \<Rightarrow> gate_data \<Rightarrow> gate_graph \<Rightarrow> gate \<times> gate_graph" where
  "push_gate origin d g =
    (let gate = length (gg_gates g)
     in (gate, g\<lparr>gg_gates := gg_gates g @ [d], gate_origin := (gate_origin g)(gate := origin)\<rparr>))"

definition emit_gate_generic ::
  "path_spec \<Rightarrow> opcode \<Rightarrow> wire list \<Rightarrow> wire list \<Rightarrow> nat list \<Rightarrow> u32 list \<Rightarrow> gate_graph \<Rightarrow>
    (gate \<times> gate_graph) option" where
  "emit_gate_generic origin opcode inputs outputs dims imms g = do {
    s \<leftarrow> op_shape opcode dims;
    let (cs, g) = alloc_each add_constant (const_in s) g;
    let (aux, g) = alloc_each (\<lambda>_. add_internal) [0..<n_aux s] g;
    let (scratch, g) = alloc_each (\<lambda>_. add_scratch) [0..<n_scratch s] g;
    let d = \<lparr>body = Op opcode, wires = cs @ inputs @ outputs @ aux @ scratch, immediates = imms,
      dimensions = dims\<rparr>;
    if length (wires d) = shape_wires s \<and> length (immediates d) = n_imm s
    then Some (push_gate origin d g) else None
  }"

definition emit_gate ::
  "path_spec \<Rightarrow> opcode \<Rightarrow> wire list \<Rightarrow> wire list \<Rightarrow> gate_graph \<Rightarrow> (gate \<times> gate_graph) option" where
  "emit_gate origin opcode inputs outputs g = emit_gate_generic origin opcode inputs outputs [] [] g"

definition emit_hint_gate ::
  "path_spec \<Rightarrow> hint_id \<Rightarrow> nat list \<Rightarrow> wire list \<Rightarrow> wire list \<Rightarrow> gate_graph \<Rightarrow> gate \<times> gate_graph" where
  "emit_hint_gate origin hid dims inputs outputs g =
    push_gate origin \<lparr>body = HintCall hid, wires = inputs @ outputs, immediates = [], dimensions = dims\<rparr> g"

definition graph_validate :: "hint_registry \<Rightarrow> gate_graph \<Rightarrow> unit option" where
  "graph_validate r g =
    foldl (\<lambda>ok d. Option.bind ok (\<lambda>_. validate_shape r d)) (Some ()) (gg_gates g)"

definition wire_kind_of :: "gate_graph \<Rightarrow> wire \<Rightarrow> wire_kind option" where
  "wire_kind_of g w = read_at (gg_wires g) w"

definition iter_const_wires :: "gate_graph \<Rightarrow> (wire \<times> wire_kind) list" where
  "iter_const_wires g = filter (\<lambda>(_, k). is_const k) (enumerate 0 (gg_wires g))"

section \<open>Slicing a gate into its groups\<close>

lemma gate_param_appended:
  assumes "wires d = cs @ ins @ outs @ aux @ scratch"
    and "length cs = length (const_in s)" "length ins = n_in s" "length outs = n_out s"
      "length aux = n_aux s" "length scratch = n_scratch s"
  shows "gate_param_for_shape d s = Some \<lparr>p_constants = cs, p_inputs = ins, p_outputs = outs,
    p_aux = aux, p_scratch = scratch, p_imm = immediates d\<rparr>"
  using assms by (simp add: gate_param_for_shape_def slice_def Let_def)

lemma split_wires:
  assumes "length ws = shape_wires s"
  obtains cs ins outs aux scratch where "ws = cs @ ins @ outs @ aux @ scratch"
    "length cs = length (const_in s)" "length ins = n_in s" "length outs = n_out s"
    "length aux = n_aux s" "length scratch = n_scratch s"
proof -
  let ?a = "length (const_in s)" and ?b = "n_in s" and ?c = "n_out s" and ?d = "n_aux s"
  have "ws = take ?a ws @ take ?b (drop ?a ws) @ take ?c (drop ?b (drop ?a ws)) @
      take ?d (drop ?c (drop ?b (drop ?a ws))) @ drop ?d (drop ?c (drop ?b (drop ?a ws)))"
    by (simp only: append_take_drop_id)
  then show ?thesis using assms that by (simp add: shape_wires_def)
qed

text \<open>A gate of the right shape has its groups, which are its wires in order.\<close>

definition param_wires :: "gate_param \<Rightarrow> wire list" where
  "param_wires p = p_constants p @ p_inputs p @ p_outputs p @ p_aux p @ p_scratch p"

definition param_fits :: "opcode_shape \<Rightarrow> gate_param \<Rightarrow> bool" where
  "param_fits s p \<longleftrightarrow> length (p_constants p) = length (const_in s) \<and> length (p_inputs p) = n_in s \<and>
    length (p_outputs p) = n_out s \<and> length (p_aux p) = n_aux s \<and> length (p_scratch p) = n_scratch s \<and>
    length (p_imm p) = n_imm s"

lemma validated_gate_param:
  assumes "validate_shape r d = Some ()"
  obtains s p where "gate_shape r d = Some s" "get_gate_param r d = Some p" "param_fits s p"
    "wires d = param_wires p" "immediates d = p_imm p"
proof -
  obtain s where s: "gate_shape r d = Some s" "length (wires d) = shape_wires s" "length (immediates d) = n_imm s"
    using assms by (auto simp: validate_shape_def split: option.splits if_splits)
  obtain cs ins outs aux scratch where w: "wires d = cs @ ins @ outs @ aux @ scratch"
    "length cs = length (const_in s)" "length ins = n_in s" "length outs = n_out s"
    "length aux = n_aux s" "length scratch = n_scratch s"
    by (rule split_wires[OF s(2)])
  show ?thesis
    by (rule that[OF s(1), of "\<lparr>p_constants = cs, p_inputs = ins, p_outputs = outs, p_aux = aux,
        p_scratch = scratch, p_imm = immediates d\<rparr>"]) (use gate_param_appended[OF w] s w in
      \<open>simp_all add: get_gate_param_def param_fits_def param_wires_def\<close>)
qed

section \<open>Well-formed graphs\<close>

definition gate_wf :: "hint_registry \<Rightarrow> wire_kind list \<Rightarrow> gate_data \<Rightarrow> bool" where
  "gate_wf r ks d \<longleftrightarrow> validate_shape r d = Some () \<and> (\<forall>w \<in> set (wires d). w < length ks) \<and>
    (\<forall>s. gate_shape r d = Some s \<longrightarrow>
      (\<forall>i < length (const_in s). ks ! (wires d ! i) = KConstant (const_in s ! i)))"

definition graph_wf :: "hint_registry \<Rightarrow> gate_graph \<Rightarrow> bool" where
  "graph_wf r g \<longleftrightarrow> (\<forall>d \<in> set (gg_gates g). gate_wf r (gg_wires g) d) \<and>
    (\<forall>word w. const_pool g word = Some w \<longleftrightarrow> w < length (gg_wires g) \<and> gg_wires g ! w = KConstant word) \<and>
    all_one g = 0 \<and> const_pool g ALL_ONE = Some 0"

text \<open>What emission only ever does: append wires.\<close>

definition grown :: "gate_graph \<Rightarrow> gate_graph \<Rightarrow> bool" where
  "grown g g' \<longleftrightarrow> (\<exists>ks. gg_wires g' = gg_wires g @ ks) \<and> gg_gates g' = gg_gates g"

lemma grown_refl [simp]: "grown g g"
  by (simp add: grown_def)

lemma grown_trans: "grown g g' \<Longrightarrow> grown g' g'' \<Longrightarrow> grown g g''"
  by (auto simp: grown_def)

lemma grownD: "grown g g' \<Longrightarrow> w < length (gg_wires g) \<Longrightarrow>
  w < length (gg_wires g') \<and> gg_wires g' ! w = gg_wires g ! w"
  by (auto simp: grown_def nth_append)

lemma gate_wf_grown: "gate_wf r ks d \<Longrightarrow> gate_wf r (ks @ ks') d"
proof -
  assume wf: "gate_wf r ks d"
  have "wires d ! i < length ks" if "gate_shape r d = Some s" "i < length (const_in s)" for s i
    using wf that by (auto simp: gate_wf_def validate_shape_def shape_wires_def split: if_splits intro!: nth_mem)
  then show ?thesis using wf by (fastforce simp: gate_wf_def nth_append)
qed

lemma push_wire_wf:
  assumes "graph_wf r g" "\<not> is_const k" "push_wire k g = (w, g')"
  shows "graph_wf r g' \<and> grown g g' \<and> w = length (gg_wires g) \<and> w < length (gg_wires g') \<and> gg_wires g' ! w = k"
  using assms
  by (auto simp: push_wire_def graph_wf_def grown_def gate_wf_grown nth_append less_Suc_eq)

lemma add_constant_wf:
  assumes "graph_wf r g" "add_constant word g = (w, g')"
  shows "graph_wf r g' \<and> grown g g' \<and> w < length (gg_wires g') \<and> gg_wires g' ! w = KConstant word"
proof (cases "const_pool g word")
  case (Some v)
  then show ?thesis using assms by (auto simp: add_constant_def graph_wf_def)
next
  case None
  have g': "g' = g\<lparr>gg_wires := gg_wires g @ [KConstant word], const_pool := (const_pool g)(word \<mapsto> length (gg_wires g))\<rparr>"
    "w = length (gg_wires g)"
    using assms(2) None by (auto simp: add_constant_def push_wire_def)
  have "word \<noteq> ALL_ONE" using assms(1) None by (auto simp: graph_wf_def)
  moreover have "\<not> (v < length (gg_wires g) \<and> gg_wires g ! v = KConstant word)" for v
    using assms(1) None unfolding graph_wf_def by (metis option.distinct(1))
  ultimately show ?thesis using assms(1) None unfolding g'
    by (auto simp: graph_wf_def grown_def gate_wf_grown nth_append less_Suc_eq)
qed

lemma alloc_each_wf:
  assumes "\<And>x g w g'. graph_wf r g \<Longrightarrow> f x g = (w, g') \<Longrightarrow>
      graph_wf r g' \<and> grown g g' \<and> w < length (gg_wires g') \<and> gg_wires g' ! w = kind x"
    and "graph_wf r g" "alloc_each f xs g = (ws, g')"
  shows "graph_wf r g' \<and> grown g g' \<and> length ws = length xs \<and> (\<forall>w \<in> set ws. w < length (gg_wires g')) \<and>
    map (\<lambda>w. gg_wires g' ! w) ws = map kind xs"
  using assms(2,3)
proof (induction xs arbitrary: g ws)
  case Nil
  then show ?case by simp
next
  case (Cons x xs)
  obtain w h where h: "f x g = (w, h)" by fastforce
  obtain ws' where ws': "alloc_each f xs h = (ws', g')" "ws = w # ws'"
    using Cons.prems(2) h by (auto split: prod.splits)
  note a = assms(1)[OF Cons.prems(1) h]
  note b = Cons.IH[OF conjunct1[OF a] ws'(1)]
  have "w < length (gg_wires g')" "gg_wires g' ! w = gg_wires h ! w"
    using grownD[of h g' w] a b by auto
  with a b show ?case unfolding ws'(2) by (auto intro: grown_trans)
qed

lemma graph_new_wf: "graph_wf r graph_new"
  by (auto simp: graph_new_def add_constant_def push_wire_def graph_wf_def ALL_ONE_def)

lemma push_gate_wf:
  assumes "graph_wf r g" "gate_wf r (gg_wires g) d"
  shows "graph_wf r (snd (push_gate origin d g))"
  using assms by (auto simp: graph_wf_def push_gate_def Let_def)

text \<open>Emission with the wires a shape asks for appends one gate, whose groups are the wires given
  around freshly allocated constants, auxiliary and scratch wires.\<close>

lemma emit_gate_generic_wf:
  assumes wf: "graph_wf r g" and rng: "\<forall>w \<in> set (inputs @ outputs). w < length (gg_wires g)"
    and sh: "op_shape opcode dims = Some s"
    and len: "length inputs = n_in s" "length outputs = n_out s" "length imms = n_imm s"
  shows "\<exists>p d g'. emit_gate_generic origin opcode inputs outputs dims imms g = Some (length (gg_gates g), g') \<and>
    graph_wf r g' \<and> gg_gates g' = gg_gates g @ [d] \<and> (\<exists>ks. gg_wires g' = gg_wires g @ ks) \<and>
    get_gate_param r d = Some p \<and> p_inputs p = inputs \<and> p_outputs p = outputs \<and> p_imm p = imms \<and>
    param_fits s p \<and> body d = Op opcode"
proof -
  obtain cs g1 where 1: "alloc_each add_constant (const_in s) g = (cs, g1)" by fastforce
  obtain aux g2 where 2: "alloc_each (\<lambda>_. add_internal) [0..<n_aux s] g1 = (aux, g2)" by fastforce
  obtain scratch g3 where 3: "alloc_each (\<lambda>_. add_scratch) [0..<n_scratch s] g2 = (scratch, g3)" by fastforce
  have a1: "graph_wf r g1 \<and> grown g g1 \<and> length cs = length (const_in s) \<and>
      (\<forall>w \<in> set cs. w < length (gg_wires g1)) \<and> map (\<lambda>w. gg_wires g1 ! w) cs = map KConstant (const_in s)"
    by (rule alloc_each_wf[OF _ wf 1]) (rule add_constant_wf)
  have a2: "graph_wf r g2 \<and> grown g1 g2 \<and> length aux = length [0..<n_aux s] \<and>
      (\<forall>w \<in> set aux. w < length (gg_wires g2)) \<and> map (\<lambda>w. gg_wires g2 ! w) aux = map (\<lambda>_. KInternal) [0..<n_aux s]"
    by (rule alloc_each_wf[OF _ conjunct1[OF a1] 2]) (use push_wire_wf[where k = KInternal] in \<open>simp add: add_internal_def\<close>)
  have a3: "graph_wf r g3 \<and> grown g2 g3 \<and> length scratch = length [0..<n_scratch s] \<and>
      (\<forall>w \<in> set scratch. w < length (gg_wires g3)) \<and>
      map (\<lambda>w. gg_wires g3 ! w) scratch = map (\<lambda>_. KScratch) [0..<n_scratch s]"
    by (rule alloc_each_wf[OF _ conjunct1[OF a2] 3]) (use push_wire_wf[where k = KScratch] in \<open>simp add: add_scratch_def\<close>)
  let ?d = "\<lparr>body = Op opcode, wires = cs @ inputs @ outputs @ aux @ scratch, immediates = imms, dimensions = dims\<rparr>"
  let ?p = "\<lparr>p_constants = cs, p_inputs = inputs, p_outputs = outputs, p_aux = aux, p_scratch = scratch, p_imm = imms\<rparr>"
  have gs: "gate_shape r ?d = Some s" using sh by (simp add: gate_shape_def)
  have n: "length (wires ?d) = shape_wires s" using a1 a2 a3 len by (simp add: shape_wires_def)
  have g03: "grown g g3" "grown g1 g3" using a1 a2 a3 grown_trans by blast+
  have "gg_wires g3 ! (cs ! i) = KConstant (const_in s ! i)" if "i < length (const_in s)" for i
  proof -
    have "gg_wires g1 ! (cs ! i) = KConstant (const_in s ! i)" "cs ! i < length (gg_wires g1)"
      using a1 that by (auto simp: list_eq_iff_nth_eq)
    then show ?thesis using grownD[OF g03(2)] by simp
  qed
  moreover have "\<forall>w \<in> set (wires ?d). w < length (gg_wires g3)"
    using a1 a2 a3 rng g03 grownD by (auto dest: grownD)
  ultimately have dwf: "gate_wf r (gg_wires g3) ?d"
    using gs n len a1 by (simp add: gate_wf_def validate_shape_def nth_append)
  have emit: "emit_gate_generic origin opcode inputs outputs dims imms g = Some (push_gate origin ?d g3)"
    using sh 1 2 3 n len by (simp add: emit_gate_generic_def)
  have "gate_param_for_shape ?d s = Some ?p"
    using gate_param_appended[of ?d cs inputs outputs aux scratch s] a1 a2 a3 len by simp
  then have "get_gate_param r ?d = Some ?p" using gs by (simp add: get_gate_param_def)
  moreover have "param_fits s ?p" using a1 a2 a3 len by (simp add: param_fits_def)
  moreover have "gg_gates g3 = gg_gates g" "\<exists>ks. gg_wires g3 = gg_wires g @ ks"
    using g03 by (auto simp: grown_def)
  ultimately show ?thesis
    using emit push_gate_wf[OF conjunct1[OF a3] dwf, of origin]
    by (intro exI[of _ ?p] exI[of _ ?d] exI[of _ "snd (push_gate origin ?d g3)"])
      (simp add: push_gate_def Let_def)
qed

text \<open>Emission has no other way to panic than a dimension list or a number of wires or immediates that does
  not fit the kind.\<close>

lemma alloc_each_length: "length (fst (alloc_each f xs g)) = length xs"
  by (induction f xs g rule: alloc_each.induct) (auto split: prod.splits)

lemma emit_gate_generic_None:
  "emit_gate_generic origin opcode inputs outputs dims imms g = None \<longleftrightarrow>
    (case op_shape opcode dims of None \<Rightarrow> True
     | Some s \<Rightarrow> length inputs + length outputs \<noteq> n_in s + n_out s \<or> length imms \<noteq> n_imm s)"
proof (cases "op_shape opcode dims")
  case (Some s)
  obtain cs g1 where 1: "alloc_each add_constant (const_in s) g = (cs, g1)" by fastforce
  obtain aux g2 where 2: "alloc_each (\<lambda>_. add_internal) [0..<n_aux s] g1 = (aux, g2)" by fastforce
  obtain scratch g3 where 3: "alloc_each (\<lambda>_. add_scratch) [0..<n_scratch s] g2 = (scratch, g3)" by fastforce
  have "length cs = length (const_in s)" "length aux = n_aux s" "length scratch = n_scratch s"
    using alloc_each_length[of add_constant "const_in s" g] alloc_each_length[of "\<lambda>_. add_internal" "[0..<n_aux s]" g1]
      alloc_each_length[of "\<lambda>_. add_scratch" "[0..<n_scratch s]" g2] 1 2 3 by simp_all
  then show ?thesis using Some 1 2 3 by (auto simp: emit_gate_generic_def shape_wires_def)
qed (simp add: emit_gate_generic_def)

text \<open>A hint's gate is its inputs followed by its outputs.\<close>

lemma emit_hint_gate_wf:
  assumes wf: "graph_wf r g" and rng: "\<forall>w \<in> set (inputs @ outputs). w < length (gg_wires g)"
    and sh: "reg_shape r hid dims = Some (length inputs, length outputs)"
  shows "\<exists>p d g'. emit_hint_gate origin hid dims inputs outputs g = (length (gg_gates g), g') \<and> graph_wf r g' \<and>
    gg_gates g' = gg_gates g @ [d] \<and> gg_wires g' = gg_wires g \<and> body d = HintCall hid \<and> dimensions d = dims \<and>
    get_gate_param r d = Some p \<and> p_inputs p = inputs \<and> p_outputs p = outputs"
proof -
  let ?d = "\<lparr>body = HintCall hid, wires = inputs @ outputs, immediates = [], dimensions = dims\<rparr>"
  let ?s = "shape_new (length inputs) (length outputs)"
  have gs: "gate_shape r ?d = Some ?s" using sh by (simp add: gate_shape_def)
  have "gate_wf r (gg_wires g) ?d"
    using gs rng by (simp add: gate_wf_def validate_shape_def shape_wires_def shape_new_def)
  then have "graph_wf r (snd (push_gate origin ?d g))" by (rule push_gate_wf[OF wf])
  moreover have "get_gate_param r ?d = Some \<lparr>p_constants = [], p_inputs = inputs, p_outputs = outputs, p_aux = [],
      p_scratch = [], p_imm = []\<rparr>"
    using gate_param_appended[of ?d "[]" inputs outputs "[]" "[]" ?s] gs by (simp add: get_gate_param_def shape_new_def)
  ultimately show ?thesis by (simp add: emit_hint_gate_def push_gate_def Let_def)
qed

lemma graph_validate_iff: "graph_validate r g = Some () \<longleftrightarrow> (\<forall>d \<in> set (gg_gates g). validate_shape r d = Some ())"
proof -
  have none: "foldl (\<lambda>ok d. Option.bind ok (\<lambda>_. validate_shape r d)) None ds = None" for ds by (induction ds) auto
  have "foldl (\<lambda>ok d. Option.bind ok (\<lambda>_. validate_shape r d)) (Some ()) ds = Some () \<longleftrightarrow> (\<forall>d \<in> set ds. validate_shape r d = Some ())" for ds
  proof (induction ds)
    case (Cons d ds)
    then show ?case using none by (cases "validate_shape r d") auto
  qed simp
  then show ?thesis by (simp add: graph_validate_def)
qed

section \<open>Properties\<close>



end
