(* ===== verification/Use_Def.thy ===== *)
theory Use_Def
  imports Gate_Graph
begin

text \<open>
  The use-def analysis of the gate graph (\<open>ir/mod.rs\<close>): the gate that defines each wire, and the
  index of the gates that read each wire, a counting sort in three passes, shown to answer the
  readers of every wire in gate order, each once.
\<close>

section \<open>Definitions\<close>

definition gate_reads :: "hint_registry \<Rightarrow> gate_data \<Rightarrow> wire list option" where
  "gate_reads r d = map_option (\<lambda>p. p_constants p @ p_inputs p) (get_gate_param r d)"

definition gate_defs :: "hint_registry \<Rightarrow> gate_data \<Rightarrow> wire list option" where
  "gate_defs r d = map_option (\<lambda>p. p_outputs p @ p_aux p) (get_gate_param r d)"

fun define_all :: "hint_registry \<Rightarrow> gate \<Rightarrow> gate_data list \<Rightarrow> (wire \<Rightarrow> gate option) \<Rightarrow> (wire \<Rightarrow> gate option) option" where
  "define_all r gate [] defs = Some defs"
| "define_all r gate (d # ds) defs = do {
    ws \<leftarrow> gate_defs r d;
    define_all r (Suc gate) ds (fold (\<lambda>w m. m(w := Some gate)) ws defs)
  }"

definition rebuild_wire_defs :: "hint_registry \<Rightarrow> gate_graph \<Rightarrow> gate_graph option" where
  "rebuild_wire_defs r g = do {
    defs \<leftarrow> define_all r 0 (gg_gates g) (\<lambda>_. None);
    Some (g\<lparr>wire_def := defs\<rparr>)
  }"

text \<open>Pass 1 counts the readers of each wire, one slot to the right.\<close>

fun count_reads :: "gate \<Rightarrow> wire list \<Rightarrow> (wire \<Rightarrow> gate option) \<times> nat list \<Rightarrow> ((wire \<Rightarrow> gate option) \<times> nat list) option" where
  "count_reads gate [] st = Some st"
| "count_reads gate (w # ws) (last_seen, offsets) =
    (if last_seen w \<noteq> Some gate
     then if Suc w < length offsets
       then count_reads gate ws (last_seen(w := Some gate), offsets[Suc w := offsets ! Suc w + 1])
       else None
     else count_reads gate ws (last_seen, offsets))"

fun count_all :: "hint_registry \<Rightarrow> gate \<Rightarrow> gate_data list \<Rightarrow> (wire \<Rightarrow> gate option) \<times> nat list \<Rightarrow> ((wire \<Rightarrow> gate option) \<times> nat list) option" where
  "count_all r gate [] st = Some st"
| "count_all r gate (d # ds) st = do {
    ws \<leftarrow> gate_reads r d;
    st \<leftarrow> count_reads gate ws st;
    count_all r (Suc gate) ds st
  }"

text \<open>Pass 2 accumulates the counts into the start of each run.\<close>

definition prefix_sums :: "nat \<Rightarrow> nat list \<Rightarrow> nat list" where
  "prefix_sums n_wires offsets = fold (\<lambda>i offsets. offsets[Suc i := offsets ! Suc i + offsets ! i]) [0..<n_wires] offsets"

text \<open>Pass 3 fills the runs, advancing a cursor per wire.\<close>

fun place_reads :: "gate \<Rightarrow> wire list \<Rightarrow> (wire \<Rightarrow> gate option) \<times> nat list \<times> gate list \<Rightarrow>
    ((wire \<Rightarrow> gate option) \<times> nat list \<times> gate list) option" where
  "place_reads gate [] st = Some st"
| "place_reads gate (w # ws) (last_seen, cursor, edges) =
    (if last_seen w \<noteq> Some gate
     then if w < length cursor \<and> cursor ! w < length edges
       then place_reads gate ws
         (last_seen(w := Some gate), cursor[w := cursor ! w + 1], edges[cursor ! w := gate])
       else None
     else place_reads gate ws (last_seen, cursor, edges))"

fun place_all :: "hint_registry \<Rightarrow> gate \<Rightarrow> gate_data list \<Rightarrow> (wire \<Rightarrow> gate option) \<times> nat list \<times> gate list \<Rightarrow>
    ((wire \<Rightarrow> gate option) \<times> nat list \<times> gate list) option" where
  "place_all r gate [] st = Some st"
| "place_all r gate (d # ds) st = do {
    ws \<leftarrow> gate_reads r d;
    st \<leftarrow> place_reads gate ws st;
    place_all r (Suc gate) ds st
  }"

definition rebuild_wire_uses :: "hint_registry \<Rightarrow> gate_graph \<Rightarrow> gate_graph option" where
  "rebuild_wire_uses r g = (let n_wires = length (gg_wires g) in do {
    (_, counts) \<leftarrow> count_all r 0 (gg_gates g) (\<lambda>_. None, replicate (n_wires + 1) 0);
    let offsets = prefix_sums n_wires counts;
    (_, _, edges) \<leftarrow> place_all r 0 (gg_gates g) (\<lambda>_. None, offsets, replicate (offsets ! n_wires) 0);
    Some (g\<lparr>use_edges := edges, use_offsets := offsets\<rparr>)
  })"

definition rebuild_use_def_chains :: "hint_registry \<Rightarrow> gate_graph \<Rightarrow> gate_graph option" where
  "rebuild_use_def_chains r g = Option.bind (rebuild_wire_defs r g) (rebuild_wire_uses r)"

definition get_wire_uses :: "gate_graph \<Rightarrow> wire \<Rightarrow> gate list option" where
  "get_wire_uses g w =
    (case read_at (use_offsets g) (Suc w) of
       Some e \<Rightarrow> slice (use_edges g) (use_offsets g ! w) e
     | None \<Rightarrow> Some [])"

section \<open>The gates before a position that read a wire\<close>

definition reads_of :: "hint_registry \<Rightarrow> gate_data \<Rightarrow> wire set" where
  "reads_of r d = (case gate_reads r d of None \<Rightarrow> {} | Some ws \<Rightarrow> set ws)"

definition readers :: "hint_registry \<Rightarrow> gate_data list \<Rightarrow> wire \<Rightarrow> gate list" where
  "readers r ds w = filter (\<lambda>i. w \<in> reads_of r (ds ! i)) [0..<length ds]"

definition readable :: "hint_registry \<Rightarrow> nat \<Rightarrow> gate_data list \<Rightarrow> bool" where
  "readable r n ds \<longleftrightarrow> (\<forall>d \<in> set ds. \<exists>ws. gate_reads r d = Some ws \<and> (\<forall>w \<in> set ws. w < n))"

lemma readers_snoc: "readers r (ds @ [d]) w = readers r ds w @ (if w \<in> reads_of r d then [length ds] else [])"
proof -
  have "filter (\<lambda>i. w \<in> reads_of r ((ds @ [d]) ! i)) [0..<length ds] = readers r ds w"
    unfolding readers_def by (rule filter_cong) (simp_all add: nth_append)
  then show ?thesis by (simp add: readers_def)
qed

lemma readers_Nil [simp]: "readers r [] w = []"
  by (simp add: readers_def)

lemma length_readers_append: "length (readers r ds w) \<le> length (readers r (ds @ ds') w)"
  by (induction ds' rule: rev_induct) (simp_all add: readers_snoc flip: append_assoc)

section \<open>Pass 1\<close>

lemma count_reads_spec:
  assumes "\<forall>w \<in> set ws. Suc w < length offs"
  shows "\<exists>seen' offs'. count_reads gate ws (seen, offs) = Some (seen', offs') \<and> length offs' = length offs \<and>
    (\<forall>w. seen' w = (if w \<in> set ws then Some gate else seen w)) \<and>
    offs' ! 0 = offs ! 0 \<and>
    (\<forall>w. Suc w < length offs \<longrightarrow>
      offs' ! Suc w = offs ! Suc w + (if w \<in> set ws \<and> seen w \<noteq> Some gate then 1 else 0))"
  using assms
proof (induction ws arbitrary: seen offs)
  case Nil
  then show ?case by simp
next
  case (Cons w ws)
  show ?case
  proof (cases "seen w = Some gate")
    case True
    then obtain seen' offs' where "count_reads gate ws (seen, offs) = Some (seen', offs')" "length offs' = length offs"
      "\<forall>v. seen' v = (if v \<in> set ws then Some gate else seen v)" "offs' ! 0 = offs ! 0"
      "\<forall>v. Suc v < length offs \<longrightarrow> offs' ! Suc v = offs ! Suc v + (if v \<in> set ws \<and> seen v \<noteq> Some gate then 1 else 0)"
      using Cons.IH[of offs seen] Cons.prems by auto
    with True show ?thesis by auto
  next
    case False
    have h: "\<forall>v \<in> set ws. Suc v < length (offs[Suc w := offs ! Suc w + 1])" using Cons.prems by simp
    obtain seen' offs' where
      "count_reads gate ws (seen(w := Some gate), offs[Suc w := offs ! Suc w + 1]) = Some (seen', offs')"
      "length offs' = length offs"
      "\<forall>v. seen' v = (if v \<in> set ws then Some gate else (seen(w := Some gate)) v)"
      "offs' ! 0 = offs[Suc w := offs ! Suc w + 1] ! 0"
      "\<forall>v. Suc v < length offs \<longrightarrow> offs' ! Suc v = offs[Suc w := offs ! Suc w + 1] ! Suc v +
        (if v \<in> set ws \<and> (seen(w := Some gate)) v \<noteq> Some gate then 1 else 0)"
      using Cons.IH[OF h, of "seen(w := Some gate)"] by (simp only: length_list_update) blast
    with False Cons.prems show ?thesis by (auto simp: nth_list_update)
  qed
qed

lemma count_all_spec:
  assumes "readable r n ds" "length offs = Suc n" "\<forall>w j. seen w = Some j \<longrightarrow> j < length pre"
    "\<forall>w < n. offs ! Suc w = length (readers r pre w)"
  shows "\<exists>seen' offs'. count_all r (length pre) ds (seen, offs) = Some (seen', offs') \<and> length offs' = Suc n \<and>
    offs' ! 0 = offs ! 0 \<and> (\<forall>w < n. offs' ! Suc w = length (readers r (pre @ ds) w))"
  using assms
proof (induction ds arbitrary: pre seen offs)
  case Nil
  then show ?case by simp
next
  case (Cons d ds)
  obtain ws where ws: "gate_reads r d = Some ws" "\<forall>w \<in> set ws. w < n"
    using Cons.prems(1) by (auto simp: readable_def)
  obtain seen1 offs1 where 1: "count_reads (length pre) ws (seen, offs) = Some (seen1, offs1)" "length offs1 = Suc n"
    "\<forall>w. seen1 w = (if w \<in> set ws then Some (length pre) else seen w)" "offs1 ! 0 = offs ! 0"
    "\<forall>w. Suc w < length offs \<longrightarrow>
      offs1 ! Suc w = offs ! Suc w + (if w \<in> set ws \<and> seen w \<noteq> Some (length pre) then 1 else 0)"
    using count_reads_spec[of ws offs "length pre" seen] Cons.prems(2) ws(2) by auto
  have "\<exists>seen' offs'. count_all r (length (pre @ [d])) ds (seen1, offs1) = Some (seen', offs') \<and> length offs' = Suc n \<and>
      offs' ! 0 = offs1 ! 0 \<and> (\<forall>w < n. offs' ! Suc w = length (readers r ((pre @ [d]) @ ds) w))"
  proof (rule Cons.IH)
    show "\<forall>w < n. offs1 ! Suc w = length (readers r (pre @ [d]) w)"
      using 1(5) Cons.prems(2,3,4) ws(1) by (auto simp: readers_snoc reads_of_def)
    show "\<forall>w j. seen1 w = Some j \<longrightarrow> j < length (pre @ [d])"
      using 1(3) Cons.prems(3) by (auto simp: less_SucI split: if_splits)
  qed (use Cons.prems(1) 1(2) in \<open>auto simp: readable_def\<close>)
  then show ?case using ws(1) 1(1,4) by simp
qed

section \<open>Pass 2\<close>

lemma prefix_sums_spec:
  assumes "length offs = Suc n" "offs ! 0 = 0" "k \<le> n"
  shows "length (prefix_sums k offs) = Suc n \<and>
    (\<forall>i \<le> k. prefix_sums k offs ! i = (\<Sum>j < i. offs ! Suc j)) \<and>
    (\<forall>i. k < i \<longrightarrow> prefix_sums k offs ! i = offs ! i)"
  using assms(3)
proof (induction k)
  case 0
  then show ?case using assms by (simp add: prefix_sums_def)
next
  case (Suc k)
  let ?o = "prefix_sums k offs"
  have "prefix_sums (Suc k) offs = ?o[Suc k := ?o ! Suc k + ?o ! k]"
    by (simp add: prefix_sums_def)
  then show ?case using Suc assms(1) by (auto simp: nth_list_update le_Suc_eq)
qed

section \<open>Pass 3\<close>

lemma place_reads_spec:
  assumes "\<forall>w \<in> set ws. w < length cur \<and> (seen w \<noteq> Some gate \<longrightarrow> cur ! w < length edges)"
    and "\<forall>v \<in> set ws. \<forall>w \<in> set ws. cur ! v = cur ! w \<longrightarrow> seen v \<noteq> Some gate \<longrightarrow> seen w \<noteq> Some gate \<longrightarrow> v = w"
  shows "\<exists>seen' cur' edges'. place_reads gate ws (seen, cur, edges) = Some (seen', cur', edges') \<and>
    length cur' = length cur \<and> length edges' = length edges \<and>
    (\<forall>w. seen' w = (if w \<in> set ws then Some gate else seen w)) \<and>
    (\<forall>w < length cur. cur' ! w = cur ! w + (if w \<in> set ws \<and> seen w \<noteq> Some gate then 1 else 0)) \<and>
    (\<forall>k < length edges. edges' ! k =
      (if \<exists>w \<in> set ws. seen w \<noteq> Some gate \<and> cur ! w = k then gate else edges ! k))"
  using assms
proof (induction ws arbitrary: seen cur edges)
  case Nil
  then show ?case by simp
next
  case (Cons w ws)
  show ?case
  proof (cases "seen w = Some gate")
    case True
    then show ?thesis using Cons.IH[of cur seen edges] Cons.prems by auto
  next
    case False
    let ?s = "seen(w := Some gate)" and ?c = "cur[w := cur ! w + 1]" and ?e = "edges[cur ! w := gate]"
    have step: "place_reads gate (w # ws) (seen, cur, edges) = place_reads gate ws (?s, ?c, ?e)"
      using False Cons.prems(1) by simp
    have pre1: "\<forall>v \<in> set ws. v < length ?c \<and> (?s v \<noteq> Some gate \<longrightarrow> ?c ! v < length ?e)"
      using Cons.prems(1) by (auto simp: nth_list_update)
    have pre2: "\<forall>v \<in> set ws. \<forall>u \<in> set ws. ?c ! v = ?c ! u \<longrightarrow> ?s v \<noteq> Some gate \<longrightarrow> ?s u \<noteq> Some gate \<longrightarrow> v = u"
      using Cons.prems by (auto simp: nth_list_update)
    obtain seen' cur' edges' where r: "place_reads gate ws (?s, ?c, ?e) = Some (seen', cur', edges')"
      "length cur' = length cur" "length edges' = length edges"
      "\<forall>v. seen' v = (if v \<in> set ws then Some gate else ?s v)"
      "\<forall>v < length cur. cur' ! v = ?c ! v + (if v \<in> set ws \<and> ?s v \<noteq> Some gate then 1 else 0)"
      "\<forall>k < length edges. edges' ! k =
        (if \<exists>v \<in> set ws. ?s v \<noteq> Some gate \<and> ?c ! v = k then gate else ?e ! k)"
      using Cons.IH[OF pre1 pre2] by (simp only: length_list_update) blast
    have "edges' ! k = (if \<exists>v \<in> set (w # ws). seen v \<noteq> Some gate \<and> cur ! v = k then gate else edges ! k)"
      if k: "k < length edges" for k
    proof -
      have "(\<exists>v \<in> set ws. ?s v \<noteq> Some gate \<and> ?c ! v = k) \<longleftrightarrow>
          (\<exists>v \<in> set ws. v \<noteq> w \<and> seen v \<noteq> Some gate \<and> cur ! v = k)"
        by (auto simp: nth_list_update)
      then show ?thesis using r(6) k False Cons.prems(1) by (auto simp: nth_list_update)
    qed
    moreover have "cur' ! v = cur ! v + (if v \<in> set (w # ws) \<and> seen v \<noteq> Some gate then 1 else 0)"
      if "v < length cur" for v
      using r(5) that False by (auto simp: nth_list_update)
    moreover have "seen' v = (if v \<in> set (w # ws) then Some gate else seen v)" for v using r(4) by auto
    ultimately show ?thesis using step r(1-3) by auto
  qed
qed

text \<open>The run of each wire: disjoint from every other, and as long as the wire has readers.\<close>

definition runs :: "hint_registry \<Rightarrow> nat \<Rightarrow> gate_data list \<Rightarrow> nat list \<Rightarrow> bool" where
  "runs r n ds off \<longleftrightarrow> length off = Suc n \<and>
    (\<forall>w < n. off ! Suc w = off ! w + length (readers r ds w)) \<and>
    (\<forall>v < n. \<forall>w \<le> n. v < w \<longrightarrow> off ! Suc v \<le> off ! w)"

lemma runs_disjoint:
  assumes "runs r n ds off" "v < n" "w < n" "v \<noteq> w"
    and "off ! v \<le> k" "k < off ! Suc v" "off ! w \<le> k'" "k' < off ! Suc w"
  shows "k \<noteq> k'"
proof -
  have "off ! Suc v \<le> off ! w \<or> off ! Suc w \<le> off ! v"
    using assms(1-4) unfolding runs_def by (metis less_imp_le_nat linorder_neqE_nat)
  then show ?thesis using assms(5-8) by linarith
qed

definition placed :: "hint_registry \<Rightarrow> nat \<Rightarrow> nat list \<Rightarrow> gate_data list \<Rightarrow> nat list \<Rightarrow> gate list \<Rightarrow> bool" where
  "placed r n off pre cur edges \<longleftrightarrow> length cur = Suc n \<and> length edges = off ! n \<and>
    (\<forall>w < n. cur ! w = off ! w + length (readers r pre w)) \<and>
    (\<forall>w < n. \<forall>k < length (readers r pre w). edges ! (off ! w + k) = readers r pre w ! k)"

lemma place_one:
  assumes runs: "runs r n (pre @ d # ds) off" and inv: "placed r n off pre cur edges"
    and ws: "gate_reads r d = Some ws" "\<forall>w \<in> set ws. w < n"
    and seen: "\<forall>w j. seen w = Some j \<longrightarrow> j < length pre"
  shows "\<exists>seen' cur' edges'. place_reads (length pre) ws (seen, cur, edges) = Some (seen', cur', edges') \<and>
    placed r n off (pre @ [d]) cur' edges' \<and> (\<forall>w j. seen' w = Some j \<longrightarrow> j < length (pre @ [d]))"
proof -
  have fresh: "seen w \<noteq> Some (length pre)" for w using seen by auto
  have rd: "w \<in> reads_of r d \<longleftrightarrow> w \<in> set ws" for w using ws(1) by (simp add: reads_of_def)
  have room: "length (readers r (pre @ [d]) w) \<le> length (readers r (pre @ d # ds) w)" for w
    using length_readers_append[of r "pre @ [d]" w ds] by simp
  have slot: "off ! w \<le> cur ! w \<and> cur ! w < off ! Suc w" if "w \<in> set ws" for w
    using that room[of w] runs inv ws(2) by (auto simp: runs_def placed_def readers_snoc rd)
  have top: "off ! Suc w \<le> off ! n" if "w < n" for w using runs that unfolding runs_def by blast
  have pre1: "\<forall>w \<in> set ws. w < length cur \<and> (seen w \<noteq> Some (length pre) \<longrightarrow> cur ! w < length edges)"
    using slot top ws(2) inv by (fastforce simp: placed_def)
  have pre2: "\<forall>v \<in> set ws. \<forall>w \<in> set ws. cur ! v = cur ! w \<longrightarrow> seen v \<noteq> Some (length pre) \<longrightarrow>
      seen w \<noteq> Some (length pre) \<longrightarrow> v = w"
    using slot ws(2) runs_disjoint[OF runs] by blast
  obtain seen' cur' edges' where p: "place_reads (length pre) ws (seen, cur, edges) = Some (seen', cur', edges')"
    "length cur' = length cur" "length edges' = length edges"
    "\<forall>w. seen' w = (if w \<in> set ws then Some (length pre) else seen w)"
    "\<forall>w < length cur. cur' ! w = cur ! w + (if w \<in> set ws \<and> seen w \<noteq> Some (length pre) then 1 else 0)"
    "\<forall>k < length edges. edges' ! k =
      (if \<exists>w \<in> set ws. seen w \<noteq> Some (length pre) \<and> cur ! w = k then length pre else edges ! k)"
    using place_reads_spec[OF pre1 pre2] by blast
  have "edges' ! (off ! w + k) = readers r (pre @ [d]) w ! k"
    if w: "w < n" and k: "k < length (readers r (pre @ [d]) w)" for w k
  proof -
    have kr: "off ! w + k < off ! Suc w" using k room[of w] runs w by (auto simp: runs_def)
    then have ke: "off ! w + k < length edges" using top[OF w] inv by (auto simp: placed_def)
    have hit: "(\<exists>v \<in> set ws. cur ! v = off ! w + k) \<longleftrightarrow> w \<in> set ws \<and> cur ! w = off ! w + k"
      using slot ws(2) runs_disjoint[OF runs _ w] kr by (metis le_add1)
    show ?thesis
    proof (cases "k < length (readers r pre w)")
      case True
      then have "cur ! w \<noteq> off ! w + k" using inv w by (auto simp: placed_def)
      then show ?thesis using p(6) ke hit inv w True fresh by (simp add: placed_def readers_snoc nth_append)
    next
      case False
      then have "w \<in> set ws" "k = length (readers r pre w)" using k by (auto simp: readers_snoc rd split: if_splits)
      then show ?thesis using p(6) ke hit inv w fresh by (simp add: placed_def readers_snoc rd)
    qed
  qed
  then have "placed r n off (pre @ [d]) cur' edges'"
    using p inv fresh by (auto simp: placed_def readers_snoc rd)
  moreover have "\<forall>w j. seen' w = Some j \<longrightarrow> j < length (pre @ [d])"
    using p(4) seen by (auto simp: less_SucI split: if_splits)
  ultimately show ?thesis using p(1) by blast
qed

lemma place_all_spec:
  assumes "runs r n (pre @ ds) off" "readable r n ds" "placed r n off pre cur edges"
    "\<forall>w j. seen w = Some j \<longrightarrow> j < length pre"
  shows "\<exists>seen' cur' edges'. place_all r (length pre) ds (seen, cur, edges) = Some (seen', cur', edges') \<and>
    placed r n off (pre @ ds) cur' edges'"
  using assms
proof (induction ds arbitrary: pre seen cur edges)
  case Nil
  then show ?case by simp
next
  case (Cons d ds)
  obtain ws where ws: "gate_reads r d = Some ws" "\<forall>w \<in> set ws. w < n"
    using Cons.prems(2) by (auto simp: readable_def)
  obtain seen1 cur1 edges1 where 1: "place_reads (length pre) ws (seen, cur, edges) = Some (seen1, cur1, edges1)"
    "placed r n off (pre @ [d]) cur1 edges1" "\<forall>w j. seen1 w = Some j \<longrightarrow> j < length (pre @ [d])"
    using place_one[OF Cons.prems(1,3) ws Cons.prems(4)] by blast
  have "readable r n ds" using Cons.prems(2) by (simp add: readable_def)
  then show ?case using Cons.IH[of "pre @ [d]" cur1 edges1 seen1] Cons.prems(1) 1 ws(1) by simp
qed

section \<open>The index\<close>

lemma rebuild_wire_uses_spec:
  assumes "readable r (length (gg_wires g)) (gg_gates g)"
  shows "\<exists>g'. rebuild_wire_uses r g = Some g' \<and> gg_gates g' = gg_gates g \<and> gg_wires g' = gg_wires g \<and>
    const_pool g' = const_pool g \<and> all_one g' = all_one g \<and> wire_def g' = wire_def g \<and>
    (\<forall>w. get_wire_uses g' w = Some (if w < length (gg_wires g) then readers r (gg_gates g) w else []))"
proof -
  let ?n = "length (gg_wires g)" and ?ds = "gg_gates g"
  obtain seen counts where c: "count_all r 0 ?ds (\<lambda>_. None, replicate (?n + 1) 0) = Some (seen, counts)"
    "length counts = Suc ?n" "counts ! 0 = 0" "\<forall>w < ?n. counts ! Suc w = length (readers r ?ds w)"
    using count_all_spec[OF assms, of "replicate (?n + 1) 0" "\<lambda>_. None" "[]"]
    by (auto simp: nth_Cons' simp del: replicate_Suc)
  let ?off = "prefix_sums ?n counts"
  have off: "length ?off = Suc ?n" "\<forall>i \<le> ?n. ?off ! i = (\<Sum>j < i. counts ! Suc j)"
    using prefix_sums_spec[OF c(2,3), of ?n] by auto
  have "?off ! Suc v \<le> ?off ! w" if "v < w" "w \<le> ?n" for v w
  proof -
    have "Suc v \<le> ?n" using that by simp
    then have "?off ! Suc v = (\<Sum>j < Suc v. counts ! Suc j)" "?off ! w = (\<Sum>j < w. counts ! Suc j)"
      using off(2) that(2) by blast+
    moreover have "(\<Sum>j < Suc v. counts ! Suc j) \<le> (\<Sum>j < w. counts ! Suc j)"
      by (rule sum_mono2) (use that in auto)
    ultimately show ?thesis by simp
  qed
  then have runs: "runs r ?n ?ds ?off" using off c(4) by (auto simp: runs_def)
  have "placed r ?n ?off [] ?off (replicate (?off ! ?n) 0)" using off by (simp add: placed_def)
  then obtain seen' cur edges where p: "place_all r 0 ?ds (\<lambda>_. None, ?off, replicate (?off ! ?n) 0) = Some (seen', cur, edges)"
    "placed r ?n ?off ?ds cur edges"
    using place_all_spec[of r ?n "[]" ?ds ?off ?off "replicate (?off ! ?n) 0" "\<lambda>_. None"] runs assms by auto
  let ?g = "g\<lparr>use_edges := edges, use_offsets := ?off\<rparr>"
  have "rebuild_wire_uses r g = Some ?g"
    using c(1) p(1) by (simp add: rebuild_wire_uses_def Let_def)
  moreover have "get_wire_uses ?g w = Some (if w < ?n then readers r ?ds w else [])" for w
  proof (cases "w < ?n")
    case True
    then have len: "?off ! Suc w = ?off ! w + length (readers r ?ds w)" "?off ! Suc w \<le> length edges"
      using runs p(2) by (auto simp: runs_def placed_def)
    have "take (length (readers r ?ds w)) (drop (?off ! w) edges) = readers r ?ds w"
      using p(2) True len by (intro nth_equalityI) (auto simp: placed_def)
    then show ?thesis using True len off(1) by (simp add: get_wire_uses_def read_at_def slice_def)
  next
    case False
    then show ?thesis using off(1) by (simp add: get_wire_uses_def read_at_def)
  qed
  ultimately show ?thesis by (intro exI[of _ ?g]) simp
qed

text \<open>The defining gate is the last one that has the wire among its outputs or auxiliaries.\<close>

lemma define_all_spec:
  assumes "\<forall>d \<in> set ds. gate_defs r d \<noteq> None"
  shows "\<exists>defs'. define_all r k ds defs = Some defs' \<and>
    (\<forall>w. defs' w = (if \<exists>i < length ds. w \<in> set (the (gate_defs r (ds ! i)))
      then Some (k + (GREATEST i. i < length ds \<and> w \<in> set (the (gate_defs r (ds ! i))))) else defs w))"
  using assms
proof (induction ds arbitrary: k defs)
  case Nil
  then show ?case by simp
next
  case (Cons d ds)
  obtain ws where ws: "gate_defs r d = Some ws" using Cons.prems by auto
  have upd: "fold (\<lambda>w m. m(w := Some k)) ws m v = (if v \<in> set ws then Some k else m v)" for m v
    by (induction ws arbitrary: m) auto
  let ?P = "\<lambda>w i. i < length ds \<and> w \<in> set (the (gate_defs r (ds ! i)))"
  let ?Q = "\<lambda>w i. i < length (d # ds) \<and> w \<in> set (the (gate_defs r ((d # ds) ! i)))"
  obtain defs' where d: "define_all r (Suc k) ds (fold (\<lambda>w m. m(w := Some k)) ws defs) = Some defs'"
    "\<forall>w. defs' w = (if \<exists>i. ?P w i then Some (Suc k + (GREATEST i. ?P w i))
      else fold (\<lambda>w m. m(w := Some k)) ws defs w)"
    using Cons.IH[of "Suc k" "fold (\<lambda>w m. m(w := Some k)) ws defs"] Cons.prems by auto
  have "defs' w = (if \<exists>i. ?Q w i then Some (k + (GREATEST i. ?Q w i)) else defs w)" for w
  proof (cases "\<exists>i. ?P w i")
    case True
    have "?P w (GREATEST i. ?P w i)" by (rule GreatestI_ex_nat[OF True, of "length ds"]) simp
    then have "(GREATEST i. ?Q w i) = Suc (GREATEST i. ?P w i)"
    proof (intro Greatest_equality)
      fix y assume y: "?Q w y"
      show "y \<le> Suc (GREATEST i. ?P w i)"
      proof (cases y)
        case (Suc z)
        then have "?P w z" using y by simp
        then have "z \<le> (GREATEST i. ?P w i)" by (rule Greatest_le_nat[where b = "length ds"]) simp
        then show ?thesis using Suc by simp
      qed simp
    qed auto
    moreover have "\<exists>i. ?Q w i" using True by (auto intro: exI[of _ "Suc _"])
    ultimately show ?thesis using d(2) True by simp
  next
    case False
    then have q: "?Q w i \<longleftrightarrow> i = 0 \<and> w \<in> set ws" for i using ws by (cases i) auto
    have "(GREATEST i. ?Q w i) = 0" if "w \<in> set ws" using that by (intro Greatest_equality) (simp_all only: q)
    then show ?thesis using d(2) False q upd by auto
  qed
  then show ?case using ws d(1) by auto
qed

section \<open>Properties\<close>

lemma wf_gate_reads:
  assumes "gate_wf r ks d"
  shows "\<exists>p. get_gate_param r d = Some p \<and> (\<forall>w \<in> set (param_wires p). w < length ks)"
  using assms by (auto simp: gate_wf_def elim!: validated_gate_param)

lemma wf_readable: "graph_wf r g \<Longrightarrow> readable r (length (gg_wires g)) (gg_gates g)"
  using wf_gate_reads by (fastforce simp: graph_wf_def readable_def gate_reads_def param_wires_def)

lemma rebuild_wire_defs_total:
  assumes "graph_wf r g"
  shows "\<exists>defs. rebuild_wire_defs r g = Some (g\<lparr>wire_def := defs\<rparr>)"
proof -
  have "\<forall>d \<in> set (gg_gates g). gate_defs r d \<noteq> None"
    using wf_gate_reads assms by (fastforce simp: graph_wf_def gate_defs_def)
  then show ?thesis using define_all_spec[of "gg_gates g" r 0 "\<lambda>_. None"] by (auto simp: rebuild_wire_defs_def)
qed

text \<open>A graph of one gate that reads a wire twice and one that reads its output.\<close>

definition sample_graph :: gate_graph where
  "sample_graph = \<lparr>
    gg_gates = [\<lparr>body = Op Bxor, wires = [1, 1, 2], immediates = [], dimensions = []\<rparr>,
      \<lparr>body = Op Band, wires = [2, 1, 3], immediates = [], dimensions = []\<rparr>],
    gg_wires = [KConstant ALL_ONE, KInout, KInternal, KInternal],
    gate_origin = \<lambda>_. 0, assertion_names = \<lambda>_. 0, const_pool = [ALL_ONE \<mapsto> 0], all_one = 0,
    wire_def = \<lambda>_. None, use_edges = [], use_offsets = []\<rparr>"

lemma sample_graph_wf: "graph_wf Map.empty sample_graph"
  by (auto simp: sample_graph_def graph_wf_def gate_wf_def validate_shape_def gate_shape_def shape_new_def
      shape_wires_def less_Suc_eq nth_Cons' split: if_splits)

text \<open>C24: Rebuilding the use-def index of a well-formed graph never panics, changes nothing else, and
  answers for every wire the gates that read it, each once, in construction order; a wire added
  later has no readers.\<close>

theorem wire_uses_exact:
  assumes "graph_wf r g"
  shows "\<exists>g'. rebuild_use_def_chains r g = Some g' \<and> gg_gates g' = gg_gates g \<and> gg_wires g' = gg_wires g \<and>
    (\<forall>w. get_wire_uses g' w = Some
      (filter (\<lambda>i. w \<in> set (the (gate_reads r (gg_gates g ! i)))) [0..<length (gg_gates g)]))"
proof -
  obtain defs where defs: "rebuild_wire_defs r g = Some (g\<lparr>wire_def := defs\<rparr>)"
    using rebuild_wire_defs_total[OF assms] by blast
  have rd: "readable r (length (gg_wires g)) (gg_gates g)" using wf_readable[OF assms] .
  obtain g' where g': "rebuild_wire_uses r (g\<lparr>wire_def := defs\<rparr>) = Some g'" "gg_gates g' = gg_gates g"
    "gg_wires g' = gg_wires g"
    "\<forall>w. get_wire_uses g' w = Some (if w < length (gg_wires g) then readers r (gg_gates g) w else [])"
    using rebuild_wire_uses_spec[of r "g\<lparr>wire_def := defs\<rparr>"] rd by auto
  have each: "\<exists>ws. gate_reads r (gg_gates g ! i) = Some ws \<and> (\<forall>w \<in> set ws. w < length (gg_wires g))"
    if "i < length (gg_gates g)" for i
    using rd that by (simp add: readable_def)
  have rd_i: "w \<in> reads_of r (gg_gates g ! i) \<longleftrightarrow> w \<in> set (the (gate_reads r (gg_gates g ! i)))"
    and small: "w \<in> set (the (gate_reads r (gg_gates g ! i))) \<Longrightarrow> w < length (gg_wires g)"
    if "i < length (gg_gates g)" for i w
    using each[OF that] by (auto simp: reads_of_def)
  have "(if w < length (gg_wires g) then readers r (gg_gates g) w else []) =
      filter (\<lambda>i. w \<in> set (the (gate_reads r (gg_gates g ! i)))) [0..<length (gg_gates g)]" for w
  proof (cases "w < length (gg_wires g)")
    case True
    have "filter (\<lambda>i. w \<in> reads_of r (gg_gates g ! i)) [0..<length (gg_gates g)] =
        filter (\<lambda>i. w \<in> set (the (gate_reads r (gg_gates g ! i)))) [0..<length (gg_gates g)]"
      by (rule filter_cong) (simp_all add: rd_i)
    with True show ?thesis by (simp add: readers_def)
  next
    case False
    then have "filter (\<lambda>i. w \<in> set (the (gate_reads r (gg_gates g ! i)))) [0..<length (gg_gates g)] = []"
      using small by (auto simp: filter_empty_conv)
    with False show ?thesis by simp
  qed
  with g' defs show ?thesis by (auto simp: rebuild_use_def_chains_def)
qed

theorem wire_uses_exact_witness:
  "\<exists>g'. rebuild_use_def_chains Map.empty sample_graph = Some g' \<and>
    get_wire_uses g' 1 = Some [0, 1] \<and> get_wire_uses g' 2 = Some [1] \<and> get_wire_uses g' 7 = Some []"
proof -
  obtain g' where g': "rebuild_use_def_chains Map.empty sample_graph = Some g'"
    "\<forall>w. get_wire_uses g' w = Some
      (filter (\<lambda>i. w \<in> set (the (gate_reads Map.empty (gg_gates sample_graph ! i))))
        [0..<length (gg_gates sample_graph)])"
    using wire_uses_exact[OF sample_graph_wf] by blast
  then show ?thesis
    by (intro exI[of _ g'])
      (simp add: sample_graph_def gate_reads_def get_gate_param_def gate_shape_def gate_param_for_shape_def
        shape_new_def slice_def Let_def upt_rec)
qed

end
