(* ===== verification/Wire_Lowering.thy ===== *)
theory Wire_Lowering
  imports Gate_Graph Constraint
begin

text \<open>
  Constraints over wires and their lowering to constraints over value indices: the operand
  expressions of \<open>lower/expr.rs\<close>, shifted wires and operand ranges of \<open>lower/operand.rs\<close>, the
  records of \<open>lower/constraint.rs\<close> and the builder of \<open>lower/mod.rs\<close>, whose operands are ranges of
  one arena of terms.
\<close>

section \<open>Shifted wires\<close>

record shifted_wire =
  sw_wire :: wire
  sw_seq :: "shift \<times> shift"

definition sw_single :: "wire \<Rightarrow> shift \<Rightarrow> shifted_wire" where
  "sw_single w s = \<lparr>sw_wire = w, sw_seq = (s, IDENTITY)\<rparr>"

definition sole_shift :: "shifted_wire \<Rightarrow> shift option" where
  "sole_shift t = (case sw_seq t of (inner, outer) \<Rightarrow> if is_identity outer then Some inner else None)"

definition to_shifted_value_index :: "(wire \<Rightarrow> value_index) \<Rightarrow> shifted_wire \<Rightarrow> shifted_value_index" where
  "to_shifted_value_index mapping t = svi_new (mapping (sw_wire t)) (sw_seq t)"

datatype push_inner_result = Seq "shift \<times> shift" | Zero | OverBudget

definition lone :: "shift \<Rightarrow> shift \<times> shift" where
  "lone s = (if is_identity s then (IDENTITY, IDENTITY) else (s, IDENTITY))"

definition push_inner :: "shift \<times> shift \<Rightarrow> shift \<Rightarrow> nat \<Rightarrow> push_inner_result option" where
  "push_inner sq s slots =
    (case sq of (inner, outer) \<Rightarrow>
      Option.bind (compose s inner) (\<lambda>c. case c of
        CompSingle merged \<Rightarrow>
          map_option (\<lambda>c. case c of
              CompSingle collapsed \<Rightarrow> Seq (lone collapsed)
            | CompZero \<Rightarrow> Zero
            | CompPair \<Rightarrow> Seq (merged, outer)) (compose merged outer)
      | CompZero \<Rightarrow> Some Zero
      | CompPair \<Rightarrow> if slots \<ge> 2 \<and> is_identity outer then Some (Seq (s, inner)) else Some OverBudget))"

section \<open>Expressions\<close>

datatype wire_expr_term = TermWire wire | TermShifted wire shift

type_synonym wire_expr = "wire_expr_term list"

fun to_shifted_wire :: "wire_expr_term \<Rightarrow> shifted_wire" where
  "to_shifted_wire (TermWire w) = sw_single w IDENTITY"
| "to_shifted_wire (TermShifted w s) = sw_single w s"

definition expr_sll :: "wire \<Rightarrow> nat \<Rightarrow> wire_expr_term option" where
  "expr_sll w n = map_option (TermShifted w) (shift_sll n)"
definition expr_sll32 :: "wire \<Rightarrow> nat \<Rightarrow> wire_expr_term option" where
  "expr_sll32 w n = map_option (TermShifted w) (shift_sll32 n)"
definition expr_srl :: "wire \<Rightarrow> nat \<Rightarrow> wire_expr_term option" where
  "expr_srl w n = map_option (TermShifted w) (shift_srl n)"
definition expr_srl32 :: "wire \<Rightarrow> nat \<Rightarrow> wire_expr_term option" where
  "expr_srl32 w n = map_option (TermShifted w) (shift_srl32 n)"
definition expr_sar :: "wire \<Rightarrow> nat \<Rightarrow> wire_expr_term option" where
  "expr_sar w n = map_option (TermShifted w) (shift_sar n)"
definition expr_sra32 :: "wire \<Rightarrow> nat \<Rightarrow> wire_expr_term option" where
  "expr_sra32 w n = map_option (TermShifted w) (shift_sra32 n)"
definition expr_rotr :: "wire \<Rightarrow> nat \<Rightarrow> wire_expr_term option" where
  "expr_rotr w n = map_option (TermShifted w) (shift_rotr n)"
definition expr_rotr32 :: "wire \<Rightarrow> nat \<Rightarrow> wire_expr_term option" where
  "expr_rotr32 w n = map_option (TermShifted w) (shift_rotr32 n)"

definition xor2 :: "wire_expr_term \<Rightarrow> wire_expr_term \<Rightarrow> wire_expr" where "xor2 a b = [a, b]"
definition xor3 :: "wire_expr_term \<Rightarrow> wire_expr_term \<Rightarrow> wire_expr_term \<Rightarrow> wire_expr" where
  "xor3 a b c = [a, b, c]"
definition xor4 ::
  "wire_expr_term \<Rightarrow> wire_expr_term \<Rightarrow> wire_expr_term \<Rightarrow> wire_expr_term \<Rightarrow> wire_expr" where
  "xor4 a b c d = [a, b, c, d]"
definition xor_multi :: "wire_expr_term list \<Rightarrow> wire_expr" where "xor_multi ts = ts"
definition expr_empty :: wire_expr where "expr_empty = []"
definition expr_wire :: "wire \<Rightarrow> wire_expr" where "expr_wire w = [TermWire w]"
definition expr_term :: "wire_expr_term \<Rightarrow> wire_expr" where "expr_term t = [t]"

section \<open>Operands and constraints\<close>

record wire_operand =
  op_start :: nat
  op_len :: nat

definition from_range :: "nat \<Rightarrow> nat \<Rightarrow> wire_operand option" where
  "from_range start len = (if start < 2 ^ 32 \<and> len < 2 ^ 32 then Some \<lparr>op_start = start, op_len = len\<rparr> else None)"

definition as_slice :: "wire_operand \<Rightarrow> shifted_wire list \<Rightarrow> shifted_wire list option" where
  "as_slice o' arena = slice arena (op_start o') (op_start o' + op_len o')"

definition into_value_indices ::
  "wire_operand \<Rightarrow> shifted_wire list \<Rightarrow> (wire \<Rightarrow> value_index) \<Rightarrow> operand option" where
  "into_value_indices o' arena mapping = map_option (map (to_shifted_value_index mapping)) (as_slice o' arena)"

definition mark_used :: "wire_operand \<Rightarrow> shifted_wire list \<Rightarrow> wire set \<Rightarrow> wire set option" where
  "mark_used o' arena used = map_option (\<lambda>ts. used \<union> set (map sw_wire ts)) (as_slice o' arena)"

record wire_and =
  wa_a :: wire_operand
  wa_b :: wire_operand
  wa_c :: wire_operand

record wire_imul =
  wi_a :: wire_operand
  wi_b :: wire_operand
  wi_hi :: wire_operand
  wi_lo :: wire_operand

record wire_bmul =
  wb_a_lo :: wire_operand
  wb_a_hi :: wire_operand
  wb_b_lo :: wire_operand
  wb_b_hi :: wire_operand
  wb_c_lo :: wire_operand
  wb_c_hi :: wire_operand

record wire_zero =
  wz_val :: wire_operand

record wire_linear =
  wl_rhs :: wire_operand
  wl_dst :: wire

definition and_into :: "shifted_wire list \<Rightarrow> (wire \<Rightarrow> value_index) \<Rightarrow> wire_and \<Rightarrow> and_constraint option" where
  "and_into arena mapping c = do {
    a \<leftarrow> into_value_indices (wa_a c) arena mapping;
    b \<leftarrow> into_value_indices (wa_b c) arena mapping;
    c \<leftarrow> into_value_indices (wa_c c) arena mapping;
    Some (AndConstraint a b c)
  }"

definition imul_into :: "shifted_wire list \<Rightarrow> (wire \<Rightarrow> value_index) \<Rightarrow> wire_imul \<Rightarrow> imul_constraint option" where
  "imul_into arena mapping c = do {
    a \<leftarrow> into_value_indices (wi_a c) arena mapping;
    b \<leftarrow> into_value_indices (wi_b c) arena mapping;
    lo \<leftarrow> into_value_indices (wi_lo c) arena mapping;
    hi \<leftarrow> into_value_indices (wi_hi c) arena mapping;
    Some (ImulConstraint a b lo hi)
  }"

definition bmul_into :: "shifted_wire list \<Rightarrow> (wire \<Rightarrow> value_index) \<Rightarrow> wire_bmul \<Rightarrow> bmul_constraint option" where
  "bmul_into arena mapping c = do {
    a_lo \<leftarrow> into_value_indices (wb_a_lo c) arena mapping;
    a_hi \<leftarrow> into_value_indices (wb_a_hi c) arena mapping;
    b_lo \<leftarrow> into_value_indices (wb_b_lo c) arena mapping;
    b_hi \<leftarrow> into_value_indices (wb_b_hi c) arena mapping;
    c_lo \<leftarrow> into_value_indices (wb_c_lo c) arena mapping;
    c_hi \<leftarrow> into_value_indices (wb_c_hi c) arena mapping;
    Some (BmulConstraint a_lo a_hi b_lo b_hi c_lo c_hi)
  }"

definition zero_into :: "shifted_wire list \<Rightarrow> (wire \<Rightarrow> value_index) \<Rightarrow> wire_zero \<Rightarrow> zero_constraint option" where
  "zero_into arena mapping c = map_option ZeroConstraint (into_value_indices (wz_val c) arena mapping)"

definition linear_into :: "shifted_wire list \<Rightarrow> (wire \<Rightarrow> value_index) \<Rightarrow> wire_linear \<Rightarrow> zero_constraint option" where
  "linear_into arena mapping c = do {
    opnd \<leftarrow> into_value_indices (wl_rhs c) arena mapping;
    Some (ZeroConstraint (opnd @ [svi_plain (mapping (wl_dst c))]))
  }"

section \<open>The builder\<close>

record constraint_builder =
  cb_and :: "wire_and list"
  cb_imul :: "wire_imul list"
  cb_bmul :: "wire_bmul list"
  cb_linear :: "wire_linear list"
  cb_zero :: "wire_zero list"
  cb_terms :: "shifted_wire list"

definition cb_new :: constraint_builder where
  "cb_new = \<lparr>cb_and = [], cb_imul = [], cb_bmul = [], cb_linear = [], cb_zero = [], cb_terms = []\<rparr>"

definition push_operand :: "shifted_wire list \<Rightarrow> constraint_builder \<Rightarrow> (wire_operand \<times> constraint_builder) option" where
  "push_operand ts cb = do {
    let start = length (cb_terms cb);
    let cb = cb\<lparr>cb_terms := cb_terms cb @ ts\<rparr>;
    o' \<leftarrow> from_range start (length (cb_terms cb) - start);
    Some (o', cb)
  }"

definition operand_terms :: "constraint_builder \<Rightarrow> wire_operand \<Rightarrow> shifted_wire list option" where
  "operand_terms cb o' = as_slice o' (cb_terms cb)"

definition cb_term :: "constraint_builder \<Rightarrow> wire_operand \<Rightarrow> nat \<Rightarrow> shifted_wire option" where
  "cb_term cb o' i = Option.bind (as_slice o' (cb_terms cb)) (\<lambda>ts. read_at ts i)"

definition next_term_start :: "constraint_builder \<Rightarrow> nat" where
  "next_term_start cb = length (cb_terms cb)"

definition push_term :: "shifted_wire \<Rightarrow> constraint_builder \<Rightarrow> constraint_builder" where
  "push_term t cb = cb\<lparr>cb_terms := cb_terms cb @ [t]\<rparr>"

definition operand_since :: "constraint_builder \<Rightarrow> nat \<Rightarrow> wire_operand option" where
  "operand_since cb start =
    (if start \<le> length (cb_terms cb) then from_range start (length (cb_terms cb) - start) else None)"

definition into_operand :: "wire_expr \<Rightarrow> constraint_builder \<Rightarrow> (wire_operand \<times> constraint_builder) option" where
  "into_operand e cb = push_operand (map to_shifted_wire e) cb"

definition push_and :: "wire_expr \<Rightarrow> wire_expr \<Rightarrow> wire_expr \<Rightarrow> constraint_builder \<Rightarrow> constraint_builder option" where
  "push_and a b c cb = do {
    (a, cb) \<leftarrow> into_operand a cb;
    (b, cb) \<leftarrow> into_operand b cb;
    (c, cb) \<leftarrow> into_operand c cb;
    Some (cb\<lparr>cb_and := cb_and cb @ [\<lparr>wa_a = a, wa_b = b, wa_c = c\<rparr>]\<rparr>)
  }"

definition push_imul ::
  "wire_expr \<Rightarrow> wire_expr \<Rightarrow> wire_expr \<Rightarrow> wire_expr \<Rightarrow> constraint_builder \<Rightarrow> constraint_builder option" where
  "push_imul a b hi lo cb = do {
    (a, cb) \<leftarrow> into_operand a cb;
    (b, cb) \<leftarrow> into_operand b cb;
    (hi, cb) \<leftarrow> into_operand hi cb;
    (lo, cb) \<leftarrow> into_operand lo cb;
    Some (cb\<lparr>cb_imul := cb_imul cb @ [\<lparr>wi_a = a, wi_b = b, wi_hi = hi, wi_lo = lo\<rparr>]\<rparr>)
  }"

definition push_bmul ::
  "wire_expr \<Rightarrow> wire_expr \<Rightarrow> wire_expr \<Rightarrow> wire_expr \<Rightarrow> wire_expr \<Rightarrow> wire_expr \<Rightarrow>
    constraint_builder \<Rightarrow> constraint_builder option" where
  "push_bmul a_lo a_hi b_lo b_hi c_lo c_hi cb = do {
    (a_lo, cb) \<leftarrow> into_operand a_lo cb;
    (a_hi, cb) \<leftarrow> into_operand a_hi cb;
    (b_lo, cb) \<leftarrow> into_operand b_lo cb;
    (b_hi, cb) \<leftarrow> into_operand b_hi cb;
    (c_lo, cb) \<leftarrow> into_operand c_lo cb;
    (c_hi, cb) \<leftarrow> into_operand c_hi cb;
    Some (cb\<lparr>cb_bmul := cb_bmul cb @ [\<lparr>wb_a_lo = a_lo, wb_a_hi = a_hi, wb_b_lo = b_lo, wb_b_hi = b_hi,
      wb_c_lo = c_lo, wb_c_hi = c_hi\<rparr>]\<rparr>)
  }"

definition push_linear :: "wire_expr \<Rightarrow> wire \<Rightarrow> constraint_builder \<Rightarrow> constraint_builder option" where
  "push_linear rhs dst cb = do {
    (rhs, cb) \<leftarrow> into_operand rhs cb;
    Some (cb\<lparr>cb_linear := cb_linear cb @ [\<lparr>wl_rhs = rhs, wl_dst = dst\<rparr>]\<rparr>)
  }"

definition push_zero :: "wire_expr \<Rightarrow> constraint_builder \<Rightarrow> constraint_builder option" where
  "push_zero val cb = do {
    (val, cb) \<leftarrow> into_operand val cb;
    Some (cb\<lparr>cb_zero := cb_zero cb @ [\<lparr>wz_val = val\<rparr>]\<rparr>)
  }"

definition cb_build :: "(wire \<Rightarrow> value_index) \<Rightarrow> constraint_builder \<Rightarrow>
    (zero_constraint list \<times> and_constraint list \<times> imul_constraint list \<times> bmul_constraint list) option" where
  "cb_build mapping cb = do {
    ands \<leftarrow> those (map (and_into (cb_terms cb) mapping) (cb_and cb));
    imuls \<leftarrow> those (map (imul_into (cb_terms cb) mapping) (cb_imul cb));
    bmuls \<leftarrow> those (map (bmul_into (cb_terms cb) mapping) (cb_bmul cb));
    linears \<leftarrow> those (map (linear_into (cb_terms cb) mapping) (cb_linear cb));
    zeros \<leftarrow> those (map (zero_into (cb_terms cb) mapping) (cb_zero cb));
    Some (linears @ zeros, ands, imuls, bmuls)
  }"

fun mark_each :: "('c \<Rightarrow> wire_operand list) \<Rightarrow> shifted_wire list \<Rightarrow> 'c list \<Rightarrow> wire set \<Rightarrow> wire set option" where
  "mark_each ops arena [] used = Some used"
| "mark_each ops arena (c # cs) used =
    Option.bind (foldl (\<lambda>u o'. Option.bind u (mark_used o' arena)) (Some used) (ops c)) (mark_each ops arena cs)"

definition mark_used_wires :: "constraint_builder \<Rightarrow> wire set option" where
  "mark_used_wires cb = do {
    u \<leftarrow> mark_each (\<lambda>c. [wa_a c, wa_b c, wa_c c]) (cb_terms cb) (cb_and cb) {};
    u \<leftarrow> mark_each (\<lambda>c. [wi_a c, wi_b c, wi_hi c, wi_lo c]) (cb_terms cb) (cb_imul cb) u;
    u \<leftarrow> mark_each (\<lambda>c. [wb_a_lo c, wb_a_hi c, wb_b_lo c, wb_b_hi c, wb_c_lo c, wb_c_hi c])
      (cb_terms cb) (cb_bmul cb) u;
    u \<leftarrow> mark_each (\<lambda>c. [wl_rhs c]) (cb_terms cb) (cb_linear cb) u;
    let u = u \<union> set (map wl_dst (cb_linear cb));
    mark_each (\<lambda>c. [wz_val c]) (cb_terms cb) (cb_zero cb) u
  }"

section \<open>What constraints over wires say\<close>

definition seq_apply :: "shift \<times> shift \<Rightarrow> u64 \<Rightarrow> u64" where
  "seq_apply sq w = shift_apply (snd sq) (shift_apply (fst sq) w)"

definition sw_val :: "(wire \<Rightarrow> u64) \<Rightarrow> shifted_wire \<Rightarrow> u64" where
  "sw_val \<sigma> t = seq_apply (sw_seq t) (\<sigma> (sw_wire t))"

fun terms_val :: "(wire \<Rightarrow> u64) \<Rightarrow> shifted_wire list \<Rightarrow> u64" where
  "terms_val \<sigma> [] = 0"
| "terms_val \<sigma> (t # ts) = sw_val \<sigma> t XOR terms_val \<sigma> ts"

definition op_val :: "(wire \<Rightarrow> u64) \<Rightarrow> shifted_wire list \<Rightarrow> wire_operand \<Rightarrow> u64" where
  "op_val \<sigma> arena o' = terms_val \<sigma> (take (op_len o') (drop (op_start o') arena))"

fun term_val :: "(wire \<Rightarrow> u64) \<Rightarrow> wire_expr_term \<Rightarrow> u64" where
  "term_val \<sigma> (TermWire w) = \<sigma> w"
| "term_val \<sigma> (TermShifted w s) = shift_apply s (\<sigma> w)"

fun expr_val :: "(wire \<Rightarrow> u64) \<Rightarrow> wire_expr \<Rightarrow> u64" where
  "expr_val \<sigma> [] = 0"
| "expr_val \<sigma> (t # ts) = term_val \<sigma> t XOR expr_val \<sigma> ts"

definition and_sat :: "(wire \<Rightarrow> u64) \<Rightarrow> shifted_wire list \<Rightarrow> wire_and \<Rightarrow> bool" where
  "and_sat \<sigma> T c \<longleftrightarrow> op_val \<sigma> T (wa_a c) AND op_val \<sigma> T (wa_b c) = op_val \<sigma> T (wa_c c)"

definition imul_rel :: "u64 \<Rightarrow> u64 \<Rightarrow> u64 \<Rightarrow> u64 \<Rightarrow> bool" where
  "imul_rel a b hi lo \<longleftrightarrow> unat a * unat b = unat hi * 2 ^ 64 + unat lo"

definition bmul_rel :: "u64 \<Rightarrow> u64 \<Rightarrow> u64 \<Rightarrow> u64 \<Rightarrow> u64 \<Rightarrow> u64 \<Rightarrow> bool" where
  "bmul_rel a_lo a_hi b_lo b_hi c_lo c_hi \<longleftrightarrow>
    ghash_modulus dvd element_poly a_lo a_hi * element_poly b_lo b_hi - element_poly c_lo c_hi"

definition imul_sat :: "(wire \<Rightarrow> u64) \<Rightarrow> shifted_wire list \<Rightarrow> wire_imul \<Rightarrow> bool" where
  "imul_sat \<sigma> T c \<longleftrightarrow>
    imul_rel (op_val \<sigma> T (wi_a c)) (op_val \<sigma> T (wi_b c)) (op_val \<sigma> T (wi_hi c)) (op_val \<sigma> T (wi_lo c))"

definition bmul_sat :: "(wire \<Rightarrow> u64) \<Rightarrow> shifted_wire list \<Rightarrow> wire_bmul \<Rightarrow> bool" where
  "bmul_sat \<sigma> T c \<longleftrightarrow>
    bmul_rel (op_val \<sigma> T (wb_a_lo c)) (op_val \<sigma> T (wb_a_hi c)) (op_val \<sigma> T (wb_b_lo c))
      (op_val \<sigma> T (wb_b_hi c)) (op_val \<sigma> T (wb_c_lo c)) (op_val \<sigma> T (wb_c_hi c))"

definition linear_sat :: "(wire \<Rightarrow> u64) \<Rightarrow> shifted_wire list \<Rightarrow> wire_linear \<Rightarrow> bool" where
  "linear_sat \<sigma> T c \<longleftrightarrow> op_val \<sigma> T (wl_rhs c) = \<sigma> (wl_dst c)"

definition zero_sat :: "(wire \<Rightarrow> u64) \<Rightarrow> shifted_wire list \<Rightarrow> wire_zero \<Rightarrow> bool" where
  "zero_sat \<sigma> T c \<longleftrightarrow> op_val \<sigma> T (wz_val c) = 0"

definition cb_sat :: "(wire \<Rightarrow> u64) \<Rightarrow> constraint_builder \<Rightarrow> bool" where
  "cb_sat \<sigma> cb \<longleftrightarrow>
    (\<forall>c \<in> set (cb_and cb). and_sat \<sigma> (cb_terms cb) c) \<and> (\<forall>c \<in> set (cb_imul cb). imul_sat \<sigma> (cb_terms cb) c) \<and>
    (\<forall>c \<in> set (cb_bmul cb). bmul_sat \<sigma> (cb_terms cb) c) \<and> (\<forall>c \<in> set (cb_linear cb). linear_sat \<sigma> (cb_terms cb) c) \<and>
    (\<forall>c \<in> set (cb_zero cb). zero_sat \<sigma> (cb_terms cb) c)"

text \<open>Every operand lies inside the arena.\<close>

definition in_arena :: "shifted_wire list \<Rightarrow> wire_operand \<Rightarrow> bool" where
  "in_arena T o' \<longleftrightarrow> op_start o' + op_len o' \<le> length T"

definition cb_wf :: "constraint_builder \<Rightarrow> bool" where
  "cb_wf cb \<longleftrightarrow> (let ok = in_arena (cb_terms cb) in
    (\<forall>c \<in> set (cb_and cb). ok (wa_a c) \<and> ok (wa_b c) \<and> ok (wa_c c)) \<and>
    (\<forall>c \<in> set (cb_imul cb). ok (wi_a c) \<and> ok (wi_b c) \<and> ok (wi_hi c) \<and> ok (wi_lo c)) \<and>
    (\<forall>c \<in> set (cb_bmul cb). ok (wb_a_lo c) \<and> ok (wb_a_hi c) \<and> ok (wb_b_lo c) \<and> ok (wb_b_hi c) \<and>
      ok (wb_c_lo c) \<and> ok (wb_c_hi c)) \<and>
    (\<forall>c \<in> set (cb_linear cb). ok (wl_rhs c)) \<and> (\<forall>c \<in> set (cb_zero cb). ok (wz_val c)))"

lemma shift_apply_IDENTITY: "shift_apply IDENTITY w = w"
  by (rule shift_apply_identity) simp_all

lemma seq_apply_single [simp]: "seq_apply (s, IDENTITY) w = shift_apply s w"
  by (simp add: seq_apply_def shift_apply_IDENTITY)

lemma shift_apply_zero:
  assumes "valid_shift s"
  shows "shift_apply s 0 = 0"
proof (rule bit_word_eqI)
  fix i
  show "bit (shift_apply s 0) i \<longleftrightarrow> bit (0 :: u64) i"
    by (cases "shift_src (variant s) (amt s) i") (simp_all add: bit_shift_apply[OF assms])
qed

lemma sw_val_to_shifted_wire [simp]: "sw_val \<sigma> (to_shifted_wire t) = term_val \<sigma> t"
  by (cases t) (simp_all add: sw_val_def sw_single_def shift_apply_IDENTITY)

lemma terms_val_expr [simp]: "terms_val \<sigma> (map to_shifted_wire e) = expr_val \<sigma> e"
  by (induction e) simp_all

lemma terms_val_append [simp]: "terms_val \<sigma> (xs @ ys) = terms_val \<sigma> xs XOR terms_val \<sigma> ys"
  by (induction xs) (simp_all add: xor.assoc)

lemma op_val_ext [simp]: "in_arena T o' \<Longrightarrow> op_val \<sigma> (T @ T') o' = op_val \<sigma> T o'"
  by (simp add: op_val_def in_arena_def)

lemma in_arena_ext [simp]: "in_arena T o' \<Longrightarrow> in_arena (T @ T') o'"
  by (simp add: in_arena_def)

lemma cb_ext:
  assumes "cb_wf cb"
  shows "cb_wf (cb\<lparr>cb_terms := cb_terms cb @ ts\<rparr>) \<and>
    (cb_sat \<sigma> (cb\<lparr>cb_terms := cb_terms cb @ ts\<rparr>) \<longleftrightarrow> cb_sat \<sigma> cb)"
  using assms
  by (simp add: cb_wf_def cb_sat_def and_sat_def imul_sat_def bmul_sat_def linear_sat_def zero_sat_def Let_def)

lemma wf_push_and: "cb_wf (cb\<lparr>cb_terms := T\<rparr>) \<Longrightarrow> in_arena T (wa_a c) \<Longrightarrow> in_arena T (wa_b c) \<Longrightarrow> in_arena T (wa_c c) \<Longrightarrow>
    cb_wf (cb\<lparr>cb_terms := T, cb_and := cb_and cb @ [c]\<rparr>)"
  by (auto simp: cb_wf_def Let_def)

lemma wf_push_imul: "cb_wf (cb\<lparr>cb_terms := T\<rparr>) \<Longrightarrow> in_arena T (wi_a c) \<Longrightarrow> in_arena T (wi_b c) \<Longrightarrow> in_arena T (wi_hi c) \<Longrightarrow> in_arena T (wi_lo c) \<Longrightarrow>
    cb_wf (cb\<lparr>cb_terms := T, cb_imul := cb_imul cb @ [c]\<rparr>)"
  by (auto simp: cb_wf_def Let_def)

lemma wf_push_bmul: "cb_wf (cb\<lparr>cb_terms := T\<rparr>) \<Longrightarrow> in_arena T (wb_a_lo c) \<Longrightarrow> in_arena T (wb_a_hi c) \<Longrightarrow> in_arena T (wb_b_lo c) \<Longrightarrow> in_arena T (wb_b_hi c) \<Longrightarrow> in_arena T (wb_c_lo c) \<Longrightarrow> in_arena T (wb_c_hi c) \<Longrightarrow>
    cb_wf (cb\<lparr>cb_terms := T, cb_bmul := cb_bmul cb @ [c]\<rparr>)"
  by (auto simp: cb_wf_def Let_def)

lemma wf_push_linear: "cb_wf (cb\<lparr>cb_terms := T\<rparr>) \<Longrightarrow> in_arena T (wl_rhs c) \<Longrightarrow>
    cb_wf (cb\<lparr>cb_terms := T, cb_linear := cb_linear cb @ [c]\<rparr>)"
  by (auto simp: cb_wf_def Let_def)

lemma wf_push_zero: "cb_wf (cb\<lparr>cb_terms := T\<rparr>) \<Longrightarrow> in_arena T (wz_val c) \<Longrightarrow>
    cb_wf (cb\<lparr>cb_terms := T, cb_zero := cb_zero cb @ [c]\<rparr>)"
  by (auto simp: cb_wf_def Let_def)

lemma into_operand_eq:
  "into_operand e cb =
    (if length (cb_terms cb) < 2 ^ 32 \<and> length e < 2 ^ 32
     then Some (\<lparr>op_start = length (cb_terms cb), op_len = length e\<rparr>,
       cb\<lparr>cb_terms := cb_terms cb @ map to_shifted_wire e\<rparr>)
     else None)"
  by (simp add: into_operand_def push_operand_def from_range_def Let_def)

text \<open>Each push keeps the builder well-formed and conjoins the relation it states.  \<open>pushed\<close> bundles
  what the gates need to know of a push.\<close>

definition pushed :: "constraint_builder \<Rightarrow> constraint_builder \<Rightarrow> nat \<Rightarrow> ((wire \<Rightarrow> u64) \<Rightarrow> bool) \<Rightarrow> bool" where
  "pushed cb cb' n rel \<longleftrightarrow> cb_wf cb' \<and> length (cb_terms cb') = length (cb_terms cb) + n \<and>
    (\<forall>\<sigma>. cb_sat \<sigma> cb' \<longleftrightarrow> cb_sat \<sigma> cb \<and> rel \<sigma>)"

lemmas sat_defs = cb_sat_def and_sat_def imul_sat_def bmul_sat_def linear_sat_def zero_sat_def

lemma push_and_spec:
  assumes "cb_wf cb" "length (cb_terms cb) + length a + length b + length c < 2 ^ 32"
  shows "\<exists>cb'. push_and a b c cb = Some cb' \<and>
    pushed cb cb' (length a + length b + length c) (\<lambda>\<sigma>. expr_val \<sigma> a AND expr_val \<sigma> b = expr_val \<sigma> c)"
proof -
  let ?T = "cb_terms cb @ map to_shifted_wire a @ map to_shifted_wire b @ map to_shifted_wire c"
  let ?c = "\<lparr>wa_a = \<lparr>op_start = length (cb_terms cb), op_len = length a\<rparr>,
    wa_b = \<lparr>op_start = length (cb_terms cb) + length a, op_len = length b\<rparr>,
    wa_c = \<lparr>op_start = length (cb_terms cb) + (length a + length b), op_len = length c\<rparr>\<rparr>"
  let ?cb = "cb\<lparr>cb_terms := ?T, cb_and := cb_and cb @ [?c]\<rparr>"
  have "push_and a b c cb = Some ?cb"
    using assms(2) by (simp add: push_and_def into_operand_eq)
  moreover have "cb_wf ?cb"
    using cb_ext[OF assms(1), THEN conjunct1] by (rule wf_push_and) (simp_all add: in_arena_def)
  moreover have "cb_sat \<sigma> ?cb \<longleftrightarrow> cb_sat \<sigma> (cb\<lparr>cb_terms := ?T\<rparr>) \<and> and_sat \<sigma> ?T ?c" for \<sigma>
    by (auto simp: sat_defs)
  moreover have "and_sat \<sigma> ?T ?c \<longleftrightarrow> expr_val \<sigma> a AND expr_val \<sigma> b = expr_val \<sigma> c" for \<sigma>
    by (simp add: and_sat_def op_val_def)
  ultimately show ?thesis using cb_ext[OF assms(1)] by (intro exI[of _ ?cb]) (simp add: pushed_def)
qed

lemma push_imul_spec:
  assumes "cb_wf cb" "length (cb_terms cb) + length a + length b + length hi + length lo < 2 ^ 32"
  shows "\<exists>cb'. push_imul a b hi lo cb = Some cb' \<and>
    pushed cb cb' (length a + length b + length hi + length lo)
      (\<lambda>\<sigma>. imul_rel (expr_val \<sigma> a) (expr_val \<sigma> b) (expr_val \<sigma> hi) (expr_val \<sigma> lo))"
proof -
  let ?T = "cb_terms cb @ map to_shifted_wire a @ map to_shifted_wire b @ map to_shifted_wire hi @ map to_shifted_wire lo"
  let ?c = "\<lparr>wi_a = \<lparr>op_start = length (cb_terms cb), op_len = length a\<rparr>,
    wi_b = \<lparr>op_start = length (cb_terms cb) + length a, op_len = length b\<rparr>,
    wi_hi = \<lparr>op_start = length (cb_terms cb) + (length a + length b), op_len = length hi\<rparr>,
    wi_lo = \<lparr>op_start = length (cb_terms cb) + (length a + (length b + length hi)), op_len = length lo\<rparr>\<rparr>"
  let ?cb = "cb\<lparr>cb_terms := ?T, cb_imul := cb_imul cb @ [?c]\<rparr>"
  have "push_imul a b hi lo cb = Some ?cb"
    using assms(2) by (simp add: push_imul_def into_operand_eq)
  moreover have "cb_wf ?cb"
    using cb_ext[OF assms(1), THEN conjunct1] by (rule wf_push_imul) (simp_all add: in_arena_def)
  moreover have "cb_sat \<sigma> ?cb \<longleftrightarrow> cb_sat \<sigma> (cb\<lparr>cb_terms := ?T\<rparr>) \<and> imul_sat \<sigma> ?T ?c" for \<sigma>
    by (auto simp: sat_defs)
  moreover have "imul_sat \<sigma> ?T ?c \<longleftrightarrow>
      imul_rel (expr_val \<sigma> a) (expr_val \<sigma> b) (expr_val \<sigma> hi) (expr_val \<sigma> lo)" for \<sigma>
    by (simp add: imul_sat_def op_val_def)
  ultimately show ?thesis using cb_ext[OF assms(1)] by (intro exI[of _ ?cb]) (simp add: pushed_def)
qed

lemma push_bmul_spec:
  assumes "cb_wf cb" "length (cb_terms cb) + length al + length ah + length bl + length bh + length cl + length ch < 2 ^ 32"
  shows "\<exists>cb'. push_bmul al ah bl bh cl ch cb = Some cb' \<and>
    pushed cb cb' (length al + length ah + length bl + length bh + length cl + length ch)
      (\<lambda>\<sigma>. bmul_rel (expr_val \<sigma> al) (expr_val \<sigma> ah) (expr_val \<sigma> bl) (expr_val \<sigma> bh) (expr_val \<sigma> cl) (expr_val \<sigma> ch))"
proof -
  let ?n = "length (cb_terms cb)"
  let ?T = "cb_terms cb @ map to_shifted_wire al @ map to_shifted_wire ah @ map to_shifted_wire bl @
    map to_shifted_wire bh @ map to_shifted_wire cl @ map to_shifted_wire ch"
  let ?c = "\<lparr>wb_a_lo = \<lparr>op_start = ?n, op_len = length al\<rparr>,
    wb_a_hi = \<lparr>op_start = ?n + length al, op_len = length ah\<rparr>,
    wb_b_lo = \<lparr>op_start = ?n + (length al + length ah), op_len = length bl\<rparr>,
    wb_b_hi = \<lparr>op_start = ?n + (length al + (length ah + length bl)), op_len = length bh\<rparr>,
    wb_c_lo = \<lparr>op_start = ?n + (length al + (length ah + (length bl + length bh))), op_len = length cl\<rparr>,
    wb_c_hi = \<lparr>op_start = ?n + (length al + (length ah + (length bl + (length bh + length cl)))), op_len = length ch\<rparr>\<rparr>"
  let ?cb = "cb\<lparr>cb_terms := ?T, cb_bmul := cb_bmul cb @ [?c]\<rparr>"
  have "push_bmul al ah bl bh cl ch cb = Some ?cb"
    using assms(2) by (simp add: push_bmul_def into_operand_eq)
  moreover have "cb_wf ?cb"
    using cb_ext[OF assms(1), THEN conjunct1] by (rule wf_push_bmul) (simp_all add: in_arena_def)
  moreover have "cb_sat \<sigma> ?cb \<longleftrightarrow> cb_sat \<sigma> (cb\<lparr>cb_terms := ?T\<rparr>) \<and> bmul_sat \<sigma> ?T ?c" for \<sigma>
    by (auto simp: sat_defs)
  moreover have "bmul_sat \<sigma> ?T ?c \<longleftrightarrow>
      bmul_rel (expr_val \<sigma> al) (expr_val \<sigma> ah) (expr_val \<sigma> bl) (expr_val \<sigma> bh) (expr_val \<sigma> cl) (expr_val \<sigma> ch)" for \<sigma>
    by (simp add: bmul_sat_def op_val_def)
  ultimately show ?thesis using cb_ext[OF assms(1)] by (intro exI[of _ ?cb]) (simp add: pushed_def)
qed

lemma push_linear_spec:
  assumes "cb_wf cb" "length (cb_terms cb) + length e < 2 ^ 32"
  shows "\<exists>cb'. push_linear e dst cb = Some cb' \<and> pushed cb cb' (length e) (\<lambda>\<sigma>. expr_val \<sigma> e = \<sigma> dst)"
proof -
  let ?T = "cb_terms cb @ map to_shifted_wire e"
  let ?c = "\<lparr>wl_rhs = \<lparr>op_start = length (cb_terms cb), op_len = length e\<rparr>, wl_dst = dst\<rparr>"
  let ?cb = "cb\<lparr>cb_terms := ?T, cb_linear := cb_linear cb @ [?c]\<rparr>"
  have "push_linear e dst cb = Some ?cb"
    using assms(2) by (simp add: push_linear_def into_operand_eq)
  moreover have "cb_wf ?cb"
    using cb_ext[OF assms(1), THEN conjunct1] by (rule wf_push_linear) (simp_all add: in_arena_def)
  moreover have "cb_sat \<sigma> ?cb \<longleftrightarrow> cb_sat \<sigma> (cb\<lparr>cb_terms := ?T\<rparr>) \<and> linear_sat \<sigma> ?T ?c" for \<sigma>
    by (auto simp: sat_defs)
  moreover have "linear_sat \<sigma> ?T ?c \<longleftrightarrow> expr_val \<sigma> e = \<sigma> dst" for \<sigma>
    by (simp add: linear_sat_def op_val_def)
  ultimately show ?thesis using cb_ext[OF assms(1)] by (intro exI[of _ ?cb]) (simp add: pushed_def)
qed

lemma push_zero_spec:
  assumes "cb_wf cb" "length (cb_terms cb) + length e < 2 ^ 32"
  shows "\<exists>cb'. push_zero e cb = Some cb' \<and> pushed cb cb' (length e) (\<lambda>\<sigma>. expr_val \<sigma> e = 0)"
proof -
  let ?T = "cb_terms cb @ map to_shifted_wire e"
  let ?c = "\<lparr>wz_val = \<lparr>op_start = length (cb_terms cb), op_len = length e\<rparr>\<rparr>"
  let ?cb = "cb\<lparr>cb_terms := ?T, cb_zero := cb_zero cb @ [?c]\<rparr>"
  have "push_zero e cb = Some ?cb"
    using assms(2) by (simp add: push_zero_def into_operand_eq)
  moreover have "cb_wf ?cb"
    using cb_ext[OF assms(1), THEN conjunct1] by (rule wf_push_zero) (simp_all add: in_arena_def)
  moreover have "cb_sat \<sigma> ?cb \<longleftrightarrow> cb_sat \<sigma> (cb\<lparr>cb_terms := ?T\<rparr>) \<and> zero_sat \<sigma> ?T ?c" for \<sigma>
    by (auto simp: sat_defs)
  moreover have "zero_sat \<sigma> ?T ?c \<longleftrightarrow> expr_val \<sigma> e = 0" for \<sigma>
    by (simp add: zero_sat_def op_val_def)
  ultimately show ?thesis using cb_ext[OF assms(1)] by (intro exI[of _ ?cb]) (simp add: pushed_def)
qed

section \<open>Lowering to value indices\<close>

lemma those_map_Some: "(\<And>x. x \<in> set xs \<Longrightarrow> f x = Some (g x)) \<Longrightarrow> those (map f xs) = Some (map g xs)"
  by (induction xs) auto

lemma operand_val_mapped:
  "operand_val f (map (to_shifted_value_index mapping) ts) = terms_val (\<lambda>w. f (mapping w)) ts"
  by (induction ts)
    (simp_all add: svi_val_def to_shifted_value_index_def svi_new_def svi_inner_def svi_outer_def sw_val_def seq_apply_def)

lemma into_value_indices_spec:
  assumes "in_arena T o'"
  obtains ts where "into_value_indices o' T mapping = Some ts"
    "\<And>f. operand_val f ts = op_val (\<lambda>w. f (mapping w)) T o'"
  using assms that
  by (simp add: into_value_indices_def as_slice_def slice_def in_arena_def op_val_def operand_val_mapped)

definition lowered :: "shifted_wire list \<Rightarrow> (wire \<Rightarrow> value_index) \<Rightarrow> wire_operand \<Rightarrow> operand" where
  "lowered T mapping o' = the (into_value_indices o' T mapping)"

lemma lowered:
  assumes "in_arena T o'"
  shows "into_value_indices o' T mapping = Some (lowered T mapping o')"
    "operand_val f (lowered T mapping o') = op_val (\<lambda>w. f (mapping w)) T o'"
  by (rule into_value_indices_spec[OF assms, of mapping], simp add: lowered_def)+

lemma svi_val_plain: "svi_val f (svi_plain v) = f v"
  by (simp add: svi_val_def svi_plain_def svi_single_def svi_new_def svi_inner_def svi_outer_def
      shift_apply_IDENTITY)

definition system_sat :: "(value_index \<Rightarrow> u64) \<Rightarrow>
    zero_constraint list \<times> and_constraint list \<times> imul_constraint list \<times> bmul_constraint list \<Rightarrow> bool" where
  "system_sat f cs = (case cs of (zs, as, is', bs) \<Rightarrow>
    (\<forall>z \<in> set zs. zero_holds f z) \<and> (\<forall>a \<in> set as. and_holds f a) \<and>
    (\<forall>i \<in> set is'. imul_holds f i) \<and> (\<forall>b \<in> set bs. bmul_holds f b))"

text \<open>The system a well-formed builder lowers to.\<close>

definition lowered_system :: "(wire \<Rightarrow> value_index) \<Rightarrow> constraint_builder \<Rightarrow>
    zero_constraint list \<times> and_constraint list \<times> imul_constraint list \<times> bmul_constraint list" where
  "lowered_system mapping cb = (let L = lowered (cb_terms cb) mapping in
    (map (\<lambda>c. ZeroConstraint (L (wl_rhs c) @ [svi_plain (mapping (wl_dst c))])) (cb_linear cb) @
       map (\<lambda>c. ZeroConstraint (L (wz_val c))) (cb_zero cb),
     map (\<lambda>c. AndConstraint (L (wa_a c)) (L (wa_b c)) (L (wa_c c))) (cb_and cb),
     map (\<lambda>c. ImulConstraint (L (wi_a c)) (L (wi_b c)) (L (wi_lo c)) (L (wi_hi c))) (cb_imul cb),
     map (\<lambda>c. BmulConstraint (L (wb_a_lo c)) (L (wb_a_hi c)) (L (wb_b_lo c)) (L (wb_b_hi c))
       (L (wb_c_lo c)) (L (wb_c_hi c))) (cb_bmul cb)))"

lemma cb_build_eq:
  assumes wf: "cb_wf cb"
  shows "cb_build mapping cb = Some (lowered_system mapping cb)"
proof -
  let ?T = "cb_terms cb" and ?L = "lowered (cb_terms cb) mapping"
  have a: "those (map (and_into ?T mapping) (cb_and cb)) =
      Some (map (\<lambda>c. AndConstraint (?L (wa_a c)) (?L (wa_b c)) (?L (wa_c c))) (cb_and cb))"
    by (rule those_map_Some) (use wf in \<open>auto simp: cb_wf_def Let_def and_into_def lowered(1)\<close>)
  have i: "those (map (imul_into ?T mapping) (cb_imul cb)) =
      Some (map (\<lambda>c. ImulConstraint (?L (wi_a c)) (?L (wi_b c)) (?L (wi_lo c)) (?L (wi_hi c))) (cb_imul cb))"
    by (rule those_map_Some) (use wf in \<open>auto simp: cb_wf_def Let_def imul_into_def lowered(1)\<close>)
  have b: "those (map (bmul_into ?T mapping) (cb_bmul cb)) =
      Some (map (\<lambda>c. BmulConstraint (?L (wb_a_lo c)) (?L (wb_a_hi c)) (?L (wb_b_lo c)) (?L (wb_b_hi c))
        (?L (wb_c_lo c)) (?L (wb_c_hi c))) (cb_bmul cb))"
    by (rule those_map_Some) (use wf in \<open>auto simp: cb_wf_def Let_def bmul_into_def lowered(1)\<close>)
  have l: "those (map (linear_into ?T mapping) (cb_linear cb)) =
      Some (map (\<lambda>c. ZeroConstraint (?L (wl_rhs c) @ [svi_plain (mapping (wl_dst c))])) (cb_linear cb))"
    by (rule those_map_Some) (use wf in \<open>auto simp: cb_wf_def Let_def linear_into_def lowered(1)\<close>)
  have z: "those (map (zero_into ?T mapping) (cb_zero cb)) = Some (map (\<lambda>c. ZeroConstraint (?L (wz_val c))) (cb_zero cb))"
    by (rule those_map_Some) (use wf in \<open>auto simp: cb_wf_def Let_def zero_into_def lowered(1)\<close>)
  show ?thesis using a i b l z by (simp add: cb_build_def lowered_system_def Let_def)
qed

lemma lowered_system_sat:
  "cb_wf cb \<Longrightarrow> system_sat f (lowered_system mapping cb) \<longleftrightarrow> cb_sat (\<lambda>w. f (mapping w)) cb"
  unfolding cb_wf_def Let_def system_sat_def sat_defs lowered_system_def
  by (auto simp: ball_Un zero_holds_def and_holds_def imul_holds_def bmul_holds_def lowered(2) imul_rel_def
      bmul_rel_def operand_val_append svi_val_plain xor_zero_iff)

lemma cb_build_spec:
  assumes "cb_wf cb"
  shows "\<exists>cs. cb_build mapping cb = Some cs \<and> (\<forall>f. system_sat f cs \<longleftrightarrow> cb_sat (\<lambda>w. f (mapping w)) cb)"
  using cb_build_eq[OF assms] lowered_system_sat[OF assms] by blast

section \<open>Folding a shift inside a sequence\<close>

lemma push_inner_sound:
  assumes "valid_shift (fst sq)" "valid_shift (snd sq)" "valid_shift s"
  shows "\<exists>p. push_inner sq s slots = Some p \<and>
    (case p of
       Seq sq' \<Rightarrow> valid_shift (fst sq') \<and> valid_shift (snd sq') \<and>
         (\<forall>w. seq_apply sq' w = seq_apply sq (shift_apply s w))
     | Zero \<Rightarrow> \<forall>w. seq_apply sq (shift_apply s w) = 0
     | OverBudget \<Rightarrow> compose s (fst sq) = Some CompPair \<and> (slots < 2 \<or> \<not> is_identity (snd sq)))"
proof -
  obtain inner outer where sq: "sq = (inner, outer)" by (cases sq)
  have zero: "shift_apply outer 0 = 0"
    using assms(2) sq by (simp add: shift_apply_zero)
  obtain c where c: "compose s inner = Some c" "composition_sound s inner c"
    using compose_sound[of s inner] assms sq by auto
  show ?thesis
  proof (cases c)
    case (CompSingle merged)
    then have m: "valid_shift merged" "\<forall>w. shift_apply inner (shift_apply s w) = shift_apply merged w"
      using c by (auto simp: composition_sound_def)
    obtain d where d: "compose merged outer = Some d" "composition_sound merged outer d"
      using compose_sound[of merged outer] m assms sq by auto
    then show ?thesis
      using c m CompSingle assms sq
      by (cases d) (auto simp: push_inner_def composition_sound_def lone_def seq_apply_def
          shift_apply_identity is_identity_def IDENTITY_def valid_shift_def)
  next
    case CompZero
    then show ?thesis using c zero sq by (simp add: push_inner_def composition_sound_def seq_apply_def)
  next
    case CompPair
    then show ?thesis using c sq assms
      by (auto simp: push_inner_def seq_apply_def shift_apply_identity)
  qed
qed

section \<open>Properties\<close>

text \<open>C13: Lowering keeps meaning. A builder whose operands lie in its arena lowers without a panic,
  and under every assignment of words to value indices the lowered zero, AND, IMUL and BMUL
  constraints hold together exactly when the constraints over wires (linear ones included, which
  become zero constraints) hold of the wires' mapped values.\<close>

theorem lowering_keeps_meaning:
  assumes "cb_wf cb"
  shows "\<exists>zs as is' bs. cb_build mapping cb = Some (zs, as, is', bs) \<and>
    (\<forall>f. (list_all (zero_holds f) zs \<and> list_all (and_holds f) as \<and>
          list_all (imul_holds f) is' \<and> list_all (bmul_holds f) bs)
        \<longleftrightarrow> cb_sat (\<lambda>w. f (mapping w)) cb)"
  using cb_build_spec[OF assms, of mapping] by (fastforce simp: system_sat_def list_all_iff)

definition sample_builder :: constraint_builder where
  "sample_builder = \<lparr>
    cb_and = [\<lparr>wa_a = \<lparr>op_start = 0, op_len = 1\<rparr>, wa_b = \<lparr>op_start = 1, op_len = 1\<rparr>, wa_c = \<lparr>op_start = 2, op_len = 1\<rparr>\<rparr>],
    cb_imul = [], cb_bmul = [], cb_linear = [\<lparr>wl_rhs = \<lparr>op_start = 3, op_len = 2\<rparr>, wl_dst = 2\<rparr>], cb_zero = [],
    cb_terms = [sw_single 0 IDENTITY, sw_single 1 \<lparr>variant = Slr, amount = 4\<rparr>, sw_single 2 IDENTITY,
      sw_single 0 IDENTITY, sw_single 1 IDENTITY]\<rparr>"

lemma sample_builder_wf: "cb_wf sample_builder"
  by (simp add: cb_wf_def sample_builder_def in_arena_def)

lemma lowering_keeps_meaning_witness:
  "\<exists>zs as is' bs. cb_build (\<lambda>w. ValueIndex (of_nat w)) sample_builder = Some (zs, as, is', bs) \<and>
    (\<forall>f. (list_all (zero_holds f) zs \<and> list_all (and_holds f) as \<and>
          list_all (imul_holds f) is' \<and> list_all (bmul_holds f) bs)
        \<longleftrightarrow> cb_sat (\<lambda>w. f (ValueIndex (of_nat w))) sample_builder)"
  by (rule lowering_keeps_meaning[OF sample_builder_wf])

text \<open>C26: Folding a shift into a term's shift sequence is exact: a returned sequence of valid shifts
  moves every word as the shift followed by the old sequence does, \<open>Zero\<close> is returned only for a
  combination that clears every word, and \<open>OverBudget\<close> only when the two innermost shifts have no
  single-shift composition and no slot is free.\<close>

theorem push_inner_exact:
  assumes "valid_shift (fst sq)" "valid_shift (snd sq)" "valid_shift s"
  shows "case push_inner sq s slots of
      None \<Rightarrow> False
    | Some (Seq sq') \<Rightarrow> valid_shift (fst sq') \<and> valid_shift (snd sq') \<and>
        (\<forall>w. seq_apply sq' w = seq_apply sq (shift_apply s w))
    | Some Zero \<Rightarrow> \<forall>w. seq_apply sq (shift_apply s w) = 0
    | Some OverBudget \<Rightarrow> compose s (fst sq) = Some CompPair \<and> (slots < 2 \<or> \<not> is_identity (snd sq))"
proof -
  obtain p where "push_inner sq s slots = Some p" and
    "case p of
       Seq sq' \<Rightarrow> valid_shift (fst sq') \<and> valid_shift (snd sq') \<and>
         (\<forall>w. seq_apply sq' w = seq_apply sq (shift_apply s w))
     | Zero \<Rightarrow> \<forall>w. seq_apply sq (shift_apply s w) = 0
     | OverBudget \<Rightarrow> compose s (fst sq) = Some CompPair \<and> (slots < 2 \<or> \<not> is_identity (snd sq))"
    using push_inner_sound[OF assms, of slots] by blast
  then show ?thesis by (cases p) simp_all
qed

lemma push_inner_exact_witness:
  "case push_inner (\<lparr>variant = Sll, amount = 3\<rparr>, IDENTITY) \<lparr>variant = Slr, amount = 5\<rparr> 2 of
      None \<Rightarrow> False
    | Some (Seq sq') \<Rightarrow> valid_shift (fst sq') \<and> valid_shift (snd sq') \<and>
        (\<forall>w. seq_apply sq' w = seq_apply (\<lparr>variant = Sll, amount = 3\<rparr>, IDENTITY) (shift_apply \<lparr>variant = Slr, amount = 5\<rparr> w))
    | Some Zero \<Rightarrow> \<forall>w. seq_apply (\<lparr>variant = Sll, amount = 3\<rparr>, IDENTITY) (shift_apply \<lparr>variant = Slr, amount = 5\<rparr> w) = 0
    | Some OverBudget \<Rightarrow> compose \<lparr>variant = Slr, amount = 5\<rparr> (fst (\<lparr>variant = Sll, amount = 3\<rparr>, IDENTITY)) = Some CompPair \<and>
        ((2 :: nat) < 2 \<or> \<not> is_identity (snd (\<lparr>variant = Sll, amount = 3\<rparr>, IDENTITY)))"
  by (rule push_inner_exact)
    (simp add: valid_shift_def, simp only: snd_conv valid_IDENTITY, simp add: valid_shift_def)

end
