(* ===== verification/Gate_Eval.thy ===== *)
theory Gate_Eval
  imports Gate_Graph Constraint
begin

text \<open>
  The value of a gate on constant inputs (\<open>eval_form/const_eval.rs\<close>): the outputs, or the violation
  an assertion reports.  A violation keeps the words its message prints.
\<close>

datatype violation =
  NotEqual u64 u64
| CondNotEqual u64 u64
| NotZero u64
| IsZero u64
| MsbIsTrue u64
| MsbIsFalse u64

text \<open>The field product of \<open>eval_form/exec.rs\<close>: each element is a pair of words, low word first.\<close>

definition ghash_mul_words :: "u64 \<Rightarrow> u64 \<Rightarrow> u64 \<Rightarrow> u64 \<Rightarrow> u64 \<times> u64" where
  "ghash_mul_words a_lo a_hi b_lo b_hi =
    (let to_field = (\<lambda>lo hi. (ucast (lo :: u64) :: u128) OR push_bit 64 (ucast (hi :: u64)));
         product = ghash_mul (to_field a_lo a_hi) (to_field b_lo b_hi)
     in (ucast product, ucast (drop_bit 64 product)))"

text \<open>The body of the match: the opcode, its immediates and the constants.  A slice pattern that does
  not fit is unreachable code, a panic.\<close>

fun op_eval :: "opcode \<Rightarrow> u32 list \<Rightarrow> u64 list \<Rightarrow> (violation, u64 list) outcome" where
  "op_eval Band imm cs = (case cs of [x, y] \<Rightarrow> Ok [x AND y] | _ \<Rightarrow> Panic)"
| "op_eval Bor imm cs = (case cs of [x, y] \<Rightarrow> Ok [x OR y] | _ \<Rightarrow> Panic)"
| "op_eval Bxor imm cs = (case cs of [x, y] \<Rightarrow> Ok [x XOR y] | _ \<Rightarrow> Panic)"
| "op_eval BxorMulti imm cs = Ok [foldl (XOR) ZERO cs]"
| "op_eval Fax imm cs = (case cs of [x, y, w] \<Rightarrow> Ok [(x AND y) XOR w] | _ \<Rightarrow> Panic)"
| "op_eval Select imm cs = (case cs of [cond, t, f] \<Rightarrow> Ok [if is_msb_true cond then t else f] | _ \<Rightarrow> Panic)"
| "op_eval ShiftOp imm cs = (case cs of
      [x] \<Rightarrow> (case imm of
        [vr, n] \<Rightarrow> (case variant_from_u8 (ucast vr) of
            Some v \<Rightarrow> Ok [variant_apply v x (unat n)]
          | None \<Rightarrow> Panic)
      | _ \<Rightarrow> Panic)
    | _ \<Rightarrow> Panic)"
| "op_eval IaddCinCout imm cs = (case cs of
      [a, b, cin] \<Rightarrow> (let (s, cout) = iadd_cin_cout a b (shr cin 63) in Ok [s, cout]) | _ \<Rightarrow> Panic)"
| "op_eval Iadd32 imm cs = (case cs of
      [a, b] \<Rightarrow> (let (s, cout) = iadd_cout_32 a b in Ok [s, cout]) | _ \<Rightarrow> Panic)"
| "op_eval Iadd32CinCout imm cs = (case cs of
      [a, b, cin] \<Rightarrow> (let (s, cout) = iadd32_cin_cout a b cin in Ok [s, cout]) | _ \<Rightarrow> Panic)"
| "op_eval IsubBinBout imm cs = (case cs of
      [a, b, bin] \<Rightarrow> (let (diff, bout) = isub_bin_bout a b (shr bin 63) in Ok [diff, bout]) | _ \<Rightarrow> Panic)"
| "op_eval Imul imm cs = (case cs of
      [x, y] \<Rightarrow> (let (hi, lo) = imul x y in Ok [hi, lo]) | _ \<Rightarrow> Panic)"
| "op_eval Bmul imm cs = (case cs of
      [a_lo, a_hi, b_lo, b_hi] \<Rightarrow>
        (let (c_lo, c_hi) = ghash_mul_words a_lo a_hi b_lo b_hi in Ok [c_lo, c_hi]) | _ \<Rightarrow> Panic)"
| "op_eval IcmpUlt imm cs = (case cs of
      [x, y] \<Rightarrow> (let (_, bout) = iadd_cin_cout (x XOR ALL_ONE) y ZERO in Ok [bout]) | _ \<Rightarrow> Panic)"
| "op_eval IcmpEq imm cs = (case cs of
      [x, y] \<Rightarrow> (let (_, cout) = iadd_cin_cout ALL_ONE (x XOR y) ZERO in Ok [cout XOR MSB_ONE]) | _ \<Rightarrow> Panic)"
| "op_eval AssertEq imm cs = (case cs of
      [x, y] \<Rightarrow> if x \<noteq> y then Err (NotEqual x y) else Ok [] | _ \<Rightarrow> Panic)"
| "op_eval AssertEqCond imm cs = (case cs of
      [x, y, cond] \<Rightarrow> if is_msb_true cond \<and> x \<noteq> y then Err (CondNotEqual x y) else Ok [] | _ \<Rightarrow> Panic)"
| "op_eval AssertZero imm cs = (case cs of
      [x] \<Rightarrow> if x \<noteq> ZERO then Err (NotZero x) else Ok [] | _ \<Rightarrow> Panic)"
| "op_eval AssertNonZero imm cs = (case cs of
      [x] \<Rightarrow> if x = ZERO then Err (IsZero x) else Ok [] | _ \<Rightarrow> Panic)"
| "op_eval AssertFalse imm cs = (case cs of
      [x] \<Rightarrow> if is_msb_true x then Err (MsbIsTrue x) else Ok [] | _ \<Rightarrow> Panic)"
| "op_eval AssertTrue imm cs = (case cs of
      [x] \<Rightarrow> if is_msb_false x then Err (MsbIsFalse x) else Ok [] | _ \<Rightarrow> Panic)"

definition gate_value :: "hint_registry \<Rightarrow> gate_data \<Rightarrow> u64 list \<Rightarrow> (violation, u64 list) outcome" where
  "gate_value r d constants =
    (case body d of
       HintCall hid \<Rightarrow>
         and_then (or_panic (reg_shape r hid (dimensions d))) (\<lambda>(_, n_out).
           or_panic (reg_execute r hid (dimensions d) constants (replicate n_out ZERO)))
     | Op opcode \<Rightarrow> op_eval opcode (immediates d) constants)"

definition evaluate_gate_constants ::
  "gate_graph \<Rightarrow> gate \<Rightarrow> u64 list \<Rightarrow> hint_registry \<Rightarrow> (violation, u64 list) outcome" where
  "evaluate_gate_constants graph gate constants r =
    and_then (or_panic (read_at (gg_gates graph) gate)) (\<lambda>d. gate_value r d constants)"

section \<open>Cases by arity\<close>

lemma length_1: "length xs = Suc 0 \<longleftrightarrow> (\<exists>a. xs = [a])"
  by (cases xs) auto

lemma length_2: "length xs = 2 \<longleftrightarrow> (\<exists>a b. xs = [a, b])"
  by (auto simp: length_Suc_conv eval_nat_numeral)

lemma length_3: "length xs = 3 \<longleftrightarrow> (\<exists>a b c. xs = [a, b, c])"
  by (auto simp: length_Suc_conv eval_nat_numeral)

lemma length_4: "length xs = 4 \<longleftrightarrow> (\<exists>a b c d. xs = [a, b, c, d])"
  by (auto simp: length_Suc_conv eval_nat_numeral)

lemma length_SS: "length xs = Suc (Suc 0) \<longleftrightarrow> (\<exists>a b. xs = [a, b])"
  by (auto simp: length_Suc_conv)

lemmas arity = length_1 length_SS length_2 length_3 length_4

lemmas shape_defs = shape_new_def with_consts_def with_aux_def with_scratch_def with_imm_def

text \<open>The immediates of a shift gate name a variant and an amount below the word width, as every
  builder entry point ensures.\<close>

definition imm_ok :: "opcode \<Rightarrow> u32 list \<Rightarrow> bool" where
  "imm_ok opcode imm \<longleftrightarrow> (opcode = ShiftOp \<longrightarrow>
    (\<exists>vr n v. imm = [vr, n] \<and> variant_from_u8 (ucast vr) = Some v \<and> unat n < max_amount v))"

lemma foldl_xor: "foldl (XOR) a (xs :: u64 list) = a XOR foldl (XOR) 0 xs"
proof (induction xs arbitrary: a)
  case (Cons x xs)
  show ?case using Cons.IH[of "a XOR x"] Cons.IH[of x] by (simp add: xor.assoc)
qed simp

lemma op_shape_BxorMulti:
  "op_shape BxorMulti dims = Some s \<longleftrightarrow> (\<exists>n. dims = [n] \<and> s = shape_new n 1)"
  by (auto split: list.splits)

lemma op_eval_total:
  assumes "op_shape opcode dims = Some s" "length ins = n_in s" "imm_ok opcode imm"
  shows "case op_eval opcode imm ins of Ok outs \<Rightarrow> length outs = n_out s | Err _ \<Rightarrow> True | Panic \<Rightarrow> False"
proof (cases "opcode = BxorMulti")
  case True
  then show ?thesis using assms by (simp only: op_shape_BxorMulti) (auto simp: shape_defs)
next
  case False
  then show ?thesis
    using assms by (cases opcode) (auto simp: shape_defs arity imm_ok_def split: prod.splits)
qed

end
