(* ===== verification/Gate_Words.thy ===== *)
theory Gate_Words
  imports Gate_Eval
begin

text \<open>
  The equations between words that the gates' constraints come to: a carry equation has the carry
  word as its only solution, in one word or in two halves, and a sum is the exclusive or of its
  operands and its shifted carries.
\<close>

section \<open>Carry equations\<close>

text \<open>A carry word moved to the positions its carries go into.\<close>

definition carried :: "'a::len word \<Rightarrow> 'a word" where "carried w = push_bit 1 w"

lemma bit_carried [op_bits]: "bit (carried (w :: 'a::len word)) i \<longleftrightarrow> 0 < i \<and> i < LENGTH('a) \<and> bit w (i - 1)"
  unfolding carried_def bit_push_bit_iff by auto

lemma word_eq_bits: "x = y \<longleftrightarrow> (\<forall>i < LENGTH('a). bit x i = bit (y :: 'a::len word) i)"
  by (auto intro: bit_word_eqI)

lemma xor_swap: "x XOR z = y \<longleftrightarrow> y XOR z = (x :: 'a::len word)" and xor_cancel: "x XOR z = y XOR z \<longleftrightarrow> x = (y :: 'a::len word)"
  unfolding word_eq_bits bit_xor_iff by blast+

lemma carry_equation:
  fixes a b c out :: "'a::len word"
  assumes "c = 0 \<or> c = 1"
  shows "(a XOR carried out XOR c) AND (b XOR carried out XOR c) = out XOR carried out XOR c
    \<longleftrightarrow> out = carry_word a b (a + b + c)" (is "?L \<longleftrightarrow> ?R")
proof -
  define f where "f i = (if i = 0 then c = 1 else bit out (i - 1))" for i
  have f_Suc: "f (Suc i) \<longleftrightarrow> bit out i" for i by (simp add: f_def)
  have s: "bit (carried out XOR c) i \<longleftrightarrow> f i" if "i < LENGTH('a)" for i
    using assms that by (cases i) (auto simp: f_def op_bits bit_simps)
  have "?L \<longleftrightarrow> (\<forall>i < LENGTH('a). (bit a i \<noteq> f i) \<and> (bit b i \<noteq> f i) \<longleftrightarrow> (bit out i \<noteq> f i))"
    by (simp only: word_eq_bits bit_and_iff bit_xor_iff[of a] bit_xor_iff[of b] bit_xor_iff[of out] s cong: imp_cong)
  then have rec: "?L \<longleftrightarrow> (\<forall>i < LENGTH('a). f (Suc i) \<longleftrightarrow> (bit a i \<and> bit b i) \<or> (bit a i \<noteq> bit b i) \<and> f i)"
    unfolding f_Suc by blast
  have c1: "unat c \<le> 1" and c0: "f 0 \<longleftrightarrow> 1 \<le> unat c"
    using assms by (auto simp: f_def)
  have "?R \<longleftrightarrow> (\<forall>i < LENGTH('a). f (Suc i) \<longleftrightarrow> carry_at (unat a) (unat b) (unat c) (Suc i))"
    by (simp only: word_eq_bits f_Suc bit_carry_word_sum[OF assms] cong: imp_cong)
  also have "\<dots> \<longleftrightarrow> (\<forall>i < LENGTH('a). f (Suc i) \<longleftrightarrow> (bit a i \<and> bit b i) \<or> (bit a i \<noteq> bit b i) \<and> f i)"
  proof
    assume R: "\<forall>i < LENGTH('a). f (Suc i) \<longleftrightarrow> carry_at (unat a) (unat b) (unat c) (Suc i)"
    have "f i \<longleftrightarrow> carry_at (unat a) (unat b) (unat c) i" if "i \<le> LENGTH('a)" for i
      using that R c0 by (cases i) auto
    then show "\<forall>i < LENGTH('a). f (Suc i) \<longleftrightarrow> (bit a i \<and> bit b i) \<or> (bit a i \<noteq> bit b i) \<and> f i"
      using R carry_at_Suc[OF c1] by (simp add: bit_unat)
  next
    assume L: "\<forall>i < LENGTH('a). f (Suc i) \<longleftrightarrow> (bit a i \<and> bit b i) \<or> (bit a i \<noteq> bit b i) \<and> f i"
    have "f (Suc i) \<longleftrightarrow> carry_at (unat a) (unat b) (unat c) (Suc i)" if "i < LENGTH('a)" for i
      by (rule carry_at_unique[where f = f and n = "LENGTH('a)", OF c1 c0]) (use L that in \<open>simp_all add: bit_unat\<close>)
    then show "\<forall>i < LENGTH('a). f (Suc i) \<longleftrightarrow> carry_at (unat a) (unat b) (unat c) (Suc i)" by blast
  qed
  finally show ?thesis using rec by blast
qed

lemma sum_of_carries:
  fixes a b c :: "'a::len word"
  assumes "c = 0 \<or> c = 1"
  shows "a XOR b XOR carried (carry_word a b (a + b + c)) XOR c = a + b + c"
proof (rule bit_word_eqI)
  fix i assume i: "i < LENGTH('a)"
  have c1: "unat c \<le> 1" using assms by auto
  have "bit (carried (carry_word a b (a + b + c)) XOR c) i \<longleftrightarrow> carry_at (unat a) (unat b) (unat c) i"
  proof (cases i)
    case 0
    then show ?thesis using assms by (auto simp: op_bits bit_simps)
  next
    case (Suc j)
    then show ?thesis using assms i bit_carry_word_sum[OF assms, of j a b]
      by (auto simp: op_bits bit_simps)
  qed
  then show "bit (a XOR b XOR carried (carry_word a b (a + b + c)) XOR c) i = bit (a + b + c) i"
    using bit_word_add_carry[OF assms i, of a b] by (auto simp: bit_simps xor.assoc)
qed

lemma carry_word_comm: "carry_word a b s = carry_word b a s"
  by (simp add: carry_word_def and.commute xor.commute)

lemma shr_63: "shr w 63 = of_bool (bit w 63)"
proof (rule bit_word_eqI)
  fix i assume "i < LENGTH(64)"
  then show "bit (shr w 63) i = bit (of_bool (bit w 63) :: u64) i"
    using bit_imp_le_length[of w "63 + i"] by (cases i) (auto simp: op_bits bit_simps)
qed

lemma shr_63_carry [simp]: "shr w 63 = 0 \<or> shr w 63 = 1"
  by (simp add: shr_63)

lemma shl_1 [simp]: "shl w (Suc 0) = carried w"
  by (simp add: shl_def carried_def)

lemma sar_63: "sar w 63 = (if bit w 63 then ALL_ONE else 0)"
  by (rule bit_word_eqI) (auto simp: op_bits bit_simps min_def)

lemma and_ALL_ONE: "w AND ALL_ONE = w"
  by (rule bit_word_eqI) (auto simp: bit_simps)

lemma sar_63_tests:
  "sar w 63 = 0 \<longleftrightarrow> \<not> bit w 63" "sar w 63 XOR ALL_ONE = 0 \<longleftrightarrow> bit w 63"
  "x AND sar w 63 = 0 \<longleftrightarrow> \<not> (bit w 63 \<and> x \<noteq> 0)"
  by (auto simp: sar_63 and_ALL_ONE) (simp_all add: ALL_ONE_def)

lemma xor_ALL_ONE: "w XOR ALL_ONE = NOT w" "ALL_ONE XOR w = NOT w"
  by (rule bit_word_eqI; auto simp: bit_simps)+

lemma sll32_1_halves: "lo32 (sll32 w (Suc 0)) = carried (lo32 w)" "hi32 (sll32 w (Suc 0)) = carried (hi32 w)"
  by (simp_all add: sll32_def carried_def)

lemma srl32_31_halves: "lo32 (srl32 w 31) = of_bool (bit w 31)" "hi32 (srl32 w 31) = of_bool (bit w 63)"
  by (rule bit_word_eqI; auto simp: op_bits bit_simps)+

lemma halves_eq_iff: "x = y \<longleftrightarrow> lo32 x = lo32 y \<and> hi32 x = hi32 y"
  by (metis join32_halves)

section \<open>The bitwise gates\<close>

lemma bor_equation: "x AND y = x XOR y XOR z \<longleftrightarrow> x OR y = (z :: 'a::len word)"
  unfolding word_eq_bits bit_and_iff bit_or_iff bit_xor_iff by blast

lemma fax_equation: "x AND y = z XOR w \<longleftrightarrow> (x AND y) XOR w = (z :: 'a::len word)"
  unfolding word_eq_bits bit_and_iff bit_xor_iff by blast

section \<open>The arithmetic gates\<close>

lemma iadd_equations:
  "(a XOR shl cout 1 XOR shr cin 63) AND (b XOR shl cout 1 XOR shr cin 63) = cout XOR shl cout 1 XOR shr cin 63 \<and>
   a XOR b XOR shl cout 1 XOR shr cin 63 = s \<longleftrightarrow> iadd_cin_cout a b (shr cin 63) = (s, cout)"
  by (auto simp: iadd_cin_cout_eq carry_equation sum_of_carries)

lemma isub_equations:
  "(NOT a XOR shl bout 1 XOR shr bin 63) AND (b XOR shl bout 1 XOR shr bin 63) = bout XOR shl bout 1 XOR shr bin 63 \<and>
   a XOR b XOR shl bout 1 XOR shr bin 63 = diff \<longleftrightarrow> isub_bin_bout a b (shr bin 63) = (diff, bout)"
proof -
  let ?c = "shr bin 63" and ?out = "carry_word (NOT a) b (NOT a + b + shr bin 63)"
  have "NOT (a XOR b XOR carried ?out XOR ?c) = NOT a + b + ?c"
    using sum_of_carries[OF shr_63_carry, of "NOT a" b bin] by simp
  also have "\<dots> = NOT (a - b - ?c)" by (simp add: not_eq_complement)
  finally have "a XOR b XOR carried ?out XOR ?c = a - b - ?c" by (metis bit.double_compl)
  then show ?thesis
    unfolding One_nat_def shl_1 carry_equation[OF shr_63_carry] isub_bin_bout_eq prod.inject by metis
qed

lemma iadd32_equations:
  "(x XOR sll32 cout 1 XOR srl32 cin 31) AND (y XOR sll32 cout 1 XOR srl32 cin 31) =
     cout XOR sll32 cout 1 XOR srl32 cin 31 \<and>
   x XOR y XOR sll32 cout 1 XOR srl32 cin 31 = z \<longleftrightarrow> iadd32_cin_cout x y cin = (z, cout)"
proof -
  have c: "(of_bool p :: u32) = 0 \<or> (of_bool p :: u32) = 1" for p by simp
  let ?l = "of_bool (bit cin 31) :: u32" and ?h = "of_bool (bit cin 63) :: u32"
  have "iadd32_cin_cout x y cin =
      (join32 (lo32 x + lo32 y + ?l) (hi32 x + hi32 y + ?h),
       join32 (carry_word (lo32 x) (lo32 y) (lo32 x + lo32 y + ?l)) (carry_word (hi32 x) (hi32 y) (hi32 x + hi32 y + ?h)))"
    by (simp only: iadd32_cin_cout_halves Let_def carry_word_def)
  then show ?thesis
    using sum_of_carries[OF c, of "lo32 x" "lo32 y" "bit cin 31"] sum_of_carries[OF c, of "hi32 x" "hi32 y" "bit cin 63"]
    by (simp only: prod.inject halves_eq_iff lo32_simps lo32_join32 hi32_join32 One_nat_def sll32_1_halves
        srl32_31_halves carry_equation[OF c]) metis
qed

lemma iadd32_cout_equations:
  "(x XOR sll32 cout 1) AND (y XOR sll32 cout 1) = cout XOR sll32 cout 1 \<and>
   x XOR y XOR sll32 cout 1 = z \<longleftrightarrow> iadd_cout_32 x y = (z, cout)"
proof -
  have "srl32 ZERO 31 = 0" by (simp add: srl32_def ZERO_def lo32_def hi32_def join32_def)
  then show ?thesis
    using iadd32_equations[of x cout ZERO y z] by (simp add: iadd_cout_32_def)
qed

lemma icmp_ult_equation:
  "(x XOR ALL_ONE XOR shl bout 1) AND (y XOR shl bout 1) = bout XOR shl bout 1 \<longleftrightarrow>
   snd (iadd_cin_cout (x XOR ALL_ONE) y ZERO) = bout"
  using carry_equation[of 0 "x XOR ALL_ONE" bout y] by (auto simp: iadd_cin_cout_eq ZERO_def xor.assoc)

lemma icmp_eq_equation:
  "(d XOR shl out 1) AND (ALL_ONE XOR shl out 1) = shl out 1 XOR out XOR MSB_ONE \<longleftrightarrow>
   snd (iadd_cin_cout ALL_ONE d ZERO) XOR MSB_ONE = out"
proof -
  have "carried (out XOR MSB_ONE) = carried out"
    by (rule bit_word_eqI) (auto simp: op_bits bit_simps)
  then have "(d XOR shl out 1) AND (ALL_ONE XOR shl out 1) = (out XOR MSB_ONE) XOR shl out 1 \<longleftrightarrow>
      out XOR MSB_ONE = carry_word d ALL_ONE (d + ALL_ONE)"
    using carry_equation[of 0 d "out XOR MSB_ONE" ALL_ONE] by (simp add:)
  moreover have "out XOR MSB_ONE = w \<longleftrightarrow> w XOR MSB_ONE = out" for w
    by (rule xor_swap)
  moreover have "snd (iadd_cin_cout ALL_ONE d ZERO) = carry_word d ALL_ONE (d + ALL_ONE)"
    by (simp add: iadd_cin_cout_eq ZERO_def carry_word_comm[of ALL_ONE] add.commute)
  ultimately show ?thesis by (simp only: xor.commute xor.left_commute One_nat_def shl_1) 
qed

lemma non_zero_carry: "bit (snd (iadd_cin_cout ALL_ONE x ZERO)) 63 \<longleftrightarrow> x \<noteq> 0"
proof -
  have "bit (carry_word ALL_ONE x (ALL_ONE + x + 0)) 63 \<longleftrightarrow> carry_at (unat ALL_ONE) (unat x) 0 64"
    using bit_carry_word_sum[of 0 63 ALL_ONE x] by simp
  also have "\<dots> \<longleftrightarrow> 2 ^ 64 \<le> unat ALL_ONE + unat x"
    using carry_at_top[of ALL_ONE x 0] by simp
  also have "\<dots> \<longleftrightarrow> x \<noteq> 0" by (auto simp: ALL_ONE_def unat_gt_0[symmetric] simp del: unat_gt_0)
  finally show ?thesis by (simp add: iadd_cin_cout_eq ZERO_def)
qed

lemma assert_non_zero_equations:
  "(x XOR shl cout 1) AND (ALL_ONE XOR shl cout 1) = shl cout 1 XOR cout \<and> sar cout 63 XOR ALL_ONE = 0 \<longleftrightarrow>
   x \<noteq> ZERO \<and> cout = snd (iadd_cin_cout ALL_ONE x ZERO)"
proof -
  have "(x XOR shl cout 1) AND (ALL_ONE XOR shl cout 1) = shl cout 1 XOR cout \<longleftrightarrow>
      cout = snd (iadd_cin_cout ALL_ONE x ZERO)"
    using carry_equation[of 0 x cout ALL_ONE]
    by (simp add: iadd_cin_cout_eq ZERO_def carry_word_comm[of ALL_ONE] add.commute xor.commute)
  moreover have "sar cout 63 XOR ALL_ONE = 0 \<longleftrightarrow> bit cout 63"
    by (simp add: sar_63 ALL_ONE_def)
  ultimately show ?thesis using non_zero_carry unfolding ZERO_def by blast
qed

section \<open>The products\<close>

lemma imul_equation: "unat x * unat y = unat hi * 2 ^ 64 + unat lo \<longleftrightarrow> imul x y = (hi, lo)"
  unfolding imul_words_iff[symmetric] by (auto simp: imul_def Let_def)

lemma product_exact: "ghash_modulus dvd poly_of x * poly_of y - poly_of z \<longleftrightarrow> ghash_mul x y = z"
  using ghash_mul_poly ghash_mul_eqI by blast

lemma field_product:
  "ghash_modulus dvd element_poly a_lo a_hi * element_poly b_lo b_hi - element_poly c_lo c_hi \<longleftrightarrow>
   ghash_mul ((ucast a_lo :: u128) OR push_bit 64 (ucast a_hi)) ((ucast b_lo :: u128) OR push_bit 64 (ucast b_hi)) =
     (ucast c_lo :: u128) OR push_bit 64 (ucast c_hi)"
  unfolding poly_of_element[symmetric] by (rule product_exact)

lemma pair_of_element:
  "(e :: u128) = ucast (lo :: u64) OR push_bit 64 (ucast (hi :: u64)) \<longleftrightarrow> (ucast e, ucast (drop_bit 64 e)) = (lo, hi)"
proof
  assume "e = ucast lo OR push_bit 64 (ucast hi)"
  then show "(ucast e, ucast (drop_bit 64 e)) = (lo, hi)"
    using bit_imp_le_length[of lo] by (fastforce intro!: bit_word_eqI simp: bit_simps dest: bit_imp_le_length)
next
  assume "(ucast e, ucast (drop_bit 64 e)) = (lo, hi)"
  then have "lo = ucast e" "hi = ucast (drop_bit 64 e)" by simp_all
  then show "e = ucast lo OR push_bit 64 (ucast hi)"
    by (auto intro!: bit_word_eqI simp: bit_simps not_less dest: bit_imp_le_length)
qed

lemma bmul_equation:
  "ghash_modulus dvd element_poly a_lo a_hi * element_poly b_lo b_hi - element_poly c_lo c_hi \<longleftrightarrow>
   ghash_mul_words a_lo a_hi b_lo b_hi = (c_lo, c_hi)"
  unfolding field_product pair_of_element by (simp add: ghash_mul_words_def Let_def)

lemma ghash_mul_units: "ghash_mul 1 x = x" "ghash_mul 0 x = 0"
  by (rule ghash_mul_eqI, simp)+

lemma ucast_eq_128: "(ucast (x :: u64) :: u128) = ucast y \<longleftrightarrow> x = y"
  by (metis pair_of_element prod.inject)

lemma select_equation:
  "ghash_modulus dvd element_poly (shr cond 63) 0 * element_poly (t XOR f) 0 - element_poly (out XOR f) 0 \<longleftrightarrow>
   out = (if is_msb_true cond then t else f)"
proof -
  have x: "t XOR f = out XOR f \<longleftrightarrow> out = t" "out XOR f = 0 \<longleftrightarrow> out = f"
    by (auto simp: xor_cancel xor_zero_iff)
  have "ucast (out XOR f) = (0 :: u128) \<longleftrightarrow> out XOR f = 0"
    using ucast_eq_128[of "out XOR f" 0] by simp
  then show ?thesis
    unfolding field_product
    by (cases "bit cond 63")
      (simp_all add: shr_63 is_msb_true_iff ghash_mul_units ucast_eq_128 x eq_commute[of "0 :: u128"]
        del: unsigned_xor_eq)
qed

end
