(* ===== verification/Gates.thy ===== *)
theory Gates
  imports Gate_Words Wire_Lowering
begin

text \<open>
  The constraints each gate kind contributes: the \<open>constrain\<close> of every file of \<open>gates/\<close>, the table
  of \<open>gates/mod.rs\<close> and \<open>Gate::constrain\<close>.  The main lemma is that they hold of an assignment to
  the wires exactly when the outputs are the gate's value on its inputs.
\<close>

section \<open>The kinds\<close>

definition constrain_band :: "gate_param \<Rightarrow> constraint_builder \<Rightarrow> constraint_builder option" where
  "constrain_band gate cb =
    (case (p_inputs gate, p_outputs gate) of
       ([x, y], [z]) \<Rightarrow> push_and (expr_wire x) (expr_wire y) (expr_wire z) cb
     | _ \<Rightarrow> None)"

definition constrain_bor :: "gate_param \<Rightarrow> constraint_builder \<Rightarrow> constraint_builder option" where
  "constrain_bor gate cb =
    (case (p_inputs gate, p_outputs gate) of
       ([x, y], [z]) \<Rightarrow>
         push_and (expr_wire x) (expr_wire y) (xor3 (TermWire x) (TermWire y) (TermWire z)) cb
     | _ \<Rightarrow> None)"

definition constrain_bxor :: "gate_param \<Rightarrow> constraint_builder \<Rightarrow> constraint_builder option" where
  "constrain_bxor gate cb =
    (case (p_inputs gate, p_outputs gate) of
       ([x, y], [z]) \<Rightarrow> push_linear (xor2 (TermWire x) (TermWire y)) z cb
     | _ \<Rightarrow> None)"

definition constrain_bxor_multi :: "gate_param \<Rightarrow> constraint_builder \<Rightarrow> constraint_builder option" where
  "constrain_bxor_multi gate cb =
    (case p_outputs gate of
       [z] \<Rightarrow> push_linear (xor_multi (map TermWire (p_inputs gate))) z cb
     | _ \<Rightarrow> None)"

definition constrain_fax :: "gate_param \<Rightarrow> constraint_builder \<Rightarrow> constraint_builder option" where
  "constrain_fax gate cb =
    (case (p_inputs gate, p_outputs gate) of
       ([x, y, w], [z]) \<Rightarrow> push_and (expr_wire x) (expr_wire y) (xor2 (TermWire z) (TermWire w)) cb
     | _ \<Rightarrow> None)"

definition constrain_select :: "gate_param \<Rightarrow> constraint_builder \<Rightarrow> constraint_builder option" where
  "constrain_select gate cb =
    (case (p_inputs gate, p_outputs gate) of
       ([cond, t, f], [out]) \<Rightarrow> do {
         c \<leftarrow> expr_srl cond 63;
         push_bmul (expr_term c) expr_empty (xor2 (TermWire t) (TermWire f)) expr_empty
           (xor2 (TermWire out) (TermWire f)) expr_empty cb
       }
     | _ \<Rightarrow> None)"

definition constrain_iadd_cin_cout :: "gate_param \<Rightarrow> constraint_builder \<Rightarrow> constraint_builder option" where
  "constrain_iadd_cin_cout gate cb =
    (case (p_inputs gate, p_outputs gate) of
       ([a, b, cin], [s, cout]) \<Rightarrow> do {
         cout_sll_1 \<leftarrow> expr_sll cout 1;
         cin_msb \<leftarrow> expr_srl cin 63;
         cb \<leftarrow> push_and (xor3 (TermWire a) cout_sll_1 cin_msb) (xor3 (TermWire b) cout_sll_1 cin_msb)
           (xor3 (TermWire cout) cout_sll_1 cin_msb) cb;
         push_linear (xor4 (TermWire a) (TermWire b) cout_sll_1 cin_msb) s cb
       }
     | _ \<Rightarrow> None)"

definition constrain_iadd32 :: "gate_param \<Rightarrow> constraint_builder \<Rightarrow> constraint_builder option" where
  "constrain_iadd32 gate cb =
    (case (p_inputs gate, p_outputs gate) of
       ([x, y], [z, cout]) \<Rightarrow> do {
         cout_shifted \<leftarrow> expr_sll32 cout 1;
         cb \<leftarrow> push_and (xor2 (TermWire x) cout_shifted) (xor2 (TermWire y) cout_shifted)
           (xor2 (TermWire cout) cout_shifted) cb;
         push_linear (xor3 (TermWire x) (TermWire y) cout_shifted) z cb
       }
     | _ \<Rightarrow> None)"

definition constrain_iadd32_cin_cout :: "gate_param \<Rightarrow> constraint_builder \<Rightarrow> constraint_builder option" where
  "constrain_iadd32_cin_cout gate cb =
    (case (p_inputs gate, p_outputs gate) of
       ([x, y, cin], [z, cout]) \<Rightarrow> do {
         cout_shifted \<leftarrow> expr_sll32 cout 1;
         cin_bit \<leftarrow> expr_srl32 cin 31;
         cb \<leftarrow> push_and (xor3 (TermWire x) cout_shifted cin_bit) (xor3 (TermWire y) cout_shifted cin_bit)
           (xor3 (TermWire cout) cout_shifted cin_bit) cb;
         push_linear (xor4 (TermWire x) (TermWire y) cout_shifted cin_bit) z cb
       }
     | _ \<Rightarrow> None)"

definition constrain_isub_bin_bout :: "gate_param \<Rightarrow> constraint_builder \<Rightarrow> constraint_builder option" where
  "constrain_isub_bin_bout gate cb =
    (case (p_constants gate, p_inputs gate, p_outputs gate) of
       ([all1], [a, b, bin], [diff, bout]) \<Rightarrow> do {
         bout_sll_1 \<leftarrow> expr_sll bout 1;
         bin_msb \<leftarrow> expr_srl bin 63;
         cb \<leftarrow> push_and (xor4 (TermWire all1) (TermWire a) bout_sll_1 bin_msb)
           (xor3 (TermWire b) bout_sll_1 bin_msb) (xor3 (TermWire bout) bout_sll_1 bin_msb) cb;
         push_linear (xor4 (TermWire a) (TermWire b) bout_sll_1 bin_msb) diff cb
       }
     | _ \<Rightarrow> None)"

definition constrain_imul :: "gate_param \<Rightarrow> constraint_builder \<Rightarrow> constraint_builder option" where
  "constrain_imul gate cb =
    (case (p_inputs gate, p_outputs gate) of
       ([x, y], [hi, lo]) \<Rightarrow> push_imul (expr_wire x) (expr_wire y) (expr_wire hi) (expr_wire lo) cb
     | _ \<Rightarrow> None)"

definition constrain_bmul :: "gate_param \<Rightarrow> constraint_builder \<Rightarrow> constraint_builder option" where
  "constrain_bmul gate cb =
    (case (p_inputs gate, p_outputs gate) of
       ([a_lo, a_hi, b_lo, b_hi], [c_lo, c_hi]) \<Rightarrow>
         push_bmul (expr_wire a_lo) (expr_wire a_hi) (expr_wire b_lo) (expr_wire b_hi)
           (expr_wire c_lo) (expr_wire c_hi) cb
     | _ \<Rightarrow> None)"

definition variant_of :: "u32 \<Rightarrow> shift_variant option" where
  "variant_of imm = variant_from_u8 (ucast imm)"

definition shifted_term :: "shift_variant \<Rightarrow> wire \<Rightarrow> u32 \<Rightarrow> wire_expr_term option" where
  "shifted_term v x n =
    (if n = 0 then Some (TermWire x)
     else case v of
         Sll \<Rightarrow> expr_sll x (unat n)
       | Slr \<Rightarrow> expr_srl x (unat n)
       | Sar \<Rightarrow> expr_sar x (unat n)
       | Rotr \<Rightarrow> expr_rotr x (unat n)
       | Sll32 \<Rightarrow> expr_sll32 x (unat n)
       | Srl32 \<Rightarrow> expr_srl32 x (unat n)
       | Sra32 \<Rightarrow> expr_sra32 x (unat n)
       | Rotr32 \<Rightarrow> expr_rotr32 x (unat n))"

definition constrain_shift :: "gate_param \<Rightarrow> constraint_builder \<Rightarrow> constraint_builder option" where
  "constrain_shift gate cb =
    (case (p_inputs gate, p_outputs gate, p_imm gate) of
       ([x], [z], [vr, n]) \<Rightarrow> do {
         v \<leftarrow> variant_of vr;
         t \<leftarrow> shifted_term v x n;
         push_linear (expr_term t) z cb
       }
     | _ \<Rightarrow> None)"

definition constrain_icmp_ult :: "gate_param \<Rightarrow> constraint_builder \<Rightarrow> constraint_builder option" where
  "constrain_icmp_ult gate cb =
    (case (p_constants gate, p_inputs gate, p_outputs gate) of
       ([all1], [x, y], [bout]) \<Rightarrow> do {
         bout_sll_1 \<leftarrow> expr_sll bout 1;
         push_and (xor3 (TermWire x) (TermWire all1) bout_sll_1) (xor2 (TermWire y) bout_sll_1)
           (xor2 (TermWire bout) bout_sll_1) cb
       }
     | _ \<Rightarrow> None)"

definition constrain_icmp_eq :: "gate_param \<Rightarrow> constraint_builder \<Rightarrow> constraint_builder option" where
  "constrain_icmp_eq gate cb =
    (case (p_constants gate, p_inputs gate, p_outputs gate) of
       ([all1, msb_one], [x, y], [out]) \<Rightarrow> do {
         cin \<leftarrow> expr_sll out 1;
         push_and (xor3 (TermWire x) (TermWire y) cin) (xor2 (TermWire all1) cin)
           (xor3 cin (TermWire out) (TermWire msb_one)) cb
       }
     | _ \<Rightarrow> None)"

definition constrain_assert_eq :: "gate_param \<Rightarrow> constraint_builder \<Rightarrow> constraint_builder option" where
  "constrain_assert_eq gate cb =
    (case p_inputs gate of
       [x, y] \<Rightarrow> push_zero (xor2 (TermWire x) (TermWire y)) cb
     | _ \<Rightarrow> None)"

definition constrain_assert_eq_cond :: "gate_param \<Rightarrow> constraint_builder \<Rightarrow> constraint_builder option" where
  "constrain_assert_eq_cond gate cb =
    (case p_inputs gate of
       [x, y, cond] \<Rightarrow> do {
         c \<leftarrow> expr_sar cond 63;
         push_and (xor2 (TermWire x) (TermWire y)) (expr_term c) expr_empty cb
       }
     | _ \<Rightarrow> None)"

definition constrain_assert_zero :: "gate_param \<Rightarrow> constraint_builder \<Rightarrow> constraint_builder option" where
  "constrain_assert_zero gate cb =
    (case p_inputs gate of
       [x] \<Rightarrow> push_zero (expr_wire x) cb
     | _ \<Rightarrow> None)"

definition constrain_assert_non_zero :: "gate_param \<Rightarrow> constraint_builder \<Rightarrow> constraint_builder option" where
  "constrain_assert_non_zero gate cb =
    (case (p_constants gate, p_inputs gate, p_aux gate) of
       ([all1], [x], [cout]) \<Rightarrow> do {
         cin \<leftarrow> expr_sll cout 1;
         cb \<leftarrow> push_and (xor2 (TermWire x) cin) (xor2 (TermWire all1) cin) (xor2 cin (TermWire cout)) cb;
         msb \<leftarrow> expr_sar cout 63;
         push_zero (xor2 msb (TermWire all1)) cb
       }
     | _ \<Rightarrow> None)"

definition constrain_assert_false :: "gate_param \<Rightarrow> constraint_builder \<Rightarrow> constraint_builder option" where
  "constrain_assert_false gate cb =
    (case p_inputs gate of
       [x] \<Rightarrow> do { t \<leftarrow> expr_sar x 63; push_zero (expr_term t) cb }
     | _ \<Rightarrow> None)"

definition constrain_assert_true :: "gate_param \<Rightarrow> constraint_builder \<Rightarrow> constraint_builder option" where
  "constrain_assert_true gate cb =
    (case (p_constants gate, p_inputs gate) of
       ([all1], [x]) \<Rightarrow> do { t \<leftarrow> expr_sar x 63; push_zero (xor2 t (TermWire all1)) cb }
     | _ \<Rightarrow> None)"

fun op_constrain :: "opcode \<Rightarrow> gate_param \<Rightarrow> constraint_builder \<Rightarrow> constraint_builder option" where
  "op_constrain Band = constrain_band"
| "op_constrain Bxor = constrain_bxor"
| "op_constrain BxorMulti = constrain_bxor_multi"
| "op_constrain Bor = constrain_bor"
| "op_constrain Fax = constrain_fax"
| "op_constrain Select = constrain_select"
| "op_constrain IaddCinCout = constrain_iadd_cin_cout"
| "op_constrain Iadd32 = constrain_iadd32"
| "op_constrain Iadd32CinCout = constrain_iadd32_cin_cout"
| "op_constrain IsubBinBout = constrain_isub_bin_bout"
| "op_constrain Imul = constrain_imul"
| "op_constrain Bmul = constrain_bmul"
| "op_constrain ShiftOp = constrain_shift"
| "op_constrain IcmpUlt = constrain_icmp_ult"
| "op_constrain IcmpEq = constrain_icmp_eq"
| "op_constrain AssertEq = constrain_assert_eq"
| "op_constrain AssertZero = constrain_assert_zero"
| "op_constrain AssertNonZero = constrain_assert_non_zero"
| "op_constrain AssertFalse = constrain_assert_false"
| "op_constrain AssertTrue = constrain_assert_true"
| "op_constrain AssertEqCond = constrain_assert_eq_cond"

definition gate_constrain :: "hint_registry \<Rightarrow> gate_data \<Rightarrow> constraint_builder \<Rightarrow> constraint_builder option" where
  "gate_constrain r d cb =
    (case body d of
       Op opcode \<Rightarrow> Option.bind (get_gate_param r d) (\<lambda>p. op_constrain opcode p cb)
     | HintCall _ \<Rightarrow> Some cb)"

section \<open>What a kind's constraints say\<close>

text \<open>The reference: the outputs are the gate's value on its inputs, an assertion's violation being no
  value at all.  The one auxiliary wire a constraint reads holds the carries of the non-zero test.\<close>

definition gate_holds :: "opcode \<Rightarrow> gate_param \<Rightarrow> (wire \<Rightarrow> u64) \<Rightarrow> bool" where
  "gate_holds opcode p \<sigma> \<longleftrightarrow>
    op_eval opcode (p_imm p) (map \<sigma> (p_inputs p)) = Ok (map \<sigma> (p_outputs p)) \<and>
    (opcode = AssertNonZero \<longrightarrow>
      map \<sigma> (p_aux p) = map (\<lambda>x. snd (iadd_cin_cout ALL_ONE x ZERO)) (map \<sigma> (p_inputs p)))"

text \<open>\<open>emits cb r m C rel\<close>: the run \<open>r\<close> from \<open>cb\<close> returns a builder with at most \<open>m\<close> more terms, whose
  constraints say \<open>rel\<close> beyond those of \<open>cb\<close> of every assignment with \<open>C\<close>.\<close>

definition emits :: "constraint_builder \<Rightarrow> constraint_builder option \<Rightarrow> nat \<Rightarrow>
    ((wire \<Rightarrow> u64) \<Rightarrow> bool) \<Rightarrow> ((wire \<Rightarrow> u64) \<Rightarrow> bool) \<Rightarrow> bool" where
  "emits cb r m C rel \<longleftrightarrow> (\<exists>cb'. r = Some cb' \<and> cb_wf cb' \<and>
    length (cb_terms cb) \<le> length (cb_terms cb') \<and> length (cb_terms cb') \<le> length (cb_terms cb) + m \<and>
    (\<forall>\<sigma>. C \<sigma> \<longrightarrow> (cb_sat \<sigma> cb' \<longleftrightarrow> cb_sat \<sigma> cb \<and> rel \<sigma>)))"

lemma emits_pushed:
  assumes "\<exists>cb'. r = Some cb' \<and> pushed cb cb' n rel" "n \<le> m" "\<And>\<sigma>. C \<sigma> \<Longrightarrow> rel \<sigma> \<longleftrightarrow> rel' \<sigma>"
  shows "emits cb r m C rel'"
  using assms by (auto simp: emits_def pushed_def)

lemma emits_pushed2:
  assumes "\<exists>cb'. r = Some cb' \<and> pushed cb cb' n rel"
    and "\<And>cb'. pushed cb cb' n rel \<Longrightarrow> \<exists>cb''. f cb' = Some cb'' \<and> pushed cb' cb'' n' rel'"
    and "n + n' \<le> m" "\<And>\<sigma>. C \<sigma> \<Longrightarrow> rel \<sigma> \<and> rel' \<sigma> \<longleftrightarrow> rel'' \<sigma>"
  shows "emits cb (Option.bind r f) m C rel''"
proof -
  obtain cb' where 1: "r = Some cb'" "pushed cb cb' n rel" using assms(1) by blast
  obtain cb'' where 2: "f cb' = Some cb''" "pushed cb' cb'' n' rel'" using assms(2)[OF 1(2)] by blast
  show ?thesis using 1 2 assms(3,4) by (auto simp: emits_def pushed_def)
qed

lemma emits_and:
  assumes "cb_wf cb" "length a + length b + length c \<le> m" "length (cb_terms cb) + m < 2 ^ 32"
    and "\<And>\<sigma>. C \<sigma> \<Longrightarrow> expr_val \<sigma> a AND expr_val \<sigma> b = expr_val \<sigma> c \<longleftrightarrow> rel \<sigma>"
  shows "emits cb (push_and a b c cb) m C rel"
  by (rule emits_pushed[OF push_and_spec[OF assms(1)]]) (use assms in simp_all)

lemma emits_imul:
  assumes "cb_wf cb" "length a + length b + length hi + length lo \<le> m" "length (cb_terms cb) + m < 2 ^ 32"
    and "\<And>\<sigma>. C \<sigma> \<Longrightarrow> imul_rel (expr_val \<sigma> a) (expr_val \<sigma> b) (expr_val \<sigma> hi) (expr_val \<sigma> lo) \<longleftrightarrow> rel \<sigma>"
  shows "emits cb (push_imul a b hi lo cb) m C rel"
  by (rule emits_pushed[OF push_imul_spec[OF assms(1)]]) (use assms in simp_all)

lemma emits_bmul:
  assumes "cb_wf cb" "length al + length ah + length bl + length bh + length cl + length ch \<le> m"
    "length (cb_terms cb) + m < 2 ^ 32"
    and "\<And>\<sigma>. C \<sigma> \<Longrightarrow> bmul_rel (expr_val \<sigma> al) (expr_val \<sigma> ah) (expr_val \<sigma> bl) (expr_val \<sigma> bh)
      (expr_val \<sigma> cl) (expr_val \<sigma> ch) \<longleftrightarrow> rel \<sigma>"
  shows "emits cb (push_bmul al ah bl bh cl ch cb) m C rel"
  by (rule emits_pushed[OF push_bmul_spec[OF assms(1)]]) (use assms in simp_all)

lemma emits_linear:
  assumes "cb_wf cb" "length e \<le> m" "length (cb_terms cb) + m < 2 ^ 32"
    and "\<And>\<sigma>. C \<sigma> \<Longrightarrow> expr_val \<sigma> e = \<sigma> z \<longleftrightarrow> rel \<sigma>"
  shows "emits cb (push_linear e z cb) m C rel"
  by (rule emits_pushed[OF push_linear_spec[OF assms(1)]]) (use assms in simp_all)

lemma emits_zero:
  assumes "cb_wf cb" "length e \<le> m" "length (cb_terms cb) + m < 2 ^ 32"
    and "\<And>\<sigma>. C \<sigma> \<Longrightarrow> expr_val \<sigma> e = 0 \<longleftrightarrow> rel \<sigma>"
  shows "emits cb (push_zero e cb) m C rel"
  by (rule emits_pushed[OF push_zero_spec[OF assms(1)]]) (use assms in simp_all)

lemma emits_and_linear:
  assumes "cb_wf cb" "length a + length b + length c + length e \<le> m" "length (cb_terms cb) + m < 2 ^ 32"
    and "\<And>\<sigma>. C \<sigma> \<Longrightarrow> expr_val \<sigma> a AND expr_val \<sigma> b = expr_val \<sigma> c \<and> expr_val \<sigma> e = \<sigma> z \<longleftrightarrow> rel \<sigma>"
  shows "emits cb (Option.bind (push_and a b c cb) (push_linear e z)) m C rel"
  by (rule emits_pushed2[OF push_and_spec[OF assms(1)] push_linear_spec]) (use assms in \<open>auto simp: pushed_def\<close>)

lemma emits_and_zero:
  assumes "cb_wf cb" "length a + length b + length c + length e \<le> m" "length (cb_terms cb) + m < 2 ^ 32"
    and "\<And>\<sigma>. C \<sigma> \<Longrightarrow> expr_val \<sigma> a AND expr_val \<sigma> b = expr_val \<sigma> c \<and> expr_val \<sigma> e = 0 \<longleftrightarrow> rel \<sigma>"
  shows "emits cb (Option.bind (push_and a b c cb) (push_zero e)) m C rel"
  by (rule emits_pushed2[OF push_and_spec[OF assms(1)] push_zero_spec]) (use assms in \<open>auto simp: pushed_def\<close>)

section \<open>Shifted terms\<close>

lemma term_of_shift:
  assumes "shift_new v n = Some s"
  shows "term_val \<sigma> (TermShifted x s) = variant_apply v (\<sigma> x) n"
proof -
  have *: "n < max_amount v" "s = \<lparr>variant = v, amount = of_nat n\<rparr>"
    using assms by (auto simp: shift_new_def split: if_splits)
  then have "n < 64" using max_amount_le[of v] by linarith
  then show ?thesis using * by (simp add: shift_apply_def unat_small_amount)
qed

lemma kernels [simp]:
  "expr_sll w (Suc 0) = Some (TermShifted w \<lparr>variant = Sll, amount = 1\<rparr>)"
  "expr_srl w 63 = Some (TermShifted w \<lparr>variant = Slr, amount = 63\<rparr>)"
  "expr_sar w 63 = Some (TermShifted w \<lparr>variant = Sar, amount = 63\<rparr>)"
  "expr_sll32 w (Suc 0) = Some (TermShifted w \<lparr>variant = Sll32, amount = 1\<rparr>)"
  "expr_srl32 w 31 = Some (TermShifted w \<lparr>variant = Srl32, amount = 31\<rparr>)"
  by (simp_all add: expr_sll_def expr_srl_def expr_sar_def expr_sll32_def expr_srl32_def shift_sll_def
      shift_srl_def shift_sar_def shift_sll32_def shift_srl32_def shift_new_def)

lemma kernel_values [simp]:
  "shift_apply \<lparr>variant = Sll, amount = 1\<rparr> w = shl w 1"
  "shift_apply \<lparr>variant = Slr, amount = 63\<rparr> w = shr w 63"
  "shift_apply \<lparr>variant = Sar, amount = 63\<rparr> w = sar w 63"
  "shift_apply \<lparr>variant = Sll32, amount = 1\<rparr> w = sll32 w 1"
  "shift_apply \<lparr>variant = Srl32, amount = 31\<rparr> w = srl32 w 31"
  by (simp_all add: shift_apply_def variant_apply_def shift_one_word_def)

lemma variant_apply_0: "variant_apply v w 0 = w"
proof -
  have "valid_shift \<lparr>variant = v, amount = 0\<rparr>" "is_identity \<lparr>variant = v, amount = 0\<rparr>"
    by (simp_all add: valid_shift_def is_identity_def)
  from shift_apply_identity[OF this(2)] this show ?thesis by (simp add: shift_apply_def)
qed

lemma shifted_term_value:
  assumes "unat n < max_amount v"
  shows "\<exists>t. shifted_term v x n = Some t \<and> (\<forall>\<sigma>. term_val \<sigma> t = variant_apply v (\<sigma> x) (unat n))"
proof (cases "n = 0")
  case True
  then show ?thesis by (simp add: shifted_term_def variant_apply_0)
next
  case False
  obtain s where s: "shift_new v (unat n) = Some s" using assms by (simp add: shift_new_def)
  have "shifted_term v x n = Some (TermShifted x s)"
    using False s by (cases v) (simp_all add: shifted_term_def expr_sll_def expr_srl_def expr_sar_def expr_rotr_def
      expr_sll32_def expr_srl32_def expr_sra32_def expr_rotr32_def shift_sll_def shift_srl_def shift_sar_def
      shift_rotr_def shift_sll32_def shift_srl32_def shift_sra32_def shift_rotr32_def)
  then show ?thesis using term_of_shift[OF s] by blast
qed

section \<open>Every kind\<close>

definition gate_terms :: "gate_param \<Rightarrow> nat" where
  "gate_terms p = 12 + length (p_inputs p)"

lemmas expr_defs = xor2_def xor3_def xor4_def xor_multi_def expr_empty_def expr_wire_def expr_term_def

lemmas kind_simps = shape_defs param_fits_def arity expr_defs gate_terms_def gate_holds_def

lemma pair_outputs [simp]:
  "(case q of (u, v) \<Rightarrow> Ok [u, v]) = Ok [x, y] \<longleftrightarrow> q = (x, y)"
  "(case q of (u, v) \<Rightarrow> Ok [v]) = Ok [y] \<longleftrightarrow> snd q = y"
  "(case q of (u, v) \<Rightarrow> Ok [f v]) = Ok [y] \<longleftrightarrow> f (snd q) = y"
  by (cases q; simp)+

lemma checked_output [simp]: "(if P then Err e else Ok xs) = Ok xs \<longleftrightarrow> \<not> P"
  by simp

lemma non_zero_rule:
  "x \<noteq> ZERO \<and> cout = snd (iadd_cin_cout ALL_ONE x ZERO) \<longleftrightarrow>
    (x XOR shl cout 1) AND (ALL_ONE XOR shl cout 1) = shl cout 1 XOR cout \<and> sar cout 63 XOR ALL_ONE = 0"
  using assert_non_zero_equations[of x cout] by (simp add: ZERO_def)

lemma expr_val_wires: "expr_val \<sigma> (map TermWire ws) = foldl (XOR) ZERO (map \<sigma> ws)"
proof (induction ws)
  case (Cons w ws)
  then show ?case using foldl_xor[of "\<sigma> w" "map \<sigma> ws"] by (simp add: ZERO_def)
qed (simp add: ZERO_def)

lemma op_constrain_emits:
  assumes shape: "op_shape opcode dims = Some s" and fits: "param_fits s p" and imm: "imm_ok opcode (p_imm p)"
    and wf: "cb_wf cb" and room: "length (cb_terms cb) + gate_terms p < 2 ^ 32"
  shows "emits cb (op_constrain opcode p cb) (gate_terms p) (\<lambda>\<sigma>. map \<sigma> (p_constants p) = const_in s)
    (gate_holds opcode p)"
proof (cases opcode)
  case Band
  then show ?thesis using assms
    by (auto simp: kind_simps constrain_band_def intro!: emits_and)
next
  case Bxor
  then show ?thesis using assms
    by (auto simp: kind_simps constrain_bxor_def intro!: emits_linear)
next
  case BxorMulti
  then show ?thesis using assms op_shape_BxorMulti[of dims s]
    by (auto simp: kind_simps constrain_bxor_multi_def expr_val_wires intro!: emits_linear simp del: op_shape.simps)
next
  case Bor
  then show ?thesis using assms
    by (auto simp: kind_simps constrain_bor_def bor_equation intro!: emits_and)
next
  case Fax
  then show ?thesis using assms
    by (auto simp: kind_simps constrain_fax_def fax_equation intro!: emits_and)
next
  case Select
  then show ?thesis using assms
    by (auto simp: kind_simps constrain_select_def bmul_rel_def select_equation intro!: emits_bmul)
next
  case IaddCinCout
  then show ?thesis using assms
    by (auto simp: kind_simps constrain_iadd_cin_cout_def iadd_equations[symmetric] intro!: emits_and_linear)
next
  case Iadd32
  then show ?thesis using assms
    by (auto simp: kind_simps constrain_iadd32_def iadd32_cout_equations[symmetric] intro!: emits_and_linear)
next
  case Iadd32CinCout
  then show ?thesis using assms
    by (auto simp: kind_simps constrain_iadd32_cin_cout_def iadd32_equations[symmetric] intro!: emits_and_linear)
next
  case IsubBinBout
  then show ?thesis using assms
    by (auto simp: kind_simps constrain_isub_bin_bout_def isub_equations[symmetric] xor_ALL_ONE intro!: emits_and_linear)
next
  case Imul
  then show ?thesis using assms
    by (auto simp: kind_simps constrain_imul_def imul_rel_def imul_equation[symmetric] intro!: emits_imul)
next
  case Bmul
  then show ?thesis using assms
    by (auto simp: kind_simps constrain_bmul_def bmul_rel_def bmul_equation[symmetric] intro!: emits_bmul)
next
  case ShiftOp
  then obtain x z vr n v where p: "p_inputs p = [x]" "p_outputs p = [z]" "p_imm p = [vr, n]"
    and v: "variant_from_u8 (ucast vr) = Some v" "unat n < max_amount v"
    using shape fits imm by (auto simp: kind_simps imm_ok_def)
  obtain t where "shifted_term v x n = Some t" "\<forall>\<sigma>. term_val \<sigma> t = variant_apply v (\<sigma> x) (unat n)"
    using shifted_term_value[OF v(2)] by blast
  then show ?thesis using ShiftOp p v wf room
    by (auto simp: kind_simps constrain_shift_def variant_of_def intro!: emits_linear)
next
  case IcmpUlt
  then show ?thesis using assms
    by (auto simp: kind_simps constrain_icmp_ult_def icmp_ult_equation[symmetric] intro!: emits_and)
next
  case IcmpEq
  then show ?thesis using assms
    by (auto simp: kind_simps constrain_icmp_eq_def icmp_eq_equation[symmetric] xor.assoc length_SS intro!: emits_and)
next
  case AssertEq
  then show ?thesis using assms
    by (auto simp: kind_simps constrain_assert_eq_def xor_zero_iff intro!: emits_zero)
next
  case AssertZero
  then show ?thesis using assms
    by (auto simp: kind_simps constrain_assert_zero_def ZERO_def intro!: emits_zero)
next
  case AssertNonZero
  then show ?thesis using assms
    by (auto simp: kind_simps constrain_assert_non_zero_def non_zero_rule intro!: emits_and_zero)
next
  case AssertFalse
  then show ?thesis using assms
    by (auto simp: kind_simps constrain_assert_false_def sar_63_tests is_msb_true_iff intro!: emits_zero)
next
  case AssertTrue
  then show ?thesis using assms
    by (auto simp: kind_simps constrain_assert_true_def sar_63_tests is_msb_false_def is_msb_true_iff intro!: emits_zero)
next
  case AssertEqCond
  then show ?thesis using assms
    by (auto simp: kind_simps constrain_assert_eq_cond_def sar_63_tests is_msb_true_iff xor_zero_iff intro!: emits_and)
qed

section \<open>A gate of a graph\<close>

definition consts_hold :: "wire_kind list \<Rightarrow> (wire \<Rightarrow> u64) \<Rightarrow> bool" where
  "consts_hold ks \<sigma> \<longleftrightarrow> (\<forall>w < length ks. case ks ! w of KConstant c \<Rightarrow> \<sigma> w = c | _ \<Rightarrow> True)"

definition gate_imm_ok :: "gate_data \<Rightarrow> bool" where
  "gate_imm_ok d \<longleftrightarrow> (case body d of Op opcode \<Rightarrow> imm_ok opcode (immediates d) | HintCall _ \<Rightarrow> True)"

text \<open>A gate is satisfied when its outputs are its value; a hint's outputs are unconstrained.\<close>

definition gate_sat :: "hint_registry \<Rightarrow> gate_data \<Rightarrow> (wire \<Rightarrow> u64) \<Rightarrow> bool" where
  "gate_sat r d \<sigma> \<longleftrightarrow>
    (case body d of
       Op opcode \<Rightarrow> (case get_gate_param r d of Some p \<Rightarrow> gate_holds opcode p \<sigma> | None \<Rightarrow> False)
     | HintCall _ \<Rightarrow> True)"

lemma param_constants_hold:
  assumes "gate_wf r ks d" "consts_hold ks \<sigma>" "gate_shape r d = Some s" "param_fits s p" "wires d = param_wires p"
  shows "map \<sigma> (p_constants p) = const_in s"
proof (rule nth_equalityI)
  show "length (map \<sigma> (p_constants p)) = length (const_in s)" using assms(4) by (simp add: param_fits_def)
next
  fix i assume "i < length (map \<sigma> (p_constants p))"
  then have i: "i < length (p_constants p)" "i < length (const_in s)"
    using assms(4) by (simp_all add: param_fits_def)
  have w: "wires d ! i = p_constants p ! i" using i(1) assms(5) by (simp add: param_wires_def nth_append)
  have "wires d ! i \<in> set (wires d)" using i(1) assms(5) by (intro nth_mem) (simp add: param_wires_def)
  then have "p_constants p ! i < length ks" "ks ! (p_constants p ! i) = KConstant (const_in s ! i)"
    using assms(1,3) i(2) w by (auto simp: gate_wf_def)
  then show "map \<sigma> (p_constants p) ! i = const_in s ! i"
    using assms(2) i(1) by (auto simp: consts_hold_def)
qed

lemma emits_mono:
  assumes "emits cb r m C rel" "m \<le> m'" "\<And>\<sigma>. C' \<sigma> \<Longrightarrow> C \<sigma>" "\<And>\<sigma>. C' \<sigma> \<Longrightarrow> rel \<sigma> \<longleftrightarrow> rel' \<sigma>"
  shows "emits cb r m' C' rel'"
  using assms by (fastforce simp: emits_def)

definition gate_room :: "gate_data \<Rightarrow> nat" where
  "gate_room d = 12 + length (wires d)"

lemma gate_constrain_emits:
  assumes gwf: "gate_wf r ks d" and imm: "gate_imm_ok d" and wf: "cb_wf cb"
    and room: "length (cb_terms cb) + gate_room d < 2 ^ 32"
  shows "emits cb (gate_constrain r d cb) (gate_room d) (consts_hold ks) (gate_sat r d)"
proof (cases "body d")
  case (HintCall hid)
  then show ?thesis using wf by (simp add: gate_constrain_def gate_sat_def emits_def)
next
  case (Op opcode)
  obtain s p where p: "gate_shape r d = Some s" "get_gate_param r d = Some p" "param_fits s p"
    "wires d = param_wires p" "immediates d = p_imm p"
    by (rule validated_gate_param[of r d]) (use gwf in \<open>simp_all add: gate_wf_def\<close>)
  have m: "gate_terms p \<le> gate_room d" using p(4) by (simp add: gate_terms_def gate_room_def param_wires_def)
  have "emits cb (op_constrain opcode p cb) (gate_terms p) (\<lambda>\<sigma>. map \<sigma> (p_constants p) = const_in s)
    (gate_holds opcode p)"
    by (rule op_constrain_emits[of _ "dimensions d"])
      (use p Op imm wf room m in \<open>simp_all add: gate_shape_def gate_imm_ok_def\<close>)
  then have "emits cb (op_constrain opcode p cb) (gate_room d) (consts_hold ks) (gate_sat r d)"
    by (rule emits_mono)
      (use m param_constants_hold[OF gwf _ p(1,3,4)] Op p(2) in \<open>simp_all add: gate_sat_def\<close>)
  then show ?thesis using Op p(2) by (simp add: gate_constrain_def)
qed

section \<open>Property\<close>

text \<open>C11: A gate's constraints say exactly what it computes. For a gate of any of the 21 kinds that
  passes the graph's shape check and whose constant wires hold their constants, constraining it
  succeeds, and an assignment to the wires satisfies the constraints added exactly when the gate's
  outputs are the value the constant evaluator computes from its inputs (for an assertion: exactly
  when it does not fail; for a non-zero assertion the auxiliary wire must also hold the carries of
  the test). A hint adds no constraint.\<close>

theorem gate_constraints_exact:
  assumes "gate_wf r ks d" "gate_imm_ok d" "cb_wf cb" "length (cb_terms cb) + gate_room d < 2 ^ 32"
  shows "\<exists>cb'. gate_constrain r d cb = Some cb' \<and> cb_wf cb' \<and>
    (\<forall>\<sigma>. consts_hold ks \<sigma> \<longrightarrow> (cb_sat \<sigma> cb' \<longleftrightarrow> cb_sat \<sigma> cb \<and> gate_sat r d \<sigma>))"
  using gate_constrain_emits[OF assms] by (auto simp: emits_def)

definition sample_iadd :: gate_data where
  "sample_iadd = \<lparr>body = Op IaddCinCout, wires = [0, 1, 2, 3, 4], immediates = [], dimensions = []\<rparr>"

lemma gate_constraints_exact_witness:
  "\<exists>cb'. gate_constrain Map.empty sample_iadd cb_new = Some cb' \<and> cb_wf cb' \<and>
    (\<forall>\<sigma>. cb_sat \<sigma> cb' \<longleftrightarrow> cb_sat \<sigma> cb_new \<and> gate_sat Map.empty sample_iadd \<sigma>)"
proof -
  have ks: "consts_hold (replicate 5 KWitness) \<sigma>" for \<sigma> by (simp add: consts_hold_def)
  have "\<exists>cb'. gate_constrain Map.empty sample_iadd cb_new = Some cb' \<and> cb_wf cb' \<and>
    (\<forall>\<sigma>. consts_hold (replicate 5 KWitness) \<sigma> \<longrightarrow>
      (cb_sat \<sigma> cb' \<longleftrightarrow> cb_sat \<sigma> cb_new \<and> gate_sat Map.empty sample_iadd \<sigma>))"
    by (rule gate_constraints_exact)
      (simp_all add: gate_wf_def validate_shape_def gate_shape_def shape_wires_def shape_defs sample_iadd_def
        gate_imm_ok_def imm_ok_def cb_wf_def cb_new_def gate_room_def nth_Cons')
  then show ?thesis using ks by simp
qed

end
