(* ===== verification/Bytecode.thy ===== *)
theory Bytecode
  imports Gate_Graph Shift Serialization
begin

text \<open>
  The instructions of the evaluation form: the opcode bytes of \<open>eval_form/opcode.rs\<close> and the emitters
  of \<open>eval_form/builder.rs\<close>.  A path spec is the \<open>u32\<close> it is carried as.
\<close>

section \<open>Opcode bytes\<close>

datatype eval_opcode =
  EBand | EBor | EBxor | ESelect | EBxorMulti | EFax
| EShift
| EIaddCinCout | EIaddCarry | EIsubBinBout | EImul | EBmul
| EIadd32CinCout | EIadd32Cout
| EAssertEq | EAssertEqCond | EAssertZero | EAssertNonZero | EAssertFalse | EAssertTrue
| EHint

fun opcode_byte :: "eval_opcode \<Rightarrow> u8" where
  "opcode_byte EBand = 0x01"
| "opcode_byte EBor = 0x02"
| "opcode_byte EBxor = 0x03"
| "opcode_byte ESelect = 0x05"
| "opcode_byte EBxorMulti = 0x06"
| "opcode_byte EFax = 0x07"
| "opcode_byte EShift = 0x10"
| "opcode_byte EIaddCinCout = 0x21"
| "opcode_byte EIaddCarry = 0x22"
| "opcode_byte EIsubBinBout = 0x23"
| "opcode_byte EImul = 0x30"
| "opcode_byte EBmul = 0x31"
| "opcode_byte EIadd32CinCout = 0x40"
| "opcode_byte EIadd32Cout = 0x46"
| "opcode_byte EAssertEq = 0x60"
| "opcode_byte EAssertEqCond = 0x61"
| "opcode_byte EAssertZero = 0x62"
| "opcode_byte EAssertNonZero = 0x63"
| "opcode_byte EAssertFalse = 0x64"
| "opcode_byte EAssertTrue = 0x65"
| "opcode_byte EHint = 0x80"

definition opcode_from_byte :: "u8 \<Rightarrow> eval_opcode option" where
  "opcode_from_byte byte =
    (if byte = 0x01 then Some EBand
     else if byte = 0x02 then Some EBor
     else if byte = 0x03 then Some EBxor
     else if byte = 0x05 then Some ESelect
     else if byte = 0x06 then Some EBxorMulti
     else if byte = 0x07 then Some EFax
     else if byte = 0x10 then Some EShift
     else if byte = 0x21 then Some EIaddCinCout
     else if byte = 0x22 then Some EIaddCarry
     else if byte = 0x23 then Some EIsubBinBout
     else if byte = 0x30 then Some EImul
     else if byte = 0x31 then Some EBmul
     else if byte = 0x40 then Some EIadd32CinCout
     else if byte = 0x46 then Some EIadd32Cout
     else if byte = 0x60 then Some EAssertEq
     else if byte = 0x61 then Some EAssertEqCond
     else if byte = 0x62 then Some EAssertZero
     else if byte = 0x63 then Some EAssertNonZero
     else if byte = 0x64 then Some EAssertFalse
     else if byte = 0x65 then Some EAssertTrue
     else if byte = 0x80 then Some EHint
     else None)"

lemma opcode_byte_decodes [simp]: "opcode_from_byte (opcode_byte op) = Some op"
  by (cases op) (simp_all add: opcode_from_byte_def)

lemma opcode_from_byte_Some: "opcode_from_byte b = Some op \<Longrightarrow> b = opcode_byte op"
  by (auto simp: opcode_from_byte_def split: if_splits)

section \<open>The builder\<close>

record bytecode_builder =
  bb_bytecode :: "u8 list"
  bb_n_eval_insn :: nat

definition bb_new :: bytecode_builder where
  "bb_new = \<lparr>bb_bytecode = [], bb_n_eval_insn = 0\<rparr>"

definition emit_u8 :: "u8 \<Rightarrow> bytecode_builder \<Rightarrow> bytecode_builder" where
  "emit_u8 val b = b\<lparr>bb_bytecode := bb_bytecode b @ [val]\<rparr>"

definition emit_u32 :: "u32 \<Rightarrow> bytecode_builder \<Rightarrow> bytecode_builder" where
  "emit_u32 val b = b\<lparr>bb_bytecode := bb_bytecode b @ le_bytes 4 val\<rparr>"

definition emit_opcode :: "eval_opcode \<Rightarrow> bytecode_builder \<Rightarrow> bytecode_builder" where
  "emit_opcode op = emit_u8 (opcode_byte op)"

definition emit_reg :: "u32 \<Rightarrow> bytecode_builder \<Rightarrow> bytecode_builder" where "emit_reg reg = emit_u32 reg"

definition emit_path_spec :: "path_spec \<Rightarrow> bytecode_builder \<Rightarrow> bytecode_builder" where
  "emit_path_spec path_spec = emit_u32 path_spec"

definition count_insn :: "bytecode_builder \<Rightarrow> bytecode_builder" where
  "count_insn b = b\<lparr>bb_n_eval_insn := bb_n_eval_insn b + 1\<rparr>"

text \<open>Emitters one after the other.\<close>

fun emit_seq :: "(bytecode_builder \<Rightarrow> bytecode_builder) list \<Rightarrow> bytecode_builder \<Rightarrow> bytecode_builder" where
  "emit_seq [] b = b"
| "emit_seq (f # fs) b = emit_seq fs (f b)"

definition emit_band :: "u32 \<Rightarrow> u32 \<Rightarrow> u32 \<Rightarrow> bytecode_builder \<Rightarrow> bytecode_builder" where
  "emit_band dst src1 src2 =
    emit_seq [count_insn, emit_opcode EBand, emit_reg dst, emit_reg src1, emit_reg src2]"

definition emit_bor :: "u32 \<Rightarrow> u32 \<Rightarrow> u32 \<Rightarrow> bytecode_builder \<Rightarrow> bytecode_builder" where
  "emit_bor dst src1 src2 =
    emit_seq [count_insn, emit_opcode EBor, emit_reg dst, emit_reg src1, emit_reg src2]"

definition emit_bxor :: "u32 \<Rightarrow> u32 \<Rightarrow> u32 \<Rightarrow> bytecode_builder \<Rightarrow> bytecode_builder" where
  "emit_bxor dst src1 src2 =
    emit_seq [count_insn, emit_opcode EBxor, emit_reg dst, emit_reg src1, emit_reg src2]"

definition emit_bxor_multi :: "u32 \<Rightarrow> u32 list \<Rightarrow> bytecode_builder \<Rightarrow> bytecode_builder" where
  "emit_bxor_multi dst srcs =
    emit_seq ([count_insn, emit_opcode EBxorMulti, emit_reg dst, emit_u32 (word_of_nat (length srcs))] @
      map emit_reg srcs)"

definition emit_fax :: "u32 \<Rightarrow> u32 \<Rightarrow> u32 \<Rightarrow> u32 \<Rightarrow> bytecode_builder \<Rightarrow> bytecode_builder" where
  "emit_fax dst src1 src2 src3 =
    emit_seq [count_insn, emit_opcode EFax, emit_reg dst, emit_reg src1, emit_reg src2, emit_reg src3]"

definition emit_select :: "u32 \<Rightarrow> u32 \<Rightarrow> u32 \<Rightarrow> u32 \<Rightarrow> bytecode_builder \<Rightarrow> bytecode_builder" where
  "emit_select dst cond t f =
    emit_seq [count_insn, emit_opcode ESelect, emit_reg dst, emit_reg cond, emit_reg t, emit_reg f]"

definition emit_shift :: "u32 \<Rightarrow> u32 \<Rightarrow> shift_variant \<Rightarrow> u8 \<Rightarrow> bytecode_builder \<Rightarrow> bytecode_builder" where
  "emit_shift dst src v amt' =
    emit_seq [count_insn, emit_opcode EShift, emit_reg dst, emit_reg src, emit_u8 (variant_as_u8 v), emit_u8 amt']"

definition emit_iadd_cin_cout :: "u32 \<Rightarrow> u32 \<Rightarrow> u32 \<Rightarrow> u32 \<Rightarrow> u32 \<Rightarrow> bytecode_builder \<Rightarrow> bytecode_builder" where
  "emit_iadd_cin_cout dst_sum dst_cout src1 src2 cin =
    emit_seq [count_insn, emit_opcode EIaddCinCout, emit_reg dst_sum, emit_reg dst_cout, emit_reg src1,
      emit_reg src2, emit_reg cin]"

definition emit_iadd_carry :: "u32 \<Rightarrow> u32 \<Rightarrow> u32 \<Rightarrow> bytecode_builder \<Rightarrow> bytecode_builder" where
  "emit_iadd_carry dst_cout src1 src2 =
    emit_seq [count_insn, emit_opcode EIaddCarry, emit_reg dst_cout, emit_reg src1, emit_reg src2]"

definition emit_isub_bin_bout :: "u32 \<Rightarrow> u32 \<Rightarrow> u32 \<Rightarrow> u32 \<Rightarrow> u32 \<Rightarrow> bytecode_builder \<Rightarrow> bytecode_builder" where
  "emit_isub_bin_bout dst_diff dst_bout src1 src2 bin =
    emit_seq [count_insn, emit_opcode EIsubBinBout, emit_reg dst_diff, emit_reg dst_bout, emit_reg src1,
      emit_reg src2, emit_reg bin]"

definition emit_imul :: "u32 \<Rightarrow> u32 \<Rightarrow> u32 \<Rightarrow> u32 \<Rightarrow> bytecode_builder \<Rightarrow> bytecode_builder" where
  "emit_imul dst_hi dst_lo src1 src2 =
    emit_seq [count_insn, emit_opcode EImul, emit_reg dst_hi, emit_reg dst_lo, emit_reg src1, emit_reg src2]"

definition emit_bmul ::
  "u32 \<Rightarrow> u32 \<Rightarrow> u32 \<Rightarrow> u32 \<Rightarrow> u32 \<Rightarrow> u32 \<Rightarrow> bytecode_builder \<Rightarrow> bytecode_builder" where
  "emit_bmul dst_lo dst_hi a_lo a_hi b_lo b_hi =
    emit_seq [count_insn, emit_opcode EBmul, emit_reg dst_lo, emit_reg dst_hi, emit_reg a_lo, emit_reg a_hi,
      emit_reg b_lo, emit_reg b_hi]"

definition emit_iadd32_cin_cout :: "u32 \<Rightarrow> u32 \<Rightarrow> u32 \<Rightarrow> u32 \<Rightarrow> u32 \<Rightarrow> bytecode_builder \<Rightarrow> bytecode_builder" where
  "emit_iadd32_cin_cout dst_sum dst_cout src1 src2 cin =
    emit_seq [count_insn, emit_opcode EIadd32CinCout, emit_reg dst_sum, emit_reg dst_cout, emit_reg src1,
      emit_reg src2, emit_reg cin]"

definition emit_iadd32_cout :: "u32 \<Rightarrow> u32 \<Rightarrow> u32 \<Rightarrow> u32 \<Rightarrow> bytecode_builder \<Rightarrow> bytecode_builder" where
  "emit_iadd32_cout dst_sum dst_cout src1 src2 =
    emit_seq [count_insn, emit_opcode EIadd32Cout, emit_reg dst_sum, emit_reg dst_cout, emit_reg src1, emit_reg src2]"

definition emit_assert_eq :: "u32 \<Rightarrow> u32 \<Rightarrow> path_spec \<Rightarrow> bytecode_builder \<Rightarrow> bytecode_builder" where
  "emit_assert_eq src1 src2 path =
    emit_seq [count_insn, emit_opcode EAssertEq, emit_reg src1, emit_reg src2, emit_path_spec path]"

definition emit_assert_eq_cond :: "u32 \<Rightarrow> u32 \<Rightarrow> u32 \<Rightarrow> path_spec \<Rightarrow> bytecode_builder \<Rightarrow> bytecode_builder" where
  "emit_assert_eq_cond cond src1 src2 path =
    emit_seq [count_insn, emit_opcode EAssertEqCond, emit_reg cond, emit_reg src1, emit_reg src2, emit_path_spec path]"

definition emit_assert_zero :: "u32 \<Rightarrow> path_spec \<Rightarrow> bytecode_builder \<Rightarrow> bytecode_builder" where
  "emit_assert_zero src path = emit_seq [count_insn, emit_opcode EAssertZero, emit_reg src, emit_path_spec path]"

definition emit_assert_non_zero :: "u32 \<Rightarrow> path_spec \<Rightarrow> bytecode_builder \<Rightarrow> bytecode_builder" where
  "emit_assert_non_zero src path = emit_seq [count_insn, emit_opcode EAssertNonZero, emit_reg src, emit_path_spec path]"

definition emit_assert_false :: "u32 \<Rightarrow> path_spec \<Rightarrow> bytecode_builder \<Rightarrow> bytecode_builder" where
  "emit_assert_false src path = emit_seq [count_insn, emit_opcode EAssertFalse, emit_reg src, emit_path_spec path]"

definition emit_assert_true :: "u32 \<Rightarrow> path_spec \<Rightarrow> bytecode_builder \<Rightarrow> bytecode_builder" where
  "emit_assert_true src path = emit_seq [count_insn, emit_opcode EAssertTrue, emit_reg src, emit_path_spec path]"

text \<open>The debug assertion that each count fits four bytes is compiled out of a release build: the
  casts truncate.\<close>

definition emit_hint :: "hint_id \<Rightarrow> nat list \<Rightarrow> u32 list \<Rightarrow> u32 list \<Rightarrow> bytecode_builder \<Rightarrow> bytecode_builder" where
  "emit_hint hid dims inputs outputs =
    emit_seq ([count_insn, emit_opcode EHint, emit_u32 hid, emit_u32 (word_of_nat (length dims))] @
      map (\<lambda>dim. emit_u32 (word_of_nat dim)) dims @
      [emit_u32 (word_of_nat (length inputs)), emit_u32 (word_of_nat (length outputs))] @
      map emit_reg inputs @ map emit_reg outputs)"

definition bb_finalize :: "bytecode_builder \<Rightarrow> u8 list \<times> nat" where
  "bb_finalize b = (bb_bytecode b, bb_n_eval_insn b)"

section \<open>Instructions as data\<close>

text \<open>An instruction, and the bytes that carry it: a calculation writes its destination registers, a
  check reports a failure under a path.\<close>

datatype insn =
  Calc eval_opcode "u32 list" "u32 list"
| CalcMulti u32 "u32 list"
| CalcShift u32 u32 shift_variant u8
| Check eval_opcode "u32 list" path_spec
| CallHint hint_id "nat list" "u32 list" "u32 list"

definition regs_bytes :: "u32 list \<Rightarrow> u8 list" where
  "regs_bytes rs = concat (map (le_bytes 4) rs)"

fun encode :: "insn \<Rightarrow> u8 list" where
  "encode (Calc op ds ss) = opcode_byte op # regs_bytes (ds @ ss)"
| "encode (CalcMulti d ss) = opcode_byte EBxorMulti # regs_bytes (d # word_of_nat (length ss) # ss)"
| "encode (CalcShift d s v n) = opcode_byte EShift # regs_bytes [d, s] @ [variant_as_u8 v, n]"
| "encode (Check op ss path) = opcode_byte op # regs_bytes (ss @ [path])"
| "encode (CallHint hid dims ins outs) =
    opcode_byte EHint # regs_bytes (hid # word_of_nat (length dims) # map word_of_nat dims @
      [word_of_nat (length ins), word_of_nat (length outs)] @ ins @ outs)"

definition append_insn :: "insn \<Rightarrow> bytecode_builder \<Rightarrow> bytecode_builder" where
  "append_insn i b = \<lparr>bb_bytecode = bb_bytecode b @ encode i, bb_n_eval_insn = bb_n_eval_insn b + 1\<rparr>"

lemma emit_seq_append: "emit_seq (fs @ gs) b = emit_seq gs (emit_seq fs b)"
  by (induction fs arbitrary: b) simp_all

lemma emit_seq_u32s: "emit_seq (map (\<lambda>x. emit_u32 (f x)) xs) b = b\<lparr>bb_bytecode := bb_bytecode b @ regs_bytes (map f xs)\<rparr>"
  by (induction xs arbitrary: b) (simp_all add: emit_u32_def regs_bytes_def)

lemma regs_bytes_simps [simp]: "regs_bytes [] = []" "regs_bytes (r # rs) = le_bytes 4 r @ regs_bytes rs"
    "regs_bytes (rs @ ss) = regs_bytes rs @ regs_bytes ss"
  by (simp_all add: regs_bytes_def)

lemma emit_seq_regs: "emit_seq (map emit_reg xs) b = b\<lparr>bb_bytecode := bb_bytecode b @ regs_bytes xs\<rparr>"
proof -
  have "emit_reg = emit_u32" by (rule ext) (simp add: emit_reg_def)
  then show ?thesis using emit_seq_u32s[of "\<lambda>x. x" xs b] by simp
qed

lemmas emit_defs = emit_band_def emit_bor_def emit_bxor_def emit_bxor_multi_def emit_fax_def emit_select_def
  emit_shift_def emit_iadd_cin_cout_def emit_iadd_carry_def emit_isub_bin_bout_def emit_imul_def emit_bmul_def
  emit_iadd32_cin_cout_def emit_iadd32_cout_def emit_assert_eq_def emit_assert_eq_cond_def emit_assert_zero_def
  emit_assert_non_zero_def emit_assert_false_def emit_assert_true_def emit_hint_def

lemma emitted [simp]:
  "emit_band d x y = append_insn (Calc EBand [d] [x, y])"
  "emit_bor d x y = append_insn (Calc EBor [d] [x, y])"
  "emit_bxor d x y = append_insn (Calc EBxor [d] [x, y])"
  "emit_bxor_multi d ss = append_insn (CalcMulti d ss)"
  "emit_fax d x y z = append_insn (Calc EFax [d] [x, y, z])"
  "emit_select d x y z = append_insn (Calc ESelect [d] [x, y, z])"
  "emit_shift d x v n = append_insn (CalcShift d x v n)"
  "emit_iadd_cin_cout d e x y z = append_insn (Calc EIaddCinCout [d, e] [x, y, z])"
  "emit_iadd_carry d x y = append_insn (Calc EIaddCarry [d] [x, y])"
  "emit_isub_bin_bout d e x y z = append_insn (Calc EIsubBinBout [d, e] [x, y, z])"
  "emit_imul d e x y = append_insn (Calc EImul [d, e] [x, y])"
  "emit_bmul d e x y z w = append_insn (Calc EBmul [d, e] [x, y, z, w])"
  "emit_iadd32_cin_cout d e x y z = append_insn (Calc EIadd32CinCout [d, e] [x, y, z])"
  "emit_iadd32_cout d e x y = append_insn (Calc EIadd32Cout [d, e] [x, y])"
  "emit_assert_eq x y p = append_insn (Check EAssertEq [x, y] p)"
  "emit_assert_eq_cond z x y p = append_insn (Check EAssertEqCond [z, x, y] p)"
  "emit_assert_zero x p = append_insn (Check EAssertZero [x] p)"
  "emit_assert_non_zero x p = append_insn (Check EAssertNonZero [x] p)"
  "emit_assert_false x p = append_insn (Check EAssertFalse [x] p)"
  "emit_assert_true x p = append_insn (Check EAssertTrue [x] p)"
  "emit_hint hid dims is' os = append_insn (CallHint hid dims is' os)"
  by (rule ext; simp add: emit_defs emit_seq_append emit_seq_u32s emit_seq_regs append_insn_def count_insn_def
      emit_opcode_def emit_u8_def emit_reg_def emit_u32_def emit_path_spec_def)+

end
