(* ===== verification/Executor.thy ===== *)
theory Executor
  imports Bytecode Gate_Eval
begin

text \<open>
  The dispatch loop of \<open>eval_form/exec.rs\<close>.  The program and its cursor are the bytes not read yet:
  a read takes from the front, and \<open>None\<close> is a panic (the program ends inside an instruction, an
  unknown opcode, a register outside the context).  The context is the trait \<open>EvalContext\<close> as a
  record of its operations.
\<close>

section \<open>The context\<close>

record 'c eval_context =
  ctx_n_instances :: "'c \<Rightarrow> nat"
  ctx_load :: "'c \<Rightarrow> u32 \<Rightarrow> nat \<Rightarrow> u64 option"
  ctx_store :: "'c \<Rightarrow> u32 \<Rightarrow> nat \<Rightarrow> u64 \<Rightarrow> 'c option"
  ctx_note_assertion_failure :: "'c \<Rightarrow> nat \<Rightarrow> path_spec \<Rightarrow> violation \<Rightarrow> 'c"

section \<open>Reading\<close>

type_synonym 'a reader = "u8 list \<Rightarrow> ('a \<times> u8 list) option"

definition read_u8 :: "u8 reader" where
  "read_u8 bs = (case bs of [] \<Rightarrow> None | b # bs \<Rightarrow> Some (b, bs))"

definition read_bytes :: "nat \<Rightarrow> u8 list reader" where
  "read_bytes n bs = (if n \<le> length bs then Some (take n bs, drop n bs) else None)"

definition read_u32 :: "u32 reader" where
  "read_u32 bs = map_option (\<lambda>(x, rest). (from_le x, rest)) (read_bytes 4 bs)"

definition read_reg :: "u32 reader" where "read_reg = read_u32"

definition read_path_spec :: "path_spec reader" where "read_path_spec = read_u32"

fun read_many :: "'a reader \<Rightarrow> nat \<Rightarrow> 'a list reader" where
  "read_many rd 0 bs = Some ([], bs)"
| "read_many rd (Suc n) bs = do {
    (x, bs) \<leftarrow> rd bs;
    (xs, bs) \<leftarrow> read_many rd n bs;
    Some (x # xs, bs)
  }"

section \<open>Loops over the instances\<close>

fun for_each :: "(nat \<Rightarrow> 'c \<Rightarrow> 'c option) \<Rightarrow> nat list \<Rightarrow> 'c \<Rightarrow> 'c option" where
  "for_each f [] c = Some c"
| "for_each f (i # is') c = Option.bind (f i c) (for_each f is')"

definition each_instance :: "'c eval_context \<Rightarrow> (nat \<Rightarrow> 'c \<Rightarrow> 'c option) \<Rightarrow> 'c \<Rightarrow> 'c option" where
  "each_instance E f c = for_each f [0..<ctx_n_instances E c] c"

section \<open>Bitwise operations\<close>

definition exec_band :: "'c eval_context \<Rightarrow> u8 list \<Rightarrow> 'c \<Rightarrow> (u8 list \<times> 'c) option" where
  "exec_band E bs ctx = do {
    (dst, bs) \<leftarrow> read_reg bs;
    (src1, bs) \<leftarrow> read_reg bs;
    (src2, bs) \<leftarrow> read_reg bs;
    ctx \<leftarrow> each_instance E (\<lambda>i ctx. do {
      x \<leftarrow> ctx_load E ctx src1 i;
      y \<leftarrow> ctx_load E ctx src2 i;
      ctx_store E ctx dst i (x AND y)
    }) ctx;
    Some (bs, ctx)
  }"

definition exec_bor :: "'c eval_context \<Rightarrow> u8 list \<Rightarrow> 'c \<Rightarrow> (u8 list \<times> 'c) option" where
  "exec_bor E bs ctx = do {
    (dst, bs) \<leftarrow> read_reg bs;
    (src1, bs) \<leftarrow> read_reg bs;
    (src2, bs) \<leftarrow> read_reg bs;
    ctx \<leftarrow> each_instance E (\<lambda>i ctx. do {
      x \<leftarrow> ctx_load E ctx src1 i;
      y \<leftarrow> ctx_load E ctx src2 i;
      ctx_store E ctx dst i (x OR y)
    }) ctx;
    Some (bs, ctx)
  }"

definition exec_bxor :: "'c eval_context \<Rightarrow> u8 list \<Rightarrow> 'c \<Rightarrow> (u8 list \<times> 'c) option" where
  "exec_bxor E bs ctx = do {
    (dst, bs) \<leftarrow> read_reg bs;
    (src1, bs) \<leftarrow> read_reg bs;
    (src2, bs) \<leftarrow> read_reg bs;
    ctx \<leftarrow> each_instance E (\<lambda>i ctx. do {
      x \<leftarrow> ctx_load E ctx src1 i;
      y \<leftarrow> ctx_load E ctx src2 i;
      ctx_store E ctx dst i (x XOR y)
    }) ctx;
    Some (bs, ctx)
  }"

definition exec_select :: "'c eval_context \<Rightarrow> u8 list \<Rightarrow> 'c \<Rightarrow> (u8 list \<times> 'c) option" where
  "exec_select E bs ctx = do {
    (dst, bs) \<leftarrow> read_reg bs;
    (cond, bs) \<leftarrow> read_reg bs;
    (t, bs) \<leftarrow> read_reg bs;
    (f, bs) \<leftarrow> read_reg bs;
    ctx \<leftarrow> each_instance E (\<lambda>i ctx. do {
      c \<leftarrow> ctx_load E ctx cond i;
      val \<leftarrow> (if is_msb_true c then ctx_load E ctx t i else ctx_load E ctx f i);
      ctx_store E ctx dst i val
    }) ctx;
    Some (bs, ctx)
  }"

fun xor_loads :: "'c eval_context \<Rightarrow> 'c \<Rightarrow> nat \<Rightarrow> u64 \<Rightarrow> u32 list \<Rightarrow> u64 option" where
  "xor_loads E ctx i val [] = Some val"
| "xor_loads E ctx i val (src # srcs) =
    Option.bind (ctx_load E ctx src i) (\<lambda>x. xor_loads E ctx i (val XOR x) srcs)"

definition exec_bxor_multi :: "'c eval_context \<Rightarrow> u8 list \<Rightarrow> 'c \<Rightarrow> (u8 list \<times> 'c) option" where
  "exec_bxor_multi E bs ctx = do {
    (dst, bs) \<leftarrow> read_reg bs;
    (n, bs) \<leftarrow> read_u32 bs;
    (srcs, bs) \<leftarrow> read_many read_reg (unat n) bs;
    ctx \<leftarrow> each_instance E (\<lambda>i ctx. do {
      val \<leftarrow> xor_loads E ctx i ZERO srcs;
      ctx_store E ctx dst i val
    }) ctx;
    Some (bs, ctx)
  }"

definition exec_fax :: "'c eval_context \<Rightarrow> u8 list \<Rightarrow> 'c \<Rightarrow> (u8 list \<times> 'c) option" where
  "exec_fax E bs ctx = do {
    (dst, bs) \<leftarrow> read_reg bs;
    (src1, bs) \<leftarrow> read_reg bs;
    (src2, bs) \<leftarrow> read_reg bs;
    (src3, bs) \<leftarrow> read_reg bs;
    ctx \<leftarrow> each_instance E (\<lambda>i ctx. do {
      x \<leftarrow> ctx_load E ctx src1 i;
      y \<leftarrow> ctx_load E ctx src2 i;
      w \<leftarrow> ctx_load E ctx src3 i;
      ctx_store E ctx dst i ((x AND y) XOR w)
    }) ctx;
    Some (bs, ctx)
  }"

section \<open>Shifts\<close>

definition shift_each :: "'c eval_context \<Rightarrow> u32 \<Rightarrow> u32 \<Rightarrow> (u64 \<Rightarrow> u64) \<Rightarrow> 'c \<Rightarrow> 'c option" where
  "shift_each E dst src op ctx =
    each_instance E (\<lambda>i ctx. Option.bind (ctx_load E ctx src i) (\<lambda>w. ctx_store E ctx dst i (op w))) ctx"

definition exec_shift :: "'c eval_context \<Rightarrow> u8 list \<Rightarrow> 'c \<Rightarrow> (u8 list \<times> 'c) option" where
  "exec_shift E bs ctx = do {
    (dst, bs) \<leftarrow> read_reg bs;
    (src, bs) \<leftarrow> read_reg bs;
    (v, bs) \<leftarrow> read_u8 bs;
    v \<leftarrow> variant_from_u8 v;
    (n, bs) \<leftarrow> read_u8 bs;
    let n = unat n;
    ctx \<leftarrow> (case v of
        Sll \<Rightarrow> shift_each E dst src (\<lambda>w. shl w n) ctx
      | Slr \<Rightarrow> shift_each E dst src (\<lambda>w. shr w n) ctx
      | Sar \<Rightarrow> shift_each E dst src (\<lambda>w. sar w n) ctx
      | Rotr \<Rightarrow> shift_each E dst src (\<lambda>w. rotr w n) ctx
      | Sll32 \<Rightarrow> shift_each E dst src (\<lambda>w. sll32 w n) ctx
      | Srl32 \<Rightarrow> shift_each E dst src (\<lambda>w. srl32 w n) ctx
      | Sra32 \<Rightarrow> shift_each E dst src (\<lambda>w. sra32 w n) ctx
      | Rotr32 \<Rightarrow> shift_each E dst src (\<lambda>w. rotr32 w n) ctx);
    Some (bs, ctx)
  }"

section \<open>Arithmetic\<close>

definition exec_iadd_cin_cout :: "'c eval_context \<Rightarrow> u8 list \<Rightarrow> 'c \<Rightarrow> (u8 list \<times> 'c) option" where
  "exec_iadd_cin_cout E bs ctx = do {
    (dst_sum, bs) \<leftarrow> read_reg bs;
    (dst_cout, bs) \<leftarrow> read_reg bs;
    (src1, bs) \<leftarrow> read_reg bs;
    (src2, bs) \<leftarrow> read_reg bs;
    (cin, bs) \<leftarrow> read_reg bs;
    ctx \<leftarrow> each_instance E (\<lambda>i ctx. do {
      c \<leftarrow> ctx_load E ctx cin i;
      let cin_bit = shr c 63;
      x \<leftarrow> ctx_load E ctx src1 i;
      y \<leftarrow> ctx_load E ctx src2 i;
      let (s, cout) = iadd_cin_cout x y cin_bit;
      ctx \<leftarrow> ctx_store E ctx dst_sum i s;
      ctx_store E ctx dst_cout i cout
    }) ctx;
    Some (bs, ctx)
  }"

definition exec_iadd_carry :: "'c eval_context \<Rightarrow> u8 list \<Rightarrow> 'c \<Rightarrow> (u8 list \<times> 'c) option" where
  "exec_iadd_carry E bs ctx = do {
    (dst_cout, bs) \<leftarrow> read_reg bs;
    (src1, bs) \<leftarrow> read_reg bs;
    (src2, bs) \<leftarrow> read_reg bs;
    ctx \<leftarrow> each_instance E (\<lambda>i ctx. do {
      x \<leftarrow> ctx_load E ctx src1 i;
      y \<leftarrow> ctx_load E ctx src2 i;
      let (_, cout) = iadd_cin_cout x y ZERO;
      ctx_store E ctx dst_cout i cout
    }) ctx;
    Some (bs, ctx)
  }"

definition exec_isub_bin_bout :: "'c eval_context \<Rightarrow> u8 list \<Rightarrow> 'c \<Rightarrow> (u8 list \<times> 'c) option" where
  "exec_isub_bin_bout E bs ctx = do {
    (dst_diff, bs) \<leftarrow> read_reg bs;
    (dst_bout, bs) \<leftarrow> read_reg bs;
    (src1, bs) \<leftarrow> read_reg bs;
    (src2, bs) \<leftarrow> read_reg bs;
    (bin, bs) \<leftarrow> read_reg bs;
    ctx \<leftarrow> each_instance E (\<lambda>i ctx. do {
      b \<leftarrow> ctx_load E ctx bin i;
      let bin_bit = shr b 63;
      x \<leftarrow> ctx_load E ctx src1 i;
      y \<leftarrow> ctx_load E ctx src2 i;
      let (diff, bout) = isub_bin_bout x y bin_bit;
      ctx \<leftarrow> ctx_store E ctx dst_diff i diff;
      ctx_store E ctx dst_bout i bout
    }) ctx;
    Some (bs, ctx)
  }"

definition exec_imul :: "'c eval_context \<Rightarrow> u8 list \<Rightarrow> 'c \<Rightarrow> (u8 list \<times> 'c) option" where
  "exec_imul E bs ctx = do {
    (dst_hi, bs) \<leftarrow> read_reg bs;
    (dst_lo, bs) \<leftarrow> read_reg bs;
    (src1, bs) \<leftarrow> read_reg bs;
    (src2, bs) \<leftarrow> read_reg bs;
    ctx \<leftarrow> each_instance E (\<lambda>i ctx. do {
      x \<leftarrow> ctx_load E ctx src1 i;
      y \<leftarrow> ctx_load E ctx src2 i;
      let (hi, lo) = imul x y;
      ctx \<leftarrow> ctx_store E ctx dst_hi i hi;
      ctx_store E ctx dst_lo i lo
    }) ctx;
    Some (bs, ctx)
  }"

definition exec_bmul :: "'c eval_context \<Rightarrow> u8 list \<Rightarrow> 'c \<Rightarrow> (u8 list \<times> 'c) option" where
  "exec_bmul E bs ctx = do {
    (dst_lo, bs) \<leftarrow> read_reg bs;
    (dst_hi, bs) \<leftarrow> read_reg bs;
    (a_lo, bs) \<leftarrow> read_reg bs;
    (a_hi, bs) \<leftarrow> read_reg bs;
    (b_lo, bs) \<leftarrow> read_reg bs;
    (b_hi, bs) \<leftarrow> read_reg bs;
    ctx \<leftarrow> each_instance E (\<lambda>i ctx. do {
      al \<leftarrow> ctx_load E ctx a_lo i;
      ah \<leftarrow> ctx_load E ctx a_hi i;
      bl \<leftarrow> ctx_load E ctx b_lo i;
      bh \<leftarrow> ctx_load E ctx b_hi i;
      let (lo, hi) = ghash_mul_words al ah bl bh;
      ctx \<leftarrow> ctx_store E ctx dst_lo i lo;
      ctx_store E ctx dst_hi i hi
    }) ctx;
    Some (bs, ctx)
  }"

definition exec_iadd32_cin_cout :: "'c eval_context \<Rightarrow> u8 list \<Rightarrow> 'c \<Rightarrow> (u8 list \<times> 'c) option" where
  "exec_iadd32_cin_cout E bs ctx = do {
    (dst_sum, bs) \<leftarrow> read_reg bs;
    (dst_cout, bs) \<leftarrow> read_reg bs;
    (src1, bs) \<leftarrow> read_reg bs;
    (src2, bs) \<leftarrow> read_reg bs;
    (cin, bs) \<leftarrow> read_reg bs;
    ctx \<leftarrow> each_instance E (\<lambda>i ctx. do {
      x \<leftarrow> ctx_load E ctx src1 i;
      y \<leftarrow> ctx_load E ctx src2 i;
      c \<leftarrow> ctx_load E ctx cin i;
      let (s, cout) = iadd32_cin_cout x y c;
      ctx \<leftarrow> ctx_store E ctx dst_sum i s;
      ctx_store E ctx dst_cout i cout
    }) ctx;
    Some (bs, ctx)
  }"

definition exec_iadd32_cout :: "'c eval_context \<Rightarrow> u8 list \<Rightarrow> 'c \<Rightarrow> (u8 list \<times> 'c) option" where
  "exec_iadd32_cout E bs ctx = do {
    (dst_sum, bs) \<leftarrow> read_reg bs;
    (dst_cout, bs) \<leftarrow> read_reg bs;
    (src1, bs) \<leftarrow> read_reg bs;
    (src2, bs) \<leftarrow> read_reg bs;
    ctx \<leftarrow> each_instance E (\<lambda>i ctx. do {
      x \<leftarrow> ctx_load E ctx src1 i;
      y \<leftarrow> ctx_load E ctx src2 i;
      let (s, cout) = iadd_cout_32 x y;
      ctx \<leftarrow> ctx_store E ctx dst_sum i s;
      ctx_store E ctx dst_cout i cout
    }) ctx;
    Some (bs, ctx)
  }"

section \<open>Assertions\<close>

definition exec_assert_eq :: "'c eval_context \<Rightarrow> u8 list \<Rightarrow> 'c \<Rightarrow> (u8 list \<times> 'c) option" where
  "exec_assert_eq E bs ctx = do {
    (src1, bs) \<leftarrow> read_reg bs;
    (src2, bs) \<leftarrow> read_reg bs;
    (path, bs) \<leftarrow> read_path_spec bs;
    ctx \<leftarrow> each_instance E (\<lambda>i ctx. do {
      val1 \<leftarrow> ctx_load E ctx src1 i;
      val2 \<leftarrow> ctx_load E ctx src2 i;
      Some (if val1 \<noteq> val2 then ctx_note_assertion_failure E ctx i path (NotEqual val1 val2) else ctx)
    }) ctx;
    Some (bs, ctx)
  }"

definition exec_assert_eq_cond :: "'c eval_context \<Rightarrow> u8 list \<Rightarrow> 'c \<Rightarrow> (u8 list \<times> 'c) option" where
  "exec_assert_eq_cond E bs ctx = do {
    (cond, bs) \<leftarrow> read_reg bs;
    (src1, bs) \<leftarrow> read_reg bs;
    (src2, bs) \<leftarrow> read_reg bs;
    (path, bs) \<leftarrow> read_path_spec bs;
    ctx \<leftarrow> each_instance E (\<lambda>i ctx. do {
      c \<leftarrow> ctx_load E ctx cond i;
      if is_msb_true c
      then do {
        val1 \<leftarrow> ctx_load E ctx src1 i;
        val2 \<leftarrow> ctx_load E ctx src2 i;
        Some (if val1 \<noteq> val2 then ctx_note_assertion_failure E ctx i path (CondNotEqual val1 val2) else ctx)
      }
      else Some ctx
    }) ctx;
    Some (bs, ctx)
  }"

definition exec_assert_zero :: "'c eval_context \<Rightarrow> u8 list \<Rightarrow> 'c \<Rightarrow> (u8 list \<times> 'c) option" where
  "exec_assert_zero E bs ctx = do {
    (src, bs) \<leftarrow> read_reg bs;
    (path, bs) \<leftarrow> read_path_spec bs;
    ctx \<leftarrow> each_instance E (\<lambda>i ctx. do {
      val \<leftarrow> ctx_load E ctx src i;
      Some (if val \<noteq> ZERO then ctx_note_assertion_failure E ctx i path (NotZero val) else ctx)
    }) ctx;
    Some (bs, ctx)
  }"

definition exec_assert_non_zero :: "'c eval_context \<Rightarrow> u8 list \<Rightarrow> 'c \<Rightarrow> (u8 list \<times> 'c) option" where
  "exec_assert_non_zero E bs ctx = do {
    (src, bs) \<leftarrow> read_reg bs;
    (path, bs) \<leftarrow> read_path_spec bs;
    ctx \<leftarrow> each_instance E (\<lambda>i ctx. do {
      val \<leftarrow> ctx_load E ctx src i;
      Some (if val = ZERO then ctx_note_assertion_failure E ctx i path (IsZero val) else ctx)
    }) ctx;
    Some (bs, ctx)
  }"

definition exec_assert_false :: "'c eval_context \<Rightarrow> u8 list \<Rightarrow> 'c \<Rightarrow> (u8 list \<times> 'c) option" where
  "exec_assert_false E bs ctx = do {
    (src, bs) \<leftarrow> read_reg bs;
    (path, bs) \<leftarrow> read_path_spec bs;
    ctx \<leftarrow> each_instance E (\<lambda>i ctx. do {
      val \<leftarrow> ctx_load E ctx src i;
      Some (if is_msb_true val then ctx_note_assertion_failure E ctx i path (MsbIsTrue val) else ctx)
    }) ctx;
    Some (bs, ctx)
  }"

definition exec_assert_true :: "'c eval_context \<Rightarrow> u8 list \<Rightarrow> 'c \<Rightarrow> (u8 list \<times> 'c) option" where
  "exec_assert_true E bs ctx = do {
    (src, bs) \<leftarrow> read_reg bs;
    (path, bs) \<leftarrow> read_path_spec bs;
    ctx \<leftarrow> each_instance E (\<lambda>i ctx. do {
      val \<leftarrow> ctx_load E ctx src i;
      Some (if is_msb_false val then ctx_note_assertion_failure E ctx i path (MsbIsFalse val) else ctx)
    }) ctx;
    Some (bs, ctx)
  }"

section \<open>Hints\<close>

fun load_each :: "'c eval_context \<Rightarrow> 'c \<Rightarrow> nat \<Rightarrow> u32 list \<Rightarrow> u64 list option" where
  "load_each E ctx i [] = Some []"
| "load_each E ctx i (reg # regs) = do {
    x \<leftarrow> ctx_load E ctx reg i;
    xs \<leftarrow> load_each E ctx i regs;
    Some (x # xs)
  }"

text \<open>A store stops with the shorter of the registers and the words.\<close>

fun store_each :: "'c eval_context \<Rightarrow> nat \<Rightarrow> u32 list \<Rightarrow> u64 list \<Rightarrow> 'c \<Rightarrow> 'c option" where
  "store_each E i (reg # regs) (w # ws) ctx = Option.bind (ctx_store E ctx reg i w) (store_each E i regs ws)"
| "store_each E i regs ws ctx = Some ctx"

text \<open>The output slice is one buffer, reused from instance to instance.\<close>

fun hint_instances :: "'c eval_context \<Rightarrow> hint_registry \<Rightarrow> hint_id \<Rightarrow> nat list \<Rightarrow> u32 list \<Rightarrow> u32 list \<Rightarrow>
    nat list \<Rightarrow> u64 list \<Rightarrow> 'c \<Rightarrow> 'c option" where
  "hint_instances E hints hid dims input_regs output_regs [] outputs ctx = Some ctx"
| "hint_instances E hints hid dims input_regs output_regs (i # is') outputs ctx = do {
    inputs \<leftarrow> load_each E ctx i input_regs;
    outputs \<leftarrow> reg_execute hints hid dims inputs outputs;
    ctx \<leftarrow> store_each E i output_regs outputs ctx;
    hint_instances E hints hid dims input_regs output_regs is' outputs ctx
  }"

definition exec_hint :: "'c eval_context \<Rightarrow> hint_registry \<Rightarrow> u8 list \<Rightarrow> 'c \<Rightarrow> (u8 list \<times> 'c) option" where
  "exec_hint E hints bs ctx = do {
    (hid, bs) \<leftarrow> read_u32 bs;
    (n_dimensions, bs) \<leftarrow> read_u32 bs;
    (dims, bs) \<leftarrow> read_many read_u32 (unat n_dimensions) bs;
    (n_inputs, bs) \<leftarrow> read_u32 bs;
    (n_outputs, bs) \<leftarrow> read_u32 bs;
    (input_regs, bs) \<leftarrow> read_many read_reg (unat n_inputs) bs;
    (output_regs, bs) \<leftarrow> read_many read_reg (unat n_outputs) bs;
    ctx \<leftarrow> hint_instances E hints hid (map unat dims) input_regs output_regs [0..<ctx_n_instances E ctx]
      (replicate (unat n_outputs) ZERO) ctx;
    Some (bs, ctx)
  }"

section \<open>The dispatch loop\<close>

fun exec_opcode :: "'c eval_context \<Rightarrow> hint_registry \<Rightarrow> eval_opcode \<Rightarrow> u8 list \<Rightarrow> 'c \<Rightarrow> (u8 list \<times> 'c) option" where
  "exec_opcode E hints EBand = exec_band E"
| "exec_opcode E hints EBor = exec_bor E"
| "exec_opcode E hints EBxor = exec_bxor E"
| "exec_opcode E hints ESelect = exec_select E"
| "exec_opcode E hints EBxorMulti = exec_bxor_multi E"
| "exec_opcode E hints EFax = exec_fax E"
| "exec_opcode E hints EShift = exec_shift E"
| "exec_opcode E hints EIaddCinCout = exec_iadd_cin_cout E"
| "exec_opcode E hints EIaddCarry = exec_iadd_carry E"
| "exec_opcode E hints EIsubBinBout = exec_isub_bin_bout E"
| "exec_opcode E hints EImul = exec_imul E"
| "exec_opcode E hints EBmul = exec_bmul E"
| "exec_opcode E hints EIadd32CinCout = exec_iadd32_cin_cout E"
| "exec_opcode E hints EIadd32Cout = exec_iadd32_cout E"
| "exec_opcode E hints EAssertEq = exec_assert_eq E"
| "exec_opcode E hints EAssertEqCond = exec_assert_eq_cond E"
| "exec_opcode E hints EAssertZero = exec_assert_zero E"
| "exec_opcode E hints EAssertNonZero = exec_assert_non_zero E"
| "exec_opcode E hints EAssertFalse = exec_assert_false E"
| "exec_opcode E hints EAssertTrue = exec_assert_true E"
| "exec_opcode E hints EHint = exec_hint E hints"

definition exec_next :: "'c eval_context \<Rightarrow> hint_registry \<Rightarrow> u8 list \<Rightarrow> 'c \<Rightarrow> (u8 list \<times> 'c) option" where
  "exec_next E hints bs ctx = do {
    (byte, bs) \<leftarrow> read_u8 bs;
    opcode \<leftarrow> opcode_from_byte byte;
    exec_opcode E hints opcode bs ctx
  }"

text \<open>Every read moves the cursor on, so the loop ends.\<close>

lemma read_u8_shorter: "read_u8 bs = Some (x, rest) \<Longrightarrow> length rest < length bs"
  by (cases bs) (auto simp: read_u8_def)

lemma read_u32_shorter: "read_u32 bs = Some (x, rest) \<Longrightarrow> length rest \<le> length bs"
  by (auto simp: read_u32_def read_bytes_def split: if_splits)

lemma read_reg_shorter: "read_reg bs = Some (x, rest) \<Longrightarrow> length rest \<le> length bs"
  by (auto simp: read_reg_def read_u32_shorter)

lemma read_path_spec_shorter: "read_path_spec bs = Some (x, rest) \<Longrightarrow> length rest \<le> length bs"
  by (auto simp: read_path_spec_def read_u32_shorter)

lemma read_many_shorter:
  assumes "\<And>bs x rest. rd bs = Some (x, rest) \<Longrightarrow> length rest \<le> length bs"
  shows "read_many rd n bs = Some (xs, rest) \<Longrightarrow> length rest \<le> length bs"
proof (induction n arbitrary: bs xs)
  case (Suc n)
  then show ?case using assms by (fastforce simp: bind_eq_Some_conv dest: le_trans)
qed simp

lemma read_regs_shorter: "read_many read_reg n bs = Some (xs, rest) \<Longrightarrow> length rest \<le> length bs"
  by (rule read_many_shorter[of read_reg]) (rule read_reg_shorter)

lemma read_u32s_shorter: "read_many read_u32 n bs = Some (xs, rest) \<Longrightarrow> length rest \<le> length bs"
  by (rule read_many_shorter[of read_u32]) (rule read_u32_shorter)

lemmas shorter = read_u8_shorter read_u32_shorter read_reg_shorter read_path_spec_shorter
  read_regs_shorter read_u32s_shorter

lemmas exec_defs = exec_band_def exec_bor_def exec_bxor_def exec_select_def exec_bxor_multi_def exec_fax_def
  exec_shift_def exec_iadd_cin_cout_def exec_iadd_carry_def exec_isub_bin_bout_def exec_imul_def exec_bmul_def
  exec_iadd32_cin_cout_def exec_iadd32_cout_def exec_assert_eq_def exec_assert_eq_cond_def exec_assert_zero_def
  exec_assert_non_zero_def exec_assert_false_def exec_assert_true_def exec_hint_def

lemma exec_opcode_shorter: "exec_opcode E hints op bs ctx = Some (rest, ctx') \<Longrightarrow> length rest \<le> length bs"
  by (cases op; simp add: exec_defs Let_def; elim bind_eq_Some_conv[THEN iffD1, THEN exE] conjE;
      auto simp: bind_eq_Some_conv dest!: shorter)

lemma exec_next_shorter: "exec_next E hints bs ctx = Some (rest, ctx') \<Longrightarrow> length rest < length bs"
  by (auto simp: exec_next_def bind_eq_Some_conv dest!: exec_opcode_shorter read_u8_shorter)

function run :: "'c eval_context \<Rightarrow> hint_registry \<Rightarrow> u8 list \<Rightarrow> 'c \<Rightarrow> 'c option" where
  "run E hints bs ctx =
    (if bs = [] then Some ctx
     else case exec_next E hints bs ctx of
         None \<Rightarrow> None
       | Some (bs, ctx) \<Rightarrow> run E hints bs ctx)"
  by pat_completeness auto
termination
  by (relation "measure (\<lambda>(E, hints, bs, ctx). length bs)") (auto dest: exec_next_shorter)

declare run.simps [simp del]

end
