(* ===== verification/Eval_Semantics.thy ===== *)
theory Eval_Semantics
  imports Executor
begin

text \<open>
  What a bytecode program does to one instance, and the proof that the dispatch loop does it to
  every instance of any context that keeps its registers: the contract of the trait \<open>EvalContext\<close>
  is a locale, which the two contexts of the sources interpret.
\<close>

section \<open>One instance\<close>

type_synonym regfile = "u32 \<Rightarrow> u64 option"

fun calc :: "eval_opcode \<Rightarrow> u64 list \<Rightarrow> u64 list" where
  "calc EBand xs = (case xs of [x, y] \<Rightarrow> [x AND y] | _ \<Rightarrow> [])"
| "calc EBor xs = (case xs of [x, y] \<Rightarrow> [x OR y] | _ \<Rightarrow> [])"
| "calc EBxor xs = (case xs of [x, y] \<Rightarrow> [x XOR y] | _ \<Rightarrow> [])"
| "calc ESelect xs = (case xs of [c, t, f] \<Rightarrow> [if is_msb_true c then t else f] | _ \<Rightarrow> [])"
| "calc EFax xs = (case xs of [x, y, w] \<Rightarrow> [(x AND y) XOR w] | _ \<Rightarrow> [])"
| "calc EIaddCinCout xs = (case xs of [x, y, c] \<Rightarrow> (case iadd_cin_cout x y (shr c 63) of (s, cout) \<Rightarrow> [s, cout]) | _ \<Rightarrow> [])"
| "calc EIaddCarry xs = (case xs of [x, y] \<Rightarrow> [snd (iadd_cin_cout x y ZERO)] | _ \<Rightarrow> [])"
| "calc EIsubBinBout xs = (case xs of [x, y, b] \<Rightarrow> (case isub_bin_bout x y (shr b 63) of (d, bout) \<Rightarrow> [d, bout]) | _ \<Rightarrow> [])"
| "calc EImul xs = (case xs of [x, y] \<Rightarrow> (case imul x y of (hi, lo) \<Rightarrow> [hi, lo]) | _ \<Rightarrow> [])"
| "calc EBmul xs = (case xs of [al, ah, bl, bh] \<Rightarrow> (case ghash_mul_words al ah bl bh of (lo, hi) \<Rightarrow> [lo, hi]) | _ \<Rightarrow> [])"
| "calc EIadd32CinCout xs = (case xs of [x, y, c] \<Rightarrow> (case iadd32_cin_cout x y c of (s, cout) \<Rightarrow> [s, cout]) | _ \<Rightarrow> [])"
| "calc EIadd32Cout xs = (case xs of [x, y] \<Rightarrow> (case iadd_cout_32 x y of (s, cout) \<Rightarrow> [s, cout]) | _ \<Rightarrow> [])"
| "calc _ _ = []"

fun check :: "eval_opcode \<Rightarrow> u64 list \<Rightarrow> violation option" where
  "check EAssertEq xs = (case xs of [x, y] \<Rightarrow> (if x \<noteq> y then Some (NotEqual x y) else None) | _ \<Rightarrow> None)"
| "check EAssertEqCond xs = (case xs of [c, x, y] \<Rightarrow> (if is_msb_true c \<and> x \<noteq> y then Some (CondNotEqual x y) else None) | _ \<Rightarrow> None)"
| "check EAssertZero xs = (case xs of [x] \<Rightarrow> (if x \<noteq> ZERO then Some (NotZero x) else None) | _ \<Rightarrow> None)"
| "check EAssertNonZero xs = (case xs of [x] \<Rightarrow> (if x = ZERO then Some (IsZero x) else None) | _ \<Rightarrow> None)"
| "check EAssertFalse xs = (case xs of [x] \<Rightarrow> (if is_msb_true x then Some (MsbIsTrue x) else None) | _ \<Rightarrow> None)"
| "check EAssertTrue xs = (case xs of [x] \<Rightarrow> (if is_msb_false x then Some (MsbIsFalse x) else None) | _ \<Rightarrow> None)"
| "check _ _ = None"

text \<open>Registers written and read by a calculation, operands of a check.\<close>

fun calc_arity :: "eval_opcode \<Rightarrow> (nat \<times> nat) option" where
  "calc_arity EBand = Some (1, 2)"
| "calc_arity EBor = Some (1, 2)"
| "calc_arity EBxor = Some (1, 2)"
| "calc_arity ESelect = Some (1, 3)"
| "calc_arity EFax = Some (1, 3)"
| "calc_arity EIaddCinCout = Some (2, 3)"
| "calc_arity EIaddCarry = Some (1, 2)"
| "calc_arity EIsubBinBout = Some (2, 3)"
| "calc_arity EImul = Some (2, 2)"
| "calc_arity EBmul = Some (2, 4)"
| "calc_arity EIadd32CinCout = Some (2, 3)"
| "calc_arity EIadd32Cout = Some (2, 2)"
| "calc_arity _ = None"

fun check_arity :: "eval_opcode \<Rightarrow> nat option" where
  "check_arity EAssertEq = Some 2"
| "check_arity EAssertEqCond = Some 3"
| "check_arity EAssertZero = Some 1"
| "check_arity EAssertNonZero = Some 1"
| "check_arity EAssertFalse = Some 1"
| "check_arity EAssertTrue = Some 1"
| "check_arity _ = None"

fun writes :: "regfile \<Rightarrow> u32 list \<Rightarrow> u64 list \<Rightarrow> regfile" where
  "writes f (d # ds) (w # ws) = writes (f(d \<mapsto> w)) ds ws"
| "writes f ds ws = f"

abbreviation vals :: "regfile \<Rightarrow> u32 list \<Rightarrow> u64 list" where
  "vals f rs \<equiv> map (\<lambda>r. the (f r)) rs"

fun col_step :: "hint_registry \<Rightarrow> insn \<Rightarrow> regfile \<Rightarrow> regfile \<times> (path_spec \<times> violation) list" where
  "col_step hints (Calc op ds ss) f = (writes f ds (calc op (vals f ss)), [])"
| "col_step hints (CalcMulti d ss) f = (writes f [d] [foldl (XOR) ZERO (vals f ss)], [])"
| "col_step hints (CalcShift d s v n) f = (writes f [d] [variant_apply v (the (f s)) (unat n)], [])"
| "col_step hints (Check op ss path) f =
    (f, case check op (vals f ss) of None \<Rightarrow> [] | Some m \<Rightarrow> [(path, m)])"
| "col_step hints (CallHint hid dims ins outs) f =
    (writes f outs (the (reg_execute hints hid dims (vals f ins) (replicate (length outs) ZERO))), [])"

fun col_run :: "hint_registry \<Rightarrow> insn list \<Rightarrow> regfile \<Rightarrow> regfile \<times> (path_spec \<times> violation) list" where
  "col_run hints [] f = (f, [])"
| "col_run hints (i # is') f =
    (case col_step hints i f of (f, e) \<Rightarrow> case col_run hints is' f of (f, es) \<Rightarrow> (f, e @ es))"

text \<open>A well-formed instruction whose registers lie in \<open>R\<close>.\<close>

fun insn_ok :: "hint_registry \<Rightarrow> u32 set \<Rightarrow> insn \<Rightarrow> bool" where
  "insn_ok hints R (Calc op ds ss) \<longleftrightarrow> calc_arity op = Some (length ds, length ss) \<and> set ds \<subseteq> R \<and> set ss \<subseteq> R"
| "insn_ok hints R (CalcMulti d ss) \<longleftrightarrow> length ss < 2 ^ 32 \<and> d \<in> R \<and> set ss \<subseteq> R"
| "insn_ok hints R (CalcShift d s v n) \<longleftrightarrow> d \<in> R \<and> s \<in> R"
| "insn_ok hints R (Check op ss path) \<longleftrightarrow> check_arity op = Some (length ss) \<and> set ss \<subseteq> R"
| "insn_ok hints R (CallHint hid dims ins outs) \<longleftrightarrow> hints hid \<noteq> None \<and> length dims < 2 ^ 32 \<and>
    (\<forall>d \<in> set dims. d < 2 ^ 32) \<and> length ins < 2 ^ 32 \<and> length outs < 2 ^ 32 \<and> set ins \<subseteq> R \<and> set outs \<subseteq> R"

lemma dom_writes: "dom f \<subseteq> dom (writes f ds ws)"
proof (induction f ds ws rule: writes.induct)
  case (1 f d ds w ws)
  have "dom f \<subseteq> dom (f(d \<mapsto> w))" by auto
  then show ?case using 1 by (simp only: writes.simps)
qed auto

lemma dom_col_step: "dom f \<subseteq> dom (fst (col_step hints i f))"
  using dom_writes by (cases i) (simp_all only: col_step.simps fst_conv order_refl)

section \<open>Decoding what the emitters write\<close>

lemma read_u32_le [simp]: "read_u32 (le_bytes 4 w @ rest) = Some (w, rest)"
  by (simp add: read_u32_def read_bytes_def from_le_bytes)

lemma read_reg_le [simp]: "read_reg (le_bytes 4 w @ rest) = Some (w, rest)"
  by (simp add: read_reg_def)

lemma read_path_spec_le [simp]: "read_path_spec (le_bytes 4 w @ rest) = Some (w, rest)"
  by (simp add: read_path_spec_def)

lemma read_many_regs [simp]: "read_many read_reg (length rs) (regs_bytes rs @ rest) = Some (rs, rest)"
  by (induction rs) simp_all

lemma read_many_u32s [simp]: "read_many read_u32 (length rs) (regs_bytes rs @ rest) = Some (rs, rest)"
  by (induction rs) simp_all

lemma read_many_mapped [simp]:
  "read_many read_u32 (length xs) (regs_bytes (map f xs) @ rest) = Some (map f xs, rest)"
  by (induction xs) simp_all

lemma read_u8_Cons [simp]: "read_u8 (b # rest) = Some (b, rest)"
  by (simp add: read_u8_def)

lemma store_each_nil: "store_each E i [] [] = Some"
  by (rule ext) simp

lemma store_each_few: "store_each E i [] [] = Some" "store_each E i [e] [x] = (\<lambda>c. ctx_store E c e i x)"
  by (rule store_each_nil) (rule ext, simp add: store_each_nil)

lemma unat_u32 [simp]: "n < 2 ^ 32 \<Longrightarrow> unat (word_of_nat n :: u32) = n"
  by (simp add: unsigned_of_nat take_bit_nat_eq_self)

text \<open>With hints that keep their contract, the buffer is no state of the loop.\<close>

lemma hint_instances_for_each:
  assumes "hints hid = Some h" "hint_ok h" "length outputs = n"
  shows "hint_instances E hints hid dims ins outs is' outputs c =
    for_each (\<lambda>i c. Option.bind (load_each E c i ins)
      (\<lambda>inputs. store_each E i outs (hint_execute h dims inputs (replicate n 0)) c)) is' c"
  using assms(3)
proof (induction is' arbitrary: outputs c)
  case (Cons i is')
  have "hint_execute h dims inputs outputs = hint_execute h dims inputs (replicate n 0)"
    "length (hint_execute h dims inputs (replicate n 0)) = n" for inputs
    using assms(2) Cons.prems unfolding hint_ok_def by (metis, simp)
  then show ?case using Cons.IH by (simp add: reg_execute_def assms(1) cong: Option.bind_cong)
qed simp

section \<open>The contract of a context\<close>

locale eval_ctx =
  fixes E :: "'c eval_context"
    and valid :: "'c \<Rightarrow> bool"
    and regs :: "'c \<Rightarrow> nat \<Rightarrow> regfile"
    and log :: "'c \<Rightarrow> (nat \<times> path_spec \<times> violation) list \<Rightarrow> bool"
  assumes load: "valid c \<Longrightarrow> i < ctx_n_instances E c \<Longrightarrow> ctx_load E c r i = regs c i r"
    and store: "valid c \<Longrightarrow> i < ctx_n_instances E c \<Longrightarrow> r \<in> dom (regs c i) \<Longrightarrow>
      \<exists>c'. ctx_store E c r i v = Some c' \<and> valid c' \<and> ctx_n_instances E c' = ctx_n_instances E c \<and>
        regs c' = (regs c)(i := (regs c i)(r \<mapsto> v)) \<and> (\<forall>l. log c l \<longrightarrow> log c' l)"
    and note_failure: "valid c \<Longrightarrow> i < ctx_n_instances E c \<Longrightarrow>
      valid (ctx_note_assertion_failure E c i p m) \<and>
      ctx_n_instances E (ctx_note_assertion_failure E c i p m) = ctx_n_instances E c \<and>
      regs (ctx_note_assertion_failure E c i p m) = regs c \<and>
      (\<forall>l. log c l \<longrightarrow> log (ctx_note_assertion_failure E c i p m) (l @ [(i, p, m)]))"
begin

definition upd :: "'c \<Rightarrow> nat \<Rightarrow> regfile \<times> (path_spec \<times> violation) list \<Rightarrow> 'c \<Rightarrow> bool" where
  "upd c i res c' \<longleftrightarrow> valid c' \<and> ctx_n_instances E c' = ctx_n_instances E c \<and>
    regs c' = (regs c)(i := fst res) \<and> (\<forall>l. log c l \<longrightarrow> log c' (l @ map (Pair i) (snd res)))"

definition ran_all :: "'c \<Rightarrow> (regfile \<Rightarrow> regfile \<times> (path_spec \<times> violation) list) \<Rightarrow> 'c \<Rightarrow> bool" where
  "ran_all c g c' \<longleftrightarrow> valid c' \<and> ctx_n_instances E c' = ctx_n_instances E c \<and>
    (\<forall>i < ctx_n_instances E c. regs c' i = fst (g (regs c i))) \<and>
    (\<forall>l. log c l \<longrightarrow> log c' (l @ concat (map (\<lambda>i. map (Pair i) (snd (g (regs c i)))) [0..<ctx_n_instances E c])))"

lemma load_dom: "valid c \<Longrightarrow> i < ctx_n_instances E c \<Longrightarrow> r \<in> dom (regs c i) \<Longrightarrow>
  ctx_load E c r i = Some (the (regs c i r))"
  using load[of c i r] by auto

lemma load_each_ok: "valid c \<Longrightarrow> i < ctx_n_instances E c \<Longrightarrow> set rs \<subseteq> dom (regs c i) \<Longrightarrow>
  load_each E c i rs = Some (vals (regs c i) rs)"
  by (induction rs) (simp_all add: load_dom)

lemma xor_loads_ok: "valid c \<Longrightarrow> i < ctx_n_instances E c \<Longrightarrow> set rs \<subseteq> dom (regs c i) \<Longrightarrow>
  xor_loads E c i v rs = Some (foldl (XOR) v (vals (regs c i) rs))"
  by (induction rs arbitrary: v) (simp_all add: load_dom)

lemma store_each_ok:
  assumes "valid c" "i < ctx_n_instances E c" "set ds \<subseteq> dom (regs c i)"
  shows "\<exists>c'. store_each E i ds ws c = Some c' \<and> upd c i (writes (regs c i) ds ws, []) c'"
  using assms
proof (induction ds arbitrary: ws c)
  case Nil
  then show ?case by (simp add: upd_def)
next
  case (Cons d ds)
  show ?case
  proof (cases ws)
    case Nil
    then show ?thesis using Cons.prems by (simp add: upd_def)
  next
    case (Cons w ws')
    obtain c1 where c1: "ctx_store E c d i w = Some c1" "valid c1" "ctx_n_instances E c1 = ctx_n_instances E c"
      "regs c1 = (regs c)(i := (regs c i)(d \<mapsto> w))" "\<forall>l. log c l \<longrightarrow> log c1 l"
      using store[of c i d w] Cons.prems by auto
    have regs_i: "regs c1 i = (regs c i)(d \<mapsto> w)" using c1(4) by simp
    then have sub: "set ds \<subseteq> dom (regs c1 i)" using Cons.prems by auto
    obtain c2 where c2: "store_each E i ds ws' c1 = Some c2" "upd c1 i (writes (regs c1 i) ds ws', []) c2"
      using Cons.IH[OF c1(2) _ sub, of ws'] c1(3) Cons.prems by auto
    show ?thesis using c1 c2 regs_i Cons by (auto simp: upd_def)
  qed
qed

lemma store_1: "valid c \<Longrightarrow> i < ctx_n_instances E c \<Longrightarrow> d \<in> dom (regs c i) \<Longrightarrow>
  \<exists>c'. ctx_store E c d i w = Some c' \<and> upd c i (writes (regs c i) [d] [w], []) c'"
  using store_each_ok[of c i "[d]" "[w]"] by (simp add: store_each_few)

lemma store_2: "valid c \<Longrightarrow> i < ctx_n_instances E c \<Longrightarrow> d \<in> dom (regs c i) \<Longrightarrow> e \<in> dom (regs c i) \<Longrightarrow>
  \<exists>c'. Option.bind (ctx_store E c d i w) (\<lambda>c. ctx_store E c e i x) = Some c' \<and>
    upd c i (writes (regs c i) [d, e] [w, x], []) c'"
  using store_each_ok[of c i "[d, e]" "[w, x]"] by (simp add: store_each_few)

lemma note_ok: "valid c \<Longrightarrow> i < ctx_n_instances E c \<Longrightarrow>
  upd c i (regs c i, [(p, m)]) (ctx_note_assertion_failure E c i p m)"
  using note_failure[of c i p m] by (auto simp: upd_def)

lemma upd_nothing: "valid c \<Longrightarrow> upd c i (regs c i, []) c"
  by (simp add: upd_def)

lemma for_each_ok:
  assumes "valid c" "distinct is'" "set is' \<subseteq> {..<ctx_n_instances E c}"
    and body: "\<And>i c'. i \<in> set is' \<Longrightarrow> valid c' \<Longrightarrow> ctx_n_instances E c' = ctx_n_instances E c \<Longrightarrow>
      regs c' i = regs c i \<Longrightarrow> \<exists>c''. f i c' = Some c'' \<and> upd c' i (g (regs c i)) c''"
  shows "\<exists>c'. for_each f is' c = Some c' \<and> valid c' \<and> ctx_n_instances E c' = ctx_n_instances E c \<and>
    (\<forall>i. regs c' i = (if i \<in> set is' then fst (g (regs c i)) else regs c i)) \<and>
    (\<forall>l. log c l \<longrightarrow> log c' (l @ concat (map (\<lambda>i. map (Pair i) (snd (g (regs c i)))) is')))"
  using assms
proof (induction is' arbitrary: c)
  case Nil
  then show ?case by simp
next
  case (Cons i is')
  obtain c1 where c1: "f i c = Some c1" "upd c i (g (regs c i)) c1"
    using Cons.prems(4)[of i c] Cons.prems(1) by auto
  have u: "valid c1" "ctx_n_instances E c1 = ctx_n_instances E c" "regs c1 = (regs c)(i := fst (g (regs c i)))"
    "\<forall>l. log c l \<longrightarrow> log c1 (l @ map (Pair i) (snd (g (regs c i))))"
    using c1(2) by (auto simp: upd_def)
  have at_i: "regs c1 i = fst (g (regs c i))" and off_i: "\<And>j. j \<noteq> i \<Longrightarrow> regs c1 j = regs c j"
    using u(3) by simp_all
  have other: "regs c1 j = regs c j" if "j \<in> set is'" for j
    by (rule off_i) (use that Cons.prems(2) in auto)
  have "\<exists>c'. for_each f is' c1 = Some c' \<and> valid c' \<and> ctx_n_instances E c' = ctx_n_instances E c1 \<and>
    (\<forall>i. regs c' i = (if i \<in> set is' then fst (g (regs c1 i)) else regs c1 i)) \<and>
    (\<forall>l. log c1 l \<longrightarrow> log c' (l @ concat (map (\<lambda>i. map (Pair i) (snd (g (regs c1 i)))) is')))"
    by (rule Cons.IH) (use Cons.prems u(1,2) other in auto)
  then obtain c2 where c2: "for_each f is' c1 = Some c2" "valid c2" "ctx_n_instances E c2 = ctx_n_instances E c1"
    "\<forall>i. regs c2 i = (if i \<in> set is' then fst (g (regs c1 i)) else regs c1 i)"
    "\<forall>l. log c1 l \<longrightarrow> log c2 (l @ concat (map (\<lambda>i. map (Pair i) (snd (g (regs c1 i)))) is'))" by blast
  have same: "map (\<lambda>i. map (Pair i) (snd (g (regs c1 i)))) is' = map (\<lambda>i. map (Pair i) (snd (g (regs c i)))) is'"
    using other by simp
  have "regs c2 j = (if j \<in> set (i # is') then fst (g (regs c j)) else regs c j)" for j
    using c2(4) other at_i off_i[of j] Cons.prems(2) by auto
  moreover have "log c2 (l @ concat (map (\<lambda>i. map (Pair i) (snd (g (regs c i)))) (i # is')))" if "log c l" for l
  proof -
    have "log c1 (l @ map (Pair i) (snd (g (regs c i))))" using u(4) that by blast
    from c2(5)[unfolded same, rule_format, OF this] show ?thesis by simp
  qed
  ultimately show ?case using c1(1) c2(1,2,3) u(2) by simp
qed

lemma each_instance_ok:
  assumes "valid c"
    and "\<And>i c'. i < ctx_n_instances E c' \<Longrightarrow> valid c' \<Longrightarrow> ctx_n_instances E c' = ctx_n_instances E c \<Longrightarrow>
      regs c' i = regs c i \<Longrightarrow> \<exists>c''. f i c' = Some c'' \<and> upd c' i (g (regs c i)) c''"
  shows "\<exists>c'. each_instance E f c = Some c' \<and> ran_all c g c'"
  using for_each_ok[of c "[0..<ctx_n_instances E c]" f g] assms
  by (force simp: each_instance_def ran_all_def)

definition step_ok :: "hint_registry \<Rightarrow> insn \<Rightarrow> 'c \<Rightarrow> 'c option \<Rightarrow> bool" where
  "step_ok hints i c r \<longleftrightarrow> (\<exists>c'. r = Some c' \<and> ran_all c (col_step hints i) c')"

lemma each_step_ok:
  assumes "valid c" "insn_ok hints R i" "\<And>k. k < ctx_n_instances E c \<Longrightarrow> R \<subseteq> dom (regs c k)"
    and "\<And>k c'. k < ctx_n_instances E c' \<Longrightarrow> valid c' \<Longrightarrow> insn_ok hints (dom (regs c' k)) i \<Longrightarrow>
      \<exists>c''. f k c' = Some c'' \<and> upd c' k (col_step hints i (regs c' k)) c''"
  shows "step_ok hints i c (each_instance E f c)"
proof -
  have mono: "insn_ok hints R i \<Longrightarrow> R \<subseteq> R' \<Longrightarrow> insn_ok hints R' i" for R R' by (cases i) auto
  show ?thesis unfolding step_ok_def
  proof (rule each_instance_ok[OF assms(1)])
    fix k c' assume *: "k < ctx_n_instances E c'" "valid c'" "ctx_n_instances E c' = ctx_n_instances E c"
      "regs c' k = regs c k"
    have "insn_ok hints (dom (regs c' k)) i"
      by (rule mono[OF assms(2)]) (use assms(3)[of k] * in simp)
    then show "\<exists>c''. f k c' = Some c'' \<and> upd c' k (col_step hints i (regs c k)) c''"
      using assms(4)[of k c'] * by simp
  qed
qed

lemma finish:
  assumes "step_ok hints i c r"
  shows "\<exists>c'. Option.bind r (\<lambda>ctx. Some (rest, ctx)) = Some (rest, c') \<and> ran_all c (col_step hints i) c'"
  using assms by (auto simp: step_ok_def)

lemmas stores = store_1[simplified] store_2[simplified]

lemma exec_calc:
  assumes "valid c" "insn_ok hints R (Calc op ds ss)" "\<And>k. k < ctx_n_instances E c \<Longrightarrow> R \<subseteq> dom (regs c k)"
  shows "\<exists>c'. exec_next E hints (encode (Calc op ds ss) @ rest) c = Some (rest, c') \<and>
    ran_all c (col_step hints (Calc op ds ss)) c'"
proof -
  have n: "calc_arity op = Some (length ds, length ss)" using assms(2) by simp
  show ?thesis using assms n
    by (cases op; clarsimp simp: arity eq_commute[of _ "length _"] exec_next_def exec_defs simp del: opcode_byte.simps;
        intro finish each_step_ok[of c hints R]; (auto simp: load_dom stores split: prod.splits)?)
qed

lemma exec_calc_multi:
  assumes "valid c" "insn_ok hints R (CalcMulti d ss)" "\<And>k. k < ctx_n_instances E c \<Longrightarrow> R \<subseteq> dom (regs c k)"
  shows "\<exists>c'. exec_next E hints (encode (CalcMulti d ss) @ rest) c = Some (rest, c') \<and>
    ran_all c (col_step hints (CalcMulti d ss)) c'"
  using assms
  by (clarsimp simp: exec_next_def exec_defs simp del: opcode_byte.simps)
    (intro finish each_step_ok[of c hints R]; (auto simp: xor_loads_ok stores)?)

lemma exec_calc_shift:
  assumes "valid c" "insn_ok hints R (CalcShift d s v n)" "\<And>k. k < ctx_n_instances E c \<Longrightarrow> R \<subseteq> dom (regs c k)"
  shows "\<exists>c'. exec_next E hints (encode (CalcShift d s v n) @ rest) c = Some (rest, c') \<and>
    ran_all c (col_step hints (CalcShift d s v n)) c'"
proof -
  have "unat n < 2 ^ 32" using unsigned_less[of n, where 'a = nat] by simp
  then have n: "variant_apply u w (unat n) = dispatch u (unat n) (shift_one_word w)" for u w
    by (simp add: variant_apply_def)
  have "step_ok hints (CalcShift d s v n) c (shift_each E d s (\<lambda>w. variant_apply v w (unat n)) c)"
    unfolding shift_each_def
    by (rule each_step_ok[OF assms(1,2,3)]) (auto simp: load_dom stores)
  note fin = finish[OF this, of rest]
  show ?thesis
    using fin by (cases v) (simp_all add: exec_next_def exec_shift_def n shift_one_word_def variant_from_u8_def Let_def del: opcode_byte.simps)
qed

lemma exec_check:
  assumes "valid c" "insn_ok hints R (Check op ss path)" "\<And>k. k < ctx_n_instances E c \<Longrightarrow> R \<subseteq> dom (regs c k)"
  shows "\<exists>c'. exec_next E hints (encode (Check op ss path) @ rest) c = Some (rest, c') \<and>
    ran_all c (col_step hints (Check op ss path)) c'"
proof -
  have n: "check_arity op = Some (length ss)" using assms(2) by simp
  show ?thesis using assms n
    by (cases op; clarsimp simp: arity eq_commute[of _ "length _"] exec_next_def exec_defs simp del: opcode_byte.simps;
        intro finish each_step_ok[of c hints R]; (auto simp: load_dom note_ok upd_nothing)?)
qed

lemma exec_call_hint:
  assumes "valid c" "insn_ok hints R (CallHint hid dims ins outs)" "\<And>k. k < ctx_n_instances E c \<Longrightarrow> R \<subseteq> dom (regs c k)"
    and "registry_ok hints"
  shows "\<exists>c'. exec_next E hints (encode (CallHint hid dims ins outs) @ rest) c = Some (rest, c') \<and>
    ran_all c (col_step hints (CallHint hid dims ins outs)) c'"
proof -
  obtain h where h: "hints hid = Some h" using assms(2) by auto
  then have ok: "hint_ok h" using assms(4) by (auto simp: registry_ok_def Map.ran_def)
  have dims: "map (unat \<circ> (word_of_nat :: nat \<Rightarrow> u32)) dims = dims"
    by (rule map_idI) (use assms(2) in simp)
  have body: "step_ok hints (CallHint hid dims ins outs) c
    (hint_instances E hints hid dims ins outs [0..<ctx_n_instances E c] (replicate (length outs) ZERO) c)"
    unfolding hint_instances_for_each[of hints hid h, OF h ok, of "replicate (length outs) ZERO" "length outs", simplified]
      each_instance_def[symmetric]
    by (rule each_step_ok[OF assms(1,2,3)])
      (auto simp: load_each_ok reg_execute_def h ZERO_def intro!: store_each_ok)
  show ?thesis using assms(2)
    by (clarsimp simp: exec_next_def exec_hint_def dims simp del: opcode_byte.simps) (rule finish[OF body])
qed

lemma exec_insn:
  assumes "valid c" "insn_ok hints R i" "\<And>k. k < ctx_n_instances E c \<Longrightarrow> R \<subseteq> dom (regs c k)" "registry_ok hints"
  shows "\<exists>c'. exec_next E hints (encode i @ rest) c = Some (rest, c') \<and> ran_all c (col_step hints i) c'"
proof (cases i)
  case Calc
  show ?thesis unfolding Calc by (rule exec_calc[OF assms(1) assms(2)[unfolded Calc] assms(3)])
next
  case CalcMulti
  show ?thesis unfolding CalcMulti by (rule exec_calc_multi[OF assms(1) assms(2)[unfolded CalcMulti] assms(3)])
next
  case CalcShift
  show ?thesis unfolding CalcShift by (rule exec_calc_shift[OF assms(1) assms(2)[unfolded CalcShift] assms(3)])
next
  case Check
  show ?thesis unfolding Check by (rule exec_check[OF assms(1) assms(2)[unfolded Check] assms(3)])
next
  case CallHint
  show ?thesis unfolding CallHint by (rule exec_call_hint[OF assms(1) assms(2)[unfolded CallHint] assms(3,4)])
qed

text \<open>A whole program: every instance's registers are run through it, and the failures of an instance
  are those its own run reports, in order.\<close>

definition finished :: "'c \<Rightarrow> hint_registry \<Rightarrow> insn list \<Rightarrow> 'c \<Rightarrow> bool" where
  "finished c hints prog c' \<longleftrightarrow> valid c' \<and> ctx_n_instances E c' = ctx_n_instances E c \<and>
    (\<forall>i < ctx_n_instances E c. regs c' i = fst (col_run hints prog (regs c i))) \<and>
    (\<forall>l. log c l \<longrightarrow> (\<exists>l'. log c' (l @ l') \<and> fst ` set l' \<subseteq> {..<ctx_n_instances E c} \<and>
      (\<forall>i < ctx_n_instances E c. map snd (filter (\<lambda>e. fst e = i) l') = snd (col_run hints prog (regs c i)))))"

lemma filter_instances:
  "map snd (filter (\<lambda>e. fst e = i) (concat (map (\<lambda>j. map (Pair j) (h j)) [0..<n]))) = (if i < n then h i else [])"
proof (induction n)
  case (Suc n)
  then show ?case by (cases "i = n") (simp_all add: filter_map comp_def less_Suc_eq)
qed simp

lemma finished_Cons:
  assumes step: "ran_all c (col_step hints i) c1" and rest: "finished c1 hints prog c2"
  shows "finished c hints (i # prog) c2"
proof -
  let ?n = "ctx_n_instances E c"
  let ?A = "concat (map (\<lambda>k. map (Pair k) (snd (col_step hints i (regs c k)))) [0..<?n])"
  have n: "ctx_n_instances E c1 = ?n" using step by (simp add: ran_all_def)
  have r1: "regs c1 k = fst (col_step hints i (regs c k))" if "k < ?n" for k
    using step that by (simp add: ran_all_def)
  have run_Cons: "col_run hints (i # prog) f = (fst (col_run hints prog (fst (col_step hints i f))),
      snd (col_step hints i f) @ snd (col_run hints prog (fst (col_step hints i f))))" for f
    by (simp add: split_def)
  have "\<exists>l'. log c2 (l @ l') \<and> fst ` set l' \<subseteq> {..<?n} \<and>
      (\<forall>k < ?n. map snd (filter (\<lambda>e. fst e = k) l') = snd (col_run hints (i # prog) (regs c k)))" if "log c l" for l
  proof -
    have "log c1 (l @ ?A)" using step that by (simp add: ran_all_def)
    then obtain l' where l': "log c2 ((l @ ?A) @ l')" "fst ` set l' \<subseteq> {..<?n}"
      "\<forall>k < ?n. map snd (filter (\<lambda>e. fst e = k) l') = snd (col_run hints prog (regs c1 k))"
      using rest unfolding finished_def n by blast
    have "fst ` set ?A \<subseteq> {..<?n}" by auto
    then show ?thesis
      using l' r1 by (intro exI[of _ "?A @ l'"]) (simp add: filter_instances run_Cons image_Un del: col_run.simps)
  qed
  note logs = this
  show ?thesis unfolding finished_def
  proof (intro conjI allI impI)
    show "valid c2" "ctx_n_instances E c2 = ?n" using rest n by (simp_all add: finished_def)
  next
    fix k assume "k < ?n"
    then show "regs c2 k = fst (col_run hints (i # prog) (regs c k))"
      using rest n r1 by (simp add: finished_def run_Cons del: col_run.simps)
  qed (rule logs)
qed

lemma run_insns:
  assumes "valid c" "\<forall>i \<in> set prog. insn_ok hints R i" "\<And>k. k < ctx_n_instances E c \<Longrightarrow> R \<subseteq> dom (regs c k)"
    and "registry_ok hints"
  shows "\<exists>c'. run E hints (concat (map encode prog)) c = Some c' \<and> finished c hints prog c'"
  using assms
proof (induction prog arbitrary: c)
  case Nil
  then show ?case by (auto simp: run.simps finished_def intro!: exI[of _ "[]"])
next
  case (Cons i prog)
  obtain c1 where c1: "exec_next E hints (encode i @ concat (map encode prog)) c = Some (concat (map encode prog), c1)"
    "ran_all c (col_step hints i) c1"
    using exec_insn[OF Cons.prems(1) _ Cons.prems(3,4), of i] Cons.prems(2) by fastforce
  have "encode i \<noteq> []" by (cases i) simp_all
  then have step: "run E hints (concat (map encode (i # prog))) c = run E hints (concat (map encode prog)) c1"
    using c1(1) by (subst run.simps) simp
  have dom: "R \<subseteq> dom (regs c1 k)" if "k < ctx_n_instances E c1" for k
    using c1(2) that Cons.prems(3)[of k] dom_col_step[of "regs c k" hints i] by (auto simp: ran_all_def)
  obtain c2 where c2: "run E hints (concat (map encode prog)) c1 = Some c2" "finished c1 hints prog c2"
    using Cons.IH[of c1] Cons.prems c1(2) dom by (auto simp: ran_all_def)
  have "finished c hints (i # prog) c2"
    by (rule finished_Cons[OF c1(2) c2(2)])
  then show ?case using step c2(1) by auto
qed

end

end
