(* ===== verification/Path_Tree.thy ===== *)
theory Path_Tree
  imports Value_Vec "HOL-Library.Monad_Syntax"
begin

text \<open>
  The tree of circuit paths (\<open>ir/path.rs\<close>).  A name is its bytes; node offsets and lengths are the
  \<open>u32\<close> casts of the sources.  \<open>stringify_rec\<close> follows parents, which nothing in its type makes
  end: it is a partial function, and \<open>None\<close> is a run that does not return or that panics on a
  missing node or range.
\<close>

type_synonym path_id = u32

record path_node =
  node_start :: u32
  node_len :: u32
  node_parent :: path_id

record path_tree =
  tree_root :: path_id
  tree_nodes :: "path_node list"
  tree_names :: string

definition tree_new :: path_tree where
  "tree_new = \<lparr>tree_root = 0, tree_nodes = [\<lparr>node_start = 0, node_len = 0, node_parent = 0\<rparr>], tree_names = []\<rparr>"

definition tree_extend :: "path_tree \<Rightarrow> path_id \<Rightarrow> string \<Rightarrow> path_id \<times> path_tree" where
  "tree_extend t parent name =
    (let start = word_of_nat (length (tree_names t));
         t = t\<lparr>tree_names := tree_names t @ name\<rparr>
     in (word_of_nat (length (tree_nodes t)),
         t\<lparr>tree_nodes := tree_nodes t @
           [\<lparr>node_start = start, node_len = word_of_nat (length name), node_parent = parent\<rparr>]\<rparr>))"

partial_function (option) stringify_rec :: "path_tree \<Rightarrow> path_id \<Rightarrow> string \<Rightarrow> string option" where
  "stringify_rec t ls out =
    (if ls = tree_root t then Some out
     else do {
       node \<leftarrow> read_at (tree_nodes t) (unat ls);
       out \<leftarrow> stringify_rec t (node_parent node) out;
       let out = out @ ''.'';
       name \<leftarrow> slice (tree_names t) (unat (node_start node)) (unat (node_start node + node_len node));
       Some (out @ name)
     })"

definition tree_stringify :: "path_tree \<Rightarrow> path_id \<Rightarrow> string \<Rightarrow> string option" where
  "tree_stringify t ls out = stringify_rec t ls out"

definition tree_parent :: "path_tree \<Rightarrow> path_id \<Rightarrow> path_id option option" where
  "tree_parent t path =
    (if path = tree_root t then Some None
     else map_option (\<lambda>n. Some (node_parent n)) (read_at (tree_nodes t) (unat path)))"

section \<open>Trees grown from the root\<close>

definition node_ok :: "path_tree \<Rightarrow> nat \<Rightarrow> bool" where
  "node_ok t i \<longleftrightarrow> (let n = tree_nodes t ! i in
    unat (node_parent n) < i \<and> unat (node_start n) + unat (node_len n) \<le> length (tree_names t) \<and>
    unat (node_start n) + unat (node_len n) < 2 ^ 32)"

definition tree_wf :: "path_tree \<Rightarrow> bool" where
  "tree_wf t \<longleftrightarrow> tree_root t = 0 \<and> tree_nodes t \<noteq> [] \<and> (\<forall>i < length (tree_nodes t). 0 < i \<longrightarrow> node_ok t i)"

text \<open>The names on the way from the root, as the reference.\<close>

function path_names :: "path_tree \<Rightarrow> nat \<Rightarrow> string list" where
  "path_names t i =
    (if 0 < i \<and> i < length (tree_nodes t) \<and> node_ok t i
     then (let n = tree_nodes t ! i in
       path_names t (unat (node_parent n)) @ [take (unat (node_len n)) (drop (unat (node_start n)) (tree_names t))])
     else [])"
  by pat_completeness auto
termination by (relation "measure snd") (auto simp: node_ok_def Let_def)

declare path_names.simps [simp del]

definition rendered :: "string list \<Rightarrow> string" where
  "rendered names = concat (map (\<lambda>s. ''.'' @ s) names)"

lemma rendered_simps [simp]: "rendered [] = []" "rendered (xs @ [x]) = rendered xs @ ''.'' @ x"
  by (simp_all add: rendered_def)

lemma stringify_names:
  assumes "tree_wf t" "unat ls < length (tree_nodes t)"
  shows "tree_stringify t ls out = Some (out @ rendered (path_names t (unat ls)))"
  using assms(2)
proof (induction "unat ls" arbitrary: ls out rule: less_induct)
  case less
  show ?case
  proof (cases "ls = 0")
    case True
    then show ?thesis using assms(1)
      by (simp add: tree_stringify_def stringify_rec.simps path_names.simps tree_wf_def)
  next
    case False
    let ?n = "tree_nodes t ! unat ls"
    have pos: "0 < unat ls" using False by (simp add: unat_gt_0)
    have ok: "node_ok t (unat ls)" and root: "tree_root t = 0" using assms(1) less.prems pos by (auto simp: tree_wf_def)
    then have p: "unat (node_parent ?n) < unat ls"
      "unat (node_start ?n) + unat (node_len ?n) \<le> length (tree_names t)"
      "unat (node_start ?n + node_len ?n) = unat (node_start ?n) + unat (node_len ?n)"
      by (auto simp: node_ok_def Let_def unat_add_lem[THEN iffD1])
    have "stringify_rec t (node_parent ?n) out =
        Some (out @ rendered (path_names t (unat (node_parent ?n))))"
      using less.hyps[OF p(1)] p(1) less.prems by (simp add: tree_stringify_def)
    then show ?thesis using False root less.prems pos ok p
      by (simp add: tree_stringify_def stringify_rec.simps[of t ls] path_names.simps[of t "unat ls"] read_at_def
          slice_def Let_def)
  qed
qed

lemma tree_extend_wf:
  assumes "tree_wf t" "unat parent < length (tree_nodes t)"
    and "length (tree_names t) + length name < 2 ^ 32"
  shows "tree_wf (snd (tree_extend t parent name))"
proof -
  let ?t = "snd (tree_extend t parent name)"
  have "node_ok ?t i" if "i < length (tree_nodes ?t)" "0 < i" for i
  proof (cases "i < length (tree_nodes t)")
    case True
    then have "node_ok t i" using assms(1) that by (simp add: tree_wf_def)
    then show ?thesis using True by (auto simp: node_ok_def tree_extend_def Let_def nth_append)
  next
    case False
    then have "i = length (tree_nodes t)" using that by (simp add: tree_extend_def Let_def)
    then show ?thesis using assms by (simp add: node_ok_def tree_extend_def Let_def unsigned_of_nat take_bit_nat_eq_self)
  qed
  then show ?thesis using assms(1) by (simp add: tree_wf_def) (simp add: tree_extend_def Let_def)
qed

lemma path_names_extend:
  assumes "tree_wf t" "i < length (tree_nodes t)"
  shows "path_names (snd (tree_extend t parent name)) i = path_names t i"
  using assms(2)
proof (induction i rule: less_induct)
  case (less i)
  let ?t = "snd (tree_extend t parent name)"
  have n: "tree_nodes ?t ! i = tree_nodes t ! i" "i < length (tree_nodes ?t)"
    using less.prems by (simp_all add: tree_extend_def Let_def nth_append)
  show ?case
  proof (cases "i = 0")
    case False
    then have ok: "node_ok t i" using assms(1) less.prems by (simp add: tree_wf_def)
    then have ok': "node_ok ?t i" using n by (auto simp: node_ok_def Let_def) (simp add: tree_extend_def Let_def)
    have "tree_names ?t = tree_names t @ name" by (simp add: tree_extend_def Let_def)
    then show ?thesis
      using False n ok ok' less.IH[of "unat (node_parent (tree_nodes t ! i))"] less.prems
      by (simp add: path_names.simps[of _ i] Let_def node_ok_def)
  qed (simp add: path_names.simps)
qed

section \<open>Property\<close>

text \<open>C27: Path rendering is stable and spells the names on the way from the root.  In a tree grown from the
  root, every path renders as the names on its way from the root, a dot before each; the root has no name
  and renders as nothing.  Extending a node with a name returns a fresh path, in a tree that is again grown
  from the root, whose parent is that node and whose names are the node's followed by the new one; every
  earlier path renders and has its parent as before.\<close>

theorem path_rendering_stable:
  assumes "tree_wf t" "unat parent < length (tree_nodes t)"
    and "length (tree_names t) + length name < 2 ^ 32" "length (tree_nodes t) < 2 ^ 32"
  shows "case tree_extend t parent name of (path, t') \<Rightarrow>
    tree_wf t' \<and> unat path = length (tree_nodes t) \<and>
    (\<forall>p. unat p < length (tree_nodes t') \<longrightarrow> tree_stringify t' p out = Some (out @ rendered (path_names t' (unat p)))) \<and>
    path_names t' (unat (tree_root t')) = [] \<and> tree_parent t' (tree_root t') = Some None \<and>
    path_names t' (unat path) = path_names t (unat parent) @ [name] \<and> tree_parent t' path = Some (Some parent) \<and>
    (\<exists>s. tree_stringify t parent out = Some s \<and> tree_stringify t' path out = Some (s @ ''.'' @ name)) \<and>
    (\<forall>p. unat p < length (tree_nodes t) \<longrightarrow>
      tree_stringify t' p out = tree_stringify t p out \<and> tree_parent t' p = tree_parent t p)"
proof -
  obtain path t' where e: "tree_extend t parent name = (path, t')" by (cases "tree_extend t parent name")
  have wf: "tree_wf t'" using tree_extend_wf[OF assms(1-3)] e by simp
  have path: "unat path = length (tree_nodes t)" and len: "length (tree_nodes t') = length (tree_nodes t) + 1"
    and root: "tree_root t = 0" "tree_root t' = 0"
    using e assms(1,4) wf by (auto simp: tree_extend_def Let_def unsigned_of_nat take_bit_nat_eq_self tree_wf_def)
  have old: "path_names t' i = path_names t i" if "i < length (tree_nodes t)" for i
    using path_names_extend[OF assms(1) that, of parent name] e by simp
  have pos: "node_ok t' (unat path)" "0 < unat path"
    using wf path len assms(1) by (simp_all add: tree_wf_def)
  have last: "tree_nodes t' ! unat path = \<lparr>node_start = word_of_nat (length (tree_names t)),
      node_len = word_of_nat (length name), node_parent = parent\<rparr>" "tree_names t' = tree_names t @ name"
    using e path by (auto simp: tree_extend_def Let_def)
  have "path_names t' (unat path) = path_names t' (unat parent) @ [name]"
    using assms(3) path len pos last by (simp add: path_names.simps[of t' "length (tree_nodes t)"] Let_def unsigned_of_nat take_bit_nat_eq_self)
  then have new: "path_names t' (unat path) = path_names t (unat parent) @ [name]"
    using old assms(2) by simp
  have all: "tree_stringify t' p out = Some (out @ rendered (path_names t' (unat p)))" if "unat p < length (tree_nodes t')" for p
    by (rule stringify_names[OF wf that])
  have "tree_parent t' path = Some (Some parent)"
    using pos(2) path len last(1) by (auto simp: tree_parent_def root read_at_def)
  moreover have "tree_parent t' p = tree_parent t p" if "unat p < length (tree_nodes t)" for p
  proof -
    have "tree_nodes t' ! unat p = tree_nodes t ! unat p" using e that by (auto simp: tree_extend_def Let_def nth_append)
    then show ?thesis using that len by (simp add: tree_parent_def root read_at_def)
  qed
  moreover have "path_names t' (unat (tree_root t')) = []" by (simp add: root path_names.simps)
  ultimately show ?thesis
    using wf path new stringify_names[OF assms(1,2)] stringify_names[OF assms(1)] all old len e
    by (simp add: tree_parent_def)
qed

theorem path_rendering_stable_witness:
  "case tree_extend tree_new 0 ''round'' of (path, t') \<Rightarrow>
    tree_wf t' \<and> path_names t' (unat path) = [''round''] \<and> tree_parent t' path = Some (Some 0) \<and>
    (\<exists>s. tree_stringify tree_new 0 [] = Some s \<and> tree_stringify t' path [] = Some (s @ ''.'' @ ''round''))"
proof -
  have "tree_wf tree_new" "length (tree_nodes tree_new) = 1" "tree_names tree_new = []" by (simp_all add: tree_wf_def tree_new_def)
  moreover have "path_names tree_new 0 = []" by (simp add: path_names.simps)
  ultimately show ?thesis using path_rendering_stable[of tree_new 0 "''round''" "[]"] by (auto simp: split_def)
qed

end
