(* ===== verification/Strided.thy ===== *)
theory Strided
  imports Value_Vec
begin

text \<open>
  The two-dimensional views of \<open>crates/utils/src/strided_array.rs\<close>: a row-major array seen through a
  range of its columns.  Indexing checks both bounds and then reads without a check, so the flat
  position is read with a check here, whose failure would be undefined behaviour.
\<close>

record 'a strided_view =
  sv_data :: "'a list"
  sv_data_width :: nat
  sv_height :: nat
  sv_cols :: "nat \<times> nat"

datatype strided_error = DimensionMismatch

definition sv_without_stride :: "'a list \<Rightarrow> nat \<Rightarrow> nat \<Rightarrow> (strided_error, 'a strided_view) outcome" where
  "sv_without_stride data height width =
    (if width * height \<noteq> length data then Err DimensionMismatch
     else Ok \<lparr>sv_data = data, sv_data_width = width, sv_height = height, sv_cols = (0, width)\<rparr>)"

definition sv_width :: "'a strided_view \<Rightarrow> nat" where
  "sv_width v = (case sv_cols v of (s, e) \<Rightarrow> e - s)"

definition sv_position :: "'a strided_view \<Rightarrow> nat \<Rightarrow> nat \<Rightarrow> nat" where
  "sv_position v i j = i * sv_data_width v + j + fst (sv_cols v)"

definition sv_index :: "'a strided_view \<Rightarrow> nat \<Rightarrow> nat \<Rightarrow> 'a option" where
  "sv_index v i j =
    (if i < sv_height v \<and> j < sv_width v then read_at (sv_data v) (sv_position v i j) else None)"

definition sv_index_mut :: "'a strided_view \<Rightarrow> nat \<Rightarrow> nat \<Rightarrow> 'a \<Rightarrow> 'a strided_view option" where
  "sv_index_mut v i j x =
    (if i < sv_height v \<and> j < sv_width v \<and> sv_position v i j < length (sv_data v)
     then Some (v\<lparr>sv_data := (sv_data v)[sv_position v i j := x]\<rparr>) else None)"

text \<open>The column ranges of the vertical slices of a view.\<close>

function stride_ranges :: "nat \<Rightarrow> nat \<Rightarrow> nat \<Rightarrow> (nat \<times> nat) list" where
  "stride_ranges stride start end' =
    (if start < end' \<and> 0 < stride
     then (start, min (start + stride) end') # stride_ranges stride (start + stride) end' else [])"
  by pat_completeness auto
termination by (relation "measure (\<lambda>(_, s, e). e - s)") auto

text \<open>A step of zero panics.\<close>

definition sv_into_strides :: "'a strided_view \<Rightarrow> nat \<Rightarrow> (nat \<times> nat) list option" where
  "sv_into_strides v stride =
    (if stride = 0 then None else Some (stride_ranges stride (fst (sv_cols v)) (snd (sv_cols v))))"

section \<open>Views inside their data\<close>

definition sv_ok :: "'a strided_view \<Rightarrow> bool" where
  "sv_ok v \<longleftrightarrow> length (sv_data v) = sv_data_width v * sv_height v \<and> snd (sv_cols v) \<le> sv_data_width v"

lemma sv_without_stride_ok: "sv_without_stride data h w = Ok v \<Longrightarrow> sv_ok v"
  by (auto simp: sv_without_stride_def sv_ok_def split: if_splits)

lemma cell_position:
  fixes w :: nat
  assumes "k < w" "k' < w"
  shows "i * w + k = i' * w + k' \<longleftrightarrow> i = i' \<and> k = k'"
proof
  assume e: "i * w + k = i' * w + k'"
  from arg_cong[OF e, of "\<lambda>x. x div w"] have "i = i'" using assms by simp
  with e show "i = i' \<and> k = k'" by simp
qed simp

lemma cell_bound:
  fixes w :: nat
  assumes "i < h" "k < w"
  shows "i * w + k < w * h"
proof -
  have "i * w + k < Suc i * w" using assms(2) by simp
  also have "\<dots> \<le> h * w" using assms(1) by (intro mult_le_mono1) simp
  finally show ?thesis by (simp add: mult.commute)
qed

lemma sv_position_bound:
  assumes "sv_ok v" "i < sv_height v" "j < sv_width v"
  shows "sv_position v i j < length (sv_data v)"
proof -
  have "j + fst (sv_cols v) < sv_data_width v"
    using assms(1,3) by (auto simp: sv_ok_def sv_width_def split: prod.splits)
  from cell_bound[OF assms(2) this] show ?thesis
    using assms(1) by (simp add: sv_position_def sv_ok_def add.assoc)
qed

lemma sv_position_eq:
  assumes "sv_ok v" "j < sv_width v" "j' < sv_width v"
  shows "sv_position v i j = sv_position v i' j' \<longleftrightarrow> i = i' \<and> j = j'"
proof -
  have "j + fst (sv_cols v) < sv_data_width v" "j' + fst (sv_cols v) < sv_data_width v"
    using assms by (auto simp: sv_ok_def sv_width_def split: prod.splits)
  from cell_position[OF this] show ?thesis by (auto simp: sv_position_def add.assoc)
qed

lemma sv_index_held: "sv_ok v \<Longrightarrow> sv_index v i j \<noteq> None \<longleftrightarrow> i < sv_height v \<and> j < sv_width v"
  by (auto simp: sv_index_def read_at_def sv_position_bound)

lemma sv_index_mut_held:
  assumes "sv_ok v" "i < sv_height v" "j < sv_width v"
  shows "\<exists>v'. sv_index_mut v i j x = Some v' \<and> sv_ok v' \<and> sv_height v' = sv_height v \<and>
    sv_cols v' = sv_cols v \<and>
    (\<forall>i' j'. sv_index v' i' j' = (if i' = i \<and> j' = j then Some x else sv_index v i' j'))"
proof -
  let ?v = "v\<lparr>sv_data := (sv_data v)[sv_position v i j := x]\<rparr>"
  have "sv_index ?v i' j' = (if i' = i \<and> j' = j then Some x else sv_index v i' j')" for i' j'
  proof (cases "i' < sv_height v \<and> j' < sv_width v")
    case True
    then show ?thesis
      using assms sv_position_eq[OF assms(1), of j j' i i'] sv_position_bound[OF assms]
      by (auto simp: sv_index_def read_at_def sv_width_def sv_position_def)
  next
    case False
    then show ?thesis using assms by (auto simp: sv_index_def sv_width_def)
  qed
  moreover have "sv_ok ?v" using assms(1) by (simp add: sv_ok_def)
  ultimately show ?thesis using assms sv_position_bound[OF assms] by (simp add: sv_index_mut_def)
qed

text \<open>The slices partition the columns.\<close>

lemma stride_ranges_cover:
  assumes "0 < stride"
  shows "concat (map (\<lambda>(s, e). [s..<e]) (stride_ranges stride start end')) = [start..<end']"
proof (induction "end' - start" arbitrary: start rule: less_induct)
  case less
  show ?case
  proof (cases "start < end'")
    case True
    have "concat (map (\<lambda>(s, e). [s..<e]) (stride_ranges stride (start + stride) end')) = [start + stride..<end']"
      by (rule less.hyps) (use True assms in auto)
    then show ?thesis
      using True assms upt_add_eq_append[of start "start + stride" "end' - (start + stride)"]
      by (subst stride_ranges.simps) (auto simp: min_def not_le)
  qed (simp add: stride_ranges.simps)
qed

end
