(* ===== verification/Eval_Contexts.thy ===== *)
theory Eval_Contexts
  imports Eval_Semantics Strided Path_Tree
begin

text \<open>
  The two contexts a program runs against (\<open>eval_form/scalar.rs\<close>, \<open>eval_form/batch.rs\<close>), what they
  report of failed assertions (\<open>eval_form/assertion.rs\<close>, the error records of \<open>artifact/witness.rs\<close>),
  and \<open>EvalForm\<close> of \<open>eval_form/mod.rs\<close>.  Both contexts interpret the contract of \<open>Eval_Semantics\<close>.
\<close>

section \<open>Reports\<close>

definition MAX_ASSERTION_FAILURES :: nat where "MAX_ASSERTION_FAILURES = 100"

definition render_path :: "path_tree option \<Rightarrow> path_spec \<Rightarrow> string option" where
  "render_path tree path = (case tree of None \<Rightarrow> Some [] | Some t \<Rightarrow> tree_stringify t path [])"

record assertion_failure =
  af_path :: string
  af_detail :: violation

record populate_error =
  pe_failures :: "assertion_failure list"
  pe_total :: nat

record batch_populate_error =
  be_instance :: nat
  be_source :: populate_error

definition resolve :: "path_tree option \<Rightarrow> (path_spec \<times> violation) list \<Rightarrow> assertion_failure list option" where
  "resolve tree fs = those (map (\<lambda>(p, m). map_option (\<lambda>s. \<lparr>af_path = s, af_detail = m\<rparr>) (render_path tree p)) fs)"

section \<open>One instance\<close>

record execution_context =
  ec_value_vec :: value_vec
  ec_failures :: "(path_spec \<times> violation) list"
  ec_count :: nat

definition ec_new :: "value_vec \<Rightarrow> execution_context" where
  "ec_new v = \<lparr>ec_value_vec = v, ec_failures = [], ec_count = 0\<rparr>"

definition ec_note :: "execution_context \<Rightarrow> nat \<Rightarrow> path_spec \<Rightarrow> violation \<Rightarrow> execution_context" where
  "ec_note c i path message =
    (let c = c\<lparr>ec_count := ec_count c + 1\<rparr>
     in if length (ec_failures c) < MAX_ASSERTION_FAILURES
        then c\<lparr>ec_failures := ec_failures c @ [(path, message)]\<rparr> else c)"

definition scalar_context :: "execution_context eval_context" where
  "scalar_context = \<lparr>
    ctx_n_instances = (\<lambda>c. 1),
    ctx_load = (\<lambda>c reg i. vv_word (ec_value_vec c) reg),
    ctx_store = (\<lambda>c reg i w. map_option (\<lambda>v. c\<lparr>ec_value_vec := v\<rparr>) (vv_word_mut (ec_value_vec c) reg w)),
    ctx_note_assertion_failure = ec_note\<rparr>"

definition ec_check_assertions :: "execution_context \<Rightarrow> path_tree option \<Rightarrow> (populate_error, unit) outcome" where
  "ec_check_assertions c tree =
    (if ec_failures c = [] then Ok ()
     else and_then (or_panic (resolve tree (ec_failures c)))
       (\<lambda>fs. Err \<lparr>pe_failures = fs, pe_total = ec_count c\<rparr>))"

section \<open>A batch\<close>

record batch_context =
  bc_values :: "u64 strided_view"
  bc_offset :: nat
  bc_failures :: "(path_spec \<times> violation) list"
  bc_min_count :: nat
  bc_min :: "nat option"

definition bc_new :: "u64 strided_view \<Rightarrow> nat \<Rightarrow> batch_context" where
  "bc_new values offset = \<lparr>bc_values = values, bc_offset = offset, bc_failures = [], bc_min_count = 0, bc_min = None\<rparr>"

definition bc_record :: "batch_context \<Rightarrow> path_spec \<Rightarrow> violation \<Rightarrow> batch_context" where
  "bc_record c path message =
    (let c = c\<lparr>bc_min_count := bc_min_count c + 1\<rparr>
     in if length (bc_failures c) < MAX_ASSERTION_FAILURES
        then c\<lparr>bc_failures := bc_failures c @ [(path, message)]\<rparr> else c)"

definition bc_note :: "batch_context \<Rightarrow> nat \<Rightarrow> path_spec \<Rightarrow> violation \<Rightarrow> batch_context" where
  "bc_note c k path message =
    (let k = bc_offset c + k in
     case bc_min c of
       Some m \<Rightarrow>
         if k > m then c
         else if k < m
         then bc_record (c\<lparr>bc_min := Some k, bc_failures := [], bc_min_count := 0\<rparr>) path message
         else bc_record (c\<lparr>bc_min := Some k\<rparr>) path message
     | None \<Rightarrow> bc_record (c\<lparr>bc_min := Some k\<rparr>) path message)"

definition batch_ctx :: "batch_context eval_context" where
  "batch_ctx = \<lparr>
    ctx_n_instances = (\<lambda>c. sv_width (bc_values c)),
    ctx_load = (\<lambda>c reg i. sv_index (bc_values c) (unat reg) i),
    ctx_store = (\<lambda>c reg i w. map_option (\<lambda>v. c\<lparr>bc_values := v\<rparr>) (sv_index_mut (bc_values c) (unat reg) i w)),
    ctx_note_assertion_failure = bc_note\<rparr>"

definition bc_check_assertions :: "batch_context \<Rightarrow> path_tree option \<Rightarrow> (batch_populate_error, unit) outcome" where
  "bc_check_assertions c tree =
    (case bc_min c of
       None \<Rightarrow> Ok ()
     | Some k \<Rightarrow> and_then (or_panic (resolve tree (bc_failures c)))
         (\<lambda>fs. Err \<lparr>be_instance = k, be_source = \<lparr>pe_failures = fs, pe_total = bc_min_count c\<rparr>\<rparr>))"

section \<open>Evaluation\<close>

record eval_form =
  ef_bytecode :: "u8 list"
  ef_n_eval_insn :: nat
  ef_hint_registry :: hint_registry

definition ef_evaluate ::
  "eval_form \<Rightarrow> value_vec \<Rightarrow> path_tree option \<Rightarrow> ((populate_error, unit) outcome \<times> value_vec) option" where
  "ef_evaluate ef v tree = do {
    c \<leftarrow> run scalar_context (ef_hint_registry ef) (ef_bytecode ef) (ec_new v);
    Some (ec_check_assertions c tree, ec_value_vec c)
  }"

definition ef_evaluate_stripe :: "eval_form \<Rightarrow> u64 strided_view \<Rightarrow> nat \<Rightarrow> path_tree option \<Rightarrow>
    ((batch_populate_error, unit) outcome \<times> u64 strided_view) option" where
  "ef_evaluate_stripe ef values offset tree = do {
    c \<leftarrow> run batch_ctx (ef_hint_registry ef) (ef_bytecode ef) (bc_new values offset);
    Some (bc_check_assertions c tree, bc_values c)
  }"

definition ef_evaluate_batched :: "eval_form \<Rightarrow> u64 strided_view \<Rightarrow> path_tree option \<Rightarrow>
    ((batch_populate_error, unit) outcome \<times> u64 strided_view) option" where
  "ef_evaluate_batched ef values tree = ef_evaluate_stripe ef values 0 tree"

section \<open>The contexts keep the contract\<close>

text \<open>Storing words changes neither the segments nor the length of a vector.\<close>

definition vv_shape :: "value_vec \<Rightarrow> nat \<times> nat \<times> nat \<times> nat" where
  "vv_shape v = (vv_n_const v, vv_n_public_values v, vv_n_private v, length (aw_deref (vv_data v)))"

definition ec_valid :: "nat \<times> nat \<times> nat \<times> nat \<Rightarrow> execution_context \<Rightarrow> bool" where
  "ec_valid shape c \<longleftrightarrow> aw_ok (vv_data (ec_value_vec c)) \<and> vv_shape (ec_value_vec c) = shape"

definition ec_regs :: "execution_context \<Rightarrow> nat \<Rightarrow> regfile" where
  "ec_regs c i = (if i = 0 then vv_word (ec_value_vec c) else Map.empty)"

definition ec_log :: "execution_context \<Rightarrow> (nat \<times> path_spec \<times> violation) list \<Rightarrow> bool" where
  "ec_log c l \<longleftrightarrow> ec_failures c = take MAX_ASSERTION_FAILURES (map snd l) \<and> ec_count c = length l"

lemma unat_inj: "unat x = unat y \<longleftrightarrow> x = (y :: 'a::len word)"
  by (simp add: word_unat_eq_iff)

lemma take_snoc: "take n (xs @ [x]) = (if length xs < n then take n xs @ [x] else take n xs)"
  by simp

interpretation ec: eval_ctx scalar_context "ec_valid shape" ec_regs ec_log for shape
proof unfold_locales
  fix c :: execution_context and i r v
  assume c: "ec_valid shape c" "i < ctx_n_instances scalar_context c"
  then have i: "i = 0" by (simp add: scalar_context_def)
  show "ctx_load scalar_context c r i = ec_regs c i r"
    by (simp add: scalar_context_def ec_regs_def i)
  assume "r \<in> dom (ec_regs c i)"
  then have "unat r < length (aw_deref (vv_data (ec_value_vec c)))"
    by (auto simp: ec_regs_def i vv_word_def read_at_def split: if_splits)
  then obtain d where d: "aw_set (vv_data (ec_value_vec c)) (unat r) v = Some d" "aw_ok d"
    "aw_deref d = (aw_deref (vv_data (ec_value_vec c)))[unat r := v]"
    using aw.put_in_range[of "vv_data (ec_value_vec c)" "unat r" v] c by (auto simp: ec_valid_def)
  let ?c = "c\<lparr>ec_value_vec := (ec_value_vec c)\<lparr>vv_data := d\<rparr>\<rparr>"
  have "ec_regs ?c = (ec_regs c)(i := (ec_regs c i)(r \<mapsto> v))"
    using \<open>unat r < _\<close> d(3)
    by (auto simp: fun_eq_iff ec_regs_def i vv_word_def read_at_def nth_list_update unat_inj)
  then show "\<exists>c'. ctx_store scalar_context c r i v = Some c' \<and> ec_valid shape c' \<and>
      ctx_n_instances scalar_context c' = ctx_n_instances scalar_context c \<and>
      ec_regs c' = (ec_regs c)(i := (ec_regs c i)(r \<mapsto> v)) \<and> (\<forall>l. ec_log c l \<longrightarrow> ec_log c' l)"
    using d by (intro exI[of _ ?c]) (use c in \<open>simp add: scalar_context_def vv_word_mut_def ec_valid_def ec_log_def vv_shape_def\<close>)
next
  fix c :: execution_context and i p m
  assume "ec_valid shape c"
  then show "ec_valid shape (ctx_note_assertion_failure scalar_context c i p m) \<and>
      ctx_n_instances scalar_context (ctx_note_assertion_failure scalar_context c i p m) =
        ctx_n_instances scalar_context c \<and>
      ec_regs (ctx_note_assertion_failure scalar_context c i p m) = ec_regs c \<and>
      (\<forall>l. ec_log c l \<longrightarrow> ec_log (ctx_note_assertion_failure scalar_context c i p m) (l @ [(i, p, m)]))"
    by (auto simp: scalar_context_def ec_note_def ec_valid_def ec_regs_def ec_log_def Let_def fun_eq_iff)
qed

definition sv_shape :: "'a strided_view \<Rightarrow> nat \<times> (nat \<times> nat) \<times> nat" where
  "sv_shape v = (sv_height v, sv_cols v, sv_data_width v)"

definition bc_valid :: "nat \<Rightarrow> nat \<times> (nat \<times> nat) \<times> nat \<Rightarrow> batch_context \<Rightarrow> bool" where
  "bc_valid offset shape c \<longleftrightarrow> sv_ok (bc_values c) \<and> sv_shape (bc_values c) = shape \<and> bc_offset c = offset"

definition bc_regs :: "batch_context \<Rightarrow> nat \<Rightarrow> regfile" where
  "bc_regs c i r = sv_index (bc_values c) (unat r) i"

definition instance_log :: "nat \<Rightarrow> (nat \<times> 'm) list \<Rightarrow> 'm list" where
  "instance_log i l = map snd (filter (\<lambda>e. fst e = i) l)"

text \<open>What the batch keeps of all failures: those of the least failing instance.\<close>

definition bc_log :: "batch_context \<Rightarrow> (nat \<times> path_spec \<times> violation) list \<Rightarrow> bool" where
  "bc_log c l \<longleftrightarrow>
    (case bc_min c of
       None \<Rightarrow> l = [] \<and> bc_failures c = [] \<and> bc_min_count c = 0
     | Some k \<Rightarrow> (\<exists>i. k = bc_offset c + i \<and> i \<in> fst ` set l \<and> (\<forall>j \<in> fst ` set l. i \<le> j) \<and>
         bc_failures c = take MAX_ASSERTION_FAILURES (instance_log i l) \<and>
         bc_min_count c = length (instance_log i l)))"

lemma instance_log_snoc: "instance_log i (l @ [(j, m)]) = instance_log i l @ (if j = i then [m] else [])"
  by (simp add: instance_log_def)

lemma instance_log_none: "i \<notin> fst ` set l \<Longrightarrow> instance_log i l = []"
  by (force simp: instance_log_def filter_empty_conv)

lemma bc_log_note:
  assumes "bc_log c l"
  shows "bc_log (bc_note c i p m) (l @ [(i, p, m)])"
proof (cases "bc_min c")
  case None
  then show ?thesis using assms
    by (simp add: bc_log_def bc_note_def bc_record_def Let_def MAX_ASSERTION_FAILURES_def instance_log_def)
next
  case (Some k)
  then obtain j where j: "k = bc_offset c + j" "j \<in> fst ` set l" "\<forall>x \<in> fst ` set l. j \<le> x"
    "bc_failures c = take MAX_ASSERTION_FAILURES (instance_log j l)" "bc_min_count c = length (instance_log j l)"
    using assms by (auto simp: bc_log_def)
  consider "j < i" | "i < j" | "i = j" by linarith
  then show ?thesis
  proof cases
    case 1
    then show ?thesis using Some j by (auto simp: bc_log_def bc_note_def Let_def instance_log_snoc)
  next
    case 2
    then have "i \<notin> fst ` set l" using j(3) by force
    then show ?thesis using Some j 2
      by (force simp: bc_log_def bc_note_def bc_record_def Let_def instance_log_snoc instance_log_none
          MAX_ASSERTION_FAILURES_def)
  next
    case 3
    then show ?thesis using Some j
      by (auto simp: bc_log_def bc_note_def bc_record_def Let_def instance_log_snoc)
  qed
qed

lemma bc_note_view [simp]: "bc_values (bc_note c i p m) = bc_values c" "bc_offset (bc_note c i p m) = bc_offset c"
  by (auto simp: bc_note_def bc_record_def Let_def split: option.splits)

interpretation bc: eval_ctx batch_ctx "bc_valid offset shape" bc_regs bc_log for offset shape
proof unfold_locales
  fix c :: batch_context and i r v
  assume c: "bc_valid offset shape c" "i < ctx_n_instances batch_ctx c"
  show "ctx_load batch_ctx c r i = bc_regs c i r" by (simp add: batch_ctx_def bc_regs_def)
  assume "r \<in> dom (bc_regs c i)"
  then have "unat r < sv_height (bc_values c)" by (auto simp: bc_regs_def sv_index_def split: if_splits)
  then obtain v' where v': "sv_index_mut (bc_values c) (unat r) i v = Some v'" "sv_ok v'"
    "sv_height v' = sv_height (bc_values c)" "sv_cols v' = sv_cols (bc_values c)"
    "\<forall>i' j'. sv_index v' i' j' = (if i' = unat r \<and> j' = i then Some v else sv_index (bc_values c) i' j')"
    using sv_index_mut_held[of "bc_values c" "unat r" i v] c by (auto simp: bc_valid_def batch_ctx_def)
  have shape': "sv_shape v' = sv_shape (bc_values c)"
    using v'(1,3,4) by (auto simp: sv_shape_def sv_index_mut_def split: if_splits)
  let ?c = "c\<lparr>bc_values := v'\<rparr>"
  have "bc_regs ?c = (bc_regs c)(i := (bc_regs c i)(r \<mapsto> v))"
    using v'(5) by (auto simp: fun_eq_iff bc_regs_def unat_inj)
  then show "\<exists>c'. ctx_store batch_ctx c r i v = Some c' \<and> bc_valid offset shape c' \<and>
      ctx_n_instances batch_ctx c' = ctx_n_instances batch_ctx c \<and>
      bc_regs c' = (bc_regs c)(i := (bc_regs c i)(r \<mapsto> v)) \<and> (\<forall>l. bc_log c l \<longrightarrow> bc_log c' l)"
    using v' c shape' by (intro exI[of _ ?c]) (auto simp: batch_ctx_def bc_valid_def bc_log_def sv_width_def split: option.splits)
next
  fix c :: batch_context and i p m
  assume "bc_valid offset shape c"
  then show "bc_valid offset shape (ctx_note_assertion_failure batch_ctx c i p m) \<and>
      ctx_n_instances batch_ctx (ctx_note_assertion_failure batch_ctx c i p m) = ctx_n_instances batch_ctx c \<and>
      bc_regs (ctx_note_assertion_failure batch_ctx c i p m) = bc_regs c \<and>
      (\<forall>l. bc_log c l \<longrightarrow> bc_log (ctx_note_assertion_failure batch_ctx c i p m) (l @ [(i, p, m)]))"
    by (simp add: batch_ctx_def bc_valid_def bc_regs_def[abs_def] bc_log_note)
qed

section \<open>What an evaluation returns\<close>

definition report :: "path_tree option \<Rightarrow> (path_spec \<times> violation) list \<Rightarrow> (populate_error, unit) outcome" where
  "report tree fs =
    (if fs = [] then Ok ()
     else and_then (or_panic (resolve tree (take MAX_ASSERTION_FAILURES fs)))
       (\<lambda>as. Err \<lparr>pe_failures = as, pe_total = length fs\<rparr>))"

definition form_of :: "hint_registry \<Rightarrow> insn list \<Rightarrow> eval_form" where
  "form_of hints prog =
    \<lparr>ef_bytecode = concat (map encode prog), ef_n_eval_insn = length prog, ef_hint_registry = hints\<rparr>"

lemma report_eq_Ok: "report tree fs = Ok () \<longleftrightarrow> fs = []"
  by (auto simp: report_def outcome_simps)

lemma MAX_nonzero [simp]: "MAX_ASSERTION_FAILURES \<noteq> 0"
  by (simp add: MAX_ASSERTION_FAILURES_def)

lemma MAX_pos: "take MAX_ASSERTION_FAILURES fs = [] \<longleftrightarrow> fs = []"
  by (simp add: MAX_ASSERTION_FAILURES_def)

lemma evaluate_spec:
  assumes "registry_ok hints" "\<forall>i \<in> set prog. insn_ok hints R i" "R \<subseteq> dom (vv_word v)" "aw_ok (vv_data v)"
  shows "\<exists>v'. ef_evaluate (form_of hints prog) v tree = Some (report tree (snd (col_run hints prog (vv_word v))), v') \<and>
    vv_word v' = fst (col_run hints prog (vv_word v)) \<and> aw_ok (vv_data v') \<and> vv_shape v' = vv_shape v"
proof -
  let ?c = "ec_new v" and ?fs = "snd (col_run hints prog (vv_word v))"
  have n: "ctx_n_instances scalar_context ?c = 1" by (simp add: scalar_context_def)
  have regs: "ec_regs ?c 0 = vv_word v" by (simp add: ec_regs_def ec_new_def)
  have log0: "ec_log ?c []" by (simp add: ec_log_def ec_new_def)
  have "ec_valid (vv_shape v) ?c" using assms(4) by (simp add: ec_valid_def ec_new_def)
  then obtain c' where c': "run scalar_context hints (concat (map encode prog)) ?c = Some c'"
    and fin: "ec.finished (vv_shape v) ?c hints prog c'"
    using ec.run_insns[of "vv_shape v" ?c prog hints R] assms n regs by auto
  obtain l' where l': "ec_log c' l'" "fst ` set l' \<subseteq> {0}" "map snd (filter (\<lambda>e. fst e = 0) l') = ?fs"
    using fin log0 n regs unfolding ec.finished_def by fastforce
  have "filter (\<lambda>e. fst e = 0) l' = l'" using l'(2) by (auto simp: filter_id_conv)
  then have "ec_failures c' = take MAX_ASSERTION_FAILURES ?fs" "ec_count c' = length ?fs"
    using l' by (auto simp: ec_log_def simp flip: l'(3))
  then have "ec_check_assertions c' tree = report tree ?fs"
    by (simp add: ec_check_assertions_def report_def MAX_pos)
  moreover have "vv_word (ec_value_vec c') = fst (col_run hints prog (vv_word v))" "ec_valid (vv_shape v) c'"
    using fin n regs by (auto simp: ec.finished_def ec_regs_def)
  ultimately show ?thesis using c' by (simp add: ef_evaluate_def form_of_def ec_valid_def)
qed

definition column :: "u64 strided_view \<Rightarrow> nat \<Rightarrow> regfile" where
  "column values i r = sv_index values (unat r) i"

lemma evaluate_stripe_spec:
  assumes "registry_ok hints" "\<forall>i \<in> set prog. insn_ok hints R i" "\<forall>r \<in> R. unat r < sv_height values" "sv_ok values"
  defines "fs i \<equiv> snd (col_run hints prog (column values i))"
  shows "\<exists>res values'. ef_evaluate_stripe (form_of hints prog) values offset tree = Some (res, values') \<and>
    sv_ok values' \<and> sv_width values' = sv_width values \<and> sv_shape values' = sv_shape values \<and>
    (\<forall>i < sv_width values. column values' i = fst (col_run hints prog (column values i))) \<and>
    ((\<forall>i < sv_width values. fs i = []) \<and> res = Ok () \<or>
     (\<exists>k < sv_width values. fs k \<noteq> [] \<and> (\<forall>j < k. fs j = []) \<and>
       res = map_err (\<lambda>e. \<lparr>be_instance = offset + k, be_source = e\<rparr>) (report tree (fs k))))"
proof -
  let ?c = "bc_new values offset" and ?n = "sv_width values"
  have n: "ctx_n_instances batch_ctx ?c = ?n" by (simp add: batch_ctx_def bc_new_def)
  have regs: "bc_regs ?c i = column values i" for i by (rule ext) (simp add: bc_regs_def bc_new_def column_def)
  have log0: "bc_log ?c []" by (simp add: bc_log_def bc_new_def)
  have valid: "bc_valid offset (sv_shape values) ?c" using assms(4) by (simp add: bc_valid_def bc_new_def)
  have dom: "R \<subseteq> dom (bc_regs ?c i)" if "i < ?n" for i
    using assms(3) sv_index_held[OF assms(4), of _ i] that by (auto simp: regs column_def)
  obtain c' where c': "run batch_ctx hints (concat (map encode prog)) ?c = Some c'"
    and fin: "bc.finished offset (sv_shape values) ?c hints prog c'"
    using bc.run_insns[OF valid assms(2) _ assms(1)] dom n by auto
  have width: "sv_width (bc_values c') = ?n" and valid': "sv_ok (bc_values c')" "bc_offset c' = offset"
    and height: "sv_shape (bc_values c') = sv_shape values"
    using fin n unfolding bc.finished_def by (simp_all add: batch_ctx_def bc_valid_def)
  have cols: "column (bc_values c') i = fst (col_run hints prog (column values i))" if "i < ?n" for i
  proof -
    have "bc_regs c' i = fst (col_run hints prog (bc_regs ?c i))"
      using fin n that by (simp add: bc.finished_def)
    moreover have "bc_regs c' i = column (bc_values c') i" by (rule ext) (simp add: bc_regs_def column_def)
    ultimately show ?thesis by (simp add: regs)
  qed
  have "\<exists>l'. bc_log c' ([] @ l') \<and> fst ` set l' \<subseteq> {..<?n} \<and> (\<forall>i < ?n. instance_log i l' = fs i)"
    using fin log0 unfolding bc.finished_def instance_log_def fs_def n regs by blast
  then obtain l' where l': "bc_log c' l'" "fst ` set l' \<subseteq> {..<?n}" "\<And>i. i < ?n \<Longrightarrow> instance_log i l' = fs i"
    by auto
  have "(\<forall>i < ?n. fs i = []) \<and> bc_check_assertions c' tree = Ok () \<or>
     (\<exists>k < ?n. fs k \<noteq> [] \<and> (\<forall>j < k. fs j = []) \<and> bc_check_assertions c' tree =
       map_err (\<lambda>e. \<lparr>be_instance = offset + k, be_source = e\<rparr>) (report tree (fs k)))"
  proof (cases "bc_min c'")
    case None
    then show ?thesis using l' by (auto simp: bc_log_def bc_check_assertions_def instance_log_def)
  next
    case (Some m)
    then obtain k where k: "m = offset + k" "k \<in> fst ` set l'" "\<forall>j \<in> fst ` set l'. k \<le> j"
      "bc_failures c' = take MAX_ASSERTION_FAILURES (instance_log k l')" "bc_min_count c' = length (instance_log k l')"
      using l'(1) valid'(2) by (auto simp: bc_log_def)
    have kn: "k < ?n" using k(2) l'(2) by auto
    have "instance_log k l' \<noteq> []" using k(2) by (auto simp: instance_log_def filter_empty_conv)
    moreover have "fs j = []" if "j < k" for j
    proof -
      have "j \<notin> fst ` set l'" using k(3) that by force
      then show ?thesis using l'(3)[of j] that kn instance_log_none[of j l'] by simp
    qed
    moreover have "bc_check_assertions c' tree =
        map_err (\<lambda>e. \<lparr>be_instance = offset + k, be_source = e\<rparr>) (report tree (instance_log k l'))"
      using Some k(1,4,5) calculation(1)
      by (cases "resolve tree (take MAX_ASSERTION_FAILURES (instance_log k l'))")
        (simp_all add: bc_check_assertions_def report_def)
    ultimately show ?thesis using l'(3)[OF kn] kn by auto
  qed
  then show ?thesis using c' width height valid'(1) cols
    by (auto simp: ef_evaluate_stripe_def form_of_def)
qed

section \<open>Property\<close>

text \<open>C14: The batched interpreter agrees with the single-instance one. For a program of well-formed
  instructions over a transposed array, with hints that keep their documented contract, evaluation
  over the array returns, and each of its columns ends as the single-instance evaluation of that
  column ends; the batch reports success when every column does, and otherwise the least failing
  column, under its global index, with the failures, their order, the cap and the total the
  single-instance evaluation of that column reports.\<close>

theorem batch_matches_scalar:
  assumes "registry_ok hints" "\<forall>i \<in> set prog. insn_ok hints R i" "\<forall>r \<in> R. unat r < sv_height values" "sv_ok values"
    and "\<forall>i < sv_width values. aw_ok (vv_data (vs i)) \<and> vv_word (vs i) = column values i"
  shows "\<exists>res values' r vs'.
    ef_evaluate_stripe (form_of hints prog) values offset tree = Some (res, values') \<and>
    (\<forall>i < sv_width values. ef_evaluate (form_of hints prog) (vs i) tree = Some (r i, vs' i) \<and>
      vv_word (vs' i) = column values' i) \<and>
    ((\<forall>i < sv_width values. r i = Ok ()) \<and> res = Ok () \<or>
     (\<exists>k < sv_width values. r k \<noteq> Ok () \<and> (\<forall>j < k. r j = Ok ()) \<and>
       res = map_err (\<lambda>e. \<lparr>be_instance = offset + k, be_source = e\<rparr>) (r k)))"
proof -
  let ?fs = "\<lambda>i. snd (col_run hints prog (column values i))"
  obtain res values' where b: "ef_evaluate_stripe (form_of hints prog) values offset tree = Some (res, values')"
    "\<forall>i < sv_width values. column values' i = fst (col_run hints prog (column values i))"
    "(\<forall>i < sv_width values. ?fs i = []) \<and> res = Ok () \<or>
     (\<exists>k < sv_width values. ?fs k \<noteq> [] \<and> (\<forall>j < k. ?fs j = []) \<and>
       res = map_err (\<lambda>e. \<lparr>be_instance = offset + k, be_source = e\<rparr>) (report tree (?fs k)))"
    using evaluate_stripe_spec[OF assms(1-4), of offset tree] by blast
  have "\<exists>v'. ef_evaluate (form_of hints prog) (vs i) tree = Some (report tree (?fs i), v') \<and>
      vv_word v' = column values' i" if i: "i < sv_width values" for i
  proof -
    have "vv_word (vs i) = column values i" "aw_ok (vv_data (vs i))" using assms(5) i by auto
    moreover have "R \<subseteq> dom (column values i)"
      using assms(3) sv_index_held[OF assms(4), of _ i] i by (auto simp: column_def)
    ultimately show ?thesis using evaluate_spec[OF assms(1,2), of "vs i" tree] b(2) i by auto
  qed
  then obtain vs' where "\<forall>i < sv_width values.
      ef_evaluate (form_of hints prog) (vs i) tree = Some (report tree (?fs i), vs' i) \<and> vv_word (vs' i) = column values' i"
    by metis
  then show ?thesis using b(1,3)
    by (intro exI[of _ res] exI[of _ values'] exI[of _ "\<lambda>i. report tree (?fs i)"] exI[of _ vs'])
      (auto simp: report_eq_Ok)
qed

definition sample_program :: "insn list" where
  "sample_program = [Calc EBxor [2] [0, 1], Check EAssertZero [2] 0]"

text \<open>Two columns; the second breaks the assertion.\<close>

definition sample_view :: "u64 strided_view" where
  "sample_view = \<lparr>sv_data = [5, 5, 5, 6, 0, 0], sv_data_width = 2, sv_height = 3, sv_cols = (0, 2)\<rparr>"

definition sample_vec :: "nat \<Rightarrow> value_vec" where
  "sample_vec i = \<lparr>vv_n_const = 0, vv_n_public_values = 0, vv_n_private = 3,
    vv_data = \<lparr>blocks = [(5, if i = 0 then 5 else 6), (0, 0)], aw_len = 3\<rparr>\<rparr>"

lemma sample_column: "i < 2 \<Longrightarrow> vv_word (sample_vec i) = column sample_view i"
proof (rule ext)
  fix r :: u32
  assume "i < 2"
  then have i: "i = 0 \<or> i = 1" by linarith
  consider "unat r = 0" | "unat r = 1" | "unat r = 2" | "3 \<le> unat r" by linarith
  then show "vv_word (sample_vec i) r = column sample_view i r"
    by cases (use i in \<open>auto simp: vv_word_def sample_vec_def sample_view_def column_def sv_index_def read_at_def
      aw_deref_def sv_width_def sv_position_def\<close>)
qed

lemma batch_matches_scalar_witness:
  "\<exists>res values' r0 v0 r1 v1.
    ef_evaluate_stripe (form_of Map.empty sample_program) sample_view 7 None = Some (res, values') \<and>
    ef_evaluate (form_of Map.empty sample_program) (sample_vec 0) None = Some (r0, v0) \<and> vv_word v0 = column values' 0 \<and>
    ef_evaluate (form_of Map.empty sample_program) (sample_vec 1) None = Some (r1, v1) \<and> vv_word v1 = column values' 1"
proof -
  have w: "sv_width sample_view = 2" by (simp add: sample_view_def sv_width_def)
  have "\<exists>res values' r vs'.
    ef_evaluate_stripe (form_of Map.empty sample_program) sample_view 7 None = Some (res, values') \<and>
    (\<forall>i < sv_width sample_view. ef_evaluate (form_of Map.empty sample_program) (sample_vec i) None = Some (r i, vs' i) \<and>
      vv_word (vs' i) = column values' i) \<and>
    ((\<forall>i < sv_width sample_view. r i = Ok ()) \<and> res = Ok () \<or>
     (\<exists>k < sv_width sample_view. r k \<noteq> Ok () \<and> (\<forall>j < k. r j = Ok ()) \<and>
       res = map_err (\<lambda>e. \<lparr>be_instance = 7 + k, be_source = e\<rparr>) (r k)))"
    by (rule batch_matches_scalar[of _ _ "{0, 1, 2}"])
      (simp_all add: registry_ok_def sample_program_def sample_column w,
        simp_all add: sample_view_def sv_ok_def sample_vec_def aw_ok_def)
  then show ?thesis unfolding w by (auto simp: numeral_2_eq_2 less_Suc_eq)
qed

end
