(* ===== verification/Gate_Code.thy ===== *)
theory Gate_Code
  imports Gates Eval_Contexts
begin

text \<open>
  The instructions each gate kind emits (the \<open>emit\<close> of every file of \<open>gates/\<close>, the table and
  \<open>Gate::emit_bytecode\<close> of \<open>gates/mod.rs\<close>), and the proof that running them computes what the
  constant evaluator computes.
\<close>

section \<open>The kinds\<close>

type_synonym resolver = "wire \<Rightarrow> u32"

definition gate_emit_band :: "gate_param \<Rightarrow> resolver \<Rightarrow> bytecode_builder \<Rightarrow> bytecode_builder option" where
  "gate_emit_band gate reg bc =
    (case (p_inputs gate, p_outputs gate) of
       ([x, y], [z]) \<Rightarrow> Some (emit_band (reg z) (reg x) (reg y) bc)
     | _ \<Rightarrow> None)"

definition gate_emit_bor :: "gate_param \<Rightarrow> resolver \<Rightarrow> bytecode_builder \<Rightarrow> bytecode_builder option" where
  "gate_emit_bor gate reg bc =
    (case (p_inputs gate, p_outputs gate) of
       ([x, y], [z]) \<Rightarrow> Some (emit_bor (reg z) (reg x) (reg y) bc)
     | _ \<Rightarrow> None)"

definition gate_emit_bxor :: "gate_param \<Rightarrow> resolver \<Rightarrow> bytecode_builder \<Rightarrow> bytecode_builder option" where
  "gate_emit_bxor gate reg bc =
    (case (p_inputs gate, p_outputs gate) of
       ([x, y], [z]) \<Rightarrow> Some (emit_bxor (reg z) (reg x) (reg y) bc)
     | _ \<Rightarrow> None)"

definition gate_emit_bxor_multi :: "gate_param \<Rightarrow> resolver \<Rightarrow> bytecode_builder \<Rightarrow> bytecode_builder option" where
  "gate_emit_bxor_multi gate reg bc =
    (case p_outputs gate of
       [z] \<Rightarrow> Some (emit_bxor_multi (reg z) (map reg (p_inputs gate)) bc)
     | _ \<Rightarrow> None)"

definition gate_emit_fax :: "gate_param \<Rightarrow> resolver \<Rightarrow> bytecode_builder \<Rightarrow> bytecode_builder option" where
  "gate_emit_fax gate reg bc =
    (case (p_inputs gate, p_outputs gate) of
       ([x, y, w], [z]) \<Rightarrow> Some (emit_fax (reg z) (reg x) (reg y) (reg w) bc)
     | _ \<Rightarrow> None)"

definition gate_emit_select :: "gate_param \<Rightarrow> resolver \<Rightarrow> bytecode_builder \<Rightarrow> bytecode_builder option" where
  "gate_emit_select gate reg bc =
    (case (p_inputs gate, p_outputs gate) of
       ([cond, t, f], [out]) \<Rightarrow> Some (emit_select (reg out) (reg cond) (reg t) (reg f) bc)
     | _ \<Rightarrow> None)"

definition gate_emit_iadd_cin_cout :: "gate_param \<Rightarrow> resolver \<Rightarrow> bytecode_builder \<Rightarrow> bytecode_builder option" where
  "gate_emit_iadd_cin_cout gate reg bc =
    (case (p_inputs gate, p_outputs gate) of
       ([a, b, cin], [s, cout]) \<Rightarrow> Some (emit_iadd_cin_cout (reg s) (reg cout) (reg a) (reg b) (reg cin) bc)
     | _ \<Rightarrow> None)"

definition gate_emit_iadd32 :: "gate_param \<Rightarrow> resolver \<Rightarrow> bytecode_builder \<Rightarrow> bytecode_builder option" where
  "gate_emit_iadd32 gate reg bc =
    (case (p_inputs gate, p_outputs gate) of
       ([a, b], [s, cout]) \<Rightarrow> Some (emit_iadd32_cout (reg s) (reg cout) (reg a) (reg b) bc)
     | _ \<Rightarrow> None)"

definition gate_emit_iadd32_cin_cout :: "gate_param \<Rightarrow> resolver \<Rightarrow> bytecode_builder \<Rightarrow> bytecode_builder option" where
  "gate_emit_iadd32_cin_cout gate reg bc =
    (case (p_inputs gate, p_outputs gate) of
       ([a, b, cin], [s, cout]) \<Rightarrow> Some (emit_iadd32_cin_cout (reg s) (reg cout) (reg a) (reg b) (reg cin) bc)
     | _ \<Rightarrow> None)"

definition gate_emit_isub_bin_bout :: "gate_param \<Rightarrow> resolver \<Rightarrow> bytecode_builder \<Rightarrow> bytecode_builder option" where
  "gate_emit_isub_bin_bout gate reg bc =
    (case (p_inputs gate, p_outputs gate) of
       ([a, b, bin], [diff, bout]) \<Rightarrow> Some (emit_isub_bin_bout (reg diff) (reg bout) (reg a) (reg b) (reg bin) bc)
     | _ \<Rightarrow> None)"

definition gate_emit_imul :: "gate_param \<Rightarrow> resolver \<Rightarrow> bytecode_builder \<Rightarrow> bytecode_builder option" where
  "gate_emit_imul gate reg bc =
    (case (p_inputs gate, p_outputs gate) of
       ([x, y], [hi, lo]) \<Rightarrow> Some (emit_imul (reg hi) (reg lo) (reg x) (reg y) bc)
     | _ \<Rightarrow> None)"

definition gate_emit_bmul :: "gate_param \<Rightarrow> resolver \<Rightarrow> bytecode_builder \<Rightarrow> bytecode_builder option" where
  "gate_emit_bmul gate reg bc =
    (case (p_inputs gate, p_outputs gate) of
       ([a_lo, a_hi, b_lo, b_hi], [c_lo, c_hi]) \<Rightarrow>
         Some (emit_bmul (reg c_lo) (reg c_hi) (reg a_lo) (reg a_hi) (reg b_lo) (reg b_hi) bc)
     | _ \<Rightarrow> None)"

definition gate_emit_shift :: "gate_param \<Rightarrow> resolver \<Rightarrow> bytecode_builder \<Rightarrow> bytecode_builder option" where
  "gate_emit_shift gate reg bc =
    (case (p_inputs gate, p_outputs gate, p_imm gate) of
       ([x], [z], [vr, n]) \<Rightarrow>
         map_option (\<lambda>v. emit_shift (reg z) (reg x) v (ucast n) bc) (variant_of vr)
     | _ \<Rightarrow> None)"

definition gate_emit_icmp_ult :: "gate_param \<Rightarrow> resolver \<Rightarrow> bytecode_builder \<Rightarrow> bytecode_builder option" where
  "gate_emit_icmp_ult gate reg bc =
    (case (p_constants gate, p_inputs gate, p_outputs gate, p_scratch gate) of
       ([all1], [x, y], [bout], [negated_x]) \<Rightarrow>
         Some (emit_iadd_carry (reg bout) (reg negated_x) (reg y)
           (emit_bxor (reg negated_x) (reg x) (reg all1) bc))
     | _ \<Rightarrow> None)"

definition gate_emit_icmp_eq :: "gate_param \<Rightarrow> resolver \<Rightarrow> bytecode_builder \<Rightarrow> bytecode_builder option" where
  "gate_emit_icmp_eq gate reg bc =
    (case (p_constants gate, p_inputs gate, p_outputs gate, p_aux gate, p_scratch gate) of
       ([all1, msb_one], [x, y], [out], [cout], [diff]) \<Rightarrow>
         Some (emit_bxor (reg out) (reg cout) (reg msb_one)
           (emit_iadd_carry (reg cout) (reg all1) (reg diff)
             (emit_bxor (reg diff) (reg x) (reg y) bc)))
     | _ \<Rightarrow> None)"

definition gate_emit_assert_eq :: "gate_param \<Rightarrow> resolver \<Rightarrow> path_spec \<Rightarrow> bytecode_builder \<Rightarrow> bytecode_builder option" where
  "gate_emit_assert_eq gate reg path bc =
    (case p_inputs gate of [x, y] \<Rightarrow> Some (emit_assert_eq (reg x) (reg y) path bc) | _ \<Rightarrow> None)"

definition gate_emit_assert_eq_cond ::
  "gate_param \<Rightarrow> resolver \<Rightarrow> path_spec \<Rightarrow> bytecode_builder \<Rightarrow> bytecode_builder option" where
  "gate_emit_assert_eq_cond gate reg path bc =
    (case p_inputs gate of
       [x, y, cond] \<Rightarrow> Some (emit_assert_eq_cond (reg cond) (reg x) (reg y) path bc)
     | _ \<Rightarrow> None)"

definition gate_emit_assert_zero :: "gate_param \<Rightarrow> resolver \<Rightarrow> path_spec \<Rightarrow> bytecode_builder \<Rightarrow> bytecode_builder option" where
  "gate_emit_assert_zero gate reg path bc =
    (case p_inputs gate of [x] \<Rightarrow> Some (emit_assert_zero (reg x) path bc) | _ \<Rightarrow> None)"

definition gate_emit_assert_non_zero ::
  "gate_param \<Rightarrow> resolver \<Rightarrow> path_spec \<Rightarrow> bytecode_builder \<Rightarrow> bytecode_builder option" where
  "gate_emit_assert_non_zero gate reg path bc =
    (case (p_constants gate, p_inputs gate, p_aux gate) of
       ([all1], [x], [cout]) \<Rightarrow>
         Some (emit_assert_non_zero (reg cout) path (emit_iadd_carry (reg cout) (reg all1) (reg x) bc))
     | _ \<Rightarrow> None)"

definition gate_emit_assert_false :: "gate_param \<Rightarrow> resolver \<Rightarrow> path_spec \<Rightarrow> bytecode_builder \<Rightarrow> bytecode_builder option" where
  "gate_emit_assert_false gate reg path bc =
    (case p_inputs gate of [x] \<Rightarrow> Some (emit_assert_false (reg x) path bc) | _ \<Rightarrow> None)"

definition gate_emit_assert_true :: "gate_param \<Rightarrow> resolver \<Rightarrow> path_spec \<Rightarrow> bytecode_builder \<Rightarrow> bytecode_builder option" where
  "gate_emit_assert_true gate reg path bc =
    (case p_inputs gate of [x] \<Rightarrow> Some (emit_assert_true (reg x) path bc) | _ \<Rightarrow> None)"

fun op_emit :: "opcode \<Rightarrow> gate_param \<Rightarrow> resolver \<Rightarrow> path_spec \<Rightarrow> bytecode_builder \<Rightarrow> bytecode_builder option" where
  "op_emit Band p reg path = gate_emit_band p reg"
| "op_emit Bxor p reg path = gate_emit_bxor p reg"
| "op_emit BxorMulti p reg path = gate_emit_bxor_multi p reg"
| "op_emit Bor p reg path = gate_emit_bor p reg"
| "op_emit Fax p reg path = gate_emit_fax p reg"
| "op_emit Select p reg path = gate_emit_select p reg"
| "op_emit IaddCinCout p reg path = gate_emit_iadd_cin_cout p reg"
| "op_emit Iadd32 p reg path = gate_emit_iadd32 p reg"
| "op_emit Iadd32CinCout p reg path = gate_emit_iadd32_cin_cout p reg"
| "op_emit IsubBinBout p reg path = gate_emit_isub_bin_bout p reg"
| "op_emit Imul p reg path = gate_emit_imul p reg"
| "op_emit Bmul p reg path = gate_emit_bmul p reg"
| "op_emit ShiftOp p reg path = gate_emit_shift p reg"
| "op_emit IcmpUlt p reg path = gate_emit_icmp_ult p reg"
| "op_emit IcmpEq p reg path = gate_emit_icmp_eq p reg"
| "op_emit AssertEq p reg path = gate_emit_assert_eq p reg path"
| "op_emit AssertZero p reg path = gate_emit_assert_zero p reg path"
| "op_emit AssertNonZero p reg path = gate_emit_assert_non_zero p reg path"
| "op_emit AssertFalse p reg path = gate_emit_assert_false p reg path"
| "op_emit AssertTrue p reg path = gate_emit_assert_true p reg path"
| "op_emit AssertEqCond p reg path = gate_emit_assert_eq_cond p reg path"

definition gate_emit_hint :: "hint_id \<Rightarrow> gate_param \<Rightarrow> nat list \<Rightarrow> resolver \<Rightarrow> bytecode_builder \<Rightarrow> bytecode_builder" where
  "gate_emit_hint hid gate dims reg bc = emit_hint hid dims (map reg (p_inputs gate)) (map reg (p_outputs gate)) bc"

definition gate_emit_bytecode ::
  "hint_registry \<Rightarrow> gate_data \<Rightarrow> path_spec \<Rightarrow> resolver \<Rightarrow> bytecode_builder \<Rightarrow> bytecode_builder option" where
  "gate_emit_bytecode r d path reg bc = do {
    p \<leftarrow> get_gate_param r d;
    (case body d of
       Op opcode \<Rightarrow> op_emit opcode p reg path bc
     | HintCall hid \<Rightarrow> Some (gate_emit_hint hid p (dimensions d) reg bc))
  }"

section \<open>What the instructions do\<close>

definition append_code :: "insn list \<Rightarrow> bytecode_builder \<Rightarrow> bytecode_builder" where
  "append_code code bc = \<lparr>bb_bytecode = bb_bytecode bc @ concat (map encode code),
    bb_n_eval_insn = bb_n_eval_insn bc + length code\<rparr>"

lemma append_insn_code [simp]:
  "append_insn i bc = append_code [i] bc" "append_code c' (append_code c bc) = append_code (c @ c') bc"
  by (simp_all add: append_insn_def append_code_def)

text \<open>The registers of one gate: what it writes is kept apart, and what it writes before its last
  instruction is kept apart from what it still reads.\<close>

definition regs_fit :: "gate_param \<Rightarrow> resolver \<Rightarrow> bool" where
  "regs_fit p reg \<longleftrightarrow> distinct (map reg (p_outputs p @ p_aux p @ p_scratch p)) \<and>
    reg ` set (p_aux p @ p_scratch p) \<inter> reg ` set (p_constants p @ p_inputs p) = {}"

text \<open>\<open>computes\<close>: the code runs in the gate's registers, writes only its own wires, leaves the value
  of the gate on its outputs, and reports exactly the violation the constant evaluator reports.\<close>

definition computes :: "hint_registry \<Rightarrow> (u64 list \<Rightarrow> (violation, u64 list) outcome) \<Rightarrow> bool \<Rightarrow>
    gate_param \<Rightarrow> resolver \<Rightarrow> path_spec \<Rightarrow> u64 list \<Rightarrow> insn list \<Rightarrow> bool" where
  "computes hints val nz p reg path cs code \<longleftrightarrow>
    (\<forall>i \<in> set code. insn_ok hints (reg ` set (param_wires p)) i) \<and>
    (\<forall>f. map f (map reg (p_constants p)) = map Some cs \<longrightarrow>
      (let f' = fst (col_run hints code f); out = val (vals f (map reg (p_inputs p))) in
        snd (col_run hints code f) = (case out of Err m \<Rightarrow> [(path, m)] | _ \<Rightarrow> []) \<and>
        (\<forall>os. out = Ok os \<longrightarrow> map f' (map reg (p_outputs p)) = map Some os) \<and>
        (\<forall>q. q \<notin> reg ` set (p_outputs p @ p_aux p @ p_scratch p) \<longrightarrow> f' q = f q) \<and>
        (nz \<longrightarrow> map f' (map reg (p_aux p)) =
          map (\<lambda>x. Some (snd (iadd_cin_cout ALL_ONE x ZERO))) (vals f (map reg (p_inputs p))))))"

lemmas code_simps = shape_defs param_fits_def arity computes_def regs_fit_def param_wires_def Let_def

lemma code_exI: "P code \<Longrightarrow> \<exists>c. append_code code bc = append_code c bc \<and> P c"
  by blast

lemmas gate_emit_defs = gate_emit_band_def gate_emit_bxor_def gate_emit_bxor_multi_def gate_emit_bor_def gate_emit_fax_def gate_emit_select_def gate_emit_iadd_cin_cout_def gate_emit_iadd32_def gate_emit_iadd32_cin_cout_def gate_emit_isub_bin_bout_def gate_emit_imul_def gate_emit_bmul_def gate_emit_shift_def gate_emit_icmp_ult_def gate_emit_icmp_eq_def gate_emit_assert_eq_def gate_emit_assert_zero_def gate_emit_assert_non_zero_def gate_emit_assert_false_def gate_emit_assert_true_def gate_emit_assert_eq_cond_def

lemma non_zero_word: "snd (iadd_cin_cout ALL_ONE x ZERO) = ZERO \<longleftrightarrow> x = ZERO"
proof
  assume "snd (iadd_cin_cout ALL_ONE x ZERO) = ZERO"
  then have "\<not> bit (snd (iadd_cin_cout ALL_ONE x ZERO)) 63" by (simp add: ZERO_def)
  then show "x = ZERO" using non_zero_carry by (simp add: ZERO_def)
qed (simp add: iadd_cin_cout_def ZERO_def)

lemma op_emit_multi:
  assumes "op_shape BxorMulti dims = Some s" "param_fits s p" "regs_fit p reg" "length (p_inputs p) < 2 ^ 32"
  shows "\<exists>code. gate_emit_bxor_multi p reg bc = Some (append_code code bc) \<and>
    computes hints (op_eval BxorMulti (p_imm p)) (BxorMulti = AssertNonZero) p reg path (const_in s) code"
  using assms op_shape_BxorMulti[of dims s]
  by (clarsimp simp: code_simps gate_emit_defs simp del: op_shape.simps) (intro code_exI; auto)

lemma op_emit_shift:
  assumes "op_shape ShiftOp dims = Some s" "param_fits s p" "imm_ok ShiftOp (p_imm p)"
  shows "\<exists>code. gate_emit_shift p reg bc = Some (append_code code bc) \<and>
    computes hints (op_eval ShiftOp (p_imm p)) (ShiftOp = AssertNonZero) p reg path (const_in s) code"
proof -
  obtain x z vr n v where p: "p_inputs p = [x]" "p_outputs p = [z]" "p_imm p = [vr, n]" "p_constants p = []"
      "p_aux p = []" "p_scratch p = []"
    and v: "variant_from_u8 (ucast vr) = Some v" "unat n < max_amount v" and s: "const_in s = []"
    using assms by (auto simp: kind_simps imm_ok_def)
  have "unat n < 64" using v(2) max_amount_le[of v] by linarith
  then have "unat (ucast n :: u8) = unat n"
    by (simp add: unsigned_ucast_eq take_bit_nat_eq_self)
  then show ?thesis using p v s
    by (clarsimp simp: gate_emit_shift_def variant_of_def) (intro code_exI, auto simp: computes_def param_wires_def Let_def)
qed

lemma op_emit_non_zero:
  assumes "op_shape AssertNonZero dims = Some s" "param_fits s p" "regs_fit p reg"
  shows "\<exists>code. gate_emit_assert_non_zero p reg path bc = Some (append_code code bc) \<and>
    computes hints (op_eval AssertNonZero (p_imm p)) (AssertNonZero = AssertNonZero) p reg path (const_in s) code"
  using assms
  by (clarsimp simp: code_simps gate_emit_defs) (intro code_exI; auto simp: non_zero_word)

lemma op_emit_computes:
  assumes shape: "op_shape opcode dims = Some s" and fits: "param_fits s p" and imm: "imm_ok opcode (p_imm p)"
    and regs: "regs_fit p reg" and small: "length (p_inputs p) < 2 ^ 32"
  shows "\<exists>code. op_emit opcode p reg path bc = Some (append_code code bc) \<and>
    computes hints (op_eval opcode (p_imm p)) (opcode = AssertNonZero) p reg path (const_in s) code"
proof (cases "opcode = BxorMulti \<or> opcode = ShiftOp \<or> opcode = AssertNonZero")
  case False
  then show ?thesis using assms
    by (cases opcode; clarsimp simp: code_simps gate_emit_defs; intro code_exI; (auto split: prod.splits)?)
next
  case True
  then show ?thesis
    using assms op_emit_multi[OF _ fits regs small] op_emit_shift[OF _ fits] op_emit_non_zero[OF _ fits regs]
    by (elim disjE) (simp_all del: op_shape.simps)
qed

section \<open>A gate of a graph\<close>

definition gate_fits_code :: "gate_data \<Rightarrow> bool" where
  "gate_fits_code d \<longleftrightarrow> length (wires d) < 2 ^ 32 \<and> length (dimensions d) < 2 ^ 32 \<and> (\<forall>x \<in> set (dimensions d). x < 2 ^ 32)"

lemma writes_other: "q \<notin> set ds \<Longrightarrow> writes f ds ws q = f q"
  by (induction f ds ws rule: writes.induct) auto

lemma writes_read: "distinct ds \<Longrightarrow> length ds = length ws \<Longrightarrow> map (writes f ds ws) ds = map Some ws"
proof (induction f ds ws rule: writes.induct)
  case (1 f d ds w ws)
  have "writes (f(d \<mapsto> w)) ds ws d = Some w" using 1(2) writes_other[of d ds "f(d \<mapsto> w)" ws] by simp
  then show ?case using 1 by (simp del: fun_upd_apply)
qed simp_all

lemma hint_computes:
  assumes gwf: "gate_wf r ks d" and reg_ok: "registry_ok r" and hint: "body d = HintCall hid"
    and p: "get_gate_param r d = Some p" and fit: "regs_fit p reg" and small: "gate_fits_code d"
  shows "\<exists>code. gate_emit_bytecode r d path reg bc = Some (append_code code bc) \<and>
    computes r (gate_value r d) False p reg path [] code"
proof -
  obtain s q where s: "gate_shape r d = Some s" "get_gate_param r d = Some q" "param_fits s q" "wires d = param_wires q"
    by (rule validated_gate_param[of r d]) (use gwf in \<open>simp_all add: gate_wf_def\<close>)
  have q: "q = p" using s(2) p by simp
  obtain h where h: "r hid = Some h" "s = case_prod shape_new (hint_shape h (dimensions d))"
    using s(1) hint by (auto simp: gate_shape_def reg_shape_def)
  obtain n_in n_out where n: "hint_shape h (dimensions d) = (n_in, n_out)" by fastforce
  have ok: "hint_ok h" using reg_ok h(1) by (auto simp: registry_ok_def Map.ran_def)
  have len: "length (p_inputs p) = n_in" "length (p_outputs p) = n_out" "p_constants p = []" "p_aux p = []" "p_scratch p = []"
    using s(3) h(2) n q by (simp_all add: param_fits_def shape_new_def)
  have out: "length (hint_execute h (dimensions d) xs (replicate n_out 0)) = n_out" for xs
    using ok by (simp add: hint_ok_def)
  have "length (wires d) = n_in + n_out" using s(4) q len by (simp add: param_wires_def)
  then have "computes r (gate_value r d) False p reg path []
      [CallHint hid (dimensions d) (map reg (p_inputs p)) (map reg (p_outputs p))]"
    using small h(1) n len fit hint out
    by (auto simp: computes_def param_wires_def gate_fits_code_def gate_value_def reg_shape_def reg_execute_def
        ZERO_def Let_def regs_fit_def writes_other writes_read simp del: map_map)
  then show ?thesis using p hint
    by (intro exI[of _ "[CallHint hid (dimensions d) (map reg (p_inputs p)) (map reg (p_outputs p))]"])
      (simp add: gate_emit_bytecode_def gate_emit_hint_def)
qed

lemma gate_emit_computes:
  assumes gwf: "gate_wf r ks d" and imm: "gate_imm_ok d" and reg_ok: "registry_ok r"
    and p: "get_gate_param r d = Some p" and fit: "regs_fit p reg" and small: "gate_fits_code d"
  shows "\<exists>code s. gate_emit_bytecode r d path reg bc = Some (append_code code bc) \<and> gate_shape r d = Some s \<and>
    computes r (gate_value r d) (body d = Op AssertNonZero) p reg path (const_in s) code"
proof -
  obtain s q where s: "gate_shape r d = Some s" "get_gate_param r d = Some q" "param_fits s q" "wires d = param_wires q"
      "immediates d = p_imm q"
    by (rule validated_gate_param[of r d]) (use gwf in \<open>simp_all add: gate_wf_def\<close>)
  have q: "q = p" using s(2) p by simp
  show ?thesis
  proof (cases "body d")
    case (HintCall hid)
    then have "const_in s = []" using s(1) by (auto simp: gate_shape_def reg_shape_def shape_new_def)
    then show ?thesis using hint_computes[OF gwf reg_ok HintCall p fit small, of path bc] s(1) HintCall by auto
  next
    case (Op opcode)
    have "length (p_inputs p) < 2 ^ 32" using small s(4) q by (simp add: gate_fits_code_def param_wires_def)
    then obtain code where "op_emit opcode p reg path bc = Some (append_code code bc)"
      "computes r (op_eval opcode (p_imm p)) (opcode = AssertNonZero) p reg path (const_in s) code"
      using op_emit_computes[of opcode "dimensions d" s p reg path bc r] s q Op imm fit
      by (auto simp: gate_shape_def gate_imm_ok_def)
    then show ?thesis using Op p s(1,5) q by (auto simp: gate_emit_bytecode_def gate_value_def[abs_def])
  qed
qed

lemma gate_value_total:
  assumes "gate_wf r ks d" "gate_imm_ok d" "get_gate_param r d = Some p" "length xs = length (p_inputs p)"
  shows "gate_value r d xs \<noteq> Panic"
proof -
  obtain s q where s: "gate_shape r d = Some s" "get_gate_param r d = Some q" "param_fits s q" "immediates d = p_imm q"
    by (rule validated_gate_param[of r d]) (use assms(1) in \<open>simp_all add: gate_wf_def\<close>)
  then have n: "length xs = n_in s" using assms(3,4) by (simp add: param_fits_def)
  show ?thesis
  proof (cases "body d")
    case (Op opcode)
    have "op_shape opcode (dimensions d) = Some s" "imm_ok opcode (immediates d)"
      using s(1) assms(2) Op by (simp_all add: gate_shape_def gate_imm_ok_def)
    from op_eval_total[OF this(1) n this(2)] show ?thesis
      using Op by (auto simp: gate_value_def split: outcome.splits)
  next
    case (HintCall hid)
    then obtain h where "r hid = Some h" using s(1) by (auto simp: gate_shape_def reg_shape_def)
    then show ?thesis using HintCall by (auto simp: gate_value_def reg_shape_def reg_execute_def split: prod.splits)
  qed
qed

section \<open>Property\<close>

text \<open>C12: The two evaluators agree. For a gate of a well-formed graph whose registers are kept apart,
  emitting its instructions and interpreting them over a value vector that holds its inputs and
  constants returns; where the constant evaluator returns outputs, no assertion fails and the output
  registers hold those outputs; where it returns a violation, that violation is the one failure the
  interpreter reports.\<close>

theorem interpreter_matches_evaluator:
  assumes "graph_wf r g" "read_at (gg_gates g) gate = Some d" "gate_imm_ok d" "registry_ok r"
    and "get_gate_param r d = Some p" "gate_shape r d = Some s" "regs_fit p reg" "gate_fits_code d"
    and "aw_ok (vv_data v)" "reg ` set (wires d) \<subseteq> dom (vv_word v)"
    and "map (vv_word v) (map reg (p_constants p)) = map Some (const_in s)"
  shows "\<exists>bc res v'. gate_emit_bytecode r d path reg bb_new = Some bc \<and>
    ef_evaluate \<lparr>ef_bytecode = bb_bytecode bc, ef_n_eval_insn = bb_n_eval_insn bc, ef_hint_registry = r\<rparr> v None
      = Some (res, v') \<and>
    (case evaluate_gate_constants g gate (vals (vv_word v) (map reg (p_inputs p))) r of
       Ok outs \<Rightarrow> res = Ok () \<and> map (vv_word v') (map reg (p_outputs p)) = map Some outs
     | Err m \<Rightarrow> res = Err \<lparr>pe_failures = [\<lparr>af_path = [], af_detail = m\<rparr>], pe_total = 1\<rparr>
     | Panic \<Rightarrow> False)"
proof -
  have gwf: "gate_wf r (gg_wires g) d"
    using assms(1,2) by (auto simp: graph_wf_def read_at_def split: if_splits)
  obtain q where q: "get_gate_param r d = Some q" "wires d = param_wires q"
    by (rule validated_gate_param[of r d]) (use gwf in \<open>simp_all add: gate_wf_def\<close>)
  then have ws: "wires d = param_wires p" using assms(5) by simp
  obtain code where code: "gate_emit_bytecode r d path reg bb_new = Some (append_code code bb_new)"
    "computes r (gate_value r d) (body d = Op AssertNonZero) p reg path (const_in s) code"
    using gate_emit_computes[OF gwf assms(3,4,5,7,8), of path bb_new] assms(6) by auto
  let ?f = "vv_word v"
  let ?out = "gate_value r d (vals ?f (map reg (p_inputs p)))"
  note comp = code(2)[unfolded computes_def Let_def]
  have ok: "\<forall>i \<in> set code. insn_ok r (reg ` set (wires d)) i"
    using conjunct1[OF comp] by (simp only: ws)
  note eff = conjunct2[OF comp, rule_format, of ?f, OF assms(11)]
  have runs: "snd (col_run r code ?f) = (case ?out of Err m \<Rightarrow> [(path, m)] | _ \<Rightarrow> [])"
    by (rule conjunct1[OF eff])
  have outs: "map (fst (col_run r code ?f)) (map reg (p_outputs p)) = map Some os" if "?out = Ok os" for os
    using eff that by simp
  obtain v' where v': "ef_evaluate (form_of r code) v None = Some (report None (snd (col_run r code ?f)), v')"
    "vv_word v' = fst (col_run r code ?f)"
    using evaluate_spec[OF assms(4) ok assms(10,9), of None] by auto
  have form: "\<lparr>ef_bytecode = bb_bytecode (append_code code bb_new),
      ef_n_eval_insn = bb_n_eval_insn (append_code code bb_new), ef_hint_registry = r\<rparr> = form_of r code"
    by (simp add: form_of_def append_code_def bb_new_def)
  have "?out \<noteq> Panic" by (rule gate_value_total[OF gwf assms(3,5)]) simp
  moreover have "evaluate_gate_constants g gate (vals ?f (map reg (p_inputs p))) r = ?out"
    using assms(2) by (simp add: evaluate_gate_constants_def)
  moreover have "report None [(path, m)] = Err \<lparr>pe_failures = [\<lparr>af_path = [], af_detail = m\<rparr>], pe_total = 1\<rparr>" for m
    by (simp add: report_def resolve_def render_path_def MAX_ASSERTION_FAILURES_def)
  ultimately show ?thesis
    using code(1) v' runs outs form by (cases ?out) (auto simp: report_def)
qed

text \<open>An addition with carries over words 40 and 2 and a carry in.\<close>

definition sample_iadd_graph :: gate_graph where
  "sample_iadd_graph = \<lparr>gg_gates = [\<lparr>body = Op IaddCinCout, wires = [1, 2, 3, 4, 5], immediates = [], dimensions = []\<rparr>],
    gg_wires = KConstant ALL_ONE # replicate 5 KWitness, gate_origin = (\<lambda>_. 0), assertion_names = (\<lambda>_. 0),
    const_pool = [ALL_ONE \<mapsto> 0], all_one = 0, wire_def = (\<lambda>_. None), use_edges = [], use_offsets = []\<rparr>"

definition sample_iadd_vec :: value_vec where
  "sample_iadd_vec = \<lparr>vv_n_const = 1, vv_n_public_values = 1, vv_n_private = 5,
    vv_data = \<lparr>blocks = [(ALL_ONE, 40), (2, MSB_ONE), (0, 0)], aw_len = 6\<rparr>\<rparr>"

lemma interpreter_matches_evaluator_witness:
  "\<exists>bc res v'. gate_emit_bytecode Map.empty (gg_gates sample_iadd_graph ! 0) 0 word_of_nat bb_new = Some bc \<and>
    ef_evaluate \<lparr>ef_bytecode = bb_bytecode bc, ef_n_eval_insn = bb_n_eval_insn bc, ef_hint_registry = Map.empty\<rparr>
      sample_iadd_vec None = Some (res, v') \<and> res = Ok () \<and> vv_word v' 4 = Some 43"
proof -
  let ?p = "\<lparr>p_constants = [], p_inputs = [1, 2, 3], p_outputs = [4, 5], p_aux = [], p_scratch = [], p_imm = []\<rparr>"
  have nums: "read_at [a, b, c, d, e, f] 0 = Some a" "read_at [a, b, c, d, e, f] 1 = Some b" for a b c d e f :: u64
    by (simp_all add: read_at_def)
  have w: "vv_word sample_iadd_vec r = read_at [ALL_ONE, 40, 2, MSB_ONE, 0, 0] (unat r)" for r
    by (simp add: vv_word_def sample_iadd_vec_def aw_deref_def)
  have "\<exists>bc res v'. gate_emit_bytecode Map.empty (gg_gates sample_iadd_graph ! 0) 0 word_of_nat bb_new = Some bc \<and>
    ef_evaluate \<lparr>ef_bytecode = bb_bytecode bc, ef_n_eval_insn = bb_n_eval_insn bc, ef_hint_registry = Map.empty\<rparr>
      sample_iadd_vec None = Some (res, v') \<and>
    (case evaluate_gate_constants sample_iadd_graph 0
        (vals (vv_word sample_iadd_vec) (map word_of_nat (p_inputs ?p))) Map.empty of
       Ok outs \<Rightarrow> res = Ok () \<and> map (vv_word v') (map word_of_nat (p_outputs ?p)) = map Some outs
     | Err m \<Rightarrow> res = Err \<lparr>pe_failures = [\<lparr>af_path = [], af_detail = m\<rparr>], pe_total = 1\<rparr>
     | Panic \<Rightarrow> False)"
    by (rule interpreter_matches_evaluator[where s = "shape_new 3 2"])
      (auto simp: graph_wf_def gate_wf_def sample_iadd_graph_def validate_shape_def gate_shape_def shape_wires_def
        shape_defs nth_Cons' read_at_def gate_imm_ok_def imm_ok_def registry_ok_def get_gate_param_def
        gate_param_for_shape_def slice_def regs_fit_def gate_fits_code_def sample_iadd_vec_def aw_ok_def
        vv_word_def aw_deref_def)
  moreover have "evaluate_gate_constants sample_iadd_graph 0
        (vals (vv_word sample_iadd_vec) (map word_of_nat (p_inputs ?p))) Map.empty = Ok [43, 0]"
    by (simp add: evaluate_gate_constants_def gate_value_def sample_iadd_graph_def read_at_def w
        iadd_cin_cout_def Let_def shr_def MSB_ONE_def)
  ultimately show ?thesis by auto
qed

end
