(* ===== verification/Graph_Run.thy ===== *)
theory Graph_Run
  imports Gate_Code Eval_Contexts
begin

text \<open>
  \<open>EvalForm::build\<close> of \<open>eval_form/mod.rs\<close>: the program of a whole graph.  \<open>graph_run\<close> says what a graph
  computes from values of its wires, gate by gate, with the failures in order; the program computes
  that, in any assignment of registers that keeps each value until its last reader.
\<close>

section \<open>The program of a graph\<close>

definition wire_to_reg :: "(wire \<Rightarrow> value_index) \<Rightarrow> value_vec_layout \<Rightarrow> resolver" where
  "wire_to_reg mapping l w = word_of_nat (lay_word_offset l (mapping w))"

fun emit_gates :: "hint_registry \<Rightarrow> (gate \<Rightarrow> path_spec) \<Rightarrow> resolver \<Rightarrow> gate \<Rightarrow> gate_data list \<Rightarrow>
    bytecode_builder \<Rightarrow> bytecode_builder option" where
  "emit_gates r names reg gate [] bc = Some bc"
| "emit_gates r names reg gate (d # ds) bc = do {
    bc \<leftarrow> gate_emit_bytecode r d (names gate) reg bc;
    emit_gates r names reg (Suc gate) ds bc
  }"

definition eval_form_build ::
  "gate_graph \<Rightarrow> (wire \<Rightarrow> value_index) \<Rightarrow> value_vec_layout \<Rightarrow> hint_registry \<Rightarrow> eval_form option" where
  "eval_form_build g mapping l r = do {
    bc \<leftarrow> emit_gates r (assertion_names g) (wire_to_reg mapping l) 0 (gg_gates g) bb_new;
    let (bytecode, n_eval_insn) = bb_finalize bc;
    Some \<lparr>ef_bytecode = bytecode, ef_n_eval_insn = n_eval_insn, ef_hint_registry = r\<rparr>
  }"

section \<open>What a graph computes\<close>

definition assign :: "wire list \<Rightarrow> u64 list \<Rightarrow> (wire \<Rightarrow> u64) \<Rightarrow> wire \<Rightarrow> u64" where
  "assign ws xs \<sigma> = fold (\<lambda>(w, x) \<sigma>. \<sigma>(w := x)) (zip ws xs) \<sigma>"

text \<open>The wires a gate writes, those whose final value it determines, and its values.\<close>

definition gate_writes :: "gate_param \<Rightarrow> wire list" where
  "gate_writes p = p_outputs p @ p_aux p @ p_scratch p"

definition gate_results :: "gate_data \<Rightarrow> gate_param \<Rightarrow> wire list" where
  "gate_results d p = p_outputs p @ (if body d = Op AssertNonZero then p_aux p else [])"

definition zero_tests :: "u64 list \<Rightarrow> u64 list" where
  "zero_tests xs = map (\<lambda>x. snd (iadd_cin_cout ALL_ONE x ZERO)) xs"

definition gate_effect ::
  "hint_registry \<Rightarrow> gate_data \<Rightarrow> gate_param \<Rightarrow> (wire \<Rightarrow> u64) \<Rightarrow> (wire \<Rightarrow> u64) \<times> violation list" where
  "gate_effect r d p \<sigma> =
    (let ins = map \<sigma> (p_inputs p); out = gate_value r d ins;
         \<sigma>' = (case out of Ok os \<Rightarrow> assign (p_outputs p) os \<sigma> | _ \<Rightarrow> \<sigma>)
     in (if body d = Op AssertNonZero then assign (p_aux p) (zero_tests ins) \<sigma>' else \<sigma>',
         case out of Err m \<Rightarrow> [m] | _ \<Rightarrow> []))"

fun graph_run :: "hint_registry \<Rightarrow> (gate \<Rightarrow> path_spec) \<Rightarrow> gate \<Rightarrow> gate_data list \<Rightarrow> (wire \<Rightarrow> u64) \<Rightarrow>
    (wire \<Rightarrow> u64) \<times> (path_spec \<times> violation) list" where
  "graph_run r names gate [] \<sigma> = (\<sigma>, [])"
| "graph_run r names gate (d # ds) \<sigma> =
    (case get_gate_param r d of
       None \<Rightarrow> (\<sigma>, [])
     | Some p \<Rightarrow>
         (case gate_effect r d p \<sigma> of (\<sigma>, ms) \<Rightarrow>
          case graph_run r names (Suc gate) ds \<sigma> of (\<sigma>, fs) \<Rightarrow> (\<sigma>, map (Pair (names gate)) ms @ fs)))"

lemma assign_other: "w \<notin> set ws \<Longrightarrow> assign ws xs \<sigma> w = \<sigma> w"
  unfolding assign_def
proof (induction ws arbitrary: xs \<sigma>)
  case (Cons v ws)
  then show ?case by (cases xs) auto
qed simp

lemma assign_read: "distinct ws \<Longrightarrow> length xs = length ws \<Longrightarrow> map (assign ws xs \<sigma>) ws = xs"
proof (induction ws arbitrary: xs \<sigma>)
  case (Cons v ws)
  then obtain y ys where xs: "xs = y # ys" by (cases xs) auto
  have "assign (v # ws) xs \<sigma> = assign ws ys (\<sigma>(v := y))" by (simp add: assign_def xs)
  then show ?case using Cons assign_other[of v ws ys "\<sigma>(v := y)"] xs by simp
qed simp

section \<open>Registers that carry values\<close>

definition carries :: "resolver \<Rightarrow> wire set \<Rightarrow> (wire \<Rightarrow> u64) \<Rightarrow> regfile \<Rightarrow> bool" where
  "carries reg V \<sigma> f \<longleftrightarrow> (\<forall>w \<in> V. f (reg w) = Some (\<sigma> w))"

text \<open>The wires still carried after a gate, and what a run needs of the wires carried before it.\<close>

definition carried_on :: "resolver \<Rightarrow> gate_data \<Rightarrow> gate_param \<Rightarrow> wire set \<Rightarrow> wire set" where
  "carried_on reg d p V = {w \<in> V. reg w \<notin> reg ` set (gate_writes p)} \<union> set (gate_results d p)"

fun reads_carried :: "hint_registry \<Rightarrow> resolver \<Rightarrow> gate_data list \<Rightarrow> wire set \<Rightarrow> bool" where
  "reads_carried r reg [] V \<longleftrightarrow> True"
| "reads_carried r reg (d # ds) V \<longleftrightarrow>
    (case get_gate_param r d of
       None \<Rightarrow> False
     | Some p \<Rightarrow> regs_fit p reg \<and> set (p_constants p @ p_inputs p) \<subseteq> V \<and>
         reads_carried r reg ds (carried_on reg d p V))"

fun carried_to :: "hint_registry \<Rightarrow> resolver \<Rightarrow> gate_data list \<Rightarrow> wire set \<Rightarrow> wire set" where
  "carried_to r reg [] V = V"
| "carried_to r reg (d # ds) V =
    (case get_gate_param r d of None \<Rightarrow> V | Some p \<Rightarrow> carried_to r reg ds (carried_on reg d p V))"

lemma op_eval_Err_no_outputs:
  assumes "op_shape opcode dims = Some s" "op_eval opcode imm ins = Err m"
  shows "n_out s = 0"
  using assms by (cases opcode) (auto simp: shape_defs split: list.splits prod.splits option.splits if_splits)

lemma gate_value_Err:
  assumes "gate_shape r d = Some s" "gate_value r d ins = Err m"
  shows "n_out s = 0"
proof (cases "body d")
  case (Op opcode)
  then show ?thesis using assms op_eval_Err_no_outputs by (auto simp: gate_shape_def gate_value_def)
next
  case (HintCall hid)
  then show ?thesis using assms by (auto simp: gate_value_def outcome_simps split: prod.splits)
qed

lemma effect_other: "w \<notin> set (gate_results d p) \<Longrightarrow> fst (gate_effect r d p \<sigma>) w = \<sigma> w"
  by (auto simp: gate_effect_def gate_results_def Let_def assign_other split: outcome.splits)

lemma effect_results:
  assumes "param_fits s p" "gate_shape r d = Some s" "distinct (gate_writes p)" "gate_value r d (map \<sigma> (p_inputs p)) \<noteq> Panic"
    and len: "\<forall>os. gate_value r d (map \<sigma> (p_inputs p)) = Ok os \<longrightarrow> length os = length (p_outputs p)"
  shows "\<And>os. gate_value r d (map \<sigma> (p_inputs p)) = Ok os \<Longrightarrow> map (fst (gate_effect r d p \<sigma>)) (p_outputs p) = os"
    and "gate_value r d (map \<sigma> (p_inputs p)) = Err m \<Longrightarrow> p_outputs p = []"
    and "body d = Op AssertNonZero \<Longrightarrow> map (fst (gate_effect r d p \<sigma>)) (p_aux p) = zero_tests (map \<sigma> (p_inputs p))"
proof -
  have dist: "distinct (p_outputs p)" "distinct (p_aux p)" "set (p_outputs p) \<inter> set (p_aux p) = {}"
    using assms(3) by (auto simp: gate_writes_def)
  show no_out: "gate_value r d (map \<sigma> (p_inputs p)) = Err m \<Longrightarrow> p_outputs p = []" for m
    using gate_value_Err[OF assms(2)] assms(1) by (fastforce simp: param_fits_def)
  have nz: "body d = Op AssertNonZero \<Longrightarrow> length (p_aux p) = 1 \<and> length (p_inputs p) = 1 \<and> p_outputs p = []"
    using assms(1,2) by (auto simp: gate_shape_def param_fits_def shape_defs)
  show "gate_value r d (map \<sigma> (p_inputs p)) = Ok os \<Longrightarrow> map (fst (gate_effect r d p \<sigma>)) (p_outputs p) = os" for os
    using nz assign_read[OF dist(1), of os \<sigma>] len by (auto simp: gate_effect_def Let_def)
  show "body d = Op AssertNonZero \<Longrightarrow> map (fst (gate_effect r d p \<sigma>)) (p_aux p) = zero_tests (map \<sigma> (p_inputs p))"
    using nz by (auto simp: gate_effect_def Let_def zero_tests_def intro!: assign_read[OF dist(2)])
qed

lemma gate_value_length:
  assumes "gate_wf r ks d" "gate_imm_ok d" "registry_ok r" "gate_shape r d = Some s" "param_fits s p"
    and "gate_value r d xs = Ok os" "length xs = length (p_inputs p)"
  shows "length os = length (p_outputs p)"
proof (cases "body d")
  case (Op opcode)
  have "op_shape opcode (dimensions d) = Some s" "imm_ok opcode (immediates d)"
    using assms(2,4) Op by (simp_all add: gate_shape_def gate_imm_ok_def)
  from op_eval_total[OF this(1) _ this(2), of xs] show ?thesis
    using Op assms(5,6,7) by (auto simp: gate_value_def param_fits_def)
next
  case (HintCall hid)
  then obtain h i n where h: "r hid = Some h" "hint_shape h (dimensions d) = (i, n)" "s = shape_new i n"
    using assms(4) by (cases "r hid") (auto simp: gate_shape_def reg_shape_def split: prod.splits)
  moreover have "hint_ok h" using assms(3) h(1) by (auto simp: registry_ok_def Map.ran_def)
  ultimately show ?thesis using HintCall assms(5,6)
    by (auto simp: gate_value_def reg_shape_def reg_execute_def hint_ok_def param_fits_def shape_new_def)
qed

lemma carried_list:
  assumes "map f (map reg ws) = map Some xs" "map \<tau> ws = xs" "w \<in> set ws"
  shows "f (reg w) = Some (\<tau> w)"
  using assms(1,3) unfolding assms(2)[symmetric] by simp

text \<open>One gate: its code moves the registers as the gate moves the values.\<close>

lemma gate_step:
  assumes gwf: "gate_wf r ks d" and imm: "gate_imm_ok d" and reg_ok: "registry_ok r" and small: "gate_fits_code d"
    and p: "get_gate_param r d = Some p" and fit: "regs_fit p reg"
    and V: "set (p_constants p @ p_inputs p) \<subseteq> V" and cnst: "consts_hold ks \<sigma>"
    and carries: "carries reg V \<sigma> f"
    and comp: "computes r (gate_value r d) (body d = Op AssertNonZero) p reg path (const_in s) code"
    and s: "gate_shape r d = Some s"
  shows "carries reg (carried_on reg d p V) (fst (gate_effect r d p \<sigma>)) (fst (col_run r code f)) \<and>
    snd (col_run r code f) = map (Pair path) (snd (gate_effect r d p \<sigma>)) \<and>
    (\<forall>q. q \<notin> reg ` set (gate_writes p) \<longrightarrow> fst (col_run r code f) q = f q)"
proof -
  obtain s' q where q: "gate_shape r d = Some s'" "get_gate_param r d = Some q" "param_fits s' q" "wires d = param_wires q"
    by (rule validated_gate_param[of r d]) (use gwf in \<open>simp_all add: gate_wf_def\<close>)
  then have fits: "param_fits s p" and ws: "wires d = param_wires p" using p s by simp_all
  have "map \<sigma> (p_constants p) = const_in s"
    by (rule param_constants_hold[OF gwf cnst s fits ws])
  then have cs: "map f (map reg (p_constants p)) = map Some (const_in s)"
    using carries V by (auto simp: carries_def list_eq_iff_nth_eq subset_iff)
  have ins: "vals f (map reg (p_inputs p)) = map \<sigma> (p_inputs p)"
    using carries V by (auto simp: carries_def)
  note eff = conjunct2[OF comp[unfolded computes_def Let_def], rule_format, of f, OF cs, unfolded ins]
  let ?out = "gate_value r d (map \<sigma> (p_inputs p))"
  have total: "?out \<noteq> Panic" by (rule gate_value_total[OF gwf imm p]) simp
  have fails: "snd (col_run r code f) = map (Pair path) (snd (gate_effect r d p \<sigma>))"
    using conjunct1[OF eff] by (cases ?out) (simp_all add: gate_effect_def Let_def)
  have dist: "distinct (map reg (gate_writes p))" using fit by (simp add: regs_fit_def gate_writes_def)
  then have dist': "distinct (gate_writes p)" by (simp add: distinct_map)
  have len: "\<forall>os. ?out = Ok os \<longrightarrow> length os = length (p_outputs p)"
    using gate_value_length[OF gwf imm reg_ok s fits] by simp
  note res = effect_results[OF fits s dist' total len]
  have same: "fst (col_run r code f) (reg w) = Some (fst (gate_effect r d p \<sigma>) w)"
    if w: "w \<in> V" "reg w \<notin> reg ` set (gate_writes p)" for w
  proof -
    have "w \<notin> set (gate_results d p)" using w(2) by (auto simp: gate_results_def gate_writes_def)
    then have "fst (gate_effect r d p \<sigma>) w = \<sigma> w" by (rule effect_other)
    moreover have "fst (col_run r code f) (reg w) = f (reg w)"
      using eff w(2) by (simp add: gate_writes_def)
    ultimately show ?thesis using carries w(1) by (simp add: carries_def)
  qed
  have outs: "fst (col_run r code f) (reg w) = Some (fst (gate_effect r d p \<sigma>) w)" if "w \<in> set (p_outputs p)" for w
  proof (cases ?out)
    case (Ok os)
    show ?thesis
      by (rule carried_list[OF _ _ that]) (use eff Ok res(1)[OF Ok] in simp_all)
  qed (use that res(2) total in auto)
  have aux: "fst (col_run r code f) (reg w) = Some (fst (gate_effect r d p \<sigma>) w)"
    if "w \<in> set (p_aux p)" "body d = Op AssertNonZero" for w
  proof -
    show ?thesis
      by (rule carried_list[where xs = "zero_tests (map \<sigma> (p_inputs p))", OF _ _ that(1)])
        (use eff that(2) res(3)[OF that(2)] in \<open>simp_all add: zero_tests_def\<close>)
  qed
  have "\<forall>q. q \<notin> reg ` set (gate_writes p) \<longrightarrow> fst (col_run r code f) q = f q"
    using eff by (simp add: gate_writes_def)
  then show ?thesis using same outs aux fails
    by (auto simp: carries_def carried_on_def gate_results_def split: if_splits)
qed

lemma insn_ok_mono: "insn_ok hints R i \<Longrightarrow> R \<subseteq> R' \<Longrightarrow> insn_ok hints R' i"
  by (cases i) auto

lemma col_run_append:
  "col_run hints (is' @ js) f =
    (case col_run hints is' f of (f, es) \<Rightarrow> case col_run hints js f of (f, es') \<Rightarrow> (f, es @ es'))"
  by (induction is' arbitrary: f) (simp_all add: split_def)

text \<open>A graph whose gates never write a constant wire.\<close>

definition consts_kept :: "hint_registry \<Rightarrow> wire_kind list \<Rightarrow> gate_data \<Rightarrow> bool" where
  "consts_kept r ks d \<longleftrightarrow>
    (\<forall>p. get_gate_param r d = Some p \<longrightarrow> (\<forall>w \<in> set (gate_writes p). \<not> is_const (ks ! w)))"

lemma results_written: "set (gate_results d p) \<subseteq> set (gate_writes p)"
  by (auto simp: gate_results_def gate_writes_def)

lemma consts_hold_effect:
  assumes "consts_kept r ks d" "get_gate_param r d = Some p" "consts_hold ks \<sigma>"
  shows "consts_hold ks (fst (gate_effect r d p \<sigma>))"
proof -
  have "fst (gate_effect r d p \<sigma>) w = c" if "w < length ks" "ks ! w = KConstant c" for w c
  proof -
    have "w \<notin> set (gate_results d p)" using assms(1,2) that results_written[of d p] by (force simp: consts_kept_def)
    then show ?thesis using effect_other[of w d p r \<sigma>] assms(3) that by (auto simp: consts_hold_def)
  qed
  then show ?thesis by (auto simp: consts_hold_def split: wire_kind.splits)
qed

definition gate_ready :: "hint_registry \<Rightarrow> wire_kind list \<Rightarrow> gate_data \<Rightarrow> bool" where
  "gate_ready r ks d \<longleftrightarrow> gate_wf r ks d \<and> gate_imm_ok d \<and> gate_fits_code d \<and> consts_kept r ks d"

definition all_writes :: "hint_registry \<Rightarrow> gate_data list \<Rightarrow> wire set" where
  "all_writes r ds = (\<Union>d \<in> set ds. \<Union>p \<in> set_option (get_gate_param r d). set (gate_writes p))"

lemma graph_code:
  assumes "registry_ok r"
  shows "\<forall>d \<in> set ds. gate_ready r ks d \<Longrightarrow> reads_carried r reg ds V \<Longrightarrow>
    \<exists>prog. emit_gates r names reg gate ds bc = Some (append_code prog bc) \<and>
      (\<forall>i \<in> set prog. insn_ok r (reg ` (\<Union>d \<in> set ds. set (wires d))) i) \<and>
      (\<forall>\<sigma> f. consts_hold ks \<sigma> \<longrightarrow> carries reg V \<sigma> f \<longrightarrow>
        carries reg (carried_to r reg ds V) (fst (graph_run r names gate ds \<sigma>)) (fst (col_run r prog f)) \<and>
        snd (col_run r prog f) = snd (graph_run r names gate ds \<sigma>) \<and>
        (\<forall>q. q \<notin> reg ` all_writes r ds \<longrightarrow> fst (col_run r prog f) q = f q))"
proof (induction ds arbitrary: gate V bc)
  case Nil
  then show ?case by (intro exI[of _ "[]"]) (simp add: append_code_def)
next
  case (Cons d ds)
  have ready: "gate_wf r ks d" "gate_imm_ok d" "gate_fits_code d" "consts_kept r ks d"
    using Cons.prems(1) by (simp_all add: gate_ready_def)
  obtain p where p: "get_gate_param r d = Some p" "regs_fit p reg" "set (p_constants p @ p_inputs p) \<subseteq> V"
    "reads_carried r reg ds (carried_on reg d p V)"
    using Cons.prems(2) by (auto split: option.splits)
  obtain code s where code: "gate_emit_bytecode r d (names gate) reg bc = Some (append_code code bc)"
    "gate_shape r d = Some s"
    "computes r (gate_value r d) (body d = Op AssertNonZero) p reg (names gate) (const_in s) code"
    using gate_emit_computes[OF ready(1,2) assms p(1,2) ready(3)] by blast
  have ws: "wires d = param_wires p"
  proof -
    obtain q where "get_gate_param r d = Some q" "wires d = param_wires q"
      by (rule validated_gate_param[of r d]) (use ready(1) in \<open>simp_all add: gate_wf_def\<close>)
    then show ?thesis using p(1) by simp
  qed
  obtain prog where prog: "emit_gates r names reg (Suc gate) ds (append_code code bc) = Some (append_code prog (append_code code bc))"
    "\<forall>i \<in> set prog. insn_ok r (reg ` (\<Union>d \<in> set ds. set (wires d))) i"
    "\<And>\<sigma> f. consts_hold ks \<sigma> \<Longrightarrow> carries reg (carried_on reg d p V) \<sigma> f \<Longrightarrow>
      carries reg (carried_to r reg ds (carried_on reg d p V)) (fst (graph_run r names (Suc gate) ds \<sigma>)) (fst (col_run r prog f)) \<and>
      snd (col_run r prog f) = snd (graph_run r names (Suc gate) ds \<sigma>) \<and>
      (\<forall>q. q \<notin> reg ` all_writes r ds \<longrightarrow> fst (col_run r prog f) q = f q)"
    using Cons.IH[of "carried_on reg d p V" "Suc gate" "append_code code bc"] Cons.prems(1) p(4) by auto
  have "insn_ok r (reg ` (\<Union>d \<in> set (d # ds). set (wires d))) i" if "i \<in> set (code @ prog)" for i
  proof (cases "i \<in> set code")
    case True
    have "insn_ok r (reg ` set (wires d)) i"
      using conjunct1[OF code(3)[unfolded computes_def]] True ws by simp
    then show ?thesis by (rule insn_ok_mono) auto
  next
    case False
    then have "insn_ok r (reg ` (\<Union>d \<in> set ds. set (wires d))) i" using prog(2) that by simp
    then show ?thesis by (rule insn_ok_mono) auto
  qed
  moreover have "carries reg (carried_to r reg (d # ds) V) (fst (graph_run r names gate (d # ds) \<sigma>)) (fst (col_run r (code @ prog) f)) \<and>
      snd (col_run r (code @ prog) f) = snd (graph_run r names gate (d # ds) \<sigma>) \<and>
      (\<forall>q. q \<notin> reg ` all_writes r (d # ds) \<longrightarrow> fst (col_run r (code @ prog) f) q = f q)"
    if "consts_hold ks \<sigma>" "carries reg V \<sigma> f" for \<sigma> f
  proof -
    note step = gate_step[OF ready(1,2) assms ready(3) p(1,2,3) that code(3,2)]
    note rest = prog(3)[OF consts_hold_effect[OF ready(4) p(1) that(1)] conjunct1[OF step]]
    show ?thesis using step rest p(1) by (simp add: col_run_append split_def all_writes_def image_Un)
  qed
  ultimately show ?case using code(1) prog(1) by (intro exI[of _ "code @ prog"]) simp
qed

section \<open>Graphs in dependency order\<close>

text \<open>A gate writes its own wires, reads no wire written from it on, and never the working wires of
  another gate.\<close>

definition gate_uses :: "gate_param \<Rightarrow> wire list" where
  "gate_uses p = p_constants p @ p_inputs p"

fun ordered :: "hint_registry \<Rightarrow> gate_data list \<Rightarrow> bool" where
  "ordered r [] \<longleftrightarrow> True"
| "ordered r (d # ds) \<longleftrightarrow>
    (\<exists>p. get_gate_param r d = Some p \<and> distinct (gate_writes p) \<and> set (gate_uses p) \<inter> set (gate_writes p) = {} \<and>
      (\<forall>e \<in> set ds. \<forall>q. get_gate_param r e = Some q \<longrightarrow>
        set (gate_writes q) \<inter> set (gate_writes p @ gate_uses p) = {} \<and>
        set (gate_uses q) \<inter> (set (gate_writes p) - set (gate_results d p)) = {})) \<and>
    ordered r ds"

text \<open>A gate's outputs are its value, and its failure, under one valuation of all wires.\<close>

definition gate_done :: "hint_registry \<Rightarrow> gate_data \<Rightarrow> gate_param \<Rightarrow> (wire \<Rightarrow> u64) \<Rightarrow> bool" where
  "gate_done r d p \<sigma> \<longleftrightarrow>
    (\<forall>os. gate_value r d (map \<sigma> (p_inputs p)) = Ok os \<longrightarrow> map \<sigma> (p_outputs p) = os) \<and>
    (body d = Op AssertNonZero \<longrightarrow> map \<sigma> (p_aux p) = zero_tests (map \<sigma> (p_inputs p)))"

definition gate_fails :: "hint_registry \<Rightarrow> gate_data \<Rightarrow> gate_param \<Rightarrow> (wire \<Rightarrow> u64) \<Rightarrow> violation list" where
  "gate_fails r d p \<sigma> = (case gate_value r d (map \<sigma> (p_inputs p)) of Err m \<Rightarrow> [m] | _ \<Rightarrow> [])"

definition graph_fails :: "hint_registry \<Rightarrow> (gate \<Rightarrow> path_spec) \<Rightarrow> gate \<Rightarrow> gate_data list \<Rightarrow> (wire \<Rightarrow> u64) \<Rightarrow>
    (path_spec \<times> violation) list" where
  "graph_fails r names gate ds \<sigma> = concat (map (\<lambda>(i, d). case get_gate_param r d of
      None \<Rightarrow> [] | Some p \<Rightarrow> map (Pair (names i)) (gate_fails r d p \<sigma>)) (enumerate gate ds))"

lemma graph_fails_simps [simp]:
  "graph_fails r names gate [] \<sigma> = []"
  "graph_fails r names gate (d # ds) \<sigma> = (case get_gate_param r d of
      None \<Rightarrow> [] | Some p \<Rightarrow> map (Pair (names gate)) (gate_fails r d p \<sigma>)) @ graph_fails r names (Suc gate) ds \<sigma>"
  by (simp_all add: graph_fails_def)

lemma done_sat:
  assumes "get_gate_param r d = Some p" "gate_done r d p \<sigma>" "gate_fails r d p \<sigma> = []" "gate_value r d (map \<sigma> (p_inputs p)) \<noteq> Panic"
    and "p_imm p = immediates d"
  shows "gate_sat r d \<sigma>"
  using assms by (cases "body d"; cases "gate_value r d (map \<sigma> (p_inputs p))")
    (auto simp: gate_sat_def gate_holds_def gate_done_def gate_fails_def gate_value_def zero_tests_def)

lemma gate_done_cong:
  assumes "\<And>w. w \<in> set (gate_uses p @ gate_writes p) \<Longrightarrow> \<tau> w = \<sigma> w"
  shows "gate_done r d p \<tau> \<longleftrightarrow> gate_done r d p \<sigma>" "gate_fails r d p \<tau> = gate_fails r d p \<sigma>"
proof -
  have "map \<tau> (p_inputs p) = map \<sigma> (p_inputs p)" "map \<tau> (p_outputs p) = map \<sigma> (p_outputs p)"
    "map \<tau> (p_aux p) = map \<sigma> (p_aux p)"
    using assms by (auto simp: gate_uses_def gate_writes_def)
  then show "gate_done r d p \<tau> \<longleftrightarrow> gate_done r d p \<sigma>" "gate_fails r d p \<tau> = gate_fails r d p \<sigma>"
    by (simp_all only: gate_done_def gate_fails_def)
qed

lemma graph_run_other:
  assumes "\<forall>d \<in> set ds. \<forall>p. get_gate_param r d = Some p \<longrightarrow> w \<notin> set (gate_writes p)"
  shows "fst (graph_run r names gate ds \<sigma>) w = \<sigma> w"
  using assms
proof (induction ds arbitrary: gate \<sigma>)
  case (Cons d ds)
  show ?case
  proof (cases "get_gate_param r d")
    case (Some p)
    then have "w \<notin> set (gate_results d p)" using Cons.prems results_written[of d p] by auto
    from effect_other[OF this] show ?thesis using Some Cons by (simp add: split_def)
  qed simp
qed simp

lemma run_done:
  assumes "registry_ok r"
  shows "\<forall>d \<in> set ds. gate_wf r ks d \<and> gate_imm_ok d \<Longrightarrow> ordered r ds \<Longrightarrow> \<tau> = fst (graph_run r names gate ds \<sigma>) \<Longrightarrow>
    (\<forall>d \<in> set ds. \<forall>p. get_gate_param r d = Some p \<longrightarrow> gate_done r d p \<tau>) \<and>
    snd (graph_run r names gate ds \<sigma>) = graph_fails r names gate ds \<tau>"
proof (induction ds arbitrary: gate \<sigma>)
  case (Cons d ds)
  have gwf: "gate_wf r ks d" "gate_imm_ok d" using Cons.prems(1) by simp_all
  obtain p where p: "get_gate_param r d = Some p" "distinct (gate_writes p)" "set (gate_uses p) \<inter> set (gate_writes p) = {}"
    "\<forall>e \<in> set ds. \<forall>q. get_gate_param r e = Some q \<longrightarrow> set (gate_writes q) \<inter> set (gate_writes p @ gate_uses p) = {}"
    using Cons.prems(2) by auto
  obtain s q where s: "gate_shape r d = Some s" "get_gate_param r d = Some q" "param_fits s q"
    by (rule validated_gate_param[of r d]) (use gwf in \<open>simp_all add: gate_wf_def\<close>)
  then have fits: "param_fits s p" using p(1) by simp
  define \<sigma>1 where "\<sigma>1 = fst (gate_effect r d p \<sigma>)"
  have \<tau>: "\<tau> = fst (graph_run r names (Suc gate) ds \<sigma>1)"
    using Cons.prems(3) p(1) by (simp add: split_def \<sigma>1_def)
  note IH = Cons.IH[OF _ _ \<tau>]
  have ins: "map \<sigma>1 (p_inputs p) = map \<sigma> (p_inputs p)"
    using p(3) results_written[of d p] by (auto simp: \<sigma>1_def gate_uses_def intro!: effect_other)
  have total: "gate_value r d (map \<sigma> (p_inputs p)) \<noteq> Panic" by (rule gate_value_total[OF gwf p(1)]) simp
  have len: "\<forall>os. gate_value r d (map \<sigma> (p_inputs p)) = Ok os \<longrightarrow> length os = length (p_outputs p)"
    using gate_value_length[OF gwf assms s(1) fits] by simp
  note res = effect_results[OF fits s(1) p(2) total len]
  have d1: "gate_done r d p \<sigma>1"
    unfolding gate_done_def ins using res(1,3) by (auto simp: \<sigma>1_def)
  have f1: "snd (gate_effect r d p \<sigma>) = gate_fails r d p \<sigma>1"
    unfolding gate_fails_def ins by (simp add: gate_effect_def Let_def)
  have "\<tau> w = \<sigma>1 w" if "w \<in> set (gate_uses p @ gate_writes p)" for w
    unfolding \<tau> by (rule graph_run_other) (use p(4) that in auto)
  note keep = gate_done_cong[OF this]
  show ?case
    using IH Cons.prems(1,2) d1 f1 keep p(1) by (simp add: split_def \<sigma>1_def)
qed simp

section \<open>Registers shared by disjoint lifetimes\<close>

text \<open>The working wires of a gate, which no other gate reads.\<close>

definition gate_temps :: "gate_data \<Rightarrow> gate_param \<Rightarrow> wire set" where
  "gate_temps d p = set (gate_writes p) - set (gate_results d p)"

text \<open>A wire is alive at a gate between the first and the last gate that mention it.\<close>

definition mentioned :: "gate_data list \<Rightarrow> wire \<Rightarrow> bool" where
  "mentioned ds w \<longleftrightarrow> (\<exists>d \<in> set ds. w \<in> set (wires d))"

definition alive_at :: "gate_data list \<Rightarrow> nat \<Rightarrow> wire \<Rightarrow> bool" where
  "alive_at ds i w \<longleftrightarrow> mentioned (take (Suc i) ds) w \<and> mentioned (drop i ds) w"

text \<open>Registers keep apart the wires with a place of their own and those alive at the same gate; a wire
  without a place of its own is written before it is read.\<close>

definition registers_apart :: "resolver \<Rightarrow> wire set \<Rightarrow> wire set \<Rightarrow> gate_data list \<Rightarrow> bool" where
  "registers_apart reg W S ds \<longleftrightarrow>
    (\<forall>i < length ds. inj_on reg {w \<in> W. w \<in> S \<longrightarrow> alive_at ds i w})"

definition written_first :: "hint_registry \<Rightarrow> wire set \<Rightarrow> gate_data list \<Rightarrow> bool" where
  "written_first r S ds \<longleftrightarrow> (\<forall>i < length ds. \<forall>p. get_gate_param r (ds ! i) = Some p \<longrightarrow>
    (\<forall>w \<in> set (gate_uses p) \<inter> S. mentioned (take i ds) w))"

definition temps_of :: "hint_registry \<Rightarrow> gate_data list \<Rightarrow> wire set" where
  "temps_of r ds = (\<Union>d \<in> set ds. \<Union>p \<in> set_option (get_gate_param r d). gate_temps d p)"

definition kept_at :: "hint_registry \<Rightarrow> wire set \<Rightarrow> wire set \<Rightarrow> gate_data list \<Rightarrow> nat \<Rightarrow> wire set" where
  "kept_at r W S ds i = {w \<in> W. (w \<in> S \<longrightarrow> mentioned (take i ds) w \<and> mentioned (drop i ds) w) \<and>
    w \<notin> temps_of r (take i ds)}"

lemma regs_fit_inj:
  assumes "inj_on reg W" "set (gate_writes p @ gate_uses p) \<subseteq> W" "distinct (gate_writes p)"
    "set (gate_uses p) \<inter> set (gate_writes p) = {}"
  shows "regs_fit p reg"
proof -
  have "inj_on reg (set (gate_writes p))" by (rule inj_on_subset[OF assms(1)]) (use assms(2) in auto)
  then have "distinct (map reg (gate_writes p))" using assms(3) by (simp add: distinct_map)
  moreover have "reg w \<noteq> reg u" if "w \<in> set (p_aux p @ p_scratch p)" "u \<in> set (gate_uses p)" for w u
  proof
    assume "reg w = reg u"
    moreover have "w \<in> set (gate_writes p)" using that(1) by (auto simp: gate_writes_def)
    ultimately have "w = u" using inj_onD[OF assms(1), of w u] assms(2) that(2) by auto
    then show False using \<open>w \<in> set (gate_writes p)\<close> that(2) assms(4) by auto
  qed
  ultimately show ?thesis by (fastforce simp: regs_fit_def gate_writes_def gate_uses_def)
qed

lemma ordered_drop: "ordered r ds \<Longrightarrow> ordered r (drop i ds)"
proof (induction ds arbitrary: i)
  case (Cons d ds)
  then show ?case by (cases i) auto
qed simp

lemma ordered_nth:
  assumes "ordered r ds" "i < length ds"
  obtains p where "get_gate_param r (ds ! i) = Some p" "distinct (gate_writes p)"
    "set (gate_uses p) \<inter> set (gate_writes p) = {}"
    "\<And>e q. e \<in> set (drop (Suc i) ds) \<Longrightarrow> get_gate_param r e = Some q \<Longrightarrow>
      set (gate_writes q) \<inter> set (gate_writes p @ gate_uses p) = {} \<and> set (gate_uses q) \<inter> gate_temps (ds ! i) p = {}"
proof -
  have "ordered r (ds ! i # drop (Suc i) ds)"
    using ordered_drop[OF assms(1), of i] assms(2) by (simp add: Cons_nth_drop_Suc)
  then obtain p where "get_gate_param r (ds ! i) = Some p" "distinct (gate_writes p)"
    "set (gate_uses p) \<inter> set (gate_writes p) = {}"
    "\<forall>e \<in> set (drop (Suc i) ds). \<forall>q. get_gate_param r e = Some q \<longrightarrow>
      set (gate_writes q) \<inter> set (gate_writes p @ gate_uses p) = {} \<and> set (gate_uses q) \<inter> gate_temps (ds ! i) p = {}"
    by (auto simp only: ordered.simps gate_temps_def)
  then show ?thesis using that by blast
qed

lemma mentioned_simps [simp]:
  "mentioned [] w \<longleftrightarrow> False"
  "mentioned (d # ds) w \<longleftrightarrow> w \<in> set (wires d) \<or> mentioned ds w"
  "mentioned (ds @ es) w \<longleftrightarrow> mentioned ds w \<or> mentioned es w"
  by (auto simp: mentioned_def)

lemma take_drop_nth: "i < length ds \<Longrightarrow> take (Suc i) ds = take i ds @ [ds ! i] \<and> drop i ds = ds ! i # drop (Suc i) ds"
  by (simp add: take_Suc_conv_app_nth Cons_nth_drop_Suc)

lemma validated_wires:
  assumes "gate_wf r ks d" "get_gate_param r d = Some p"
  shows "set (wires d) = set (gate_uses p) \<union> set (gate_writes p)" "p_imm p = immediates d"
proof -
  obtain q where "get_gate_param r d = Some q" "wires d = param_wires q" "immediates d = p_imm q"
    by (rule validated_gate_param[of r d]) (use assms(1) in \<open>simp_all add: gate_wf_def\<close>)
  then show "set (wires d) = set (gate_uses p) \<union> set (gate_writes p)" "p_imm p = immediates d"
    using assms(2) by (auto simp: param_wires_def gate_uses_def gate_writes_def)
qed

lemma kept_reads:
  assumes "registers_apart reg W S ds" "written_first r S ds" "ordered r ds" "\<forall>d \<in> set ds. gate_wf r ks d \<and> set (wires d) \<subseteq> W"
    and i: "i < length ds" and p: "get_gate_param r (ds ! i) = Some p"
  shows "regs_fit p reg" "set (gate_uses p) \<subseteq> kept_at r W S ds i"
    "kept_at r W S ds (Suc i) \<subseteq> carried_on reg (ds ! i) p (kept_at r W S ds i)"
proof -
  have d: "ds ! i \<in> set ds" using i by simp
  have wires: "set (wires (ds ! i)) = set (gate_uses p) \<union> set (gate_writes p)"
    using validated_wires[OF _ p] assms(4) d by blast
  have inW: "set (gate_uses p) \<union> set (gate_writes p) \<subseteq> W" using assms(4) d wires by blast
  have inj: "inj_on reg {w \<in> W. w \<in> S \<longrightarrow> alive_at ds i w}" using assms(1) i by (simp add: registers_apart_def)
  have own: "alive_at ds i w" if "w \<in> set (gate_uses p) \<union> set (gate_writes p)" for w
    using that wires take_drop_nth[OF i] by (auto simp: alive_at_def)
  obtain p' where p': "get_gate_param r (ds ! i) = Some p'" "distinct (gate_writes p')"
    "set (gate_uses p') \<inter> set (gate_writes p') = {}"
    by (rule ordered_nth[OF assms(3) i]) blast
  then have here: "distinct (gate_writes p)" "set (gate_uses p) \<inter> set (gate_writes p) = {}" using p by simp_all
  have "set (gate_writes p @ gate_uses p) \<subseteq> {w \<in> W. w \<in> S \<longrightarrow> alive_at ds i w}"
    using inW own by auto
  then show "regs_fit p reg" by (rule regs_fit_inj[OF inj _ here])
  have "set (gate_uses p) \<inter> temps_of r (take i ds) = {}"
  proof -
    have False if w: "w \<in> set (gate_uses p)" "e \<in> set (take i ds)" "get_gate_param r e = Some q" "w \<in> gate_temps e q" for w e q
    proof -
      obtain j where j: "j < i" "e = ds ! j" "j < length ds" using w(2) i by (auto simp: in_set_conv_nth)
      obtain k where k: "i = Suc j + k" using j(1) less_imp_Suc_add by fastforce
      have "drop (Suc j) ds ! k = ds ! i" "k < length (drop (Suc j) ds)" using i k by simp_all
      then have later: "ds ! i \<in> set (drop (Suc j) ds)" using nth_mem by metis
      obtain q' where q': "get_gate_param r (ds ! j) = Some q'"
        "\<And>e q. e \<in> set (drop (Suc j) ds) \<Longrightarrow> get_gate_param r e = Some q \<Longrightarrow>
          set (gate_writes q) \<inter> set (gate_writes q' @ gate_uses q') = {} \<and> set (gate_uses q) \<inter> gate_temps (ds ! j) q' = {}"
        by (rule ordered_nth[OF assms(3) j(3)]) blast
      have "set (gate_uses p) \<inter> gate_temps (ds ! j) q' = {}" using q'(2)[OF later p] by simp
      then show False using w j(2) q'(1) by auto
    qed
    then show ?thesis by (auto simp: temps_of_def) 
  qed
  then show "set (gate_uses p) \<subseteq> kept_at r W S ds i"
    using assms(2) i p inW wires take_drop_nth[OF i] by (auto simp: kept_at_def written_first_def)
  show "kept_at r W S ds (Suc i) \<subseteq> carried_on reg (ds ! i) p (kept_at r W S ds i)"
  proof
    fix w assume w: "w \<in> kept_at r W S ds (Suc i)"
    have temps: "w \<notin> gate_temps (ds ! i) p" "w \<notin> temps_of r (take i ds)"
      using w p take_drop_nth[OF i] by (auto simp: kept_at_def temps_of_def)
    show "w \<in> carried_on reg (ds ! i) p (kept_at r W S ds i)"
    proof (cases "w \<in> set (gate_writes p)")
      case True
      then show ?thesis using temps(1) by (auto simp: carried_on_def gate_temps_def)
    next
      case False
      have k: "w \<in> kept_at r W S ds i"
        using w temps(2) False wires take_drop_nth[OF i] assms(2) i p
        by (auto simp: kept_at_def written_first_def)
      have alive: "w \<in> {w \<in> W. w \<in> S \<longrightarrow> alive_at ds i w}"
        using w k take_drop_nth[OF i] by (auto simp: kept_at_def alive_at_def)
      have "reg w \<noteq> reg u" if "u \<in> set (gate_writes p)" for u
        using inj_onD[OF inj _ alive, of u] own inW that False by auto
      then show ?thesis using k by (auto simp: carried_on_def)
    qed
  qed
qed

lemma carried_on_mono: "V \<subseteq> V' \<Longrightarrow> carried_on reg d p V \<subseteq> carried_on reg d p V'"
  by (auto simp: carried_on_def)

lemma apart_carried_from:
  assumes "registers_apart reg W S ds" "written_first r S ds" "ordered r ds" "\<forall>d \<in> set ds. gate_wf r ks d \<and> set (wires d) \<subseteq> W"
  shows "i \<le> length ds \<Longrightarrow> kept_at r W S ds i \<subseteq> V \<Longrightarrow>
    reads_carried r reg (drop i ds) V \<and> kept_at r W S ds (length ds) \<subseteq> carried_to r reg (drop i ds) V"
proof (induction "length ds - i" arbitrary: i V)
  case (Suc k)
  then have i: "i < length ds" by simp
  obtain p where p: "get_gate_param r (ds ! i) = Some p" by (rule ordered_nth[OF assms(3) i])
  note keep = kept_reads[OF assms i p]
  have "kept_at r W S ds (Suc i) \<subseteq> carried_on reg (ds ! i) p V"
    using keep(3) carried_on_mono[OF Suc.prems(2)] by blast
  then have "reads_carried r reg (drop (Suc i) ds) (carried_on reg (ds ! i) p V) \<and>
      kept_at r W S ds (length ds) \<subseteq> carried_to r reg (drop (Suc i) ds) (carried_on reg (ds ! i) p V)"
    using Suc.hyps(1)[of "Suc i"] Suc.hyps(2) i by simp
  moreover have "drop i ds = ds ! i # drop (Suc i) ds" using take_drop_nth[OF i] by simp
  ultimately show ?case using keep(1,2) Suc.prems(2) p by (simp add: gate_uses_def) blast
qed simp

lemma apart_carried:
  assumes "registers_apart reg W S ds" "written_first r S ds" "ordered r ds" "\<forall>d \<in> set ds. gate_wf r ks d \<and> set (wires d) \<subseteq> W"
    and "W - S \<subseteq> V"
  shows "reads_carried r reg ds V" "W - S - temps_of r ds \<subseteq> carried_to r reg ds V"
proof -
  have "kept_at r W S ds 0 \<subseteq> V" "kept_at r W S ds (length ds) = W - S - temps_of r ds"
    using assms(5) by (auto simp: kept_at_def)
  then show "reads_carried r reg ds V" "W - S - temps_of r ds \<subseteq> carried_to r reg ds V"
    using apart_carried_from[OF assms(1-4), of 0 V] by simp_all
qed

section \<open>Evaluating a graph\<close>

lemma append_code_new: "append_code prog bb_new = \<lparr>bb_bytecode = concat (map encode prog), bb_n_eval_insn = length prog\<rparr>"
  by (simp add: append_code_def bb_new_def)

text \<open>Evaluation of a graph whose program runs in registers that carry its values: it returns, holds
  the computed values, and reports the computed failures.\<close>

lemma graph_evaluates:
  assumes "registry_ok r" "\<forall>d \<in> set (gg_gates g). gate_ready r (gg_wires g) d" "ordered r (gg_gates g)"
    and "reads_carried r reg (gg_gates g) V" "reg = wire_to_reg mapping l"
    and "\<forall>w < length (gg_wires g). unat (reg w) < length (aw_deref (vv_data v))" "aw_ok (vv_data v)"
    and "consts_hold (gg_wires g) \<sigma>" "\<forall>w \<in> V. vv_word v (reg w) = Some (\<sigma> w)"
  shows "\<exists>ef v' \<tau>. eval_form_build g mapping l r = Some ef \<and>
    ef_evaluate ef v tree = Some (report tree (graph_fails r (assertion_names g) 0 (gg_gates g) \<tau>), v') \<and>
    aw_ok (vv_data v') \<and> vv_shape v' = vv_shape v \<and> \<tau> = fst (graph_run r (assertion_names g) 0 (gg_gates g) \<sigma>) \<and>
    (\<forall>d \<in> set (gg_gates g). \<forall>p. get_gate_param r d = Some p \<longrightarrow> gate_done r d p \<tau>) \<and>
    (\<forall>w \<in> carried_to r reg (gg_gates g) V. vv_word v' (reg w) = Some (\<tau> w)) \<and>
    (\<forall>q. q \<notin> reg ` all_writes r (gg_gates g) \<longrightarrow>
      vv_word v' q = vv_word v q)"
proof -
  obtain prog where prog: "emit_gates r (assertion_names g) reg 0 (gg_gates g) bb_new = Some (append_code prog bb_new)"
    "\<forall>i \<in> set prog. insn_ok r (reg ` (\<Union>d \<in> set (gg_gates g). set (wires d))) i"
    "\<And>\<sigma> f. consts_hold (gg_wires g) \<sigma> \<Longrightarrow> carries reg V \<sigma> f \<Longrightarrow>
      carries reg (carried_to r reg (gg_gates g) V) (fst (graph_run r (assertion_names g) 0 (gg_gates g) \<sigma>)) (fst (col_run r prog f)) \<and>
      snd (col_run r prog f) = snd (graph_run r (assertion_names g) 0 (gg_gates g) \<sigma>) \<and>
      (\<forall>q. q \<notin> reg ` all_writes r (gg_gates g) \<longrightarrow> fst (col_run r prog f) q = f q)"
    using graph_code[OF assms(1,2,4), of "assertion_names g" 0 bb_new] by blast
  have form: "eval_form_build g mapping l r = Some (form_of r prog)"
    using prog(1) assms(5) by (simp add: eval_form_build_def append_code_new bb_finalize_def form_of_def)
  have "reg ` (\<Union>d \<in> set (gg_gates g). set (wires d)) \<subseteq> dom (vv_word v)"
    using assms(2,6) by (auto simp: gate_ready_def gate_wf_def vv_word_def read_at_def)
  then obtain v' where v': "ef_evaluate (form_of r prog) v tree = Some (report tree (snd (col_run r prog (vv_word v))), v')"
    "vv_word v' = fst (col_run r prog (vv_word v))" "aw_ok (vv_data v')" "vv_shape v' = vv_shape v"
    using evaluate_spec[OF assms(1) prog(2) _ assms(7)] by blast
  have run: "carries reg V \<sigma> (vv_word v)" using assms(9) by (simp add: carries_def)
  note ends = prog(3)[OF assms(8) run]
  have wf: "\<forall>d \<in> set (gg_gates g). gate_wf r (gg_wires g) d \<and> gate_imm_ok d" using assms(2) by (simp add: gate_ready_def)
  note done' = run_done[OF assms(1) wf assms(3) refl, of "assertion_names g" 0 \<sigma>]
  show ?thesis
    using form v' ends done' by (intro exI[of _ "form_of r prog"] exI[of _ v'] exI) (auto simp: carries_def)
qed

end
