(* ===== verification/Scratch_Alloc.thy ===== *)
theory Scratch_Alloc
  imports Graph_Run "HOL-Library.Product_Lexorder" "HOL-Library.Multiset"
begin

text \<open>
  The slots of the scratch segment (\<open>pass/layout/scratch_alloc.rs\<close>).  A set of wires is an
  \<open>EntitySet\<close>, walked in increasing order; a stack keeps its top at the head.  \<open>None\<close> is a panic.
\<close>

section \<open>Definitions\<close>

datatype scratch_policy = PerWire | Pooled

record scratch_alloc =
  sa_slot :: "wire \<Rightarrow> u32 option"
  sa_n_slots :: nat
  sa_peak_live :: nat

text \<open>The last gate that mentions each value.\<close>

fun last_mentions :: "wire set \<Rightarrow> gate \<Rightarrow> gate_data list \<Rightarrow> (wire \<Rightarrow> u32 option) \<Rightarrow> wire \<Rightarrow> u32 option" where
  "last_mentions scratch gate [] m = m"
| "last_mentions scratch gate (d # ds) m =
    last_mentions scratch (Suc gate) ds
      (fold (\<lambda>w m. if w \<in> scratch then m(w := Some (word_of_nat gate)) else m) (wires d) m)"

definition order_deaths :: "gate_data list \<Rightarrow> wire set \<Rightarrow> (u32 \<times> wire) list" where
  "order_deaths ds scratch =
    (let last_gate = last_mentions scratch 0 ds (\<lambda>_. None)
     in sort (List.map_filter (\<lambda>w. map_option (\<lambda>g. (g, w)) (last_gate w)) (sorted_list_of_set scratch)))"

record pool_state =
  ps_slot :: "wire \<Rightarrow> u32 option"
  ps_free :: "u32 list"
  ps_n :: u32
  ps_live :: nat
  ps_peak :: nat
  ps_deaths :: "(u32 \<times> wire) list"

definition take_slot :: "wire set \<Rightarrow> wire \<Rightarrow> pool_state \<Rightarrow> pool_state" where
  "take_slot scratch w st =
    (if w \<in> scratch \<and> ps_slot st w = None
     then let (s, st) = (case ps_free st of
             s # free \<Rightarrow> (s, st\<lparr>ps_free := free\<rparr>)
           | [] \<Rightarrow> (ps_n st, st\<lparr>ps_n := ps_n st + 1\<rparr>))
       in st\<lparr>ps_slot := (ps_slot st)(w := Some s), ps_live := ps_live st + 1\<rparr>
     else st)"

fun reclaim :: "u32 \<Rightarrow> (u32 \<times> wire) list \<Rightarrow> pool_state \<Rightarrow> pool_state option" where
  "reclaim gate [] st = Some (st\<lparr>ps_deaths := []\<rparr>)"
| "reclaim gate ((death_gate, w) # deaths) st =
    (if death_gate = gate
     then case ps_slot st w of
         None \<Rightarrow> None
       | Some s \<Rightarrow> if ps_live st = 0 then None
           else reclaim gate deaths (st\<lparr>ps_free := s # ps_free st, ps_live := ps_live st - 1\<rparr>)
     else Some (st\<lparr>ps_deaths := (death_gate, w) # deaths\<rparr>))"

fun sweep :: "wire set \<Rightarrow> gate \<Rightarrow> gate_data list \<Rightarrow> pool_state \<Rightarrow> pool_state option" where
  "sweep scratch gate [] st = Some st"
| "sweep scratch gate (d # ds) st =
    (let st = fold (take_slot scratch) (wires d) st;
         st = st\<lparr>ps_peak := max (ps_peak st) (ps_live st)\<rparr>
     in Option.bind (reclaim (word_of_nat gate) (ps_deaths st) st) (sweep scratch (Suc gate) ds))"

definition pool_slots ::
  "gate_data list \<Rightarrow> wire set \<Rightarrow> (u32 \<times> wire) list \<Rightarrow> ((wire \<Rightarrow> u32 option) \<times> nat) option" where
  "pool_slots ds scratch deaths =
    map_option (\<lambda>st. (ps_slot st, ps_peak st))
      (sweep scratch 0 ds
        \<lparr>ps_slot = (\<lambda>_. None), ps_free = [], ps_n = 0, ps_live = 0, ps_peak = 0, ps_deaths = deaths\<rparr>)"

definition slot_per_wire :: "gate_graph \<Rightarrow> wire set \<Rightarrow> (wire \<Rightarrow> u32 option) \<times> nat" where
  "slot_per_wire g scratch =
    (case fold (\<lambda>w (slot, n). if w \<in> scratch then (slot(w := Some n), n + 1) else (slot, n))
       [0..<length (gg_wires g)] (\<lambda>_. None, 0 :: u32) of
     (slot, n) \<Rightarrow> (slot, unat n))"

definition scratch_alloc_new :: "gate_graph \<Rightarrow> wire set \<Rightarrow> scratch_policy \<Rightarrow> scratch_alloc option" where
  "scratch_alloc_new g scratch policy =
    (let deaths = order_deaths (gg_gates g) scratch
     in Option.bind (pool_slots (gg_gates g) scratch deaths) (\<lambda>(pooled_slot, peak_live).
        case policy of
          Pooled \<Rightarrow> Some \<lparr>sa_slot = pooled_slot, sa_n_slots = peak_live, sa_peak_live = peak_live\<rparr>
        | PerWire \<Rightarrow> (case slot_per_wire g scratch of
            (slot, n_slots) \<Rightarrow> Some \<lparr>sa_slot = slot, sa_n_slots = n_slots, sa_peak_live = peak_live\<rparr>)))"

section \<open>Deaths\<close>

lemma last_mentions_append:
  "last_mentions S gate (ds @ [d]) m =
    fold (\<lambda>w m. if w \<in> S then m(w := Some (word_of_nat (gate + length ds))) else m) (wires d) (last_mentions S gate ds m)"
  by (induction ds arbitrary: gate m) (simp_all add: add.assoc cong: if_cong)

lemma mark_mentions:
  "fold (\<lambda>w m. if w \<in> S then m(w := Some x) else m) ws m v = (if v \<in> S \<and> v \<in> set ws then Some x else m v)"
  by (induction ws arbitrary: m) auto

lemma last_mentions_spec:
  "last_mentions S 0 ds (\<lambda>_. None) w = Some x \<longleftrightarrow>
    w \<in> S \<and> (\<exists>i < length ds. x = word_of_nat i \<and> w \<in> set (wires (ds ! i)) \<and> \<not> mentioned (drop (Suc i) ds) w)"
proof (induction ds arbitrary: x rule: rev_induct)
  case (snoc d ds)
  have split: "(\<exists>i < length (ds @ [d]). P i) \<longleftrightarrow> P (length ds) \<or> (\<exists>i < length ds. P i)" for P
    by (auto simp: less_Suc_eq)
  show ?case
    unfolding last_mentions_append mark_mentions split using snoc
    by (auto simp: nth_append Suc_diff_le)
qed simp

lemma lex_fst: "(p :: u32 \<times> wire) \<le> q \<Longrightarrow> unat (fst p) \<le> unat (fst q)"
  by (cases p; cases q) (auto simp: word_le_nat_alt[symmetric])

lemma order_deaths_spec:
  assumes "finite S" "length ds < 2 ^ 32"
  shows "distinct (map snd (order_deaths ds S))" "sorted (map (unat \<circ> fst) (order_deaths ds S))"
    "(x, w) \<in> set (order_deaths ds S) \<longleftrightarrow>
      w \<in> S \<and> (\<exists>i < length ds. x = word_of_nat i \<and> w \<in> set (wires (ds ! i)) \<and> \<not> mentioned (drop (Suc i) ds) w)"
proof -
  let ?m = "last_mentions S 0 ds (\<lambda>_. None)"
  let ?l = "List.map_filter (\<lambda>w. map_option (\<lambda>g. (g, w)) (?m w)) (sorted_list_of_set S)"
  have snds: "map snd (List.map_filter (\<lambda>w. map_option (\<lambda>g. (g, w)) (?m w)) ws) = filter (\<lambda>w. ?m w \<noteq> None) ws" for ws
    by (induction ws) (auto simp: List.map_filter_def)
  have mset: "mset (order_deaths ds S) = mset ?l" by (simp add: order_deaths_def Let_def)
  then have "mset (map snd (order_deaths ds S)) = mset (map snd ?l)" by simp
  then have "mset (map snd (order_deaths ds S)) = mset (filter (\<lambda>w. ?m w \<noteq> None) (sorted_list_of_set S))"
    by (simp only: snds)
  from mset_eq_imp_distinct_iff[OF this] show "distinct (map snd (order_deaths ds S))" by simp
  have "sorted (order_deaths ds S)" by (simp add: order_deaths_def Let_def)
  then show "sorted (map (unat \<circ> fst) (order_deaths ds S))"
    by (simp add: sorted_map sorted_wrt_map lex_fst sorted_wrt_mono_rel[of _ "(\<le>)"])
  have "set (order_deaths ds S) = set ?l" using mset by (rule mset_eq_setD)
  then show "(x, w) \<in> set (order_deaths ds S) \<longleftrightarrow>
      w \<in> S \<and> (\<exists>i < length ds. x = word_of_nat i \<and> w \<in> set (wires (ds ! i)) \<and> \<not> mentioned (drop (Suc i) ds) w)"
    using assms(1) last_mentions_spec[of S ds w x]
    by (auto simp: List.map_filter_def image_iff)
qed

section \<open>The sweep\<close>

text \<open>\<open>L\<close> is the set of values alive: their slots differ, and with the free ones are all slots.\<close>

definition pool_ok :: "wire set \<Rightarrow> pool_state \<Rightarrow> bool" where
  "pool_ok L st \<longleftrightarrow> finite L \<and> (\<forall>w \<in> L. ps_slot st w \<noteq> None) \<and> inj_on (ps_slot st) L \<and> distinct (ps_free st) \<and>
    (\<forall>w \<in> L. \<forall>s. ps_slot st w = Some s \<longrightarrow> s \<notin> set (ps_free st)) \<and> (\<forall>s \<in> set (ps_free st). s < ps_n st) \<and>
    (\<forall>w s. ps_slot st w = Some s \<longrightarrow> s < ps_n st) \<and>
    unat (ps_n st) = length (ps_free st) + card L \<and> ps_live st = card L"

definition slots_kept :: "pool_state \<Rightarrow> pool_state \<Rightarrow> bool" where
  "slots_kept st st' \<longleftrightarrow> (\<forall>w s. ps_slot st w = Some s \<longrightarrow> ps_slot st' w = Some s)"

lemma slots_kept_refl [simp]: "slots_kept st st" and slots_kept_trans: "slots_kept a b \<Longrightarrow> slots_kept b c \<Longrightarrow> slots_kept a c"
  by (auto simp: slots_kept_def)

lemma next_slot:
  fixes n :: u32
  assumes "unat n < 2 ^ 32 - 1"
  shows "n < n + 1" "unat (n + 1) = unat n + 1" "s < n \<Longrightarrow> s < n + 1"
proof -
  show "unat (n + 1) = unat n + 1" using assms unat_word_ariths(1)[of n 1] by simp
  then show "n < n + 1" "s < n \<Longrightarrow> s < n + 1" by (simp_all add: word_less_nat_alt)
qed

lemma take_slot_ok:
  assumes "pool_ok L st" "w \<in> S \<Longrightarrow> ps_slot st w \<noteq> None \<Longrightarrow> w \<in> L" "L \<subseteq> S" "finite S" "card S < 2 ^ 32"
  shows "pool_ok (if w \<in> S then insert w L else L) (take_slot S w st) \<and> slots_kept st (take_slot S w st) \<and>
    (\<forall>v. ps_slot (take_slot S w st) v \<noteq> None \<longleftrightarrow> ps_slot st v \<noteq> None \<or> v = w \<and> w \<in> S) \<and>
    ps_deaths (take_slot S w st) = ps_deaths st \<and> ps_peak (take_slot S w st) = ps_peak st \<and>
    (ps_n (take_slot S w st) = ps_n st \<or> ps_free (take_slot S w st) = []) \<and> ps_n st \<le> ps_n (take_slot S w st) \<and> (ps_free st = [] \<longrightarrow> ps_free (take_slot S w st) = [])"
proof (cases "w \<in> S \<and> ps_slot st w = None")
  case False
  then show ?thesis using assms(1,2) by (auto simp: take_slot_def insert_absorb)
next
  case True
  then have w: "w \<notin> L" using assms(1) by (auto simp: pool_ok_def)
  have "card (insert w L) \<le> card S" using assms(3,4) True by (intro card_mono) auto
  moreover have "card (insert w L) = card L + 1" using w assms(1) by (simp add: pool_ok_def)
  ultimately have room: "card L + 1 < 2 ^ 32" using assms(5) by linarith
  have L': "w \<in> S" "v \<in> L \<Longrightarrow> v \<noteq> w" for v using True w by auto
  show ?thesis
  proof (cases "ps_free st")
    case Nil
    then have n: "unat (ps_n st) < 2 ^ 32 - 1" using room assms(1) by (simp add: pool_ok_def)
    have fresh: "ps_slot st v = Some s \<Longrightarrow> s \<noteq> ps_n st" for v s using assms(1) by (auto simp: pool_ok_def)
    show ?thesis
      using assms(1) True w Nil next_slot[OF n] L' fresh
      by (auto simp: take_slot_def pool_ok_def slots_kept_def inj_on_def; fastforce)
  next
    case (Cons s free)
    have fresh: "v \<in> L \<Longrightarrow> ps_slot st v \<noteq> Some s" for v using assms(1) Cons by (auto simp: pool_ok_def)
    show ?thesis
      using assms(1) True w Cons L' fresh
      by (auto simp: take_slot_def pool_ok_def slots_kept_def inj_on_def; fastforce)
  qed
qed

lemma take_slots_ok:
  assumes "finite S" "card S < 2 ^ 32"
  shows "pool_ok L st \<Longrightarrow> L \<subseteq> S \<Longrightarrow> \<forall>w \<in> set ws \<inter> S. ps_slot st w \<noteq> None \<longrightarrow> w \<in> L \<Longrightarrow>
    st' = fold (take_slot S) ws st \<Longrightarrow>
    pool_ok (L \<union> set ws \<inter> S) st' \<and> slots_kept st st' \<and>
    (\<forall>v. ps_slot st' v \<noteq> None \<longleftrightarrow> ps_slot st v \<noteq> None \<or> v \<in> set ws \<inter> S) \<and>
    ps_deaths st' = ps_deaths st \<and> ps_peak st' = ps_peak st \<and>
    (ps_n st' = ps_n st \<or> ps_free st' = []) \<and> ps_n st \<le> ps_n st' \<and> (ps_free st = [] \<longrightarrow> ps_free st' = [])"
proof (induction ws arbitrary: L st)
  case (Cons w ws)
  let ?st = "take_slot S w st" and ?L = "if w \<in> S then insert w L else L"
  have one: "pool_ok ?L ?st" "slots_kept st ?st"
    "\<And>v. ps_slot ?st v \<noteq> None \<longleftrightarrow> ps_slot st v \<noteq> None \<or> v = w \<and> w \<in> S"
    "ps_deaths ?st = ps_deaths st" "ps_peak ?st = ps_peak st" "ps_n ?st = ps_n st \<or> ps_free ?st = []"
    "ps_n st \<le> ps_n ?st" "ps_free st = [] \<longrightarrow> ps_free ?st = []"
    using take_slot_ok[OF Cons.prems(1) _ Cons.prems(2) assms, of w] Cons.prems(3) by simp_all
  have "?L \<subseteq> S" using Cons.prems(2) by auto
  moreover have "\<forall>v \<in> set ws \<inter> S. ps_slot ?st v \<noteq> None \<longrightarrow> v \<in> ?L"
    using Cons.prems(3) one(3) by auto
  moreover have "?L \<union> set ws \<inter> S = L \<union> set (w # ws) \<inter> S" by auto
  ultimately show ?case
    using Cons.IH[OF one(1)] Cons.prems(4) one slots_kept_trans[OF one(2)] by auto
qed simp

lemma reclaim_ok:
  assumes "ys = [] \<or> fst (hd ys) \<noteq> gate"
  shows "pool_ok L st \<Longrightarrow> \<forall>x \<in> set xs. fst x = gate \<Longrightarrow> distinct (map snd xs) \<Longrightarrow> snd ` set xs \<subseteq> L \<Longrightarrow>
    \<exists>st'. reclaim gate (xs @ ys) st = Some st' \<and> pool_ok (L - snd ` set xs) st' \<and> ps_slot st' = ps_slot st \<and>
      ps_deaths st' = ys \<and> ps_peak st' = ps_peak st \<and> ps_n st' = ps_n st"
proof (induction xs arbitrary: L st)
  case Nil
  have "pool_ok L (st\<lparr>ps_deaths := ys\<rparr>)" using Nil(1) by (simp add: pool_ok_def)
  then show ?case using assms by (cases ys) auto
next
  case (Cons x xs)
  obtain w where x: "x = (gate, w)" using Cons.prems(2) by (cases x) auto
  have w: "w \<in> L" "w \<notin> snd ` set xs" using Cons.prems(3,4) x by auto
  then obtain s where s: "ps_slot st w = Some s" using Cons.prems(1) by (auto simp: pool_ok_def)
  let ?st = "st\<lparr>ps_free := s # ps_free st, ps_live := ps_live st - 1\<rparr>"
  have fin: "finite L" and live: "ps_live st = card L" using Cons.prems(1) by (auto simp: pool_ok_def)
  then have card: "ps_live st \<noteq> 0" "0 < card L" using w(1)
    by (auto simp: card_gt_0_iff)
  have other: "v \<in> L - {w} \<Longrightarrow> ps_slot st v \<noteq> Some s" for v
    using Cons.prems(1) s w(1) inj_onD[of "ps_slot st" L v w] by (auto simp: pool_ok_def)
  have bound: "s < ps_n st" "s \<notin> set (ps_free st)" using Cons.prems(1) s w(1) by (auto simp: pool_ok_def)
  have "pool_ok (L - {w}) ?st"
    using Cons.prems(1) other bound card live w(1) inj_on_subset[of "ps_slot st" L "L - {w}"]
    by (simp add: pool_ok_def) blast
  moreover have "L - {w} - snd ` set xs = L - snd ` set (x # xs)" using x by auto
  moreover have "snd ` set xs \<subseteq> L - {w}" using Cons.prems(4) w(2) x by auto
  ultimately show ?case
    using Cons.IH[of "L - {w}" ?st] Cons.prems(2-4) w x s card(1) by simp
qed

lemma split_deaths:
  "sorted (map f xs) \<Longrightarrow> filter (\<lambda>x. i \<le> f x) xs = filter (\<lambda>x. f x = (i :: nat)) xs @ filter (\<lambda>x. Suc i \<le> f x) xs"
proof (induction xs)
  case (Cons x xs)
  show ?case
  proof (cases "f x = i")
    case False
    then have "filter (\<lambda>y. f y = i) xs = [] \<or> f x < i" using Cons.prems by (auto simp: filter_empty_conv)
    then show ?thesis using Cons False by (auto simp: Suc_le_eq)
  qed (use Cons in auto)
qed simp

definition alive_set :: "wire set \<Rightarrow> gate_data list \<Rightarrow> nat \<Rightarrow> wire set" where
  "alive_set S ds i = {w \<in> S. mentioned (take i ds) w \<and> mentioned (drop i ds) w}"

lemma alive_set_subset: "alive_set S ds i \<subseteq> S" by (auto simp: alive_set_def)

lemma sweep_gate:
  assumes fin: "finite S" "card S < 2 ^ 32" and len: "length ds < 2 ^ 32" and i: "i < length ds"
    and ok: "pool_ok (alive_set S ds i) st" and slots: "\<forall>w. ps_slot st w \<noteq> None \<longleftrightarrow> w \<in> S \<and> mentioned (take i ds) w"
    and deaths: "ps_deaths st = filter (\<lambda>x. i \<le> (unat \<circ> fst) x) (order_deaths ds S)"
    and peak: "ps_peak st = unat (ps_n st)" "ps_peak st \<le> card S"
  obtains st1 st' where "st1 = fold (take_slot S) (wires (ds ! i)) st"
    "reclaim (word_of_nat i) (ps_deaths st1) (st1\<lparr>ps_peak := max (ps_peak st1) (ps_live st1)\<rparr>) = Some st'"
    "pool_ok (alive_set S ds (Suc i)) st'" "\<forall>w. ps_slot st' w \<noteq> None \<longleftrightarrow> w \<in> S \<and> mentioned (take (Suc i) ds) w"
    "ps_deaths st' = filter (\<lambda>x. Suc i \<le> (unat \<circ> fst) x) (order_deaths ds S)"
    "ps_peak st' = unat (ps_n st')" "ps_peak st' \<le> card S" "slots_kept st st'"
    "inj_on (ps_slot st') {w \<in> S. alive_at ds i w}"
    "ps_peak st' = max (ps_peak st) (card {w \<in> S. alive_at ds i w})"
proof -
  define st1 where "st1 = fold (take_slot S) (wires (ds ! i)) st"
  let ?L1 = "alive_set S ds i \<union> set (wires (ds ! i)) \<inter> S"
  note td = take_drop_nth[OF i]
  have "\<forall>w \<in> set (wires (ds ! i)) \<inter> S. ps_slot st w \<noteq> None \<longrightarrow> w \<in> alive_set S ds i"
    using slots td by (auto simp: alive_set_def)
  note st1 = take_slots_ok[OF fin ok alive_set_subset this st1_def]
  have same1: "ps_deaths st1 = ps_deaths st" "ps_peak st1 = ps_peak st" "slots_kept st st1" using st1 by blast+
  have dom1: "ps_slot st1 v \<noteq> None \<longleftrightarrow> ps_slot st v \<noteq> None \<or> v \<in> set (wires (ds ! i)) \<inter> S" for v
    using st1 by blast
  have grow: "unat (ps_n st) \<le> unat (ps_n st1)" "ps_n st1 = ps_n st \<or> ps_free st1 = []"
    using st1 by (simp_all only: word_le_nat_alt)
  have L1: "?L1 = {w \<in> S. alive_at ds i w}" using td by (auto simp: alive_set_def alive_at_def)
  define st2 where "st2 = st1\<lparr>ps_peak := max (ps_peak st1) (ps_live st1)\<rparr>"
  have ok1: "pool_ok ?L1 st1" using st1 by blast
  have peak_only: "pool_ok L st1 \<Longrightarrow> pool_ok L (st1\<lparr>ps_peak := k\<rparr>)" for L k by (simp add: pool_ok_def)
  have ok2: "pool_ok ?L1 st2" unfolding st2_def by (rule peak_only[OF ok1])
  have live: "ps_live st1 = card ?L1" "unat (ps_n st1) = length (ps_free st1) + card ?L1"
    using ok1 by (simp_all only: pool_ok_def)
  have "card ?L1 \<le> card S" by (rule card_mono[OF fin(1)]) (auto simp: alive_set_def)
  then have peak2: "ps_peak st2 = unat (ps_n st2)" "ps_peak st2 \<le> card S"
    using peak same1(2) grow live by (auto simp: st2_def)
  let ?now = "filter (\<lambda>x. (unat \<circ> fst) x = i) (order_deaths ds S)"
  let ?rest = "filter (\<lambda>x. Suc i \<le> (unat \<circ> fst) x) (order_deaths ds S)"
  note od = order_deaths_spec[OF fin(1) len]
  have dl: "ps_deaths st1 = ?now @ ?rest" unfolding same1(1) deaths by (rule split_deaths[OF od(2)])
  have wi: "unat (word_of_nat k :: u32) = k" if "k < length ds" for k
    using that len by (simp add: unsigned_of_nat take_bit_nat_eq_self)
  have now: "\<forall>x \<in> set ?now. fst x = word_of_nat i" using wi[OF i] by (simp add: word_unat_eq_iff)
  have "snd ` set ?now = {w \<in> S. w \<in> set (wires (ds ! i)) \<and> \<not> mentioned (drop (Suc i) ds) w}" (is "_ = ?D")
  proof
    show "snd ` set ?now \<subseteq> ?D" using od(3) wi by auto
    show "?D \<subseteq> snd ` set ?now"
    proof
      fix w assume "w \<in> ?D"
      then have "(word_of_nat i, w) \<in> set ?now" using od(3)[of "word_of_nat i" w] i wi[OF i] by auto
      then show "w \<in> snd ` set ?now" by force
    qed
  qed
  then have gone: "?L1 - snd ` set ?now = alive_set S ds (Suc i)" "snd ` set ?now \<subseteq> ?L1"
    using td by (auto simp: alive_set_def)
  have hd: "?rest = [] \<or> fst (hd ?rest) \<noteq> word_of_nat i"
  proof (cases ?rest)
    case (Cons x xs)
    then have "x \<in> set ?rest" by simp
    then have "Suc i \<le> unat (fst x)" by simp
    then show ?thesis using Cons wi[OF i] by auto
  qed simp
  have "distinct (map snd ?now)" using od(1) by (simp add: distinct_map_filter)
  from reclaim_ok[OF hd ok2 now this gone(2)] obtain st' where
    st': "reclaim (word_of_nat i) (?now @ ?rest) st2 = Some st'" "pool_ok (?L1 - snd ` set ?now) st'"
    "ps_slot st' = ps_slot st2" "ps_deaths st' = ?rest" "ps_peak st' = ps_peak st2" "ps_n st' = ps_n st2"
    by blast
  have slot2: "ps_slot st2 = ps_slot st1" by (simp add: st2_def)
  show ?thesis
  proof (rule that[OF st1_def])
    show "reclaim (word_of_nat i) (ps_deaths st1) (st1\<lparr>ps_peak := max (ps_peak st1) (ps_live st1)\<rparr>) = Some st'"
      using st'(1) dl st2_def by simp
    show "pool_ok (alive_set S ds (Suc i)) st'" using st'(2) gone(1) by simp
    show "\<forall>w. ps_slot st' w \<noteq> None \<longleftrightarrow> w \<in> S \<and> mentioned (take (Suc i) ds) w"
      unfolding st'(3) slot2 dom1 using slots td by auto
    show "ps_deaths st' = ?rest" "ps_peak st' = unat (ps_n st')" "ps_peak st' \<le> card S"
      using st' peak2 by simp_all
    show "slots_kept st st'" using same1(3) unfolding slots_kept_def st'(3) slot2 .
    show "inj_on (ps_slot st') {w \<in> S. alive_at ds i w}"
      using ok1 unfolding st'(3) slot2 L1 by (simp only: pool_ok_def)
    show "ps_peak st' = max (ps_peak st) (card {w \<in> S. alive_at ds i w})"
      using same1(2) live(1) L1 by (simp add: st'(5) st2_def)
  qed
qed

lemma sweep_spec:
  assumes fin: "finite S" "card S < 2 ^ 32" and len: "length ds < 2 ^ 32"
  shows "i \<le> length ds \<Longrightarrow> pool_ok (alive_set S ds i) st \<Longrightarrow>
    \<forall>w. ps_slot st w \<noteq> None \<longleftrightarrow> w \<in> S \<and> mentioned (take i ds) w \<Longrightarrow>
    ps_deaths st = filter (\<lambda>x. i \<le> (unat \<circ> fst) x) (order_deaths ds S) \<Longrightarrow>
    ps_peak st = unat (ps_n st) \<Longrightarrow> ps_peak st \<le> card S \<Longrightarrow>
    \<exists>st'. sweep S i (drop i ds) st = Some st' \<and> slots_kept st st' \<and>
      (\<forall>w. ps_slot st' w \<noteq> None \<longleftrightarrow> w \<in> S \<and> mentioned ds w) \<and>
      (\<forall>w s. ps_slot st' w = Some s \<longrightarrow> unat s < ps_peak st') \<and>
      (\<forall>j. i \<le> j \<longrightarrow> j < length ds \<longrightarrow> inj_on (ps_slot st') {w \<in> S. alive_at ds j w}) \<and>
      (ps_peak st' = ps_peak st \<or> (\<exists>j < length ds. ps_peak st' = card {w \<in> S. alive_at ds j w})) \<and> ps_peak st' \<le> card S"
proof (induction "length ds - i" arbitrary: i st)
  case 0
  then show ?case by (auto simp: pool_ok_def word_less_nat_alt)
next
  case (Suc k)
  then have i: "i < length ds" by simp
  obtain st1 st' where st': "st1 = fold (take_slot S) (wires (ds ! i)) st"
    "reclaim (word_of_nat i) (ps_deaths st1) (st1\<lparr>ps_peak := max (ps_peak st1) (ps_live st1)\<rparr>) = Some st'"
    "pool_ok (alive_set S ds (Suc i)) st'" "\<forall>w. ps_slot st' w \<noteq> None \<longleftrightarrow> w \<in> S \<and> mentioned (take (Suc i) ds) w"
    "ps_deaths st' = filter (\<lambda>x. Suc i \<le> (unat \<circ> fst) x) (order_deaths ds S)"
    "ps_peak st' = unat (ps_n st')" "ps_peak st' \<le> card S" "slots_kept st st'"
    "inj_on (ps_slot st') {w \<in> S. alive_at ds i w}" "ps_peak st' = max (ps_peak st) (card {w \<in> S. alive_at ds i w})"
    by (rule sweep_gate[OF fin len i Suc.prems(2-6)])
  have "k = length ds - Suc i" "Suc i \<le> length ds" using Suc.hyps(2) i by simp_all
  from Suc.hyps(1)[OF this st'(3-7)] obtain st2 where
    st2: "sweep S (Suc i) (drop (Suc i) ds) st' = Some st2" "slots_kept st' st2"
      "\<forall>w. ps_slot st2 w \<noteq> None \<longleftrightarrow> w \<in> S \<and> mentioned ds w"
      "\<forall>w s. ps_slot st2 w = Some s \<longrightarrow> unat s < ps_peak st2"
      "\<forall>j. Suc i \<le> j \<longrightarrow> j < length ds \<longrightarrow> inj_on (ps_slot st2) {w \<in> S. alive_at ds j w}"
      "ps_peak st2 = ps_peak st' \<or> (\<exists>j < length ds. ps_peak st2 = card {w \<in> S. alive_at ds j w})" "ps_peak st2 \<le> card S"
    by blast
  have held: "ps_slot st2 w = ps_slot st' w" if "w \<in> S" "alive_at ds i w" for w
  proof -
    have "ps_slot st' w \<noteq> None" using st'(4) that by (simp add: alive_at_def)
    then show ?thesis using st2(2) by (auto simp: slots_kept_def)
  qed
  have "inj_on (ps_slot st2) {w \<in> S. alive_at ds i w}"
    using st'(9) held by (simp add: inj_on_def)
  then have "inj_on (ps_slot st2) {w \<in> S. alive_at ds j w}" if "i \<le> j" "j < length ds" for j
    using st2(5) that by (cases "j = i") auto
  moreover have "sweep S i (drop i ds) st = Some st2"
    using st'(1,2) st2(1) take_drop_nth[OF i] by (simp add: Let_def)
  moreover have "ps_peak st2 = ps_peak st \<or> (\<exists>j < length ds. ps_peak st2 = card {w \<in> S. alive_at ds j w})"
    using st2(6) st'(10) i by (metis max_def)
  ultimately show ?case using st2 slots_kept_trans[OF st'(8) st2(2)] by blast
qed

lemma pool_slots_spec:
  assumes "finite S" "card S < 2 ^ 32" "length ds < 2 ^ 32"
  obtains slot n where "pool_slots ds S (order_deaths ds S) = Some (slot, n)"
    "\<forall>w. slot w \<noteq> None \<longleftrightarrow> w \<in> S \<and> mentioned ds w" "\<forall>w s. slot w = Some s \<longrightarrow> unat s < n"
    "\<forall>i < length ds. inj_on slot {w \<in> S. alive_at ds i w}"
    "n = 0 \<or> (\<exists>i < length ds. n = card {w \<in> S. alive_at ds i w})" "n \<le> card S"
proof -
  let ?st = "\<lparr>ps_slot = (\<lambda>_. None), ps_free = [], ps_n = 0, ps_live = 0, ps_peak = 0, ps_deaths = order_deaths ds S\<rparr>"
  have "pool_ok (alive_set S ds 0) ?st" by (simp add: pool_ok_def alive_set_def)
  from sweep_spec[OF assms _ this] obtain st' where "sweep S 0 ds ?st = Some st'"
    "\<forall>w. ps_slot st' w \<noteq> None \<longleftrightarrow> w \<in> S \<and> mentioned ds w" "\<forall>w s. ps_slot st' w = Some s \<longrightarrow> unat s < ps_peak st'"
    "\<forall>j. 0 \<le> j \<longrightarrow> j < length ds \<longrightarrow> inj_on (ps_slot st') {w \<in> S. alive_at ds j w}"
    "ps_peak st' = 0 \<or> (\<exists>j < length ds. ps_peak st' = card {w \<in> S. alive_at ds j w})" "ps_peak st' \<le> card S"
    by auto
  then show ?thesis by (intro that[of "ps_slot st'" "ps_peak st'"]) (auto simp: pool_slots_def)
qed

section \<open>A slot per wire\<close>

lemma slot_per_wire_spec:
  assumes "S \<subseteq> {..<length (gg_wires g)}" "length (gg_wires g) < 2 ^ 32" "slot_per_wire g S = (slot, n)"
  shows "slot w \<noteq> None \<longleftrightarrow> w \<in> S" "slot w = Some s \<Longrightarrow> unat s < n" "inj_on slot S" "n = card S"
proof -
  let ?step = "\<lambda>w (slot, n). if w \<in> S then (slot(w := Some n), n + 1) else (slot, n)"
  have run: "k \<le> length (gg_wires g) \<Longrightarrow> fold ?step [0..<k] (\<lambda>_. None, 0 :: u32) = (sl, m) \<Longrightarrow>
      (\<forall>w. sl w \<noteq> None \<longleftrightarrow> w \<in> S \<and> w < k) \<and> (\<forall>w s. sl w = Some s \<longrightarrow> s < m) \<and> inj_on sl (S \<inter> {..<k}) \<and>
      unat m = card (S \<inter> {..<k})" for k sl m
  proof (induction k arbitrary: sl m)
    case (Suc k)
    obtain sl0 m0 where prev: "fold ?step [0..<k] (\<lambda>_. None, 0 :: u32) = (sl0, m0)" by fastforce
    note IH = Suc.IH[OF _ prev]
    have sets: "S \<inter> {..<Suc k} = (if k \<in> S then insert k (S \<inter> {..<k}) else S \<inter> {..<k})"
      by (auto simp: less_Suc_eq)
    show ?case
    proof (cases "k \<in> S")
      case False
      then show ?thesis using Suc.prems prev IH sets by (auto simp: less_Suc_eq)
    next
      case True
      have "card (S \<inter> {..<k}) \<le> k" using card_mono[of "{..<k}" "S \<inter> {..<k}"] by simp
      then have "unat m0 < 2 ^ 32 - 1" using IH Suc.prems(1) assms(2) by simp
      note nx = next_slot[OF this]
      have "sl = sl0(k := Some m0)" "m = m0 + 1" using Suc.prems(2) prev True by simp_all
      moreover have free: "sl0 w \<noteq> Some m0" for w using IH Suc.prems(1) by auto
      moreover have "Some m0 \<noteq> sl0 w" for w using free[of w] by metis
      ultimately show ?thesis using IH Suc.prems(1) nx sets True
        by (auto simp: inj_on_def less_Suc_eq)
    qed
  qed simp
  obtain m where m: "fold ?step [0..<length (gg_wires g)] (\<lambda>_. None, 0 :: u32) = (slot, m)" "n = unat m"
    using assms(3) by (auto simp: slot_per_wire_def split: prod.splits)
  have "S \<inter> {..<length (gg_wires g)} = S" using assms(1) by auto
  then show "slot w \<noteq> None \<longleftrightarrow> w \<in> S" "slot w = Some s \<Longrightarrow> unat s < n" "inj_on slot S" "n = card S"
    using run[OF le_refl m(1)] m(2) assms(1) by (auto simp: word_less_nat_alt)
qed

section \<open>Property\<close>

lemma scratch_alloc_spec:
  assumes "S \<subseteq> {..<length (gg_wires g)}" "\<forall>w \<in> S. mentioned (gg_gates g) w"
    and "length (gg_gates g) < 2 ^ 32" "length (gg_wires g) < 2 ^ 32"
  obtains a where "scratch_alloc_new g S policy = Some a" "\<forall>w. sa_slot a w \<noteq> None \<longleftrightarrow> w \<in> S"
    "\<forall>w s. sa_slot a w = Some s \<longrightarrow> unat s < sa_n_slots a" "sa_n_slots a \<le> card S"
    "\<forall>i < length (gg_gates g). inj_on (sa_slot a) {w \<in> S. alive_at (gg_gates g) i w}"
    "policy = PerWire \<longrightarrow> inj_on (sa_slot a) S"
    "sa_peak_live a = 0 \<or> (\<exists>i < length (gg_gates g). sa_peak_live a = card {w \<in> S. alive_at (gg_gates g) i w})"
proof -
  have fin: "finite S" using assms(1) finite_subset by blast
  have "card S \<le> length (gg_wires g)" using card_mono[OF _ assms(1)] by simp
  then have small: "card S < 2 ^ 32" using assms(4) by linarith
  obtain slot n where pool: "pool_slots (gg_gates g) S (order_deaths (gg_gates g) S) = Some (slot, n)"
    "\<forall>w. slot w \<noteq> None \<longleftrightarrow> w \<in> S \<and> mentioned (gg_gates g) w" "\<forall>w s. slot w = Some s \<longrightarrow> unat s < n"
    "\<forall>i < length (gg_gates g). inj_on slot {w \<in> S. alive_at (gg_gates g) i w}"
    "n = 0 \<or> (\<exists>i < length (gg_gates g). n = card {w \<in> S. alive_at (gg_gates g) i w})" "n \<le> card S"
    by (rule pool_slots_spec[OF fin small assms(3)])
  show ?thesis
  proof (cases policy)
    case Pooled
    show ?thesis
      by (rule that[of "\<lparr>sa_slot = slot, sa_n_slots = n, sa_peak_live = n\<rparr>"])
        (use pool assms(2) Pooled in \<open>auto simp: scratch_alloc_new_def Let_def\<close>)
  next
    case PerWire
    obtain slot' n' where own: "slot_per_wire g S = (slot', n')" by fastforce
    note ow = slot_per_wire_spec[OF assms(1,4) own]
    have "inj_on slot' {w \<in> S. alive_at (gg_gates g) i w}" for i
      by (rule inj_on_subset[OF ow(3)]) auto
    then show ?thesis
      by (intro that[of "\<lparr>sa_slot = slot', sa_n_slots = n', sa_peak_live = n\<rparr>"])
        (use pool ow own PerWire in \<open>auto simp: scratch_alloc_new_def Let_def\<close>)
  qed
qed

text \<open>C18: Scratch slots are safe to share. For the values of the scratch segment of a graph, each
  mentioned by some gate, assignment returns under either policy, gives every value and nothing else
  a slot inside the segment, never gives one slot to two values alive at the same gate, uses no more
  slots than there are values, and reports as its peak a number of values alive together at some
  gate, which no sharing could go below.\<close>

theorem scratch_slots_apart:
  assumes "S \<subseteq> {..<length (gg_wires g)}" "\<forall>w \<in> S. mentioned (gg_gates g) w"
    and "length (gg_gates g) < 2 ^ 32" "length (gg_wires g) < 2 ^ 32"
  shows "\<exists>a. scratch_alloc_new g S policy = Some a \<and> (\<forall>w. sa_slot a w \<noteq> None \<longleftrightarrow> w \<in> S) \<and>
    (\<forall>w s. sa_slot a w = Some s \<longrightarrow> unat s < sa_n_slots a) \<and> sa_n_slots a \<le> card S \<and>
    (\<forall>i < length (gg_gates g). inj_on (sa_slot a) {w \<in> S. alive_at (gg_gates g) i w}) \<and>
    (sa_peak_live a = 0 \<or> (\<exists>i < length (gg_gates g). sa_peak_live a = card {w \<in> S. alive_at (gg_gates g) i w}))"
  by (rule scratch_alloc_spec[OF assms, of policy]) blast

text \<open>A chain of three gates, each reading what the one before it wrote.\<close>

definition sample_chain :: gate_graph where
  "sample_chain = \<lparr>gg_gates = map (\<lambda>i. \<lparr>body = Op Bxor, wires = [i, 0, Suc i], immediates = [], dimensions = []\<rparr>) [1, 2, 3],
    gg_wires = KConstant ALL_ONE # KWitness # replicate 3 KInternal, gate_origin = (\<lambda>_. 0), assertion_names = (\<lambda>_. 0),
    const_pool = [ALL_ONE \<mapsto> 0], all_one = 0, wire_def = (\<lambda>_. None), use_edges = [], use_offsets = []\<rparr>"

lemma scratch_slots_apart_witness:
  "\<exists>a. scratch_alloc_new sample_chain {2, 3, 4} Pooled = Some a \<and> (\<forall>w. sa_slot a w \<noteq> None \<longleftrightarrow> w \<in> {2, 3, 4}) \<and>
    sa_slot a 2 \<noteq> sa_slot a 3 \<and> sa_slot a 3 \<noteq> sa_slot a 4"
proof -
  have n: "length (gg_gates sample_chain) = 3" by (simp add: sample_chain_def)
  have "{2, 3, 4} \<subseteq> {..<length (gg_wires sample_chain)}" "\<forall>w \<in> {2, 3, 4}. mentioned (gg_gates sample_chain) w"
    "length (gg_gates sample_chain) < 2 ^ 32" "length (gg_wires sample_chain) < 2 ^ 32"
    by (auto simp: sample_chain_def)
  from scratch_slots_apart[OF this, of Pooled] obtain a where
    a: "scratch_alloc_new sample_chain {2, 3, 4} Pooled = Some a" "\<forall>w. sa_slot a w \<noteq> None \<longleftrightarrow> w \<in> {2, 3, 4}"
      "\<forall>i < 3. inj_on (sa_slot a) {w \<in> {2, 3, 4}. alive_at (gg_gates sample_chain) i w}"
    unfolding n by blast
  have alive: "alive_at (gg_gates sample_chain) 1 2" "alive_at (gg_gates sample_chain) 1 3"
    "alive_at (gg_gates sample_chain) 2 3" "alive_at (gg_gates sample_chain) 2 4"
    by (simp_all add: alive_at_def sample_chain_def)
  have "sa_slot a 2 \<noteq> sa_slot a 3" using inj_onD[OF a(3)[rule_format, of 1], of 2 3] alive by auto
  moreover have "sa_slot a 3 \<noteq> sa_slot a 4" using inj_onD[OF a(3)[rule_format, of 2], of 3 4] alive by auto
  ultimately show ?thesis using a(1,2) by blast
qed

end
