(* ===== verification/Value_Alloc.thy ===== *)
theory Value_Alloc
  imports Scratch_Alloc
begin

text \<open>
  The places of wires in the value vector (\<open>pass/layout/value_vec_alloc.rs\<close>): each group of wires is
  numbered in its own segment.  \<open>None\<close> is a panic: an index past the capacity of its segment.
\<close>

section \<open>Definitions\<close>

record assignment =
  as_wire_mapping :: "wire \<Rightarrow> value_index"
  as_layout :: value_vec_layout
  as_constants :: "u64 list"
  as_inout :: "wire list"

record value_alloc =
  w_const :: "(wire \<times> u64) list"
  w_inout :: "wire list"
  w_witness :: "wire list"
  w_internal :: "wire list"
  w_scratch :: "(wire \<times> u32) list"
  n_scratch_slots :: nat

definition alloc_new :: "nat \<Rightarrow> value_alloc" where
  "alloc_new n = \<lparr>w_const = [], w_inout = [], w_witness = [], w_internal = [], w_scratch = [], n_scratch_slots = n\<rparr>"

definition alloc_constant :: "wire \<Rightarrow> u64 \<Rightarrow> value_alloc \<Rightarrow> value_alloc" where
  "alloc_constant w v a = a\<lparr>w_const := w_const a @ [(w, v)]\<rparr>"

definition alloc_inout :: "wire \<Rightarrow> value_alloc \<Rightarrow> value_alloc" where
  "alloc_inout w a = a\<lparr>w_inout := w_inout a @ [w]\<rparr>"

definition alloc_witness :: "wire \<Rightarrow> value_alloc \<Rightarrow> value_alloc" where
  "alloc_witness w a = a\<lparr>w_witness := w_witness a @ [w]\<rparr>"

definition alloc_internal :: "wire \<Rightarrow> value_alloc \<Rightarrow> value_alloc" where
  "alloc_internal w a = a\<lparr>w_internal := w_internal a @ [w]\<rparr>"

definition alloc_scratch :: "wire \<Rightarrow> u32 \<Rightarrow> value_alloc \<Rightarrow> value_alloc" where
  "alloc_scratch w slot a = a\<lparr>w_scratch := w_scratch a @ [(w, slot)]\<rparr>"

text \<open>Numbering the wires of a segment, and the scratch wires, which carry their slots.\<close>

fun map_wires :: "(u32 \<Rightarrow> value_index option) \<Rightarrow> nat \<Rightarrow> wire list \<Rightarrow> (wire \<Rightarrow> value_index) \<Rightarrow> (wire \<Rightarrow> value_index) option" where
  "map_wires mk i [] m = Some m"
| "map_wires mk i (w # ws) m = Option.bind (mk (word_of_nat i)) (\<lambda>v. map_wires mk (Suc i) ws (m(w := v)))"

fun map_scratch :: "(wire \<times> u32) list \<Rightarrow> (wire \<Rightarrow> value_index) \<Rightarrow> (wire \<Rightarrow> value_index) option" where
  "map_scratch [] m = Some m"
| "map_scratch ((w, slot) # ws) m = Option.bind (vi_scratch slot) (\<lambda>v. map_scratch ws (m(w := v)))"

definition into_assignment :: "value_alloc \<Rightarrow> assignment option" where
  "into_assignment a = do {
    fill \<leftarrow> vi_scratch 0;
    m \<leftarrow> map_wires vi_constant 0 (map fst (w_const a)) (\<lambda>_. fill);
    m \<leftarrow> map_wires vi_inout 0 (w_inout a) m;
    m \<leftarrow> map_wires vi_private 0 (w_witness a @ w_internal a) m;
    m \<leftarrow> map_scratch (w_scratch a) m;
    Some \<lparr>as_wire_mapping = m,
      as_layout = \<lparr>lay_n_const = length (w_const a), lay_n_inout = length (w_inout a),
        lay_n_witness = length (w_witness a), lay_n_internal = length (w_internal a),
        lay_n_scratch = n_scratch_slots a\<rparr>,
      as_constants = map snd (w_const a), as_inout = w_inout a\<rparr>
  }"

section \<open>Every wire gets its place\<close>

definition placed_at :: "(wire \<Rightarrow> value_index) \<Rightarrow> wire \<Rightarrow> value_segment \<Rightarrow> nat \<Rightarrow> bool" where
  "placed_at m w s k \<longleftrightarrow> vi_segment (m w) = s \<and> unat (vi_index (m w)) = k"

lemma vi_new_nat:
  assumes "i < 2 ^ 30"
  obtains v where "vi_new s (word_of_nat i) = Some v" "vi_segment v = s" "unat (vi_index v) = i"
proof -
  have u: "unat (word_of_nat i :: u32) = i" using assms by (simp add: unsigned_of_nat take_bit_nat_eq_self)
  then have "word_of_nat i < SEGMENT_CAPACITY" using assms by (simp add: less_capacity_iff)
  then obtain v where "vi_new s (word_of_nat i) = Some v" by (auto simp: vi_new_def)
  then show ?thesis using that[of v] vi_new_Some[of s "word_of_nat i" v] u by simp
qed

lemma map_wires_spec:
  "distinct ws \<Longrightarrow> i + length ws \<le> 2 ^ 30 \<Longrightarrow>
    \<exists>m'. map_wires (vi_new s) i ws m = Some m' \<and> (\<forall>k < length ws. placed_at m' (ws ! k) s (i + k)) \<and>
      (\<forall>w. w \<notin> set ws \<longrightarrow> m' w = m w)"
proof (induction ws arbitrary: i m)
  case (Cons w ws)
  have "i < 2 ^ 30" using Cons.prems(2) by simp
  then obtain v where v: "vi_new s (word_of_nat i) = Some v" "vi_segment v = s" "unat (vi_index v) = i"
    by (rule vi_new_nat)
  have "distinct ws" "Suc i + length ws \<le> 2 ^ 30" using Cons.prems by simp_all
  from Cons.IH[OF this, of "m(w := v)"]
  obtain m' where m': "map_wires (vi_new s) (Suc i) ws (m(w := v)) = Some m'"
    "\<forall>k < length ws. placed_at m' (ws ! k) s (Suc i + k)" "\<forall>u. u \<notin> set ws \<longrightarrow> m' u = (m(w := v)) u"
    by blast
  have "m' w = v" using m'(3) Cons.prems(1) by simp
  then have "placed_at m' ((w # ws) ! k) s (i + k)" if "k < length (w # ws)" for k
    using that m'(2) v by (cases k) (auto simp: placed_at_def)
  then show ?case using v(1) m' by auto
qed simp

lemma map_scratch_spec:
  "distinct (map fst ws) \<Longrightarrow> \<forall>(w, slot) \<in> set ws. unat slot < 2 ^ 30 \<Longrightarrow>
    \<exists>m'. map_scratch ws m = Some m' \<and> (\<forall>(w, slot) \<in> set ws. placed_at m' w Scratch (unat slot)) \<and>
      (\<forall>w. w \<notin> fst ` set ws \<longrightarrow> m' w = m w)"
proof (induction ws arbitrary: m)
  case (Cons x ws)
  obtain w slot where x: "x = (w, slot)" by (cases x)
  then have "slot < SEGMENT_CAPACITY" using Cons.prems(2) by (simp add: less_capacity_iff)
  then obtain v where v: "vi_scratch slot = Some v" "vi_segment v = Scratch" "vi_index v = slot"
    using vi_new_Some[of Scratch slot] by (auto simp: vi_new_def vi_scratch_def)
  have "distinct (map fst ws)" "\<forall>(w, slot) \<in> set ws. unat slot < 2 ^ 30" using Cons.prems by simp_all
  from Cons.IH[OF this, of "m(w := v)"]
  obtain m' where m': "map_scratch ws (m(w := v)) = Some m'" "\<forall>(w, slot) \<in> set ws. placed_at m' w Scratch (unat slot)"
    "\<forall>u. u \<notin> fst ` set ws \<longrightarrow> m' u = (m(w := v)) u"
    by blast
  have "m' w = v" using m'(3) Cons.prems(1) x by auto
  then show ?case using v m' x by (auto simp: placed_at_def)
qed simp

text \<open>Allocation of distinct wires, each group within the capacity of a segment.\<close>

definition alloc_ok :: "value_alloc \<Rightarrow> bool" where
  "alloc_ok a \<longleftrightarrow>
    distinct (map fst (w_const a) @ w_inout a @ w_witness a @ w_internal a @ map fst (w_scratch a)) \<and>
    length (w_const a) \<le> 2 ^ 30 \<and> length (w_inout a) \<le> 2 ^ 30 \<and> length (w_witness a) + length (w_internal a) \<le> 2 ^ 30 \<and>
    (\<forall>(w, slot) \<in> set (w_scratch a). unat slot < 2 ^ 30)"

lemma into_assignment_spec:
  assumes "alloc_ok a"
  obtains m where "into_assignment a = Some \<lparr>as_wire_mapping = m,
      as_layout = \<lparr>lay_n_const = length (w_const a), lay_n_inout = length (w_inout a),
        lay_n_witness = length (w_witness a), lay_n_internal = length (w_internal a),
        lay_n_scratch = n_scratch_slots a\<rparr>,
      as_constants = map snd (w_const a), as_inout = w_inout a\<rparr>"
    "\<forall>k < length (w_const a). placed_at m (fst (w_const a ! k)) Constant k"
    "\<forall>k < length (w_inout a). placed_at m (w_inout a ! k) InOut k"
    "\<forall>k < length (w_witness a @ w_internal a). placed_at m ((w_witness a @ w_internal a) ! k) Private k"
    "\<forall>(w, slot) \<in> set (w_scratch a). placed_at m w Scratch (unat slot)"
proof -
  obtain fill where fill: "vi_scratch 0 = Some fill"
    by (rule vi_new_nat[of 0 Scratch]) (simp_all add: vi_scratch_def)
  obtain m1 where m1: "map_wires vi_constant 0 (map fst (w_const a)) (\<lambda>_. fill) = Some m1"
    "\<forall>k < length (w_const a). placed_at m1 (fst (w_const a ! k)) Constant k"
    using map_wires_spec[of "map fst (w_const a)" 0 Constant "\<lambda>_. fill"] assms
    by (auto simp: alloc_ok_def vi_constant_def[abs_def])
  obtain m2 where m2: "map_wires vi_inout 0 (w_inout a) m1 = Some m2"
    "\<forall>k < length (w_inout a). placed_at m2 (w_inout a ! k) InOut k" "\<forall>w. w \<notin> set (w_inout a) \<longrightarrow> m2 w = m1 w"
    using map_wires_spec[of "w_inout a" 0 InOut m1] assms by (auto simp: alloc_ok_def vi_inout_def[abs_def])
  obtain m3 where m3: "map_wires vi_private 0 (w_witness a @ w_internal a) m2 = Some m3"
    "\<forall>k < length (w_witness a @ w_internal a). placed_at m3 ((w_witness a @ w_internal a) ! k) Private k"
    "\<forall>w. w \<notin> set (w_witness a @ w_internal a) \<longrightarrow> m3 w = m2 w"
    using map_wires_spec[of "w_witness a @ w_internal a" 0 Private m2] assms
    by (auto simp: alloc_ok_def vi_private_def[abs_def])
  obtain m4 where m4: "map_scratch (w_scratch a) m3 = Some m4" "\<forall>(w, slot) \<in> set (w_scratch a). placed_at m4 w Scratch (unat slot)"
    "\<forall>w. w \<notin> fst ` set (w_scratch a) \<longrightarrow> m4 w = m3 w"
    using map_scratch_spec[of "w_scratch a" m3] assms by (auto simp: alloc_ok_def)
  have dist: "distinct (map fst (w_const a) @ w_inout a @ (w_witness a @ w_internal a) @ map fst (w_scratch a))"
    using assms by (simp add: alloc_ok_def)
  have c: "placed_at m4 (fst (w_const a ! k)) Constant k" if "k < length (w_const a)" for k
  proof -
    have "fst (w_const a ! k) \<in> set (map fst (w_const a))" using that by simp
    then have "fst (w_const a ! k) \<notin> set (w_inout a)" "fst (w_const a ! k) \<notin> set (w_witness a @ w_internal a)"
      "fst (w_const a ! k) \<notin> fst ` set (w_scratch a)"
      using dist unfolding distinct_append by (auto simp del: in_set_conv_nth)
    then show ?thesis using m1(2) m2(3) m3(3) m4(3) that by (simp add: placed_at_def)
  qed
  have i: "placed_at m4 (w_inout a ! k) InOut k" if "k < length (w_inout a)" for k
  proof -
    have "w_inout a ! k \<in> set (w_inout a)" using that by simp
    then have "w_inout a ! k \<notin> set (w_witness a @ w_internal a)" "w_inout a ! k \<notin> fst ` set (w_scratch a)"
      using dist unfolding distinct_append by auto
    then show ?thesis using m2(2) m3(3) m4(3) that by (simp add: placed_at_def)
  qed
  have p: "placed_at m4 ((w_witness a @ w_internal a) ! k) Private k" if "k < length (w_witness a @ w_internal a)" for k
  proof -
    have "(w_witness a @ w_internal a) ! k \<in> set (w_witness a @ w_internal a)" using that by (rule nth_mem)
    then have "(w_witness a @ w_internal a) ! k \<notin> fst ` set (w_scratch a)"
      using dist unfolding distinct_append by auto
    then show ?thesis using m3(2) m4(3) that by (simp add: placed_at_def)
  qed
  show ?thesis
    by (rule that[of m4]) (use fill m1(1) m2(1) m3(1) m4(1,2) c i p in \<open>simp_all add: into_assignment_def\<close>)
qed

end
