(* ===== verification/Used_Wires.thy ===== *)
theory Used_Wires
  imports Gates Constraint_System
begin

text \<open>
  The wires a constraint builder mentions (\<open>ConstraintBuilder::mark_used_wires\<close>): the marking is
  exact, the constraints depend on no other wire, and a gate's constraints mention only its
  operands, through canonical shifts.
\<close>

section \<open>The marked wires\<close>

definition cb_operands :: "constraint_builder \<Rightarrow> wire_operand list" where
  "cb_operands cb =
    concat (map (\<lambda>c. [wa_a c, wa_b c, wa_c c]) (cb_and cb)) @
    concat (map (\<lambda>c. [wi_a c, wi_b c, wi_hi c, wi_lo c]) (cb_imul cb)) @
    concat (map (\<lambda>c. [wb_a_lo c, wb_a_hi c, wb_b_lo c, wb_b_hi c, wb_c_lo c, wb_c_hi c]) (cb_bmul cb)) @
    map wl_rhs (cb_linear cb) @ map wz_val (cb_zero cb)"

definition op_terms :: "shifted_wire list \<Rightarrow> wire_operand \<Rightarrow> shifted_wire list" where
  "op_terms T o' = take (op_len o') (drop (op_start o') T)"

definition op_wires :: "shifted_wire list \<Rightarrow> wire_operand \<Rightarrow> wire set" where
  "op_wires T o' = sw_wire ` set (op_terms T o')"

definition cb_used :: "constraint_builder \<Rightarrow> wire set" where
  "cb_used cb = (\<Union>o' \<in> set (cb_operands cb). op_wires (cb_terms cb) o') \<union> wl_dst ` set (cb_linear cb)"

lemma mark_used_eq: "in_arena T o' \<Longrightarrow> mark_used o' T used = Some (used \<union> op_wires T o')"
  by (simp add: mark_used_def as_slice_def slice_def in_arena_def op_wires_def op_terms_def)

lemma mark_list_eq:
  "\<forall>o' \<in> set os. in_arena T o' \<Longrightarrow>
    foldl (\<lambda>u o'. Option.bind u (mark_used o' T)) (Some used) os = Some (used \<union> (\<Union>o' \<in> set os. op_wires T o'))"
  by (induction os arbitrary: used) (simp_all add: mark_used_eq Un_assoc)

lemma mark_each_eq:
  "\<forall>c \<in> set cs. \<forall>o' \<in> set (ops c). in_arena T o' \<Longrightarrow>
    mark_each ops T cs used = Some (used \<union> (\<Union>c \<in> set cs. \<Union>o' \<in> set (ops c). op_wires T o'))"
  by (induction cs arbitrary: used) (simp_all add: mark_list_eq Un_assoc)

lemma mark_used_wires_spec:
  assumes "cb_wf cb"
  shows "mark_used_wires cb = Some (cb_used cb)"
  using assms
  by (simp add: mark_used_wires_def mark_each_eq cb_wf_def Let_def cb_used_def cb_operands_def Un_ac)

lemma op_val_agree: "\<forall>w \<in> op_wires T o'. \<sigma> w = \<tau> w \<Longrightarrow> op_val \<sigma> T o' = op_val \<tau> T o'"
proof -
  have "\<forall>t \<in> set ts. \<sigma> (sw_wire t) = \<tau> (sw_wire t) \<Longrightarrow> terms_val \<sigma> ts = terms_val \<tau> ts" for ts
    by (induction ts) (simp_all add: sw_val_def)
  then show "\<forall>w \<in> op_wires T o'. \<sigma> w = \<tau> w \<Longrightarrow> op_val \<sigma> T o' = op_val \<tau> T o'"
    by (simp add: op_wires_def op_terms_def op_val_def)
qed

lemma cb_sat_agree:
  assumes "\<forall>w \<in> cb_used cb. \<sigma> w = \<tau> w"
  shows "cb_sat \<sigma> cb \<longleftrightarrow> cb_sat \<tau> cb"
proof -
  have v: "o' \<in> set (cb_operands cb) \<Longrightarrow> op_val \<sigma> (cb_terms cb) o' = op_val \<tau> (cb_terms cb) o'" for o'
    by (rule op_val_agree) (use assms in \<open>auto simp: cb_used_def\<close>)
  have "and_sat \<sigma> (cb_terms cb) c = and_sat \<tau> (cb_terms cb) c" if "c \<in> set (cb_and cb)" for c
    unfolding and_sat_def by (subst (1 2 3) v) (use that in \<open>auto simp: cb_operands_def\<close>)
  moreover have "imul_sat \<sigma> (cb_terms cb) c = imul_sat \<tau> (cb_terms cb) c" if "c \<in> set (cb_imul cb)" for c
    unfolding imul_sat_def by (subst (1 2 3 4) v) (use that in \<open>auto simp: cb_operands_def\<close>)
  moreover have "bmul_sat \<sigma> (cb_terms cb) c = bmul_sat \<tau> (cb_terms cb) c" if "c \<in> set (cb_bmul cb)" for c
    unfolding bmul_sat_def by (subst (1 2 3 4 5 6) v) (use that in \<open>auto simp: cb_operands_def\<close>)
  moreover have "linear_sat \<sigma> (cb_terms cb) c = linear_sat \<tau> (cb_terms cb) c" if "c \<in> set (cb_linear cb)" for c
    unfolding linear_sat_def by (subst v) (use that assms in \<open>auto simp: cb_operands_def cb_used_def\<close>)
  moreover have "zero_sat \<sigma> (cb_terms cb) c = zero_sat \<tau> (cb_terms cb) c" if "c \<in> set (cb_zero cb)" for c
    unfolding zero_sat_def by (subst v) (use that in \<open>auto simp: cb_operands_def\<close>)
  ultimately show ?thesis by (simp add: cb_sat_def)
qed

section \<open>What the terms of a builder are\<close>

definition seq_wf :: "shift \<times> shift \<Rightarrow> bool" where
  "seq_wf sq \<longleftrightarrow> shift_wf (fst sq) \<and> shift_wf (snd sq) \<and>
    (snd sq = IDENTITY \<or> compose (fst sq) (snd sq) = Some CompPair)"

definition term_in :: "wire set \<Rightarrow> shifted_wire \<Rightarrow> bool" where
  "term_in W t \<longleftrightarrow> sw_wire t \<in> W \<and> seq_wf (sw_seq t)"

definition cb_in :: "wire set \<Rightarrow> constraint_builder \<Rightarrow> bool" where
  "cb_in W cb \<longleftrightarrow> (\<forall>t \<in> set (cb_terms cb). term_in W t) \<and> (\<forall>c \<in> set (cb_linear cb). wl_dst c \<in> W)"

definition expr_in :: "wire set \<Rightarrow> wire_expr_term \<Rightarrow> bool" where
  "expr_in W t \<longleftrightarrow> term_in W (to_shifted_wire t)"

lemma cb_used_in: "cb_in W cb \<Longrightarrow> cb_used cb \<subseteq> W"
  unfolding cb_in_def cb_used_def op_wires_def op_terms_def term_in_def
  by (auto dest!: in_set_takeD in_set_dropD)

lemma cb_in_new [simp]: "cb_in W cb_new"
  by (simp add: cb_in_def cb_new_def)

text \<open>\<open>stays W r\<close>: a run that returns, returns a builder within \<open>W\<close>.\<close>

definition stays :: "wire set \<Rightarrow> constraint_builder option \<Rightarrow> bool" where
  "stays W r \<longleftrightarrow> (\<forall>cb. r = Some cb \<longrightarrow> cb_in W cb)"

lemma stays_None [simp, intro]: "stays W None"
  by (simp add: stays_def)

lemma stays_bind: "(\<And>x. r = Some x \<Longrightarrow> stays W (f x)) \<Longrightarrow> stays W (Option.bind r f)"
  by (cases r) simp_all

lemma stays_then: "stays W r \<Longrightarrow> (\<And>cb. cb_in W cb \<Longrightarrow> stays W (f cb)) \<Longrightarrow> stays W (Option.bind r f)"
  by (cases r) (simp_all add: stays_def)

lemma stays_push:
  "cb_in W cb \<Longrightarrow> \<forall>t \<in> set (a @ b @ c). expr_in W t \<Longrightarrow> stays W (push_and a b c cb)"
  "cb_in W cb \<Longrightarrow> \<forall>t \<in> set (a @ b @ c @ d). expr_in W t \<Longrightarrow> stays W (push_imul a b c d cb)"
  "cb_in W cb \<Longrightarrow> \<forall>t \<in> set (a @ b @ c @ d @ e @ f). expr_in W t \<Longrightarrow> stays W (push_bmul a b c d e f cb)"
  "cb_in W cb \<Longrightarrow> \<forall>t \<in> set a. expr_in W t \<Longrightarrow> z \<in> W \<Longrightarrow> stays W (push_linear a z cb)"
  "cb_in W cb \<Longrightarrow> \<forall>t \<in> set a. expr_in W t \<Longrightarrow> stays W (push_zero a cb)"
  by (auto simp: stays_def push_and_def push_imul_def push_bmul_def push_linear_def push_zero_def into_operand_eq
      cb_in_def expr_in_def bind_eq_Some_conv split: if_splits)

lemma shift_wf_IDENTITY [simp]: "shift_wf IDENTITY"
  by (simp add: shift_wf_def)

lemma expr_in_wire [simp]: "expr_in W (TermWire w) \<longleftrightarrow> w \<in> W"
  by (simp add: expr_in_def term_in_def sw_single_def seq_wf_def)

lemma expr_in_shifted: "shift_new v n = Some s \<Longrightarrow> n \<noteq> 0 \<Longrightarrow> expr_in W (TermShifted w s) \<longleftrightarrow> w \<in> W"
proof -
  assume s: "shift_new v n = Some s" and n: "n \<noteq> 0"
  have lt: "n < max_amount v" "s = \<lparr>variant = v, amount = of_nat n\<rparr>" using s by (simp_all add: shift_new_eq_Some)
  then have "n < 64" using max_amount_le[of v] by linarith
  then have "unat (amount s) = n" using lt(2) by (simp add: unat_small_amount)
  then have "shift_wf s" using lt n by (auto simp: shift_wf_def is_canonical_def is_identity_def valid_shift_def)
  then show ?thesis by (simp add: expr_in_def term_in_def sw_single_def seq_wf_def)
qed

lemma shift_exprs_in:
  "expr_sll w n = Some t \<Longrightarrow> n \<noteq> 0 \<Longrightarrow> expr_in W t \<longleftrightarrow> w \<in> W"
  "expr_srl w n = Some t \<Longrightarrow> n \<noteq> 0 \<Longrightarrow> expr_in W t \<longleftrightarrow> w \<in> W"
  "expr_sar w n = Some t \<Longrightarrow> n \<noteq> 0 \<Longrightarrow> expr_in W t \<longleftrightarrow> w \<in> W"
  "expr_rotr w n = Some t \<Longrightarrow> n \<noteq> 0 \<Longrightarrow> expr_in W t \<longleftrightarrow> w \<in> W"
  "expr_sll32 w n = Some t \<Longrightarrow> n \<noteq> 0 \<Longrightarrow> expr_in W t \<longleftrightarrow> w \<in> W"
  "expr_srl32 w n = Some t \<Longrightarrow> n \<noteq> 0 \<Longrightarrow> expr_in W t \<longleftrightarrow> w \<in> W"
  "expr_sra32 w n = Some t \<Longrightarrow> n \<noteq> 0 \<Longrightarrow> expr_in W t \<longleftrightarrow> w \<in> W"
  "expr_rotr32 w n = Some t \<Longrightarrow> n \<noteq> 0 \<Longrightarrow> expr_in W t \<longleftrightarrow> w \<in> W"
  by (auto simp: expr_sll_def expr_srl_def expr_sar_def expr_rotr_def expr_sll32_def expr_srl32_def expr_sra32_def
      expr_rotr32_def shift_sll_def shift_srl_def shift_sar_def shift_rotr_def shift_sll32_def shift_srl32_def
      shift_sra32_def shift_rotr32_def expr_in_shifted)

lemma shifted_term_in: "shifted_term v x n = Some t \<Longrightarrow> expr_in W t \<longleftrightarrow> x \<in> W"
  by (auto simp: shifted_term_def unat_eq_0 dest!: shift_exprs_in[where W = W] split: if_splits shift_variant.splits)

text \<open>Where a gate's constraints look.\<close>

definition gate_looks :: "opcode \<Rightarrow> gate_param \<Rightarrow> wire list" where
  "gate_looks opcode p = p_constants p @ p_inputs p @ p_outputs p @ (if opcode = AssertNonZero then p_aux p else [])"

lemmas constrain_defs = constrain_band_def constrain_bor_def constrain_bxor_def constrain_bxor_multi_def
  constrain_fax_def constrain_select_def constrain_iadd_cin_cout_def constrain_iadd32_def
  constrain_iadd32_cin_cout_def constrain_isub_bin_bout_def constrain_imul_def constrain_bmul_def
  constrain_shift_def constrain_icmp_ult_def constrain_icmp_eq_def constrain_assert_eq_def
  constrain_assert_eq_cond_def constrain_assert_zero_def constrain_assert_non_zero_def
  constrain_assert_false_def constrain_assert_true_def

lemma op_constrain_in:
  assumes "cb_in W cb" "set (gate_looks opcode p) \<subseteq> W"
  shows "stays W (op_constrain opcode p cb)"
proof -
  note rules = stays_push stays_then[OF stays_push(1)] stays_bind[where r = "expr_sll w n" for w n]
    stays_bind[where r = "expr_srl w n" for w n] stays_bind[where r = "expr_sar w n" for w n]
    stays_bind[where r = "expr_sll32 w n" for w n] stays_bind[where r = "expr_srl32 w n" for w n]
    stays_bind[where r = "variant_of v" for v] stays_bind[where r = "shifted_term v w n" for v w n]
  show ?thesis
    using assms
    by (cases opcode; simp add: constrain_defs gate_looks_def expr_defs split: list.splits del: kernels; intro rules impI allI;
      auto simp: shift_exprs_in shifted_term_in subset_iff simp del: kernels)
qed

end
