(* ===== verification/Assemble.thy ===== *)
theory Assemble
  imports Used_Wires Value_Alloc
begin

text \<open>
  From a graph to a circuit: what \<open>CircuitBuilder::compile\<close> (\<open>builder/mod.rs\<close>) does once the graph
  passes have run.  The gates that are kept become constraints, every wire gets its place, the
  constraints are lowered onto the places and lose their zero constants, and the graph becomes a
  program.  \<open>None\<close> is a panic.
\<close>

section \<open>Options and circuits\<close>

record options =
  enable_gate_fusion :: bool
  enable_constant_propagation :: bool
  enable_common_subexpression_elimination :: bool
  enable_dead_code_elimination :: bool
  enable_algebraic_folding :: bool
  enable_scratch_pooling :: bool
  enable_zero_propagation :: bool

definition default_options :: options where
  "default_options = \<lparr>enable_gate_fusion = True, enable_constant_propagation = False,
    enable_common_subexpression_elimination = True, enable_dead_code_elimination = True,
    enable_algebraic_folding = True, enable_scratch_pooling = True, enable_zero_propagation = True\<rparr>"

record pending_call =
  pc_chip :: nat
  pc_inout :: "wire list"

record circuit =
  c_path_tree :: path_tree
  c_gate_records :: "(path_spec \<times> gate_body) list"
  c_constraint_system :: constraint_system
  c_layout :: value_vec_layout
  c_wire_mapping :: "wire \<Rightarrow> value_index"
  c_inout :: "wire list"
  c_eval_form :: eval_form
  c_scratch_peak_live :: nat
  c_scratch_pooled :: bool

section \<open>The steps\<close>

definition gate_kept :: "gate set option \<Rightarrow> gate set option \<Rightarrow> gate \<Rightarrow> bool" where
  "gate_kept dead live gate \<longleftrightarrow>
    \<not> (case dead of Some D \<Rightarrow> gate \<in> D | None \<Rightarrow> False) \<and> (case live of Some L \<Rightarrow> gate \<in> L | None \<Rightarrow> True)"

fun constrain_gates :: "hint_registry \<Rightarrow> gate set option \<Rightarrow> gate set option \<Rightarrow> gate \<Rightarrow> gate_data list \<Rightarrow>
    constraint_builder \<Rightarrow> constraint_builder option" where
  "constrain_gates r dead live gate [] cb = Some cb"
| "constrain_gates r dead live gate (d # ds) cb =
    (if gate_kept dead live gate
     then Option.bind (gate_constrain r d cb) (constrain_gates r dead live (Suc gate) ds)
     else constrain_gates r dead live (Suc gate) ds cb)"

definition call_wires :: "pending_call list \<Rightarrow> wire set" where
  "call_wires calls = (\<Union>c \<in> set calls. set (pc_inout c))"

definition loose_kind :: "wire_kind \<Rightarrow> bool" where
  "loose_kind k \<longleftrightarrow> (case k of KInternal \<Rightarrow> True | KScratch \<Rightarrow> True | _ \<Rightarrow> False)"

definition scratch_wires :: "gate_graph \<Rightarrow> wire set \<Rightarrow> wire set" where
  "scratch_wires g constrained =
    set (filter (\<lambda>w. loose_kind (gg_wires g ! w) \<and> w \<notin> constrained) [0..<length (gg_wires g)])"

fun place_wires :: "wire set \<Rightarrow> (wire \<Rightarrow> u32 option) \<Rightarrow> wire \<Rightarrow> wire_kind list \<Rightarrow> value_alloc \<Rightarrow> value_alloc option" where
  "place_wires constrained slot w [] a = Some a"
| "place_wires constrained slot w (k # ks) a = do {
    a \<leftarrow> (case k of
        KConstant c \<Rightarrow> Some (alloc_constant w c a)
      | KInout \<Rightarrow> Some (alloc_inout w a)
      | KWitness \<Rightarrow> Some (alloc_witness w a)
      | _ \<Rightarrow> if w \<in> constrained then Some (alloc_internal w a)
          else map_option (\<lambda>s. alloc_scratch w s a) (slot w));
    place_wires constrained slot (Suc w) ks a
  }"

text \<open>Filtering the terms that name a zero constant.\<close>

fun retain_terms :: "u64 list \<Rightarrow> operand \<Rightarrow> operand option" where
  "retain_terms cnst [] = Some []"
| "retain_terms cnst (t # ts) = do {
    keep \<leftarrow> (if vi_segment (value_index t) \<noteq> Constant then Some True
      else map_option (\<lambda>c. c \<noteq> ZERO) (read_at cnst (unat (vi_index (value_index t)))));
    ts \<leftarrow> retain_terms cnst ts;
    Some (if keep then t # ts else ts)
  }"

fun retain_zero :: "u64 list \<Rightarrow> zero_constraint \<Rightarrow> zero_constraint option" where
  "retain_zero cnst (ZeroConstraint v) = map_option ZeroConstraint (retain_terms cnst v)"

fun retain_and :: "u64 list \<Rightarrow> and_constraint \<Rightarrow> and_constraint option" where
  "retain_and cnst (AndConstraint a b c) = do {
    a \<leftarrow> retain_terms cnst a; b \<leftarrow> retain_terms cnst b; c \<leftarrow> retain_terms cnst c;
    Some (AndConstraint a b c)
  }"

fun retain_imul :: "u64 list \<Rightarrow> imul_constraint \<Rightarrow> imul_constraint option" where
  "retain_imul cnst (ImulConstraint a b lo hi) = do {
    a \<leftarrow> retain_terms cnst a; b \<leftarrow> retain_terms cnst b; lo \<leftarrow> retain_terms cnst lo; hi \<leftarrow> retain_terms cnst hi;
    Some (ImulConstraint a b lo hi)
  }"

fun retain_bmul :: "u64 list \<Rightarrow> bmul_constraint \<Rightarrow> bmul_constraint option" where
  "retain_bmul cnst (BmulConstraint a_lo a_hi b_lo b_hi c_lo c_hi) = do {
    a_lo \<leftarrow> retain_terms cnst a_lo; a_hi \<leftarrow> retain_terms cnst a_hi; b_lo \<leftarrow> retain_terms cnst b_lo;
    b_hi \<leftarrow> retain_terms cnst b_hi; c_lo \<leftarrow> retain_terms cnst c_lo; c_hi \<leftarrow> retain_terms cnst c_hi;
    Some (BmulConstraint a_lo a_hi b_lo b_hi c_lo c_hi)
  }"

definition built_gates :: "gate_graph \<Rightarrow> (path_spec \<times> gate_body) list" where
  "built_gates g = map (\<lambda>(gate, d). (gate_origin g gate, body d)) (enumerate 0 (gg_gates g))"

definition assemble :: "options \<Rightarrow> hint_registry \<Rightarrow> path_tree \<Rightarrow> pending_call list \<Rightarrow> gate_graph \<Rightarrow>
    constraint_builder \<Rightarrow> circuit option" where
  "assemble opts r tree calls g cb = do {
    used \<leftarrow> mark_used_wires cb;
    let constrained = used \<union> call_wires calls;
    let policy = (if enable_scratch_pooling opts then Pooled else PerWire);
    sa \<leftarrow> scratch_alloc_new g (scratch_wires g constrained) policy;
    a \<leftarrow> place_wires constrained (sa_slot sa) 0 (gg_wires g) (alloc_new (sa_n_slots sa));
    asg \<leftarrow> into_assignment a;
    (zs, as, is', bs) \<leftarrow> cb_build (as_wire_mapping asg) cb;
    zs \<leftarrow> those (map (retain_zero (as_constants asg)) zs);
    as \<leftarrow> those (map (retain_and (as_constants asg)) as);
    is' \<leftarrow> those (map (retain_imul (as_constants asg)) is');
    bs \<leftarrow> those (map (retain_bmul (as_constants asg)) bs);
    shape \<leftarrow> constraint_system_shape (as_layout asg) (as_constants asg);
    ef \<leftarrow> eval_form_build g (as_wire_mapping asg) (as_layout asg) r;
    Some \<lparr>c_path_tree = tree, c_gate_records = built_gates g,
      c_constraint_system = shape\<lparr>zero_constraints := zs, and_constraints := as, imul_constraints := is',
        bmul_constraints := bs\<rparr>,
      c_layout = as_layout asg, c_wire_mapping = as_wire_mapping asg, c_inout = as_inout asg, c_eval_form = ef,
      c_scratch_peak_live = sa_peak_live sa, c_scratch_pooled = (policy = Pooled)\<rparr>
  }"

section \<open>The constraints of the kept gates\<close>

definition gate_looked :: "gate_data \<Rightarrow> gate_param \<Rightarrow> wire list" where
  "gate_looked d p = (case body d of Op opcode \<Rightarrow> gate_looks opcode p | HintCall _ \<Rightarrow> [])"

lemma gate_constrain_in:
  assumes "cb_in W cb" "\<And>p. get_gate_param r d = Some p \<Longrightarrow> set (gate_looked d p) \<subseteq> W"
  shows "stays W (gate_constrain r d cb)"
  using assms
  by (cases "body d") (auto simp: gate_constrain_def gate_looked_def stays_def[of _ "Some _"] intro!: stays_bind op_constrain_in)

definition kept_gates :: "gate set option \<Rightarrow> gate set option \<Rightarrow> gate \<Rightarrow> gate_data list \<Rightarrow> gate_data list" where
  "kept_gates dead live gate ds = map snd (filter (\<lambda>(i, _). gate_kept dead live i) (enumerate gate ds))"

lemma kept_gates_simps [simp]:
  "kept_gates dead live gate [] = []"
  "kept_gates dead live gate (d # ds) =
    (if gate_kept dead live gate then [d] else []) @ kept_gates dead live (Suc gate) ds"
  by (simp_all add: kept_gates_def)

lemma constrain_gates_spec:
  assumes "\<forall>d \<in> set ds. gate_wf r ks d \<and> gate_imm_ok d" "cb_wf cb" "cb_in W cb"
    "length (cb_terms cb) + sum_list (map gate_room ds) < 2 ^ 32"
    "\<forall>d \<in> set (kept_gates dead live gate ds). \<forall>p. get_gate_param r d = Some p \<longrightarrow> set (gate_looked d p) \<subseteq> W"
  shows "\<exists>cb'. constrain_gates r dead live gate ds cb = Some cb' \<and> cb_wf cb' \<and> cb_in W cb' \<and>
    (\<forall>\<sigma>. consts_hold ks \<sigma> \<longrightarrow>
      (cb_sat \<sigma> cb' \<longleftrightarrow> cb_sat \<sigma> cb \<and> (\<forall>d \<in> set (kept_gates dead live gate ds). gate_sat r d \<sigma>)))"
  using assms
proof (induction ds arbitrary: gate cb)
  case (Cons d ds)
  show ?case
  proof (cases "gate_kept dead live gate")
    case True
    have "emits cb (gate_constrain r d cb) (gate_room d) (consts_hold ks) (gate_sat r d)"
      by (rule gate_constrain_emits) (use Cons.prems in auto)
    then obtain cb1 where cb1: "gate_constrain r d cb = Some cb1" "cb_wf cb1"
      "length (cb_terms cb1) \<le> length (cb_terms cb) + gate_room d"
      "\<forall>\<sigma>. consts_hold ks \<sigma> \<longrightarrow> (cb_sat \<sigma> cb1 \<longleftrightarrow> cb_sat \<sigma> cb \<and> gate_sat r d \<sigma>)"
      by (auto simp: emits_def)
    have "stays W (gate_constrain r d cb)"
      by (rule gate_constrain_in) (use Cons.prems True in auto)
    then have "cb_in W cb1" using cb1(1) by (simp add: stays_def)
    then obtain cb' where "constrain_gates r dead live (Suc gate) ds cb1 = Some cb'" "cb_wf cb'" "cb_in W cb'"
      "\<forall>\<sigma>. consts_hold ks \<sigma> \<longrightarrow>
        (cb_sat \<sigma> cb' \<longleftrightarrow> cb_sat \<sigma> cb1 \<and> (\<forall>d \<in> set (kept_gates dead live (Suc gate) ds). gate_sat r d \<sigma>))"
      using Cons.IH[of cb1 "Suc gate"] Cons.prems cb1 by auto
    then show ?thesis using cb1(1,4) True by auto
  qed (use Cons in auto)
qed simp

section \<open>Dropped terms\<close>

definition open_to :: "u64 list \<Rightarrow> (value_index \<Rightarrow> u64) \<Rightarrow> shifted_value_index \<Rightarrow> bool" where
  "open_to cnst f t \<longleftrightarrow> (vi_segment (value_index t) = Constant \<longrightarrow>
    unat (vi_index (value_index t)) < length cnst \<and> f (value_index t) = cnst ! unat (vi_index (value_index t)))"

lemma retain_terms_spec:
  assumes "\<forall>t \<in> set ts. vi_segment (value_index t) = Constant \<longrightarrow> unat (vi_index (value_index t)) < length cnst"
  shows "\<exists>us. retain_terms cnst ts = Some us \<and> set us \<subseteq> set ts \<and>
    (\<forall>f. (\<forall>t \<in> set ts. open_to cnst f t \<and> valid_shift (svi_inner t) \<and> valid_shift (svi_outer t)) \<longrightarrow>
      operand_val f us = operand_val f ts)"
  using assms
proof (induction ts)
  case (Cons t ts)
  then obtain us where us: "retain_terms cnst ts = Some us" "set us \<subseteq> set ts"
    "\<forall>f. (\<forall>t \<in> set ts. open_to cnst f t \<and> valid_shift (svi_inner t) \<and> valid_shift (svi_outer t)) \<longrightarrow>
      operand_val f us = operand_val f ts"
    by auto
  have zero: "svi_val f t = 0"
    if "open_to cnst f t" "valid_shift (svi_inner t)" "valid_shift (svi_outer t)"
      "vi_segment (value_index t) = Constant" "cnst ! unat (vi_index (value_index t)) = ZERO" for f
    using that by (simp add: svi_val_def open_to_def ZERO_def shift_apply_zero)
  show ?case
    using Cons.prems us zero by (auto simp: read_at_def ZERO_def)
qed simp

definition terms_of :: "operand list \<Rightarrow> shifted_value_index set" where
  "terms_of ops = (\<Union>opnd \<in> set ops. set opnd)"

definition named :: "u64 list \<Rightarrow> shifted_value_index set \<Rightarrow> bool" where
  "named cnst T \<longleftrightarrow> (\<forall>t \<in> T. valid_shift (svi_inner t) \<and> valid_shift (svi_outer t) \<and>
    (vi_segment (value_index t) = Constant \<longrightarrow> unat (vi_index (value_index t)) < length cnst))"

definition opens :: "u64 list \<Rightarrow> (value_index \<Rightarrow> u64) \<Rightarrow> bool" where
  "opens cnst f \<longleftrightarrow> (\<forall>v. vi_segment v = Constant \<and> unat (vi_index v) < length cnst \<longrightarrow> f v = cnst ! unat (vi_index v))"

text \<open>\<open>thinned\<close>: a constraint with no new terms that says the same of every assignment with these constants.\<close>

definition thinned :: "u64 list \<Rightarrow> ('c \<Rightarrow> operand list) \<Rightarrow> ((value_index \<Rightarrow> u64) \<Rightarrow> 'c \<Rightarrow> bool) \<Rightarrow> 'c \<Rightarrow> 'c \<Rightarrow> bool" where
  "thinned cnst as_ref holds c c' \<longleftrightarrow> terms_of (as_ref c') \<subseteq> terms_of (as_ref c) \<and>
    (\<forall>f. opens cnst f \<longrightarrow> holds f c' = holds f c)"

lemma retain_named:
  assumes "named cnst (set ts)"
  obtains us where "retain_terms cnst ts = Some us" "set us \<subseteq> set ts" "\<And>f. opens cnst f \<Longrightarrow> operand_val f us = operand_val f ts"
proof -
  have r: "\<forall>t \<in> set ts. vi_segment (value_index t) = Constant \<longrightarrow> unat (vi_index (value_index t)) < length cnst"
    using assms by (simp add: named_def)
  obtain us where us: "retain_terms cnst ts = Some us" "set us \<subseteq> set ts"
    "\<forall>f. (\<forall>t \<in> set ts. open_to cnst f t \<and> valid_shift (svi_inner t) \<and> valid_shift (svi_outer t)) \<longrightarrow>
      operand_val f us = operand_val f ts"
    using retain_terms_spec[OF r] by blast
  have "\<forall>t \<in> set ts. open_to cnst f t \<and> valid_shift (svi_inner t) \<and> valid_shift (svi_outer t)" if "opens cnst f" for f
    using assms that by (auto simp: named_def opens_def open_to_def)
  then show ?thesis using that us by blast
qed

lemma retain_zero_spec:
  assumes "named cnst (terms_of (zero_operands c))"
  shows "\<exists>c'. retain_zero cnst c = Some c' \<and> thinned cnst zero_operands zero_holds c c'"
proof (cases c)
  case (ZeroConstraint v)
  then have "named cnst (set v)" using assms by (simp add: terms_of_def zero_operands_def)
  then obtain v' where "retain_terms cnst v = Some v'" "set v' \<subseteq> set v" "\<And>f. opens cnst f \<Longrightarrow> operand_val f v' = operand_val f v"
    by (rule retain_named) blast
  then show ?thesis using ZeroConstraint by (simp add: thinned_def terms_of_def zero_operands_def zero_holds_def)
qed

lemma retain_and_spec:
  assumes "named cnst (terms_of (and_operands x))"
  shows "\<exists>x'. retain_and cnst x = Some x' \<and> thinned cnst and_operands and_holds x x'"
proof (cases x)
  case (AndConstraint a b c)
  then have n: "named cnst (set a)" "named cnst (set b)" "named cnst (set c)"
    using assms by (auto simp: terms_of_def and_operands_def named_def)
  obtain a' where a: "retain_terms cnst a = Some a'" "set a' \<subseteq> set a" "\<And>f. opens cnst f \<Longrightarrow> operand_val f a' = operand_val f a"
    using n(1) by (rule retain_named) blast
  obtain b' where b: "retain_terms cnst b = Some b'" "set b' \<subseteq> set b" "\<And>f. opens cnst f \<Longrightarrow> operand_val f b' = operand_val f b"
    using n(2) by (rule retain_named) blast
  obtain c' where c: "retain_terms cnst c = Some c'" "set c' \<subseteq> set c" "\<And>f. opens cnst f \<Longrightarrow> operand_val f c' = operand_val f c"
    using n(3) by (rule retain_named) blast
  show ?thesis using AndConstraint a b c by (auto simp: thinned_def terms_of_def and_operands_def and_holds_def)
qed

lemma retain_imul_spec:
  assumes "named cnst (terms_of (imul_operands x))"
  shows "\<exists>x'. retain_imul cnst x = Some x' \<and> thinned cnst imul_operands imul_holds x x'"
proof (cases x)
  case (ImulConstraint a b lo hi)
  then have n: "named cnst (set a)" "named cnst (set b)" "named cnst (set lo)" "named cnst (set hi)"
    using assms by (auto simp: terms_of_def imul_operands_def named_def)
  obtain a' where a: "retain_terms cnst a = Some a'" "set a' \<subseteq> set a" "\<And>f. opens cnst f \<Longrightarrow> operand_val f a' = operand_val f a"
    using n(1) by (rule retain_named) blast
  obtain b' where b: "retain_terms cnst b = Some b'" "set b' \<subseteq> set b" "\<And>f. opens cnst f \<Longrightarrow> operand_val f b' = operand_val f b"
    using n(2) by (rule retain_named) blast
  obtain l' where l: "retain_terms cnst lo = Some l'" "set l' \<subseteq> set lo" "\<And>f. opens cnst f \<Longrightarrow> operand_val f l' = operand_val f lo"
    using n(3) by (rule retain_named) blast
  obtain h' where h: "retain_terms cnst hi = Some h'" "set h' \<subseteq> set hi" "\<And>f. opens cnst f \<Longrightarrow> operand_val f h' = operand_val f hi"
    using n(4) by (rule retain_named) blast
  show ?thesis using ImulConstraint a b l h by (auto simp: thinned_def terms_of_def imul_operands_def imul_holds_def)
qed

lemma retain_bmul_spec:
  assumes "named cnst (terms_of (bmul_operands x))"
  shows "\<exists>x'. retain_bmul cnst x = Some x' \<and> thinned cnst bmul_operands bmul_holds x x'"
proof (cases x)
  case (BmulConstraint a b c d e g)
  have n: "named cnst (set v)" if "v \<in> {a, b, c, d, e, g}" for v
    using assms that BmulConstraint by (auto simp: terms_of_def bmul_operands_def named_def)
  have "\<exists>v'. retain_terms cnst v = Some v' \<and> set v' \<subseteq> set v \<and> (\<forall>f. opens cnst f \<longrightarrow> operand_val f v' = operand_val f v)"
    if "v \<in> {a, b, c, d, e, g}" for v
    by (rule retain_named[OF n[OF that]]) blast
  then obtain k where k: "\<And>v. v \<in> {a, b, c, d, e, g} \<Longrightarrow> retain_terms cnst v = Some (k v)"
    "\<And>v. v \<in> {a, b, c, d, e, g} \<Longrightarrow> set (k v) \<subseteq> set v"
    "\<And>v f. v \<in> {a, b, c, d, e, g} \<Longrightarrow> opens cnst f \<Longrightarrow> operand_val f (k v) = operand_val f v"
    by metis
  have "retain_bmul cnst x = Some (BmulConstraint (k a) (k b) (k c) (k d) (k e) (k g))"
    using BmulConstraint k(1) by simp
  moreover have "thinned cnst bmul_operands bmul_holds x (BmulConstraint (k a) (k b) (k c) (k d) (k e) (k g))"
    using BmulConstraint k(2)[of a] k(2)[of b] k(2)[of c] k(2)[of d] k(2)[of e] k(2)[of g]
    by (auto simp: thinned_def terms_of_def bmul_operands_def bmul_holds_def k(3))
  ultimately show ?thesis by blast
qed

lemma those_map_all:
  assumes "\<And>c. c \<in> set cs \<Longrightarrow> \<exists>c'. f c = Some c' \<and> Q c c'"
  shows "\<exists>cs'. those (map f cs) = Some cs' \<and> list_all2 Q cs cs'"
  using assms
proof (induction cs)
  case (Cons c cs)
  then obtain c' cs' where "f c = Some c'" "Q c c'" "those (map f cs) = Some cs'" "list_all2 Q cs cs'"
    by (metis list.set_intros(1,2))
  then show ?case by auto
qed simp

lemma terms_of_append: "terms_of (xs @ ys) = terms_of xs \<union> terms_of ys"
  by (simp add: terms_of_def)

lemma thinned_list:
  assumes "list_all2 (thinned cnst as_ref holds) cs cs'"
  shows "terms_of (concat (map as_ref cs')) \<subseteq> terms_of (concat (map as_ref cs))"
    "opens cnst f \<Longrightarrow> (\<forall>c \<in> set cs'. holds f c) \<longleftrightarrow> (\<forall>c \<in> set cs. holds f c)"
proof -
  show "terms_of (concat (map as_ref cs')) \<subseteq> terms_of (concat (map as_ref cs))"
    using assms by (induction rule: list_all2_induct) (auto simp: thinned_def terms_of_append)
  show "opens cnst f \<Longrightarrow> (\<forall>c \<in> set cs'. holds f c) \<longleftrightarrow> (\<forall>c \<in> set cs. holds f c)"
    using assms by (induction rule: list_all2_induct) (auto simp: thinned_def)
qed

fun tuple_operands :: "zero_constraint list \<times> and_constraint list \<times> imul_constraint list \<times> bmul_constraint list \<Rightarrow> operand list" where
  "tuple_operands (zs, as, is', bs) = concat (map zero_operands zs) @ concat (map and_operands as) @
    concat (map imul_operands is') @ concat (map bmul_operands bs)"

lemma terms_of_concat: "c \<in> set cs \<Longrightarrow> terms_of (as_ref c) \<subseteq> terms_of (concat (map as_ref cs))"
  by (auto simp: terms_of_def)

lemma named_mono: "named cnst T \<Longrightarrow> T' \<subseteq> T \<Longrightarrow> named cnst T'"
  by (auto simp: named_def)

lemma retain_system:
  assumes "named cnst (terms_of (tuple_operands (zs, as, is', bs)))"
  obtains zs' as' is'' bs' where
    "those (map (retain_zero cnst) zs) = Some zs'" "those (map (retain_and cnst) as) = Some as'"
    "those (map (retain_imul cnst) is') = Some is''" "those (map (retain_bmul cnst) bs) = Some bs'"
    "terms_of (tuple_operands (zs', as', is'', bs')) \<subseteq> terms_of (tuple_operands (zs, as, is', bs))"
    "\<And>f. opens cnst f \<Longrightarrow> system_sat f (zs', as', is'', bs') = system_sat f (zs, as, is', bs)"
proof -
  have n: "named cnst (terms_of (concat (map zero_operands zs)))" "named cnst (terms_of (concat (map and_operands as)))"
    "named cnst (terms_of (concat (map imul_operands is')))" "named cnst (terms_of (concat (map bmul_operands bs)))"
    by (rule named_mono[OF assms]; simp add: terms_of_append; blast)+
  obtain zs' where z: "those (map (retain_zero cnst) zs) = Some zs'" "list_all2 (thinned cnst zero_operands zero_holds) zs zs'"
    using those_map_all[of zs "retain_zero cnst", OF retain_zero_spec, OF named_mono, OF n(1) terms_of_concat] by blast
  obtain as' where a: "those (map (retain_and cnst) as) = Some as'" "list_all2 (thinned cnst and_operands and_holds) as as'"
    using those_map_all[of as "retain_and cnst", OF retain_and_spec, OF named_mono, OF n(2) terms_of_concat] by blast
  obtain is'' where i: "those (map (retain_imul cnst) is') = Some is''" "list_all2 (thinned cnst imul_operands imul_holds) is' is''"
    using those_map_all[of is' "retain_imul cnst", OF retain_imul_spec, OF named_mono, OF n(3) terms_of_concat] by blast
  obtain bs' where b: "those (map (retain_bmul cnst) bs) = Some bs'" "list_all2 (thinned cnst bmul_operands bmul_holds) bs bs'"
    using those_map_all[of bs "retain_bmul cnst", OF retain_bmul_spec, OF named_mono, OF n(4) terms_of_concat] by blast
  note t = thinned_list[OF z(2)] thinned_list[OF a(2)] thinned_list[OF i(2)] thinned_list[OF b(2)]
  show ?thesis
  proof (rule that[OF z(1) a(1) i(1) b(1)])
    show "terms_of (tuple_operands (zs', as', is'', bs')) \<subseteq> terms_of (tuple_operands (zs, as, is', bs))"
      using t(1,3,5,7) by (simp add: terms_of_append) blast
    show "system_sat f (zs', as', is'', bs') = system_sat f (zs, as, is', bs)" if "opens cnst f" for f
      using t(2,4,6,8)[OF that] by (simp add: system_sat_def)
  qed
qed

lemma lowered_terms:
  assumes "cb_wf cb" "cb_in W cb" "t \<in> terms_of (tuple_operands (lowered_system mapping cb))"
  shows "\<exists>w \<in> cb_used cb. value_index t = mapping w \<and> seq_wf (shift_seq t)"
proof -
  have low: "\<exists>w \<in> cb_used cb. value_index t = mapping w \<and> seq_wf (shift_seq t)"
    if o': "o' \<in> set (cb_operands cb)" "in_arena (cb_terms cb) o'" "t \<in> set (lowered (cb_terms cb) mapping o')" for o'
  proof -
    have "lowered (cb_terms cb) mapping o' = map (to_shifted_value_index mapping) (op_terms (cb_terms cb) o')"
      using o'(2) by (simp add: lowered_def into_value_indices_def as_slice_def slice_def in_arena_def op_terms_def)
    then obtain s where s: "s \<in> set (op_terms (cb_terms cb) o')" "t = to_shifted_value_index mapping s"
      using o'(3) by auto
    then have "s \<in> set (cb_terms cb)" by (auto simp: op_terms_def dest!: in_set_takeD in_set_dropD)
    then have "seq_wf (sw_seq s)" using assms(2) by (simp add: cb_in_def term_in_def)
    moreover have "sw_wire s \<in> cb_used cb" using s(1) o'(1) by (auto simp: cb_used_def op_wires_def)
    ultimately show ?thesis using s(2) by (auto simp: to_shifted_value_index_def svi_new_def)
  qed
  have dst: "\<exists>w \<in> cb_used cb. value_index t = mapping w \<and> seq_wf (shift_seq t)"
    if "c \<in> set (cb_linear cb)" "t = svi_plain (mapping (wl_dst c))" for c
    using that by (auto simp: cb_used_def svi_plain_def svi_single_def svi_new_def seq_wf_def)
  have "\<forall>o' \<in> set (cb_operands cb). in_arena (cb_terms cb) o'"
    using assms(1) by (auto simp: cb_wf_def Let_def cb_operands_def)
  moreover have "(\<exists>o' \<in> set (cb_operands cb). t \<in> set (lowered (cb_terms cb) mapping o')) \<or>
      (\<exists>c \<in> set (cb_linear cb). t = svi_plain (mapping (wl_dst c)))"
    using assms(3) unfolding lowered_system_def Let_def terms_of_def tuple_operands.simps cb_operands_def
    by (simp add: zero_operands_def and_operands_def imul_operands_def bmul_operands_def) blast
  ultimately show ?thesis using low dst by blast
qed

end
