(* ===== verification/Wire_Places.thy ===== *)
theory Wire_Places
  imports Assemble
begin

text \<open>
  Where \<open>assemble\<close> puts the wires: each wire with a place of its own has one no other wire has, inside
  its segment, and the registers of the program keep apart the wires alive at one gate.
\<close>

section \<open>The lists of the allocator\<close>

definition wires_at :: "(wire \<Rightarrow> wire_kind \<Rightarrow> bool) \<Rightarrow> wire \<Rightarrow> wire_kind list \<Rightarrow> wire list" where
  "wires_at P i ks = map fst (filter (\<lambda>(w, k). P w k) (enumerate i ks))"

fun const_of_kind :: "wire_kind \<Rightarrow> u64" where
  "const_of_kind (KConstant c) = c"
| "const_of_kind _ = 0"

definition consts_at :: "wire \<Rightarrow> wire_kind list \<Rightarrow> (wire \<times> u64) list" where
  "consts_at i ks = map (\<lambda>(w, k). (w, const_of_kind k)) (filter (\<lambda>(w, k). is_const k) (enumerate i ks))"

lemma wires_at_simps [simp]:
  "wires_at P i [] = []"
  "wires_at P i (k # ks) = (if P i k then [i] else []) @ wires_at P (Suc i) ks"
  "consts_at i [] = []"
  "consts_at i (k # ks) = (if is_const k then [(i, const_of_kind k)] else []) @ consts_at (Suc i) ks"
  by (simp_all add: wires_at_def consts_at_def)

lemma wires_at_distinct [simp]: "distinct (wires_at P i ks)"
  unfolding wires_at_def by (rule distinct_map_filter) simp

lemma wires_at_set: "set (wires_at P 0 ks) = {w. w < length ks \<and> P w (ks ! w)}"
  by (force simp: wires_at_def in_set_enumerate_eq image_iff)

lemma wires_at_length: "length (wires_at P 0 ks) = card {w. w < length ks \<and> P w (ks ! w)}"
  using distinct_card[OF wires_at_distinct[of P 0 ks]] by (simp add: wires_at_set)

lemma consts_at_fst: "map fst (consts_at i ks) = wires_at (\<lambda>w k. is_const k) i ks"
  by (simp add: consts_at_def wires_at_def split_def)

lemma consts_at_in: "(w, c) \<in> set (consts_at 0 ks) \<longleftrightarrow> w < length ks \<and> ks ! w = KConstant c"
proof -
  have "is_const k \<and> const_of_kind k = c \<longleftrightarrow> k = KConstant c" for k by (cases k) auto
  then show ?thesis by (force simp: consts_at_def in_set_enumerate_eq image_iff)
qed

definition loose_at :: "wire set \<Rightarrow> wire \<Rightarrow> wire_kind \<Rightarrow> bool" where
  "loose_at used w k \<longleftrightarrow> loose_kind k \<and> w \<notin> used"

lemma loose_kind_cases:
  "loose_kind k \<Longrightarrow> \<not> is_const k \<and> k \<noteq> KInout \<and> k \<noteq> KWitness"
  by (cases k) (simp_all add: loose_kind_def)

lemma place_wires_eq:
  assumes "\<forall>(w, k) \<in> set (enumerate i ks). loose_at used w k \<longrightarrow> slot w \<noteq> None"
  shows "place_wires used slot i ks a = Some (a\<lparr>w_const := w_const a @ consts_at i ks,
    w_inout := w_inout a @ wires_at (\<lambda>w k. k = KInout) i ks,
    w_witness := w_witness a @ wires_at (\<lambda>w k. k = KWitness) i ks,
    w_internal := w_internal a @ wires_at (\<lambda>w k. loose_kind k \<and> w \<in> used) i ks,
    w_scratch := w_scratch a @ map (\<lambda>w. (w, the (slot w))) (wires_at (loose_at used) i ks)\<rparr>)"
  using assms
proof (induction ks arbitrary: i a)
  case (Cons k ks)
  have rest: "\<forall>(w, k) \<in> set (enumerate (Suc i) ks). loose_at used w k \<longrightarrow> slot w \<noteq> None"
    using Cons.prems by auto
  have now: "loose_at used i k \<Longrightarrow> slot i \<noteq> None" using Cons.prems by auto
  show ?case
    using now
    by (cases k) (auto simp: Cons.IH[OF rest] alloc_constant_def alloc_inout_def alloc_witness_def alloc_internal_def
      alloc_scratch_def loose_kind_def loose_at_def)
qed simp

section \<open>Places\<close>

lemma scratch_wires_in: "w \<in> scratch_wires g used \<longleftrightarrow> w < length (gg_wires g) \<and> loose_at used w (gg_wires g ! w)"
  by (auto simp: scratch_wires_def loose_at_def)

definition home :: "assignment \<Rightarrow> wire set \<Rightarrow> (wire \<Rightarrow> u32 option) \<Rightarrow> wire_kind list \<Rightarrow> wire \<Rightarrow> bool" where
  "home asg used slot ks w \<longleftrightarrow>
    (let m = as_wire_mapping asg; l = as_layout asg in
     case ks ! w of
       KConstant c \<Rightarrow> \<exists>k < length (as_constants asg). placed_at m w Constant k \<and> as_constants asg ! k = c
     | KInout \<Rightarrow> \<exists>k < lay_n_inout l. placed_at m w InOut k
     | KWitness \<Rightarrow> \<exists>k < lay_n_private l. placed_at m w Private k
     | _ \<Rightarrow> if w \<in> used then \<exists>k < lay_n_private l. placed_at m w Private k
         else \<exists>s. slot w = Some s \<and> placed_at m w Scratch (unat s))"

definition assigned :: "gate_graph \<Rightarrow> wire set \<Rightarrow> (wire \<Rightarrow> u32 option) \<Rightarrow> nat \<Rightarrow> assignment \<Rightarrow> bool" where
  "assigned g used slot n asg \<longleftrightarrow>
    (\<exists>a. place_wires used slot 0 (gg_wires g) (alloc_new n) = Some a \<and> into_assignment a = Some asg) \<and>
    lay_n_const (as_layout asg) = length (as_constants asg) \<and> lay_n_scratch (as_layout asg) = n \<and>
    length (as_constants asg) \<le> length (gg_wires g) \<and> lay_n_inout (as_layout asg) \<le> length (gg_wires g) \<and>
    lay_n_private (as_layout asg) \<le> length (gg_wires g) \<and>
    (\<forall>w < length (gg_wires g). home asg used slot (gg_wires g) w) \<and>
    (\<forall>k < length (as_constants asg). \<exists>w < length (gg_wires g).
      gg_wires g ! w = KConstant (as_constants asg ! k) \<and> placed_at (as_wire_mapping asg) w Constant k) \<and>
    inj_on (as_wire_mapping asg) ({..<length (gg_wires g)} - scratch_wires g used)"

lemma list_home:
  assumes "\<forall>k < length ws. placed_at m (ws ! k) s k" "w \<in> set ws"
  obtains k where "k < length ws" "ws ! k = w" "placed_at m w s k"
  using assms by (auto simp: in_set_conv_nth)

lemma assignment_exists:
  assumes "length (gg_wires g) \<le> 2 ^ 26" "n \<le> 2 ^ 26"
    and "\<forall>w \<in> scratch_wires g used. \<exists>s. slot w = Some s \<and> unat s < n"
  shows "\<exists>asg. assigned g used slot n asg"
proof -
  let ?ks = "gg_wires g" and ?n = "length (gg_wires g)"
  let ?c = "consts_at 0 ?ks" and ?i = "wires_at (\<lambda>w k. k = KInout) 0 ?ks" and ?w = "wires_at (\<lambda>w k. k = KWitness) 0 ?ks"
    and ?v = "wires_at (\<lambda>w k. loose_kind k \<and> w \<in> used) 0 ?ks"
    and ?s = "map (\<lambda>w. (w, the (slot w))) (wires_at (loose_at used) 0 ?ks)"
  let ?a = "\<lparr>w_const = ?c, w_inout = ?i, w_witness = ?w, w_internal = ?v, w_scratch = ?s, n_scratch_slots = n\<rparr>"
  have loose: "\<forall>(w, k) \<in> set (enumerate 0 ?ks). loose_at used w k \<longrightarrow> slot w \<noteq> None"
    using assms(3) by (auto simp: in_set_enumerate_eq scratch_wires_in)
  have a: "place_wires used slot 0 ?ks (alloc_new n) = Some ?a"
    unfolding place_wires_eq[OF loose] by (simp add: alloc_new_def)
  have sub: "card {w. w < ?n \<and> P w} \<le> ?n" for P
    using card_mono[of "{..<?n}" "{w. w < ?n \<and> P w}"] by auto
  have wv: "distinct (?w @ ?v)" by (auto simp: wires_at_set loose_kind_def)
  have lens: "length ?c \<le> ?n" "length ?i \<le> ?n" "length (?w @ ?v) \<le> ?n"
  proof -
    have "length ?c = length (map fst ?c)" by simp
    also have "\<dots> \<le> ?n" unfolding consts_at_fst wires_at_length by (rule sub)
    finally show "length ?c \<le> ?n" .
    show "length ?i \<le> ?n" unfolding wires_at_length by (rule sub)
    have "length (?w @ ?v) = card (set (?w @ ?v))" using distinct_card[OF wv] by simp
    also have "\<dots> \<le> card {..<?n}" by (rule card_mono) (auto simp: wires_at_set)
    finally show "length (?w @ ?v) \<le> ?n" by simp
  qed
  have slots: "unat (the (slot w)) < 2 ^ 30" if w: "w < ?n" "loose_at used w (?ks ! w)" for w
  proof -
    have "w \<in> scratch_wires g used" using w by (simp add: scratch_wires_in)
    then obtain s where "slot w = Some s" "unat s < n" using assms(3) by blast
    then show ?thesis using assms(2) by simp
  qed
  have "distinct (map fst ?c @ ?i @ ?w @ ?v @ map fst ?s)"
    unfolding consts_at_fst by (auto simp: wires_at_set loose_at_def o_def dest!: loose_kind_cases)
  moreover have "\<forall>(w, s) \<in> set ?s. unat s < 2 ^ 30" using slots by (auto simp: wires_at_set)
  ultimately have "alloc_ok ?a"
    using assms(1) lens unfolding alloc_ok_def by simp
  then obtain m where m: "into_assignment ?a = Some \<lparr>as_wire_mapping = m,
      as_layout = \<lparr>lay_n_const = length ?c, lay_n_inout = length ?i, lay_n_witness = length ?w,
        lay_n_internal = length ?v, lay_n_scratch = n\<rparr>, as_constants = map snd ?c, as_inout = ?i\<rparr>"
    "\<forall>k < length ?c. placed_at m (fst (?c ! k)) Constant k" "\<forall>k < length ?i. placed_at m (?i ! k) InOut k"
    "\<forall>k < length (?w @ ?v). placed_at m ((?w @ ?v) ! k) Private k"
    "\<forall>(w, s) \<in> set ?s. placed_at m w Scratch (unat s)"
    by (rule into_assignment_spec) (simp only: value_alloc.simps)
  define asg where "asg = \<lparr>as_wire_mapping = m,
      as_layout = \<lparr>lay_n_const = length ?c, lay_n_inout = length ?i, lay_n_witness = length ?w,
        lay_n_internal = length ?v, lay_n_scratch = n\<rparr>, as_constants = map snd ?c, as_inout = ?i\<rparr>"
  define L where "L = (\<lambda>s. case s of Constant \<Rightarrow> map fst ?c | InOut \<Rightarrow> ?i | Private \<Rightarrow> ?w @ ?v | Scratch \<Rightarrow> [])"
  have L_at: "\<forall>k < length (L s). placed_at m (L s ! k) s k" for s
    using m(2-4) by (cases s) (simp_all add: L_def)
  have L_in: "is_const (?ks ! w) \<Longrightarrow> w \<in> set (L Constant)" "?ks ! w = KInout \<Longrightarrow> w \<in> set (L InOut)"
    "?ks ! w = KWitness \<Longrightarrow> w \<in> set (L Private)" "loose_kind (?ks ! w) \<Longrightarrow> w \<in> used \<Longrightarrow> w \<in> set (L Private)"
    if "w < ?n" for w
    using that by (simp_all add: L_def consts_at_fst wires_at_set del: set_map)
  have L_len: "length (L Constant) = length (as_constants asg)" "length (L InOut) = lay_n_inout (as_layout asg)"
    "length (L Private) = lay_n_private (as_layout asg)"
    by (simp_all add: L_def asg_def lay_n_private_def)
  have L_place: "\<exists>k < length (L s). placed_at m w s k" if "w \<in> set (L s)" for w s
    by (rule list_home[OF L_at that]) blast
  have map': "as_wire_mapping asg = m" by (simp add: asg_def)
  have loose_home: "home asg used slot ?ks w" if w: "w < ?n" "loose_kind (?ks ! w)" for w
  proof (cases "w \<in> used")
    case True
    have "\<exists>k < lay_n_private (as_layout asg). placed_at m w Private k"
      using L_place[OF L_in(4)[OF w True]] unfolding L_len .
    then show ?thesis using True w(2) by (cases "?ks ! w") (simp_all add: home_def Let_def map' loose_kind_def)
  next
    case False
    then have l: "loose_at used w (?ks ! w)" using w(2) by (simp add: loose_at_def)
    then have "(w, the (slot w)) \<in> set ?s" using w(1) by (simp add: wires_at_set)
    then have "placed_at m w Scratch (unat (the (slot w)))" using m(5) by blast
    moreover obtain s where "slot w = Some s" using assms(3) l w(1) scratch_wires_in by blast
    ultimately show ?thesis using False w(2) by (cases "?ks ! w") (simp_all add: home_def Let_def map' loose_kind_def)
  qed
  have homes: "home asg used slot ?ks w" if w: "w < ?n" for w
  proof (cases "?ks ! w")
    case (KConstant c)
    then have "(w, c) \<in> set ?c" using w by (simp add: consts_at_in)
    then obtain k where k: "k < length ?c" "?c ! k = (w, c)" by (auto simp: in_set_conv_nth)
    have "placed_at m w Constant k" using m(2)[rule_format, OF k(1)] k(2) by simp
    moreover have "as_constants asg ! k = c" "k < length (as_constants asg)" using k by (simp_all add: asg_def)
    ultimately show ?thesis using KConstant by (auto simp: home_def map')
  next
    case KInout
    from L_place[OF L_in(2)[OF w this]] show ?thesis using KInout unfolding L_len by (simp add: home_def map')
  next
    case KWitness
    from L_place[OF L_in(3)[OF w this]] show ?thesis using KWitness unfolding L_len by (simp add: home_def map')
  next
    case KInternal
    then show ?thesis by (intro loose_home w) (simp add: loose_kind_def)
  next
    case KScratch
    then show ?thesis by (intro loose_home w) (simp add: loose_kind_def)
  qed
  have consts': "\<exists>w < ?n. ?ks ! w = KConstant (snd (?c ! k)) \<and> placed_at m w Constant k" if k: "k < length ?c" for k
  proof -
    have "?c ! k \<in> set ?c" using k by (rule nth_mem)
    then have "(fst (?c ! k), snd (?c ! k)) \<in> set ?c" by simp
    then have "fst (?c ! k) < ?n \<and> ?ks ! fst (?c ! k) = KConstant (snd (?c ! k))" unfolding consts_at_in .
    moreover have "placed_at m (fst (?c ! k)) Constant k" by (rule m(2)[rule_format, OF k])
    ultimately show ?thesis by (intro exI[of _ "fst (?c ! k)"]) simp
  qed
  have L_all: "\<exists>s. w \<in> set (L s)" if w: "w < ?n" "w \<notin> scratch_wires g used" for w
  proof -
    consider "is_const (?ks ! w)" | "?ks ! w = KInout" | "?ks ! w = KWitness" | "loose_kind (?ks ! w)" "w \<in> used"
      using w by (cases "?ks ! w") (auto simp: scratch_wires_in loose_at_def loose_kind_def)
    then show ?thesis using L_in[OF w(1)] by cases blast+
  qed
  have inj: "inj_on m ({..<?n} - scratch_wires g used)"
  proof (rule inj_onI)
    fix w u assume wu: "w \<in> {..<?n} - scratch_wires g used" "u \<in> {..<?n} - scratch_wires g used" "m w = m u"
    obtain s where s: "w \<in> set (L s)" using L_all[of w] wu(1) by blast
    obtain k where k: "L s ! k = w" "placed_at m w s k" by (rule list_home[OF L_at s]) blast
    obtain s' where s': "u \<in> set (L s')" using L_all[of u] wu(2) by blast
    obtain k' where k': "L s' ! k' = u" "placed_at m u s' k'" by (rule list_home[OF L_at s']) blast
    have "s = s'" "k = k'" using k(2) k'(2) wu(3) by (simp_all add: placed_at_def)
    then show "w = u" using k(1) k'(1) by simp
  qed
  have "assigned g used slot n asg"
    unfolding assigned_def
  proof (intro conjI)
    show "\<exists>a. place_wires used slot 0 ?ks (alloc_new n) = Some a \<and> into_assignment a = Some asg"
      using a m(1) asg_def by blast
  qed (use lens homes consts' inj in \<open>simp_all add: asg_def lay_n_private_def\<close>)
  then show ?thesis ..
qed

end
