(* ===== verification/Assembled.thy ===== *)
theory Assembled
  imports Wire_Places
begin

text \<open>
  What \<open>assemble\<close> returns for a graph that is ready: a valid system that says of the places of the
  wires what the constraints say of the wires, and a program whose registers hold what it reads.
\<close>

section \<open>Registers\<close>

lemma placed_offset:
  "placed_at m w s k \<Longrightarrow> lay_word_offset l (m w) = (case s of Constant \<Rightarrow> 0 | InOut \<Rightarrow> lay_offset_inout l
     | Private \<Rightarrow> lay_offset_witness l | Scratch \<Rightarrow> lay_combined_len l) + k"
  by (simp add: placed_at_def lay_word_offset_def)

lemmas lay_defs = lay_offset_inout_def lay_offset_witness_def lay_combined_len_def

text \<open>Every wire outside the scratch segment has a place among the committed words.\<close>

definition committed_place :: "assignment \<Rightarrow> wire \<Rightarrow> value_segment \<Rightarrow> nat \<Rightarrow> bool" where
  "committed_place asg w s k \<longleftrightarrow> placed_at (as_wire_mapping asg) w s k \<and>
    (s = Constant \<and> k < lay_n_const (as_layout asg) \<or> s = InOut \<and> k < lay_n_inout (as_layout asg) \<or>
     s = Private \<and> k < lay_n_private (as_layout asg))"


lemma committed:
  assumes "assigned g used slot n asg" "w < length (gg_wires g)" "w \<notin> scratch_wires g used"
  obtains s k where "committed_place asg w s k"
proof -
  have h: "home asg used slot (gg_wires g) w" and n: "lay_n_const (as_layout asg) = length (as_constants asg)"
    using assms(1,2) by (simp_all add: assigned_def)
  have l: "loose_kind (gg_wires g ! w) \<Longrightarrow> w \<in> used"
    using assms(2,3) by (auto simp: scratch_wires_in loose_at_def)
  show ?thesis
    using that h l unfolding home_def Let_def committed_place_def n
    by (cases "gg_wires g ! w") (auto simp: loose_kind_def)
qed

lemma committed_place_unique:
  assumes "committed_place asg w s k" "committed_place asg u s' k'"
    "lay_word_offset (as_layout asg) (as_wire_mapping asg w) = lay_word_offset (as_layout asg) (as_wire_mapping asg u)"
  shows "as_wire_mapping asg w = as_wire_mapping asg u"
proof -
  have "s = s' \<and> k = k'"
    using assms placed_offset[of "as_wire_mapping asg" w s k "as_layout asg"]
      placed_offset[of "as_wire_mapping asg" u s' k' "as_layout asg"]
    by (cases s; cases s') (auto simp: committed_place_def lay_defs)
  then have "vi_segment (as_wire_mapping asg w) = vi_segment (as_wire_mapping asg u)"
    "unat (vi_index (as_wire_mapping asg w)) = unat (vi_index (as_wire_mapping asg u))"
    using assms(1,2) by (simp_all add: committed_place_def placed_at_def)
  then show ?thesis by (intro value_index_eqI) (simp_all add: unat_inj)
qed

lemma committed_below:
  "committed_place asg w s k \<Longrightarrow>
    lay_word_offset (as_layout asg) (as_wire_mapping asg w) < lay_combined_len (as_layout asg)"
  using placed_offset[of "as_wire_mapping asg" w s k "as_layout asg"]
  by (auto simp: committed_place_def lay_defs)

lemma scratch_offset:
  assumes "assigned g used slot n asg" "w \<in> scratch_wires g used"
  obtains s where "slot w = Some s" "lay_word_offset (as_layout asg) (as_wire_mapping asg w) =
    lay_combined_len (as_layout asg) + unat s"
proof -
  have w: "w < length (gg_wires g)" "loose_kind (gg_wires g ! w)" "w \<notin> used"
    using assms(2) by (simp_all add: scratch_wires_in loose_at_def)
  have "home asg used slot (gg_wires g) w" using assms(1) w(1) by (simp add: assigned_def)
  then obtain s where "slot w = Some s" "placed_at (as_wire_mapping asg) w Scratch (unat s)"
    using w(2,3) by (cases "gg_wires g ! w") (auto simp: home_def loose_kind_def)
  then show ?thesis using that placed_offset by fastforce
qed

lemma registers:
  assumes asg: "assigned g used slot n asg" and small: "length (gg_wires g) \<le> 2 ^ 26" "n \<le> 2 ^ 26"
    and slots: "\<forall>w s. slot w = Some s \<longrightarrow> unat s < n"
    and apart: "\<forall>i < length ds. inj_on slot {w \<in> scratch_wires g used. alive_at ds i w}"
  defines "reg \<equiv> wire_to_reg (as_wire_mapping asg) (as_layout asg)"
  shows "\<And>w. w < length (gg_wires g) \<Longrightarrow> unat (reg w) = lay_word_offset (as_layout asg) (as_wire_mapping asg w) \<and>
      unat (reg w) < lay_combined_len (as_layout asg) + n"
    and "registers_apart reg {..<length (gg_wires g)} (scratch_wires g used) ds"
proof -
  let ?off = "\<lambda>w. lay_word_offset (as_layout asg) (as_wire_mapping asg w)" and ?S = "scratch_wires g used"
  have len: "lay_combined_len (as_layout asg) \<le> 3 * 2 ^ 26"
    using asg small(1) by (simp add: assigned_def lay_defs)
  have below: "?off w < lay_combined_len (as_layout asg) + n" if w: "w < length (gg_wires g)" for w
  proof (cases "w \<in> ?S")
    case True
    obtain s where "slot w = Some s" "?off w = lay_combined_len (as_layout asg) + unat s"
      by (rule scratch_offset[OF asg True]) blast
    then show ?thesis using slots by simp
  next
    case False
    obtain s k where "committed_place asg w s k" by (rule committed[OF asg w False]) blast
    from committed_below[OF this] show ?thesis by simp
  qed
  have reg: "unat (reg w) = ?off w" if "w < length (gg_wires g)" for w
  proof -
    have "?off w < 2 ^ 32" using below[OF that] len small(2) by simp
    then show ?thesis by (simp add: reg_def wire_to_reg_def unsigned_of_nat take_bit_nat_eq_self)
  qed
  then show "unat (reg w) = ?off w \<and> unat (reg w) < lay_combined_len (as_layout asg) + n"
    if "w < length (gg_wires g)" for w using below that by simp
  show "registers_apart reg {..<length (gg_wires g)} ?S ds"
    unfolding registers_apart_def
  proof (intro allI impI inj_onI)
    fix i w u assume i: "i < length ds" and r: "reg w = reg u"
      and w: "w \<in> {w \<in> {..<length (gg_wires g)}. w \<in> ?S \<longrightarrow> alive_at ds i w}"
      and u: "u \<in> {w \<in> {..<length (gg_wires g)}. w \<in> ?S \<longrightarrow> alive_at ds i w}"
    have same: "?off w = ?off u" using reg[of w] reg[of u] r w u by simp
    have mixed: "?off x \<noteq> ?off y" if xy: "x < length (gg_wires g)" "x \<notin> ?S" "y \<in> ?S" for x y
    proof -
      obtain s k where "committed_place asg x s k" by (rule committed[OF asg xy(1,2)]) blast
      moreover obtain s :: u32 where "?off y = lay_combined_len (as_layout asg) + unat s"
        by (rule scratch_offset[OF asg xy(3)]) blast
      ultimately show ?thesis using committed_below by fastforce
    qed
    show "w = u"
    proof (cases "w \<in> ?S"; cases "u \<in> ?S")
      assume "w \<in> ?S" "u \<in> ?S"
      obtain s where s: "slot w = Some s" "?off w = lay_combined_len (as_layout asg) + unat s"
        by (rule scratch_offset[OF asg \<open>w \<in> ?S\<close>]) blast
      obtain t where t: "slot u = Some t" "?off u = lay_combined_len (as_layout asg) + unat t"
        by (rule scratch_offset[OF asg \<open>u \<in> ?S\<close>]) blast
      have "slot w = slot u" using s t same by (simp add: unat_inj)
      then show ?thesis
        using apart i w u \<open>w \<in> ?S\<close> \<open>u \<in> ?S\<close> by (auto dest: inj_onD)
    next
      assume "w \<notin> ?S" "u \<notin> ?S"
      obtain s k where p: "committed_place asg w s k" by (rule committed[OF asg _ \<open>w \<notin> ?S\<close>]) (use w in auto)
      obtain s' k' where q: "committed_place asg u s' k'" by (rule committed[OF asg _ \<open>u \<notin> ?S\<close>]) (use u in auto)
      have "as_wire_mapping asg w = as_wire_mapping asg u" by (rule committed_place_unique[OF p q same])
      moreover have "inj_on (as_wire_mapping asg) ({..<length (gg_wires g)} - ?S)" using asg by (simp add: assigned_def)
      ultimately show ?thesis using w u \<open>w \<notin> ?S\<close> \<open>u \<notin> ?S\<close> by (auto dest: inj_onD)
    qed (use mixed[of w u] mixed[of u w] same w u in auto)
  qed
qed

section \<open>A graph that is ready\<close>

definition loose_wires :: "gate_graph \<Rightarrow> wire set" where
  "loose_wires g = {w. w < length (gg_wires g) \<and> loose_kind (gg_wires g ! w)}"

text \<open>Ready: every gate is well-formed and in dependency order, no gate reads a computed wire before a
  gate computes it, each computed wire is some gate's, and the graph is within the format's bounds.\<close>

definition graph_ready :: "hint_registry \<Rightarrow> gate_graph \<Rightarrow> bool" where
  "graph_ready r g \<longleftrightarrow> registry_ok r \<and> (\<forall>d \<in> set (gg_gates g). gate_ready r (gg_wires g) d) \<and>
    ordered r (gg_gates g) \<and> written_first r (loose_wires g) (gg_gates g) \<and>
    (\<forall>w \<in> loose_wires g. mentioned (gg_gates g) w) \<and>
    length (gg_wires g) \<le> 2 ^ 26 \<and> length (gg_gates g) < 2 ^ 32"

lemma scratch_loose: "scratch_wires g used \<subseteq> loose_wires g"
  by (auto simp: scratch_wires_in loose_wires_def loose_at_def)

lemma written_first_mono: "written_first r S ds \<Longrightarrow> S' \<subseteq> S \<Longrightarrow> written_first r S' ds"
  by (auto simp: written_first_def)

text \<open>The system lies in the committed segments.\<close>

lemma assembled_term:
  assumes asg: "assigned g used slot n asg" and "w < length (gg_wires g)" "w \<notin> scratch_wires g used"
    and "value_index t = as_wire_mapping asg w" "seq_wf (shift_seq t)"
    and "cs_n_const cs = length (as_constants asg)" "n_inout cs = lay_n_inout (as_layout asg)" "n_private cs = lay_n_private (as_layout asg)"
  shows "term_wf cs t"
proof -
  obtain s k where p: "committed_place asg w s k" by (rule committed[OF assms(1-3)]) blast
  have "lay_n_const (as_layout asg) = length (as_constants asg)" using asg by (simp add: assigned_def)
  then show ?thesis
    using p assms(4-) by (auto simp: term_wf_def committed_place_def placed_at_def seq_wf_def svi_inner_def svi_outer_def)
qed

definition call_policy :: "options \<Rightarrow> scratch_policy" where
  "call_policy opts = (if enable_scratch_pooling opts then Pooled else PerWire)"

text \<open>What the assembled circuit is.\<close>

definition assembled :: "options \<Rightarrow> hint_registry \<Rightarrow> path_tree \<Rightarrow> pending_call list \<Rightarrow> gate_graph \<Rightarrow> constraint_builder \<Rightarrow>
    (wire \<Rightarrow> u32 option) \<Rightarrow> nat \<Rightarrow> circuit \<Rightarrow> bool" where
  "assembled opts r tree calls g cb slot n c \<longleftrightarrow>
    (\<exists>asg. assigned g (cb_used cb \<union> call_wires calls) slot n asg \<and>
      c_layout c = as_layout asg \<and> c_wire_mapping c = as_wire_mapping asg \<and> c_inout c = as_inout asg \<and>
      constants (c_constraint_system c) = as_constants asg) \<and>
    n \<le> 2 ^ 26 \<and> (\<forall>w s. slot w = Some s \<longrightarrow> unat s < n) \<and>
    (\<forall>i < length (gg_gates g).
      inj_on slot {w \<in> scratch_wires g (cb_used cb \<union> call_wires calls). alive_at (gg_gates g) i w}) \<and>
    n_inout (c_constraint_system c) = lay_n_inout (c_layout c) \<and>
    n_private (c_constraint_system c) = lay_n_private (c_layout c) \<and>
    c_path_tree c = tree \<and> c_scratch_pooled c = enable_scratch_pooling opts \<and> c_gate_records c = built_gates g \<and>
    eval_form_build g (c_wire_mapping c) (c_layout c) r = Some (c_eval_form c) \<and>
    system_wf (c_constraint_system c) \<and>
    (\<forall>f. opens (constants (c_constraint_system c)) f \<longrightarrow>
      (constraints_hold f (c_constraint_system c) \<longleftrightarrow> cb_sat (\<lambda>w. f (c_wire_mapping c w)) cb))"

lemma system_operands_tuple:
  "system_operands cs = tuple_operands (zero_constraints cs, and_constraints cs, imul_constraints cs, bmul_constraints cs)"
  by (simp add: system_operands_def)

lemma system_sat_constraints:
  "system_sat f (zero_constraints cs, and_constraints cs, imul_constraints cs, bmul_constraints cs) \<longleftrightarrow> constraints_hold f cs"
  by (simp add: system_sat_def constraints_hold_def)

lemma assemble_spec:
  assumes ready: "graph_ready r g" and cb: "cb_wf cb" "cb_in {..<length (gg_wires g)} cb"
  shows "\<exists>c slot n. assemble opts r tree calls g cb = Some c \<and> assembled opts r tree calls g cb slot n c"
proof -
  let ?used = "cb_used cb \<union> call_wires calls" and ?n = "length (gg_wires g)"
  let ?S = "scratch_wires g ?used"
  have used_in: "cb_used cb \<subseteq> {..<?n}" by (rule cb_used_in[OF cb(2)])
  have small: "?n \<le> 2 ^ 26" "length (gg_gates g) < 2 ^ 32" using ready by (simp_all add: graph_ready_def)
  have S: "?S \<subseteq> {..<?n}" "\<forall>w \<in> ?S. mentioned (gg_gates g) w"
    using ready scratch_loose[of g ?used] by (auto simp: graph_ready_def loose_wires_def scratch_wires_in)
  obtain sa where sa: "scratch_alloc_new g ?S (call_policy opts) = Some sa" "\<forall>w. sa_slot sa w \<noteq> None \<longleftrightarrow> w \<in> ?S"
    "\<forall>w s. sa_slot sa w = Some s \<longrightarrow> unat s < sa_n_slots sa" "sa_n_slots sa \<le> card ?S"
    "\<forall>i < length (gg_gates g). inj_on (sa_slot sa) {w \<in> ?S. alive_at (gg_gates g) i w}"
    by (rule scratch_alloc_spec[OF S, of "call_policy opts"]) (use small in auto)
  have n: "sa_n_slots sa \<le> 2 ^ 26"
    using sa(4) card_mono[OF _ S(1)] small(1) by simp
  have slots: "\<forall>w \<in> ?S. \<exists>s. sa_slot sa w = Some s \<and> unat s < sa_n_slots sa" using sa(2,3) by fastforce
  obtain asg where asg: "assigned g ?used (sa_slot sa) (sa_n_slots sa) asg"
    using assignment_exists[OF small(1) n slots] by blast
  then obtain a where a: "place_wires ?used (sa_slot sa) 0 (gg_wires g) (alloc_new (sa_n_slots sa)) = Some a"
    "into_assignment a = Some asg" by (auto simp: assigned_def)
  let ?m = "as_wire_mapping asg" and ?l = "as_layout asg" and ?cnst = "as_constants asg"
  have cn: "lay_n_const ?l = length ?cnst" using asg by (simp add: assigned_def)
  obtain zs as is' bs where low: "lowered_system ?m cb = (zs, as, is', bs)" by (cases "lowered_system ?m cb")
  have trm: "\<exists>w. w < ?n \<and> w \<notin> ?S \<and> value_index t = ?m w \<and> seq_wf (shift_seq t)"
    if "t \<in> terms_of (tuple_operands (zs, as, is', bs))" for t
    using lowered_terms[OF cb, of t ?m] that used_in unfolding low
    by (auto simp: scratch_wires_in loose_at_def)
  have named: "named ?cnst (terms_of (tuple_operands (zs, as, is', bs)))"
    unfolding named_def
  proof (intro ballI conjI impI)
    fix t assume t: "t \<in> terms_of (tuple_operands (zs, as, is', bs))"
    obtain w where w: "w < ?n" "w \<notin> ?S" "value_index t = ?m w" "seq_wf (shift_seq t)" using trm[OF t] by blast
    show "valid_shift (svi_inner t)" "valid_shift (svi_outer t)"
      using w(4) by (simp_all add: seq_wf_def shift_wf_def svi_inner_def svi_outer_def)
    obtain s k where "committed_place asg w s k" by (rule committed[OF asg w(1,2)]) blast
    then show "vi_segment (value_index t) = Constant \<Longrightarrow> unat (vi_index (value_index t)) < length ?cnst"
      using w(3) cn by (auto simp: committed_place_def placed_at_def)
  qed
  obtain zs' as' is'' bs' where ret:
    "those (map (retain_zero ?cnst) zs) = Some zs'" "those (map (retain_and ?cnst) as) = Some as'"
    "those (map (retain_imul ?cnst) is') = Some is''" "those (map (retain_bmul ?cnst) bs) = Some bs'"
    "terms_of (tuple_operands (zs', as', is'', bs')) \<subseteq> terms_of (tuple_operands (zs, as, is', bs))"
    "\<And>f. opens ?cnst f \<Longrightarrow> system_sat f (zs', as', is'', bs') = system_sat f (zs, as, is', bs)"
    using retain_system[OF named] by metis
  obtain shape where shape: "constraint_system_shape ?l ?cnst = Some shape" "constants shape = ?cnst"
    "n_inout shape = lay_n_inout ?l" "n_private shape = lay_n_private ?l"
    using cn by (auto simp: constraint_system_shape_def)
  let ?cs = "shape\<lparr>zero_constraints := zs', and_constraints := as', imul_constraints := is'', bmul_constraints := bs'\<rparr>"
  have wf: "system_wf ?cs"
  proof -
    have "term_wf ?cs t" if t: "t \<in> terms_of (tuple_operands (zs', as', is'', bs'))" for t
    proof -
      obtain w where w: "w < ?n" "w \<notin> ?S" "value_index t = ?m w" "seq_wf (shift_seq t)" using trm ret(5) t by blast
      show ?thesis by (rule assembled_term[OF asg w]) (simp_all add: shape cs_n_const_def)
    qed
    moreover have "lay_n_inout ?l \<le> 2 ^ 26" "lay_n_private ?l \<le> 2 ^ 26" using asg small(1) by (simp_all add: assigned_def)
    ultimately show ?thesis
      by (auto simp: system_wf_def operand_wf_def system_operands_tuple shape terms_of_def simp del: tuple_operands.simps)
  qed
  have sat: "constraints_hold f ?cs \<longleftrightarrow> cb_sat (\<lambda>w. f (?m w)) cb" if "opens ?cnst f" for f
    using ret(6)[OF that] lowered_system_sat[OF cb(1), of f ?m] unfolding low
    by (simp add: system_sat_constraints[symmetric] del: system_sat_constraints)
  have prog: "\<exists>ef. eval_form_build g ?m ?l r = Some ef"
  proof -
    have "registers_apart (wire_to_reg ?m ?l) {..<?n} ?S (gg_gates g)"
      by (rule registers(2)[OF asg small(1) n sa(3,5)])
    moreover have "written_first r ?S (gg_gates g)"
      using ready written_first_mono[OF _ scratch_loose] by (auto simp: graph_ready_def)
    moreover have "\<forall>d \<in> set (gg_gates g). gate_wf r (gg_wires g) d \<and> set (wires d) \<subseteq> {..<?n}"
      using ready by (auto simp: graph_ready_def gate_ready_def gate_wf_def)
    ultimately have rc: "reads_carried r (wire_to_reg ?m ?l) (gg_gates g) ({..<?n} - ?S)"
      using ready by (intro apart_carried) (auto simp: graph_ready_def)
    obtain prog where
      "emit_gates r (assertion_names g) (wire_to_reg ?m ?l) 0 (gg_gates g) bb_new = Some (append_code prog bb_new)"
      using graph_code[OF _ _ rc, of "gg_wires g" "assertion_names g" 0 bb_new] ready
      unfolding graph_ready_def by blast
    then show ?thesis by (simp add: eval_form_build_def bb_finalize_def)
  qed
  then obtain ef where ef: "eval_form_build g ?m ?l r = Some ef" by blast
  let ?c = "\<lparr>c_path_tree = tree, c_gate_records = built_gates g, c_constraint_system = ?cs, c_layout = ?l,
    c_wire_mapping = ?m, c_inout = as_inout asg, c_eval_form = ef, c_scratch_peak_live = sa_peak_live sa,
    c_scratch_pooled = (call_policy opts = Pooled)\<rparr>"
  have "assemble opts r tree calls g cb = Some ?c"
    using sa(1) a ret(1-4) shape(1) ef low
    by (simp add: assemble_def mark_used_wires_spec[OF cb(1)] cb_build_eq[OF cb(1)] call_policy_def Let_def)
  moreover have "assembled opts r tree calls g cb (sa_slot sa) (sa_n_slots sa) ?c"
    unfolding assembled_def using asg n sa(3,5) shape ef wf sat by (auto simp: call_policy_def)
  ultimately show ?thesis by blast
qed

end
