(* ===== verification/Circuit.thy ===== *)
theory Circuit
  imports Assembled Value_Table Serialization
begin

text \<open>
  A built circuit and the filling of its witness (\<open>artifact/circuit.rs\<close>, \<open>artifact/witness.rs\<close>).
  \<open>None\<close> is a panic: a read of a pooled scratch slot, an index out of range, too many bytes.
\<close>

section \<open>One instance\<close>

definition witness_index :: "circuit \<Rightarrow> wire \<Rightarrow> value_index" where
  "witness_index c w = c_wire_mapping c w"

definition witness_row :: "circuit \<Rightarrow> wire \<Rightarrow> nat" where
  "witness_row c w = lay_word_offset (c_layout c) (witness_index c w)"

definition assert_not_pooled :: "circuit \<Rightarrow> value_index \<Rightarrow> unit option" where
  "assert_not_pooled c index =
    (if \<not> c_scratch_pooled c \<or> vi_segment index \<noteq> Scratch then Some () else None)"

definition new_witness_filler :: "circuit \<Rightarrow> value_vec" where
  "new_witness_filler c = vv_new (c_layout c)"

definition filler_index :: "circuit \<Rightarrow> value_vec \<Rightarrow> wire \<Rightarrow> u64 option" where
  "filler_index c v w =
    Option.bind (assert_not_pooled c (witness_index c w)) (\<lambda>_. vv_get v (witness_index c w))"

definition filler_index_mut :: "circuit \<Rightarrow> value_vec \<Rightarrow> wire \<Rightarrow> u64 \<Rightarrow> value_vec option" where
  "filler_index_mut c v w x =
    Option.bind (assert_not_pooled c (witness_index c w)) (\<lambda>_. vv_set v (witness_index c w) x)"

fun fill_wires :: "circuit \<Rightarrow> (wire \<times> u64) list \<Rightarrow> value_vec \<Rightarrow> value_vec option" where
  "fill_wires c [] v = Some v"
| "fill_wires c ((w, x) # ws) v = Option.bind (filler_index_mut c v w x) (fill_wires c ws)"

text \<open>\<open>bytes.chunks(8)\<close>, each chunk padded with zeroes.\<close>

fun byte_chunks :: "u8 list \<Rightarrow> u8 list list" where
  "byte_chunks [] = []"
| "byte_chunks (b # bs) = take 8 (b # bs) # byte_chunks (drop 7 bs)"

definition pack_bytes_le :: "circuit \<Rightarrow> wire list \<Rightarrow> u8 list \<Rightarrow> value_vec \<Rightarrow> value_vec option" where
  "pack_bytes_le c ws bytes v =
    (if length bytes \<le> length ws * 8
     then do {
       v \<leftarrow> fill_wires c (zip ws (map (\<lambda>chunk. from_le (chunk @ replicate (8 - length chunk) 0)) (byte_chunks bytes))) v;
       fill_wires c (map (\<lambda>w. (w, ZERO)) (drop ((length bytes + 7) div 8) ws)) v
     }
     else None)"

definition populate_wire_witness :: "circuit \<Rightarrow> value_vec \<Rightarrow> ((populate_error, unit) outcome \<times> value_vec) option" where
  "populate_wire_witness c v = do {
    v \<leftarrow> copy_words put_constant v 0 (constants (c_constraint_system c));
    ef_evaluate (c_eval_form c) v (Some (c_path_tree c))
  }"

section \<open>The vector of a circuit\<close>

definition layout_shape :: "value_vec_layout \<Rightarrow> nat \<times> nat \<times> nat \<times> nat" where
  "layout_shape l = (lay_n_const l, lay_offset_witness l, lay_n_private l, lay_combined_len l + lay_n_scratch l)"

definition fills :: "circuit \<Rightarrow> value_vec \<Rightarrow> bool" where
  "fills c v \<longleftrightarrow> vv_wf v \<and> vv_shape v = layout_shape (c_layout c)"

lemma fills_new: "fills c (new_witness_filler c)"
  using vv_new_wf[of "c_layout c"]
  by (simp add: fills_def new_witness_filler_def vv_shape_def layout_shape_def vv_new_def aw.view_zeroed)

lemma shape_same: "vv_wf v \<Longrightarrow> same_shape v' v \<longleftrightarrow> vv_wf v' \<and> vv_shape v' = vv_shape v"
  by (auto simp: vv_shape_def)

lemma fills_offset: "fills c v \<Longrightarrow> vv_word_offset v i = lay_word_offset (c_layout c) i"
  by (cases "vi_segment i") (auto simp: fills_def vv_shape_def layout_shape_def vv_word_offset_def lay_word_offset_def
      vv_size_def lay_defs)

lemma fills_length: "fills c v \<Longrightarrow> length (vv_words v) = lay_combined_len (c_layout c) + lay_n_scratch (c_layout c)"
  by (simp add: fills_def vv_shape_def layout_shape_def)

lemma vv_set_fills:
  assumes "fills c v" "lay_word_offset (c_layout c) i < length (vv_words v)"
  shows "\<exists>v'. vv_set v i x = Some v' \<and> fills c v' \<and> vv_words v' = (vv_words v)[lay_word_offset (c_layout c) i := x]"
proof -
  have "vv_word_offset v i < length (vv_words v)" using assms fills_offset by simp
  from vv_set_Some[OF _ this, of x] assms(1) show ?thesis
    by (auto simp: fills_def vv_shape_def layout_shape_def fills_offset[OF assms(1)])
qed

lemma fills_constants:
  assumes "fills c v" "length (constants (c_constraint_system c)) = lay_n_const (c_layout c)" "lay_n_const (c_layout c) \<le> 2 ^ 30"
  shows "\<exists>v'. copy_words put_constant v 0 (constants (c_constraint_system c)) = Some v' \<and> fills c v' \<and>
    vv_words v' = constants (c_constraint_system c) @ drop (lay_n_const (c_layout c)) (vv_words v)"
proof -
  let ?cs = "constants (c_constraint_system c)"
  have len: "length ?cs \<le> length (vv_words v)"
    using assms(2) fills_length[OF assms(1)] by (simp add: lay_defs)
  have "\<exists>v1. copy_words put_constant v 0 ?cs = Some v1 \<and> same_shape v1 v \<and>
      vv_words v1 = take (0 + 0) (vv_words v) @ ?cs @ drop (0 + 0 + length ?cs) (vv_words v)"
  proof (rule copy_words_run[where n = "length ?cs" and I = "\<lambda>u. same_shape u v"])
    show "\<exists>v'. put_constant u j w = Some v' \<and> same_shape v' v \<and> vv_words v' = (vv_words u)[0 + j := w]"
      if "same_shape u v" "j < length ?cs" for u j w
      using put_constant_step[of u j w] that len assms(2,3) by auto
  qed (use assms(1) len in \<open>auto simp: fills_def\<close>)
  then show ?thesis using assms(1,2) shape_same[of v] by (auto simp: fills_def)
qed

section \<open>Filling the wires of a ready graph\<close>

text \<open>The registers of the program are the places the filler reads and writes.\<close>

lemma place_reads:
  assumes "assembled opts r tree calls g cb slot n c" "length (gg_wires g) \<le> 2 ^ 26" "fills c v" "w < length (gg_wires g)"
  shows "vv_word v (wire_to_reg (c_wire_mapping c) (c_layout c) w) = vv_get v (witness_index c w)"
    "lay_word_offset (c_layout c) (c_wire_mapping c w) < length (vv_words v)"
    "unat (wire_to_reg (c_wire_mapping c) (c_layout c) w) = lay_word_offset (c_layout c) (c_wire_mapping c w)"
proof -
  obtain asg where asg: "assigned g (cb_used cb \<union> call_wires calls) slot n asg"
    "c_layout c = as_layout asg" "c_wire_mapping c = as_wire_mapping asg" and n: "n \<le> 2 ^ 26"
    and slots: "\<forall>w s. slot w = Some s \<longrightarrow> unat s < n"
    and inj: "\<forall>i < length (gg_gates g). inj_on slot {w \<in> scratch_wires g (cb_used cb \<union> call_wires calls). alive_at (gg_gates g) i w}"
    using assms(1) by (auto simp: assembled_def)
  note reg = registers(1)[OF asg(1) assms(2) n slots inj assms(4), folded asg(2,3)]
  have "lay_n_scratch (c_layout c) = n" using asg(1,2) by (simp add: assigned_def)
  then show "lay_word_offset (c_layout c) (c_wire_mapping c w) < length (vv_words v)"
    "unat (wire_to_reg (c_wire_mapping c) (c_layout c) w) = lay_word_offset (c_layout c) (c_wire_mapping c w)"
    using reg fills_length[OF assms(3)] by simp_all
  then show "vv_word v (wire_to_reg (c_wire_mapping c) (c_layout c) w) = vv_get v (witness_index c w)"
    by (simp add: vv_word_def vv_get_def fills_offset[OF assms(3)] witness_index_def)
qed

text \<open>What a run of a ready graph leaves: the wires no gate writes keep their words.\<close>

definition unwritten :: "hint_registry \<Rightarrow> gate_graph \<Rightarrow> wire \<Rightarrow> bool" where
  "unwritten r g w \<longleftrightarrow> w \<notin> all_writes r (gg_gates g)"

lemma constant_unwritten:
  assumes "graph_ready r g" "is_const (gg_wires g ! w)"
  shows "unwritten r g w"
  using assms by (fastforce simp: unwritten_def all_writes_def graph_ready_def gate_ready_def consts_kept_def)

lemma temps_written: "temps_of r ds \<subseteq> all_writes r ds"
  by (auto simp: temps_of_def all_writes_def gate_temps_def)

lemma run_keeps_unwritten: "unwritten r g w \<Longrightarrow> fst (graph_run r names gate (gg_gates g) \<sigma>) w = \<sigma> w"
  by (rule graph_run_other) (auto simp: unwritten_def all_writes_def)

text \<open>The word a wire holds, and what the assembly fixed of where.\<close>

definition word_in :: "circuit \<Rightarrow> value_vec \<Rightarrow> wire \<Rightarrow> u64" where
  "word_in c v w = the (vv_get v (witness_index c w))"

definition call_used :: "pending_call list \<Rightarrow> constraint_builder \<Rightarrow> wire set" where
  "call_used calls cb = cb_used cb \<union> call_wires calls"

lemma assembledE:
  assumes "assembled opts r tree calls g cb slot n c"
  obtains asg where "assigned g (call_used calls cb) slot n asg" "c_layout c = as_layout asg"
    "c_wire_mapping c = as_wire_mapping asg" "constants (c_constraint_system c) = as_constants asg"
  using assms by (auto simp: assembled_def call_used_def)

lemma word_place:
  assumes "assembled opts r tree calls g cb slot n c" "length (gg_wires g) \<le> 2 ^ 26" "fills c v" "w < length (gg_wires g)"
  shows "vv_get v (witness_index c w) = Some (word_in c v w)"
    "vv_word v (wire_to_reg (c_wire_mapping c) (c_layout c) w) = Some (word_in c v w)"
    "word_in c v w = vv_words v ! lay_word_offset (c_layout c) (c_wire_mapping c w)"
  using place_reads[OF assms] by (simp_all add: word_in_def vv_get_def read_at_def fills_offset[OF assms(3)] witness_index_def)

lemma n_constants:
  assumes "assembled opts r tree calls g cb slot n c" "length (gg_wires g) \<le> 2 ^ 26"
  shows "length (constants (c_constraint_system c)) = lay_n_const (c_layout c)" "lay_n_const (c_layout c) \<le> 2 ^ 30"
  using assms(2) by (auto intro: assembledE[OF assms(1)] simp: assigned_def)

lemma constant_at:
  assumes "assembled opts r tree calls g cb slot n c" "w < length (gg_wires g)" "gg_wires g ! w = KConstant x"
  shows "\<exists>j < lay_n_const (c_layout c). lay_word_offset (c_layout c) (c_wire_mapping c w) = j \<and>
    constants (c_constraint_system c) ! j = x"
proof -
  obtain asg where asg: "assigned g (call_used calls cb) slot n asg" "c_layout c = as_layout asg"
    "c_wire_mapping c = as_wire_mapping asg" "constants (c_constraint_system c) = as_constants asg"
    by (rule assembledE[OF assms(1)])
  have "home asg (call_used calls cb) slot (gg_wires g) w" using asg(1) assms(2) by (simp add: assigned_def)
  then obtain j where "j < length (as_constants asg)" "placed_at (as_wire_mapping asg) w Constant j" "as_constants asg ! j = x"
    using assms(3) by (auto simp: home_def Let_def)
  moreover have "lay_n_const (as_layout asg) = length (as_constants asg)" using asg(1) by (simp add: assigned_def)
  ultimately show ?thesis
    using placed_offset[of "as_wire_mapping asg" w Constant j "as_layout asg"] by (auto simp: asg(2-4))
qed

lemma constant_wire:
  assumes "assembled opts r tree calls g cb slot n c" "j < lay_n_const (c_layout c)"
  shows "\<exists>w < length (gg_wires g). gg_wires g ! w = KConstant (constants (c_constraint_system c) ! j) \<and>
    lay_word_offset (c_layout c) (c_wire_mapping c w) = j"
proof -
  obtain asg where asg: "assigned g (call_used calls cb) slot n asg" "c_layout c = as_layout asg"
    "c_wire_mapping c = as_wire_mapping asg" "constants (c_constraint_system c) = as_constants asg"
    by (rule assembledE[OF assms(1)])
  have "j < length (as_constants asg)" using asg(1) assms(2) by (simp add: assigned_def asg(2))
  then obtain w where "w < length (gg_wires g)" "gg_wires g ! w = KConstant (as_constants asg ! j)"
    "placed_at (as_wire_mapping asg) w Constant j"
    using asg(1) by (auto simp: assigned_def)
  then show ?thesis
    using placed_offset[of "as_wire_mapping asg" w Constant j "as_layout asg"]
    by (intro exI[of _ w]) (simp add: asg(2-4))
qed

lemma other_above:
  assumes "assembled opts r tree calls g cb slot n c" "w < length (gg_wires g)" "\<not> is_const (gg_wires g ! w)"
  shows "lay_n_const (c_layout c) \<le> lay_word_offset (c_layout c) (c_wire_mapping c w)"
proof -
  obtain asg where asg: "assigned g (call_used calls cb) slot n asg" "c_layout c = as_layout asg"
    "c_wire_mapping c = as_wire_mapping asg" "constants (c_constraint_system c) = as_constants asg"
    by (rule assembledE[OF assms(1)])
  have "home asg (call_used calls cb) slot (gg_wires g) w" using asg(1) assms(2) by (simp add: assigned_def)
  then have "vi_segment (as_wire_mapping asg w) \<noteq> Constant"
    using assms(3) by (cases "gg_wires g ! w") (auto simp: home_def placed_at_def split: if_splits)
  then show ?thesis
    by (cases "vi_segment (as_wire_mapping asg w)") (simp_all add: asg(2,3) lay_word_offset_def lay_defs)
qed

lemma filled_constants_hold:
  assumes "assembled opts r tree calls g cb slot n c" "length (gg_wires g) \<le> 2 ^ 26" "fills c v"
    and "vv_words v = constants (c_constraint_system c) @ ws"
  shows "consts_hold (gg_wires g) (word_in c v)"
proof -
  have "word_in c v w = x" if w: "w < length (gg_wires g)" "gg_wires g ! w = KConstant x" for w x
    using constant_at[OF assms(1) w] n_constants(1)[OF assms(1,2)]
    unfolding word_place(3)[OF assms(1-3) w(1)] assms(4) by (auto simp: nth_append)
  then show ?thesis by (simp add: consts_hold_def split: wire_kind.splits)
qed

lemma assembled_verify:
  assumes c: "assembled opts r tree calls g cb slot n c" "length (gg_wires g) \<le> 2 ^ 26" and v: "fills c v"
    and cb: "cb_used cb \<subseteq> {..<length (gg_wires g)}"
    and k: "\<forall>j < lay_n_const (c_layout c). vv_words v ! j = constants (c_constraint_system c) ! j"
  shows "cs_verify (c_constraint_system c) v \<noteq> Panic"
    "cs_verify (c_constraint_system c) v = Ok () \<longleftrightarrow> cb_sat (word_in c v) cb"
proof -
  let ?cs = "c_constraint_system c" and ?l = "c_layout c"
  note n = n_constants[OF c]
  have n': "cs_n_const ?cs = lay_n_const ?l" using n(1) by (simp add: cs_n_const_def)
  have cs: "n_inout ?cs = lay_n_inout ?l" "n_private ?cs = lay_n_private ?l" "system_wf ?cs"
    using c(1) by (simp_all add: assembled_def)
  have shaped: "vv_shaped ?cs v"
    using v cs(1,2) n'
    by (auto simp: vv_shaped_def fills_def vv_shape_def layout_shape_def cs_n_public_values_def lay_defs)
  have "opens (constants ?cs) (vv.at v)"
    using k n(1) fills_length[OF v]
    by (auto simp: opens_def vv.at_def vv_get_def read_at_def vv_word_offset_def lay_defs)
  then have "constraints_hold (vv.at v) ?cs \<longleftrightarrow> cb_sat (word_in c v) cb"
    using c(1) by (auto simp: assembled_def word_in_def[abs_def] vv.at_def[abs_def] witness_index_def)
  moreover have "constants_open v ?cs" using k by (simp add: constants_open_def n')
  ultimately show "cs_verify ?cs v \<noteq> Panic" "cs_verify ?cs v = Ok () \<longleftrightarrow> cb_sat (word_in c v) cb"
    using cs_verify_spec[OF cs(3) shaped] n(2) n' by simp_all
qed

lemma populate_run:
  assumes ready: "graph_ready r g" and c: "assembled opts r tree calls g cb slot n c" and v: "fills c v"
    and words: "vv_words v = constants (c_constraint_system c) @ ws"
  shows "\<exists>v' \<tau>. ef_evaluate (c_eval_form c) v (Some tree) =
      Some (report (Some tree) (graph_fails r (assertion_names g) 0 (gg_gates g) \<tau>), v') \<and> fills c v' \<and>
    \<tau> = fst (graph_run r (assertion_names g) 0 (gg_gates g) (word_in c v)) \<and>
    (\<forall>d \<in> set (gg_gates g). \<forall>p. get_gate_param r d = Some p \<longrightarrow> gate_done r d p \<tau>) \<and>
    (\<forall>w < length (gg_wires g). w \<notin> scratch_wires g (call_used calls cb) \<longrightarrow> w \<notin> temps_of r (gg_gates g) \<longrightarrow>
      word_in c v' w = \<tau> w)"
proof -
  let ?N = "length (gg_wires g)" and ?S = "scratch_wires g (call_used calls cb)" and ?T = "temps_of r (gg_gates g)"
    and ?reg = "wire_to_reg (c_wire_mapping c) (c_layout c)"
  have rd: "registry_ok r" "\<forall>d \<in> set (gg_gates g). gate_ready r (gg_wires g) d" "ordered r (gg_gates g)"
    "written_first r (loose_wires g) (gg_gates g)" "?N \<le> 2 ^ 26"
    using ready by (simp_all add: graph_ready_def)
  obtain asg where asg: "assigned g (call_used calls cb) slot n asg" "c_layout c = as_layout asg"
    "c_wire_mapping c = as_wire_mapping asg" "constants (c_constraint_system c) = as_constants asg"
    by (rule assembledE[OF c])
  have a: "n \<le> 2 ^ 26" "\<forall>w s. slot w = Some s \<longrightarrow> unat s < n"
    "\<forall>i < length (gg_gates g). inj_on slot {w \<in> ?S. alive_at (gg_gates g) i w}"
    and form: "eval_form_build g (c_wire_mapping c) (c_layout c) r = Some (c_eval_form c)"
    using c by (auto simp: assembled_def call_used_def)
  have apart: "registers_apart ?reg {..<?N} ?S (gg_gates g)"
    using registers(2)[OF asg(1) rd(5) a] asg(2,3) by simp
  have inside: "\<forall>d \<in> set (gg_gates g). gate_wf r (gg_wires g) d \<and> set (wires d) \<subseteq> {..<?N}"
    using rd(2) by (auto simp: gate_ready_def gate_wf_def)
  note rc = apart_carried[OF apart written_first_mono[OF rd(4) scratch_loose] rd(3) inside subset_refl]
  note place = word_place[OF c rd(5)]
  have fits: "\<forall>w < ?N. unat (?reg w) < length (vv_words v)"
    using place_reads(2,3)[OF c rd(5) v] by simp
  have aw: "aw_ok (vv_data v)" using v by (simp add: fills_def vv_wf_def)
  have init: "\<forall>w \<in> {..<?N} - ?S. vv_word v (?reg w) = Some (word_in c v w)" using place(2)[OF v] by simp
  obtain v' \<tau> where ef: 
    "ef_evaluate (c_eval_form c) v (Some tree) = Some (report (Some tree) (graph_fails r (assertion_names g) 0 (gg_gates g) \<tau>), v')"
    "aw_ok (vv_data v')" "vv_shape v' = vv_shape v" "\<tau> = fst (graph_run r (assertion_names g) 0 (gg_gates g) (word_in c v))"
    "\<forall>d \<in> set (gg_gates g). \<forall>p. get_gate_param r d = Some p \<longrightarrow> gate_done r d p \<tau>"
    "\<forall>w \<in> carried_to r ?reg (gg_gates g) ({..<?N} - ?S). vv_word v' (?reg w) = Some (\<tau> w)"
    using graph_evaluates[OF rd(1-3) rc(1) refl fits aw filled_constants_hold[OF c rd(5) v words] init, of "Some tree"] form
    by auto
  have fv': "fills c v'" using ef(2,3) v by (auto simp: fills_def vv_wf_def vv_shape_def vv_size_def)
  have "word_in c v' w = \<tau> w" if w: "w < ?N" "w \<notin> ?S" "w \<notin> ?T" for w
  proof -
    have "w \<in> carried_to r ?reg (gg_gates g) ({..<?N} - ?S)" using rc(2) w by blast
    then have "vv_word v' (?reg w) = Some (\<tau> w)" using ef(6) by blast
    then show ?thesis using place(2)[OF fv' w(1)] by simp
  qed
  then show ?thesis using ef(1,4,5) fv' by blast
qed

lemma run_consts_hold:
  assumes "graph_ready r g" "consts_hold (gg_wires g) \<sigma>"
  shows "consts_hold (gg_wires g) (fst (graph_run r names gate (gg_gates g) \<sigma>))"
proof -
  have "fst (graph_run r names gate (gg_gates g) \<sigma>) w = x" if "w < length (gg_wires g)" "gg_wires g ! w = KConstant x" for w x
  proof -
    have "unwritten r g w" by (rule constant_unwritten[OF assms(1)]) (simp add: that(2))
    from run_keeps_unwritten[OF this] show ?thesis using assms(2) that by (auto simp: consts_hold_def)
  qed
  then show ?thesis by (simp add: consts_hold_def split: wire_kind.splits)
qed

lemma populate_spec:
  assumes ready: "graph_ready r g" and c: "assembled opts r tree calls g cb slot n c" and v: "fills c v"
    and cb: "cb_used cb \<subseteq> {..<length (gg_wires g)} - temps_of r (gg_gates g)"
  shows "\<exists>v' \<tau>. populate_wire_witness c v =
      Some (report (Some tree) (graph_fails r (assertion_names g) 0 (gg_gates g) \<tau>), v') \<and> fills c v' \<and>
    consts_hold (gg_wires g) \<tau> \<and>
    (\<forall>d \<in> set (gg_gates g). \<forall>p. get_gate_param r d = Some p \<longrightarrow> gate_done r d p \<tau>) \<and>
    (\<forall>w < length (gg_wires g). w \<notin> scratch_wires g (call_used calls cb) \<longrightarrow> w \<notin> temps_of r (gg_gates g) \<longrightarrow>
      vv_get v' (witness_index c w) = Some (\<tau> w)) \<and>
    (\<forall>w < length (gg_wires g). unwritten r g w \<longrightarrow> \<not> is_const (gg_wires g ! w) \<longrightarrow>
      vv_get v (witness_index c w) = Some (\<tau> w)) \<and>
    cs_verify (c_constraint_system c) v' \<noteq> Panic \<and> (cs_verify (c_constraint_system c) v' = Ok () \<longleftrightarrow> cb_sat \<tau> cb)"
proof -
  let ?cs = "c_constraint_system c" and ?l = "c_layout c" and ?N = "length (gg_wires g)" and ?T = "temps_of r (gg_gates g)"
  let ?S = "scratch_wires g (call_used calls cb)"
  have N: "?N \<le> 2 ^ 26" using ready by (simp add: graph_ready_def)
  note n = n_constants[OF c N]
  obtain v1 where v1: "copy_words put_constant v 0 (constants ?cs) = Some v1" "fills c v1"
    "vv_words v1 = constants ?cs @ drop (lay_n_const ?l) (vv_words v)"
    using fills_constants[OF v] n by auto
  obtain v' \<tau> where run: "ef_evaluate (c_eval_form c) v1 (Some tree) =
      Some (report (Some tree) (graph_fails r (assertion_names g) 0 (gg_gates g) \<tau>), v')" "fills c v'"
    "\<tau> = fst (graph_run r (assertion_names g) 0 (gg_gates g) (word_in c v1))"
    "\<forall>d \<in> set (gg_gates g). \<forall>p. get_gate_param r d = Some p \<longrightarrow> gate_done r d p \<tau>"
    "\<forall>w < ?N. w \<notin> ?S \<longrightarrow> w \<notin> ?T \<longrightarrow> word_in c v' w = \<tau> w"
    using populate_run[OF ready c v1(2,3)] by blast
  have ch: "consts_hold (gg_wires g) \<tau>"
    unfolding run(3) by (rule run_consts_hold[OF ready filled_constants_hold[OF c N v1(2,3)]])
  have inputs: "\<tau> w = word_in c v w" if w: "w < ?N" "unwritten r g w" "\<not> is_const (gg_wires g ! w)" for w
  proof -
    have "lay_n_const ?l \<le> lay_word_offset ?l (c_wire_mapping c w)" by (rule other_above[OF c w(1,3)])
    moreover have "lay_word_offset ?l (c_wire_mapping c w) < length (vv_words v)" by (rule place_reads(2)[OF c N v w(1)])
    ultimately have "word_in c v1 w = word_in c v w"
      using n(1) unfolding word_place(3)[OF c N v1(2) w(1)] word_place(3)[OF c N v w(1)] v1(3) by (simp add: nth_append)
    then show ?thesis using run_keeps_unwritten[OF w(2)] run(3) by simp
  qed
  have const: "vv_words v' ! j = constants ?cs ! j" if j: "j < lay_n_const ?l" for j
  proof -
    obtain w where w: "w < ?N" "gg_wires g ! w = KConstant (constants ?cs ! j)" "lay_word_offset ?l (c_wire_mapping c w) = j"
      using constant_wire[OF c j] by blast
    have "unwritten r g w" by (rule constant_unwritten[OF ready]) (simp add: w(2))
    then have "w \<notin> ?T" using temps_written by (auto simp: unwritten_def)
    moreover have "w \<notin> ?S" using w(2) by (auto simp: scratch_wires_in loose_at_def loose_kind_def)
    ultimately have "word_in c v' w = \<tau> w" using run(5) w(1) by blast
    then show ?thesis using ch w word_place(3)[OF c N run(2) w(1)] by (auto simp: consts_hold_def)
  qed
  have used: "cb_used cb \<subseteq> {..<?N}" using cb by blast
  note verify = assembled_verify[OF c N run(2) used allI[OF impI[OF const]]]
  have "cb_sat (word_in c v') cb \<longleftrightarrow> cb_sat \<tau> cb"
  proof (rule cb_sat_agree, rule ballI)
    fix w assume w: "w \<in> cb_used cb"
    then have "w \<notin> ?S" by (auto simp: scratch_wires_in loose_at_def call_used_def)
    then show "word_in c v' w = \<tau> w" using run(5) w cb by blast
  qed
  moreover have "populate_wire_witness c v = Some (report (Some tree) (graph_fails r (assertion_names g) 0 (gg_gates g) \<tau>), v')"
    using v1(1) run(1) c by (simp add: populate_wire_witness_def assembled_def)
  ultimately show ?thesis
    using run(2,4,5) ch inputs verify word_place(1)[OF c N] v by (intro exI[of _ v'] exI[of _ \<tau>]) simp
qed

section \<open>Constraints of the kept gates\<close>

lemma looked_not_temp:
  assumes ord: "ordered r ds" and i: "i < length ds" "j < length ds"
    and p: "get_gate_param r (ds ! i) = Some p" and q: "get_gate_param r (ds ! j) = Some q"
  shows "(set (gate_uses q) \<union> set (gate_results (ds ! j) q)) \<inter> gate_temps (ds ! i) p = {}"
proof -
  obtain p' where p': "get_gate_param r (ds ! i) = Some p'" "set (gate_uses p') \<inter> set (gate_writes p') = {}"
    "\<And>e q. e \<in> set (drop (Suc i) ds) \<Longrightarrow> get_gate_param r e = Some q \<Longrightarrow>
      set (gate_writes q) \<inter> set (gate_writes p' @ gate_uses p') = {} \<and> set (gate_uses q) \<inter> gate_temps (ds ! i) p' = {}"
    by (rule ordered_nth[OF ord i(1)]) blast
  obtain q' where q': "get_gate_param r (ds ! j) = Some q'"
    "\<And>e p. e \<in> set (drop (Suc j) ds) \<Longrightarrow> get_gate_param r e = Some p \<Longrightarrow>
      set (gate_writes p) \<inter> set (gate_writes q' @ gate_uses q') = {}"
    by (rule ordered_nth[OF ord i(2)]) blast
  have later: "ds ! b \<in> set (drop (Suc a) ds)" if "a < b" "b < length ds" for a b
    using that by (auto simp: in_set_conv_nth intro!: exI[of _ "b - Suc a"])
  have temps: "gate_temps (ds ! i) p \<subseteq> set (gate_writes p)" "gate_temps (ds ! i) p \<inter> set (gate_results (ds ! i) p) = {}"
    by (auto simp: gate_temps_def)
  consider "i < j" | "j < i" | "i = j" by linarith
  then show ?thesis
  proof cases
    case 1
    then show ?thesis using p'(3)[OF later[OF 1 i(2)] q] p p'(1) temps results_written[of "ds ! j" q] by auto
  next
    case 2
    then show ?thesis using q'(2)[OF later[OF 2 i(1)] p] q q'(1) temps results_written[of "ds ! j" q] by auto
  next
    case 3
    then show ?thesis using p p'(1,2) q temps by auto
  qed
qed

definition seen_wires :: "hint_registry \<Rightarrow> gate_graph \<Rightarrow> wire set" where
  "seen_wires r g = {..<length (gg_wires g)} - temps_of r (gg_gates g)"

lemma looked_seen:
  assumes ready: "graph_ready r g" and d: "d \<in> set (gg_gates g)" and q: "get_gate_param r d = Some q"
  shows "set (gate_looked d q) \<subseteq> seen_wires r g"
proof -
  have ord: "ordered r (gg_gates g)" and wf: "gate_wf r (gg_wires g) d"
    using ready d by (auto simp: graph_ready_def gate_ready_def)
  obtain j where j: "j < length (gg_gates g)" "gg_gates g ! j = d" using d by (auto simp: in_set_conv_nth)
  have looked: "set (gate_looked d q) \<subseteq> set (gate_uses q) \<union> set (gate_results d q)"
    by (cases "body d") (auto simp: gate_looked_def gate_looks_def gate_uses_def gate_results_def)
  also have "\<dots> \<subseteq> set (wires d)"
    using validated_wires(1)[OF wf q] results_written[of d q] by auto
  also have "\<dots> \<subseteq> {..<length (gg_wires g)}" using wf by (auto simp: gate_wf_def)
  finally have "set (gate_looked d q) \<subseteq> {..<length (gg_wires g)}" .
  moreover have "(set (gate_uses q) \<union> set (gate_results d q)) \<inter> temps_of r (gg_gates g) = {}"
    using looked_not_temp[OF ord _ j(1), of _ _ q] j(2) q unfolding temps_of_def
    by (fastforce simp: in_set_conv_nth)
  ultimately show ?thesis using looked by (auto simp: seen_wires_def)
qed

lemma constrain_ready:
  assumes "graph_ready r g" "sum_list (map gate_room (gg_gates g)) < 2 ^ 32"
  shows "\<exists>cb. constrain_gates r dead live 0 (gg_gates g) cb_new = Some cb \<and> cb_wf cb \<and> cb_in (seen_wires r g) cb \<and>
    (\<forall>\<sigma>. consts_hold (gg_wires g) \<sigma> \<longrightarrow> (cb_sat \<sigma> cb \<longleftrightarrow> (\<forall>d \<in> set (kept_gates dead live 0 (gg_gates g)). gate_sat r d \<sigma>)))"
proof -
  have wf: "\<forall>d \<in> set (gg_gates g). gate_wf r (gg_wires g) d \<and> gate_imm_ok d"
    using assms(1) by (simp add: graph_ready_def gate_ready_def)
  have new: "cb_wf cb_new" "\<And>\<sigma>. cb_sat \<sigma> cb_new" "cb_terms cb_new = []"
    by (simp_all add: cb_wf_def cb_sat_def cb_new_def)
  have "set (kept_gates dead live 0 (gg_gates g)) \<subseteq> set (gg_gates g)"
    by (auto simp: kept_gates_def in_set_enumerate_eq)
  then have "\<forall>d \<in> set (kept_gates dead live 0 (gg_gates g)). \<forall>p. get_gate_param r d = Some p \<longrightarrow>
      set (gate_looked d p) \<subseteq> seen_wires r g"
    using looked_seen[OF assms(1)] by blast
  from constrain_gates_spec[OF wf new(1) cb_in_new _ this] show ?thesis
    using assms(2) new by simp
qed

lemma gate_value_hint: "body d = HintCall h \<Longrightarrow> gate_value r d xs \<noteq> Err m"
  by (auto simp: gate_value_def outcome_simps split: prod.splits)

lemma done_sat_iff:
  assumes "gate_wf r ks d" "gate_imm_ok d" "get_gate_param r d = Some p" "gate_done r d p \<tau>"
  shows "gate_sat r d \<tau> \<longleftrightarrow> gate_fails r d p \<tau> = []"
proof
  assume "gate_fails r d p \<tau> = []"
  moreover have "gate_value r d (map \<tau> (p_inputs p)) \<noteq> Panic" by (rule gate_value_total[OF assms(1-3)]) simp
  ultimately show "gate_sat r d \<tau>"
    using done_sat[OF assms(3,4)] validated_wires(2)[OF assms(1,3)] by blast
next
  assume sat: "gate_sat r d \<tau>"
  show "gate_fails r d p \<tau> = []"
    using sat assms(3) validated_wires(2)[OF assms(1,3)] gate_value_hint[of d]
    by (cases "body d") (auto simp: gate_sat_def gate_holds_def gate_fails_def gate_value_def split: outcome.splits)
qed

section \<open>Property\<close>

lemma fill_wires_fills:
  assumes "assembled opts r tree calls g cb slot n c" "length (gg_wires g) \<le> 2 ^ 26"
    "\<forall>w \<in> fst ` set ws. w < length (gg_wires g) \<and> w \<notin> scratch_wires g (call_used calls cb)"
  shows "fills c v \<Longrightarrow> \<exists>v'. fill_wires c ws v = Some v' \<and> fills c v'"
  using assms(3)
proof (induction ws arbitrary: v)
  case (Cons x ws)
  obtain w y where x: "x = (w, y)" by (cases x)
  then have w: "w < length (gg_wires g)" "w \<notin> scratch_wires g (call_used calls cb)" using Cons.prems(2) by auto
  obtain asg where asg: "assigned g (call_used calls cb) slot n asg" "c_wire_mapping c = as_wire_mapping asg"
    by (rule assembledE[OF assms(1)])
  obtain s k where "committed_place asg w s k" by (rule committed[OF asg(1) w]) blast
  then have "vi_segment (witness_index c w) \<noteq> Scratch"
    by (auto simp: committed_place_def placed_at_def witness_index_def asg(2))
  moreover obtain v' where "vv_set v (witness_index c w) y = Some v'" "fills c v'"
    using vv_set_fills[OF Cons.prems(1), of "witness_index c w" y] place_reads(2)[OF assms(1,2) Cons.prems(1) w(1)]
    by (auto simp: witness_index_def)
  ultimately show ?case
    using Cons.IH[of v'] Cons.prems(2) x by (simp add: filler_index_mut_def assert_not_pooled_def)
qed simp

text \<open>C4: Assembling a ready graph never panics and its constraint system passes validation.  Filling
  the witness of the circuit, whatever words the inputs hold, never panics either: it reports the
  failed assertions of the values the gates compute from the inputs, leaves those values in the
  places of the wires, and the constraint system then accepts the vector exactly when no gate that
  was kept failed.\<close>

theorem populate_then_verify:
  assumes "graph_ready r g" "sum_list (map gate_room (gg_gates g)) < 2 ^ 32"
  shows "\<exists>cb c. constrain_gates r dead live 0 (gg_gates g) cb_new = Some cb \<and> assemble opts r tree calls g cb = Some c \<and>
    cs_validate (c_constraint_system c) = Ok () \<and> fills c (new_witness_filler c) \<and>
    (\<forall>v. fills c v \<longrightarrow> (\<exists>v' \<tau>. populate_wire_witness c v =
        Some (report (Some tree) (graph_fails r (assertion_names g) 0 (gg_gates g) \<tau>), v') \<and>
      (\<forall>d \<in> set (gg_gates g). \<forall>p. get_gate_param r d = Some p \<longrightarrow> gate_done r d p \<tau>) \<and>
      (\<forall>w < length (gg_wires g). unwritten r g w \<longrightarrow> \<not> is_const (gg_wires g ! w) \<longrightarrow>
      vv_get v (witness_index c w) = Some (\<tau> w)) \<and>
      (\<forall>w < length (gg_wires g). w \<notin> scratch_wires g (call_used calls cb) \<longrightarrow> w \<notin> temps_of r (gg_gates g) \<longrightarrow>
        vv_get v' (witness_index c w) = Some (\<tau> w)) \<and>
      cs_verify (c_constraint_system c) v' \<noteq> Panic \<and>
      (cs_verify (c_constraint_system c) v' = Ok () \<longleftrightarrow>
        (\<forall>d \<in> set (kept_gates dead live 0 (gg_gates g)). \<forall>p. get_gate_param r d = Some p \<longrightarrow> gate_fails r d p \<tau> = []))))"
proof -
  obtain cb where cb: "constrain_gates r dead live 0 (gg_gates g) cb_new = Some cb" "cb_wf cb" "cb_in (seen_wires r g) cb"
    "\<And>\<sigma>. consts_hold (gg_wires g) \<sigma> \<Longrightarrow>
      cb_sat \<sigma> cb \<longleftrightarrow> (\<forall>d \<in> set (kept_gates dead live 0 (gg_gates g)). gate_sat r d \<sigma>)"
    using constrain_ready[OF assms, of dead live] by blast
  have seen: "cb_used cb \<subseteq> seen_wires r g" by (rule cb_used_in[OF cb(3)])
  have "cb_in {..<length (gg_wires g)} cb" using cb(3) by (auto simp: cb_in_def term_in_def seen_wires_def)
  from assemble_spec[OF assms(1) cb(2) this, of opts tree calls] obtain c slot n where
    c: "assemble opts r tree calls g cb = Some c" "assembled opts r tree calls g cb slot n c" by blast
  have valid: "cs_validate (c_constraint_system c) = Ok ()" using c(2) by (simp add: assembled_def cs_validate_spec)
  have sat: "cb_sat \<tau> cb \<longleftrightarrow>
      (\<forall>d \<in> set (kept_gates dead live 0 (gg_gates g)). \<forall>p. get_gate_param r d = Some p \<longrightarrow> gate_fails r d p \<tau> = [])"
    if t: "consts_hold (gg_wires g) \<tau>" "\<forall>d \<in> set (gg_gates g). \<forall>p. get_gate_param r d = Some p \<longrightarrow> gate_done r d p \<tau>" for \<tau>
    unfolding cb(4)[OF t(1)]
  proof (rule ball_cong[OF refl])
    fix d assume "d \<in> set (kept_gates dead live 0 (gg_gates g))"
    then have d: "d \<in> set (gg_gates g)" by (auto simp: kept_gates_def in_set_enumerate_eq)
    then have wf: "gate_wf r (gg_wires g) d" "gate_imm_ok d" using assms(1) by (auto simp: graph_ready_def gate_ready_def)
    obtain p where p: "get_gate_param r d = Some p" by (rule validated_gate_param[of r d]) (use wf in \<open>auto simp: gate_wf_def\<close>)
    show "gate_sat r d \<tau> = (\<forall>p. get_gate_param r d = Some p \<longrightarrow> gate_fails r d p \<tau> = [])"
      using done_sat_iff[OF wf p] t(2) d p by simp
  qed
  show ?thesis
  proof (rule exI[of _ cb], rule exI[of _ c], intro conjI allI impI)
    fix v assume "fills c v"
    from populate_spec[OF assms(1) c(2) this seen[unfolded seen_wires_def]]
    show "\<exists>v' \<tau>. populate_wire_witness c v =
        Some (report (Some tree) (graph_fails r (assertion_names g) 0 (gg_gates g) \<tau>), v') \<and>
      (\<forall>d \<in> set (gg_gates g). \<forall>p. get_gate_param r d = Some p \<longrightarrow> gate_done r d p \<tau>) \<and>
      (\<forall>w < length (gg_wires g). unwritten r g w \<longrightarrow> \<not> is_const (gg_wires g ! w) \<longrightarrow>
      vv_get v (witness_index c w) = Some (\<tau> w)) \<and>
      (\<forall>w < length (gg_wires g). w \<notin> scratch_wires g (call_used calls cb) \<longrightarrow> w \<notin> temps_of r (gg_gates g) \<longrightarrow>
        vv_get v' (witness_index c w) = Some (\<tau> w)) \<and>
      cs_verify (c_constraint_system c) v' \<noteq> Panic \<and>
      (cs_verify (c_constraint_system c) v' = Ok () \<longleftrightarrow>
        (\<forall>d \<in> set (kept_gates dead live 0 (gg_gates g)). \<forall>p. get_gate_param r d = Some p \<longrightarrow> gate_fails r d p \<tau> = []))"
      by (elim exE conjE, intro exI conjI) (assumption | simp only: sat)+
  qed (rule cb(1) c(1) valid fills_new)+
qed

text \<open>An exclusive or asserted equal to a public word, on the all-zero filler.\<close>

definition sample_xor :: gate_data where
  "sample_xor = \<lparr>body = Op Bxor, wires = [1, 2, 3], immediates = [], dimensions = []\<rparr>"

definition sample_eq :: gate_data where
  "sample_eq = \<lparr>body = Op AssertEq, wires = [3, 4], immediates = [], dimensions = []\<rparr>"

definition sample_check :: gate_graph where
  "sample_check = \<lparr>gg_gates = [sample_xor, sample_eq],
    gg_wires = [KConstant ALL_ONE, KWitness, KWitness, KInternal, KInout], gate_origin = (\<lambda>_. 0), assertion_names = (\<lambda>_. 0),
    const_pool = [ALL_ONE \<mapsto> 0], all_one = 0, wire_def = (\<lambda>_. None), use_edges = [], use_offsets = []\<rparr>"

lemma sample_check_params:
  "get_gate_param Map.empty sample_xor =
    Some \<lparr>p_constants = [], p_inputs = [1, 2], p_outputs = [3], p_aux = [], p_scratch = [], p_imm = []\<rparr>"
  "get_gate_param Map.empty sample_eq =
    Some \<lparr>p_constants = [], p_inputs = [3, 4], p_outputs = [], p_aux = [], p_scratch = [], p_imm = []\<rparr>"
  by (simp_all add: get_gate_param_def gate_shape_def gate_param_for_shape_def shape_defs Let_def slice_def
      sample_xor_def sample_eq_def)

lemma sample_bodies: "body sample_xor = Op Bxor" "body sample_eq = Op AssertEq"
  by (simp_all add: sample_xor_def sample_eq_def)

lemma sample_check_gates: "gg_gates sample_check = [sample_xor, sample_eq]"
  by (simp add: sample_check_def)

lemma sample_check_loose: "loose_wires sample_check = {3}"
proof -
  have "loose_kind ([KConstant ALL_ONE, KWitness, KWitness, KInternal, KInout] ! w) \<longleftrightarrow> w = 3" if w: "w < 5" for w
  proof -
    consider "w = 0" | "w = 1" | "w = 2" | "w = 3" | "w = 4" using w by linarith
    then show ?thesis by cases (simp_all add: loose_kind_def)
  qed
  moreover have "loose_kind KInternal" by (simp add: loose_kind_def)
  ultimately show ?thesis by (auto simp: loose_wires_def sample_check_def)
qed

lemma sample_check_gates_ready:
  "gate_ready Map.empty (gg_wires sample_check) sample_xor" "gate_ready Map.empty (gg_wires sample_check) sample_eq"
proof -
  have ks: "gg_wires sample_check = [KConstant ALL_ONE, KWitness, KWitness, KInternal, KInout]" by (simp add: sample_check_def)
  have wf: "gate_wf Map.empty (gg_wires sample_check) sample_xor" "gate_wf Map.empty (gg_wires sample_check) sample_eq"
    unfolding ks by (simp_all add: sample_xor_def sample_eq_def gate_wf_def validate_shape_def gate_shape_def
      shape_wires_def shape_defs)
  have "gate_imm_ok d \<and> gate_fits_code d" if "d = sample_xor \<or> d = sample_eq" for d
    using that by (auto simp: sample_xor_def sample_eq_def gate_imm_ok_def imm_ok_def gate_fits_code_def)
  moreover have "consts_kept Map.empty (gg_wires sample_check) sample_xor" "consts_kept Map.empty (gg_wires sample_check) sample_eq"
    unfolding ks consts_kept_def sample_check_params by (simp_all add: gate_writes_def)
  ultimately show "gate_ready Map.empty (gg_wires sample_check) sample_xor" "gate_ready Map.empty (gg_wires sample_check) sample_eq"
    using wf by (simp_all add: gate_ready_def)
qed

lemma sample_check_ready: "graph_ready Map.empty sample_check"
proof -
  have wires: "set (wires sample_xor) = {1, 2, 3}" by (auto simp: sample_xor_def)
  have "written_first Map.empty {3} (gg_gates sample_check)"
    unfolding written_first_def sample_check_gates
    by (auto simp: less_Suc_eq sample_check_params gate_uses_def wires)
  moreover have "ordered Map.empty (gg_gates sample_check)"
    unfolding sample_check_gates by (simp add: sample_check_params gate_writes_def gate_uses_def gate_results_def)
  moreover have "length (gg_wires sample_check) = 5" by (simp add: sample_check_def)
  ultimately show ?thesis
    unfolding graph_ready_def sample_check_loose
    by (simp add: sample_check_gates sample_check_gates_ready registry_ok_def wires)
qed

lemma sample_check_quiet:
  assumes "\<forall>d \<in> set (gg_gates sample_check). \<forall>p. get_gate_param Map.empty d = Some p \<longrightarrow> gate_done Map.empty d p \<tau>"
    and v: "\<forall>w < length (gg_wires sample_check). unwritten Map.empty sample_check w \<longrightarrow> \<not> is_const (gg_wires sample_check ! w) \<longrightarrow>
      vv_get (new_witness_filler c) (witness_index c w) = Some (\<tau> w)"
  shows "d \<in> set (gg_gates sample_check) \<Longrightarrow> get_gate_param Map.empty d = Some p \<Longrightarrow> gate_fails Map.empty d p \<tau> = []"
    "graph_fails Map.empty (assertion_names sample_check) 0 (gg_gates sample_check) \<tau> = []"
proof -
  let ?g = sample_check and ?r = "Map.empty :: hint_registry"
  have zero: "\<tau> w = 0" if w: "w \<in> {1, 2, 4}" for w
  proof -
    have "unwritten ?r ?g w" using w
      by (auto simp: unwritten_def all_writes_def sample_check_gates sample_check_params gate_writes_def)
    moreover have "w < length (gg_wires ?g)" "\<not> is_const (gg_wires ?g ! w)" using w by (auto simp: sample_check_def)
    ultimately have "vv_get (new_witness_filler c) (witness_index c w) = Some (\<tau> w)" using v by blast
    then show ?thesis by (auto simp: vv_get_def read_at_def new_witness_filler_def vv_new_def aw.view_zeroed split: if_splits)
  qed
  have "gate_done ?r sample_xor
      \<lparr>p_constants = [], p_inputs = [1, 2], p_outputs = [3], p_aux = [], p_scratch = [], p_imm = []\<rparr> \<tau>"
    using assms(1) sample_check_params(1) by (simp add: sample_check_gates)
  moreover have "\<tau> 1 = 0" "\<tau> 2 = 0" "\<tau> 4 = 0" using zero by simp_all
  ultimately have "\<tau> 3 = \<tau> 4" by (simp add: gate_done_def gate_value_def sample_bodies)
  then have "\<forall>p. get_gate_param ?r sample_xor = Some p \<longrightarrow> gate_fails ?r sample_xor p \<tau> = []"
    "\<forall>p. get_gate_param ?r sample_eq = Some p \<longrightarrow> gate_fails ?r sample_eq p \<tau> = []"
    by (simp_all add: sample_check_params gate_fails_def gate_value_def sample_bodies)
  then show fails: "gate_fails ?r d p \<tau> = []" if "d \<in> set (gg_gates ?g)" "get_gate_param ?r d = Some p" for d p
    using that by (auto simp: sample_check_gates)
  show "graph_fails ?r (assertion_names ?g) 0 (gg_gates ?g) \<tau> = []"
    using fails by (simp add: sample_check_gates sample_check_params)
qed

lemma sample_check_room: "sum_list (map gate_room (gg_gates sample_check)) < 2 ^ 32"
  by (simp add: sample_check_gates gate_room_def sample_xor_def sample_eq_def)

lemma populate_then_verify_witness:
  "\<exists>cb c v'. constrain_gates Map.empty None None 0 (gg_gates sample_check) cb_new = Some cb \<and>
    assemble default_options Map.empty tree_new [] sample_check cb = Some c \<and>
    populate_wire_witness c (new_witness_filler c) = Some (Ok (), v') \<and> cs_verify (c_constraint_system c) v' = Ok ()"
proof -
  let ?g = sample_check and ?r = "Map.empty :: hint_registry"
  note pv = populate_then_verify[OF sample_check_ready sample_check_room, of None None default_options tree_new "[]"]
  obtain cb c v' \<tau> where c: "constrain_gates ?r None None 0 (gg_gates ?g) cb_new = Some cb"
    "assemble default_options ?r tree_new [] ?g cb = Some c"
    "populate_wire_witness c (new_witness_filler c) =
      Some (report (Some tree_new) (graph_fails ?r (assertion_names ?g) 0 (gg_gates ?g) \<tau>), v')"
    "\<forall>d \<in> set (gg_gates ?g). \<forall>p. get_gate_param ?r d = Some p \<longrightarrow> gate_done ?r d p \<tau>"
    "\<forall>w < length (gg_wires ?g). unwritten ?r ?g w \<longrightarrow> \<not> is_const (gg_wires ?g ! w) \<longrightarrow>
      vv_get (new_witness_filler c) (witness_index c w) = Some (\<tau> w)"
    "cs_verify (c_constraint_system c) v' = Ok () \<longleftrightarrow>
      (\<forall>d \<in> set (kept_gates None None 0 (gg_gates ?g)). \<forall>p. get_gate_param ?r d = Some p \<longrightarrow> gate_fails ?r d p \<tau> = [])"
    by (rule exE[OF pv], elim exE conjE, drule spec, drule mp, assumption, elim exE conjE) (rule that)
  note quiet = sample_check_quiet[OF c(4,5)]
  have "cs_verify (c_constraint_system c) v' = Ok ()"
    using c(6) quiet(1) by (auto simp: kept_gates_def in_set_enumerate_eq)
  then show ?thesis using c(1-3) quiet(2) by (auto simp: report_def)
qed

lemma assembled_of:
  assumes "graph_ready r g" "sum_list (map gate_room (gg_gates g)) < 2 ^ 32"
    "constrain_gates r dead live 0 (gg_gates g) cb_new = Some cb" "assemble opts r tree calls g cb = Some c"
  obtains slot n where "assembled opts r tree calls g cb slot n c" "cb_used cb \<subseteq> seen_wires r g"
proof -
  have cb: "cb_wf cb" "cb_in (seen_wires r g) cb" using constrain_ready[OF assms(1,2), of dead live] assms(3) by auto
  then have "cb_in {..<length (gg_wires g)} cb" by (auto simp: cb_in_def term_in_def seen_wires_def)
  from assemble_spec[OF assms(1) cb(1) this, of opts tree calls] assms(4)
  show ?thesis using that cb_used_in[OF cb(2)] by auto
qed

end
