(* ===== verification/Circuit_Batch.thy ===== *)
theory Circuit_Batch
  imports Circuit
begin

text \<open>
  Filling a batch of instances at once (\<open>populate_wire_witness_batched\<close> and \<open>populate_batch\<close> of
  \<open>artifact/circuit.rs\<close>, the batch filler of \<open>artifact/witness.rs\<close>).  \<open>Panic\<close> is a panic; a shift
  of a \<open>usize\<close> loses the bits past its width.
\<close>

section \<open>Definitions\<close>

fun broadcast :: "nat \<Rightarrow> u64 \<Rightarrow> nat list \<Rightarrow> u64 strided_view \<Rightarrow> u64 strided_view option" where
  "broadcast index x [] values = Some values"
| "broadcast index x (i # is) values = Option.bind (sv_index_mut values index i x) (broadcast index x is)"

fun broadcast_constants :: "nat \<Rightarrow> u64 list \<Rightarrow> u64 strided_view \<Rightarrow> u64 strided_view option" where
  "broadcast_constants index [] values = Some values"
| "broadcast_constants index (x # xs) values =
    Option.bind (broadcast index x [0..<sv_width values] values) (broadcast_constants (Suc index) xs)"

definition populate_wire_witness_batched ::
  "circuit \<Rightarrow> u64 strided_view \<Rightarrow> ((batch_populate_error, unit) outcome \<times> u64 strided_view) option" where
  "populate_wire_witness_batched c values = do {
    values \<leftarrow> broadcast_constants 0 (constants (c_constraint_system c)) values;
    ef_evaluate_batched (c_eval_form c) values (Some (c_path_tree c))
  }"

definition batch_filler_index :: "circuit \<Rightarrow> u64 strided_view \<Rightarrow> nat \<Rightarrow> wire \<Rightarrow> u64 option" where
  "batch_filler_index c values inst w = sv_index values (witness_row c w) inst"

definition batch_filler_index_mut ::
  "circuit \<Rightarrow> u64 strided_view \<Rightarrow> nat \<Rightarrow> wire \<Rightarrow> u64 \<Rightarrow> u64 strided_view option" where
  "batch_filler_index_mut c values inst w x = sv_index_mut values (witness_row c w) inst x"

fun fill_instances :: "(nat \<Rightarrow> u64 strided_view \<Rightarrow> u64 strided_view option) \<Rightarrow> nat list \<Rightarrow> u64 strided_view \<Rightarrow>
    u64 strided_view option" where
  "fill_instances fill [] values = Some values"
| "fill_instances fill (i # is) values = Option.bind (fill i values) (fill_instances fill is)"

definition populate_batch_with :: "circuit \<Rightarrow> nat \<Rightarrow> (nat \<Rightarrow> u64 strided_view \<Rightarrow> u64 strided_view option) \<Rightarrow>
    (batch_populate_error, value_table) outcome" where
  "populate_batch_with c log_instances fill =
    (let l = c_layout c; full_len = lay_combined_len l + lay_n_scratch l in
     and_then (or_panic (usize_shl 1 log_instances)) (\<lambda>n_instances.
     and_then (or_panic (usize_shl full_len log_instances)) (\<lambda>working_len.
     and_then (case sv_without_stride (replicate working_len ZERO) full_len n_instances of
         Ok values \<Rightarrow> Ok values | _ \<Rightarrow> Panic) (\<lambda>values.
     and_then (or_panic (fill_instances fill [0..<n_instances] values)) (\<lambda>values.
     and_then (or_panic (populate_wire_witness_batched c values)) (\<lambda>(res, values).
     and_then res (\<lambda>_.
     and_then (or_panic (usize_shl (lay_offset_inout l) log_instances)) (\<lambda>start.
     and_then (or_panic (usize_shl (lay_combined_len l) log_instances)) (\<lambda>end'.
     and_then (or_panic (slice (sv_data values) start end')) (\<lambda>data.
       or_panic (from_hidden_words l log_instances data)))))))))))"

definition populate_batch :: "circuit \<Rightarrow> nat \<Rightarrow> (nat \<Rightarrow> u64 strided_view \<Rightarrow> u64 strided_view option) \<Rightarrow>
    (batch_populate_error, value_table) outcome" where
  "populate_batch c log_instances fill = populate_batch_with c log_instances fill"

text \<open>A filler that assigns a list of wires, as a caller's closure does.\<close>

fun assign_wires :: "circuit \<Rightarrow> nat \<Rightarrow> (wire \<times> u64) list \<Rightarrow> u64 strided_view \<Rightarrow> u64 strided_view option" where
  "assign_wires c inst [] values = Some values"
| "assign_wires c inst ((w, x) # ws) values =
    Option.bind (batch_filler_index_mut c values inst w x) (assign_wires c inst ws)"

section \<open>Columns\<close>

definition col_is :: "u64 strided_view \<Rightarrow> nat \<Rightarrow> u64 list \<Rightarrow> bool" where
  "col_is values i ws \<longleftrightarrow> (\<forall>row. sv_index values row i = read_at ws row)"

definition same_view :: "u64 strided_view \<Rightarrow> u64 strided_view \<Rightarrow> bool" where
  "same_view v u \<longleftrightarrow> sv_ok v \<and> sv_height v = sv_height u \<and> sv_cols v = sv_cols u \<and> sv_data_width v = sv_data_width u"

lemma col_length: "sv_ok v \<Longrightarrow> i < sv_width v \<Longrightarrow> col_is v i ws \<Longrightarrow> length ws = sv_height v"
proof -
  assume a: "sv_ok v" "i < sv_width v" "col_is v i ws"
  then have "row < length ws \<longleftrightarrow> row < sv_height v" for row
    using sv_index_held[OF a(1), of row i] by (auto simp: col_is_def read_at_def split: if_splits)
  then show ?thesis by (metis linorder_neqE_nat less_irrefl)
qed

lemma put_cell:
  assumes "sv_ok v" "row < sv_height v" "i < sv_width v"
  shows "\<exists>v'. sv_index_mut v row i x = Some v' \<and> same_view v' v \<and>
    (\<forall>j ws. j < sv_width v \<longrightarrow> col_is v j ws \<longrightarrow> col_is v' j (if j = i then ws[row := x] else ws))"
proof -
  obtain v' where v': "sv_index_mut v row i x = Some v'" "sv_ok v'" "sv_height v' = sv_height v" "sv_cols v' = sv_cols v"
    "\<forall>i' j'. sv_index v' i' j' = (if i' = row \<and> j' = i then Some x else sv_index v i' j')"
    using sv_index_mut_held[OF assms] by blast
  have w: "sv_data_width v' = sv_data_width v" using v'(1) by (auto simp: sv_index_mut_def split: if_splits)
  have "col_is v' j (if j = i then ws[row := x] else ws)" if "j < sv_width v" "col_is v j ws" for j ws
    using that v'(5) assms(2) col_length[OF assms(1) that] by (auto simp: col_is_def read_at_def nth_list_update)
  then show ?thesis using v'(1-4) w by (auto simp: same_view_def)
qed

lemma same_view_width: "same_view v u \<Longrightarrow> sv_width v = sv_width u"
  by (simp add: same_view_def sv_width_def)

lemma same_view_trans: "same_view v u \<Longrightarrow> same_view u t \<Longrightarrow> same_view v t"
  by (simp add: same_view_def)

lemma broadcast_spec:
  "sv_ok v \<Longrightarrow> row < sv_height v \<Longrightarrow> distinct is \<Longrightarrow> set is \<subseteq> {..<sv_width v} \<Longrightarrow>
    \<exists>v'. broadcast row x is v = Some v' \<and> same_view v' v \<and>
      (\<forall>j ws. j < sv_width v \<longrightarrow> col_is v j ws \<longrightarrow> col_is v' j (if j \<in> set is then ws[row := x] else ws))"
proof (induction "is" arbitrary: v)
  case Nil
  then show ?case by (simp add: same_view_def)
next
  case (Cons i "is")
  then have i: "i < sv_width v" by simp
  obtain v1 where v1: "sv_index_mut v row i x = Some v1" "same_view v1 v"
    "\<forall>j ws. j < sv_width v \<longrightarrow> col_is v j ws \<longrightarrow> col_is v1 j (if j = i then ws[row := x] else ws)"
    using put_cell[OF Cons.prems(1,2) i] by blast
  have w: "sv_width v1 = sv_width v" by (rule same_view_width[OF v1(2)])
  obtain v2 where v2: "broadcast row x is v1 = Some v2" "same_view v2 v1"
    "\<forall>j ws. j < sv_width v1 \<longrightarrow> col_is v1 j ws \<longrightarrow> col_is v2 j (if j \<in> set is then ws[row := x] else ws)"
    using Cons.IH[of v1] Cons.prems v1(2) w by (auto simp: same_view_def)
  have "col_is v2 j (if j \<in> set (i # is) then ws[row := x] else ws)" if "j < sv_width v" "col_is v j ws" for j ws
    using v1(3)[rule_format, OF that] v2(3)[rule_format, of j] that(1) w Cons.prems(3) by (cases "j = i") auto
  then show ?case using v1(1) v2(1) same_view_trans[OF v2(2) v1(2)] by auto
qed

lemma broadcast_constants_spec:
  "sv_ok v \<Longrightarrow> row + length xs \<le> sv_height v \<Longrightarrow>
    \<exists>v'. broadcast_constants row xs v = Some v' \<and> same_view v' v \<and>
      (\<forall>j ws. j < sv_width v \<longrightarrow> col_is v j ws \<longrightarrow> col_is v' j (take row ws @ xs @ drop (row + length xs) ws))"
proof (induction xs arbitrary: v row)
  case Nil
  then show ?case by (simp add: same_view_def)
next
  case (Cons x xs)
  obtain v1 where v1: "broadcast row x [0..<sv_width v] v = Some v1" "same_view v1 v"
    "\<forall>j ws. j < sv_width v \<longrightarrow> col_is v j ws \<longrightarrow> col_is v1 j (if j \<in> set [0..<sv_width v] then ws[row := x] else ws)"
    using broadcast_spec[of v row "[0..<sv_width v]" x] Cons.prems by (auto simp: lessThan_atLeast0)
  have w: "sv_width v1 = sv_width v" by (rule same_view_width[OF v1(2)])
  obtain v2 where v2: "broadcast_constants (Suc row) xs v1 = Some v2" "same_view v2 v1"
    "\<forall>j ws. j < sv_width v1 \<longrightarrow> col_is v1 j ws \<longrightarrow> col_is v2 j (take (Suc row) ws @ xs @ drop (Suc row + length xs) ws)"
    using Cons.IH[of v1 "Suc row"] Cons.prems v1(2) by (auto simp: same_view_def)
  have "col_is v2 j (take row ws @ (x # xs) @ drop (row + length (x # xs)) ws)" if j: "j < sv_width v" "col_is v j ws" for j ws
  proof -
    have "row < length ws" using col_length[OF Cons.prems(1) j] Cons.prems(2) by simp
    then have "take (Suc row) (ws[row := x]) = take row ws @ [x]" by (simp add: take_Suc_conv_app_nth)
    moreover have "col_is v2 j (take (Suc row) (ws[row := x]) @ xs @ drop (Suc row + length xs) (ws[row := x]))"
      using v1(3)[rule_format, OF j] v2(3)[rule_format, of j "ws[row := x]"] j(1) w by simp
    ultimately show ?thesis by simp
  qed
  then show ?case using v1(1) v2(1) same_view_trans[OF v2(2) v1(2)] by auto
qed

section \<open>Filling instance by instance\<close>

lemma assign_matches:
  assumes c: "assembled opts r tree calls g cb slot n c" "length (gg_wires g) \<le> 2 ^ 26"
  shows "\<forall>w \<in> fst ` set ws. w < length (gg_wires g) \<and> w \<notin> scratch_wires g (call_used calls cb) \<Longrightarrow>
    fills c u \<Longrightarrow> sv_ok v \<Longrightarrow> i < sv_width v \<Longrightarrow> col_is v i (vv_words u) \<Longrightarrow>
    \<exists>v' u'. assign_wires c i ws v = Some v' \<and> fill_wires c ws u = Some u' \<and> fills c u' \<and> same_view v' v \<and>
      col_is v' i (vv_words u') \<and> (\<forall>j us. j < sv_width v \<longrightarrow> j \<noteq> i \<longrightarrow> col_is v j us \<longrightarrow> col_is v' j us)"
proof (induction ws arbitrary: u v)
  case Nil
  then show ?case by (simp add: same_view_def)
next
  case (Cons p ws)
  obtain w x where p: "p = (w, x)" by (cases p)
  then have w: "w < length (gg_wires g)" "w \<notin> scratch_wires g (call_used calls cb)" using Cons.prems(1) by auto
  obtain u1 where u1: "filler_index_mut c u w x = Some u1" "fills c u1" "vv_words u1 = (vv_words u)[witness_row c w := x]"
  proof -
    obtain asg where asg: "assigned g (call_used calls cb) slot n asg" "c_wire_mapping c = as_wire_mapping asg"
      by (rule assembledE[OF c(1)])
    obtain s k where "committed_place asg w s k" by (rule committed[OF asg(1) w]) blast
    then have "vi_segment (witness_index c w) \<noteq> Scratch"
      by (auto simp: committed_place_def placed_at_def witness_index_def asg(2))
    moreover obtain u1 where "vv_set u (witness_index c w) x = Some u1" "fills c u1"
      "vv_words u1 = (vv_words u)[witness_row c w := x]"
      using vv_set_fills[OF Cons.prems(2), of "witness_index c w" x] place_reads(2)[OF c Cons.prems(2) w(1)]
      by (auto simp: witness_index_def witness_row_def)
    ultimately show ?thesis using that by (simp add: filler_index_mut_def assert_not_pooled_def)
  qed
  have row: "witness_row c w < sv_height v"
    using place_reads(2)[OF c Cons.prems(2) w(1)] col_length[OF Cons.prems(3-5)] by (simp add: witness_row_def witness_index_def)
  obtain v1 where v1: "sv_index_mut v (witness_row c w) i x = Some v1" "same_view v1 v"
    "\<forall>j us. j < sv_width v \<longrightarrow> col_is v j us \<longrightarrow> col_is v1 j (if j = i then us[witness_row c w := x] else us)"
    using put_cell[OF Cons.prems(3) row Cons.prems(4)] by blast
  have width: "sv_width v1 = sv_width v" by (rule same_view_width[OF v1(2)])
  have ok: "sv_ok v1" using v1(2) by (simp add: same_view_def)
  have col: "col_is v1 i (vv_words u1)"
    using v1(3)[rule_format, OF Cons.prems(4,5)] u1(3) by simp
  have others: "col_is v1 j us" if "j < sv_width v" "j \<noteq> i" "col_is v j us" for j us
    using v1(3) that by fastforce
  have in1: "i < sv_width v1" using Cons.prems(4) width by simp
  have prem: "\<forall>w \<in> fst ` set ws. w < length (gg_wires g) \<and> w \<notin> scratch_wires g (call_used calls cb)"
    using Cons.prems(1) by simp
  obtain v2 u2 where v2: "assign_wires c i ws v1 = Some v2" "fill_wires c ws u1 = Some u2" "fills c u2" "same_view v2 v1"
    "col_is v2 i (vv_words u2)" "\<forall>j us. j < sv_width v1 \<longrightarrow> j \<noteq> i \<longrightarrow> col_is v1 j us \<longrightarrow> col_is v2 j us"
    using Cons.IH[OF prem u1(2) ok in1 col] by blast
  have "assign_wires c i (p # ws) v = Some v2" "fill_wires c (p # ws) u = Some u2"
    using v1(1) v2(1,2) u1(1) p by (simp_all add: batch_filler_index_mut_def)
  then show ?case
    using v2(3,5,6) same_view_trans[OF v2(4) v1(2)] others width
    by (intro exI[of _ v2] exI[of _ u2]) simp
qed

definition inputs_ok :: "gate_graph \<Rightarrow> wire set \<Rightarrow> (wire \<times> u64) list \<Rightarrow> bool" where
  "inputs_ok g S ws \<longleftrightarrow> (\<forall>w \<in> fst ` set ws. w < length (gg_wires g) \<and> w \<notin> S)"

lemma fill_instances_matches:
  assumes c: "assembled opts r tree calls g cb slot n c" "length (gg_wires g) \<le> 2 ^ 26"
    and inputs: "\<forall>i. inputs_ok g (scratch_wires g (call_used calls cb)) (inputs i)"
    and u: "\<forall>i. fill_wires c (inputs i) u0 = Some (u i)" and u0: "fills c u0"
  shows "sv_ok v \<Longrightarrow> distinct is \<Longrightarrow> set is \<subseteq> {..<sv_width v} \<Longrightarrow> \<forall>i \<in> set is. col_is v i (vv_words u0) \<Longrightarrow>
    \<exists>v'. fill_instances (\<lambda>i. assign_wires c i (inputs i)) is v = Some v' \<and> same_view v' v \<and>
      (\<forall>i \<in> set is. col_is v' i (vv_words (u i))) \<and>
      (\<forall>j us. j < sv_width v \<longrightarrow> j \<notin> set is \<longrightarrow> col_is v j us \<longrightarrow> col_is v' j us)"
proof (induction "is" arbitrary: v)
  case Nil
  then show ?case by (simp add: same_view_def)
next
  case (Cons i "is")
  have ok: "\<forall>w \<in> fst ` set (inputs i). w < length (gg_wires g) \<and> w \<notin> scratch_wires g (call_used calls cb)"
    using inputs by (simp add: inputs_ok_def)
  have i: "i < sv_width v" "col_is v i (vv_words u0)" "i \<notin> set is" using Cons.prems by simp_all
  obtain v1 where v1: "assign_wires c i (inputs i) v = Some v1" "same_view v1 v" "col_is v1 i (vv_words (u i))"
    "\<forall>j us. j < sv_width v \<longrightarrow> j \<noteq> i \<longrightarrow> col_is v j us \<longrightarrow> col_is v1 j us"
    using assign_matches[OF c ok u0 Cons.prems(1) i(1,2)] u by auto
  have width: "sv_width v1 = sv_width v" by (rule same_view_width[OF v1(2)])
  have next': "sv_ok v1" "set is \<subseteq> {..<sv_width v1}" "distinct is" using v1(2) Cons.prems width by (auto simp: same_view_def)
  have "\<forall>j \<in> set is. col_is v1 j (vv_words u0)"
    using v1(4) Cons.prems(3,4) i(3) by (metis insert_subset lessThan_iff list.simps(15) list.set_intros(2) subsetD)
  from Cons.IH[OF next'(1,3,2) this] obtain v2 where
    v2: "fill_instances (\<lambda>i. assign_wires c i (inputs i)) is v1 = Some v2" "same_view v2 v1"
      "\<forall>i \<in> set is. col_is v2 i (vv_words (u i))"
      "\<forall>j us. j < sv_width v1 \<longrightarrow> j \<notin> set is \<longrightarrow> col_is v1 j us \<longrightarrow> col_is v2 j us" by blast
  have "col_is v2 j (vv_words (u j))" if "j \<in> set (i # is)" for j
    using that v2(3,4) v1(3) width i by (cases "j = i") auto
  moreover have "col_is v2 j us" if "j < sv_width v" "j \<notin> set (i # is)" "col_is v j us" for j us
    using that v1(4) v2(4) width by simp
  ultimately show ?case
    using v1(1) v2(1) same_view_trans[OF v2(2) v1(2)] by (intro exI[of _ v2]) simp
qed

section \<open>The batch and its instances\<close>

lemma assembled_program:
  assumes ready: "graph_ready r g" and c: "assembled opts r tree calls g cb slot n c"
  obtains prog where "c_eval_form c = form_of r prog"
    "\<forall>i \<in> set prog. insn_ok r (wire_to_reg (c_wire_mapping c) (c_layout c) ` {..<length (gg_wires g)}) i"
proof -
  let ?N = "length (gg_wires g)" and ?S = "scratch_wires g (call_used calls cb)" and ?reg = "wire_to_reg (c_wire_mapping c) (c_layout c)"
  have rd: "registry_ok r" "\<forall>d \<in> set (gg_gates g). gate_ready r (gg_wires g) d" "ordered r (gg_gates g)"
    "written_first r (loose_wires g) (gg_gates g)" "?N \<le> 2 ^ 26"
    using ready by (simp_all add: graph_ready_def)
  obtain asg where asg: "assigned g (call_used calls cb) slot n asg" "c_layout c = as_layout asg" "c_wire_mapping c = as_wire_mapping asg"
    by (rule assembledE[OF c])
  have a: "n \<le> 2 ^ 26" "\<forall>w s. slot w = Some s \<longrightarrow> unat s < n"
    "\<forall>i < length (gg_gates g). inj_on slot {w \<in> ?S. alive_at (gg_gates g) i w}"
    and form: "eval_form_build g (c_wire_mapping c) (c_layout c) r = Some (c_eval_form c)"
    using c by (auto simp: assembled_def call_used_def)
  have apart: "registers_apart ?reg {..<?N} ?S (gg_gates g)"
    using registers(2)[OF asg(1) rd(5) a] asg(2,3) by simp
  have inside: "\<forall>d \<in> set (gg_gates g). gate_wf r (gg_wires g) d \<and> set (wires d) \<subseteq> {..<?N}"
    using rd(2) by (auto simp: gate_ready_def gate_wf_def)
  have rc: "reads_carried r ?reg (gg_gates g) ({..<?N} - ?S)"
    by (rule apart_carried(1)[OF apart written_first_mono[OF rd(4) scratch_loose] rd(3) inside subset_refl])
  obtain prog where prog: "emit_gates r (assertion_names g) ?reg 0 (gg_gates g) bb_new = Some (append_code prog bb_new)"
    "\<forall>i \<in> set prog. insn_ok r (?reg ` (\<Union>d \<in> set (gg_gates g). set (wires d))) i"
    by (rule exE[OF graph_code[OF rd(1,2) rc, of "assertion_names g" 0 bb_new]], elim conjE) (rule that)
  have "?reg ` (\<Union>d \<in> set (gg_gates g). set (wires d)) \<subseteq> ?reg ` {..<?N}" using inside by blast
  then have "\<forall>i \<in> set prog. insn_ok r (?reg ` {..<?N}) i" using prog(2) by (auto elim!: insn_ok_mono)
  moreover have "c_eval_form c = form_of r prog"
    using form prog(1) by (simp add: eval_form_build_def append_code_new bb_finalize_def form_of_def)
  ultimately show ?thesis by (intro that)
qed

lemma column_of_col: "col_is v i (vv_words u) \<Longrightarrow> column v i = vv_word u"
  by (rule ext) (simp add: col_is_def column_def vv_word_def)

lemma zero_view_col:
  assumes "sv_without_stride (replicate (h * w) (0 :: u64)) h w = Ok v" "i < w"
  shows "col_is v i (replicate h 0)"
proof -
  have v: "v = \<lparr>sv_data = replicate (h * w) 0, sv_data_width = w, sv_height = h, sv_cols = (0, w)\<rparr>"
    using assms(1) by (simp add: sv_without_stride_def split: if_splits)
  have "row * w + i < h * w" if "row < h" for row using cell_bound[OF that assms(2)] by (simp add: mult.commute)
  then show ?thesis using assms(2) by (simp add: v col_is_def sv_index_def sv_width_def sv_position_def read_at_def)
qed

text \<open>The hidden rows of a view over whole columns, read as the columns of a table.\<close>

lemma table_of_view:
  assumes v: "sv_ok v" "sv_shape v = (h, (0, 2 ^ k), 2 ^ k)" and l: "h = lay_combined_len l + lay_n_scratch l"
    and k: "k < 64" "h * 2 ^ k < 2 ^ 64"
  shows "\<exists>data t. slice (sv_data v) (lay_offset_inout l * 2 ^ k) (lay_combined_len l * 2 ^ k) = Some data \<and>
    from_hidden_words l k data = Some t \<and> tab_wf t \<and> tab_layout t = l \<and> tab_log_instances t = k \<and>
    (\<forall>i < 2 ^ k. \<forall>row < lay_n_inout l + lay_n_private l. tab_column t i ! row = the (sv_index v (lay_n_const l + row) i))"
proof -
  let ?n = "lay_n_inout l + lay_n_private l"
  have len: "length (sv_data v) = 2 ^ k * h" using v by (simp add: sv_ok_def sv_shape_def)
  have hid: "lay_combined_len l = lay_n_const l + ?n" by (simp add: lay_defs)
  have le: "(lay_n_const l + ?n) * 2 ^ k \<le> length (sv_data v)" using l hid len by (simp add: mult.commute[of _ "2 ^ k"])
  let ?data = "take (?n * 2 ^ k) (drop (lay_n_const l * 2 ^ k) (sv_data v))"
  have sl: "slice (sv_data v) (lay_offset_inout l * 2 ^ k) (lay_combined_len l * 2 ^ k) = Some ?data"
    using le by (simp add: slice_def hid lay_offset_inout_def add_mult_distrib)
  have dl: "length ?data = ?n * 2 ^ k" using le by (simp add: add_mult_distrib)
  have small: "?n * 2 ^ k < 2 ^ 64"
  proof -
    have "?n * 2 ^ k \<le> h * 2 ^ k" using l hid by simp
    then show ?thesis using k(2) by linarith
  qed
  obtain t where t: "from_hidden_words l k ?data = Some t"
    using small k(1) dl hid by (auto simp: from_hidden_words_def usize_shl_def Let_def lay_offset_inout_def)
  have tw: "tab_wf t" "tab_layout t = l" "tab_log_instances t = k" "tab_data t = ?data"
    using from_hidden_words_wf[OF t small] by auto
  have "tab_column t i ! row = the (sv_index v (lay_n_const l + row) i)" if i: "i < 2 ^ k" and row: "row < ?n" for i row
  proof -
    have lt: "row * 2 ^ k + i < ?n * 2 ^ k" by (rule row_bound[OF row i])
    have lt2: "(lay_n_const l + row) * 2 ^ k + i < length (sv_data v)"
      using lt le by (simp add: add_mult_distrib)
    have "tab_n_hidden_words t = ?n" using tw(1,2) by (simp add: tab_wf_def)
    then have "tab_column t i ! row = ?data ! (row * 2 ^ k + i)" using row tw(3,4) by (simp add: tab_column_def)
    also have "\<dots> = sv_data v ! ((lay_n_const l + row) * 2 ^ k + i)" using lt le by (simp add: add_mult_distrib add.assoc)
    also have "\<dots> = the (sv_index v (lay_n_const l + row) i)"
      using v(2) i lt2 l hid row by (simp add: sv_index_def sv_shape_def sv_width_def sv_position_def read_at_def)
    finally show ?thesis .
  qed
  then show ?thesis using sl t tw(1-3) by blast
qed

lemma assembled_height:
  assumes "assembled opts r tree calls g cb slot n c" "length (gg_wires g) \<le> 2 ^ 26"
  shows "lay_combined_len (c_layout c) + lay_n_scratch (c_layout c) \<le> 2 ^ 28"
proof -
  obtain asg where "assigned g (call_used calls cb) slot n asg" "c_layout c = as_layout asg" by (rule assembledE[OF assms(1)])
  moreover have "n \<le> 2 ^ 26" using assms(1) by (simp add: assembled_def)
  ultimately show ?thesis using assms(2) by (simp add: assigned_def lay_defs)
qed

lemma populate_batch_spec:
  assumes ready: "graph_ready r g" and c: "assembled opts r tree calls g cb slot n c"
    and k: "k < 64" "(lay_combined_len (c_layout c) + lay_n_scratch (c_layout c)) * 2 ^ k < 2 ^ 64"
    and inputs: "\<forall>i. inputs_ok g (scratch_wires g (call_used calls cb)) (inputs i)"
  shows "\<exists>u res v. (\<forall>i. fill_wires c (inputs i) (new_witness_filler c) = Some (u i)) \<and>
    (\<forall>i < 2 ^ k. populate_wire_witness c (u i) = Some (res i, v i)) \<and>
    ((\<forall>i < 2 ^ k. res i = Ok ()) \<and>
       (\<exists>t. populate_batch c k (\<lambda>i. assign_wires c i (inputs i)) = Ok t \<and> tab_wf t \<and> tab_layout t = c_layout c \<and>
         tab_log_instances t = k \<and>
         (\<forall>i < 2 ^ k. \<forall>row < lay_n_inout (c_layout c) + lay_n_private (c_layout c).
           tab_column t i ! row = vv_words (v i) ! (lay_n_const (c_layout c) + row))) \<or>
     (\<exists>j < 2 ^ k. res j \<noteq> Ok () \<and> (\<forall>i < j. res i = Ok ()) \<and>
       populate_batch c k (\<lambda>i. assign_wires c i (inputs i)) =
         (case res j of Err e \<Rightarrow> Err \<lparr>be_instance = j, be_source = e\<rparr> | _ \<Rightarrow> Panic)))"
proof -
  let ?l = "c_layout c" and ?N = "length (gg_wires g)" and ?cs = "constants (c_constraint_system c)"
    and ?reg = "wire_to_reg (c_wire_mapping c) (c_layout c)" and ?u0 = "new_witness_filler c"
  let ?h = "lay_combined_len ?l + lay_n_scratch ?l"
  have rd: "registry_ok r" "?N \<le> 2 ^ 26" using ready by (simp_all add: graph_ready_def)
  note nc = n_constants[OF c rd(2)]
  have "\<exists>u. fill_wires c (inputs i) ?u0 = Some u \<and> fills c u" for i
    using fill_wires_fills[OF c rd(2) inputs[rule_format, of i, unfolded inputs_ok_def] fills_new] .
  then obtain u where u: "\<And>i. fill_wires c (inputs i) ?u0 = Some (u i)" "\<And>i. fills c (u i)" by metis
  have "\<exists>u1. copy_words put_constant (u i) 0 ?cs = Some u1 \<and> fills c u1 \<and>
      vv_words u1 = ?cs @ drop (lay_n_const ?l) (vv_words (u i))" for i
    by (rule fills_constants[OF u(2) nc])
  then obtain u1 where u1: "\<And>i. copy_words put_constant (u i) 0 ?cs = Some (u1 i)" "\<And>i. fills c (u1 i)"
    "\<And>i. vv_words (u1 i) = ?cs @ drop (lay_n_const ?l) (vv_words (u i))" by metis
  obtain prog where prog: "c_eval_form c = form_of r prog" "\<forall>i \<in> set prog. insn_ok r (?reg ` {..<?N}) i"
    by (rule assembled_program[OF ready c])
  obtain V0 where V0: "sv_without_stride (replicate (?h * 2 ^ k) (0 :: u64)) ?h (2 ^ k) = Ok V0" "sv_ok V0"
    "sv_shape V0 = (?h, (0, 2 ^ k), 2 ^ k)" "sv_width V0 = 2 ^ k"
    by (auto simp: sv_without_stride_def sv_ok_def sv_shape_def sv_width_def)
  have w0: "vv_words ?u0 = replicate ?h 0"
    by (simp add: new_witness_filler_def vv_new_def aw.view_zeroed)
  have col0: "\<forall>i \<in> set [0..<2 ^ k]. col_is V0 i (vv_words ?u0)"
    using zero_view_col[OF V0(1)] w0 by simp
  have idx: "distinct [0..<2 ^ k]" "set [0..<2 ^ k] \<subseteq> {..<sv_width V0}" using V0(4) by auto
  obtain V1 where V1: "fill_instances (\<lambda>i. assign_wires c i (inputs i)) [0..<2 ^ k] V0 = Some V1" "same_view V1 V0"
    "\<forall>i \<in> set [0..<2 ^ k]. col_is V1 i (vv_words (u i))"
    using fill_instances_matches[OF c rd(2) inputs allI[OF u(1)] fills_new V0(2) idx col0] by blast
  have w1: "sv_width V1 = 2 ^ k" using same_view_width[OF V1(2)] V0(4) by simp
  have h1: "0 + length ?cs \<le> sv_height V1" "sv_ok V1"
    using V1(2) V0(3) nc(1) by (simp_all add: same_view_def sv_shape_def lay_defs)
  obtain V2 where V2: "broadcast_constants 0 ?cs V1 = Some V2" "same_view V2 V1"
    "\<forall>j ws. j < sv_width V1 \<longrightarrow> col_is V1 j ws \<longrightarrow> col_is V2 j (take 0 ws @ ?cs @ drop (0 + length ?cs) ws)"
    using broadcast_constants_spec[OF h1(2,1)] by blast
  have w2: "sv_width V2 = 2 ^ k" using same_view_width[OF V2(2)] w1 by simp
  have s2: "sv_shape V2 = (?h, (0, 2 ^ k), 2 ^ k)" "sv_ok V2"
    using V0(3) same_view_trans[OF V2(2) V1(2)] by (simp_all add: sv_shape_def same_view_def)
  have col2: "column V2 i = vv_word (u1 i)" if "i < 2 ^ k" for i
  proof -
    have "col_is V1 i (vv_words (u i))" using V1(3) that by simp
    then have "col_is V2 i (vv_words (u1 i))" using V2(3)[rule_format, of i] that w1 nc(1) u1(3)[of i] by simp
    then show ?thesis by (rule column_of_col)
  qed
  have rows: "\<forall>q \<in> ?reg ` {..<?N}. unat q < sv_height V2"
    using place_reads(2,3)[OF c rd(2) u1(2)] s2(1) fills_length[OF u1(2)] by (auto simp: sv_shape_def)
  obtain res' V3 where V3: "ef_evaluate_stripe (form_of r prog) V2 0 (Some tree) = Some (res', V3)" "sv_ok V3"
    "sv_shape V3 = sv_shape V2" "\<forall>i < sv_width V2. column V3 i = fst (col_run r prog (column V2 i))"
    "(\<forall>i < sv_width V2. snd (col_run r prog (column V2 i)) = []) \<and> res' = Ok () \<or>
     (\<exists>j < sv_width V2. snd (col_run r prog (column V2 j)) \<noteq> [] \<and> (\<forall>i < j. snd (col_run r prog (column V2 i)) = []) \<and>
       res' = map_err (\<lambda>e. \<lparr>be_instance = 0 + j, be_source = e\<rparr>) (report (Some tree) (snd (col_run r prog (column V2 j)))))"
    using evaluate_stripe_spec[OF rd(1) prog(2) rows s2(2), of 0 "Some tree"] by blast
  define fs where "fs i = snd (col_run r prog (vv_word (u1 i)))" for i
  have "\<exists>v. ef_evaluate (form_of r prog) (u1 i) (Some tree) = Some (report (Some tree) (fs i), v) \<and>
      vv_word v = fst (col_run r prog (vv_word (u1 i))) \<and> aw_ok (vv_data v) \<and> vv_shape v = vv_shape (u1 i)" for i
  proof -
    have "?reg ` {..<?N} \<subseteq> dom (vv_word (u1 i))"
      using place_reads(2,3)[OF c rd(2) u1(2)] by (auto simp: vv_word_def read_at_def)
    moreover have "aw_ok (vv_data (u1 i))" using u1(2)[of i] by (simp add: fills_def vv_wf_def)
    ultimately show ?thesis unfolding fs_def by (rule evaluate_spec[OF rd(1) prog(2)])
  qed
  then obtain v where v: "\<And>i. ef_evaluate (form_of r prog) (u1 i) (Some tree) = Some (report (Some tree) (fs i), v i)"
    "\<And>i. vv_word (v i) = fst (col_run r prog (vv_word (u1 i)))" "\<And>i. aw_ok (vv_data (v i))" "\<And>i. vv_shape (v i) = vv_shape (u1 i)"
    by metis
  have fv: "fills c (v i)" for i
    using v(3,4)[of i] u1(2)[of i] by (auto simp: fills_def vv_wf_def vv_shape_def vv_size_def)
  have tree: "c_path_tree c = tree" using c by (simp add: assembled_def)
  have pop: "populate_wire_witness c (u i) = Some (report (Some tree) (fs i), v i)" for i
    using u1(1)[of i] v(1)[of i] prog(1) tree by (simp add: populate_wire_witness_def)
  have batched: "populate_wire_witness_batched c V1 = Some (res', V3)"
    using V2(1) V3(1) prog(1) tree by (simp add: populate_wire_witness_batched_def ef_evaluate_batched_def)
  have shl: "usize_shl 1 k = Some (2 ^ k)" "usize_shl ?h k = Some (?h * 2 ^ k)"
    "usize_shl (lay_offset_inout ?l) k = Some (lay_offset_inout ?l * 2 ^ k)"
    "usize_shl (lay_combined_len ?l) k = Some (lay_combined_len ?l * 2 ^ k)"
  proof -
    have "(2 :: nat) ^ k < 2 ^ 64" using k(1) by (intro power_strict_increasing) auto
    moreover have "lay_offset_inout ?l * 2 ^ k < 2 ^ 64" "lay_combined_len ?l * 2 ^ k < 2 ^ 64"
      by (rule le_less_trans[OF _ k(2)], simp add: lay_defs)+
    ultimately show "usize_shl 1 k = Some (2 ^ k)" "usize_shl ?h k = Some (?h * 2 ^ k)"
      "usize_shl (lay_offset_inout ?l) k = Some (lay_offset_inout ?l * 2 ^ k)"
      "usize_shl (lay_combined_len ?l) k = Some (lay_combined_len ?l * 2 ^ k)"
      using k by (simp_all add: usize_shl_def)
  qed
  obtain data t where t: "slice (sv_data V3) (lay_offset_inout ?l * 2 ^ k) (lay_combined_len ?l * 2 ^ k) = Some data"
    "from_hidden_words ?l k data = Some t" "tab_wf t" "tab_layout t = ?l" "tab_log_instances t = k"
    "\<forall>i < 2 ^ k. \<forall>row < lay_n_inout ?l + lay_n_private ?l. tab_column t i ! row = the (sv_index V3 (lay_n_const ?l + row) i)"
    using table_of_view[OF V3(2) _ refl k] V3(3) s2(1) by auto
  have run: "populate_batch c k (\<lambda>i. assign_wires c i (inputs i)) = and_then res' (\<lambda>_. Ok t)"
    using shl V0(1) V1(1) batched t(1,2)
    by (simp add: populate_batch_def populate_batch_with_def Let_def ZERO_def mult.commute)
  have words: "tab_column t i ! row = vv_words (v i) ! (lay_n_const ?l + row)"
    if i: "i < 2 ^ k" and row: "row < lay_n_inout ?l + lay_n_private ?l" for i row
  proof -
    define p where "p = lay_n_const ?l + row"
    have p: "p < length (vv_words (v i))" using row p_def fills_length[OF fv[of i]] by (simp add: lay_defs)
    have "p < 2 ^ 32" using row p_def assembled_height[OF c rd(2)] by (simp add: lay_defs)
    then have q: "unat (word_of_nat p :: u32) = p" by (simp add: unsigned_of_nat take_bit_nat_eq_self)
    have "column V3 i = vv_word (v i)" using V3(4) i w2 col2[OF i] v(2)[of i] by simp
    then have "column V3 i (word_of_nat p) = Some (vv_words (v i) ! p)" using p q by (simp add: vv_word_def read_at_def)
    then have "sv_index V3 p i = Some (vv_words (v i) ! p)" using q by (simp add: column_def)
    then show ?thesis using t(6) i row p_def by simp
  qed
  have fail: "and_then (map_err (\<lambda>e. \<lparr>be_instance = j, be_source = e\<rparr>) x) (\<lambda>_. Ok t) =
      (case x of Err e \<Rightarrow> Err \<lparr>be_instance = j, be_source = e\<rparr> | _ \<Rightarrow> Panic)" if "x \<noteq> Ok ()" for x j
    using that by (cases x) auto
  have fs2: "snd (col_run r prog (column V2 i)) = fs i" if "i < 2 ^ k" for i using col2[OF that] by (simp add: fs_def)
  have "(\<forall>i < 2 ^ k. fs i = []) \<and> res' = Ok () \<or> (\<exists>j < 2 ^ k. fs j \<noteq> [] \<and> (\<forall>i < j. fs i = []) \<and>
      res' = map_err (\<lambda>e. \<lparr>be_instance = j, be_source = e\<rparr>) (report (Some tree) (fs j)))"
    using V3(5) unfolding w2 by (elim disjE exE conjE) (use fs2 in \<open>auto intro!: exI\<close>)
  then have "(\<forall>i < 2 ^ k. report (Some tree) (fs i) = Ok ()) \<and> populate_batch c k (\<lambda>i. assign_wires c i (inputs i)) = Ok t \<or>
     (\<exists>j < 2 ^ k. report (Some tree) (fs j) \<noteq> Ok () \<and> (\<forall>i < j. report (Some tree) (fs i) = Ok ()) \<and>
       populate_batch c k (\<lambda>i. assign_wires c i (inputs i)) =
         (case report (Some tree) (fs j) of Err e \<Rightarrow> Err \<lparr>be_instance = j, be_source = e\<rparr> | _ \<Rightarrow> Panic))"
    unfolding run using fail by (auto simp: report_eq_Ok)
  then show ?thesis
    using u(1) pop t(3-5) words
    by (intro exI[of _ u] exI[of _ "\<lambda>i. report (Some tree) (fs i)"] exI[of _ v]) blast
qed

section \<open>Property\<close>

text \<open>C17: Filling a batch is filling its instances.  For a circuit assembled from a ready graph and a
  caller that assigns committed wires, \<open>populate_batch\<close> returns a table exactly when every instance
  fills on its own, each column of the table being the committed words of the vector that instance
  is filled to; otherwise it names the least failing instance with the error that instance reports.\<close>

theorem populate_batch_matches:
  assumes "graph_ready r g" "sum_list (map gate_room (gg_gates g)) < 2 ^ 32"
    "constrain_gates r dead live 0 (gg_gates g) cb_new = Some cb" "assemble opts r tree calls g cb = Some c"
    and "k < 64" "(lay_combined_len (c_layout c) + lay_n_scratch (c_layout c)) * 2 ^ k < 2 ^ 64"
    and "\<forall>i. inputs_ok g (scratch_wires g (call_used calls cb)) (inputs i)"
  shows "\<exists>u res v. (\<forall>i. fill_wires c (inputs i) (new_witness_filler c) = Some (u i)) \<and>
    (\<forall>i < 2 ^ k. populate_wire_witness c (u i) = Some (res i, v i)) \<and>
    ((\<forall>i < 2 ^ k. res i = Ok ()) \<and>
       (\<exists>t. populate_batch c k (\<lambda>i. assign_wires c i (inputs i)) = Ok t \<and> tab_wf t \<and> tab_layout t = c_layout c \<and>
         tab_log_instances t = k \<and>
         (\<forall>i < 2 ^ k. \<forall>row < lay_n_inout (c_layout c) + lay_n_private (c_layout c).
           tab_column t i ! row = vv_words (v i) ! (lay_n_const (c_layout c) + row))) \<or>
     (\<exists>j < 2 ^ k. res j \<noteq> Ok () \<and> (\<forall>i < j. res i = Ok ()) \<and>
       populate_batch c k (\<lambda>i. assign_wires c i (inputs i)) =
         (case res j of Err e \<Rightarrow> Err \<lparr>be_instance = j, be_source = e\<rparr> | _ \<Rightarrow> Panic)))"
proof -
  obtain slot n where "assembled opts r tree calls g cb slot n c" by (rule assembled_of[OF assms(1-4)])
  from populate_batch_spec[OF assms(1) this assms(5-7)] show ?thesis .
qed

lemma populate_batch_matches_witness:
  "\<exists>cb c t. constrain_gates Map.empty None None 0 (gg_gates sample_check) cb_new = Some cb \<and>
    assemble default_options Map.empty tree_new [] sample_check cb = Some c \<and>
    populate_batch c 1 (\<lambda>i. assign_wires c i []) = Ok t \<and> tab_wf t \<and> tab_log_instances t = 1"
proof -
  let ?g = sample_check and ?r = "Map.empty :: hint_registry"
  obtain cb where cb: "constrain_gates ?r None None 0 (gg_gates ?g) cb_new = Some cb" "cb_wf cb" "cb_in (seen_wires ?r ?g) cb"
    using constrain_ready[OF sample_check_ready sample_check_room, of None None] by blast
  have "cb_in {..<length (gg_wires ?g)} cb" using cb(3) by (auto simp: cb_in_def term_in_def seen_wires_def)
  from assemble_spec[OF sample_check_ready cb(2) this, of default_options tree_new "[]"] obtain c slot n where
    c: "assemble default_options ?r tree_new [] ?g cb = Some c" "assembled default_options ?r tree_new [] ?g cb slot n c" by blast
  have N: "length (gg_wires ?g) \<le> 2 ^ 26" by (simp add: sample_check_def)
  have h: "(lay_combined_len (c_layout c) + lay_n_scratch (c_layout c)) * 2 ^ 1 < 2 ^ 64"
    using assembled_height[OF c(2) N] by simp
  have empty: "\<forall>i. inputs_ok ?g (scratch_wires ?g (call_used [] cb)) []" by (simp add: inputs_ok_def)
  have ok: "res = Ok ()" if "populate_wire_witness c (new_witness_filler c) = Some (res, v)" for res v
  proof -
    have "cb_used cb \<subseteq> {..<length (gg_wires ?g)} - temps_of ?r (gg_gates ?g)"
      using cb_used_in[OF cb(3)] by (simp add: seen_wires_def)
    note ps = populate_spec[OF sample_check_ready c(2) fills_new this]
    obtain v' \<tau> where "populate_wire_witness c (new_witness_filler c) =
        Some (report (Some tree_new) (graph_fails ?r (assertion_names ?g) 0 (gg_gates ?g) \<tau>), v')"
      "\<forall>d \<in> set (gg_gates ?g). \<forall>p. get_gate_param ?r d = Some p \<longrightarrow> gate_done ?r d p \<tau>"
      "\<forall>w < length (gg_wires ?g). unwritten ?r ?g w \<longrightarrow> \<not> is_const (gg_wires ?g ! w) \<longrightarrow>
        vv_get (new_witness_filler c) (witness_index c w) = Some (\<tau> w)"
      using ps by (elim exE conjE) (rule that)
    then show ?thesis using sample_check_quiet(2)[of \<tau> c] that by (simp add: report_def)
  qed
  note pb = populate_batch_matches[OF sample_check_ready sample_check_room cb(1) c(1) _ h empty]
  obtain u :: "nat \<Rightarrow> value_vec" and res v where f: "\<forall>i. fill_wires c [] (new_witness_filler c) = Some (u i)"
    "\<forall>i < 2 ^ 1. populate_wire_witness c (u i) = Some (res i, v i)"
    and d: "(\<forall>i < 2 ^ 1. res i = Ok ()) \<and> (\<exists>t. populate_batch c 1 (\<lambda>i. assign_wires c i []) = Ok t \<and> tab_wf t \<and>
        tab_layout t = c_layout c \<and> tab_log_instances t = 1 \<and>
         (\<forall>i < 2 ^ 1. \<forall>row < lay_n_inout (c_layout c) + lay_n_private (c_layout c).
           tab_column t i ! row = vv_words (v i) ! (lay_n_const (c_layout c) + row))) \<or>
      (\<exists>j < 2 ^ 1. res j \<noteq> Ok () \<and> (\<forall>i < j. res i = Ok ()) \<and> populate_batch c 1 (\<lambda>i. assign_wires c i []) =
         (case res j of Err e \<Rightarrow> Err \<lparr>be_instance = j, be_source = e\<rparr> | _ \<Rightarrow> Panic))"
    by (rule exE[OF pb], simp, elim exE conjE) (rule that)
  have "res j = Ok ()" if "j < 2 ^ 1" for j
  proof -
    have "u j = new_witness_filler c" using f(1) by simp
    then show ?thesis using f(2) that ok by metis
  qed
  then obtain t where "populate_batch c 1 (\<lambda>i. assign_wires c i []) = Ok t" "tab_wf t" "tab_log_instances t = 1"
    using d by blast
  then show ?thesis using cb(1) c(1) by blast
qed

end
