(* ===== verification/Rewire.thy ===== *)
theory Rewire
  imports Assembled Use_Def
begin

text \<open>
  Moving the readers of a wire to another wire (\<open>ir/mod.rs\<close>), and when a graph whose gates read other
  wires still means the same: each gate's new inputs hold, under every valuation the gates before it
  allow, the words its old inputs held.  \<open>None\<close> is a panic.
\<close>

section \<open>Definitions\<close>

definition rename_gate :: "(wire \<Rightarrow> wire) \<Rightarrow> gate_data \<Rightarrow> gate_data" where
  "rename_gate f d = d\<lparr>wires := map f (wires d)\<rparr>"

definition swap_wire :: "wire \<Rightarrow> wire \<Rightarrow> wire \<Rightarrow> wire" where
  "swap_wire old new w = (if w = old then new else w)"

definition replace_gate_wire :: "gate \<Rightarrow> wire \<Rightarrow> wire \<Rightarrow> gate_graph \<Rightarrow> (nat \<times> gate_graph) option" where
  "replace_gate_wire gate old new g =
    map_option (\<lambda>d. (length (filter (\<lambda>w. w = old) (wires d)),
        g\<lparr>gg_gates := (gg_gates g)[gate := rename_gate (swap_wire old new) d]\<rparr>))
      (read_at (gg_gates g) gate)"

record wire_replacement =
  n_slots_rewritten :: nat
  affected_gates :: "gate list"

fun replace_in :: "gate list \<Rightarrow> wire \<Rightarrow> wire \<Rightarrow> gate_graph \<Rightarrow> (nat \<times> gate_graph) option" where
  "replace_in [] old new g = Some (0, g)"
| "replace_in (gate # gates) old new g = do {
    (n, g) \<leftarrow> replace_gate_wire gate old new g;
    (m, g) \<leftarrow> replace_in gates old new g;
    Some (n + m, g)
  }"

definition replace_wire_with_wire :: "wire \<Rightarrow> wire \<Rightarrow> gate_graph \<Rightarrow> (wire_replacement \<times> gate_graph) option" where
  "replace_wire_with_wire old new g =
    (if new = old then Some (\<lparr>n_slots_rewritten = 0, affected_gates = []\<rparr>, g)
     else do {
       affected \<leftarrow> get_wire_uses g old;
       (n, g) \<leftarrow> replace_in affected old new g;
       Some (\<lparr>n_slots_rewritten = n, affected_gates = affected\<rparr>, g)
     })"

definition replace_wire_with_constant :: "wire \<Rightarrow> u64 \<Rightarrow> gate_graph \<Rightarrow> (wire_replacement \<times> gate_graph) option" where
  "replace_wire_with_constant old value g =
    (let (const_wire, g) = add_constant value g in replace_wire_with_wire old const_wire g)"

section \<open>Gates that differ in what they read\<close>

definition rename_param :: "(wire \<Rightarrow> wire) \<Rightarrow> gate_param \<Rightarrow> gate_param" where
  "rename_param f p = \<lparr>p_constants = map f (p_constants p), p_inputs = map f (p_inputs p),
    p_outputs = map f (p_outputs p), p_aux = map f (p_aux p), p_scratch = map f (p_scratch p), p_imm = p_imm p\<rparr>"

lemma slice_map: "slice (map f xs) a b = map_option (map f) (slice xs a b)"
  by (simp add: slice_def take_map drop_map)

lemma rename_gate_simps [simp]:
  "body (rename_gate f d) = body d" "immediates (rename_gate f d) = immediates d"
  "dimensions (rename_gate f d) = dimensions d" "wires (rename_gate f d) = map f (wires d)"
  by (simp_all add: rename_gate_def)

lemma rename_gate_shape [simp]: "gate_shape r (rename_gate f d) = gate_shape r d"
  by (cases "body d") (simp_all add: gate_shape_def)

lemma rename_gate_param: "get_gate_param r (rename_gate f d) = map_option (rename_param f) (get_gate_param r d)"
proof -
  have "gate_param_for_shape (rename_gate f d) s = map_option (rename_param f) (gate_param_for_shape d s)" for s
    by (auto simp: gate_param_for_shape_def Let_def slice_map rename_param_def bind_eq_Some_conv
        split: Option.bind_split option.splits)
  then show ?thesis by (cases "gate_shape r d") (simp_all add: get_gate_param_def)
qed

text \<open>\<open>same_gate r d d' p p'\<close>: the gates do the same to the same wires, except for what they read.\<close>

definition same_gate :: "hint_registry \<Rightarrow> gate_data \<Rightarrow> gate_data \<Rightarrow> gate_param \<Rightarrow> gate_param \<Rightarrow> bool" where
  "same_gate r d d' p p' \<longleftrightarrow> get_gate_param r d = Some p \<and> get_gate_param r d' = Some p' \<and> body d' = body d \<and>
    immediates d' = immediates d \<and> dimensions d' = dimensions d \<and> length (wires d') = length (wires d) \<and>
    length (p_inputs p') = length (p_inputs p) \<and> p' = p\<lparr>p_inputs := p_inputs p'\<rparr>"

lemma same_gate_renamed:
  assumes "get_gate_param r d = Some p" "\<forall>w \<in> set (p_constants p @ gate_writes p). f w = w"
  shows "same_gate r d (rename_gate f d) p (p\<lparr>p_inputs := map f (p_inputs p)\<rparr>)"
proof -
  have "rename_param f p = p\<lparr>p_inputs := map f (p_inputs p)\<rparr>"
    using assms(2) by (cases p) (auto simp: rename_param_def gate_writes_def map_idI)
  then show ?thesis using assms(1) by (simp add: same_gate_def rename_gate_param)
qed

lemma same_gate_fields:
  assumes "same_gate r d d' p p'"
  shows "p_constants p' = p_constants p" "p_outputs p' = p_outputs p" "p_aux p' = p_aux p" "p_scratch p' = p_scratch p"
    "p_imm p' = p_imm p" "gate_writes p' = gate_writes p" "gate_results d' p' = gate_results d p"
    "gate_shape r d' = gate_shape r d" "gate_value r d' = gate_value r d"
proof -
  have p': "p' = p\<lparr>p_inputs := p_inputs p'\<rparr>" and d': "body d' = body d" "immediates d' = immediates d" "dimensions d' = dimensions d"
    using assms by (simp_all add: same_gate_def)
  show c: "p_constants p' = p_constants p" "p_outputs p' = p_outputs p" "p_aux p' = p_aux p" "p_scratch p' = p_scratch p"
    "p_imm p' = p_imm p"
    by (subst p', simp)+
  show "gate_writes p' = gate_writes p" "gate_results d' p' = gate_results d p"
    "gate_shape r d' = gate_shape r d" "gate_value r d' = gate_value r d"
    using c d' by (auto simp: gate_writes_def gate_results_def gate_shape_def gate_value_def fun_eq_iff
        split: gate_body.splits)
qed

lemma same_gate_trans:
  assumes "same_gate r d d' p p'" "same_gate r d' d'' p' p''"
  shows "same_gate r d d'' p p''"
  using assms same_gate_fields[OF assms(1)] same_gate_fields[OF assms(2)]
  unfolding same_gate_def by (auto intro!: gate_param.equality)

section \<open>Meanings of a gate\<close>

text \<open>What a run makes of a gate, what the constraints make of it, and what both make of an operation:
  its outputs are its value.\<close>

definition gate_run :: "hint_registry \<Rightarrow> gate_data \<Rightarrow> (wire \<Rightarrow> u64) \<Rightarrow> bool" where
  "gate_run r d \<sigma> \<longleftrightarrow> (\<exists>p. get_gate_param r d = Some p \<and> gate_done r d p \<sigma>)"

definition op_done :: "hint_registry \<Rightarrow> gate_data \<Rightarrow> (wire \<Rightarrow> u64) \<Rightarrow> bool" where
  "op_done r d \<sigma> \<longleftrightarrow> (case body d of Op _ \<Rightarrow> gate_run r d \<sigma> | HintCall _ \<Rightarrow> True)"

lemma run_op_done: "gate_run r d \<sigma> \<Longrightarrow> op_done r d \<sigma>"
  by (simp add: op_done_def split: gate_body.splits)

lemma get_param_imm: "get_gate_param r d = Some p \<Longrightarrow> p_imm p = immediates d"
  by (auto simp: get_gate_param_def gate_param_for_shape_def Let_def bind_eq_Some_conv)

lemma sat_op_done: "gate_sat r d \<sigma> \<Longrightarrow> op_done r d \<sigma>"
  using get_param_imm[of r d]
  by (auto simp: gate_sat_def op_done_def gate_run_def gate_holds_def gate_done_def gate_value_def zero_tests_def
      split: gate_body.splits option.splits)

text \<open>A meaning that sees the wires a gate reads only through the words they hold.\<close>

definition by_words :: "hint_registry \<Rightarrow> (gate_data \<Rightarrow> (wire \<Rightarrow> u64) \<Rightarrow> bool) \<Rightarrow> bool" where
  "by_words r M \<longleftrightarrow> (\<forall>d d' p p' \<sigma>. same_gate r d d' p p' \<longrightarrow> map \<sigma> (p_inputs p') = map \<sigma> (p_inputs p) \<longrightarrow> M d' \<sigma> = M d \<sigma>)"

lemma by_words_run: "by_words r (gate_run r)"
  unfolding by_words_def
proof (intro allI impI)
  fix d d' p p' and \<sigma> :: "wire \<Rightarrow> u64" assume s: "same_gate r d d' p p'" and e: "map \<sigma> (p_inputs p') = map \<sigma> (p_inputs p)"
  note f = same_gate_fields[OF s]
  have "body d' = body d" "get_gate_param r d' = Some p'" "get_gate_param r d = Some p" using s by (simp_all add: same_gate_def)
  then show "gate_run r d' \<sigma> = gate_run r d \<sigma>" by (simp add: gate_run_def gate_done_def f e)
qed

lemma by_words_op: "by_words r (op_done r)"
  unfolding by_words_def
proof (intro allI impI)
  fix d d' p p' and \<sigma> :: "wire \<Rightarrow> u64" assume s: "same_gate r d d' p p'" and e: "map \<sigma> (p_inputs p') = map \<sigma> (p_inputs p)"
  have "gate_run r d' \<sigma> = gate_run r d \<sigma>" using by_words_run[of r] s e unfolding by_words_def by blast
  moreover have "body d' = body d" using s by (simp add: same_gate_def)
  ultimately show "op_done r d' \<sigma> = op_done r d \<sigma>" by (simp add: op_done_def split: gate_body.splits)
qed

lemma by_words_sat: "by_words r (gate_sat r)"
  unfolding by_words_def
proof (intro allI impI)
  fix d d' p p' and \<sigma> :: "wire \<Rightarrow> u64" assume s: "same_gate r d d' p p'" and e: "map \<sigma> (p_inputs p') = map \<sigma> (p_inputs p)"
  note f = same_gate_fields[OF s]
  have "body d' = body d" "get_gate_param r d' = Some p'" "get_gate_param r d = Some p" using s by (simp_all add: same_gate_def)
  then show "gate_sat r d' \<sigma> = gate_sat r d \<sigma>" by (simp add: gate_sat_def gate_holds_def f e split: gate_body.splits)
qed

section \<open>Gate lists that agree\<close>

definition agree :: "hint_registry \<Rightarrow> (gate_data \<Rightarrow> (wire \<Rightarrow> u64) \<Rightarrow> bool) \<Rightarrow> wire_kind list \<Rightarrow>
    gate_data list \<Rightarrow> gate_data list \<Rightarrow> bool" where
  "agree r W ks ds ds' \<longleftrightarrow> length ds' = length ds \<and>
    (\<forall>i < length ds. \<exists>p p'. same_gate r (ds ! i) (ds' ! i) p p' \<and>
      (\<forall>\<sigma>. consts_hold ks \<sigma> \<longrightarrow> (\<forall>j < i. W (ds ! j) \<sigma>) \<longrightarrow> map \<sigma> (p_inputs p') = map \<sigma> (p_inputs p)))"

lemma agreeD:
  assumes "agree r W ks ds ds'" "i < length ds"
  obtains p p' where "same_gate r (ds ! i) (ds' ! i) p p'"
    "\<And>\<sigma>. consts_hold ks \<sigma> \<Longrightarrow> \<forall>j < i. W (ds ! j) \<sigma> \<Longrightarrow> map \<sigma> (p_inputs p') = map \<sigma> (p_inputs p)"
  using assms by (auto simp: agree_def)

lemma agree_prefix:
  assumes "agree r W ks ds ds'" "by_words r M" "\<And>d. M d \<sigma> \<Longrightarrow> W d \<sigma>" "consts_hold ks \<sigma>" "n \<le> length ds"
  shows "(\<forall>j < n. M (ds' ! j) \<sigma>) \<longleftrightarrow> (\<forall>j < n. M (ds ! j) \<sigma>)"
  using assms(5)
proof (induction n)
  case (Suc n)
  then have n: "n < length ds" and IH: "(\<forall>j < n. M (ds' ! j) \<sigma>) \<longleftrightarrow> (\<forall>j < n. M (ds ! j) \<sigma>)" by simp_all
  obtain p p' where p: "same_gate r (ds ! n) (ds' ! n) p p'"
    "\<And>\<sigma>. consts_hold ks \<sigma> \<Longrightarrow> \<forall>j < n. W (ds ! j) \<sigma> \<Longrightarrow> map \<sigma> (p_inputs p') = map \<sigma> (p_inputs p)"
    by (rule agreeD[OF assms(1) n]) blast
  have "M (ds' ! n) \<sigma> = M (ds ! n) \<sigma>" if "\<forall>j < n. M (ds ! j) \<sigma>"
    using assms(2)[unfolded by_words_def] p(1) p(2)[OF assms(4)] that assms(3) by blast
  then show ?case using IH by (auto simp: less_Suc_eq)
qed simp

lemma agree_all:
  assumes "agree r W ks ds ds'" "by_words r M" "\<And>d. M d \<sigma> \<Longrightarrow> W d \<sigma>" "consts_hold ks \<sigma>"
  shows "(\<forall>d \<in> set ds'. M d \<sigma>) \<longleftrightarrow> (\<forall>d \<in> set ds. M d \<sigma>)"
  using agree_prefix[OF assms(1-4) le_refl] assms(1)
  by (auto simp: agree_def all_set_conv_all_nth)

text \<open>Under a run of either list, the gates fail alike.\<close>

lemma agree_fails:
  assumes "agree r (gate_run r) ks ds ds'" "consts_hold ks \<tau>" "\<forall>d \<in> set ds. gate_run r d \<tau>" "i < length ds"
    "get_gate_param r (ds ! i) = Some p" "get_gate_param r (ds' ! i) = Some p'"
  shows "gate_fails r (ds' ! i) p' \<tau> = gate_fails r (ds ! i) p \<tau>"
proof -
  obtain q q' where q: "same_gate r (ds ! i) (ds' ! i) q q'"
    "\<And>\<sigma>. consts_hold ks \<sigma> \<Longrightarrow> \<forall>j < i. gate_run r (ds ! j) \<sigma> \<Longrightarrow> map \<sigma> (p_inputs q') = map \<sigma> (p_inputs q)"
    by (rule agreeD[OF assms(1,4)]) blast
  then have "q = p" "q' = p'" using assms(5,6) by (auto simp: same_gate_def)
  moreover have "map \<tau> (p_inputs q') = map \<tau> (p_inputs q)" using q(2)[OF assms(2)] assms(3,4) by simp
  ultimately show ?thesis using same_gate_fields(9)[OF q(1)] by (simp add: gate_fails_def)
qed

lemma agree_refl: "\<forall>d \<in> set ds. get_gate_param r d \<noteq> None \<Longrightarrow> agree r W ks ds ds"
  by (fastforce simp: agree_def same_gate_def)

lemma consts_hold_append: "consts_hold (ks @ ks') \<sigma> \<Longrightarrow> consts_hold ks \<sigma>"
  unfolding consts_hold_def by (metis length_append nth_append trans_less_add1)

lemma agree_grown: "agree r W ks ds ds' \<Longrightarrow> agree r W (ks @ ks') ds ds'"
  unfolding agree_def using consts_hold_append by blast

lemma agree_trans:
  assumes a: "agree r W ks ds ds'" and b: "agree r W ks ds' ds''" and W: "by_words r W"
  shows "agree r W ks ds ds''"
  unfolding agree_def
proof (intro conjI allI impI)
  show "length ds'' = length ds" using a b by (simp add: agree_def)
  fix i assume i: "i < length ds"
  obtain p p' where p: "same_gate r (ds ! i) (ds' ! i) p p'"
    "\<And>\<sigma>. consts_hold ks \<sigma> \<Longrightarrow> \<forall>j < i. W (ds ! j) \<sigma> \<Longrightarrow> map \<sigma> (p_inputs p') = map \<sigma> (p_inputs p)"
    by (rule agreeD[OF a i]) blast
  have i': "i < length ds'" using a i by (simp add: agree_def)
  obtain q p'' where q: "same_gate r (ds' ! i) (ds'' ! i) q p''"
    "\<And>\<sigma>. consts_hold ks \<sigma> \<Longrightarrow> \<forall>j < i. W (ds' ! j) \<sigma> \<Longrightarrow> map \<sigma> (p_inputs p'') = map \<sigma> (p_inputs q)"
    by (rule agreeD[OF b i']) blast
  have [simp]: "q = p'" using p(1) q(1) by (simp add: same_gate_def)
  have "map \<sigma> (p_inputs p'') = map \<sigma> (p_inputs p)" if "consts_hold ks \<sigma>" "\<forall>j < i. W (ds ! j) \<sigma>" for \<sigma>
    using p(2)[OF that] q(2)[OF that(1)] agree_prefix[OF a W _ that(1), of i] that(2) i by simp
  then show "\<exists>p p''. same_gate r (ds ! i) (ds'' ! i) p p'' \<and>
      (\<forall>\<sigma>. consts_hold ks \<sigma> \<longrightarrow> (\<forall>j < i. W (ds ! j) \<sigma>) \<longrightarrow> map \<sigma> (p_inputs p'') = map \<sigma> (p_inputs p))"
    using same_gate_trans[OF p(1)] q(1) by (intro exI[of _ p] exI[of _ p'']) simp
qed

section \<open>Graphs the passes work on\<close>

text \<open>A wire a gate may read: it exists, and if anything computes it, an earlier gate's output does.\<close>

definition available :: "hint_registry \<Rightarrow> wire_kind list \<Rightarrow> gate_data list \<Rightarrow> nat \<Rightarrow> wire \<Rightarrow> bool" where
  "available r ks ds i w \<longleftrightarrow> w < length ks \<and>
    (loose_kind (ks ! w) \<longrightarrow> (\<exists>j < i. \<exists>p. j < length ds \<and> get_gate_param r (ds ! j) = Some p \<and> w \<in> set (p_outputs p))) \<and>
    (\<forall>j < length ds. \<forall>p. get_gate_param r (ds ! j) = Some p \<longrightarrow> w \<in> set (gate_writes p) \<longrightarrow> j < i \<and> w \<in> set (p_outputs p))"

definition aux_private :: "hint_registry \<Rightarrow> gate_data list \<Rightarrow> bool" where
  "aux_private r ds \<longleftrightarrow> (\<forall>d \<in> set ds. \<forall>e \<in> set ds. \<forall>p q. get_gate_param r d = Some p \<longrightarrow> get_gate_param r e = Some q \<longrightarrow>
    set (p_aux p @ p_scratch p) \<inter> set (gate_uses q) = {})"

lemma aux_privateD:
  "aux_private r ds \<Longrightarrow> d \<in> set ds \<Longrightarrow> e \<in> set ds \<Longrightarrow> get_gate_param r d = Some p \<Longrightarrow> get_gate_param r e = Some q \<Longrightarrow>
    set (p_aux p @ p_scratch p) \<inter> set (gate_uses q) = {}"
  by (simp add: aux_private_def)

definition optimisable :: "hint_registry \<Rightarrow> gate_graph \<Rightarrow> bool" where
  "optimisable r g \<longleftrightarrow> graph_ready r g \<and> graph_wf r g \<and> aux_private r (gg_gates g)"

lemma ordered_at:
  assumes "ordered r ds" "i < length ds" "get_gate_param r (ds ! i) = Some p"
  shows "distinct (gate_writes p)" "set (gate_uses p) \<inter> set (gate_writes p) = {}"
    "\<And>j q. i < j \<Longrightarrow> j < length ds \<Longrightarrow> get_gate_param r (ds ! j) = Some q \<Longrightarrow>
      set (gate_writes q) \<inter> set (gate_writes p @ gate_uses p) = {} \<and> set (gate_uses q) \<inter> gate_temps (ds ! i) p = {}"
proof -
  obtain q where q: "get_gate_param r (ds ! i) = Some q" "distinct (gate_writes q)" "set (gate_uses q) \<inter> set (gate_writes q) = {}"
    "\<And>e s. e \<in> set (drop (Suc i) ds) \<Longrightarrow> get_gate_param r e = Some s \<Longrightarrow>
      set (gate_writes s) \<inter> set (gate_writes q @ gate_uses q) = {} \<and> set (gate_uses s) \<inter> gate_temps (ds ! i) q = {}"
    by (rule ordered_nth[OF assms(1,2)]) blast
  have [simp]: "q = p" using q(1) assms(3) by simp
  show "distinct (gate_writes p)" "set (gate_uses p) \<inter> set (gate_writes p) = {}" using q(2,3) by simp_all
  fix j s assume "i < j" "j < length ds" "get_gate_param r (ds ! j) = Some s"
  moreover from this(1,2) have "ds ! j \<in> set (drop (Suc i) ds)"
    by (auto simp: in_set_conv_nth intro!: exI[of _ "j - Suc i"])
  ultimately show "set (gate_writes s) \<inter> set (gate_writes p @ gate_uses p) = {} \<and> set (gate_uses s) \<inter> gate_temps (ds ! i) p = {}"
    using q(4) by simp
qed

lemma ordered_by:
  assumes "\<And>i. i < length ds \<Longrightarrow> \<exists>p. get_gate_param r (ds ! i) = Some p \<and> distinct (gate_writes p) \<and>
      set (gate_uses p) \<inter> set (gate_writes p) = {} \<and> (\<forall>j q. i < j \<longrightarrow> j < length ds \<longrightarrow> get_gate_param r (ds ! j) = Some q \<longrightarrow>
      set (gate_writes q) \<inter> set (gate_writes p @ gate_uses p) = {} \<and> set (gate_uses q) \<inter> gate_temps (ds ! i) p = {})"
  shows "ordered r ds"
  using assms
proof (induction ds)
  case (Cons d ds)
  have "ordered r ds"
  proof (rule Cons.IH)
    fix i assume i: "i < length ds"
    have shift: "(\<forall>j q. i < j \<longrightarrow> j < length ds \<longrightarrow> get_gate_param r (ds ! j) = Some q \<longrightarrow> P q)"
      if "\<forall>j q. Suc i < j \<longrightarrow> j < length (d # ds) \<longrightarrow> get_gate_param r ((d # ds) ! j) = Some q \<longrightarrow> P q" for P
    proof (intro allI impI)
      fix j q assume "i < j" "j < length ds" "get_gate_param r (ds ! j) = Some q"
      with that[rule_format, of "Suc j" q] show "P q" by simp
    qed
    have "Suc i < length (d # ds)" using i by simp
    from Cons.prems[OF this] obtain p where p: "get_gate_param r ((d # ds) ! Suc i) = Some p" "distinct (gate_writes p)"
      "set (gate_uses p) \<inter> set (gate_writes p) = {}" and "\<forall>j q. Suc i < j \<longrightarrow> j < length (d # ds) \<longrightarrow>
        get_gate_param r ((d # ds) ! j) = Some q \<longrightarrow> set (gate_writes q) \<inter> set (gate_writes p @ gate_uses p) = {} \<and>
        set (gate_uses q) \<inter> gate_temps ((d # ds) ! Suc i) p = {}"
      by blast
    from shift[OF this(4)] p show "\<exists>p. get_gate_param r (ds ! i) = Some p \<and> distinct (gate_writes p) \<and>
      set (gate_uses p) \<inter> set (gate_writes p) = {} \<and> (\<forall>j q. i < j \<longrightarrow> j < length ds \<longrightarrow> get_gate_param r (ds ! j) = Some q \<longrightarrow>
      set (gate_writes q) \<inter> set (gate_writes p @ gate_uses p) = {} \<and> set (gate_uses q) \<inter> gate_temps (ds ! i) p = {})"
      by simp
  qed
  moreover obtain p where p: "get_gate_param r d = Some p" "distinct (gate_writes p)" "set (gate_uses p) \<inter> set (gate_writes p) = {}"
    "\<And>j q. 0 < j \<Longrightarrow> j < length (d # ds) \<Longrightarrow> get_gate_param r ((d # ds) ! j) = Some q \<Longrightarrow>
      set (gate_writes q) \<inter> set (gate_writes p @ gate_uses p) = {} \<and> set (gate_uses q) \<inter> gate_temps d p = {}"
    using Cons.prems[of 0] by auto
  have "\<forall>e \<in> set ds. \<forall>q. get_gate_param r e = Some q \<longrightarrow>
      set (gate_writes q) \<inter> set (gate_writes p @ gate_uses p) = {} \<and> set (gate_uses q) \<inter> gate_temps d p = {}"
  proof (intro ballI allI impI)
    fix e q assume "e \<in> set ds" "get_gate_param r e = Some q"
    then obtain j where "j < length ds" "ds ! j = e" by (auto simp: in_set_conv_nth)
    with p(4)[of "Suc j" q] \<open>get_gate_param r e = Some q\<close>
    show "set (gate_writes q) \<inter> set (gate_writes p @ gate_uses p) = {} \<and> set (gate_uses q) \<inter> gate_temps d p = {}" by simp
  qed
  ultimately show ?case using p(1-3) by (auto simp: gate_temps_def)
qed simp

lemma ready_param:
  assumes "graph_ready r g" "i < length (gg_gates g)"
  obtains s p where "gate_shape r (gg_gates g ! i) = Some s" "get_gate_param r (gg_gates g ! i) = Some p" "param_fits s p"
    "wires (gg_gates g ! i) = param_wires p" "gate_ready r (gg_wires g) (gg_gates g ! i)"
proof -
  have rd: "gate_ready r (gg_wires g) (gg_gates g ! i)" using assms by (simp add: graph_ready_def)
  then show ?thesis
    using that by (auto simp: gate_ready_def gate_wf_def elim!: validated_gate_param)
qed

lemma uses_available:
  assumes opt: "optimisable r g"
  shows "i < length (gg_gates g) \<Longrightarrow> get_gate_param r (gg_gates g ! i) = Some p \<Longrightarrow> w \<in> set (gate_uses p) \<Longrightarrow>
    available r (gg_wires g) (gg_gates g) i w"
proof (induction i arbitrary: p rule: less_induct)
  case (less i)
  let ?ds = "gg_gates g"
  have ready: "graph_ready r g" and ord: "ordered r ?ds" and priv: "aux_private r ?ds"
    and wfirst: "written_first r (loose_wires g) ?ds"
    using opt by (simp_all add: optimisable_def graph_ready_def)
  obtain q where q: "get_gate_param r (?ds ! i) = Some q" "wires (?ds ! i) = param_wires q"
    "gate_ready r (gg_wires g) (?ds ! i)" by (rule ready_param[OF ready less.prems(1)])
  have "w \<in> set (wires (?ds ! i))" using q(1,2) less.prems(2,3) by (auto simp: param_wires_def gate_uses_def)
  then have bound: "w < length (gg_wires g)" using q(3) by (simp add: gate_ready_def gate_wf_def)
  have late: "j < i \<and> w \<in> set (p_outputs s)"
    if s: "j < length ?ds" "get_gate_param r (?ds ! j) = Some s" "w \<in> set (gate_writes s)" for j s
  proof -
    have "\<not> i \<le> j"
      using ordered_at(2)[OF ord s(1,2)] ordered_at(3)[OF ord less.prems(1,2) _ s(1,2)] less.prems(2,3) s
      by (cases "i = j") auto
    moreover have "set (p_aux s @ p_scratch s) \<inter> set (gate_uses p) = {}"
      by (rule aux_privateD[OF priv nth_mem nth_mem s(2) less.prems(2)]) (use s(1) less.prems(1) in simp_all)
    ultimately show ?thesis using s(3) less.prems(3) by (auto simp: gate_writes_def)
  qed
  have "\<exists>j < i. \<exists>p. j < length ?ds \<and> get_gate_param r (?ds ! j) = Some p \<and> w \<in> set (p_outputs p)"
    if l: "loose_kind (gg_wires g ! w)"
  proof -
    have "mentioned (take i ?ds) w"
      using wfirst less.prems l bound by (auto simp: written_first_def loose_wires_def)
    then obtain j where j: "j < i" "j < length ?ds" "w \<in> set (wires (?ds ! j))"
      by (auto simp: mentioned_def in_set_conv_nth[of _ "take i _"])
    obtain s where s: "get_gate_param r (?ds ! j) = Some s" "wires (?ds ! j) = param_wires s"
      by (rule ready_param[OF ready j(2)])
    show ?thesis
    proof (cases "w \<in> set (gate_uses s)")
      case True
      from less.IH[OF j(1,2) s(1) this] l j(1) show ?thesis by (auto simp: available_def intro: less_trans)
    next
      case False
      then have "w \<in> set (gate_writes s)" using j(3) s(2) by (auto simp: param_wires_def gate_uses_def gate_writes_def)
      from late[OF j(2) s(1) this] j(2) s(1) show ?thesis by blast
    qed
  qed
  then show ?case using bound late by (auto simp: available_def)
qed

text \<open>The graphs a pass may return: the gates read other wires, each still available where it is read,
  and constants have been added.\<close>

definition reads_moved :: "hint_registry \<Rightarrow> gate_graph \<Rightarrow> gate_graph \<Rightarrow> bool" where
  "reads_moved r g g' \<longleftrightarrow> (\<exists>cs. gg_wires g' = gg_wires g @ map KConstant cs) \<and> graph_wf r (g'\<lparr>gg_gates := gg_gates g\<rparr>) \<and>
    gate_origin g' = gate_origin g \<and> assertion_names g' = assertion_names g \<and>
    length (gg_gates g') = length (gg_gates g) \<and>
    (\<forall>i < length (gg_gates g). \<exists>p p'. same_gate r (gg_gates g ! i) (gg_gates g' ! i) p p' \<and>
      (\<forall>w \<in> set (p_inputs p'). available r (gg_wires g') (gg_gates g) i w))"

lemma available_grown:
  "w < length ks \<Longrightarrow> available r (ks @ ks') ds i w \<longleftrightarrow> available r ks ds i w"
  by (simp add: available_def nth_append)

lemma available_widen: "available r ks ds i w \<Longrightarrow> available r (ks @ ks') ds i w"
  using available_grown[of w ks r ks' ds i] by (simp add: available_def)

lemma moved_gate_wf:
  assumes "gate_wf r ks d" "same_gate r d d' p p'" "\<forall>w \<in> set (p_inputs p'). w < length ks"
  shows "gate_wf r ks d'"
proof -
  obtain s q where s: "gate_shape r d = Some s" "get_gate_param r d = Some q" "param_fits s q" "wires d = param_wires q"
    "validate_shape r d = Some ()"
    using assms(1) by (auto simp: gate_wf_def elim!: validated_gate_param)
  note f = same_gate_fields[OF assms(2)]
  have p: "q = p" "get_gate_param r d' = Some p'" "length (wires d') = length (wires d)" "immediates d' = immediates d"
    using assms(2) s(2) by (simp_all add: same_gate_def)
  have v: "validate_shape r d' = Some ()" using s(1,5) p f(8) by (simp add: validate_shape_def)
  obtain q' where q': "get_gate_param r d' = Some q'" "wires d' = param_wires q'" by (rule validated_gate_param[OF v])
  then have w': "wires d' = param_wires p'" using p(2) by simp
  have "\<forall>w \<in> set (wires d). w < length ks" using assms(1) by (simp add: gate_wf_def)
  then have "\<forall>w \<in> set (wires d'). w < length ks"
    using assms(3) s(4) p(1) unfolding w' by (simp add: param_wires_def f) blast
  moreover have "wires d' ! i = wires d ! i" if "i < length (const_in s)" for i
    using that s(3,4) p(1) w' by (simp add: param_wires_def f nth_append param_fits_def)
  moreover have "\<forall>i < length (const_in s). ks ! (wires d ! i) = KConstant (const_in s ! i)"
    using assms(1) s(1) by (simp add: gate_wf_def)
  ultimately show ?thesis using v s(1) f(8) by (simp add: gate_wf_def)
qed

lemma reads_moved_optimisable:
  assumes opt: "optimisable r g" and moved: "reads_moved r g g'" and size: "length (gg_wires g') \<le> 2 ^ 26"
  shows "optimisable r g'"
proof -
  let ?ds = "gg_gates g" and ?ds' = "gg_gates g'" and ?ks = "gg_wires g" and ?ks' = "gg_wires g'"
  have ready: "graph_ready r g" and ord: "ordered r ?ds" and priv: "aux_private r ?ds" and wf: "graph_wf r g"
    using opt by (simp_all add: optimisable_def graph_ready_def)
  obtain cs where ks': "?ks' = ?ks @ map KConstant cs" using moved by (auto simp: reads_moved_def)
  have n: "length ?ds' = length ?ds" using moved by (simp add: reads_moved_def)
  have step: "\<exists>p p'. same_gate r (?ds ! i) (?ds' ! i) p p' \<and> (\<forall>w \<in> set (p_inputs p'). available r ?ks' ?ds i w) \<and>
      (\<forall>w \<in> set (gate_uses p'). available r ?ks' ?ds i w)" if i: "i < length ?ds" for i
  proof -
    obtain p p' where p: "same_gate r (?ds ! i) (?ds' ! i) p p'" "\<forall>w \<in> set (p_inputs p'). available r ?ks' ?ds i w"
      using moved i by (auto simp: reads_moved_def)
    have "available r ?ks ?ds i w" if "w \<in> set (p_constants p)" for w
      using uses_available[OF opt i, of p w] p(1) that by (simp add: same_gate_def gate_uses_def)
    then have "available r ?ks' ?ds i w" if "w \<in> set (p_constants p)" for w
      using that available_widen unfolding ks' by blast
    then have "\<forall>w \<in> set (gate_uses p'). available r ?ks' ?ds i w"
      using p(2) same_gate_fields(1)[OF p(1)] by (auto simp: gate_uses_def)
    then show ?thesis using p by blast
  qed
  have wfd: "gate_wf r ?ks' (?ds' ! i)" if i: "i < length ?ds" for i
  proof -
    obtain p p' where p: "same_gate r (?ds ! i) (?ds' ! i) p p'" "\<forall>w \<in> set (p_inputs p'). available r ?ks' ?ds i w"
      using step[OF i] by blast
    have "gate_wf r ?ks (?ds ! i)" using ready i by (simp add: graph_ready_def gate_ready_def)
    then have "gate_wf r ?ks' (?ds ! i)" unfolding ks' by (rule gate_wf_grown)
    from moved_gate_wf[OF this p(1)] p(2) show ?thesis by (simp add: available_def)
  qed
  have rd: "gate_ready r ?ks' (?ds' ! i)" if i: "i < length ?ds" for i
  proof -
    obtain p p' where p: "same_gate r (?ds ! i) (?ds' ! i) p p'" using step[OF i] by blast
    have d: "gate_ready r ?ks (?ds ! i)" using ready i by (simp add: graph_ready_def)
    have eq: "body (?ds' ! i) = body (?ds ! i)" "immediates (?ds' ! i) = immediates (?ds ! i)"
      "dimensions (?ds' ! i) = dimensions (?ds ! i)" "length (wires (?ds' ! i)) = length (wires (?ds ! i))"
      "get_gate_param r (?ds ! i) = Some p" "get_gate_param r (?ds' ! i) = Some p'"
      using p by (simp_all add: same_gate_def)
    have "\<not> is_const (?ks' ! w)" if "w \<in> set (gate_writes p)" for w
    proof -
      have "w \<in> set (wires (?ds ! i))" using validated_wires(1)[of r ?ks "?ds ! i" p] d eq(5) that by (simp add: gate_ready_def)
      then have "w < length ?ks" using d by (simp add: gate_ready_def gate_wf_def)
      moreover have "\<not> is_const (?ks ! w)" using d eq(5) that by (simp add: gate_ready_def consts_kept_def)
      ultimately show ?thesis unfolding ks' by (simp add: nth_append)
    qed
    moreover have "gate_imm_ok (?ds' ! i) = gate_imm_ok (?ds ! i)" by (simp add: gate_imm_ok_def eq cong: gate_body.case_cong)
    ultimately show ?thesis using d wfd[OF i] same_gate_fields(6)[OF p] eq
      by (simp add: gate_ready_def gate_fits_code_def consts_kept_def)
  qed
  have "ordered r ?ds'"
  proof (rule ordered_by)
    fix i assume "i < length ?ds'"
    then have i: "i < length ?ds" using n by simp
    obtain p p' where p: "same_gate r (?ds ! i) (?ds' ! i) p p'" "\<forall>w \<in> set (gate_uses p'). available r ?ks' ?ds i w"
      using step[OF i] by blast
    have gp: "get_gate_param r (?ds ! i) = Some p" "get_gate_param r (?ds' ! i) = Some p'" using p(1) by (simp_all add: same_gate_def)
    note f = same_gate_fields[OF p(1)]
    have "set (gate_writes q') \<inter> set (gate_writes p' @ gate_uses p') = {} \<and> set (gate_uses q') \<inter> gate_temps (?ds' ! i) p' = {}"
      if j: "i < j" "j < length ?ds'" "get_gate_param r (?ds' ! j) = Some q'" for j q'
    proof -
      have j': "j < length ?ds" using j n by simp
      obtain q s where q: "same_gate r (?ds ! j) (?ds' ! j) q s" "\<forall>w \<in> set (gate_uses s). available r ?ks' ?ds j w"
        using step[OF j'] by blast
      then have gq: "get_gate_param r (?ds ! j) = Some q" and [simp]: "s = q'" using j(3) by (simp_all add: same_gate_def)
      note fq = same_gate_fields[OF q(1)]
      have "set (gate_writes q) \<inter> set (gate_writes p) = {}" using ordered_at(3)[OF ord i gp(1) j(1) j' gq] by auto
      moreover have "w \<notin> set (gate_writes q)" if "w \<in> set (gate_uses p')" for w
        using p(2) that j' gq j(1) by (fastforce simp: available_def)
      moreover have "w \<notin> gate_temps (?ds ! i) p" if "w \<in> set (gate_uses q')" for w
        using q(2) that i gp(1) by (fastforce simp: available_def gate_temps_def gate_results_def)
      ultimately show ?thesis using f fq by (auto simp: gate_temps_def)
    qed
    moreover have "w \<notin> set (gate_writes p)" if "w \<in> set (gate_uses p')" for w
      using p(2) that i gp(1) by (fastforce simp: available_def)
    ultimately show "\<exists>p. get_gate_param r (?ds' ! i) = Some p \<and> distinct (gate_writes p) \<and>
      set (gate_uses p) \<inter> set (gate_writes p) = {} \<and> (\<forall>j q. i < j \<longrightarrow> j < length ?ds' \<longrightarrow> get_gate_param r (?ds' ! j) = Some q \<longrightarrow>
      set (gate_writes q) \<inter> set (gate_writes p @ gate_uses p) = {} \<and> set (gate_uses q) \<inter> gate_temps (?ds' ! i) p = {})"
      using gp(2) ordered_at(1)[OF ord i gp(1)] f(6) by (intro exI[of _ p']) (auto simp: f)
  qed
  moreover have outs: "w \<in> set (wires (?ds' ! j))"
    if o: "j < length ?ds" "get_gate_param r (?ds ! j) = Some p" "w \<in> set (gate_writes p)" for j p w
  proof -
    obtain q p' where q: "same_gate r (?ds ! j) (?ds' ! j) q p'" using step[OF o(1)] by blast
    then have "q = p" "get_gate_param r (?ds' ! j) = Some p'" using o(2) by (simp_all add: same_gate_def)
    with validated_wires(1)[OF wfd[OF o(1)], of p'] same_gate_fields(6)[OF q] o(3) show ?thesis by simp
  qed
  have "loose_kind (?ks' ! w) \<and> w < length ?ks' \<longleftrightarrow> loose_kind (?ks ! w) \<and> w < length ?ks" for w
    by (cases "w < length ?ks"; cases "w < length ?ks'") (simp_all add: ks' nth_append loose_kind_def)
  then have same_loose: "loose_wires g' = loose_wires g" by (auto simp: loose_wires_def)
  have "written_first r (loose_wires g') ?ds'"
    unfolding written_first_def same_loose
  proof (intro allI impI ballI)
    fix i p' w assume i: "i < length ?ds'" "get_gate_param r (?ds' ! i) = Some p'" "w \<in> set (gate_uses p') \<inter> loose_wires g"
    then obtain p s where "same_gate r (?ds ! i) (?ds' ! i) p s" "\<forall>w \<in> set (gate_uses s). available r ?ks' ?ds i w"
      using step[of i] n by auto
    then have "available r ?ks' ?ds i w" using i by (simp add: same_gate_def)
    then obtain j p where "j < i" "j < length ?ds" "get_gate_param r (?ds ! j) = Some p" "w \<in> set (p_outputs p)"
      using i(3) by (auto simp: available_def loose_wires_def ks' nth_append)
    then have "w \<in> set (wires (?ds' ! j))" "take i ?ds' ! j = ?ds' ! j" "j < length (take i ?ds')"
      using outs[of j p w] i(1) by (simp_all add: gate_writes_def)
    then show "mentioned (take i ?ds') w" unfolding mentioned_def by (metis nth_mem)
  qed
  moreover have "\<forall>w \<in> loose_wires g'. mentioned ?ds' w"
  proof
    fix w assume w: "w \<in> loose_wires g'"
    then have l: "w \<in> loose_wires g" by (simp add: same_loose)
    then have "mentioned ?ds w" using ready by (simp add: graph_ready_def)
    then obtain i where i: "i < length ?ds" "w \<in> set (wires (?ds ! i))" by (auto simp: mentioned_def in_set_conv_nth[of _ ?ds])
    obtain p where p: "get_gate_param r (?ds ! i) = Some p" "wires (?ds ! i) = param_wires p" by (rule ready_param[OF ready i(1)])
    have "\<exists>j p. j < length ?ds \<and> get_gate_param r (?ds ! j) = Some p \<and> w \<in> set (gate_writes p)"
    proof (cases "w \<in> set (gate_uses p)")
      case True
      from uses_available[OF opt i(1) p(1) this] l show ?thesis
        by (fastforce simp: available_def loose_wires_def gate_writes_def)
    next
      case False
      then show ?thesis using i p by (auto simp: param_wires_def gate_uses_def gate_writes_def)
    qed
    then obtain j p where "j < length ?ds" "get_gate_param r (?ds ! j) = Some p" "w \<in> set (gate_writes p)" by blast
    from outs[OF this] this(1) n show "mentioned ?ds' w" by (auto simp: mentioned_def)
  qed
  ultimately have "graph_ready r g'"
    using ready rd size n by (auto simp: graph_ready_def in_set_conv_nth)
  moreover have "graph_wf r g'"
  proof -
    have "graph_wf r (g'\<lparr>gg_gates := ?ds\<rparr>)" using moved by (simp add: reads_moved_def)
    then show ?thesis using wfd n by (auto simp: graph_wf_def in_set_conv_nth)
  qed
  moreover have "aux_private r ?ds'"
    unfolding aux_private_def
  proof (intro ballI allI impI)
    fix d e p' q' assume "d \<in> set ?ds'" "e \<in> set ?ds'" and gp: "get_gate_param r d = Some p'" "get_gate_param r e = Some q'"
    then obtain i j where i: "i < length ?ds" "?ds' ! i = d" and j: "j < length ?ds" "?ds' ! j = e" using n by (auto simp: in_set_conv_nth)
    obtain p s where p: "same_gate r (?ds ! i) d p s" using step[OF i(1)] i(2) by blast
    then have p': "get_gate_param r (?ds ! i) = Some p" "s = p'" using gp(1) by (simp_all add: same_gate_def)
    obtain q t where q: "same_gate r (?ds ! j) e q t" "\<forall>w \<in> set (gate_uses t). available r ?ks' ?ds j w" using step[OF j(1)] j(2) by blast
    then have [simp]: "t = q'" using gp(2) by (simp add: same_gate_def)
    have "distinct (gate_writes p)" by (rule ordered_at(1)[OF ord i(1) p'(1)])
    then show "set (p_aux p' @ p_scratch p') \<inter> set (gate_uses q') = {}"
      using q(2) i(1) p' same_gate_fields[OF p] by (fastforce simp: available_def gate_writes_def)
  qed
  ultimately show ?thesis by (simp add: optimisable_def)
qed

end
