(* ===== verification/Forward.thy ===== *)
theory Forward
  imports Rewire
begin

text \<open>
  Forwarding one wire to another keeps a graph ready and its gates' meaning, when the gate that
  computes the wire makes the two hold the same word.
\<close>

section \<open>Renaming some gates\<close>

definition renamed_at :: "gate set \<Rightarrow> (wire \<Rightarrow> wire) \<Rightarrow> gate_data list \<Rightarrow> gate_data list" where
  "renamed_at L f ds = map (\<lambda>i. if i \<in> L then rename_gate f (ds ! i) else ds ! i) [0..<length ds]"

lemma renamed_at_nth: "i < length ds \<Longrightarrow> renamed_at L f ds ! i = (if i \<in> L then rename_gate f (ds ! i) else ds ! i)"
  by (simp add: renamed_at_def)

lemma length_renamed_at [simp]: "length (renamed_at L f ds) = length ds"
  by (simp add: renamed_at_def)

lemma replace_in_spec:
  "distinct L \<Longrightarrow> \<forall>i \<in> set L. i < length (gg_gates g) \<Longrightarrow>
    replace_in L old new g = Some ((\<Sum>i\<leftarrow>L. length (filter (\<lambda>w. w = old) (wires (gg_gates g ! i)))),
      g\<lparr>gg_gates := renamed_at (set L) (swap_wire old new) (gg_gates g)\<rparr>)"
proof (induction L arbitrary: g)
  case Nil
  have "renamed_at {} (swap_wire old new) (gg_gates g) = gg_gates g"
    by (rule nth_equalityI) (simp_all add: renamed_at_nth)
  then show ?case by simp
next
  case (Cons i L)
  let ?ds = "gg_gates g" and ?f = "swap_wire old new"
  let ?g1 = "g\<lparr>gg_gates := ?ds[i := rename_gate ?f (?ds ! i)]\<rparr>"
  have i: "i < length ?ds" "i \<notin> set L" "distinct L" "\<forall>j \<in> set L. j < length (gg_gates ?g1)" using Cons.prems by auto
  have "replace_gate_wire i old new g = Some (length (filter (\<lambda>w. w = old) (wires (?ds ! i))), ?g1)"
    using i(1) by (simp add: replace_gate_wire_def read_at_def)
  moreover note Cons.IH[OF i(3,4)]
  moreover have "renamed_at (set L) ?f (gg_gates ?g1) = renamed_at (set (i # L)) ?f ?ds"
  proof (rule nth_equalityI)
    fix j assume "j < length (renamed_at (set L) ?f (gg_gates ?g1))"
    with i(2) show "renamed_at (set L) ?f (gg_gates ?g1) ! j = renamed_at (set (i # L)) ?f ?ds ! j"
      by (cases "j = i") (simp_all add: renamed_at_nth)
  qed simp
  moreover have "(\<Sum>j\<leftarrow>L. length (filter (\<lambda>w. w = old) (wires (gg_gates ?g1 ! j)))) =
      (\<Sum>j\<leftarrow>L. length (filter (\<lambda>w. w = old) (wires (?ds ! j))))"
  proof (rule arg_cong[where f = sum_list])
    show "map (\<lambda>j. length (filter (\<lambda>w. w = old) (wires (gg_gates ?g1 ! j)))) L =
      map (\<lambda>j. length (filter (\<lambda>w. w = old) (wires (?ds ! j)))) L"
  proof (rule map_cong[OF refl])
    fix j assume "j \<in> set L"
    then have "j \<noteq> i" using i(2) by blast
    then show "length (filter (\<lambda>w. w = old) (wires (gg_gates ?g1 ! j))) = length (filter (\<lambda>w. w = old) (wires (?ds ! j)))"
      by simp
  qed
  qed
  ultimately show ?case by simp
qed

section \<open>Availability rests on what gates write\<close>

definition alike :: "hint_registry \<Rightarrow> gate_data list \<Rightarrow> gate_data list \<Rightarrow> bool" where
  "alike r ds ds' \<longleftrightarrow> length ds' = length ds \<and> (\<forall>i < length ds. \<exists>p p'. same_gate r (ds ! i) (ds' ! i) p p')"

lemma agree_alike: "agree r W ks ds ds' \<Longrightarrow> alike r ds ds'"
  unfolding agree_def alike_def by blast

lemma alike_param:
  assumes "alike r ds ds'" "i < length ds"
  obtains p p' where "same_gate r (ds ! i) (ds' ! i) p p'" "get_gate_param r (ds ! i) = Some p" "get_gate_param r (ds' ! i) = Some p'"
    "p_outputs p' = p_outputs p" "gate_writes p' = gate_writes p"
proof -
  obtain p p' where "same_gate r (ds ! i) (ds' ! i) p p'" using assms unfolding alike_def by blast
  from that[OF this _ _ same_gate_fields(2,6)[OF this]] this show ?thesis by (simp add: same_gate_def)
qed

lemma available_alike:
  assumes "alike r ds ds'"
  shows "available r ks ds' i w \<longleftrightarrow> available r ks ds i w"
proof -
  have n: "length ds' = length ds" using assms by (simp add: alike_def)
  have "(\<exists>p. get_gate_param r (ds' ! j) = Some p \<and> P (p_outputs p) (gate_writes p)) \<longleftrightarrow>
      (\<exists>p. get_gate_param r (ds ! j) = Some p \<and> P (p_outputs p) (gate_writes p))" if "j < length ds" for j P
    by (rule alike_param[OF assms that]) simp
  note ex = this[of _ "\<lambda>a b. w \<in> set a"] and no = this[of _ "\<lambda>a b. w \<in> set b \<and> \<not> (_ < i \<and> w \<in> set a)"]
  have "(\<forall>p. get_gate_param r (ds' ! j) = Some p \<longrightarrow> w \<in> set (gate_writes p) \<longrightarrow> j < i \<and> w \<in> set (p_outputs p)) \<longleftrightarrow>
      (\<forall>p. get_gate_param r (ds ! j) = Some p \<longrightarrow> w \<in> set (gate_writes p) \<longrightarrow> j < i \<and> w \<in> set (p_outputs p))"
    if "j < length ds" for j
    using no[OF that, of j] by blast
  then show ?thesis unfolding available_def n using ex by blast
qed

lemma available_mono: "available r ks ds i w \<Longrightarrow> i \<le> j \<Longrightarrow> available r ks ds j w"
  unfolding available_def by (meson order.strict_trans2)

lemma reads_moved_trans:
  assumes "reads_moved r g g'" "reads_moved r g' g''"
  shows "reads_moved r g g''"
proof -
  have al: "alike r (gg_gates g) (gg_gates g')" using assms(1) unfolding reads_moved_def alike_def by blast
  obtain cs cs' where cs: "gg_wires g' = gg_wires g @ map KConstant cs" "gg_wires g'' = gg_wires g' @ map KConstant cs'"
    using assms unfolding reads_moved_def by blast
  have n: "length (gg_gates g') = length (gg_gates g)" "length (gg_gates g'') = length (gg_gates g')"
    using assms by (simp_all add: reads_moved_def)
  have wf: "graph_wf r (g''\<lparr>gg_gates := gg_gates g'\<rparr>)" "graph_wf r (g'\<lparr>gg_gates := gg_gates g\<rparr>)"
    using assms by (simp_all add: reads_moved_def)
  have "graph_wf r (g''\<lparr>gg_gates := gg_gates g\<rparr>)"
    using wf gate_wf_grown[of r "gg_wires g'" _ "map KConstant cs'"] cs(2) by (simp add: graph_wf_def)
  moreover have "\<exists>p p''. same_gate r (gg_gates g ! i) (gg_gates g'' ! i) p p'' \<and>
      (\<forall>w \<in> set (p_inputs p''). available r (gg_wires g'') (gg_gates g) i w)" if i: "i < length (gg_gates g)" for i
  proof -
    obtain p p' where p: "same_gate r (gg_gates g ! i) (gg_gates g' ! i) p p'" by (rule alike_param[OF al i])
    obtain q p'' where q: "same_gate r (gg_gates g' ! i) (gg_gates g'' ! i) q p''"
      "\<forall>w \<in> set (p_inputs p''). available r (gg_wires g'') (gg_gates g') i w"
      using assms(2) i n by (auto simp: reads_moved_def)
    have "q = p'" using p q(1) by (simp add: same_gate_def)
    then show ?thesis using same_gate_trans[OF p] q available_alike[OF al] by blast
  qed
  moreover have "gg_wires g'' = gg_wires g @ map KConstant (cs @ cs')" using cs by simp
  moreover have "gate_origin g'' = gate_origin g" "assertion_names g'' = assertion_names g"
    using assms by (simp_all add: reads_moved_def)
  ultimately show ?thesis unfolding reads_moved_def using n by metis
qed

lemma reads_moved_refl:
  assumes "optimisable r g"
  shows "reads_moved r g g"
proof -
  have "\<exists>p p'. same_gate r (gg_gates g ! i) (gg_gates g ! i) p p' \<and>
      (\<forall>w \<in> set (p_inputs p'). available r (gg_wires g) (gg_gates g) i w)" if i: "i < length (gg_gates g)" for i
  proof -
    obtain p where "get_gate_param r (gg_gates g ! i) = Some p"
      using assms ready_param[OF _ i, of r] by (auto simp: optimisable_def)
    with uses_available[OF assms i] show ?thesis by (auto simp: same_gate_def gate_uses_def)
  qed
  then show ?thesis using assms unfolding reads_moved_def optimisable_def
    by (auto intro!: exI[of _ "[]"])
qed

section \<open>Forwarding\<close>

definition forwardable :: "hint_registry \<Rightarrow> (gate_data \<Rightarrow> (wire \<Rightarrow> u64) \<Rightarrow> bool) \<Rightarrow> wire_kind list \<Rightarrow> gate_data list \<Rightarrow>
    wire \<Rightarrow> wire \<Rightarrow> bool" where
  "forwardable r W ks ds old new \<longleftrightarrow> (\<exists>k p. k < length ds \<and> get_gate_param r (ds ! k) = Some p \<and> old \<in> set (p_outputs p) \<and>
    available r ks ds k new \<and> (\<forall>\<sigma>. consts_hold ks \<sigma> \<longrightarrow> (\<forall>j \<le> k. W (ds ! j) \<sigma>) \<longrightarrow> \<sigma> new = \<sigma> old))"

lemma forwardable_agree:
  assumes "agree r W ks ds ds'" "by_words r W" "forwardable r W ks ds old new"
  shows "forwardable r W ks ds' old new"
proof -
  note al = agree_alike[OF assms(1)]
  obtain k p where k: "k < length ds" "get_gate_param r (ds ! k) = Some p" "old \<in> set (p_outputs p)"
    "available r ks ds k new" "\<And>\<sigma>. consts_hold ks \<sigma> \<Longrightarrow> \<forall>j \<le> k. W (ds ! j) \<sigma> \<Longrightarrow> \<sigma> new = \<sigma> old"
    using assms(3) by (auto simp: forwardable_def)
  obtain p' where p': "get_gate_param r (ds' ! k) = Some p'" "p_outputs p' = p_outputs p"
    by (rule alike_param[OF al k(1)]) (use k(2) in simp)
  have "\<sigma> new = \<sigma> old" if c: "consts_hold ks \<sigma>" and w: "\<forall>j \<le> k. W (ds' ! j) \<sigma>" for \<sigma>
  proof -
    have "(\<forall>j < Suc k. W (ds' ! j) \<sigma>) \<longleftrightarrow> (\<forall>j < Suc k. W (ds ! j) \<sigma>)"
      by (rule agree_prefix[OF assms(1,2) _ c]) (use k(1) in simp_all)
    then show ?thesis using k(5)[OF c] w by (simp add: less_Suc_eq_le)
  qed
  then show ?thesis using k p' al available_alike[OF al] unfolding forwardable_def alike_def by auto
qed

lemma forwardable_grown:
  assumes "forwardable r W ks ds old new"
  shows "forwardable r W (ks @ ks') ds old new"
proof -
  obtain k p where k: "k < length ds" "get_gate_param r (ds ! k) = Some p" "old \<in> set (p_outputs p)"
    "available r ks ds k new" "\<And>\<sigma>. consts_hold ks \<sigma> \<Longrightarrow> \<forall>j \<le> k. W (ds ! j) \<sigma> \<Longrightarrow> \<sigma> new = \<sigma> old"
    using assms by (auto simp: forwardable_def)
  then show ?thesis using available_widen[OF k(4)] consts_hold_append unfolding forwardable_def by blast
qed

lemma writes_apart:
  assumes "ordered r ds" "i < length ds" "j < length ds" "get_gate_param r (ds ! i) = Some p" "get_gate_param r (ds ! j) = Some q"
    and "w \<in> set (gate_writes p)" "w \<in> set (gate_writes q)"
  shows "i = j"
  using ordered_at(3)[OF assms(1,2,4) _ assms(3,5)] ordered_at(3)[OF assms(1,3,5) _ assms(2,4)] assms(6,7)
  by (cases i j rule: linorder_cases) auto

lemma forward_fixes:
  assumes opt: "optimisable r g" and fwd: "forwardable r W (gg_wires g) (gg_gates g) old new"
    and i: "i < length (gg_gates g)" "get_gate_param r (gg_gates g ! i) = Some p" and skip: "old \<notin> set (gate_writes p)"
  shows "\<forall>w \<in> set (p_constants p @ gate_writes p). swap_wire old new w = w"
proof -
  let ?ds = "gg_gates g" and ?ks = "gg_wires g"
  have ready: "graph_ready r g" using opt by (simp add: optimisable_def)
  obtain k q where k: "k < length ?ds" "get_gate_param r (?ds ! k) = Some q" "old \<in> set (p_outputs q)"
    using fwd by (auto simp: forwardable_def)
  have "gate_ready r ?ks (?ds ! k)" using ready k(1) by (simp add: graph_ready_def)
  then have nc: "\<not> is_const (?ks ! old)" using k(2,3) by (simp add: gate_ready_def consts_kept_def gate_writes_def)
  obtain s p' where p': "gate_shape r (?ds ! i) = Some s" "get_gate_param r (?ds ! i) = Some p'" "param_fits s p'"
    "wires (?ds ! i) = param_wires p'" "gate_ready r ?ks (?ds ! i)" by (rule ready_param[OF ready i(1)])
  have "is_const (?ks ! w)" if w: "w \<in> set (p_constants p)" for w
  proof -
    obtain m where m: "m < length (p_constants p)" "p_constants p ! m = w" using w by (auto simp: in_set_conv_nth)
    then have "wires (?ds ! i) ! m = w" "m < length (const_in s)"
      using p' i(2) by (simp_all add: param_wires_def nth_append param_fits_def)
    then show ?thesis using p'(1,5) by (auto simp: gate_ready_def gate_wf_def)
  qed
  then show ?thesis using nc skip by (auto simp: swap_wire_def)
qed

text \<open>One forwarding step, at any of the readers.\<close>

lemma forward_step:
  assumes opt: "optimisable r g" and fwd: "forwardable r W (gg_wires g) (gg_gates g) old new"
    and skip: "\<And>i p. i \<in> L \<Longrightarrow> i < length (gg_gates g) \<Longrightarrow> get_gate_param r (gg_gates g ! i) = Some p \<Longrightarrow> old \<notin> set (gate_writes p)"
  defines "ds' \<equiv> renamed_at L (swap_wire old new) (gg_gates g)"
  shows "agree r W (gg_wires g) (gg_gates g) ds'" "reads_moved r g (g\<lparr>gg_gates := ds'\<rparr>)"
proof -
  let ?ds = "gg_gates g" and ?ks = "gg_wires g" and ?f = "swap_wire old new"
  have ready: "graph_ready r g" and ord: "ordered r ?ds" and wf: "graph_wf r g"
    using opt by (simp_all add: optimisable_def graph_ready_def)
  obtain k q where k: "k < length ?ds" "get_gate_param r (?ds ! k) = Some q" "old \<in> set (p_outputs q)"
    "available r ?ks ?ds k new" "\<And>\<sigma>. consts_hold ?ks \<sigma> \<Longrightarrow> \<forall>j \<le> k. W (?ds ! j) \<sigma> \<Longrightarrow> \<sigma> new = \<sigma> old"
    using fwd by (auto simp: forwardable_def)
  have step: "\<exists>p p'. same_gate r (?ds ! i) (ds' ! i) p p' \<and>
      (\<forall>w \<in> set (p_inputs p'). available r ?ks ?ds i w) \<and>
      (\<forall>\<sigma>. consts_hold ?ks \<sigma> \<longrightarrow> (\<forall>j < i. W (?ds ! j) \<sigma>) \<longrightarrow> map \<sigma> (p_inputs p') = map \<sigma> (p_inputs p))"
    if i: "i < length ?ds" for i
  proof -
    obtain p where p: "get_gate_param r (?ds ! i) = Some p" by (rule ready_param[OF ready i])
    note av = uses_available[OF opt i p]
    show ?thesis
    proof (cases "i \<in> L")
      case True
      then have d': "ds' ! i = rename_gate ?f (?ds ! i)" using i by (simp add: ds'_def renamed_at_nth)
      have sg: "same_gate r (?ds ! i) (ds' ! i) p (p\<lparr>p_inputs := map ?f (p_inputs p)\<rparr>)"
        unfolding d' by (rule same_gate_renamed[OF p forward_fixes[OF opt fwd i p skip[OF True i p]]])
      have late: "k < i" if "old \<in> set (p_inputs p)"
        using av[of old] that k(1-3) by (auto simp: available_def gate_uses_def gate_writes_def)
      have "available r ?ks ?ds i (?f w)" if "w \<in> set (p_inputs p)" for w
      proof (cases "w = old")
        case True
        with late that have "k \<le> i" by simp
        from available_mono[OF k(4) this] show ?thesis using True by (simp add: swap_wire_def)
      qed (use av that in \<open>simp add: swap_wire_def gate_uses_def\<close>)
      moreover have "map \<sigma> (map ?f (p_inputs p)) = map \<sigma> (p_inputs p)"
        if "consts_hold ?ks \<sigma>" "\<forall>j < i. W (?ds ! j) \<sigma>" for \<sigma>
      proof (cases "old \<in> set (p_inputs p)")
        case True
        have "\<sigma> new = \<sigma> old" by (rule k(5)[OF that(1)]) (use that(2) late[OF True] in auto)
        then show ?thesis by (auto simp: swap_wire_def)
      next
        case False
        then show ?thesis by (auto simp: swap_wire_def)
      qed
      ultimately show ?thesis using sg by (intro exI conjI) auto
    next
      case False
      then have "ds' ! i = ?ds ! i" using i by (simp add: ds'_def renamed_at_nth)
      then show ?thesis using p av by (auto simp: same_gate_def gate_uses_def)
    qed
  qed
  have n: "length ds' = length ?ds" by (simp add: ds'_def)
  show "agree r W ?ks ?ds ds'" unfolding agree_def using step n by blast
  have "\<forall>i < length ?ds. \<exists>p p'. same_gate r (?ds ! i) (ds' ! i) p p' \<and> (\<forall>w \<in> set (p_inputs p'). available r ?ks ?ds i w)"
    using step by blast
  then show "reads_moved r g (g\<lparr>gg_gates := ds'\<rparr>)"
    unfolding reads_moved_def using n wf by (simp add: exI[of _ "[]"])
qed

end
