(* ===== verification/Zero_Fold.thy ===== *)
theory Zero_Fold
  imports Forward "HOL-Library.Monad_Syntax"
begin

text \<open>
  Zero propagation (\<open>pass/zero_fold.rs\<close>): the readers of a gate that a zero operand makes the identity
  are moved to the wire that already carries its result, in sweeps, until a sweep moves nothing.
  \<open>None\<close> is a panic, or sweeps without end.
\<close>

section \<open>Definitions\<close>

definition find_zero_constant :: "gate_graph \<Rightarrow> wire option" where
  "find_zero_constant g = const_pool g ZERO"

text \<open>The rules.  A gate with one output pads its pair with a wire forwarded to itself.\<close>

definition zero_rule :: "opcode \<Rightarrow> wire \<Rightarrow> wire list \<Rightarrow> wire list \<Rightarrow> (wire \<times> wire) list option" where
  "zero_rule opcode zero ins outs =
    (let nothing = (zero, zero) in
     case opcode of
       ShiftOp \<Rightarrow> (case (ins, outs) of
           ([x], [z]) \<Rightarrow> if x = zero then Some [(z, zero), nothing] else None
         | _ \<Rightarrow> None)
     | Bxor \<Rightarrow> (case (ins, outs) of
           ([a, b], [z]) \<Rightarrow> if b = zero then Some [(z, a), nothing]
             else if a = zero then Some [(z, b), nothing] else None
         | _ \<Rightarrow> None)
     | Iadd32 \<Rightarrow> (case (ins, outs) of
           ([a, b], [s, cout]) \<Rightarrow> if b = zero then Some [(s, a), (cout, zero)]
             else if a = zero then Some [(s, b), (cout, zero)] else None
         | _ \<Rightarrow> None)
     | _ \<Rightarrow> None)"

definition zero_identity :: "gate_graph \<Rightarrow> gate \<Rightarrow> wire \<Rightarrow> wire set \<Rightarrow> hint_registry \<Rightarrow> (wire \<times> wire) list option option" where
  "zero_identity g gate zero pinned r = do {
    d \<leftarrow> read_at (gg_gates g) gate;
    p \<leftarrow> get_gate_param r d;
    Some (case body d of
        HintCall _ \<Rightarrow> None
      | Op opcode \<Rightarrow> if \<exists>w \<in> set (p_outputs p). w \<in> pinned then None
          else zero_rule opcode zero (p_inputs p) (p_outputs p))
  }"

fun gather :: "gate_graph \<Rightarrow> gate list \<Rightarrow> wire \<Rightarrow> wire set \<Rightarrow> hint_registry \<Rightarrow> (wire \<times> wire) list option" where
  "gather g [] zero pinned r = Some []"
| "gather g (gate # gates) zero pinned r = do {
    pairs \<leftarrow> zero_identity g gate zero pinned r;
    rest \<leftarrow> gather g gates zero pinned r;
    Some ((case pairs of Some ps \<Rightarrow> ps | None \<Rightarrow> []) @ rest)
  }"

fun forward_all :: "(wire \<times> wire) list \<Rightarrow> gate_graph \<Rightarrow> (nat \<times> gate_graph) option" where
  "forward_all [] g = Some (0, g)"
| "forward_all ((src, dst) # fs) g = do {
    (rep, g) \<leftarrow> replace_wire_with_wire src dst g;
    (m, g) \<leftarrow> forward_all fs g;
    Some (n_slots_rewritten rep + m, g)
  }"

partial_function (option) zero_sweeps ::
  "hint_registry \<Rightarrow> wire set \<Rightarrow> wire \<Rightarrow> nat \<Rightarrow> gate_graph \<Rightarrow> (nat \<times> gate_graph) option" where
  "zero_sweeps r pinned zero n g = do {
    g \<leftarrow> rebuild_wire_uses r g;
    fs \<leftarrow> gather g [0..<length (gg_gates g)] zero pinned r;
    (rewritten, g) \<leftarrow> forward_all fs g;
    if rewritten = 0 then Some (n, g) else zero_sweeps r pinned zero (n + rewritten) g
  }"

declare zero_sweeps.simps [code]

definition zero_propagation :: "gate_graph \<Rightarrow> wire set \<Rightarrow> hint_registry \<Rightarrow> (nat \<times> gate_graph) option" where
  "zero_propagation g pinned r =
    (case find_zero_constant g of
       None \<Rightarrow> Some (0, g)
     | Some zero \<Rightarrow> zero_sweeps r pinned zero 0 g)"

section \<open>The rules hold\<close>

lemma iadd32_zero: "iadd_cout_32 a 0 = (a, 0)" "iadd_cout_32 0 a = (a, 0)"
  by (simp_all add: iadd_cout_32_def ZERO_def iadd32_cin_cout_halves Let_def lo32_def[of 0] hi32_def[of 0] carry_word_def
      join32_halves join32_def[of 0])

lemma shift_zero:
  assumes "n < max_amount v"
  shows "variant_apply v 0 n = 0"
proof (rule bit_word_eqI)
  fix i show "bit (variant_apply v 0 n) i = bit (0 :: u64) i"
    unfolding bit_variant_apply[OF assms] by (cases "shift_src v n i") simp_all
qed

lemma zero_rule_sound:
  assumes "zero_rule opcode zero (p_inputs p) (p_outputs p) = Some fs" "(a, b) \<in> set fs" "a \<noteq> b"
  shows "a \<in> set (p_outputs p)" "b = zero \<or> b \<in> set (p_inputs p)"
    "gate_imm_ok d \<Longrightarrow> body d = Op opcode \<Longrightarrow> gate_done r d p \<sigma> \<Longrightarrow> \<sigma> zero = 0 \<Longrightarrow> \<sigma> b = \<sigma> a"
proof -
  consider (shift) z where "opcode = ShiftOp" "p_inputs p = [zero]" "p_outputs p = [z]" "a = z" "b = zero"
    | (xor) x y z where "opcode = Bxor" "p_inputs p = [x, y]" "p_outputs p = [z]" "a = z" "y = zero \<and> b = x \<or> x = zero \<and> b = y"
    | (add) x y s c where "opcode = Iadd32" "p_inputs p = [x, y]" "p_outputs p = [s, c]"
      "y = zero \<and> (a = s \<and> b = x \<or> a = c \<and> b = zero) \<or> x = zero \<and> (a = s \<and> b = y \<or> a = c \<and> b = zero)"
    using assms by (auto simp: zero_rule_def Let_def split: opcode.splits list.splits if_splits)
  note cs = this
  show "a \<in> set (p_outputs p)" using cs by cases auto
  show "b = zero \<or> b \<in> set (p_inputs p)" using cs by cases auto
  assume d: "gate_imm_ok d" "body d = Op opcode" "gate_done r d p \<sigma>" "\<sigma> zero = 0"
  show "\<sigma> b = \<sigma> a"
  proof (cases rule: cs)
    case shift
    then obtain vr n v where "immediates d = [vr, n]" "variant_from_u8 (ucast vr) = Some v" "unat n < max_amount v"
      using d by (auto simp: gate_imm_ok_def imm_ok_def)
    then show ?thesis using d shift shift_zero[of "unat n" v] by (simp add: gate_done_def gate_value_def)
  next
    case xor
    then show ?thesis using d by (auto simp: gate_done_def gate_value_def)
  next
    case add
    then show ?thesis using d by (auto simp: gate_done_def gate_value_def iadd32_zero)
  qed
qed

section \<open>A measure of the reads\<close>

text \<open>How late a wire is computed: one more than the position of its gate, nothing for an input.\<close>

definition wire_level :: "hint_registry \<Rightarrow> gate_data list \<Rightarrow> wire \<Rightarrow> nat" where
  "wire_level r ds w = (\<Sum>k<length ds. case get_gate_param r (ds ! k) of
     Some p \<Rightarrow> (if w \<in> set (p_outputs p) then Suc k else 0) | None \<Rightarrow> 0)"

definition read_levels :: "hint_registry \<Rightarrow> (wire \<Rightarrow> nat) \<Rightarrow> gate_data list \<Rightarrow> nat" where
  "read_levels r lev ds = (\<Sum>d\<leftarrow>ds. case get_gate_param r d of Some p \<Rightarrow> sum_list (map lev (p_inputs p)) | None \<Rightarrow> 0)"

lemma wire_level_alike:
  assumes "alike r ds ds'"
  shows "wire_level r ds' = wire_level r ds"
proof
  fix w
  have n: "length ds' = length ds" using assms by (simp add: alike_def)
  show "wire_level r ds' w = wire_level r ds w"
    unfolding wire_level_def n
  proof (rule sum.cong[OF refl])
    fix k assume "k \<in> {..<length ds}"
    then have "k < length ds" by simp
    then obtain p p' where "get_gate_param r (ds ! k) = Some p" "get_gate_param r (ds' ! k) = Some p'" "p_outputs p' = p_outputs p"
      by (rule alike_param[OF assms])
    then show "(case get_gate_param r (ds' ! k) of Some p \<Rightarrow> if w \<in> set (p_outputs p) then Suc k else 0 | None \<Rightarrow> 0) =
        (case get_gate_param r (ds ! k) of Some p \<Rightarrow> if w \<in> set (p_outputs p) then Suc k else 0 | None \<Rightarrow> 0)"
      by simp
  qed
qed

lemma wire_level_output:
  assumes "ordered r ds" "k < length ds" "get_gate_param r (ds ! k) = Some p" "w \<in> set (p_outputs p)"
  shows "wire_level r ds w = Suc k"
proof -
  have "(case get_gate_param r (ds ! j) of Some p \<Rightarrow> (if w \<in> set (p_outputs p) then Suc j else 0) | None \<Rightarrow> 0) =
      (if j = k then Suc k else 0)" if j: "j < length ds" for j
  proof (cases "j = k")
    case False
    have "w \<notin> set (p_outputs q)" if "get_gate_param r (ds ! j) = Some q" for q
      using writes_apart[OF assms(1) j assms(2) that assms(3), of w] assms(4) False by (auto simp: gate_writes_def)
    then show ?thesis using False by (cases "get_gate_param r (ds ! j)") simp_all
  qed (use assms(3,4) in simp)
  then have "wire_level r ds w = (\<Sum>j<length ds. if j = k then Suc k else 0)"
    unfolding wire_level_def by (intro sum.cong) auto
  also have "\<dots> = Suc k" using assms(2) by simp
  finally show ?thesis .
qed

lemma wire_level_available:
  assumes "ordered r ds" "available r ks ds k w"
  shows "wire_level r ds w \<le> k"
proof (cases "\<exists>j < length ds. \<exists>p. get_gate_param r (ds ! j) = Some p \<and> w \<in> set (p_outputs p)")
  case True
  then obtain j p where j: "j < length ds" "get_gate_param r (ds ! j) = Some p" "w \<in> set (p_outputs p)" by blast
  then have "j < k" using assms(2) by (auto simp: available_def gate_writes_def)
  then show ?thesis using wire_level_output[OF assms(1) j] by simp
next
  case False
  then have "wire_level r ds w = 0" unfolding wire_level_def by (auto split: option.splits)
  then show ?thesis by simp
qed

lemma swapped_levels:
  fixes lev :: "wire \<Rightarrow> nat"
  assumes "lev new < lev old"
  shows "sum_list (map lev (map (swap_wire old new) ws)) + length (filter (\<lambda>w. w = old) ws) \<le> sum_list (map lev ws)"
  using assms by (induction ws) (auto simp: swap_wire_def)

lemma replaced_levels:
  assumes opt: "optimisable r g" and fwd: "forwardable r W (gg_wires g) (gg_gates g) old new"
    and L: "distinct L" "\<forall>i \<in> set L. i < length (gg_gates g)"
    and skip: "\<And>i p. i \<in> set L \<Longrightarrow> get_gate_param r (gg_gates g ! i) = Some p \<Longrightarrow> old \<notin> set (gate_writes p)"
    and lev: "lev new < lev old"
  shows "read_levels r lev (renamed_at (set L) (swap_wire old new) (gg_gates g)) +
      (\<Sum>i\<leftarrow>L. length (filter (\<lambda>w. w = old) (wires (gg_gates g ! i)))) \<le> read_levels r lev (gg_gates g)"
proof -
  let ?ds = "gg_gates g" and ?f = "swap_wire old new"
  define A where "A d = (case get_gate_param r d of Some p \<Rightarrow> sum_list (map lev (p_inputs p)) | None \<Rightarrow> 0)" for d
  define c where "c i = length (filter (\<lambda>w. w = old) (wires (?ds ! i)))" for i
  have as_sum: "read_levels r lev xs = (\<Sum>i<length xs. A (xs ! i))" for xs
    by (simp add: read_levels_def A_def sum_list_sum_nth atLeast0LessThan)
  have each: "A (renamed_at (set L) ?f ?ds ! i) + (if i \<in> set L then c i else 0) \<le> A (?ds ! i)" if i: "i < length ?ds" for i
  proof (cases "i \<in> set L")
    case True
    have ready: "graph_ready r g" using opt by (simp add: optimisable_def)
    obtain p where p: "get_gate_param r (?ds ! i) = Some p" "wires (?ds ! i) = param_wires p"
      by (rule ready_param[OF ready i])
    have fixed: "\<forall>w \<in> set (p_constants p @ gate_writes p). ?f w = w"
      by (rule forward_fixes[OF opt fwd i p(1) skip[OF True p(1)]])
    have "new \<noteq> old" using lev by blast
    then have no: "w \<noteq> old" if "w \<in> set (p_constants p @ gate_writes p)" for w
      using fixed that by (auto simp: swap_wire_def split: if_splits)
    then have "filter (\<lambda>w. w = old) (p_constants p) = []" "filter (\<lambda>w. w = old) (gate_writes p) = []"
      by (auto simp: filter_empty_conv)
    then have "c i = length (filter (\<lambda>w. w = old) (p_inputs p))"
      unfolding c_def p(2) param_wires_def filter_append by (simp add: gate_writes_def)
    moreover have "get_gate_param r (rename_gate ?f (?ds ! i)) = Some (p\<lparr>p_inputs := map ?f (p_inputs p)\<rparr>)"
      using same_gate_renamed[OF p(1) fixed] by (simp add: same_gate_def)
    ultimately show ?thesis
      using swapped_levels[of lev new old "p_inputs p", OF lev] True i p(1) by (simp add: renamed_at_nth A_def)
  qed (use i in \<open>simp add: renamed_at_nth\<close>)
  have "(\<Sum>i\<leftarrow>L. c i) = (\<Sum>i \<in> set L. c i)" by (rule sum_list_distinct_conv_sum_set[OF L(1)])
  also have "\<dots> = (\<Sum>i<length ?ds. if i \<in> set L then c i else 0)"
    using L(2) by (intro sum.mono_neutral_cong_left) auto
  finally have "(\<Sum>i\<leftarrow>L. c i) = (\<Sum>i<length ?ds. if i \<in> set L then c i else 0)" .
  moreover have "(\<Sum>i<length ?ds. A (renamed_at (set L) ?f ?ds ! i) + (if i \<in> set L then c i else 0)) \<le> (\<Sum>i<length ?ds. A (?ds ! i))"
    by (rule sum_mono) (use each in simp)
  ultimately show ?thesis by (simp add: as_sum sum.distrib c_def)
qed

section \<open>A sweep\<close>

text \<open>The state of a sweep: the gates agree with those the index was built from.\<close>

definition sweeping :: "hint_registry \<Rightarrow> (gate_data \<Rightarrow> (wire \<Rightarrow> u64) \<Rightarrow> bool) \<Rightarrow> gate_graph \<Rightarrow> gate_graph \<Rightarrow> bool" where
  "sweeping r W g0 g \<longleftrightarrow> agree r W (gg_wires g0) (gg_gates g0) (gg_gates g) \<and> reads_moved r g0 g \<and>
    gg_wires g = gg_wires g0 \<and> use_edges g = use_edges g0 \<and> use_offsets g = use_offsets g0"

definition indexed :: "hint_registry \<Rightarrow> gate_graph \<Rightarrow> bool" where
  "indexed r g \<longleftrightarrow> (\<forall>w. get_wire_uses g w = Some (if w < length (gg_wires g) then readers r (gg_gates g) w else []))"

lemma readers_spec:
  assumes "optimisable r g" "i \<in> set (readers r (gg_gates g) w)"
  shows "i < length (gg_gates g)" "get_gate_param r (gg_gates g ! i) = Some p \<Longrightarrow> w \<in> set (gate_uses p) \<and> w \<notin> set (gate_writes p)"
proof -
  show i: "i < length (gg_gates g)" using assms(2) by (simp add: readers_def)
  assume p: "get_gate_param r (gg_gates g ! i) = Some p"
  have "w \<in> set (gate_uses p)" using assms(2) p by (simp add: readers_def reads_of_def gate_reads_def gate_uses_def)
  moreover have "ordered r (gg_gates g)" using assms(1) by (simp add: optimisable_def graph_ready_def)
  ultimately show "w \<in> set (gate_uses p) \<and> w \<notin> set (gate_writes p)" using ordered_at(2)[OF _ i p] by auto
qed

lemma distinct_readers [simp]: "distinct (readers r ds w)"
  by (simp add: readers_def)

lemma optimisable_small: "optimisable r g \<Longrightarrow> length (gg_wires g) \<le> 2 ^ 26"
  by (simp add: optimisable_def graph_ready_def)

lemma forward_one:
  assumes opt: "optimisable r g0" and idx: "indexed r g0" and sw: "sweeping r W g0 g" and W: "by_words r W"
    and fwd: "forwardable r W (gg_wires g0) (gg_gates g0) old new" and ne: "new \<noteq> old"
  defines "lev \<equiv> wire_level r (gg_gates g0)"
  shows "\<exists>rep g'. replace_wire_with_wire old new g = Some (rep, g') \<and> sweeping r W g0 g' \<and>
    read_levels r lev (gg_gates g') + n_slots_rewritten rep \<le> read_levels r lev (gg_gates g)"
proof -
  let ?ks = "gg_wires g0"
  define L where "L = (if old < length (gg_wires g0) then readers r (gg_gates g0) old else [])"
  have ag: "agree r W ?ks (gg_gates g0) (gg_gates g)" and mv: "reads_moved r g0 g" and ks: "gg_wires g = ?ks"
    and ix: "use_edges g = use_edges g0" "use_offsets g = use_offsets g0"
    using sw by (simp_all add: sweeping_def)
  have opt': "optimisable r g" by (rule reads_moved_optimisable[OF opt mv]) (use optimisable_small[OF opt] ks in simp)
  have ord: "ordered r (gg_gates g0)" using opt by (simp add: optimisable_def graph_ready_def)
  note al = agree_alike[OF ag]
  have n: "length (gg_gates g) = length (gg_gates g0)" using al by (simp add: alike_def)
  have fwd': "forwardable r W (gg_wires g) (gg_gates g) old new" using forwardable_agree[OF ag W fwd] ks by simp
  have "get_wire_uses g = get_wire_uses g0" using ix by (simp add: get_wire_uses_def fun_eq_iff cong: option.case_cong)
  then have uses: "get_wire_uses g old = Some L" using idx by (simp add: indexed_def L_def)
  have L: "distinct L" "\<forall>i \<in> set L. i < length (gg_gates g)" using n by (auto simp: readers_def L_def)
  have skip: "old \<notin> set (gate_writes p)" if i: "i \<in> set L" "get_gate_param r (gg_gates g ! i) = Some p" for i p
  proof -
    have "i < length (gg_gates g0)" "i \<in> set (readers r (gg_gates g0) old)" using i(1) L(2) n by (auto simp: L_def split: if_splits)
    moreover from alike_param[OF al this(1)] obtain q where "get_gate_param r (gg_gates g0 ! i) = Some q" "gate_writes p = gate_writes q"
      using i(2) by (metis option.inject)
    ultimately show ?thesis using readers_spec(2)[OF opt] by auto
  qed
  define g' where "g' = g\<lparr>gg_gates := renamed_at (set L) (swap_wire old new) (gg_gates g)\<rparr>"
  define n where "n = (\<Sum>i\<leftarrow>L. length (filter (\<lambda>w. w = old) (wires (gg_gates g ! i))))"
  have step: "agree r W (gg_wires g) (gg_gates g) (gg_gates g')" "reads_moved r g g'"
    using forward_step[OF opt' fwd', of "set L"] skip by (simp_all add: g'_def)
  have "agree r W ?ks (gg_gates g0) (gg_gates g')" using agree_trans[OF ag _ W] step(1) ks by simp
  moreover have "reads_moved r g0 g'" by (rule reads_moved_trans[OF mv step(2)])
  ultimately have sw': "sweeping r W g0 g'" using ks ix by (simp add: sweeping_def g'_def)
  obtain k p where k: "k < length (gg_gates g0)" "get_gate_param r (gg_gates g0 ! k) = Some p" "old \<in> set (p_outputs p)"
    "available r ?ks (gg_gates g0) k new" using fwd by (auto simp: forwardable_def)
  have "lev new < lev old"
    using wire_level_available[OF ord k(4)] wire_level_output[OF ord k(1-3)] by (simp add: lev_def)
  from replaced_levels[OF opt' fwd' L skip this]
  have "read_levels r lev (gg_gates g') + n \<le> read_levels r lev (gg_gates g)" by (simp add: g'_def n_def)
  moreover have "replace_wire_with_wire old new g = Some (\<lparr>n_slots_rewritten = n, affected_gates = L\<rparr>, g')"
    unfolding replace_wire_with_wire_def using ne uses replace_in_spec[OF L, of old new] by (simp add: n_def g'_def)
  ultimately show ?thesis using sw' by (intro exI[of _ "\<lparr>n_slots_rewritten = n, affected_gates = L\<rparr>"] exI[of _ g']) simp
qed

lemma forward_all_spec:
  assumes opt: "optimisable r g0" and idx: "indexed r g0" and W: "by_words r W"
  defines "lev \<equiv> wire_level r (gg_gates g0)"
  shows "sweeping r W g0 g \<Longrightarrow>
    \<forall>(a, b) \<in> set fs. a = b \<or> forwardable r W (gg_wires g0) (gg_gates g0) a b \<Longrightarrow>
    \<exists>n g'. forward_all fs g = Some (n, g') \<and> sweeping r W g0 g' \<and>
      read_levels r lev (gg_gates g') + n \<le> read_levels r lev (gg_gates g)"
proof (induction fs arbitrary: g)
  case (Cons f fs)
  obtain a b where f: "f = (a, b)" by (cases f)
  have "\<exists>rep g'. replace_wire_with_wire a b g = Some (rep, g') \<and> sweeping r W g0 g' \<and>
      read_levels r lev (gg_gates g') + n_slots_rewritten rep \<le> read_levels r lev (gg_gates g)"
  proof (cases "a = b")
    case True
    then show ?thesis using Cons.prems(1) by (simp add: replace_wire_with_wire_def)
  next
    case False
    then have "forwardable r W (gg_wires g0) (gg_gates g0) a b" "b \<noteq> a" using Cons.prems(2) f by auto
    from forward_one[OF opt idx Cons.prems(1) W this] show ?thesis by (simp add: lev_def)
  qed
  then obtain rep g1 where 1: "replace_wire_with_wire a b g = Some (rep, g1)" "sweeping r W g0 g1"
    "read_levels r lev (gg_gates g1) + n_slots_rewritten rep \<le> read_levels r lev (gg_gates g)" by blast
  from Cons.IH[OF 1(2)] Cons.prems(2) obtain m g2 where "forward_all fs g1 = Some (m, g2)" "sweeping r W g0 g2"
    "read_levels r lev (gg_gates g2) + m \<le> read_levels r lev (gg_gates g1)" by auto
  then show ?case using 1 f by simp
qed simp

lemma const_available:
  assumes "optimisable r g" "w < length (gg_wires g)" "gg_wires g ! w = KConstant c"
  shows "available r (gg_wires g) (gg_gates g) i w"
proof -
  have "w \<notin> set (gate_writes p)" if "j < length (gg_gates g)" "get_gate_param r (gg_gates g ! j) = Some p" for j p
  proof -
    have "gate_ready r (gg_wires g) (gg_gates g ! j)" using assms(1) that(1) by (simp add: optimisable_def graph_ready_def)
    then show ?thesis using that(2) assms(3) by (auto simp: gate_ready_def consts_kept_def)
  qed
  then show ?thesis using assms(2,3) by (auto simp: available_def loose_kind_def)
qed

lemma gather_spec:
  assumes opt: "optimisable r g" and zero: "zero < length (gg_wires g)" "gg_wires g ! zero = KConstant 0"
  shows "\<forall>i \<in> set is'. i < length (gg_gates g) \<Longrightarrow>
    \<exists>fs. gather g is' zero pinned r = Some fs \<and>
      (\<forall>(a, b) \<in> set fs. a = b \<or> forwardable r (op_done r) (gg_wires g) (gg_gates g) a b)"
proof (induction is')
  case (Cons i is')
  let ?ks = "gg_wires g" and ?ds = "gg_gates g"
  obtain fs where fs: "gather g is' zero pinned r = Some fs"
    "\<forall>(a, b) \<in> set fs. a = b \<or> forwardable r (op_done r) ?ks ?ds a b" using Cons by auto
  have i: "i < length ?ds" using Cons.prems by simp
  have ready: "graph_ready r g" using opt by (simp add: optimisable_def)
  obtain p where p: "get_gate_param r (?ds ! i) = Some p" "gate_ready r ?ks (?ds ! i)" by (rule ready_param[OF ready i])
  have "forwardable r (op_done r) ?ks ?ds a b"
    if rule: "body (?ds ! i) = Op opcode" "zero_rule opcode zero (p_inputs p) (p_outputs p) = Some ps" "(a, b) \<in> set ps" "a \<noteq> b"
    for opcode ps a b
  proof -
    note sound = zero_rule_sound[OF rule(2-4)]
    have "available r ?ks ?ds i b"
      using sound(2) const_available[OF opt zero] uses_available[OF opt i p(1)] by (auto simp: gate_uses_def)
    moreover have "\<sigma> b = \<sigma> a" if "consts_hold ?ks \<sigma>" "\<forall>j \<le> i. op_done r (?ds ! j) \<sigma>" for \<sigma>
    proof (rule sound(3))
      show "gate_done r (?ds ! i) p \<sigma>" using that(2) rule(1) p(1) by (auto simp: op_done_def gate_run_def)
      show "\<sigma> zero = 0" using that(1) zero by (auto simp: consts_hold_def)
    qed (use p rule in \<open>simp_all add: gate_ready_def\<close>)
    ultimately show ?thesis using i p(1) sound(1) unfolding forwardable_def by blast
  qed
  then have "\<exists>ps. zero_identity g i zero pinned r = Some ps \<and>
      (\<forall>qs. ps = Some qs \<longrightarrow> (\<forall>(a, b) \<in> set qs. a = b \<or> forwardable r (op_done r) ?ks ?ds a b))"
    using i p(1) by (auto simp: zero_identity_def read_at_def split: gate_body.splits if_splits)
  then obtain ps where ps: "zero_identity g i zero pinned r = Some ps"
    "\<forall>qs. ps = Some qs \<longrightarrow> (\<forall>(a, b) \<in> set qs. a = b \<or> forwardable r (op_done r) ?ks ?ds a b)" by blast
  have "gather g (i # is') zero pinned r = Some ((case ps of Some qs \<Rightarrow> qs | None \<Rightarrow> []) @ fs)"
    using ps(1) fs(1) by simp
  moreover have "\<forall>(a, b) \<in> set ((case ps of Some qs \<Rightarrow> qs | None \<Rightarrow> []) @ fs). a = b \<or> forwardable r (op_done r) ?ks ?ds a b"
    using ps(2) fs(2) by (cases ps) (simp_all add: ball_Un)
  ultimately show ?case by blast
qed simp

lemma rebuilt:
  assumes "optimisable r g"
  obtains g' where "rebuild_wire_uses r g = Some g'" "optimisable r g'" "indexed r g'" "gg_gates g' = gg_gates g" "gg_wires g' = gg_wires g"
    "reads_moved r g g'" "wire_def g' = wire_def g"
proof -
  have wf: "graph_wf r g" using assms by (simp add: optimisable_def)
  obtain g' where g': "rebuild_wire_uses r g = Some g'" "gg_gates g' = gg_gates g" "gg_wires g' = gg_wires g"
    "const_pool g' = const_pool g" "all_one g' = all_one g" "wire_def g' = wire_def g"
    "\<forall>w. get_wire_uses g' w = Some (if w < length (gg_wires g) then readers r (gg_gates g) w else [])"
    using rebuild_wire_uses_spec[OF wf_readable[OF wf]] by blast
  have names: "gate_origin g' = gate_origin g" "assertion_names g' = assertion_names g"
    using g'(1) by (auto simp: rebuild_wire_uses_def Let_def bind_eq_Some_conv)
  have mv: "reads_moved r g g'"
    using reads_moved_refl[OF assms] g' names by (simp add: reads_moved_def graph_wf_def)
  moreover have "optimisable r g'"
    by (rule reads_moved_optimisable[OF assms mv]) (use g' optimisable_small[OF assms] in simp)
  ultimately show ?thesis using that g' by (simp add: indexed_def)
qed

lemma zero_sweeps_spec:
  "optimisable r g \<Longrightarrow> zero < length (gg_wires g) \<Longrightarrow> gg_wires g ! zero = KConstant 0 \<Longrightarrow>
    \<exists>m g'. zero_sweeps r pinned zero n g = Some (m, g') \<and> optimisable r g' \<and> reads_moved r g g' \<and> gg_wires g' = gg_wires g \<and>
      agree r (op_done r) (gg_wires g) (gg_gates g) (gg_gates g')"
proof (induction "read_levels r (wire_level r (gg_gates g)) (gg_gates g)" arbitrary: g n rule: less_induct)
  case less
  obtain g1 where 1: "rebuild_wire_uses r g = Some g1" "optimisable r g1" "indexed r g1" "gg_gates g1 = gg_gates g"
    "gg_wires g1 = gg_wires g" "reads_moved r g g1" by (rule rebuilt[OF less.prems(1)])
  obtain fs where fs: "gather g1 [0..<length (gg_gates g1)] zero pinned r = Some fs"
    "\<forall>(a, b) \<in> set fs. a = b \<or> forwardable r (op_done r) (gg_wires g1) (gg_gates g1) a b"
    using gather_spec[OF 1(2), of zero "[0..<length (gg_gates g1)]"] less.prems(2,3) 1(5) by auto
  have "\<forall>d \<in> set (gg_gates g1). get_gate_param r d \<noteq> None"
    using 1(2) ready_param[of r g1] by (fastforce simp: optimisable_def in_set_conv_nth)
  then have "sweeping r (op_done r) g1 g1" using agree_refl reads_moved_refl[OF 1(2)] by (simp add: sweeping_def)
  from forward_all_spec[OF 1(2,3) by_words_op this fs(2)] obtain m g2 where 2: "forward_all fs g1 = Some (m, g2)"
    "sweeping r (op_done r) g1 g2"
    "read_levels r (wire_level r (gg_gates g1)) (gg_gates g2) + m \<le> read_levels r (wire_level r (gg_gates g1)) (gg_gates g1)" by blast
  have ag: "agree r (op_done r) (gg_wires g) (gg_gates g) (gg_gates g2)" and mv: "reads_moved r g g2" and ks: "gg_wires g2 = gg_wires g"
    using 2(2) 1 reads_moved_trans by (auto simp: sweeping_def)
  have opt2: "optimisable r g2"
    by (rule reads_moved_optimisable[OF less.prems(1) mv]) (use optimisable_small[OF less.prems(1)] ks in simp)
  have unfold: "zero_sweeps r pinned zero n g = (if m = 0 then Some (n, g2) else zero_sweeps r pinned zero (n + m) g2)"
    by (subst zero_sweeps.simps) (simp add: 1(1) fs(1) 2(1))
  show ?case
  proof (cases "m = 0")
    case True
    then show ?thesis using unfold opt2 mv ks ag by simp
  next
    case False
    have lev: "wire_level r (gg_gates g2) = wire_level r (gg_gates g)" by (rule wire_level_alike[OF agree_alike[OF ag]])
    have "read_levels r (wire_level r (gg_gates g2)) (gg_gates g2) < read_levels r (wire_level r (gg_gates g)) (gg_gates g)"
      using 2(3) False 1(4) lev by simp
    from less.hyps[OF this opt2] less.prems(2,3) ks obtain k g3 where
      "zero_sweeps r pinned zero (n + m) g2 = Some (k, g3)" "optimisable r g3" "reads_moved r g2 g3" "gg_wires g3 = gg_wires g"
      "agree r (op_done r) (gg_wires g) (gg_gates g2) (gg_gates g3)" by fastforce
    then show ?thesis using unfold False reads_moved_trans[OF mv] agree_trans[OF ag _ by_words_op] by auto
  qed
qed

lemma zero_propagation_spec:
  assumes "optimisable r g"
  shows "\<exists>m g'. zero_propagation g pinned r = Some (m, g') \<and> optimisable r g' \<and> reads_moved r g g' \<and> gg_wires g' = gg_wires g \<and>
    agree r (op_done r) (gg_wires g) (gg_gates g) (gg_gates g')"
proof (cases "const_pool g 0")
  case None
  have "\<forall>d \<in> set (gg_gates g). get_gate_param r d \<noteq> None"
    using assms ready_param[of r g] by (fastforce simp: optimisable_def in_set_conv_nth)
  then show ?thesis using None assms agree_refl reads_moved_refl
    by (auto simp: zero_propagation_def find_zero_constant_def ZERO_def)
next
  case (Some zero)
  then have "zero < length (gg_wires g)" "gg_wires g ! zero = KConstant 0"
    using assms by (auto simp: optimisable_def graph_wf_def)
  from zero_sweeps_spec[OF assms this] show ?thesis
    using Some by (simp add: zero_propagation_def find_zero_constant_def ZERO_def)
qed

end
