(* ===== verification/Const_Prop.thy ===== *)
theory Const_Prop
  imports Zero_Fold
begin

text \<open>
  Constant propagation (\<open>pass/const_prop.rs\<close>): a gate whose inputs are all constants is evaluated,
  and the readers of its outputs are moved to constant wires, from a worklist.  A violation is the
  error of a gate that always fails.  \<open>None\<close> is a panic, or a worklist that never empties.
\<close>

section \<open>Definitions\<close>

text \<open>The inputs' constants; \<open>Some None\<close> when an input is not a constant.\<close>

fun constant_inputs :: "gate_graph \<Rightarrow> wire list \<Rightarrow> u64 list option option" where
  "constant_inputs g [] = Some (Some [])"
| "constant_inputs g (w # ws) =
    (case wire_kind_of g w of
       None \<Rightarrow> None
     | Some (KConstant c) \<Rightarrow> map_option (map_option ((#) c)) (constant_inputs g ws)
     | Some _ \<Rightarrow> Some None)"

definition try_evaluate_gate_with_constants ::
  "gate_graph \<Rightarrow> gate \<Rightarrow> hint_registry \<Rightarrow> (violation, u64 list) outcome option option" where
  "try_evaluate_gate_with_constants g gate r = do {
    d \<leftarrow> read_at (gg_gates g) gate;
    p \<leftarrow> get_gate_param r d;
    ins \<leftarrow> constant_inputs g (p_inputs p);
    Some (map_option (\<lambda>cs. evaluate_gate_constants g gate cs r) ins)
  }"

record prop_state =
  cp_graph :: gate_graph
  cp_work :: "gate list"
  cp_in :: "gate set"
  cp_replaced :: nat

fun enqueue :: "gate list \<Rightarrow> gate list \<times> gate set \<Rightarrow> gate list \<times> gate set" where
  "enqueue [] q = q"
| "enqueue (gate # gates) (work, present) =
    enqueue gates (if gate \<in> present then (work, present) else (work @ [gate], insert gate present))"

fun seed_worklist :: "gate_graph \<Rightarrow> (wire \<times> wire_kind) list \<Rightarrow> gate list \<times> gate set \<Rightarrow> (gate list \<times> gate set) option" where
  "seed_worklist g [] q = Some q"
| "seed_worklist g ((w, k) # ws) q = do {
    gates \<leftarrow> get_wire_uses g w;
    seed_worklist g ws (enqueue gates q)
  }"

definition replace_output :: "wire \<Rightarrow> u64 \<Rightarrow> prop_state \<Rightarrow> prop_state option" where
  "replace_output w v st = do {
    (rep, g) \<leftarrow> replace_wire_with_constant w v (cp_graph st);
    let st = st\<lparr>cp_graph := g\<rparr>;
    Some (if n_slots_rewritten rep > 0
      then let (work, present) = enqueue (sort (affected_gates rep)) (cp_work st, cp_in st)
        in st\<lparr>cp_work := work, cp_in := present, cp_replaced := cp_replaced st + n_slots_rewritten rep\<rparr>
      else st)
  }"

fun replace_outputs :: "wire list \<Rightarrow> u64 list \<Rightarrow> prop_state \<Rightarrow> prop_state option" where
  "replace_outputs [] vs st = Some st"
| "replace_outputs (w # ws) vs st = do {
    k \<leftarrow> wire_kind_of (cp_graph st) w;
    st \<leftarrow> (if is_const k then Some st
      else case vs of v # _ \<Rightarrow> replace_output w v st | [] \<Rightarrow> None);
    replace_outputs ws (tl vs) st
  }"

partial_function (option) propagate ::
  "hint_registry \<Rightarrow> prop_state \<Rightarrow> (gate \<times> violation + prop_state) option" where
  "propagate r st =
    (case cp_work st of
       [] \<Rightarrow> Some (Inr st)
     | gate # work \<Rightarrow> do {
         let st = st\<lparr>cp_work := work, cp_in := cp_in st - {gate}\<rparr>;
         res \<leftarrow> try_evaluate_gate_with_constants (cp_graph st) gate r;
         case res of
           None \<Rightarrow> propagate r st
         | Some (Ok vs) \<Rightarrow> do {
             d \<leftarrow> read_at (gg_gates (cp_graph st)) gate;
             p \<leftarrow> get_gate_param r d;
             st \<leftarrow> replace_outputs (p_outputs p) vs st;
             propagate r st
           }
         | Some (Err reason) \<Rightarrow> Some (Inl (gate, reason))
         | Some Panic \<Rightarrow> None
       })"

declare propagate.simps [code]

definition constant_propagation :: "gate_graph \<Rightarrow> hint_registry \<Rightarrow> (gate \<times> violation + nat \<times> gate_graph) option" where
  "constant_propagation g r = do {
    g \<leftarrow> rebuild_use_def_chains r g;
    (work, present) \<leftarrow> seed_worklist g (iter_const_wires g) ([], {});
    res \<leftarrow> propagate r \<lparr>cp_graph = g, cp_work = work, cp_in = present, cp_replaced = 0\<rparr>;
    Some (map_sum id (\<lambda>st. (cp_replaced st, cp_graph st)) res)
  }"

section \<open>Valuations over more constants\<close>

text \<open>A valuation extends to the constants a pass adds.\<close>

definition extend :: "wire_kind list \<Rightarrow> u64 list \<Rightarrow> (wire \<Rightarrow> u64) \<Rightarrow> wire \<Rightarrow> u64" where
  "extend ks cs \<sigma> w = (if w < length ks then \<sigma> w else if w < length ks + length cs then cs ! (w - length ks) else \<sigma> w)"

lemma consts_hold_extend: "consts_hold ks \<sigma> \<Longrightarrow> consts_hold (ks @ map KConstant cs) (extend ks cs \<sigma>)"
  unfolding consts_hold_def
proof (intro allI impI)
  fix w assume ks: "\<forall>w < length ks. case ks ! w of KConstant c \<Rightarrow> \<sigma> w = c | _ \<Rightarrow> True" and w: "w < length (ks @ map KConstant cs)"
  show "case (ks @ map KConstant cs) ! w of KConstant c \<Rightarrow> extend ks cs \<sigma> w = c | _ \<Rightarrow> True"
  proof (cases "w < length ks")
    case True
    with ks have "case ks ! w of KConstant c \<Rightarrow> \<sigma> w = c | _ \<Rightarrow> True" by blast
    then show ?thesis using True by (cases "ks ! w") (simp_all add: nth_append extend_def)
  qed (use w in \<open>simp add: nth_append extend_def\<close>)
qed

lemma gate_run_below:
  assumes "gate_wf r ks d" "\<And>w. w < length ks \<Longrightarrow> \<sigma>' w = \<sigma> w"
  shows "gate_run r d \<sigma>' = gate_run r d \<sigma>"
proof -
  obtain p where p: "get_gate_param r d = Some p" "wires d = param_wires p"
    by (rule validated_gate_param[of r d]) (use assms(1) in \<open>auto simp: gate_wf_def\<close>)
  have "\<sigma>' w = \<sigma> w" if "w \<in> set (gate_uses p @ gate_writes p)" for w
  proof (rule assms(2))
    have "w \<in> set (wires d)" using that p(2) by (auto simp: param_wires_def gate_uses_def gate_writes_def)
    then show "w < length ks" using assms(1) by (simp add: gate_wf_def)
  qed
  from gate_done_cong(1)[OF this] show ?thesis by (simp add: gate_run_def p(1))
qed

lemma gate_run_extend:
  assumes "optimisable r g" "d \<in> set (gg_gates g)"
  shows "gate_run r d (extend (gg_wires g) cs \<sigma>) = gate_run r d \<sigma>"
proof (rule gate_run_below)
  show "gate_wf r (gg_wires g) d" using assms by (simp add: optimisable_def graph_ready_def gate_ready_def)
qed (simp add: extend_def)

section \<open>What the pass keeps\<close>

lemma gate_sat_moved:
  assumes "same_gate r d d' p p'" "map \<sigma> (p_inputs p') = map \<rho> (p_inputs p)"
    and "map \<sigma> (p_outputs p) = map \<rho> (p_outputs p)" "map \<sigma> (p_aux p) = map \<rho> (p_aux p)"
  shows "gate_sat r d' \<sigma> = gate_sat r d \<rho>"
proof -
  have "body d' = body d" "get_gate_param r d' = Some p'" "get_gate_param r d = Some p"
    using assms(1) by (simp_all add: same_gate_def)
  then show ?thesis
    by (simp add: gate_sat_def gate_holds_def same_gate_fields[OF assms(1)] assms(2-4) del: map_eq_conv split: gate_body.splits)
qed

definition hint_outs :: "hint_registry \<Rightarrow> gate_data list \<Rightarrow> wire set" where
  "hint_outs r ds = (\<Union>d \<in> set ds. case body d of Op _ \<Rightarrow> {} | HintCall _ \<Rightarrow> (\<Union>p \<in> set_option (get_gate_param r d). set (p_outputs p)))"

definition all_outs :: "hint_registry \<Rightarrow> gate_data list \<Rightarrow> wire set" where
  "all_outs r ds = (\<Union>d \<in> set ds. \<Union>p \<in> set_option (get_gate_param r d). set (p_outputs p))"

text \<open>\<open>upholds r ks ds ks' ds' H\<close>: what satisfies the gates \<open>ds'\<close> satisfies the gates \<open>ds\<close> once the words of
  \<open>H\<close> are chosen anew.\<close>

definition upholds :: "hint_registry \<Rightarrow> wire_kind list \<Rightarrow> gate_data list \<Rightarrow> wire_kind list \<Rightarrow> gate_data list \<Rightarrow> wire set \<Rightarrow> bool" where
  "upholds r ks ds ks' ds' H \<longleftrightarrow> (\<forall>\<sigma>. consts_hold ks' \<sigma> \<longrightarrow> (\<forall>d \<in> set ds'. gate_sat r d \<sigma>) \<longrightarrow>
    (\<exists>\<sigma>'. consts_hold ks \<sigma>' \<and> (\<forall>d \<in> set ds. gate_sat r d \<sigma>') \<and> (\<forall>w. w \<notin> H \<longrightarrow> \<sigma>' w = \<sigma> w)))"

lemma upholds_trans:
  assumes "upholds r ks ds ks' ds' H" "upholds r ks' ds' ks'' ds'' H"
  shows "upholds r ks ds ks'' ds'' H"
  unfolding upholds_def
proof (intro allI impI)
  fix \<sigma> assume "consts_hold ks'' \<sigma>" "\<forall>d \<in> set ds''. gate_sat r d \<sigma>"
  then obtain \<sigma>1 where 1: "consts_hold ks' \<sigma>1" "\<forall>d \<in> set ds'. gate_sat r d \<sigma>1" "\<forall>w. w \<notin> H \<longrightarrow> \<sigma>1 w = \<sigma> w"
    using assms(2) unfolding upholds_def by blast
  then obtain \<sigma>2 where "consts_hold ks \<sigma>2" "\<forall>d \<in> set ds. gate_sat r d \<sigma>2" "\<forall>w. w \<notin> H \<longrightarrow> \<sigma>2 w = \<sigma>1 w"
    using assms(1) unfolding upholds_def by blast
  with 1(3) show "\<exists>\<sigma>'. consts_hold ks \<sigma>' \<and> (\<forall>d \<in> set ds. gate_sat r d \<sigma>') \<and> (\<forall>w. w \<notin> H \<longrightarrow> \<sigma>' w = \<sigma> w)" by auto
qed

lemma upholds_mono: "upholds r ks ds ks' ds' H \<Longrightarrow> H \<subseteq> Y \<Longrightarrow> upholds r ks ds ks' ds' Y"
  unfolding upholds_def by blast

lemma upholds_agree: "agree r (op_done r) ks ds ds' \<Longrightarrow> upholds r ks ds ks ds' H"
  unfolding upholds_def using agree_all[of r "op_done r" ks ds ds' "gate_sat r", OF _ by_words_sat sat_op_done] by blast

lemma hint_outs_alike:
  assumes "alike r ds ds'"
  shows "hint_outs r ds' = hint_outs r ds" "all_outs r ds' = all_outs r ds"
proof -
  have n: "length ds' = length ds" using assms by (simp add: alike_def)
  have eq: "body (ds' ! i) = body (ds ! i) \<and> (\<Union>p \<in> set_option (get_gate_param r (ds' ! i)). set (p_outputs p)) =
      (\<Union>p \<in> set_option (get_gate_param r (ds ! i)). set (p_outputs p))" if "i < length ds" for i
    by (rule alike_param[OF assms that]) (simp add: same_gate_def)
  have nth: "(\<Union>d \<in> set xs. F d) = (\<Union>i<length xs. F (xs ! i))" for xs :: "gate_data list" and F :: "gate_data \<Rightarrow> wire set"
    by (auto simp: set_conv_nth)
  show "hint_outs r ds' = hint_outs r ds" "all_outs r ds' = all_outs r ds"
    unfolding hint_outs_def all_outs_def nth n using eq by (auto split: gate_body.splits)
qed

text \<open>Constant inputs.\<close>

lemma constant_inputs_total:
  "\<forall>w \<in> set ws. w < length (gg_wires g) \<Longrightarrow> constant_inputs g ws \<noteq> None"
  by (induction ws) (auto simp: wire_kind_of_def read_at_def split: wire_kind.splits)

lemma constant_inputs_Some:
  "constant_inputs g ws = Some (Some cs) \<Longrightarrow>
    length cs = length ws \<and> (\<forall>w \<in> set ws. w < length (gg_wires g) \<and> is_const (gg_wires g ! w)) \<and>
    (\<forall>\<sigma>. consts_hold (gg_wires g) \<sigma> \<longrightarrow> map \<sigma> ws = cs)"
proof (induction ws arbitrary: cs)
  case (Cons w ws)
  then obtain c cs' where c: "w < length (gg_wires g)" "gg_wires g ! w = KConstant c" "constant_inputs g ws = Some (Some cs')" "cs = c # cs'"
    by (auto simp: wire_kind_of_def read_at_def split: option.splits wire_kind.splits if_splits)
  from Cons.IH[OF c(3)] c show ?case by (auto simp: consts_hold_def)
qed simp

text \<open>Replacing the output of a gate of constant inputs, over a graph that holds the constant.\<close>

lemma evaluated_output:
  assumes "get_gate_param r d = Some p" "gate_value r d cs = Ok vs" "m < length (p_outputs p)"
    "constant_inputs g (p_inputs p) = Some (Some cs)" "consts_hold (gg_wires g) \<sigma>" "gate_run r d \<sigma>"
  shows "\<sigma> (p_outputs p ! m) = vs ! m"
proof -
  have "map \<sigma> (p_inputs p) = cs" using constant_inputs_Some[OF assms(4)] assms(5) by blast
  then have "map \<sigma> (p_outputs p) = vs" using assms(1,2,6) by (simp add: gate_run_def gate_done_def)
  then show ?thesis using assms(3) by auto
qed

lemma evaluated_forwardable:
  assumes opt: "optimisable r g" and k: "k < length (gg_gates g)" "get_gate_param r (gg_gates g ! k) = Some p"
    and val: "gate_value r (gg_gates g ! k) cs = Ok vs" "m < length (p_outputs p)"
    and ins: "constant_inputs g (p_inputs p) = Some (Some cs)"
    and c: "c < length (gg_wires g)" "gg_wires g ! c = KConstant (vs ! m)"
    and W: "\<And>\<sigma>. W (gg_gates g ! k) \<sigma> \<Longrightarrow> gate_run r (gg_gates g ! k) \<sigma>"
  shows "forwardable r W (gg_wires g) (gg_gates g) (p_outputs p ! m) c"
proof -
  have "\<sigma> c = \<sigma> (p_outputs p ! m)" if "consts_hold (gg_wires g) \<sigma>" "\<forall>j \<le> k. W (gg_gates g ! j) \<sigma>" for \<sigma>
    using evaluated_output[OF k(2) val ins that(1) W] that c by (auto simp: consts_hold_def)
  then show ?thesis using k val(2) const_available[OF opt c] unfolding forwardable_def by auto
qed

text \<open>The step for a hint: its outputs are unconstrained, so their words may be the constants.\<close>

lemma hint_output_upholds:
  assumes opt: "optimisable r g" and k: "k < length (gg_gates g)" "get_gate_param r (gg_gates g ! k) = Some p"
    "body (gg_gates g ! k) = HintCall h" "out \<in> set (p_outputs p)"
    and c: "c < length (gg_wires g)" "gg_wires g ! c = KConstant v"
    and L: "\<And>i q. i < length (gg_gates g) \<Longrightarrow> get_gate_param r (gg_gates g ! i) = Some q \<Longrightarrow> out \<in> set (p_inputs q) \<Longrightarrow> i \<in> L"
    and skip: "\<And>i q. i \<in> L \<Longrightarrow> i < length (gg_gates g) \<Longrightarrow> get_gate_param r (gg_gates g ! i) = Some q \<Longrightarrow> out \<notin> set (gate_writes q)"
    and fwd: "forwardable r W (gg_wires g) (gg_gates g) out c"
  shows "upholds r (gg_wires g) (gg_gates g) (gg_wires g) (renamed_at L (swap_wire out c) (gg_gates g)) {out}"
  unfolding upholds_def
proof (intro allI impI)
  let ?ks = "gg_wires g" and ?ds = "gg_gates g" and ?f = "swap_wire out c"
  fix \<sigma> assume ch: "consts_hold ?ks \<sigma>" and sat: "\<forall>d \<in> set (renamed_at L ?f ?ds). gate_sat r d \<sigma>"
  have ready: "graph_ready r g" and ord: "ordered r ?ds" using opt by (simp_all add: optimisable_def graph_ready_def)
  let ?\<sigma> = "\<sigma>(out := v)"
  have cv: "\<sigma> c = v" using ch c by (auto simp: consts_hold_def)
  have "gate_ready r ?ks (?ds ! k)" using ready k(1) by (simp add: graph_ready_def)
  then have nc: "\<not> is_const (?ks ! out)" using k(2,4) by (auto simp: gate_ready_def consts_kept_def gate_writes_def)
  then have ch': "consts_hold ?ks ?\<sigma>" using ch by (auto simp: consts_hold_def split: wire_kind.splits)
  have "gate_sat r (?ds ! i) ?\<sigma>" if i: "i < length ?ds" for i
  proof (cases "i = k")
    case True
    then show ?thesis using k(3) by (simp add: gate_sat_def)
  next
    case False
    obtain q where q: "get_gate_param r (?ds ! i) = Some q" by (rule ready_param[OF ready i])
    have fresh: "out \<notin> set (gate_writes q)"
      using writes_apart[OF ord i k(1) q k(2), of out] False k(4) by (auto simp: gate_writes_def)
    have "?\<sigma> w = \<sigma> w" if "w \<in> set (gate_writes q)" for w using fresh that by auto
    then have outs: "map ?\<sigma> (p_outputs q) = map \<sigma> (p_outputs q)" "map ?\<sigma> (p_aux q) = map \<sigma> (p_aux q)"
      by (auto simp: gate_writes_def)
    let ?d = "renamed_at L ?f ?ds ! i"
    have sat_i: "gate_sat r ?d \<sigma>" using sat i by simp
    have "\<exists>q'. same_gate r (?ds ! i) ?d q q' \<and> map \<sigma> (p_inputs q') = map ?\<sigma> (p_inputs q)"
    proof (cases "i \<in> L")
      case True
      have "same_gate r (?ds ! i) ?d q (q\<lparr>p_inputs := map ?f (p_inputs q)\<rparr>)"
        using same_gate_renamed[OF q forward_fixes[OF opt fwd i q fresh]] True i by (simp add: renamed_at_nth)
      moreover have "map \<sigma> (map ?f (p_inputs q)) = map ?\<sigma> (p_inputs q)" using cv by (auto simp: swap_wire_def)
      ultimately show ?thesis by (intro exI[of _ "q\<lparr>p_inputs := map ?f (p_inputs q)\<rparr>"]) simp
    next
      case False
      then have "out \<notin> set (p_inputs q)" using L[OF i q] by blast
      then show ?thesis using False i q by (auto simp: renamed_at_nth same_gate_def)
    qed
    then obtain q' where q': "same_gate r (?ds ! i) ?d q q'" "map \<sigma> (p_inputs q') = map ?\<sigma> (p_inputs q)" by blast
    show ?thesis using gate_sat_moved[OF q' outs[symmetric]] sat_i by simp
  qed
  then have "\<forall>d \<in> set ?ds. gate_sat r d ?\<sigma>" by (auto simp: in_set_conv_nth)
  then show "\<exists>\<sigma>'. consts_hold ?ks \<sigma>' \<and> (\<forall>d \<in> set ?ds. gate_sat r d \<sigma>') \<and> (\<forall>w. w \<notin> {out} \<longrightarrow> \<sigma>' w = \<sigma> w)"
    using ch' by (intro exI[of _ ?\<sigma>]) simp
qed

section \<open>The number of constants added\<close>

lemma kept_run_consts:
  "\<forall>d \<in> set ds. consts_kept r ks d \<Longrightarrow> consts_hold ks \<sigma> \<Longrightarrow> consts_hold ks (fst (graph_run r names gate ds \<sigma>))"
proof (induction ds arbitrary: gate \<sigma>)
  case (Cons d ds)
  show ?case
  proof (cases "get_gate_param r d")
    case (Some p)
    have "consts_hold ks (fst (gate_effect r d p \<sigma>))" using consts_hold_effect[OF _ Some] Cons.prems by simp
    then show ?thesis using Cons Some by (simp add: split_def)
  qed (use Cons.prems in simp)
qed simp

lemma run_exists:
  assumes "optimisable r g"
  obtains \<tau> where "consts_hold (gg_wires g) \<tau>" "\<forall>d \<in> set (gg_gates g). gate_run r d \<tau>"
proof -
  let ?ks = "gg_wires g" and ?ds = "gg_gates g"
  define \<sigma> :: "wire \<Rightarrow> u64" where "\<sigma> w = (case ?ks ! w of KConstant c \<Rightarrow> c | _ \<Rightarrow> 0)" for w
  have ready: "graph_ready r g" using assms by (simp add: optimisable_def)
  then have rd: "registry_ok r" "ordered r ?ds" "\<forall>d \<in> set ?ds. gate_ready r ?ks d" by (simp_all add: graph_ready_def)
  let ?\<tau> = "fst (graph_run r (\<lambda>_. 0) 0 ?ds \<sigma>)"
  have "consts_hold ?ks \<sigma>" by (auto simp: consts_hold_def \<sigma>_def split: wire_kind.splits)
  then have "consts_hold ?ks ?\<tau>" using kept_run_consts rd(3) by (simp add: gate_ready_def)
  moreover have "\<forall>d \<in> set ?ds. gate_run r d ?\<tau>"
  proof
    fix d assume d: "d \<in> set ?ds"
    obtain p where "get_gate_param r d = Some p"
      using rd(3) d by (auto simp: gate_ready_def gate_wf_def elim!: validated_gate_param)
    moreover have "\<forall>d \<in> set ?ds. gate_wf r ?ks d \<and> gate_imm_ok d" using rd(3) by (simp add: gate_ready_def)
    ultimately show "gate_run r d ?\<tau>" using conjunct1[OF run_done[OF rd(1) _ rd(2) refl]] d unfolding gate_run_def by blast
  qed
  ultimately show ?thesis by (rule that)
qed

definition added_consts :: "hint_registry \<Rightarrow> gate_graph \<Rightarrow> gate_graph \<Rightarrow> bool" where
  "added_consts r g0 g \<longleftrightarrow> (\<forall>w. length (gg_wires g0) \<le> w \<longrightarrow> w < length (gg_wires g) \<longrightarrow>
    (\<exists>c. \<exists>out \<in> all_outs r (gg_gates g0). gg_wires g ! w = KConstant c \<and>
      (\<forall>\<tau>. consts_hold (gg_wires g0) \<tau> \<longrightarrow> (\<forall>d \<in> set (gg_gates g0). gate_run r d \<tau>) \<longrightarrow> \<tau> out = c)))"

lemma finite_all_outs [simp]: "finite (all_outs r ds)"
  by (auto simp: all_outs_def)

lemma added_consts_room:
  assumes opt: "optimisable r g0" and add: "added_consts r g0 g" and wf: "graph_wf r g"
    and grow: "length (gg_wires g0) \<le> length (gg_wires g)"
  shows "length (gg_wires g) \<le> length (gg_wires g0) + card (all_outs r (gg_gates g0))"
proof -
  let ?n = "length (gg_wires g0)" and ?m = "length (gg_wires g)"
  obtain \<tau> where \<tau>: "consts_hold (gg_wires g0) \<tau>" "\<forall>d \<in> set (gg_gates g0). gate_run r d \<tau>" by (rule run_exists[OF opt])
  define P where "P w out \<longleftrightarrow> out \<in> all_outs r (gg_gates g0) \<and> gg_wires g ! w = KConstant (\<tau> out)" for w out
  have "\<exists>out. P w out" if "w \<in> {?n..<?m}" for w
  proof -
    have "?n \<le> w" "w < ?m" using that by auto
    with add obtain c out where "out \<in> all_outs r (gg_gates g0)" "gg_wires g ! w = KConstant c"
      "\<forall>\<tau>. consts_hold (gg_wires g0) \<tau> \<longrightarrow> (\<forall>d \<in> set (gg_gates g0). gate_run r d \<tau>) \<longrightarrow> \<tau> out = c"
      unfolding added_consts_def by blast
    then have "P w out" using \<tau> by (simp add: P_def)
    then show ?thesis by (rule exI)
  qed
  then have "\<forall>w \<in> {?n..<?m}. \<exists>out. P w out" by (intro ballI)
  then have "\<exists>f. \<forall>w \<in> {?n..<?m}. P w (f w)" by (rule bchoice)
  then obtain f where f: "\<forall>w \<in> {?n..<?m}. P w (f w)" by (elim exE) (rule that)
  have pool: "const_pool g (\<tau> (f w)) = Some w" if "w \<in> {?n..<?m}" for w
  proof -
    have "P w (f w)" using f that by (rule bspec)
    then have "gg_wires g ! w = KConstant (\<tau> (f w))" by (simp only: P_def)
    moreover have "w < ?m" using that by simp
    moreover have "\<forall>word w. const_pool g word = Some w \<longleftrightarrow> w < ?m \<and> gg_wires g ! w = KConstant word"
      using wf unfolding graph_wf_def by (elim conjE)
    ultimately show ?thesis by blast
  qed
  have "inj_on f {?n..<?m}"
  proof (rule inj_onI)
    fix u w assume u: "u \<in> {?n..<?m}" and w: "w \<in> {?n..<?m}" and eq: "f u = f w"
    show "u = w" using trans[OF pool[OF u, unfolded eq, symmetric] pool[OF w]] by (rule option.inject[THEN iffD1])
  qed
  moreover have "f ` {?n..<?m} \<subseteq> all_outs r (gg_gates g0)" using f unfolding P_def by blast
  ultimately have "card {?n..<?m} \<le> card (all_outs r (gg_gates g0))" by (rule card_inj_on_le) simp
  then show ?thesis using grow by simp
qed

section \<open>One replacement\<close>

definition consts_read :: "hint_registry \<Rightarrow> gate_graph \<Rightarrow> gate_graph \<Rightarrow> bool" where
  "consts_read r g0 g \<longleftrightarrow> (\<forall>i < length (gg_gates g). \<forall>p. get_gate_param r (gg_gates g ! i) = Some p \<longrightarrow>
    (\<forall>w \<in> set (p_inputs p). is_const (gg_wires g ! w) \<or> i \<in> set (readers r (gg_gates g0) w)))"

definition propagating :: "hint_registry \<Rightarrow> gate_graph \<Rightarrow> gate_graph \<Rightarrow> bool" where
  "propagating r g0 g \<longleftrightarrow> agree r (gate_run r) (gg_wires g) (gg_gates g0) (gg_gates g) \<and> reads_moved r g0 g \<and>
    use_edges g = use_edges g0 \<and> use_offsets g = use_offsets g0 \<and>
    upholds r (gg_wires g0) (gg_gates g0) (gg_wires g) (gg_gates g) (hint_outs r (gg_gates g0)) \<and>
    added_consts r g0 g \<and> consts_read r g0 g"

definition consts_room :: "hint_registry \<Rightarrow> gate_graph \<Rightarrow> bool" where
  "consts_room r g \<longleftrightarrow> length (gg_wires g) + card (all_outs r (gg_gates g)) \<le> 2 ^ 26"

lemma moved_wf:
  assumes opt: "optimisable r g0" and mv: "reads_moved r g0 g"
  shows "graph_wf r g" "length (gg_wires g0) \<le> length (gg_wires g)"
proof -
  show "length (gg_wires g0) \<le> length (gg_wires g)" using mv by (auto simp: reads_moved_def)
  have pool: "graph_wf r (g\<lparr>gg_gates := gg_gates g0\<rparr>)" and n: "length (gg_gates g) = length (gg_gates g0)"
    using mv by (simp_all add: reads_moved_def)
  have "gate_wf r (gg_wires g) (gg_gates g ! i)" if i: "i < length (gg_gates g)" for i
  proof -
    obtain p p' where p: "same_gate r (gg_gates g0 ! i) (gg_gates g ! i) p p'"
      "\<forall>w \<in> set (p_inputs p'). available r (gg_wires g) (gg_gates g0) i w"
      using mv i n by (auto simp: reads_moved_def)
    have "gate_wf r (gg_wires g) (gg_gates g0 ! i)" using pool i n by (simp add: graph_wf_def)
    from moved_gate_wf[OF this p(1)] p(2) show ?thesis by (simp add: available_def)
  qed
  then show "graph_wf r g" using pool by (auto simp: graph_wf_def in_set_conv_nth)
qed

lemma propagating_optimisable:
  assumes "optimisable r g0" "consts_room r g0" "propagating r g0 g"
  shows "optimisable r g"
proof (rule reads_moved_optimisable[OF assms(1)])
  show mv: "reads_moved r g0 g" using assms(3) by (simp add: propagating_def)
  show "length (gg_wires g) \<le> 2 ^ 26"
    using added_consts_room[OF assms(1) _ moved_wf[OF assms(1) mv]] assms(2,3) by (simp add: propagating_def consts_room_def)
qed

text \<open>Adding a constant.\<close>

lemma add_constant_fields:
  assumes "graph_wf r g" "add_constant v g = (c, g')"
  shows "gg_gates g' = gg_gates g" "gate_origin g' = gate_origin g" "assertion_names g' = assertion_names g"
    "use_edges g' = use_edges g" "use_offsets g' = use_offsets g" "graph_wf r g'" "c < length (gg_wires g')"
    "gg_wires g' ! c = KConstant v"
    "gg_wires g' = gg_wires g \<or> gg_wires g' = gg_wires g @ [KConstant v]"
proof -
  show "graph_wf r g'" "c < length (gg_wires g')" "gg_wires g' ! c = KConstant v"
    using add_constant_wf[OF assms] by simp_all
  have "g' = (case const_pool g v of Some _ \<Rightarrow> g
      | None \<Rightarrow> g\<lparr>gg_wires := gg_wires g @ [KConstant v], const_pool := (const_pool g)(v \<mapsto> length (gg_wires g))\<rparr>)"
    using assms(2) by (auto simp: add_constant_def push_wire_def split: option.splits)
  then show "gg_gates g' = gg_gates g" "gate_origin g' = gate_origin g" "assertion_names g' = assertion_names g"
    "use_edges g' = use_edges g" "use_offsets g' = use_offsets g"
    "gg_wires g' = gg_wires g \<or> gg_wires g' = gg_wires g @ [KConstant v]"
    by (simp_all split: option.splits)
qed

lemma constant_inputs_grown:
  "\<forall>w \<in> set ws. w < length (gg_wires g) \<Longrightarrow> gg_wires g' = gg_wires g @ ks \<Longrightarrow> constant_inputs g' ws = constant_inputs g ws"
  by (induction ws) (auto simp: wire_kind_of_def read_at_def nth_append split: wire_kind.splits)

definition kind_level :: "wire_kind list \<Rightarrow> wire \<Rightarrow> nat" where
  "kind_level ks w = (if w < length ks \<and> \<not> is_const (ks ! w) then 1 else 0)"

lemma kind_level_grown: "kind_level (ks @ map KConstant cs) = kind_level ks"
  by (auto simp: kind_level_def fun_eq_iff nth_append)

definition open_reads :: "hint_registry \<Rightarrow> gate_graph \<Rightarrow> nat" where
  "open_reads r g = read_levels r (kind_level (gg_wires g)) (gg_gates g)"

lemma opt_gate:
  assumes "optimisable r g" "i < length (gg_gates g)"
  obtains p where "get_gate_param r (gg_gates g ! i) = Some p" "gate_wf r (gg_wires g) (gg_gates g ! i)" "gate_imm_ok (gg_gates g ! i)"
    "\<forall>w \<in> set (gate_uses p @ gate_writes p). w < length (gg_wires g)"
proof -
  have "graph_ready r g" using assms(1) by (simp add: optimisable_def)
  then obtain p where p: "get_gate_param r (gg_gates g ! i) = Some p" "wires (gg_gates g ! i) = param_wires p"
    "gate_ready r (gg_wires g) (gg_gates g ! i)" by (rule ready_param[OF _ assms(2)])
  have "set (gate_uses p @ gate_writes p) = set (wires (gg_gates g ! i))"
    using p(2) by (auto simp: param_wires_def gate_uses_def gate_writes_def)
  then show ?thesis using that[OF p(1)] p(3) by (simp add: gate_ready_def gate_wf_def)
qed

text \<open>Adding the constant a gate evaluates to.\<close>

lemma add_evaluated:
  assumes opt0: "optimisable r g0" and room: "consts_room r g0" and inv: "propagating r g0 g"
    and k: "k < length (gg_gates g)" "get_gate_param r (gg_gates g ! k) = Some p" "m < length (p_outputs p)"
    and val: "gate_value r (gg_gates g ! k) cs = Ok vs" "constant_inputs g (p_inputs p) = Some (Some cs)"
    and add: "add_constant (vs ! m) g = (c, g1)"
  shows "propagating r g0 g1" "optimisable r g1" "\<exists>ds. gg_wires g1 = gg_wires g @ map KConstant ds"
    "constant_inputs g1 (p_inputs p) = Some (Some cs)"
proof -
  have opt: "optimisable r g" by (rule propagating_optimisable[OF opt0 room inv])
  have wf: "graph_wf r g" using opt by (simp add: optimisable_def)
  note f = add_constant_fields[OF wf add]
  obtain ds where ds: "gg_wires g1 = gg_wires g @ map KConstant ds" "ds = [] \<or> ds = [vs ! m]"
    using f(9) by (metis append_Nil2 list.simps(8,9))
  then show "\<exists>ds. gg_wires g1 = gg_wires g @ map KConstant ds" by blast
  obtain q where q: "get_gate_param r (gg_gates g ! k) = Some q" "\<forall>w \<in> set (gate_uses q @ gate_writes q). w < length (gg_wires g)"
    by (rule opt_gate[OF opt k(1)])
  then have below: "\<forall>w \<in> set (p_inputs p). w < length (gg_wires g)" using k(2) by (simp add: gate_uses_def)
  show ins1: "constant_inputs g1 (p_inputs p) = Some (Some cs)" using constant_inputs_grown[OF below ds(1)] val(2) by simp
  have ag: "agree r (gate_run r) (gg_wires g) (gg_gates g0) (gg_gates g)" and mv: "reads_moved r g0 g"
    and up: "upholds r (gg_wires g0) (gg_gates g0) (gg_wires g) (gg_gates g) (hint_outs r (gg_gates g0))"
    and ad: "added_consts r g0 g" and cr: "consts_read r g0 g"
    using inv by (simp_all add: propagating_def)
  note al = agree_alike[OF ag]
  have mv1: "reads_moved r g g1"
    unfolding reads_moved_def
  proof (intro conjI allI impI)
    show "\<exists>cs. gg_wires g1 = gg_wires g @ map KConstant cs" using ds(1) by blast
    show "graph_wf r (g1\<lparr>gg_gates := gg_gates g\<rparr>)" using f(1,6) by (simp add: graph_wf_def)
    fix i assume i: "i < length (gg_gates g)"
    obtain s s' where "same_gate r (gg_gates g ! i) (gg_gates g ! i) s s'" "\<forall>w \<in> set (p_inputs s'). available r (gg_wires g) (gg_gates g) i w"
      using reads_moved_refl[OF opt] i by (auto simp: reads_moved_def)
    then show "\<exists>p p'. same_gate r (gg_gates g ! i) (gg_gates g1 ! i) p p' \<and>
        (\<forall>w \<in> set (p_inputs p'). available r (gg_wires g1) (gg_gates g) i w)"
      using available_widen unfolding f(1) ds(1) by blast
  qed (use f in simp_all)
  have mv01: "reads_moved r g0 g1" by (rule reads_moved_trans[OF mv mv1])
  have n: "length (gg_gates g) = length (gg_gates g0)" using al by (simp add: alike_def)
  obtain q0 where q0: "get_gate_param r (gg_gates g0 ! k) = Some q0" "p_outputs p = p_outputs q0" "k < length (gg_gates g0)"
    using k n by (metis alike_param[OF al] option.inject)
  have out: "p_outputs p ! m \<in> all_outs r (gg_gates g0)"
    using q0 k(3) nth_mem[OF q0(3)] unfolding all_outs_def by (intro UN_I[of "gg_gates g0 ! k"] UN_I[of q0]) auto
  obtain q' where "get_gate_param r (gg_gates g0 ! k) = Some q'" "\<forall>w \<in> set (gate_uses q' @ gate_writes q'). w < length (gg_wires g0)"
    by (rule opt_gate[OF opt0 q0(3)])
  then have out0: "p_outputs p ! m < length (gg_wires g0)" using q0 k(3) by (simp add: gate_writes_def)
  obtain cs0 where cs0: "gg_wires g = gg_wires g0 @ map KConstant cs0" using mv by (auto simp: reads_moved_def)
  have holds: "\<tau> (p_outputs p ! m) = vs ! m"
    if \<tau>: "consts_hold (gg_wires g0) \<tau>" "\<forall>d \<in> set (gg_gates g0). gate_run r d \<tau>" for \<tau>
  proof -
    let ?\<tau> = "extend (gg_wires g0) cs0 \<tau>"
    have ch: "consts_hold (gg_wires g) ?\<tau>" using consts_hold_extend[OF \<tau>(1)] cs0 by simp
    have "\<forall>d \<in> set (gg_gates g0). gate_run r d ?\<tau>" using gate_run_extend[OF opt0] \<tau>(2) by blast
    then have "\<forall>d \<in> set (gg_gates g). gate_run r d ?\<tau>" using agree_all[OF ag by_words_run _ ch] by blast
    then have "?\<tau> (p_outputs p ! m) = vs ! m" using evaluated_output[OF k(2) val(1) k(3) val(2) ch] k(1) by simp
    then show ?thesis using out0 by (simp add: extend_def)
  qed
  have "added_consts r g0 g1"
    unfolding added_consts_def
  proof (intro allI impI)
    fix w assume w: "length (gg_wires g0) \<le> w" "w < length (gg_wires g1)"
    show "\<exists>c. \<exists>out \<in> all_outs r (gg_gates g0). gg_wires g1 ! w = KConstant c \<and>
      (\<forall>\<tau>. consts_hold (gg_wires g0) \<tau> \<longrightarrow> (\<forall>d \<in> set (gg_gates g0). gate_run r d \<tau>) \<longrightarrow> \<tau> out = c)"
    proof (cases "w < length (gg_wires g)")
      case True
      then show ?thesis using ad w(1) unfolding added_consts_def ds(1) by (simp add: nth_append)
    next
      case False
      then have "gg_wires g1 ! w = KConstant (vs ! m)" using w(2) ds by (auto simp: nth_append)
      then show ?thesis using out holds by blast
    qed
  qed
  moreover have "agree r (gate_run r) (gg_wires g1) (gg_gates g0) (gg_gates g1)" using agree_grown[OF ag] f(1) ds(1) by simp
  moreover have "upholds r (gg_wires g0) (gg_gates g0) (gg_wires g1) (gg_gates g1) (hint_outs r (gg_gates g0))"
    using up consts_hold_append f(1) unfolding upholds_def ds(1) by metis
  moreover have "consts_read r g0 g1"
    unfolding consts_read_def f(1)
  proof (intro allI impI ballI)
    fix i s w assume i: "i < length (gg_gates g)" "get_gate_param r (gg_gates g ! i) = Some s" "w \<in> set (p_inputs s)"
    obtain s' where "get_gate_param r (gg_gates g ! i) = Some s'" "\<forall>w \<in> set (gate_uses s' @ gate_writes s'). w < length (gg_wires g)"
      by (rule opt_gate[OF opt i(1)])
    then have "w < length (gg_wires g)" using i by (simp add: gate_uses_def)
    then show "is_const (gg_wires g1 ! w) \<or> i \<in> set (readers r (gg_gates g0) w)"
      using cr i unfolding consts_read_def ds(1) by (simp add: nth_append)
  qed
  ultimately show p1: "propagating r g0 g1" using mv01 f(4,5) inv by (simp add: propagating_def)
  show "optimisable r g1" by (rule propagating_optimisable[OF opt0 room p1])
qed

text \<open>Moving the readers of an evaluated output to its constant.\<close>

lemma replace_evaluated:
  assumes opt0: "optimisable r g0" and idx: "indexed r g0" and room: "consts_room r g0" and inv: "propagating r g0 g"
    and k: "k < length (gg_gates g)" "get_gate_param r (gg_gates g ! k) = Some p" "m < length (p_outputs p)"
    and val: "gate_value r (gg_gates g ! k) cs = Ok vs" "constant_inputs g (p_inputs p) = Some (Some cs)"
  shows "\<exists>rep g'. replace_wire_with_constant (p_outputs p ! m) (vs ! m) g = Some (rep, g') \<and> propagating r g0 g' \<and>
    gg_gates g' ! k = gg_gates g ! k \<and> constant_inputs g' (p_inputs p) = Some (Some cs) \<and>
    (\<exists>ds. gg_wires g' = gg_wires g @ map KConstant ds) \<and>
    set (affected_gates rep) \<subseteq> {..<length (gg_gates g)} \<and> open_reads r g' + n_slots_rewritten rep \<le> open_reads r g"
proof -
  obtain c g1 where add: "add_constant (vs ! m) g = (c, g1)" by fastforce
  have opt: "optimisable r g" by (rule propagating_optimisable[OF opt0 room inv])
  then have wf: "graph_wf r g" by (simp add: optimisable_def)
  note f = add_constant_fields[OF wf add]
  note ev = add_evaluated[OF opt0 room inv k val add]
  let ?out = "p_outputs p ! m" and ?ks = "gg_wires g1"
  have ord1: "ordered r (gg_gates g1)" using ev(2) by (simp add: optimisable_def graph_ready_def)
  have out: "?out \<in> set (p_outputs p)" using k(3) by simp
  have k1: "k < length (gg_gates g1)" "get_gate_param r (gg_gates g1 ! k) = Some p" using k f(1) by simp_all
  have val1: "gate_value r (gg_gates g1 ! k) cs = Ok vs" using val(1) f(1) by simp
  note fwd = evaluated_forwardable[OF ev(2) k1 val1 k(3) ev(4) f(7,8)]
  have fwd_run: "forwardable r (gate_run r) ?ks (gg_gates g1) ?out c" by (rule fwd)
  have ag: "agree r (gate_run r) ?ks (gg_gates g0) (gg_gates g1)" and mv: "reads_moved r g0 g1"
    and ix: "use_edges g1 = use_edges g0" "use_offsets g1 = use_offsets g0"
    and up: "upholds r (gg_wires g0) (gg_gates g0) ?ks (gg_gates g1) (hint_outs r (gg_gates g0))"
    and ad: "added_consts r g0 g1" and cr: "consts_read r g0 g1"
    using ev(1) by (simp_all add: propagating_def)
  note al = agree_alike[OF ag]
  have n: "length (gg_gates g1) = length (gg_gates g0)" using al by (simp add: alike_def)
  define L where "L = (if ?out < length (gg_wires g0) then readers r (gg_gates g0) ?out else [])"
  have "get_wire_uses g1 = get_wire_uses g0" using ix by (simp add: get_wire_uses_def fun_eq_iff cong: option.case_cong)
  then have uses: "get_wire_uses g1 ?out = Some L" using idx by (simp add: indexed_def L_def)
  have L: "distinct L" "\<forall>i \<in> set L. i < length (gg_gates g1)" using n by (auto simp: readers_def L_def)
  have skip: "?out \<notin> set (gate_writes q)" if i: "i \<in> set L" "get_gate_param r (gg_gates g1 ! i) = Some q" for i q
  proof -
    have "i < length (gg_gates g0)" "i \<in> set (readers r (gg_gates g0) ?out)" using i(1) L(2) n by (auto simp: L_def split: if_splits)
    moreover from alike_param[OF al this(1)] obtain q0 where "get_gate_param r (gg_gates g0 ! i) = Some q0" "gate_writes q = gate_writes q0"
      using i(2) by (metis option.inject)
    ultimately show ?thesis using readers_spec(2)[OF opt0] by auto
  qed
  have "k \<notin> set L" using skip[OF _ k1(2)] out by (auto simp: gate_writes_def)
  obtain q where q: "get_gate_param r (gg_gates g1 ! k) = Some q" "\<forall>w \<in> set (gate_uses q @ gate_writes q). w < length ?ks"
    by (rule opt_gate[OF ev(2) k1(1)])
  have "gate_ready r ?ks (gg_gates g1 ! k)" using ev(2) k1(1) by (simp add: optimisable_def graph_ready_def)
  then have nc: "\<not> is_const (?ks ! ?out)" using k1(2) out by (simp add: gate_ready_def consts_kept_def gate_writes_def)
  then have ne: "c \<noteq> ?out" using f(8) by auto
  define g' where "g' = g1\<lparr>gg_gates := renamed_at (set L) (swap_wire ?out c) (gg_gates g1)\<rparr>"
  have step: "agree r (gate_run r) ?ks (gg_gates g1) (gg_gates g')" "reads_moved r g1 g'"
    using forward_step[OF ev(2) fwd_run, of "set L"] skip by (simp_all add: g'_def)
  have complete: "i \<in> set L" if "i < length (gg_gates g1)" "get_gate_param r (gg_gates g1 ! i) = Some q" "?out \<in> set (p_inputs q)" for i q
  proof -
    have r: "i \<in> set (readers r (gg_gates g0) ?out)" using cr that nc by (auto simp: consts_read_def)
    have i0: "i < length (gg_gates g0)" using that(1) n by simp
    obtain q0 where q0: "get_gate_param r (gg_gates g0 ! i) = Some q0" "\<forall>w \<in> set (gate_uses q0 @ gate_writes q0). w < length (gg_wires g0)"
      by (rule opt_gate[OF opt0 i0])
    from readers_spec(2)[OF opt0 r q0(1)] q0(2) have "?out < length (gg_wires g0)" by simp
    then show ?thesis using r by (simp add: L_def)
  qed
  have "upholds r ?ks (gg_gates g1) ?ks (gg_gates g') (hint_outs r (gg_gates g0))"
  proof (cases "body (gg_gates g1 ! k)")
    case (Op opcode)
    have "forwardable r (op_done r) ?ks (gg_gates g1) ?out c" by (rule fwd) (simp add: op_done_def Op)
    then have "agree r (op_done r) ?ks (gg_gates g1) (gg_gates g')"
      using forward_step(1)[OF ev(2), of "op_done r" ?out c "set L"] skip by (simp add: g'_def)
    then show ?thesis by (rule upholds_agree)
  next
    case (HintCall h)
    have "upholds r ?ks (gg_gates g1) ?ks (renamed_at (set L) (swap_wire ?out c) (gg_gates g1)) {?out}"
      by (rule hint_output_upholds[where c = c and W = "gate_run r", OF ev(2) k1 HintCall out f(7,8) complete skip fwd_run])
    moreover have "?out \<in> hint_outs r (gg_gates g1)"
      unfolding hint_outs_def using k1 HintCall out by (intro UN_I[of "gg_gates g1 ! k"]) auto
    ultimately show ?thesis using hint_outs_alike(1)[OF al] by (simp add: g'_def upholds_mono)
  qed
  then have up': "upholds r (gg_wires g0) (gg_gates g0) ?ks (gg_gates g') (hint_outs r (gg_gates g0))" by (rule upholds_trans[OF up])
  have cr': "consts_read r g0 g'"
    unfolding consts_read_def
  proof (intro allI impI ballI)
    fix i s w assume i: "i < length (gg_gates g')" "get_gate_param r (gg_gates g' ! i) = Some s" "w \<in> set (p_inputs s)"
    have i1: "i < length (gg_gates g1)" using i(1) by (simp add: g'_def)
    obtain s1 where s1: "get_gate_param r (gg_gates g1 ! i) = Some s1" by (rule opt_gate[OF ev(2) i1])
    have "set (p_inputs s) \<subseteq> insert c (set (p_inputs s1))"
      using i(2) s1 i1 by (auto simp: g'_def renamed_at_nth rename_gate_param rename_param_def swap_wire_def split: if_splits)
    then have "w = c \<or> w \<in> set (p_inputs s1)" using i(3) by auto
    then show "is_const (gg_wires g' ! w) \<or> i \<in> set (readers r (gg_gates g0) w)"
      using cr i1 s1 f(8) by (auto simp: consts_read_def g'_def)
  qed
  have "agree r (gate_run r) ?ks (gg_gates g0) (gg_gates g')" by (rule agree_trans[OF ag step(1) by_words_run])
  then have "propagating r g0 g'"
    using reads_moved_trans[OF mv step(2)] ix up' ad cr' by (simp add: propagating_def g'_def added_consts_def)
  moreover have "gg_gates g' ! k = gg_gates g ! k" using \<open>k \<notin> set L\<close> k1(1) f(1) by (simp add: g'_def renamed_at_nth)
  moreover have "constant_inputs g' (p_inputs p) = Some (Some cs)"
  proof -
    have "\<forall>w \<in> set (p_inputs p). w < length ?ks" using q k1(2) by (simp add: gate_uses_def)
    then have "constant_inputs g' (p_inputs p) = constant_inputs g1 (p_inputs p)"
      by (rule constant_inputs_grown) (simp add: g'_def)
    then show ?thesis using ev(4) by simp
  qed
  moreover have "\<exists>ds. gg_wires g' = gg_wires g @ map KConstant ds" using ev(3) by (simp add: g'_def)
  moreover define rep where "rep = \<lparr>n_slots_rewritten = (\<Sum>i\<leftarrow>L. length (filter (\<lambda>w. w = ?out) (wires (gg_gates g1 ! i)))), affected_gates = L\<rparr>"
  have "replace_wire_with_constant ?out (vs ! m) g = Some (rep, g')"
    using add ne uses replace_in_spec[OF L, of ?out c]
    by (simp add: replace_wire_with_constant_def replace_wire_with_wire_def rep_def g'_def)
  moreover have "open_reads r g' + n_slots_rewritten rep \<le> open_reads r g"
  proof -
    have "kind_level ?ks c < kind_level ?ks ?out" using nc q k1(2) out f(8) by (simp add: kind_level_def gate_writes_def)
    from replaced_levels[OF ev(2) fwd_run L skip this] have
      "read_levels r (kind_level ?ks) (gg_gates g') + n_slots_rewritten rep \<le> read_levels r (kind_level ?ks) (gg_gates g1)"
      by (simp add: g'_def rep_def)
    moreover have "kind_level ?ks = kind_level (gg_wires g)" using ev(3) kind_level_grown by auto
    ultimately show ?thesis using f(1) by (simp add: open_reads_def g'_def)
  qed
  moreover have "set (affected_gates rep) \<subseteq> {..<length (gg_gates g)}" using L(2) f(1) by (auto simp: rep_def)
  ultimately show ?thesis by blast
qed

section \<open>The worklist\<close>

lemma enqueue_subset: "set (fst (enqueue gs q)) \<subseteq> set (fst q) \<union> set gs"
proof (induction gs q rule: enqueue.induct)
  case (2 gate gates work present)
  then show ?case by (auto split: if_splits)
qed simp

lemma replace_outputs_spec:
  assumes opt0: "optimisable r g0" and idx: "indexed r g0" and room: "consts_room r g0"
  shows "propagating r g0 (cp_graph st) \<Longrightarrow> k < length (gg_gates (cp_graph st)) \<Longrightarrow>
    get_gate_param r (gg_gates (cp_graph st) ! k) = Some p \<Longrightarrow> gate_value r (gg_gates (cp_graph st) ! k) cs = Ok vs \<Longrightarrow>
    constant_inputs (cp_graph st) (p_inputs p) = Some (Some cs) \<Longrightarrow> length vs = length (p_outputs p) \<Longrightarrow>
    ws = drop m (p_outputs p) \<Longrightarrow> set (cp_work st) \<subseteq> {..<length (gg_gates g0)} \<Longrightarrow>
    \<exists>st'. replace_outputs ws (drop m vs) st = Some st' \<and> propagating r g0 (cp_graph st') \<and>
      set (cp_work st') \<subseteq> {..<length (gg_gates g0)} \<and> open_reads r (cp_graph st') \<le> open_reads r (cp_graph st) \<and>
      (open_reads r (cp_graph st') = open_reads r (cp_graph st) \<longrightarrow> cp_work st' = cp_work st)"
proof (induction ws arbitrary: st m)
  case (Cons w ws)
  let ?g = "cp_graph st"
  have m: "m < length (p_outputs p)" using Cons.prems(7) by (metis drop_all leI list.distinct(1))
  then have w: "w = p_outputs p ! m" "ws = drop (Suc m) (p_outputs p)" "drop m vs = vs ! m # drop (Suc m) vs"
    using Cons.prems(6,7) by (simp_all add: Cons_nth_drop_Suc[symmetric])
  have opt: "optimisable r ?g" by (rule propagating_optimisable[OF opt0 room Cons.prems(1)])
  have n: "length (gg_gates ?g) = length (gg_gates g0)" using Cons.prems(1) by (simp add: propagating_def agree_def)
  obtain q where q: "get_gate_param r (gg_gates ?g ! k) = Some q" "\<forall>w \<in> set (gate_uses q @ gate_writes q). w < length (gg_wires ?g)"
    by (rule opt_gate[OF opt Cons.prems(2)])
  have kind: "wire_kind_of ?g w = Some (gg_wires ?g ! w)" using q Cons.prems(3) m w(1) by (simp add: wire_kind_of_def read_at_def gate_writes_def)
  have nc: "\<not> is_const (gg_wires ?g ! w)"
  proof -
    have "gate_ready r (gg_wires ?g) (gg_gates ?g ! k)" using opt Cons.prems(2) by (simp add: optimisable_def graph_ready_def)
    then show ?thesis using Cons.prems(3) m w(1) by (simp add: gate_ready_def consts_kept_def gate_writes_def)
  qed
  from replace_evaluated[OF opt0 idx room Cons.prems(1-3) m Cons.prems(4,5)] obtain rep g1 where
    1: "replace_wire_with_constant w (vs ! m) ?g = Some (rep, g1)" "propagating r g0 g1" "gg_gates g1 ! k = gg_gates ?g ! k"
      "constant_inputs g1 (p_inputs p) = Some (Some cs)" "set (affected_gates rep) \<subseteq> {..<length (gg_gates ?g)}"
      "open_reads r g1 + n_slots_rewritten rep \<le> open_reads r ?g" using w(1) by blast
  obtain work present where e: "enqueue (sort (affected_gates rep)) (cp_work st, cp_in st) = (work, present)" by fastforce
  define st1 where "st1 = (if n_slots_rewritten rep > 0
      then st\<lparr>cp_graph := g1, cp_work := work, cp_in := present, cp_replaced := cp_replaced st + n_slots_rewritten rep\<rparr>
      else st\<lparr>cp_graph := g1\<rparr>)"
  have out: "replace_output w (vs ! m) st = Some st1" using 1(1) e by (simp add: replace_output_def Let_def st1_def)
  have g1: "cp_graph st1 = g1" by (simp add: st1_def)
  have n1: "length (gg_gates g1) = length (gg_gates g0)" using 1(2) by (simp add: propagating_def agree_def)
  have work: "set (cp_work st1) \<subseteq> {..<length (gg_gates g0)}"
    using enqueue_subset[of "sort (affected_gates rep)" "(cp_work st, cp_in st)"] e 1(5) Cons.prems(8) n by (auto simp: st1_def)
  have "k < length (gg_gates (cp_graph st1))" using Cons.prems(2) n n1 g1 by simp
  from Cons.IH[of st1 "Suc m", OF _ this] 1(2-4) g1 Cons.prems(3,4,6) w(2) work obtain st' where
    st': "replace_outputs ws (drop (Suc m) vs) st1 = Some st'" "propagating r g0 (cp_graph st')" "set (cp_work st') \<subseteq> {..<length (gg_gates g0)}"
    "open_reads r (cp_graph st') \<le> open_reads r g1" "open_reads r (cp_graph st') = open_reads r g1 \<longrightarrow> cp_work st' = cp_work st1" by auto
  have "open_reads r (cp_graph st') = open_reads r ?g \<longrightarrow> cp_work st' = cp_work st"
    using st'(4,5) 1(6) by (auto simp: st1_def)
  moreover have "replace_outputs (w # ws) (drop m vs) st = Some st'" using kind nc w(3) out st'(1) by simp
  ultimately show ?case using st' 1(6) by (intro exI[of _ st']) simp
qed simp

definition always_fails :: "hint_registry \<Rightarrow> gate_graph \<Rightarrow> gate \<Rightarrow> violation \<Rightarrow> bool" where
  "always_fails r g gate reason \<longleftrightarrow> gate < length (gg_gates g) \<and>
    (\<forall>p \<tau>. get_gate_param r (gg_gates g ! gate) = Some p \<longrightarrow> consts_hold (gg_wires g) \<tau> \<longrightarrow>
      (\<forall>d \<in> set (gg_gates g). gate_run r d \<tau>) \<longrightarrow> gate_fails r (gg_gates g ! gate) p \<tau> = [reason])"

lemma evaluated_fails:
  assumes opt0: "optimisable r g0" and room: "consts_room r g0" and inv: "propagating r g0 g"
    and k: "k < length (gg_gates g)" "get_gate_param r (gg_gates g ! k) = Some p"
    and val: "gate_value r (gg_gates g ! k) cs = Err reason" "constant_inputs g (p_inputs p) = Some (Some cs)"
  shows "always_fails r g0 k reason"
  unfolding always_fails_def
proof (intro conjI allI impI)
  have ag: "agree r (gate_run r) (gg_wires g) (gg_gates g0) (gg_gates g)" and mv: "reads_moved r g0 g"
    using inv by (simp_all add: propagating_def)
  show k0: "k < length (gg_gates g0)" using k(1) ag by (simp add: agree_def)
  fix q \<tau> assume q: "get_gate_param r (gg_gates g0 ! k) = Some q" and \<tau>: "consts_hold (gg_wires g0) \<tau>" "\<forall>d \<in> set (gg_gates g0). gate_run r d \<tau>"
  obtain cs0 where cs0: "gg_wires g = gg_wires g0 @ map KConstant cs0" using mv by (auto simp: reads_moved_def)
  let ?\<tau> = "extend (gg_wires g0) cs0 \<tau>"
  have ch: "consts_hold (gg_wires g) ?\<tau>" using consts_hold_extend[OF \<tau>(1)] cs0 by simp
  have runs: "\<forall>d \<in> set (gg_gates g0). gate_run r d ?\<tau>" using gate_run_extend[OF opt0] \<tau>(2) by blast
  have "map ?\<tau> (p_inputs p) = cs" using constant_inputs_Some[OF val(2)] ch by blast
  then have "gate_fails r (gg_gates g ! k) p ?\<tau> = [reason]" using val(1) by (simp add: gate_fails_def)
  then have "gate_fails r (gg_gates g0 ! k) q ?\<tau> = [reason]" using agree_fails[OF ag ch runs k0 q k(2)] by simp
  moreover obtain q' where "get_gate_param r (gg_gates g0 ! k) = Some q'" "\<forall>w \<in> set (gate_uses q' @ gate_writes q'). w < length (gg_wires g0)"
    by (rule opt_gate[OF opt0 k0])
  then have "?\<tau> w = \<tau> w" if "w \<in> set (gate_uses q @ gate_writes q)" for w using q that by (simp add: extend_def)
  from gate_done_cong(2)[OF this] have "gate_fails r (gg_gates g0 ! k) q ?\<tau> = gate_fails r (gg_gates g0 ! k) q \<tau>" .
  ultimately show "gate_fails r (gg_gates g0 ! k) q \<tau> = [reason]" by simp
qed

lemma propagate_Cons:
  assumes "cp_work st = gate # work" "st0 = st\<lparr>cp_work := work, cp_in := cp_in st - {gate}\<rparr>"
    and "try_evaluate_gate_with_constants (cp_graph st0) gate r = Some res"
  shows "propagate r st = (case res of
      None \<Rightarrow> propagate r st0
    | Some (Ok vs) \<Rightarrow> do {
        d \<leftarrow> read_at (gg_gates (cp_graph st0)) gate;
        p \<leftarrow> get_gate_param r d;
        st \<leftarrow> replace_outputs (p_outputs p) vs st0;
        propagate r st
      }
    | Some (Err reason) \<Rightarrow> Some (Inl (gate, reason))
    | Some Panic \<Rightarrow> None)"
  by (subst propagate.simps) (simp only: assms(1) list.case Let_def assms(2)[symmetric] assms(3) Option.bind.simps)

lemma propagate_spec:
  assumes opt0: "optimisable r g0" and idx: "indexed r g0" and room: "consts_room r g0"
  shows "propagating r g0 (cp_graph st) \<Longrightarrow> set (cp_work st) \<subseteq> {..<length (gg_gates g0)} \<Longrightarrow>
    \<exists>res. propagate r st = Some res \<and>
      (case res of Inl (gate, reason) \<Rightarrow> always_fails r g0 gate reason | Inr st' \<Rightarrow> propagating r g0 (cp_graph st'))"
proof (induction "(open_reads r (cp_graph st), length (cp_work st))" arbitrary: st rule: wf_induct_rule[OF wf_lex_prod[OF wf_less_than wf_less_than]])
  case (1 st)
  show ?case
  proof (cases "cp_work st")
    case Nil
    then show ?thesis using 1(2) by (subst propagate.simps) simp
  next
    case (Cons gate work)
    define st0 where "st0 = st\<lparr>cp_work := work, cp_in := cp_in st - {gate}\<rparr>"
    let ?g = "cp_graph st"
    have opt: "optimisable r ?g" by (rule propagating_optimisable[OF opt0 room 1(2)])
    have n: "length (gg_gates ?g) = length (gg_gates g0)" using 1(2) by (simp add: propagating_def agree_def)
    have k: "gate < length (gg_gates ?g)" using 1(3) Cons n by simp
    obtain p where p: "get_gate_param r (gg_gates ?g ! gate) = Some p" "gate_wf r (gg_wires ?g) (gg_gates ?g ! gate)"
      "gate_imm_ok (gg_gates ?g ! gate)" "\<forall>w \<in> set (gate_uses p @ gate_writes p). w < length (gg_wires ?g)"
      by (rule opt_gate[OF opt k])
    have "\<forall>w \<in> set (p_inputs p). w < length (gg_wires ?g)" using p(4) by (simp add: gate_uses_def)
    from constant_inputs_total[OF this] obtain ins where ins: "constant_inputs ?g (p_inputs p) = Some ins" by blast
    have st0: "cp_graph st0 = ?g" "cp_work st0 = work" "set work \<subseteq> {..<length (gg_gates g0)}"
      using 1(3) Cons by (simp_all add: st0_def)
    have ev: "try_evaluate_gate_with_constants ?g gate r = Some (map_option (\<lambda>cs. gate_value r (gg_gates ?g ! gate) cs) ins)"
      using k p(1) ins by (simp add: try_evaluate_gate_with_constants_def evaluate_gate_constants_def read_at_def)
    show ?thesis
    proof (cases ins)
      case None
      have "propagate r st = propagate r st0"
        using propagate_Cons[OF Cons st0_def, of r] st0 ev None by simp
      moreover have "((open_reads r (cp_graph st0), length (cp_work st0)), (open_reads r ?g, length (cp_work st))) \<in> less_than <*lex*> less_than"
        using st0 Cons by simp
      ultimately show ?thesis using 1(1)[of st0] 1(2) st0 by simp
    next
      case (Some cs)
      have ins': "constant_inputs ?g (p_inputs p) = Some (Some cs)" using ins Some by simp
      have len: "length cs = length (p_inputs p)" using constant_inputs_Some[OF ins'] by blast
      have total: "gate_value r (gg_gates ?g ! gate) cs \<noteq> Panic" by (rule gate_value_total[OF p(2,3,1) len])
      show ?thesis
      proof (cases "gate_value r (gg_gates ?g ! gate) cs")
        case (Ok vs)
        obtain s where s: "gate_shape r (gg_gates ?g ! gate) = Some s" "param_fits s p"
        proof -
          have "graph_ready r ?g" using opt by (simp add: optimisable_def)
          from ready_param[OF this k] p(1) that show ?thesis by (metis option.inject)
        qed
        have "registry_ok r" using opt by (simp add: optimisable_def graph_ready_def)
        from gate_value_length[OF p(2,3) this s Ok len] have lv: "length vs = length (p_outputs p)" .
        obtain st1 where st1: "replace_outputs (p_outputs p) vs st0 = Some st1" "propagating r g0 (cp_graph st1)"
          "set (cp_work st1) \<subseteq> {..<length (gg_gates g0)}" "open_reads r (cp_graph st1) \<le> open_reads r ?g"
          "open_reads r (cp_graph st1) = open_reads r ?g \<longrightarrow> cp_work st1 = work"
          using replace_outputs_spec[OF opt0 idx room, of st0 gate p cs vs "p_outputs p" 0] 1(2) k p(1) Ok ins' lv st0 by auto
        have "propagate r st = propagate r st1"
          using propagate_Cons[OF Cons st0_def, of r] st0 ev Some Ok k p(1) st1(1) by (simp add: read_at_def)
        moreover have "((open_reads r (cp_graph st1), length (cp_work st1)), (open_reads r ?g, length (cp_work st))) \<in> less_than <*lex*> less_than"
          using st1(4,5) Cons by (cases "open_reads r (cp_graph st1) = open_reads r ?g") simp_all
        ultimately show ?thesis using 1(1)[of st1] st1 by simp
      next
        case (Err reason)
        have "propagate r st = Some (Inl (gate, reason))"
          using propagate_Cons[OF Cons st0_def, of r] st0 ev Some Err by simp
        then show ?thesis using evaluated_fails[OF opt0 room 1(2) k p(1) Err ins'] by simp
      qed (use total in simp)
    qed
  qed
qed

section \<open>The pass\<close>

lemma seed_spec:
  assumes "indexed r g"
  shows "set (fst q) \<subseteq> {..<length (gg_gates g)} \<Longrightarrow>
    \<exists>q'. seed_worklist g ws q = Some q' \<and> set (fst q') \<subseteq> {..<length (gg_gates g)}"
proof (induction ws arbitrary: q)
  case (Cons x ws)
  obtain w k where x: "x = (w, k)" by (cases x)
  obtain L where L: "get_wire_uses g w = Some L" "set L \<subseteq> {..<length (gg_gates g)}"
    using assms by (auto simp: indexed_def readers_def)
  have "set (fst (enqueue L q)) \<subseteq> {..<length (gg_gates g)}" using enqueue_subset[of L q] L(2) Cons.prems by auto
  from Cons.IH[OF this] show ?case using x L(1) by simp
qed simp

lemma moved_same:
  assumes opt: "optimisable r g" and "gg_gates g' = gg_gates g" "gg_wires g' = gg_wires g" "const_pool g' = const_pool g"
    "all_one g' = all_one g" "gate_origin g' = gate_origin g" "assertion_names g' = assertion_names g"
  shows "reads_moved r g g'" "optimisable r g'"
proof -
  show mv: "reads_moved r g g'" using reads_moved_refl[OF opt] assms by (simp add: reads_moved_def graph_wf_def)
  show "optimisable r g'" by (rule reads_moved_optimisable[OF opt mv]) (use assms(3) optimisable_small[OF opt] in simp)
qed

lemma rebuilt_both:
  assumes opt: "optimisable r g"
  obtains g' where "rebuild_use_def_chains r g = Some g'" "optimisable r g'" "indexed r g'" "gg_gates g' = gg_gates g"
    "gg_wires g' = gg_wires g" "reads_moved r g g'"
proof -
  have wf: "graph_wf r g" using opt by (simp add: optimisable_def)
  obtain defs where defs: "rebuild_wire_defs r g = Some (g\<lparr>wire_def := defs\<rparr>)" using rebuild_wire_defs_total[OF wf] by blast
  have mv: "reads_moved r g (g\<lparr>wire_def := defs\<rparr>)" "optimisable r (g\<lparr>wire_def := defs\<rparr>)"
    by (rule moved_same[OF opt]; simp)+
  obtain g' where g': "rebuild_wire_uses r (g\<lparr>wire_def := defs\<rparr>) = Some g'" "optimisable r g'" "indexed r g'"
    "gg_gates g' = gg_gates (g\<lparr>wire_def := defs\<rparr>)" "gg_wires g' = gg_wires (g\<lparr>wire_def := defs\<rparr>)"
    "reads_moved r (g\<lparr>wire_def := defs\<rparr>) g'" by (rule rebuilt[OF mv(2)])
  show ?thesis
    by (rule that[of g']) (use g' defs reads_moved_trans[OF mv(1) g'(6)] in \<open>simp_all add: rebuild_use_def_chains_def\<close>)
qed

lemma params_present: "optimisable r g \<Longrightarrow> \<forall>d \<in> set (gg_gates g). get_gate_param r d \<noteq> None"
  using opt_gate by (metis in_set_conv_nth option.distinct(1))

lemma propagating_start:
  assumes opt: "optimisable r g"
  shows "propagating r g g"
proof -
  have "upholds r (gg_wires g) (gg_gates g) (gg_wires g) (gg_gates g) (hint_outs r (gg_gates g))"
    unfolding upholds_def by blast
  moreover have "consts_read r g g"
    by (auto simp: consts_read_def readers_def reads_of_def gate_reads_def)
  ultimately show ?thesis
    using agree_refl[OF params_present[OF opt]] reads_moved_refl[OF opt] by (simp add: propagating_def added_consts_def)
qed

lemma constant_propagation_spec:
  assumes opt: "optimisable r g" and room: "consts_room r g"
  shows "\<exists>res. constant_propagation g r = Some res \<and>
    (case res of Inl (gate, reason) \<Rightarrow> always_fails r g gate reason
     | Inr (n, g') \<Rightarrow> optimisable r g' \<and> reads_moved r g g' \<and> agree r (gate_run r) (gg_wires g') (gg_gates g) (gg_gates g') \<and>
         upholds r (gg_wires g) (gg_gates g) (gg_wires g') (gg_gates g') (hint_outs r (gg_gates g)))"
proof -
  obtain g1 where 1: "rebuild_use_def_chains r g = Some g1" "optimisable r g1" "indexed r g1" "gg_gates g1 = gg_gates g"
    "gg_wires g1 = gg_wires g" "reads_moved r g g1" by (rule rebuilt_both[OF opt])
  have room1: "consts_room r g1" using room 1 by (simp add: consts_room_def)
  obtain q where q: "seed_worklist g1 (iter_const_wires g1) ([], {}) = Some q" "set (fst q) \<subseteq> {..<length (gg_gates g1)}"
    using seed_spec[OF 1(3), of "([], {})" "iter_const_wires g1"] by fastforce
  let ?st = "\<lparr>cp_graph = g1, cp_work = fst q, cp_in = snd q, cp_replaced = 0\<rparr>"
  obtain res where res: "propagate r ?st = Some res"
    "case res of Inl (gate, reason) \<Rightarrow> always_fails r g1 gate reason | Inr st' \<Rightarrow> propagating r g1 (cp_graph st')"
    using propagate_spec[OF 1(2,3) room1, of ?st] propagating_start[OF 1(2)] q(2) by auto
  have run: "constant_propagation g r = Some (map_sum id (\<lambda>st. (cp_replaced st, cp_graph st)) res)"
    using 1(1) q(1) res(1) by (simp add: constant_propagation_def split_def)
  show ?thesis
  proof (cases res)
    case (Inl e)
    then show ?thesis using run res(2) 1(4,5) by (auto simp: always_fails_def)
  next
    case (Inr st)
    then have inv: "propagating r g1 (cp_graph st)" using res(2) by simp
    have "reads_moved r g (cp_graph st)" using reads_moved_trans[OF 1(6)] inv by (simp add: propagating_def)
    then show ?thesis
      using run Inr inv propagating_optimisable[OF 1(2) room1 inv] 1(4,5) by (simp add: propagating_def)
  qed
qed

end
