(* ===== verification/Cse.thy ===== *)
theory Cse
  imports Const_Prop
begin

text \<open>
  Common subexpressions (\<open>pass/cse.rs\<close>): one sweep in gate order rewrites each gate's wires to their
  canonical form and collapses a gate onto the first one of the same structure.  \<open>None\<close> is a panic.
\<close>

section \<open>Definitions\<close>

record gate_structure =
  gs_body :: gate_body
  gs_reads :: "wire list"
  gs_immediates :: "u32 list"
  gs_dimensions :: "nat list"

definition structure_of :: "gate_graph \<Rightarrow> gate \<Rightarrow> hint_registry \<Rightarrow> gate_structure option" where
  "structure_of g gate r = do {
    d \<leftarrow> read_at (gg_gates g) gate;
    p \<leftarrow> get_gate_param r d;
    Some \<lparr>gs_body = body d, gs_reads = p_constants p @ p_inputs p, gs_immediates = immediates d, gs_dimensions = dimensions d\<rparr>
  }"

record dedup_state =
  dd_graph :: gate_graph
  dd_remap :: "wire \<rightharpoonup> wire"
  dd_canonical :: "gate_structure \<rightharpoonup> gate"
  dd_dead :: "gate set"

definition remapped :: "(wire \<rightharpoonup> wire) \<Rightarrow> wire \<Rightarrow> wire" where
  "remapped remap w = (case remap w of Some canon \<Rightarrow> canon | None \<Rightarrow> w)"

text \<open>Whether an output is public or pinned.\<close>

fun produces_observable :: "gate_graph \<Rightarrow> wire set \<Rightarrow> wire list \<Rightarrow> bool option" where
  "produces_observable g pinned [] = Some False"
| "produces_observable g pinned (w # ws) = do {
    k \<leftarrow> wire_kind_of g w;
    if k = KInout \<or> w \<in> pinned then Some True else produces_observable g pinned ws
  }"

definition dedup_gate :: "hint_registry \<Rightarrow> wire set \<Rightarrow> gate \<Rightarrow> dedup_state \<Rightarrow> dedup_state option" where
  "dedup_gate r pinned gate st = do {
    d \<leftarrow> read_at (gg_gates (dd_graph st)) gate;
    let d = rename_gate (remapped (dd_remap st)) d;
    let g = (dd_graph st)\<lparr>gg_gates := (gg_gates (dd_graph st))[gate := d]\<rparr>;
    structure \<leftarrow> structure_of g gate r;
    p \<leftarrow> get_gate_param r d;
    observable \<leftarrow> produces_observable g pinned (p_outputs p);
    case (if observable then None else dd_canonical st structure) of
      Some canon \<Rightarrow> do {
        cd \<leftarrow> read_at (gg_gates g) canon;
        cp \<leftarrow> get_gate_param r cd;
        Some (st\<lparr>dd_graph := g, dd_remap := dd_remap st ++ map_of (rev (zip (p_outputs p) (p_outputs cp))),
          dd_dead := insert gate (dd_dead st)\<rparr>)
      }
    | None \<Rightarrow> Some (st\<lparr>dd_graph := g, dd_canonical :=
        (case dd_canonical st structure of Some _ \<Rightarrow> dd_canonical st | None \<Rightarrow> (dd_canonical st)(structure \<mapsto> gate))\<rparr>)
  }"

fun dedup_all :: "hint_registry \<Rightarrow> wire set \<Rightarrow> gate list \<Rightarrow> dedup_state \<Rightarrow> dedup_state option" where
  "dedup_all r pinned [] st = Some st"
| "dedup_all r pinned (gate # gates) st = Option.bind (dedup_gate r pinned gate st) (dedup_all r pinned gates)"

definition dedup_gates :: "gate_graph \<Rightarrow> wire set \<Rightarrow> hint_registry \<Rightarrow> (gate set \<times> gate_graph) option" where
  "dedup_gates g pinned r = map_option (\<lambda>st. (dd_dead st, dd_graph st))
    (dedup_all r pinned [0..<length (gg_gates g)]
      \<lparr>dd_graph = g, dd_remap = Map.empty, dd_canonical = Map.empty, dd_dead = {}\<rparr>)"

section \<open>The sweep\<close>

definition observable :: "gate_graph \<Rightarrow> wire set \<Rightarrow> wire \<Rightarrow> bool" where
  "observable g pinned w \<longleftrightarrow> gg_wires g ! w = KInout \<or> w \<in> pinned"

lemma produces_observable_spec:
  "\<forall>w \<in> set ws. w < length (gg_wires g) \<Longrightarrow> produces_observable g pinned ws = Some (\<exists>w \<in> set ws. observable g pinned w)"
  by (induction ws) (auto simp: wire_kind_of_def read_at_def observable_def)

text \<open>Two gates of one structure.\<close>

definition twins :: "hint_registry \<Rightarrow> gate_data \<Rightarrow> gate_data \<Rightarrow> bool" where
  "twins r d e \<longleftrightarrow> body e = body d \<and> immediates e = immediates d \<and> dimensions e = dimensions d \<and>
    (\<exists>p q. get_gate_param r d = Some p \<and> get_gate_param r e = Some q \<and> p_inputs q = p_inputs p)"

lemma twins_meaning:
  assumes "twins r d e" "get_gate_param r d = Some p" "get_gate_param r e = Some q"
  shows "gate_value r e = gate_value r d" "gate_shape r e = gate_shape r d" "p_inputs q = p_inputs p"
  using assms by (auto simp: twins_def gate_value_def gate_shape_def fun_eq_iff split: gate_body.splits)

text \<open>What the sweep has done to the gates before position \<open>i\<close>.\<close>

definition collapsed :: "hint_registry \<Rightarrow> gate_data list \<Rightarrow> (wire \<rightharpoonup> wire) \<Rightarrow> gate set \<Rightarrow> gate \<Rightarrow> gate \<Rightarrow> bool" where
  "collapsed r ds remap dead k c \<longleftrightarrow> c < k \<and> c \<notin> dead \<and> twins r (ds ! k) (ds ! c) \<and>
    (\<exists>p q. get_gate_param r (ds ! k) = Some p \<and> get_gate_param r (ds ! c) = Some q \<and>
      (\<forall>m < length (p_outputs p). remap (p_outputs p ! m) = Some (p_outputs q ! m)))"

definition swept :: "hint_registry \<Rightarrow> wire set \<Rightarrow> gate_graph \<Rightarrow> nat \<Rightarrow> dedup_state \<Rightarrow> bool" where
  "swept r pinned g0 i st \<longleftrightarrow>
    (let ds = gg_gates (dd_graph st); ds0 = gg_gates g0 in dd_graph st = g0\<lparr>gg_gates := ds\<rparr> \<and> length ds = length ds0 \<and>
      (\<forall>j. i \<le> j \<longrightarrow> j < length ds0 \<longrightarrow> ds ! j = ds0 ! j) \<and>
      (\<forall>j < i. \<exists>p p'. same_gate r (ds0 ! j) (ds ! j) p p' \<and> p_inputs p' = map (remapped (dd_remap st)) (p_inputs p)) \<and>
      dd_dead st \<subseteq> {..<i} \<and>
      (\<forall>k \<in> dd_dead st. (\<exists>c. collapsed r ds (dd_remap st) (dd_dead st) k c) \<and>
        (\<forall>p. get_gate_param r (ds ! k) = Some p \<longrightarrow> (\<forall>w \<in> set (p_outputs p). \<not> observable g0 pinned w))) \<and>
      (\<forall>w v. dd_remap st w = Some v \<longrightarrow>
        (\<exists>k \<in> dd_dead st. \<exists>p. get_gate_param r (ds ! k) = Some p \<and> w \<in> set (p_outputs p))) \<and>
      (\<forall>s c. dd_canonical st s = Some c \<longrightarrow> c < i \<and> c \<notin> dd_dead st \<and> structure_of (dd_graph st) c r = Some s))"

lemma sweptD:
  assumes "swept r pinned g0 i st"
  shows "dd_graph st = g0\<lparr>gg_gates := gg_gates (dd_graph st)\<rparr>" "length (gg_gates (dd_graph st)) = length (gg_gates g0)"
    "\<And>j. i \<le> j \<Longrightarrow> j < length (gg_gates g0) \<Longrightarrow> gg_gates (dd_graph st) ! j = gg_gates g0 ! j"
    "\<And>j. j < i \<Longrightarrow> \<exists>p p'. same_gate r (gg_gates g0 ! j) (gg_gates (dd_graph st) ! j) p p' \<and>
      p_inputs p' = map (remapped (dd_remap st)) (p_inputs p)"
    "dd_dead st \<subseteq> {..<i}"
    "\<And>k. k \<in> dd_dead st \<Longrightarrow> \<exists>c. collapsed r (gg_gates (dd_graph st)) (dd_remap st) (dd_dead st) k c"
    "\<And>k p w. k \<in> dd_dead st \<Longrightarrow> get_gate_param r (gg_gates (dd_graph st) ! k) = Some p \<Longrightarrow> w \<in> set (p_outputs p) \<Longrightarrow> \<not> observable g0 pinned w"
    "\<And>w v. dd_remap st w = Some v \<Longrightarrow>
      \<exists>k \<in> dd_dead st. \<exists>p. get_gate_param r (gg_gates (dd_graph st) ! k) = Some p \<and> w \<in> set (p_outputs p)"
    "\<And>s c. dd_canonical st s = Some c \<Longrightarrow> c < i \<and> c \<notin> dd_dead st \<and> structure_of (dd_graph st) c r = Some s"
  using assms unfolding swept_def Let_def by blast+

lemma same_gate_params:
  assumes "same_gate r d d' p p'"
  shows "get_gate_param r d = Some p" "get_gate_param r d' = Some p'"
  using assms by (simp_all add: same_gate_def)

text \<open>A wire in the remapping is the output of a gate already swept.\<close>

lemma swept_dom:
  assumes "swept r pinned g0 i st" "dd_remap st w = Some v" "i \<le> length (gg_gates g0)"
  shows "\<exists>k < i. \<exists>p. k \<in> dd_dead st \<and> get_gate_param r (gg_gates g0 ! k) = Some p \<and> w \<in> set (p_outputs p)"
proof -
  obtain k p where k: "k \<in> dd_dead st" "get_gate_param r (gg_gates (dd_graph st) ! k) = Some p" "w \<in> set (p_outputs p)"
    using sweptD(8)[OF assms(1,2)] by blast
  then have "k < i" using sweptD(5)[OF assms(1)] by auto
  moreover from sweptD(4)[OF assms(1) this] obtain q q' where "same_gate r (gg_gates g0 ! k) (gg_gates (dd_graph st) ! k) q q'"
    by blast
  note q = same_gate_params[OF this] same_gate_fields(2)[OF this]
  then have "q' = p" using k(2) by simp
  then have "w \<in> set (p_outputs q)" using k(3) q(3) by simp
  ultimately show ?thesis using k(1) q(1) by blast
qed

lemma gate_const_wires:
  assumes "optimisable r g" "i < length (gg_gates g)" "get_gate_param r (gg_gates g ! i) = Some p" "w \<in> set (p_constants p)"
  shows "is_const (gg_wires g ! w)"
proof -
  have ready: "graph_ready r g" using assms(1) by (simp add: optimisable_def)
  obtain s q where q: "gate_shape r (gg_gates g ! i) = Some s" "get_gate_param r (gg_gates g ! i) = Some q" "param_fits s q"
    "wires (gg_gates g ! i) = param_wires q" "gate_ready r (gg_wires g) (gg_gates g ! i)" by (rule ready_param[OF ready assms(2)])
  obtain m where m: "m < length (p_constants p)" "p_constants p ! m = w" using assms(4) by (auto simp: in_set_conv_nth)
  then have "wires (gg_gates g ! i) ! m = w" "m < length (const_in s)"
    using q assms(3) by (simp_all add: param_wires_def nth_append param_fits_def)
  then show ?thesis using q(1,5) by (auto simp: gate_ready_def gate_wf_def)
qed

lemma output_facts:
  assumes "optimisable r g" "k < length (gg_gates g)" "get_gate_param r (gg_gates g ! k) = Some p" "w \<in> set (p_outputs p)"
  shows "\<not> is_const (gg_wires g ! w)" "w < length (gg_wires g)"
    "\<And>i q. i < length (gg_gates g) \<Longrightarrow> get_gate_param r (gg_gates g ! i) = Some q \<Longrightarrow> w \<in> set (gate_writes q) \<Longrightarrow> i = k"
    "\<And>i q. i < length (gg_gates g) \<Longrightarrow> get_gate_param r (gg_gates g ! i) = Some q \<Longrightarrow> w \<in> set (gate_uses q) \<Longrightarrow> k < i"
proof -
  have ready: "graph_ready r g" and ord: "ordered r (gg_gates g)" using assms(1) by (simp_all add: optimisable_def graph_ready_def)
  have w: "w \<in> set (gate_writes p)" using assms(4) by (simp add: gate_writes_def)
  show "\<not> is_const (gg_wires g ! w)"
  proof -
    have "gate_ready r (gg_wires g) (gg_gates g ! k)" using ready assms(2) by (simp add: graph_ready_def)
    then show ?thesis using assms(3) w by (simp add: gate_ready_def consts_kept_def)
  qed
  obtain q where "get_gate_param r (gg_gates g ! k) = Some q" "\<forall>w \<in> set (gate_uses q @ gate_writes q). w < length (gg_wires g)"
    by (rule opt_gate[OF assms(1,2)])
  then show "w < length (gg_wires g)" using assms(3) w by simp
  show "i = k" if "i < length (gg_gates g)" "get_gate_param r (gg_gates g ! i) = Some q" "w \<in> set (gate_writes q)" for i q
    using writes_apart[OF ord that(1) assms(2) that(2) assms(3) that(3) w] .
  show "k < i" if "i < length (gg_gates g)" "get_gate_param r (gg_gates g ! i) = Some q" "w \<in> set (gate_uses q)" for i q
    using uses_available[OF assms(1) that] assms(2,3) w by (auto simp: available_def)
qed

text \<open>The remapping moves only what gates read.\<close>

lemma swept_rename:
  assumes opt: "optimisable r g0" and sw: "swept r pinned g0 i st" and i: "i < length (gg_gates g0)"
    and p: "get_gate_param r (gg_gates g0 ! i) = Some p"
  shows "same_gate r (gg_gates g0 ! i) (rename_gate (remapped (dd_remap st)) (gg_gates g0 ! i)) p
    (p\<lparr>p_inputs := map (remapped (dd_remap st)) (p_inputs p)\<rparr>)"
proof (rule same_gate_renamed[OF p], rule ballI)
  fix w assume w: "w \<in> set (p_constants p @ gate_writes p)"
  have "dd_remap st w = None"
  proof (rule ccontr)
    assume "dd_remap st w \<noteq> None"
    then obtain v where "dd_remap st w = Some v" by blast
    from swept_dom[OF sw this] i obtain k q where k: "k < i" "get_gate_param r (gg_gates g0 ! k) = Some q" "w \<in> set (p_outputs q)" by auto
    then have k': "k < length (gg_gates g0)" using i by simp
    note f = output_facts[OF opt k' k(2,3)]
    show False using w f(1) f(3)[OF i p] gate_const_wires[OF opt i p] k(1) by auto
  qed
  then show "remapped (dd_remap st) w = w" by (simp add: remapped_def)
qed

lemma remap_zip:
  assumes "distinct xs" "length ys = length xs"
  shows "m < length xs \<Longrightarrow> (f ++ map_of (rev (zip xs ys))) (xs ! m) = Some (ys ! m)"
    "w \<notin> set xs \<Longrightarrow> (f ++ map_of (rev (zip xs ys))) w = f w"
proof -
  have "distinct (map fst (rev (zip xs ys)))" using assms by (simp add: rev_map[symmetric])
  moreover have "(xs ! m, ys ! m) \<in> set (rev (zip xs ys))" if "m < length xs" using that assms(2) by (auto simp: in_set_zip)
  ultimately show "m < length xs \<Longrightarrow> (f ++ map_of (rev (zip xs ys))) (xs ! m) = Some (ys ! m)" by simp
  show "w \<notin> set xs \<Longrightarrow> (f ++ map_of (rev (zip xs ys))) w = f w"
    by (auto simp: map_add_def map_of_eq_None_iff in_set_zip split: option.splits dest!: map_of_SomeD)
qed

lemma structure_of_nth:
  "k < length (gg_gates g) \<Longrightarrow> get_gate_param r (gg_gates g ! k) = Some p \<Longrightarrow>
    structure_of g k r = Some \<lparr>gs_body = body (gg_gates g ! k), gs_reads = p_constants p @ p_inputs p,
      gs_immediates = immediates (gg_gates g ! k), gs_dimensions = dimensions (gg_gates g ! k)\<rparr>"
  by (simp add: structure_of_def read_at_def)

lemma fits_param:
  assumes "gate_wf r ks d" "get_gate_param r d = Some p"
  obtains s where "gate_shape r d = Some s" "param_fits s p"
  using assms by (auto simp: gate_wf_def elim!: validated_gate_param)

text \<open>One gate of the sweep.\<close>

lemma swept_step:
  assumes opt: "optimisable r g0" and sw: "swept r pinned g0 i st" and i: "i < length (gg_gates g0)"
  shows "\<exists>st'. dedup_gate r pinned i st = Some st' \<and> swept r pinned g0 (Suc i) st'"
proof -
  let ?os = "gg_gates g0" and ?ds = "gg_gates (dd_graph st)" and ?\<rho> = "dd_remap st"
  note S = sweptD[OF sw]
  have ready: "graph_ready r g0" using opt by (simp add: optimisable_def)
  have n: "length ?ds = length ?os" and di: "?ds ! i = ?os ! i" using S(2,3) i by simp_all
  obtain p where p: "get_gate_param r (?os ! i) = Some p" "gate_wf r (gg_wires g0) (?os ! i)"
    "gate_imm_ok (?os ! i)" "\<forall>w \<in> set (gate_uses p @ gate_writes p). w < length (gg_wires g0)" by (rule opt_gate[OF opt i])
  define d' where "d' = rename_gate (remapped ?\<rho>) (?os ! i)"
  define p' where "p' = p\<lparr>p_inputs := map (remapped ?\<rho>) (p_inputs p)\<rparr>"
  have sg: "same_gate r (?os ! i) d' p p'" unfolding d'_def p'_def by (rule swept_rename[OF opt sw i p(1)])
  have p': "get_gate_param r d' = Some p'" "p_outputs p' = p_outputs p" using sg same_gate_fields(2)[OF sg] by (simp_all add: same_gate_params)
  define ds' where "ds' = ?ds[i := d']"
  define g where "g = (dd_graph st)\<lparr>gg_gates := ds'\<rparr>"
  have g0: "g = g0\<lparr>gg_gates := ds'\<rparr>" using arg_cong[OF S(1), of "gg_gates_update (\<lambda>_. ds')"] by (simp add: g_def)
  have g: "g = g0\<lparr>gg_gates := ds'\<rparr>" "gg_gates g = ds'" "gg_wires g = gg_wires g0" "length ds' = length ?os"
    using n by (simp_all add: g0 ds'_def)
  have ds': "ds' ! i = d'" "\<And>j. j \<noteq> i \<Longrightarrow> ds' ! j = ?ds ! j" using i n by (simp_all add: ds'_def)
  define s where "s = \<lparr>gs_body = body d', gs_reads = p_constants p' @ p_inputs p', gs_immediates = immediates d', gs_dimensions = dimensions d'\<rparr>"
  have st_i: "structure_of g i r = Some s" using structure_of_nth[of i g r p'] i g ds' p' by (simp add: s_def)
  have st_j: "structure_of g j r = structure_of (dd_graph st) j r" if "j \<noteq> i" for j
    using that g ds' n by (simp add: structure_of_def read_at_def)
  define obs where "obs \<longleftrightarrow> (\<exists>w \<in> set (p_outputs p'). observable g pinned w)"
  have "\<forall>w \<in> set (p_outputs p'). w < length (gg_wires g)" using p(4) p'(2) g(3) by (simp add: gate_writes_def)
  from produces_observable_spec[OF this] have obs: "produces_observable g pinned (p_outputs p') = Some obs" by (simp add: obs_def)
  have obs_iff: "observable g pinned w \<longleftrightarrow> observable g0 pinned w" for w using g(3) by (simp add: observable_def)
  have earlier: "j < i \<Longrightarrow> j < length ?os" for j using i by simp
  \<comment> \<open>What holds of any remapping that adds outputs of this gate.\<close>
  have older: "\<exists>q q'. same_gate r (?os ! j) (ds' ! j) q q' \<and> p_inputs q' = map (remapped \<rho>') (p_inputs q)"
    if \<rho>': "\<And>w. w \<notin> set (p_outputs p) \<Longrightarrow> \<rho>' w = ?\<rho> w" and j: "j < Suc i" for \<rho>' j
  proof -
    have "remapped \<rho>' w = remapped ?\<rho> w" if q: "get_gate_param r (?os ! j) = Some q" "w \<in> set (p_inputs q)" for q w
    proof -
      have "w \<notin> set (p_outputs p)"
        using output_facts(4)[OF opt i p(1) _ _ q(1), of w] q(2) j i by (auto simp: gate_uses_def)
      then show ?thesis using \<rho>' by (simp add: remapped_def)
    qed
    then have same: "map (remapped \<rho>') (p_inputs q) = map (remapped ?\<rho>) (p_inputs q)" if "get_gate_param r (?os ! j) = Some q" for q
      using that by simp
    show ?thesis
    proof (cases "j = i")
      case True
      then show ?thesis using sg ds' same p(1) by (intro exI[of _ p] exI[of _ p']) (simp add: p'_def)
    next
      case False
      then obtain q q' where q: "same_gate r (?os ! j) (?ds ! j) q q'" "p_inputs q' = map (remapped ?\<rho>) (p_inputs q)"
        using S(4)[of j] j by auto
      have "p_inputs q' = map (remapped \<rho>') (p_inputs q)" unfolding same[OF same_gate_params(1)[OF q(1)]] by (rule q(2))
      then show ?thesis using q(1) unfolding ds'(2)[OF False] by blast
    qed
  qed
  have dead_outs: "w \<notin> set (p_outputs p)" if "k \<in> dd_dead st" "get_gate_param r (?ds ! k) = Some q" "w \<in> set (p_outputs q)" for k q w
  proof
    assume w: "w \<in> set (p_outputs p)"
    have k: "k < i" using S(5) that(1) by auto
    obtain q0 q' where sq: "same_gate r (?os ! k) (?ds ! k) q0 q'" using S(4)[OF k] by blast
    have "w \<in> set (gate_writes q0)"
      using that(2,3) same_gate_params[OF sq] same_gate_fields(2)[OF sq] by (simp add: gate_writes_def)
    from output_facts(3)[OF opt i p(1) w earlier[OF k] same_gate_params(1)[OF sq] this] k show False by simp
  qed
  have older_dead: "\<exists>c. collapsed r ds' \<rho>' dead k c"
    if \<rho>': "\<And>w. w \<notin> set (p_outputs p) \<Longrightarrow> \<rho>' w = ?\<rho> w" and dead: "dead \<subseteq> insert i (dd_dead st)" and k: "k \<in> dd_dead st" for \<rho>' dead k
  proof -
    have ki: "k < i" using S(5) k by auto
    obtain c where c: "collapsed r ?ds ?\<rho> (dd_dead st) k c" using S(6)[OF k] by blast
    then have ci: "c < i" "c \<notin> dead" using ki dead by (auto simp: collapsed_def)
    obtain q q2 where q: "get_gate_param r (?ds ! k) = Some q" "get_gate_param r (?ds ! c) = Some q2"
      "\<forall>m < length (p_outputs q). ?\<rho> (p_outputs q ! m) = Some (p_outputs q2 ! m)" using c by (auto simp: collapsed_def)
    have "\<rho>' (p_outputs q ! m) = ?\<rho> (p_outputs q ! m)" if "m < length (p_outputs q)" for m
      by (rule \<rho>', rule dead_outs[OF k q(1)]) (use that in simp)
    then have "collapsed r ds' \<rho>' dead k c"
      using c ci ki q ds'(2)[of k] ds'(2)[of c] by (simp add: collapsed_def)
    then show ?thesis by blast
  qed
  have ri: "read_at ?ds i = Some (?os ! i)" using i n di by (simp add: read_at_def)
  have unfold: "dedup_gate r pinned i st = (case (if obs then None else dd_canonical st s) of
      Some canon \<Rightarrow> do {
        cd \<leftarrow> read_at (gg_gates g) canon;
        cp \<leftarrow> get_gate_param r cd;
        Some (st\<lparr>dd_graph := g, dd_remap := ?\<rho> ++ map_of (rev (zip (p_outputs p') (p_outputs cp))), dd_dead := insert i (dd_dead st)\<rparr>)
      }
    | None \<Rightarrow> Some (st\<lparr>dd_graph := g, dd_canonical :=
        (case dd_canonical st s of Some _ \<Rightarrow> dd_canonical st | None \<Rightarrow> (dd_canonical st)(s \<mapsto> i))\<rparr>))"
    using ri st_i p'(1) obs g(2) by (simp add: dedup_gate_def Let_def d'_def[symmetric] ds'_def[symmetric] g_def[symmetric] cong: option.case_cong)
  show ?thesis
  proof (cases "if obs then None else dd_canonical st s")
    case None
    define can where "can = (case dd_canonical st s of Some _ \<Rightarrow> dd_canonical st | None \<Rightarrow> (dd_canonical st)(s \<mapsto> i))"
    let ?st = "st\<lparr>dd_graph := g, dd_canonical := can\<rparr>"
    have can: "c < Suc i \<and> c \<notin> dd_dead st \<and> structure_of g c r = Some t" if "can t = Some c" for t c
    proof (cases "c = i")
      case True
      have "i \<notin> dd_dead st" using S(5) by auto
      moreover have "t = s" using that True S(9)[of t i] by (auto simp: can_def split: option.splits if_splits)
      ultimately show ?thesis using True st_i by simp
    next
      case False
      then have "dd_canonical st t = Some c" using that by (auto simp: can_def split: option.splits if_splits)
      from S(9)[OF this] st_j[OF False] show ?thesis by simp
    qed
    have kd: "ds' ! k = ?ds ! k" if "k \<in> dd_dead st" for k using S(5) that by (intro ds'(2)) auto
    have "swept r pinned g0 (Suc i) ?st"
      unfolding swept_def Let_def
    proof (intro conjI allI impI ballI, goal_cases)
      case (4 j) show ?case using older[of ?\<rho> j] 4 g by simp
    next
      case (6 k) show ?case using older_dead[of ?\<rho> "dd_dead st" k] 6 g by auto
    next
      case (7 k q w) then show ?case using S(7)[of k q w] kd g by simp
    next
      case (8 w v) then show ?case using S(8)[of w v] kd g by auto
    qed (use g S(3) ds' S(5) can in auto)
    then show ?thesis using unfold None by (simp add: can_def[symmetric])
  next
    case (Some c)
    then have c: "dd_canonical st s = Some c" "\<not> obs" by (auto split: if_splits)
    from S(9)[OF c(1)] have ci: "c < i" "c \<notin> dd_dead st" "structure_of (dd_graph st) c r = Some s" by simp_all
    obtain q0 q where sq: "same_gate r (?os ! c) (?ds ! c) q0 q" using S(4)[OF ci(1)] by blast
    note qp = same_gate_params[OF sq]
    have "structure_of (dd_graph st) c r = Some \<lparr>gs_body = body (?ds ! c), gs_reads = p_constants q @ p_inputs q,
      gs_immediates = immediates (?ds ! c), gs_dimensions = dimensions (?ds ! c)\<rparr>"
      using structure_of_nth[OF _ qp(2)] ci(1) i n by simp
    then have eq: "body (?ds ! c) = body d'" "p_constants q @ p_inputs q = p_constants p' @ p_inputs p'"
      "immediates (?ds ! c) = immediates d'" "dimensions (?ds ! c) = dimensions d'"
      using ci(3) by (simp_all add: s_def)
    have shape: "gate_shape r d' = gate_shape r (?ds ! c)" using eq by (simp add: gate_shape_def cong: gate_body.case_cong)
    obtain s1 where s1: "gate_shape r (?os ! i) = Some s1" "param_fits s1 p" by (rule fits_param[OF p(2,1)])
    obtain q1 where q1: "get_gate_param r (?os ! c) = Some q1" "gate_wf r (gg_wires g0) (?os ! c)" by (rule opt_gate[OF opt earlier[OF ci(1)]])
    have q0: "get_gate_param r (?os ! c) = Some q0" by (rule qp(1))
    obtain s2 where s2: "gate_shape r (?os ! c) = Some s2" "param_fits s2 q0" by (rule fits_param[OF q1(2) q0])
    have "s1 = s2" using shape s1(1) s2(1) same_gate_fields(8)[OF sg] same_gate_fields(8)[OF sq] by simp
    then have len: "length (p_constants q) = length (p_constants p')" "length (p_outputs q) = length (p_outputs p')"
      using s1(2) s2(2) same_gate_fields(1,2)[OF sg] same_gate_fields(1,2)[OF sq] by (simp_all add: param_fits_def)
    then have ins: "p_inputs q = p_inputs p'" using eq(2) by simp
    have tw: "twins r d' (?ds ! c)" using eq p'(1) qp(2) ins by (simp add: twins_def)
    have dist: "distinct (p_outputs p')"
      using ordered_at(1)[OF _ i p(1)] ready p'(2) by (simp add: graph_ready_def gate_writes_def)
    define \<rho>' where "\<rho>' = ?\<rho> ++ map_of (rev (zip (p_outputs p') (p_outputs q)))"
    note z = remap_zip[OF dist len(2), of _ ?\<rho>, folded \<rho>'_def]
    let ?st = "st\<lparr>dd_graph := g, dd_remap := \<rho>', dd_dead := insert i (dd_dead st)\<rparr>"
    have off: "\<And>w. w \<notin> set (p_outputs p) \<Longrightarrow> \<rho>' w = ?\<rho> w" using z(2) p'(2) by simp
    have kd: "ds' ! k = ?ds ! k" if "k \<in> dd_dead st" for k using S(5) that by (intro ds'(2)) auto
    have "c \<noteq> i" using ci(1) by simp
    then have col: "collapsed r ds' \<rho>' (insert i (dd_dead st)) i c"
      using ci tw p'(1) qp(2) z(1) ds' by (simp add: collapsed_def)
    have old_can: "c' < i" "c' \<noteq> i" "c' \<notin> dd_dead st" "structure_of g c' r = Some t" if "dd_canonical st t = Some c'" for t c'
      using S(9)[OF that] st_j[of c'] by auto
    from col have new: "\<exists>c. collapsed r ds' \<rho>' (insert i (dd_dead st)) i c" by blast
    have "swept r pinned g0 (Suc i) ?st"
      unfolding swept_def Let_def
    proof (intro conjI allI impI ballI, goal_cases)
      case (4 j) show ?case using older[OF off, of j] 4 g by simp
    next
      case (6 k) then show ?case using older_dead[OF off _ , of "insert i (dd_dead st)" k] new g by auto
    next
      case (7 k u w)
      then show ?case
      proof (cases "k = i")
        case True
        then show ?thesis using 7 c(2) p' g ds' obs_iff by (auto simp: obs_def)
      next
        case False
        then show ?thesis using 7 S(7)[of k u w] kd g by simp
      qed
    next
      case (8 w v)
      then show ?case
      proof (cases "w \<in> set (p_outputs p)")
        case True
        then show ?thesis using p' ds' g by auto
      next
        case False
        then have "?\<rho> w = Some v" using 8 off by simp
        from S(8)[OF this] kd g show ?thesis by auto
      qed
    qed (use g S(3) ds' S(5) old_can in \<open>auto intro: less_SucI\<close>)
    moreover have "gg_gates g ! c = ?ds ! c" "c < length (gg_gates g)" using g ds'(2)[OF \<open>c \<noteq> i\<close>] ci(1) i by simp_all
    ultimately show ?thesis using unfold Some qp(2) by (simp add: \<rho>'_def[symmetric] read_at_def)
  qed
qed

lemma dedup_gates_swept:
  assumes opt: "optimisable r g"
  obtains st where "dedup_gates g pinned r = Some (dd_dead st, dd_graph st)" "swept r pinned g (length (gg_gates g)) st"
proof -
  let ?n = "length (gg_gates g)"
  have "i \<le> ?n \<Longrightarrow> swept r pinned g i st \<Longrightarrow> \<exists>st'. dedup_all r pinned [i..<?n] st = Some st' \<and> swept r pinned g ?n st'" for i st
  proof (induction "?n - i" arbitrary: i st)
    case (Suc m)
    then have i: "i < ?n" by simp
    obtain st1 where 1: "dedup_gate r pinned i st = Some st1" "swept r pinned g (Suc i) st1" using swept_step[OF opt Suc.prems(2) i] by blast
    have "m = ?n - Suc i" using Suc.hyps(2) by simp
    from Suc.hyps(1)[OF this _ 1(2)] i 1(1) show ?case by (simp add: upt_conv_Cons)
  qed simp
  moreover have "swept r pinned g 0 \<lparr>dd_graph = g, dd_remap = Map.empty, dd_canonical = Map.empty, dd_dead = {}\<rparr>"
    by (simp add: swept_def)
  ultimately show ?thesis using that by (fastforce simp: dedup_gates_def)
qed

section \<open>What the sweep keeps\<close>

text \<open>A gate with outputs has a value.\<close>

lemma gate_value_Ok:
  assumes "gate_wf r ks d" "gate_imm_ok d" "get_gate_param r d = Some p" "p_outputs p \<noteq> []" "length ins = length (p_inputs p)"
  shows "\<exists>os. gate_value r d ins = Ok os"
proof -
  obtain s where s: "gate_shape r d = Some s" "param_fits s p" by (rule fits_param[OF assms(1,3)])
  have "gate_value r d ins \<noteq> Panic" by (rule gate_value_total[OF assms(1-3,5)])
  moreover have "gate_value r d ins \<noteq> Err m" for m
    using gate_value_Err[OF s(1)] s(2) assms(4) by (auto simp: param_fits_def)
  ultimately show ?thesis by (cases "gate_value r d ins") auto
qed

lemma twins_run:
  assumes "twins r d e" "get_gate_param r d = Some p" "get_gate_param r e = Some q" "gate_run r d \<sigma>" "gate_run r e \<sigma>"
    and "gate_value r d (map \<sigma> (p_inputs p)) = Ok os"
  shows "map \<sigma> (p_outputs q) = map \<sigma> (p_outputs p)"
proof -
  note t = twins_meaning[OF assms(1-3)]
  have "map \<sigma> (p_outputs p) = os" using assms(2,4,6) by (simp add: gate_run_def gate_done_def)
  moreover have "gate_value r e (map \<sigma> (p_inputs q)) = Ok os" unfolding t(1) t(3) by (rule assms(6))
  then have "map \<sigma> (p_outputs q) = os" using assms(3,5) by (simp add: gate_run_def gate_done_def)
  ultimately show ?thesis by simp
qed

text \<open>Where a remapped wire comes from.\<close>

lemma swept_source:
  assumes "swept r pinned g0 i st" "dd_remap st w = Some v"
  obtains k c p q m where "k \<in> dd_dead st" "k < i" "c < k" "c \<notin> dd_dead st"
    "twins r (gg_gates (dd_graph st) ! k) (gg_gates (dd_graph st) ! c)"
    "get_gate_param r (gg_gates (dd_graph st) ! k) = Some p" "get_gate_param r (gg_gates (dd_graph st) ! c) = Some q"
    "m < length (p_outputs p)" "w = p_outputs p ! m" "v = p_outputs q ! m"
proof -
  note S = sweptD[OF assms(1)]
  obtain k p where k: "k \<in> dd_dead st" "get_gate_param r (gg_gates (dd_graph st) ! k) = Some p" "w \<in> set (p_outputs p)"
    using S(8)[OF assms(2)] by blast
  obtain c where c: "collapsed r (gg_gates (dd_graph st)) (dd_remap st) (dd_dead st) k c" using S(6)[OF k(1)] by blast
  then obtain q where q: "get_gate_param r (gg_gates (dd_graph st) ! c) = Some q"
    "\<forall>m < length (p_outputs p). dd_remap st (p_outputs p ! m) = Some (p_outputs q ! m)" using k(2) by (auto simp: collapsed_def)
  obtain m where m: "m < length (p_outputs p)" "w = p_outputs p ! m" using k(3) by (auto simp: in_set_conv_nth)
  have "k < i" using S(5) k(1) by auto
  then show ?thesis using that[OF k(1) _ _ _ _ k(2) q(1) m] c q(2) m assms(2) by (auto simp: collapsed_def)
qed

lemma swept_gate:
  assumes "optimisable r g" "swept r pinned g (length (gg_gates g)) st" "j < length (gg_gates g)"
  obtains p p' s where "same_gate r (gg_gates g ! j) (gg_gates (dd_graph st) ! j) p p'"
    "p_inputs p' = map (remapped (dd_remap st)) (p_inputs p)" "get_gate_param r (gg_gates g ! j) = Some p"
    "get_gate_param r (gg_gates (dd_graph st) ! j) = Some p'" "gate_shape r (gg_gates (dd_graph st) ! j) = Some s" "param_fits s p'"
proof -
  obtain p p' where p: "same_gate r (gg_gates g ! j) (gg_gates (dd_graph st) ! j) p p'"
    "p_inputs p' = map (remapped (dd_remap st)) (p_inputs p)" using sweptD(4)[OF assms(2,3)] by blast
  obtain q where q: "get_gate_param r (gg_gates g ! j) = Some q" "gate_wf r (gg_wires g) (gg_gates g ! j)"
    by (rule opt_gate[OF assms(1,3)])
  note sp = same_gate_params[OF p(1)] and f = same_gate_fields[OF p(1)]
  obtain s where "gate_shape r (gg_gates g ! j) = Some s" "param_fits s p" by (rule fits_param[OF q(2) sp(1)])
  then have "gate_shape r (gg_gates (dd_graph st) ! j) = Some s" "param_fits s p'"
    using f p(2) by (simp_all add: param_fits_def)
  then show ?thesis by (rule that[OF p sp])
qed

lemma swept_agree:
  assumes opt: "optimisable r g" and sw: "swept r pinned g (length (gg_gates g)) st"
  shows "agree r (gate_run r) (gg_wires g) (gg_gates g) (gg_gates (dd_graph st))"
proof -
  let ?os = "gg_gates g" and ?ds = "gg_gates (dd_graph st)" and ?\<rho> = "dd_remap st"
  have n: "length ?ds = length ?os" by (rule sweptD(2)[OF sw])
  have step: "map \<sigma> (p_inputs p') = map \<sigma> (p_inputs p)"
    if "j < length ?os" "consts_hold (gg_wires g) \<sigma>" "\<forall>i < j. gate_run r (?os ! i) \<sigma>"
      "get_gate_param r (?os ! j) = Some p" "get_gate_param r (?ds ! j) = Some p'" for j \<sigma> p p'
    using that
  proof (induction j arbitrary: p p' rule: less_induct)
    case (less j)
    obtain q q' where q: "same_gate r (?os ! j) (?ds ! j) q q'" "p_inputs q' = map (remapped ?\<rho>) (p_inputs q)"
      "get_gate_param r (?os ! j) = Some q" "get_gate_param r (?ds ! j) = Some q'"
      by (rule swept_gate[OF opt sw less.prems(1)])
    have [simp]: "q = p" "q' = p'" using q(3,4) less.prems(4,5) by simp_all
    have "\<sigma> (remapped ?\<rho> w) = \<sigma> w" if w: "w \<in> set (p_inputs p)" for w
    proof (cases "?\<rho> w")
      case (Some v)
      obtain k c a b m where k: "k \<in> dd_dead st" "k < length ?os" "c < k" "c \<notin> dd_dead st" "twins r (?ds ! k) (?ds ! c)"
        "get_gate_param r (?ds ! k) = Some a" "get_gate_param r (?ds ! c) = Some b" "m < length (p_outputs a)"
        "w = p_outputs a ! m" "v = p_outputs b ! m" by (rule swept_source[OF sw Some])
      have c: "c < length ?os" using k(2,3) by simp
      obtain a0 a' where a: "same_gate r (?os ! k) (?ds ! k) a0 a'" "get_gate_param r (?os ! k) = Some a0"
        "get_gate_param r (?ds ! k) = Some a'" by (rule swept_gate[OF opt sw k(2)])
      obtain b0 b' where b: "same_gate r (?os ! c) (?ds ! c) b0 b'" "get_gate_param r (?os ! c) = Some b0"
        "get_gate_param r (?ds ! c) = Some b'" by (rule swept_gate[OF opt sw c])
      have [simp]: "a' = a" "b' = b" using a(3) b(3) k(6,7) by simp_all
      have outs: "w \<in> set (p_outputs a0)" using k(8,9) same_gate_fields(2)[OF a(1)] by simp
      have kj: "k < j"
        using output_facts(4)[OF opt k(2) a(2) outs less.prems(1,4)] w by (simp add: gate_uses_def)
      have runs: "gate_run r (?os ! k) \<sigma>" "gate_run r (?os ! c) \<sigma>" using less.prems(3) kj k(3) by auto
      have "map \<sigma> (p_inputs a) = map \<sigma> (p_inputs a0)"
        using less.IH[OF kj k(2) less.prems(2) _ a(2) k(6)] less.prems(3) kj by simp
      moreover have "map \<sigma> (p_inputs b) = map \<sigma> (p_inputs b0)"
        using less.IH[OF _ c less.prems(2) _ b(2) k(7)] less.prems(3) kj k(3) by simp
      ultimately have eq: "gate_run r (?ds ! k) \<sigma>" "gate_run r (?ds ! c) \<sigma>"
        using by_words_run[of r] a(1) b(1) runs unfolding by_words_def by auto
      obtain x where "get_gate_param r (?os ! k) = Some x" "gate_wf r (gg_wires g) (?os ! k)" "gate_imm_ok (?os ! k)"
        by (rule opt_gate[OF opt k(2)])
      note wf = this(2,3)
      have "p_outputs a0 \<noteq> []" "length (map \<sigma> (p_inputs a)) = length (p_inputs a0)"
        using outs a(1) by (auto simp: same_gate_def)
      from gate_value_Ok[OF wf a(2) this] obtain os where "gate_value r (?os ! k) (map \<sigma> (p_inputs a)) = Ok os" by blast
      then have "gate_value r (?ds ! k) (map \<sigma> (p_inputs a)) = Ok os" using same_gate_fields(9)[OF a(1)] by simp
      from twins_run[OF k(5,6,7) eq this] have "map \<sigma> (p_outputs b) = map \<sigma> (p_outputs a)" .
      then have "\<sigma> v = \<sigma> w" using k(8,9,10) by (metis length_map nth_map)
      then show ?thesis using Some by (simp add: remapped_def)
    qed (simp add: remapped_def)
    then show ?case using q(2) by simp
  qed
  show ?thesis
    unfolding agree_def
  proof (intro conjI allI impI)
    fix j assume j: "j < length ?os"
    obtain q q' where q: "same_gate r (?os ! j) (?ds ! j) q q'" "get_gate_param r (?os ! j) = Some q"
      "get_gate_param r (?ds ! j) = Some q'" by (rule swept_gate[OF opt sw j])
    show "\<exists>p p'. same_gate r (?os ! j) (?ds ! j) p p' \<and> (\<forall>\<sigma>. consts_hold (gg_wires g) \<sigma> \<longrightarrow>
        (\<forall>i < j. gate_run r (?os ! i) \<sigma>) \<longrightarrow> map \<sigma> (p_inputs p') = map \<sigma> (p_inputs p))"
      by (intro exI[of _ q] exI[of _ q'] conjI allI impI q(1)) (rule step[OF j _ _ q(2,3)])
  qed (rule n)
qed

lemma swept_moved:
  assumes opt: "optimisable r g" and sw: "swept r pinned g (length (gg_gates g)) st"
  shows "reads_moved r g (dd_graph st)"
proof -
  let ?os = "gg_gates g" and ?ds = "gg_gates (dd_graph st)" and ?\<rho> = "dd_remap st"
  have g': "dd_graph st = g\<lparr>gg_gates := ?ds\<rparr>" and n: "length ?ds = length ?os" using sweptD(1,2)[OF sw] by simp_all
  have same: "(dd_graph st)\<lparr>gg_gates := ?os\<rparr> = g" using arg_cong[OF g', of "gg_gates_update (\<lambda>_. ?os)"] by simp
  have fields: "gg_wires (dd_graph st) = gg_wires g" "gate_origin (dd_graph st) = gate_origin g"
    "assertion_names (dd_graph st) = assertion_names g"
    using arg_cong[OF g', of gg_wires] arg_cong[OF g', of gate_origin] arg_cong[OF g', of assertion_names] by simp_all
  have av: "available r (gg_wires g) ?os j (remapped ?\<rho> w)"
    if j: "j < length ?os" "get_gate_param r (?os ! j) = Some p" and w: "w \<in> set (p_inputs p)" for j p w
  proof (cases "?\<rho> w")
    case None
    then show ?thesis using uses_available[OF opt j, of w] w by (simp add: remapped_def gate_uses_def)
  next
    case (Some v)
    obtain k c a b m where k: "k \<in> dd_dead st" "k < length ?os" "c < k" "c \<notin> dd_dead st" "twins r (?ds ! k) (?ds ! c)"
      "get_gate_param r (?ds ! k) = Some a" "get_gate_param r (?ds ! c) = Some b" "m < length (p_outputs a)"
      "w = p_outputs a ! m" "v = p_outputs b ! m" by (rule swept_source[OF sw Some])
    have c: "c < length ?os" using k(2,3) by simp
    obtain a0 a' s where a: "same_gate r (?os ! k) (?ds ! k) a0 a'" "get_gate_param r (?os ! k) = Some a0"
      "get_gate_param r (?ds ! k) = Some a'" "gate_shape r (?ds ! k) = Some s" "param_fits s a'" by (rule swept_gate[OF opt sw k(2)])
    obtain b0 b' t where b: "same_gate r (?os ! c) (?ds ! c) b0 b'" "get_gate_param r (?os ! c) = Some b0"
      "get_gate_param r (?ds ! c) = Some b'" "gate_shape r (?ds ! c) = Some t" "param_fits t b'" by (rule swept_gate[OF opt sw c])
    have [simp]: "a' = a" "b' = b" using a(3) b(3) k(6,7) by simp_all
    have "t = s" using twins_meaning(2)[OF k(5,6,7)] a(4) b(4) by simp
    then have "v \<in> set (p_outputs b)" using a(5) b(5) k(8,10) by (simp add: param_fits_def)
    then have v: "v \<in> set (p_outputs b0)" using same_gate_fields(2)[OF b(1)] by simp
    have "w \<in> set (p_outputs a0)" using k(8,9) same_gate_fields(2)[OF a(1)] by simp
    from output_facts(4)[OF opt k(2) a(2) this j] w have "c < j" using k(3) by (simp add: gate_uses_def)
    note v_out = output_facts(2,3)[OF opt c b(2) v]
    have "available r (gg_wires g) ?os j v"
      unfolding available_def
    proof (intro conjI allI impI)
      show "v < length (gg_wires g)" by (rule v_out(1))
      show "\<exists>j' < j. \<exists>p. j' < length ?os \<and> get_gate_param r (?os ! j') = Some p \<and> v \<in> set (p_outputs p)"
        using \<open>c < j\<close> c b(2) v by blast
      fix j' q assume j': "j' < length ?os" "get_gate_param r (?os ! j') = Some q" "v \<in> set (gate_writes q)"
      from v_out(2)[OF this] have "j' = c" .
      then show "j' < j" "v \<in> set (p_outputs q)" using \<open>c < j\<close> j'(2) b(2) v by simp_all
    qed
    then show ?thesis using Some by (simp add: remapped_def)
  qed
  show ?thesis
    unfolding reads_moved_def same fields n
  proof (intro conjI allI impI refl)
    show "\<exists>cs. gg_wires g = gg_wires g @ map KConstant cs" by (intro exI[of _ "[]"]) simp
    show "graph_wf r g" using opt by (simp add: optimisable_def)
    fix j assume j: "j < length ?os"
    obtain q q' where q: "same_gate r (?os ! j) (?ds ! j) q q'" "p_inputs q' = map (remapped ?\<rho>) (p_inputs q)"
      "get_gate_param r (?os ! j) = Some q" by (rule swept_gate[OF opt sw j])
    show "\<exists>p p'. same_gate r (?os ! j) (?ds ! j) p p' \<and> (\<forall>w \<in> set (p_inputs p'). available r (gg_wires g) ?os j w)"
      using q(1,2) av[OF j q(3)] by (intro exI[of _ q] exI[of _ q']) simp
  qed
qed

text \<open>The valuation in which a collapsed gate writes what its canonical gate writes.\<close>

definition dead_writes :: "hint_registry \<Rightarrow> gate_data list \<Rightarrow> gate set \<Rightarrow> wire set" where
  "dead_writes r ds dead = (\<Union>k \<in> dead. \<Union>p \<in> set_option (get_gate_param r (ds ! k)). set (gate_writes p))"

lemma gate_sat_words:
  assumes "get_gate_param r d = Some p" "get_gate_param r e = Some q" "body e = body d" "immediates e = immediates d"
    and "map \<sigma> (p_inputs p) = map \<tau> (p_inputs q)" "map \<sigma> (p_outputs p) = map \<tau> (p_outputs q)" "map \<sigma> (p_aux p) = map \<tau> (p_aux q)"
  shows "gate_sat r d \<sigma> = gate_sat r e \<tau>"
  using assms get_param_imm[OF assms(1)] get_param_imm[OF assms(2)]
  by (simp add: gate_sat_def gate_holds_def del: map_eq_conv split: gate_body.splits)

lemma swept_copies:
  assumes opt: "optimisable r g" and sw: "swept r pinned g (length (gg_gates g)) st"
  obtains \<pi> where "\<And>w. w \<notin> dead_writes r (gg_gates g) (dd_dead st) \<Longrightarrow> \<pi> w = w"
    "\<And>k p. k \<in> dd_dead st \<Longrightarrow> get_gate_param r (gg_gates g ! k) = Some p \<Longrightarrow>
      \<exists>c q. collapsed r (gg_gates (dd_graph st)) (dd_remap st) (dd_dead st) k c \<and> get_gate_param r (gg_gates (dd_graph st) ! c) = Some q \<and>
        map \<pi> (p_outputs p) = p_outputs q \<and> map \<pi> (p_aux p) = p_aux q \<and> map \<pi> (p_scratch p) = p_scratch q"
proof -
  let ?os = "gg_gates g" and ?ds = "gg_gates (dd_graph st)" and ?dead = "dd_dead st"
  have ord: "ordered r ?os" using opt by (simp add: optimisable_def graph_ready_def)
  define W where "W k = gate_writes (the (get_gate_param r (?os ! k)))" for k
  have dead: "k < length ?os" if "k \<in> ?dead" for k using sweptD(5)[OF sw] that by auto
  have "\<forall>k \<in> ?dead. \<exists>c. collapsed r ?ds (dd_remap st) ?dead k c" using sweptD(6)[OF sw] by blast
  then obtain C where C: "\<forall>k \<in> ?dead. collapsed r ?ds (dd_remap st) ?dead k (C k)" by (rule bchoice[THEN exE])
  define P where "P w x \<longleftrightarrow> fst x \<in> ?dead \<and> snd x < length (W (fst x)) \<and> w = W (fst x) ! snd x" for w and x :: "nat \<times> nat"
  define \<pi> where "\<pi> w = (if \<exists>x. P w x then (case SOME x. P w x of (k, m) \<Rightarrow> W (C k) ! m) else w)" for w
  have W_eq: "W k = gate_writes p" if "get_gate_param r (?os ! k) = Some p" for k p using that by (simp add: W_def)
  have gp: "\<exists>p. get_gate_param r (?os ! k) = Some p" if "k \<in> ?dead" for k
    by (rule opt_gate[OF opt dead[OF that]]) blast
  have one: "x = y" if P: "P w x" "P w y" for w x y
  proof -
    obtain p where p: "get_gate_param r (?os ! fst x) = Some p" using gp[of "fst x"] P by (auto simp: P_def)
    obtain q where q: "get_gate_param r (?os ! fst y) = Some q" using gp[of "fst y"] P by (auto simp: P_def)
    have in_p: "fst x < length ?os" "fst y < length ?os" using P dead by (simp_all add: P_def)
    have "w \<in> set (gate_writes p)" using P(1) W_eq[OF p] by (simp add: P_def)
    moreover have "w \<in> set (gate_writes q)" using P(2) W_eq[OF q] by (simp add: P_def)
    ultimately
    have eq: "fst x = fst y" by (rule writes_apart[OF ord in_p p q])
    have "distinct (gate_writes p)" by (rule ordered_at(1)[OF ord in_p(1) p])
    moreover have "snd x < length (gate_writes p)" "snd y < length (gate_writes p)"
      "gate_writes p ! snd x = gate_writes p ! snd y" using P W_eq[OF p] eq by (simp_all add: P_def)
    ultimately have "snd x = snd y" by (simp add: nth_eq_iff_index_eq)
    with eq show ?thesis by (simp add: prod_eq_iff)
  qed
  have \<pi>_dead: "\<pi> (W k ! m) = W (C k) ! m" if "k \<in> ?dead" "m < length (W k)" for k m
  proof -
    have x: "P (W k ! m) (k, m)" using that by (simp add: P_def)
    then have "(SOME x. P (W k ! m) x) = (k, m)" by (intro some_equality one[OF _ x])
    then show ?thesis using x unfolding \<pi>_def by auto
  qed
  show ?thesis
  proof (rule that[of \<pi>])
    fix w assume w: "w \<notin> dead_writes r ?os ?dead"
    have "\<not> P w x" for x
    proof
      assume P: "P w x"
      obtain p where p: "get_gate_param r (?os ! fst x) = Some p" using gp[of "fst x"] P by (auto simp: P_def)
      with P W_eq[OF p] w show False by (auto simp: P_def dead_writes_def)
    qed
    then show "\<pi> w = w" by (simp add: \<pi>_def)
  next
    fix k p assume k: "k \<in> ?dead" and p: "get_gate_param r (?os ! k) = Some p"
    have col: "collapsed r ?ds (dd_remap st) ?dead k (C k)" using C k by blast
    have kl: "k < length ?os" by (rule dead[OF k])
    then have cl: "C k < length ?os" using col by (simp add: collapsed_def)
    obtain a0 a s where a: "same_gate r (?os ! k) (?ds ! k) a0 a" "get_gate_param r (?os ! k) = Some a0"
      "get_gate_param r (?ds ! k) = Some a" "gate_shape r (?ds ! k) = Some s" "param_fits s a" by (rule swept_gate[OF opt sw kl])
    obtain b0 b t where b: "same_gate r (?os ! C k) (?ds ! C k) b0 b" "get_gate_param r (?os ! C k) = Some b0"
      "get_gate_param r (?ds ! C k) = Some b" "gate_shape r (?ds ! C k) = Some t" "param_fits t b" by (rule swept_gate[OF opt sw cl])
    have [simp]: "a0 = p" using a(2) p by simp
    have "t = s" using twins_meaning(2)[OF _ a(3) b(3)] col a(4) b(4) by (simp add: collapsed_def)
    then have len: "length (p_outputs b) = length (p_outputs p)" "length (p_aux b) = length (p_aux p)"
      "length (p_scratch b) = length (p_scratch p)"
      using a(5) b(5) same_gate_fields(2-4)[OF a(1)] by (simp_all add: param_fits_def)
    have Wk: "W k = gate_writes p" by (rule W_eq[OF p])
    have Wc: "W (C k) = gate_writes b" using W_eq[OF b(2)] same_gate_fields(6)[OF b(1)] by simp
    have "map \<pi> (gate_writes p) = gate_writes b"
    proof (rule nth_equalityI)
      show "length (map \<pi> (gate_writes p)) = length (gate_writes b)" using len by (simp add: gate_writes_def)
    qed (use \<pi>_dead[OF k] Wk Wc in simp)
    then have "map \<pi> (p_outputs p) = p_outputs b \<and> map \<pi> (p_aux p) = p_aux b \<and> map \<pi> (p_scratch p) = p_scratch b"
      using len by (simp add: gate_writes_def)
    with col b(3) show "\<exists>c q. collapsed r ?ds (dd_remap st) ?dead k c \<and> get_gate_param r (?ds ! c) = Some q \<and>
        map \<pi> (p_outputs p) = p_outputs q \<and> map \<pi> (p_aux p) = p_aux q \<and> map \<pi> (p_scratch p) = p_scratch q" by blast
  qed
qed

lemma not_dead_write:
  assumes opt: "optimisable r g" and dead: "dead \<subseteq> {..<length (gg_gates g)}"
    and j: "j < length (gg_gates g)" "get_gate_param r (gg_gates g ! j) = Some p"
  shows "j \<notin> dead \<Longrightarrow> w \<in> set (gate_writes p) \<Longrightarrow> w \<notin> dead_writes r (gg_gates g) dead"
    and "w \<in> set (gate_uses p) \<Longrightarrow> w \<in> dead_writes r (gg_gates g) dead \<Longrightarrow>
      \<exists>k \<in> dead. \<exists>q. get_gate_param r (gg_gates g ! k) = Some q \<and> w \<in> set (p_outputs q)"
proof -
  have ord: "ordered r (gg_gates g)" using opt by (simp add: optimisable_def graph_ready_def)
  show "w \<notin> dead_writes r (gg_gates g) dead" if "j \<notin> dead" "w \<in> set (gate_writes p)"
    using writes_apart[OF ord j(1) _ j(2) _ that(2)] that(1) dead by (fastforce simp: dead_writes_def)
  assume w: "w \<in> set (gate_uses p)" "w \<in> dead_writes r (gg_gates g) dead"
  then obtain k q where k: "k \<in> dead" "get_gate_param r (gg_gates g ! k) = Some q" "w \<in> set (gate_writes q)"
    by (auto simp: dead_writes_def)
  then have "k < length (gg_gates g)" using dead by auto
  with uses_available[OF opt j w(1)] k(2,3) have "w \<in> set (p_outputs q)" by (simp add: available_def)
  with k(1,2) show "\<exists>k \<in> dead. \<exists>q. get_gate_param r (gg_gates g ! k) = Some q \<and> w \<in> set (p_outputs q)" by blast
qed

lemma dead_write_not_const:
  assumes "optimisable r g" "dead \<subseteq> {..<length (gg_gates g)}" "w < length (gg_wires g)" "is_const (gg_wires g ! w)"
  shows "w \<notin> dead_writes r (gg_gates g) dead"
proof
  assume "w \<in> dead_writes r (gg_gates g) dead"
  then obtain k q where k: "k \<in> dead" "get_gate_param r (gg_gates g ! k) = Some q" "w \<in> set (gate_writes q)"
    by (auto simp: dead_writes_def)
  then have "gate_ready r (gg_wires g) (gg_gates g ! k)" using assms(1,2) by (auto simp: optimisable_def graph_ready_def)
  then show False using k(2,3) assms(4) by (auto simp: gate_ready_def consts_kept_def)
qed

lemma swept_unread:
  assumes opt: "optimisable r g" and sw: "swept r pinned g (length (gg_gates g)) st"
    and j: "j < length (gg_gates g)" "get_gate_param r (gg_gates g ! j) = Some p" "w \<in> set (p_inputs p)"
    and free: "dd_remap st w = None"
  shows "w \<notin> dead_writes r (gg_gates g) (dd_dead st)"
proof
  let ?os = "gg_gates g" and ?ds = "gg_gates (dd_graph st)"
  assume w: "w \<in> dead_writes r ?os (dd_dead st)"
  have "w \<in> set (gate_uses p)" using j(3) by (simp add: gate_uses_def)
  with not_dead_write(2)[OF opt sweptD(5)[OF sw] j(1,2) _ w]
  obtain k q where k: "k \<in> dd_dead st" "get_gate_param r (?os ! k) = Some q" "w \<in> set (p_outputs q)" by blast
  obtain m where m: "m < length (p_outputs q)" "w = p_outputs q ! m" using k(3) by (auto simp: in_set_conv_nth)
  obtain c where c: "collapsed r ?ds (dd_remap st) (dd_dead st) k c" using sweptD(6)[OF sw k(1)] by blast
  have kl: "k < length ?os" using sweptD(5)[OF sw] k(1) by auto
  obtain a0 a where a: "same_gate r (?os ! k) (?ds ! k) a0 a" "get_gate_param r (?os ! k) = Some a0"
    "get_gate_param r (?ds ! k) = Some a" by (rule swept_gate[OF opt sw kl])
  then have "p_outputs a = p_outputs q" using k(2) same_gate_fields(2)[OF a(1)] by simp
  then have "dd_remap st w \<noteq> None" using c a(3) m by (auto simp: collapsed_def)
  with free show False by simp
qed

lemma swept_sound:
  assumes opt: "optimisable r g" and sw: "swept r pinned g (length (gg_gates g)) st"
    and ch: "consts_hold (gg_wires g) \<sigma>"
    and sat: "\<forall>j < length (gg_gates g). j \<notin> dd_dead st \<longrightarrow> gate_sat r (gg_gates (dd_graph st) ! j) \<sigma>"
  shows "\<exists>\<sigma>'. consts_hold (gg_wires g) \<sigma>' \<and> (\<forall>d \<in> set (gg_gates g). gate_sat r d \<sigma>') \<and>
    (\<forall>w. w \<notin> dead_writes r (gg_gates g) (dd_dead st) \<longrightarrow> \<sigma>' w = \<sigma> w)"
proof -
  let ?os = "gg_gates g" and ?ds = "gg_gates (dd_graph st)" and ?\<rho> = "dd_remap st" and ?dead = "dd_dead st"
  have dead: "?dead \<subseteq> {..<length ?os}" by (rule sweptD(5)[OF sw])
  obtain \<pi> where off: "\<And>w. w \<notin> dead_writes r ?os ?dead \<Longrightarrow> \<pi> w = w"
    and on: "\<And>k p. k \<in> ?dead \<Longrightarrow> get_gate_param r (?os ! k) = Some p \<Longrightarrow>
      \<exists>c q. collapsed r ?ds ?\<rho> ?dead k c \<and> get_gate_param r (?ds ! c) = Some q \<and>
        map \<pi> (p_outputs p) = p_outputs q \<and> map \<pi> (p_aux p) = p_aux q \<and> map \<pi> (p_scratch p) = p_scratch q"
    by (rule swept_copies[OF opt sw]) blast
  have reads: "\<pi> w = remapped ?\<rho> w" if j: "j < length ?os" "get_gate_param r (?os ! j) = Some p" "w \<in> set (p_inputs p)" for j p w
  proof (cases "?\<rho> w")
    case None
    then have "w \<notin> dead_writes r ?os ?dead" by (rule swept_unread[OF opt sw j])
    then show ?thesis using None off by (simp add: remapped_def)
  next
    case (Some v)
    obtain k c a b m where k: "k \<in> ?dead" "k < length ?os" "c < k" "c \<notin> ?dead" "twins r (?ds ! k) (?ds ! c)"
      "get_gate_param r (?ds ! k) = Some a" "get_gate_param r (?ds ! c) = Some b" "m < length (p_outputs a)"
      "w = p_outputs a ! m" "v = p_outputs b ! m" by (rule swept_source[OF sw Some])
    obtain a0 a' where a: "same_gate r (?os ! k) (?ds ! k) a0 a'" "get_gate_param r (?os ! k) = Some a0"
      "get_gate_param r (?ds ! k) = Some a'" by (rule swept_gate[OF opt sw k(2)])
    have outs: "p_outputs a0 = p_outputs a" using a(3) k(6) same_gate_fields(2)[OF a(1)] by simp
    obtain c' b' where c': "collapsed r ?ds ?\<rho> ?dead k c'" "get_gate_param r (?ds ! c') = Some b'"
      "map \<pi> (p_outputs a0) = p_outputs b'" using on[OF k(1) a(2)] by blast
    have "\<pi> w = p_outputs b' ! m" using c'(3) k(8,9) outs by (metis nth_map)
    moreover have "?\<rho> w = Some (p_outputs b' ! m)" using c'(1,2) k(6,8,9) by (auto simp: collapsed_def)
    ultimately show ?thesis using Some by (simp add: remapped_def)
  qed
  let ?\<sigma> = "\<sigma> \<circ> \<pi>"
  have ch': "consts_hold (gg_wires g) ?\<sigma>"
    using ch off dead_write_not_const[OF opt dead] unfolding consts_hold_def
    by (auto split: wire_kind.splits)
  have "gate_sat r (?os ! j) ?\<sigma>" if j: "j < length ?os" for j
  proof -
    obtain p p' where p: "same_gate r (?os ! j) (?ds ! j) p p'" "p_inputs p' = map (remapped ?\<rho>) (p_inputs p)"
      "get_gate_param r (?os ! j) = Some p" "get_gate_param r (?ds ! j) = Some p'" by (rule swept_gate[OF opt sw j])
    have ins: "map ?\<sigma> (p_inputs p) = map \<sigma> (p_inputs p')" unfolding p(2) using reads[OF j p(3)] by simp
    show ?thesis
    proof (cases "j \<in> ?dead")
      case False
      have "\<pi> w = w" if "w \<in> set (gate_writes p)" for w by (rule off[OF not_dead_write(1)[OF opt dead j p(3) False that]])
      then have "map \<sigma> (p_outputs p) = map ?\<sigma> (p_outputs p)" "map \<sigma> (p_aux p) = map ?\<sigma> (p_aux p)" by (simp_all add: gate_writes_def)
      from gate_sat_moved[OF p(1) ins[symmetric] this] sat j False show ?thesis by simp
    next
      case True
      obtain c q where c: "collapsed r ?ds ?\<rho> ?dead j c" "get_gate_param r (?ds ! c) = Some q"
        "map \<pi> (p_outputs p) = p_outputs q" "map \<pi> (p_aux p) = p_aux q" using on[OF True p(3)] by blast
      then have tw: "twins r (?ds ! j) (?ds ! c)" "c \<notin> ?dead" "c < length ?os" using j by (simp_all add: collapsed_def)
      have eq: "body (?ds ! c) = body (?os ! j)" "immediates (?ds ! c) = immediates (?os ! j)"
        using tw(1) p(1) by (simp_all add: twins_def same_gate_def)
      have "map ?\<sigma> (p_inputs p) = map \<sigma> (p_inputs q)" unfolding ins twins_meaning(3)[OF tw(1) p(4) c(2)] ..
      moreover have "map ?\<sigma> (p_outputs p) = map \<sigma> (p_outputs q)" "map ?\<sigma> (p_aux p) = map \<sigma> (p_aux q)"
        unfolding c(3,4)[symmetric] by simp_all
      ultimately have "gate_sat r (?os ! j) ?\<sigma> = gate_sat r (?ds ! c) \<sigma>" by (rule gate_sat_words[OF p(3) c(2) eq])
      then show ?thesis using sat tw(2,3) by simp
    qed
  qed
  then have "\<forall>d \<in> set ?os. gate_sat r d ?\<sigma>" by (auto simp: in_set_conv_nth)
  then show ?thesis using ch' off by (intro exI[of _ ?\<sigma>]) simp
qed

section \<open>The pass\<close>

lemma dedup_gates_spec:
  assumes opt: "optimisable r g"
  obtains dead g' where "dedup_gates g pinned r = Some (dead, g')" "optimisable r g'" "reads_moved r g g'" "gg_wires g' = gg_wires g"
    "agree r (gate_run r) (gg_wires g) (gg_gates g) (gg_gates g')" "dead \<subseteq> {..<length (gg_gates g)}"
    "\<And>k p w. k \<in> dead \<Longrightarrow> get_gate_param r (gg_gates g ! k) = Some p \<Longrightarrow> w \<in> set (p_outputs p) \<Longrightarrow> \<not> observable g pinned w"
    "\<And>\<sigma>. consts_hold (gg_wires g) \<sigma> \<Longrightarrow> \<forall>j < length (gg_gates g). j \<notin> dead \<longrightarrow> gate_sat r (gg_gates g' ! j) \<sigma> \<Longrightarrow>
      \<exists>\<sigma>'. consts_hold (gg_wires g) \<sigma>' \<and> (\<forall>d \<in> set (gg_gates g). gate_sat r d \<sigma>') \<and>
        (\<forall>w. w \<notin> dead_writes r (gg_gates g) dead \<longrightarrow> \<sigma>' w = \<sigma> w)"
    "\<And>j p w. j < length (gg_gates g) \<Longrightarrow> get_gate_param r (gg_gates g' ! j) = Some p \<Longrightarrow> w \<in> set (gate_uses p) \<Longrightarrow>
      w \<notin> dead_writes r (gg_gates g) dead"
    "\<And>k. k \<in> dead \<Longrightarrow> \<exists>c < k. c \<notin> dead \<and> twins r (gg_gates g' ! k) (gg_gates g' ! c)"
proof -
  obtain st where st: "dedup_gates g pinned r = Some (dd_dead st, dd_graph st)" "swept r pinned g (length (gg_gates g)) st"
    by (rule dedup_gates_swept[OF opt])
  have wires: "gg_wires (dd_graph st) = gg_wires g" using arg_cong[OF sweptD(1)[OF st(2)], of gg_wires] by simp
  have mv: "reads_moved r g (dd_graph st)" by (rule swept_moved[OF opt st(2)])
  have "optimisable r (dd_graph st)"
    by (rule reads_moved_optimisable[OF opt mv]) (use opt in \<open>simp add: wires optimisable_def graph_ready_def\<close>)
  moreover have "\<not> observable g pinned w"
    if k: "k \<in> dd_dead st" "get_gate_param r (gg_gates g ! k) = Some p" "w \<in> set (p_outputs p)" for k p w
  proof -
    have "k < length (gg_gates g)" using sweptD(5)[OF st(2)] k(1) by auto
    then obtain p0 p' where p: "same_gate r (gg_gates g ! k) (gg_gates (dd_graph st) ! k) p0 p'"
      "get_gate_param r (gg_gates g ! k) = Some p0" "get_gate_param r (gg_gates (dd_graph st) ! k) = Some p'"
      by (rule swept_gate[OF opt st(2)])
    then show ?thesis using sweptD(7)[OF st(2) k(1) p(3)] k(2,3) same_gate_fields(2)[OF p(1)] by simp
  qed
  moreover have "w \<notin> dead_writes r (gg_gates g) (dd_dead st)"
    if j: "j < length (gg_gates g)" "get_gate_param r (gg_gates (dd_graph st) ! j) = Some p" "w \<in> set (gate_uses p)" for j p w
  proof -
    note dead = sweptD(5)[OF st(2)]
    obtain p0 p' where p: "same_gate r (gg_gates g ! j) (gg_gates (dd_graph st) ! j) p0 p'"
      "p_inputs p' = map (remapped (dd_remap st)) (p_inputs p0)" "get_gate_param r (gg_gates g ! j) = Some p0"
      "get_gate_param r (gg_gates (dd_graph st) ! j) = Some p'" by (rule swept_gate[OF opt st(2) j(1)])
    have [simp]: "p = p'" using p(4) j(2) by simp
    consider "w \<in> set (p_constants p0)" | u where "u \<in> set (p_inputs p0)" "w = remapped (dd_remap st) u"
      using j(3) p(2) same_gate_fields(1)[OF p(1)] by (auto simp: gate_uses_def)
    then show ?thesis
    proof cases
      case 1
      then have "w < length (gg_wires g)" using uses_available[OF opt j(1) p(3), of w] by (simp add: gate_uses_def available_def)
      from dead_write_not_const[OF opt dead this gate_const_wires[OF opt j(1) p(3) 1]] show ?thesis .
    next
      case (2 u)
      show ?thesis
      proof (cases "dd_remap st u")
        case None
        from swept_unread[OF opt st(2) j(1) p(3) 2(1) None] 2(2) None show ?thesis by (simp add: remapped_def)
      next
        case (Some v)
        obtain k c a b m where k: "k < length (gg_gates g)" "c < k" "c \<notin> dd_dead st"
          "twins r (gg_gates (dd_graph st) ! k) (gg_gates (dd_graph st) ! c)"
          "get_gate_param r (gg_gates (dd_graph st) ! k) = Some a" "get_gate_param r (gg_gates (dd_graph st) ! c) = Some b"
          "m < length (p_outputs a)" "v = p_outputs b ! m" by (rule swept_source[OF st(2) Some])
        have c: "c < length (gg_gates g)" using k(1,2) by simp
        obtain a' s where a: "get_gate_param r (gg_gates (dd_graph st) ! k) = Some a'"
          "gate_shape r (gg_gates (dd_graph st) ! k) = Some s" "param_fits s a'" by (rule swept_gate[OF opt st(2) k(1)])
        obtain b0 b' t where b: "same_gate r (gg_gates g ! c) (gg_gates (dd_graph st) ! c) b0 b'" "get_gate_param r (gg_gates g ! c) = Some b0"
          "get_gate_param r (gg_gates (dd_graph st) ! c) = Some b'" "gate_shape r (gg_gates (dd_graph st) ! c) = Some t" "param_fits t b'"
          by (rule swept_gate[OF opt st(2) c])
        have "t = s" using twins_meaning(2)[OF k(4-6)] a(2) b(4) by simp
        then have "v \<in> set (p_outputs b)" using a b(3,5) k(5-8) by (simp add: param_fits_def)
        then have "v \<in> set (gate_writes b0)" using b(3) k(6) same_gate_fields(2)[OF b(1)] by (simp add: gate_writes_def)
        from not_dead_write(1)[OF opt dead c b(2) k(3) this] 2(2) Some show ?thesis by (simp add: remapped_def)
      qed
    qed
  qed
  moreover have "\<exists>c < k. c \<notin> dd_dead st \<and> twins r (gg_gates (dd_graph st) ! k) (gg_gates (dd_graph st) ! c)" if "k \<in> dd_dead st" for k
    using sweptD(6)[OF st(2) that] by (auto simp: collapsed_def)
  ultimately show ?thesis
    using that[OF st(1) _ mv wires swept_agree[OF opt st(2)] sweptD(5)[OF st(2)]] swept_sound[OF opt st(2)] by blast
qed

end
