(* ===== verification/Dce.thy ===== *)
theory Dce
  imports Cse
begin

text \<open>
  Dead code (\<open>pass/dce.rs\<close>): the gates an assertion or an observable wire needs.  A work stack floods
  them backwards along the definitions of the wires they read.  \<open>None\<close> is a panic.
\<close>

section \<open>Definitions\<close>

text \<open>The live set and the work stack; a gate that joins the set is pushed.\<close>

definition mark :: "gate \<Rightarrow> gate set \<times> gate list \<Rightarrow> gate set \<times> gate list" where
  "mark gate q = (if gate \<in> fst q then q else (insert gate (fst q), gate # snd q))"

fun seed_sinks :: "hint_registry \<Rightarrow> gate \<Rightarrow> gate_data list \<Rightarrow> gate set \<times> gate list \<Rightarrow> (gate set \<times> gate list) option" where
  "seed_sinks r gate [] q = Some q"
| "seed_sinks r gate (d # ds) q = do {
    p \<leftarrow> get_gate_param r d;
    seed_sinks r (Suc gate) ds (if p_outputs p = [] then mark gate q else q)
  }"

definition mark_def :: "gate_graph \<Rightarrow> wire \<Rightarrow> gate set \<times> gate list \<Rightarrow> gate set \<times> gate list" where
  "mark_def g w q = (case wire_def g w of Some gate \<Rightarrow> mark gate q | None \<Rightarrow> q)"

fun seed_observables :: "gate_graph \<Rightarrow> wire set \<Rightarrow> wire \<Rightarrow> wire_kind list \<Rightarrow> gate set \<times> gate list \<Rightarrow> gate set \<times> gate list" where
  "seed_observables g pinned w [] q = q"
| "seed_observables g pinned w (k # ks) q =
    seed_observables g pinned (Suc w) ks (if k = KInout \<or> w \<in> pinned then mark_def g w q else q)"

partial_function (option) flood :: "hint_registry \<Rightarrow> gate_graph \<Rightarrow> gate set \<times> gate list \<Rightarrow> gate set option" where
  "flood r g q =
    (case snd q of
       [] \<Rightarrow> Some (fst q)
     | gate # work \<Rightarrow> do {
         d \<leftarrow> read_at (gg_gates g) gate;
         p \<leftarrow> get_gate_param r d;
         flood r g (fold (mark_def g) (p_inputs p) (fst q, work))
       })"

declare flood.simps [code]

definition live_gates :: "gate_graph \<Rightarrow> wire set \<Rightarrow> hint_registry \<Rightarrow> (gate set \<times> gate_graph) option" where
  "live_gates g pinned r = do {
    g \<leftarrow> rebuild_wire_defs r g;
    q \<leftarrow> seed_sinks r 0 (gg_gates g) ({}, []);
    live \<leftarrow> flood r g (seed_observables g pinned 0 (gg_wires g) q);
    Some (live, g)
  }"

section \<open>What is needed\<close>

definition is_def :: "hint_registry \<Rightarrow> gate_graph \<Rightarrow> gate \<Rightarrow> wire \<Rightarrow> bool" where
  "is_def r g k w \<longleftrightarrow> k < length (gg_gates g) \<and> (\<exists>p. get_gate_param r (gg_gates g ! k) = Some p \<and> w \<in> set (p_outputs p @ p_aux p))"

inductive needed :: "hint_registry \<Rightarrow> gate_graph \<Rightarrow> wire set \<Rightarrow> gate \<Rightarrow> bool" for r g pinned where
  sink: "k < length (gg_gates g) \<Longrightarrow> get_gate_param r (gg_gates g ! k) = Some p \<Longrightarrow> p_outputs p = [] \<Longrightarrow> needed r g pinned k"
| seen: "is_def r g k w \<Longrightarrow> observable g pinned w \<Longrightarrow> needed r g pinned k"
| feeds: "needed r g pinned j \<Longrightarrow> get_gate_param r (gg_gates g ! j) = Some p \<Longrightarrow> w \<in> set (p_inputs p) \<Longrightarrow> is_def r g k w \<Longrightarrow>
    needed r g pinned k"

text \<open>The rebuilt table.\<close>

lemma rebuilt_defs:
  assumes opt: "optimisable r g" and defs: "rebuild_wire_defs r g = Some (g\<lparr>wire_def := defs\<rparr>)"
  shows "defs w = Some k \<longleftrightarrow> is_def r g k w"
proof -
  let ?ds = "gg_gates g"
  have ord: "ordered r ?ds" using opt by (simp add: optimisable_def graph_ready_def)
  have gp: "\<forall>d \<in> set ?ds. gate_defs r d \<noteq> None" using params_present[OF opt] by (simp add: gate_defs_def)
  let ?P = "\<lambda>i. i < length ?ds \<and> w \<in> set (the (gate_defs r (?ds ! i)))"
  have P: "?P i \<longleftrightarrow> is_def r g i w" for i
  proof (cases "i < length ?ds")
    case True
    obtain p where "get_gate_param r (?ds ! i) = Some p" by (rule opt_gate[OF opt True])
    then show ?thesis using True by (simp add: gate_defs_def is_def_def)
  qed (simp add: is_def_def)
  obtain defs' where d: "define_all r 0 ?ds (\<lambda>_. None) = Some defs'"
    "\<forall>w. defs' w = (if \<exists>i < length ?ds. w \<in> set (the (gate_defs r (?ds ! i)))
      then Some (0 + (GREATEST i. i < length ?ds \<and> w \<in> set (the (gate_defs r (?ds ! i))))) else None)"
    using define_all_spec[OF gp, of 0 "\<lambda>_. None"] by blast
  have "g\<lparr>wire_def := defs'\<rparr> = g\<lparr>wire_def := defs\<rparr>" using defs d(1) by (simp add: rebuild_wire_defs_def)
  from arg_cong[OF this, of wire_def] have [simp]: "defs' = defs" by simp
  have val: "defs w = (if \<exists>i. ?P i then Some (GREATEST i. ?P i) else None)" using d(2) by simp
  have one: "i = j" if ij: "?P i" "?P j" for i j
  proof -
    have "is_def r g i w" "is_def r g j w" using ij P by blast+
    then obtain p q where p: "get_gate_param r (?ds ! i) = Some p" "w \<in> set (p_outputs p @ p_aux p)"
      and q: "get_gate_param r (?ds ! j) = Some q" "w \<in> set (p_outputs q @ p_aux q)" unfolding is_def_def by (elim conjE exE)
    have "w \<in> set (gate_writes p)" "w \<in> set (gate_writes q)" using p(2) q(2) by (auto simp: gate_writes_def)
    from writes_apart[OF ord conjunct1[OF ij(1)] conjunct1[OF ij(2)] p(1) q(1) this] show ?thesis .
  qed
  show ?thesis
  proof
    assume "defs w = Some k"
    then have "(if \<exists>i. ?P i then Some (GREATEST i. ?P i) else None) = Some k" by (simp only: val)
    then have ex: "\<exists>i. ?P i" and k: "k = (GREATEST i. ?P i)" by (auto split: if_split_asm)
    have "?P (GREATEST i. ?P i)" by (rule GreatestI_ex_nat[OF ex, of "length ?ds"]) simp
    then show "is_def r g k w" by (simp only: P k)
  next
    assume k: "is_def r g k w"
    then have Pk: "?P k" by (rule P[THEN iffD2])
    have "(GREATEST i. ?P i) = k" by (rule Greatest_equality[of ?P, OF Pk]) (rule eq_imp_le[OF one[OF _ Pk]])
    moreover have "\<exists>i. ?P i" using Pk by (rule exI)
    ultimately show "defs w = Some k" by (simp only: val if_True)
  qed
qed

section \<open>The flood\<close>

text \<open>The queue invariant: marked gates are needed, and what the gates off the stack read is marked, except
  for the gates \<open>B\<close> in progress.\<close>

definition flooding :: "hint_registry \<Rightarrow> gate_graph \<Rightarrow> wire set \<Rightarrow> gate set \<Rightarrow> gate set \<times> gate list \<Rightarrow> bool" where
  "flooding r g pinned B q \<longleftrightarrow> (\<forall>k \<in> fst q. needed r g pinned k) \<and> set (snd q) \<subseteq> fst q \<and>
    (\<forall>j \<in> fst q - set (snd q) - B. \<forall>p k w. get_gate_param r (gg_gates g ! j) = Some p \<longrightarrow> w \<in> set (p_inputs p) \<longrightarrow>
      is_def r g k w \<longrightarrow> k \<in> fst q)"

lemma floodingD:
  assumes "flooding r g pinned B q"
  shows "\<And>k. k \<in> fst q \<Longrightarrow> needed r g pinned k" "set (snd q) \<subseteq> fst q"
    "\<And>j p k w. j \<in> fst q \<Longrightarrow> j \<notin> set (snd q) \<Longrightarrow> j \<notin> B \<Longrightarrow> get_gate_param r (gg_gates g ! j) = Some p \<Longrightarrow>
      w \<in> set (p_inputs p) \<Longrightarrow> is_def r g k w \<Longrightarrow> k \<in> fst q"
  using assms unfolding flooding_def by blast+

lemma floodingI:
  assumes "\<And>k. k \<in> fst q \<Longrightarrow> needed r g pinned k" "set (snd q) \<subseteq> fst q"
    "\<And>j p k w. j \<in> fst q \<Longrightarrow> j \<notin> set (snd q) \<Longrightarrow> j \<notin> B \<Longrightarrow> get_gate_param r (gg_gates g ! j) = Some p \<Longrightarrow>
      w \<in> set (p_inputs p) \<Longrightarrow> is_def r g k w \<Longrightarrow> k \<in> fst q"
  shows "flooding r g pinned B q"
  unfolding flooding_def
proof (intro conjI ballI allI impI)
  fix j p k w assume "j \<in> fst q - set (snd q) - B" "get_gate_param r (gg_gates g ! j) = Some p" "w \<in> set (p_inputs p)" "is_def r g k w"
  then show "k \<in> fst q" using assms(3)[of j p w k] by simp
qed (fact assms(1,2))+

lemma needed_bound: "needed r g pinned k \<Longrightarrow> k < length (gg_gates g)"
  by (cases rule: needed.cases) (auto simp: is_def_def)

lemma flooding_finite: "flooding r g pinned B q \<Longrightarrow> finite (fst q) \<and> card (fst q) \<le> length (gg_gates g)"
proof -
  assume "flooding r g pinned B q"
  then have "fst q \<subseteq> {..<length (gg_gates g)}" using needed_bound by (auto simp: flooding_def)
  then show ?thesis using finite_subset card_mono[OF finite_lessThan] by fastforce
qed

lemma mark_fst [simp]: "fst (mark k q) = insert k (fst q)"
  by (auto simp: mark_def)

lemma mark_count: "finite (fst q) \<Longrightarrow> length (snd (mark k q)) + card (fst q) = length (snd q) + card (fst (mark k q))"
  by (simp add: mark_def)

lemma flooding_mark: "flooding r g pinned B q \<Longrightarrow> needed r g pinned k \<Longrightarrow> flooding r g pinned B (mark k q)"
  unfolding flooding_def mark_def by (auto split: if_splits)

definition defs_right :: "hint_registry \<Rightarrow> gate_graph \<Rightarrow> bool" where
  "defs_right r g \<longleftrightarrow> (\<forall>w k. wire_def g w = Some k \<longleftrightarrow> is_def r g k w)"

lemma mark_one:
  assumes defs: "defs_right r g" and fl: "flooding r g pinned B q" and need: "\<And>k. is_def r g k w \<Longrightarrow> needed r g pinned k"
  shows "flooding r g pinned B (mark_def g w q)" "fst q \<subseteq> fst (mark_def g w q)" "\<And>k. is_def r g k w \<Longrightarrow> k \<in> fst (mark_def g w q)"
    "length (snd (mark_def g w q)) + card (fst q) = length (snd q) + card (fst (mark_def g w q))"
proof -
  have d: "wire_def g w = Some k \<longleftrightarrow> is_def r g k w" for k using defs by (simp add: defs_right_def)
  have fin: "finite (fst q)" using flooding_finite[OF fl] by simp
  have "flooding r g pinned B (mark_def g w q) \<and> fst q \<subseteq> fst (mark_def g w q) \<and> (\<forall>k. is_def r g k w \<longrightarrow> k \<in> fst (mark_def g w q)) \<and>
    length (snd (mark_def g w q)) + card (fst q) = length (snd q) + card (fst (mark_def g w q))"
  proof (cases "wire_def g w")
    case None
    then show ?thesis using fl d by (simp add: mark_def_def)
  next
    case (Some k)
    then have "needed r g pinned k" using need d by simp
    moreover have "j = k" if "is_def r g j w" for j using that Some d[of j] by simp
    ultimately show ?thesis using Some flooding_mark[OF fl] mark_count[OF fin] by (auto simp: mark_def_def)
  qed
  then show "flooding r g pinned B (mark_def g w q)" "fst q \<subseteq> fst (mark_def g w q)" "\<And>k. is_def r g k w \<Longrightarrow> k \<in> fst (mark_def g w q)"
    "length (snd (mark_def g w q)) + card (fst q) = length (snd q) + card (fst (mark_def g w q))" by blast+
qed

lemma fold_marks:
  assumes defs: "defs_right r g"
  shows "flooding r g pinned B q \<Longrightarrow> \<forall>w \<in> set ws. \<forall>k. is_def r g k w \<longrightarrow> needed r g pinned k \<Longrightarrow>
    flooding r g pinned B (fold (mark_def g) ws q) \<and> fst q \<subseteq> fst (fold (mark_def g) ws q) \<and>
    (\<forall>w \<in> set ws. \<forall>k. is_def r g k w \<longrightarrow> k \<in> fst (fold (mark_def g) ws q)) \<and>
    length (snd (fold (mark_def g) ws q)) + card (fst q) = length (snd q) + card (fst (fold (mark_def g) ws q))"
proof (induction ws arbitrary: q)
  case (Cons w ws)
  let ?q = "mark_def g w q"
  have need: "needed r g pinned k" if "is_def r g k w" for k using Cons.prems(2) that by simp
  note q = mark_one[where w = w, OF defs Cons.prems(1) need]
  from Cons.IH[OF q(1)] Cons.prems(2) have IH: "flooding r g pinned B (fold (mark_def g) ws ?q)"
    "fst ?q \<subseteq> fst (fold (mark_def g) ws ?q)" "\<forall>w \<in> set ws. \<forall>k. is_def r g k w \<longrightarrow> k \<in> fst (fold (mark_def g) ws ?q)"
    "length (snd (fold (mark_def g) ws ?q)) + card (fst ?q) = length (snd ?q) + card (fst (fold (mark_def g) ws ?q))" by simp_all
  have "fst q \<subseteq> fst (fold (mark_def g) (w # ws) q)" "\<forall>v \<in> set (w # ws). \<forall>k. is_def r g k v \<longrightarrow> k \<in> fst (fold (mark_def g) (w # ws) q)"
    using IH(2,3) q(2,3) by auto
  then show ?case using IH(1,4) q(4) by simp
qed simp

lemma flood_spec:
  assumes opt: "optimisable r g" and defs: "defs_right r g"
  shows "flooding r g pinned {} q \<Longrightarrow> \<exists>live. flood r g q = Some live \<and> flooding r g pinned {} (live, []) \<and> fst q \<subseteq> live"
proof (induction "length (gg_gates g) + length (snd q) - card (fst q)" arbitrary: q rule: less_induct)
  case less
  show ?case
  proof (cases "snd q")
    case Nil
    have "flood r g q = Some (fst q)" by (subst flood.simps) (simp add: Nil)
    moreover have "flooding r g pinned {} (fst q, [])" using less.prems Nil by (simp add: flooding_def)
    ultimately show ?thesis by blast
  next
    case (Cons gate work)
    note F = floodingD[OF less.prems]
    have gate: "needed r g pinned gate" "gate \<in> fst q" using F(1,2) Cons by auto
    have i: "gate < length (gg_gates g)" by (rule needed_bound[OF gate(1)])
    obtain p where p: "get_gate_param r (gg_gates g ! gate) = Some p" by (rule opt_gate[OF opt i])
    let ?q = "fold (mark_def g) (p_inputs p) (fst q, work)"
    have fl0: "flooding r g pinned {gate} (fst q, work)"
    proof (rule floodingI, unfold fst_conv snd_conv)
      show "needed r g pinned k" if "k \<in> fst q" for k by (rule F(1)[OF that])
      show "set work \<subseteq> fst q" using F(2) Cons by auto
      show "k \<in> fst q" if "j \<in> fst q" "j \<notin> set work" "j \<notin> {gate}" "get_gate_param r (gg_gates g ! j) = Some a"
        "w \<in> set (p_inputs a)" "is_def r g k w" for j a k w
        by (rule F(3)[OF that(1) _ _ that(4-6)]) (use Cons that(2,3) in simp_all)
    qed
    have need: "\<forall>w \<in> set (p_inputs p). \<forall>k. is_def r g k w \<longrightarrow> needed r g pinned k" using needed.feeds[OF gate(1) p] by blast
    note marks = fold_marks[OF defs fl0 need, unfolded fst_conv snd_conv]
    note q = marks[THEN conjunct1] marks[THEN conjunct2, THEN conjunct1] marks[THEN conjunct2, THEN conjunct2, THEN conjunct1]
      marks[THEN conjunct2, THEN conjunct2, THEN conjunct2]
    note Q = floodingD[OF q(1)]
    have fl: "flooding r g pinned {} ?q"
    proof (rule floodingI)
      show "needed r g pinned k" if "k \<in> fst ?q" for k by (rule Q(1)[OF that])
      show "set (snd ?q) \<subseteq> fst ?q" by (rule Q(2))
      show "k \<in> fst ?q" if j: "j \<in> fst ?q" "j \<notin> set (snd ?q)" "get_gate_param r (gg_gates g ! j) = Some a"
        "w \<in> set (p_inputs a)" "is_def r g k w" for j a k w
      proof (cases "j = gate")
        case True
        then have "w \<in> set (p_inputs p)" using j(3,4) p by simp
        then show ?thesis using q(3) j(5) by blast
      next
        case False
        show ?thesis by (rule Q(3)[OF j(1,2) _ j(3-5)]) (simp add: False)
      qed
    qed
    have "card (fst q) \<le> length (gg_gates g)" "card (fst ?q) \<le> length (gg_gates g)"
      using flooding_finite[OF less.prems] flooding_finite[OF fl] by simp_all
    then have "length (gg_gates g) + length (snd ?q) - card (fst ?q) < length (gg_gates g) + length (snd q) - card (fst q)"
      using q(4) Cons by simp
    from less.hyps[OF this fl] obtain live where "flood r g ?q = Some live" "flooding r g pinned {} (live, [])" "fst ?q \<subseteq> live" by blast
    moreover have "flood r g q = flood r g ?q" by (subst flood.simps) (use Cons i p in \<open>simp add: read_at_def\<close>)
    ultimately show ?thesis using q(2) by auto
  qed
qed

lemma seed_sinks_spec:
  assumes "\<forall>j < length ds. gate + j < length (gg_gates g) \<and> gg_gates g ! (gate + j) = ds ! j" "\<forall>d \<in> set ds. get_gate_param r d \<noteq> None"
    and "flooding r g pinned {} q"
  shows "\<exists>q'. seed_sinks r gate ds q = Some q' \<and> flooding r g pinned {} q' \<and> fst q \<subseteq> fst q' \<and>
    (\<forall>j < length ds. \<forall>p. get_gate_param r (ds ! j) = Some p \<longrightarrow> p_outputs p = [] \<longrightarrow> gate + j \<in> fst q')"
  using assms
proof (induction ds arbitrary: gate q)
  case (Cons d ds)
  obtain p where p: "get_gate_param r d = Some p" using Cons.prems(2) by auto
  let ?q = "if p_outputs p = [] then mark gate q else q"
  have at: "gate < length (gg_gates g)" "gg_gates g ! gate = d" using Cons.prems(1)[rule_format, of 0] by simp_all
  have q: "flooding r g pinned {} ?q" "fst q \<subseteq> fst ?q" "p_outputs p = [] \<longrightarrow> gate \<in> fst ?q"
    using flooding_mark[OF Cons.prems(3)] needed.sink[OF at(1)] Cons.prems(3) at(2) p by auto
  have "\<forall>j < length ds. Suc gate + j < length (gg_gates g) \<and> gg_gates g ! (Suc gate + j) = ds ! j"
    using Cons.prems(1)[rule_format, of "Suc _"] by simp
  from Cons.IH[OF this _ q(1)] Cons.prems(2) obtain q' where q': "seed_sinks r (Suc gate) ds ?q = Some q'" "flooding r g pinned {} q'"
    "fst ?q \<subseteq> fst q'" "\<forall>j < length ds. \<forall>p. get_gate_param r (ds ! j) = Some p \<longrightarrow> p_outputs p = [] \<longrightarrow> Suc gate + j \<in> fst q'" by auto
  have "gate + j \<in> fst q'" if "j < length (d # ds)" "get_gate_param r ((d # ds) ! j) = Some a" "p_outputs a = []" for j a
    using that q' q(3) p by (cases j) auto
  then show ?case using p q'(1-3) q(2) by auto
qed auto

lemma seed_observables_spec:
  assumes defs: "defs_right r g" and "\<forall>j < length ks. gg_wires g ! (w + j) = ks ! j" "flooding r g pinned {} q"
  shows "flooding r g pinned {} (seed_observables g pinned w ks q) \<and> fst q \<subseteq> fst (seed_observables g pinned w ks q) \<and>
    (\<forall>j < length ks. \<forall>k. observable g pinned (w + j) \<longrightarrow> is_def r g k (w + j) \<longrightarrow> k \<in> fst (seed_observables g pinned w ks q))"
  using assms(2,3)
proof (induction ks arbitrary: w q)
  case (Cons k ks)
  let ?q = "if k = KInout \<or> w \<in> pinned then mark_def g w q else q"
  have at: "gg_wires g ! w = k" using Cons.prems(1)[rule_format, of 0] by simp
  have q: "flooding r g pinned {} ?q" "fst q \<subseteq> fst ?q" "\<forall>j. observable g pinned w \<longrightarrow> is_def r g j w \<longrightarrow> j \<in> fst ?q"
    using mark_one[OF defs Cons.prems(2), of w] needed.seen[of r g _ w pinned] Cons.prems(2) at by (auto simp: observable_def)
  have "\<forall>j < length ks. gg_wires g ! (Suc w + j) = ks ! j" using Cons.prems(1)[rule_format, of "Suc _"] by simp
  note IH = Cons.IH[OF this q(1)]
  have "j \<in> fst (seed_observables g pinned (Suc w) ks ?q)"
    if "i < length (k # ks)" "observable g pinned (w + i)" "is_def r g j (w + i)" for i j
    using that IH q(3) by (cases i) auto
  then show ?case using IH q(2) by auto
qed simp

lemma live_gates_spec:
  assumes opt: "optimisable r g"
  obtains g' where "live_gates g pinned r = Some ({k. needed r g pinned k}, g')" "optimisable r g'" "reads_moved r g g'"
    "gg_wires g' = gg_wires g" "gg_gates g' = gg_gates g"
proof -
  have wf: "graph_wf r g" using opt by (simp add: optimisable_def)
  obtain defs where defs: "rebuild_wire_defs r g = Some (g\<lparr>wire_def := defs\<rparr>)" using rebuild_wire_defs_total[OF wf] by blast
  let ?g = "g\<lparr>wire_def := defs\<rparr>"
  have mv: "reads_moved r g ?g" "optimisable r ?g" by (rule moved_same[OF opt]; simp)+
  have same: "is_def r ?g k w = is_def r g k w" "observable ?g pinned w = observable g pinned w" for k w
    by (simp_all add: is_def_def observable_def)
  have right: "defs_right r ?g" using rebuilt_defs[OF opt defs] same by (simp add: defs_right_def)
  have "flooding r ?g pinned {} ({}, [])" by (simp add: flooding_def)
  then obtain q where q: "seed_sinks r 0 (gg_gates ?g) ({}, []) = Some q" "flooding r ?g pinned {} q"
    "\<forall>j < length (gg_gates ?g). \<forall>p. get_gate_param r (gg_gates ?g ! j) = Some p \<longrightarrow> p_outputs p = [] \<longrightarrow> j \<in> fst q"
    using seed_sinks_spec[of "gg_gates ?g" 0 ?g r pinned "({}, [])"] params_present[OF mv(2)] by auto
  let ?q = "seed_observables ?g pinned 0 (gg_wires ?g) q"
  have o: "flooding r ?g pinned {} ?q" "fst q \<subseteq> fst ?q"
    "\<forall>w < length (gg_wires ?g). \<forall>k. observable ?g pinned w \<longrightarrow> is_def r ?g k w \<longrightarrow> k \<in> fst ?q"
    using seed_observables_spec[OF right _ q(2), of "gg_wires ?g" 0] by simp_all
  obtain live where live: "flood r ?g ?q = Some live" "flooding r ?g pinned {} (live, [])" "fst ?q \<subseteq> live"
    using flood_spec[OF mv(2) right o(1)] by blast
  have bound: "w < length (gg_wires ?g)" if d: "is_def r ?g k w" for k w
  proof -
    have k: "k < length (gg_gates ?g)" using d by (simp add: is_def_def)
    obtain p where "get_gate_param r (gg_gates ?g ! k) = Some p" "\<forall>w \<in> set (gate_uses p @ gate_writes p). w < length (gg_wires ?g)"
      by (rule opt_gate[OF mv(2) k])
    then show ?thesis using d by (auto simp: is_def_def gate_writes_def)
  qed
  have "k \<in> live" if "needed r ?g pinned k" for k
    using that
  proof induction
    case (sink k p)
    then show ?case using q(3) o(2) live(3) by blast
  next
    case (seen k w)
    then show ?case using o(3) bound live(3) by blast
  next
    case (feeds j p w k)
    then show ?case using live(2) by (fastforce simp: flooding_def)
  qed
  moreover have "needed r ?g pinned k" if "k \<in> live" for k using live(2) that by (simp add: flooding_def)
  moreover have "needed r ?g pinned k \<longleftrightarrow> needed r g pinned k" for k
  proof
    show "needed r g pinned k" if "needed r ?g pinned k"
      using that by induction (auto simp: same intro: needed.intros)
    show "needed r ?g pinned k" if "needed r g pinned k"
      using that by induction (auto simp: same intro: needed.intros)
  qed
  ultimately have "live = {k. needed r g pinned k}" by blast
  then show ?thesis
    using that[of ?g] mv defs q(1) live(1) by (simp add: live_gates_def)
qed

section \<open>Dropping what is not needed\<close>

lemma ordered_nths: "ordered r ds \<Longrightarrow> ordered r (nths ds A)"
proof (induction ds arbitrary: A)
  case (Cons d ds)
  have sub: "set (nths ds A') \<subseteq> set ds" for A' by (rule set_nths_subset)
  obtain p where p: "get_gate_param r d = Some p" "distinct (gate_writes p)" "set (gate_uses p) \<inter> set (gate_writes p) = {}"
    "\<forall>e \<in> set ds. \<forall>q. get_gate_param r e = Some q \<longrightarrow> set (gate_writes q) \<inter> set (gate_writes p @ gate_uses p) = {} \<and>
      set (gate_uses q) \<inter> (set (gate_writes p) - set (gate_results d p)) = {}" "ordered r ds"
    using Cons.prems unfolding ordered.simps by (elim exE conjE)
  have "ordered r (nths ds {j. Suc j \<in> A})" by (rule Cons.IH[OF p(5)])
  moreover have "\<forall>e \<in> set (nths ds {j. Suc j \<in> A}). \<forall>q. get_gate_param r e = Some q \<longrightarrow>
      set (gate_writes q) \<inter> set (gate_writes p @ gate_uses p) = {} \<and>
      set (gate_uses q) \<inter> (set (gate_writes p) - set (gate_results d p)) = {}"
    by (intro ballI) (use p(4) sub in blast)
  ultimately show ?case
    using p(1-3) by (cases "0 \<in> A") (simp_all add: nths_Cons)
qed simp

lemma nths_run_other:
  assumes "w \<notin> dead_writes r ds A"
  shows "fst (graph_run r names gate (nths ds A) \<sigma>) w = \<sigma> w"
proof (rule graph_run_other, intro ballI allI impI)
  fix d p assume d: "d \<in> set (nths ds A)" "get_gate_param r d = Some p"
  then obtain k where "k < length ds" "k \<in> A" "d = ds ! k" by (auto simp: set_nths)
  then show "w \<notin> set (gate_writes p)" using assms d(2) by (auto simp: dead_writes_def)
qed

text \<open>Running the dropped gates satisfies them, and moves no wire of the gates kept.\<close>

lemma dropped_sound:
  assumes opt: "optimisable r g" and ch: "consts_hold (gg_wires g) \<sigma>"
    and A: "A \<subseteq> {k. k < length (gg_gates g) \<and> \<not> needed r g pinned k}"
    and sat: "\<forall>j \<in> B. j < length (gg_gates g) \<and> needed r g pinned j \<and> gate_sat r (gg_gates g ! j) \<sigma>"
  shows "\<exists>\<sigma>'. consts_hold (gg_wires g) \<sigma>' \<and> (\<forall>j \<in> A \<union> B. gate_sat r (gg_gates g ! j) \<sigma>') \<and>
    (\<forall>w. w \<notin> dead_writes r (gg_gates g) A \<longrightarrow> \<sigma>' w = \<sigma> w)"
proof -
  let ?ds = "gg_gates g" and ?ks = "gg_wires g"
  define \<sigma>' where "\<sigma>' = fst (graph_run r (\<lambda>_. 0) 0 (nths ?ds A) \<sigma>)"
  have ready: "graph_ready r g" and ord: "ordered r ?ds" using opt by (simp_all add: optimisable_def graph_ready_def)
  have reg: "registry_ok r" using ready by (simp add: graph_ready_def)
  have bound: "A \<subseteq> {..<length ?ds}" using A by auto
  have sub: "set (nths ?ds A) \<subseteq> set ?ds" by (rule set_nths_subset)
  have rd: "gate_ready r ?ks d" if "d \<in> set ?ds" for d using ready that by (simp add: graph_ready_def)
  have wfs: "\<forall>d \<in> set (nths ?ds A). gate_wf r ?ks d \<and> gate_imm_ok d" using sub rd by (auto simp: gate_ready_def)
  have kept: "\<forall>d \<in> set (nths ?ds A). consts_kept r ?ks d" using sub rd by (auto simp: gate_ready_def)
  have ch': "consts_hold ?ks \<sigma>'" unfolding \<sigma>'_def by (rule kept_run_consts[OF kept ch])
  have off: "\<sigma>' w = \<sigma> w" if "w \<notin> dead_writes r ?ds A" for w unfolding \<sigma>'_def by (rule nths_run_other[OF that])
  note ran = conjunct1[OF run_done[OF reg wfs ordered_nths[OF ord] \<sigma>'_def]]
  have "gate_sat r (?ds ! j) \<sigma>'" if j: "j \<in> A" for j
  proof -
    have jl: "j < length ?ds" "\<not> needed r g pinned j" using A j by auto
    obtain p where p: "get_gate_param r (?ds ! j) = Some p" "gate_wf r ?ks (?ds ! j)" "gate_imm_ok (?ds ! j)" by (rule opt_gate[OF opt jl(1)])
    have "p_outputs p \<noteq> []" using needed.sink[OF jl(1) p(1)] jl(2) by blast
    from gate_value_Ok[OF p(2,3,1) this] obtain os where os: "gate_value r (?ds ! j) (map \<sigma>' (p_inputs p)) = Ok os" by force
    have "?ds ! j \<in> set (nths ?ds A)" using j jl(1) by (auto simp: set_nths)
    then have "gate_done r (?ds ! j) p \<sigma>'" using ran p(1) by blast
    then show ?thesis by (rule done_sat[OF p(1)]) (use os get_param_imm[OF p(1)] in \<open>simp_all add: gate_fails_def\<close>)
  qed
  moreover have "gate_sat r (?ds ! j) \<sigma>'" if j: "j \<in> B" for j
  proof -
    have jl: "j < length ?ds" "needed r g pinned j" "gate_sat r (?ds ! j) \<sigma>" using sat j by auto
    obtain p where p: "get_gate_param r (?ds ! j) = Some p" by (rule opt_gate[OF opt jl(1)])
    have "j \<notin> A" using A jl(2) by auto
    note fresh = not_dead_write(1)[OF opt bound jl(1) p this]
    have "w \<notin> dead_writes r ?ds A" if w: "w \<in> set (p_inputs p)" for w
    proof
      assume "w \<in> dead_writes r ?ds A"
      moreover have "w \<in> set (gate_uses p)" using w by (simp add: gate_uses_def)
      ultimately obtain k q where k: "k \<in> A" "get_gate_param r (?ds ! k) = Some q" "w \<in> set (p_outputs q)"
        using not_dead_write(2)[OF opt bound jl(1) p] by blast
      then have "is_def r g k w" using bound by (auto simp: is_def_def)
      from needed.feeds[OF jl(2) p w this] k(1) A show False by auto
    qed
    then have "map \<sigma>' (p_inputs p) = map \<sigma> (p_inputs p)" using off by simp
    moreover have "map \<sigma>' (p_outputs p) = map \<sigma> (p_outputs p)" "map \<sigma>' (p_aux p) = map \<sigma> (p_aux p)"
      using off fresh by (simp_all add: gate_writes_def)
    ultimately show ?thesis using gate_sat_words[OF p p refl refl, of \<sigma>' \<sigma>] jl(3) by simp
  qed
  ultimately show ?thesis using ch' off by blast
qed

text \<open>No wire that can be seen is an output of a gate that is not needed.\<close>

lemma unneeded_unseen:
  assumes "\<not> needed r g pinned k" "k < length (gg_gates g)" "get_gate_param r (gg_gates g ! k) = Some p" "w \<in> set (p_outputs p @ p_aux p)"
  shows "\<not> observable g pinned w"
  using needed.seen[of r g k w pinned] assms by (auto simp: is_def_def)

end
