(* ===== verification/Optimise.thy ===== *)
theory Optimise
  imports Dce
begin

text \<open>
  The passes a build runs over the gate graph, in its order (\<open>builder/mod.rs\<close>, \<open>compile\<close> up to the
  emission of constraints), and what they keep together.  \<open>None\<close> is a panic; \<open>Inl\<close> is the error of a
  gate that fails on constants.
\<close>

section \<open>Definitions\<close>

definition optimise :: "options \<Rightarrow> wire set \<Rightarrow> hint_registry \<Rightarrow> gate_graph \<Rightarrow>
    (gate \<times> violation + gate set option \<times> gate set option \<times> gate_graph) option" where
  "optimise opts pinned r g = do {
    _ \<leftarrow> graph_validate r g;
    res \<leftarrow> (if enable_constant_propagation opts then constant_propagation g r else Some (Inr (0, g)));
    case res of
      Inl e \<Rightarrow> Some (Inl e)
    | Inr (_, g) \<Rightarrow> do {
        (_, g) \<leftarrow> (if enable_zero_propagation opts then zero_propagation g pinned r else Some (0, g));
        (dead, g) \<leftarrow> (if enable_common_subexpression_elimination opts
          then map_option (\<lambda>(dead, g). (Some dead, g)) (dedup_gates g pinned r) else Some (None, g));
        (live, g) \<leftarrow> (if enable_dead_code_elimination opts
          then map_option (\<lambda>(live, g). (Some live, g)) (live_gates g pinned r) else Some (None, g));
        Some (Inr (dead, live, g))
      }
  }"

section \<open>Each pass, enabled or not\<close>

lemma agree_mono:
  assumes "agree r W ks ds ds'" "\<And>d \<sigma>. V d \<sigma> \<Longrightarrow> W d \<sigma>"
  shows "agree r V ks ds ds'"
  unfolding agree_def
proof (intro conjI allI impI)
  show "length ds' = length ds" using assms(1) by (simp add: agree_def)
  fix i assume i: "i < length ds"
  obtain p p' where p: "same_gate r (ds ! i) (ds' ! i) p p'"
    "\<And>\<sigma>. consts_hold ks \<sigma> \<Longrightarrow> \<forall>j < i. W (ds ! j) \<sigma> \<Longrightarrow> map \<sigma> (p_inputs p') = map \<sigma> (p_inputs p)"
    by (rule agreeD[OF assms(1) i]) blast
  show "\<exists>p p'. same_gate r (ds ! i) (ds' ! i) p p' \<and>
      (\<forall>\<sigma>. consts_hold ks \<sigma> \<longrightarrow> (\<forall>j < i. V (ds ! j) \<sigma>) \<longrightarrow> map \<sigma> (p_inputs p') = map \<sigma> (p_inputs p))"
    by (intro exI[of _ p] exI[of _ p'] conjI allI impI p) (use assms(2) in blast)+
qed

lemma optimisable_agree_refl: "optimisable r g \<Longrightarrow> agree r W (gg_wires g) (gg_gates g) (gg_gates g)"
  by (rule agree_refl[OF params_present])

lemma upholds_refl: "upholds r ks ds ks ds H"
  unfolding upholds_def by blast

text \<open>\<open>covers r ks ds ds' B H\<close>: what satisfies the gates \<open>B\<close> of \<open>ds'\<close> satisfies all of \<open>ds\<close> once the words
  of \<open>H\<close> are chosen anew.\<close>

definition covers :: "hint_registry \<Rightarrow> wire_kind list \<Rightarrow> gate_data list \<Rightarrow> wire_kind list \<Rightarrow> gate_data list \<Rightarrow> gate set \<Rightarrow> wire set \<Rightarrow> bool" where
  "covers r ks ds ks' ds' B H \<longleftrightarrow> (\<forall>\<sigma>. consts_hold ks' \<sigma> \<longrightarrow> (\<forall>j \<in> B. gate_sat r (ds' ! j) \<sigma>) \<longrightarrow>
    (\<exists>\<sigma>'. consts_hold ks \<sigma>' \<and> (\<forall>d \<in> set ds. gate_sat r d \<sigma>') \<and> (\<forall>w. w \<notin> H \<longrightarrow> \<sigma>' w = \<sigma> w)))"

lemma coversD:
  assumes "covers r ks ds ks' ds' B H" "consts_hold ks' \<sigma>" "\<forall>j \<in> B. gate_sat r (ds' ! j) \<sigma>"
  obtains \<sigma>' where "consts_hold ks \<sigma>'" "\<forall>d \<in> set ds. gate_sat r d \<sigma>'" "\<forall>w. w \<notin> H \<longrightarrow> \<sigma>' w = \<sigma> w"
  using assms unfolding covers_def by blast

lemma const_pass:
  assumes "optimisable r g" "consts_room r g"
  shows "\<exists>res. (if on then constant_propagation g r else Some (Inr (0, g))) = Some res \<and>
    (case res of Inl (gate, reason) \<Rightarrow> on \<and> always_fails r g gate reason
     | Inr (n, g') \<Rightarrow> optimisable r g' \<and> reads_moved r g g' \<and> agree r (gate_run r) (gg_wires g') (gg_gates g) (gg_gates g') \<and>
         upholds r (gg_wires g) (gg_gates g) (gg_wires g') (gg_gates g') (if on then hint_outs r (gg_gates g) else {}))"
proof (cases on)
  case True
  obtain res where "constant_propagation g r = Some res" "case res of Inl (gate, reason) \<Rightarrow> always_fails r g gate reason
     | Inr (n, g') \<Rightarrow> optimisable r g' \<and> reads_moved r g g' \<and> agree r (gate_run r) (gg_wires g') (gg_gates g) (gg_gates g') \<and>
         upholds r (gg_wires g) (gg_gates g) (gg_wires g') (gg_gates g') (hint_outs r (gg_gates g))"
    using constant_propagation_spec[OF assms] by blast
  then show ?thesis using True by (intro exI[of _ res]) (auto split: sum.splits)
next
  case False
  then show ?thesis
    using assms(1) reads_moved_refl[OF assms(1)] optimisable_agree_refl[OF assms(1)] upholds_refl by simp
qed

lemma zero_pass:
  assumes "optimisable r g"
  shows "\<exists>m g'. (if on then zero_propagation g pinned r else Some (0, g)) = Some (m, g') \<and> optimisable r g' \<and>
    reads_moved r g g' \<and> gg_wires g' = gg_wires g \<and> agree r (op_done r) (gg_wires g) (gg_gates g) (gg_gates g')"
  using zero_propagation_spec[OF assms, of pinned] assms reads_moved_refl[OF assms] optimisable_agree_refl[OF assms]
  by (cases on) simp_all

definition dead_set :: "gate set option \<Rightarrow> gate set" where
  "dead_set dead = (case dead of Some D \<Rightarrow> D | None \<Rightarrow> {})"

lemma dedup_pass:
  assumes opt: "optimisable r g"
  obtains dead g' where "(if on then map_option (\<lambda>(dead, g). (Some dead, g)) (dedup_gates g pinned r) else Some (None, g)) = Some (dead, g')"
    "optimisable r g'" "reads_moved r g g'" "gg_wires g' = gg_wires g" "agree r (gate_run r) (gg_wires g) (gg_gates g) (gg_gates g')"
    "dead_set dead \<subseteq> {..<length (gg_gates g)}"
    "\<And>k p w. k \<in> dead_set dead \<Longrightarrow> get_gate_param r (gg_gates g ! k) = Some p \<Longrightarrow> w \<in> set (p_outputs p) \<Longrightarrow> \<not> observable g pinned w"
    "covers r (gg_wires g) (gg_gates g) (gg_wires g) (gg_gates g') ({..<length (gg_gates g)} - dead_set dead)
      (dead_writes r (gg_gates g) (dead_set dead))"
    "\<And>k. k \<in> dead_set dead \<Longrightarrow> \<exists>c < k. c \<notin> dead_set dead \<and> twins r (gg_gates g' ! k) (gg_gates g' ! c)"
proof (cases on)
  case True
  obtain dead g' where d: "dedup_gates g pinned r = Some (dead, g')" "optimisable r g'" "reads_moved r g g'" "gg_wires g' = gg_wires g"
    "agree r (gate_run r) (gg_wires g) (gg_gates g) (gg_gates g')" "dead \<subseteq> {..<length (gg_gates g)}"
    "\<And>k p w. k \<in> dead \<Longrightarrow> get_gate_param r (gg_gates g ! k) = Some p \<Longrightarrow> w \<in> set (p_outputs p) \<Longrightarrow> \<not> observable g pinned w"
    and s: "\<And>\<sigma>. consts_hold (gg_wires g) \<sigma> \<Longrightarrow> \<forall>j < length (gg_gates g). j \<notin> dead \<longrightarrow> gate_sat r (gg_gates g' ! j) \<sigma> \<Longrightarrow>
      \<exists>\<sigma>'. consts_hold (gg_wires g) \<sigma>' \<and> (\<forall>d \<in> set (gg_gates g). gate_sat r d \<sigma>') \<and>
        (\<forall>w. w \<notin> dead_writes r (gg_gates g) dead \<longrightarrow> \<sigma>' w = \<sigma> w)"
    and "\<And>j p w. j < length (gg_gates g) \<Longrightarrow> get_gate_param r (gg_gates g' ! j) = Some p \<Longrightarrow> w \<in> set (gate_uses p) \<Longrightarrow>
      w \<notin> dead_writes r (gg_gates g) dead"
    and tw: "\<And>k. k \<in> dead \<Longrightarrow> \<exists>c < k. c \<notin> dead \<and> twins r (gg_gates g' ! k) (gg_gates g' ! c)"
    by (rule dedup_gates_spec[OF opt, of pinned]) blast
  have c: "covers r (gg_wires g) (gg_gates g) (gg_wires g) (gg_gates g') ({..<length (gg_gates g)} - dead) (dead_writes r (gg_gates g) dead)"
    unfolding covers_def using s by simp
  show ?thesis by (rule that[of "Some dead" g']) (use True d c tw in \<open>simp_all add: dead_set_def\<close>)
next
  case False
  have c: "covers r (gg_wires g) (gg_gates g) (gg_wires g) (gg_gates g) {..<length (gg_gates g)} (dead_writes r (gg_gates g) {})"
    unfolding covers_def
  proof (intro allI impI)
    fix \<sigma> assume "consts_hold (gg_wires g) \<sigma>" "\<forall>j \<in> {..<length (gg_gates g)}. gate_sat r (gg_gates g ! j) \<sigma>"
    then show "\<exists>\<sigma>'. consts_hold (gg_wires g) \<sigma>' \<and> (\<forall>d \<in> set (gg_gates g). gate_sat r d \<sigma>') \<and>
        (\<forall>w. w \<notin> dead_writes r (gg_gates g) {} \<longrightarrow> \<sigma>' w = \<sigma> w)"
      by (intro exI[of _ \<sigma>]) (auto simp: in_set_conv_nth)
  qed
  show ?thesis
    by (rule that[of None g]) (use False opt reads_moved_refl[OF opt] optimisable_agree_refl[OF opt] c in \<open>simp_all add: dead_set_def\<close>)
qed

text \<open>The gates emitted, and those left out.\<close>

definition emitted :: "gate set option \<Rightarrow> gate set option \<Rightarrow> nat \<Rightarrow> gate set" where
  "emitted dead live n = {j. j < n \<and> gate_kept dead live j}"

lemma live_pass:
  assumes opt: "optimisable r g"
  obtains live g' where "(if on then map_option (\<lambda>(live, g). (Some live, g)) (live_gates g pinned r) else Some (None, g)) = Some (live, g')"
    "optimisable r g'" "reads_moved r g g'" "gg_wires g' = gg_wires g" "gg_gates g' = gg_gates g"
    "\<And>j. j < length (gg_gates g) \<Longrightarrow> needed r g pinned j \<Longrightarrow> gate_kept None live j"
    "\<And>dead \<sigma>. consts_hold (gg_wires g) \<sigma> \<Longrightarrow> \<forall>j \<in> emitted dead live (length (gg_gates g)). gate_sat r (gg_gates g ! j) \<sigma> \<Longrightarrow>
      \<exists>\<sigma>'. consts_hold (gg_wires g) \<sigma>' \<and> (\<forall>j < length (gg_gates g). j \<notin> dead_set dead \<longrightarrow> gate_sat r (gg_gates g ! j) \<sigma>') \<and>
        (\<forall>w. w \<notin> dead_writes r (gg_gates g) {k. k < length (gg_gates g) \<and> \<not> gate_kept None live k} \<longrightarrow> \<sigma>' w = \<sigma> w)"
proof (cases on)
  case False
  show ?thesis
  proof (rule that[of None g])
    fix dead \<sigma> assume a: "consts_hold (gg_wires g) \<sigma>" "\<forall>j \<in> emitted dead None (length (gg_gates g)). gate_sat r (gg_gates g ! j) \<sigma>"
    have "gate_sat r (gg_gates g ! j) \<sigma>" if "j < length (gg_gates g)" "j \<notin> dead_set dead" for j
    proof (rule a(2)[rule_format])
      show "j \<in> emitted dead None (length (gg_gates g))"
        using that by (cases dead) (simp_all add: emitted_def gate_kept_def dead_set_def)
    qed
    with a(1) show "\<exists>\<sigma>'. consts_hold (gg_wires g) \<sigma>' \<and> (\<forall>j < length (gg_gates g). j \<notin> dead_set dead \<longrightarrow> gate_sat r (gg_gates g ! j) \<sigma>') \<and>
        (\<forall>w. w \<notin> dead_writes r (gg_gates g) {k. k < length (gg_gates g) \<and> \<not> gate_kept None None k} \<longrightarrow> \<sigma>' w = \<sigma> w)"
      by (intro exI[of _ \<sigma>]) simp
  qed (use False opt reads_moved_refl[OF opt] in \<open>simp_all add: gate_kept_def\<close>)
next
  case True
  obtain g' where g': "live_gates g pinned r = Some ({k. needed r g pinned k}, g')" "optimisable r g'" "reads_moved r g g'"
    "gg_wires g' = gg_wires g" "gg_gates g' = gg_gates g" by (rule live_gates_spec[OF opt])
  let ?L = "{k. needed r g pinned k}" and ?n = "length (gg_gates g)"
  show ?thesis
  proof (rule that[of "Some ?L" g'])
    fix dead \<sigma> assume a: "consts_hold (gg_wires g) \<sigma>" "\<forall>j \<in> emitted dead (Some ?L) ?n. gate_sat r (gg_gates g ! j) \<sigma>"
    let ?A = "{k. k < ?n \<and> \<not> needed r g pinned k}" and ?B = "emitted dead (Some ?L) ?n"
    have "\<forall>j \<in> ?B. j < ?n \<and> needed r g pinned j \<and> gate_sat r (gg_gates g ! j) \<sigma>"
      using a(2) by (auto simp: emitted_def gate_kept_def)
    from dropped_sound[OF opt a(1) subset_refl this] obtain \<sigma>' where s: "consts_hold (gg_wires g) \<sigma>'"
      "\<forall>j \<in> ?A \<union> ?B. gate_sat r (gg_gates g ! j) \<sigma>'" "\<forall>w. w \<notin> dead_writes r (gg_gates g) ?A \<longrightarrow> \<sigma>' w = \<sigma> w" by blast
    have "j \<in> ?A \<union> ?B" if "j < ?n" "j \<notin> dead_set dead" for j
      using that by (cases dead) (auto simp: emitted_def gate_kept_def dead_set_def)
    then have "\<forall>j < ?n. j \<notin> dead_set dead \<longrightarrow> gate_sat r (gg_gates g ! j) \<sigma>'" using s(2) by blast
    moreover have "{k. k < ?n \<and> \<not> gate_kept None (Some ?L) k} = ?A" by (simp add: gate_kept_def)
    ultimately show "\<exists>\<sigma>'. consts_hold (gg_wires g) \<sigma>' \<and> (\<forall>j < ?n. j \<notin> dead_set dead \<longrightarrow> gate_sat r (gg_gates g ! j) \<sigma>') \<and>
        (\<forall>w. w \<notin> dead_writes r (gg_gates g) {k. k < ?n \<and> \<not> gate_kept None (Some ?L) k} \<longrightarrow> \<sigma>' w = \<sigma> w)"
      using s(1,3) by (intro exI[of _ \<sigma>']) simp
  qed (use True g' in \<open>simp_all add: gate_kept_def\<close>)
qed

section \<open>The passes together\<close>

lemma validate_ok:
  assumes "optimisable r g"
  shows "graph_validate r g = Some ()"
proof -
  have "\<forall>d \<in> set (gg_gates g). validate_shape r d = Some ()"
    using assms by (auto simp: optimisable_def graph_wf_def gate_wf_def)
  then have "foldl (\<lambda>ok d. Option.bind ok (\<lambda>_. validate_shape r d)) (Some ()) ds = Some ()" if "set ds \<subseteq> set (gg_gates g)" for ds
    using that by (induction ds) simp_all
  then show ?thesis by (simp add: graph_validate_def)
qed

lemma dead_writes_alike:
  assumes "alike r ds ds'" "D \<subseteq> {..<length ds}"
  shows "dead_writes r ds' D = dead_writes r ds D"
proof -
  have "(\<Union>p \<in> set_option (get_gate_param r (ds' ! k)). set (gate_writes p)) = (\<Union>p \<in> set_option (get_gate_param r (ds ! k)). set (gate_writes p))"
    if k: "k \<in> D" for k
  proof -
    have kl: "k < length ds" using assms(2) k by auto
    obtain p p' where "same_gate r (ds ! k) (ds' ! k) p p'" using assms(1) kl by (auto simp: alike_def)
    then show ?thesis using same_gate_params same_gate_fields(6) by fastforce
  qed
  then show ?thesis by (simp add: dead_writes_def)
qed

text \<open>The wires whose words the passes may leave to choose: those of the gates left out, and, once constants
  have been propagated, what hints return.\<close>

definition loosened :: "options \<Rightarrow> hint_registry \<Rightarrow> gate_graph \<Rightarrow> gate set option \<Rightarrow> gate set option \<Rightarrow> wire set" where
  "loosened opts r g dead live = dead_writes r (gg_gates g) {k. k < length (gg_gates g) \<and> \<not> gate_kept dead live k} \<union>
    (if enable_constant_propagation opts then hint_outs r (gg_gates g) else {})"

text \<open>The gates left out fail only with a gate that is emitted.\<close>

definition fails_emitted :: "hint_registry \<Rightarrow> wire_kind list \<Rightarrow> gate_data list \<Rightarrow> gate set \<Rightarrow> bool" where
  "fails_emitted r ks ds B \<longleftrightarrow> (\<forall>\<tau>. (\<forall>j < length ds. gate_run r (ds ! j) \<tau>) \<longrightarrow>
    (\<forall>j \<in> B. \<forall>p. get_gate_param r (ds ! j) = Some p \<longrightarrow> gate_fails r (ds ! j) p \<tau> = []) \<longrightarrow>
    (\<forall>j < length ds. \<forall>p. get_gate_param r (ds ! j) = Some p \<longrightarrow> gate_fails r (ds ! j) p \<tau> = []))"

lemma outputs_never_fail:
  assumes "gate_wf r ks d" "get_gate_param r d = Some p" "p_outputs p \<noteq> []"
  shows "gate_fails r d p \<tau> = []"
proof -
  obtain s where s: "gate_shape r d = Some s" "param_fits s p" by (rule fits_param[OF assms(1,2)])
  have "gate_value r d (map \<tau> (p_inputs p)) \<noteq> Err m" for m
    using gate_value_Err[OF s(1)] s(2) assms(3) by (auto simp: param_fits_def)
  then show ?thesis by (simp add: gate_fails_def split: outcome.splits)
qed

lemma fails_emitted_holds:
  assumes opt: "optimisable r g" and tw: "\<And>k. k \<in> D \<Longrightarrow> \<exists>c < k. c \<notin> D \<and> twins r (gg_gates g ! k) (gg_gates g ! c)"
    and B: "\<And>j. j < length (gg_gates g) \<Longrightarrow> j \<notin> D \<Longrightarrow> needed r g pinned j \<Longrightarrow> j \<in> B"
  shows "fails_emitted r ks (gg_gates g) B"
  unfolding fails_emitted_def
proof (intro allI impI)
  fix \<tau> j p assume ok: "\<forall>j \<in> B. \<forall>p. get_gate_param r (gg_gates g ! j) = Some p \<longrightarrow> gate_fails r (gg_gates g ! j) p \<tau> = []"
    and j: "j < length (gg_gates g)" "get_gate_param r (gg_gates g ! j) = Some p"
  have live: "gate_fails r (gg_gates g ! c) q \<tau> = []"
    if c: "c < length (gg_gates g)" "c \<notin> D" "get_gate_param r (gg_gates g ! c) = Some q" for c q
  proof (cases "p_outputs q = []")
    case True
    then have "c \<in> B" using B[OF c(1,2)] needed.sink[OF c(1,3)] by blast
    with ok c(3) show ?thesis by blast
  next
    case False
    have "gate_wf r (gg_wires g) (gg_gates g ! c)" by (rule opt_gate[OF opt c(1)])
    from outputs_never_fail[OF this c(3) False] show ?thesis .
  qed
  show "gate_fails r (gg_gates g ! j) p \<tau> = []"
  proof (cases "j \<in> D")
    case True
    obtain c where c: "c < j" "c \<notin> D" "twins r (gg_gates g ! j) (gg_gates g ! c)" using tw[OF True] by blast
    obtain q where q: "get_gate_param r (gg_gates g ! c) = Some q" using c(3) by (auto simp: twins_def)
    note t = twins_meaning[OF c(3) j(2) q]
    have "gate_fails r (gg_gates g ! c) q \<tau> = []" by (rule live[OF _ c(2) q]) (use c(1) j(1) in simp)
    then show ?thesis by (simp add: gate_fails_def t)
  qed (rule live[OF j(1) _ j(2)])
qed

lemma observable_grown:
  "w < length (gg_wires g) \<Longrightarrow> gg_wires g' = gg_wires g @ ks \<Longrightarrow> observable g' pinned w = observable g pinned w"
  by (simp add: observable_def nth_append)

lemma covers_mono: "covers r ks ds ks' ds' B H \<Longrightarrow> H \<subseteq> H' \<Longrightarrow> covers r ks ds ks' ds' B H'"
  unfolding covers_def by (metis subsetD)

lemma covers_chain:
  assumes up: "upholds r ks ds ks1 ds1 H" and z: "agree r (op_done r) ks1 ds1 ds2"
    and c: "covers r ks1 ds2 ks1 ds3 ({..<n} - D) V"
    and l: "\<And>\<sigma>. consts_hold ks1 \<sigma> \<Longrightarrow> \<forall>j \<in> B. gate_sat r (ds3 ! j) \<sigma> \<Longrightarrow>
      \<exists>\<sigma>'. consts_hold ks1 \<sigma>' \<and> (\<forall>j < n. j \<notin> D \<longrightarrow> gate_sat r (ds3 ! j) \<sigma>') \<and> (\<forall>w. w \<notin> U \<longrightarrow> \<sigma>' w = \<sigma> w)"
  shows "covers r ks ds ks1 ds3 B (U \<union> V \<union> H)"
  unfolding covers_def
proof (intro allI impI)
  fix \<sigma> assume s: "consts_hold ks1 \<sigma>" "\<forall>j \<in> B. gate_sat r (ds3 ! j) \<sigma>"
  from l[OF this] obtain \<sigma>1 where s1: "consts_hold ks1 \<sigma>1" "\<forall>j < n. j \<notin> D \<longrightarrow> gate_sat r (ds3 ! j) \<sigma>1" "\<forall>w. w \<notin> U \<longrightarrow> \<sigma>1 w = \<sigma> w" by blast
  have "\<forall>j \<in> {..<n} - D. gate_sat r (ds3 ! j) \<sigma>1" using s1(2) by simp
  from coversD[OF c s1(1) this] obtain \<sigma>2 where s2: "consts_hold ks1 \<sigma>2" "\<forall>d \<in> set ds2. gate_sat r d \<sigma>2" "\<forall>w. w \<notin> V \<longrightarrow> \<sigma>2 w = \<sigma>1 w" .
  have "\<forall>d \<in> set ds1. gate_sat r d \<sigma>2" using agree_all[OF z by_words_sat sat_op_done s2(1)] s2(2) by simp
  with up s2(1) obtain \<sigma>3 where s3: "consts_hold ks \<sigma>3" "\<forall>d \<in> set ds. gate_sat r d \<sigma>3" "\<forall>w. w \<notin> H \<longrightarrow> \<sigma>3 w = \<sigma>2 w"
    unfolding upholds_def by blast
  have "\<forall>w. w \<notin> U \<union> V \<union> H \<longrightarrow> \<sigma>3 w = \<sigma> w" using s1(3) s2(3) s3(3) by simp
  with s3(1,2) show "\<exists>\<sigma>'. consts_hold ks \<sigma>' \<and> (\<forall>d \<in> set ds. gate_sat r d \<sigma>') \<and> (\<forall>w. w \<notin> U \<union> V \<union> H \<longrightarrow> \<sigma>' w = \<sigma> w)"
    by blast
qed

lemma optimise_spec:
  assumes opt: "optimisable r g" and room: "consts_room r g"
  shows "\<exists>res. optimise opts pinned r g = Some res \<and>
    (case res of Inl (gate, reason) \<Rightarrow> enable_constant_propagation opts \<and> always_fails r g gate reason
     | Inr (dead, live, g') \<Rightarrow> optimisable r g' \<and> reads_moved r g g' \<and> agree r (gate_run r) (gg_wires g') (gg_gates g) (gg_gates g') \<and>
         covers r (gg_wires g) (gg_gates g) (gg_wires g') (gg_gates g') (emitted dead live (length (gg_gates g)))
           (loosened opts r g dead live) \<and>
         fails_emitted r (gg_wires g') (gg_gates g') (emitted dead live (length (gg_gates g))) \<and>
         (\<forall>k < length (gg_gates g). \<forall>p w. \<not> gate_kept dead live k \<longrightarrow> get_gate_param r (gg_gates g ! k) = Some p \<longrightarrow>
           w \<in> set (p_outputs p) \<longrightarrow> \<not> observable g pinned w))"
proof -
  let ?ks = "gg_wires g" and ?ds = "gg_gates g" and ?n = "length (gg_gates g)"
  obtain res where res: "(if enable_constant_propagation opts then constant_propagation g r else Some (Inr (0, g))) = Some res"
    and res_spec: "case res of Inl (gate, reason) \<Rightarrow> enable_constant_propagation opts \<and> always_fails r g gate reason
     | Inr (n, g') \<Rightarrow> optimisable r g' \<and> reads_moved r g g' \<and> agree r (gate_run r) (gg_wires g') ?ds (gg_gates g') \<and>
         upholds r ?ks ?ds (gg_wires g') (gg_gates g') (if enable_constant_propagation opts then hint_outs r ?ds else {})"
    using const_pass[OF assms, of "enable_constant_propagation opts"] by blast
  show ?thesis
  proof (cases res)
    case (Inl e)
    then show ?thesis using res res_spec validate_ok[OF opt] by (simp add: optimise_def)
  next
    case (Inr x)
    then obtain n g1 where x: "res = Inr (n, g1)" by (cases x) simp
    then have 1: "optimisable r g1" "reads_moved r g g1" "agree r (gate_run r) (gg_wires g1) ?ds (gg_gates g1)"
      "upholds r ?ks ?ds (gg_wires g1) (gg_gates g1) (if enable_constant_propagation opts then hint_outs r ?ds else {})"
      using res_spec by auto
    obtain m g2 where z: "(if enable_zero_propagation opts then zero_propagation g1 pinned r else Some (0, g1)) = Some (m, g2)"
      and 2: "optimisable r g2" "reads_moved r g1 g2" "gg_wires g2 = gg_wires g1" "agree r (op_done r) (gg_wires g1) (gg_gates g1) (gg_gates g2)"
      using zero_pass[OF 1(1)] by blast
    obtain dead g3 where d: "(if enable_common_subexpression_elimination opts
        then map_option (\<lambda>(dead, g). (Some dead, g)) (dedup_gates g2 pinned r) else Some (None, g2)) = Some (dead, g3)"
      and 3: "optimisable r g3" "reads_moved r g2 g3" "gg_wires g3 = gg_wires g2" "agree r (gate_run r) (gg_wires g2) (gg_gates g2) (gg_gates g3)"
        "dead_set dead \<subseteq> {..<length (gg_gates g2)}"
        "\<And>k p w. k \<in> dead_set dead \<Longrightarrow> get_gate_param r (gg_gates g2 ! k) = Some p \<Longrightarrow> w \<in> set (p_outputs p) \<Longrightarrow> \<not> observable g2 pinned w"
        "covers r (gg_wires g2) (gg_gates g2) (gg_wires g2) (gg_gates g3) ({..<length (gg_gates g2)} - dead_set dead)
          (dead_writes r (gg_gates g2) (dead_set dead))"
        "\<And>k. k \<in> dead_set dead \<Longrightarrow> \<exists>c < k. c \<notin> dead_set dead \<and> twins r (gg_gates g3 ! k) (gg_gates g3 ! c)"
      by (rule dedup_pass[OF 2(1), where on = "enable_common_subexpression_elimination opts" and pinned = pinned]) blast
    obtain live g4 where l: "(if enable_dead_code_elimination opts
        then map_option (\<lambda>(live, g). (Some live, g)) (live_gates g3 pinned r) else Some (None, g3)) = Some (live, g4)"
      and 4: "optimisable r g4" "reads_moved r g3 g4" "gg_wires g4 = gg_wires g3" "gg_gates g4 = gg_gates g3"
        "\<And>j. j < length (gg_gates g3) \<Longrightarrow> needed r g3 pinned j \<Longrightarrow> gate_kept None live j"
        "\<And>dead \<sigma>. consts_hold (gg_wires g3) \<sigma> \<Longrightarrow> \<forall>j \<in> emitted dead live (length (gg_gates g3)). gate_sat r (gg_gates g3 ! j) \<sigma> \<Longrightarrow>
          \<exists>\<sigma>'. consts_hold (gg_wires g3) \<sigma>' \<and> (\<forall>j < length (gg_gates g3). j \<notin> dead_set dead \<longrightarrow> gate_sat r (gg_gates g3 ! j) \<sigma>') \<and>
            (\<forall>w. w \<notin> dead_writes r (gg_gates g3) {k. k < length (gg_gates g3) \<and> \<not> gate_kept None live k} \<longrightarrow> \<sigma>' w = \<sigma> w)"
      by (rule live_pass[OF 3(1), where on = "enable_dead_code_elimination opts" and pinned = pinned]) blast
    have run: "optimise opts pinned r g = Some (Inr (dead, live, g4))"
      using res x z d l validate_ok[OF opt] by (simp add: optimise_def)
    have w: "gg_wires g4 = gg_wires g1" "gg_wires g3 = gg_wires g1" "gg_wires g2 = gg_wires g1" using 2(3) 3(3) 4(3) by simp_all
    have mv: "reads_moved r g g4" "reads_moved r g g3" "reads_moved r g g2"
      using reads_moved_trans[OF reads_moved_trans[OF reads_moved_trans[OF 1(2) 2(2)] 3(2)] 4(2)]
        reads_moved_trans[OF reads_moved_trans[OF 1(2) 2(2)] 3(2)] reads_moved_trans[OF 1(2) 2(2)] by simp_all
    have al: "alike r ?ds (gg_gates g3)" "alike r ?ds (gg_gates g2)" using mv(2,3) unfolding reads_moved_def alike_def by blast+
    then have len: "length (gg_gates g3) = ?n" "length (gg_gates g2) = ?n" by (simp_all add: alike_def)
    have ag2: "agree r (gate_run r) (gg_wires g1) (gg_gates g1) (gg_gates g2)" by (rule agree_mono[OF 2(4) run_op_done])
    have ag3: "agree r (gate_run r) (gg_wires g1) (gg_gates g2) (gg_gates g3)" using 3(4) w by simp
    have ag: "agree r (gate_run r) (gg_wires g4) ?ds (gg_gates g4)"
      using agree_trans[OF agree_trans[OF 1(3) ag2 by_words_run] ag3 by_words_run] 4(4) w by simp
    have kept: "gate_kept dead live k \<longleftrightarrow> k \<notin> dead_set dead \<and> gate_kept None live k" for k
      by (cases dead) (simp_all add: gate_kept_def dead_set_def)
    let ?D = "dead_set dead" and ?A = "{k. k < ?n \<and> \<not> gate_kept None live k}" and ?Z = "{k. k < ?n \<and> \<not> gate_kept dead live k}"
    have sub: "?D \<subseteq> ?Z" "?A \<subseteq> ?Z" using 3(5) len kept by auto
    have mono: "dead_writes r ?ds S \<subseteq> dead_writes r ?ds T" if "S \<subseteq> T" for S T using that by (auto simp: dead_writes_def)
    have "?A \<subseteq> {..<?n}" "?D \<subseteq> {..<?n}" using 3(5) len by auto
    note dw = dead_writes_alike[OF al(1) this(1)] dead_writes_alike[OF al(2) this(2)]
    have step4: "\<exists>\<sigma>'. consts_hold (gg_wires g1) \<sigma>' \<and> (\<forall>j < ?n. j \<notin> ?D \<longrightarrow> gate_sat r (gg_gates g3 ! j) \<sigma>') \<and>
        (\<forall>w. w \<notin> dead_writes r ?ds ?A \<longrightarrow> \<sigma>' w = \<sigma> w)"
      if "consts_hold (gg_wires g1) \<sigma>" "\<forall>j \<in> emitted dead live ?n. gate_sat r (gg_gates g3 ! j) \<sigma>" for \<sigma>
      using 4(6)[of \<sigma> dead] that unfolding len dw(1) w by blast
    have "covers r ?ks ?ds (gg_wires g1) (gg_gates g3) (emitted dead live ?n)
        (dead_writes r ?ds ?A \<union> dead_writes r ?ds ?D \<union> (if enable_constant_propagation opts then hint_outs r ?ds else {}))"
      by (rule covers_chain[OF 1(4) 2(4) 3(7)[unfolded w len dw(2)] step4])
    then have cov: "covers r ?ks ?ds (gg_wires g4) (gg_gates g4) (emitted dead live ?n) (loosened opts r g dead live)"
      unfolding w 4(4) by (rule covers_mono) (use mono[OF sub(1)] mono[OF sub(2)] in \<open>auto simp: loosened_def\<close>)
    have "fails_emitted r (gg_wires g4) (gg_gates g3) (emitted dead live ?n)"
      by (rule fails_emitted_holds[OF 3(1,8)]) (use 4(5) len kept in \<open>auto simp: emitted_def\<close>)
    then have fe: "fails_emitted r (gg_wires g4) (gg_gates g4) (emitted dead live ?n)" using 4(4) by simp
    have "\<not> observable g pinned w"
      if k: "k < ?n" "\<not> gate_kept dead live k" "get_gate_param r (?ds ! k) = Some p" "w \<in> set (p_outputs p)" for k p w
    proof -
      obtain cs where cs: "gg_wires g3 = ?ks @ cs" "gg_wires g2 = ?ks @ cs" using mv(1) w by (auto simp: reads_moved_def)
      have wl: "w < length ?ks" by (rule output_facts(2)[OF opt k(1,3,4)])
      note obs = observable_grown[OF wl cs(1)] observable_grown[OF wl cs(2)]
      obtain q q' where q: "same_gate r (?ds ! k) (gg_gates g3 ! k) q q'" using al(1) k(1) by (auto simp: alike_def)
      obtain u u' where u: "same_gate r (?ds ! k) (gg_gates g2 ! k) u u'" using al(2) k(1) by (auto simp: alike_def)
      have out: "w \<in> set (p_outputs q')" "w \<in> set (p_outputs u')"
        using k(3,4) same_gate_params(1)[OF q] same_gate_fields(2)[OF q] same_gate_params(1)[OF u] same_gate_fields(2)[OF u] by simp_all
      show ?thesis
      proof (cases "k \<in> ?D")
        case True
        then show ?thesis using 3(6)[OF True same_gate_params(2)[OF u] out(2)] obs by simp
      next
        case False
        then have "\<not> needed r g3 pinned k" using 4(5)[of k] k(1,2) len kept by auto
        have "\<not> observable g3 pinned w"
          by (rule unneeded_unseen[OF \<open>\<not> needed r g3 pinned k\<close> _ same_gate_params(2)[OF q]]) (use out(1) k(1) len in simp_all)
        with obs show ?thesis by simp
      qed
    qed
    then show ?thesis using run 4(1) mv(1) ag cov fe by (intro exI[of _ "Inr (dead, live, g4)"]) auto
  qed
qed

end
