(* ===== verification/Sample_Graph.thy ===== *)
theory Sample_Graph
  imports Rewire
begin

text \<open>
  A small graph for the passes: an exclusive or with zero, two conjunctions of the same wires, an
  assertion that they are equal, and a disjunction nothing reads.
\<close>

definition sample_gate :: "opcode \<Rightarrow> wire list \<Rightarrow> gate_data" where
  "sample_gate opcode ws = \<lparr>body = Op opcode, wires = ws, immediates = [], dimensions = []\<rparr>"

definition sample_passes :: gate_graph where
  "sample_passes = \<lparr>gg_gates = [sample_gate Bxor [2, 1, 4], sample_gate Band [2, 3, 5], sample_gate Band [2, 3, 6],
      sample_gate AssertEq [5, 6], sample_gate Bor [4, 3, 7]],
    gg_wires = [KConstant ALL_ONE, KConstant 0, KInout, KInout, KInternal, KInternal, KInternal, KInternal],
    gate_origin = (\<lambda>_. 0), assertion_names = (\<lambda>_. 0), const_pool = [ALL_ONE \<mapsto> 0, 0 \<mapsto> 1], all_one = 0,
    wire_def = (\<lambda>_. None), use_edges = [], use_offsets = []\<rparr>"

lemma sample_gate_simps [simp]: "body (sample_gate opcode ws) = Op opcode" "wires (sample_gate opcode ws) = ws"
  "immediates (sample_gate opcode ws) = []" "dimensions (sample_gate opcode ws) = []"
  by (simp_all add: sample_gate_def)

lemma sample_gate_param:
  "opcode \<in> {Bxor, Band, Bor} \<Longrightarrow> get_gate_param Map.empty (sample_gate opcode [a, b, c]) =
    Some \<lparr>p_constants = [], p_inputs = [a, b], p_outputs = [c], p_aux = [], p_scratch = [], p_imm = []\<rparr>"
  "get_gate_param Map.empty (sample_gate AssertEq [a, b]) =
    Some \<lparr>p_constants = [], p_inputs = [a, b], p_outputs = [], p_aux = [], p_scratch = [], p_imm = []\<rparr>"
  by (auto simp: get_gate_param_def gate_shape_def gate_param_for_shape_def shape_defs Let_def slice_def)

lemma sample_passes_fields:
  "gg_gates sample_passes = [sample_gate Bxor [2, 1, 4], sample_gate Band [2, 3, 5], sample_gate Band [2, 3, 6],
      sample_gate AssertEq [5, 6], sample_gate Bor [4, 3, 7]]"
  "gg_wires sample_passes = [KConstant ALL_ONE, KConstant 0, KInout, KInout, KInternal, KInternal, KInternal, KInternal]"
  by (simp_all add: sample_passes_def)

lemma below_8: "w < 8 \<Longrightarrow> w = 0 \<or> w = 1 \<or> w = 2 \<or> w = 3 \<or> w = 4 \<or> w = 5 \<or> w = 6 \<or> w = (7 :: nat)"
  by linarith

lemma sample_passes_loose: "loose_wires sample_passes = {4, 5, 6, 7}"
proof -
  have "loose_kind (gg_wires sample_passes ! w) \<longleftrightarrow> w \<in> {4, 5, 6, 7}" if "w < 8" for w
    using below_8[OF that] by (elim disjE) (simp_all add: sample_passes_fields loose_kind_def)
  then have "w < 8 \<and> loose_kind (gg_wires sample_passes ! w) \<longleftrightarrow> w \<in> {4, 5, 6, 7}" for w by auto
  moreover have "length (gg_wires sample_passes) = 8" by (simp add: sample_passes_fields)
  ultimately show ?thesis unfolding loose_wires_def by (simp del: insert_iff)
qed

lemma sample_gates_ready:
  assumes "d \<in> set (gg_gates sample_passes)"
  shows "gate_ready Map.empty (gg_wires sample_passes) d"
proof -
  have wf: "gate_wf Map.empty (gg_wires sample_passes) d"
    using assms by (auto simp: sample_passes_fields gate_wf_def validate_shape_def gate_shape_def shape_wires_def shape_defs)
  moreover have "gate_imm_ok d \<and> gate_fits_code d"
    using assms by (auto simp: sample_passes_fields gate_imm_ok_def imm_ok_def gate_fits_code_def)
  moreover have "consts_kept Map.empty (gg_wires sample_passes) d"
    using assms by (auto simp: consts_kept_def sample_passes_fields sample_gate_param gate_writes_def)
  ultimately show ?thesis by (simp add: gate_ready_def)
qed

lemma sample_passes_optimisable: "optimisable Map.empty sample_passes"
proof -
  have "written_first Map.empty {4, 5, 6, 7} (gg_gates sample_passes)"
    unfolding written_first_def sample_passes_fields
    by (auto simp: less_Suc_eq sample_gate_param gate_uses_def mentioned_def)
  moreover have "ordered Map.empty (gg_gates sample_passes)"
    by (simp add: sample_passes_fields sample_gate_param gate_writes_def gate_uses_def gate_results_def)
  moreover have "\<forall>w \<in> {4, 5, 6, 7}. mentioned (gg_gates sample_passes) w" by (simp add: mentioned_def sample_passes_fields)
  moreover have "length (gg_wires sample_passes) = 8" "length (gg_gates sample_passes) = 5" by (simp_all add: sample_passes_fields)
  ultimately have ready: "graph_ready Map.empty sample_passes"
    unfolding graph_ready_def sample_passes_loose by (simp add: sample_gates_ready registry_ok_def)
  have "const_pool sample_passes word = Some w \<longleftrightarrow> gg_wires sample_passes ! w = KConstant word" if "w < 8" for word w
    using below_8[OF that] by (elim disjE) (auto simp: sample_passes_def ALL_ONE_def)
  moreover have "w < 8" if "const_pool sample_passes word = Some w" for word w
    using that by (auto simp: sample_passes_def split: if_splits)
  ultimately have pool: "const_pool sample_passes word = Some w \<longleftrightarrow> w < 8 \<and> gg_wires sample_passes ! w = KConstant word" for word w
    by blast
  have one: "all_one sample_passes = 0" "const_pool sample_passes ALL_ONE = Some 0" by (simp_all add: sample_passes_def ALL_ONE_def)
  have wfs: "\<forall>d \<in> set (gg_gates sample_passes). gate_wf Map.empty (gg_wires sample_passes) d"
    using sample_gates_ready by (simp add: gate_ready_def)
  have "graph_wf Map.empty sample_passes"
    unfolding graph_wf_def \<open>length (gg_wires sample_passes) = 8\<close> using pool one wfs by (intro conjI allI) blast+
  moreover have "aux_private Map.empty (gg_gates sample_passes)"
    by (simp add: aux_private_def sample_passes_fields sample_gate_param)
  ultimately show ?thesis using ready by (simp add: optimisable_def)
qed

end
