(* ===== verification/Pass_Facts.thy ===== *)
theory Pass_Facts
  imports Optimise Sample_Graph
begin

text \<open>
  What each pass over the gate graph promises (\<open>pass/const_prop.rs\<close>, \<open>pass/zero_fold.rs\<close>, \<open>pass/cse.rs\<close>,
  \<open>pass/dce.rs\<close>), each at the small graph of \<open>Sample_Graph\<close>.
\<close>

text \<open>C8: Zero propagation returns on every optimisable graph, with the wires unchanged: its sweeps end.
  A valuation that respects the constants satisfies the new gates exactly when it satisfies the old ones,
  and is a run of the new gates exactly when it is a run of the old ones.\<close>

theorem zero_propagation_equivalent:
  assumes "optimisable r g"
  shows "\<exists>m g'. zero_propagation g pinned r = Some (m, g') \<and> optimisable r g' \<and> gg_wires g' = gg_wires g \<and>
    (\<forall>\<sigma>. consts_hold (gg_wires g) \<sigma> \<longrightarrow>
      ((\<forall>d \<in> set (gg_gates g'). gate_sat r d \<sigma>) \<longleftrightarrow> (\<forall>d \<in> set (gg_gates g). gate_sat r d \<sigma>)) \<and>
      ((\<forall>d \<in> set (gg_gates g'). gate_run r d \<sigma>) \<longleftrightarrow> (\<forall>d \<in> set (gg_gates g). gate_run r d \<sigma>)))"
proof -
  obtain m g' where z: "zero_propagation g pinned r = Some (m, g')" "optimisable r g'" "gg_wires g' = gg_wires g"
    "agree r (op_done r) (gg_wires g) (gg_gates g) (gg_gates g')" using zero_propagation_spec[OF assms] by blast
  show ?thesis
    using z(1-3) agree_all[OF z(4) by_words_sat sat_op_done] agree_all[OF z(4) by_words_run run_op_done] by blast
qed

theorem zero_propagation_equivalent_witness:
  "\<exists>g'. zero_propagation sample_passes {} Map.empty = Some (1, g') \<and> optimisable Map.empty g' \<and>
    map wires (gg_gates g') = [[2, 1, 4], [2, 3, 5], [2, 3, 6], [5, 6], [2, 3, 7]]"
proof -
  have "map_option (\<lambda>(m, g'). (m, map wires (gg_gates g'))) (zero_propagation sample_passes {} Map.empty) =
      Some (1, [[2, 1, 4], [2, 3, 5], [2, 3, 6], [5, 6], [2, 3, 7]])"
    by code_simp
  then show ?thesis using zero_propagation_equivalent[OF sample_passes_optimisable, of "{}"] by auto
qed

text \<open>C6: Constant propagation returns on every optimisable graph with room for the constants it adds.
  When it reports a gate that always fails, that gate reports exactly that violation in every run of the
  graph.  Otherwise the new gates have the same runs, and what satisfies their constraints satisfies those
  of the old gates once the words the hints return are chosen anew.\<close>

theorem constant_propagation_keeps:
  assumes "optimisable r g" "consts_room r g"
  shows "\<exists>res. constant_propagation g r = Some res \<and>
    (case res of
       Inl (gate, reason) \<Rightarrow> gate < length (gg_gates g) \<and>
         (\<forall>p \<tau>. get_gate_param r (gg_gates g ! gate) = Some p \<longrightarrow> consts_hold (gg_wires g) \<tau> \<longrightarrow>
           (\<forall>d \<in> set (gg_gates g). gate_run r d \<tau>) \<longrightarrow> gate_fails r (gg_gates g ! gate) p \<tau> = [reason])
     | Inr (n, g') \<Rightarrow> optimisable r g' \<and> (\<exists>cs. gg_wires g' = gg_wires g @ map KConstant cs) \<and>
         (\<forall>\<tau>. consts_hold (gg_wires g') \<tau> \<longrightarrow>
           (\<forall>d \<in> set (gg_gates g'). gate_run r d \<tau>) = (\<forall>d \<in> set (gg_gates g). gate_run r d \<tau>)) \<and>
         (\<forall>\<sigma>. consts_hold (gg_wires g') \<sigma> \<longrightarrow> (\<forall>d \<in> set (gg_gates g'). gate_sat r d \<sigma>) \<longrightarrow>
           (\<exists>\<sigma>'. consts_hold (gg_wires g) \<sigma>' \<and> (\<forall>d \<in> set (gg_gates g). gate_sat r d \<sigma>') \<and>
             (\<forall>w. w \<notin> hint_outs r (gg_gates g) \<longrightarrow> \<sigma>' w = \<sigma> w))))"
proof -
  obtain res where res: "constant_propagation g r = Some res" "case res of Inl (gate, reason) \<Rightarrow> always_fails r g gate reason
     | Inr (n, g') \<Rightarrow> optimisable r g' \<and> reads_moved r g g' \<and> agree r (gate_run r) (gg_wires g') (gg_gates g) (gg_gates g') \<and>
         upholds r (gg_wires g) (gg_gates g) (gg_wires g') (gg_gates g') (hint_outs r (gg_gates g))"
    using constant_propagation_spec[OF assms] by blast
  show ?thesis
  proof (cases res)
    case (Inl e)
    then show ?thesis using res by (auto simp: always_fails_def)
  next
    case (Inr x)
    then obtain n g' where x: "res = Inr (n, g')" by (cases x) simp
    then have "optimisable r g'" "\<exists>cs. gg_wires g' = gg_wires g @ map KConstant cs"
      and ag: "agree r (gate_run r) (gg_wires g') (gg_gates g) (gg_gates g')"
      and up: "upholds r (gg_wires g) (gg_gates g) (gg_wires g') (gg_gates g') (hint_outs r (gg_gates g))"
      using res(2) by (auto simp: reads_moved_def)
    then show ?thesis
      using res(1) x agree_all[OF ag by_words_run] up[unfolded upholds_def] by (intro exI[of _ res]) simp
  qed
qed

definition sample_failing :: gate_graph where
  "sample_failing = sample_passes\<lparr>gg_gates := (gg_gates sample_passes)[3 := sample_gate AssertEq [0, 1]]\<rparr>"

lemma sample_room: "consts_room Map.empty sample_passes"
  by (simp add: consts_room_def all_outs_def sample_passes_fields sample_gate_param)

theorem constant_propagation_keeps_witness:
  "\<exists>g'. constant_propagation sample_passes Map.empty = Some (Inr (0, g')) \<and> optimisable Map.empty g' \<and>
    map wires (gg_gates g') = [[2, 1, 4], [2, 3, 5], [2, 3, 6], [5, 6], [4, 3, 7]] \<and>
    map_option (map_sum id fst) (constant_propagation sample_failing Map.empty) = Some (Inl (3, NotEqual ALL_ONE 0))"
proof -
  have "map_option (map_sum id (\<lambda>(n, g'). (n, map wires (gg_gates g')))) (constant_propagation sample_passes Map.empty) =
      Some (Inr (0, [[2, 1, 4], [2, 3, 5], [2, 3, 6], [5, 6], [4, 3, 7]]))"
    by code_simp
  then obtain z where z: "constant_propagation sample_passes Map.empty = Some z"
    "map_sum id (\<lambda>(n, g'). (n, map wires (gg_gates g'))) z = Inr (0, [[2, 1, 4], [2, 3, 5], [2, 3, 6], [5, 6], [4, 3, 7]])" by blast
  then obtain g' where g': "z = Inr (0, g')" "map wires (gg_gates g') = [[2, 1, 4], [2, 3, 5], [2, 3, 6], [5, 6], [4, 3, 7]]"
    by (cases z) auto
  moreover have "map_option (map_sum id fst) (constant_propagation sample_failing Map.empty) = Some (Inl (3, NotEqual ALL_ONE 0))"
    by code_simp
  ultimately show ?thesis
    using constant_propagation_keeps[OF sample_passes_optimisable sample_room] z(1) by simp
qed

text \<open>C9: Collapsing common subexpressions returns on every optimisable graph.  Each gate it collapses does
  what an earlier gate it keeps does on the same wires, has no output that is public or pinned, and is no
  longer read.  The runs are the same, and what satisfies the gates kept satisfies every gate of the
  old graph once the wires of the collapsed gates are given the words of their twins.\<close>

theorem dedup_gates_sound:
  assumes "optimisable r g"
  shows "\<exists>dead g'. dedup_gates g pinned r = Some (dead, g') \<and> optimisable r g' \<and> gg_wires g' = gg_wires g \<and>
    (\<forall>k \<in> dead. k < length (gg_gates g) \<and> (\<exists>c < k. c \<notin> dead \<and> twins r (gg_gates g' ! k) (gg_gates g' ! c))) \<and>
    (\<forall>k \<in> dead. \<forall>p. get_gate_param r (gg_gates g ! k) = Some p \<longrightarrow> (\<forall>w \<in> set (p_outputs p). gg_wires g ! w \<noteq> KInout \<and> w \<notin> pinned)) \<and>
    (\<forall>j < length (gg_gates g). \<forall>p. get_gate_param r (gg_gates g' ! j) = Some p \<longrightarrow>
      set (gate_uses p) \<inter> dead_writes r (gg_gates g) dead = {}) \<and>
    (\<forall>\<sigma>. consts_hold (gg_wires g) \<sigma> \<longrightarrow>
      (\<forall>d \<in> set (gg_gates g'). gate_run r d \<sigma>) = (\<forall>d \<in> set (gg_gates g). gate_run r d \<sigma>)) \<and>
    (\<forall>\<sigma>. consts_hold (gg_wires g) \<sigma> \<longrightarrow> (\<forall>j < length (gg_gates g). j \<notin> dead \<longrightarrow> gate_sat r (gg_gates g' ! j) \<sigma>) \<longrightarrow>
      (\<exists>\<sigma>'. consts_hold (gg_wires g) \<sigma>' \<and> (\<forall>d \<in> set (gg_gates g). gate_sat r d \<sigma>') \<and>
        (\<forall>w. w \<notin> dead_writes r (gg_gates g) dead \<longrightarrow> \<sigma>' w = \<sigma> w)))"
proof -
  obtain dead g' where d: "dedup_gates g pinned r = Some (dead, g')" "optimisable r g'" "reads_moved r g g'" "gg_wires g' = gg_wires g"
    "agree r (gate_run r) (gg_wires g) (gg_gates g) (gg_gates g')" "dead \<subseteq> {..<length (gg_gates g)}"
    "\<And>k p w. k \<in> dead \<Longrightarrow> get_gate_param r (gg_gates g ! k) = Some p \<Longrightarrow> w \<in> set (p_outputs p) \<Longrightarrow> \<not> observable g pinned w"
    and s: "\<And>\<sigma>. consts_hold (gg_wires g) \<sigma> \<Longrightarrow> \<forall>j < length (gg_gates g). j \<notin> dead \<longrightarrow> gate_sat r (gg_gates g' ! j) \<sigma> \<Longrightarrow>
      \<exists>\<sigma>'. consts_hold (gg_wires g) \<sigma>' \<and> (\<forall>d \<in> set (gg_gates g). gate_sat r d \<sigma>') \<and>
        (\<forall>w. w \<notin> dead_writes r (gg_gates g) dead \<longrightarrow> \<sigma>' w = \<sigma> w)"
    and un: "\<And>j p w. j < length (gg_gates g) \<Longrightarrow> get_gate_param r (gg_gates g' ! j) = Some p \<Longrightarrow> w \<in> set (gate_uses p) \<Longrightarrow>
      w \<notin> dead_writes r (gg_gates g) dead"
    and tw: "\<And>k. k \<in> dead \<Longrightarrow> \<exists>c < k. c \<notin> dead \<and> twins r (gg_gates g' ! k) (gg_gates g' ! c)"
    by (rule dedup_gates_spec[OF assms, of pinned]) blast
  show ?thesis
  proof (intro exI[of _ dead] exI[of _ g'] conjI allI ballI impI)
    show "\<exists>c < k. c \<notin> dead \<and> twins r (gg_gates g' ! k) (gg_gates g' ! c)" if "k \<in> dead" for k by (rule tw[OF that])
    show "gg_wires g ! w \<noteq> KInout" "w \<notin> pinned"
      if "k \<in> dead" "get_gate_param r (gg_gates g ! k) = Some p" "w \<in> set (p_outputs p)" for k p w
      using d(7)[OF that] by (simp_all add: observable_def)
    show "set (gate_uses p) \<inter> dead_writes r (gg_gates g) dead = {}"
      if "j < length (gg_gates g)" "get_gate_param r (gg_gates g' ! j) = Some p" for j p
      using un[OF that] by auto
    show "(\<forall>d \<in> set (gg_gates g'). gate_run r d \<sigma>) = (\<forall>d \<in> set (gg_gates g). gate_run r d \<sigma>)" if "consts_hold (gg_wires g) \<sigma>" for \<sigma>
      by (rule agree_all[OF d(5) by_words_run _ that])
    show "\<exists>\<sigma>'. consts_hold (gg_wires g) \<sigma>' \<and> (\<forall>d \<in> set (gg_gates g). gate_sat r d \<sigma>') \<and>
        (\<forall>w. w \<notin> dead_writes r (gg_gates g) dead \<longrightarrow> \<sigma>' w = \<sigma> w)"
      if "consts_hold (gg_wires g) \<sigma>" "\<forall>j < length (gg_gates g). j \<notin> dead \<longrightarrow> gate_sat r (gg_gates g' ! j) \<sigma>" for \<sigma>
      by (rule s[OF that])
  qed (use d(1,2,4,6) in auto)
qed

theorem dedup_gates_sound_witness:
  "\<exists>g'. dedup_gates sample_passes {} Map.empty = Some ({2}, g') \<and> optimisable Map.empty g' \<and>
    map wires (gg_gates g') = [[2, 1, 4], [2, 3, 5], [2, 3, 6], [5, 5], [4, 3, 7]] \<and>
    map_option fst (dedup_gates sample_passes {6} Map.empty) = Some {}"
proof -
  have "map_option (\<lambda>(dead, g'). (dead, map wires (gg_gates g'))) (dedup_gates sample_passes {} Map.empty) =
      Some ({2}, [[2, 1, 4], [2, 3, 5], [2, 3, 6], [5, 5], [4, 3, 7]])"
    by code_simp
  moreover have "map_option fst (dedup_gates sample_passes {6} Map.empty) = Some {}" by code_simp
  ultimately show ?thesis using dedup_gates_sound[OF sample_passes_optimisable, of "{}"] by auto
qed

text \<open>C10: The flood of dead-code elimination ends on every optimisable graph, and every gate that an
  assertion, a public wire or a pinned wire depends on is eventually marked, and no other.  What satisfies
  the gates marked extends to all of the graph by running the others, on their own wires only.\<close>

theorem live_gates_exact:
  assumes "optimisable r g"
  shows "\<exists>g'. live_gates g pinned r = Some ({k. needed r g pinned k}, g') \<and> gg_gates g' = gg_gates g \<and> gg_wires g' = gg_wires g \<and>
    (\<forall>\<sigma>. consts_hold (gg_wires g) \<sigma> \<longrightarrow> (\<forall>j < length (gg_gates g). needed r g pinned j \<longrightarrow> gate_sat r (gg_gates g ! j) \<sigma>) \<longrightarrow>
      (\<exists>\<sigma>'. consts_hold (gg_wires g) \<sigma>' \<and> (\<forall>d \<in> set (gg_gates g). gate_sat r d \<sigma>') \<and>
        (\<forall>w. w \<notin> dead_writes r (gg_gates g) {k. k < length (gg_gates g) \<and> \<not> needed r g pinned k} \<longrightarrow> \<sigma>' w = \<sigma> w)))"
proof -
  let ?n = "length (gg_gates g)" and ?A = "{k. k < length (gg_gates g) \<and> \<not> needed r g pinned k}"
  obtain g' where g': "live_gates g pinned r = Some ({k. needed r g pinned k}, g')" "gg_gates g' = gg_gates g" "gg_wires g' = gg_wires g"
    by (rule live_gates_spec[OF assms]) blast
  have "\<exists>\<sigma>'. consts_hold (gg_wires g) \<sigma>' \<and> (\<forall>d \<in> set (gg_gates g). gate_sat r d \<sigma>') \<and>
        (\<forall>w. w \<notin> dead_writes r (gg_gates g) ?A \<longrightarrow> \<sigma>' w = \<sigma> w)"
    if ch: "consts_hold (gg_wires g) \<sigma>" and sat: "\<forall>j < ?n. needed r g pinned j \<longrightarrow> gate_sat r (gg_gates g ! j) \<sigma>" for \<sigma>
  proof -
    have "\<forall>j \<in> {j. j < ?n \<and> needed r g pinned j}. j < ?n \<and> needed r g pinned j \<and> gate_sat r (gg_gates g ! j) \<sigma>" using sat by simp
    from dropped_sound[OF assms ch subset_refl this] obtain \<sigma>' where s: "consts_hold (gg_wires g) \<sigma>'"
      "\<forall>j \<in> ?A \<union> {j. j < ?n \<and> needed r g pinned j}. gate_sat r (gg_gates g ! j) \<sigma>'"
      "\<forall>w. w \<notin> dead_writes r (gg_gates g) ?A \<longrightarrow> \<sigma>' w = \<sigma> w" by blast
    have "\<forall>d \<in> set (gg_gates g). gate_sat r d \<sigma>'"
    proof
      fix d assume "d \<in> set (gg_gates g)"
      then obtain j where "j < ?n" "gg_gates g ! j = d" by (auto simp: in_set_conv_nth)
      with s(2) show "gate_sat r d \<sigma>'" by blast
    qed
    with s(1,3) show ?thesis by blast
  qed
  then show ?thesis using g' by blast
qed

theorem live_gates_exact_witness:
  "\<exists>g'. live_gates sample_passes {} Map.empty = Some ({1, 2, 3}, g') \<and> {k. needed Map.empty sample_passes {} k} = {1, 2, 3} \<and>
    map_option fst (live_gates sample_passes {7} Map.empty) = Some {0, 1, 2, 3, 4}"
proof -
  have "map_option fst (live_gates sample_passes {} Map.empty) = Some {1, 2, 3}"
    "map_option fst (live_gates sample_passes {7} Map.empty) = Some {0, 1, 2, 3, 4}" by code_simp+
  then show ?thesis using live_gates_exact[OF sample_passes_optimisable, of "{}"] by auto
qed

end
