(* ===== verification/Shift_Summary.thy ===== *)
theory Shift_Summary
  imports Used_Wires
begin

text \<open>
  The shifts on a path through the linear expressions (\<open>pass/fusion/commit_set.rs\<close>): runs of shifts
  that collapse into one slot, summaries of the slots a path needs, and the contexts the commit-set
  decision carries along edges.  The lemmas relate a summary to the shift sequences
  \<open>push_inner\<close> builds on the paths it summarises: what joins the summary within two slots joins every
  sequence it covers.
\<close>

section \<open>Runs\<close>

definition MAX_DEPTH :: nat where "MAX_DEPTH = 6"
definition MAX_TERM_GROWTH :: nat where "MAX_TERM_GROWTH = 4"
definition MAX_SHIFT_SLOTS :: nat where "MAX_SHIFT_SLOTS = 2"
definition OVER_BUDGET :: nat where "OVER_BUDGET = MAX_SHIFT_SLOTS + 1"

record shift_run =
  variants :: u8
  total_amount :: u8

definition run_default :: shift_run where
  "run_default = \<lparr>variants = 0, total_amount = 0\<rparr>"

definition bit_of :: "shift_variant \<Rightarrow> u8" where
  "bit_of v = push_bit (unat (variant_as_u8 v)) 1"

definition saturating_add_u8 :: "u8 \<Rightarrow> u8 \<Rightarrow> u8" where
  "saturating_add_u8 a b = (if unat a + unat b < 2 ^ 8 then a + b else - 1)"

definition run_of :: "shift \<Rightarrow> shift_run" where
  "run_of s = \<lparr>variants = bit_of (variant s), total_amount = amount s\<rparr>"

definition absorb :: "shift_run \<Rightarrow> shift \<Rightarrow> shift_run option" where
  "absorb rn s =
    (if variants rn \<noteq> bit_of (variant s) then None
     else let total = saturating_add_u8 (total_amount rn) (amount s)
       in if \<not> is_cyclic (variant s) \<and> max_amount (variant s) \<le> unat total then None
          else Some \<lparr>variants = variants rn, total_amount = total\<rparr>)"

definition run_union :: "shift_run \<Rightarrow> shift_run \<Rightarrow> shift_run" where
  "run_union a b = \<lparr>variants = variants a OR variants b, total_amount = max (total_amount a) (total_amount b)\<rparr>"

section \<open>Summaries\<close>

record shift_summary =
  sm_slots :: "shift_run list"
  sm_len :: nat

definition summary_default :: shift_summary where
  "summary_default = \<lparr>sm_slots = replicate MAX_SHIFT_SLOTS run_default, sm_len = 0\<rparr>"

definition innermost :: "shift_summary \<Rightarrow> shift_run option" where
  "innermost sm = (if sm_len sm = 0 then None else read_at (sm_slots sm) (sm_len sm - 1))"

definition summary_with :: "shift_summary \<Rightarrow> shift \<Rightarrow> shift_summary" where
  "summary_with sm s =
    (if is_identity s then sm
     else case Option.bind (innermost sm) (\<lambda>rn. absorb rn s) of
         Some absorbed \<Rightarrow> sm\<lparr>sm_slots := (sm_slots sm)[sm_len sm - 1 := absorbed]\<rparr>
       | None \<Rightarrow> sm\<lparr>sm_slots := (if sm_len sm < length (sm_slots sm) then (sm_slots sm)[sm_len sm := run_of s] else sm_slots sm),
           sm_len := min (sm_len sm + 1) OVER_BUDGET\<rparr>)"

definition summary_of :: "shift \<Rightarrow> shift_summary" where
  "summary_of s = summary_with summary_default s"

definition summary_join :: "shift_summary \<Rightarrow> shift_summary \<Rightarrow> shift_summary" where
  "summary_join acc s = \<lparr>sm_slots = map2 run_union (sm_slots acc) (sm_slots s), sm_len = max (sm_len acc) (sm_len s)\<rparr>"

definition summary_union :: "shift_summary list \<Rightarrow> shift_summary" where
  "summary_union summaries = foldl summary_join summary_default summaries"

definition summary_composable :: "shift_summary \<Rightarrow> shift \<Rightarrow> nat \<Rightarrow> bool" where
  "summary_composable sm s slots \<longleftrightarrow> sm_len (summary_with sm s) \<le> slots"

section \<open>Contexts\<close>

record commit_cx =
  cx_shifts :: shift_summary
  cx_depth :: nat

definition cx_new :: "shift \<Rightarrow> commit_cx" where
  "cx_new seed = \<lparr>cx_shifts = summary_of seed, cx_depth = 0\<rparr>"

definition cx_composable :: "commit_cx \<Rightarrow> shift \<Rightarrow> nat \<Rightarrow> bool" where
  "cx_composable cx s slots \<longleftrightarrow> summary_composable (cx_shifts cx) s slots"

definition cx_join :: "commit_cx list \<Rightarrow> commit_cx" where
  "cx_join cxs = \<lparr>cx_shifts = summary_union (map cx_shifts cxs), cx_depth = foldl max 0 (map cx_depth cxs)\<rparr>"

definition cx_add :: "commit_cx \<Rightarrow> shift \<Rightarrow> commit_cx" where
  "cx_add cx s = \<lparr>cx_shifts = summary_with (cx_shifts cx) s, cx_depth = cx_depth cx + 1\<rparr>"

section \<open>What a run holds\<close>

lemma bit_bit_of: "bit (bit_of v) i \<longleftrightarrow> i = unat (variant_as_u8 v)"
  using variant_as_u8_bound[of v] bit_imp_le_length[of "bit_of v" i]
  by (auto simp: bit_of_def bit_push_bit_iff bit_1_iff simp del: push_bit_of_1)

lemma bit_of_inj [simp]: "bit_of u = bit_of v \<longleftrightarrow> u = v"
proof
  assume "bit_of u = bit_of v"
  then have "unat (variant_as_u8 u) = unat (variant_as_u8 v)" using bit_bit_of[of u "unat (variant_as_u8 u)"] by (simp add: bit_bit_of)
  then have "variant_as_u8 u = variant_as_u8 v" by (simp add: word_unat_eq_iff)
  then show "u = v" by (metis variant_u8_roundtrip option.inject)
qed simp

lemma variant_from_bit: "unat (variant_as_u8 u) = unat (variant_as_u8 v) \<Longrightarrow> u = v"
  by (metis bit_bit_of bit_eq_iff bit_of_inj)

text \<open>A shift lies in a run: its variant is there and the run covers its distance.\<close>

definition in_run :: "shift \<Rightarrow> shift_run \<Rightarrow> bool" where
  "in_run s rn \<longleftrightarrow> bit (variants rn) (unat (variant_as_u8 (variant s))) \<and> amt s \<le> unat (total_amount rn)"

lemma in_run_of [simp]: "in_run s (run_of s)"
  by (simp add: in_run_def run_of_def bit_bit_of)

lemma in_run_union: "in_run s a \<or> in_run s b \<Longrightarrow> in_run s (run_union a b)"
  by (auto simp: in_run_def run_union_def bit_or_iff max_def word_le_nat_alt)

lemma saturating_add_u8_ge:
  "k \<le> unat a + unat b \<Longrightarrow> k < 2 ^ 8 \<Longrightarrow> k \<le> unat (saturating_add_u8 a b)"
  by (auto simp: saturating_add_u8_def unat_word_ariths unsigned_minus_1_eq_mask mask_eq_exp_minus_1)

text \<open>A shift a run absorbs is of the one variant of the run, and the run's distance grows to hold it
  and whatever the two distances come to.\<close>

lemma absorb_eq_Some:
  assumes "absorb rn s = Some rn'"
  shows "variants rn = bit_of (variant s)" "variants rn' = bit_of (variant s)"
    "total_amount rn' = saturating_add_u8 (total_amount rn) (amount s)"
    "is_cyclic (variant s) \<or> unat (total_amount rn') < max_amount (variant s)"
  using assms by (auto simp: absorb_def Let_def split: if_splits)

lemma absorb_holds_new:
  assumes "absorb rn s = Some rn'"
  shows "in_run s rn'"
proof -
  have "amt s < 2 ^ 8" using unsigned_less[of "amount s"] by simp
  then show ?thesis using absorb_eq_Some[OF assms] by (auto simp: in_run_def bit_bit_of intro!: saturating_add_u8_ge)
qed

text \<open>Two shifts of one variant collapse to one that the absorbing run holds, to the identity, or clear the
  word.\<close>

lemma absorb_collapses:
  assumes a: "absorb rn s = Some rn'" and i: "in_run i rn" "valid_shift i" "valid_shift s" "\<not> is_identity i" "\<not> is_identity s"
  shows "\<exists>c. compose s i = Some c \<and> c \<noteq> CompPair \<and> (\<forall>m. c = CompSingle m \<longrightarrow> is_identity m \<or> in_run m rn')"
proof -
  note ab = absorb_eq_Some[OF a]
  have v: "variant i = variant s"
    by (rule variant_from_bit) (use i(1) ab(1) in \<open>simp add: in_run_def bit_bit_of\<close>)
  let ?v = "variant s" and ?d = "amt s + amt i"
  have d64: "amt s < 64" "amt i < 64" using i(2,3) v less_le_trans[OF _ max_amount_le[of ?v]] by (simp_all add: valid_shift_def)
  have deg: "degenerate s i = None" using v by (cases ?v) (simp_all add: degenerate_def Let_def)
  have ch: "chained s i = Some (?v, ?d)" using v by (simp add: chained_def Let_def)
  have c: "compose s i = chained_composition ?v ?d" using i(4,5) deg ch by (simp add: compose_def)
  have fits: "in_run m rn'" if "m = \<lparr>variant = ?v, amount = of_nat k\<rparr>" "k \<le> ?d" "k < 64" for m k
  proof -
    have "k \<le> unat (total_amount rn) + amt s" using that(2) i(1) by (simp add: in_run_def)
    then have "k \<le> unat (total_amount rn')" unfolding ab(3) by (rule saturating_add_u8_ge) (use that(3) in simp)
    then show ?thesis using that ab(2) by (simp add: in_run_def bit_bit_of unat_small_amount)
  qed
  have lt: "?d < max_amount ?v" if "\<not> is_cyclic ?v"
  proof -
    have "?d \<le> unat (total_amount rn')"
      unfolding ab(3) by (rule saturating_add_u8_ge) (use i(1) d64 in \<open>simp_all add: in_run_def\<close>)
    then show ?thesis using ab(4) that by simp
  qed
  show ?thesis
  proof (cases "is_cyclic ?v")
    case False
    then have "chained_composition ?v ?d = Some (CompSingle \<lparr>variant = ?v, amount = of_nat ?d\<rparr>)"
      using lt by (cases ?v) (auto simp: chained_composition_def Let_def shift_new_def is_cyclic_def min_def)
    moreover have "?d < 64" using lt[OF False] max_amount_le[of ?v] by linarith
    ultimately show ?thesis using c fits[OF refl order_refl] by simp
  next
    case True
    let ?w = "max_amount ?v"
    have lt: "?d mod ?w < ?w" by simp
    then have "?d mod ?w < 64" using max_amount_le[of ?v] by linarith
    have "chained_composition ?v ?d = (if ?d mod ?w = 0 then Some (CompSingle IDENTITY)
        else Some (CompSingle \<lparr>variant = ?v, amount = of_nat (?d mod ?w)\<rparr>))"
      using True lt by (auto simp: chained_composition_def Let_def shift_new_def is_cyclic_def)
    then show ?thesis using c fits[OF refl mod_less_eq_dividend \<open>?d mod ?w < 64\<close>] by auto
  qed
qed

section \<open>The sequences a summary covers\<close>

definition summary_ok :: "shift_summary \<Rightarrow> bool" where
  "summary_ok sm \<longleftrightarrow> length (sm_slots sm) = 2 \<and> sm_len sm \<le> 3"

lemmas slot_bounds = MAX_SHIFT_SLOTS_def OVER_BUDGET_def

lemma summary_default_ok [simp]: "summary_ok summary_default"
  by (simp add: summary_ok_def summary_default_def slot_bounds)

lemma with_identity [simp]: "is_identity s \<Longrightarrow> summary_with sm s = sm"
  by (simp add: summary_with_def)

lemma with_cases:
  assumes "summary_ok sm" "\<not> is_identity s"
  obtains (joins) rn where "sm_len sm \<in> {1, 2}" "absorb (sm_slots sm ! (sm_len sm - 1)) s = Some rn"
      "sm_len (summary_with sm s) = sm_len sm" "sm_slots (summary_with sm s) ! (sm_len sm - 1) = rn"
      "summary_ok (summary_with sm s)"
    | (opens) "sm_len sm < 2" "sm_len (summary_with sm s) = sm_len sm + 1" "sm_slots (summary_with sm s) ! sm_len sm = run_of s"
      "summary_ok (summary_with sm s)"
    | (full) "sm_len (summary_with sm s) = 3" "summary_ok (summary_with sm s)" "sm_len sm \<ge> 2"
proof (cases "Option.bind (innermost sm) (\<lambda>rn. absorb rn s)")
  case None
  show ?thesis
  proof (cases "sm_len sm < 2")
    case True
    then show ?thesis using None assms
      by (intro opens) (auto simp: summary_with_def summary_ok_def slot_bounds min_def)
  next
    case False
    then show ?thesis using None assms
      by (intro full) (auto simp: summary_with_def summary_ok_def slot_bounds min_def)
  qed
next
  case (Some rn)
  then have i: "sm_len sm \<noteq> 0" "sm_len sm - 1 < 2" "absorb (sm_slots sm ! (sm_len sm - 1)) s = Some rn"
    using assms(1) by (auto simp: innermost_def read_at_def summary_ok_def bind_eq_Some_conv split: if_splits)
  then show ?thesis using Some assms
    by (intro joins[of rn]) (auto simp: summary_with_def summary_ok_def)
qed

lemma summary_with_ok [simp, intro]:
  assumes "summary_ok sm"
  shows "summary_ok (summary_with sm s)"
  by (cases "is_identity s") (use assms with_cases[OF assms, of s] in auto)

lemma summary_of_ok [simp]: "summary_ok (summary_of s)"
  by (simp add: summary_of_def)

lemma summary_join_ok [simp, intro]: "summary_ok a \<Longrightarrow> summary_ok b \<Longrightarrow> summary_ok (summary_join a b)"
  by (simp add: summary_ok_def summary_join_def)

lemma summary_union_ok: "\<forall>sm \<in> set sms. summary_ok sm \<Longrightarrow> summary_ok (summary_union sms)"
proof -
  have "summary_ok acc \<Longrightarrow> \<forall>sm \<in> set sms. summary_ok sm \<Longrightarrow> summary_ok (foldl summary_join acc sms)" for acc
    by (induction sms arbitrary: acc) simp_all
  then show "\<forall>sm \<in> set sms. summary_ok sm \<Longrightarrow> summary_ok (summary_union sms)" by (simp add: summary_union_def)
qed

text \<open>A summary covers a sequence when it needs no fewer slots and, where it needs as many, its innermost run
  holds the innermost shift.\<close>

definition covers_seq :: "shift_summary \<Rightarrow> shift \<times> shift \<Rightarrow> bool" where
  "covers_seq sm sq \<longleftrightarrow>
    (if snd sq = IDENTITY then is_identity (fst sq) \<or> 1 \<le> sm_len sm \<and> (sm_len sm = 1 \<longrightarrow> in_run (fst sq) (sm_slots sm ! 0))
     else 2 \<le> sm_len sm \<and> (sm_len sm = 2 \<longrightarrow> in_run (fst sq) (sm_slots sm ! 1)))"

lemma covers_join:
  assumes "summary_ok a" "summary_ok b" "covers_seq a sq \<or> covers_seq b sq"
  shows "covers_seq (summary_join a b) sq"
proof -
  have "sm_slots (summary_join a b) ! k = run_union (sm_slots a ! k) (sm_slots b ! k)" if "k < 2" for k
    using assms(1,2) that by (simp add: summary_ok_def summary_join_def)
  moreover have "sm_len (summary_join a b) = max (sm_len a) (sm_len b)" by (simp add: summary_join_def)
  ultimately show ?thesis
    using assms(3) by (auto simp: covers_seq_def intro: in_run_union split: if_splits)
qed

lemma covers_union:
  assumes "\<forall>sm \<in> set sms. summary_ok sm" "sm \<in> set sms" "covers_seq sm sq"
  shows "covers_seq (summary_union sms) sq"
proof -
  have "summary_ok acc \<Longrightarrow> covers_seq acc sq \<or> (\<exists>sm \<in> set xs. covers_seq sm sq) \<Longrightarrow> \<forall>sm \<in> set xs. summary_ok sm \<Longrightarrow>
      covers_seq (foldl summary_join acc xs) sq" for acc xs
  proof (induction xs arbitrary: acc)
    case (Cons x xs)
    then have "covers_seq (summary_join acc x) sq \<or> (\<exists>sm \<in> set xs. covers_seq sm sq)" using covers_join[of acc x sq] by auto
    then show ?case using Cons.IH[of "summary_join acc x"] Cons.prems by auto
  qed simp
  from this[of summary_default sms] show ?thesis using assms by (auto simp: summary_union_def)
qed

lemma covers_fresh:
  assumes "summary_ok sm"
  shows "covers_seq (summary_with sm s) (s, IDENTITY)"
proof (cases "is_identity s")
  case False
  show ?thesis
    by (cases rule: with_cases[OF assms False]) (use absorb_holds_new in \<open>fastforce simp: covers_seq_def\<close>)+
qed (simp add: covers_seq_def)

lemma seq_wf_pair: "seq_wf (i, o') \<Longrightarrow> o' \<noteq> IDENTITY \<Longrightarrow>
    compose i o' = Some CompPair \<and> \<not> is_identity i \<and> \<not> is_identity o'"
  by (auto simp: seq_wf_def compose_def split: if_splits)

lemma compose_identities:
  "is_identity s \<Longrightarrow> compose s t = Some (CompSingle t)"
  "\<not> is_identity s \<Longrightarrow> is_identity t \<Longrightarrow> compose s t = Some (CompSingle s)"
  by (simp_all add: compose_def)

lemma shift_wf_canonical: "shift_wf s \<Longrightarrow> is_identity s \<longleftrightarrow> s = IDENTITY"
  by (simp add: shift_wf_def canonical_identity)

lemma compose_wf:
  assumes "shift_wf a" "shift_wf b" "compose a b = Some (CompSingle m)"
  shows "shift_wf m"
proof -
  obtain c where "compose a b = Some c" "composition_sound a b c" using compose_sound[of a b] assms(1,2) by (auto simp: shift_wf_def)
  then show ?thesis using compose_canonical[OF _ _ assms(3)] assms by (auto simp: shift_wf_def composition_sound_def)
qed

lemma lone_wf: "shift_wf m \<Longrightarrow> lone m = (m, IDENTITY)"
  using shift_wf_canonical by (auto simp: lone_def)

text \<open>The ways a shift folds into a well-formed sequence.\<close>

lemma push_inner_cases:
  assumes sq: "seq_wf (i, o')" and s: "shift_wf s" and p: "push_inner (i, o') s 2 = Some (Seq sq')"
  obtains (single) m where "compose s i = Some (CompSingle m)" "o' = IDENTITY" "sq' = (m, IDENTITY)" "shift_wf m"
    | (collapse) m where "o' \<noteq> IDENTITY" "sq' = (m, IDENTITY)" "shift_wf m" "\<not> is_identity s"
    | (merge) m where "compose s i = Some (CompSingle m)" "o' \<noteq> IDENTITY" "sq' = (m, o')" "shift_wf m" "compose m o' = Some CompPair"
    | (pair) "compose s i = Some CompPair" "o' = IDENTITY" "sq' = (s, i)" "i \<noteq> IDENTITY"
proof -
  have wf: "shift_wf i" "shift_wf o'" using sq by (simp_all add: seq_wf_def)
  obtain c where c: "compose s i = Some c" using p by (auto simp: push_inner_def bind_eq_Some_conv)
  show ?thesis
  proof (cases c)
    case (CompSingle m)
    note m = compose_wf[OF s wf(1) c[unfolded CompSingle]]
    obtain d where d: "compose m o' = Some d" using p c CompSingle by (auto simp: push_inner_def)
    show ?thesis
    proof (cases "o' = IDENTITY")
      case True
      then have "compose m o' = Some (CompSingle m)"
        using shift_wf_canonical[OF m] by (cases "is_identity m") (simp_all add: compose_identities)
      then show ?thesis using p c CompSingle True m by (intro single[of m]) (simp_all add: push_inner_def lone_wf)
    next
      case False
      show ?thesis
      proof (cases d)
        case (CompSingle k)
        note k = compose_wf[OF m wf(2) d[unfolded CompSingle]]
        have "\<not> is_identity s"
        proof
          assume "is_identity s"
          then have "m = i" using c \<open>c = CompSingle m\<close> by (simp add: compose_identities)
          then show False using seq_wf_pair[OF sq False] d CompSingle by simp
        qed
        then show ?thesis using p c \<open>c = CompSingle m\<close> d CompSingle False k
          by (intro collapse[of k]) (simp_all add: push_inner_def lone_wf)
      next
        case CompZero
        then show ?thesis using p c \<open>c = CompSingle m\<close> d by (simp add: push_inner_def)
      next
        case CompPair
        then show ?thesis using p c \<open>c = CompSingle m\<close> d False m
          by (intro merge[of m]) (simp_all add: push_inner_def)
      qed
    qed
  next
    case CompZero
    then show ?thesis using p c by (simp add: push_inner_def)
  next
    case CompPair
    then have "is_identity o'" "sq' = (s, i)" using p c by (auto simp: push_inner_def split: if_splits)
    moreover have "i \<noteq> IDENTITY"
    proof
      assume i: "i = IDENTITY"
      then show False using c CompPair by (cases "is_identity s") (simp_all add: compose_identities)
    qed
    ultimately show ?thesis using c CompPair shift_wf_canonical[OF wf(2)] by (intro pair) simp_all
  qed
qed

lemma push_inner_wf:
  assumes "seq_wf sq" "shift_wf s" "push_inner sq s 2 = Some (Seq sq')"
  shows "seq_wf sq'"
proof -
  obtain i o' where sq: "sq = (i, o')" by (cases sq)
  have "shift_wf i" "shift_wf o'" using assms(1) by (simp_all add: seq_wf_def sq)
  then show ?thesis
    using assms(2) by (cases rule: push_inner_cases[OF assms[unfolded sq]]) (simp_all add: seq_wf_def)
qed

text \<open>What a summary covers it still covers with one more shift on both.\<close>

lemma push_inner_covered:
  assumes sm: "summary_ok sm" "covers_seq sm sq" and sq: "seq_wf sq" "shift_wf s"
    and p: "push_inner sq s 2 = Some (Seq sq')"
  shows "covers_seq (summary_with sm s) sq'"
proof -
  obtain i o' where e: "sq = (i, o')" by (cases sq)
  have wf: "shift_wf i" "shift_wf o'" using sq(1) by (simp_all add: seq_wf_def e)
  note valid = wf[unfolded shift_wf_def] sq(2)[unfolded shift_wf_def]
  show ?thesis
  proof (cases "is_identity s")
    case True
    have "sq' = sq"
    proof (rule push_inner_cases[OF sq(1)[unfolded e] sq(2) p[unfolded e]], goal_cases)
      case (1 m) then show ?thesis using True e by (simp add: compose_identities)
    next
      case (2 m) then show ?thesis using True by simp
    next
      case (3 m) then show ?thesis using True e by (simp add: compose_identities)
    next
      case 4 then show ?thesis using True by (simp add: compose_identities)
    qed
    then show ?thesis using sm(2) True by simp
  next
    case False
    show ?thesis
    proof (cases "is_identity i")
      case True
      then have i: "i = IDENTITY" "o' = IDENTITY" using shift_wf_canonical[OF wf(1)] seq_wf_pair[of i o'] sq(1) e by auto
      have "sq' = (s, IDENTITY)"
        by (cases rule: push_inner_cases[OF sq(1)[unfolded e] sq(2) p[unfolded e]]) (use i False in \<open>auto simp: compose_identities\<close>)
      then show ?thesis using covers_fresh[OF sm(1)] by simp
    next
      case i: False
      have joined: "\<exists>c. compose s i = Some c \<and> c \<noteq> CompPair \<and> (\<forall>m. c = CompSingle m \<longrightarrow> is_identity m \<or> in_run m rn)"
        if "absorb r s = Some rn" "in_run i r" for r rn
        by (rule absorb_collapses[OF that]) (use valid False i in simp_all)
      show ?thesis
      proof (rule push_inner_cases[OF sq(1)[unfolded e] sq(2) p[unfolded e]], goal_cases)
        case single: (1 m)
        then have c: "1 \<le> sm_len sm" "sm_len sm = 1 \<longrightarrow> in_run i (sm_slots sm ! 0)"
          using sm(2) i by (simp_all add: covers_seq_def e)
        show ?thesis
        proof (rule with_cases[OF sm(1) False], goal_cases)
          case joins: (1 rn)
          then show ?thesis using c single joined[of "sm_slots sm ! 0" rn] by (auto simp: covers_seq_def)
        qed (use c single in \<open>auto simp: covers_seq_def\<close>)
      next
        case collapse: (2 m)
        then have "2 \<le> sm_len sm" using sm(2) by (simp add: covers_seq_def e)
        then show ?thesis using collapse by (cases rule: with_cases[OF sm(1) False]) (auto simp: covers_seq_def)
      next
        case merge: (3 m)
        then have c: "2 \<le> sm_len sm" "sm_len sm = 2 \<longrightarrow> in_run i (sm_slots sm ! 1)"
          using sm(2) by (simp_all add: covers_seq_def e)
        have "\<not> is_identity m" using merge(5) by (auto simp: compose_def)
        show ?thesis
        proof (rule with_cases[OF sm(1) False], goal_cases)
          case joins: (1 rn)
          then show ?thesis
            using c merge joined[of "sm_slots sm ! 1" rn] \<open>\<not> is_identity m\<close> by (auto simp: covers_seq_def)
        qed (use c merge in \<open>auto simp: covers_seq_def\<close>)
      next
        case pair: 4
        then have c: "1 \<le> sm_len sm" "sm_len sm = 1 \<longrightarrow> in_run i (sm_slots sm ! 0)"
          using sm(2) i by (simp_all add: covers_seq_def e)
        show ?thesis
        proof (rule with_cases[OF sm(1) False], goal_cases)
          case joins: (1 rn)
          show ?thesis
          proof (cases "sm_len sm = 1")
            case True
            then show ?thesis using joined[of "sm_slots sm ! 0" rn] joins c pair by auto
          next
            case False
            then show ?thesis using joins pair absorb_holds_new[OF joins(2)] by (auto simp: covers_seq_def)
          qed
        next
          case opens: 2
          then have "sm_len sm = 1" using c by simp
          then show ?thesis using opens pair by (simp add: covers_seq_def)
        qed (use c pair in \<open>auto simp: covers_seq_def\<close>)
      qed
    qed
  qed
qed

text \<open>What joins a summary within two slots joins every sequence it covers.\<close>

lemma push_inner_within:
  assumes sm: "summary_ok sm" "covers_seq sm sq" and sq: "seq_wf sq" "shift_wf s"
    and fits: "sm_len (summary_with sm s) \<le> 2"
  shows "push_inner sq s 2 \<noteq> Some OverBudget"
proof
  assume p: "push_inner sq s 2 = Some OverBudget"
  obtain i o' where e: "sq = (i, o')" by (cases sq)
  have wf: "shift_wf i" "shift_wf o'" using sq(1) by (simp_all add: seq_wf_def e)
  obtain d where d: "compose s i = Some d" using p by (auto simp: e push_inner_def bind_eq_Some_conv)
  have "d = CompPair"
  proof (cases d)
    case (CompSingle m)
    obtain k where k: "compose m o' = Some k" using p d CompSingle by (auto simp: e push_inner_def)
    show ?thesis using p d CompSingle k by (cases k) (simp_all add: e push_inner_def)
  qed (use p d in \<open>simp_all add: e push_inner_def\<close>)
  then have c: "compose s i = Some CompPair" "\<not> is_identity o'"
    using p d by (auto simp: e push_inner_def)
  then have s: "\<not> is_identity s" "\<not> is_identity i" by (auto simp: compose_def split: if_splits)
  have o': "o' \<noteq> IDENTITY" using c(2) by auto
  then have len: "2 \<le> sm_len sm" "sm_len sm = 2 \<longrightarrow> in_run i (sm_slots sm ! 1)" using sm(2) by (simp_all add: covers_seq_def e)
  show False
  proof (rule with_cases[OF sm(1) s(1)], goal_cases)
    case joins: (1 rn)
    then have "in_run i (sm_slots sm ! (sm_len sm - 1))" using len by auto
    from absorb_collapses[OF joins(2) this] show False using c(1) s wf sq(2) by (auto simp: shift_wf_def)
  qed (use len fits in auto)
qed

end
