(* ===== verification/Le_Graph.thy ===== *)
theory Le_Graph
  imports Used_Wires
begin

text \<open>
  The linear expression graph of gate fusion (\<open>pass/fusion/legraph.rs\<close>): one node per linear
  constraint, per wire no linear constraint defines, and per use of a defined wire in any other
  constraint; edges run from the producer of a word to its consumer and carry the shift.  Nodes and
  edges are numbered in the order they are added.  \<open>None\<close> is a panic.
\<close>

section \<open>Definitions\<close>

datatype constraint_ref = RefAnd nat | RefImul nat | RefBmul nat | RefZero nat | RefLinear nat

fun ref_kind :: "constraint_ref \<Rightarrow> nat" where
  "ref_kind (RefAnd i) = 0" | "ref_kind (RefImul i) = 1" | "ref_kind (RefBmul i) = 2" | "ref_kind (RefZero i) = 3"
| "ref_kind (RefLinear i) = 4"

fun ref_index :: "constraint_ref \<Rightarrow> nat" where
  "ref_index (RefAnd i) = i" | "ref_index (RefImul i) = i" | "ref_index (RefBmul i) = i" | "ref_index (RefZero i) = i"
| "ref_index (RefLinear i) = i"

lemma ref_eqI: "ref_kind a = ref_kind b \<Longrightarrow> ref_index a = ref_index b \<Longrightarrow> a = b"
  by (cases a; cases b) simp_all

instantiation constraint_ref :: linorder
begin

definition less_eq_constraint_ref :: "constraint_ref \<Rightarrow> constraint_ref \<Rightarrow> bool" where
  "less_eq_constraint_ref a b \<longleftrightarrow> ref_kind a < ref_kind b \<or> ref_kind a = ref_kind b \<and> ref_index a \<le> ref_index b"

definition less_constraint_ref :: "constraint_ref \<Rightarrow> constraint_ref \<Rightarrow> bool" where
  "less_constraint_ref a b \<longleftrightarrow> ref_kind a < ref_kind b \<or> ref_kind a = ref_kind b \<and> ref_index a < ref_index b"

instance
  by standard (auto simp: less_eq_constraint_ref_def less_constraint_ref_def intro: ref_eqI)

end

datatype node_kind = LinDef nat | Root | Opaque

record le_edge =
  e_src :: nat
  e_dst :: nat
  e_shift :: shift

record le_graph =
  le_nodes :: "node_kind list"
  le_edges :: "le_edge list"
  wire_to_node :: "wire \<Rightarrow> nat option"
  lin_def :: "wire set"
  lin_committed :: "wire set"
  wire_to_lin_def :: "wire \<Rightarrow> nat option"
  lin_defs :: "wire list"
  le_roots :: "constraint_ref list"
  le_opaque :: "nat list"

definition le_empty :: le_graph where
  "le_empty = \<lparr>le_nodes = [], le_edges = [], wire_to_node = (\<lambda>_. None), lin_def = {}, lin_committed = {},
    wire_to_lin_def = (\<lambda>_. None), lin_defs = [], le_roots = [], le_opaque = []\<rparr>"

definition is_lin_def :: "le_graph \<Rightarrow> wire \<Rightarrow> bool" where
  "is_lin_def leg w \<longleftrightarrow> w \<in> lin_def leg"

definition lin_def_operand :: "le_graph \<Rightarrow> constraint_builder \<Rightarrow> wire \<Rightarrow> wire_operand option" where
  "lin_def_operand leg cb w = do {
    k \<leftarrow> wire_to_lin_def leg w;
    lin \<leftarrow> read_at (cb_linear cb) k;
    Some (wl_rhs lin)
  }"

definition lin_def_constraint_ref :: "le_graph \<Rightarrow> wire \<Rightarrow> constraint_ref option" where
  "lin_def_constraint_ref leg w = map_option RefLinear (wire_to_lin_def leg w)"

definition add_node :: "node_kind \<Rightarrow> le_graph \<Rightarrow> nat \<times> le_graph" where
  "add_node k leg = (length (le_nodes leg), leg\<lparr>le_nodes := le_nodes leg @ [k]\<rparr>)"

definition add_edge :: "nat \<Rightarrow> nat \<Rightarrow> shift \<Rightarrow> le_graph \<Rightarrow> le_graph" where
  "add_edge u v s leg = leg\<lparr>le_edges := le_edges leg @ [\<lparr>e_src = u, e_dst = v, e_shift = s\<rparr>]\<rparr>"

definition add_lin_def :: "wire \<Rightarrow> le_graph \<Rightarrow> le_graph option" where
  "add_lin_def dst leg =
    (let k = length (lin_defs leg);
         leg = leg\<lparr>lin_defs := lin_defs leg @ [dst]\<rparr>;
         (node, leg) = add_node (LinDef k) leg
     in if wire_to_node leg dst \<noteq> None then None
        else Some (leg\<lparr>wire_to_node := (wire_to_node leg)(dst \<mapsto> node),
          wire_to_lin_def := (wire_to_lin_def leg)(dst \<mapsto> k), lin_def := insert dst (lin_def leg)\<rparr>))"

definition note_lin_use :: "wire \<Rightarrow> shift \<Rightarrow> wire \<Rightarrow> le_graph \<Rightarrow> le_graph option" where
  "note_lin_use producer s consumer leg = do {
    node_c \<leftarrow> wire_to_node leg consumer;
    if is_lin_def leg producer then do {
      node_p \<leftarrow> wire_to_node leg producer;
      Some (add_edge node_p node_c s leg)
    } else
      case wire_to_node leg producer of
        Some node \<Rightarrow> Some (add_edge node node_c s leg)
      | None \<Rightarrow> (let (node, leg) = add_node Opaque leg
          in Some (add_edge node node_c s
            (leg\<lparr>le_opaque := le_opaque leg @ [node], wire_to_node := (wire_to_node leg)(producer \<mapsto> node)\<rparr>)))
  }"

definition note_root_use :: "wire \<Rightarrow> shift \<Rightarrow> constraint_ref \<Rightarrow> le_graph \<Rightarrow> le_graph option" where
  "note_root_use producer s c leg = do {
    node_p \<leftarrow> wire_to_node leg producer;
    let leg = leg\<lparr>le_roots := le_roots leg @ [c]\<rparr>;
    let (node, leg) = add_node Root leg;
    Some (add_edge node_p node s leg)
  }"

fun each :: "('a \<Rightarrow> 's \<Rightarrow> 's option) \<Rightarrow> 'a list \<Rightarrow> 's \<Rightarrow> 's option" where
  "each f [] st = Some st"
| "each f (x # xs) st = Option.bind (f x st) (each f xs)"

definition note_lin_term :: "wire \<Rightarrow> shifted_wire \<Rightarrow> le_graph \<Rightarrow> le_graph option" where
  "note_lin_term consumer t leg = Option.bind (sole_shift t) (\<lambda>s. note_lin_use (sw_wire t) s consumer leg)"

definition note_root_term :: "constraint_ref \<Rightarrow> shifted_wire \<Rightarrow> le_graph \<Rightarrow> le_graph option" where
  "note_root_term c t leg =
    (if is_lin_def leg (sw_wire t) then Option.bind (sole_shift t) (\<lambda>s. note_root_use (sw_wire t) s c leg)
     else Some leg)"

definition harvest_root_uses :: "constraint_builder \<Rightarrow> constraint_ref \<Rightarrow> wire_operand \<Rightarrow> le_graph \<Rightarrow> le_graph option" where
  "harvest_root_uses cb c opnd leg = Option.bind (operand_terms cb opnd) (\<lambda>ts. each (note_root_term c) ts leg)"

definition harvest_kind :: "constraint_builder \<Rightarrow> (nat \<Rightarrow> constraint_ref) \<Rightarrow> ('c \<Rightarrow> wire_operand list) \<Rightarrow> 'c list \<Rightarrow>
    le_graph \<Rightarrow> le_graph option" where
  "harvest_kind cb ref ops cs leg = each (\<lambda>(index, c). each (harvest_root_uses cb (ref index)) (ops c)) (enumerate 0 cs) leg"

definition and_ops :: "wire_and \<Rightarrow> wire_operand list" where "and_ops c = [wa_a c, wa_b c, wa_c c]"
definition imul_ops :: "wire_imul \<Rightarrow> wire_operand list" where "imul_ops c = [wi_a c, wi_b c, wi_hi c, wi_lo c]"
definition bmul_ops :: "wire_bmul \<Rightarrow> wire_operand list" where
  "bmul_ops c = [wb_a_lo c, wb_a_hi c, wb_b_lo c, wb_b_hi c, wb_c_lo c, wb_c_hi c]"
definition zero_ops :: "wire_zero \<Rightarrow> wire_operand list" where "zero_ops c = [wz_val c]"

definition build_use_def :: "constraint_builder \<Rightarrow> le_graph \<Rightarrow> le_graph option" where
  "build_use_def cb leg = do {
    leg \<leftarrow> each (\<lambda>lin. add_lin_def (wl_dst lin)) (cb_linear cb) leg;
    leg \<leftarrow> each (\<lambda>lin leg. Option.bind (operand_terms cb (wl_rhs lin)) (\<lambda>ts. each (note_lin_term (wl_dst lin)) ts leg))
      (cb_linear cb) leg;
    leg \<leftarrow> harvest_kind cb RefAnd and_ops (cb_and cb) leg;
    leg \<leftarrow> harvest_kind cb RefImul imul_ops (cb_imul cb) leg;
    leg \<leftarrow> harvest_kind cb RefBmul bmul_ops (cb_bmul cb) leg;
    harvest_kind cb RefZero zero_ops (cb_zero cb) leg
  }"

definition le_new :: "constraint_builder \<Rightarrow> le_graph option" where
  "le_new cb = build_use_def cb le_empty"

section \<open>Builders that can be fused\<close>

definition lin_terms :: "constraint_builder \<Rightarrow> nat \<Rightarrow> shifted_wire list" where
  "lin_terms cb k = op_terms (cb_terms cb) (wl_rhs (cb_linear cb ! k))"

definition lin_dsts :: "constraint_builder \<Rightarrow> wire list" where
  "lin_dsts cb = map wl_dst (cb_linear cb)"

text \<open>What the gates emit: operands inside the arena, one shift a term, and linear constraints that define
  distinct wires, each of one term or more, none of them defined by the same or a later constraint.\<close>

definition fusable :: "constraint_builder \<Rightarrow> bool" where
  "fusable cb \<longleftrightarrow> cb_wf cb \<and> (\<forall>t \<in> set (cb_terms cb). seq_wf (sw_seq t) \<and> snd (sw_seq t) = IDENTITY) \<and>
    distinct (lin_dsts cb) \<and>
    (\<forall>k < length (cb_linear cb). lin_terms cb k \<noteq> [] \<and>
      (\<forall>t \<in> set (lin_terms cb k). sw_wire t \<notin> set (drop k (lin_dsts cb))))"

lemma each_append: "each f (xs @ ys) st = Option.bind (each f xs st) (each f ys)"
proof (induction xs arbitrary: st)
  case (Cons x xs)
  show ?case by (cases "f x st") (simp_all add: Cons.IH)
qed simp

text \<open>A loop that keeps an invariant and reaches a goal for each item that later items keep.\<close>

lemma each_rule:
  assumes step: "\<And>x st. x \<in> set xs \<Longrightarrow> I st \<Longrightarrow> \<exists>st'. f x st = Some st' \<and> I st' \<and> R st st' \<and> G x st'"
    and trans: "\<And>a b c. R a b \<Longrightarrow> R b c \<Longrightarrow> R a c" "\<And>a. R a a"
    and keep: "\<And>x a b. G x a \<Longrightarrow> R a b \<Longrightarrow> G x b" and init: "I st"
  shows "\<exists>st'. each f xs st = Some st' \<and> I st' \<and> R st st' \<and> (\<forall>x \<in> set xs. G x st')"
  using step init
proof (induction xs arbitrary: st)
  case (Cons x xs)
  obtain a where a: "f x st = Some a" "I a" "R st a" "G x a" using Cons.prems(1)[of x st] Cons.prems(2) by auto
  have "\<exists>st'. each f xs a = Some st' \<and> I st' \<and> R a st' \<and> (\<forall>x \<in> set xs. G x st')"
    by (rule Cons.IH[OF Cons.prems(1) a(2)]) simp_all
  then obtain b where b: "each f xs a = Some b" "I b" "R a b" "\<forall>x \<in> set xs. G x b" by blast
  show ?case using a b trans(1)[OF a(3) b(3)] keep[OF a(4) b(3)] by auto
qed (use trans in simp)

section \<open>What the graph of a builder says\<close>

text \<open>The nodes of the linear constraints come first; the rest are opaque sources or root uses.  Every edge
  leads from a source or an earlier definition to a definition, or from a definition to a root.\<close>

definition le_ok :: "constraint_builder \<Rightarrow> le_graph \<Rightarrow> bool" where
  "le_ok cb leg \<longleftrightarrow>
    (let n = length (cb_linear cb) in
     lin_defs leg = lin_dsts cb \<and> lin_def leg = set (lin_dsts cb) \<and> lin_committed leg = {} \<and>
     (\<forall>k < n. wire_to_lin_def leg (lin_dsts cb ! k) = Some k \<and> wire_to_node leg (lin_dsts cb ! k) = Some k) \<and>
     n \<le> length (le_nodes leg) \<and> (\<forall>m < n. le_nodes leg ! m = LinDef m) \<and>
     (\<forall>m < length (le_nodes leg). n \<le> m \<longrightarrow> le_nodes leg ! m = Root \<or> le_nodes leg ! m = Opaque) \<and>
     (\<forall>w m. w \<notin> set (lin_dsts cb) \<longrightarrow> wire_to_node leg w = Some m \<longrightarrow> m \<in> set (le_opaque leg)) \<and>
     (\<forall>m. m \<in> set (le_opaque leg) \<longleftrightarrow> m < length (le_nodes leg) \<and> le_nodes leg ! m = Opaque) \<and>
     (\<forall>e \<in> set (le_edges leg). e_dst e < length (le_nodes leg) \<and> shift_wf (e_shift e) \<and>
       ((e_dst e < n \<and> (e_src e < e_dst e \<or> e_src e \<in> set (le_opaque leg))) \<or>
        (e_src e < n \<and> le_nodes leg ! e_dst e = Root))))"

text \<open>A graph grows when nodes and edges are added to it.\<close>

definition grows :: "le_graph \<Rightarrow> le_graph \<Rightarrow> bool" where
  "grows a b \<longleftrightarrow> (\<exists>ns. le_nodes b = le_nodes a @ ns) \<and> set (le_edges a) \<subseteq> set (le_edges b) \<and>
    set (le_roots a) \<subseteq> set (le_roots b)"

lemma grows_refl: "grows a a" and grows_trans: "grows a b \<Longrightarrow> grows b c \<Longrightarrow> grows a c"
  by (auto simp: grows_def)

lemma grows_node: "grows a b \<Longrightarrow> m < length (le_nodes a) \<Longrightarrow> le_nodes b ! m = le_nodes a ! m \<and> m < length (le_nodes b)"
  by (auto simp: grows_def nth_append)

lemma lin_index:
  assumes "w \<in> set (lin_dsts cb)"
  obtains k where "k < length (cb_linear cb)" "lin_dsts cb ! k = w"
  using assms by (auto simp: in_set_conv_nth lin_dsts_def)

lemma each_add_lin_def:
  assumes "distinct dsts"
  shows "j \<le> length dsts \<Longrightarrow> \<exists>leg. each add_lin_def (take j dsts) le_empty = Some leg \<and> lin_defs leg = take j dsts \<and>
    lin_def leg = set (take j dsts) \<and> lin_committed leg = {} \<and>
    (\<forall>k < j. wire_to_lin_def leg (dsts ! k) = Some k \<and> wire_to_node leg (dsts ! k) = Some k) \<and>
    le_nodes leg = map LinDef [0..<j] \<and> (\<forall>w. w \<notin> set (take j dsts) \<longrightarrow> wire_to_node leg w = None) \<and>
    le_opaque leg = [] \<and> le_edges leg = [] \<and> le_roots leg = []"
proof (induction j)
  case (Suc j)
  then obtain leg where l: "each add_lin_def (take j dsts) le_empty = Some leg" "lin_defs leg = take j dsts"
    "lin_def leg = set (take j dsts)" "lin_committed leg = {}"
    "\<forall>k < j. wire_to_lin_def leg (dsts ! k) = Some k \<and> wire_to_node leg (dsts ! k) = Some k"
    "le_nodes leg = map LinDef [0..<j]" "\<forall>w. w \<notin> set (take j dsts) \<longrightarrow> wire_to_node leg w = None"
    "le_opaque leg = []" "le_edges leg = []" "le_roots leg = []" by auto
  have j: "j < length dsts" using Suc.prems by simp
  then have t: "take (Suc j) dsts = take j dsts @ [dsts ! j]" by (simp add: take_Suc_conv_app_nth)
  have new: "dsts ! j \<notin> set (take j dsts)"
    using assms j by (auto simp: in_set_conv_nth nth_eq_iff_index_eq)
  then have none: "wire_to_node leg (dsts ! j) = None" using l(7) by blast
  have "dsts ! k \<noteq> dsts ! j" if "k < j" for k using assms j that by (simp add: nth_eq_iff_index_eq)
  moreover let ?b = "leg\<lparr>lin_defs := lin_defs leg @ [dsts ! j], le_nodes := le_nodes leg @ [LinDef j],
      wire_to_node := (wire_to_node leg)(dsts ! j \<mapsto> length (le_nodes leg)), wire_to_lin_def := (wire_to_lin_def leg)(dsts ! j \<mapsto> j),
      lin_def := insert (dsts ! j) (lin_def leg)\<rparr>"
  have "add_lin_def (dsts ! j) leg = Some ?b"
    using none l(2) j by (simp add: add_lin_def_def add_node_def Let_def)
  then have "each add_lin_def (take (Suc j) dsts) le_empty = Some ?b" by (simp add: t each_append l(1))
  ultimately show ?case
    using l(2-) new unfolding t by (intro exI[of _ ?b]) (auto simp: less_Suc_eq)
qed (simp add: le_empty_def)

text \<open>The two kinds of use.\<close>

lemma sole_shift_single: "snd (sw_seq t) = IDENTITY \<Longrightarrow> sole_shift t = Some (fst (sw_seq t))"
  by (cases "sw_seq t") (simp add: sole_shift_def)

definition lin_noted :: "constraint_builder \<Rightarrow> nat \<Rightarrow> shifted_wire \<Rightarrow> le_graph \<Rightarrow> bool" where
  "lin_noted cb k t leg \<longleftrightarrow> (\<exists>e \<in> set (le_edges leg). e_dst e = k \<and> e_shift e = fst (sw_seq t) \<and>
    (\<forall>j < length (cb_linear cb). lin_dsts cb ! j = sw_wire t \<longrightarrow> e_src e = j))"

lemma lin_noted_grows: "lin_noted cb k t a \<Longrightarrow> grows a b \<Longrightarrow> lin_noted cb k t b"
  by (auto simp: lin_noted_def grows_def)

definition root_noted :: "constraint_builder \<Rightarrow> constraint_ref \<Rightarrow> shifted_wire \<Rightarrow> le_graph \<Rightarrow> bool" where
  "root_noted cb r t leg \<longleftrightarrow> (\<forall>j < length (cb_linear cb). lin_dsts cb ! j = sw_wire t \<longrightarrow>
    r \<in> set (le_roots leg) \<and> (\<exists>e \<in> set (le_edges leg). e_src e = j \<and> e_shift e = fst (sw_seq t) \<and>
      e_dst e < length (le_nodes leg) \<and> le_nodes leg ! e_dst e = Root))"

lemma root_noted_grows: 
  assumes "root_noted cb r t a" "grows a b"
  shows "root_noted cb r t b"
  unfolding root_noted_def
proof (intro allI impI conjI)
  fix j assume j: "j < length (cb_linear cb)" "lin_dsts cb ! j = sw_wire t"
  then show "r \<in> set (le_roots b)" using assms by (auto simp: root_noted_def grows_def)
  obtain e where e: "e \<in> set (le_edges a)" "e_src e = j" "e_shift e = fst (sw_seq t)" "e_dst e < length (le_nodes a)"
    "le_nodes a ! e_dst e = Root" using assms(1) j by (auto simp: root_noted_def)
  then show "\<exists>e \<in> set (le_edges b). e_src e = j \<and> e_shift e = fst (sw_seq t) \<and> e_dst e < length (le_nodes b) \<and> le_nodes b ! e_dst e = Root"
    using assms(2) grows_node[OF assms(2) e(4)] by (intro bexI[of _ e]) (auto simp: grows_def)
qed

fun ref_in :: "constraint_builder \<Rightarrow> constraint_ref \<Rightarrow> bool" where
  "ref_in cb (RefAnd i) \<longleftrightarrow> i < length (cb_and cb)"
| "ref_in cb (RefImul i) \<longleftrightarrow> i < length (cb_imul cb)"
| "ref_in cb (RefBmul i) \<longleftrightarrow> i < length (cb_bmul cb)"
| "ref_in cb (RefZero i) \<longleftrightarrow> i < length (cb_zero cb)"
| "ref_in cb (RefLinear i) \<longleftrightarrow> False"

definition le_inv :: "constraint_builder \<Rightarrow> le_graph \<Rightarrow> bool" where
  "le_inv cb leg \<longleftrightarrow> le_ok cb leg \<and> (\<forall>r \<in> set (le_roots leg). ref_in cb r)"

lemma dsts_len: "length (lin_dsts cb) = length (cb_linear cb)"
  by (simp add: lin_dsts_def)

lemma dsts_in: "j < length (cb_linear cb) \<Longrightarrow> lin_dsts cb ! j \<in> set (lin_dsts cb)"
  by (simp add: dsts_len)

lemma dst_other: "w \<notin> set (lin_dsts cb) \<Longrightarrow> j < length (cb_linear cb) \<Longrightarrow> lin_dsts cb ! j \<noteq> w"
  using dsts_in by auto

lemma dsts_inj: "fusable cb \<Longrightarrow> i < length (cb_linear cb) \<Longrightarrow> j < length (cb_linear cb) \<Longrightarrow>
    lin_dsts cb ! i = lin_dsts cb ! j \<longleftrightarrow> i = j"
  by (simp add: fusable_def nth_eq_iff_index_eq dsts_len)

lemma le_ok_edge:
  assumes "le_ok cb leg" "v < length (le_nodes leg)" "shift_wf s"
    "v < length (cb_linear cb) \<and> (u < v \<or> u \<in> set (le_opaque leg)) \<or> u < length (cb_linear cb) \<and> le_nodes leg ! v = Root"
  shows "le_ok cb (add_edge u v s leg)"
proof -
  have "\<forall>e \<in> set (le_edges (add_edge u v s leg)). e_dst e < length (le_nodes leg) \<and> shift_wf (e_shift e) \<and>
       ((e_dst e < length (cb_linear cb) \<and> (e_src e < e_dst e \<or> e_src e \<in> set (le_opaque leg))) \<or>
        (e_src e < length (cb_linear cb) \<and> le_nodes leg ! e_dst e = Root))"
  proof
    fix e assume "e \<in> set (le_edges (add_edge u v s leg))"
    then consider "e \<in> set (le_edges leg)" | "e = \<lparr>e_src = u, e_dst = v, e_shift = s\<rparr>" by (auto simp: add_edge_def)
    then show "e_dst e < length (le_nodes leg) \<and> shift_wf (e_shift e) \<and>
       ((e_dst e < length (cb_linear cb) \<and> (e_src e < e_dst e \<or> e_src e \<in> set (le_opaque leg))) \<or>
        (e_src e < length (cb_linear cb) \<and> le_nodes leg ! e_dst e = Root))"
    proof cases
      case 1
      then show ?thesis using assms(1) unfolding le_ok_def Let_def by blast
    next
      case 2
      show ?thesis using assms(2-4) unfolding 2 by simp
    qed
  qed
  note edges = this
  have eqs: "le_nodes (add_edge u v s leg) = le_nodes leg" "lin_defs (add_edge u v s leg) = lin_defs leg"
    "lin_def (add_edge u v s leg) = lin_def leg" "lin_committed (add_edge u v s leg) = lin_committed leg"
    "wire_to_lin_def (add_edge u v s leg) = wire_to_lin_def leg" "wire_to_node (add_edge u v s leg) = wire_to_node leg"
    "le_opaque (add_edge u v s leg) = le_opaque leg" by (simp_all add: add_edge_def)
  show ?thesis using assms(1) edges unfolding le_ok_def Let_def eqs by blast
qed

text \<open>Nodes added after those of the definitions.\<close>

definition node_added :: "node_kind \<Rightarrow> le_graph \<Rightarrow> le_graph \<Rightarrow> bool" where
  "node_added k a b \<longleftrightarrow> le_nodes b = le_nodes a @ [k] \<and> le_edges b = le_edges a \<and> lin_defs b = lin_defs a \<and>
    lin_def b = lin_def a \<and> lin_committed b = lin_committed a \<and> wire_to_lin_def b = wire_to_lin_def a"

lemma le_ok_node:
  assumes ok: "le_ok cb a" and b: "node_added k a b" "k = Root \<or> k = Opaque"
    and w: "\<forall>j < length (cb_linear cb). wire_to_node b (lin_dsts cb ! j) = wire_to_node a (lin_dsts cb ! j)"
      "\<forall>w m. w \<notin> set (lin_dsts cb) \<longrightarrow> wire_to_node b w = Some m \<longrightarrow> m \<in> set (le_opaque b)"
    and q: "set (le_opaque b) = set (le_opaque a) \<union> (if k = Opaque then {length (le_nodes a)} else {})"
  shows "le_ok cb b"
proof -
  let ?n = "length (cb_linear cb)"
  note o' = ok[unfolded le_ok_def Let_def]
  note b' = b(1)[unfolded node_added_def]
  have len: "?n \<le> length (le_nodes a)" and kinds: "\<forall>m < ?n. le_nodes a ! m = LinDef m"
      "\<forall>m < length (le_nodes a). ?n \<le> m \<longrightarrow> le_nodes a ! m = Root \<or> le_nodes a ! m = Opaque"
    and opq: "\<forall>m. m \<in> set (le_opaque a) \<longleftrightarrow> m < length (le_nodes a) \<and> le_nodes a ! m = Opaque" using o' by blast+
  have edges: "\<forall>e \<in> set (le_edges a). e_dst e < length (le_nodes a) \<and> shift_wf (e_shift e) \<and>
       ((e_dst e < ?n \<and> (e_src e < e_dst e \<or> e_src e \<in> set (le_opaque a))) \<or> (e_src e < ?n \<and> le_nodes a ! e_dst e = Root))"
    using o' by blast
  have old: "le_nodes b ! m = le_nodes a ! m" if "m < length (le_nodes a)" for m using b' that by (simp add: nth_append)
  have new: "le_nodes b ! length (le_nodes a) = k" "length (le_nodes b) = Suc (length (le_nodes a))" using b' by simp_all
  show ?thesis
    unfolding le_ok_def Let_def
  proof (intro conjI)
    show "\<forall>m < ?n. le_nodes b ! m = LinDef m" using kinds(1) old len by simp
    show "\<forall>m < length (le_nodes b). ?n \<le> m \<longrightarrow> le_nodes b ! m = Root \<or> le_nodes b ! m = Opaque"
      using kinds(2) old new b(2) by (auto simp: less_Suc_eq)
    show "\<forall>m. m \<in> set (le_opaque b) \<longleftrightarrow> m < length (le_nodes b) \<and> le_nodes b ! m = Opaque"
      unfolding q new(2) using opq old new(1) b(2) by (auto simp: less_Suc_eq)
    show "\<forall>e \<in> set (le_edges b). e_dst e < length (le_nodes b) \<and> shift_wf (e_shift e) \<and>
       ((e_dst e < ?n \<and> (e_src e < e_dst e \<or> e_src e \<in> set (le_opaque b))) \<or> (e_src e < ?n \<and> le_nodes b ! e_dst e = Root))"
    proof
      fix e assume "e \<in> set (le_edges b)"
      then have e: "e \<in> set (le_edges a)" using b' by simp
      then have "e_dst e < length (le_nodes a)" using edges by blast
      then show "e_dst e < length (le_nodes b) \<and> shift_wf (e_shift e) \<and>
       ((e_dst e < ?n \<and> (e_src e < e_dst e \<or> e_src e \<in> set (le_opaque b))) \<or> (e_src e < ?n \<and> le_nodes b ! e_dst e = Root))"
        using bspec[OF edges e] old new(2) q by auto
    qed
  qed (use o' b' w len new(2) in \<open>simp_all del: all_simps\<close>)
qed

lemma le_inv_edge: "le_inv cb leg \<Longrightarrow> le_ok cb (add_edge u v s leg) \<Longrightarrow> le_inv cb (add_edge u v s leg)"
  by (simp add: le_inv_def add_edge_def)

lemma grows_edge: "grows leg (add_edge u v s leg)"
  by (auto simp: grows_def add_edge_def)

lemma note_lin_term_ok:
  assumes fus: "fusable cb" and inv: "le_inv cb leg" and k: "k < length (cb_linear cb)" and t: "t \<in> set (lin_terms cb k)"
    and w: "snd (sw_seq t) = IDENTITY" "shift_wf (fst (sw_seq t))"
  shows "\<exists>leg'. note_lin_term (lin_dsts cb ! k) t leg = Some leg' \<and> le_inv cb leg' \<and> grows leg leg' \<and> lin_noted cb k t leg'"
proof -
  let ?n = "length (cb_linear cb)" and ?s = "fst (sw_seq t)"
  have ok: "le_ok cb leg" using inv by (simp add: le_inv_def)
  have nodes: "wire_to_node leg (lin_dsts cb ! j) = Some j" if "j < ?n" for j
    using ok that unfolding le_ok_def Let_def by blast
  have defs: "lin_def leg = set (lin_dsts cb)" and len: "?n \<le> length (le_nodes leg)" and
    opq: "w \<notin> set (lin_dsts cb) \<Longrightarrow> wire_to_node leg w = Some m \<Longrightarrow> m \<in> set (le_opaque leg)" for w m
    using ok unfolding le_ok_def Let_def by blast+
  have early: "sw_wire t \<notin> set (drop k (lin_dsts cb))" using fus k t by (auto simp: fusable_def)
  note go = note_lin_term_def note_lin_use_def is_lin_def_def sole_shift_single[OF w(1)] nodes[OF k] defs
  have kv: "k < length (le_nodes leg)" using k len by simp
  show ?thesis
  proof (cases "sw_wire t \<in> set (lin_dsts cb)")
    case True
    then obtain j where j: "j < ?n" "lin_dsts cb ! j = sw_wire t" by (rule lin_index)
    have "j < k"
    proof (rule ccontr)
      assume "\<not> j < k"
      then have "lin_dsts cb ! j \<in> set (drop k (lin_dsts cb))"
        using j(1) dsts_len[of cb] by (auto simp: in_set_conv_nth intro!: exI[of _ "j - k"])
      then show False using early j(2) by simp
    qed
    have jn: "wire_to_node leg (sw_wire t) = Some j" using nodes[OF j(1)] j(2) by simp
    let ?e = "\<lparr>e_src = j, e_dst = k, e_shift = ?s\<rparr>"
    have "i = j" if "i < ?n" "lin_dsts cb ! i = sw_wire t" for i
      using that j dsts_inj[OF fus, of i j] by simp
    then have "lin_noted cb k t (add_edge j k ?s leg)"
      unfolding lin_noted_def by (intro bexI[of _ ?e]) (auto simp: add_edge_def)
    moreover have "le_ok cb (add_edge j k ?s leg)" by (rule le_ok_edge[OF ok kv w(2)]) (use \<open>j < k\<close> k in simp)
    moreover have "note_lin_term (lin_dsts cb ! k) t leg = Some (add_edge j k ?s leg)" using True jn by (simp add: go)
    ultimately show ?thesis using grows_edge le_inv_edge[OF inv] by blast
  next
    case False
    have new: "lin_noted cb k t (add_edge m k ?s leg')" for m leg'
      unfolding lin_noted_def
      by (rule bexI[of _ "\<lparr>e_src = m, e_dst = k, e_shift = ?s\<rparr>"]) (use dst_other[OF False] in \<open>auto simp: add_edge_def\<close>)
    show ?thesis
    proof (cases "wire_to_node leg (sw_wire t)")
      case (Some m)
      have "le_ok cb (add_edge m k ?s leg)" by (rule le_ok_edge[OF ok kv w(2)]) (use opq[OF False Some] k in simp)
      moreover have "note_lin_term (lin_dsts cb ! k) t leg = Some (add_edge m k ?s leg)" using False Some by (simp add: go)
      ultimately show ?thesis using new grows_edge le_inv_edge[OF inv] by blast
    next
      case None
      let ?m = "length (le_nodes leg)"
      let ?b = "leg\<lparr>le_nodes := le_nodes leg @ [Opaque], le_opaque := le_opaque leg @ [?m],
        wire_to_node := (wire_to_node leg)(sw_wire t \<mapsto> ?m)\<rparr>"
      have b: "le_ok cb ?b"
        by (rule le_ok_node[OF ok, of Opaque]) (use opq dst_other[OF False] in \<open>auto simp: node_added_def\<close>)
      have "le_ok cb (add_edge ?m k ?s ?b)" by (rule le_ok_edge[OF b _ w(2)]) (use k kv in simp_all)
      moreover have "le_inv cb ?b" using inv b by (simp add: le_inv_def)
      moreover have "note_lin_term (lin_dsts cb ! k) t leg = Some (add_edge ?m k ?s ?b)"
        using False None by (simp add: go add_node_def Let_def)
      moreover have "grows leg ?b" by (auto simp: grows_def)
      ultimately show ?thesis using new grows_trans[OF _ grows_edge] le_inv_edge by blast
    qed
  qed
qed

lemma note_root_term_ok:
  assumes fus: "fusable cb" and inv: "le_inv cb leg" and r: "ref_in cb r"
    and w: "snd (sw_seq t) = IDENTITY" "shift_wf (fst (sw_seq t))"
  shows "\<exists>leg'. note_root_term r t leg = Some leg' \<and> le_inv cb leg' \<and> grows leg leg' \<and> root_noted cb r t leg'"
proof -
  let ?n = "length (cb_linear cb)" and ?s = "fst (sw_seq t)"
  have ok: "le_ok cb leg" using inv by (simp add: le_inv_def)
  have nodes: "wire_to_node leg (lin_dsts cb ! j) = Some j" if "j < ?n" for j
    using ok that unfolding le_ok_def Let_def by blast
  have defs: "lin_def leg = set (lin_dsts cb)" and
    opq: "w \<notin> set (lin_dsts cb) \<Longrightarrow> wire_to_node leg w = Some m \<Longrightarrow> m \<in> set (le_opaque leg)" for w m
    using ok unfolding le_ok_def Let_def by blast+
  note go = note_root_term_def note_root_use_def is_lin_def_def sole_shift_single[OF w(1)] defs
  show ?thesis
  proof (cases "sw_wire t \<in> set (lin_dsts cb)")
    case False
    have "root_noted cb r t leg" using dst_other[OF False] by (simp add: root_noted_def)
    then show ?thesis using False inv grows_refl by (simp add: go)
  next
    case True
    then obtain j where j: "j < ?n" "lin_dsts cb ! j = sw_wire t" by (rule lin_index)
    have jn: "wire_to_node leg (sw_wire t) = Some j" using nodes[OF j(1)] j(2) by simp
    let ?m = "length (le_nodes leg)"
    let ?b = "leg\<lparr>le_roots := le_roots leg @ [r], le_nodes := le_nodes leg @ [Root]\<rparr>"
    have b: "le_ok cb ?b" by (rule le_ok_node[OF ok, of Root]) (use opq in \<open>auto simp: node_added_def\<close>)
    have "le_ok cb (add_edge j ?m ?s ?b)" by (rule le_ok_edge[OF b _ w(2)]) (use j in simp_all)
    moreover have "le_inv cb ?b" using inv b r by (simp add: le_inv_def)
    moreover have "note_root_term r t leg = Some (add_edge j ?m ?s ?b)" using True jn by (simp add: go add_node_def Let_def)
    moreover have "grows leg ?b" by (auto simp: grows_def)
    moreover have "root_noted cb r t (add_edge j ?m ?s ?b)"
      unfolding root_noted_def
    proof (intro allI impI conjI)
      fix i assume i: "i < ?n" "lin_dsts cb ! i = sw_wire t"
      then have "i = j" using j dsts_inj[OF fus, of i j] by simp
      then show "\<exists>e \<in> set (le_edges (add_edge j ?m ?s ?b)). e_src e = i \<and> e_shift e = ?s \<and>
          e_dst e < length (le_nodes (add_edge j ?m ?s ?b)) \<and> le_nodes (add_edge j ?m ?s ?b) ! e_dst e = Root"
        by (intro bexI[of _ "\<lparr>e_src = j, e_dst = ?m, e_shift = ?s\<rparr>"]) (simp_all add: add_edge_def)
    qed (simp add: add_edge_def)
    ultimately show ?thesis using grows_trans[OF _ grows_edge] le_inv_edge by blast
  qed
qed

section \<open>The whole graph\<close>

lemma each_map: "each f (map g xs) st = each (\<lambda>x. f (g x)) xs st"
  by (induction xs arbitrary: st) (simp_all cong: Option.bind_cong)

lemma operand_terms_eq: "in_arena (cb_terms cb) opnd \<Longrightarrow> operand_terms cb opnd = Some (op_terms (cb_terms cb) opnd)"
  by (simp add: operand_terms_def as_slice_def slice_def in_arena_def op_terms_def)

lemma fusable_term:
  assumes "fusable cb" "t \<in> set (op_terms (cb_terms cb) opnd)"
  shows "snd (sw_seq t) = IDENTITY" "shift_wf (fst (sw_seq t))" "seq_wf (sw_seq t)"
proof -
  have "t \<in> set (cb_terms cb)" using assms(2) by (auto simp: op_terms_def dest: in_set_takeD in_set_dropD)
  then show "snd (sw_seq t) = IDENTITY" "shift_wf (fst (sw_seq t))" "seq_wf (sw_seq t)"
    using assms(1) by (auto simp: fusable_def seq_wf_def)
qed

lemma note_linear_ok:
  assumes fus: "fusable cb" and inv: "le_inv cb leg" and lin: "lin \<in> set (cb_linear cb)"
  shows "\<exists>leg'. Option.bind (operand_terms cb (wl_rhs lin)) (\<lambda>ts. each (note_lin_term (wl_dst lin)) ts leg) = Some leg' \<and>
    le_inv cb leg' \<and> grows leg leg' \<and>
    (\<forall>k < length (cb_linear cb). cb_linear cb ! k = lin \<longrightarrow> (\<forall>t \<in> set (lin_terms cb k). lin_noted cb k t leg'))"
proof -
  obtain k where k: "k < length (cb_linear cb)" "cb_linear cb ! k = lin" using lin by (auto simp: in_set_conv_nth)
  have dst: "lin_dsts cb ! k = wl_dst lin" using k by (simp add: lin_dsts_def)
  have "in_arena (cb_terms cb) (wl_rhs lin)" using fus lin by (simp add: fusable_def cb_wf_def Let_def)
  then have ts: "operand_terms cb (wl_rhs lin) = Some (lin_terms cb k)" by (simp add: operand_terms_eq lin_terms_def k)
  have "\<exists>leg'. each (note_lin_term (lin_dsts cb ! k)) (lin_terms cb k) leg = Some leg' \<and> le_inv cb leg' \<and> grows leg leg' \<and>
      (\<forall>t \<in> set (lin_terms cb k). lin_noted cb k t leg')"
  proof (rule each_rule)
    fix t a assume t: "t \<in> set (lin_terms cb k)" and a: "le_inv cb a"
    show "\<exists>b. note_lin_term (lin_dsts cb ! k) t a = Some b \<and> le_inv cb b \<and> grows a b \<and> lin_noted cb k t b"
      by (rule note_lin_term_ok[OF fus a k(1) t]) (use fusable_term[OF fus] t in \<open>auto simp: lin_terms_def\<close>)
  qed (use grows_trans grows_refl lin_noted_grows inv in blast)+
  moreover have "i = k" if "i < length (cb_linear cb)" "cb_linear cb ! i = lin" for i
    using dsts_inj[OF fus that(1) k(1)] that k by (simp add: lin_dsts_def)
  ultimately show ?thesis using ts dst by (metis bind.bind_lunit)
qed

lemma harvest_operand_ok:
  assumes fus: "fusable cb" and inv: "le_inv cb leg" and r: "ref_in cb r" and o': "in_arena (cb_terms cb) opnd"
  shows "\<exists>leg'. harvest_root_uses cb r opnd leg = Some leg' \<and> le_inv cb leg' \<and> grows leg leg' \<and>
    (\<forall>t \<in> set (op_terms (cb_terms cb) opnd). root_noted cb r t leg')"
proof -
  have "\<exists>leg'. each (note_root_term r) (op_terms (cb_terms cb) opnd) leg = Some leg' \<and> le_inv cb leg' \<and> grows leg leg' \<and>
      (\<forall>t \<in> set (op_terms (cb_terms cb) opnd). root_noted cb r t leg')"
  proof (rule each_rule)
    fix t a assume t: "t \<in> set (op_terms (cb_terms cb) opnd)" and a: "le_inv cb a"
    show "\<exists>b. note_root_term r t a = Some b \<and> le_inv cb b \<and> grows a b \<and> root_noted cb r t b"
      by (rule note_root_term_ok[OF fus a r fusable_term(1,2)[OF fus t]])
  qed (use grows_trans grows_refl root_noted_grows inv in blast)+
  then show ?thesis by (simp add: harvest_root_uses_def operand_terms_eq[OF o'])
qed

definition ops_noted :: "constraint_builder \<Rightarrow> constraint_ref \<Rightarrow> wire_operand list \<Rightarrow> le_graph \<Rightarrow> bool" where
  "ops_noted cb r os leg \<longleftrightarrow> (\<forall>opnd \<in> set os. \<forall>t \<in> set (op_terms (cb_terms cb) opnd). root_noted cb r t leg)"

lemma ops_noted_grows: "ops_noted cb r os a \<Longrightarrow> grows a b \<Longrightarrow> ops_noted cb r os b"
  unfolding ops_noted_def using root_noted_grows by blast

lemma harvest_ops_ok:
  assumes fus: "fusable cb" and inv: "le_inv cb leg" and r: "ref_in cb r" and o': "\<forall>opnd \<in> set os. in_arena (cb_terms cb) opnd"
  shows "\<exists>leg'. each (harvest_root_uses cb r) os leg = Some leg' \<and> le_inv cb leg' \<and> grows leg leg' \<and> ops_noted cb r os leg'"
  unfolding ops_noted_def
proof (rule each_rule)
  fix opnd a assume "opnd \<in> set os" and a: "le_inv cb a"
  then have "in_arena (cb_terms cb) opnd" using o' by blast
  from harvest_operand_ok[OF fus a r this]
  show "\<exists>b. harvest_root_uses cb r opnd a = Some b \<and> le_inv cb b \<and> grows a b \<and> (\<forall>t \<in> set (op_terms (cb_terms cb) opnd). root_noted cb r t b)" .
qed (use grows_trans grows_refl root_noted_grows inv in blast)+

lemma harvest_kind_ok:
  assumes fus: "fusable cb" and inv: "le_inv cb leg" and ref: "\<And>i. i < length cs \<Longrightarrow> ref_in cb (ref i)"
    and o': "\<forall>c \<in> set cs. \<forall>opnd \<in> set (ops c). in_arena (cb_terms cb) opnd"
  shows "\<exists>leg'. harvest_kind cb ref ops cs leg = Some leg' \<and> le_inv cb leg' \<and> grows leg leg' \<and>
    (\<forall>i < length cs. ops_noted cb (ref i) (ops (cs ! i)) leg')"
proof -
  let ?G = "\<lambda>(i, c). ops_noted cb (ref i) (ops c)"
  have "\<exists>leg'. each (\<lambda>(i, c). each (harvest_root_uses cb (ref i)) (ops c)) (enumerate 0 cs) leg = Some leg' \<and>
      le_inv cb leg' \<and> grows leg leg' \<and> (\<forall>x \<in> set (enumerate 0 cs). ?G x leg')"
  proof (rule each_rule)
    fix x a assume x: "x \<in> set (enumerate 0 cs)" and a: "le_inv cb a"
    have i: "x = (fst x, cs ! fst x)" "fst x < length cs" using x by (simp_all add: in_set_enumerate_eq prod_eq_iff)
    show "\<exists>b. (case x of (i, c) \<Rightarrow> each (harvest_root_uses cb (ref i)) (ops c)) a = Some b \<and> le_inv cb b \<and> grows a b \<and> ?G x b"
    proof -
      have "\<forall>opnd \<in> set (ops (cs ! fst x)). in_arena (cb_terms cb) opnd" using o' nth_mem[OF i(2)] by blast
      from harvest_ops_ok[OF fus a ref[OF i(2)] this] show ?thesis by (subst (1 2) i(1)) simp
    qed
  next
    show "?G x b" if "?G x a" "grows a b" for x a b using that ops_noted_grows by (cases x) auto
  qed (use grows_trans grows_refl inv in blast)+
  then obtain leg' where l: "harvest_kind cb ref ops cs leg = Some leg'" "le_inv cb leg'" "grows leg leg'"
    "\<forall>x \<in> set (enumerate 0 cs). ?G x leg'" by (auto simp: harvest_kind_def)
  have "ops_noted cb (ref i) (ops (cs ! i)) leg'" if "i < length cs" for i
    using l(4) that by (auto simp: in_set_enumerate_eq dest!: bspec[of _ _ "(i, cs ! i)"])
  then show ?thesis using l by blast
qed

lemmas ops_defs = and_ops_def imul_ops_def bmul_ops_def zero_ops_def

definition all_noted :: "constraint_builder \<Rightarrow> le_graph \<Rightarrow> bool" where
  "all_noted cb leg \<longleftrightarrow>
    (\<forall>k < length (cb_linear cb). \<forall>t \<in> set (lin_terms cb k). lin_noted cb k t leg) \<and>
    (\<forall>i < length (cb_and cb). ops_noted cb (RefAnd i) (and_ops (cb_and cb ! i)) leg) \<and>
    (\<forall>i < length (cb_imul cb). ops_noted cb (RefImul i) (imul_ops (cb_imul cb ! i)) leg) \<and>
    (\<forall>i < length (cb_bmul cb). ops_noted cb (RefBmul i) (bmul_ops (cb_bmul cb ! i)) leg) \<and>
    (\<forall>i < length (cb_zero cb). ops_noted cb (RefZero i) (zero_ops (cb_zero cb ! i)) leg)"

lemma lin_defs_added:
  assumes fus: "fusable cb"
  shows "\<exists>leg. each (\<lambda>lin. add_lin_def (wl_dst lin)) (cb_linear cb) le_empty = Some leg \<and> le_inv cb leg"
proof -
  let ?n = "length (cb_linear cb)" and ?ds = "lin_dsts cb"
  have "distinct ?ds" using fus by (simp add: fusable_def)
  from each_add_lin_def[OF this, of ?n] obtain leg where l: "each add_lin_def ?ds le_empty = Some leg" "lin_defs leg = ?ds"
    "lin_def leg = set ?ds" "lin_committed leg = {}"
    "\<forall>k < ?n. wire_to_lin_def leg (?ds ! k) = Some k \<and> wire_to_node leg (?ds ! k) = Some k"
    "le_nodes leg = map LinDef [0..<?n]" "\<forall>w. w \<notin> set ?ds \<longrightarrow> wire_to_node leg w = None"
    "le_opaque leg = []" "le_edges leg = []" "le_roots leg = []" by (auto simp: dsts_len)
  have "each (\<lambda>lin. add_lin_def (wl_dst lin)) (cb_linear cb) le_empty = Some leg"
    using l(1) by (simp add: lin_dsts_def each_map)
  moreover have "le_inv cb leg" using l by (auto simp: le_inv_def le_ok_def Let_def)
  ultimately show ?thesis by blast
qed

lemma le_new_spec:
  assumes fus: "fusable cb"
  obtains leg where "le_new cb = Some leg" "le_inv cb leg" "all_noted cb leg"
proof -
  let ?note = "\<lambda>lin leg. Option.bind (operand_terms cb (wl_rhs lin)) (\<lambda>ts. each (note_lin_term (wl_dst lin)) ts leg)"
  let ?G = "\<lambda>lin leg. \<forall>k < length (cb_linear cb). cb_linear cb ! k = lin \<longrightarrow> (\<forall>t \<in> set (lin_terms cb k). lin_noted cb k t leg)"
  obtain a where a: "each (\<lambda>lin. add_lin_def (wl_dst lin)) (cb_linear cb) le_empty = Some a" "le_inv cb a"
    using lin_defs_added[OF fus] by blast
  have "\<exists>b. each ?note (cb_linear cb) a = Some b \<and> le_inv cb b \<and> grows a b \<and> (\<forall>lin \<in> set (cb_linear cb). ?G lin b)"
  proof (rule each_rule)
    show "\<exists>b. ?note lin a = Some b \<and> le_inv cb b \<and> grows a b \<and> ?G lin b" if "lin \<in> set (cb_linear cb)" "le_inv cb a" for lin a
      by (rule note_linear_ok[OF fus that(2,1)])
  next
    show "?G lin b" if "?G lin a" "grows a b" for lin a b using that lin_noted_grows by blast
  qed (use grows_trans grows_refl a(2) in blast)+
  then obtain b where b: "each ?note (cb_linear cb) a = Some b" "le_inv cb b" "\<forall>lin \<in> set (cb_linear cb). ?G lin b" by blast
  have arena: "cb_wf cb" using fus by (simp add: fusable_def)
  have wf: "\<forall>c \<in> set (cb_and cb). \<forall>opnd \<in> set (and_ops c). in_arena (cb_terms cb) opnd"
    "\<forall>c \<in> set (cb_imul cb). \<forall>opnd \<in> set (imul_ops c). in_arena (cb_terms cb) opnd"
    "\<forall>c \<in> set (cb_bmul cb). \<forall>opnd \<in> set (bmul_ops c). in_arena (cb_terms cb) opnd"
    "\<forall>c \<in> set (cb_zero cb). \<forall>opnd \<in> set (zero_ops c). in_arena (cb_terms cb) opnd"
    using arena by (simp_all add: cb_wf_def Let_def ops_defs)
  have "\<exists>c. harvest_kind cb RefAnd and_ops (cb_and cb) b = Some c \<and> le_inv cb c \<and> grows b c \<and>
      (\<forall>i < length (cb_and cb). ops_noted cb (RefAnd i) (and_ops (cb_and cb ! i)) c)"
    by (rule harvest_kind_ok[OF fus b(2) _ wf(1)]) simp
  then obtain c where c: "harvest_kind cb RefAnd and_ops (cb_and cb) b = Some c" "le_inv cb c" "grows b c"
    "\<forall>i < length (cb_and cb). ops_noted cb (RefAnd i) (and_ops (cb_and cb ! i)) c" by blast
  have "\<exists>d. harvest_kind cb RefImul imul_ops (cb_imul cb) c = Some d \<and> le_inv cb d \<and> grows c d \<and>
      (\<forall>i < length (cb_imul cb). ops_noted cb (RefImul i) (imul_ops (cb_imul cb ! i)) d)"
    by (rule harvest_kind_ok[OF fus c(2) _ wf(2)]) simp
  then obtain d where d: "harvest_kind cb RefImul imul_ops (cb_imul cb) c = Some d" "le_inv cb d" "grows c d"
    "\<forall>i < length (cb_imul cb). ops_noted cb (RefImul i) (imul_ops (cb_imul cb ! i)) d" by blast
  have "\<exists>e. harvest_kind cb RefBmul bmul_ops (cb_bmul cb) d = Some e \<and> le_inv cb e \<and> grows d e \<and>
      (\<forall>i < length (cb_bmul cb). ops_noted cb (RefBmul i) (bmul_ops (cb_bmul cb ! i)) e)"
    by (rule harvest_kind_ok[OF fus d(2) _ wf(3)]) simp
  then obtain e where e: "harvest_kind cb RefBmul bmul_ops (cb_bmul cb) d = Some e" "le_inv cb e" "grows d e"
    "\<forall>i < length (cb_bmul cb). ops_noted cb (RefBmul i) (bmul_ops (cb_bmul cb ! i)) e" by blast
  have "\<exists>f. harvest_kind cb RefZero zero_ops (cb_zero cb) e = Some f \<and> le_inv cb f \<and> grows e f \<and>
      (\<forall>i < length (cb_zero cb). ops_noted cb (RefZero i) (zero_ops (cb_zero cb ! i)) f)"
    by (rule harvest_kind_ok[OF fus e(2) _ wf(4)]) simp
  then obtain f where f: "harvest_kind cb RefZero zero_ops (cb_zero cb) e = Some f" "le_inv cb f" "grows e f"
    "\<forall>i < length (cb_zero cb). ops_noted cb (RefZero i) (zero_ops (cb_zero cb ! i)) f" by blast
  have g: "grows e f" "grows d f" "grows c f" "grows b f"
    using c(3) d(3) e(3) f(3) grows_trans by blast+
  have "lin_noted cb k t b" if "k < length (cb_linear cb)" "t \<in> set (lin_terms cb k)" for k t
    using b(3) that nth_mem by blast
  then have "all_noted cb f"
    unfolding all_noted_def using c(4) d(4) e(4) f(4) ops_noted_grows g lin_noted_grows[OF _ g(4)] by blast
  moreover have "le_new cb = Some f"
    by (simp add: le_new_def build_use_def_def a(1) b(1) c(1) d(1) e(1) f(1))
  ultimately show ?thesis using that f(2) by blast
qed

end
