(* ===== verification/Commit_Set.thy ===== *)
theory Commit_Set
  imports Shift_Summary Le_Graph
begin

text \<open>
  Which linear definitions fusion commits (\<open>pass/fusion/commit_set.rs\<close>).  The traversal of the graph is
  petgraph's \<open>DfsPostOrder\<close>, moved to each opaque node in turn: a parameter \<open>post\<close> that lists the
  nodes it visits for given edges and sources.  What the code relies on of it is \<open>visits\<close>.
  Edges are listed as they were added; petgraph lists the last first, and the decision is the same in
  either order.  Statistics are left out.  \<open>None\<close> is a panic.
\<close>

section \<open>Definitions\<close>

type_synonym post_order = "(nat \<times> nat) list \<Rightarrow> nat list \<Rightarrow> nat list"

definition edge_cx :: "commit_cx option list \<Rightarrow> nat \<Rightarrow> commit_cx option" where
  "edge_cx per_edge i = Option.bind (read_at per_edge i) id"

definition incoming :: "le_graph \<Rightarrow> nat \<Rightarrow> (nat \<times> le_edge) list" where
  "incoming leg node = filter (\<lambda>(i, e). e_dst e = node) (enumerate 0 (le_edges leg))"

definition outcoming :: "le_graph \<Rightarrow> nat \<Rightarrow> (nat \<times> le_edge) list" where
  "outcoming leg node = filter (\<lambda>(i, e). e_src e = node) (enumerate 0 (le_edges leg))"

definition set_each :: "(le_edge \<Rightarrow> commit_cx) \<Rightarrow> (nat \<times> le_edge) list \<Rightarrow> commit_cx option list \<Rightarrow> commit_cx option list" where
  "set_each f edges per_edge = foldl (\<lambda>pe (i, e). pe[i := Some (f e)]) per_edge edges"

text \<open>The incoming shifts against one consumer's context: whether all fit the budget, and one slot.\<close>

fun scan_in :: "commit_cx \<Rightarrow> nat \<Rightarrow> shift list \<Rightarrow> bool \<Rightarrow> bool \<times> bool" where
  "scan_in cx slots [] fits = (True, fits)"
| "scan_in cx slots (s # ss) fits =
    (if cx_composable cx s 1 then scan_in cx slots ss fits
     else if \<not> cx_composable cx s slots then (False, False)
     else scan_in cx slots ss False)"

fun scan_out :: "commit_cx option list \<Rightarrow> nat \<Rightarrow> shift list \<Rightarrow> nat list \<Rightarrow> bool \<Rightarrow> nat \<Rightarrow> (bool \<times> bool \<times> nat) option" where
  "scan_out pe slots ins [] fits depth = Some (True, fits, depth)"
| "scan_out pe slots ins (i # is') fits depth = do {
    cx \<leftarrow> edge_cx pe i;
    let depth = max (cx_depth cx) depth;
    let (composable, fits) = scan_in cx slots ins fits;
    if composable then scan_out pe slots ins is' fits depth else Some (False, fits, depth)
  }"

definition decide_node :: "nat \<Rightarrow> le_graph \<Rightarrow> nat \<Rightarrow> commit_cx option list \<times> wire set \<Rightarrow> (commit_cx option list \<times> wire set) option" where
  "decide_node slots leg node st =
    (case st of (pe, committed) \<Rightarrow> do {
      kind \<leftarrow> read_at (le_nodes leg) node;
      let ins = incoming leg node;
      let outs = outcoming leg node;
      case kind of
        Root \<Rightarrow> Some (set_each (\<lambda>e. cx_new (e_shift e)) ins pe, committed)
      | Opaque \<Rightarrow> Some (pe, committed)
      | LinDef k \<Rightarrow> do {
          w \<leftarrow> read_at (lin_defs leg) k;
          (composable, fits_one_slot, depth) \<leftarrow> scan_out pe slots (map (\<lambda>(i, e). e_shift e) ins) (map fst outs) True 0;
          let too_deep = depth > MAX_DEPTH \<and> length ins \<noteq> 1;
          let growth = (length ins - 1) * (length outs - 1);
          let multiplies_out = \<not> fits_one_slot \<and> growth > MAX_TERM_GROWTH;
          if too_deep \<or> \<not> composable \<or> multiplies_out then
            if w \<in> committed then None
            else Some (set_each (\<lambda>e. cx_new (e_shift e)) ins pe, insert w committed)
          else do {
            cxs \<leftarrow> those (map (\<lambda>(i, e). edge_cx pe i) outs);
            let join = cx_join cxs;
            Some (set_each (\<lambda>e. cx_add join (e_shift e)) ins pe, committed)
          }
        }
    })"

definition edge_pairs :: "le_graph \<Rightarrow> (nat \<times> nat) list" where
  "edge_pairs leg = map (\<lambda>e. (e_src e, e_dst e)) (le_edges leg)"

definition run_decide_commit_set :: "post_order \<Rightarrow> le_graph \<Rightarrow> nat \<Rightarrow> le_graph option" where
  "run_decide_commit_set post leg slots = do {
    (pe, committed) \<leftarrow> each (decide_node slots leg) (post (edge_pairs leg) (le_opaque leg))
      (replicate (length (le_edges leg)) None, lin_committed leg);
    Some (leg\<lparr>lin_committed := committed\<rparr>)
  }"

text \<open>A depth-first post-order visits what the sources reach, once, and on a graph without cycles the targets
  of a node's edges before the node.\<close>

definition visits :: "(nat \<times> nat) list \<Rightarrow> nat list \<Rightarrow> nat list \<Rightarrow> bool" where
  "visits es sources vs \<longleftrightarrow> distinct vs \<and> set vs = {v. \<exists>s \<in> set sources. (s, v) \<in> (set es)\<^sup>*} \<and>
    (acyclic (set es) \<longrightarrow> (\<forall>i < length vs. \<forall>v. (vs ! i, v) \<in> set es \<longrightarrow> v \<in> set (take i vs)))"

section \<open>Scans and updates\<close>

lemma in_incoming: "(i, e) \<in> set (incoming leg v) \<longleftrightarrow> i < length (le_edges leg) \<and> e = le_edges leg ! i \<and> e_dst e = v"
  by (auto simp: incoming_def in_set_enumerate_eq)

lemma in_outcoming: "(i, e) \<in> set (outcoming leg v) \<longleftrightarrow> i < length (le_edges leg) \<and> e = le_edges leg ! i \<and> e_src e = v"
  by (auto simp: outcoming_def in_set_enumerate_eq)

lemma set_each_nth:
  assumes "\<forall>(i, e) \<in> set xs. e = es ! i" "j < length pe"
  shows "length (set_each f xs pe) = length pe"
    "set_each f xs pe ! j = (if j \<in> fst ` set xs then Some (f (es ! j)) else pe ! j)"
proof -
  have "j < length p \<Longrightarrow> \<forall>(i, e) \<in> set ys. e = es ! i \<Longrightarrow>
      length (foldl (\<lambda>pe (i, e). pe[i := Some (f e)]) p ys) = length p \<and>
      foldl (\<lambda>pe (i, e). pe[i := Some (f e)]) p ys ! j = (if j \<in> fst ` set ys then Some (f (es ! j)) else p ! j)" for p ys
  proof (induction ys arbitrary: p)
    case (Cons y ys)
    obtain i e where y: "y = (i, e)" by (cases y)
    have "e = es ! i" using Cons.prems(2) y by auto
    then show ?case using Cons.IH[of "p[i := Some (f e)]"] Cons.prems y by (auto simp: nth_list_update)
  qed simp
  from this[OF assms(2,1)] show "length (set_each f xs pe) = length pe"
    "set_each f xs pe ! j = (if j \<in> fst ` set xs then Some (f (es ! j)) else pe ! j)"
    by (simp_all add: set_each_def)
qed

lemma length_set_each [simp]: "length (set_each f xs pe) = length pe"
proof -
  have "length (foldl (\<lambda>pe (i, e). pe[i := Some (f e)]) p ys) = length p" for p :: "commit_cx option list" and ys
    by (induction ys arbitrary: p) (auto split: prod.splits)
  then show ?thesis by (simp add: set_each_def)
qed

lemma set_incoming_nth:
  assumes "j < length (le_edges leg)" "length pe = length (le_edges leg)"
  shows "set_each f (incoming leg v) pe ! j = (if e_dst (le_edges leg ! j) = v then Some (f (le_edges leg ! j)) else pe ! j)"
proof -
  have "\<forall>(i, e) \<in> set (incoming leg v). e = le_edges leg ! i" by (auto simp: in_incoming)
  moreover have "j \<in> fst ` set (incoming leg v) \<longleftrightarrow> e_dst (le_edges leg ! j) = v"
    using assms(1) in_incoming[of j _ leg v] by (auto simp: image_iff intro!: bexI[of _ "(j, le_edges leg ! j)"] simp: in_incoming)
  ultimately show ?thesis using set_each_nth(2)[of "incoming leg v" "le_edges leg" j pe f] assms by simp
qed

lemma composable_mono: "cx_composable cx s 1 \<Longrightarrow> 1 \<le> slots \<Longrightarrow> cx_composable cx s slots"
  by (simp add: cx_composable_def summary_composable_def)

lemma scan_in_all: "scan_in cx slots ss fits = (True, f) \<Longrightarrow> 1 \<le> slots \<Longrightarrow> \<forall>s \<in> set ss. cx_composable cx s slots"
proof (induction ss arbitrary: fits)
  case (Cons s ss)
  then show ?case using composable_mono[of cx s slots] by (auto split: if_splits simp del: One_nat_def)
qed simp

lemma scan_out_all:
  "scan_out pe slots ins is' fits depth = Some (True, f, d) \<Longrightarrow> 1 \<le> slots \<Longrightarrow>
    \<forall>i \<in> set is'. \<exists>cx. edge_cx pe i = Some cx \<and> (\<forall>s \<in> set ins. cx_composable cx s slots)"
proof (induction is' arbitrary: fits depth)
  case (Cons i is')
  obtain cx where cx: "edge_cx pe i = Some cx" using Cons.prems(1) by (auto simp: bind_eq_Some_conv)
  obtain c g where s: "scan_in cx slots ins fits = (c, g)" by (cases "scan_in cx slots ins fits")
  have c: "c" "scan_out pe slots ins is' g (max (cx_depth cx) depth) = Some (True, f, d)"
    using Cons.prems(1) cx s by (auto simp: Let_def split: if_splits)
  then show ?case using Cons.IH[OF c(2) Cons.prems(2)] scan_in_all[of cx slots ins fits g] s cx Cons.prems(2) by auto
qed simp

lemma scan_out_total: "\<forall>i \<in> set is'. edge_cx pe i \<noteq> None \<Longrightarrow> scan_out pe slots ins is' fits depth \<noteq> None"
  by (induction is' arbitrary: fits depth) (auto simp: Let_def split: prod.splits)

section \<open>What the decision guarantees\<close>

definition cx_ok :: "shift \<Rightarrow> commit_cx \<Rightarrow> bool" where
  "cx_ok s cx \<longleftrightarrow> (\<exists>sm. summary_ok sm \<and> cx_shifts cx = summary_with sm s)"

text \<open>The context of an edge into an inlined definition extends those of the edges out of it, each of which
  the shift joins within two slots.\<close>

definition linked :: "shift \<Rightarrow> commit_cx \<Rightarrow> commit_cx \<Rightarrow> bool" where
  "linked s cx out \<longleftrightarrow> sm_len (summary_with (cx_shifts out) s) \<le> 2 \<and>
    (\<exists>sms. (\<forall>sm \<in> set sms. summary_ok sm) \<and> cx_shifts out \<in> set sms \<and> cx_shifts cx = summary_with (summary_union sms) s)"

lemma cx_ok_new [simp]: "cx_ok s (cx_new s)"
  by (auto simp: cx_ok_def cx_new_def summary_of_def intro: exI[of _ summary_default])

lemma cx_ok_summary: "cx_ok s cx \<Longrightarrow> summary_ok (cx_shifts cx)"
  by (auto simp: cx_ok_def)

lemma cx_ok_covers: "cx_ok s cx \<Longrightarrow> covers_seq (cx_shifts cx) (s, IDENTITY)"
  by (auto simp: cx_ok_def covers_fresh)

lemma linked_push:
  assumes "linked s cx out" "covers_seq (cx_shifts out) sq" "seq_wf sq" "shift_wf s"
  shows "push_inner sq s 2 \<noteq> Some OverBudget"
    and "push_inner sq s 2 = Some (Seq sq') \<Longrightarrow> covers_seq (cx_shifts cx) sq'"
proof -
  obtain sms where sms: "sm_len (summary_with (cx_shifts out) s) \<le> 2" "\<forall>sm \<in> set sms. summary_ok sm" "cx_shifts out \<in> set sms"
    "cx_shifts cx = summary_with (summary_union sms) s" using assms(1) by (auto simp: linked_def)
  then show "push_inner sq s 2 \<noteq> Some OverBudget" using push_inner_within[OF _ assms(2-4)] by blast
  show "covers_seq (cx_shifts cx) sq'" if "push_inner sq s 2 = Some (Seq sq')"
    unfolding sms(4)
    by (rule push_inner_covered[OF summary_union_ok[OF sms(2)] covers_union[OF sms(2,3) assms(2)] assms(3,4) that])
qed

definition decided :: "constraint_builder \<Rightarrow> le_graph \<Rightarrow> nat set \<Rightarrow> commit_cx option list \<times> wire set \<Rightarrow> bool" where
  "decided cb leg P st \<longleftrightarrow>
    (let pe = fst st; committed = snd st; es = le_edges leg in
     length pe = length es \<and> committed \<subseteq> {lin_dsts cb ! k |k. k < length (cb_linear cb) \<and> k \<in> P} \<and>
     (\<forall>i < length es. e_dst (es ! i) \<in> P \<longrightarrow> (\<exists>cx. pe ! i = Some cx \<and> cx_ok (e_shift (es ! i)) cx)) \<and>
     (\<forall>i < length es. \<forall>j < length es. e_dst (es ! i) \<in> P \<longrightarrow> e_dst (es ! i) < length (cb_linear cb) \<longrightarrow>
       lin_dsts cb ! e_dst (es ! i) \<notin> committed \<longrightarrow> e_src (es ! j) = e_dst (es ! i) \<longrightarrow>
       e_dst (es ! j) \<in> P \<and> (\<exists>cx out. pe ! i = Some cx \<and> pe ! j = Some out \<and> linked (e_shift (es ! i)) cx out)))"

lemma edge_facts:
  assumes "le_ok cb leg" "i < length (le_edges leg)"
  shows "e_dst (le_edges leg ! i) < length (le_nodes leg)" "shift_wf (e_shift (le_edges leg ! i))"
    "e_dst (le_edges leg ! i) < length (cb_linear cb) \<or> le_nodes leg ! e_dst (le_edges leg ! i) = Root"
proof -
  have "le_edges leg ! i \<in> set (le_edges leg)" using assms(2) by simp
  then show "e_dst (le_edges leg ! i) < length (le_nodes leg)" "shift_wf (e_shift (le_edges leg ! i))"
    "e_dst (le_edges leg ! i) < length (cb_linear cb) \<or> le_nodes leg ! e_dst (le_edges leg ! i) = Root"
    using assms(1) unfolding le_ok_def Let_def by blast+
qed

lemma decided_update:
  assumes ok: "le_ok cb leg" and d: "decided cb leg P (pe, C)" and v: "v \<notin> P"
    and succ: "\<And>j. j < length (le_edges leg) \<Longrightarrow> e_src (le_edges leg ! j) = v \<Longrightarrow> e_dst (le_edges leg ! j) \<in> P"
    and f: "\<And>i. i < length (le_edges leg) \<Longrightarrow> e_dst (le_edges leg ! i) = v \<Longrightarrow> cx_ok (e_shift (le_edges leg ! i)) (f (le_edges leg ! i))"
    and C: "C \<subseteq> C'" "C' \<subseteq> C \<union> {lin_dsts cb ! k |k. k < length (cb_linear cb) \<and> k = v}"
    and links: "\<And>i j out. i < length (le_edges leg) \<Longrightarrow> j < length (le_edges leg) \<Longrightarrow> e_dst (le_edges leg ! i) = v \<Longrightarrow>
      e_src (le_edges leg ! j) = v \<Longrightarrow> v < length (cb_linear cb) \<Longrightarrow> lin_dsts cb ! v \<notin> C' \<Longrightarrow> pe ! j = Some out \<Longrightarrow>
      linked (e_shift (le_edges leg ! i)) (f (le_edges leg ! i)) out"
  shows "decided cb leg (insert v P) (set_each f (incoming leg v) pe, C')"
proof -
  let ?es = "le_edges leg" and ?pe = "set_each f (incoming leg v) pe"
  have len: "length pe = length ?es" and sub: "C \<subseteq> {lin_dsts cb ! k |k. k < length (cb_linear cb) \<and> k \<in> P}"
    and cxs: "\<And>i. i < length ?es \<Longrightarrow> e_dst (?es ! i) \<in> P \<Longrightarrow> \<exists>cx. pe ! i = Some cx \<and> cx_ok (e_shift (?es ! i)) cx"
    and lnk: "\<And>i j. i < length ?es \<Longrightarrow> j < length ?es \<Longrightarrow> e_dst (?es ! i) \<in> P \<Longrightarrow> e_dst (?es ! i) < length (cb_linear cb) \<Longrightarrow>
      lin_dsts cb ! e_dst (?es ! i) \<notin> C \<Longrightarrow> e_src (?es ! j) = e_dst (?es ! i) \<Longrightarrow>
      e_dst (?es ! j) \<in> P \<and> (\<exists>cx out. pe ! i = Some cx \<and> pe ! j = Some out \<and> linked (e_shift (?es ! i)) cx out)"
    using d unfolding decided_def Let_def fst_conv snd_conv by blast+
  have at: "?pe ! i = (if e_dst (?es ! i) = v then Some (f (?es ! i)) else pe ! i)" if "i < length ?es" for i
    by (rule set_incoming_nth[OF that len])
  show ?thesis
    unfolding decided_def Let_def fst_conv snd_conv
  proof (intro conjI allI impI)
    show "length ?pe = length ?es" using len by simp
    show "C' \<subseteq> {lin_dsts cb ! k |k. k < length (cb_linear cb) \<and> k \<in> insert v P}" using C(2) sub by blast
    show "\<exists>cx. ?pe ! i = Some cx \<and> cx_ok (e_shift (?es ! i)) cx" if "i < length ?es" "e_dst (?es ! i) \<in> insert v P" for i
      using that at[OF that(1)] cxs[OF that(1)] f[OF that(1)] by auto
  next
    fix i j assume a: "i < length ?es" "j < length ?es" "e_dst (?es ! i) \<in> insert v P" "e_dst (?es ! i) < length (cb_linear cb)"
      "lin_dsts cb ! e_dst (?es ! i) \<notin> C'" "e_src (?es ! j) = e_dst (?es ! i)"
    have "e_dst (?es ! j) \<in> insert v P \<and> (\<exists>cx out. ?pe ! i = Some cx \<and> ?pe ! j = Some out \<and> linked (e_shift (?es ! i)) cx out)"
    proof (cases "e_dst (?es ! i) = v")
      case True
      then have P: "e_dst (?es ! j) \<in> P" using succ[OF a(2)] a(6) by simp
      then obtain out where out: "pe ! j = Some out" using cxs[OF a(2)] by blast
      have "linked (e_shift (?es ! i)) (f (?es ! i)) out"
        by (rule links[OF a(1,2) True]) (use True a(4-6) out in simp_all)
      moreover have "e_dst (?es ! j) \<noteq> v" using P v by blast
      ultimately show ?thesis using at[OF a(1)] at[OF a(2)] out True P by simp
    next
      case False
      then have "e_dst (?es ! i) \<in> P" "lin_dsts cb ! e_dst (?es ! i) \<notin> C" using a(3,5) C(1) by auto
      from lnk[OF a(1,2) this(1) a(4) this(2) a(6)] obtain cx out where l: "e_dst (?es ! j) \<in> P" "pe ! i = Some cx" "pe ! j = Some out"
        "linked (e_shift (?es ! i)) cx out" by blast
      moreover have "e_dst (?es ! j) \<noteq> v" using l(1) v by blast
      ultimately show ?thesis using at[OF a(1)] at[OF a(2)] False by simp
    qed
    then show "e_dst (?es ! j) \<in> insert v P"
      "\<exists>cx out. ?pe ! i = Some cx \<and> ?pe ! j = Some out \<and> linked (e_shift (?es ! i)) cx out" by blast+
  qed
qed

lemma decide_node_ok:
  assumes fus: "fusable cb" and ok: "le_ok cb leg" and d: "decided cb leg P (pe, C)" and v: "v \<notin> P" "v < length (le_nodes leg)"
    and succ: "\<And>j. j < length (le_edges leg) \<Longrightarrow> e_src (le_edges leg ! j) = v \<Longrightarrow> e_dst (le_edges leg ! j) \<in> P"
  shows "\<exists>pe' C'. decide_node 2 leg v (pe, C) = Some (pe', C') \<and> decided cb leg (insert v P) (pe', C')"
proof -
  let ?es = "le_edges leg" and ?n = "length (cb_linear cb)" and ?new = "\<lambda>e. cx_new (e_shift e)"
  let ?ins = "incoming leg v" and ?outs = "outcoming leg v"
  have node: "read_at (le_nodes leg) v = Some (le_nodes leg ! v)" using v(2) by (simp add: read_at_def)
  have lk: "v < ?n \<Longrightarrow> le_nodes leg ! v = LinDef v" and ok': "?n \<le> v \<Longrightarrow> le_nodes leg ! v = Root \<or> le_nodes leg ! v = Opaque"
    and defs: "lin_defs leg = lin_dsts cb"
    using ok v(2) unfolding le_ok_def Let_def by blast+
  have upd: "decided cb leg (insert v P) (set_each ?new ?ins pe, C')"
    if "C \<subseteq> C'" "C' \<subseteq> C \<union> {lin_dsts cb ! k |k. k < ?n \<and> k = v}" "v < ?n \<Longrightarrow> lin_dsts cb ! v \<in> C'" for C'
    by (rule decided_update[OF ok d v(1) succ cx_ok_new that(1,2)]) (use that(3) in simp_all)
  show ?thesis
  proof (cases "v < ?n")
    case False
    then consider "le_nodes leg ! v = Root" | "le_nodes leg ! v = Opaque" using ok' by fastforce
    then show ?thesis
    proof cases
      case 1
      then show ?thesis using upd[of C] False node by (simp add: decide_node_def Let_def)
    next
      case 2
      have "?ins = []"
      proof (rule ccontr)
        assume "?ins \<noteq> []"
        then obtain i e where "(i, e) \<in> set ?ins" by (cases ?ins) auto
        then show False using edge_facts(3)[OF ok, of i] 2 False by (auto simp: in_incoming)
      qed
      then have "set_each ?new ?ins pe = pe" by (simp add: set_each_def)
      then show ?thesis using upd[of C] 2 False node by (simp add: decide_node_def Let_def)
    qed
  next
    case True
    let ?w = "lin_dsts cb ! v"
    have len: "length pe = length ?es"
      and cxs: "\<And>i. i < length ?es \<Longrightarrow> e_dst (?es ! i) \<in> P \<Longrightarrow> \<exists>cx. pe ! i = Some cx \<and> cx_ok (e_shift (?es ! i)) cx"
      and sub: "C \<subseteq> {lin_dsts cb ! k |k. k < ?n \<and> k \<in> P}"
      using d unfolding decided_def Let_def fst_conv snd_conv by blast+
    have w: "read_at (lin_defs leg) v = Some ?w" using True defs by (simp add: read_at_def dsts_len)
    have fresh: "?w \<notin> C"
    proof
      assume "?w \<in> C"
      then obtain k where "k < ?n" "k \<in> P" "?w = lin_dsts cb ! k" using sub by blast
      then show False using dsts_inj[OF fus True, of k] v(1) by simp
    qed
    have out: "\<exists>cx. edge_cx pe j = Some cx \<and> pe ! j = Some cx \<and> cx_ok (e_shift (?es ! j)) cx" if "(j, e) \<in> set ?outs" for j e
    proof -
      have j: "j < length ?es" "e_src (?es ! j) = v" using that by (auto simp: in_outcoming)
      then obtain cx where "pe ! j = Some cx" "cx_ok (e_shift (?es ! j)) cx" using cxs succ by blast
      then show ?thesis using j(1) len by (simp add: edge_cx_def read_at_def)
    qed
    have "scan_out pe 2 (map (\<lambda>(i, e). e_shift e) ?ins) (map fst ?outs) True 0 \<noteq> None"
      by (rule scan_out_total) (use out in fastforce)
    then obtain c fits depth where scan: "scan_out pe 2 (map (\<lambda>(i, e). e_shift e) ?ins) (map fst ?outs) True 0 = Some (c, fits, depth)" by auto
    define bad where "bad \<longleftrightarrow> (depth > MAX_DEPTH \<and> length ?ins \<noteq> 1) \<or> \<not> c \<or> (\<not> fits \<and> (length ?ins - 1) * (length ?outs - 1) > MAX_TERM_GROWTH)"
    show ?thesis
    proof (cases bad)
      case bad: True
      have "decide_node 2 leg v (pe, C) = Some (set_each ?new ?ins pe, insert ?w C)"
        using node lk[OF True] w scan fresh bad by (auto simp: decide_node_def Let_def bad_def)
      moreover have "decided cb leg (insert v P) (set_each ?new ?ins pe, insert ?w C)"
        by (rule upd) (use True in auto)
      ultimately show ?thesis by blast
    next
      case False
      then have c: c by (simp add: bad_def)
      have all: "\<forall>j \<in> set (map fst ?outs). \<exists>cx. edge_cx pe j = Some cx \<and> (\<forall>s \<in> set (map (\<lambda>(i, e). e_shift e) ?ins). cx_composable cx s 2)"
        by (rule scan_out_all[OF scan[unfolded eqTrueI[OF c]]]) simp
      let ?cxs = "map (\<lambda>(j, e). the (edge_cx pe j)) ?outs"
      have those: "those (map (\<lambda>(i, e). edge_cx pe i) ?outs) = Some ?cxs"
        by (rule those_map_Some) (use out in fastforce)
      let ?f = "\<lambda>e. cx_add (cx_join ?cxs) (e_shift e)"
      have "decide_node 2 leg v (pe, C) = Some (set_each ?f ?ins pe, C)"
        using node lk[OF True] w scan those False by (auto simp: decide_node_def Let_def bad_def)
      moreover have "decided cb leg (insert v P) (set_each ?f ?ins pe, C)"
      proof (rule decided_update[OF ok d v(1) succ])
        let ?sms = "map cx_shifts ?cxs"
        have sms: "\<forall>sm \<in> set ?sms. summary_ok sm"
          using out cx_ok_summary by fastforce
        have shifts: "cx_shifts (?f e) = summary_with (summary_union ?sms) (e_shift e)" for e
          by (simp add: cx_add_def cx_join_def)
        show "cx_ok (e_shift (?es ! i)) (?f (?es ! i))" for i
          unfolding cx_ok_def shifts using summary_union_ok[OF sms] by blast
        show "linked (e_shift (?es ! i)) (?f (?es ! i)) ot"
          if ij: "i < length ?es" "j < length ?es" "e_dst (?es ! i) = v" "e_src (?es ! j) = v" "pe ! j = Some ot" for i j ot
        proof -
          have j: "(j, ?es ! j) \<in> set ?outs" and i: "(i, ?es ! i) \<in> set ?ins" using ij by (simp_all add: in_outcoming in_incoming)
          have jc: "edge_cx pe j = Some ot" using out[OF j] ij(5) by auto
          have "e_shift (?es ! i) \<in> set (map (\<lambda>(i, e). e_shift e) ?ins)" "j \<in> set (map fst ?outs)" using i j by force+
          then have "cx_composable ot (e_shift (?es ! i)) 2" using all jc by fastforce
          moreover have "cx_shifts ot \<in> set ?sms" using j jc by (force simp: image_iff)
          ultimately show ?thesis
            unfolding linked_def shifts cx_composable_def summary_composable_def using sms by blast
        qed
      qed auto
      ultimately show ?thesis by blast
    qed
  qed
qed

section \<open>The whole traversal\<close>

definition node_rank :: "constraint_builder \<Rightarrow> le_graph \<Rightarrow> nat \<Rightarrow> nat" where
  "node_rank cb leg m = (if m < length (cb_linear cb) then Suc m else if m \<in> set (le_opaque leg) then 0 else Suc (length (cb_linear cb)))"

lemma pairs_ranked:
  assumes ok: "le_ok cb leg" and e: "(u, v) \<in> set (edge_pairs leg)"
  shows "node_rank cb leg u < node_rank cb leg v" "v < length (le_nodes leg)"
proof -
  let ?n = "length (cb_linear cb)"
  obtain e where e: "e \<in> set (le_edges leg)" "e_src e = u" "e_dst e = v" using e by (auto simp: edge_pairs_def)
  then have f: "v < length (le_nodes leg)" "v < ?n \<and> (u < v \<or> u \<in> set (le_opaque leg)) \<or> u < ?n \<and> le_nodes leg ! v = Root"
    using ok unfolding le_ok_def Let_def by blast+
  have opq: "m \<in> set (le_opaque leg) \<Longrightarrow> le_nodes leg ! m = Opaque" and lin: "m < ?n \<Longrightarrow> le_nodes leg ! m = LinDef m" for m
    using ok unfolding le_ok_def Let_def by blast+
  have big: "\<not> m < ?n" if "m \<in> set (le_opaque leg)" for m using opq[OF that] lin[of m] by auto
  from f(2) show "node_rank cb leg u < node_rank cb leg v"
  proof (elim disjE conjE)
    assume "u < ?n" "le_nodes leg ! v = Root"
    moreover have "\<not> v < ?n" using calculation(2) lin[of v] by auto
    moreover have "v \<notin> set (le_opaque leg)" using calculation(2) opq[of v] by auto
    ultimately show ?thesis by (simp add: node_rank_def)
  next
    assume "v < ?n" "u \<in> set (le_opaque leg)"
    then show ?thesis using big by (simp add: node_rank_def)
  qed (simp add: node_rank_def)
  show "v < length (le_nodes leg)" by (rule f(1))
qed

lemma pairs_acyclic:
  assumes "le_ok cb leg"
  shows "acyclic (set (edge_pairs leg))"
proof (rule acyclic_subset)
  show "set (edge_pairs leg) \<subseteq> measure (node_rank cb leg)" using pairs_ranked(1)[OF assms] by auto
  show "acyclic (measure (node_rank cb leg))" by (rule wf_acyclic) simp
qed

lemma defs_visited:
  assumes fus: "fusable cb" and ok: "le_ok cb leg" and noted: "all_noted cb leg" and k: "k < length (cb_linear cb)"
  shows "\<exists>s \<in> set (le_opaque leg). (s, k) \<in> (set (edge_pairs leg))\<^sup>*"
  using k
proof (induction k rule: less_induct)
  case (less k)
  obtain t where t: "t \<in> set (lin_terms cb k)" using fus less.prems by (cases "lin_terms cb k") (auto simp: fusable_def)
  have "lin_noted cb k t leg" using noted less.prems t by (simp add: all_noted_def)
  then obtain e where e: "e \<in> set (le_edges leg)" "e_dst e = k" by (auto simp: lin_noted_def)
  then have edge: "(e_src e, k) \<in> set (edge_pairs leg)" by (force simp: edge_pairs_def)
  have "le_nodes leg ! k \<noteq> Root" using ok less.prems unfolding le_ok_def Let_def by (metis node_kind.distinct(1))
  then consider "e_src e < k" | "e_src e \<in> set (le_opaque leg)"
    using ok e unfolding le_ok_def Let_def by blast
  then show ?case
  proof cases
    case 1
    then obtain s where "s \<in> set (le_opaque leg)" "(s, e_src e) \<in> (set (edge_pairs leg))\<^sup>*" using less.IH less.prems by fastforce
    then show ?thesis using edge by (meson rtrancl.rtrancl_into_rtrancl)
  next
    case 2
    then show ?thesis using edge by blast
  qed
qed

lemma visited_nodes:
  assumes ok: "le_ok cb leg" and s: "s \<in> set (le_opaque leg)" "(s, v) \<in> (set (edge_pairs leg))\<^sup>*"
  shows "v < length (le_nodes leg)"
  using s(2)
proof (cases rule: rtranclE)
  case base
  then show ?thesis using ok s(1) unfolding le_ok_def Let_def by blast
next
  case (step u)
  then show ?thesis using pairs_ranked(2)[OF ok] by blast
qed

text \<open>Every definition is decided, after its consumers.\<close>

lemma decide_ok:
  assumes fus: "fusable cb" and inv: "le_inv cb leg" and noted: "all_noted cb leg"
    and post: "visits (edge_pairs leg) (le_opaque leg) (post (edge_pairs leg) (le_opaque leg))"
  obtains pe C P where "run_decide_commit_set post leg 2 = Some (leg\<lparr>lin_committed := C\<rparr>)" "decided cb leg P (pe, C)"
    "\<And>v. v < length (cb_linear cb) \<Longrightarrow> v \<in> P" "\<And>u v. u \<in> P \<Longrightarrow> (u, v) \<in> set (edge_pairs leg) \<Longrightarrow> v \<in> P"
proof -
  let ?vs = "post (edge_pairs leg) (le_opaque leg)" and ?es = "le_edges leg"
  let ?st = "(replicate (length ?es) None, lin_committed leg)"
  have ok: "le_ok cb leg" using inv by (simp add: le_inv_def)
  have vs: "distinct ?vs" "set ?vs = {v. \<exists>s \<in> set (le_opaque leg). (s, v) \<in> (set (edge_pairs leg))\<^sup>*}"
    "\<And>i v. i < length ?vs \<Longrightarrow> (?vs ! i, v) \<in> set (edge_pairs leg) \<Longrightarrow> v \<in> set (take i ?vs)"
    using post pairs_acyclic[OF ok] by (auto simp: visits_def)
  have none: "lin_committed leg = {}" using ok unfolding le_ok_def Let_def by blast
  have run: "i \<le> length ?vs \<Longrightarrow> \<exists>pe C. each (decide_node 2 leg) (take i ?vs) ?st = Some (pe, C) \<and> decided cb leg (set (take i ?vs)) (pe, C)" for i
  proof (induction i)
    case 0
    then show ?case by (simp add: decided_def none)
  next
    case (Suc i)
    then obtain pe C where IH: "each (decide_node 2 leg) (take i ?vs) ?st = Some (pe, C)" "decided cb leg (set (take i ?vs)) (pe, C)" by auto
    have i: "i < length ?vs" using Suc.prems by simp
    have "?vs ! i \<in> set ?vs" using i by simp
    then have "?vs ! i < length (le_nodes leg)" using vs(2) visited_nodes[OF ok] by auto
    moreover have "?vs ! i \<notin> set (take i ?vs)" using vs(1) i by (auto simp: in_set_conv_nth nth_eq_iff_index_eq)
    moreover have "e_dst (?es ! j) \<in> set (take i ?vs)" if "j < length ?es" "e_src (?es ! j) = ?vs ! i" for j
      by (rule vs(3)[OF i]) (use that in \<open>force simp: edge_pairs_def\<close>)
    ultimately obtain pe' C' where "decide_node 2 leg (?vs ! i) (pe, C) = Some (pe', C')"
      "decided cb leg (insert (?vs ! i) (set (take i ?vs))) (pe', C')"
      using decide_node_ok[OF fus ok IH(2)] by blast
    moreover have "take (Suc i) ?vs = take i ?vs @ [?vs ! i]" using i by (simp add: take_Suc_conv_app_nth)
    ultimately show ?case using IH(1) by (simp add: each_append)
  qed
  from run[OF order_refl] obtain pe C where pc: "each (decide_node 2 leg) ?vs ?st = Some (pe, C)" "decided cb leg (set ?vs) (pe, C)" by auto
  show ?thesis
  proof (rule that[of C "set ?vs" pe])
    show "run_decide_commit_set post leg 2 = Some (leg\<lparr>lin_committed := C\<rparr>)" by (simp add: run_decide_commit_set_def pc(1))
    show "v \<in> set ?vs" if "v < length (cb_linear cb)" for v using defs_visited[OF fus ok noted that] vs(2) by simp
    show "v \<in> set ?vs" if "u \<in> set ?vs" "(u, v) \<in> set (edge_pairs leg)" for u v
      using that vs(2) by (auto intro: rtrancl.rtrancl_into_rtrancl)
  qed (rule pc(2))
qed

end
