(* ===== verification/Fusion_Patch.thy ===== *)
theory Fusion_Patch
  imports Commit_Set
begin

text \<open>
  The rebuilt constraints of fusion (\<open>pass/fusion/patch.rs\<close>) and the pass itself
  (\<open>pass/fusion/mod.rs\<close>).  Every operand that reaches an inlined definition is rebuilt at the end of
  the arena, walking the definitions with a stack of wires and the shifts accumulated to them.
  \<open>None\<close> is a panic.
\<close>

section \<open>Definitions\<close>

definition LOWERED_SHIFT_SLOTS :: nat where "LOWERED_SHIFT_SLOTS = 2"

datatype added_constraint =
  AddAnd wire_and | AddImul wire_imul | AddBmul wire_bmul | AddZero wire_zero | AddLinear wire_linear

record patch =
  subsumes :: "constraint_ref list"
  added :: added_constraint

type_synonym pending_terms = "(wire \<times> shift \<times> shift) list"

definition push_inner_term :: "constraint_builder \<Rightarrow> wire_operand \<Rightarrow> shift \<times> shift \<Rightarrow> nat \<Rightarrow> pending_terms \<Rightarrow> pending_terms option" where
  "push_inner_term cb inner sq i pending = do {
    t \<leftarrow> cb_term cb inner i;
    s \<leftarrow> sole_shift t;
    r \<leftarrow> push_inner sq s LOWERED_SHIFT_SLOTS;
    case r of
      Seq composed \<Rightarrow> Some ((sw_wire t, composed) # pending)
    | Zero \<Rightarrow> Some pending
    | OverBudget \<Rightarrow> None
  }"

partial_function (option) process_pending ::
  "le_graph \<Rightarrow> pending_terms \<Rightarrow> constraint_builder \<Rightarrow> constraint_ref list \<Rightarrow> (constraint_builder \<times> constraint_ref list) option" where
  "process_pending leg pending cb subs =
    (case pending of
       [] \<Rightarrow> Some (cb, subs)
     | (w, sq) # pending \<Rightarrow>
         if w \<in> lin_committed leg \<or> \<not> is_lin_def leg w then
           process_pending leg pending (push_term \<lparr>sw_wire = w, sw_seq = sq\<rparr> cb) subs
         else do {
           inner \<leftarrow> lin_def_operand leg cb w;
           ref \<leftarrow> lin_def_constraint_ref leg w;
           pending \<leftarrow> each (push_inner_term cb inner sq) (rev [0..<op_len inner]) pending;
           process_pending leg pending cb (subs @ [ref])
         })"

declare process_pending.simps [code]

definition process_term :: "le_graph \<Rightarrow> wire \<Rightarrow> shift \<times> shift \<Rightarrow> constraint_builder \<times> constraint_ref list \<Rightarrow>
    (constraint_builder \<times> constraint_ref list) option" where
  "process_term leg w sq st = process_pending leg [(w, sq)] (fst st) (snd st)"

definition process_operand :: "le_graph \<Rightarrow> wire_operand \<Rightarrow> constraint_builder \<times> constraint_ref list \<Rightarrow>
    (wire_operand \<times> constraint_builder \<times> constraint_ref list) option" where
  "process_operand leg old st = do {
    let start = next_term_start (fst st);
    st \<leftarrow> each (\<lambda>i st. Option.bind (cb_term (fst st) old i) (\<lambda>t. process_term leg (sw_wire t) (sw_seq t) st)) [0..<op_len old] st;
    o' \<leftarrow> operand_since (fst st) start;
    Some (o', st)
  }"

fun build_root_patch :: "le_graph \<Rightarrow> constraint_ref \<Rightarrow> constraint_builder \<Rightarrow> (patch \<times> constraint_builder) option" where
  "build_root_patch leg (RefAnd index) cb = do {
    old \<leftarrow> read_at (cb_and cb) index;
    (a, st) \<leftarrow> process_operand leg (wa_a old) (cb, [RefAnd index]);
    (b, st) \<leftarrow> process_operand leg (wa_b old) st;
    (c, st) \<leftarrow> process_operand leg (wa_c old) st;
    Some (\<lparr>subsumes = remdups_adj (sort (snd st)), added = AddAnd \<lparr>wa_a = a, wa_b = b, wa_c = c\<rparr>\<rparr>, fst st)
  }"
| "build_root_patch leg (RefImul index) cb = do {
    old \<leftarrow> read_at (cb_imul cb) index;
    (a, st) \<leftarrow> process_operand leg (wi_a old) (cb, [RefImul index]);
    (b, st) \<leftarrow> process_operand leg (wi_b old) st;
    (lo, st) \<leftarrow> process_operand leg (wi_lo old) st;
    (hi, st) \<leftarrow> process_operand leg (wi_hi old) st;
    Some (\<lparr>subsumes = remdups_adj (sort (snd st)), added = AddImul \<lparr>wi_a = a, wi_b = b, wi_hi = hi, wi_lo = lo\<rparr>\<rparr>, fst st)
  }"
| "build_root_patch leg (RefBmul index) cb = do {
    old \<leftarrow> read_at (cb_bmul cb) index;
    (a_lo, st) \<leftarrow> process_operand leg (wb_a_lo old) (cb, [RefBmul index]);
    (a_hi, st) \<leftarrow> process_operand leg (wb_a_hi old) st;
    (b_lo, st) \<leftarrow> process_operand leg (wb_b_lo old) st;
    (b_hi, st) \<leftarrow> process_operand leg (wb_b_hi old) st;
    (c_lo, st) \<leftarrow> process_operand leg (wb_c_lo old) st;
    (c_hi, st) \<leftarrow> process_operand leg (wb_c_hi old) st;
    Some (\<lparr>subsumes = remdups_adj (sort (snd st)), added = AddBmul \<lparr>wb_a_lo = a_lo, wb_a_hi = a_hi, wb_b_lo = b_lo,
      wb_b_hi = b_hi, wb_c_lo = c_lo, wb_c_hi = c_hi\<rparr>\<rparr>, fst st)
  }"
| "build_root_patch leg (RefZero index) cb = do {
    old \<leftarrow> read_at (cb_zero cb) index;
    (val, st) \<leftarrow> process_operand leg (wz_val old) (cb, [RefZero index]);
    Some (\<lparr>subsumes = remdups_adj (sort (snd st)), added = AddZero \<lparr>wz_val = val\<rparr>\<rparr>, fst st)
  }"
| "build_root_patch leg (RefLinear index) cb = None"

definition build_committed_lin_def_patch :: "le_graph \<Rightarrow> wire \<Rightarrow> constraint_builder \<Rightarrow> (patch \<times> constraint_builder) option" where
  "build_committed_lin_def_patch leg root cb = do {
    ref \<leftarrow> lin_def_constraint_ref leg root;
    old \<leftarrow> lin_def_operand leg cb root;
    (rhs, st) \<leftarrow> process_operand leg old (cb, [ref]);
    Some (\<lparr>subsumes = snd st, added = AddLinear \<lparr>wl_rhs = rhs, wl_dst = root\<rparr>\<rparr>, fst st)
  }"

definition add_patch :: "('a \<Rightarrow> constraint_builder \<Rightarrow> (patch \<times> constraint_builder) option) \<Rightarrow> 'a \<Rightarrow>
    patch list \<times> constraint_builder \<Rightarrow> (patch list \<times> constraint_builder) option" where
  "add_patch f x st = map_option (\<lambda>(p, cb). (fst st @ [p], cb)) (f x (snd st))"

definition build_root_patches :: "le_graph \<Rightarrow> patch list \<times> constraint_builder \<Rightarrow> (patch list \<times> constraint_builder) option" where
  "build_root_patches leg st = each (add_patch (build_root_patch leg)) (remdups_adj (sort (le_roots leg))) st"

definition build_patches :: "constraint_builder \<Rightarrow> le_graph \<Rightarrow> (patch list \<times> constraint_builder) option" where
  "build_patches cb leg = do {
    st \<leftarrow> build_root_patches leg ([], cb);
    each (add_patch (build_committed_lin_def_patch leg)) (sorted_list_of_set (lin_committed leg)) st
  }"

section \<open>Applying patches\<close>

record subsumed_flags =
  sf_and :: "bool list"
  sf_imul :: "bool list"
  sf_bmul :: "bool list"
  sf_zero :: "bool list"
  sf_linear :: "bool list"

definition flag_at :: "bool list \<Rightarrow> nat \<Rightarrow> bool list option" where
  "flag_at flags i = (if i < length flags then Some (flags[i := True]) else None)"

fun flag_subsumed :: "constraint_ref \<Rightarrow> subsumed_flags \<Rightarrow> subsumed_flags option" where
  "flag_subsumed (RefAnd i) f = map_option (\<lambda>l. f\<lparr>sf_and := l\<rparr>) (flag_at (sf_and f) i)"
| "flag_subsumed (RefImul i) f = map_option (\<lambda>l. f\<lparr>sf_imul := l\<rparr>) (flag_at (sf_imul f) i)"
| "flag_subsumed (RefBmul i) f = map_option (\<lambda>l. f\<lparr>sf_bmul := l\<rparr>) (flag_at (sf_bmul f) i)"
| "flag_subsumed (RefZero i) f = map_option (\<lambda>l. f\<lparr>sf_zero := l\<rparr>) (flag_at (sf_zero f) i)"
| "flag_subsumed (RefLinear i) f = map_option (\<lambda>l. f\<lparr>sf_linear := l\<rparr>) (flag_at (sf_linear f) i)"

definition retain_unsubsumed :: "'c list \<Rightarrow> bool list \<Rightarrow> 'c list" where
  "retain_unsubsumed cs flags = map fst (filter (\<lambda>(c, subsumed). \<not> subsumed) (zip cs flags))"

definition apply_patches :: "constraint_builder \<Rightarrow> patch list \<Rightarrow> constraint_builder option" where
  "apply_patches cb patches = do {
    f \<leftarrow> each flag_subsumed (concat (map subsumes patches))
      \<lparr>sf_and = replicate (length (cb_and cb)) False, sf_imul = replicate (length (cb_imul cb)) False,
       sf_bmul = replicate (length (cb_bmul cb)) False, sf_zero = replicate (length (cb_zero cb)) False,
       sf_linear = replicate (length (cb_linear cb)) False\<rparr>;
    let new = map added patches;
    Some (cb\<lparr>
      cb_and := retain_unsubsumed (cb_and cb) (sf_and f) @ List.map_filter (\<lambda>a. case a of AddAnd c \<Rightarrow> Some c | _ \<Rightarrow> None) new,
      cb_imul := retain_unsubsumed (cb_imul cb) (sf_imul f) @ List.map_filter (\<lambda>a. case a of AddImul c \<Rightarrow> Some c | _ \<Rightarrow> None) new,
      cb_bmul := retain_unsubsumed (cb_bmul cb) (sf_bmul f) @ List.map_filter (\<lambda>a. case a of AddBmul c \<Rightarrow> Some c | _ \<Rightarrow> None) new,
      cb_zero := retain_unsubsumed (cb_zero cb) (sf_zero f) @ List.map_filter (\<lambda>a. case a of AddZero c \<Rightarrow> Some c | _ \<Rightarrow> None) new,
      cb_linear := retain_unsubsumed (cb_linear cb) (sf_linear f) @ List.map_filter (\<lambda>a. case a of AddLinear c \<Rightarrow> Some c | _ \<Rightarrow> None) new\<rparr>)
  }"

definition fusion_run_pass :: "post_order \<Rightarrow> wire set \<Rightarrow> constraint_builder \<Rightarrow> constraint_builder option" where
  "fusion_run_pass post pinned cb = do {
    leg \<leftarrow> le_new cb;
    leg \<leftarrow> run_decide_commit_set post leg LOWERED_SHIFT_SLOTS;
    let leg = leg\<lparr>lin_committed := lin_committed leg \<union> {w \<in> pinned. is_lin_def leg w}\<rparr>;
    (patches, cb) \<leftarrow> build_patches cb leg;
    apply_patches cb patches
  }"

section \<open>Inlining as a function\<close>

text \<open>The terms a wire under a shift sequence comes to once the definitions below the \<open>k\<close>-th that are not
  committed are inlined.\<close>

primrec expand :: "constraint_builder \<Rightarrow> wire set \<Rightarrow> nat \<Rightarrow> wire \<Rightarrow> shift \<times> shift \<Rightarrow> shifted_wire list" where
  "expand cb C 0 w sq = [\<lparr>sw_wire = w, sw_seq = sq\<rparr>]"
| "expand cb C (Suc k) w sq =
    (if w = lin_dsts cb ! k \<and> w \<notin> C then
       concat (map (\<lambda>t. case push_inner sq (fst (sw_seq t)) 2 of Some (Seq sq') \<Rightarrow> expand cb C k (sw_wire t) sq' | _ \<Rightarrow> [])
         (lin_terms cb k))
     else expand cb C k w sq)"

text \<open>Sequences that may arrive at an inlined definition: each of its terms joins them within two slots.\<close>

definition inlinable :: "constraint_builder \<Rightarrow> wire set \<Rightarrow> (nat \<Rightarrow> shift \<times> shift \<Rightarrow> bool) \<Rightarrow> bool" where
  "inlinable cb C arrives \<longleftrightarrow> (\<forall>j < length (cb_linear cb). \<forall>sq. lin_dsts cb ! j \<notin> C \<longrightarrow> arrives j sq \<longrightarrow> seq_wf sq \<longrightarrow>
    (\<forall>t \<in> set (lin_terms cb j). push_inner sq (fst (sw_seq t)) 2 \<noteq> Some OverBudget \<and>
      (\<forall>sq' i. push_inner sq (fst (sw_seq t)) 2 = Some (Seq sq') \<longrightarrow> i < length (cb_linear cb) \<longrightarrow> lin_dsts cb ! i = sw_wire t \<longrightarrow> arrives i sq')))"

definition term_ready :: "constraint_builder \<Rightarrow> wire set \<Rightarrow> (nat \<Rightarrow> shift \<times> shift \<Rightarrow> bool) \<Rightarrow> nat \<Rightarrow> wire \<Rightarrow> shift \<times> shift \<Rightarrow> bool" where
  "term_ready cb C arrives k w sq \<longleftrightarrow> seq_wf sq \<and>
    (\<forall>j < length (cb_linear cb). lin_dsts cb ! j = w \<longrightarrow> w \<notin> C \<longrightarrow> j < k \<and> arrives j sq)"

text \<open>Valuations that meet the inlined definitions.\<close>

definition meets :: "constraint_builder \<Rightarrow> wire set \<Rightarrow> (wire \<Rightarrow> u64) \<Rightarrow> bool" where
  "meets cb C \<sigma> \<longleftrightarrow> (\<forall>j < length (cb_linear cb). lin_dsts cb ! j \<notin> C \<longrightarrow> terms_val \<sigma> (lin_terms cb j) = \<sigma> (lin_dsts cb ! j))"

lemma shift_apply_xor:
  assumes "valid_shift s"
  shows "shift_apply s (a XOR b) = shift_apply s a XOR shift_apply s b"
proof (rule bit_word_eqI)
  fix i
  show "bit (shift_apply s (a XOR b)) i = bit (shift_apply s a XOR shift_apply s b) i"
    by (cases "shift_src (variant s) (amt s) i") (auto simp: bit_shift_apply[OF assms] bit_xor_iff)
qed

lemma seq_wf_valid: "seq_wf sq \<Longrightarrow> valid_shift (fst sq) \<and> valid_shift (snd sq)"
  by (simp add: seq_wf_def shift_wf_def)

lemma seq_apply_xor: "seq_wf sq \<Longrightarrow> seq_apply sq (a XOR b) = seq_apply sq a XOR seq_apply sq b"
  using seq_wf_valid[of sq] by (simp add: seq_apply_def shift_apply_xor)

lemma seq_apply_zero: "seq_wf sq \<Longrightarrow> seq_apply sq 0 = 0"
  using seq_wf_valid[of sq] by (simp add: seq_apply_def shift_apply_zero)

text \<open>The one step all inductions over inlining share.\<close>

lemma inline_step:
  assumes fus: "fusable cb" and inl: "inlinable cb C arrives" and k: "k < length (cb_linear cb)"
    and ready: "term_ready cb C arrives (Suc k) (lin_dsts cb ! k) sq" and C: "lin_dsts cb ! k \<notin> C" and t: "t \<in> set (lin_terms cb k)"
  obtains (seq) sq' where "push_inner sq (fst (sw_seq t)) 2 = Some (Seq sq')" "term_ready cb C arrives k (sw_wire t) sq'"
      "\<And>w. seq_apply sq' w = seq_apply sq (shift_apply (fst (sw_seq t)) w)" "seq_wf sq'"
    | (zero) "push_inner sq (fst (sw_seq t)) 2 = Some Zero" "\<And>w. seq_apply sq (shift_apply (fst (sw_seq t)) w) = 0"
proof -
  have sq: "seq_wf sq" "arrives k sq" using ready k C by (auto simp: term_ready_def)
  have s: "shift_wf (fst (sw_seq t))" using fusable_term(2)[OF fus] t by (simp add: lin_terms_def)
  obtain p where p: "push_inner sq (fst (sw_seq t)) 2 = Some p"
    "case p of Seq sq' \<Rightarrow> valid_shift (fst sq') \<and> valid_shift (snd sq') \<and> (\<forall>w. seq_apply sq' w = seq_apply sq (shift_apply (fst (sw_seq t)) w))
       | Zero \<Rightarrow> \<forall>w. seq_apply sq (shift_apply (fst (sw_seq t)) w) = 0
       | OverBudget \<Rightarrow> compose (fst (sw_seq t)) (fst sq) = Some CompPair \<and> (2 < (2 :: nat) \<or> \<not> is_identity (snd sq))"
    using push_inner_sound[of sq "fst (sw_seq t)" 2] seq_wf_valid[OF sq(1)] s by (auto simp: shift_wf_def)
  have no: "push_inner sq (fst (sw_seq t)) 2 \<noteq> Some OverBudget"
    and next': "\<And>sq' i. push_inner sq (fst (sw_seq t)) 2 = Some (Seq sq') \<Longrightarrow> i < length (cb_linear cb) \<Longrightarrow> lin_dsts cb ! i = sw_wire t \<Longrightarrow> arrives i sq'"
    using inl k C sq t unfolding inlinable_def by blast+
  show ?thesis
  proof (cases p)
    case (Seq sq')
    have wf: "seq_wf sq'" by (rule push_inner_wf[OF sq(1) s p(1)[unfolded Seq]])
    have "i < k" if "i < length (cb_linear cb)" "lin_dsts cb ! i = sw_wire t" for i
    proof (rule ccontr)
      assume "\<not> i < k"
      then have "lin_dsts cb ! i \<in> set (drop k (lin_dsts cb))"
        using that(1) dsts_len[of cb] by (auto simp: in_set_conv_nth intro!: exI[of _ "i - k"])
      then show False using fus k t that(2) by (auto simp: fusable_def)
    qed
    then have "term_ready cb C arrives k (sw_wire t) sq'" using wf next' p(1) Seq by (auto simp: term_ready_def)
    then show ?thesis using seq p Seq wf by simp
  next
    case Zero
    then show ?thesis using zero p by simp
  next
    case OverBudget
    then show ?thesis using no p(1) by simp
  qed
qed

lemma ready_below:
  assumes "fusable cb" "k < length (cb_linear cb)" "term_ready cb C arrives (Suc k) w sq" "\<not> (w = lin_dsts cb ! k \<and> w \<notin> C)"
  shows "term_ready cb C arrives k w sq"
proof -
  have "j < k" if "j < length (cb_linear cb)" "lin_dsts cb ! j = w" "w \<notin> C" for j
    using assms that by (auto simp: term_ready_def less_Suc_eq)
  then show ?thesis using assms(3) by (auto simp: term_ready_def)
qed

lemma terms_val_concat:
  "seq_wf sq \<Longrightarrow> (\<And>t. t \<in> set ts \<Longrightarrow> terms_val \<sigma> (f t) = seq_apply sq (sw_val \<sigma> t)) \<Longrightarrow>
    terms_val \<sigma> (concat (map f ts)) = seq_apply sq (terms_val \<sigma> ts)"
  by (induction ts) (simp_all add: seq_apply_zero seq_apply_xor)

lemma expand_val:
  assumes fus: "fusable cb" and inl: "inlinable cb C arrives" and m: "meets cb C \<sigma>"
  shows "k \<le> length (cb_linear cb) \<Longrightarrow> term_ready cb C arrives k w sq \<Longrightarrow> terms_val \<sigma> (expand cb C k w sq) = seq_apply sq (\<sigma> w)"
proof (induction k arbitrary: w sq)
  case 0
  then show ?case by (simp add: sw_val_def)
next
  case (Suc k)
  have k: "k < length (cb_linear cb)" using Suc.prems(1) by simp
  show ?case
  proof (cases "w = lin_dsts cb ! k \<and> w \<notin> C")
    case False
    then show ?thesis using Suc.IH[OF _ ready_below[OF fus k Suc.prems(2) False]] k by auto
  next
    case True
    then have w: "w = lin_dsts cb ! k" "lin_dsts cb ! k \<notin> C" by auto
    note ready = Suc.prems(2)[unfolded w(1)]
    have sq: "seq_wf sq" using ready by (simp add: term_ready_def)
    let ?f = "\<lambda>t. case push_inner sq (fst (sw_seq t)) 2 of Some (Seq sq') \<Rightarrow> expand cb C k (sw_wire t) sq' | _ \<Rightarrow> []"
    have "terms_val \<sigma> (?f t) = seq_apply sq (sw_val \<sigma> t)" if t: "t \<in> set (lin_terms cb k)" for t
    proof -
      have "snd (sw_seq t) = IDENTITY" using fusable_term(1)[OF fus] t by (simp add: lin_terms_def)
      then have v: "sw_val \<sigma> t = shift_apply (fst (sw_seq t)) (\<sigma> (sw_wire t))"
        by (simp add: sw_val_def seq_apply_def shift_apply_IDENTITY)
      show ?thesis
        by (rule inline_step[OF fus inl k ready w(2) t]) (use Suc.IH k in \<open>auto simp: v\<close>)
    qed
    then have "terms_val \<sigma> (expand cb C (Suc k) w sq) = seq_apply sq (terms_val \<sigma> (lin_terms cb k))"
      unfolding expand.simps if_P[OF True] by (rule terms_val_concat[OF sq])
    also have "\<dots> = seq_apply sq (\<sigma> w)" using m k w by (simp add: meets_def)
    finally show ?thesis .
  qed
qed

text \<open>What is left mentions no inlined definition.\<close>

definition inlined :: "constraint_builder \<Rightarrow> wire set \<Rightarrow> wire set" where
  "inlined cb C = set (lin_dsts cb) - C"

lemma expand_terms:
  assumes fus: "fusable cb" and inl: "inlinable cb C arrives"
    and W: "\<And>j t. j < length (cb_linear cb) \<Longrightarrow> t \<in> set (lin_terms cb j) \<Longrightarrow> sw_wire t \<in> W"
  shows "k \<le> length (cb_linear cb) \<Longrightarrow> term_ready cb C arrives k w sq \<Longrightarrow> w \<in> W \<Longrightarrow> u \<in> set (expand cb C k w sq) \<Longrightarrow>
    term_in W u \<and> sw_wire u \<notin> inlined cb C"
proof (induction k arbitrary: w sq)
  case 0
  have "w \<notin> inlined cb C"
  proof
    assume "w \<in> inlined cb C"
    then have w: "w \<in> set (lin_dsts cb)" "w \<notin> C" by (simp_all add: inlined_def)
    obtain j where "j < length (cb_linear cb)" "lin_dsts cb ! j = w" using lin_index[OF w(1)] by blast
    then show False using 0(2) w(2) by (auto simp: term_ready_def)
  qed
  then show ?case using 0 by (simp add: term_in_def term_ready_def)
next
  case (Suc k)
  have k: "k < length (cb_linear cb)" using Suc.prems(1) by simp
  show ?case
  proof (cases "w = lin_dsts cb ! k \<and> w \<notin> C")
    case False
    have "u \<in> set (expand cb C k w sq)" using Suc.prems(4) False by auto
    then show ?thesis using Suc.IH[OF _ ready_below[OF fus k Suc.prems(2) False] Suc.prems(3)] k by auto
  next
    case True
    then have w: "w = lin_dsts cb ! k" "lin_dsts cb ! k \<notin> C" by auto
    note ready = Suc.prems(2)[unfolded w(1)]
    obtain t where t: "t \<in> set (lin_terms cb k)"
      "u \<in> set (case push_inner sq (fst (sw_seq t)) 2 of Some (Seq sq') \<Rightarrow> expand cb C k (sw_wire t) sq' | _ \<Rightarrow> [])"
      using Suc.prems(4) unfolding expand.simps if_P[OF True] set_concat set_map by blast
    show ?thesis
      by (rule inline_step[OF fus inl k ready w(2) t(1)]) (use Suc.IH[OF _ _ W[OF k t(1)]] t(2) k in auto)
  qed
qed

end
