(* ===== verification/Fusion_Run.thy ===== *)
theory Fusion_Run
  imports Fusion_Patch
begin

text \<open>
  What the pieces of fusion return: the stack walk appends the inlined terms of a wire, a rebuilt
  operand has the value of the old one, and every patch replaces a constraint by one that says the
  same of the valuations that meet the inlined definitions.
\<close>

section \<open>The stack walk\<close>

text \<open>The graph the patches are built on.\<close>

definition le_for :: "constraint_builder \<Rightarrow> wire set \<Rightarrow> le_graph \<Rightarrow> bool" where
  "le_for cb C leg \<longleftrightarrow> lin_def leg = set (lin_dsts cb) \<and> lin_committed leg = C \<and>
    (\<forall>k < length (cb_linear cb). wire_to_lin_def leg (lin_dsts cb ! k) = Some k)"

definition with_terms :: "constraint_builder \<Rightarrow> shifted_wire list \<Rightarrow> constraint_builder" where
  "with_terms cb ts = cb\<lparr>cb_terms := cb_terms cb @ ts\<rparr>"

lemma with_terms_fields [simp]:
  "cb_terms (with_terms cb ts) = cb_terms cb @ ts" "cb_linear (with_terms cb ts) = cb_linear cb" "cb_and (with_terms cb ts) = cb_and cb"
  "cb_imul (with_terms cb ts) = cb_imul cb" "cb_bmul (with_terms cb ts) = cb_bmul cb" "cb_zero (with_terms cb ts) = cb_zero cb"
  "with_terms (with_terms cb ts) us = with_terms cb (ts @ us)" "with_terms cb [] = cb"
  by (simp_all add: with_terms_def)

lemma push_term_eq: "push_term t (with_terms cb ts) = with_terms cb (ts @ [t])"
  by (simp add: push_term_def with_terms_def)

lemma op_terms_ext: "in_arena T opnd \<Longrightarrow> op_terms (T @ ts) opnd = op_terms T opnd"
  by (simp add: op_terms_def in_arena_def)

lemma op_terms_length: "in_arena T opnd \<Longrightarrow> length (op_terms T opnd) = op_len opnd"
  by (simp add: op_terms_def in_arena_def)

lemma cb_term_eq: "in_arena (cb_terms cb) opnd \<Longrightarrow> i < op_len opnd \<Longrightarrow> cb_term cb opnd i = Some (op_terms (cb_terms cb) opnd ! i)"
  by (simp add: cb_term_def as_slice_def slice_def in_arena_def op_terms_def read_at_def)

lemma rhs_in_arena: "fusable cb \<Longrightarrow> k < length (cb_linear cb) \<Longrightarrow> in_arena (cb_terms cb) (wl_rhs (cb_linear cb ! k))"
  by (simp add: fusable_def cb_wf_def Let_def)

definition arrival :: "shift \<times> shift \<Rightarrow> shifted_wire \<Rightarrow> (wire \<times> shift \<times> shift) option" where
  "arrival sq t = (case push_inner sq (fst (sw_seq t)) 2 of Some (Seq sq') \<Rightarrow> Some (sw_wire t, sq') | _ \<Rightarrow> None)"

lemma each_push_inner_term:
  assumes o': "in_arena (cb_terms cb) opnd"
    and ok: "\<And>t. t \<in> set (op_terms (cb_terms cb) opnd) \<Longrightarrow> snd (sw_seq t) = IDENTITY \<and>
      (\<exists>r. push_inner sq (fst (sw_seq t)) 2 = Some r \<and> r \<noteq> OverBudget)"
  shows "each (push_inner_term cb opnd sq) (rev [0..<op_len opnd]) pending =
    Some (List.map_filter (arrival sq) (op_terms (cb_terms cb) opnd) @ pending)"
proof -
  let ?ts = "op_terms (cb_terms cb) opnd"
  have len: "length ?ts = op_len opnd" by (rule op_terms_length[OF o'])
  have "i \<le> op_len opnd \<Longrightarrow> each (push_inner_term cb opnd sq) (rev [i..<op_len opnd]) pending =
      Some (List.map_filter (arrival sq) (drop i ?ts) @ pending)" for i
  proof (induction "op_len opnd - i" arbitrary: i)
    case 0
    then show ?case using len by simp
  next
    case (Suc d)
    then have i: "i < op_len opnd" by simp
    have IH: "each (push_inner_term cb opnd sq) (rev [Suc i..<op_len opnd]) pending =
        Some (List.map_filter (arrival sq) (drop (Suc i) ?ts) @ pending)"
      by (rule Suc.hyps(1)) (use Suc.hyps(2) i in simp_all)
    have t: "?ts ! i \<in> set ?ts" using i len by simp
    obtain r where r: "push_inner sq (fst (sw_seq (?ts ! i))) 2 = Some r" "r \<noteq> OverBudget" using ok[OF t] by blast
    have step: "push_inner_term cb opnd sq i p = Some ((case arrival sq (?ts ! i) of Some x \<Rightarrow> [x] | None \<Rightarrow> []) @ p)" for p
      using cb_term_eq[OF o' i] sole_shift_single ok[OF t] r
      by (cases r) (simp_all add: push_inner_term_def arrival_def LOWERED_SHIFT_SLOTS_def)
    have "drop i ?ts = ?ts ! i # drop (Suc i) ?ts" using i len by (simp add: Cons_nth_drop_Suc)
    moreover have "rev [i..<op_len opnd] = rev [Suc i..<op_len opnd] @ [i]" using i by (simp add: upt_conv_Cons)
    ultimately show ?case
      using IH step by (cases "arrival sq (?ts ! i)") (simp_all add: each_append List.map_filter_simps)
  qed
  from this[of 0] show ?thesis by simp
qed

text \<open>Processing a wire appends its expansion and names the definitions it inlined.\<close>

definition processes :: "le_graph \<Rightarrow> constraint_builder \<Rightarrow> wire set \<Rightarrow> nat \<Rightarrow> wire \<times> shift \<times> shift \<Rightarrow> bool" where
  "processes leg cb C k x \<longleftrightarrow> (\<exists>refs. set refs \<subseteq> {RefLinear j |j. j < length (cb_linear cb) \<and> lin_dsts cb ! j \<notin> C} \<and>
    (\<forall>pending ts subs. process_pending leg (x # pending) (with_terms cb ts) subs =
      process_pending leg pending (with_terms cb (ts @ expand cb C k (fst x) (snd x))) (subs @ refs)))"

lemma processes_all:
  assumes "\<And>x. x \<in> set xs \<Longrightarrow> processes leg cb C k x"
  shows "\<exists>refs. set refs \<subseteq> {RefLinear j |j. j < length (cb_linear cb) \<and> lin_dsts cb ! j \<notin> C} \<and>
    (\<forall>pending ts subs. process_pending leg (xs @ pending) (with_terms cb ts) subs =
      process_pending leg pending (with_terms cb (ts @ concat (map (\<lambda>x. expand cb C k (fst x) (snd x)) xs))) (subs @ refs))"
  using assms
proof (induction xs)
  case Nil
  show ?case by (rule exI[of _ "[]"]) simp
next
  case (Cons x xs)
  obtain r where r: "set r \<subseteq> {RefLinear j |j. j < length (cb_linear cb) \<and> lin_dsts cb ! j \<notin> C}"
    "\<And>pending ts subs. process_pending leg (x # pending) (with_terms cb ts) subs =
      process_pending leg pending (with_terms cb (ts @ expand cb C k (fst x) (snd x))) (subs @ r)"
    using Cons.prems[of x] by (auto simp: processes_def)
  obtain rs where rs: "set rs \<subseteq> {RefLinear j |j. j < length (cb_linear cb) \<and> lin_dsts cb ! j \<notin> C}"
    "\<And>pending ts subs. process_pending leg (xs @ pending) (with_terms cb ts) subs =
      process_pending leg pending (with_terms cb (ts @ concat (map (\<lambda>x. expand cb C k (fst x) (snd x)) xs))) (subs @ rs)"
    using Cons.IH Cons.prems by (meson list.set_intros(2))
  show ?case by (rule exI[of _ "r @ rs"]) (use r rs in simp)
qed

lemma expand_arrivals:
  "concat (map (\<lambda>x. expand cb C k (fst x) (snd x)) (List.map_filter (arrival sq) ts)) =
    concat (map (\<lambda>t. case push_inner sq (fst (sw_seq t)) 2 of Some (Seq sq') \<Rightarrow> expand cb C k (sw_wire t) sq' | _ \<Rightarrow> []) ts)"
  by (induction ts) (auto simp: List.map_filter_simps arrival_def split: option.splits push_inner_result.splits)

lemma process_expand:
  assumes fus: "fusable cb" and leg: "le_for cb C leg" and inl: "inlinable cb C arrives" and C: "C \<subseteq> set (lin_dsts cb)"
  shows "k \<le> length (cb_linear cb) \<Longrightarrow> term_ready cb C arrives k w sq \<Longrightarrow> processes leg cb C k (w, sq)"
proof (induction k arbitrary: w sq)
  case 0
  have "w \<in> C \<or> w \<notin> set (lin_dsts cb)"
  proof (rule ccontr)
    assume "\<not> (w \<in> C \<or> w \<notin> set (lin_dsts cb))"
    then have w: "w \<in> set (lin_dsts cb)" "w \<notin> C" by simp_all
    obtain j where "j < length (cb_linear cb)" "lin_dsts cb ! j = w" using lin_index[OF w(1)] by blast
    then show False using 0(2) w(2) by (auto simp: term_ready_def)
  qed
  then have "process_pending leg ((w, sq) # pending) (with_terms cb ts) subs =
      process_pending leg pending (with_terms cb (ts @ [\<lparr>sw_wire = w, sw_seq = sq\<rparr>])) subs" for pending ts subs
    using leg by (subst process_pending.simps) (simp add: le_for_def is_lin_def_def push_term_eq)
  then show ?case unfolding processes_def by (intro exI[of _ "[]"]) simp
next
  case (Suc k)
  have k: "k < length (cb_linear cb)" using Suc.prems(1) by simp
  show ?case
  proof (cases "w = lin_dsts cb ! k \<and> w \<notin> C")
    case False
    have "processes leg cb C k (w, sq)" using Suc.IH[OF _ ready_below[OF fus k Suc.prems(2) False]] k by simp
    moreover have "expand cb C (Suc k) w sq = expand cb C k w sq" using False by auto
    ultimately show ?thesis by (simp add: processes_def)
  next
    case True
    then have w: "w = lin_dsts cb ! k" "lin_dsts cb ! k \<notin> C" by auto
    note ready = Suc.prems(2)[unfolded w(1)]
    let ?o = "wl_rhs (cb_linear cb ! k)"
    note arena = rhs_in_arena[OF fus k]
    have terms: "op_terms (cb_terms cb @ ts) ?o = lin_terms cb k" for ts
      by (simp add: op_terms_ext[OF arena] lin_terms_def)
    have push: "each (push_inner_term (with_terms cb ts) ?o sq) (rev [0..<op_len ?o]) pending =
        Some (List.map_filter (arrival sq) (lin_terms cb k) @ pending)" for ts pending
    proof -
      have "snd (sw_seq t) = IDENTITY \<and> (\<exists>r. push_inner sq (fst (sw_seq t)) 2 = Some r \<and> r \<noteq> OverBudget)"
        if t: "t \<in> set (op_terms (cb_terms (with_terms cb ts)) ?o)" for t
      proof -
        have t': "t \<in> set (lin_terms cb k)" using t terms by simp
        then have "snd (sw_seq t) = IDENTITY" using fusable_term(1)[OF fus] by (simp add: lin_terms_def)
        moreover have "\<exists>r. push_inner sq (fst (sw_seq t)) 2 = Some r \<and> r \<noteq> OverBudget"
          by (rule inline_step[OF fus inl k ready w(2) t']) auto
        ultimately show ?thesis by blast
      qed
      from each_push_inner_term[of "with_terms cb ts" ?o sq pending, OF _ this] show ?thesis using arena by (simp add: terms)
    qed
    have "processes leg cb C k x" if x: "x \<in> set (List.map_filter (arrival sq) (lin_terms cb k))" for x
    proof -
      obtain t where t: "t \<in> set (lin_terms cb k)" "arrival sq t = Some x"
        using x by (auto simp: List.map_filter_def)
      show ?thesis
        by (rule inline_step[OF fus inl k ready w(2) t(1)]) (use t(2) Suc.IH k in \<open>auto simp: arrival_def\<close>)
    qed
    from processes_all[OF this] obtain rs where rs: "set rs \<subseteq> {RefLinear j |j. j < length (cb_linear cb) \<and> lin_dsts cb ! j \<notin> C}"
      "\<And>pending ts subs. process_pending leg (List.map_filter (arrival sq) (lin_terms cb k) @ pending) (with_terms cb ts) subs =
        process_pending leg pending (with_terms cb (ts @ concat (map (\<lambda>x. expand cb C k (fst x) (snd x))
          (List.map_filter (arrival sq) (lin_terms cb k))))) (subs @ rs)" by blast
    have "process_pending leg ((w, sq) # pending) (with_terms cb ts) subs =
        process_pending leg pending (with_terms cb (ts @ expand cb C (Suc k) w sq)) (subs @ RefLinear k # rs)" for pending ts subs
    proof -
      have "w \<in> set (lin_dsts cb)" using w(1) dsts_in[OF k] by simp
      then have "process_pending leg ((w, sq) # pending) (with_terms cb ts) subs =
          process_pending leg (List.map_filter (arrival sq) (lin_terms cb k) @ pending) (with_terms cb ts) (subs @ [RefLinear k])"
        using leg w k push[of ts pending]
        by (subst process_pending.simps)
          (simp add: le_for_def is_lin_def_def lin_def_operand_def lin_def_constraint_ref_def read_at_def)
      then show ?thesis unfolding expand.simps if_P[OF True] using rs(2) by (simp add: expand_arrivals)
    qed
    then show ?thesis
      unfolding processes_def using rs(1) k w by (intro exI[of _ "RefLinear k # rs"]) auto
  qed
qed

section \<open>Operands\<close>

definition inlined_terms :: "constraint_builder \<Rightarrow> wire set \<Rightarrow> wire_operand \<Rightarrow> shifted_wire list" where
  "inlined_terms cb C opnd =
    concat (map (\<lambda>t. expand cb C (length (cb_linear cb)) (sw_wire t) (sw_seq t)) (op_terms (cb_terms cb) opnd))"

text \<open>Everything the patches are proved under.\<close>

definition fusing :: "constraint_builder \<Rightarrow> wire set \<Rightarrow> (nat \<Rightarrow> shift \<times> shift \<Rightarrow> bool) \<Rightarrow> le_graph \<Rightarrow> bool" where
  "fusing cb C arrives leg \<longleftrightarrow> fusable cb \<and> le_for cb C leg \<and> inlinable cb C arrives \<and> C \<subseteq> set (lin_dsts cb)"

definition operand_ready :: "constraint_builder \<Rightarrow> wire set \<Rightarrow> (nat \<Rightarrow> shift \<times> shift \<Rightarrow> bool) \<Rightarrow> wire_operand \<Rightarrow> bool" where
  "operand_ready cb C arrives opnd \<longleftrightarrow> in_arena (cb_terms cb) opnd \<and>
    (\<forall>t \<in> set (op_terms (cb_terms cb) opnd). term_ready cb C arrives (length (cb_linear cb)) (sw_wire t) (sw_seq t))"

definition inlined_refs :: "constraint_builder \<Rightarrow> wire set \<Rightarrow> constraint_ref set" where
  "inlined_refs cb C = {RefLinear j |j. j < length (cb_linear cb) \<and> lin_dsts cb ! j \<notin> C}"

lemma process_operand_ok:
  assumes f: "fusing cb C arrives leg" and o': "operand_ready cb C arrives opnd"
    and room: "length (cb_terms cb @ ts) + length (inlined_terms cb C opnd) < 2 ^ 32"
  shows "\<exists>refs. set refs \<subseteq> inlined_refs cb C \<and> process_operand leg opnd (with_terms cb ts, subs) =
    Some (\<lparr>op_start = length (cb_terms cb @ ts), op_len = length (inlined_terms cb C opnd)\<rparr>,
      with_terms cb (ts @ inlined_terms cb C opnd), subs @ refs)"
proof -
  let ?n = "length (cb_linear cb)" and ?ts = "op_terms (cb_terms cb) opnd"
  let ?x = "\<lambda>t. expand cb C ?n (sw_wire t) (sw_seq t)"
  let ?step = "\<lambda>i st. Option.bind (cb_term (fst st) opnd i) (\<lambda>t. process_term leg (sw_wire t) (sw_seq t) st)"
  have arena: "in_arena (cb_terms cb) opnd" using o' by (simp add: operand_ready_def)
  have len: "length ?ts = op_len opnd" by (rule op_terms_length[OF arena])
  have "i \<le> op_len opnd \<Longrightarrow> \<exists>refs. set refs \<subseteq> inlined_refs cb C \<and>
      each ?step [0..<i] (with_terms cb ts, subs) = Some (with_terms cb (ts @ concat (map ?x (take i ?ts))), subs @ refs)" for i
  proof (induction i)
    case 0
    show ?case by (rule exI[of _ "[]"]) simp
  next
    case (Suc i)
    then obtain refs where IH: "set refs \<subseteq> inlined_refs cb C"
      "each ?step [0..<i] (with_terms cb ts, subs) = Some (with_terms cb (ts @ concat (map ?x (take i ?ts))), subs @ refs)" by auto
    have i: "i < op_len opnd" using Suc.prems by simp
    let ?us = "ts @ concat (map ?x (take i ?ts))" and ?t = "?ts ! i"
    have t: "?t \<in> set ?ts" using i len by simp
    have "processes leg cb C ?n (sw_wire ?t, sw_seq ?t)"
      by (rule process_expand[OF _ _ _ _ order_refl]) (use f o' t in \<open>auto simp: fusing_def operand_ready_def\<close>)
    then obtain r where r: "set r \<subseteq> inlined_refs cb C"
      "\<And>pending ts subs. process_pending leg ((sw_wire ?t, sw_seq ?t) # pending) (with_terms cb ts) subs =
        process_pending leg pending (with_terms cb (ts @ ?x ?t)) (subs @ r)"
      by (auto simp: processes_def inlined_refs_def)
    have fin: "process_pending leg [] c s = Some (c, s)" for c s by (subst process_pending.simps) simp
    have "cb_term (with_terms cb ?us) opnd i = Some ?t"
      using cb_term_eq[of "with_terms cb ?us" opnd i] arena i by (simp add: op_terms_ext[OF arena])
    then have "?step i (with_terms cb ?us, subs @ refs) = Some (with_terms cb (?us @ ?x ?t), (subs @ refs) @ r)"
      by (simp add: process_term_def r(2) fin)
    moreover have "take (Suc i) ?ts = take i ?ts @ [?t]" using i len by (simp add: take_Suc_conv_app_nth)
    ultimately show ?case
      using IH r(1) by (intro exI[of _ "refs @ r"]) (simp add: each_append)
  qed
  from this[of "op_len opnd"] obtain refs where r: "set refs \<subseteq> inlined_refs cb C"
    "each ?step [0..<op_len opnd] (with_terms cb ts, subs) = Some (with_terms cb (ts @ inlined_terms cb C opnd), subs @ refs)"
    using len by (auto simp: inlined_terms_def)
  then show ?thesis
    using room by (intro exI[of _ refs]) (simp add: process_operand_def next_term_start_def operand_since_def from_range_def)
qed

text \<open>A rebuilt operand: in the arena, of the same value for the valuations that meet the inlined
  definitions, and free of the wires they define.\<close>

definition rebuilt :: "constraint_builder \<Rightarrow> wire set \<Rightarrow> shifted_wire list \<Rightarrow> wire_operand \<Rightarrow> wire_operand \<Rightarrow> bool" where
  "rebuilt cb C T old new \<longleftrightarrow> in_arena T new \<and> op_wires T new \<inter> inlined cb C = {} \<and>
    (\<forall>\<sigma>. meets cb C \<sigma> \<longrightarrow> op_val \<sigma> T new = op_val \<sigma> (cb_terms cb) old)"

lemma op_wires_ext: "in_arena T opnd \<Longrightarrow> op_wires (T @ ts) opnd = op_wires T opnd"
  by (simp add: op_wires_def op_terms_ext)

lemma rebuilt_ext: "rebuilt cb C T old new \<Longrightarrow> rebuilt cb C (T @ ts) old new"
  by (auto simp: rebuilt_def op_wires_ext)

lemma terms_val_concat_map:
  "(\<And>t. t \<in> set ts \<Longrightarrow> terms_val \<sigma> (f t) = sw_val \<sigma> t) \<Longrightarrow> terms_val \<sigma> (concat (map f ts)) = terms_val \<sigma> ts"
  by (induction ts) simp_all

lemma op_val_terms: "op_val \<sigma> T opnd = terms_val \<sigma> (op_terms T opnd)"
  by (simp add: op_val_def op_terms_def)

lemma used_terms:
  assumes "cb_in W cb" "t \<in> set (op_terms (cb_terms cb) opnd)"
  shows "sw_wire t \<in> W"
  using assms by (auto simp: cb_in_def term_in_def op_terms_def dest!: in_set_takeD in_set_dropD)

lemma inlined_terms_in:
  assumes f: "fusing cb C arrives leg" and o': "operand_ready cb C arrives opnd" and W: "cb_in W cb"
    and u: "u \<in> set (inlined_terms cb C opnd)"
  shows "term_in W u" "sw_wire u \<notin> inlined cb C"
proof -
  obtain t where t: "t \<in> set (op_terms (cb_terms cb) opnd)" "u \<in> set (expand cb C (length (cb_linear cb)) (sw_wire t) (sw_seq t))"
    using u by (auto simp: inlined_terms_def)
  have "term_in W u \<and> sw_wire u \<notin> inlined cb C"
    by (rule expand_terms[OF _ _ _ order_refl _ _ t(2)])
      (use f o' t(1) used_terms[OF W] in \<open>auto simp: fusing_def operand_ready_def lin_terms_def\<close>)
  then show "term_in W u" "sw_wire u \<notin> inlined cb C" by blast+
qed

lemma op_terms_new: "op_terms (T @ us) \<lparr>op_start = length T, op_len = length us\<rparr> = us"
  by (simp add: op_terms_def)

lemma inlined_rebuilt:
  assumes f: "fusing cb C arrives leg" and o': "operand_ready cb C arrives opnd"
  shows "rebuilt cb C (T @ inlined_terms cb C opnd) opnd \<lparr>op_start = length T, op_len = length (inlined_terms cb C opnd)\<rparr>"
  unfolding rebuilt_def
proof (intro conjI allI impI)
  let ?us = "inlined_terms cb C opnd"
  have "cb_in UNIV cb" using f by (auto simp: fusing_def fusable_def cb_in_def term_in_def)
  then have "sw_wire u \<notin> inlined cb C" if "u \<in> set ?us" for u using inlined_terms_in(2)[OF f o' _ that] by blast
  then show "op_wires (T @ ?us) \<lparr>op_start = length T, op_len = length ?us\<rparr> \<inter> inlined cb C = {}"
    by (auto simp: op_wires_def op_terms_new)
  show "op_val \<sigma> (T @ ?us) \<lparr>op_start = length T, op_len = length ?us\<rparr> = op_val \<sigma> (cb_terms cb) opnd" if m: "meets cb C \<sigma>" for \<sigma>
  proof -
    have "terms_val \<sigma> (expand cb C (length (cb_linear cb)) (sw_wire t) (sw_seq t)) = sw_val \<sigma> t"
      if "t \<in> set (op_terms (cb_terms cb) opnd)" for t
      unfolding sw_val_def
      by (rule expand_val[OF _ _ m order_refl]) (use f o' that in \<open>auto simp: fusing_def operand_ready_def\<close>)
    then show ?thesis by (simp add: op_val_terms op_terms_new inlined_terms_def terms_val_concat_map)
  qed
qed (simp add: in_arena_def)

end
