(* ===== verification/Fusion_Patches.thy ===== *)
theory Fusion_Patches
  imports Fusion_Run
begin

text \<open>
  What each patch of fusion replaces (\<open>build_root_patch\<close>, \<open>build_committed_lin_def_patch\<close>), and what
  applying all of them to the builder comes to.
\<close>

section \<open>Patches\<close>

fun ref_ops :: "constraint_builder \<Rightarrow> constraint_ref \<Rightarrow> wire_operand list" where
  "ref_ops cb (RefAnd i) = and_ops (cb_and cb ! i)"
| "ref_ops cb (RefImul i) = (let c = cb_imul cb ! i in [wi_a c, wi_b c, wi_lo c, wi_hi c])"
| "ref_ops cb (RefBmul i) = bmul_ops (cb_bmul cb ! i)"
| "ref_ops cb (RefZero i) = zero_ops (cb_zero cb ! i)"
| "ref_ops cb (RefLinear i) = [wl_rhs (cb_linear cb ! i)]"

definition ref_growth :: "constraint_builder \<Rightarrow> wire set \<Rightarrow> constraint_ref \<Rightarrow> nat" where
  "ref_growth cb C r = sum_list (map (\<lambda>opnd. length (inlined_terms cb C opnd)) (ref_ops cb r))"

fun replaces :: "constraint_builder \<Rightarrow> wire set \<Rightarrow> shifted_wire list \<Rightarrow> constraint_ref \<Rightarrow> added_constraint \<Rightarrow> bool" where
  "replaces cb C T (RefAnd i) a \<longleftrightarrow> (\<exists>c. a = AddAnd c \<and> list_all2 (rebuilt cb C T) (and_ops (cb_and cb ! i)) (and_ops c))"
| "replaces cb C T (RefImul i) a \<longleftrightarrow> (\<exists>c. a = AddImul c \<and> list_all2 (rebuilt cb C T) (imul_ops (cb_imul cb ! i)) (imul_ops c))"
| "replaces cb C T (RefBmul i) a \<longleftrightarrow> (\<exists>c. a = AddBmul c \<and> list_all2 (rebuilt cb C T) (bmul_ops (cb_bmul cb ! i)) (bmul_ops c))"
| "replaces cb C T (RefZero i) a \<longleftrightarrow> (\<exists>c. a = AddZero c \<and> list_all2 (rebuilt cb C T) (zero_ops (cb_zero cb ! i)) (zero_ops c))"
| "replaces cb C T (RefLinear k) a \<longleftrightarrow> (\<exists>c. a = AddLinear c \<and> wl_dst c = lin_dsts cb ! k \<and>
    rebuilt cb C T (wl_rhs (cb_linear cb ! k)) (wl_rhs c))"

definition patch_ok :: "constraint_builder \<Rightarrow> wire set \<Rightarrow> shifted_wire list \<Rightarrow> constraint_ref \<Rightarrow> patch \<Rightarrow> bool" where
  "patch_ok cb C T r p \<longleftrightarrow> r \<in> set (subsumes p) \<and> set (subsumes p) \<subseteq> insert r (inlined_refs cb C) \<and> replaces cb C T r (added p)"

lemma all2_rebuilt_ext: "list_all2 (rebuilt cb C T) xs ys \<Longrightarrow> list_all2 (rebuilt cb C (T @ ts)) xs ys"
  by (erule list_all2_mono) (rule rebuilt_ext)

lemma patch_ok_ext: "patch_ok cb C T r p \<Longrightarrow> patch_ok cb C (T @ ts) r p"
  by (cases r) (auto simp: patch_ok_def intro: all2_rebuilt_ext rebuilt_ext)

text \<open>One operand of a patch.\<close>

lemma one_operand:
  assumes "fusing cb C arrives leg" "operand_ready cb C arrives opnd"
    and "length (cb_terms cb @ ts) + (length (inlined_terms cb C opnd) + m) < 2 ^ 32"
  obtains new refs where "process_operand leg opnd (with_terms cb ts, subs) =
      Some (new, with_terms cb (ts @ inlined_terms cb C opnd), subs @ refs)"
    "set refs \<subseteq> inlined_refs cb C" "\<And>us. rebuilt cb C (cb_terms cb @ ts @ inlined_terms cb C opnd @ us) opnd new"
    "length (cb_terms cb @ ts @ inlined_terms cb C opnd) + m < 2 ^ 32"
proof -
  let ?new = "\<lparr>op_start = length (cb_terms cb @ ts), op_len = length (inlined_terms cb C opnd)\<rparr>"
  obtain refs where "set refs \<subseteq> inlined_refs cb C"
    "process_operand leg opnd (with_terms cb ts, subs) = Some (?new, with_terms cb (ts @ inlined_terms cb C opnd), subs @ refs)"
    using process_operand_ok[OF assms(1,2), of ts subs] assms(3) by auto
  moreover have "rebuilt cb C (cb_terms cb @ ts @ inlined_terms cb C opnd @ us) opnd ?new" for us
    using rebuilt_ext[OF inlined_rebuilt[OF assms(1,2), of "cb_terms cb @ ts"], of us] by simp
  ultimately show ?thesis using that assms(3) by simp
qed

definition ref_grown :: "constraint_builder \<Rightarrow> wire set \<Rightarrow> constraint_ref \<Rightarrow> shifted_wire list" where
  "ref_grown cb C r = concat (map (inlined_terms cb C) (ref_ops cb r))"

lemma length_ref_grown: "length (ref_grown cb C r) = ref_growth cb C r"
  by (simp add: ref_grown_def ref_growth_def length_concat o_def)

lemma subsumes_sorted: "set (remdups_adj (sort xs)) = set (xs :: constraint_ref list)"
  by simp

definition patches_ref :: "constraint_builder \<Rightarrow> wire set \<Rightarrow> (constraint_builder \<Rightarrow> (patch \<times> constraint_builder) option) \<Rightarrow> constraint_ref \<Rightarrow> bool" where
  "patches_ref cb C f r \<longleftrightarrow> (\<forall>ts. length (cb_terms cb @ ts) + ref_growth cb C r < 2 ^ 32 \<longrightarrow>
    (\<exists>p. f (with_terms cb ts) = Some (p, with_terms cb (ts @ ref_grown cb C r)) \<and>
      patch_ok cb C (cb_terms cb @ ts @ ref_grown cb C r) r p))"

text \<open>Operands rebuilt one after the other.\<close>

fun process_list :: "le_graph \<Rightarrow> wire_operand list \<Rightarrow> constraint_builder \<times> constraint_ref list \<Rightarrow>
    (wire_operand list \<times> constraint_builder \<times> constraint_ref list) option" where
  "process_list leg [] st = Some ([], st)"
| "process_list leg (opnd # os) st = do {
    (n, st) \<leftarrow> process_operand leg opnd st;
    (ns, st) \<leftarrow> process_list leg os st;
    Some (n # ns, st)
  }"

lemma process_list_ok:
  assumes f: "fusing cb C arrives leg"
  shows "\<forall>opnd \<in> set os. operand_ready cb C arrives opnd \<Longrightarrow>
    length (cb_terms cb @ ts) + sum_list (map (\<lambda>opnd. length (inlined_terms cb C opnd)) os) < 2 ^ 32 \<Longrightarrow>
    \<exists>ns refs. process_list leg os (with_terms cb ts, subs) =
        Some (ns, with_terms cb (ts @ concat (map (inlined_terms cb C) os)), subs @ refs) \<and>
      set refs \<subseteq> inlined_refs cb C \<and> list_all2 (rebuilt cb C (cb_terms cb @ ts @ concat (map (inlined_terms cb C) os))) os ns"
proof (induction os arbitrary: ts subs)
  case Nil
  show ?case by (intro exI[of _ "[]"]) simp
next
  case (Cons opnd os)
  let ?us = "inlined_terms cb C opnd"
  have room: "length (cb_terms cb @ ts) + (length ?us + sum_list (map (\<lambda>opnd. length (inlined_terms cb C opnd)) os)) < 2 ^ 32"
    using Cons.prems(2) by simp
  obtain n r where n: "process_operand leg opnd (with_terms cb ts, subs) = Some (n, with_terms cb (ts @ ?us), subs @ r)"
    "set r \<subseteq> inlined_refs cb C" "\<And>vs. rebuilt cb C (cb_terms cb @ ts @ ?us @ vs) opnd n"
    "length (cb_terms cb @ ts @ ?us) + sum_list (map (\<lambda>opnd. length (inlined_terms cb C opnd)) os) < 2 ^ 32"
    using one_operand[OF f _ room, of subs] Cons.prems(1) by auto
  obtain ns rs where ns: "process_list leg os (with_terms cb (ts @ ?us), subs @ r) =
      Some (ns, with_terms cb ((ts @ ?us) @ concat (map (inlined_terms cb C) os)), (subs @ r) @ rs)"
    "set rs \<subseteq> inlined_refs cb C" "list_all2 (rebuilt cb C (cb_terms cb @ (ts @ ?us) @ concat (map (inlined_terms cb C) os))) os ns"
    using Cons.IH[of "ts @ ?us" "subs @ r"] Cons.prems(1) n(4) by auto
  show ?case
    using n(1-3) ns by (intro exI[of _ "n # ns"] exI[of _ "r @ rs"]) simp
qed

lemma ref_list_ok:
  assumes "fusing cb C arrives leg" "\<forall>opnd \<in> set (ref_ops cb r). operand_ready cb C arrives opnd"
    "length (cb_terms cb @ ts) + ref_growth cb C r < 2 ^ 32"
  obtains ns refs where "process_list leg (ref_ops cb r) (with_terms cb ts, [r]) =
      Some (ns, with_terms cb (ts @ ref_grown cb C r), r # refs)"
    "set refs \<subseteq> inlined_refs cb C" "list_all2 (rebuilt cb C (cb_terms cb @ ts @ ref_grown cb C r)) (ref_ops cb r) ns"
  using process_list_ok[OF assms(1,2), of ts "[r]"] assms(3) by (auto simp: ref_growth_def ref_grown_def)

lemma root_patch_ok:
  assumes f: "fusing cb C arrives leg" and r: "ref_in cb r" and ready: "\<forall>opnd \<in> set (ref_ops cb r). operand_ready cb C arrives opnd"
  shows "patches_ref cb C (build_root_patch leg r) r"
  unfolding patches_ref_def
proof (intro allI impI)
  fix ts assume room: "length (cb_terms cb @ ts) + ref_growth cb C r < 2 ^ 32"
  let ?T = "cb_terms cb @ ts @ ref_grown cb C r"
  obtain ns refs where l: "process_list leg (ref_ops cb r) (with_terms cb ts, [r]) =
      Some (ns, with_terms cb (ts @ ref_grown cb C r), r # refs)"
    "set refs \<subseteq> inlined_refs cb C" "list_all2 (rebuilt cb C ?T) (ref_ops cb r) ns"
    by (rule ref_list_ok[OF f ready room])
  have "\<exists>p. build_root_patch leg r (with_terms cb ts) = Some (p, with_terms cb (ts @ ref_grown cb C r)) \<and>
      set (subsumes p) = set (r # refs) \<and> replaces cb C ?T r (added p)"
  proof (cases r)
    case (RefAnd i)
    then show ?thesis using r l by (auto simp: read_at_def bind_eq_Some_conv set_insort_key and_ops_def)
  next
    case (RefImul i)
    then show ?thesis using r l by (auto simp: read_at_def bind_eq_Some_conv set_insort_key Let_def imul_ops_def)
  next
    case (RefBmul i)
    then show ?thesis using r l by (auto simp: read_at_def bind_eq_Some_conv set_insort_key bmul_ops_def)
  next
    case (RefZero i)
    then show ?thesis using r l by (auto simp: read_at_def bind_eq_Some_conv set_insort_key zero_ops_def)
  qed (use r in simp)
  then show "\<exists>p. build_root_patch leg r (with_terms cb ts) = Some (p, with_terms cb (ts @ ref_grown cb C r)) \<and> patch_ok cb C ?T r p"
    using l(2) by (auto simp: patch_ok_def)
qed

lemma committed_patch_ok:
  assumes f: "fusing cb C arrives leg" and k: "k < length (cb_linear cb)"
    and ready: "\<forall>opnd \<in> set (ref_ops cb (RefLinear k)). operand_ready cb C arrives opnd"
  shows "patches_ref cb C (build_committed_lin_def_patch leg (lin_dsts cb ! k)) (RefLinear k)"
  unfolding patches_ref_def
proof (intro allI impI)
  fix ts assume room: "length (cb_terms cb @ ts) + ref_growth cb C (RefLinear k) < 2 ^ 32"
  let ?T = "cb_terms cb @ ts @ ref_grown cb C (RefLinear k)"
  obtain ns refs where l: "process_list leg (ref_ops cb (RefLinear k)) (with_terms cb ts, [RefLinear k]) =
      Some (ns, with_terms cb (ts @ ref_grown cb C (RefLinear k)), RefLinear k # refs)"
    "set refs \<subseteq> inlined_refs cb C" "list_all2 (rebuilt cb C ?T) (ref_ops cb (RefLinear k)) ns"
    by (rule ref_list_ok[OF f ready room])
  have "wire_to_lin_def leg (lin_dsts cb ! k) = Some k" using f k by (simp add: fusing_def le_for_def)
  then show "\<exists>p. build_committed_lin_def_patch leg (lin_dsts cb ! k) (with_terms cb ts) =
        Some (p, with_terms cb (ts @ ref_grown cb C (RefLinear k))) \<and> patch_ok cb C ?T (RefLinear k) p"
    using l k
    by (auto simp: build_committed_lin_def_patch_def lin_def_constraint_ref_def lin_def_operand_def read_at_def
        bind_eq_Some_conv patch_ok_def)
qed

text \<open>A run of patches.\<close>

lemma patches_run:
  assumes "\<And>x. x \<in> set xs \<Longrightarrow> patches_ref cb C (f x) (key x)"
  shows "length (cb_terms cb @ ts) + sum_list (map (ref_growth cb C \<circ> key) xs) < 2 ^ 32 \<Longrightarrow>
    \<exists>ps. each (add_patch f) xs (ps0, with_terms cb ts) = Some (ps0 @ ps, with_terms cb (ts @ concat (map (ref_grown cb C \<circ> key) xs))) \<and>
      list_all2 (\<lambda>x p. patch_ok cb C (cb_terms cb @ ts @ concat (map (ref_grown cb C \<circ> key) xs)) (key x) p) xs ps"
  using assms
proof (induction xs arbitrary: ts ps0)
  case (Cons x xs)
  let ?u = "ref_grown cb C (key x)"
  have "patches_ref cb C (f x) (key x)" using Cons.prems(2) by simp
  then obtain p where p: "f x (with_terms cb ts) = Some (p, with_terms cb (ts @ ?u))" "patch_ok cb C (cb_terms cb @ ts @ ?u) (key x) p"
  proof -
    have "length (cb_terms cb @ ts) + ref_growth cb C (key x) < 2 ^ 32" using Cons.prems(1) by simp
    with \<open>patches_ref cb C (f x) (key x)\<close> that show ?thesis unfolding patches_ref_def by blast
  qed
  obtain ps where ps: "each (add_patch f) xs (ps0 @ [p], with_terms cb (ts @ ?u)) =
      Some ((ps0 @ [p]) @ ps, with_terms cb ((ts @ ?u) @ concat (map (ref_grown cb C \<circ> key) xs)))"
    "list_all2 (\<lambda>x p. patch_ok cb C (cb_terms cb @ (ts @ ?u) @ concat (map (ref_grown cb C \<circ> key) xs)) (key x) p) xs ps"
    using Cons.IH[of "ts @ ?u" "ps0 @ [p]"] Cons.prems by (auto simp: length_ref_grown o_def)
  have "patch_ok cb C ((cb_terms cb @ ts @ ?u) @ concat (map (ref_grown cb C \<circ> key) xs)) (key x) p" by (rule patch_ok_ext[OF p(2)])
  moreover have "add_patch f x (ps0, with_terms cb ts) = Some (ps0 @ [p], with_terms cb (ts @ ?u))" by (simp add: add_patch_def p(1))
  ultimately show ?case using ps by (intro exI[of _ "p # ps"]) (simp add: o_def)
qed simp

section \<open>Applying patches\<close>

fun ref_valid :: "constraint_builder \<Rightarrow> constraint_ref \<Rightarrow> bool" where
  "ref_valid cb (RefLinear k) \<longleftrightarrow> k < length (cb_linear cb)"
| "ref_valid cb r \<longleftrightarrow> ref_in cb r"

definition flags_for :: "constraint_builder \<Rightarrow> constraint_ref set \<Rightarrow> subsumed_flags" where
  "flags_for cb R = \<lparr>sf_and = map (\<lambda>i. RefAnd i \<in> R) [0..<length (cb_and cb)],
    sf_imul = map (\<lambda>i. RefImul i \<in> R) [0..<length (cb_imul cb)], sf_bmul = map (\<lambda>i. RefBmul i \<in> R) [0..<length (cb_bmul cb)],
    sf_zero = map (\<lambda>i. RefZero i \<in> R) [0..<length (cb_zero cb)], sf_linear = map (\<lambda>i. RefLinear i \<in> R) [0..<length (cb_linear cb)]\<rparr>"

lemma flag_at_map: "i < n \<Longrightarrow> (\<And>j. f' j = (j = i \<or> f j)) \<Longrightarrow> flag_at (map f [0..<n]) i = Some (map f' [0..<n])"
  by (auto simp: flag_at_def list_eq_iff_nth_eq nth_list_update)

lemma flag_subsumed_for:
  assumes "ref_valid cb r"
  shows "flag_subsumed r (flags_for cb R) = Some (flags_for cb (insert r R))"
proof (cases r)
  case (RefAnd i)
  have "flag_at (map (\<lambda>j. RefAnd j \<in> R) [0..<length (cb_and cb)]) i = Some (map (\<lambda>j. RefAnd j \<in> insert r R) [0..<length (cb_and cb)])"
    by (rule flag_at_map) (use assms RefAnd in auto)
  then show ?thesis using RefAnd by (simp add: flags_for_def)
next
  case (RefImul i)
  have "flag_at (map (\<lambda>j. RefImul j \<in> R) [0..<length (cb_imul cb)]) i = Some (map (\<lambda>j. RefImul j \<in> insert r R) [0..<length (cb_imul cb)])"
    by (rule flag_at_map) (use assms RefImul in auto)
  then show ?thesis using RefImul by (simp add: flags_for_def)
next
  case (RefBmul i)
  have "flag_at (map (\<lambda>j. RefBmul j \<in> R) [0..<length (cb_bmul cb)]) i = Some (map (\<lambda>j. RefBmul j \<in> insert r R) [0..<length (cb_bmul cb)])"
    by (rule flag_at_map) (use assms RefBmul in auto)
  then show ?thesis using RefBmul by (simp add: flags_for_def)
next
  case (RefZero i)
  have "flag_at (map (\<lambda>j. RefZero j \<in> R) [0..<length (cb_zero cb)]) i = Some (map (\<lambda>j. RefZero j \<in> insert r R) [0..<length (cb_zero cb)])"
    by (rule flag_at_map) (use assms RefZero in auto)
  then show ?thesis using RefZero by (simp add: flags_for_def)
next
  case (RefLinear i)
  have "flag_at (map (\<lambda>j. RefLinear j \<in> R) [0..<length (cb_linear cb)]) i = Some (map (\<lambda>j. RefLinear j \<in> insert r R) [0..<length (cb_linear cb)])"
    by (rule flag_at_map) (use assms RefLinear in auto)
  then show ?thesis using RefLinear by (simp add: flags_for_def)
qed

lemma each_flag: "\<forall>r \<in> set rs. ref_valid cb r \<Longrightarrow> each flag_subsumed rs (flags_for cb R) = Some (flags_for cb (R \<union> set rs))"
  by (induction rs arbitrary: R) (simp_all add: flag_subsumed_for)

definition kept_by :: "(nat \<Rightarrow> constraint_ref) \<Rightarrow> constraint_ref set \<Rightarrow> 'c list \<Rightarrow> 'c list" where
  "kept_by ref S cs = map snd (filter (\<lambda>(i, c). ref i \<notin> S) (enumerate 0 cs))"

lemma retain_kept: "retain_unsubsumed cs (map (\<lambda>i. ref i \<in> S) [0..<length cs]) = kept_by ref S cs"
proof -
  have "map fst (filter (\<lambda>(c, s). \<not> s) (zip cs (map (\<lambda>i. ref i \<in> S) [k..<k + length cs]))) =
      map snd (filter (\<lambda>(i, c). ref i \<notin> S) (enumerate k cs))" for k
  proof (induction cs arbitrary: k)
    case (Cons c cs)
    show ?case using Cons[of "Suc k"] by (simp add: upt_conv_Cons del: upt_Suc)
  qed simp
  from this[of 0] show ?thesis by (simp add: retain_unsubsumed_def kept_by_def)
qed

lemma in_kept_by: "c \<in> set (kept_by ref S cs) \<longleftrightarrow> (\<exists>i < length cs. ref i \<notin> S \<and> c = cs ! i)"
  by (force simp: kept_by_def in_set_enumerate_eq image_iff)

definition news :: "(added_constraint \<Rightarrow> 'c option) \<Rightarrow> patch list \<Rightarrow> 'c list" where
  "news sel ps = List.map_filter sel (map added ps)"

lemma in_news: "c \<in> set (news sel ps) \<longleftrightarrow> (\<exists>p \<in> set ps. sel (added p) = Some c)"
  by (force simp: news_def List.map_filter_def image_iff)

definition subsumed :: "patch list \<Rightarrow> constraint_ref set" where
  "subsumed ps = (\<Union>p \<in> set ps. set (subsumes p))"

definition sel_and :: "added_constraint \<Rightarrow> wire_and option" where
  "sel_and a = (case a of AddAnd c \<Rightarrow> Some c | _ \<Rightarrow> None)"
definition sel_imul :: "added_constraint \<Rightarrow> wire_imul option" where
  "sel_imul a = (case a of AddImul c \<Rightarrow> Some c | _ \<Rightarrow> None)"
definition sel_bmul :: "added_constraint \<Rightarrow> wire_bmul option" where
  "sel_bmul a = (case a of AddBmul c \<Rightarrow> Some c | _ \<Rightarrow> None)"
definition sel_zero :: "added_constraint \<Rightarrow> wire_zero option" where
  "sel_zero a = (case a of AddZero c \<Rightarrow> Some c | _ \<Rightarrow> None)"
definition sel_linear :: "added_constraint \<Rightarrow> wire_linear option" where
  "sel_linear a = (case a of AddLinear c \<Rightarrow> Some c | _ \<Rightarrow> None)"

lemmas sel_defs = sel_and_def sel_imul_def sel_bmul_def sel_zero_def sel_linear_def

definition patched :: "constraint_builder \<Rightarrow> shifted_wire list \<Rightarrow> patch list \<Rightarrow> constraint_builder" where
  "patched cb us ps = \<lparr>cb_and = kept_by RefAnd (subsumed ps) (cb_and cb) @ news sel_and ps,
    cb_imul = kept_by RefImul (subsumed ps) (cb_imul cb) @ news sel_imul ps,
    cb_bmul = kept_by RefBmul (subsumed ps) (cb_bmul cb) @ news sel_bmul ps,
    cb_linear = kept_by RefLinear (subsumed ps) (cb_linear cb) @ news sel_linear ps,
    cb_zero = kept_by RefZero (subsumed ps) (cb_zero cb) @ news sel_zero ps, cb_terms = cb_terms cb @ us\<rparr>"

lemma apply_patches_eq:
  assumes "\<forall>r \<in> subsumed ps. ref_valid cb r"
  shows "apply_patches (with_terms cb us) ps = Some (patched cb us ps)"
proof -
  have start: "\<lparr>sf_and = replicate (length (cb_and cb)) False, sf_imul = replicate (length (cb_imul cb)) False,
       sf_bmul = replicate (length (cb_bmul cb)) False, sf_zero = replicate (length (cb_zero cb)) False,
       sf_linear = replicate (length (cb_linear cb)) False\<rparr> = flags_for cb {}"
    by (simp add: flags_for_def map_replicate_const)
  have refs: "set (concat (map subsumes ps)) = subsumed ps" by (simp add: subsumed_def)
  then have "each flag_subsumed (concat (map subsumes ps)) (flags_for cb {}) = Some (flags_for cb (subsumed ps))"
    using each_flag[of "concat (map subsumes ps)" cb "{}"] assms by (simp del: set_concat)
  then show ?thesis
    by (simp add: apply_patches_def start Let_def patched_def flags_for_def retain_kept news_def sel_defs[abs_def] with_terms_def)
qed

end
