(* ===== verification/Fusion.thy ===== *)
theory Fusion
  imports Fusion_Patches
begin

text \<open>
  Gate fusion as a whole: the pass returns, the fused constraints say the same of every valuation that
  meets the inlined definitions, and what satisfies the fused constraints extends to the original ones
  by computing the wires that were inlined.
\<close>

section \<open>One kind of constraint\<close>

text \<open>A constraint kind: what it says depends on the values of its operands alone.\<close>

definition by_operands :: "('c \<Rightarrow> wire_operand list) \<Rightarrow> ((wire \<Rightarrow> u64) \<Rightarrow> shifted_wire list \<Rightarrow> 'c \<Rightarrow> bool) \<Rightarrow> bool" where
  "by_operands ops sat \<longleftrightarrow> (\<exists>rel. \<forall>\<sigma> T c. sat \<sigma> T c \<longleftrightarrow> rel (map (op_val \<sigma> T) (ops c)))"

lemma kinds_by_operands: "by_operands and_ops and_sat" "by_operands imul_ops imul_sat" "by_operands bmul_ops bmul_sat" "by_operands zero_ops zero_sat"
proof -
  show "by_operands and_ops and_sat"
    unfolding by_operands_def by (rule exI[of _ "\<lambda>vs. vs ! 0 AND vs ! 1 = vs ! 2"]) (simp add: and_sat_def and_ops_def)
  show "by_operands imul_ops imul_sat"
    unfolding by_operands_def by (rule exI[of _ "\<lambda>vs. imul_rel (vs ! 0) (vs ! 1) (vs ! 2) (vs ! 3)"]) (simp add: imul_sat_def imul_ops_def)
  show "by_operands bmul_ops bmul_sat"
    unfolding by_operands_def
    by (rule exI[of _ "\<lambda>vs. bmul_rel (vs ! 0) (vs ! 1) (vs ! 2) (vs ! 3) (vs ! 4) (vs ! 5)"]) (simp add: bmul_sat_def bmul_ops_def)
  show "by_operands zero_ops zero_sat"
    unfolding by_operands_def by (rule exI[of _ "\<lambda>vs. vs ! 0 = 0"]) (simp add: zero_sat_def zero_ops_def)
qed

lemma by_operands_cong:
  assumes "by_operands ops sat" "map (op_val \<sigma> T) (ops c) = map (op_val \<tau> T') (ops d)"
  shows "sat \<sigma> T c \<longleftrightarrow> sat \<tau> T' d"
  using assms by (auto simp: by_operands_def)

lemma all2_vals: "list_all2 (rebuilt cb C T) os ns \<Longrightarrow> meets cb C \<sigma> \<Longrightarrow> map (op_val \<sigma> T) ns = map (op_val \<sigma> (cb_terms cb)) os"
  by (induction rule: list_all2_induct) (simp_all add: rebuilt_def)

text \<open>The constraints of a kind after patching: the unpatched ones, and rebuilt ones for the rest.\<close>

definition repatched :: "constraint_builder \<Rightarrow> wire set \<Rightarrow> shifted_wire list \<Rightarrow> ('c \<Rightarrow> wire_operand list) \<Rightarrow> 'c list \<Rightarrow> 'c list \<Rightarrow> bool" where
  "repatched cb C T ops cs cs' \<longleftrightarrow>
    (\<forall>c \<in> set cs'. (c \<in> set cs \<and> (\<forall>opnd \<in> set (ops c). op_wires (cb_terms cb) opnd \<inter> inlined cb C = {})) \<or>
      (\<exists>d \<in> set cs. list_all2 (rebuilt cb C T) (ops d) (ops c))) \<and>
    (\<forall>d \<in> set cs. d \<in> set cs' \<or> (\<exists>c \<in> set cs'. list_all2 (rebuilt cb C T) (ops d) (ops c)))"

lemma repatched_sat:
  assumes r: "repatched cb C (cb_terms cb @ us) ops cs cs'" and k: "by_operands ops sat" and m: "meets cb C \<sigma>"
    and arena: "\<forall>c \<in> set cs. \<forall>opnd \<in> set (ops c). in_arena (cb_terms cb) opnd"
  shows "(\<forall>c \<in> set cs'. sat \<sigma> (cb_terms cb @ us) c) \<longleftrightarrow> (\<forall>c \<in> set cs. sat \<sigma> (cb_terms cb) c)"
proof -
  have same: "sat \<sigma> (cb_terms cb @ us) c \<longleftrightarrow> sat \<sigma> (cb_terms cb) c" if "c \<in> set cs" for c
    by (rule by_operands_cong[OF k]) (use arena that in auto)
  have new: "sat \<sigma> (cb_terms cb @ us) c \<longleftrightarrow> sat \<sigma> (cb_terms cb) d" if "list_all2 (rebuilt cb C (cb_terms cb @ us)) (ops d) (ops c)" for c d
    by (rule by_operands_cong[OF k all2_vals[OF that m]])
  show ?thesis using r same new unfolding repatched_def by blast
qed

lemma repatched_wires:
  assumes r: "repatched cb C (cb_terms cb @ us) ops cs cs'" and arena: "\<forall>c \<in> set cs. \<forall>opnd \<in> set (ops c). in_arena (cb_terms cb) opnd"
    and c: "c \<in> set cs'" "opnd \<in> set (ops c)"
  shows "in_arena (cb_terms cb @ us) opnd" "op_wires (cb_terms cb @ us) opnd \<inter> inlined cb C = {}"
proof -
  consider "c \<in> set cs" "op_wires (cb_terms cb) opnd \<inter> inlined cb C = {}"
    | d where "list_all2 (rebuilt cb C (cb_terms cb @ us)) (ops d) (ops c)"
    using r c unfolding repatched_def by blast
  then have "in_arena (cb_terms cb @ us) opnd \<and> op_wires (cb_terms cb @ us) opnd \<inter> inlined cb C = {}"
  proof cases
    case 1
    then show ?thesis using arena c(2) op_wires_ext[of "cb_terms cb" opnd us] by auto
  next
    case 2
    then obtain opnd' where "rebuilt cb C (cb_terms cb @ us) opnd' opnd" using c(2) by (metis list_all2_conv_all_nth in_set_conv_nth)
    then show ?thesis by (simp add: rebuilt_def)
  qed
  then show "in_arena (cb_terms cb @ us) opnd" "op_wires (cb_terms cb @ us) opnd \<inter> inlined cb C = {}" by blast+
qed

lemma repatched_agree:
  assumes r: "repatched cb C (cb_terms cb @ us) ops cs cs'" and k: "by_operands ops sat"
    and arena: "\<forall>c \<in> set cs. \<forall>opnd \<in> set (ops c). in_arena (cb_terms cb) opnd"
    and eq: "\<forall>w. w \<notin> inlined cb C \<longrightarrow> \<sigma> w = \<tau> w" and c: "c \<in> set cs'"
  shows "sat \<sigma> (cb_terms cb @ us) c \<longleftrightarrow> sat \<tau> (cb_terms cb @ us) c"
proof (rule by_operands_cong[OF k])
  have "op_val \<sigma> (cb_terms cb @ us) opnd = op_val \<tau> (cb_terms cb @ us) opnd" if "opnd \<in> set (ops c)" for opnd
    by (rule op_val_agree) (use repatched_wires(2)[OF r arena c that] eq in blast)
  then show "map (op_val \<sigma> (cb_terms cb @ us)) (ops c) = map (op_val \<tau> (cb_terms cb @ us)) (ops c)" by simp
qed

section \<open>Computing the inlined wires\<close>

primrec complete_to :: "constraint_builder \<Rightarrow> wire set \<Rightarrow> (wire \<Rightarrow> u64) \<Rightarrow> nat \<Rightarrow> wire \<Rightarrow> u64" where
  "complete_to cb C \<sigma> 0 = \<sigma>"
| "complete_to cb C \<sigma> (Suc k) =
    (if lin_dsts cb ! k \<in> C then complete_to cb C \<sigma> k
     else (complete_to cb C \<sigma> k)(lin_dsts cb ! k := terms_val (complete_to cb C \<sigma> k) (lin_terms cb k)))"

lemma complete_to_other: "k \<le> length (cb_linear cb) \<Longrightarrow> w \<notin> inlined cb C \<Longrightarrow> complete_to cb C \<sigma> k w = \<sigma> w"
proof (induction k)
  case (Suc k)
  then have "lin_dsts cb ! k \<in> C \<or> w \<noteq> lin_dsts cb ! k" using dsts_in[of k cb] by (auto simp: inlined_def)
  then show ?case using Suc by auto
qed simp

lemma terms_val_agree: "\<forall>t \<in> set ts. \<sigma> (sw_wire t) = \<tau> (sw_wire t) \<Longrightarrow> terms_val \<sigma> ts = terms_val \<tau> ts"
  by (induction ts) (simp_all add: sw_val_def)

lemma fusable_early: "fusable cb \<Longrightarrow> j < length (cb_linear cb) \<Longrightarrow> t \<in> set (lin_terms cb j) \<Longrightarrow> sw_wire t \<notin> set (drop j (lin_dsts cb))"
  unfolding fusable_def by blast

lemma complete_to_meets_upto:
  assumes fus: "fusable cb"
  shows "k \<le> length (cb_linear cb) \<Longrightarrow> j < k \<Longrightarrow> lin_dsts cb ! j \<notin> C \<Longrightarrow>
    terms_val (complete_to cb C \<sigma> k) (lin_terms cb j) = complete_to cb C \<sigma> k (lin_dsts cb ! j)"
proof (induction k)
  case (Suc k)
  have k: "k < length (cb_linear cb)" using Suc.prems(1) by simp
  show ?case
  proof (cases "lin_dsts cb ! k \<in> C")
    case True
    then have "j < k" using Suc.prems by (metis less_antisym)
    then show ?thesis using True Suc by simp
  next
    case False
    let ?s = "complete_to cb C \<sigma> k"
    have jn: "j < length (cb_linear cb)" using Suc.prems by simp
    have "\<forall>t \<in> set (lin_terms cb j). sw_wire t \<noteq> lin_dsts cb ! k"
    proof
      fix t assume t: "t \<in> set (lin_terms cb j)"
      have "lin_dsts cb ! k \<in> set (drop j (lin_dsts cb))"
        using Suc.prems(2) k dsts_len[of cb] by (auto simp: in_set_conv_nth intro!: exI[of _ "k - j"])
      then show "sw_wire t \<noteq> lin_dsts cb ! k" using fusable_early[OF fus jn t] by metis
    qed
    then have v: "terms_val (complete_to cb C \<sigma> (Suc k)) (lin_terms cb j) = terms_val ?s (lin_terms cb j)"
      using False by (intro terms_val_agree) simp
    show ?thesis
    proof (cases "j = k")
      case True
      have "complete_to cb C \<sigma> (Suc k) (lin_dsts cb ! k) = terms_val ?s (lin_terms cb k)" using \<open>lin_dsts cb ! k \<notin> C\<close> by simp
      then show ?thesis using v by (simp only: True)
    next
      case False
      then have "j < k" "lin_dsts cb ! j \<noteq> lin_dsts cb ! k" using Suc.prems dsts_inj[OF fus jn k] by auto
      then show ?thesis using v Suc by simp
    qed
  qed
qed simp

lemma complete_to_meets: "fusable cb \<Longrightarrow> meets cb C (complete_to cb C \<sigma> (length (cb_linear cb)))"
  by (simp add: meets_def complete_to_meets_upto)

section \<open>The patched builder\<close>

definition patches_for :: "constraint_builder \<Rightarrow> wire set \<Rightarrow> shifted_wire list \<Rightarrow> constraint_ref list \<Rightarrow> patch list \<Rightarrow> bool" where
  "patches_for cb C T keys ps \<longleftrightarrow> list_all2 (patch_ok cb C T) keys ps \<and> (\<forall>r \<in> set keys. ref_valid cb r) \<and>
    (\<forall>k < length (cb_linear cb). RefLinear k \<in> set keys \<longleftrightarrow> lin_dsts cb ! k \<in> C) \<and>
    (\<forall>r. ref_in cb r \<longrightarrow> r \<notin> set keys \<longrightarrow> (\<forall>opnd \<in> set (ref_ops cb r). op_wires (cb_terms cb) opnd \<inter> inlined cb C = {}))"

lemma patches_for_key: "patches_for cb C T keys ps \<Longrightarrow> r \<in> set keys \<Longrightarrow> \<exists>p \<in> set ps. patch_ok cb C T r p"
  unfolding patches_for_def by (metis list_all2_conv_all_nth in_set_conv_nth)

lemma patches_for_patch: "patches_for cb C T keys ps \<Longrightarrow> p \<in> set ps \<Longrightarrow> \<exists>r \<in> set keys. patch_ok cb C T r p"
  unfolding patches_for_def by (metis list_all2_conv_all_nth in_set_conv_nth)

lemma subsumed_keys:
  assumes "patches_for cb C T keys ps"
  shows "set keys \<subseteq> subsumed ps" "subsumed ps \<subseteq> set keys \<union> inlined_refs cb C"
proof -
  show "set keys \<subseteq> subsumed ps" using patches_for_key[OF assms] by (fastforce simp: subsumed_def patch_ok_def)
  show "subsumed ps \<subseteq> set keys \<union> inlined_refs cb C" using patches_for_patch[OF assms] by (fastforce simp: subsumed_def patch_ok_def)
qed

lemma subsumed_valid:
  assumes "patches_for cb C T keys ps"
  shows "\<forall>r \<in> subsumed ps. ref_valid cb r"
  using subsumed_keys(2)[OF assms] assms by (auto simp: patches_for_def inlined_refs_def)

lemma patched_kind:
  assumes pf: "patches_for cb C T keys ps"
    and rep: "\<And>i p. patch_ok cb C T (ref i) p \<Longrightarrow> \<exists>c. sel (added p) = Some c \<and> list_all2 (rebuilt cb C T) (ops (cs ! i)) (ops c)"
    and sel: "\<And>r p c. patch_ok cb C T r p \<Longrightarrow> sel (added p) = Some c \<Longrightarrow> \<exists>i. r = ref i"
    and ref: "\<And>i. ref i \<notin> inlined_refs cb C" "\<And>i. ref_valid cb (ref i) \<longleftrightarrow> i < length cs" "\<And>i. ref_in cb (ref i) \<longleftrightarrow> i < length cs"
    and free: "\<And>i. set (ops (cs ! i)) = set (ref_ops cb (ref i))"
  shows "repatched cb C T ops cs (kept_by ref (subsumed ps) cs @ news sel ps)"
proof -
  have sub: "ref i \<in> subsumed ps \<longleftrightarrow> ref i \<in> set keys" for i using subsumed_keys[OF pf] ref(1)[of i] by blast
  have key: "i < length cs" if "ref i \<in> set keys" for i using pf that ref(2) by (auto simp: patches_for_def)
  have new: "\<exists>d \<in> set cs. list_all2 (rebuilt cb C T) (ops d) (ops c)" if c: "c \<in> set (news sel ps)" for c
  proof -
    obtain p where p: "p \<in> set ps" "sel (added p) = Some c" using c by (auto simp: in_news)
    obtain r where r: "r \<in> set keys" "patch_ok cb C T r p" using patches_for_patch[OF pf p(1)] by blast
    obtain i where i: "r = ref i" using sel[OF r(2) p(2)] by blast
    then show ?thesis using rep[of i p] r p(2) key[of i] by (intro bexI[of _ "cs ! i"]) auto
  qed
  have kept: "c \<in> set cs \<and> (\<forall>opnd \<in> set (ops c). op_wires (cb_terms cb) opnd \<inter> inlined cb C = {})"
    if c: "c \<in> set (kept_by ref (subsumed ps) cs)" for c
  proof -
    obtain i where i: "i < length cs" "ref i \<notin> set keys" "c = cs ! i" using c sub by (auto simp: in_kept_by)
    then have "\<forall>opnd \<in> set (ref_ops cb (ref i)). op_wires (cb_terms cb) opnd \<inter> inlined cb C = {}"
      using pf ref(3)[of i] unfolding patches_for_def by blast
    then show ?thesis using i free by simp
  qed
  have there: "d \<in> set (kept_by ref (subsumed ps) cs @ news sel ps) \<or>
      (\<exists>c \<in> set (kept_by ref (subsumed ps) cs @ news sel ps). list_all2 (rebuilt cb C T) (ops d) (ops c))" if d: "d \<in> set cs" for d
  proof -
    obtain i where i: "i < length cs" "cs ! i = d" using d by (auto simp: in_set_conv_nth)
    show ?thesis
    proof (cases "ref i \<in> set keys")
      case True
      obtain p where p: "p \<in> set ps" "patch_ok cb C T (ref i) p" using patches_for_key[OF pf True] by blast
      then obtain c where "sel (added p) = Some c" "list_all2 (rebuilt cb C T) (ops d) (ops c)" using rep[OF p(2)] i(2) by auto
      then show ?thesis using p(1) by (auto simp: in_news)
    next
      case False
      then have "ref i \<notin> subsumed ps" by (simp add: sub)
      then have "d \<in> set (kept_by ref (subsumed ps) cs)" unfolding in_kept_by using i by blast
      then show ?thesis by simp
    qed
  qed
  show ?thesis unfolding repatched_def using new kept there by auto
qed

lemma patched_kinds:
  assumes pf: "patches_for cb C T keys ps"
  shows "repatched cb C T and_ops (cb_and cb) (kept_by RefAnd (subsumed ps) (cb_and cb) @ news sel_and ps)"
    "repatched cb C T imul_ops (cb_imul cb) (kept_by RefImul (subsumed ps) (cb_imul cb) @ news sel_imul ps)"
    "repatched cb C T bmul_ops (cb_bmul cb) (kept_by RefBmul (subsumed ps) (cb_bmul cb) @ news sel_bmul ps)"
    "repatched cb C T zero_ops (cb_zero cb) (kept_by RefZero (subsumed ps) (cb_zero cb) @ news sel_zero ps)"
proof -
  have sel: "sel_and a = Some c \<Longrightarrow> replaces cb C T r a \<Longrightarrow> \<exists>i. r = RefAnd i" "sel_imul a = Some d \<Longrightarrow> replaces cb C T r a \<Longrightarrow> \<exists>i. r = RefImul i"
    "sel_bmul a = Some e \<Longrightarrow> replaces cb C T r a \<Longrightarrow> \<exists>i. r = RefBmul i" "sel_zero a = Some z \<Longrightarrow> replaces cb C T r a \<Longrightarrow> \<exists>i. r = RefZero i"
    for a c d e z r
    by (cases r; auto simp: sel_defs)+
  show "repatched cb C T and_ops (cb_and cb) (kept_by RefAnd (subsumed ps) (cb_and cb) @ news sel_and ps)"
    by (rule patched_kind[OF pf]) (use sel(1) in \<open>auto simp: patch_ok_def sel_defs inlined_refs_def\<close>)
  show "repatched cb C T imul_ops (cb_imul cb) (kept_by RefImul (subsumed ps) (cb_imul cb) @ news sel_imul ps)"
    by (rule patched_kind[OF pf]) (use sel(2) in \<open>auto simp: patch_ok_def sel_defs inlined_refs_def imul_ops_def Let_def\<close>)
  show "repatched cb C T bmul_ops (cb_bmul cb) (kept_by RefBmul (subsumed ps) (cb_bmul cb) @ news sel_bmul ps)"
    by (rule patched_kind[OF pf]) (use sel(3) in \<open>auto simp: patch_ok_def sel_defs inlined_refs_def\<close>)
  show "repatched cb C T zero_ops (cb_zero cb) (kept_by RefZero (subsumed ps) (cb_zero cb) @ news sel_zero ps)"
    by (rule patched_kind[OF pf]) (use sel(4) in \<open>auto simp: patch_ok_def sel_defs inlined_refs_def\<close>)
qed

text \<open>The linear constraints after patching: definitions nothing reached, and the rebuilt committed ones.\<close>

lemma patched_linear:
  assumes pf: "patches_for cb C T keys ps" and c: "c \<in> set (kept_by RefLinear (subsumed ps) (cb_linear cb) @ news sel_linear ps)"
  obtains (kept) k where "k < length (cb_linear cb)" "lin_dsts cb ! k \<notin> C" "c = cb_linear cb ! k"
    | (committed) k where "k < length (cb_linear cb)" "lin_dsts cb ! k \<in> C" "wl_dst c = lin_dsts cb ! k"
        "rebuilt cb C T (wl_rhs (cb_linear cb ! k)) (wl_rhs c)"
proof -
  from c consider k where "k < length (cb_linear cb)" "RefLinear k \<notin> subsumed ps" "c = cb_linear cb ! k"
    | p where "p \<in> set ps" "sel_linear (added p) = Some c" by (auto simp: in_kept_by in_news)
  then show ?thesis
  proof cases
    case (1 k)
    then have "lin_dsts cb ! k \<notin> C" using subsumed_keys(1)[OF pf] pf by (auto simp: patches_for_def)
    then show ?thesis using kept 1 by blast
  next
    case (2 p)
    obtain r where r: "r \<in> set keys" "patch_ok cb C T r p" using patches_for_patch[OF pf 2(1)] by blast
    then have "replaces cb C T r (added p)" by (simp add: patch_ok_def)
    then have "\<exists>k. r = RefLinear k" using 2(2) by (cases r) (auto simp: sel_linear_def)
    then obtain k where k: "r = RefLinear k" ..
    then have "ref_valid cb (RefLinear k)" using pf r(1) by (auto simp: patches_for_def)
    then have kn: "k < length (cb_linear cb)" by simp
    then have "lin_dsts cb ! k \<in> C" using pf r(1) k by (auto simp: patches_for_def)
    then show ?thesis using committed[OF kn] r(2) k 2(2) by (auto simp: patch_ok_def sel_linear_def)
  qed
qed

lemma linear_sat_val: "linear_sat \<sigma> T c \<longleftrightarrow> terms_val \<sigma> (op_terms T (wl_rhs c)) = \<sigma> (wl_dst c)"
  by (simp add: linear_sat_def op_val_terms)

lemma meets_linear: "meets cb C \<sigma> \<Longrightarrow> k < length (cb_linear cb) \<Longrightarrow> lin_dsts cb ! k \<notin> C \<Longrightarrow> linear_sat \<sigma> (cb_terms cb) (cb_linear cb ! k)"
  by (simp add: meets_def linear_sat_val lin_terms_def lin_dsts_def)

lemma linear_ext: "fusable cb \<Longrightarrow> k < length (cb_linear cb) \<Longrightarrow>
    linear_sat \<sigma> (cb_terms cb @ us) (cb_linear cb ! k) = linear_sat \<sigma> (cb_terms cb) (cb_linear cb ! k)"
  using rhs_in_arena[of cb k] by (simp add: linear_sat_def)

lemma patched_linear_sat:
  assumes fus: "fusable cb" and pf: "patches_for cb C (cb_terms cb @ us) keys ps" and m: "meets cb C \<sigma>"
  shows "(\<forall>c \<in> set (kept_by RefLinear (subsumed ps) (cb_linear cb) @ news sel_linear ps). linear_sat \<sigma> (cb_terms cb @ us) c) \<longleftrightarrow>
    (\<forall>c \<in> set (cb_linear cb). linear_sat \<sigma> (cb_terms cb) c)" (is "?l \<longleftrightarrow> ?r")
proof
  assume l: ?l
  show ?r
  proof
    fix c assume "c \<in> set (cb_linear cb)"
    then obtain k where k: "k < length (cb_linear cb)" "c = cb_linear cb ! k" by (auto simp: in_set_conv_nth)
    show "linear_sat \<sigma> (cb_terms cb) c"
    proof (cases "lin_dsts cb ! k \<in> C")
      case True
      then have "RefLinear k \<in> set keys" using pf k(1) by (simp add: patches_for_def)
      then obtain p where p: "p \<in> set ps" "patch_ok cb C (cb_terms cb @ us) (RefLinear k) p" using patches_for_key[OF pf] by blast
      then obtain d where d: "added p = AddLinear d" "wl_dst d = lin_dsts cb ! k"
        "rebuilt cb C (cb_terms cb @ us) (wl_rhs (cb_linear cb ! k)) (wl_rhs d)" by (auto simp: patch_ok_def)
      then have "d \<in> set (news sel_linear ps)" unfolding in_news using p(1) by (auto simp: sel_linear_def intro!: bexI[of _ p])
      then have "linear_sat \<sigma> (cb_terms cb @ us) d" using l by simp
      then show ?thesis using d m k by (simp add: linear_sat_def rebuilt_def lin_dsts_def)
    qed (use meets_linear[OF m] k in simp)
  qed
next
  assume r: ?r
  show ?l
  proof
    fix c assume c: "c \<in> set (kept_by RefLinear (subsumed ps) (cb_linear cb) @ news sel_linear ps)"
    show "linear_sat \<sigma> (cb_terms cb @ us) c"
    proof (rule patched_linear[OF pf c])
      fix k assume k: "k < length (cb_linear cb)" "lin_dsts cb ! k \<notin> C" "c = cb_linear cb ! k"
      then show ?thesis using linear_ext[OF fus k(1)] meets_linear[OF m k(1,2)] by simp
    next
      fix k assume k: "k < length (cb_linear cb)" "wl_dst c = lin_dsts cb ! k"
        "rebuilt cb C (cb_terms cb @ us) (wl_rhs (cb_linear cb ! k)) (wl_rhs c)"
      have "linear_sat \<sigma> (cb_terms cb) (cb_linear cb ! k)" using r k(1) by simp
      then show ?thesis using k m by (simp add: linear_sat_def rebuilt_def lin_dsts_def)
    qed
  qed
qed

lemma sat_meets:
  assumes "cb_sat \<sigma> cb"
  shows "meets cb C \<sigma>"
  unfolding meets_def
proof (intro allI impI)
  fix j assume j: "j < length (cb_linear cb)"
  then have "linear_sat \<sigma> (cb_terms cb) (cb_linear cb ! j)" using assms by (simp add: cb_sat_def)
  then show "terms_val \<sigma> (lin_terms cb j) = \<sigma> (lin_dsts cb ! j)" using j by (simp add: linear_sat_val lin_terms_def lin_dsts_def)
qed

lemma patched_sat:
  assumes fus: "fusable cb" and pf: "patches_for cb C (cb_terms cb @ us) keys ps" and m: "meets cb C \<sigma>"
  shows "cb_sat \<sigma> (patched cb us ps) \<longleftrightarrow> cb_sat \<sigma> cb"
proof -
  have arena: "\<forall>c \<in> set (cb_and cb). \<forall>opnd \<in> set (and_ops c). in_arena (cb_terms cb) opnd"
    "\<forall>c \<in> set (cb_imul cb). \<forall>opnd \<in> set (imul_ops c). in_arena (cb_terms cb) opnd"
    "\<forall>c \<in> set (cb_bmul cb). \<forall>opnd \<in> set (bmul_ops c). in_arena (cb_terms cb) opnd"
    "\<forall>c \<in> set (cb_zero cb). \<forall>opnd \<in> set (zero_ops c). in_arena (cb_terms cb) opnd"
    using fus by (simp_all add: fusable_def cb_wf_def Let_def ops_defs)
  note k = patched_kinds[OF pf]
  show ?thesis
    unfolding cb_sat_def patched_def constraint_builder.simps
      repatched_sat[OF k(1) kinds_by_operands(1) m arena(1)] repatched_sat[OF k(2) kinds_by_operands(2) m arena(2)]
      repatched_sat[OF k(3) kinds_by_operands(3) m arena(3)] repatched_sat[OF k(4) kinds_by_operands(4) m arena(4)]
      patched_linear_sat[OF fus pf m] ..
qed

lemma patched_resolved:
  assumes fus: "fusable cb" and pf: "patches_for cb C (cb_terms cb @ us) keys ps" and s: "cb_sat \<sigma> (patched cb us ps)"
    and m: "meets cb C \<tau>" and eq: "\<forall>w. w \<notin> inlined cb C \<longrightarrow> \<tau> w = \<sigma> w"
  shows "cb_sat \<tau> (patched cb us ps)"
proof -
  let ?T = "cb_terms cb @ us"
  have arena: "\<forall>c \<in> set (cb_and cb). \<forall>opnd \<in> set (and_ops c). in_arena (cb_terms cb) opnd"
    "\<forall>c \<in> set (cb_imul cb). \<forall>opnd \<in> set (imul_ops c). in_arena (cb_terms cb) opnd"
    "\<forall>c \<in> set (cb_bmul cb). \<forall>opnd \<in> set (bmul_ops c). in_arena (cb_terms cb) opnd"
    "\<forall>c \<in> set (cb_zero cb). \<forall>opnd \<in> set (zero_ops c). in_arena (cb_terms cb) opnd"
    using fus by (simp_all add: fusable_def cb_wf_def Let_def ops_defs)
  note k = patched_kinds[OF pf]
  have lin: "linear_sat \<tau> ?T c" if c: "c \<in> set (kept_by RefLinear (subsumed ps) (cb_linear cb) @ news sel_linear ps)"
    and sc: "linear_sat \<sigma> ?T c" for c
  proof (rule patched_linear[OF pf c])
    fix j assume j: "j < length (cb_linear cb)" "lin_dsts cb ! j \<notin> C" "c = cb_linear cb ! j"
    then show ?thesis using linear_ext[OF fus j(1)] meets_linear[OF m j(1,2)] by simp
  next
    fix j assume j: "j < length (cb_linear cb)" "lin_dsts cb ! j \<in> C" "wl_dst c = lin_dsts cb ! j"
      "rebuilt cb C ?T (wl_rhs (cb_linear cb ! j)) (wl_rhs c)"
    have "op_val \<tau> ?T (wl_rhs c) = op_val \<sigma> ?T (wl_rhs c)" by (rule op_val_agree) (use j(4) eq in \<open>auto simp: rebuilt_def\<close>)
    moreover have "\<tau> (wl_dst c) = \<sigma> (wl_dst c)" using eq j(2,3) by (simp add: inlined_def)
    ultimately show ?thesis using sc by (simp add: linear_sat_def)
  qed
  note ag = repatched_agree[OF k(1) kinds_by_operands(1) arena(1) eq] repatched_agree[OF k(2) kinds_by_operands(2) arena(2) eq]
    repatched_agree[OF k(3) kinds_by_operands(3) arena(3) eq] repatched_agree[OF k(4) kinds_by_operands(4) arena(4) eq]
  show ?thesis
    using s lin ag unfolding cb_sat_def patched_def constraint_builder.simps by blast
qed

section \<open>The pass\<close>

definition all_refs :: "constraint_builder \<Rightarrow> constraint_ref list" where
  "all_refs cb = map RefAnd [0..<length (cb_and cb)] @ map RefImul [0..<length (cb_imul cb)] @
    map RefBmul [0..<length (cb_bmul cb)] @ map RefZero [0..<length (cb_zero cb)] @ map RefLinear [0..<length (cb_linear cb)]"

lemma all_refs: "distinct (all_refs cb)" "r \<in> set (all_refs cb) \<longleftrightarrow> ref_valid cb r"
proof -
  show "distinct (all_refs cb)" by (auto simp: all_refs_def distinct_map inj_on_def)
  show "r \<in> set (all_refs cb) \<longleftrightarrow> ref_valid cb r" by (cases r) (auto simp: all_refs_def)
qed

text \<open>The arena after every constraint has been rebuilt once.\<close>

definition fused_size :: "constraint_builder \<Rightarrow> wire set \<Rightarrow> nat" where
  "fused_size cb C = length (cb_terms cb) + sum_list (map (ref_growth cb C) (all_refs cb))"

lemma growth_bound:
  assumes "distinct keys" "\<forall>r \<in> set keys. ref_valid cb r"
  shows "length (cb_terms cb) + sum_list (map (ref_growth cb C) keys) \<le> fused_size cb C"
proof -
  have "sum_list (map (ref_growth cb C) keys) = sum (ref_growth cb C) (set keys)"
    by (rule sum_list_distinct_conv_sum_set[OF assms(1)])
  also have "\<dots> \<le> sum (ref_growth cb C) (set (all_refs cb))"
    by (rule sum_mono2) (use assms(2) all_refs(2) in auto)
  also have "\<dots> = sum_list (map (ref_growth cb C) (all_refs cb))"
    by (rule sum_list_distinct_conv_sum_set[OF all_refs(1), symmetric])
  finally show ?thesis by (simp add: fused_size_def)
qed

definition fusion_commits :: "post_order \<Rightarrow> wire set \<Rightarrow> constraint_builder \<Rightarrow> wire set option" where
  "fusion_commits post pinned cb = do {
    leg \<leftarrow> le_new cb;
    leg \<leftarrow> run_decide_commit_set post leg LOWERED_SHIFT_SLOTS;
    Some (lin_committed leg \<union> {w \<in> pinned. is_lin_def leg w})
  }"

definition fusion_room :: "post_order \<Rightarrow> wire set \<Rightarrow> constraint_builder \<Rightarrow> bool" where
  "fusion_room post pinned cb \<longleftrightarrow> (case fusion_commits post pinned cb of Some C \<Rightarrow> fused_size cb C < 2 ^ 32 | None \<Rightarrow> True)"

text \<open>What the traversal does on the graph of a builder.\<close>

definition traverses :: "post_order \<Rightarrow> constraint_builder \<Rightarrow> bool" where
  "traverses post cb \<longleftrightarrow> (case le_new cb of None \<Rightarrow> True
    | Some leg \<Rightarrow> visits (edge_pairs leg) (le_opaque leg) (post (edge_pairs leg) (le_opaque leg)))"

text \<open>The sequences that arrive at a definition are those the contexts of its outgoing edges cover.\<close>

definition arrives_by :: "le_graph \<Rightarrow> commit_cx option list \<Rightarrow> nat \<Rightarrow> shift \<times> shift \<Rightarrow> bool" where
  "arrives_by leg pe j sq \<longleftrightarrow> (\<exists>i < length (le_edges leg). e_src (le_edges leg ! i) = j \<and>
    (\<exists>cx. pe ! i = Some cx \<and> covers_seq (cx_shifts cx) sq))"

lemma decided_fresh:
  assumes d: "decided cb leg P (pe, C)" and P: "\<And>u v. u \<in> P \<Longrightarrow> (u, v) \<in> set (edge_pairs leg) \<Longrightarrow> v \<in> P" "\<And>v. v < length (cb_linear cb) \<Longrightarrow> v \<in> P"
    and e: "e \<in> set (le_edges leg)" "e_src e = j" "j < length (cb_linear cb)"
  shows "arrives_by leg pe j (e_shift e, IDENTITY)"
proof -
  obtain i where i: "i < length (le_edges leg)" "le_edges leg ! i = e" using e(1) by (auto simp: in_set_conv_nth)
  have "(j, e_dst e) \<in> set (edge_pairs leg)" using e(1,2) by (force simp: edge_pairs_def)
  then have "e_dst (le_edges leg ! i) \<in> P" using P e(3) i(2) by blast
  then obtain cx where "pe ! i = Some cx" "cx_ok (e_shift (le_edges leg ! i)) cx"
    using d i(1) unfolding decided_def Let_def fst_conv snd_conv by blast
  then show ?thesis using i e(2) cx_ok_covers by (auto simp: arrives_by_def)
qed

lemma decided_inlinable:
  assumes fus: "fusable cb" and noted: "all_noted cb leg" and d: "decided cb leg P (pe, C)" and C': "C \<subseteq> C'"
    and P: "\<And>v. v < length (cb_linear cb) \<Longrightarrow> v \<in> P"
  shows "inlinable cb C' (arrives_by leg pe)"
  unfolding inlinable_def
proof (intro allI impI ballI)
  fix j sq t assume j: "j < length (cb_linear cb)" "lin_dsts cb ! j \<notin> C'" "arrives_by leg pe j sq" and sq: "seq_wf sq" and t: "t \<in> set (lin_terms cb j)"
  let ?es = "le_edges leg"
  obtain o' out where o': "o' < length ?es" "e_src (?es ! o') = j" "pe ! o' = Some out" "covers_seq (cx_shifts out) sq"
    using j(3) by (auto simp: arrives_by_def)
  have "lin_noted cb j t leg" using noted j(1) t by (simp add: all_noted_def)
  then obtain e where e: "e \<in> set ?es" "e_dst e = j" "e_shift e = fst (sw_seq t)"
    "\<forall>i < length (cb_linear cb). lin_dsts cb ! i = sw_wire t \<longrightarrow> e_src e = i" by (auto simp: lin_noted_def)
  then obtain i where i: "i < length ?es" "?es ! i = e" by (auto simp: in_set_conv_nth)
  have s: "shift_wf (e_shift e)" using fusable_term(2)[OF fus] t e(3) by (simp add: lin_terms_def)
  have dst: "e_dst (?es ! i) \<in> P" "e_dst (?es ! i) < length (cb_linear cb)" "lin_dsts cb ! e_dst (?es ! i) \<notin> C"
    "e_src (?es ! o') = e_dst (?es ! i)" using P[OF j(1)] j C' o'(2) i(2) e(2) by auto
  obtain cx ot where l: "pe ! i = Some cx" "pe ! o' = Some ot" "linked (e_shift (?es ! i)) cx ot"
    using d i(1) o'(1) dst unfolding decided_def Let_def fst_conv snd_conv by blast
  then have lk: "linked (e_shift e) cx out" using o'(3) i(2) by simp
  note lp = linked_push[OF lk o'(4) sq s]
  show "push_inner sq (fst (sw_seq t)) 2 \<noteq> Some OverBudget \<and>
      (\<forall>sq' i. push_inner sq (fst (sw_seq t)) 2 = Some (Seq sq') \<longrightarrow> i < length (cb_linear cb) \<longrightarrow> lin_dsts cb ! i = sw_wire t \<longrightarrow>
        arrives_by leg pe i sq')"
  proof (intro conjI allI impI)
    show "push_inner sq (fst (sw_seq t)) 2 \<noteq> Some OverBudget" using lp(1) e(3) by simp
    fix sq' m assume m: "push_inner sq (fst (sw_seq t)) 2 = Some (Seq sq')" "m < length (cb_linear cb)" "lin_dsts cb ! m = sw_wire t"
    have "covers_seq (cx_shifts cx) sq'" using lp(2) m(1) e(3) by simp
    moreover have "e_src e = m" using e(4) m(2,3) by blast
    ultimately show "arrives_by leg pe m sq'" unfolding arrives_by_def using i l(1) by blast
  qed
qed

lemma decided_ready:
  assumes fus: "fusable cb" and inv: "le_inv cb leg" and noted: "all_noted cb leg" and d: "decided cb leg P (pe, C)"
    and P: "\<And>u v. u \<in> P \<Longrightarrow> (u, v) \<in> set (edge_pairs leg) \<Longrightarrow> v \<in> P" "\<And>v. v < length (cb_linear cb) \<Longrightarrow> v \<in> P"
    and r: "ref_valid cb r" and opnd: "opnd \<in> set (ref_ops cb r)"
  shows "operand_ready cb C' (arrives_by leg pe) opnd"
proof -
  have arena: "in_arena (cb_terms cb) opnd"
    using fus r opnd by (cases r) (auto simp: fusable_def cb_wf_def Let_def ops_defs)
  have "arrives_by leg pe j (fst (sw_seq t), IDENTITY)"
    if t: "t \<in> set (op_terms (cb_terms cb) opnd)" and j: "j < length (cb_linear cb)" "lin_dsts cb ! j = sw_wire t" for t j
  proof -
    have "\<exists>e \<in> set (le_edges leg). e_src e = j \<and> e_shift e = fst (sw_seq t)"
    proof (cases r)
      case (RefLinear k)
      then have "lin_noted cb k t leg" using noted r opnd t by (simp add: all_noted_def lin_terms_def)
      then show ?thesis using j by (auto simp: lin_noted_def)
    next
      case (RefAnd i)
      then have "root_noted cb (RefAnd i) t leg" using noted r opnd t by (auto simp: all_noted_def ops_noted_def)
      then show ?thesis using j by (auto simp: root_noted_def)
    next
      case (RefImul i)
      have "set (imul_ops c) = {wi_a c, wi_b c, wi_lo c, wi_hi c}" for c by (auto simp: imul_ops_def)
      then have "root_noted cb (RefImul i) t leg" using RefImul noted r opnd t by (auto simp: all_noted_def ops_noted_def Let_def)
      then show ?thesis using j by (auto simp: root_noted_def)
    next
      case (RefBmul i)
      then have "root_noted cb (RefBmul i) t leg" using noted r opnd t by (auto simp: all_noted_def ops_noted_def)
      then show ?thesis using j by (auto simp: root_noted_def)
    next
      case (RefZero i)
      then have "root_noted cb (RefZero i) t leg" using noted r opnd t by (auto simp: all_noted_def ops_noted_def)
      then show ?thesis using j by (auto simp: root_noted_def)
    qed
    then obtain e where e: "e \<in> set (le_edges leg)" "e_src e = j" "e_shift e = fst (sw_seq t)" by blast
    have "arrives_by leg pe j (e_shift e, IDENTITY)" by (rule decided_fresh[OF d _ _ e(1,2) j(1)]) (use P in blast)+
    then show ?thesis using e(3) by simp
  qed
  moreover have "sw_seq t = (fst (sw_seq t), IDENTITY)" if "t \<in> set (op_terms (cb_terms cb) opnd)" for t
    using fusable_term(1)[OF fus that] by (simp add: prod_eq_iff)
  ultimately show ?thesis
    using arena fusable_term(3)[OF fus] unfolding operand_ready_def term_ready_def by metis
qed

lemma distinct_remdups_adj: "sorted xs \<Longrightarrow> distinct (remdups_adj (xs :: 'a :: linorder list))"
proof (induction xs rule: remdups_adj.induct)
  case (3 x y xs)
  show ?case
  proof (cases "x = y")
    case False
    then have "x < z" if "z \<in> set (y # xs)" for z using 3(3) that by (auto simp: less_le)
    then show ?thesis using 3 False by fastforce
  qed (use 3 in simp)
qed simp_all

text \<open>The patches the pass builds, and that they are the ones for the commit set.\<close>

lemma build_patches_ok:
  assumes f: "fusing cb C arrives leg" and inv: "\<forall>r \<in> set (le_roots leg). ref_in cb r"
    and ready: "\<And>r opnd. ref_valid cb r \<Longrightarrow> opnd \<in> set (ref_ops cb r) \<Longrightarrow> operand_ready cb C arrives opnd"
    and free: "\<And>r opnd. ref_in cb r \<Longrightarrow> r \<notin> set (le_roots leg) \<Longrightarrow> opnd \<in> set (ref_ops cb r) \<Longrightarrow> op_wires (cb_terms cb) opnd \<inter> set (lin_dsts cb) = {}"
    and room: "fused_size cb C < 2 ^ 32"
  obtains us ps keys where "build_patches cb leg = Some (ps, with_terms cb us)" "patches_for cb C (cb_terms cb @ us) keys ps"
    "us = concat (map (ref_grown cb C) keys)"
proof -
  have C: "lin_committed leg = C" "C \<subseteq> set (lin_dsts cb)" and idx: "\<And>k. k < length (cb_linear cb) \<Longrightarrow> wire_to_lin_def leg (lin_dsts cb ! k) = Some k"
    and fus: "fusable cb"
    using f by (simp_all add: fusing_def le_for_def)
  have fin: "finite C" using C(2) finite_subset by blast
  let ?rs = "remdups_adj (sort (le_roots leg))" and ?ws = "sorted_list_of_set C"
  define key where "key w = RefLinear (the (wire_to_lin_def leg w))" for w
  let ?keys = "?rs @ map key ?ws"
  have rs: "set ?rs = set (le_roots leg)" "distinct ?rs" by (simp_all add: distinct_remdups_adj)
  have ws: "set ?ws = C" "distinct ?ws" using fin by simp_all
  have in_ws: "\<exists>k < length (cb_linear cb). w = lin_dsts cb ! k \<and> key w = RefLinear k" if w: "w \<in> C" for w
  proof -
    have w': "w \<in> set (lin_dsts cb)" using C(2) w by blast
    obtain k where "k < length (cb_linear cb)" "lin_dsts cb ! k = w" using lin_index[OF w'] by blast
    then show ?thesis using idx by (auto simp: key_def)
  qed
  have inj: "inj_on key C"
    by (rule inj_onI) (metis in_ws constraint_ref.inject(5))
  have not_lin: "RefLinear k \<notin> set ?rs" for k using inv rs(1) by (metis ref_in.simps(5))
  have dist: "distinct ?keys"
    using rs(2) ws inj in_ws not_lin by (auto simp: distinct_map) (metis not_lin rs(1))
  have rin: "ref_in cb r \<Longrightarrow> ref_valid cb r" for r by (cases r) simp_all
  have valid: "\<forall>r \<in> set ?keys. ref_valid cb r" using inv rs(1) rin ws(1) in_ws by fastforce
  have total: "length (cb_terms cb) + sum_list (map (ref_growth cb C) ?keys) < 2 ^ 32"
    using growth_bound[OF dist valid, of C] room by simp
  let ?u1 = "concat (map (ref_grown cb C) ?rs)" and ?u2 = "concat (map (ref_grown cb C \<circ> key) ?ws)"
  have "\<exists>ps. each (add_patch (build_root_patch leg)) ?rs ([], with_terms cb []) =
      Some ([] @ ps, with_terms cb ([] @ concat (map (ref_grown cb C \<circ> (\<lambda>r. r)) ?rs))) \<and>
      list_all2 (\<lambda>x p. patch_ok cb C (cb_terms cb @ [] @ concat (map (ref_grown cb C \<circ> (\<lambda>r. r)) ?rs)) x p) ?rs ps"
  proof (rule patches_run)
    show "patches_ref cb C (build_root_patch leg r) r" if "r \<in> set ?rs" for r
      by (rule root_patch_ok[OF f]) (use that inv rs(1) ready rin in auto)
  qed (use total in \<open>simp add: o_def\<close>)
  then obtain ps1 where p1: "each (add_patch (build_root_patch leg)) ?rs ([], cb) = Some (ps1, with_terms cb ?u1)"
    "list_all2 (patch_ok cb C (cb_terms cb @ ?u1)) ?rs ps1" by (auto simp: o_def)
  have "length (cb_terms cb @ ?u1) + sum_list (map (ref_growth cb C \<circ> key) ?ws) < 2 ^ 32"
  proof -
    have "length ?u1 = sum_list (map (ref_growth cb C) ?rs)" by (simp add: length_concat o_def length_ref_grown)
    then show ?thesis using total by (simp add: o_def)
  qed
  moreover have "patches_ref cb C (build_committed_lin_def_patch leg w) (key w)" if w: "w \<in> set ?ws" for w
  proof -
    have "w \<in> C" using w ws(1) by blast
    then obtain k where k: "k < length (cb_linear cb)" "w = lin_dsts cb ! k" "key w = RefLinear k" using in_ws by blast
    have "patches_ref cb C (build_committed_lin_def_patch leg (lin_dsts cb ! k)) (RefLinear k)"
      by (rule committed_patch_ok[OF f k(1)]) (use ready[of "RefLinear k"] k(1) in simp)
    then show ?thesis using k by simp
  qed
  ultimately have "\<exists>ps. each (add_patch (build_committed_lin_def_patch leg)) ?ws (ps1, with_terms cb ?u1) = Some (ps1 @ ps, with_terms cb (?u1 @ ?u2)) \<and>
      list_all2 (\<lambda>w p. patch_ok cb C (cb_terms cb @ ?u1 @ ?u2) (key w) p) ?ws ps"
    by (intro patches_run)
  then obtain ps2 where p2: "each (add_patch (build_committed_lin_def_patch leg)) ?ws (ps1, with_terms cb ?u1) = Some (ps1 @ ps2, with_terms cb (?u1 @ ?u2))"
    "list_all2 (\<lambda>w p. patch_ok cb C (cb_terms cb @ ?u1 @ ?u2) (key w) p) ?ws ps2" by blast
  have us: "?u1 @ ?u2 = concat (map (ref_grown cb C) ?keys)" by (simp add: o_def)
  show ?thesis
  proof (rule that[of "ps1 @ ps2" "?u1 @ ?u2" ?keys])
    show "build_patches cb leg = Some (ps1 @ ps2, with_terms cb (?u1 @ ?u2))"
      by (simp add: build_patches_def build_root_patches_def p1(1) p2(1) C(1))
    have "list_all2 (patch_ok cb C (cb_terms cb @ ?u1 @ ?u2)) ?rs ps1"
      using p1(2) by (rule list_all2_mono) (use patch_ok_ext[of cb C "cb_terms cb @ ?u1" _ _ ?u2] in simp)
    moreover have "list_all2 (patch_ok cb C (cb_terms cb @ ?u1 @ ?u2)) (map key ?ws) ps2" using p2(2) by (simp add: list_all2_map1)
    ultimately have l: "list_all2 (patch_ok cb C (cb_terms cb @ ?u1 @ ?u2)) ?keys (ps1 @ ps2)" by (rule list_all2_appendI)
    have lin: "RefLinear k \<in> set ?keys \<longleftrightarrow> lin_dsts cb ! k \<in> C" if k: "k < length (cb_linear cb)" for k
    proof
      assume "RefLinear k \<in> set ?keys"
      then obtain w where w: "w \<in> C" "RefLinear k = key w" using not_lin ws(1) by auto
      then show "lin_dsts cb ! k \<in> C" using in_ws by fastforce
    next
      assume "lin_dsts cb ! k \<in> C"
      then have "lin_dsts cb ! k \<in> set ?ws" "key (lin_dsts cb ! k) = RefLinear k" using ws(1) idx[OF k] by (simp_all add: key_def)
      then have "RefLinear k \<in> key ` set ?ws" by (metis imageI)
      then show "RefLinear k \<in> set ?keys" by simp
    qed
    have fr: "op_wires (cb_terms cb) opnd \<inter> inlined cb C = {}"
      if "ref_in cb r" "r \<notin> set ?keys" "opnd \<in> set (ref_ops cb r)" for r opnd
      using free[OF that(1) _ that(3)] that(2) rs(1) by (auto simp: inlined_def)
    show "patches_for cb C (cb_terms cb @ ?u1 @ ?u2) ?keys (ps1 @ ps2)"
      unfolding patches_for_def using l valid lin fr by blast
  qed (rule us)
qed

lemma patched_wf:
  assumes fus: "fusable cb" and pf: "patches_for cb C (cb_terms cb @ us) keys ps"
  shows "cb_wf (patched cb us ps)"
proof -
  let ?T = "cb_terms cb @ us"
  have arena: "\<forall>c \<in> set (cb_and cb). \<forall>opnd \<in> set (and_ops c). in_arena (cb_terms cb) opnd"
    "\<forall>c \<in> set (cb_imul cb). \<forall>opnd \<in> set (imul_ops c). in_arena (cb_terms cb) opnd"
    "\<forall>c \<in> set (cb_bmul cb). \<forall>opnd \<in> set (bmul_ops c). in_arena (cb_terms cb) opnd"
    "\<forall>c \<in> set (cb_zero cb). \<forall>opnd \<in> set (zero_ops c). in_arena (cb_terms cb) opnd"
    using fus by (simp_all add: fusable_def cb_wf_def Let_def ops_defs)
  note k = patched_kinds[OF pf]
  have lin: "in_arena ?T (wl_rhs c)" if c: "c \<in> set (kept_by RefLinear (subsumed ps) (cb_linear cb) @ news sel_linear ps)" for c
    by (rule patched_linear[OF pf c]) (use rhs_in_arena[OF fus] in \<open>auto simp: rebuilt_def\<close>)
  note ar = repatched_wires(1)[OF k(1) arena(1)] repatched_wires(1)[OF k(2) arena(2)] repatched_wires(1)[OF k(3) arena(3)]
    repatched_wires(1)[OF k(4) arena(4)]
  show ?thesis
    unfolding cb_wf_def Let_def patched_def constraint_builder.simps
    using lin ar(1)[unfolded and_ops_def] ar(2)[unfolded imul_ops_def] ar(3)[unfolded bmul_ops_def] ar(4)[unfolded zero_ops_def] by auto
qed

lemma patched_in:
  assumes fus: "fusable cb" and pf: "patches_for cb C (cb_terms cb @ us) keys ps" and W: "cb_in W cb" and us: "\<forall>u \<in> set us. term_in W u"
  shows "cb_in W (patched cb us ps)"
proof -
  have dst: "lin_dsts cb ! k \<in> W" if "k < length (cb_linear cb)" for k using W that by (auto simp: cb_in_def lin_dsts_def)
  have lin: "wl_dst c \<in> W" if c: "c \<in> set (kept_by RefLinear (subsumed ps) (cb_linear cb) @ news sel_linear ps)" for c
    by (rule patched_linear[OF pf c]) (use dst in \<open>auto simp: lin_dsts_def\<close>)
  show ?thesis
    unfolding cb_in_def patched_def constraint_builder.simps using W us lin by (auto simp: cb_in_def)
qed

lemma fusion_run_pass_ok:
  assumes fus: "fusable cb" and W: "cb_in W cb" and post: "traverses post cb" and room: "fusion_room post pinned cb"
  obtains cb' C where "fusion_run_pass post pinned cb = Some cb'" "fusion_commits post pinned cb = Some C" "cb_wf cb'" "cb_in W cb'"
    "pinned \<inter> set (lin_dsts cb) \<subseteq> C" "C \<subseteq> set (lin_dsts cb)"
    "\<And>\<sigma>. meets cb C \<sigma> \<Longrightarrow> cb_sat \<sigma> cb' \<longleftrightarrow> cb_sat \<sigma> cb"
    "\<And>\<sigma>. cb_sat \<sigma> cb' \<Longrightarrow> \<exists>\<sigma>'. cb_sat \<sigma>' cb \<and> (\<forall>w. w \<notin> inlined cb C \<longrightarrow> \<sigma>' w = \<sigma> w)"
proof -
  obtain leg where leg: "le_new cb = Some leg" "le_inv cb leg" "all_noted cb leg" by (rule le_new_spec[OF fus])
  have v: "visits (edge_pairs leg) (le_opaque leg) (post (edge_pairs leg) (le_opaque leg))" using post leg(1) by (simp add: traverses_def)
  obtain pe C0 P where d: "run_decide_commit_set post leg 2 = Some (leg\<lparr>lin_committed := C0\<rparr>)" "decided cb leg P (pe, C0)"
    "\<And>v. v < length (cb_linear cb) \<Longrightarrow> v \<in> P" "\<And>u v. u \<in> P \<Longrightarrow> (u, v) \<in> set (edge_pairs leg) \<Longrightarrow> v \<in> P"
    by (rule decide_ok[where post = post, OF fus leg(2,3) v]) blast
  have ok: "lin_def leg = set (lin_dsts cb)" "\<And>k. k < length (cb_linear cb) \<Longrightarrow> wire_to_lin_def leg (lin_dsts cb ! k) = Some k"
    and roots: "\<forall>r \<in> set (le_roots leg). ref_in cb r"
    using leg(2) unfolding le_inv_def le_ok_def Let_def by blast+
  have sub: "C0 \<subseteq> set (lin_dsts cb)" using d(2) dsts_in[of _ cb] unfolding decided_def Let_def fst_conv snd_conv by blast
  let ?C = "C0 \<union> {w \<in> pinned. w \<in> set (lin_dsts cb)}"
  let ?leg = "leg\<lparr>lin_committed := ?C\<rparr>" and ?arr = "arrives_by leg pe"
  have f: "fusing cb ?C ?arr ?leg"
    unfolding fusing_def using fus ok sub decided_inlinable[OF fus leg(3) d(2) _ d(3), of ?C] by (auto simp: le_for_def)
  have ready: "operand_ready cb ?C ?arr opnd" if "ref_valid cb r" "opnd \<in> set (ref_ops cb r)" for r opnd
    by (rule decided_ready[OF fus leg(2,3) d(2) _ _ that]) (use d(3,4) in blast)+
  have free: "op_wires (cb_terms cb) opnd \<inter> set (lin_dsts cb) = {}"
    if r: "ref_in cb r" "r \<notin> set (le_roots leg)" "opnd \<in> set (ref_ops cb r)" for r opnd
  proof (rule ccontr)
    assume "op_wires (cb_terms cb) opnd \<inter> set (lin_dsts cb) \<noteq> {}"
    then obtain t where t: "t \<in> set (op_terms (cb_terms cb) opnd)" "sw_wire t \<in> set (lin_dsts cb)" by (auto simp: op_wires_def)
    obtain j where j: "j < length (cb_linear cb)" "lin_dsts cb ! j = sw_wire t" using lin_index[OF t(2)] by blast
    have "set (imul_ops c) = {wi_a c, wi_b c, wi_lo c, wi_hi c}" for c by (auto simp: imul_ops_def)
    then have "root_noted cb r t leg" using leg(3) r(1,3) t(1) by (cases r) (auto simp: all_noted_def ops_noted_def Let_def)
    then show False using j r(2) by (auto simp: root_noted_def)
  qed
  have run: "run_decide_commit_set post leg LOWERED_SHIFT_SLOTS = Some (leg\<lparr>lin_committed := C0\<rparr>)"
    using d(1) by (simp add: LOWERED_SHIFT_SLOTS_def)
  have set_eq: "{w \<in> pinned. is_lin_def (leg\<lparr>lin_committed := C0\<rparr>) w} = {w \<in> pinned. w \<in> set (lin_dsts cb)}"
    using ok(1) by (simp add: is_lin_def_def)
  have commits: "fusion_commits post pinned cb = Some ?C" by (simp add: fusion_commits_def leg(1) run set_eq)
  then have size: "fused_size cb ?C < 2 ^ 32" using room by (simp add: fusion_room_def)
  obtain us ps keys where b: "build_patches cb ?leg = Some (ps, with_terms cb us)" "patches_for cb ?C (cb_terms cb @ us) keys ps"
    "us = concat (map (ref_grown cb ?C) keys)"
    by (rule build_patches_ok[OF f _ ready _ size]) (use roots free in simp_all)
  have "term_in W u" if u: "u \<in> set us" for u
  proof -
    obtain r opnd where r: "r \<in> set keys" "opnd \<in> set (ref_ops cb r)" "u \<in> set (inlined_terms cb ?C opnd)"
      using u b(3) by (auto simp: ref_grown_def)
    have "ref_valid cb r" using b(2) r(1) by (simp add: patches_for_def)
    from inlined_terms_in(1)[OF f ready[OF this r(2)] W r(3)] show ?thesis .
  qed
  then have us: "\<forall>u \<in> set us. term_in W u" by blast
  show ?thesis
  proof (rule that[of "patched cb us ps" ?C])
    show "fusion_run_pass post pinned cb = Some (patched cb us ps)"
      using apply_patches_eq[OF subsumed_valid[OF b(2)]] by (simp add: fusion_run_pass_def leg(1) run set_eq Let_def b(1))
    show "cb_wf (patched cb us ps)" by (rule patched_wf[OF fus b(2)])
    show "cb_in W (patched cb us ps)" by (rule patched_in[OF fus b(2) W us])
    show "cb_sat \<sigma> (patched cb us ps) \<longleftrightarrow> cb_sat \<sigma> cb" if "meets cb ?C \<sigma>" for \<sigma>
      by (rule patched_sat[OF fus b(2) that])
    show "\<exists>\<sigma>'. cb_sat \<sigma>' cb \<and> (\<forall>w. w \<notin> inlined cb ?C \<longrightarrow> \<sigma>' w = \<sigma> w)" if s: "cb_sat \<sigma> (patched cb us ps)" for \<sigma>
    proof -
      let ?t = "complete_to cb ?C \<sigma> (length (cb_linear cb))"
      have eq: "\<forall>w. w \<notin> inlined cb ?C \<longrightarrow> ?t w = \<sigma> w" by (simp add: complete_to_other)
      note m = complete_to_meets[OF fus, of ?C \<sigma>]
      have "cb_sat ?t (patched cb us ps)" by (rule patched_resolved[OF fus b(2) s m eq])
      then show ?thesis using patched_sat[OF fus b(2) m] eq by blast
    qed
  qed (use commits sub in auto)
qed

end
