(* ===== verification/Fusion_Facts.thy ===== *)
theory Fusion_Facts
  imports Fusion
begin

text \<open>
  What gate fusion promises: summaries bound the shifts a path leaves on a term, and the fused builder
  says the same as the one it was given.  The sample commits one definition of three and inlines two.
\<close>

section \<open>Summaries of paths\<close>

text \<open>The sequence of a path, as inlining builds it: outermost shift first, each further one applied inside
  those before.\<close>

primrec push_path :: "shift \<times> shift \<Rightarrow> shift list \<Rightarrow> push_inner_result option" where
  "push_path sq [] = Some (Seq sq)"
| "push_path sq (s # ss) = Option.bind (push_inner sq s LOWERED_SHIFT_SLOTS)
    (\<lambda>p. case p of Seq sq' \<Rightarrow> push_path sq' ss | Zero \<Rightarrow> Some Zero | OverBudget \<Rightarrow> Some OverBudget)"

lemma with_grows:
  assumes sm: "summary_ok sm"
  shows "sm_len sm \<le> sm_len (summary_with sm s)"
proof (cases "is_identity s")
  case False
  show ?thesis by (rule with_cases[OF sm False]) (use sm in \<open>auto simp: summary_ok_def\<close>)
qed simp

lemma path_grows: "summary_ok sm \<Longrightarrow> sm_len sm \<le> sm_len (foldl summary_with sm ss)"
proof (induction ss arbitrary: sm)
  case (Cons s ss)
  then show ?case using order_trans[OF with_grows[of sm s] Cons.IH[of "summary_with sm s"]] by (simp add: summary_with_ok)
qed simp

lemma push_inner_total: "seq_wf sq \<Longrightarrow> shift_wf s \<Longrightarrow> push_inner sq s 2 \<noteq> None"
  using push_inner_sound[of sq s 2] seq_wf_valid[of sq] by (auto simp: shift_wf_def)

lemma push_path_covered:
  "summary_ok sm \<Longrightarrow> covers_seq sm sq \<Longrightarrow> seq_wf sq \<Longrightarrow> list_all shift_wf ss \<Longrightarrow>
    sm_len (foldl summary_with sm ss) \<le> 2 \<Longrightarrow>
    (\<exists>sq'. push_path sq ss = Some (Seq sq') \<and> seq_wf sq' \<and> covers_seq (foldl summary_with sm ss) sq') \<or> push_path sq ss = Some Zero"
proof (induction ss arbitrary: sm sq)
  case (Cons s ss)
  have s: "shift_wf s" using Cons.prems(4) by simp
  have "sm_len (summary_with sm s) \<le> 2" using path_grows[of "summary_with sm s" ss] Cons.prems(1,5) by auto
  then have no: "push_inner sq s 2 \<noteq> Some OverBudget" using push_inner_within Cons.prems(1-3) s by blast
  obtain p where p: "push_inner sq s 2 = Some p" using push_inner_total Cons.prems(3) s by blast
  show ?case
  proof (cases p)
    case (Seq sq')
    then show ?thesis
      using Cons.IH[of "summary_with sm s" sq'] push_inner_covered[OF Cons.prems(1-3) s] push_inner_wf[OF Cons.prems(3) s] Cons.prems p
      by (simp add: LOWERED_SHIFT_SLOTS_def summary_with_ok)
  qed (use p no in \<open>auto simp: LOWERED_SHIFT_SLOTS_def\<close>)
qed simp

text \<open>C23: A path of canonical shifts whose summary counts two slots or fewer is spelled by inlining as one
  well-formed sequence the summary covers, or clears the word: no step of it panics or runs out of slots.\<close>

theorem summary_within_budget:
  assumes "shift_wf s" "list_all shift_wf ss"
    and "sm_len (foldl summary_with (summary_of s) ss) \<le> LOWERED_SHIFT_SLOTS"
  shows "(\<exists>sq. push_path (s, IDENTITY) ss = Some (Seq sq) \<and> seq_wf sq \<and> covers_seq (foldl summary_with (summary_of s) ss) sq) \<or>
    push_path (s, IDENTITY) ss = Some Zero"
proof (rule push_path_covered)
  have "covers_seq (summary_with summary_default s) (s, IDENTITY)" by (rule covers_fresh) simp
  then show "covers_seq (summary_of s) (s, IDENTITY)" by (simp add: summary_of_def)
  show "seq_wf (s, IDENTITY)" using assms(1) by (simp add: seq_wf_def shift_wf_IDENTITY)
qed (use assms in \<open>simp_all add: LOWERED_SHIFT_SLOTS_def\<close>)

abbreviation left_by :: "u8 \<Rightarrow> shift" where "left_by n \<equiv> \<lparr>variant = Sll, amount = n\<rparr>"
abbreviation right_by :: "u8 \<Rightarrow> shift" where "right_by n \<equiv> \<lparr>variant = Slr, amount = n\<rparr>"

theorem summary_within_budget_witness:
  "sm_len (foldl summary_with (summary_of (left_by 5)) [left_by 9, right_by 3]) = 2 \<and>
    (\<exists>sq. push_path (left_by 5, IDENTITY) [left_by 9, right_by 3] = Some (Seq sq) \<and> sq = (right_by 3, left_by 14)) \<and>
    push_path (left_by 5, IDENTITY) [right_by 3, left_by 9] = Some OverBudget"
proof -
  have "sm_len (foldl summary_with (summary_of (left_by 5)) [left_by 9, right_by 3]) = 2" by code_simp
  moreover have "shift_wf (left_by 5)" "list_all shift_wf [left_by 9, right_by 3]" by code_simp+
  moreover have "push_path (left_by 5, IDENTITY) [left_by 9, right_by 3] = Some (Seq (right_by 3, left_by 14))"
    "push_path (left_by 5, IDENTITY) [right_by 3, left_by 9] = Some OverBudget" by code_simp+
  ultimately show ?thesis
    using summary_within_budget[of "left_by 5" "[left_by 9, right_by 3]"] by (simp add: LOWERED_SHIFT_SLOTS_def)
qed

section \<open>The pass\<close>

text \<open>C5: On what the gates emit the pass returns.  Its result is a well-formed builder over the same wires; it
  commits the pinned definitions and inlines others; a valuation that meets the inlined definitions satisfies
  the fused constraints exactly when it satisfies the old ones; and what satisfies the fused constraints
  extends to the old ones by changing inlined wires alone.\<close>

theorem fusion_keeps_meaning:
  assumes "fusable cb" "cb_in W cb" "traverses post cb" "fusion_room post pinned cb"
  shows "\<exists>cb' C. fusion_run_pass post pinned cb = Some cb' \<and> fusion_commits post pinned cb = Some C \<and> cb_wf cb' \<and> cb_in W cb' \<and>
    pinned \<inter> set (lin_dsts cb) \<subseteq> C \<and> C \<subseteq> set (lin_dsts cb) \<and>
    (\<forall>\<sigma>. meets cb C \<sigma> \<longrightarrow> (cb_sat \<sigma> cb' \<longleftrightarrow> cb_sat \<sigma> cb)) \<and>
    (\<forall>\<sigma>. cb_sat \<sigma> cb' \<longrightarrow> (\<exists>\<sigma>'. cb_sat \<sigma>' cb \<and> (\<forall>w. w \<notin> inlined cb C \<longrightarrow> \<sigma>' w = \<sigma> w)))"
  by (rule fusion_run_pass_ok[OF assms]) blast

text \<open>The sample: an exclusive or shifted left, shifted right and left again before it is read.\<close>

definition sample_lin :: "nat \<Rightarrow> nat \<Rightarrow> wire \<Rightarrow> wire_linear" where
  "sample_lin start len dst = \<lparr>wl_rhs = \<lparr>op_start = start, op_len = len\<rparr>, wl_dst = dst\<rparr>"

abbreviation sample_operand :: "nat \<Rightarrow> nat \<Rightarrow> wire_operand" where
  "sample_operand start len \<equiv> \<lparr>op_start = start, op_len = len\<rparr>"

definition sample_fusable :: constraint_builder where
  "sample_fusable =
    \<lparr>cb_and = [\<lparr>wa_a = sample_operand 4 1, wa_b = sample_operand 5 1, wa_c = sample_operand 6 1\<rparr>], cb_imul = [], cb_bmul = [],
     cb_linear = [sample_lin 0 2 2, sample_lin 2 1 3, sample_lin 3 1 4], cb_zero = [],
     cb_terms = [sw_single 0 IDENTITY, sw_single 1 IDENTITY, sw_single 2 (left_by 5), sw_single 3 (right_by 3),
       sw_single 4 (left_by 1), sw_single 5 IDENTITY, sw_single 6 IDENTITY]\<rparr>"

text \<open>Nodes 0 to 2 are the definitions, 3 and 4 the wires 0 and 1, 5 the use in the conjunction.\<close>

definition sample_post :: post_order where
  "sample_post es sources = [5, 2, 1, 0, 3, 4]"

lemma sample_visits: "visits [(3, 0), (4, 0), (0, 1), (1, 2), (2, 5)] [3, 4] [5, 2, 1, 0, 3, 4 :: nat]"
proof -
  let ?E = "set [(3, 0), (4, 0), (0, 1), (1, 2), (2, 5 :: nat)]"
  have all: "v \<in> {5, 2, 1, 0, 3, 4}" if "(u, v) \<in> ?E\<^sup>*" "u \<in> {3, 4}" for u v
    using that by (induction rule: rtrancl_induct) auto
  have e: "(3, 0) \<in> ?E" "(0, 1) \<in> ?E" "(1, 2) \<in> ?E" "(2, 5) \<in> ?E" by simp_all
  have r: "(3, 0) \<in> ?E\<^sup>*" "(3, 1) \<in> ?E\<^sup>*" "(3, 2) \<in> ?E\<^sup>*" "(3, 5) \<in> ?E\<^sup>*"
    using e by (meson r_into_rtrancl rtrancl_trans)+
  have "{v. \<exists>s \<in> set [3, 4]. (s, v) \<in> ?E\<^sup>*} = set [5, 2, 1, 0, 3, 4]"
  proof (intro set_eqI iffI)
    fix v assume "v \<in> {v. \<exists>s \<in> set [3, 4]. (s, v) \<in> ?E\<^sup>*}"
    then show "v \<in> set [5, 2, 1, 0, 3, 4]" using all by auto
  next
    fix v :: nat assume "v \<in> set [5, 2, 1, 0, 3, 4]"
    then have "(3, v) \<in> ?E\<^sup>* \<or> v = 4" using r by auto
    then show "v \<in> {v. \<exists>s \<in> set [3, 4]. (s, v) \<in> ?E\<^sup>*}" by auto
  qed
  then show ?thesis by (auto simp: visits_def less_Suc_eq)
qed

text \<open>The bound of an operand's range, as a test the kernel evaluates without counting to it.\<close>

lemma from_range_code [code]:
  "from_range start len =
    (if unat (of_nat start :: u32) = start \<and> unat (of_nat len :: u32) = len then Some \<lparr>op_start = start, op_len = len\<rparr> else None)"
proof -
  have "unat (of_nat n :: u32) = n \<longleftrightarrow> n < 2 ^ 32" for n
    by (simp add: unsigned_of_nat take_bit_nat_eq_self_iff)
  then show ?thesis by (simp only: from_range_def)
qed

lemma sample_terms: "cb_terms sample_fusable = [sw_single 0 IDENTITY, sw_single 1 IDENTITY, sw_single 2 (left_by 5), sw_single 3 (right_by 3),
    sw_single 4 (left_by 1), sw_single 5 IDENTITY, sw_single 6 IDENTITY]"
  "cb_linear sample_fusable = [sample_lin 0 2 2, sample_lin 2 1 3, sample_lin 3 1 4]"
  "lin_dsts sample_fusable = [2, 3, 4]"
  by (simp_all add: sample_fusable_def lin_dsts_def sample_lin_def)

lemma sample_seqs:
  assumes "t \<in> set (cb_terms sample_fusable)"
  shows "seq_wf (sw_seq t) \<and> snd (sw_seq t) = IDENTITY \<and> sw_wire t \<in> {0, 1, 2, 3, 4, 5, 6}"
proof -
  have "list_all (\<lambda>t. seq_wf (sw_seq t) \<and> snd (sw_seq t) = IDENTITY \<and> sw_wire t \<in> {0, 1, 2, 3, 4, 5, 6}) (cb_terms sample_fusable)"
    by code_simp
  then show ?thesis using assms unfolding list_all_iff by blast
qed

lemma sample_order:
  assumes "k < 3"
  shows "lin_terms sample_fusable k \<noteq> [] \<and> (\<forall>t \<in> set (lin_terms sample_fusable k). sw_wire t \<notin> set (drop k (lin_dsts sample_fusable)))"
proof -
  have "list_all (\<lambda>k. lin_terms sample_fusable k \<noteq> [] \<and>
      list_all (\<lambda>t. sw_wire t \<notin> set (drop k (lin_dsts sample_fusable))) (lin_terms sample_fusable k)) [0, 1, 2]" by code_simp
  moreover have "k \<in> set [0, 1, 2]" using assms by auto
  ultimately show ?thesis unfolding list_all_iff by blast
qed

lemma sample_fusable_ok: "fusable sample_fusable" "cb_in {0, 1, 2, 3, 4, 5, 6} sample_fusable" "traverses sample_post sample_fusable"
    "fusion_room sample_post {} sample_fusable"
proof -
  have wf: "cb_wf sample_fusable" by (simp add: cb_wf_def sample_fusable_def in_arena_def sample_lin_def)
  have "length (cb_linear sample_fusable) = 3" "distinct (lin_dsts sample_fusable)" by (simp_all add: sample_terms)
  then show "fusable sample_fusable" unfolding fusable_def using wf sample_seqs sample_order by simp
  show "cb_in {0, 1, 2, 3, 4, 5, 6} sample_fusable"
    unfolding cb_in_def using sample_seqs by (auto simp: term_in_def sample_terms(2) sample_lin_def)
  have "map_option (\<lambda>leg. (edge_pairs leg, le_opaque leg)) (le_new sample_fusable) =
      Some ([(3, 0), (4, 0), (0, 1), (1, 2), (2, 5)], [3, 4])" by code_simp
  then show "traverses sample_post sample_fusable" using sample_visits by (auto simp: traverses_def sample_post_def)
  have "map_option (fused_size sample_fusable) (fusion_commits sample_post {} sample_fusable) = Some 15" by code_simp
  then obtain C where "fusion_commits sample_post {} sample_fusable = Some C" "fused_size sample_fusable C = 15" by auto
  then show "fusion_room sample_post {} sample_fusable" by (simp add: fusion_room_def)
qed

theorem fusion_keeps_meaning_witness:
  "\<exists>cb'. fusion_run_pass sample_post {} sample_fusable = Some cb' \<and> fusion_commits sample_post {} sample_fusable = Some {3} \<and>
    drop 7 (cb_terms cb') = [\<lparr>sw_wire = 3, sw_seq = (right_by 3, left_by 1)\<rparr>, sw_single 5 IDENTITY, sw_single 6 IDENTITY,
      sw_single 0 (left_by 5), sw_single 1 (left_by 5)] \<and>
    cb_linear cb' = [sample_lin 10 2 3] \<and>
    fusion_commits sample_post {2, 6} sample_fusable = Some {2, 3}"
proof -
  have "map_option (\<lambda>cb'. (drop 7 (cb_terms cb'), cb_linear cb')) (fusion_run_pass sample_post {} sample_fusable) =
      Some ([\<lparr>sw_wire = 3, sw_seq = (right_by 3, left_by 1)\<rparr>, sw_single 5 IDENTITY, sw_single 6 IDENTITY,
        sw_single 0 (left_by 5), sw_single 1 (left_by 5)], [sample_lin 10 2 3])"
    by code_simp
  moreover have "fusion_commits sample_post {} sample_fusable = Some {3}" by code_simp
  moreover have "fusion_commits sample_post {2, 6} sample_fusable = Some {2, 3}" by code_simp
  ultimately show ?thesis using fusion_keeps_meaning[OF sample_fusable_ok] by auto
qed

end
