(* ===== verification/Emission.thy ===== *)
theory Emission
  imports Fusion Optimise Circuit
begin

text \<open>
  What the gates of a graph hand to fusion: every term has one shift, a gate emits one linear
  constraint or none, that constraint defines the gate's first output from the gate's other wires, and
  it holds of the values the gates compute whether or not an assertion fails.
\<close>

section \<open>What an emission adds\<close>

text \<open>Whatever builder a gate is emitted to, it adds the same constraints for the same arena.\<close>

definition cb_plus :: "constraint_builder \<Rightarrow> constraint_builder \<Rightarrow> constraint_builder" where
  "cb_plus cb d = \<lparr>cb_and = cb_and cb @ cb_and d, cb_imul = cb_imul cb @ cb_imul d, cb_bmul = cb_bmul cb @ cb_bmul d,
    cb_linear = cb_linear cb @ cb_linear d, cb_zero = cb_zero cb @ cb_zero d, cb_terms = cb_terms cb @ cb_terms d\<rparr>"

lemma cb_plus_simps [simp]: "cb_linear (cb_plus cb d) = cb_linear cb @ cb_linear d" "cb_terms (cb_plus cb d) = cb_terms cb @ cb_terms d"
  by (simp_all add: cb_plus_def)

lemma cb_plus_assoc: "cb_plus (cb_plus cb d) e = cb_plus cb (cb_plus d e)"
  by (simp add: cb_plus_def)

lemma cb_plus_new [simp]: "cb_plus cb cb_new = cb"
  by (simp add: cb_plus_def cb_new_def)

definition defines_ok :: "(wire \<Rightarrow> shifted_wire list \<Rightarrow> bool) \<Rightarrow> shifted_wire list \<Rightarrow> wire_linear \<Rightarrow> bool" where
  "defines_ok L T c \<longleftrightarrow> in_arena T (wl_rhs c) \<and> L (wl_dst c) (op_terms T (wl_rhs c))"

definition added :: "(wire \<Rightarrow> shifted_wire list \<Rightarrow> bool) \<Rightarrow> nat \<Rightarrow> shifted_wire list \<Rightarrow> constraint_builder \<Rightarrow> bool" where
  "added L n T d \<longleftrightarrow> (\<forall>t \<in> set (cb_terms d). snd (sw_seq t) = IDENTITY) \<and> length (cb_linear d) \<le> n \<and>
    (\<forall>c \<in> set (cb_linear d). defines_ok L (T @ cb_terms d) c)"

definition adds :: "(wire \<Rightarrow> shifted_wire list \<Rightarrow> bool) \<Rightarrow> nat \<Rightarrow> (constraint_builder \<Rightarrow> constraint_builder option) \<Rightarrow> bool" where
  "adds L n f \<longleftrightarrow> (\<forall>T. (\<forall>cb. cb_terms cb = T \<longrightarrow> f cb = None) \<or>
    (\<exists>d. added L n T d \<and> (\<forall>cb. cb_terms cb = T \<longrightarrow> f cb = Some (cb_plus cb d))))"

lemma addsE:
  assumes "adds L n f"
  obtains (none) "\<And>cb. cb_terms cb = T \<Longrightarrow> f cb = None"
    | (some) d where "added L n T d" "\<And>cb. cb_terms cb = T \<Longrightarrow> f cb = Some (cb_plus cb d)"
  using assms unfolding adds_def by metis

lemma addsI:
  assumes "\<And>T. (\<forall>cb. cb_terms cb = T \<longrightarrow> f cb = None) \<or> (\<exists>d. added L n T d \<and> (\<forall>cb. cb_terms cb = T \<longrightarrow> f cb = Some (cb_plus cb d)))"
  shows "adds L n f"
  using assms unfolding adds_def by blast

lemma adds_None [simp, intro]: "adds L n (\<lambda>cb. None)"
  by (simp add: adds_def)

lemma adds_Some [simp, intro]: "adds L n Some"
  by (rule addsI, rule disjI2, rule exI[of _ cb_new]) (simp add: added_def cb_new_def cb_plus_def)

lemma adds_const: "(\<And>x. r = Some x \<Longrightarrow> adds L n (f x)) \<Longrightarrow> adds L n (\<lambda>cb. Option.bind r (\<lambda>x. f x cb))"
  by (cases r) simp_all

lemma defines_ok_ext: "defines_ok L T c \<Longrightarrow> defines_ok L (T @ us) c"
  by (simp add: defines_ok_def op_terms_ext in_arena_ext)

lemma added_plus:
  assumes "added L m T d" "added L n (T @ cb_terms d) e"
  shows "added L (m + n) T (cb_plus d e)"
proof -
  have "defines_ok L (T @ cb_terms (cb_plus d e)) c" if "c \<in> set (cb_linear d)" for c
    using assms(1) that defines_ok_ext[of L "T @ cb_terms d" c "cb_terms e"] by (simp add: added_def)
  moreover have "defines_ok L (T @ cb_terms (cb_plus d e)) c" if "c \<in> set (cb_linear e)" for c
    using assms(2) that by (simp add: added_def)
  ultimately show ?thesis using assms by (auto simp: added_def simp del: append_assoc)
qed

lemma adds_then:
  assumes f: "adds L m f" and g: "adds L n g"
  shows "adds L (m + n) (\<lambda>cb. Option.bind (f cb) g)"
proof (rule addsI)
  fix T
  show "(\<forall>cb. cb_terms cb = T \<longrightarrow> Option.bind (f cb) g = None) \<or>
    (\<exists>d. added L (m + n) T d \<and> (\<forall>cb. cb_terms cb = T \<longrightarrow> Option.bind (f cb) g = Some (cb_plus cb d)))"
  proof (rule addsE[OF f, of T], goal_cases)
    case 1
    then have "Option.bind (f cb) g = None" if "cb_terms cb = T" for cb using that by simp
    then show ?case by blast
  next
    case (2 d)
    show ?case
    proof (rule addsE[OF g, of "T @ cb_terms d"], goal_cases)
      case 1
      then have "Option.bind (f cb) g = None" if "cb_terms cb = T" for cb using 2(2)[OF that] that by simp
      then show ?case by blast
    next
      case (2 e)
      have "Option.bind (f cb) g = Some (cb_plus cb (cb_plus d e))" if "cb_terms cb = T" for cb
      proof -
        have "f cb = Some (cb_plus cb d)" by (rule \<open>\<And>cb. cb_terms cb = T \<Longrightarrow> f cb = Some (cb_plus cb d)\<close>[OF that])
        moreover have "g (cb_plus cb d) = Some (cb_plus (cb_plus cb d) e)" by (rule 2(2)) (simp add: that)
        ultimately show ?thesis by (simp add: cb_plus_assoc)
      qed
      moreover have "added L (m + n) T (cb_plus d e)" by (rule added_plus[OF \<open>added L m T d\<close> 2(1)])
      ultimately show ?case by blast
    qed
  qed
qed

lemma adds_more:
  assumes "adds L m f" "m \<le> n"
  shows "adds L n f"
proof (rule addsI)
  have more: "added L m T d \<Longrightarrow> added L n T d" for T d using assms(2) by (simp add: added_def)
  fix T
  show "(\<forall>cb. cb_terms cb = T \<longrightarrow> f cb = None) \<or> (\<exists>d. added L n T d \<and> (\<forall>cb. cb_terms cb = T \<longrightarrow> f cb = Some (cb_plus cb d)))"
    by (rule addsE[OF assms(1), of T]) (use more in blast)+
qed

lemma single_term [simp]: "snd (sw_seq (to_shifted_wire t)) = IDENTITY"
  by (cases t) (simp_all add: sw_single_def)

lemma wire_of_shifted_wire [simp]: "sw_wire (to_shifted_wire t) = (case t of TermWire w \<Rightarrow> w | TermShifted w s \<Rightarrow> w)"
  by (cases t) (simp_all add: sw_single_def)

lemma adds_operands:
  assumes f: "\<And>cb. f cb = (if P (length (cb_terms cb)) then Some (cb_plus cb (d (length (cb_terms cb)))) else None)"
    and d: "\<And>T. added L n T (d (length T))"
  shows "adds L n f"
proof (rule addsI)
  fix T
  have "f cb = (if P (length T) then Some (cb_plus cb (d (length T))) else None)" if "cb_terms cb = T" for cb using f[of cb] that by simp
  then show "(\<forall>cb. cb_terms cb = T \<longrightarrow> f cb = None) \<or> (\<exists>d. added L n T d \<and> (\<forall>cb. cb_terms cb = T \<longrightarrow> f cb = Some (cb_plus cb d)))"
    using d[of T] by (cases "P (length T)") auto
qed

lemma adds_zero: "adds L 0 (push_zero e)"
proof (rule adds_operands)
  show "push_zero e cb = (if length (cb_terms cb) < 2 ^ 32 \<and> length e < 2 ^ 32 then
      Some (cb_plus cb (cb_new\<lparr>cb_zero := [\<lparr>wz_val = \<lparr>op_start = length (cb_terms cb), op_len = length e\<rparr>\<rparr>],
        cb_terms := map to_shifted_wire e\<rparr>)) else None)" for cb
    by (simp add: push_zero_def into_operand_eq cb_plus_def cb_new_def)
qed (auto simp: cb_new_def added_def)

lemma adds_linear:
  assumes "L z (map to_shifted_wire e)"
  shows "adds L (Suc 0) (push_linear e z)"
proof (rule adds_operands)
  show "push_linear e z cb = (if length (cb_terms cb) < 2 ^ 32 \<and> length e < 2 ^ 32 then
      Some (cb_plus cb (cb_new\<lparr>cb_linear := [\<lparr>wl_rhs = \<lparr>op_start = length (cb_terms cb), op_len = length e\<rparr>, wl_dst = z\<rparr>],
        cb_terms := map to_shifted_wire e\<rparr>)) else None)" for cb
    by (simp add: push_linear_def into_operand_eq cb_plus_def cb_new_def)
qed (use assms in \<open>auto simp: cb_new_def added_def defines_ok_def in_arena_def op_terms_def\<close>)

lemma adds_and: "adds L 0 (push_and a b c)"
proof (rule adds_operands)
  show "push_and a b c cb = (if length (cb_terms cb) + length a + length b < 2 ^ 32 \<and> length a < 2 ^ 32 \<and> length b < 2 ^ 32 \<and> length c < 2 ^ 32 then
      Some (cb_plus cb (cb_new\<lparr>cb_and := [\<lparr>wa_a = \<lparr>op_start = length (cb_terms cb), op_len = length a\<rparr>,
          wa_b = \<lparr>op_start = length (cb_terms cb) + length a, op_len = length b\<rparr>,
          wa_c = \<lparr>op_start = length (cb_terms cb) + length a + length b, op_len = length c\<rparr>\<rparr>],
        cb_terms := map to_shifted_wire (a @ b @ c)\<rparr>)) else None)" for cb
    by (simp add: push_and_def into_operand_eq cb_plus_def cb_new_def add.assoc)
qed (auto simp: cb_new_def added_def)

lemma adds_imul: "adds L 0 (push_imul a b hi lo)"
proof (rule adds_operands)
  show "push_imul a b hi lo cb = (if length (cb_terms cb) + length a + length b + length hi < 2 ^ 32 \<and>
        length a < 2 ^ 32 \<and> length b < 2 ^ 32 \<and> length hi < 2 ^ 32 \<and> length lo < 2 ^ 32 then
      Some (cb_plus cb (cb_new\<lparr>cb_imul := [\<lparr>wi_a = \<lparr>op_start = length (cb_terms cb), op_len = length a\<rparr>,
          wi_b = \<lparr>op_start = length (cb_terms cb) + length a, op_len = length b\<rparr>,
          wi_hi = \<lparr>op_start = length (cb_terms cb) + length a + length b, op_len = length hi\<rparr>,
          wi_lo = \<lparr>op_start = length (cb_terms cb) + length a + length b + length hi, op_len = length lo\<rparr>\<rparr>],
        cb_terms := map to_shifted_wire (a @ b @ hi @ lo)\<rparr>)) else None)" for cb
    by (simp add: push_imul_def into_operand_eq cb_plus_def cb_new_def add.assoc)
qed (auto simp: cb_new_def added_def)

lemma adds_bmul: "adds L 0 (push_bmul a b c d e f)"
proof (rule adds_operands)
  show "push_bmul a b c d e f cb = (if length (cb_terms cb) + length a + length b + length c + length d + length e < 2 ^ 32 \<and>
        length a < 2 ^ 32 \<and> length b < 2 ^ 32 \<and> length c < 2 ^ 32 \<and> length d < 2 ^ 32 \<and> length e < 2 ^ 32 \<and> length f < 2 ^ 32 then
      Some (cb_plus cb (cb_new\<lparr>cb_bmul := [\<lparr>wb_a_lo = \<lparr>op_start = length (cb_terms cb), op_len = length a\<rparr>,
          wb_a_hi = \<lparr>op_start = length (cb_terms cb) + length a, op_len = length b\<rparr>,
          wb_b_lo = \<lparr>op_start = length (cb_terms cb) + length a + length b, op_len = length c\<rparr>,
          wb_b_hi = \<lparr>op_start = length (cb_terms cb) + length a + length b + length c, op_len = length d\<rparr>,
          wb_c_lo = \<lparr>op_start = length (cb_terms cb) + length a + length b + length c + length d, op_len = length e\<rparr>,
          wb_c_hi = \<lparr>op_start = length (cb_terms cb) + length a + length b + length c + length d + length e, op_len = length f\<rparr>\<rparr>],
        cb_terms := map to_shifted_wire (a @ b @ c @ d @ e @ f)\<rparr>)) else None)" for cb
    by (simp add: push_bmul_def into_operand_eq cb_plus_def cb_new_def add.assoc)
qed (auto simp: cb_new_def added_def)

section \<open>What a gate adds\<close>

text \<open>The linear constraint of a gate defines its first output from wires it uses and its other outputs.\<close>

definition gate_defines :: "gate_param \<Rightarrow> wire \<Rightarrow> shifted_wire list \<Rightarrow> bool" where
  "gate_defines p z ts \<longleftrightarrow> ts \<noteq> [] \<and> (\<exists>os. p_outputs p = z # os \<and> (\<forall>t \<in> set ts. sw_wire t \<in> set (gate_uses p) \<union> set os))"

lemma shift_expr_wires:
  "expr_sll w n = Some t \<Longrightarrow> \<exists>s. t = TermShifted w s" "expr_srl w n = Some t \<Longrightarrow> \<exists>s. t = TermShifted w s"
  "expr_sar w n = Some t \<Longrightarrow> \<exists>s. t = TermShifted w s" "expr_rotr w n = Some t \<Longrightarrow> \<exists>s. t = TermShifted w s"
  "expr_sll32 w n = Some t \<Longrightarrow> \<exists>s. t = TermShifted w s" "expr_srl32 w n = Some t \<Longrightarrow> \<exists>s. t = TermShifted w s"
  "expr_sra32 w n = Some t \<Longrightarrow> \<exists>s. t = TermShifted w s" "expr_rotr32 w n = Some t \<Longrightarrow> \<exists>s. t = TermShifted w s"
  by (auto simp: expr_sll_def expr_srl_def expr_sar_def expr_rotr_def expr_sll32_def expr_srl32_def expr_sra32_def expr_rotr32_def)

lemma shifted_term_wire: "shifted_term v x n = Some t \<Longrightarrow> t = TermWire x \<or> (\<exists>s. t = TermShifted x s)"
  by (auto simp: shifted_term_def dest: shift_expr_wires split: if_splits shift_variant.splits)

lemma adds_list:
  "(xs = [] \<Longrightarrow> adds L n f) \<Longrightarrow> (\<And>a as. xs = a # as \<Longrightarrow> adds L n (g a as)) \<Longrightarrow>
    adds L n (\<lambda>cb. case xs of [] \<Rightarrow> f cb | a # as \<Rightarrow> g a as cb)"
  by (cases xs) simp_all

lemmas constrain_funs = constrain_defs[abs_def]

lemma op_constrain_adds:
  assumes "opcode = BxorMulti \<Longrightarrow> p_inputs p \<noteq> []"
  shows "adds (gate_defines p) (Suc 0) (op_constrain opcode p)"
proof -
  note more = adds_more[OF adds_and] adds_more[OF adds_zero] adds_more[OF adds_imul] adds_more[OF adds_bmul]
    adds_then[where m = 0 and n = "Suc 0", OF adds_and, simplified] adds_linear adds_None
  show ?thesis
    using assms
    by (cases opcode; simp add: constrain_funs;
      (intro adds_list adds_const more; auto simp: expr_defs sw_single_def gate_defines_def gate_uses_def dest: shifted_term_wire)+)
qed

lemma gate_constrain_adds:
  assumes "get_gate_param r d = Some p" "body d = Op BxorMulti \<Longrightarrow> p_inputs p \<noteq> []"
  shows "adds (gate_defines p) (Suc 0) (gate_constrain r d)"
proof (cases "body d")
  case (Op opcode)
  then have "adds (gate_defines p) (Suc 0) (op_constrain opcode p)" using assms(2) by (intro op_constrain_adds) simp
  moreover have "gate_constrain r d = op_constrain opcode p" using assms(1) Op by (simp add: gate_constrain_def[abs_def])
  ultimately show ?thesis by simp
next
  case (HintCall h)
  then have "gate_constrain r d = Some" by (simp add: gate_constrain_def[abs_def])
  then show ?thesis by simp
qed

text \<open>The builder asserts that a multi-input exclusive or has an input.\<close>

definition multi_fed :: "hint_registry \<Rightarrow> gate_data list \<Rightarrow> bool" where
  "multi_fed r ds \<longleftrightarrow> (\<forall>d \<in> set ds. \<forall>p. body d = Op BxorMulti \<longrightarrow> get_gate_param r d = Some p \<longrightarrow> p_inputs p \<noteq> [])"

section \<open>What a graph adds\<close>

fun lin_of :: "hint_registry \<Rightarrow> shifted_wire list \<Rightarrow> gate_data list \<Rightarrow> wire_linear list \<Rightarrow> bool" where
  "lin_of r T [] ls \<longleftrightarrow> ls = []"
| "lin_of r T (d # ds) ls \<longleftrightarrow> lin_of r T ds ls \<or>
    (\<exists>c ls'. ls = c # ls' \<and> lin_of r T ds ls' \<and> (\<exists>p. get_gate_param r d = Some p \<and> defines_ok (gate_defines p) T c))"

lemma short_list: "length xs \<le> Suc 0 \<Longrightarrow> xs = [] \<or> (\<exists>x. xs = [x])"
  by (cases xs) auto

lemma bare_added:
  assumes "cb_sat \<sigma> (cb_plus (cb_new\<lparr>cb_terms := T\<rparr>) e)" "c \<in> set (cb_linear e)"
  shows "linear_sat \<sigma> (T @ cb_terms e) c"
  using assms by (simp add: cb_sat_def cb_plus_def cb_new_def)

lemma gate_adds:
  assumes d: "gate_wf r ks d" "gate_imm_ok d" "get_gate_param r d = Some p" "body d = Op BxorMulti \<Longrightarrow> p_inputs p \<noteq> []"
    and room: "length T + gate_room d < 2 ^ 32"
  obtains e where "added (gate_defines p) (Suc 0) T e" "\<And>cb. cb_terms cb = T \<Longrightarrow> gate_constrain r d cb = Some (cb_plus cb e)"
    "length (cb_terms e) \<le> gate_room d"
    "\<And>\<sigma> c. consts_hold ks \<sigma> \<Longrightarrow> gate_sat r d \<sigma> \<Longrightarrow> c \<in> set (cb_linear e) \<Longrightarrow> linear_sat \<sigma> (T @ cb_terms e) c"
proof -
  let ?cb = "cb_new\<lparr>cb_terms := T\<rparr>"
  have bare: "cb_wf ?cb" "\<And>\<sigma>. cb_sat \<sigma> ?cb" "cb_terms ?cb = T" by (simp_all add: cb_wf_def cb_sat_def cb_new_def)
  have "emits ?cb (gate_constrain r d ?cb) (gate_room d) (consts_hold ks) (gate_sat r d)"
    by (rule gate_constrain_emits[OF d(1,2) bare(1)]) (use room bare(3) in simp)
  then obtain cb' where cb': "gate_constrain r d ?cb = Some cb'" "length (cb_terms cb') \<le> length T + gate_room d"
    "\<And>\<sigma>. consts_hold ks \<sigma> \<Longrightarrow> gate_sat r d \<sigma> \<Longrightarrow> cb_sat \<sigma> cb'" using bare by (auto simp: emits_def)
  show ?thesis
  proof (rule addsE[OF gate_constrain_adds[OF d(3,4)], of T], goal_cases)
    case 1
    then show ?case using cb'(1) bare(3) by (metis option.distinct(1))
  next
    case 2
    then show ?case using cb'(1) bare(3) by (metis option.distinct(1))
  next
    case (3 e)
    have e: "cb' = cb_plus ?cb e" using 3(2)[OF bare(3)] cb'(1) by simp
    show ?case
    proof (rule that[OF 3])
      show "length (cb_terms e) \<le> gate_room d" using cb'(2) e by simp
      show "linear_sat \<sigma> (T @ cb_terms e) c" if "consts_hold ks \<sigma>" "gate_sat r d \<sigma>" "c \<in> set (cb_linear e)" for \<sigma> c
        by (rule bare_added) (use cb'(3) e that in simp_all)
    qed
  qed
qed

lemma lin_of_ext: "lin_of r T ds ls \<Longrightarrow> lin_of r (T @ us) ds ls"
proof (induction ds arbitrary: ls)
  case (Cons d ds)
  then show ?case using defines_ok_ext by (auto 0 3)
qed simp

lemma linear_sat_ext: "defines_ok L T c \<Longrightarrow> linear_sat \<sigma> (T @ us) c = linear_sat \<sigma> T c"
  by (simp add: defines_ok_def linear_sat_def)

text \<open>The gates whose outputs are constrained: the others define nothing.\<close>

definition outputs_sat :: "hint_registry \<Rightarrow> gate_data list \<Rightarrow> (wire \<Rightarrow> u64) \<Rightarrow> bool" where
  "outputs_sat r ds \<tau> \<longleftrightarrow> (\<forall>d \<in> set ds. \<forall>p. get_gate_param r d = Some p \<longrightarrow> p_outputs p \<noteq> [] \<longrightarrow> gate_sat r d \<tau>)"

lemma constrain_gates_adds:
  assumes "\<forall>d \<in> set ds. gate_wf r ks d \<and> gate_imm_ok d" "multi_fed r ds"
    "length (cb_terms cb) + sum_list (map gate_room ds) < 2 ^ 32"
  shows "\<exists>e. constrain_gates r dead live gate ds cb = Some (cb_plus cb e) \<and> (\<forall>t \<in> set (cb_terms e). snd (sw_seq t) = IDENTITY) \<and>
    lin_of r (cb_terms cb @ cb_terms e) ds (cb_linear e) \<and>
    (\<forall>\<tau>. consts_hold ks \<tau> \<longrightarrow> outputs_sat r ds \<tau> \<longrightarrow> (\<forall>c \<in> set (cb_linear e). linear_sat \<tau> (cb_terms cb @ cb_terms e) c))"
  using assms
proof (induction ds arbitrary: gate cb)
  case Nil
  then show ?case by (intro exI[of _ cb_new]) (simp add: cb_new_def cb_plus_def)
next
  case (Cons d ds)
  have rest: "\<forall>d \<in> set ds. gate_wf r ks d \<and> gate_imm_ok d" "multi_fed r ds" using Cons.prems(1,2) by (simp_all add: multi_fed_def)
  have out: "outputs_sat r (d # ds) \<tau> \<Longrightarrow> outputs_sat r ds \<tau>" for \<tau> by (simp add: outputs_sat_def)
  show ?case
  proof (cases "gate_kept dead live gate")
    case False
    obtain e where "constrain_gates r dead live (Suc gate) ds cb = Some (cb_plus cb e)" "\<forall>t \<in> set (cb_terms e). snd (sw_seq t) = IDENTITY"
      "lin_of r (cb_terms cb @ cb_terms e) ds (cb_linear e)"
      "\<forall>\<tau>. consts_hold ks \<tau> \<longrightarrow> outputs_sat r ds \<tau> \<longrightarrow> (\<forall>c \<in> set (cb_linear e). linear_sat \<tau> (cb_terms cb @ cb_terms e) c)"
      using Cons.IH[OF rest, of cb "Suc gate"] Cons.prems(3) by auto
    then show ?thesis using False out by (intro exI[of _ e]) simp
  next
    case True
    have wf: "gate_wf r ks d" "gate_imm_ok d" using Cons.prems(1) by simp_all
    obtain p where p: "get_gate_param r d = Some p" by (rule validated_gate_param[of r d]) (use wf in \<open>auto simp: gate_wf_def\<close>)
    have multi: "body d = Op BxorMulti \<Longrightarrow> p_inputs p \<noteq> []" using Cons.prems(2) p by (simp add: multi_fed_def)
    obtain e where e: "added (gate_defines p) (Suc 0) (cb_terms cb) e"
      "gate_constrain r d cb = Some (cb_plus cb e)" "length (cb_terms e) \<le> gate_room d"
      "\<And>\<sigma> c. consts_hold ks \<sigma> \<Longrightarrow> gate_sat r d \<sigma> \<Longrightarrow> c \<in> set (cb_linear e) \<Longrightarrow> linear_sat \<sigma> (cb_terms cb @ cb_terms e) c"
    proof (rule gate_adds[OF wf p multi, of "cb_terms cb"], goal_cases)
      case 2
      then show ?case using Cons.prems(3) by simp
    next
      case (3 e)
      then show ?case using that by blast
    qed
    obtain f where f: "constrain_gates r dead live (Suc gate) ds (cb_plus cb e) = Some (cb_plus (cb_plus cb e) f)"
      "\<forall>t \<in> set (cb_terms f). snd (sw_seq t) = IDENTITY" "lin_of r (cb_terms (cb_plus cb e) @ cb_terms f) ds (cb_linear f)"
      "\<forall>\<tau>. consts_hold ks \<tau> \<longrightarrow> outputs_sat r ds \<tau> \<longrightarrow> (\<forall>c \<in> set (cb_linear f). linear_sat \<tau> (cb_terms (cb_plus cb e) @ cb_terms f) c)"
      using Cons.IH[OF rest, of "cb_plus cb e" "Suc gate"] Cons.prems(3) e(3) by auto
    have single: "\<forall>t \<in> set (cb_terms e). snd (sw_seq t) = IDENTITY" "length (cb_linear e) \<le> Suc 0"
      and def: "\<And>c. c \<in> set (cb_linear e) \<Longrightarrow> defines_ok (gate_defines p) (cb_terms cb @ cb_terms e) c"
      using e(1) by (simp_all add: added_def)
    let ?T = "cb_terms cb @ cb_terms (cb_plus e f)"
    have T: "?T = (cb_terms cb @ cb_terms e) @ cb_terms f" "cb_terms (cb_plus cb e) @ cb_terms f = ?T" by simp_all
    have lin: "lin_of r ?T (d # ds) (cb_linear (cb_plus e f))"
    proof (rule disjE[OF short_list[OF single(2)]])
      assume "cb_linear e = []"
      then show ?thesis using f(3) T(2) by simp
    next
      assume "\<exists>c. cb_linear e = [c]"
      then obtain c where c: "cb_linear e = [c]" ..
      then have "defines_ok (gate_defines p) ?T c" using def[of c] defines_ok_ext T(1) by (metis list.set_intros(1))
      then show ?thesis using c p f(3) T(2) by auto
    qed
    have sat: "linear_sat \<tau> ?T c" if t: "consts_hold ks \<tau>" "outputs_sat r (d # ds) \<tau>" and c: "c \<in> set (cb_linear (cb_plus e f))" for \<tau> c
    proof (cases "c \<in> set (cb_linear e)")
      case True
      note dc = def[OF True]
      then have "p_outputs p \<noteq> []" by (auto simp: defines_ok_def gate_defines_def)
      then have "gate_sat r d \<tau>" using t(2) p by (simp add: outputs_sat_def)
      from e(4)[OF t(1) this True] show ?thesis unfolding T(1) linear_sat_ext[OF dc] .
    next
      case False
      then show ?thesis using f(4) out[OF t(2)] t(1) c T(2) by simp
    qed
    have "constrain_gates r dead live gate (d # ds) cb = Some (cb_plus cb (cb_plus e f))"
      using True e(2) f(1) by (simp add: cb_plus_assoc)
    then show ?thesis using single(1) f(2) lin sat by (intro exI[of _ "cb_plus e f"]) auto
  qed
qed

text \<open>In dependency order every definition comes before its uses, and no wire is defined twice.\<close>

definition lin_ordered :: "shifted_wire list \<Rightarrow> wire_linear list \<Rightarrow> bool" where
  "lin_ordered T ls \<longleftrightarrow> distinct (map wl_dst ls) \<and> (\<forall>k < length ls. op_terms T (wl_rhs (ls ! k)) \<noteq> [] \<and>
    (\<forall>t \<in> set (op_terms T (wl_rhs (ls ! k))). sw_wire t \<notin> set (drop k (map wl_dst ls))))"

lemma all_outs_simps [simp]: "all_outs r [] = {}"
  "all_outs r (d # ds) = (\<Union>p \<in> set_option (get_gate_param r d). set (p_outputs p)) \<union> all_outs r ds"
  by (simp_all add: all_outs_def)

lemma lin_ordered_Cons:
  assumes "lin_ordered T ls" "op_terms T (wl_rhs c) \<noteq> []" "wl_dst c \<notin> wl_dst ` set ls"
    "\<And>t. t \<in> set (op_terms T (wl_rhs c)) \<Longrightarrow> sw_wire t \<noteq> wl_dst c \<and> sw_wire t \<notin> wl_dst ` set ls"
  shows "lin_ordered T (c # ls)"
  unfolding lin_ordered_def
proof (intro conjI allI impI ballI)
  show "distinct (map wl_dst (c # ls))" using assms(1,3) by (simp add: lin_ordered_def)
  fix k assume k: "k < length (c # ls)"
  show "op_terms T (wl_rhs ((c # ls) ! k)) \<noteq> []" using assms(1,2) k by (cases k) (simp_all add: lin_ordered_def)
  fix t assume t: "t \<in> set (op_terms T (wl_rhs ((c # ls) ! k)))"
  show "sw_wire t \<notin> set (drop k (map wl_dst (c # ls)))"
  proof (cases k)
    case 0
    then show ?thesis using assms(4)[of t] t by simp
  next
    case (Suc j)
    then show ?thesis using assms(1) t k by (simp add: lin_ordered_def)
  qed
qed

lemma ordered_head:
  assumes "ordered r (d # ds)" "get_gate_param r d = Some p"
  shows "distinct (gate_writes p)" "set (gate_uses p) \<inter> set (gate_writes p) = {}"
    "w \<in> all_outs r ds \<Longrightarrow> w \<notin> set (gate_writes p) \<and> w \<notin> set (gate_uses p)"
proof -
  obtain q where q: "get_gate_param r d = Some q" "distinct (gate_writes q)" "set (gate_uses q) \<inter> set (gate_writes q) = {}"
    "\<And>e s. e \<in> set ds \<Longrightarrow> get_gate_param r e = Some s \<Longrightarrow> set (gate_writes s) \<inter> set (gate_writes q @ gate_uses q) = {}"
    using assms(1) unfolding ordered.simps by blast
  have eq: "q = p" using q(1) assms(2) by simp
  show "distinct (gate_writes p)" "set (gate_uses p) \<inter> set (gate_writes p) = {}" using q(2,3) eq by simp_all
  assume "w \<in> all_outs r ds"
  then obtain e s where e: "e \<in> set ds" "get_gate_param r e = Some s" "w \<in> set (p_outputs s)"
    unfolding all_outs_def by auto
  then have "w \<in> set (gate_writes s)" by (simp add: gate_writes_def)
  then show "w \<notin> set (gate_writes p) \<and> w \<notin> set (gate_uses p)" using q(4)[OF e(1,2)] eq by auto
qed

lemma lin_of_facts:
  "lin_of r T ds ls \<Longrightarrow> ordered r ds \<Longrightarrow> lin_ordered T ls \<and> wl_dst ` set ls \<subseteq> all_outs r ds"
proof (induction ds arbitrary: ls)
  case Nil
  then show ?case by (simp add: lin_ordered_def)
next
  case (Cons d ds)
  have ord: "ordered r ds" using Cons.prems(2) unfolding ordered.simps by blast
  show ?case
  proof (cases "lin_of r T ds ls")
    case True
    from Cons.IH[OF True ord] show ?thesis unfolding all_outs_simps(2) by blast
  next
    case False
    then obtain c ls' p where c: "ls = c # ls'" "lin_of r T ds ls'" "get_gate_param r d = Some p" "defines_ok (gate_defines p) T c"
      using Cons.prems(1) unfolding lin_of.simps by blast
    note ih = Cons.IH[OF c(2) ord]
    obtain os where os: "p_outputs p = wl_dst c # os" "op_terms T (wl_rhs c) \<noteq> []"
      "\<forall>t \<in> set (op_terms T (wl_rhs c)). sw_wire t \<in> set (gate_uses p) \<union> set os"
      using c(4) unfolding defines_ok_def gate_defines_def by blast
    note o' = ordered_head[OF Cons.prems(2) c(3)]
    have z: "wl_dst c \<in> set (gate_writes p)" "set os \<subseteq> set (gate_writes p)" "wl_dst c \<notin> set os"
      using o'(1) os(1) by (auto simp: gate_writes_def)
    have l: "lin_ordered T ls'" and sub: "wl_dst ` set ls' \<subseteq> all_outs r ds" using ih by blast+
    have "lin_ordered T ls"
      unfolding c(1)
    proof (rule lin_ordered_Cons[OF l os(2)])
      show "wl_dst c \<notin> wl_dst ` set ls'"
      proof
        assume "wl_dst c \<in> wl_dst ` set ls'"
        then have "wl_dst c \<in> all_outs r ds" by (rule subsetD[OF sub])
        from o'(3)[OF this] show False using z(1) by simp
      qed
      show "sw_wire t \<noteq> wl_dst c \<and> sw_wire t \<notin> wl_dst ` set ls'" if t: "t \<in> set (op_terms T (wl_rhs c))" for t
      proof (intro conjI notI)
        have u: "sw_wire t \<in> set (gate_uses p) \<or> sw_wire t \<in> set os" using bspec[OF os(3) t] by simp
        assume "sw_wire t \<in> wl_dst ` set ls'"
        then have "sw_wire t \<in> all_outs r ds" by (rule subsetD[OF sub])
        from o'(3)[OF this] show False using u subsetD[OF z(2)] by auto
      next
        have u: "sw_wire t \<in> set (gate_uses p) \<or> sw_wire t \<in> set os" using bspec[OF os(3) t] by simp
        assume "sw_wire t = wl_dst c"
        then show False using u z(1,3) o'(2) by auto
      qed
    qed
    moreover have "wl_dst ` set ls \<subseteq> all_outs r (d # ds)" proof -
      have "wl_dst c \<in> (\<Union>p \<in> set_option (get_gate_param r d). set (p_outputs p))" using c(3) os(1) by simp
      then show ?thesis using ih by (simp add: c(1) le_supI2)
    qed
    ultimately show ?thesis by blast
  qed
qed

text \<open>So what the gates emit can be fused, and the runs of the gates meet every definition.\<close>

lemma constrained_fusable:
  assumes ready: "graph_ready r g" and multi: "multi_fed r (gg_gates g)" and room: "sum_list (map gate_room (gg_gates g)) < 2 ^ 32"
    and cb: "constrain_gates r dead live 0 (gg_gates g) cb_new = Some cb"
  shows "fusable cb" "set (lin_dsts cb) \<subseteq> all_outs r (gg_gates g)"
    "\<And>\<tau>. consts_hold (gg_wires g) \<tau> \<Longrightarrow> outputs_sat r (gg_gates g) \<tau> \<Longrightarrow> meets cb C \<tau>"
proof -
  have wf: "\<forall>d \<in> set (gg_gates g). gate_wf r (gg_wires g) d \<and> gate_imm_ok d" and ord: "ordered r (gg_gates g)"
    using ready by (simp_all add: graph_ready_def gate_ready_def)
  have new: "cb_terms cb_new = []" "cb_plus cb_new e = e" for e by (simp_all add: cb_new_def cb_plus_def)
  obtain cb' where b: "constrain_gates r dead live 0 (gg_gates g) cb_new = Some cb'" "cb_wf cb'" "cb_in (seen_wires r g) cb'"
    using constrain_ready[OF ready room, of dead live] by blast
  have "length (cb_terms cb_new) + sum_list (map gate_room (gg_gates g)) < 2 ^ 32" using room new by simp
  from constrain_gates_adds[OF wf multi this, of dead live 0] new cb
  have e: "\<forall>t \<in> set (cb_terms cb). snd (sw_seq t) = IDENTITY" "lin_of r (cb_terms cb) (gg_gates g) (cb_linear cb)"
    "\<And>\<tau>. consts_hold (gg_wires g) \<tau> \<Longrightarrow> outputs_sat r (gg_gates g) \<tau> \<Longrightarrow> \<forall>c \<in> set (cb_linear cb). linear_sat \<tau> (cb_terms cb) c" by auto
  note lo = lin_of_facts[OF e(2) ord]
  have "\<forall>t \<in> set (cb_terms cb). seq_wf (sw_seq t)" using b(1,3) cb by (auto simp: cb_in_def term_in_def)
  then show "fusable cb"
    unfolding fusable_def using b(1,2) cb e(1) lo by (simp add: lin_ordered_def lin_terms_def lin_dsts_def)
  show "set (lin_dsts cb) \<subseteq> all_outs r (gg_gates g)" using lo by (simp add: lin_dsts_def)
  show "meets cb C \<tau>" if t: "consts_hold (gg_wires g) \<tau>" "outputs_sat r (gg_gates g) \<tau>" for \<tau>
    unfolding meets_def
  proof (intro allI impI)
    fix j assume j: "j < length (cb_linear cb)"
    then have "linear_sat \<tau> (cb_terms cb) (cb_linear cb ! j)" using e(3)[OF t] by simp
    then show "terms_val \<tau> (lin_terms cb j) = \<tau> (lin_dsts cb ! j)" using j by (simp add: linear_sat_val lin_terms_def lin_dsts_def)
  qed
qed

end
