(* ===== verification/Compile.thy ===== *)
theory Compile
  imports Emission
begin

text \<open>
  A whole build (\<open>builder/mod.rs\<close>, \<open>CircuitBuilder::compile\<close>): the passes over the gate graph, the
  constraints of the gates that are left, their fusion, and the assembly of the circuit.  \<open>None\<close> is a
  panic; \<open>Inl\<close> is the error of a gate that fails on constants.
\<close>

section \<open>Definitions\<close>

definition pinned_wires :: "wire set \<Rightarrow> pending_call list \<Rightarrow> wire set" where
  "pinned_wires force_committed calls = force_committed \<union> call_wires calls"

definition fuse :: "post_order \<Rightarrow> options \<Rightarrow> wire set \<Rightarrow> constraint_builder \<Rightarrow> constraint_builder option" where
  "fuse post opts pinned cb = (if enable_gate_fusion opts then fusion_run_pass post pinned cb else Some cb)"

definition compile :: "post_order \<Rightarrow> options \<Rightarrow> wire set \<Rightarrow> hint_registry \<Rightarrow> path_tree \<Rightarrow> pending_call list \<Rightarrow> gate_graph \<Rightarrow>
    (gate \<times> violation + circuit) option" where
  "compile post opts force_committed r tree calls g = do {
    let pinned = pinned_wires force_committed calls;
    res \<leftarrow> optimise opts pinned r g;
    case res of
      Inl e \<Rightarrow> Some (Inl e)
    | Inr (dead, live, g) \<Rightarrow> do {
        cb \<leftarrow> constrain_gates r dead live 0 (gg_gates g) cb_new;
        cb \<leftarrow> fuse post opts pinned cb;
        c \<leftarrow> assemble opts r tree calls g cb;
        Some (Inr c)
      }
  }"

text \<open>What fusion relies on, of the builder the passes lead to: the traversal, and room in the arena.\<close>

definition lowered_gates :: "options \<Rightarrow> wire set \<Rightarrow> hint_registry \<Rightarrow> gate_graph \<Rightarrow> constraint_builder option" where
  "lowered_gates opts pinned r g = do {
    res \<leftarrow> optimise opts pinned r g;
    case res of
      Inl e \<Rightarrow> None
    | Inr (dead, live, g) \<Rightarrow> constrain_gates r dead live 0 (gg_gates g) cb_new
  }"

definition can_fuse :: "post_order \<Rightarrow> options \<Rightarrow> wire set \<Rightarrow> hint_registry \<Rightarrow> gate_graph \<Rightarrow> bool" where
  "can_fuse post opts pinned r g \<longleftrightarrow> (enable_gate_fusion opts \<longrightarrow>
    (case lowered_gates opts pinned r g of None \<Rightarrow> True | Some cb \<Rightarrow> traverses post cb \<and> fusion_room post pinned cb))"

section \<open>Graphs that differ in what gates read\<close>

lemma reads_moved_alike: "reads_moved r g g' \<Longrightarrow> alike r (gg_gates g) (gg_gates g')"
  unfolding reads_moved_def alike_def by blast

lemma alike_map:
  assumes "alike r ds ds'" "\<And>d d' p p'. same_gate r d d' p p' \<Longrightarrow> f d' = f d"
  shows "map f ds' = map f ds"
proof (rule nth_equalityI)
  show "length (map f ds') = length (map f ds)" using assms(1) by (simp add: alike_def)
  fix i assume "i < length (map f ds')"
  then have i: "i < length ds" "i < length ds'" using assms(1) by (simp_all add: alike_def)
  obtain p p' where "same_gate r (ds ! i) (ds' ! i) p p'" using assms(1) i(1) unfolding alike_def by blast
  then show "map f ds' ! i = map f ds ! i" using assms(2) i by simp
qed

lemma alike_room: "alike r ds ds' \<Longrightarrow> sum_list (map gate_room ds') = sum_list (map gate_room ds)"
  by (rule arg_cong[of _ _ sum_list], erule alike_map) (simp add: same_gate_def gate_room_def)

lemma alike_writes:
  assumes "alike r ds ds'"
  shows "all_writes r ds' = all_writes r ds" "all_outs r ds' = all_outs r ds"
proof -
  have "map (\<lambda>d. \<Union>p \<in> set_option (get_gate_param r d). set (gate_writes p)) ds' = map (\<lambda>d. \<Union>p \<in> set_option (get_gate_param r d). set (gate_writes p)) ds"
    by (rule alike_map[OF assms]) (simp add: same_gate_params same_gate_fields)
  then show "all_writes r ds' = all_writes r ds" unfolding all_writes_def set_map[symmetric] by (metis image_set)
  have "map (\<lambda>d. \<Union>p \<in> set_option (get_gate_param r d). set (p_outputs p)) ds' = map (\<lambda>d. \<Union>p \<in> set_option (get_gate_param r d). set (p_outputs p)) ds"
    by (rule alike_map[OF assms]) (simp add: same_gate_params same_gate_fields)
  then show "all_outs r ds' = all_outs r ds" unfolding all_outs_def by (metis image_set)
qed

lemma alike_multi:
  assumes "alike r ds ds'" "multi_fed r ds"
  shows "multi_fed r ds'"
  unfolding multi_fed_def
proof (intro ballI allI impI)
  fix d q assume d: "d \<in> set ds'" "body d = Op BxorMulti" "get_gate_param r d = Some q"
  obtain i where i: "i < length ds'" "ds' ! i = d" using d(1) by (auto simp: in_set_conv_nth)
  then have il: "i < length ds" using assms(1) by (simp add: alike_def)
  obtain p p' where s: "same_gate r (ds ! i) (ds' ! i) p p'" using assms(1) il unfolding alike_def by blast
  then have "body (ds ! i) = Op BxorMulti" "length (p_inputs p') = length (p_inputs p)" "p' = q"
    using i d by (simp_all add: same_gate_def)
  then show "p_inputs q \<noteq> []" using assms(2) il same_gate_params(1)[OF s] unfolding multi_fed_def by (metis length_0_conv nth_mem)
qed

lemma agree_graph_fails:
  assumes ag: "agree r (gate_run r) ks ds ds'" and t: "consts_hold ks \<tau>" "\<forall>d \<in> set ds. gate_run r d \<tau>"
  shows "graph_fails r names 0 ds' \<tau> = graph_fails r names 0 ds \<tau>"
proof -
  have len: "length ds' = length ds" using ag by (simp add: agree_def)
  let ?f = "\<lambda>(i, d). case get_gate_param r d of None \<Rightarrow> [] | Some p \<Rightarrow> map (Pair (names i)) (gate_fails r d p \<tau>)"
  have "?f (i, ds' ! i) = ?f (i, ds ! i)" if i: "i < length ds" for i
  proof -
    obtain p p' where s: "same_gate r (ds ! i) (ds' ! i) p p'" by (rule agreeD[OF ag i]) blast
    show ?thesis using agree_fails[OF ag t i same_gate_params[OF s]] same_gate_params[OF s] by simp
  qed
  then have "map ?f (enumerate 0 ds') = map ?f (enumerate 0 ds)"
    by (intro nth_equalityI) (simp_all add: len nth_enumerate_eq)
  then show ?thesis unfolding graph_fails_def by simp
qed

lemma no_graph_fails:
  "graph_fails r names 0 ds \<tau> = [] \<longleftrightarrow> (\<forall>j < length ds. \<forall>p. get_gate_param r (ds ! j) = Some p \<longrightarrow> gate_fails r (ds ! j) p \<tau> = [])"
proof -
  have "graph_fails r names gate ds \<tau> = [] \<longleftrightarrow> (\<forall>d \<in> set ds. \<forall>p. get_gate_param r d = Some p \<longrightarrow> gate_fails r d p \<tau> = [])" for gate
    by (induction ds arbitrary: gate) (auto split: option.splits)
  then show ?thesis by (simp add: all_set_conv_all_nth)
qed

section \<open>The constraints and their fusion\<close>

lemma kept_set: "set (kept_gates dead live 0 ds) = (\<lambda>j. ds ! j) ` emitted dead live (length ds)"
  by (force simp: kept_gates_def emitted_def in_set_enumerate_eq image_iff)

lemma run_outputs_sat:
  assumes ready: "graph_ready r g" and run: "\<forall>d \<in> set (gg_gates g). gate_run r d \<tau>"
  shows "outputs_sat r (gg_gates g) \<tau>"
  unfolding outputs_sat_def
proof (intro ballI allI impI)
  fix d p assume d: "d \<in> set (gg_gates g)" "get_gate_param r d = Some p" "p_outputs p \<noteq> []"
  have wf: "gate_wf r (gg_wires g) d" "gate_imm_ok d" using ready d(1) by (simp_all add: graph_ready_def gate_ready_def)
  have "gate_done r d p \<tau>" using run d(1,2) by (auto simp: gate_run_def)
  then show "gate_sat r d \<tau>" using done_sat_iff[OF wf d(2)] outputs_never_fail[OF wf(1) d(2,3)] by simp
qed

text \<open>What the constraints say once fused: of a run the same as before, and what satisfies them satisfies the
  constraints before fusion with other words on the wires \<open>H\<close>.\<close>

definition fused_into :: "hint_registry \<Rightarrow> gate_graph \<Rightarrow> wire set \<Rightarrow> constraint_builder \<Rightarrow> wire set \<Rightarrow> constraint_builder \<Rightarrow> bool" where
  "fused_into r g pinned cb H cb' \<longleftrightarrow> cb_wf cb' \<and> cb_in (seen_wires r g) cb' \<and> H \<subseteq> all_outs r (gg_gates g) - pinned \<and>
    (\<forall>\<tau>. consts_hold (gg_wires g) \<tau> \<longrightarrow> (\<forall>d \<in> set (gg_gates g). gate_run r d \<tau>) \<longrightarrow> (cb_sat \<tau> cb' \<longleftrightarrow> cb_sat \<tau> cb)) \<and>
    (\<forall>\<sigma>. cb_sat \<sigma> cb' \<longrightarrow> (\<exists>\<sigma>'. cb_sat \<sigma>' cb \<and> (\<forall>w. w \<notin> H \<longrightarrow> \<sigma>' w = \<sigma> w)))"

lemma fuse_spec:
  assumes ready: "graph_ready r g" and multi: "multi_fed r (gg_gates g)" and room: "sum_list (map gate_room (gg_gates g)) < 2 ^ 32"
    and cb: "constrain_gates r dead live 0 (gg_gates g) cb_new = Some cb"
    and post: "enable_gate_fusion opts \<Longrightarrow> traverses post cb \<and> fusion_room post pinned cb"
  shows "\<exists>cb' H. fuse post opts pinned cb = Some cb' \<and> fused_into r g pinned cb H cb'"
proof -
  have in': "cb_wf cb" "cb_in (seen_wires r g) cb" using constrain_ready[OF ready room, of dead live] cb by auto
  show ?thesis
  proof (cases "enable_gate_fusion opts")
    case False
    then show ?thesis using in' by (intro exI[of _ cb] exI[of _ "{}"]) (auto simp: fuse_def fused_into_def)
  next
    case True
    note fus = constrained_fusable[OF ready multi room cb]
    obtain cb' C where f: "fusion_run_pass post pinned cb = Some cb'" "fusion_commits post pinned cb = Some C" "cb_wf cb'"
      "cb_in (seen_wires r g) cb'" "pinned \<inter> set (lin_dsts cb) \<subseteq> C" "C \<subseteq> set (lin_dsts cb)"
      "\<And>\<sigma>. meets cb C \<sigma> \<Longrightarrow> cb_sat \<sigma> cb' \<longleftrightarrow> cb_sat \<sigma> cb"
      "\<And>\<sigma>. cb_sat \<sigma> cb' \<Longrightarrow> \<exists>\<sigma>'. cb_sat \<sigma>' cb \<and> (\<forall>w. w \<notin> inlined cb C \<longrightarrow> \<sigma>' w = \<sigma> w)"
      by (rule fusion_run_pass_ok[OF fus(1) in'(2)]) (use post True in blast)+
    have "inlined cb C \<subseteq> all_outs r (gg_gates g) - pinned" using fus(2) f(5) unfolding inlined_def by blast
    moreover have "cb_sat \<tau> cb' \<longleftrightarrow> cb_sat \<tau> cb" if "consts_hold (gg_wires g) \<tau>" "\<forall>d \<in> set (gg_gates g). gate_run r d \<tau>" for \<tau>
      by (rule f(7)[OF fus(3)[OF that(1) run_outputs_sat[OF ready that(2)]]])
    ultimately show ?thesis
      using True f(1,3,4,8) by (intro exI[of _ cb'] exI[of _ "inlined cb C"]) (simp add: fuse_def fused_into_def)
  qed
qed

lemma verified_constants:
  assumes c: "assembled opts r tree calls g cb slot n c" "length (gg_wires g) \<le> 2 ^ 26" and v: "fills c v"
    and ok: "cs_verify (c_constraint_system c) v = Ok ()"
  shows "vv_words v = constants (c_constraint_system c) @ drop (lay_n_const (c_layout c)) (vv_words v)"
    "\<forall>j < lay_n_const (c_layout c). vv_words v ! j = constants (c_constraint_system c) ! j"
proof -
  let ?cs = "c_constraint_system c" and ?l = "c_layout c"
  note n = n_constants[OF c]
  have n': "cs_n_const ?cs = lay_n_const ?l" using n(1) by (simp add: cs_n_const_def)
  have cs: "n_inout ?cs = lay_n_inout ?l" "n_private ?cs = lay_n_private ?l" "system_wf ?cs"
    using c(1) by (simp_all add: assembled_def)
  have shaped: "vv_shaped ?cs v"
    using v cs(1,2) n' by (auto simp: vv_shaped_def fills_def vv_shape_def layout_shape_def cs_n_public_values_def lay_defs)
  have "constants_open v ?cs" using cs_verify_spec(2)[OF cs(3) shaped] ok n(2) n' by simp
  then show k: "\<forall>j < lay_n_const ?l. vv_words v ! j = constants ?cs ! j" by (simp add: constants_open_def n')
  have "lay_n_const ?l \<le> length (vv_words v)" using fills_length[OF v] by (simp add: lay_defs)
  then show "vv_words v = constants ?cs @ drop (lay_n_const ?l) (vv_words v)"
    using k n(1) by (intro nth_equalityI) (auto simp: nth_append)
qed

section \<open>The build\<close>

definition compiled :: "options \<Rightarrow> wire set \<Rightarrow> hint_registry \<Rightarrow> path_tree \<Rightarrow> pending_call list \<Rightarrow> gate_graph \<Rightarrow>
    gate set option \<Rightarrow> gate set option \<Rightarrow> gate_graph \<Rightarrow> constraint_builder \<Rightarrow> wire set \<Rightarrow> circuit \<Rightarrow> bool" where
  "compiled opts pinned r tree calls g dead live g' cb H c \<longleftrightarrow>
    optimisable r g' \<and> reads_moved r g g' \<and> agree r (gate_run r) (gg_wires g') (gg_gates g) (gg_gates g') \<and>
    covers r (gg_wires g) (gg_gates g) (gg_wires g') (gg_gates g') (emitted dead live (length (gg_gates g))) (loosened opts r g dead live) \<and>
    fails_emitted r (gg_wires g') (gg_gates g') (emitted dead live (length (gg_gates g))) \<and>
    (\<forall>k < length (gg_gates g). \<forall>p w. \<not> gate_kept dead live k \<longrightarrow> get_gate_param r (gg_gates g ! k) = Some p \<longrightarrow>
      w \<in> set (p_outputs p) \<longrightarrow> \<not> observable g pinned w) \<and>
    (\<forall>\<sigma>. consts_hold (gg_wires g') \<sigma> \<longrightarrow>
      (cb_sat \<sigma> cb \<longleftrightarrow> (\<forall>j \<in> emitted dead live (length (gg_gates g)). gate_sat r (gg_gates g' ! j) \<sigma>))) \<and>
    (\<exists>cb' slot n. fused_into r g' pinned cb H cb' \<and> assembled opts r tree calls g' cb' slot n c)"

lemma compile_steps:
  assumes opt: "optimisable r g" and consts': "consts_room r g" and room: "sum_list (map gate_room (gg_gates g)) < 2 ^ 32"
    and multi: "multi_fed r (gg_gates g)" and adm: "can_fuse post opts (pinned_wires fc calls) r g"
  obtains (fails) gate reason where "compile post opts fc r tree calls g = Some (Inl (gate, reason))"
      "enable_constant_propagation opts" "always_fails r g gate reason"
    | (built) dead live g' cb H c where "compile post opts fc r tree calls g = Some (Inr c)"
      "compiled opts (pinned_wires fc calls) r tree calls g dead live g' cb H c"
proof -
  let ?pinned = "pinned_wires fc calls"
  obtain res where res: "optimise opts ?pinned r g = Some res"
    and spec: "case res of Inl (gate, reason) \<Rightarrow> enable_constant_propagation opts \<and> always_fails r g gate reason
     | Inr (dead, live, g') \<Rightarrow> optimisable r g' \<and> reads_moved r g g' \<and> agree r (gate_run r) (gg_wires g') (gg_gates g) (gg_gates g') \<and>
         covers r (gg_wires g) (gg_gates g) (gg_wires g') (gg_gates g') (emitted dead live (length (gg_gates g))) (loosened opts r g dead live) \<and>
         fails_emitted r (gg_wires g') (gg_gates g') (emitted dead live (length (gg_gates g))) \<and>
         (\<forall>k < length (gg_gates g). \<forall>p w. \<not> gate_kept dead live k \<longrightarrow> get_gate_param r (gg_gates g ! k) = Some p \<longrightarrow>
           w \<in> set (p_outputs p) \<longrightarrow> \<not> observable g ?pinned w)"
    using optimise_spec[OF opt consts', of opts ?pinned] by blast
  show ?thesis
  proof (cases res)
    case (Inl e)
    obtain gate reason where e: "e = (gate, reason)" by (cases e)
    show ?thesis by (rule fails[of gate reason]) (use res spec Inl e in \<open>simp_all add: compile_def\<close>)
  next
    case (Inr x)
    obtain dead live g' where x: "x = (dead, live, g')" by (cases x)
    have s: "optimisable r g'" "reads_moved r g g'" "agree r (gate_run r) (gg_wires g') (gg_gates g) (gg_gates g')"
      "covers r (gg_wires g) (gg_gates g) (gg_wires g') (gg_gates g') (emitted dead live (length (gg_gates g))) (loosened opts r g dead live)"
      "fails_emitted r (gg_wires g') (gg_gates g') (emitted dead live (length (gg_gates g)))"
      "\<forall>k < length (gg_gates g). \<forall>p w. \<not> gate_kept dead live k \<longrightarrow> get_gate_param r (gg_gates g ! k) = Some p \<longrightarrow>
           w \<in> set (p_outputs p) \<longrightarrow> \<not> observable g ?pinned w"
      using spec Inr x by simp_all
    have ready: "graph_ready r g'" using s(1) by (simp add: optimisable_def)
    note al = reads_moved_alike[OF s(2)]
    have len: "length (gg_gates g') = length (gg_gates g)" using al by (simp add: alike_def)
    have room': "sum_list (map gate_room (gg_gates g')) < 2 ^ 32" using room alike_room[OF al] by simp
    note multi' = alike_multi[OF al multi]
    obtain cb where cb: "constrain_gates r dead live 0 (gg_gates g') cb_new = Some cb"
      "\<forall>\<sigma>. consts_hold (gg_wires g') \<sigma> \<longrightarrow> (cb_sat \<sigma> cb \<longleftrightarrow> (\<forall>d \<in> set (kept_gates dead live 0 (gg_gates g')). gate_sat r d \<sigma>))"
      using constrain_ready[OF ready room', of dead live] by blast
    have low: "lowered_gates opts ?pinned r g = Some cb" using res Inr x cb(1) by (simp add: lowered_gates_def)
    have post: "traverses post cb \<and> fusion_room post ?pinned cb" if "enable_gate_fusion opts"
      using adm that low by (simp add: can_fuse_def)
    obtain cb' H where f: "fuse post opts ?pinned cb = Some cb'" "fused_into r g' ?pinned cb H cb'"
      using fuse_spec[OF ready multi' room' cb(1) post] by blast
    have "cb_wf cb'" "cb_in {..<length (gg_wires g')} cb'" using f(2) by (auto simp: fused_into_def cb_in_def term_in_def seen_wires_def)
    from assemble_spec[OF ready this, of opts tree calls] obtain c slot n where
      c: "assemble opts r tree calls g' cb' = Some c" "assembled opts r tree calls g' cb' slot n c" by blast
    have sat: "\<forall>\<sigma>. consts_hold (gg_wires g') \<sigma> \<longrightarrow>
        (cb_sat \<sigma> cb \<longleftrightarrow> (\<forall>j \<in> emitted dead live (length (gg_gates g)). gate_sat r (gg_gates g' ! j) \<sigma>))"
      using cb(2) unfolding kept_set len by simp
    show ?thesis
    proof (rule built)
      show "compile post opts fc r tree calls g = Some (Inr c)"
        using res Inr x cb(1) f(1) c(1) by (simp add: compile_def)
      show "compiled opts ?pinned r tree calls g dead live g' cb H c"
        unfolding compiled_def using s sat f(2) c(2) by blast
    qed
  qed
qed

text \<open>Filling the circuit of a build runs the gates it was given.\<close>

lemma compiled_populate:
  assumes opt: "optimisable r g" and c: "compiled opts pinned r tree calls g dead live g' cb H c" and v: "fills c v"
  shows "\<exists>v' \<tau>. populate_wire_witness c v = Some (report (Some tree) (graph_fails r (assertion_names g) 0 (gg_gates g) \<tau>), v') \<and>
    fills c v' \<and> consts_hold (gg_wires g) \<tau> \<and> (\<forall>d \<in> set (gg_gates g). gate_run r d \<tau>) \<and>
    (\<forall>w < length (gg_wires g). unwritten r g w \<longrightarrow> \<not> is_const (gg_wires g ! w) \<longrightarrow> vv_get v (witness_index c w) = Some (\<tau> w)) \<and>
    cs_verify (c_constraint_system c) v' \<noteq> Panic \<and>
    (cs_verify (c_constraint_system c) v' = Ok () \<longleftrightarrow> graph_fails r (assertion_names g) 0 (gg_gates g) \<tau> = [])"
proof -
  let ?ds = "gg_gates g" and ?ds' = "gg_gates g'" and ?B = "emitted dead live (length (gg_gates g))"
  obtain cb' slot n where k: "optimisable r g'" "reads_moved r g g'" "agree r (gate_run r) (gg_wires g') ?ds ?ds'"
    "fails_emitted r (gg_wires g') ?ds' ?B" "\<And>\<sigma>. consts_hold (gg_wires g') \<sigma> \<Longrightarrow> cb_sat \<sigma> cb \<longleftrightarrow> (\<forall>j \<in> ?B. gate_sat r (?ds' ! j) \<sigma>)"
    "fused_into r g' pinned cb H cb'" "assembled opts r tree calls g' cb' slot n c"
    using c unfolding compiled_def by blast
  have ready: "graph_ready r g'" using k(1) by (simp add: optimisable_def)
  note al = reads_moved_alike[OF k(2)]
  have len: "length ?ds' = length ?ds" using al by (simp add: alike_def)
  have names: "assertion_names g' = assertion_names g" using k(2) by (simp add: reads_moved_def)
  obtain cs where cs: "gg_wires g' = gg_wires g @ map KConstant cs" using k(2) by (auto simp: reads_moved_def)
  have used: "cb_used cb' \<subseteq> {..<length (gg_wires g')} - temps_of r ?ds'"
    using cb_used_in[of "seen_wires r g'" cb'] k(6) by (simp add: fused_into_def seen_wires_def)
  obtain v' \<tau> where p: "populate_wire_witness c v = Some (report (Some tree) (graph_fails r (assertion_names g') 0 ?ds' \<tau>), v')"
    "fills c v'" "consts_hold (gg_wires g') \<tau>" "\<forall>d \<in> set ?ds'. \<forall>p. get_gate_param r d = Some p \<longrightarrow> gate_done r d p \<tau>"
    "\<forall>w < length (gg_wires g'). unwritten r g' w \<longrightarrow> \<not> is_const (gg_wires g' ! w) \<longrightarrow> vv_get v (witness_index c w) = Some (\<tau> w)"
    "cs_verify (c_constraint_system c) v' \<noteq> Panic" "cs_verify (c_constraint_system c) v' = Ok () \<longleftrightarrow> cb_sat \<tau> cb'"
    using populate_spec[OF ready k(7) v used] by blast
  have run': "\<forall>d \<in> set ?ds'. gate_run r d \<tau>" using p(4) params_present[OF k(1)] by (auto simp: gate_run_def)
  have run: "\<forall>d \<in> set ?ds. gate_run r d \<tau>" using agree_all[OF k(3) by_words_run _ p(3)] run' by simp
  have fails: "graph_fails r (assertion_names g') 0 ?ds' \<tau> = graph_fails r (assertion_names g) 0 ?ds \<tau>"
    unfolding names by (rule agree_graph_fails[OF k(3) p(3) run])
  have sat: "gate_sat r (?ds' ! j) \<tau> \<longleftrightarrow> (\<forall>p. get_gate_param r (?ds' ! j) = Some p \<longrightarrow> gate_fails r (?ds' ! j) p \<tau> = [])"
    if j: "j < length ?ds" for j
  proof -
    have d: "?ds' ! j \<in> set ?ds'" using j len by simp
    then have wf: "gate_wf r (gg_wires g') (?ds' ! j)" "gate_imm_ok (?ds' ! j)" using ready by (auto simp: graph_ready_def gate_ready_def)
    obtain q where q: "get_gate_param r (?ds' ! j) = Some q" using run' d by (auto simp: gate_run_def)
    show ?thesis using done_sat_iff[OF wf q] p(4) d q by simp
  qed
  have B: "\<And>j. j \<in> ?B \<Longrightarrow> j < length ?ds" by (simp add: emitted_def)
  have "cb_sat \<tau> cb' \<longleftrightarrow> cb_sat \<tau> cb" using k(6) p(3) run' unfolding fused_into_def by blast
  also have "\<dots> \<longleftrightarrow> (\<forall>j \<in> ?B. \<forall>p. get_gate_param r (?ds' ! j) = Some p \<longrightarrow> gate_fails r (?ds' ! j) p \<tau> = [])"
    using k(5)[OF p(3)] sat B by blast
  also have "\<dots> \<longleftrightarrow> (\<forall>j < length ?ds'. \<forall>p. get_gate_param r (?ds' ! j) = Some p \<longrightarrow> gate_fails r (?ds' ! j) p \<tau> = [])"
    (is "?l \<longleftrightarrow> ?r")
  proof
    have "\<forall>j < length ?ds'. gate_run r (?ds' ! j) \<tau>" using run' by simp
    then show "?l \<Longrightarrow> ?r" using k(4) unfolding fails_emitted_def by blast
    show "?r \<Longrightarrow> ?l" using B len by metis
  qed
  also have "\<dots> \<longleftrightarrow> graph_fails r (assertion_names g) 0 ?ds \<tau> = []" unfolding no_graph_fails[symmetric, where names = "assertion_names g'"] fails ..
  finally have ver: "cb_sat \<tau> cb' \<longleftrightarrow> graph_fails r (assertion_names g) 0 ?ds \<tau> = []" .
  have inputs: "vv_get v (witness_index c w) = Some (\<tau> w)"
    if "w < length (gg_wires g)" "unwritten r g w" "\<not> is_const (gg_wires g ! w)" for w
    using p(5) that alike_writes(1)[OF al] by (auto simp: unwritten_def cs nth_append)
  have "consts_hold (gg_wires g) \<tau>" using p(3) unfolding cs by (auto simp: consts_hold_def nth_append split: if_splits wire_kind.splits)
  then show ?thesis using p(1,2,6,7) run inputs ver unfolding fails by (intro exI[of _ v'] exI[of _ \<tau>]) simp
qed

text \<open>The wires whose words the circuit settles: inputs, and pinned outputs no propagated hint returns.\<close>

definition settled :: "options \<Rightarrow> wire set \<Rightarrow> hint_registry \<Rightarrow> gate_graph \<Rightarrow> wire \<Rightarrow> bool" where
  "settled opts pinned r g w \<longleftrightarrow> unwritten r g w \<or>
    (w \<in> pinned \<and> w \<in> all_outs r (gg_gates g) \<and> \<not> (enable_constant_propagation opts \<and> w \<in> hint_outs r (gg_gates g)))"

lemma outs_written: "all_outs r ds \<subseteq> all_writes r ds" "hint_outs r ds \<subseteq> all_outs r ds"
  by (auto simp: all_outs_def all_writes_def gate_writes_def hint_outs_def split: gate_body.splits)

lemma dead_written: "D \<subseteq> {..<length ds} \<Longrightarrow> dead_writes r ds D \<subseteq> all_writes r ds"
  by (fastforce simp: dead_writes_def all_writes_def)

lemma settled_kept:
  assumes opt: "optimisable r g" and w: "settled opts pinned r g w"
    and seen: "\<And>k p w. k < length (gg_gates g) \<Longrightarrow> \<not> gate_kept dead live k \<Longrightarrow> get_gate_param r (gg_gates g ! k) = Some p \<Longrightarrow>
      w \<in> set (p_outputs p) \<Longrightarrow> \<not> observable g pinned w"
  shows "w \<notin> loosened opts r g dead live"
proof
  let ?D = "{k. k < length (gg_gates g) \<and> \<not> gate_kept dead live k}"
  assume l: "w \<in> loosened opts r g dead live"
  have "w \<in> all_writes r (gg_gates g)"
    using l dead_written[of ?D "gg_gates g" r] outs_written[of r "gg_gates g"] by (auto simp: loosened_def split: if_splits)
  then have p: "w \<in> pinned" "w \<in> all_outs r (gg_gates g)" "\<not> (enable_constant_propagation opts \<and> w \<in> hint_outs r (gg_gates g))"
    using w by (auto simp: settled_def unwritten_def)
  then have "w \<in> dead_writes r (gg_gates g) ?D" using l by (auto simp: loosened_def split: if_splits)
  then obtain k q where k: "k < length (gg_gates g)" "\<not> gate_kept dead live k" "get_gate_param r (gg_gates g ! k) = Some q" "w \<in> set (gate_writes q)"
    by (auto simp: dead_writes_def)
  obtain d s where d: "d \<in> set (gg_gates g)" "get_gate_param r d = Some s" "w \<in> set (p_outputs s)"
    using p(2) by (auto simp: all_outs_def)
  obtain j where "j < length (gg_gates g)" "gg_gates g ! j = d" using d(1) by (auto simp: in_set_conv_nth)
  with d have j: "j < length (gg_gates g)" "get_gate_param r (gg_gates g ! j) = Some s" "w \<in> set (p_outputs s)" by simp_all
  have "k = j" by (rule output_facts(3)[OF opt j k(1,3,4)])
  then have "\<not> observable g pinned w" using seen[OF k(1-3)] j k(3) by simp
  then show False using p(1) by (simp add: observable_def)
qed

text \<open>What the constraint system accepts comes from words that satisfy every gate the build was given.\<close>

lemma compiled_sound:
  assumes opt: "optimisable r g" and c: "compiled opts pinned r tree calls g dead live g' cb H c" and v: "fills c v"
    and ok: "cs_verify (c_constraint_system c) v = Ok ()"
  shows "\<exists>\<sigma>. consts_hold (gg_wires g) \<sigma> \<and> (\<forall>d \<in> set (gg_gates g). gate_sat r d \<sigma>) \<and>
    (\<forall>w < length (gg_wires g). settled opts pinned r g w \<longrightarrow> vv_get v (witness_index c w) = Some (\<sigma> w))"
proof -
  let ?ds = "gg_gates g" and ?ds' = "gg_gates g'" and ?B = "emitted dead live (length (gg_gates g))"
  obtain cb' slot n where k: "optimisable r g'" "reads_moved r g g'"
    "covers r (gg_wires g) ?ds (gg_wires g') ?ds' ?B (loosened opts r g dead live)"
    "\<And>k p w. k < length ?ds \<Longrightarrow> \<not> gate_kept dead live k \<Longrightarrow> get_gate_param r (?ds ! k) = Some p \<Longrightarrow> w \<in> set (p_outputs p) \<Longrightarrow> \<not> observable g pinned w"
    "\<And>\<sigma>. consts_hold (gg_wires g') \<sigma> \<Longrightarrow> cb_sat \<sigma> cb \<longleftrightarrow> (\<forall>j \<in> ?B. gate_sat r (?ds' ! j) \<sigma>)"
    "fused_into r g' pinned cb H cb'" "assembled opts r tree calls g' cb' slot n c"
    using c unfolding compiled_def by blast
  have ready: "graph_ready r g'" and N: "length (gg_wires g') \<le> 2 ^ 26" using k(1) by (simp_all add: optimisable_def graph_ready_def)
  obtain cs where cs: "gg_wires g' = gg_wires g @ map KConstant cs" using k(2) by (auto simp: reads_moved_def)
  note al = reads_moved_alike[OF k(2)]
  have used: "cb_used cb' \<subseteq> {..<length (gg_wires g')}"
    using cb_used_in[of "seen_wires r g'" cb'] k(6) by (auto simp: fused_into_def seen_wires_def)
  note vc = verified_constants[OF k(7) N v ok]
  have "cb_sat (word_in c v) cb'" using assembled_verify(2)[OF k(7) N v used vc(2)] ok by simp
  then obtain \<sigma>1 where s1: "cb_sat \<sigma>1 cb" "\<forall>w. w \<notin> H \<longrightarrow> \<sigma>1 w = word_in c v w" using k(6) unfolding fused_into_def by blast
  have H: "H \<subseteq> all_outs r ?ds - pinned" using k(6) alike_writes(2)[OF al] by (simp add: fused_into_def)
  have free: "w \<notin> H" if "unwritten r g w" for w using H outs_written(1)[of r ?ds] that by (auto simp: unwritten_def)
  have ch: "consts_hold (gg_wires g') (word_in c v)" by (rule filled_constants_hold[OF k(7) N v vc(1)])
  have "consts_hold (gg_wires g') \<sigma>1"
  proof -
    have "\<sigma>1 w = x" if w: "w < length (gg_wires g')" "gg_wires g' ! w = KConstant x" for w x
    proof -
      have "unwritten r g' w" by (rule constant_unwritten[OF ready]) (simp add: w(2))
      then have "w \<notin> H" using free alike_writes(1)[OF al] by (simp add: unwritten_def)
      then show ?thesis using s1(2) ch w by (auto simp: consts_hold_def)
    qed
    then show ?thesis by (simp add: consts_hold_def split: wire_kind.splits)
  qed
  then obtain \<sigma> where s: "consts_hold (gg_wires g) \<sigma>" "\<forall>d \<in> set ?ds. gate_sat r d \<sigma>"
    "\<forall>w. w \<notin> loosened opts r g dead live \<longrightarrow> \<sigma> w = \<sigma>1 w"
    using coversD[OF k(3)] k(5) s1(1) by blast
  have "vv_get v (witness_index c w) = Some (\<sigma> w)" if w: "w < length (gg_wires g)" "settled opts pinned r g w" for w
  proof -
    have "w \<notin> loosened opts r g dead live" by (rule settled_kept[OF opt w(2) k(4)])
    moreover have "w \<notin> H" using w(2) free H by (auto simp: settled_def)
    moreover have "w < length (gg_wires g')" using w(1) cs by simp
    ultimately show ?thesis using s(3) s1(2) word_place(1)[OF k(7) N v] by simp
  qed
  with s(1,2) show ?thesis by blast
qed

lemma compiled_valid: "compiled opts pinned r tree calls g dead live g' cb H c \<Longrightarrow> cs_validate (c_constraint_system c) = Ok ()"
  by (auto simp: compiled_def assembled_def cs_validate_spec)

end
