(* ===== verification/Compile_Facts.thy ===== *)
theory Compile_Facts
  imports Compile Fusion_Facts
begin

text \<open>
  What a build promises: the circuit runs the gates it was given and its constraint system accepts the
  runs in which no gate fails, and nothing that does not come from words that satisfy every gate.
\<close>

text \<open>C3: Building returns on every well-formed graph within the bounds of the formats, whatever passes are
  on, given a traversal that visits in post-order.  A failure names a gate that fails in every run.  Otherwise
  the system validates; filling the circuit runs the gates on the words given, reports what fails, and its
  result verifies exactly when nothing does; and whatever verifies holds, on its inputs and its settled pinned
  wires, the words of a valuation that satisfies all the gates given.\<close>

theorem compile_correct:
  assumes "optimisable r g" "consts_room r g" "sum_list (map gate_room (gg_gates g)) < 2 ^ 32" "multi_fed r (gg_gates g)"
    and "can_fuse post opts (pinned_wires force_committed calls) r g"
  shows "\<exists>res. compile post opts force_committed r tree calls g = Some res \<and>
    (case res of
      Inl (gate, reason) \<Rightarrow> enable_constant_propagation opts \<and> always_fails r g gate reason
    | Inr c \<Rightarrow> cs_validate (c_constraint_system c) = Ok () \<and> fills c (new_witness_filler c) \<and>
        (\<forall>v. fills c v \<longrightarrow>
          (\<exists>v' \<tau>. populate_wire_witness c v = Some (report (Some tree) (graph_fails r (assertion_names g) 0 (gg_gates g) \<tau>), v') \<and>
            fills c v' \<and> consts_hold (gg_wires g) \<tau> \<and> (\<forall>d \<in> set (gg_gates g). gate_run r d \<tau>) \<and>
            (\<forall>w < length (gg_wires g). unwritten r g w \<longrightarrow> \<not> is_const (gg_wires g ! w) \<longrightarrow>
              vv_get v (witness_index c w) = Some (\<tau> w)) \<and>
            cs_verify (c_constraint_system c) v' \<noteq> Panic \<and>
            (cs_verify (c_constraint_system c) v' = Ok () \<longleftrightarrow> graph_fails r (assertion_names g) 0 (gg_gates g) \<tau> = []))) \<and>
        (\<forall>v. fills c v \<longrightarrow> cs_verify (c_constraint_system c) v = Ok () \<longrightarrow>
          (\<exists>\<sigma>. consts_hold (gg_wires g) \<sigma> \<and> (\<forall>d \<in> set (gg_gates g). gate_sat r d \<sigma>) \<and>
            (\<forall>w < length (gg_wires g). settled opts (pinned_wires force_committed calls) r g w \<longrightarrow>
              vv_get v (witness_index c w) = Some (\<sigma> w)))))"
proof (rule compile_steps[OF assms, where tree = tree])
  fix gate reason assume "compile post opts force_committed r tree calls g = Some (Inl (gate, reason))"
    "enable_constant_propagation opts" "always_fails r g gate reason"
  then show ?thesis by simp
next
  fix dead live g' cb H c
  assume c: "compile post opts force_committed r tree calls g = Some (Inr c)"
    "compiled opts (pinned_wires force_committed calls) r tree calls g dead live g' cb H c"
  note run = compiled_populate[OF assms(1) c(2)] and sound = compiled_sound[OF assms(1) c(2)]
  show ?thesis
    unfolding c(1)
    by (intro exI conjI, rule refl, simp only: sum.case, intro conjI allI impI)
      (rule compiled_valid[OF c(2)] fills_new | erule run | erule (1) sound)+
qed

section \<open>The sample\<close>

lemma bind_Inr: "Option.bind a (case_sum (\<lambda>_. None) f) = Some b \<Longrightarrow> \<exists>y. a = Some (Inr y) \<and> f y = Some b"
  by (cases a) (auto split: sum.splits)

lemma sample_check_optimisable: "optimisable Map.empty sample_check"
proof -
  let ?g = sample_check
  have ks: "gg_wires ?g = [KConstant ALL_ONE, KWitness, KWitness, KInternal, KInout]" by (simp add: sample_check_def)
  have "const_pool ?g word = Some w \<longleftrightarrow> w < 5 \<and> gg_wires ?g ! w = KConstant word" for word w
  proof -
    have "gg_wires ?g ! w = KConstant word \<longleftrightarrow> w = 0 \<and> word = ALL_ONE" if "w < 5"
    proof -
      consider "w = 0" | "w = 1" | "w = 2" | "w = 3" | "w = 4" using \<open>w < 5\<close> by linarith
      then show ?thesis by cases (auto simp: ks)
    qed
    moreover have "const_pool ?g word = Some w \<longleftrightarrow> w = 0 \<and> word = ALL_ONE" by (auto simp: sample_check_def)
    ultimately show ?thesis by auto
  qed
  moreover have "all_one ?g = 0" "const_pool ?g ALL_ONE = Some 0" "length (gg_wires ?g) = 5" by (simp_all add: sample_check_def)
  moreover have "\<forall>d \<in> set (gg_gates ?g). gate_wf Map.empty (gg_wires ?g) d"
    using sample_check_gates_ready by (simp add: sample_check_gates gate_ready_def)
  ultimately have "graph_wf Map.empty ?g" by (simp add: graph_wf_def)
  moreover have "aux_private Map.empty (gg_gates ?g)" by (simp add: aux_private_def sample_check_gates sample_check_params)
  ultimately show ?thesis using sample_check_ready by (simp add: optimisable_def)
qed

lemma sample_check_consts: "consts_room Map.empty sample_check"
proof -
  have "all_outs Map.empty (gg_gates sample_check) = {3}"
    by (simp add: all_outs_def sample_check_gates sample_check_params)
  moreover have "length (gg_wires sample_check) = 5" by (simp add: sample_check_def)
  ultimately show ?thesis by (simp add: consts_room_def)
qed

text \<open>Node 0 is the exclusive or, 1 and 2 its operands, 3 its use in the assertion.\<close>

definition check_post :: post_order where
  "check_post es sources = [3, 0, 1, 2]"

lemma check_visits: "visits [(1, 0), (2, 0), (0, 3)] [1, 2] [3, 0, 1, 2 :: nat]"
proof -
  let ?E = "set [(1, 0), (2, 0), (0, 3 :: nat)]"
  have all: "v \<in> {3, 0, 1, 2}" if "(u, v) \<in> ?E\<^sup>*" "u \<in> {1, 2}" for u v
    using that by (induction rule: rtrancl_induct) auto
  have e: "(1, 0) \<in> ?E" "(0, 3) \<in> ?E" by simp_all
  have r: "(1, 0) \<in> ?E\<^sup>*" "(1, 3) \<in> ?E\<^sup>*" using e by (meson r_into_rtrancl rtrancl_trans)+
  have "{v. \<exists>s \<in> set [1, 2]. (s, v) \<in> ?E\<^sup>*} = set [3, 0, 1, 2]"
  proof (intro set_eqI iffI)
    fix v assume "v \<in> {v. \<exists>s \<in> set [1, 2]. (s, v) \<in> ?E\<^sup>*}"
    then show "v \<in> set [3, 0, 1, 2]" using all by auto
  next
    fix v :: nat assume "v \<in> set [3, 0, 1, 2]"
    then have "(1, v) \<in> ?E\<^sup>* \<or> v = 2" using r by auto
    then show "v \<in> {v. \<exists>s \<in> set [1, 2]. (s, v) \<in> ?E\<^sup>*}" by auto
  qed
  then show ?thesis by (auto simp: visits_def less_Suc_eq)
qed

lemma sample_check_fuses: "can_fuse check_post default_options (pinned_wires {} []) Map.empty sample_check"
proof -
  have "map_option (\<lambda>cb. map_option (\<lambda>leg. (edge_pairs leg, le_opaque leg)) (le_new cb))
      (lowered_gates default_options (pinned_wires {} []) Map.empty sample_check) = Some (Some ([(1, 0), (2, 0), (0, 3)], [1, 2]))" by code_simp
  moreover have "map_option (\<lambda>cb. map_option (\<lambda>C. fused_size cb C < 100) (fusion_commits check_post (pinned_wires {} []) cb))
      (lowered_gates default_options (pinned_wires {} []) Map.empty sample_check) = Some (Some True)" by code_simp
  ultimately show ?thesis
    using check_visits by (auto simp: can_fuse_def traverses_def fusion_room_def check_post_def)
qed

theorem compile_correct_witness:
  "\<exists>c v'. compile check_post default_options {} Map.empty tree_new [] sample_check = Some (Inr c) \<and>
    map (length \<circ> zc_val) (zero_constraints (c_constraint_system c)) = [3] \<and>
    populate_wire_witness c (new_witness_filler c) = Some (Ok (), v') \<and> cs_verify (c_constraint_system c) v' = Ok ()"
proof -
  let ?g = sample_check and ?r = "Map.empty :: hint_registry"
  have multi: "multi_fed ?r (gg_gates ?g)" by (simp add: multi_fed_def sample_check_gates sample_bodies)
  note cc = compile_correct[OF sample_check_optimisable sample_check_consts sample_check_room multi sample_check_fuses, of tree_new]
  have "Option.bind (compile check_post default_options {} ?r tree_new [] ?g)
      (case_sum (\<lambda>_. None) (\<lambda>c. Some (map (length \<circ> zc_val) (zero_constraints (c_constraint_system c))))) = Some [3]"
    by code_simp
  then obtain c where c: "compile check_post default_options {} ?r tree_new [] ?g = Some (Inr c)"
    "map (length \<circ> zc_val) (zero_constraints (c_constraint_system c)) = [3]"
    by (auto dest!: bind_Inr)
  from cc obtain v' \<tau> where v: "populate_wire_witness c (new_witness_filler c) =
      Some (report (Some tree_new) (graph_fails ?r (assertion_names ?g) 0 (gg_gates ?g) \<tau>), v')"
    "\<forall>d \<in> set (gg_gates ?g). gate_run ?r d \<tau>"
    "\<forall>w < length (gg_wires ?g). unwritten ?r ?g w \<longrightarrow> \<not> is_const (gg_wires ?g ! w) \<longrightarrow>
      vv_get (new_witness_filler c) (witness_index c w) = Some (\<tau> w)"
    "cs_verify (c_constraint_system c) v' = Ok () \<longleftrightarrow> graph_fails ?r (assertion_names ?g) 0 (gg_gates ?g) \<tau> = []"
    unfolding c(1) by (simp only: option.inject ex_simps simp_thms sum.case) blast
  have "\<forall>d \<in> set (gg_gates ?g). \<forall>p. get_gate_param ?r d = Some p \<longrightarrow> gate_done ?r d p \<tau>"
    using v(2) by (auto simp: gate_run_def)
  note quiet = sample_check_quiet(2)[OF this v(3)]
  show ?thesis using c v(1,4) unfolding quiet by (intro exI[of _ c] exI[of _ v']) (simp add: report_def)
qed

section \<open>Hints and constant propagation\<close>

text \<open>What a builder holds after a hint that repeats its input, called on the constant zero, its output
  promoted to the public interface and asserted to be zero.\<close>

definition echo_hints :: hint_registry where
  "echo_hints = [0 \<mapsto> \<lparr>hint_shape = (\<lambda>_. (1, 1)), hint_execute = (\<lambda>_ inputs outputs. take (length outputs) (inputs @ replicate (length outputs) 0))\<rparr>]"

definition hinted_eq :: "wire \<Rightarrow> gate_data" where
  "hinted_eq w = \<lparr>body = Op AssertEq, wires = [w, 1], immediates = [], dimensions = []\<rparr>"

definition hinted_call :: gate_data where
  "hinted_call = \<lparr>body = HintCall 0, wires = [1, 2], immediates = [], dimensions = []\<rparr>"

definition sample_hinted :: gate_graph where
  "sample_hinted = \<lparr>gg_gates = [hinted_call, hinted_eq 2], gg_wires = [KConstant ALL_ONE, KConstant 0, KInout],
    gate_origin = (\<lambda>_. 0), assertion_names = (\<lambda>_. 0), const_pool = [ALL_ONE \<mapsto> 0, 0 \<mapsto> 1], all_one = 0,
    wire_def = (\<lambda>_. None), use_edges = [], use_offsets = []\<rparr>"

definition no_post :: post_order where
  "no_post es sources = sources"

lemma hinted_fields: "gg_gates sample_hinted = [hinted_call, hinted_eq 2]"
  "gg_wires sample_hinted = [KConstant ALL_ONE, KConstant 0, KInout]"
  "body hinted_call = HintCall 0" "body (hinted_eq w) = Op AssertEq"
  "wires hinted_call = [1, 2]" "wires (hinted_eq w) = [w, 1]"
  by (simp_all add: sample_hinted_def hinted_call_def hinted_eq_def)

lemma hinted_params:
  "get_gate_param echo_hints hinted_call =
    Some \<lparr>p_constants = [], p_inputs = [1], p_outputs = [2], p_aux = [], p_scratch = [], p_imm = []\<rparr>"
  "get_gate_param echo_hints (hinted_eq w) =
    Some \<lparr>p_constants = [], p_inputs = [w, 1], p_outputs = [], p_aux = [], p_scratch = [], p_imm = []\<rparr>"
  by (simp_all add: get_gate_param_def gate_shape_def gate_param_for_shape_def shape_defs Let_def slice_def
      hinted_call_def hinted_eq_def reg_shape_def echo_hints_def)

lemma below_3: "w < 3 \<Longrightarrow> w = 0 \<or> w = 1 \<or> w = (2 :: nat)"
  by linarith

lemma echo_ok: "registry_ok echo_hints"
  by (auto simp: registry_ok_def echo_hints_def hint_ok_def min_def)

lemma sample_hinted_optimisable: "optimisable echo_hints sample_hinted"
proof -
  let ?g = sample_hinted and ?r = echo_hints
  have n: "length (gg_wires ?g) = 3" by (simp add: hinted_fields)
  have wf: "\<forall>d \<in> set (gg_gates ?g). gate_wf ?r (gg_wires ?g) d"
    by (simp add: hinted_fields gate_wf_def validate_shape_def gate_shape_def shape_wires_def shape_defs hinted_call_def hinted_eq_def
        reg_shape_def echo_hints_def)
  have "\<forall>d \<in> set (gg_gates ?g). gate_ready ?r (gg_wires ?g) d"
    using wf by (simp add: gate_ready_def hinted_fields gate_imm_ok_def imm_ok_def gate_fits_code_def consts_kept_def hinted_params
        gate_writes_def) (simp add: hinted_call_def hinted_eq_def)
  moreover have "ordered ?r (gg_gates ?g)"
    by (simp add: hinted_fields hinted_params gate_writes_def gate_uses_def gate_results_def)
  moreover have "\<not> loose_kind (gg_wires ?g ! w)" if "w < 3" for w
    using below_3[OF that] by (elim disjE) (simp_all add: hinted_fields loose_kind_def)
  then have "loose_wires ?g = {}" by (simp add: loose_wires_def n)
  ultimately have ready: "graph_ready ?r ?g"
    using n by (simp add: graph_ready_def written_first_def echo_ok hinted_fields)
  have "gg_wires ?g ! w = KConstant word \<longleftrightarrow> w = 0 \<and> word = ALL_ONE \<or> w = 1 \<and> word = 0" if "w < 3" for w word
    using below_3[OF that] by (elim disjE) (auto simp: hinted_fields ALL_ONE_def)
  moreover have "const_pool ?g word = Some w \<longleftrightarrow> w = 0 \<and> word = ALL_ONE \<or> w = 1 \<and> word = 0" for word w
    by (auto simp: sample_hinted_def ALL_ONE_def)
  ultimately have "const_pool ?g word = Some w \<longleftrightarrow> w < length (gg_wires ?g) \<and> gg_wires ?g ! w = KConstant word" for word w
    unfolding n by auto
  moreover have "all_one ?g = 0" "const_pool ?g ALL_ONE = Some 0" by (simp_all add: sample_hinted_def ALL_ONE_def)
  ultimately have "graph_wf ?r ?g" using wf by (simp add: graph_wf_def)
  moreover have "aux_private ?r (gg_gates ?g)" by (simp add: aux_private_def hinted_fields hinted_params)
  ultimately show ?thesis using ready by (simp add: optimisable_def)
qed

lemma hinted_consts: "consts_hold [KConstant ALL_ONE, KConstant 0, KInout] \<sigma> \<longleftrightarrow> \<sigma> 0 = ALL_ONE \<and> \<sigma> 1 = 0"
  by (simp add: consts_hold_def less_Suc_eq all_conj_distrib numeral_2_eq_2)

lemma hinted_sat: "gate_sat echo_hints hinted_call \<sigma>" "gate_sat echo_hints (hinted_eq w) \<sigma> \<longleftrightarrow> \<sigma> w = \<sigma> 1"
  by (simp_all add: gate_sat_def hinted_fields hinted_params gate_holds_def)

text \<open>The system of the build, with the constraint on the public word or without.\<close>

lemma hinted_verify:
  assumes "zero_constraints cs = [ZeroConstraint opnd]" "opnd = [] \<or> opnd = [svi_plain (ValueIndex 0x40000000)]"
    and "constants cs = [ALL_ONE, 0]" "n_inout cs = 1" "n_private cs = 0" "and_constraints cs = []" "imul_constraints cs = []"
      "bmul_constraints cs = []"
  shows "\<exists>v. cs_value_vec_from_data cs [x] [] = Some v \<and> (cs_verify cs v = Ok () \<longleftrightarrow> opnd = [] \<or> x = 0)"
proof -
  have wf: "system_wf cs" using assms
    by (auto simp: system_wf_def system_operands_def zero_operands_def operand_wf_def term_wf_def svi_plain_def svi_single_def
      svi_new_def svi_inner_def svi_outer_def shift_wf_def is_canonical_def is_identity_def IDENTITY_def valid_shift_def
      vi_segment_def vi_index_def segment_from_tag_def unat_and_mask cs_n_const_def)
  have "constraints_hold (instance_word cs [x] []) cs \<longleftrightarrow> opnd = [] \<or> x = 0"
    using assms by (auto simp: constraints_hold_def zero_holds_def svi_val_def svi_plain_def svi_single_def svi_new_def
      svi_inner_def svi_outer_def shift_apply_identity instance_word_def vi_segment_def vi_index_def segment_from_tag_def unat_and_mask)
  then show ?thesis using built_verify[of cs "[x]" "[]"] wf assms by (auto simp: cs_validate_spec)
qed

text \<open>C7: Constant propagation takes no account of what is public or pinned when it follows a hint.  On this
  graph, which is well-formed and whose gates force the public word to be zero, it moves the assertion from
  the public wire to the constant, and then every word on the public wire belongs to a valuation that
  satisfies all gates.  Built with the pass, the constraint system accepts every public word; built without
  it, by the default options, exactly zero.\<close>

theorem constant_propagation_frees_public_hint:
  "optimisable echo_hints sample_hinted \<and> gg_wires sample_hinted ! 2 = KInout \<and>
    \<not> (\<exists>\<sigma>. consts_hold (gg_wires sample_hinted) \<sigma> \<and> list_all (\<lambda>d. gate_sat echo_hints d \<sigma>) (gg_gates sample_hinted) \<and> \<sigma> 2 \<noteq> 0) \<and>
    (\<exists>g'. constant_propagation sample_hinted echo_hints = Some (Inr (1, g')) \<and> gg_wires g' = gg_wires sample_hinted \<and>
      map wires (gg_gates sample_hinted) = [[1, 2], [2, 1]] \<and> map wires (gg_gates g') = [[1, 2], [1, 1]] \<and>
      (\<forall>x. \<exists>\<sigma>. consts_hold (gg_wires g') \<sigma> \<and> list_all (\<lambda>d. gate_sat echo_hints d \<sigma>) (gg_gates g') \<and> \<sigma> 2 = x)) \<and>
    (\<exists>c. compile no_post (default_options\<lparr>enable_constant_propagation := True\<rparr>) {2} echo_hints tree_new [] sample_hinted = Some (Inr c) \<and>
      c_inout c = [2] \<and>
      (\<forall>x. \<exists>v. cs_value_vec_from_data (c_constraint_system c) [x] [] = Some v \<and> cs_verify (c_constraint_system c) v = Ok ())) \<and>
    (\<exists>c. compile no_post default_options {2} echo_hints tree_new [] sample_hinted = Some (Inr c) \<and> c_inout c = [2] \<and>
      (\<forall>x. \<exists>v. cs_value_vec_from_data (c_constraint_system c) [x] [] = Some v \<and>
        (cs_verify (c_constraint_system c) v = Ok () \<longleftrightarrow> x = 0)))"
proof (intro conjI)
  show "optimisable echo_hints sample_hinted" by (rule sample_hinted_optimisable)
  show "gg_wires sample_hinted ! 2 = KInout" by (simp add: hinted_fields)
  show "\<not> (\<exists>\<sigma>. consts_hold (gg_wires sample_hinted) \<sigma> \<and> list_all (\<lambda>d. gate_sat echo_hints d \<sigma>) (gg_gates sample_hinted) \<and> \<sigma> 2 \<noteq> 0)"
    by (simp add: hinted_fields hinted_consts hinted_sat)
  have "Option.bind (constant_propagation sample_hinted echo_hints)
      (case_sum (\<lambda>_. None) (\<lambda>(n, g'). Some (n, gg_gates g', gg_wires g'))) =
      Some (1, [hinted_call, hinted_eq 1], [KConstant ALL_ONE, KConstant 0, KInout])" by code_simp
  then obtain g' where g': "constant_propagation sample_hinted echo_hints = Some (Inr (1, g'))"
    "gg_gates g' = [hinted_call, hinted_eq 1]" "gg_wires g' = [KConstant ALL_ONE, KConstant 0, KInout]"
    by (auto dest!: bind_Inr)
  have "\<exists>\<sigma>. consts_hold (gg_wires g') \<sigma> \<and> list_all (\<lambda>d. gate_sat echo_hints d \<sigma>) (gg_gates g') \<and> \<sigma> 2 = x" for x
    by (rule exI[of _ "(\<lambda>_. 0)(0 := ALL_ONE, 2 := x)"]) (simp add: g' hinted_consts hinted_sat)
  then show "\<exists>g'. constant_propagation sample_hinted echo_hints = Some (Inr (1, g')) \<and> gg_wires g' = gg_wires sample_hinted \<and>
      map wires (gg_gates sample_hinted) = [[1, 2], [2, 1]] \<and> map wires (gg_gates g') = [[1, 2], [1, 1]] \<and>
      (\<forall>x. \<exists>\<sigma>. consts_hold (gg_wires g') \<sigma> \<and> list_all (\<lambda>d. gate_sat echo_hints d \<sigma>) (gg_gates g') \<and> \<sigma> 2 = x)"
    using g' by (intro exI[of _ g']) (simp add: hinted_fields)
  have built: "\<exists>c. compile no_post opts {2} echo_hints tree_new [] sample_hinted = Some (Inr c) \<and> c_inout c = [2] \<and>
      (\<forall>x. \<exists>v. cs_value_vec_from_data (c_constraint_system c) [x] [] = Some v \<and>
        (cs_verify (c_constraint_system c) v = Ok () \<longleftrightarrow> opnd = [] \<or> x = 0))"
    if built: "Option.bind (compile no_post opts {2} echo_hints tree_new [] sample_hinted)
      (case_sum (\<lambda>_. None) (\<lambda>c. Some (c_inout c, c_constraint_system c))) = Some ([2],
        \<lparr>constants = [ALL_ONE, 0], n_inout = 1, n_private = 0, zero_constraints = [ZeroConstraint opnd], and_constraints = [],
          imul_constraints = [], bmul_constraints = []\<rparr>)"
      and opnd: "opnd = [] \<or> opnd = [svi_plain (ValueIndex 0x40000000)]" for opts opnd
  proof -
    obtain c where c: "compile no_post opts {2} echo_hints tree_new [] sample_hinted = Some (Inr c)" "c_inout c = [2]"
      "c_constraint_system c = \<lparr>constants = [ALL_ONE, 0], n_inout = 1, n_private = 0, zero_constraints = [ZeroConstraint opnd],
        and_constraints = [], imul_constraints = [], bmul_constraints = []\<rparr>"
      using built by (auto dest!: bind_Inr)
    then show ?thesis using hinted_verify[of "c_constraint_system c" opnd] opnd by auto
  qed
  show "\<exists>c. compile no_post (default_options\<lparr>enable_constant_propagation := True\<rparr>) {2} echo_hints tree_new [] sample_hinted = Some (Inr c) \<and>
      c_inout c = [2] \<and>
      (\<forall>x. \<exists>v. cs_value_vec_from_data (c_constraint_system c) [x] [] = Some v \<and> cs_verify (c_constraint_system c) v = Ok ())"
    by (rule built[of _ "[]", simplified]) code_simp
  show "\<exists>c. compile no_post default_options {2} echo_hints tree_new [] sample_hinted = Some (Inr c) \<and> c_inout c = [2] \<and>
      (\<forall>x. \<exists>v. cs_value_vec_from_data (c_constraint_system c) [x] [] = Some v \<and>
        (cs_verify (c_constraint_system c) v = Ok () \<longleftrightarrow> x = 0))"
    by (rule built[of _ "[svi_plain (ValueIndex 0x40000000)]", simplified]) code_simp
qed

end
