(* ===== verification/Spec2Isabelle.thy ===== *)
theory Spec2Isabelle
  imports Binius_Prelude Carry Core_Word Checked_Arith Shift Value_Index Value_Vec Operand Value_Table
    GF2_Poly Carryless Ghash Constraint Constraint_System M4 Serialization Wire_Format
    Gate_Graph Use_Def Wire_Lowering Gate_Eval Gate_Words Gates Bytecode Executor Eval_Semantics Path_Tree
    Strided Eval_Contexts Gate_Code
    Graph_Run Scratch_Alloc Value_Alloc Used_Wires Assemble Wire_Places Assembled Circuit Circuit_Batch
    Rewire Forward Zero_Fold Const_Prop Cse Dce Optimise Sample_Graph Pass_Facts
    Shift_Summary Le_Graph Commit_Set Fusion_Patch Fusion_Run Fusion_Patches Fusion Fusion_Facts
    Emission Compile Compile_Facts
begin

text \<open>
  A verification development for Binius64, a proof system over 64-bit words.

  \<^bold>\<open>The program.\<close>  A circuit is compiled by \<open>crates/frontend\<close> to a constraint system
  (\<open>crates/core\<close>): zero, AND, IMUL and BMUL constraints over operands, each operand the exclusive
  or of shifted words of a value vector.  The prover and verifier crates prove that a value vector
  satisfies a system.  Everything they prove is defined by \<open>ConstraintSystem::verify\<close> and
  \<open>ConstraintSystemM4::verify\<close>, the reference checks modelled here, and by the field
  \<open>GF(2^128)\<close> of \<open>crates/field\<close>.

  \<^bold>\<open>Theories and the code they model.\<close>
  \<^item> \<open>Binius_Prelude\<close>: outcomes (\<open>Ok\<close>, \<open>Err\<close>, \<open>Panic\<close>), \<open>for\<close> loops with early return, word types.
  \<^item> \<open>Carry\<close>, \<open>Core_Word\<close>: \<open>core/src/word.rs\<close>, every operation of \<open>Word\<close>; \<open>Carry\<close> holds the
    theory of carry words that the adders and the gates share.
  \<^item> \<open>Checked_Arith\<close>: \<open>utils/src/checked_arithmetics.rs\<close>.
  \<^item> \<open>Shift\<close>: \<open>core/src/constraint_system/shift.rs\<close>, the eight variants, the composition of two shifts
    and the slice kernels.  \<open>Value_Index\<close>: \<open>value_index.rs\<close>.  \<open>Value_Vec\<close>: \<open>value_vec.rs\<close>,
    \<open>layout.rs\<close>.  \<open>Operand\<close>: shifted value indices and operand evaluation over the interface
    \<open>WordSource\<close>, a locale.  \<open>Value_Table\<close>: \<open>value_table.rs\<close>, the batch form of a vector.
  \<^item> \<open>GF2_Poly\<close>: polynomials over GF(2) as a type with its ring laws, the specification of
    carry-less arithmetic.  \<open>Carryless\<close>: \<open>univariate_mul_utils_128.rs\<close>.  \<open>Ghash\<close>:
    \<open>arch/portable/arithmetic/ghash.rs\<close>.
  \<^item> \<open>Constraint\<close>: \<open>constraint.rs\<close>, the four kinds and their checks.  \<open>Constraint_System\<close>:
    \<open>system.rs\<close> and its errors.  \<open>M4\<close>: \<open>m4.rs\<close> and \<open>m4/witness.rs\<close>, systems of chips calling chips.
  \<^item> \<open>Serialization\<close>: \<open>utils/src/serialization.rs\<close>, with the contract of a byte format as the locales
    \<open>codec\<close> and \<open>strict_codec\<close>.  \<open>Wire_Format\<close>: the formats of words, shifts, constraints, systems,
    value segments and proofs.
  \<^item> \<open>Gate_Graph\<close>, \<open>Use_Def\<close>: \<open>frontend/src/ir/mod.rs\<close>, \<open>ir/hints.rs\<close>, the shapes of \<open>gates/*.rs\<close>: wires,
    gates, emission, and the index of readers.  A hint is a parameter (its shape and function), with
    its documented contract as \<open>hint_ok\<close>.
  \<^item> \<open>Wire_Lowering\<close>: \<open>frontend/src/lower\<close>, expressions over wires, the constraint builder and its
    lowering to operands.  \<open>Gates\<close>: the constraints of the 21 gate kinds, over the word equations of
    \<open>Gate_Words\<close>; \<open>Gate_Eval\<close>: \<open>eval_form/const_eval.rs\<close>, the value of a gate.
  \<^item> \<open>Bytecode\<close>, \<open>Executor\<close>: \<open>eval_form/opcode.rs\<close>, \<open>builder.rs\<close>, \<open>exec.rs\<close>: the instruction bytes and the
    interpreter over any evaluation context.  \<open>Eval_Semantics\<close> gives an instruction its meaning on a
    column of registers, and the contract of a context as the locale \<open>eval_ctx\<close>; \<open>Eval_Contexts\<close>
    (\<open>scalar.rs\<close>, \<open>batch.rs\<close>) interprets it for one value vector and for a strided array of many
    (\<open>Strided\<close>: \<open>utils/src/strided_array.rs\<close>).  \<open>Gate_Code\<close>: the instructions each gate kind emits.
  \<^item> \<open>Path_Tree\<close>: \<open>ir/path.rs\<close>, the names under which failures are reported.
  \<^item> \<open>Graph_Run\<close>: the program of a whole graph (\<open>eval_form/mod.rs\<close>) and what running it computes, gate
    by gate.  \<open>Scratch_Alloc\<close>, \<open>Value_Alloc\<close>: \<open>pass/layout\<close>, the slots of uncommitted values and the
    place of every wire.  \<open>Used_Wires\<close>: which wires the constraints of a graph mention.  \<open>Assemble\<close>:
    the end of \<open>CircuitBuilder::compile\<close> (\<open>builder/mod.rs\<close>), from kept gates to a circuit;
    \<open>Wire_Places\<close> and \<open>Assembled\<close> say what it returns (\<open>assembled\<close>) of a graph that is
    \<open>graph_ready\<close>: gates in order, every value written before it is read.
  \<^item> \<open>Circuit\<close>, \<open>Circuit_Batch\<close>: \<open>artifact/circuit.rs\<close>, \<open>artifact/witness.rs\<close>: filling the wires of one
    instance or of a batch, and evaluating the rest.
  \<^item> \<open>Rewire\<close>: moving the readers of a wire (\<open>ir/mod.rs\<close>), and when a rewired graph still means the same;
    \<open>Forward\<close>: moving the readers of a computed wire to one that holds the same word.  \<open>Zero_Fold\<close>,
    \<open>Const_Prop\<close>, \<open>Cse\<close>, \<open>Dce\<close>: \<open>pass/zero_fold.rs\<close>, \<open>const_prop.rs\<close>, \<open>cse.rs\<close>, \<open>dce.rs\<close>, on graphs that
    are \<open>optimisable\<close>: ready, with working wires no gate reads.  \<open>Optimise\<close>: the passes in the order of
    \<open>compile\<close>.  \<open>Sample_Graph\<close>, \<open>Pass_Facts\<close>: what each pass promises, on a small graph.
  \<^item> Gate fusion, \<open>pass/fusion\<close>: \<open>Le_Graph\<close> (\<open>legraph.rs\<close>) builds the graph of linear definitions and
    their uses; \<open>Shift_Summary\<close> and \<open>Commit_Set\<close> (\<open>commit_set.rs\<close>) decide which definitions stay
    wires; \<open>Fusion_Patch\<close> (\<open>patch.rs\<close>, \<open>mod.rs\<close>) rebuilds the constraints.  \<open>Fusion_Run\<close> relates the
    loop over pending terms to inlining as a function, \<open>Fusion_Patches\<close> the patches to the
    constraints they replace, \<open>Fusion\<close> the whole pass to the builder it was given, with what is
    promised in \<open>Fusion_Facts\<close>.  The traversal of the graph (petgraph's depth-first post-order) is a
    parameter with the contract \<open>visits\<close>.
  \<^item> \<open>Compile\<close>: all of \<open>CircuitBuilder::compile\<close> (\<open>builder/mod.rs\<close>), from the graph and the pinned wires to the
    circuit.  \<open>Emission\<close> shows that what the gates emit can be fused: each linear definition reads wires
    defined before it.  \<open>Compile_Facts\<close> states what a build promises, on the sample of \<open>Circuit\<close>.

  \<^bold>\<open>What the lemmas show.\<close>  The word operations compute the exact sums, differences and products.
  Composing shifts agrees with applying them in turn.  Carry-less multiplication by integer
  multiplication is polynomial multiplication, so the field operations are those of the quotient
  ring.  Validation accepts exactly the well-formed systems and never panics; verification of a
  validated system accepts exactly the satisfying assignments and never panics, for plain systems
  and for systems of chips, whatever holds the chip instances.  Every byte format reads back what it
  writes, reports truncation and accepts no second spelling of a value.  A gate's constraints hold
  exactly of the values the gate computes; its instructions compute those values; lowering wire
  constraints to operands keeps their meaning; a batch is evaluated as its columns one by one are.
  Values alive together never share a slot, so the program of a graph computes the values of its
  gates; a circuit assembled from a ready graph is valid, and the vector it fills from any inputs is
  accepted exactly when no assertion of its gates failed.  Every pass over the gate graph ends, keeps
  what its honest runs compute, and drops or rewires constraints only where what satisfies the rest
  still extends to all of them.  Gate fusion never runs out of the two shifts a term may carry, and its
  constraints say what the old ones say of the wires it keeps.  A whole build ends in the report of a
  gate that always fails, or in a valid circuit that runs the gates it was built from and whose
  constraint system accepts a run exactly when no assertion fails, and nothing else than words that
  satisfy every gate.

  \<^bold>\<open>Bounds.\<close>  A \<open>usize\<close> is a natural number; its overflow is modelled where the code checks it
  (\<open>checked_add\<close>, shifts by an instance count).  A failed assertion, an index out of range or an
  \<open>unwrap\<close> of nothing is \<open>Panic\<close>, or \<open>None\<close> where nothing else can fail.  Constants beyond \<open>2 ^ 30\<close>
  cannot be named by an index, which the properties of \<open>verify\<close> state.  Every loop is a recursion on
  the list it walks, so no fuel is needed; the interpreter loop ends because every instruction
  consumes bytes, and path rendering because a parent precedes its node.  Terms, registers and
  bytecode counts are kept below \<open>2 ^ 32\<close>, the width the code stores them in, by hypotheses.

  \<^bold>\<open>Not modelled.\<close>  The architecture-specific forms of the field arithmetic (the portable form
  stands for them), the contents of a buffer after a failed write, formatting of values and errors,
  the frontend's user-facing builder, the counters of fusion, the tiled parallel form of a
  batch, chips of circuits, and the prover, verifier, circuit-library and benchmark crates; the manifest lists them.
\<close>

end
